(* ===== verification/Prelude.thy ===== *)
theory Prelude
  imports Main
begin

text \<open>
  Shared vocabulary of the development: Go's \<open>(value, error)\<close> results as sums, the
  outcome of an atomic file replacement, the JSON files the host and the client keep,
  instants and durations, and the generic list lemmas the components use.

  A time \<open>time.Time\<close> is an \<open>int\<close> count of nanoseconds since Go's zero time, so that
  \<open>IsZero\<close> is equality with \<open>0\<close>; a \<open>time.Duration\<close> is an \<open>int\<close> of nanoseconds.
\<close>

named_theorems go_simps \<open>unfolding rules for the small Go library functions\<close>
named_theorems inv_intros \<open>preservation lemmas of the component invariants\<close>

type_synonym go_time = int
type_synonym duration = int

abbreviation (input) zeroTime :: go_time where "zeroTime \<equiv> 0"

definition second :: duration where "second = 1000000000"
definition minute :: duration where "minute = 60 * second"

text \<open>\<open>t.Sub(u)\<close> saturates at the range of an int64.\<close>

definition maxInt64 :: int where "maxInt64 = 2 ^ 63 - 1"
definition minInt64 :: int where "minInt64 = - (2 ^ 63)"

definition timeSub :: "go_time \<Rightarrow> go_time \<Rightarrow> duration" where
  "timeSub t u = max minInt64 (min maxInt64 (t - u))"

lemma timeSub_ge_iff:
  "0 < d \<Longrightarrow> d \<le> maxInt64 \<Longrightarrow> d \<le> timeSub t u \<longleftrightarrow> d \<le> t - u"
  unfolding timeSub_def maxInt64_def minInt64_def by auto

section \<open>Results\<close>

text \<open>\<open>andThen\<close> is the early return on an error: the rest runs on a value only.\<close>

definition andThen :: "'e + 'a \<Rightarrow> ('a \<Rightarrow> 'e + 'b) \<Rightarrow> 'e + 'b" where
  "andThen r f = (case r of Inl e \<Rightarrow> Inl e | Inr a \<Rightarrow> f a)"

lemma andThen_simps [simp]:
  "andThen (Inl e) f = Inl e"
  "andThen (Inr a) f = f a"
  by (simp_all add: andThen_def)

lemma andThen_Inr_iff: "andThen r f = Inr b \<longleftrightarrow> (\<exists>a. r = Inr a \<and> f a = Inr b)"
  by (cases r) auto

definition isOk :: "'e + 'a \<Rightarrow> bool" where
  "isOk r = (case r of Inl _ \<Rightarrow> False | Inr _ \<Rightarrow> True)"

lemma isOk_simps [simp]: "isOk (Inl e) = False" "isOk (Inr a) = True"
  by (simp_all add: isOk_def)

lemma isOk_iff: "isOk r \<longleftrightarrow> (\<exists>a. r = Inr a)"
  by (cases r) auto

section \<open>JSON files replaced atomically\<close>

text \<open>
  A JSON file as a reader finds it: absent, unreadable, not parsing, or holding a value.
  \<open>writeJSONAtomically\<close> (host/json\_store.go, pathutil/atomic.go) either leaves the old
  content (any step up to the rename fails), or replaces it; the final sync of the
  directory may still report an error after the new content is in place. Which of the
  three happens is the environment's choice, an argument of the model.
\<close>

datatype 'a jsonFile = Missing | Unreadable | Corrupt | Stored 'a

datatype writeOutcome = WriteOk | WriteFailsBefore | WriteFailsAfter

datatype ioError = ReadError | ParseError | WriteError

definition writeJSONAtomically ::
  "writeOutcome \<Rightarrow> 'a \<Rightarrow> 'a jsonFile \<Rightarrow> 'a jsonFile \<times> (ioError + unit)" where
  "writeJSONAtomically w v f =
     (case w of
        WriteOk \<Rightarrow> (Stored v, Inr ())
      | WriteFailsBefore \<Rightarrow> (f, Inl WriteError)
      | WriteFailsAfter \<Rightarrow> (Stored v, Inl WriteError))"

definition readJSON :: "'a \<Rightarrow> 'a jsonFile \<Rightarrow> ioError + 'a" where
  "readJSON dflt f =
     (case f of
        Missing \<Rightarrow> Inr dflt
      | Unreadable \<Rightarrow> Inl ReadError
      | Corrupt \<Rightarrow> Inl ParseError
      | Stored v \<Rightarrow> Inr v)"

lemma readJSON_Stored [simp]: "readJSON d (Stored v) = Inr v"
  by (simp add: readJSON_def)

lemma writeJSON_ok:
  "writeJSONAtomically w v f = (f', Inr u) \<Longrightarrow> w = WriteOk \<and> f' = Stored v"
  by (cases w) (auto simp: writeJSONAtomically_def)

lemma writeJSON_old_or_new:
  "writeJSONAtomically w v f = (f', r) \<Longrightarrow> f' = f \<or> f' = Stored v"
  by (cases w) (auto simp: writeJSONAtomically_def)

text \<open>The contract a client of a stored value relies on.\<close>

locale json_store =
  fixes load :: "'f \<Rightarrow> 'e + 'v"
    and save :: "'w \<Rightarrow> 'v \<Rightarrow> 'f \<Rightarrow> 'f \<times> ('e2 + unit)"
  assumes load_save: "save w v f = (f', Inr u) \<Longrightarrow> load f' = Inr v"
    and save_atomic: "save w v f = (f', r) \<Longrightarrow> f' = f \<or> load f' = Inr v"
begin

lemma failed_save_keeps_or_replaces:
  assumes "load f = Inr old" and "save w v f = (f', r)"
  shows "load f' \<in> {Inr old, Inr v}"
  using save_atomic [OF assms(2)] assms(1) by auto

lemma save_then_load_ok: "snd (save w v f) = Inr u \<Longrightarrow> load (fst (save w v f)) = Inr v"
  by (cases "save w v f") (auto dest: load_save)

end

interpretation json: json_store "readJSON d" writeJSONAtomically
  by unfold_locales (auto dest: writeJSON_ok writeJSON_old_or_new)

section \<open>Lists\<close>

lemma filter_length_less:
  "x \<in> set xs \<Longrightarrow> \<not> P x \<Longrightarrow> length (filter P xs) < length xs"
  by (induction xs) (auto simp: le_imp_less_Suc)

lemma takeLast_length: "length (drop (length xs - n) xs) = min n (length xs)"
  by auto

definition takeLast :: "nat \<Rightarrow> 'a list \<Rightarrow> 'a list" where
  "takeLast n xs = drop (length xs - n) xs"

lemma length_takeLast [simp]: "length (takeLast n xs) = min n (length xs)"
  by (auto simp: takeLast_def)

lemma takeLast_suffix: "\<exists>ys. xs = ys @ takeLast n xs"
  unfolding takeLast_def by (metis append_take_drop_id)

lemma set_takeLast: "set (takeLast n xs) \<subseteq> set xs"
  by (simp add: takeLast_def set_drop_subset)

end
