(* ===== verification/GoStrings.thy ===== *)
theory GoStrings
  imports Prelude
begin

text \<open>
  The parts of Go's \<open>strings\<close>, \<open>unicode/utf8\<close> and \<open>strconv\<close> packages the program uses.
  A Go string is its list of bytes (\<open>char\<close>), so \<open>length\<close> is Go's \<open>len\<close>.
\<close>

section \<open>Prefixes and suffixes\<close>

definition hasPrefix :: "string \<Rightarrow> string \<Rightarrow> bool" where
  "hasPrefix s p \<longleftrightarrow> take (length p) s = p"

definition hasSuffix :: "string \<Rightarrow> string \<Rightarrow> bool" where
  "hasSuffix s p \<longleftrightarrow> length p \<le> length s \<and> drop (length s - length p) s = p"

definition trimPrefix :: "string \<Rightarrow> string \<Rightarrow> string" where
  "trimPrefix s p = (if hasPrefix s p then drop (length p) s else s)"

definition trimSuffix :: "string \<Rightarrow> string \<Rightarrow> string" where
  "trimSuffix s p = (if hasSuffix s p then take (length s - length p) s else s)"

lemma hasPrefix_iff: "hasPrefix s p \<longleftrightarrow> (\<exists>t. s = p @ t)"
  unfolding hasPrefix_def by (metis append_eq_conv_conj append_take_drop_id)

lemma hasSuffix_iff: "hasSuffix s p \<longleftrightarrow> (\<exists>t. s = t @ p)"
proof
  assume "hasSuffix s p"
  then show "\<exists>t. s = t @ p"
    unfolding hasSuffix_def by (metis append_take_drop_id)
qed (auto simp: hasSuffix_def)

lemma hasPrefix_append [simp]: "hasPrefix (p @ t) p"
  by (simp add: hasPrefix_def)

lemma hasPrefix_Nil [simp]: "hasPrefix s []"
  by (simp add: hasPrefix_def)

lemma hasPrefix_Nil_left [simp]: "hasPrefix [] p \<longleftrightarrow> p = []"
  by (auto simp: hasPrefix_def)

lemma hasPrefix_Cons [simp]: "hasPrefix (x # s) (y # p) \<longleftrightarrow> x = y \<and> hasPrefix s p"
  by (auto simp: hasPrefix_def)

lemma hasPrefix_trans_append: "hasPrefix (s @ t) p \<Longrightarrow> length p \<le> length s \<Longrightarrow> hasPrefix s p"
  by (simp add: hasPrefix_def)

lemma hasPrefix_mono: "hasPrefix s p \<Longrightarrow> hasPrefix (s @ t) p"
  by (auto simp: hasPrefix_iff)

lemma trimPrefix_append [simp]: "trimPrefix (p @ t) p = t"
  by (simp add: trimPrefix_def)

section \<open>Splitting and joining\<close>

text \<open>\<open>strings.Split(s, sep)\<close> and \<open>strings.Join\<close> for a one-byte separator.\<close>

fun splitOn :: "char \<Rightarrow> string \<Rightarrow> string list" where
  "splitOn c [] = [[]]"
| "splitOn c (x # xs) =
     (if x = c then [] # splitOn c xs
      else (case splitOn c xs of [] \<Rightarrow> [[x]] | y # ys \<Rightarrow> (x # y) # ys))"

fun joinOn :: "char \<Rightarrow> string list \<Rightarrow> string" where
  "joinOn c [] = []"
| "joinOn c [x] = x"
| "joinOn c (x # y # ys) = x @ c # joinOn c (y # ys)"

lemma splitOn_nonempty [simp]: "splitOn c s \<noteq> []"
  by (induction s) (auto split: list.splits)

lemma joinOn_Cons: "xs \<noteq> [] \<Longrightarrow> joinOn c (x # xs) = x @ c # joinOn c xs"
  by (cases xs) auto

lemma joinOn_snoc: "xs \<noteq> [] \<Longrightarrow> joinOn c (xs @ [x]) = joinOn c xs @ c # x"
  by (induction c xs rule: joinOn.induct) (auto simp: joinOn_Cons)

lemma joinOn_splitOn [simp]: "joinOn c (splitOn c s) = s"
proof (induction s)
  case Nil
  then show ?case by simp
next
  case (Cons x s)
  show ?case
  proof (cases "splitOn c s")
    case Nil
    then show ?thesis by simp
  next
    case (Cons y ys)
    with Cons.IH show ?thesis by (cases ys) (auto simp: joinOn_Cons)
  qed
qed

lemma splitOn_free: "c \<notin> set s \<Longrightarrow> splitOn c s = [s]"
  by (induction s) auto

lemma splitOn_append: "c \<notin> set s \<Longrightarrow> splitOn c (s @ c # t) = s # splitOn c t"
  by (induction s) auto

lemma splitOn_joinOn:
  "xs \<noteq> [] \<Longrightarrow> \<forall>x \<in> set xs. c \<notin> set x \<Longrightarrow> splitOn c (joinOn c xs) = xs"
  by (induction c xs rule: joinOn.induct) (auto simp: splitOn_free splitOn_append)

lemma splitOn_parts_free: "x \<in> set (splitOn c s) \<Longrightarrow> c \<notin> set x"
  by (induction s arbitrary: x) (auto split: if_splits list.splits)

lemma splitOn_single: "splitOn c s = [x] \<Longrightarrow> x = s \<and> c \<notin> set s"
  by (metis joinOn.simps(2) joinOn_splitOn list.set_intros(1) splitOn_parts_free)

lemma splitOn_subset: "x \<in> set (splitOn c s) \<Longrightarrow> set x \<subseteq> set s"
  by (induction s arbitrary: x) (fastforce split: if_splits list.splits)+

lemma splitOn_eq_parts: "splitOn c s = splitOn c t \<Longrightarrow> s = t"
  by (metis joinOn_splitOn)

text \<open>\<open>strings.Cut(s, sep)\<close> for a one-byte separator: the parts around the first one.\<close>

fun cut :: "char \<Rightarrow> string \<Rightarrow> string \<times> string \<times> bool" where
  "cut c [] = ([], [], False)"
| "cut c (x # xs) =
     (if x = c then ([], xs, True)
      else (let (b, a, ok) = cut c xs in (x # b, a, ok)))"

lemma cut_found: "cut c s = (b, a, True) \<Longrightarrow> s = b @ c # a \<and> c \<notin> set b"
  by (induction s arbitrary: b) (auto split: if_splits prod.splits)

lemma cut_not_found: "cut c s = (b, a, False) \<Longrightarrow> b = s \<and> a = [] \<and> c \<notin> set s"
  by (induction s arbitrary: b) (auto split: if_splits prod.splits)

lemma cut_append: "c \<notin> set b \<Longrightarrow> cut c (b @ c # a) = (b, a, True)"
  by (induction b) auto

lemma cut_free: "c \<notin> set b \<Longrightarrow> cut c b = (b, [], False)"
  by (induction b) auto

text \<open>\<open>strings.LastIndex\<close> of a byte, \<open>-1\<close> when it does not occur.\<close>

fun lastIndex :: "char \<Rightarrow> string \<Rightarrow> int" where
  "lastIndex c [] = -1"
| "lastIndex c (x # xs) =
     (let i = lastIndex c xs in if 0 \<le> i then i + 1 else if x = c then 0 else -1)"

lemma lastIndex_ge: "-1 \<le> lastIndex c s"
  by (induction s) (auto simp: Let_def)

lemma lastIndex_less: "lastIndex c s < int (length s)"
  by (induction s) (auto simp: Let_def)

lemma lastIndex_none [simp]: "lastIndex c s = -1 \<longleftrightarrow> c \<notin> set s"
proof (induction s)
  case (Cons x s)
  then show ?case using lastIndex_ge [of c s] by (auto simp: Let_def)
qed simp

lemma lastIndex_neg: "lastIndex c s < 0 \<longleftrightarrow> c \<notin> set s"
  using lastIndex_ge [of c s] lastIndex_none [of c s] by linarith

lemma lastIndex_append:
  "lastIndex c (s @ t) = (if c \<in> set t then int (length s) + lastIndex c t else lastIndex c s)"
proof (induction s)
  case Nil
  then show ?case by (cases "c \<in> set t") auto
next
  case (Cons x s)
  have "c \<in> set t \<Longrightarrow> 0 \<le> lastIndex c t"
    using lastIndex_neg [of c t] by linarith
  with Cons show ?case by (auto simp: Let_def)
qed

text \<open>\<open>strings.Contains\<close> and \<open>strings.ContainsAny\<close> (of ASCII bytes).\<close>

fun containsSub :: "string \<Rightarrow> string \<Rightarrow> bool" where
  "containsSub [] p = (p = [])"
| "containsSub (x # s) p = (hasPrefix (x # s) p \<or> containsSub s p)"

definition containsAny :: "string \<Rightarrow> string \<Rightarrow> bool" where
  "containsAny s cs = list_ex (\<lambda>c. c \<in> set cs) s"

lemma containsSub_iff: "containsSub s p \<longleftrightarrow> (\<exists>u v. s = u @ p @ v)"
proof (induction s)
  case Nil
  then show ?case by auto
next
  case (Cons x s)
  have "(\<exists>u v. x # s = u @ p @ v) \<longleftrightarrow> (\<exists>v. x # s = p @ v) \<or> (\<exists>u v. s = u @ p @ v)"
    by (metis append_Cons append_Nil neq_Nil_conv list.inject)
  with Cons show ?case by (auto simp: hasPrefix_iff)
qed

lemma containsAny_iff: "containsAny s cs \<longleftrightarrow> set s \<inter> set cs \<noteq> {}"
  by (auto simp: containsAny_def list_ex_iff)

end
