(* ===== verification/GoRunes.thy ===== *)
theory GoRunes
  imports GoStrings
begin

text \<open>
  Go strings read as runes: UTF-8 decoding as \<open>range s\<close> and \<open>unicode/utf8\<close> do it, the
  white space \<open>strings.TrimSpace\<close> removes, \<open>unicode.IsDigit\<close>, \<open>strconv.Atoi\<close> on a string
  of digits, and the case folding behind \<open>strings.EqualFold\<close> against an ASCII word.
\<close>

section \<open>White space\<close>

text \<open>
  \<open>unicode.IsSpace\<close>, each rune by its UTF-8 bytes. A string starts with one of these runes
  iff it starts with one of these byte sequences, and (UTF-8 being self-synchronising)
  ends with one iff it ends with one of them, so trimming works on bytes.
\<close>

definition spaceRunes :: "string list" where
  "spaceRunes =
     [[CHR 0x09], [CHR 0x0A], [CHR 0x0B], [CHR 0x0C], [CHR 0x0D], [CHR 0x20],
      [CHR 0xC2, CHR 0x85], [CHR 0xC2, CHR 0xA0], [CHR 0xE1, CHR 0x9A, CHR 0x80],
      [CHR 0xE2, CHR 0x80, CHR 0x80], [CHR 0xE2, CHR 0x80, CHR 0x81],
      [CHR 0xE2, CHR 0x80, CHR 0x82], [CHR 0xE2, CHR 0x80, CHR 0x83],
      [CHR 0xE2, CHR 0x80, CHR 0x84], [CHR 0xE2, CHR 0x80, CHR 0x85],
      [CHR 0xE2, CHR 0x80, CHR 0x86], [CHR 0xE2, CHR 0x80, CHR 0x87],
      [CHR 0xE2, CHR 0x80, CHR 0x88], [CHR 0xE2, CHR 0x80, CHR 0x89],
      [CHR 0xE2, CHR 0x80, CHR 0x8A], [CHR 0xE2, CHR 0x80, CHR 0xA8],
      [CHR 0xE2, CHR 0x80, CHR 0xA9], [CHR 0xE2, CHR 0x80, CHR 0xAF],
      [CHR 0xE2, CHR 0x81, CHR 0x9F], [CHR 0xE3, CHR 0x80, CHR 0x80]]"

fun stripOne :: "string list \<Rightarrow> string \<Rightarrow> string option" where
  "stripOne [] s = None"
| "stripOne (w # ws) s =
     (if w \<noteq> [] \<and> hasPrefix s w then Some (drop (length w) s) else stripOne ws s)"

lemma stripOne_shorter: "stripOne ws s = Some t \<Longrightarrow> length t < length s"
  by (induction ws) (auto split: if_splits simp: hasPrefix_iff)

function stripAll :: "string list \<Rightarrow> string \<Rightarrow> string" where
  "stripAll ws s = (case stripOne ws s of None \<Rightarrow> s | Some t \<Rightarrow> stripAll ws t)"
  by pat_completeness auto
termination
  by (relation "measure (\<lambda>(ws, s). length s)") (auto dest: stripOne_shorter)

declare stripAll.simps [simp del]

definition trimLeftSpace :: "string \<Rightarrow> string" where
  "trimLeftSpace s = stripAll spaceRunes s"

definition trimRightSpace :: "string \<Rightarrow> string" where
  "trimRightSpace s = rev (stripAll (map rev spaceRunes) (rev s))"

definition trimSpace :: "string \<Rightarrow> string" where
  "trimSpace s = trimRightSpace (trimLeftSpace s)"

lemma stripOne_None_iff: "stripOne ws s = None \<longleftrightarrow> (\<forall>w \<in> set ws. w \<noteq> [] \<longrightarrow> \<not> hasPrefix s w)"
  by (induction ws) auto

lemma stripAll_None: "stripOne ws (stripAll ws s) = None"
proof (induction ws s rule: stripAll.induct)
  case (1 ws s)
  then show ?case
    by (cases "stripOne ws s") (simp_all add: stripAll.simps [of ws s])
qed

lemma stripAll_id: "stripOne ws s = None \<Longrightarrow> stripAll ws s = s"
  by (simp add: stripAll.simps [of ws s])

lemma stripOne_suffix: "stripOne ws s = Some t \<Longrightarrow> \<exists>u. s = u @ t"
  by (induction ws) (auto split: if_splits simp: hasPrefix_iff)

lemma stripAll_suffix: "\<exists>u. s = u @ stripAll ws s"
proof (induction ws s rule: stripAll.induct)
  case (1 ws s)
  show ?case
  proof (cases "stripOne ws s")
    case None
    then show ?thesis by (simp add: stripAll.simps [of ws s])
  next
    case (Some t)
    with 1 obtain u where "t = u @ stripAll ws t" by blast
    moreover from Some obtain v where "s = v @ t" using stripOne_suffix by blast
    ultimately show ?thesis
      using Some by (metis append_assoc option.simps(5) stripAll.simps)
  qed
qed

lemma trimRightSpace_prefix: "\<exists>u. s = trimRightSpace s @ u"
proof -
  obtain u where "rev s = u @ stripAll (map rev spaceRunes) (rev s)"
    using stripAll_suffix by blast
  then have "rev (rev s) = rev (stripAll (map rev spaceRunes) (rev s)) @ rev u"
    by (metis rev_append)
  then show ?thesis by (auto simp: trimRightSpace_def)
qed

lemma trimSpace_factor: "\<exists>u v. s = u @ trimSpace s @ v"
  unfolding trimSpace_def
  by (metis append_assoc stripAll_suffix trimLeftSpace_def trimRightSpace_prefix)

lemma set_trimSpace: "set (trimSpace s) \<subseteq> set s"
proof -
  obtain u v where "s = u @ trimSpace s @ v" using trimSpace_factor by blast
  then have "set s = set u \<union> set (trimSpace s) \<union> set v"
    by (metis set_append sup_assoc)
  then show ?thesis by blast
qed

text \<open>No white space at either end: what \<open>TrimSpace\<close> leaves alone.\<close>

definition trimmed :: "string \<Rightarrow> bool" where
  "trimmed s \<longleftrightarrow>
     stripOne spaceRunes s = None \<and> stripOne (map rev spaceRunes) (rev s) = None"

lemma trimSpace_id: "trimmed s \<Longrightarrow> trimSpace s = s"
  by (simp add: trimmed_def trimSpace_def trimLeftSpace_def trimRightSpace_def stripAll_id)

lemma trimmed_trimSpace: "trimmed (trimSpace s)"
proof -
  have right: "stripOne (map rev spaceRunes) (rev (trimSpace s)) = None"
    by (simp add: trimSpace_def trimRightSpace_def stripAll_None)
  have "stripOne spaceRunes (trimLeftSpace s) = None"
    by (simp add: trimLeftSpace_def stripAll_None)
  moreover obtain u where "trimLeftSpace s = trimSpace s @ u"
    unfolding trimSpace_def using trimRightSpace_prefix by blast
  ultimately have "stripOne spaceRunes (trimSpace s) = None"
    by (metis hasPrefix_mono stripOne_None_iff)
  with right show ?thesis by (simp add: trimmed_def)
qed

lemma trimSpace_idem [simp]: "trimSpace (trimSpace s) = trimSpace s"
  by (rule trimSpace_id) (rule trimmed_trimSpace)

lemma trimmed_Nil [simp]: "trimmed []"
  by (simp add: trimmed_def stripOne_None_iff spaceRunes_def)

lemma trimSpace_Nil [simp]: "trimSpace [] = []"
  by (rule trimSpace_id) simp

text \<open>A string whose first and last bytes are printable ASCII is trimmed.\<close>

definition plainByte :: "char \<Rightarrow> bool" where
  "plainByte c \<longleftrightarrow> 0x20 < (of_char c :: nat) \<and> (of_char c :: nat) < 0x80"

lemma stripOne_plain: "plainByte c \<Longrightarrow> stripOne spaceRunes (c # s) = None"
  unfolding stripOne_None_iff spaceRunes_def plainByte_def by auto

lemma stripOne_rev_plain: "plainByte c \<Longrightarrow> stripOne (map rev spaceRunes) (c # s) = None"
  unfolding stripOne_None_iff spaceRunes_def plainByte_def by auto

lemma trimmed_plain: "plainByte (hd s) \<Longrightarrow> plainByte (last s) \<Longrightarrow> trimmed s"
proof (cases "s = []")
  case False
  assume "plainByte (hd s)" and "plainByte (last s)"
  with False show ?thesis
    unfolding trimmed_def
    by (metis hd_rev list.collapse rev_is_Nil_conv stripOne_plain stripOne_rev_plain)
qed simp

lemma trimmed_all_plain: "\<forall>c \<in> set s. plainByte c \<Longrightarrow> trimmed s"
  by (cases "s = []") (auto intro!: trimmed_plain)

section \<open>Runes\<close>

abbreviation byte :: "char \<Rightarrow> nat" where "byte c \<equiv> of_char c"

definition runeError :: nat where "runeError = 0xFFFD"

definition contByte :: "nat \<Rightarrow> bool" where "contByte b \<longleftrightarrow> 0x80 \<le> b \<and> b \<le> 0xBF"

text \<open>
  \<open>utf8.DecodeRuneInString\<close>: the first rune and its width, width 1 for a bad byte. The
  helpers give the value of a sequence of two, three or four bytes, \<open>None\<close> when the bytes
  after the first are not what it announces.
\<close>

definition decode2 :: "nat \<Rightarrow> string \<Rightarrow> nat option" where
  "decode2 b s = (case s of
     c1 # _ \<Rightarrow> if contByte (byte c1) then Some ((b - 0xC0) * 64 + (byte c1 - 0x80)) else None
   | [] \<Rightarrow> None)"

definition decode3 :: "nat \<Rightarrow> string \<Rightarrow> nat option" where
  "decode3 b s = (case s of
     c1 # c2 # _ \<Rightarrow>
       if contByte (byte c1) \<and> contByte (byte c2)
          \<and> (b = 0xE0 \<longrightarrow> 0xA0 \<le> byte c1) \<and> (b = 0xED \<longrightarrow> byte c1 \<le> 0x9F)
       then Some ((b - 0xE0) * 4096 + (byte c1 - 0x80) * 64 + (byte c2 - 0x80)) else None
   | _ \<Rightarrow> None)"

definition decode4 :: "nat \<Rightarrow> string \<Rightarrow> nat option" where
  "decode4 b s = (case s of
     c1 # c2 # c3 # _ \<Rightarrow>
       if contByte (byte c1) \<and> contByte (byte c2) \<and> contByte (byte c3)
          \<and> (b = 0xF0 \<longrightarrow> 0x90 \<le> byte c1) \<and> (b = 0xF4 \<longrightarrow> byte c1 \<le> 0x8F)
       then Some ((b - 0xF0) * 262144 + (byte c1 - 0x80) * 4096
                  + (byte c2 - 0x80) * 64 + (byte c3 - 0x80)) else None
   | _ \<Rightarrow> None)"

definition orBad :: "nat option \<Rightarrow> nat \<Rightarrow> nat \<times> nat" where
  "orBad v n = (case v of Some r \<Rightarrow> (r, n) | None \<Rightarrow> (runeError, 1))"

fun decodeRune :: "string \<Rightarrow> nat \<times> nat" where
  "decodeRune [] = (runeError, 0)"
| "decodeRune (c # s) =
     (if byte c < 0x80 then (byte c, 1)
      else if 0xC2 \<le> byte c \<and> byte c \<le> 0xDF then orBad (decode2 (byte c) s) 2
      else if 0xE0 \<le> byte c \<and> byte c \<le> 0xEF then orBad (decode3 (byte c) s) 3
      else if 0xF0 \<le> byte c \<and> byte c \<le> 0xF4 then orBad (decode4 (byte c) s) 4
      else (runeError, 1))"

lemma decode2_high: "decode2 b s = Some r \<Longrightarrow> 0xC2 \<le> b \<Longrightarrow> 0x80 \<le> r"
  by (cases s) (auto simp: decode2_def split: if_splits)

lemma decode3_high:
  assumes "decode3 b s = Some r" and "0xE0 \<le> b"
  shows "0x80 \<le> r"
proof -
  from assms(1) obtain c1 c2 t where "s = c1 # c2 # t" and
    low: "b = 0xE0 \<longrightarrow> 0xA0 \<le> byte c1" and
    r: "r = (b - 0xE0) * 4096 + (byte c1 - 0x80) * 64 + (byte c2 - 0x80)"
    by (auto simp: decode3_def split: list.splits if_splits)
  show ?thesis
  proof (cases "b = 0xE0")
    case True
    with low have "0x20 \<le> byte c1 - 0x80" by simp
    then have "0x20 * 64 \<le> (byte c1 - 0x80) * 64" by (rule mult_le_mono1)
    with r show ?thesis by simp
  next
    case False
    with assms(2) have "1 * 4096 \<le> (b - 0xE0) * 4096" by (intro mult_le_mono1) simp
    with r show ?thesis by simp
  qed
qed

lemma decode4_high:
  assumes "decode4 b s = Some r" and "0xF0 \<le> b"
  shows "0x80 \<le> r"
proof -
  from assms(1) obtain c1 c2 c3 t where "s = c1 # c2 # c3 # t" and
    low: "b = 0xF0 \<longrightarrow> 0x90 \<le> byte c1" and
    r: "r = (b - 0xF0) * 262144 + (byte c1 - 0x80) * 4096
            + (byte c2 - 0x80) * 64 + (byte c3 - 0x80)"
    by (auto simp: decode4_def split: list.splits if_splits)
  show ?thesis
  proof (cases "b = 0xF0")
    case True
    with low have "0x10 \<le> byte c1 - 0x80" by simp
    then have "0x10 * 4096 \<le> (byte c1 - 0x80) * 4096" by (rule mult_le_mono1)
    with r show ?thesis by simp
  next
    case False
    with assms(2) have "1 * 262144 \<le> (b - 0xF0) * 262144" by (intro mult_le_mono1) simp
    with r show ?thesis by simp
  qed
qed

lemma orBad_high: "(\<And>r. v = Some r \<Longrightarrow> 0x80 \<le> r) \<Longrightarrow> 0x80 \<le> fst (orBad v n)"
  by (cases v) (auto simp: orBad_def runeError_def)

text \<open>\<open>for _, r := range s\<close>.\<close>

function runes :: "string \<Rightarrow> nat list" where
  "runes [] = []"
| "runes (c # s) = fst (decodeRune (c # s)) # runes (drop (snd (decodeRune (c # s)) - 1) s)"
  by pat_completeness auto
termination
  by (relation "measure length") (auto simp: less_Suc_eq_le simp del: decodeRune.simps)

declare decodeRune.simps(2) [simp del]

lemma decodeRune_ascii: "byte c < 0x80 \<Longrightarrow> decodeRune (c # s) = (byte c, 1)"
  by (simp add: decodeRune.simps)

lemma decodeRune_high: "0x80 \<le> byte c \<Longrightarrow> 0x80 \<le> fst (decodeRune (c # s))"
  by (simp add: decodeRune.simps) (auto simp: runeError_def
      intro!: orBad_high dest: decode2_high decode3_high decode4_high)

lemma runes_ascii: "\<forall>c \<in> set s. byte c < 0x80 \<Longrightarrow> runes s = map of_char s"
  by (induction s) (auto simp: decodeRune_ascii)

text \<open>All runes are below 128 exactly when all bytes are.\<close>

lemma runes_low_imp_ascii:
  "\<forall>r \<in> set (runes s). r < 0x80 \<Longrightarrow> \<forall>c \<in> set s. byte c < 0x80"
proof (induction s rule: runes.induct)
  case (2 c s)
  show ?case
  proof (cases "byte c < 0x80")
    case True
    with 2 show ?thesis by (auto simp: decodeRune_ascii)
  next
    case False
    with decodeRune_high [of c s] "2.prems" show ?thesis by auto
  qed
qed simp

section \<open>Digits\<close>

text \<open>The decimal digits beyond ASCII (category Nd of Unicode 15), by ranges.\<close>

definition digitRanges :: "(nat \<times> nat) list" where
  "digitRanges =
    [(0x660, 0x669), (0x6F0, 0x6F9), (0x7C0, 0x7C9), (0x966, 0x96F), (0x9E6, 0x9EF), (0xA66,
     0xA6F), (0xAE6, 0xAEF), (0xB66, 0xB6F), (0xBE6, 0xBEF), (0xC66, 0xC6F), (0xCE6, 0xCEF),
     (0xD66, 0xD6F), (0xDE6, 0xDEF), (0xE50, 0xE59), (0xED0, 0xED9), (0xF20, 0xF29), (0x1040,
     0x1049), (0x1090, 0x1099), (0x17E0, 0x17E9), (0x1810, 0x1819), (0x1946, 0x194F),
     (0x19D0, 0x19D9), (0x1A80, 0x1A89), (0x1A90, 0x1A99), (0x1B50, 0x1B59), (0x1BB0,
     0x1BB9), (0x1C40, 0x1C49), (0x1C50, 0x1C59), (0xA620, 0xA629), (0xA8D0, 0xA8D9),
     (0xA900, 0xA909), (0xA9D0, 0xA9D9), (0xA9F0, 0xA9F9), (0xAA50, 0xAA59), (0xABF0,
     0xABF9), (0xFF10, 0xFF19), (0x104A0, 0x104A9), (0x10D30, 0x10D39), (0x11066, 0x1106F),
     (0x110F0, 0x110F9), (0x11136, 0x1113F), (0x111D0, 0x111D9), (0x112F0, 0x112F9),
     (0x11450, 0x11459), (0x114D0, 0x114D9), (0x11650, 0x11659), (0x116C0, 0x116C9),
     (0x11730, 0x11739), (0x118E0, 0x118E9), (0x11950, 0x11959), (0x11C50, 0x11C59),
     (0x11D50, 0x11D59), (0x11DA0, 0x11DA9), (0x11F50, 0x11F59), (0x16A60, 0x16A69),
     (0x16AC0, 0x16AC9), (0x16B50, 0x16B59), (0x1D7CE, 0x1D7FF), (0x1E140, 0x1E149),
     (0x1E2F0, 0x1E2F9), (0x1E4F0, 0x1E4F9), (0x1E950, 0x1E959), (0x1FBF0, 0x1FBF9)]"

definition isDigit :: "nat \<Rightarrow> bool" where
  "isDigit r \<longleftrightarrow> (if r < 0x80 then 0x30 \<le> r \<and> r \<le> 0x39
                   else list_ex (\<lambda>(a, b). a \<le> r \<and> r \<le> b) digitRanges)"

definition asciiDigit :: "char \<Rightarrow> bool" where
  "asciiDigit c \<longleftrightarrow> 0x30 \<le> byte c \<and> byte c \<le> 0x39"

definition digitsValue :: "string \<Rightarrow> nat" where
  "digitsValue s = foldl (\<lambda>n c. n * 10 + (byte c - 0x30)) 0 s"

text \<open>
  \<open>strconv.Atoi\<close> on a string without a sign: base 10, an error on an empty string, on
  anything but the ASCII digits, and beyond the int64 range.
\<close>

definition atoi :: "string \<Rightarrow> int option" where
  "atoi s = (if s = [] \<or> \<not> list_all asciiDigit s \<or> maxInt64 < int (digitsValue s) then None
             else Some (int (digitsValue s)))"

lemma atoi_bounds: "atoi s = Some n \<Longrightarrow> 0 \<le> n \<and> n \<le> maxInt64"
  by (auto simp: atoi_def split: if_splits)

text \<open>\<open>%d\<close> of a number that is not negative.\<close>

fun showNat :: "nat \<Rightarrow> string" where
  "showNat n = (if n < 10 then [''0123456789'' ! n] else showNat (n div 10) @ [''0123456789'' ! (n mod 10)])"

section \<open>Case folding against ASCII words\<close>

text \<open>
  \<open>strings.EqualFold(s, w)\<close> for an ASCII word \<open>w\<close>: simple folding identifies the ASCII
  letters of either case, U+017F (long s) with \<open>s\<close> and U+212A (Kelvin) with \<open>k\<close>; no other
  rune folds to ASCII.
\<close>

definition foldRune :: "nat \<Rightarrow> nat" where
  "foldRune r = (if 0x41 \<le> r \<and> r \<le> 0x5A then r + 32
                 else if r = 0x17F then 0x73 else if r = 0x212A then 0x6B else r)"

definition equalFold :: "string \<Rightarrow> string \<Rightarrow> bool" where
  "equalFold s w \<longleftrightarrow> map foldRune (runes s) = map foldRune (runes w)"

lemma equalFold_refl [simp]: "equalFold s s"
  by (simp add: equalFold_def)

end
