(* ===== verification/GoPath.thy ===== *)
theory GoPath
  imports GoRunes
begin

text \<open>
  Go's lexical path functions on a Unix host (\<open>path\<close> and \<open>path/filepath\<close> agree there, and
  \<open>FromSlash\<close>, \<open>ToSlash\<close> are the identity): \<open>Clean\<close>, \<open>Join\<close>, \<open>Dir\<close>, \<open>Base\<close>, \<open>IsAbs\<close>,
  \<open>IsLocal\<close> and \<open>Rel\<close>. \<open>cleanSegs\<close> keeps the elements kept so far on a stack, as \<open>Clean\<close>
  backs up over its output on a \<open>..\<close> element.
\<close>

abbreviation slash :: char where "slash \<equiv> CHR 0x2F"

definition isAbs :: "string \<Rightarrow> bool" where
  "isAbs p \<longleftrightarrow> hasPrefix p ''/''"

fun cleanSegs :: "bool \<Rightarrow> string list \<Rightarrow> string list \<Rightarrow> string list" where
  "cleanSegs rooted acc [] = rev acc"
| "cleanSegs rooted acc (s # ss) =
     (if s = [] \<or> s = ''.'' then cleanSegs rooted acc ss
      else if s = ''..'' then
        (if acc \<noteq> [] \<and> hd acc \<noteq> ''..'' then cleanSegs rooted (tl acc) ss
         else if rooted then cleanSegs rooted acc ss
         else cleanSegs rooted (s # acc) ss)
      else cleanSegs rooted (s # acc) ss)"

definition pathSegs :: "string \<Rightarrow> string list" where
  "pathSegs p = cleanSegs (isAbs p) [] (splitOn slash p)"

definition pathClean :: "string \<Rightarrow> string" where
  "pathClean p =
     (if isAbs p then slash # joinOn slash (pathSegs p)
      else if pathSegs p = [] then ''.''
      else joinOn slash (pathSegs p))"

definition pathJoin :: "string list \<Rightarrow> string" where
  "pathJoin xs =
     (case dropWhile (\<lambda>x. x = []) xs of [] \<Rightarrow> [] | ys \<Rightarrow> pathClean (joinOn slash ys))"

definition pathDir :: "string \<Rightarrow> string" where
  "pathDir p = pathClean (take (nat (lastIndex slash p + 1)) p)"

definition trimRightByte :: "char \<Rightarrow> string \<Rightarrow> string" where
  "trimRightByte c s = rev (dropWhile (\<lambda>x. x = c) (rev s))"

definition pathBase :: "string \<Rightarrow> string" where
  "pathBase p =
     (if p = [] then ''.''
      else let q = trimRightByte slash p in
        if q = [] then ''/'' else drop (nat (lastIndex slash q + 1)) q)"

definition isLocal :: "string \<Rightarrow> bool" where
  "isLocal p \<longleftrightarrow> \<not> isAbs p \<and> p \<noteq> [] \<and> pathClean p \<noteq> ''..'' \<and> \<not> hasPrefix (pathClean p) ''../''"

text \<open>\<open>filepath.Rel\<close>: \<open>None\<close> is its error.\<close>

fun dropCommon :: "string list \<Rightarrow> string list \<Rightarrow> string list \<times> string list" where
  "dropCommon (b # bs) (t # ts) = (if b = t then dropCommon bs ts else (b # bs, t # ts))"
| "dropCommon bs ts = (bs, ts)"

definition relSegs :: "string \<Rightarrow> string list" where
  "relSegs p = (if isAbs p then (if p = ''/'' then [] else splitOn slash (tl p))
                else splitOn slash p)"

definition pathRel :: "string \<Rightarrow> string \<Rightarrow> string option" where
  "pathRel basepath targpath =
     (let base = pathClean basepath; targ = pathClean targpath in
      if targ = base then Some ''.''
      else if isAbs base \<noteq> isAbs targ then None
      else (let (b, t) = dropCommon (if base = ''.'' then [] else relSegs base) (relSegs targ) in
        if b \<noteq> [] \<and> hd b = ''..'' then None
        else Some (joinOn slash (replicate (length b) ''..'' @ t))))"

section \<open>Clean\<close>

definition normalSeg :: "string \<Rightarrow> bool" where
  "normalSeg s \<longleftrightarrow> s \<noteq> [] \<and> s \<noteq> ''.'' \<and> s \<noteq> ''..'' \<and> slash \<notin> set s"

definition normalSegs :: "string list \<Rightarrow> bool" where
  "normalSegs ss \<longleftrightarrow> (\<forall>s \<in> set ss. normalSeg s)"

lemma normalSegs_simps [simp]:
  "normalSegs []"
  "normalSegs (s # ss) \<longleftrightarrow> normalSeg s \<and> normalSegs ss"
  "normalSegs (ss @ ts) \<longleftrightarrow> normalSegs ss \<and> normalSegs ts"
  by (auto simp: normalSegs_def)

lemma cleanSegs_normal:
  "normalSegs ss \<Longrightarrow> cleanSegs rooted acc ss = rev acc @ ss"
  by (induction ss arbitrary: acc) (auto simp: normalSeg_def)

lemma cleanSegs_append:
  "cleanSegs rooted acc (xs @ ys) = cleanSegs rooted (rev (cleanSegs rooted acc xs)) ys"
  by (induction rooted acc xs rule: cleanSegs.induct) auto

lemma cleanSegs_rooted_normal:
  assumes "normalSegs acc" and "\<forall>s \<in> set ss. slash \<notin> set s"
  shows "normalSegs (cleanSegs True acc ss)"
  using assms
proof (induction ss arbitrary: acc)
  case Nil
  then show ?case by (simp add: normalSegs_def)
next
  case (Cons s ss)
  have "normalSegs (tl acc)" using Cons.prems(1) by (cases acc) auto
  with Cons show ?case by (auto simp: normalSeg_def)
qed

text \<open>A clean relative path: some \<open>..\<close> elements, then normal ones.\<close>

definition relForm :: "string list \<Rightarrow> bool" where
  "relForm ss \<longleftrightarrow> (\<exists>k ns. ss = replicate k ''..'' @ ns \<and> normalSegs ns)"

lemma relForm_dots: "relForm (replicate k ''..'')"
  unfolding relForm_def by (metis append_Nil2 normalSegs_simps(1))

lemma relForm_snoc_normal: "relForm ss \<Longrightarrow> normalSeg s \<Longrightarrow> relForm (ss @ [s])"
  unfolding relForm_def by (metis append_assoc normalSegs_simps)

lemma relForm_butlast: "relForm ss \<Longrightarrow> relForm (butlast ss)"
proof -
  assume "relForm ss"
  then obtain k ns where ss: "ss = replicate k ''..'' @ ns" and ns: "normalSegs ns"
    unfolding relForm_def by blast
  show ?thesis
  proof (cases "ns = []")
    case True
    with ss have "butlast ss = replicate (k - 1) ''..''"
      by (simp add: butlast_conv_take)
    then show ?thesis by (simp add: relForm_dots)
  next
    case False
    with ss have "butlast ss = replicate k ''..'' @ butlast ns" by (simp add: butlast_append)
    moreover have "normalSegs (butlast ns)"
      using ns by (auto simp: normalSegs_def dest: in_set_butlastD)
    ultimately show ?thesis unfolding relForm_def by blast
  qed
qed

lemma relForm_last_dots: "relForm ss \<Longrightarrow> ss = [] \<or> last ss = ''..'' \<Longrightarrow> \<exists>k. ss = replicate k ''..''"
proof -
  assume "relForm ss" and last: "ss = [] \<or> last ss = ''..''"
  then obtain k ns where ss: "ss = replicate k ''..'' @ ns" and ns: "normalSegs ns"
    unfolding relForm_def by blast
  have "ns = []"
  proof (rule ccontr)
    assume "ns \<noteq> []"
    then have "last ns \<in> set ns" and "last ss = last ns" using ss by auto
    with ns last \<open>ns \<noteq> []\<close> ss show False by (auto simp: normalSegs_def normalSeg_def)
  qed
  with ss show ?thesis by auto
qed

lemma cleanSegs_relForm:
  assumes "relForm (rev acc)" and "\<forall>s \<in> set ss. slash \<notin> set s"
  shows "relForm (cleanSegs False acc ss)"
  using assms
proof (induction ss arbitrary: acc)
  case Nil
  then show ?case by simp
next
  case (Cons s ss)
  have tl: "relForm (rev (tl acc))"
    using relForm_butlast [OF Cons.prems(1)] by (cases acc) auto
  have dots: "acc = [] \<or> hd acc = ''..'' \<Longrightarrow> relForm (rev (''..'' # acc))"
  proof -
    assume "acc = [] \<or> hd acc = ''..''"
    then have "rev acc = [] \<or> last (rev acc) = ''..''" by (cases acc) auto
    with Cons.prems(1) obtain k where "rev acc = replicate k ''..''"
      using relForm_last_dots by blast
    then have "rev (''..'' # acc) = replicate (Suc k) ''..''"
      by (simp add: replicate_append_same)
    then show ?thesis using relForm_dots by metis
  qed
  have norm: "normalSeg s \<Longrightarrow> relForm (rev (s # acc))"
    using relForm_snoc_normal [OF Cons.prems(1)] by simp
  show ?case
    using Cons.IH Cons.prems tl dots norm by (auto simp: normalSeg_def)
qed

lemma pathSegs_abs: "isAbs p \<Longrightarrow> normalSegs (pathSegs p)"
  by (simp add: pathSegs_def cleanSegs_rooted_normal splitOn_parts_free)

lemma pathSegs_rel: "\<not> isAbs p \<Longrightarrow> relForm (pathSegs p)"
  using cleanSegs_relForm [of "[]" "splitOn slash p"] relForm_dots [of 0]
  by (simp add: pathSegs_def splitOn_parts_free)

lemma normalSegs_free: "normalSegs ss \<Longrightarrow> s \<in> set ss \<Longrightarrow> slash \<notin> set s"
  by (auto simp: normalSegs_def normalSeg_def)

lemma relForm_member: "relForm ss \<Longrightarrow> s \<in> set ss \<Longrightarrow> s = ''..'' \<or> normalSeg s"
  unfolding relForm_def normalSegs_def by (metis Un_iff in_set_replicate set_append)

lemma relForm_free: "relForm ss \<Longrightarrow> s \<in> set ss \<Longrightarrow> slash \<notin> set s"
  by (drule (1) relForm_member) (auto simp: normalSeg_def)

lemma relForm_nonempty: "relForm ss \<Longrightarrow> s \<in> set ss \<Longrightarrow> s \<noteq> []"
  by (drule (1) relForm_member) (auto simp: normalSeg_def)

lemma cleanSegs_relForm_id: "relForm ss \<Longrightarrow> cleanSegs False [] ss = ss"
proof -
  assume "relForm ss"
  then obtain k ns where ss: "ss = replicate k ''..'' @ ns" and ns: "normalSegs ns"
    unfolding relForm_def by blast
  have dots: "cleanSegs False (replicate j ''..'') (replicate k ''..'') = replicate (j + k) ''..''"
    for j k
  proof (induction k arbitrary: j)
    case (Suc k)
    then show ?case using Suc [of "Suc j"] by (cases j) auto
  qed simp
  show ?thesis
    using ss ns dots [of 0 k] by (simp add: cleanSegs_append cleanSegs_normal)
qed

lemma joinOn_not_abs:
  assumes "relForm ss" and "ss \<noteq> []"
  shows "\<not> isAbs (joinOn slash ss)" and "joinOn slash ss \<noteq> []"
proof -
  obtain s ts where ss: "ss = s # ts" using assms(2) by (cases ss) auto
  have "s \<noteq> []" using relForm_nonempty [OF assms(1)] ss by simp
  moreover have "slash \<notin> set s" using relForm_free [OF assms(1)] ss by simp
  ultimately obtain c s' where "s = c # s'" and "c \<noteq> slash" by (cases s) auto
  with ss show "\<not> isAbs (joinOn slash ss)" and "joinOn slash ss \<noteq> []"
    by (cases ts; auto simp: isAbs_def)+
qed

lemma pathSegs_slash_join: "normalSegs ss \<Longrightarrow> pathSegs (slash # joinOn slash ss) = ss"
proof (cases "ss = []")
  case True
  then show ?thesis by (simp add: pathSegs_def isAbs_def)
next
  case False
  assume "normalSegs ss"
  with False have "splitOn slash (joinOn slash ss) = ss"
    by (simp add: splitOn_joinOn normalSegs_free)
  with \<open>normalSegs ss\<close> show ?thesis
    by (simp add: pathSegs_def isAbs_def cleanSegs_normal)
qed

lemma pathSegs_join: "relForm ss \<Longrightarrow> ss \<noteq> [] \<Longrightarrow> pathSegs (joinOn slash ss) = ss"
  by (simp add: pathSegs_def joinOn_not_abs splitOn_joinOn relForm_free cleanSegs_relForm_id)

lemma isAbs_pathClean [simp]: "isAbs (pathClean p) = isAbs p"
proof (cases "isAbs p")
  case False
  then show ?thesis
    using joinOn_not_abs [OF pathSegs_rel [OF False]] by (auto simp: pathClean_def isAbs_def)
qed (simp add: pathClean_def isAbs_def)

lemma pathSegs_pathClean [simp]: "pathSegs (pathClean p) = pathSegs p"
proof (cases "isAbs p")
  case True
  then show ?thesis by (simp add: pathClean_def pathSegs_slash_join pathSegs_abs)
next
  case False
  show ?thesis
  proof (cases "pathSegs p = []")
    case True
    have "pathSegs ''.'' = []" by (simp add: pathSegs_def isAbs_def)
    with True False show ?thesis by (simp add: pathClean_def)
  next
    case nonempty: False
    then show ?thesis
      using False pathSegs_rel [OF False] by (simp add: pathClean_def pathSegs_join)
  qed
qed

lemma pathClean_idem [simp]: "pathClean (pathClean p) = pathClean p"
  unfolding pathClean_def [of "pathClean p"] by (simp) (simp add: pathClean_def)

lemma pathClean_nonempty [simp]: "pathClean p \<noteq> []"
proof (cases "isAbs p")
  case False
  then show ?thesis
    using joinOn_not_abs [OF pathSegs_rel [OF False]] by (auto simp: pathClean_def)
qed (simp add: pathClean_def)

section \<open>Local paths\<close>

lemma pathSegs_local: "isLocal p \<Longrightarrow> normalSegs (pathSegs p)"
proof -
  assume l: "isLocal p"
  then have rel: "\<not> isAbs p" by (simp add: isLocal_def)
  then obtain k ns where ss: "pathSegs p = replicate k ''..'' @ ns" and ns: "normalSegs ns"
    using pathSegs_rel unfolding relForm_def by blast
  show ?thesis
  proof (cases k)
    case 0
    with ss ns show ?thesis by simp
  next
    case (Suc j)
    with ss rel have c: "pathClean p = joinOn slash (''..'' # replicate j ''..'' @ ns)"
      by (simp add: pathClean_def)
    show ?thesis
    proof (cases "replicate j ''..'' @ ns = []")
      case True
      with c l show ?thesis by (simp add: isLocal_def)
    next
      case False
      with c have "pathClean p = ''../'' @ joinOn slash (replicate j ''..'' @ ns)"
        by (simp add: joinOn_Cons)
      with l show ?thesis by (simp add: isLocal_def)
    qed
  qed
qed

lemma isLocal_pathClean: "isLocal p \<Longrightarrow> isLocal (pathClean p)"
  by (simp add: isLocal_def)

text \<open>Joining a local path below an absolute root only appends elements to the root's.\<close>

lemma splitOn_app_slash: "splitOn c (s @ c # t) = splitOn c s @ splitOn c t"
proof (induction s)
  case (Cons x s)
  then show ?case by (cases "splitOn c s") auto
qed simp

lemma pathSegs_joined:
  assumes "isAbs root" and "\<not> isAbs p"
  shows "pathSegs (root @ slash # p) = cleanSegs True (rev (pathSegs root)) (splitOn slash p)"
proof -
  have "isAbs (root @ slash # p)" using assms(1) by (simp add: isAbs_def hasPrefix_mono)
  with assms(1) show ?thesis by (simp add: pathSegs_def splitOn_app_slash cleanSegs_append)
qed

lemma cleanSegs_bottom: "\<exists>ts. cleanSegs False (acc @ [''..'']) ss = ''..'' # ts"
proof (induction ss arbitrary: acc)
  case (Cons s ss)
  have pop: "acc \<noteq> [] \<Longrightarrow> tl (acc @ [''..'']) = tl acc @ [''..'']" by simp
  show ?case
    using Cons [of acc] Cons [of "tl acc"] Cons [of "s # acc"] Cons [of "''..'' # acc"] pop
    by (cases "acc = []") auto
qed simp

lemma cleanSegs_base:
  assumes "normalSegs (cleanSegs False acc ss)" and "normalSegs acc"
    and "\<forall>s \<in> set ss. slash \<notin> set s"
  shows "cleanSegs True (acc @ base) ss = rev base @ cleanSegs False acc ss"
  using assms
proof (induction ss arbitrary: acc)
  case Nil
  then show ?case by simp
next
  case (Cons s ss)
  consider (skip) "s = [] \<or> s = ''.''" | (up) "s = ''..''" "acc \<noteq> []"
    | (escape) "s = ''..''" "acc = []" | (down) "normalSeg s"
    using Cons.prems(3) by (auto simp: normalSeg_def)
  then show ?case
  proof cases
    case skip
    with Cons show ?thesis by auto
  next
    case up
    then obtain a as where acc: "acc = a # as" by (cases acc) auto
    with Cons.prems(2) have "a \<noteq> ''..''" by (auto simp: normalSeg_def)
    with up acc Cons show ?thesis by simp
  next
    case escape
    with Cons.prems(1) have "normalSegs (cleanSegs False ([] @ [''..'']) ss)" by simp
    with cleanSegs_bottom [of "[]" ss] show ?thesis by (auto simp: normalSeg_def)
  next
    case down
    with Cons.IH [of "s # acc"] Cons.prems show ?thesis by (auto simp: normalSeg_def)
  qed
qed

lemma pathSegs_below:
  assumes "isAbs root" and "isLocal p"
  shows "pathSegs (root @ slash # p) = pathSegs root @ pathSegs p"
proof -
  have rel: "\<not> isAbs p" using assms(2) by (simp add: isLocal_def)
  moreover have "normalSegs (cleanSegs False [] (splitOn slash p))"
    using pathSegs_local [OF assms(2)] rel by (simp add: pathSegs_def)
  ultimately show ?thesis
    using assms(1) cleanSegs_base [of "[]" "splitOn slash p" "rev (pathSegs root)"]
    by (simp add: pathSegs_joined splitOn_parts_free) (simp add: pathSegs_def)
qed

lemma pathJoin_below:
  assumes "isAbs root" and "isLocal p"
  shows "pathSegs (pathJoin [root, p]) = pathSegs root @ pathSegs p"
proof -
  have "root \<noteq> []" using assms(1) by (auto simp: isAbs_def)
  then show ?thesis using assms by (simp add: pathJoin_def pathSegs_below)
qed

end
