(* ===== verification/HostFS.thy ===== *)
theory HostFS
  imports GoPath Prelude "HOL-Library.AList" "HOL-Library.Char_ord" "HOL-Library.List_Lexorder"
begin

text \<open>
  The part of a file system the host's state lives in: a finite list of nodes, each under the
  elements of its absolute, clean path. The operations are those of Go's os and filepath
  packages the code calls, on Unix and without symbolic links. What may fail is the
  environment's: which nodes cannot be removed, which directories cannot be made, which files
  cannot be read, and how an atomic write ends.
\<close>

datatype 'c fnode = DirNode | FileNode 'c

type_synonym 'c hostfs = "(string list \<times> 'c fnode) list"

datatype fsError = FsNotExist | FsError

record fsEnv =
  stuckNode :: "string list \<Rightarrow> bool"
  noMkdir :: "string list \<Rightarrow> bool"
  noRead :: "string list \<Rightarrow> bool"
  noStat :: "string list \<Rightarrow> bool"
  atomicWrite :: "string list \<Rightarrow> writeOutcome"

definition below :: "'a list \<Rightarrow> 'a list \<Rightarrow> bool" where
  "below p q \<longleftrightarrow> take (length p) q = p"

definition statPath :: "fsEnv \<Rightarrow> string \<Rightarrow> 'c hostfs \<Rightarrow> fsError + 'c fnode" where
  "statPath env path fs =
     (if noStat env (pathSegs path) then Inl FsError
      else case map_of fs (pathSegs path) of None \<Rightarrow> Inl FsNotExist | Some n \<Rightarrow> Inr n)"

text \<open>
  \<open>os.RemoveAll\<close>: a node that cannot be removed stays, with the directories above it, and
  makes the call fail; a path that does not exist is no error.
\<close>

definition stuckBelow :: "fsEnv \<Rightarrow> string list \<Rightarrow> 'c hostfs \<Rightarrow> string list list" where
  "stuckBelow env p fs = filter (\<lambda>q. below p q \<and> stuckNode env q) (map fst fs)"

definition removeAll :: "fsEnv \<Rightarrow> string \<Rightarrow> 'c hostfs \<Rightarrow> 'c hostfs \<times> (fsError + unit)" where
  "removeAll env path fs =
     (let p = pathSegs path; stuck = stuckBelow env p fs in
      (filter (\<lambda>(q, n). \<not> below p q \<or> list_ex (below q) stuck) fs,
       if stuck = [] then Inr () else Inl FsError))"

definition children :: "string list \<Rightarrow> 'c hostfs \<Rightarrow> (string list \<times> 'c fnode) list" where
  "children p fs = filter (\<lambda>(q, n). below p q \<and> length q = length p + 1) fs"

text \<open>\<open>os.Remove\<close>: a file, or an empty directory.\<close>

definition removeOne :: "fsEnv \<Rightarrow> string \<Rightarrow> 'c hostfs \<Rightarrow> 'c hostfs \<times> (fsError + unit)" where
  "removeOne env path fs =
     (let p = pathSegs path in
      case map_of fs p of
        None \<Rightarrow> (fs, Inl FsNotExist)
      | Some n \<Rightarrow>
          if stuckNode env p \<or> children p fs \<noteq> [] then (fs, Inl FsError)
          else (filter (\<lambda>(q, n). q \<noteq> p) fs, Inr ()))"

text \<open>\<open>os.MkdirAll\<close>: the missing directories from the root down to the path.\<close>

fun mkdirs :: "fsEnv \<Rightarrow> string list list \<Rightarrow> 'c hostfs \<Rightarrow> 'c hostfs \<times> (fsError + unit)" where
  "mkdirs env [] fs = (fs, Inr ())"
| "mkdirs env (p # ps) fs =
     (case map_of fs p of
        Some DirNode \<Rightarrow> mkdirs env ps fs
      | Some (FileNode c) \<Rightarrow> (fs, Inl FsError)
      | None \<Rightarrow> if noMkdir env p then (fs, Inl FsError) else mkdirs env ps (fs @ [(p, DirNode)]))"

definition mkdirAll :: "fsEnv \<Rightarrow> string \<Rightarrow> 'c hostfs \<Rightarrow> 'c hostfs \<times> (fsError + unit)" where
  "mkdirAll env path fs =
     (let p = pathSegs path in mkdirs env (map (\<lambda>n. take n p) [0..<Suc (length p)]) fs)"

definition readFile :: "fsEnv \<Rightarrow> string \<Rightarrow> 'c hostfs \<Rightarrow> fsError + 'c" where
  "readFile env path fs =
     (case map_of fs (pathSegs path) of
        None \<Rightarrow> Inl FsNotExist
      | Some DirNode \<Rightarrow> Inl FsError
      | Some (FileNode c) \<Rightarrow> if noRead env (pathSegs path) then Inl FsError else Inr c)"

text \<open>\<open>os.ReadDir\<close>: the names in order, and whether each is a directory.\<close>

definition isDirNode :: "'c fnode \<Rightarrow> bool" where
  "isDirNode n = (case n of DirNode \<Rightarrow> True | FileNode _ \<Rightarrow> False)"

definition readDir :: "fsEnv \<Rightarrow> string \<Rightarrow> 'c hostfs \<Rightarrow> fsError + (string \<times> bool) list" where
  "readDir env path fs =
     (let p = pathSegs path in
      case map_of fs p of
        None \<Rightarrow> Inl FsNotExist
      | Some (FileNode c) \<Rightarrow> Inl FsError
      | Some DirNode \<Rightarrow>
          if noRead env p then Inl FsError
          else Inr (sort_key fst (map (\<lambda>(q, n). (last q, isDirNode n)) (children p fs))))"

text \<open>\<open>WriteFileAtomically\<close>: the parent directories, then the new content or the old one.\<close>

definition writeAtomic :: "fsEnv \<Rightarrow> string \<Rightarrow> 'c \<Rightarrow> 'c hostfs \<Rightarrow> 'c hostfs \<times> (fsError + unit)" where
  "writeAtomic env path c fs =
     (case mkdirAll env (pathDir path) fs of
        (fs1, Inl e) \<Rightarrow> (fs1, Inl e)
      | (fs1, Inr _) \<Rightarrow>
          let p = pathSegs path in
          if map_of fs1 p = Some DirNode then (fs1, Inl FsError)
          else (case atomicWrite env p of
            WriteOk \<Rightarrow> (AList.update p (FileNode c) fs1, Inr ())
          | WriteFailsBefore \<Rightarrow> (fs1, Inl FsError)
          | WriteFailsAfter \<Rightarrow> (AList.update p (FileNode c) fs1, Inl FsError)))"

section \<open>Facts\<close>

lemma below_refl [simp]: "below p p"
  by (simp add: below_def)

lemma below_append [simp]: "below p (p @ q)"
  by (simp add: below_def)

lemma below_iff: "below p q \<longleftrightarrow> (\<exists>r. q = p @ r)"
  unfolding below_def by (metis append_eq_conv_conj append_take_drop_id)

lemma below_trans: "below p q \<Longrightarrow> below q r \<Longrightarrow> below p r"
  by (auto simp: below_iff)

lemma below_two: "below p r \<Longrightarrow> below q r \<Longrightarrow> below p q \<or> below q p"
  unfolding below_iff by (metis append_eq_append_conv2)

lemma below_Nil [simp]: "below [] q"
  by (simp add: below_def)

lemma map_of_filter_fst: "map_of (filter (\<lambda>(q, n). P q) fs) p = (if P p then map_of fs p else None)"
  by (induction fs) auto

lemma removeAll_get:
  "removeAll env path fs = (fs', r) \<Longrightarrow>
     map_of fs' q = (if \<not> below (pathSegs path) q \<or> list_ex (below q) (stuckBelow env (pathSegs path) fs)
                     then map_of fs q else None)"
  unfolding removeAll_def Let_def using map_of_filter_fst
    [of "\<lambda>q. \<not> below (pathSegs path) q \<or> list_ex (below q) (stuckBelow env (pathSegs path) fs)" fs q]
  by auto

lemma removeAll_other:
  "removeAll env path fs = (fs', r) \<Longrightarrow> \<not> below (pathSegs path) q \<Longrightarrow> map_of fs' q = map_of fs q"
  by (simp add: removeAll_get)

lemma removeAll_ok:
  "removeAll env path fs = (fs', Inr u) \<Longrightarrow> below (pathSegs path) q \<Longrightarrow> map_of fs' q = None"
  using removeAll_get [of env path fs fs' "Inr u" q] by (auto simp: removeAll_def Let_def split: if_splits)

lemma removeAll_less: "removeAll env path fs = (fs', r) \<Longrightarrow> map_of fs' q = None \<or> map_of fs' q = map_of fs q"
  by (auto simp: removeAll_get)

lemma removeOne_get:
  "removeOne env path fs = (fs', r) \<Longrightarrow>
     map_of fs' q = (if q = pathSegs path \<and> r = Inr () then None else map_of fs q)
     \<and> (r = Inl FsNotExist \<longrightarrow> map_of fs (pathSegs path) = None)"
  by (auto simp: removeOne_def Let_def map_of_filter_fst split: option.splits if_splits)

lemma mkdirs_get:
  assumes "mkdirs env ps fs = (fs', r)"
  shows "(\<forall>q. map_of fs' q = map_of fs q \<or> map_of fs q = None \<and> q \<in> set ps \<and> map_of fs' q = Some DirNode)
    \<and> (r = Inr () \<longrightarrow> (\<forall>q \<in> set ps. map_of fs' q = Some DirNode))"
  using assms
proof (induction ps arbitrary: fs)
  case (Cons p ps)
  show ?case
  proof (cases "map_of fs p")
    case None
    show ?thesis
    proof (cases "noMkdir env p")
      case True
      then show ?thesis using Cons.prems None by auto
    next
      case False
      then have m: "mkdirs env ps (fs @ [(p, DirNode)]) = (fs', r)" using Cons.prems None by simp
      have up: "map_of (fs @ [(p, DirNode)]) q = (if q = p then Some DirNode else map_of fs q)" for q
        using None by (simp add: map_add_def split: option.splits)
      note ih = Cons.IH [OF m]
      have "map_of fs' p = Some DirNode" using ih up [of p] by (metis option.distinct(1))
      then show ?thesis using ih up None by (metis list.set_intros set_ConsD)
    qed
  next
    case (Some n)
    then show ?thesis
    proof (cases n)
      case DirNode
      then have m: "mkdirs env ps fs = (fs', r)" using Cons.prems Some by simp
      have "map_of fs' p = Some DirNode"
        using Cons.IH [OF m] Some DirNode by (metis option.distinct(1))
      then show ?thesis using Cons.IH [OF m] by auto
    next
      case (FileNode c)
      then show ?thesis using Cons.prems Some by auto
    qed
  qed
qed simp

lemma mkdirAll_get:
  assumes "mkdirAll env path fs = (fs', r)"
  shows "map_of fs' q = map_of fs q \<or> map_of fs q = None \<and> below q (pathSegs path) \<and> map_of fs' q = Some DirNode"
    and "r = Inr () \<Longrightarrow> below q (pathSegs path) \<Longrightarrow> map_of fs' q = Some DirNode"
proof -
  let ?ps = "map (\<lambda>n. take n (pathSegs path)) [0..<Suc (length (pathSegs path))]"
  have m: "mkdirs env ?ps fs = (fs', r)" using assms by (simp only: mkdirAll_def Let_def)
  have mem: "q \<in> set ?ps \<longleftrightarrow> below q (pathSegs path)" for q
  proof
    assume "q \<in> set ?ps"
    then obtain n where "q = take n (pathSegs path)" unfolding set_map by blast
    then show "below q (pathSegs path)" by (metis append_take_drop_id below_append)
  next
    assume "below q (pathSegs path)"
    then have "q = take (length q) (pathSegs path)" "length q \<le> length (pathSegs path)"
      by (auto simp: below_iff)
    then show "q \<in> set ?ps" by (metis atLeastLessThan_iff image_eqI le_imp_less_Suc set_map set_upt zero_le)
  qed
  show "map_of fs' q = map_of fs q \<or> map_of fs q = None \<and> below q (pathSegs path) \<and> map_of fs' q = Some DirNode"
    using mkdirs_get [OF m] mem by blast
  show "r = Inr () \<Longrightarrow> below q (pathSegs path) \<Longrightarrow> map_of fs' q = Some DirNode"
    using mkdirs_get [OF m] mem by blast
qed

lemma writeAtomic_get:
  assumes "writeAtomic env path c fs = (fs', r)"
  shows "q \<noteq> pathSegs path \<Longrightarrow> map_of fs' q = map_of fs q
      \<or> map_of fs q = None \<and> below q (pathSegs (pathDir path)) \<and> map_of fs' q = Some DirNode"
    and "r = Inr () \<Longrightarrow> map_of fs' (pathSegs path) = Some (FileNode c)"
    and "map_of fs' (pathSegs path) = map_of fs (pathSegs path)
      \<or> map_of fs' (pathSegs path) = Some (FileNode c) \<or> map_of fs' (pathSegs path) = Some DirNode"
proof -
  obtain fs1 r1 where m: "mkdirAll env (pathDir path) fs = (fs1, r1)" by fastforce
  note g = mkdirAll_get(1) [OF m]
  have f: "fs' = fs1 \<or> fs' = AList.update (pathSegs path) (FileNode c) fs1"
    using assms m by (auto simp: writeAtomic_def Let_def split: sum.splits if_splits writeOutcome.splits)
  show "q \<noteq> pathSegs path \<Longrightarrow> map_of fs' q = map_of fs q
      \<or> map_of fs q = None \<and> below q (pathSegs (pathDir path)) \<and> map_of fs' q = Some DirNode"
    using f g [of q] by (auto simp: update_conv')
  show "r = Inr () \<Longrightarrow> map_of fs' (pathSegs path) = Some (FileNode c)"
    using assms m by (auto simp: writeAtomic_def Let_def update_conv' split: sum.splits if_splits writeOutcome.splits)
  show "map_of fs' (pathSegs path) = map_of fs (pathSegs path)
      \<or> map_of fs' (pathSegs path) = Some (FileNode c) \<or> map_of fs' (pathSegs path) = Some DirNode"
    using f g [of "pathSegs path"] by (auto simp: update_conv')
qed

text \<open>The elements of a joined path, when what is joined are plain names.\<close>

lemma pathSegs_join_names:
  assumes "isAbs root" "normalSegs names"
  shows "pathSegs (pathJoin (root # names)) = pathSegs root @ names"
proof (cases names)
  case Nil
  then show ?thesis using assms(1) by (cases "root = []") (auto simp: pathJoin_def isAbs_def)
next
  case (Cons n ns)
  have ne: "root \<noteq> []" using assms(1) by (auto simp: isAbs_def)
  have n: "normalSeg n" "normalSegs ns" using assms(2) Cons by (simp_all add: normalSegs_def)
  have free: "\<forall>s \<in> set names. slash \<notin> set s" using assms(2) by (auto simp: normalSegs_def normalSeg_def)
  have split: "splitOn slash (joinOn slash names) = names"
    using free Cons by (intro splitOn_joinOn) auto
  have "\<not> isAbs (joinOn slash names)"
    using n Cons by (cases n; cases ns) (auto simp: normalSeg_def isAbs_def)
  then have "pathSegs (root @ slash # joinOn slash names) = pathSegs root @ names"
    using assms by (simp add: pathSegs_joined split cleanSegs_normal)
  then show ?thesis using ne Cons by (simp add: pathJoin_def joinOn_Cons)
qed

text \<open>The directory of a clean absolute path.\<close>

lemma pathSegs_pathDir:
  assumes "isAbs p" "pathClean p = p" "pathSegs p = xs @ [x]"
  shows "pathSegs (pathDir p) = xs"
proof -
  have n: "normalSegs (xs @ [x])" using pathSegs_abs [OF assms(1)] assms(3) by simp
  then have x: "slash \<notin> set x" by (intro normalSegs_free [OF n]) simp
  have p: "p = slash # joinOn slash (xs @ [x])" using assms by (metis pathClean_def)
  have last: "lastIndex slash (u @ slash # x) = int (length u)" for u
  proof -
    have "lastIndex slash x = -1" using x by simp
    then show ?thesis
      by (simp only: lastIndex_append lastIndex.simps Let_def list.set_intros if_True) simp
  qed
  show ?thesis
  proof (cases "xs = []")
    case True
    then have p: "p = [] @ slash # x" using p by simp
    have "lastIndex slash p = 0" using last [of "[]"] by (simp add: p del: lastIndex.simps)
    then have "pathDir p = pathClean [slash]" by (simp add: pathDir_def p del: lastIndex.simps)
    then show ?thesis using True by (simp add: pathSegs_def [of "[slash]"] isAbs_def)
  next
    case False
    then have p: "p = (slash # joinOn slash xs) @ slash # x" using p by (simp add: joinOn_snoc)
    have "lastIndex slash p = int (length (slash # joinOn slash xs))" by (subst p, rule last)
    then have "take (nat (lastIndex slash p + 1)) p = (slash # joinOn slash xs) @ slash # []"
      using p by (simp add: nat_add_distrib del: lastIndex.simps)
    moreover have "isAbs (slash # joinOn slash xs)" by (simp add: isAbs_def)
    moreover have "normalSegs xs" using n by (simp add: normalSegs_def)
    ultimately show ?thesis
      using pathSegs_joined [of "slash # joinOn slash xs" "[]"]
      by (simp add: pathDir_def pathSegs_slash_join isAbs_def del: lastIndex.simps)
  qed
qed

lemma pathClean_pathJoin: "root \<noteq> [] \<Longrightarrow> pathClean (pathJoin (root # ps)) = pathJoin (root # ps)"
  by (simp add: pathJoin_def)

end
