(* ===== verification/Entries.thy ===== *)
theory Entries
  imports GoPath "HOL-Library.Char_ord" "HOL-Library.List_Lexorder"
begin

text \<open>
  The entries of a sync manifest (syncfs/manifest.go): comparison, the diff of two
  manifests, the normalisation of modes and the entries kept for paths that were not
  synced. A Go map filled from a list keeps the last entry of a path; the order in which
  \<open>range\<close> visits its keys is an argument, a permutation of them.
\<close>

datatype entryKind = KindFile | KindDir | KindSymlink | OtherKind string

record entry =
  Path :: string
  Kind :: entryKind
  Hash :: string
  Size :: int
  Mode :: nat
  ModTime :: int
  Linkname :: string

definition defaultDirMode :: nat where "defaultDirMode = 493"
definition defaultFileMode :: nat where "defaultFileMode = 420"

definition NonFileEntries :: "entry list \<Rightarrow> entry list" where
  "NonFileEntries es = filter (\<lambda>e. Kind e \<noteq> KindFile) es"

text \<open>The map by path: \<open>for _, e := range es { m[e.Path] = e }\<close>.\<close>

definition byPath :: "entry list \<Rightarrow> (string \<rightharpoonup> entry)" where
  "byPath es = map_of (rev (map (\<lambda>e. (Path e, e)) es))"

definition normalizeRel :: "string \<Rightarrow> string" where
  "normalizeRel rel = (if rel = [] then ''.'' else pathClean rel)"

definition depth :: "string \<Rightarrow> nat" where
  "depth p = (let p' = normalizeRel p in
     if p' = ''.'' then 0 else length (splitOn slash p'))"

definition sameEntryExceptMode :: "entry \<Rightarrow> entry \<Rightarrow> bool" where
  "sameEntryExceptMode a b \<longleftrightarrow>
     Kind a = Kind b \<and> Hash a = Hash b \<and> Size a = Size b \<and> Linkname a = Linkname b"

definition sameEntry :: "entry \<Rightarrow> entry \<Rightarrow> bool \<Rightarrow> bool" where
  "sameEntry a b ignoreMode \<longleftrightarrow> sameEntryExceptMode a b \<and> (ignoreMode \<or> Mode a = Mode b)"

definition entryChanged :: "bool \<Rightarrow> (string \<rightharpoonup> entry) \<Rightarrow> entry \<Rightarrow> bool" where
  "entryChanged ignoreMode beforeMap cur =
     (case beforeMap (Path cur) of
        None \<Rightarrow> True
      | Some prev \<Rightarrow> \<not> sameEntry prev cur ignoreMode)"

text \<open>
  \<open>ordA\<close> and \<open>ordB\<close> are the orders in which the two maps are visited. \<open>sort.Slice\<close> is not
  stable, but the paths of \<open>changed\<close> differ, and for \<open>deleted\<close> every order of equally deep
  paths comes from some visiting order.
\<close>

definition Diff ::
  "string list \<Rightarrow> string list \<Rightarrow> entry list \<Rightarrow> entry list \<Rightarrow> bool \<Rightarrow> entry list \<times> string list" where
  "Diff ordA ordB before after ignoreMode =
     (let beforeMap = byPath before; afterMap = byPath after;
          changed = filter (entryChanged ignoreMode beforeMap) (map (\<lambda>p. the (afterMap p)) ordA);
          deleted = filter (\<lambda>p. afterMap p = None) ordB in
      (sort_key Path changed, sort_key (\<lambda>p. - int (depth p)) deleted))"

definition visits :: "string list \<Rightarrow> entry list \<Rightarrow> bool" where
  "visits ord es \<longleftrightarrow> distinct ord \<and> set ord = Path ` set es"

definition defaultMode :: "entry \<Rightarrow> entry" where
  "defaultMode e =
     (if Mode e = 0 then
        (case Kind e of
           KindDir \<Rightarrow> e\<lparr>Mode := defaultDirMode\<rparr>
         | KindFile \<Rightarrow> e\<lparr>Mode := defaultFileMode\<rparr>
         | _ \<Rightarrow> e)
      else e)"

definition normalizeMode :: "(string \<rightharpoonup> entry) \<Rightarrow> entry \<Rightarrow> entry" where
  "normalizeMode refByPath e =
     (case refByPath (Path e) of
        Some ref \<Rightarrow> if sameEntryExceptMode ref e then e\<lparr>Mode := Mode ref\<rparr> else defaultMode e
      | None \<Rightarrow> defaultMode e)"

definition NormalizeModes :: "entry list \<Rightarrow> entry list \<Rightarrow> entry list" where
  "NormalizeModes entries reference = map (normalizeMode (byPath reference)) entries"

text \<open>The loop of \<open>PreserveMissingEntries\<close>: \<open>seen\<close> is the set of paths in the result.\<close>

fun preserveLoop :: "entryKind \<Rightarrow> string set \<Rightarrow> entry list \<Rightarrow> entry list" where
  "preserveLoop kind seen [] = []"
| "preserveLoop kind seen (e # es) =
     (if Kind e = kind \<and> Path e \<notin> seen then e # preserveLoop kind (insert (Path e) seen) es
      else preserveLoop kind seen es)"

definition PreserveMissingEntries :: "entry list \<Rightarrow> entry list \<Rightarrow> entryKind \<Rightarrow> entry list" where
  "PreserveMissingEntries entries preserve kind =
     sort_key Path (entries @ preserveLoop kind (set (map Path entries)) preserve)"

section \<open>Maps by path\<close>

lemma byPath_Nil [simp]: "byPath [] = Map.empty" by (simp add: byPath_def)

lemma byPath_snoc [simp]: "byPath (es @ [e]) = (byPath es)(Path e \<mapsto> e)"
  by (simp add: byPath_def)

lemma byPath_Path: "byPath es p = Some e \<Longrightarrow> Path e = p \<and> e \<in> set es"
  by (induction es rule: rev_induct) (auto split: if_splits)

lemma byPath_None: "byPath es p = None \<longleftrightarrow> p \<notin> Path ` set es"
  by (induction es rule: rev_induct) auto

lemma dom_byPath: "dom (byPath es) = Path ` set es"
  by (rule set_eqI) (metis byPath_None domIff)

lemma byPath_distinct:
  "distinct (map Path es) \<Longrightarrow> e \<in> set es \<Longrightarrow> byPath es (Path e) = Some e"
  by (induction es rule: rev_induct) (auto simp: rev_image_eqI)

lemma byPath_sort:
  assumes "distinct (map Path es)"
  shows "byPath (sort_key Path es) = byPath es"
proof
  fix p
  have d: "distinct (map Path (sort_key Path es))"
    using assms by (simp add: distinct_map)
  show "byPath (sort_key Path es) p = byPath es p"
  proof (cases "byPath es p")
    case None
    then show ?thesis
      using byPath_None [of es p] byPath_None [of "sort_key Path es" p] by simp
  next
    case (Some e)
    then show ?thesis
      using byPath_distinct [OF d, of e] byPath_Path [OF Some] by auto
  qed
qed

lemma sameEntry_refl [simp]: "sameEntry e e b" "sameEntryExceptMode e e"
  by (simp_all add: sameEntry_def sameEntryExceptMode_def)

section \<open>Facts about the diff\<close>

lemma Diff_changed:
  assumes "Diff ordA ordB before after im = (changed, deleted)" and "visits ordA after"
  shows "set changed = {e. byPath after (Path e) = Some e \<and> entryChanged im (byPath before) e}"
    and "distinct (map Path changed)" and "sorted (map Path changed)"
proof -
  let ?all = "map (\<lambda>p. the (byPath after p)) ordA"
  have dom: "set ordA = dom (byPath after)" using assms(2) by (simp add: visits_def dom_byPath)
  have paths: "map Path ?all = ordA"
    using dom byPath_Path [of after] by (auto intro!: map_idI)
  then have "distinct (map Path ?all)" using assms(2) by (simp add: visits_def)
  then have d: "distinct (map Path (filter f ?all))" for f by (rule distinct_map_filter)
  have c: "changed = sort_key Path (filter (entryChanged im (byPath before)) ?all)"
    using assms(1) by (simp add: Diff_def Let_def)
  show "distinct (map Path changed)"
    using d [of "entryChanged im (byPath before)"] by (simp add: c distinct_map)
  show "sorted (map Path changed)" by (simp add: c)
  have "set ?all = {e. byPath after (Path e) = Some e}"
  proof (intro set_eqI iffI)
    fix e assume "e \<in> set ?all"
    then obtain p where "byPath after p = Some e" using dom by auto
    from this byPath_Path [OF this] show "e \<in> {e. byPath after (Path e) = Some e}" by simp
  next
    fix e assume "e \<in> {e. byPath after (Path e) = Some e}"
    then have "byPath after (Path e) = Some e" by simp
    then have "e = the (byPath after (Path e))" "Path e \<in> set ordA" using dom by (simp, blast)
    then show "e \<in> set ?all" unfolding set_map by (rule image_eqI)
  qed
  then show "set changed = {e. byPath after (Path e) = Some e \<and> entryChanged im (byPath before) e}"
    by (auto simp: c)
qed

lemma Diff_deleted:
  assumes "Diff ordA ordB before after im = (changed, deleted)" and "visits ordB before"
  shows "set deleted = Path ` set before - Path ` set after" and "distinct deleted"
    and "sorted_wrt (\<lambda>p q. depth q \<le> depth p) deleted"
proof -
  have del: "deleted = sort_key (\<lambda>p. - int (depth p)) (filter (\<lambda>p. byPath after p = None) ordB)"
    using assms(1) by (simp add: Diff_def Let_def)
  show "set deleted = Path ` set before - Path ` set after"
    using assms(2) by (auto simp: del visits_def byPath_None)
  show "distinct deleted" using assms(2) by (simp add: del visits_def)
  have "sorted (map (\<lambda>p. - int (depth p)) deleted)" by (simp add: del)
  then show "sorted_wrt (\<lambda>p q. depth q \<le> depth p) deleted"
    by (simp add: sorted_map)
qed

text \<open>What a receiver of a diff does to its files: the deletions, then the changed entries.\<close>

definition patch :: "entry list \<times> string list \<Rightarrow> (string \<rightharpoonup> entry) \<Rightarrow> (string \<rightharpoonup> entry)" where
  "patch d m = (case d of (changed, deleted) \<Rightarrow> (m |` (- set deleted)) ++ byPath changed)"

lemma patch_Diff:
  assumes "Diff ordA ordB before after im = (changed, deleted)"
    and "visits ordA after" and "visits ordB before"
  shows "rel_option (\<lambda>a b. sameEntry a b im)
    (patch (changed, deleted) (byPath before) p) (byPath after p)"
proof -
  note c = Diff_changed [OF assms(1,2)]
  note d = Diff_deleted [OF assms(1,3)]
  show ?thesis
  proof (cases "byPath after p")
    case None
    then have "byPath changed p = None" using c(1) by (auto simp: byPath_None [of changed])
    moreover have "(byPath before |` (- set deleted)) p = None"
      using None byPath_None [of after p] byPath_None [of before p] d(1)
      by (auto simp: restrict_map_def)
    ultimately show ?thesis using None by (simp add: patch_def map_add_def)
  next
    case (Some e)
    have e: "Path e = p" "e \<in> set after" using byPath_Path [OF Some] by auto
    show ?thesis
    proof (cases "entryChanged im (byPath before) e")
      case True
      then have "e \<in> set changed" using c(1) Some e(1) by simp
      from byPath_distinct [OF c(2) this] show ?thesis
        using e Some by (simp add: patch_def)
    next
      case False
      then obtain b where b: "byPath before p = Some b" "sameEntry b e im"
        using e(1) by (auto simp: entryChanged_def split: option.splits)
      have "Path x \<noteq> p" if "x \<in> set changed" for x
      proof
        assume "Path x = p"
        moreover from that c(1) have "byPath after (Path x) = Some x"
          "entryChanged im (byPath before) x" by simp_all
        ultimately show False using Some False by simp
      qed
      then have "byPath changed p = None" unfolding byPath_None by blast
      moreover have "p \<notin> set deleted" using d(1) e by auto
      ultimately show ?thesis using b Some by (simp add: patch_def map_add_def)
    qed
  qed
qed

section \<open>Facts about modes and preserved entries\<close>

lemma normalizeMode_Path [simp]: "Path (normalizeMode m e) = Path e"
  by (auto simp: normalizeMode_def defaultMode_def split: option.splits entryKind.splits)

lemma normalizeMode_content: "sameEntryExceptMode (normalizeMode m e) e"
  by (auto simp: normalizeMode_def defaultMode_def sameEntryExceptMode_def
      split: option.splits entryKind.splits)

lemma sameEntryExceptMode_trans:
  "sameEntryExceptMode a b \<Longrightarrow> sameEntryExceptMode b c \<Longrightarrow> sameEntryExceptMode a c"
  by (simp add: sameEntryExceptMode_def)

lemma normalizeMode_idem: "normalizeMode m (normalizeMode m e) = normalizeMode m e"
  by (auto simp: normalizeMode_def defaultMode_def sameEntryExceptMode_def defaultDirMode_def
      defaultFileMode_def split: option.splits entryKind.splits)

lemma byPath_map:
  assumes "\<And>e. Path (f e) = Path e"
  shows "byPath (map f es) p = map_option f (byPath es p)"
  by (induction es rule: rev_induct) (auto simp: assms)

text \<open>A host that keeps no modes: after normalising, only content counts as a change.\<close>

lemma entryChanged_normalized:
  "entryChanged False (byPath ref) (normalizeMode (byPath ref) e)
   \<longleftrightarrow> entryChanged True (byPath ref) e"
  by (auto simp: entryChanged_def sameEntry_def normalizeMode_def sameEntryExceptMode_def
      defaultMode_def split: option.splits entryKind.splits)

lemma preserveLoop_set:
  "set (preserveLoop kind seen es) \<subseteq> {e \<in> set es. Kind e = kind \<and> Path e \<notin> seen}
   \<and> distinct (map Path (preserveLoop kind seen es))
   \<and> Path ` set (preserveLoop kind seen es) = Path ` {e \<in> set es. Kind e = kind} - seen"
proof (induction es arbitrary: seen)
  case Nil
  then show ?case by simp
next
  case (Cons e es)
  show ?case
  proof (cases "Kind e = kind \<and> Path e \<notin> seen")
    case True
    from Cons [of "insert (Path e) seen"] True show ?thesis by auto
  next
    case False
    with Cons [of seen] show ?thesis by auto
  qed
qed

lemma map_insort_key: "map f (insort_key f x xs) = insort (f x) (map f xs)"
  by (induction xs) auto

lemma map_sort_key: "map f (sort_key f xs) = sort (map f xs)"
  by (induction xs) (simp_all add: map_insort_key)

section \<open>Properties\<close>

text \<open>
  Sending a diff is enough: whatever the order in which the maps are visited, deleting
  the deleted paths from the old manifest and putting the changed entries in gives, path by
  path, an entry the comparison takes for that of the new manifest.
\<close>

theorem diff_patches:
  assumes "Diff ordA ordB before after im = (changed, deleted)"
    and "visits ordA after" "visits ordB before"
  shows "rel_option (\<lambda>a b. sameEntry a b im)
    (patch (changed, deleted) (byPath before) p) (byPath after p)"
  by (rule patch_Diff [OF assms])

text \<open>
  A diff sends nothing twice and nothing needlessly: the changed entries have distinct
  paths in ascending order and each is new or differs, and the deleted paths are exactly
  those gone, the deeper ones first, so that a directory comes after its content.
\<close>

theorem diff_minimal_ordered:
  assumes "Diff ordA ordB before after im = (changed, deleted)"
    and "visits ordA after" "visits ordB before"
  shows "set changed = {e. byPath after (Path e) = Some e \<and> entryChanged im (byPath before) e}
    \<and> sorted (map Path changed) \<and> distinct (map Path changed)
    \<and> set deleted = Path ` set before - Path ` set after \<and> distinct deleted
    \<and> sorted_wrt (\<lambda>p q. depth q \<le> depth p) deleted"
  using Diff_changed [OF assms(1,2)] Diff_deleted [OF assms(1,3)] by simp

text \<open>
  Once the modes of a manifest are normalised against the reference, comparing with
  modes finds the changes that comparing without modes finds: a host without Unix modes
  reports no spurious change.
\<close>

theorem normalized_modes_do_not_count:
  assumes "visits ordA after"
  shows "map Path (fst (Diff ordA ordB ref (NormalizeModes after ref) False)) =
         map Path (fst (Diff ordA ordB ref after True))
    \<and> snd (Diff ordA ordB ref (NormalizeModes after ref) False) =
      snd (Diff ordA ordB ref after True)"
proof -
  let ?nm = "normalizeMode (byPath ref)"
  have m: "byPath (NormalizeModes after ref) p = map_option ?nm (byPath after p)" for p
    by (simp add: NormalizeModes_def byPath_map)
  have "set ordA = dom (byPath after)" using assms by (simp add: visits_def dom_byPath)
  then have "\<forall>p \<in> set ordA. the (byPath (NormalizeModes after ref) p) = ?nm (the (byPath after p))"
    by (auto simp: m)
  then have all: "map (\<lambda>p. the (byPath (NormalizeModes after ref) p)) ordA
      = map ?nm (map (\<lambda>p. the (byPath after p)) ordA)" by simp
  have f: "map Path (filter (entryChanged False (byPath ref)) (map ?nm xs))
      = map Path (filter (entryChanged True (byPath ref)) xs)" for xs
    by (induction xs) (simp_all add: entryChanged_normalized)
  have "map Path (fst (Diff ordA ordB ref (NormalizeModes after ref) False)) =
         map Path (fst (Diff ordA ordB ref after True))"
    unfolding Diff_def Let_def fst_conv map_sort_key all f by (rule refl)
  moreover have "snd (Diff ordA ordB ref (NormalizeModes after ref) False) =
      snd (Diff ordA ordB ref after True)"
    by (simp add: Diff_def Let_def m)
  ultimately show ?thesis by blast
qed

text \<open>
  Entries kept for paths that were not synced never replace a synced entry: every
  synced entry stays, each missing path of the kind is added once, the result is sorted.
\<close>

theorem preserve_adds_missing_only:
  assumes "distinct (map Path entries)"
  shows "set entries \<subseteq> set (PreserveMissingEntries entries preserve kind)
    \<and> Path ` set (PreserveMissingEntries entries preserve kind)
      = Path ` set entries \<union> Path ` {e \<in> set preserve. Kind e = kind}
    \<and> distinct (map Path (PreserveMissingEntries entries preserve kind))
    \<and> sorted (map Path (PreserveMissingEntries entries preserve kind))"
proof -
  let ?l = "preserveLoop kind (Path ` set entries) preserve"
  note l = preserveLoop_set [of kind "Path ` set entries" preserve]
  have "distinct (map Path (entries @ ?l))" using assms l by auto
  then have "distinct (map Path (PreserveMissingEntries entries preserve kind))"
    unfolding PreserveMissingEntries_def map_sort_key by simp
  then show ?thesis using l by (auto simp: PreserveMissingEntries_def image_Un)
qed

text \<open>A file that changed, one that went away, a directory that stayed.\<close>

definition fileEntry :: "string \<Rightarrow> string \<Rightarrow> nat \<Rightarrow> entry" where
  "fileEntry p h m = \<lparr>Path = p, Kind = KindFile, Hash = h, Size = 1, Mode = m, ModTime = 0,
     Linkname = []\<rparr>"

lemma demoDiff:
  "Diff [''a''] [''a'', ''b'', ''b/c''] [fileEntry ''a'' ''0'' 1, fileEntry ''b'' ''1'' 1,
     fileEntry ''b/c'' ''2'' 1] [fileEntry ''a'' ''3'' 1] False
   = ([fileEntry ''a'' ''3'' 1], [''b/c'', ''b''])"
proof -
  have "depth ''b'' = 1" "depth ''b/c'' = 2" by code_simp+
  then show ?thesis
    by (simp add: Diff_def Let_def fileEntry_def byPath_def entryChanged_def sameEntry_def
        sameEntryExceptMode_def)
qed

lemma demoVisits:
  "visits [''a''] [fileEntry ''a'' ''3'' 1]"
  "visits [''a'', ''b'', ''b/c''] [fileEntry ''a'' ''0'' 1, fileEntry ''b'' ''1'' 1,
     fileEntry ''b/c'' ''2'' 1]"
  by (auto simp: visits_def fileEntry_def)

lemma diff_patches_witness:
  "rel_option (\<lambda>a b. sameEntry a b False)
    (patch ([fileEntry ''a'' ''3'' 1], [''b/c'', ''b'']) (byPath [fileEntry ''a'' ''0'' 1,
       fileEntry ''b'' ''1'' 1, fileEntry ''b/c'' ''2'' 1]) ''a'')
    (byPath [fileEntry ''a'' ''3'' 1] ''a'')"
  by (rule diff_patches [OF demoDiff demoVisits])

lemma diff_minimal_ordered_witness:
  "sorted_wrt (\<lambda>p q. depth q \<le> depth p) [''b/c'', ''b'']"
  using diff_minimal_ordered [OF demoDiff demoVisits] by blast

lemma normalized_modes_do_not_count_witness:
  "map Path (fst (Diff [''a''] [''a''] [fileEntry ''a'' ''0'' 1]
     (NormalizeModes [fileEntry ''a'' ''0'' 2] [fileEntry ''a'' ''0'' 1]) False)) =
   map Path (fst (Diff [''a''] [''a''] [fileEntry ''a'' ''0'' 1] [fileEntry ''a'' ''0'' 2] True))"
  by (rule normalized_modes_do_not_count [THEN conjunct1]) (simp add: visits_def fileEntry_def)

lemma preserve_adds_missing_only_witness:
  "set [fileEntry ''a'' ''0'' 1] \<subseteq> set (PreserveMissingEntries [fileEntry ''a'' ''0'' 1]
     [fileEntry ''a'' ''9'' 1, fileEntry ''b'' ''1'' 1] KindFile)"
  by (rule preserve_adds_missing_only [THEN conjunct1]) (simp add: fileEntry_def)

end
