(* ===== verification/RefCount.thy ===== *)
theory RefCount
  imports Prelude "HOL-Library.Multiset"
begin

text \<open>
  The interface of the host's in-use counters: taking a key counts it once more, giving it
  back once less, other keys stay. The contexts and the workspace leases of the host
  interpret it; a history of calls is the multiset of the keys still held.
\<close>

datatype 'k refEvent = Acquire 'k | Release 'k

fun heldAfter :: "'k refEvent list \<Rightarrow> 'k multiset \<Rightarrow> 'k multiset" where
  "heldAfter [] held = held"
| "heldAfter (Acquire k # es) held = heldAfter es (add_mset k held)"
| "heldAfter (Release k # es) held = heldAfter es (held - {#k#})"

text \<open>Every release gives back a key that is held at that time.\<close>

fun wellBracketed :: "'k refEvent list \<Rightarrow> 'k multiset \<Rightarrow> bool" where
  "wellBracketed [] held = True"
| "wellBracketed (Acquire k # es) held = wellBracketed es (add_mset k held)"
| "wellBracketed (Release k # es) held = (k \<in># held \<and> wellBracketed es (held - {#k#}))"

locale ref_count =
  fixes invar :: "'s \<Rightarrow> bool"
    and use_count :: "'s \<Rightarrow> 'k \<Rightarrow> nat"
    and take_key :: "'k \<Rightarrow> 's \<Rightarrow> 's"
    and drop_key :: "'k \<Rightarrow> 's \<Rightarrow> 's"
  assumes invar_take: "invar s \<Longrightarrow> invar (take_key k s)"
    and invar_drop: "invar s \<Longrightarrow> invar (drop_key k s)"
    and take_key: "invar s \<Longrightarrow> use_count (take_key k s) j = (if j = k then use_count s k + 1 else use_count s j)"
    and drop_key: "invar s \<Longrightarrow> 0 < use_count s k \<Longrightarrow>
      use_count (drop_key k s) j = (if j = k then use_count s k - 1 else use_count s j)"
begin

fun runRefs :: "'k refEvent list \<Rightarrow> 's \<Rightarrow> 's" where
  "runRefs [] s = s"
| "runRefs (Acquire k # es) s = runRefs es (take_key k s)"
| "runRefs (Release k # es) s = runRefs es (drop_key k s)"

lemma runRefs_counts:
  "invar s \<Longrightarrow> wellBracketed es held \<Longrightarrow> (\<And>k. use_count s k = count held k) \<Longrightarrow>
   invar (runRefs es s) \<and> use_count (runRefs es s) k = count (heldAfter es held) k"
proof (induction es arbitrary: s held)
  case Nil
  then show ?case by simp
next
  case (Cons e es)
  show ?case
  proof (cases e)
    case (Acquire k')
    have "use_count (take_key k' s) j = count (add_mset k' held) j" for j
      using Cons.prems by (simp add: take_key)
    with Cons.IH [of "take_key k' s" "add_mset k' held"] Cons.prems(1,2) Acquire
    show ?thesis by (simp add: invar_take)
  next
    case (Release k')
    then have "k' \<in># held" "wellBracketed es (held - {#k'#})" using Cons.prems(2) by auto
    then have "0 < use_count s k'" using Cons.prems(3) by simp
    then have "use_count (drop_key k' s) j = count (held - {#k'#}) j" for j
      using Cons.prems(1,3) by (simp add: drop_key)
    with Cons.IH [OF invar_drop [OF Cons.prems(1)] \<open>wellBracketed es (held - {#k'#})\<close>] Release
    show ?thesis by simp
  qed
qed

lemma take_drop: "invar s \<Longrightarrow> use_count (drop_key k (take_key k s)) j = use_count s j"
  by (simp add: drop_key take_key invar_take)

end

text \<open>
  The maps of the host: \<open>m[k]++\<close>, and the release that deletes the key at one or less. The
  lookup of a missing key is zero.
\<close>

type_synonym counters = "string \<rightharpoonup> int"

definition counter :: "counters \<Rightarrow> string \<Rightarrow> int" where
  "counter m k = (case m k of None \<Rightarrow> 0 | Some n \<Rightarrow> n)"

definition incCounter :: "string \<Rightarrow> counters \<Rightarrow> counters" where
  "incCounter k m = m(k \<mapsto> counter m k + 1)"

definition decCounter :: "string \<Rightarrow> counters \<Rightarrow> counters" where
  "decCounter k m = (if counter m k \<le> 1 then m(k := None) else m(k \<mapsto> counter m k - 1))"

text \<open>No key stays in the map with a count of zero or less.\<close>

definition tidy :: "counters \<Rightarrow> bool" where
  "tidy m \<longleftrightarrow> (\<forall>k n. m k = Some n \<longrightarrow> 1 \<le> n)"

lemma counter_update [simp]:
  "counter (m(k \<mapsto> n)) j = (if j = k then n else counter m j)"
  "counter (m(k := None)) j = (if j = k then 0 else counter m j)"
  "counter Map.empty k = 0"
  by (simp_all add: counter_def)

lemma tidy_counter: "tidy m \<Longrightarrow> 0 \<le> counter m k \<and> (0 < counter m k \<longleftrightarrow> m k \<noteq> None)"
proof (cases "m k")
  case None
  then show ?thesis by (simp add: counter_def)
next
  case (Some n)
  moreover assume "tidy m"
  ultimately have "1 \<le> n" unfolding tidy_def by blast
  then show ?thesis by (simp add: counter_def Some)
qed

lemma tidy_steps:
  "tidy Map.empty" "tidy m \<Longrightarrow> tidy (incCounter k m)" "tidy m \<Longrightarrow> tidy (decCounter k m)"
  using tidy_counter [of m k] by (auto simp: tidy_def incCounter_def decCounter_def)

interpretation hostRefs: ref_count tidy "\<lambda>m k. nat (counter m k)" incCounter decCounter
proof
  fix s :: counters and k j
  assume t: "tidy s"
  show "tidy (incCounter k s)" "tidy (decCounter k s)" using t by (simp_all add: tidy_steps)
  show "nat (counter (incCounter k s) j) =
      (if j = k then nat (counter s k) + 1 else nat (counter s j))"
    using tidy_counter [OF t, of k] by (simp add: incCounter_def nat_add_distrib)
  assume "0 < nat (counter s k)"
  then show "nat (counter (decCounter k s) j) =
      (if j = k then nat (counter s k) - 1 else nat (counter s j))"
    by (auto simp: decCounter_def nat_diff_distrib)
qed

end
