(* ===== verification/Config.thy ===== *)
theory Config
  imports GoPath Prelude
begin

text \<open>
  The project configuration (config/config.go): where it is found, what a decoded file is
  completed with, which runtimes are accepted, and the identity of a project on its host.
  The JSON decoder reads a file into a value laid over \<open>Default\<close>; what it makes of the file
  is the environment's, a \<open>jsonFile\<close>. \<open>parseDuration\<close> is \<open>time.ParseDuration\<close>.
\<close>

section \<open>The data\<close>

record runtimeVolume =
  volumeName :: string
  volumeTarget :: string

record runtimeSetup =
  ImageCommands :: "string list"
  ContextCommands :: "string list"
  ContextInputs :: "string list"

record runtimeConfig =
  rtType :: string
  rtImage :: string
  PullPolicy :: string
  WorkDir :: string
  Network :: string
  User :: string
  GPU :: string
  WSLDistro :: string
  Setup :: runtimeSetup
  Volumes :: "runtimeVolume list"

record configMount =
  cmPath :: string
  cmExclude :: "string list"

record discoveryConfig =
  dcEnabled :: "bool option"
  dcService :: string
  dcTimeout :: string

record config =
  cfgVersion :: int
  cfgContextName :: string
  cfgHost :: string
  cfgHostFingerprint :: string
  cfgRuntime :: runtimeConfig
  cfgDiscovery :: discoveryConfig
  cfgMounts :: "configMount list"
  cfgSyncBack :: "string list option"
  cfgIgnore :: "string list"
  cfgIgnoreGitignore :: bool
  cfgEnvForward :: "string list"

record loaded =
  ldPath :: string
  ldRoot :: string
  ldConfig :: config

definition fileNames :: "string list" where "fileNames = [''.rmtx.json'', ''rmtx.json'']"
definition DefaultService :: string where "DefaultService = ''rmtx''"
definition defaultContextName :: string where "defaultContextName = ''context''"
definition contextHashLen :: nat where "contextHashLen = 12"
definition defaultDiscoveryTimeout :: duration where "defaultDiscoveryTimeout = 750 * 1000000"

definition noSetup :: runtimeSetup where
  "noSetup = \<lparr>ImageCommands = [], ContextCommands = [], ContextInputs = []\<rparr>"

definition noRuntime :: runtimeConfig where
  "noRuntime = \<lparr>rtType = [], rtImage = [], PullPolicy = [], WorkDir = [], Network = [], User = [],
     GPU = [], WSLDistro = [], Setup = noSetup, Volumes = []\<rparr>"

definition DefaultConfig :: config where
  "DefaultConfig = \<lparr>cfgVersion = 1, cfgContextName = [], cfgHost = [], cfgHostFingerprint = [],
     cfgRuntime = noRuntime,
     cfgDiscovery = \<lparr>dcEnabled = None, dcService = DefaultService, dcTimeout = ''750ms''\<rparr>,
     cfgMounts = [\<lparr>cmPath = ''.'', cmExclude = []\<rparr>], cfgSyncBack = None, cfgIgnore = [],
     cfgIgnoreGitignore = False, cfgEnvForward = []\<rparr>"

section \<open>Completing and validating\<close>

definition orDefault :: "string \<Rightarrow> string \<Rightarrow> string" where
  "orDefault dflt s = (if trimSpace s = [] then dflt else s)"

definition normalizeRuntime :: "runtimeConfig \<Rightarrow> runtimeConfig" where
  "normalizeRuntime r =
     (if trimSpace (rtType r) = [] then r
      else r\<lparr>PullPolicy := orDefault ''if_missing'' (PullPolicy r),
             WorkDir := orDefault ''/workspace'' (WorkDir r),
             Network := orDefault ''host'' (Network r),
             User := orDefault ''root'' (User r),
             GPU := orDefault ''none'' (GPU r)\<rparr>)"

definition normalizeConfig :: "config \<Rightarrow> config" where
  "normalizeConfig c =
     c\<lparr>cfgVersion := (if cfgVersion c = 0 then 1 else cfgVersion c),
       cfgMounts := (if cfgMounts c = [] then [\<lparr>cmPath = ''.'', cmExclude = []\<rparr>] else cfgMounts c),
       cfgDiscovery := (cfgDiscovery c)\<lparr>dcService := orDefault DefaultService (dcService (cfgDiscovery c)),
                                         dcTimeout := orDefault ''750ms'' (dcTimeout (cfgDiscovery c))\<rparr>,
       cfgRuntime := normalizeRuntime (cfgRuntime c)\<rparr>"

definition WithDefaults :: "config \<Rightarrow> config" where
  "WithDefaults c = normalizeConfig c"

datatype configError =
    StartRequired | PathRequired | ConfigNotFound | ConfigRequired | StatConfig string
  | ReadConfig | ParseConfig | UnsupportedVersion int | InvalidTimeout string
  | TypeRequired | UnsupportedType string | ImageRequired | UnsupportedPullPolicy string
  | UnsupportedNetwork string | UnsupportedGPU string | UnsupportedUser string
  | InvalidWorkDir string | VolumeNameRequired | InvalidVolumeName string
  | InvalidVolumeTarget string

definition equalAny :: "string \<Rightarrow> string list \<Rightarrow> bool" where
  "equalAny v allowed = list_ex (equalFold v) allowed"

text \<open>\<open>path.Clean\<close> agrees with \<open>filepath.Clean\<close> on Unix.\<close>

definition validRuntimeTarget :: "string \<Rightarrow> bool" where
  "validRuntimeTarget target =
     (if \<not> hasPrefix target ''/'' \<or> CHR 0x00 \<in> set target then False
      else if ''..'' \<in> set (splitOn slash target) then False
      else pathClean target \<noteq> ''.'')"

definition runtimeConfigured :: "runtimeConfig \<Rightarrow> bool" where
  "runtimeConfigured r \<longleftrightarrow>
     trimSpace (rtImage r) \<noteq> [] \<or> trimSpace (PullPolicy r) \<noteq> [] \<or> trimSpace (WSLDistro r) \<noteq> []
     \<or> trimSpace (WorkDir r) \<noteq> [] \<or> trimSpace (Network r) \<noteq> [] \<or> trimSpace (User r) \<noteq> []
     \<or> trimSpace (GPU r) \<noteq> []
     \<or> ImageCommands (Setup r) \<noteq> [] \<or> ContextCommands (Setup r) \<noteq> []
     \<or> ContextInputs (Setup r) \<noteq> [] \<or> Volumes r \<noteq> []"

definition backslash :: char where "backslash = CHR 0x5C"

fun validateVolumes :: "runtimeVolume list \<Rightarrow> configError + unit" where
  "validateVolumes [] = Inr ()"
| "validateVolumes (v # vs) =
     (if trimSpace (volumeName v) = [] then Inl VolumeNameRequired
      else if containsAny (volumeName v) [slash, backslash] \<or> volumeName v = ''.''
              \<or> volumeName v = ''..''
        then Inl (InvalidVolumeName (volumeName v))
      else if \<not> validRuntimeTarget (volumeTarget v) then Inl (InvalidVolumeTarget (volumeTarget v))
      else validateVolumes vs)"

definition validateRuntime :: "runtimeConfig \<Rightarrow> configError + unit" where
  "validateRuntime r =
     (let typ = trimSpace (rtType r) in
      if typ = [] then (if runtimeConfigured r then Inl TypeRequired else Inr ())
      else if \<not> equalAny typ [''oci''] then Inl (UnsupportedType (rtType r))
      else if trimSpace (rtImage r) = [] then Inl ImageRequired
      else if \<not> equalAny (PullPolicy r) [''if_missing'', ''always'', ''never'']
        then Inl (UnsupportedPullPolicy (PullPolicy r))
      else if \<not> equalAny (Network r) [''host'', ''none''] then Inl (UnsupportedNetwork (Network r))
      else if \<not> equalAny (GPU r) [''none'', ''nvidia''] then Inl (UnsupportedGPU (GPU r))
      else if \<not> equalAny (User r) [''root''] then Inl (UnsupportedUser (User r))
      else if \<not> validRuntimeTarget (WorkDir r) then Inl (InvalidWorkDir (WorkDir r))
      else validateVolumes (Volumes r))"

definition ValidateRuntime :: "runtimeConfig \<Rightarrow> configError + unit" where
  "ValidateRuntime r = validateRuntime (normalizeRuntime r)"

section \<open>Finding and loading\<close>

definition absPath :: "string \<Rightarrow> string \<Rightarrow> string" where
  "absPath cwd p = (if isAbs p then pathClean p else pathJoin [cwd, p])"

text \<open>\<open>read\<close> gives the file at a path as the decoder sees it.\<close>

definition Load ::
  "(string \<Rightarrow> duration option) \<Rightarrow> string \<Rightarrow> (string \<Rightarrow> config jsonFile) \<Rightarrow> string \<Rightarrow> configError + loaded" where
  "Load parseDuration cwd read path =
     (if path = [] then Inl PathRequired
      else
        (let p = absPath cwd path in
         case read p of
           Missing \<Rightarrow> Inl ReadConfig
         | Unreadable \<Rightarrow> Inl ReadConfig
         | Corrupt \<Rightarrow> Inl ParseConfig
         | Stored c0 \<Rightarrow>
             (let c = normalizeConfig c0 in
              if cfgVersion c \<noteq> cfgVersion DefaultConfig then Inl (UnsupportedVersion (cfgVersion c))
              else if (case parseDuration (dcTimeout (cfgDiscovery c)) of
                         None \<Rightarrow> True | Some d \<Rightarrow> d \<le> 0)
                then Inl (InvalidTimeout (dcTimeout (cfgDiscovery c)))
              else andThen (ValidateRuntime (cfgRuntime c)) (\<lambda>_.
                Inr \<lparr>ldPath = p, ldRoot = pathDir p, ldConfig = c\<rparr>))))"

datatype statResult = StatOk | StatNotExist | StatError

fun firstCandidate :: "(string \<Rightarrow> statResult) \<Rightarrow> string list \<Rightarrow> configError + string option" where
  "firstCandidate stat [] = Inr None"
| "firstCandidate stat (p # ps) =
     (case stat p of
        StatOk \<Rightarrow> Inr (Some p)
      | StatNotExist \<Rightarrow> firstCandidate stat ps
      | StatError \<Rightarrow> Inl (StatConfig p))"

text \<open>
  The loop of \<open>Search\<close>: \<open>rsegs\<close> are the elements of the current directory, the last first.
  The path is absolute and clean, so \<open>filepath.Dir\<close> drops the last element and is the
  identity on the root only.
\<close>

fun searchUp ::
  "(string \<Rightarrow> statResult) \<Rightarrow> (string \<Rightarrow> configError + loaded) \<Rightarrow> string list \<Rightarrow> configError + loaded" where
  "searchUp stat load rsegs =
     (case firstCandidate stat
        (map (\<lambda>n. pathJoin [slash # joinOn slash (rev rsegs), n]) fileNames) of
        Inl e \<Rightarrow> Inl e
      | Inr (Some p) \<Rightarrow> load p
      | Inr None \<Rightarrow> (case rsegs of [] \<Rightarrow> Inl ConfigNotFound | _ # up \<Rightarrow> searchUp stat load up))"

declare searchUp.simps [simp del]

record configEnv =
  ceParseDuration :: "string \<Rightarrow> duration option"
  ceCwd :: string
  ceRead :: "string \<Rightarrow> config jsonFile"
  ceStat :: "string \<Rightarrow> statResult"

definition loadIn :: "configEnv \<Rightarrow> string \<Rightarrow> configError + loaded" where
  "loadIn env p = Load (ceParseDuration env) (ceCwd env) (ceRead env) p"

definition Search :: "configEnv \<Rightarrow> string \<Rightarrow> configError + loaded" where
  "Search env startDir =
     (if startDir = [] then Inl StartRequired
      else searchUp (ceStat env) (loadIn env) (rev (pathSegs (absPath (ceCwd env) startDir))))"

definition loadExplicitOrSearch :: "configEnv \<Rightarrow> string \<Rightarrow> string \<Rightarrow> configError + loaded" where
  "loadExplicitOrSearch env startDir explicit =
     (if trimSpace explicit \<noteq> [] then loadIn env explicit else Search env startDir)"

definition ResolveConfig :: "configEnv \<Rightarrow> string \<Rightarrow> string \<Rightarrow> configError + loaded" where
  "ResolveConfig env startDir explicit =
     (case loadExplicitOrSearch env startDir explicit of
        Inr l \<Rightarrow> Inr l
      | Inl e \<Rightarrow>
          if e \<noteq> ConfigNotFound then Inl e
          else Inr \<lparr>ldPath = [], ldRoot = absPath (ceCwd env) startDir,
                    ldConfig = normalizeConfig DefaultConfig\<rparr>)"

definition ResolveRequired :: "configEnv \<Rightarrow> string \<Rightarrow> string \<Rightarrow> configError + loaded" where
  "ResolveRequired env startDir explicit =
     (case loadExplicitOrSearch env startDir explicit of
        Inr l \<Rightarrow> Inr l
      | Inl e \<Rightarrow> if e = ConfigNotFound then Inl ConfigRequired else Inl e)"

definition DiscoveryEnabled :: "config \<Rightarrow> bool" where
  "DiscoveryEnabled c = (case dcEnabled (cfgDiscovery c) of None \<Rightarrow> True | Some b \<Rightarrow> b)"

definition DiscoveryTimeout :: "(string \<Rightarrow> duration option) \<Rightarrow> config \<Rightarrow> duration" where
  "DiscoveryTimeout parseDuration c =
     (case parseDuration (dcTimeout (cfgDiscovery c)) of None \<Rightarrow> defaultDiscoveryTimeout | Some d \<Rightarrow> d)"

section \<open>The identity of a project\<close>

definition ContextName :: "loaded \<Rightarrow> string" where
  "ContextName l =
     (let name = trimSpace (cfgContextName (ldConfig l)) in
      if name \<noteq> [] then name
      else
        (let base = pathBase (ldRoot l) in
         if base = [] \<or> base = ''.'' \<or> base = ''/'' then defaultContextName else base))"

definition ContextIdentity :: "loaded \<Rightarrow> string" where
  "ContextIdentity l =
     (let name = trimSpace (cfgContextName (ldConfig l)) in
      if name \<noteq> [] then ''name:'' @ name
      else ''root:'' @ pathClean (if ldRoot l = [] \<and> ldPath l \<noteq> [] then pathDir (ldPath l) else ldRoot l))"

text \<open>
  \<open>strings.ToLower\<close> rune by rune, as far as \<open>slug\<close> looks at the result: apart from A to Z only
  U+0130 and U+212A become ASCII letters; other runes stay what they are for \<open>slug\<close>, neither
  an ASCII letter, a digit nor white space, so trimming before lowering is trimming after.
\<close>

definition lowerRune :: "nat \<Rightarrow> nat" where
  "lowerRune r = (if 0x41 \<le> r \<and> r \<le> 0x5A then r + 32
                  else if r = 0x130 then 0x69 else if r = 0x212A then 0x6B else r)"

fun slugLoop :: "string \<Rightarrow> bool \<Rightarrow> nat list \<Rightarrow> string" where
  "slugLoop b lastDash [] = b"
| "slugLoop b lastDash (r # rs) =
     (if 0x61 \<le> r \<and> r \<le> 0x7A \<or> 0x30 \<le> r \<and> r \<le> 0x39 then slugLoop (b @ [char_of r]) False rs
      else if \<not> lastDash \<and> b \<noteq> [] then slugLoop (b @ ''-'') True rs
      else slugLoop b lastDash rs)"

definition trimByte :: "char \<Rightarrow> string \<Rightarrow> string" where
  "trimByte c s = dropWhile (\<lambda>x. x = c) (trimRightByte c s)"

definition slug :: "string \<Rightarrow> string" where
  "slug v =
     (let t = trimSpace v in
      if t = [] then []
      else
        (let out = trimByte (CHR ''-'') (slugLoop [] False (map lowerRune (runes t))) in
         if out = [] then ''context'' else out))"

text \<open>\<open>sha\<close>: the hexadecimal SHA-256.\<close>

definition ContextID :: "(string \<Rightarrow> string) \<Rightarrow> loaded \<Rightarrow> string" where
  "ContextID sha l =
     (let name0 = slug (ContextName l); name = (if name0 = [] then defaultContextName else name0) in
      name @ ''-'' @ take contextHashLen (sha (ContextIdentity l)))"

section \<open>Facts\<close>

lemma orDefault_idem: "trimSpace d \<noteq> [] \<Longrightarrow> orDefault d (orDefault d s) = orDefault d s"
  by (simp add: orDefault_def)

lemma normalizeRuntime_idem: "normalizeRuntime (normalizeRuntime r) = normalizeRuntime r"
proof -
  have "trimSpace ''if_missing'' \<noteq> []" "trimSpace ''/workspace'' \<noteq> []" "trimSpace ''host'' \<noteq> []"
    "trimSpace ''root'' \<noteq> []" "trimSpace ''none'' \<noteq> []" by code_simp+
  then show ?thesis by (simp add: normalizeRuntime_def orDefault_idem)
qed

lemma normalizeConfig_idem: "normalizeConfig (normalizeConfig c) = normalizeConfig c"
proof -
  have "trimSpace DefaultService \<noteq> []" "trimSpace ''750ms'' \<noteq> []" by code_simp+
  then show ?thesis
    by (simp add: normalizeConfig_def normalizeRuntime_idem orDefault_idem)
qed

lemma validateVolumes_iff:
  "validateVolumes vs = Inr () \<longleftrightarrow>
     (\<forall>v \<in> set vs. trimSpace (volumeName v) \<noteq> [] \<and> slash \<notin> set (volumeName v)
        \<and> backslash \<notin> set (volumeName v) \<and> volumeName v \<noteq> ''.'' \<and> volumeName v \<noteq> ''..''
        \<and> validRuntimeTarget (volumeTarget v))"
  by (induction vs) (auto simp: containsAny_iff)

lemma ValidateRuntime_volumes:
  assumes "ValidateRuntime r = Inr ()" "v \<in> set (Volumes r)"
  shows "normalSeg (volumeName v) \<and> validRuntimeTarget (volumeTarget v)"
proof -
  have same: "Volumes (normalizeRuntime r) = Volumes r" "rtType (normalizeRuntime r) = rtType r"
    by (simp_all add: normalizeRuntime_def)
  have "trimSpace (rtType r) \<noteq> []"
  proof
    assume t: "trimSpace (rtType r) = []"
    then have "normalizeRuntime r = r" by (simp add: normalizeRuntime_def)
    then have "\<not> runtimeConfigured r"
      using assms(1) t by (auto simp: ValidateRuntime_def validateRuntime_def split: if_splits)
    then show False using assms(2) by (simp add: runtimeConfigured_def)
  qed
  then have "validateVolumes (Volumes r) = Inr ()"
    using assms(1) same by (auto simp: ValidateRuntime_def validateRuntime_def Let_def split: if_splits)
  then have "trimSpace (volumeName v) \<noteq> []" "slash \<notin> set (volumeName v)" "volumeName v \<noteq> ''.''"
    "volumeName v \<noteq> ''..''" "validRuntimeTarget (volumeTarget v)"
    using assms(2) unfolding validateVolumes_iff by auto
  then show ?thesis by (auto simp: normalSeg_def)
qed

text \<open>The characters of a context id.\<close>

definition idByte :: "char \<Rightarrow> bool" where
  "idByte c \<longleftrightarrow> 0x61 \<le> byte c \<and> byte c \<le> 0x7A \<or> 0x30 \<le> byte c \<and> byte c \<le> 0x39 \<or> c = CHR ''-''"

lemma idByte_alnum:
  "0x61 \<le> byte c \<and> byte c \<le> 0x7A \<or> 0x30 \<le> byte c \<and> byte c \<le> 0x39 \<Longrightarrow> idByte c"
  unfolding idByte_def by blast

lemma slugLoop_bytes: "(\<forall>c \<in> set b. idByte c) \<Longrightarrow> \<forall>c \<in> set (slugLoop b d rs). idByte c"
proof (induction b d rs rule: slugLoop.induct)
  case (2 b d r rs)
  have "idByte (char_of r)" if "0x61 \<le> r \<and> r \<le> 0x7A \<or> 0x30 \<le> r \<and> r \<le> 0x39"
  proof -
    have "r < 256" using that by linarith
    then have b: "byte (char_of r) = r" by simp
    show ?thesis by (rule idByte_alnum) (simp only: b that)
  qed
  then have a: "\<forall>c \<in> set (b @ [char_of r]). idByte c" if "0x61 \<le> r \<and> r \<le> 0x7A \<or> 0x30 \<le> r \<and> r \<le> 0x39"
    using that 2(4) by simp
  have d: "\<forall>c \<in> set (b @ ''-''). idByte c" using 2(4) by (simp add: idByte_def)
  show ?case
    unfolding slugLoop.simps using 2(1) [OF _ a] 2(2) [OF _ _ d] 2(3) [OF _ _ 2(4)] by (simp only: split: if_split) blast
qed simp

lemma set_trimByte: "set (trimByte c s) \<subseteq> set s"
  unfolding trimByte_def trimRightByte_def
  by (metis (no_types, lifting) set_dropWhileD set_rev subsetI)

lemma trimByte_head: "trimByte c s \<noteq> [] \<Longrightarrow> hd (trimByte c s) \<noteq> c"
  unfolding trimByte_def by (rule hd_dropWhile)

lemma slug_bytes: "\<forall>c \<in> set (slug v). idByte c"
proof -
  have "\<forall>c \<in> set (slugLoop [] False rs). idByte c" for rs by (rule slugLoop_bytes) simp
  then have t: "\<forall>c \<in> set (trimByte (CHR ''-'') (slugLoop [] False rs)). idByte c" for rs
    using set_trimByte by blast
  have d: "\<forall>c \<in> set ''context''. idByte c" by (simp add: idByte_def)
  show ?thesis
  proof (cases "trimSpace v = []")
    case True
    then show ?thesis by (simp add: slug_def)
  next
    case False
    then show ?thesis
      using t [of "map lowerRune (runes (trimSpace v))"] d unfolding slug_def Let_def
      by (simp only: if_False split: if_split) (intro conjI impI; assumption)
  qed
qed

lemma slug_start: "slug v \<noteq> [] \<Longrightarrow> hd (slug v) \<noteq> CHR ''-''"
  by (auto simp: slug_def Let_def trimByte_head split: if_splits)

lemma ContextID_bytes:
  assumes "\<forall>c \<in> set (sha (ContextIdentity l)). idByte c"
  shows "(\<forall>c \<in> set (ContextID sha l). idByte c) \<and> hd (ContextID sha l) \<noteq> CHR ''-''"
proof -
  let ?n = "if slug (ContextName l) = [] then defaultContextName else slug (ContextName l)"
  have "\<forall>c \<in> set defaultContextName. idByte c" by (simp add: defaultContextName_def idByte_def)
  then have n: "\<forall>c \<in> set ?n. idByte c" using slug_bytes by simp
  have ne: "?n \<noteq> []" "hd ?n \<noteq> CHR ''-''" using slug_start by (auto simp: defaultContextName_def)
  have "\<forall>c \<in> set (take contextHashLen (sha (ContextIdentity l))). idByte c"
    using assms in_set_takeD by fast
  moreover have "idByte (CHR ''-'')" by (simp add: idByte_def)
  ultimately show ?thesis using n ne by (auto simp: ContextID_def Let_def)
qed

text \<open>Projects share an identity only through their name, or through their root.\<close>

lemma ContextIdentity_eq_iff:
  assumes "ldRoot l \<noteq> []" "ldRoot m \<noteq> []"
  shows "ContextIdentity l = ContextIdentity m \<longleftrightarrow>
    trimSpace (cfgContextName (ldConfig l)) = trimSpace (cfgContextName (ldConfig m))
    \<and> (trimSpace (cfgContextName (ldConfig l)) = [] \<longrightarrow> pathClean (ldRoot l) = pathClean (ldRoot m))"
  using assms by (auto simp: ContextIdentity_def Let_def)

text \<open>The candidates of a search, nearest directory first.\<close>

fun candidates :: "string list \<Rightarrow> string list" where
  "candidates rsegs =
     map (\<lambda>n. pathJoin [slash # joinOn slash (rev rsegs), n]) fileNames
       @ (case rsegs of [] \<Rightarrow> [] | _ # up \<Rightarrow> candidates up)"

declare candidates.simps [simp del]

lemma firstCandidate_find:
  "\<forall>p. stat p \<noteq> StatError \<Longrightarrow> firstCandidate stat ps = Inr (find (\<lambda>p. stat p = StatOk) ps)"
proof (induction ps)
  case (Cons p ps)
  have "stat p \<noteq> StatError" using Cons.prems by blast
  then show ?case using Cons by (cases "stat p") simp_all
qed simp

lemma find_append: "find P (xs @ ys) = (case find P xs of None \<Rightarrow> find P ys | Some x \<Rightarrow> Some x)"
  by (induction xs) auto

lemma searchUp_find:
  assumes "\<forall>p. stat p \<noteq> StatError"
  shows "searchUp stat load rsegs =
    (case find (\<lambda>p. stat p = StatOk) (candidates rsegs) of None \<Rightarrow> Inl ConfigNotFound | Some p \<Rightarrow> load p)"
proof (induction rsegs)
  case Nil
  show ?case
    by (simp add: searchUp.simps [of _ _ "[]"] candidates.simps [of "[]"] firstCandidate_find [OF assms]
        split: option.splits)
next
  case (Cons s up)
  then show ?case
    by (simp add: searchUp.simps [of _ _ "s # up"] candidates.simps [of "s # up"]
        firstCandidate_find [OF assms] find_append split: option.splits)
qed

text \<open>
  What the rest of the program expects of a runtime, field by field: either none is configured,
  or it is an OCI image with a known policy, network, user and GPU, up to upper and lower case,
  and with absolute paths without \<open>..\<close> for its directory and the targets of its volumes, whose
  names are single path elements.
\<close>

definition plainTarget :: "string \<Rightarrow> bool" where
  "plainTarget t \<longleftrightarrow> (\<exists>rest. t = slash # rest) \<and> CHR 0x00 \<notin> set t \<and> ''..'' \<notin> set (splitOn slash t)"

definition noRuntimeSet :: "runtimeConfig \<Rightarrow> bool" where
  "noRuntimeSet r \<longleftrightarrow>
     list_all (\<lambda>s. trimSpace s = []) [rtType r, rtImage r, PullPolicy r, WSLDistro r, WorkDir r, Network r, User r, GPU r]
     \<and> ImageCommands (Setup r) = [] \<and> ContextCommands (Setup r) = [] \<and> ContextInputs (Setup r) = [] \<and> Volumes r = []"

definition ociRuntime :: "runtimeConfig \<Rightarrow> bool" where
  "ociRuntime r \<longleftrightarrow> equalFold (trimSpace (rtType r)) ''oci'' \<and> trimSpace (rtImage r) \<noteq> []
     \<and> (equalFold (PullPolicy r) ''if_missing'' \<or> equalFold (PullPolicy r) ''always'' \<or> equalFold (PullPolicy r) ''never'')
     \<and> (equalFold (Network r) ''host'' \<or> equalFold (Network r) ''none'')
     \<and> (equalFold (GPU r) ''none'' \<or> equalFold (GPU r) ''nvidia'') \<and> equalFold (User r) ''root''
     \<and> plainTarget (WorkDir r)
     \<and> list_all (\<lambda>v. normalSeg (volumeName v) \<and> plainTarget (volumeTarget v)) (Volumes r)"

lemma validRuntimeTarget_plain: "validRuntimeTarget t \<Longrightarrow> plainTarget t"
  by (cases t) (auto simp: validRuntimeTarget_def plainTarget_def hasPrefix_def split: if_splits)

lemma validated_runtime:
  assumes "ValidateRuntime r = Inr ()" and "normalizeRuntime r = r"
  shows "noRuntimeSet r \<or> ociRuntime r"
proof (cases "trimSpace (rtType r) = []")
  case True
  then show ?thesis using assms
    by (auto simp: ValidateRuntime_def validateRuntime_def runtimeConfigured_def noRuntimeSet_def split: if_splits)
next
  case False
  have v: "validateRuntime r = Inr ()" using assms by (simp add: ValidateRuntime_def)
  have "equalAny (trimSpace (rtType r)) [''oci'']" "trimSpace (rtImage r) \<noteq> []"
    "equalAny (PullPolicy r) [''if_missing'', ''always'', ''never'']" "equalAny (Network r) [''host'', ''none'']"
    "equalAny (GPU r) [''none'', ''nvidia'']" "equalAny (User r) [''root'']" "validRuntimeTarget (WorkDir r)"
    using v False unfolding validateRuntime_def Let_def by (simp_all split: if_splits)
  moreover have "list_all (\<lambda>v. normalSeg (volumeName v) \<and> plainTarget (volumeTarget v)) (Volumes r)"
    using ValidateRuntime_volumes [OF assms(1)] validRuntimeTarget_plain by (auto simp: list_all_iff)
  ultimately show ?thesis by (simp add: ociRuntime_def equalAny_def validRuntimeTarget_plain)
qed

section \<open>Properties\<close>

text \<open>
  C30. A configuration that loads is well formed: its version is supported, it has a mount, its
  discovery timeout is a positive duration, completing it again changes nothing, and its runtime
  is either not configured at all or an OCI image with values the host knows for every field,
  and the host's own validation accepts it.
\<close>

theorem loaded_config_well_formed:
  assumes "Load parseDuration cwd read path = Inr l"
  shows "cfgVersion (ldConfig l) = 1 \<and> cfgMounts (ldConfig l) \<noteq> []
    \<and> (\<exists>d. parseDuration (dcTimeout (cfgDiscovery (ldConfig l))) = Some d \<and> 0 < d)
    \<and> normalizeConfig (ldConfig l) = ldConfig l
    \<and> (noRuntimeSet (cfgRuntime (ldConfig l)) \<or> ociRuntime (cfgRuntime (ldConfig l)))
    \<and> ValidateRuntime (cfgRuntime (ldConfig l)) = Inr ()"
proof -
  obtain c0 where c: "ldConfig l = normalizeConfig c0" "cfgVersion (ldConfig l) = 1"
    "case parseDuration (dcTimeout (cfgDiscovery (ldConfig l))) of None \<Rightarrow> False | Some d \<Rightarrow> 0 < d"
    "ValidateRuntime (cfgRuntime (ldConfig l)) = Inr ()"
    using assms
    by (auto simp: Load_def Let_def DefaultConfig_def andThen_Inr_iff split: jsonFile.splits if_splits option.splits)
  have "cfgMounts (ldConfig l) \<noteq> []" by (simp add: c(1) normalizeConfig_def)
  moreover have "normalizeConfig (ldConfig l) = ldConfig l" by (simp add: c(1) normalizeConfig_idem)
  moreover have "normalizeRuntime (cfgRuntime (ldConfig l)) = cfgRuntime (ldConfig l)"
    by (simp add: c(1) normalizeConfig_def normalizeRuntime_idem)
  ultimately show ?thesis using c(2-4) validated_runtime by (auto split: option.splits)
qed

text \<open>
  Without file system errors the search finds the nearest configuration: of all candidates
  from the start directory up to the root, \<open>.rmtx.json\<close> before \<open>rmtx.json\<close> in each, the first
  that exists is loaded, and not finding one is the only other outcome.
\<close>

theorem search_finds_nearest:
  assumes "\<forall>p. ceStat env p \<noteq> StatError" "startDir \<noteq> []"
  shows "Search env startDir =
    (case find (\<lambda>p. ceStat env p = StatOk) (candidates (rev (pathSegs (absPath (ceCwd env) startDir)))) of
       None \<Rightarrow> Inl ConfigNotFound | Some p \<Rightarrow> loadIn env p)"
  using assms(2) searchUp_find [OF assms(1)] by (simp add: Search_def)

definition demoRuntime :: runtimeConfig where
  "demoRuntime = noRuntime\<lparr>rtType := ''oci'', rtImage := ''alpine'',
     Volumes := [\<lparr>volumeName = ''cache'', volumeTarget = ''/cache''\<rparr>]\<rparr>"

definition demoConfigEnv :: configEnv where
  "demoConfigEnv = \<lparr>ceParseDuration = (\<lambda>s. if s = ''750ms'' then Some 750000000 else None),
     ceCwd = ''/'', ceRead = (\<lambda>p. if p = ''/a/rmtx.json'' then Stored (DefaultConfig\<lparr>cfgRuntime := demoRuntime\<rparr>) else Missing),
     ceStat = (\<lambda>p. if p = ''/a/rmtx.json'' then StatOk else StatNotExist)\<rparr>"

lemma demo_config_loads:
  "\<exists>l. loadIn demoConfigEnv ''/a/rmtx.json'' = Inr l \<and> map volumeName (Volumes (cfgRuntime (ldConfig l))) = [''cache'']"
proof -
  have ts: "trimSpace ''oci'' = ''oci''" "trimSpace ''alpine'' = ''alpine''" "trimSpace ''cache'' = ''cache''"
    by code_simp+
  have tg: "validRuntimeTarget ''/cache''" "validRuntimeTarget ''/workspace''" by code_simp+
  have v: "ValidateRuntime demoRuntime = Inr ()"
    by (simp add: ValidateRuntime_def normalizeRuntime_def demoRuntime_def noRuntime_def ts orDefault_def
        validateRuntime_def equalAny_def tg containsAny_def backslash_def)
  have p: "absPath ''/'' ''/a/rmtx.json'' = ''/a/rmtx.json''" by code_simp
  have t: "trimSpace ''750ms'' \<noteq> []" "trimSpace DefaultService \<noteq> []" by code_simp+
  have vi: "ValidateRuntime (normalizeRuntime demoRuntime) = Inr ()"
    using v by (simp add: ValidateRuntime_def normalizeRuntime_idem)
  have vol: "Volumes (normalizeRuntime demoRuntime) = [\<lparr>volumeName = ''cache'', volumeTarget = ''/cache''\<rparr>]"
    by (simp add: normalizeRuntime_def demoRuntime_def)
  show ?thesis
    using vi by (simp add: loadIn_def Load_def demoConfigEnv_def p normalizeConfig_def DefaultConfig_def
        orDefault_def t vol Let_def)
qed

lemma loaded_config_well_formed_witness:
  "\<exists>l. loadIn demoConfigEnv ''/a/rmtx.json'' = Inr l \<and> cfgVersion (ldConfig l) = 1 \<and> ociRuntime (cfgRuntime (ldConfig l))"
proof -
  obtain l where l: "loadIn demoConfigEnv ''/a/rmtx.json'' = Inr l"
    "map volumeName (Volumes (cfgRuntime (ldConfig l))) = [''cache'']"
    using demo_config_loads by (elim exE conjE)
  then have "\<not> noRuntimeSet (cfgRuntime (ldConfig l))" by (auto simp: noRuntimeSet_def)
  with loaded_config_well_formed [OF l(1) [unfolded loadIn_def]] l(1) show ?thesis by blast
qed

lemma search_finds_nearest_witness:
  "Search demoConfigEnv ''/a/b'' = loadIn demoConfigEnv ''/a/rmtx.json''"
proof -
  have ok: "\<forall>p. ceStat demoConfigEnv p \<noteq> StatError" by (simp add: demoConfigEnv_def)
  have "find (\<lambda>p. ceStat demoConfigEnv p = StatOk)
      (candidates (rev (pathSegs (absPath (ceCwd demoConfigEnv) ''/a/b'')))) = Some ''/a/rmtx.json''"
    by code_simp
  with search_finds_nearest [OF ok, of "''/a/b''"] show ?thesis by simp
qed

end
