(* ===== verification/Contexts.thy ===== *)
theory Contexts
  imports HostFS Entries RefCount Config
begin

text \<open>
  The contexts of a host (host/context\_store.go, the roots in host/server.go): their ids,
  locks and metadata, the directories of a context below its data and runtime roots, what a
  change of roots deletes, listing, and the selection and removal of contexts. The files are
  those of HostFS with the contents the host writes; \<open>sd\<close> is the state directory.
\<close>

section \<open>What the host stores\<close>

record contextMetadata =
  cmID :: string
  cmName :: string
  cmRootHint :: string
  cmDataRoot :: string
  cmRuntimeRoot :: string
  cmCreatedAt :: go_time
  cmUpdatedAt :: go_time

record artifactImage =
  aiReference :: string
  aiDigest :: string
  aiBlobs :: "string list"

record artifactPrepared =
  apKey :: string
  apPath :: string
  apBasePath :: string
  apImageDigest :: string
  apImageReference :: string

record artifactState =
  asImages :: "artifactImage list"
  asPrepared :: "artifactPrepared list"
  asUpdatedAt :: go_time

text \<open>\<open>CGarbage\<close> is a file that does not parse; \<open>CData\<close> any other file, by its size.\<close>

datatype hostContent =
    CMeta contextMetadata | CManifest "entry list" | CArtifacts artifactState | CSetup string
  | CImageRef string | CCleaned | CData int | CGarbage

type_synonym hostFiles = "hostContent hostfs"

datatype contextError =
    ContextIDRequired | InvalidContextID string | ContextNotFound string | ContextFS
  | ParseMetadata | ParseManifest | ParseArtifacts | ArtifactsNotExist | ParseOlderThan
  | VolumeRequired | InvalidVolume string | ParseImageRef

definition contextDirName :: string where "contextDirName = ''contexts''"
definition contextWorkspaceDir :: string where "contextWorkspaceDir = ''workspace''"
definition workspaceLeasesDir :: string where "workspaceLeasesDir = ''workspaces''"
definition contextMetaFile :: string where "contextMetaFile = ''context.json''"
definition contextManifestFile :: string where "contextManifestFile = ''tracked-manifest.json''"
definition contextCleanFile :: string where "contextCleanFile = ''workspace-cleaned''"
definition runtimeDirName :: string where "runtimeDirName = ''runtime''"
definition contextSetupFile :: string where "contextSetupFile = ''context-setup.json''"

text \<open>A step on the files, and steps in a row up to the first error.\<close>

type_synonym fileStep = "hostFiles \<Rightarrow> hostFiles \<times> (contextError + unit)"

fun runSteps :: "fileStep list \<Rightarrow> fileStep" where
  "runSteps [] fs = (fs, Inr ())"
| "runSteps (s # ss) fs =
     (case s fs of (fs', Inl e) \<Rightarrow> (fs', Inl e) | (fs', Inr _) \<Rightarrow> runSteps ss fs')"

definition fsStep :: "(hostFiles \<Rightarrow> hostFiles \<times> (fsError + unit)) \<Rightarrow> fileStep" where
  "fsStep f fs = (case f fs of (fs', Inl e) \<Rightarrow> (fs', Inl ContextFS) | (fs', Inr _) \<Rightarrow> (fs', Inr ()))"

text \<open>\<open>os.Remove\<close> where a missing file is no error.\<close>

definition removeIfExists :: "fsEnv \<Rightarrow> string \<Rightarrow> fileStep" where
  "removeIfExists env path fs =
     (case removeOne env path fs of
        (fs', Inr _) \<Rightarrow> (fs', Inr ())
      | (fs', Inl FsNotExist) \<Rightarrow> (fs', Inr ())
      | (fs', Inl FsError) \<Rightarrow> (fs', Inl ContextFS))"

section \<open>Ids and paths\<close>

definition idRune :: "nat \<Rightarrow> bool" where
  "idRune r \<longleftrightarrow> 0x61 \<le> r \<and> r \<le> 0x7A \<or> 0x41 \<le> r \<and> r \<le> 0x5A \<or> 0x30 \<le> r \<and> r \<le> 0x39
     \<or> r = 0x2D \<or> r = 0x5F \<or> r = 0x2E"

definition validContextID :: "string \<Rightarrow> bool" where
  "validContextID id' \<longleftrightarrow> id' \<noteq> ''.'' \<and> id' \<noteq> ''..'' \<and> list_all idRune (runes id')"

definition normalizeContextID :: "string \<Rightarrow> contextError + string" where
  "normalizeContextID id0 =
     (let id' = trimSpace id0 in
      if id' = [] then Inl ContextIDRequired
      else if \<not> validContextID id' then Inl (InvalidContextID id')
      else Inr id')"

definition contextsRoot :: "string \<Rightarrow> string" where
  "contextsRoot sd = pathJoin [sd, contextDirName]"

definition contextMetaDir :: "string \<Rightarrow> string \<Rightarrow> string" where
  "contextMetaDir sd id' = pathJoin [contextsRoot sd, id']"

definition contextDataDir :: "string \<Rightarrow> string \<Rightarrow> string" where
  "contextDataDir root id' = pathJoin [root, contextDirName, id']"

definition runtimeRootForContextRuntimeDir :: "string \<Rightarrow> string" where
  "runtimeRootForContextRuntimeDir dir = pathDir (pathDir dir)"

definition contextDataRoot :: "contextMetadata \<Rightarrow> string \<Rightarrow> string" where
  "contextDataRoot meta fallback =
     (let root = trimSpace (cmDataRoot meta) in if root = [] then fallback else root)"

definition contextRuntimeRoot :: "contextMetadata \<Rightarrow> string \<Rightarrow> string" where
  "contextRuntimeRoot meta fallback =
     (let root = trimSpace (cmRuntimeRoot meta) in if root \<noteq> [] then root else contextDataRoot meta fallback)"

text \<open>On Unix.\<close>

definition samePath :: "string \<Rightarrow> string \<Rightarrow> bool" where
  "samePath a b \<longleftrightarrow> pathClean a = pathClean b"

section \<open>Locks\<close>

text \<open>The mutexes of contexts that are held, and the counters of active contexts.\<close>

record contextLocks =
  lockedContexts :: "string set"
  activeContexts :: counters

text \<open>\<open>None\<close>: the mutex is held and the caller waits.\<close>

definition acquireContext :: "string \<Rightarrow> contextLocks \<Rightarrow> contextLocks option" where
  "acquireContext id' L =
     (if id' \<in> lockedContexts L then None
      else Some (L\<lparr>lockedContexts := insert id' (lockedContexts L),
                   activeContexts := incCounter id' (activeContexts L)\<rparr>))"

definition releaseContext :: "string \<Rightarrow> contextLocks \<Rightarrow> contextLocks" where
  "releaseContext id' L =
     L\<lparr>activeContexts := decCounter id' (activeContexts L),
       lockedContexts := lockedContexts L - {id'}\<rparr>"

definition contextIsActive :: "string \<Rightarrow> contextLocks \<Rightarrow> bool" where
  "contextIsActive id' L \<longleftrightarrow> 0 < counter (activeContexts L) id'"

section \<open>Metadata and the tracked manifest\<close>

definition noMetadata :: contextMetadata where
  "noMetadata = \<lparr>cmID = [], cmName = [], cmRootHint = [], cmDataRoot = [], cmRuntimeRoot = [],
     cmCreatedAt = 0, cmUpdatedAt = 0\<rparr>"

definition loadContextMetadata :: "fsEnv \<Rightarrow> string \<Rightarrow> hostFiles \<Rightarrow> contextError + contextMetadata" where
  "loadContextMetadata env dir fs =
     (case readFile env (pathJoin [dir, contextMetaFile]) fs of
        Inl FsNotExist \<Rightarrow> Inr noMetadata
      | Inl FsError \<Rightarrow> Inl ContextFS
      | Inr c \<Rightarrow> (case c of CMeta m \<Rightarrow> Inr m | _ \<Rightarrow> Inl ParseMetadata))"

definition saveContextMetadata :: "fsEnv \<Rightarrow> string \<Rightarrow> contextMetadata \<Rightarrow> fileStep" where
  "saveContextMetadata env dir meta = fsStep (writeAtomic env (pathJoin [dir, contextMetaFile]) (CMeta meta))"

definition loadTrackedManifest :: "fsEnv \<Rightarrow> string \<Rightarrow> string \<Rightarrow> hostFiles \<Rightarrow> contextError + entry list" where
  "loadTrackedManifest env sd id' fs =
     (case readFile env (pathJoin [contextsRoot sd, id', contextManifestFile]) fs of
        Inl FsNotExist \<Rightarrow> Inr []
      | Inl FsError \<Rightarrow> Inl ContextFS
      | Inr c \<Rightarrow> (case c of CManifest es \<Rightarrow> Inr es | _ \<Rightarrow> Inl ParseManifest))"

definition saveTrackedManifest :: "fsEnv \<Rightarrow> string \<Rightarrow> string \<Rightarrow> entry list \<Rightarrow> fileStep" where
  "saveTrackedManifest env sd id' es =
     fsStep (writeAtomic env (pathJoin [contextsRoot sd, id', contextManifestFile]) (CManifest es))"

definition workspaceWasCleaned :: "fsEnv \<Rightarrow> string \<Rightarrow> string \<Rightarrow> hostFiles \<Rightarrow> bool" where
  "workspaceWasCleaned env sd id' fs =
     isOk (statPath env (pathJoin [contextsRoot sd, id', contextCleanFile]) fs)"

definition markWorkspaceCleaned :: "fsEnv \<Rightarrow> string \<Rightarrow> string \<Rightarrow> fileStep" where
  "markWorkspaceCleaned env sd id' =
     fsStep (writeAtomic env (pathJoin [contextsRoot sd, id', contextCleanFile]) CCleaned)"

definition clearWorkspaceCleaned :: "fsEnv \<Rightarrow> string \<Rightarrow> string \<Rightarrow> fileStep" where
  "clearWorkspaceCleaned env sd id' = removeIfExists env (pathJoin [contextsRoot sd, id', contextCleanFile])"

definition cleanWorkspace :: "fsEnv \<Rightarrow> string \<Rightarrow> fileStep" where
  "cleanWorkspace env path = runSteps [fsStep (removeAll env path), fsStep (mkdirAll env path)]"

section \<open>Changing the roots\<close>

text \<open>Its error is ignored by every caller but the removal of empty blob directories.\<close>

definition removeDirIfEmpty :: "fsEnv \<Rightarrow> string \<Rightarrow> fileStep" where
  "removeDirIfEmpty env dir fs =
     (case readDir env dir fs of
        Inl FsNotExist \<Rightarrow> (fs, Inr ())
      | Inl FsError \<Rightarrow> (fs, Inl ContextFS)
      | Inr (x # xs) \<Rightarrow> (fs, Inr ())
      | Inr [] \<Rightarrow> removeIfExists env dir fs)"

definition ignoreError :: "fileStep \<Rightarrow> fileStep" where
  "ignoreError s fs = (fst (s fs), Inr ())"

definition removeContextWorkspaceData :: "fsEnv \<Rightarrow> string \<Rightarrow> fileStep" where
  "removeContextWorkspaceData env dataDir =
     runSteps [fsStep (removeAll env (pathJoin [dataDir, contextWorkspaceDir])),
               fsStep (removeAll env (pathJoin [dataDir, workspaceLeasesDir])),
               ignoreError (removeDirIfEmpty env dataDir)]"

definition removeContextRuntimeData :: "fsEnv \<Rightarrow> string \<Rightarrow> fileStep" where
  "removeContextRuntimeData env dataDir =
     runSteps [fsStep (removeAll env (pathJoin [dataDir, ''volumes''])),
               fsStep (removeAll env (pathJoin [dataDir, runtimeDirName])),
               ignoreError (removeDirIfEmpty env dataDir)]"

definition removeContextSetupCache :: "fsEnv \<Rightarrow> string \<Rightarrow> fileStep" where
  "removeContextSetupCache env runtimeDir =
     removeIfExists env (pathJoin [runtimeDir, runtimeDirName, contextSetupFile])"

fun uniqueLoop :: "string set \<Rightarrow> string list \<Rightarrow> string list" where
  "uniqueLoop seen [] = []"
| "uniqueLoop seen (v # vs) =
     (if pathClean v \<in> seen then uniqueLoop seen vs
      else pathClean v # uniqueLoop (insert (pathClean v) seen) vs)"

definition uniqueCleanPaths :: "string list \<Rightarrow> string list" where
  "uniqueCleanPaths paths = uniqueLoop {} paths"

definition resetContextStorageAfterRootChange ::
  "fsEnv \<Rightarrow> string \<Rightarrow> string \<Rightarrow> string \<Rightarrow> string \<Rightarrow> string \<Rightarrow> fileStep" where
  "resetContextStorageAfterRootChange env metaDir oldDataDir newDataDir oldRuntimeDir newRuntimeDir =
     (let dataRootChanged = \<not> samePath oldDataDir newDataDir;
          runtimeRootChanged = \<not> samePath oldRuntimeDir newRuntimeDir in
      runSteps
       ((if dataRootChanged then
           [removeContextWorkspaceData env oldDataDir, removeContextWorkspaceData env newDataDir]
           @ map (\<lambda>name. removeIfExists env (pathJoin [metaDir, name])) [contextManifestFile, contextCleanFile]
           @ map (removeContextSetupCache env) (uniqueCleanPaths [oldRuntimeDir, newRuntimeDir])
         else [])
        @ (if runtimeRootChanged \<and> \<not> samePath oldRuntimeDir oldDataDir
           then [removeContextWorkspaceData env oldRuntimeDir] else [])
        @ (if runtimeRootChanged then [removeContextRuntimeData env oldRuntimeDir] else [])
        @ (if runtimeRootChanged \<and> \<not> samePath newRuntimeDir newDataDir
           then [removeContextWorkspaceData env newRuntimeDir] else [])
        @ (if runtimeRootChanged then [removeContextRuntimeData env newRuntimeDir] else [])))"

section \<open>Making a context\<close>

definition fallbackContextName :: "string \<Rightarrow> string \<Rightarrow> string \<Rightarrow> string" where
  "fallbackContextName name rootHint id' =
     (if trimSpace name \<noteq> [] then trimSpace name
      else if trimSpace rootHint \<noteq> [] then trimSpace rootHint
      else id')"

definition hydrateContextMetadata ::
  "contextMetadata \<Rightarrow> string \<Rightarrow> string \<Rightarrow> string \<Rightarrow> go_time \<Rightarrow> contextMetadata" where
  "hydrateContextMetadata meta id' name0 rootHint0 now =
     (let name = trimSpace name0; rootHint = trimSpace rootHint0;
          m1 = (if cmID meta = [] then meta\<lparr>cmID := id'\<rparr> else meta);
          m2 = (if cmName m1 = [] then m1\<lparr>cmName := fallbackContextName name rootHint id'\<rparr> else m1);
          m3 = (if name \<noteq> [] then m2\<lparr>cmName := name\<rparr> else m2);
          m4 = (if rootHint \<noteq> [] then m3\<lparr>cmRootHint := rootHint\<rparr> else m3);
          m5 = (if cmCreatedAt m4 = zeroTime then m4\<lparr>cmCreatedAt := now\<rparr> else m4) in
      m5\<lparr>cmUpdatedAt := now\<rparr>)"

record runtimeStorage =
  rsDataRoot :: string
  rsRuntimeRoot :: string

record contextHandle =
  chMeta :: contextMetadata
  chMetaDir :: string
  chDataDir :: string
  chRuntimeDir :: string
  chStorage :: runtimeStorage
  chWorkspace :: string
  chCreated :: bool

definition contextDirCreated :: "fsEnv \<Rightarrow> string \<Rightarrow> hostFiles \<Rightarrow> contextError + bool" where
  "contextDirCreated env dir fs =
     (case statPath env dir fs of
        Inl FsNotExist \<Rightarrow> Inr True | Inl FsError \<Rightarrow> Inl ContextFS | Inr _ \<Rightarrow> Inr False)"

definition placeRoots :: "string \<Rightarrow> runtimeStorage \<Rightarrow> contextMetadata \<Rightarrow> contextMetadata" where
  "placeRoots sd storage meta =
     meta\<lparr>cmDataRoot := (if samePath (rsDataRoot storage) sd then [] else rsDataRoot storage),
          cmRuntimeRoot := (if samePath (rsRuntimeRoot storage) (rsDataRoot storage) then []
                            else rsRuntimeRoot storage)\<rparr>"

definition ensureContext ::
  "fsEnv \<Rightarrow> string \<Rightarrow> go_time \<Rightarrow> string \<Rightarrow> string \<Rightarrow> string \<Rightarrow> runtimeStorage \<Rightarrow> hostFiles \<Rightarrow>
   hostFiles \<times> (contextError + contextHandle)" where
  "ensureContext env sd now id0 name rootHint storage fs =
     (case normalizeContextID id0 of
        Inl e \<Rightarrow> (fs, Inl e)
      | Inr id' \<Rightarrow>
          (let metaDir = contextMetaDir sd id';
               dataDir = contextDataDir (rsDataRoot storage) id';
               runtimeDir = contextDataDir (rsRuntimeRoot storage) id';
               workspace = pathJoin [dataDir, contextWorkspaceDir] in
           case loadContextMetadata env metaDir fs of
             Inl e \<Rightarrow> (fs, Inl e)
           | Inr meta0 \<Rightarrow>
               (let oldDataDir = contextDataDir (contextDataRoot meta0 sd) id';
                    oldRuntimeDir = contextDataDir (contextRuntimeRoot meta0 sd) id';
                    meta = placeRoots sd storage (hydrateContextMetadata meta0 id' name rootHint now) in
                case resetContextStorageAfterRootChange env metaDir oldDataDir dataDir oldRuntimeDir runtimeDir fs of
                  (fs1, Inl e) \<Rightarrow> (fs1, Inl e)
                | (fs1, Inr _) \<Rightarrow>
                    (case contextDirCreated env dataDir fs1 of
                       Inl e \<Rightarrow> (fs1, Inl e)
                     | Inr created \<Rightarrow>
                         (case runSteps [fsStep (mkdirAll env workspace), fsStep (mkdirAll env runtimeDir),
                             saveContextMetadata env metaDir meta] fs1 of
                            (fs2, Inl e) \<Rightarrow> (fs2, Inl e)
                          | (fs2, Inr _) \<Rightarrow> (fs2, Inr
                              \<lparr>chMeta = meta, chMetaDir = metaDir, chDataDir = dataDir,
                               chRuntimeDir = runtimeDir, chStorage = storage, chWorkspace = workspace,
                               chCreated = created\<rparr>))))))"

section \<open>Listing and deleting\<close>

record contextSummary =
  csID :: string
  csName :: string
  csPath :: string
  csWorkspace :: string
  csCreatedAt :: go_time
  csUpdatedAt :: go_time
  csRootHint :: string
  csActive :: bool

fun summaries :: "fsEnv \<Rightarrow> string \<Rightarrow> contextLocks \<Rightarrow> hostFiles \<Rightarrow> (string \<times> bool) list \<Rightarrow>
    contextError + contextSummary list" where
  "summaries env sd L fs [] = Inr []"
| "summaries env sd L fs ((id', isDir) # es) =
     (if \<not> isDir then summaries env sd L fs es
      else andThen (loadContextMetadata env (pathJoin [contextsRoot sd, id']) fs) (\<lambda>meta0.
        (let m1 = (if cmID meta0 = [] then meta0\<lparr>cmID := id'\<rparr> else meta0);
             meta = (if cmName m1 = [] then m1\<lparr>cmName := id'\<rparr> else m1);
             dataDir = contextDataDir (contextDataRoot meta sd) id' in
         andThen (summaries env sd L fs es) (\<lambda>out. Inr
           (\<lparr>csID = cmID meta, csName = cmName meta, csPath = dataDir,
             csWorkspace = pathJoin [dataDir, contextWorkspaceDir], csCreatedAt = cmCreatedAt meta,
             csUpdatedAt = cmUpdatedAt meta, csRootHint = cmRootHint meta,
             csActive = contextIsActive (cmID meta) L\<rparr> # out)))))"

text \<open>Sorted by name, then id.\<close>

definition listContexts :: "fsEnv \<Rightarrow> string \<Rightarrow> contextLocks \<Rightarrow> hostFiles \<Rightarrow> contextError + contextSummary list" where
  "listContexts env sd L fs =
     (case readDir env (contextsRoot sd) fs of
        Inl FsNotExist \<Rightarrow> Inr []
      | Inl FsError \<Rightarrow> Inl ContextFS
      | Inr es \<Rightarrow> andThen (summaries env sd L fs es) (\<lambda>out. Inr (sort_key csName (sort_key csID out))))"

type_synonym deleteTargets = "string \<rightharpoonup> contextSummary"

fun addAllTargets :: "contextSummary list \<Rightarrow> deleteTargets \<Rightarrow> deleteTargets" where
  "addAllTargets [] t = t"
| "addAllTargets (c # cs) t = addAllTargets cs (t(csID c \<mapsto> c))"

text \<open>\<open>now\<close>: the clock; \<open>parseDuration\<close> is \<open>time.ParseDuration\<close>.\<close>

definition olderThanCutoff :: "go_time \<Rightarrow> go_time \<Rightarrow> contextSummary \<Rightarrow> bool" where
  "olderThanCutoff now olderThan c \<longleftrightarrow> csUpdatedAt c \<noteq> zeroTime \<and> csUpdatedAt c < now - olderThan"

definition addOlderThanTargets ::
  "(string \<Rightarrow> duration option) \<Rightarrow> go_time \<Rightarrow> string \<Rightarrow> contextSummary list \<Rightarrow> deleteTargets \<Rightarrow>
   contextError + deleteTargets" where
  "addOlderThanTargets parseDuration now olderThanValue contexts t =
     (if trimSpace olderThanValue = [] then Inr t
      else (case parseDuration olderThanValue of
        None \<Rightarrow> Inl ParseOlderThan
      | Some d \<Rightarrow> Inr (addAllTargets (filter (olderThanCutoff now d) contexts) t)))"

definition mapContextsByID :: "contextSummary list \<Rightarrow> deleteTargets" where
  "mapContextsByID contexts = addAllTargets contexts Map.empty"

fun addExplicitIDTargets :: "string list \<Rightarrow> deleteTargets \<Rightarrow> deleteTargets \<Rightarrow> deleteTargets \<times> string list" where
  "addExplicitIDTargets [] byID t = (t, [])"
| "addExplicitIDTargets (i # is) byID t =
     (case byID i of
        None \<Rightarrow> (case addExplicitIDTargets is byID t of (t', nf) \<Rightarrow> (t', i # nf))
      | Some c \<Rightarrow> addExplicitIDTargets is byID (t(i \<mapsto> c)))"

record deleteRequest =
  drIDs :: "string list"
  drAll :: bool
  drOlderThan :: string

definition selectDeleteTargets ::
  "(string \<Rightarrow> duration option) \<Rightarrow> go_time \<Rightarrow> deleteRequest \<Rightarrow> contextSummary list \<Rightarrow>
   contextError + deleteTargets \<times> string list" where
  "selectDeleteTargets parseDuration now req contexts =
     (let t0 = (if drAll req then addAllTargets contexts Map.empty else Map.empty) in
      andThen (addOlderThanTargets parseDuration now (drOlderThan req) contexts t0) (\<lambda>t1.
        Inr (addExplicitIDTargets (drIDs req) (mapContextsByID contexts) t1)))"

text \<open>\<open>contextDataDir\<close> and \<open>contextRuntimeDir\<close> of the server, from the stored metadata.\<close>

definition contextDirFromMeta ::
  "(contextMetadata \<Rightarrow> string \<Rightarrow> string) \<Rightarrow> fsEnv \<Rightarrow> string \<Rightarrow> string \<Rightarrow> hostFiles \<Rightarrow> contextError + string" where
  "contextDirFromMeta root env sd id' fs =
     (case statPath env (contextMetaDir sd id') fs of
        Inl FsNotExist \<Rightarrow> Inl (ContextNotFound id')
      | Inl FsError \<Rightarrow> Inl ContextFS
      | Inr _ \<Rightarrow> andThen (loadContextMetadata env (contextMetaDir sd id') fs) (\<lambda>meta.
          Inr (contextDataDir (root meta sd) id')))"

definition serverContextDataDir :: "fsEnv \<Rightarrow> string \<Rightarrow> string \<Rightarrow> hostFiles \<Rightarrow> contextError + string" where
  "serverContextDataDir = contextDirFromMeta contextDataRoot"

definition serverContextRuntimeDir :: "fsEnv \<Rightarrow> string \<Rightarrow> string \<Rightarrow> hostFiles \<Rightarrow> contextError + string" where
  "serverContextRuntimeDir = contextDirFromMeta contextRuntimeRoot"

text \<open>The removal runs with the lock of the context held.\<close>

definition removeContext :: "fsEnv \<Rightarrow> string \<Rightarrow> string \<Rightarrow> fileStep" where
  "removeContext env sd id' fs =
     (case andThen (serverContextDataDir env sd id' fs) (\<lambda>dataPath.
             andThen (serverContextRuntimeDir env sd id' fs) (\<lambda>runtimePath. Inr (dataPath, runtimePath))) of
        Inl e \<Rightarrow> (fs, Inl e)
      | Inr (dataPath, runtimePath) \<Rightarrow>
          (let metaPath = contextMetaDir sd id' in
           if samePath metaPath dataPath then
             runSteps ((if \<not> samePath runtimePath dataPath then [fsStep (removeAll env runtimePath)] else [])
               @ [fsStep (removeAll env metaPath)]) fs
           else
             runSteps ([fsStep (removeAll env dataPath)]
               @ (if \<not> samePath runtimePath dataPath \<and> \<not> samePath runtimePath metaPath
                  then [fsStep (removeAll env runtimePath)] else [])
               @ [fsStep (removeAll env metaPath)]) fs))"

text \<open>
  The targets are a map: \<open>order\<close> is the order its iteration takes. The value is the deleted
  contexts; an error loses it.
\<close>

fun removeContexts :: "fsEnv \<Rightarrow> string \<Rightarrow> deleteTargets \<Rightarrow> string list \<Rightarrow> hostFiles \<Rightarrow>
    hostFiles \<times> (contextError + contextSummary list)" where
  "removeContexts env sd targets [] fs = (fs, Inr [])"
| "removeContexts env sd targets (i # is) fs =
     (case targets i of
        None \<Rightarrow> removeContexts env sd targets is fs
      | Some c \<Rightarrow>
          (case removeContext env sd i fs of
             (fs1, Inl e) \<Rightarrow> (fs1, Inl e)
           | (fs1, Inr _) \<Rightarrow>
               (case removeContexts env sd targets is fs1 of
                  (fs2, r) \<Rightarrow> (fs2, andThen r (\<lambda>cs. Inr (c # cs))))))"

section \<open>Facts about paths\<close>

lemma validContextID_normal:
  assumes "validContextID i" "i \<noteq> []"
  shows "normalSeg i"
proof -
  have r: "\<forall>r \<in> set (runes i). idRune r" using assms(1) by (simp add: validContextID_def list_all_iff)
  then have "\<forall>r \<in> set (runes i). r < 0x80" by (auto simp: idRune_def)
  then have a: "\<forall>c \<in> set i. byte c < 0x80" using runes_low_imp_ascii by blast
  have "slash \<notin> set i"
  proof
    assume "slash \<in> set i"
    then have "byte slash \<in> set (runes i)" using runes_ascii [OF a] by (metis imageI list.set_map)
    then have "idRune (byte slash)" using r by blast
    then show False by (simp add: idRune_def)
  qed
  then show ?thesis using assms by (auto simp: normalSeg_def validContextID_def)
qed

lemma normalizeContextID_Inr: "normalizeContextID x = Inr i \<Longrightarrow> i = trimSpace x \<and> validContextID i \<and> normalSeg i"
  using validContextID_normal by (auto simp: normalizeContextID_def Let_def split: if_splits)

lemma contextDirName_normal [simp]: "normalSeg contextDirName"
  by (simp add: normalSeg_def contextDirName_def)

lemma contextsRoot_segs: "isAbs sd \<Longrightarrow> pathSegs (contextsRoot sd) = pathSegs sd @ [contextDirName]"
  by (simp add: contextsRoot_def pathSegs_join_names)

lemma isAbs_pathJoin: "isAbs root \<Longrightarrow> isAbs (pathJoin (root # ps))"
proof -
  assume a: "isAbs root"
  then have ne: "root \<noteq> []" by (auto simp: isAbs_def)
  have "isAbs (joinOn slash (root # ps))"
    using a by (cases ps) (auto simp: isAbs_def hasPrefix_mono)
  then show ?thesis using ne by (simp add: pathJoin_def)
qed

lemma contextMetaDir_segs:
  "isAbs sd \<Longrightarrow> normalSeg i \<Longrightarrow> pathSegs (contextMetaDir sd i) = pathSegs sd @ [contextDirName, i]"
  by (simp add: contextMetaDir_def pathSegs_join_names contextsRoot_segs isAbs_pathJoin
      contextsRoot_def [symmetric]) (simp add: contextsRoot_def pathSegs_join_names isAbs_pathJoin)

lemma contextDataDir_segs:
  "isAbs root \<Longrightarrow> normalSeg i \<Longrightarrow> pathSegs (contextDataDir root i) = pathSegs root @ [contextDirName, i]"
  by (simp add: contextDataDir_def pathSegs_join_names)

lemma dir_abs [simp]:
  "isAbs sd \<Longrightarrow> isAbs (contextMetaDir sd i)"
  "isAbs root \<Longrightarrow> isAbs (contextDataDir root i)"
  "isAbs sd \<Longrightarrow> isAbs (contextsRoot sd)"
  by (simp_all add: contextMetaDir_def contextDataDir_def contextsRoot_def isAbs_pathJoin)

lemma samePath_segs: "isAbs a \<Longrightarrow> isAbs b \<Longrightarrow> samePath a b \<longleftrightarrow> pathSegs a = pathSegs b"
proof -
  assume "isAbs a" "isAbs b"
  then have "pathClean a = slash # joinOn slash (pathSegs a)" "pathClean b = slash # joinOn slash (pathSegs b)"
    by (simp_all add: pathClean_def)
  then show ?thesis unfolding samePath_def by (metis pathSegs_pathClean)
qed

text \<open>Two roots, neither inside the contexts directory of the other.\<close>

definition rootsApart :: "string \<Rightarrow> string \<Rightarrow> bool" where
  "rootsApart d r \<longleftrightarrow> \<not> below (pathSegs d @ [contextDirName]) (pathSegs r)
     \<and> \<not> below (pathSegs r @ [contextDirName]) (pathSegs d)"

lemma context_dirs_apart:
  assumes "\<not> below (d @ [c]) r" "\<not> below (r @ [c]) d" "i \<noteq> j"
  shows "\<not> below (d @ [c, i]) (r @ c # j # q)"
proof
  assume "below (d @ [c, i]) (r @ c # j # q)"
  then obtain t where t: "r @ c # j # q = d @ c # i # t" by (auto simp: below_iff)
  then have "(\<exists>u. r = d @ u \<and> u @ c # j # q = c # i # t) \<or> (\<exists>u. d = r @ u \<and> u @ c # i # t = c # j # q)"
    using append_eq_append_conv2 [of r "c # j # q" d "c # i # t"] by auto
  then show False
  proof (elim disjE exE conjE)
    fix u assume u: "r = d @ u" "u @ c # j # q = c # i # t"
    then show False using assms by (cases u) (auto simp: below_iff)
  next
    fix u assume u: "d = r @ u" "u @ c # i # t = c # j # q"
    then show False using assms by (cases u) (auto simp: below_iff)
  qed
qed

section \<open>Facts about steps\<close>

text \<open>A step that removes nodes below some paths, and changes nothing else.\<close>

definition removesBelow :: "string list list \<Rightarrow> fileStep \<Rightarrow> bool" where
  "removesBelow ps s \<longleftrightarrow> (\<forall>fs fs' r q. s fs = (fs', r) \<longrightarrow>
     map_of fs' q = map_of fs q \<or> map_of fs' q = None \<and> list_ex (\<lambda>p. below p q) ps)"

lemma removesBelowD:
  "removesBelow ps s \<Longrightarrow> s fs = (fs', r) \<Longrightarrow> map_of fs' q = map_of fs q \<or> map_of fs' q = None \<and> list_ex (\<lambda>p. below p q) ps"
  unfolding removesBelow_def by blast

lemma removesBelow_mono: "removesBelow ps s \<Longrightarrow> set ps \<subseteq> set qs \<Longrightarrow> removesBelow qs s"
  unfolding removesBelow_def list_ex_iff by blast

lemma removesBelow_runSteps: "(\<And>s. s \<in> set ss \<Longrightarrow> removesBelow ps s) \<Longrightarrow> removesBelow ps (runSteps ss)"
proof (induction ss)
  case Nil
  then show ?case by (simp add: removesBelow_def)
next
  case (Cons s ss)
  have h: "removesBelow ps s" "removesBelow ps (runSteps ss)" using Cons by auto
  show ?case unfolding removesBelow_def
  proof (intro allI impI)
    fix fs fs' r q
    assume run: "runSteps (s # ss) fs = (fs', r)"
    obtain fs1 r1 where s: "s fs = (fs1, r1)" by fastforce
    show "map_of fs' q = map_of fs q \<or> map_of fs' q = None \<and> list_ex (\<lambda>p. below p q) ps"
    proof (cases r1)
      case (Inl e)
      then show ?thesis using run s removesBelowD [OF h(1) s, of q] by simp
    next
      case (Inr u)
      then have "runSteps ss fs1 = (fs', r)" using run s by simp
      from removesBelowD [OF h(2) this, of q] removesBelowD [OF h(1) s, of q] show ?thesis by auto
    qed
  qed
qed

lemma removesBelow_removeAll: "removesBelow [pathSegs path] (fsStep (removeAll env path))"
  unfolding removesBelow_def
proof (intro allI impI)
  fix fs fs' r q
  assume run: "fsStep (removeAll env path) fs = (fs', r)"
  obtain fs1 r1 where d: "removeAll env path fs = (fs1, r1)" by fastforce
  have "fs' = fs1" using run d by (auto simp: fsStep_def split: sum.splits)
  then show "map_of fs' q = map_of fs q \<or> map_of fs' q = None \<and> list_ex (\<lambda>p. below p q) [pathSegs path]"
    using removeAll_get [OF d, of q] by auto
qed

lemma removesBelow_removeIfExists: "removesBelow [pathSegs path] (removeIfExists env path)"
  unfolding removesBelow_def
proof (intro allI impI)
  fix fs fs' r q
  assume run: "removeIfExists env path fs = (fs', r)"
  obtain fs1 r1 where d: "removeOne env path fs = (fs1, r1)" by fastforce
  have "fs' = fs1" using run d by (auto simp: removeIfExists_def split: sum.splits fsError.splits)
  then show "map_of fs' q = map_of fs q \<or> map_of fs' q = None \<and> list_ex (\<lambda>p. below p q) [pathSegs path]"
    using removeOne_get [OF d, of q] by (auto split: if_splits)
qed

lemma removesBelow_ignoreError: "removesBelow ps s \<Longrightarrow> removesBelow ps (ignoreError s)"
  unfolding removesBelow_def ignoreError_def by (metis fst_conv prod.collapse)

lemma removesBelow_removeDirIfEmpty: "removesBelow [pathSegs dir] (removeDirIfEmpty env dir)"
  unfolding removesBelow_def removeDirIfEmpty_def
  using removesBelowD [OF removesBelow_removeIfExists [of dir env]]
  by (auto split: sum.splits fsError.splits list.splits)

lemma runSteps_append: "runSteps (xs @ ys) fs =
  (case runSteps xs fs of (fs', Inl e) \<Rightarrow> (fs', Inl e) | (fs', Inr _) \<Rightarrow> runSteps ys fs')"
  by (induction xs arbitrary: fs) (auto split: prod.splits sum.splits)

text \<open>What a successful step in a row has removed stays removed, when the others only remove.\<close>

lemma runSteps_gone:
  assumes "runSteps ss fs = (fs', Inr u)" "s \<in> set ss" "\<And>s. s \<in> set ss \<Longrightarrow> removesBelow ps s"
    and "\<And>fs fs' u. s fs = (fs', Inr u) \<Longrightarrow> map_of fs' q = None"
  shows "map_of fs' q = None"
proof -
  obtain xs ys where ss: "ss = xs @ s # ys" using assms(2) by (meson split_list)
  obtain fs1 u1 where x: "runSteps xs fs = (fs1, Inr u1)"
    using assms(1) by (auto simp: ss runSteps_append split: prod.splits sum.splits)
  obtain fs2 u2 where s: "s fs1 = (fs2, Inr u2)" and y: "runSteps ys fs2 = (fs', Inr u)"
    using assms(1) x by (auto simp: ss runSteps_append split: prod.splits sum.splits)
  have "removesBelow ps (runSteps ys)" using assms(3) by (intro removesBelow_runSteps) (auto simp: ss)
  from removesBelowD [OF this y, of q] assms(4) [OF s] show ?thesis by auto
qed

lemma removeAll_step_ok:
  "fsStep (removeAll env path) fs = (fs', Inr u) \<Longrightarrow> below (pathSegs path) q \<Longrightarrow> map_of fs' q = None"
  by (auto simp: fsStep_def removeAll_ok split: prod.splits sum.splits)

lemma removeIfExists_ok: "removeIfExists env path fs = (fs', Inr u) \<Longrightarrow> map_of fs' (pathSegs path) = None"
  by (auto simp: removeIfExists_def split: prod.splits sum.splits fsError.splits
      dest: removeOne_get [where q = "pathSegs path"])


section \<open>Properties\<close>

subsection \<open>Ids\<close>

lemma normalizeContextID_ascii:
  assumes "\<forall>c \<in> set i. idRune (byte c)" "i \<noteq> []" "i \<noteq> ''.''" "i \<noteq> ''..''" "trimSpace i = i"
  shows "normalizeContextID i = Inr i"
proof -
  have "\<forall>c \<in> set i. byte c < 0x80" using assms(1) by (auto simp: idRune_def)
  from runes_ascii [OF this] have "list_all idRune (runes i)" using assms(1) by (auto simp: list_all_iff)
  then show ?thesis using assms by (simp add: normalizeContextID_def validContextID_def)
qed

subsection \<open>Deleting a context\<close>

text \<open>The directories of a context, as a removal sees them.\<close>

definition contextDirs :: "contextMetadata \<Rightarrow> string \<Rightarrow> string \<Rightarrow> string list list" where
  "contextDirs meta sd i =
     [pathSegs (contextDataDir (contextDataRoot meta sd) i), pathSegs (contextDataDir (contextRuntimeRoot meta sd) i),
      pathSegs (contextMetaDir sd i)]"

lemma removesBelow_step:
  "pathSegs p \<in> set ds \<Longrightarrow> removesBelow ds (fsStep (removeAll env p))"
  by (rule removesBelow_mono [OF removesBelow_removeAll]) simp

lemma contextDirFromMeta_ok:
  "contextDirFromMeta root env sd i fs = Inr p \<Longrightarrow>
     \<exists>meta. loadContextMetadata env (contextMetaDir sd i) fs = Inr meta \<and> p = contextDataDir (root meta sd) i"
  by (auto simp: contextDirFromMeta_def andThen_def split: sum.splits fsError.splits)

lemma removeContext_cases:
  assumes "removeContext env sd i fs = (fs', r)" "loadContextMetadata env (contextMetaDir sd i) fs = Inr meta"
  shows "fs' = fs \<and> r \<noteq> Inr () \<or>
    (\<exists>ps. runSteps (map (\<lambda>p. fsStep (removeAll env p)) ps) fs = (fs', r)
       \<and> set (map pathClean ps) = set (map pathClean [contextDataDir (contextDataRoot meta sd) i,
            contextDataDir (contextRuntimeRoot meta sd) i, contextMetaDir sd i]))"
proof -
  let ?d = "contextDataDir (contextDataRoot meta sd) i"
  let ?r = "contextDataDir (contextRuntimeRoot meta sd) i"
  let ?m = "contextMetaDir sd i"
  show ?thesis
  proof (cases "andThen (serverContextDataDir env sd i fs) (\<lambda>dataPath.
             andThen (serverContextRuntimeDir env sd i fs) (\<lambda>runtimePath. Inr (dataPath, runtimePath)))")
    case (Inl e)
    then show ?thesis using assms(1) by (auto simp: removeContext_def)
  next
    case (Inr x)
    then have x: "x = (?d, ?r)"
      using assms(2) by (auto simp: andThen_def serverContextDataDir_def serverContextRuntimeDir_def
          contextDirFromMeta_def split: sum.splits fsError.splits)
    consider (both) "samePath ?m ?d" "samePath ?r ?d" | (run) "samePath ?m ?d" "\<not> samePath ?r ?d"
      | (two) "\<not> samePath ?m ?d" "samePath ?r ?d \<or> samePath ?r ?m"
      | (three) "\<not> samePath ?m ?d" "\<not> samePath ?r ?d" "\<not> samePath ?r ?m" by blast
    then show ?thesis
    proof cases
      case both
      have "runSteps (map (\<lambda>p. fsStep (removeAll env p)) [?m]) fs = (fs', r)"
        using assms(1) Inr x both by (simp add: removeContext_def)
      then show ?thesis using both by (intro disjI2 exI [of _ "[?m]"]) (auto simp: samePath_def)
    next
      case run
      have "runSteps (map (\<lambda>p. fsStep (removeAll env p)) [?r, ?m]) fs = (fs', r)"
        using assms(1) Inr x run by (simp add: removeContext_def)
      then show ?thesis using run by (intro disjI2 exI [of _ "[?r, ?m]"]) (auto simp: samePath_def)
    next
      case two
      have "runSteps (map (\<lambda>p. fsStep (removeAll env p)) [?d, ?m]) fs = (fs', r)"
        using assms(1) Inr x two by (auto simp: removeContext_def Let_def)
      then show ?thesis using two by (intro disjI2 exI [of _ "[?d, ?m]"]) (auto simp: samePath_def)
    next
      case three
      have "runSteps (map (\<lambda>p. fsStep (removeAll env p)) [?d, ?r, ?m]) fs = (fs', r)"
        using assms(1) Inr x three by (simp add: removeContext_def)
      then show ?thesis by (intro disjI2 exI [of _ "[?d, ?r, ?m]"]) auto
    qed
  qed
qed

text \<open>
  Deleting a context with an accepted id leaves every other context alone: nothing under the
  directory another accepted id has below a root R changes, whatever the removal returns, when
  R and the roots of the deleted context are not inside the contexts directories of each other
  (they may be the same). When the removal succeeds nothing is left of the context: no node
  under its data, runtime or metadata directory.
\<close>

theorem delete_keeps_other_contexts:
  assumes "normalizeContextID i0 = Inr i" "normalizeContextID j0 = Inr j" "i \<noteq> j"
    and "isAbs sd" "loadContextMetadata env (contextMetaDir sd i) fs = Inr meta"
    and "isAbs (contextDataRoot meta sd)" "isAbs (contextRuntimeRoot meta sd)" "isAbs R"
    and "rootsApart sd R" "rootsApart (contextDataRoot meta sd) R" "rootsApart (contextRuntimeRoot meta sd) R"
    and "removeContext env sd i fs = (fs', r)"
  shows "map_of fs' (pathSegs (contextDataDir R j) @ q) = map_of fs (pathSegs (contextDataDir R j) @ q)
    \<and> (r = Inr () \<longrightarrow> list_all (\<lambda>d. map_of fs' (d @ q) = None) (contextDirs meta sd i))"
proof -
  have n: "normalSeg i" "normalSeg j" using assms(1,2) normalizeContextID_Inr by blast+
  note segs = contextDataDir_segs [OF assms(6) n(1)] contextDataDir_segs [OF assms(7) n(1)]
    contextMetaDir_segs [OF assms(4) n(1)] contextDataDir_segs [OF assms(8) n(2)]
  have apart: "\<not> below d (pathSegs (contextDataDir R j) @ q)" if "d \<in> set (contextDirs meta sd i)" for d
    using that assms(9-11) context_dirs_apart [OF _ _ assms(3)]
    by (auto simp: contextDirs_def segs rootsApart_def)
  from removeContext_cases [OF assms(12,5)] show ?thesis
  proof (elim disjE exE conjE)
    assume "fs' = fs" "r \<noteq> Inr ()"
    then show ?thesis by simp
  next
    fix ps
    assume run: "runSteps (map (\<lambda>p. fsStep (removeAll env p)) ps) fs = (fs', r)"
      and cl: "set (map pathClean ps) = set (map pathClean [contextDataDir (contextDataRoot meta sd) i,
            contextDataDir (contextRuntimeRoot meta sd) i, contextMetaDir sd i])"
    have "set (map pathSegs ps) = pathSegs ` set (map pathClean ps)"
      by (simp add: image_image pathSegs_pathClean)
    then have dirs: "set (map pathSegs ps) = set (contextDirs meta sd i)"
      unfolding cl by (simp add: contextDirs_def pathSegs_pathClean)
    let ?ss = "map (\<lambda>p. fsStep (removeAll env p)) ps"
    have only: "removesBelow (contextDirs meta sd i) s" if "s \<in> set ?ss" for s
      using that dirs by (auto intro!: removesBelow_step)
    have "map_of fs' (pathSegs (contextDataDir R j) @ q) = map_of fs (pathSegs (contextDataDir R j) @ q)"
      using removesBelowD [OF removesBelow_runSteps [OF only] run] apart
      by (auto simp: list_ex_iff)
    moreover have "map_of fs' (d @ q) = None" if "r = Inr ()" and d: "d \<in> set (contextDirs meta sd i)" for d
    proof -
      obtain p where p: "p \<in> set ps" "d = pathSegs p" using d dirs by force
      have "fsStep (removeAll env p) \<in> set ?ss" using p by simp
      from runSteps_gone [OF run [unfolded that(1)] this only] show ?thesis
        using removeAll_step_ok [of env p] p(2) by (metis below_append)
    qed
    ultimately show ?thesis by (simp add: list_all_iff)
  qed
qed

definition calmFs :: fsEnv where
  "calmFs = \<lparr>stuckNode = (\<lambda>_. False), noMkdir = (\<lambda>_. False), noRead = (\<lambda>_. False), noStat = (\<lambda>_. False),
     atomicWrite = (\<lambda>_. WriteOk)\<rparr>"

definition demoFs :: hostFiles where
  "demoFs = [([''s'', ''contexts'', ''a''], DirNode),
     ([''s'', ''contexts'', ''a'', ''context.json''], FileNode (CMeta noMetadata)),
     ([''s'', ''contexts'', ''a'', ''tracked-manifest.json''], FileNode (CManifest [])),
     ([''s'', ''contexts'', ''b'', ''context.json''], FileNode (CMeta noMetadata))]"

definition demoAfter :: hostFiles where
  "demoAfter = [([''s'', ''contexts'', ''b'', ''context.json''], FileNode (CMeta noMetadata))]"

lemma demo_paths:
  "normalizeContextID ''a'' = Inr ''a''" "normalizeContextID ''b'' = Inr ''b''"
  "contextMetaDir ''/s'' ''a'' = ''/s/contexts/a''" "pathSegs ''/s/contexts/a'' = [''s'', ''contexts'', ''a'']"
  "contextDataDir ''/s'' ''a'' = ''/s/contexts/a''" "contextDataDir ''/s'' ''b'' = ''/s/contexts/b''"
  "pathSegs ''/s/contexts/a/context.json'' = [''s'', ''contexts'', ''a'', ''context.json'']"
  "pathJoin [''/s/contexts/a'', contextMetaFile] = ''/s/contexts/a/context.json''"
  "contextDataRoot noMetadata ''/s'' = ''/s''" "contextRuntimeRoot noMetadata ''/s'' = ''/s''"
  "isAbs ''/s''" "pathSegs ''/s'' = [''s'']" "pathSegs ''/s/contexts/b'' = [''s'', ''contexts'', ''b'']"
  by code_simp+

lemma demo_load: "loadContextMetadata calmFs (contextMetaDir ''/s'' ''a'') demoFs = Inr noMetadata"
  by (simp add: loadContextMetadata_def readFile_def demo_paths demoFs_def calmFs_def)

lemma demo_remove: "removeContext calmFs ''/s'' ''a'' demoFs = (demoAfter, Inr ())"
proof -
  have s: "statPath calmFs (contextMetaDir ''/s'' ''a'') demoFs = Inr DirNode"
    by (simp add: statPath_def calmFs_def demoFs_def demo_paths)
  have r: "fsStep (removeAll calmFs ''/s/contexts/a'') demoFs = (demoAfter, Inr ())"
    by (simp add: fsStep_def removeAll_def stuckBelow_def calmFs_def demoFs_def demoAfter_def demo_paths below_def)
  show ?thesis
    using s r demo_load by (simp add: removeContext_def serverContextDataDir_def serverContextRuntimeDir_def
        contextDirFromMeta_def andThen_def demo_paths samePath_def)
qed

theorem delete_keeps_other_contexts_witness:
  "map_of demoAfter (pathSegs (contextDataDir ''/s'' ''b'') @ [''context.json'']) = Some (FileNode (CMeta noMetadata))
   \<and> list_all (\<lambda>d. map_of demoAfter (d @ [''context.json'']) = None) (contextDirs noMetadata ''/s'' ''a'')"
proof -
  have "rootsApart ''/s'' ''/s''" by (simp add: rootsApart_def demo_paths below_def)
  from delete_keeps_other_contexts [OF demo_paths(1,2) _ demo_paths(11) demo_load, unfolded demo_paths(9,10),
      OF _ demo_paths(11) demo_paths(11) demo_paths(11) this this this demo_remove, of "[''context.json'']"]
  have "map_of demoAfter (pathSegs (contextDataDir ''/s'' ''b'') @ [''context.json''])
      = map_of demoFs (pathSegs (contextDataDir ''/s'' ''b'') @ [''context.json''])"
    "list_all (\<lambda>d. map_of demoAfter (d @ [''context.json'']) = None) (contextDirs noMetadata ''/s'' ''a'')"
    by simp_all
  then show ?thesis by (simp add: demo_paths demoFs_def)
qed

subsection \<open>Which contexts a request deletes\<close>

lemma addAllTargets_notin: "i \<notin> csID ` set cs \<Longrightarrow> addAllTargets cs t i = t i"
  by (induction cs arbitrary: t) auto

lemma addAllTargets_in: "i \<in> csID ` set cs \<Longrightarrow> \<exists>c \<in> set cs. csID c = i \<and> (\<forall>t. addAllTargets cs t i = Some c)"
proof (induction cs)
  case (Cons c cs)
  then show ?case
  proof (cases "i \<in> csID ` set cs")
    case False
    then have "csID c = i" using Cons.prems by simp
    moreover have "addAllTargets (c # cs) t i = Some c" for t
      using addAllTargets_notin [OF False] \<open>csID c = i\<close> by simp
    ultimately show ?thesis by simp
  qed auto
qed simp

lemma addAllTargets_get:
  "addAllTargets cs t i = (if i \<in> csID ` set cs then addAllTargets cs Map.empty i else t i)"
  "i \<in> csID ` set cs \<Longrightarrow> \<exists>c \<in> set cs. csID c = i \<and> addAllTargets cs t i = Some c"
proof -
  show "addAllTargets cs t i = (if i \<in> csID ` set cs then addAllTargets cs Map.empty i else t i)"
    using addAllTargets_in [of i cs] addAllTargets_notin [of i cs t] by (metis (no_types))
  show "i \<in> csID ` set cs \<Longrightarrow> \<exists>c \<in> set cs. csID c = i \<and> addAllTargets cs t i = Some c"
    using addAllTargets_in [of i cs] by blast
qed

lemma addAllTargets_Some:
  assumes "distinct (map csID cs)" "set ds \<subseteq> set cs"
  shows "addAllTargets ds Map.empty i = Some c \<longleftrightarrow> c \<in> set ds \<and> csID c = i"
proof
  assume a: "addAllTargets ds Map.empty i = Some c"
  then have "i \<in> csID ` set ds" using addAllTargets_get(1) [of ds Map.empty i] by (auto split: if_splits)
  from addAllTargets_get(2) [OF this, of Map.empty] a show "c \<in> set ds \<and> csID c = i" by auto
next
  assume a: "c \<in> set ds \<and> csID c = i"
  then obtain d where d: "d \<in> set ds" "csID d = i" "addAllTargets ds Map.empty i = Some d"
    using addAllTargets_get(2) [of i ds Map.empty] by blast
  then have "d = c" using a assms by (metis distinct_map inj_on_def subsetD)
  then show "addAllTargets ds Map.empty i = Some c" using d by simp
qed

lemma addExplicitIDTargets_get:
  "addExplicitIDTargets is byID t = (t', nf) \<Longrightarrow>
     t' i = (if i \<in> set is \<and> byID i \<noteq> None then byID i else t i) \<and> nf = filter (\<lambda>i. byID i = None) is"
proof (induction "is" arbitrary: t t' nf)
  case (Cons k ks)
  show ?case
  proof (cases "byID k")
    case None
    obtain nf1 where r: "addExplicitIDTargets ks byID t = (t', nf1)" "nf = k # nf1"
      using Cons.prems None by (auto split: prod.splits)
    then show ?thesis using Cons.IH [OF r(1)] None by auto
  next
    case (Some c)
    then have "addExplicitIDTargets ks byID (t(k \<mapsto> c)) = (t', nf)" using Cons.prems by simp
    from Cons.IH [OF this] show ?thesis using Some by auto
  qed
qed simp

text \<open>Whether a request, in words, asks for a context.\<close>

definition asksFor :: "(string \<Rightarrow> duration option) \<Rightarrow> go_time \<Rightarrow> deleteRequest \<Rightarrow> contextSummary \<Rightarrow> bool" where
  "asksFor parseDuration now req c \<longleftrightarrow>
     drAll req \<or> csID c \<in> set (drIDs req)
     \<or> trimSpace (drOlderThan req) \<noteq> []
       \<and> list_ex (\<lambda>d. olderThanCutoff now d c) (case parseDuration (drOlderThan req) of None \<Rightarrow> [] | Some d \<Rightarrow> [d])"

text \<open>
  The contexts a delete request selects are exactly the listed ones it asks for: all of them,
  those named by id, and those last updated before the cutoff of a well-formed duration; the
  ids it reports as not found are the named ids, in order, no listed context has.
\<close>

theorem delete_selects_what_is_asked:
  assumes "distinct (map csID contexts)"
    and "selectDeleteTargets parseDuration now req contexts = Inr (targets, notFound)"
  shows "(targets i = Some c \<longleftrightarrow> c \<in> set contexts \<and> csID c = i \<and> asksFor parseDuration now req c)
    \<and> notFound = filter (\<lambda>i. i \<notin> set (map csID contexts)) (drIDs req)"
proof -
  let ?t0 = "if drAll req then addAllTargets contexts Map.empty else Map.empty"
  note all = addAllTargets_Some [OF assms(1)]
  obtain t1 where t1: "addOlderThanTargets parseDuration now (drOlderThan req) contexts ?t0 = Inr t1"
      and e: "addExplicitIDTargets (drIDs req) (mapContextsByID contexts) t1 = (targets, notFound)"
    using assms(2) by (auto simp: selectDeleteTargets_def Let_def andThen_def split: sum.splits)
  obtain olds where olds: "t1 = addAllTargets olds ?t0" "set olds \<subseteq> set contexts"
      "\<And>c. c \<in> set contexts \<Longrightarrow> c \<in> set olds \<longleftrightarrow> trimSpace (drOlderThan req) \<noteq> []
       \<and> list_ex (\<lambda>d. olderThanCutoff now d c) (case parseDuration (drOlderThan req) of None \<Rightarrow> [] | Some d \<Rightarrow> [d])"
  proof (cases "trimSpace (drOlderThan req) = []")
    case True
    then have "t1 = addAllTargets [] ?t0" using t1 by (simp add: addOlderThanTargets_def)
    then show ?thesis using that [of "[]"] True by simp
  next
    case False
    then obtain d where d: "parseDuration (drOlderThan req) = Some d"
        "t1 = addAllTargets (filter (olderThanCutoff now d) contexts) ?t0"
      using t1 by (auto simp: addOlderThanTargets_def split: option.splits)
    then show ?thesis using that [of "filter (olderThanCutoff now d) contexts"] False by simp
  qed
  have byID: "mapContextsByID contexts i = Some c \<longleftrightarrow> c \<in> set contexts \<and> csID c = i" for i c
    using all [of contexts i c] by (simp add: mapContextsByID_def)
  have none: "mapContextsByID contexts i = None \<longleftrightarrow> i \<notin> set (map csID contexts)" for i
  proof (cases "mapContextsByID contexts i")
    case None
    then show ?thesis using byID [of i] by auto
  next
    case (Some c)
    then have "c \<in> set contexts \<and> csID c = i" using byID by blast
    then show ?thesis using Some by auto
  qed
  have t1_get: "t1 i = Some c \<longleftrightarrow> c \<in> set contexts \<and> csID c = i \<and> (drAll req \<or> c \<in> set olds)" for i c
  proof (cases "i \<in> csID ` set olds")
    case True
    then have "t1 i = addAllTargets olds Map.empty i" using addAllTargets_get(1) [of olds ?t0 i] olds(1) by simp
    then have "t1 i = Some c \<longleftrightarrow> c \<in> set olds \<and> csID c = i" using all [OF olds(2)] by simp
    moreover have "c \<in> set olds" if "c \<in> set contexts" "csID c = i"
      using True that assms(1) olds(2) by (auto simp: distinct_map inj_on_def subset_iff)
    ultimately show ?thesis using olds(2) by auto
  next
    case False
    then have "t1 i = ?t0 i" using addAllTargets_get(1) [of olds ?t0 i] olds(1) by simp
    then show ?thesis using False all [of contexts i c] by auto
  qed
  note got = addExplicitIDTargets_get [OF e, of i]
  have "targets i = Some c \<longleftrightarrow> c \<in> set contexts \<and> csID c = i \<and> (drAll req \<or> c \<in> set olds \<or> i \<in> set (drIDs req))"
  proof (cases "i \<in> set (drIDs req) \<and> mapContextsByID contexts i \<noteq> None")
    case True
    then have "targets i = mapContextsByID contexts i" using got by simp
    then show ?thesis using byID [of i c] True by simp
  next
    case False
    then have "targets i = t1 i" using got by (simp only: if_False)
    moreover have "i \<notin> set (drIDs req)" if "c \<in> set contexts" "csID c = i"
      using False byID [of i c] that by simp
    ultimately show ?thesis using t1_get [of i c] by (cases "c \<in> set contexts \<and> csID c = i") auto
  qed
  then show ?thesis using got none olds(3) by (auto simp: asksFor_def)
qed

theorem delete_selects_what_is_asked_witness:
  "let c = \<lparr>csID = ''a'', csName = ''a'', csPath = [], csWorkspace = [], csCreatedAt = 1, csUpdatedAt = 2,
            csRootHint = [], csActive = False\<rparr>;
       req = \<lparr>drIDs = [''a'', ''z''], drAll = False, drOlderThan = []\<rparr> in
   asksFor (\<lambda>_. None) 9 req c \<and> snd (projr (selectDeleteTargets (\<lambda>_. None) 9 req [c])) = [''z'']"
proof -
  let ?c = "\<lparr>csID = ''a'', csName = ''a'', csPath = [], csWorkspace = [], csCreatedAt = 1, csUpdatedAt = 2,
            csRootHint = [], csActive = False\<rparr>"
  let ?req = "\<lparr>drIDs = [''a'', ''z''], drAll = False, drOlderThan = []\<rparr>"
  have t: "trimSpace [] = []" by code_simp
  have s: "selectDeleteTargets (\<lambda>_. None) 9 ?req [?c] = Inr ([''a'' \<mapsto> ?c], [''z''])"
    by (simp add: selectDeleteTargets_def addOlderThanTargets_def andThen_def mapContextsByID_def t)
  from delete_selects_what_is_asked [of "[?c]", OF _ s, of "''a''" ?c] show ?thesis
    by (simp add: Let_def s)
qed

lemma isAbs_nonempty: "isAbs p \<Longrightarrow> p \<noteq> []"
  by (auto simp: isAbs_def)

subsection \<open>Changing the data root\<close>

lemma apart_tail:
  assumes "\<not> below (a @ [c]) b" "\<not> below (b @ [c]) a" "below (a @ c # i # s) (b @ c # i' # t)"
  shows "a = b \<and> i = i' \<and> below s t"
proof -
  obtain u where "b @ c # i' # t = a @ c # i # s @ u" using assms(3) by (auto simp: below_iff)
  then have "(\<exists>v. b = a @ v \<and> v @ c # i' # t = c # i # s @ u) \<or> (\<exists>v. a = b @ v \<and> v @ c # i # s @ u = c # i' # t)"
    using append_eq_append_conv2 [of b "c # i' # t" a "c # i # s @ u"] by auto
  then show ?thesis
  proof (elim disjE exE conjE)
    fix v assume "b = a @ v" "v @ c # i' # t = c # i # s @ u"
    then show ?thesis using assms(1) by (cases v) (auto simp: below_iff)
  next
    fix v assume "a = b @ v" "v @ c # i # s @ u = c # i' # t"
    then show ?thesis using assms(2) by (cases v) (auto simp: below_iff)
  qed
qed

text \<open>Steps that only remove nodes.\<close>

definition onlyRemoves :: "fileStep \<Rightarrow> bool" where
  "onlyRemoves s \<longleftrightarrow> removesBelow [[]] s"

lemma onlyRemovesI: "removesBelow ps s \<Longrightarrow> onlyRemoves s"
  unfolding onlyRemoves_def removesBelow_def by fastforce

lemma onlyRemoves_runSteps: "list_all onlyRemoves ss \<Longrightarrow> onlyRemoves (runSteps ss)"
  unfolding onlyRemoves_def by (rule removesBelow_runSteps) (simp add: list_all_iff)

lemma onlyRemoves_basic [simp]:
  "onlyRemoves (fsStep (removeAll env p))" "onlyRemoves (removeIfExists env p)"
  "onlyRemoves (ignoreError (removeDirIfEmpty env p))"
  by (rule onlyRemovesI, rule removesBelow_removeAll)
    (rule onlyRemovesI, rule removesBelow_removeIfExists,
     rule onlyRemovesI, rule removesBelow_ignoreError, rule removesBelow_removeDirIfEmpty)

lemma onlyRemoves_parts [simp]:
  "onlyRemoves (removeContextWorkspaceData env d)" "onlyRemoves (removeContextRuntimeData env d)"
  "onlyRemoves (removeContextSetupCache env d)"
  unfolding removeContextWorkspaceData_def removeContextRuntimeData_def removeContextSetupCache_def
  by (auto intro!: onlyRemoves_runSteps)

lemma onlyRemoves_gone:
  assumes "runSteps ss fs = (fs', Inr u)" "s \<in> set ss" "list_all onlyRemoves ss"
    and "\<And>fs fs' u. s fs = (fs', Inr u) \<Longrightarrow> map_of fs' q = None"
  shows "map_of fs' q = None"
  using assms by (intro runSteps_gone [OF assms(1,2), of "[[]]"]) (auto simp: onlyRemoves_def list_all_iff)

lemma workspaceData_gone:
  assumes "removeContextWorkspaceData env d fs = (fs', Inr u)" "isAbs d"
  shows "map_of fs' (pathSegs d @ contextWorkspaceDir # t) = None"
proof -
  have "pathSegs (pathJoin [d, contextWorkspaceDir]) = pathSegs d @ [contextWorkspaceDir]"
    using assms(2) by (simp add: pathSegs_join_names contextWorkspaceDir_def normalSeg_def)
  then have "below (pathSegs (pathJoin [d, contextWorkspaceDir])) (pathSegs d @ contextWorkspaceDir # t)"
    by (simp add: below_def)
  note b = removeAll_step_ok [OF _ this]
  show ?thesis
    by (rule onlyRemoves_gone [OF assms(1) [unfolded removeContextWorkspaceData_def], of _ "pathSegs d @ contextWorkspaceDir # t",
        OF list.set_intros(1)]) (use b in auto)
qed

lemma reset_gone:
  assumes "resetContextStorageAfterRootChange env metaDir oldData newData oldRun newRun fs = (fs', Inr u)"
    and "\<not> samePath oldData newData" "isAbs newData"
  shows "map_of fs' (pathSegs newData @ contextWorkspaceDir # t) = None"
    and "name \<in> {contextManifestFile, contextCleanFile} \<Longrightarrow> map_of fs' (pathSegs (pathJoin [metaDir, name])) = None"
proof -
  let ?ss = "\<lambda>rest. [removeContextWorkspaceData env oldData, removeContextWorkspaceData env newData,
      removeIfExists env (pathJoin [metaDir, contextManifestFile]), removeIfExists env (pathJoin [metaDir, contextCleanFile])] @ rest"
  obtain rest where run: "runSteps (?ss rest) fs = (fs', Inr u)" and rest: "list_all onlyRemoves rest"
  proof (rule that)
    show "runSteps (?ss (map (removeContextSetupCache env) (uniqueCleanPaths [oldRun, newRun])
        @ (if \<not> samePath oldRun newRun \<and> \<not> samePath oldRun oldData then [removeContextWorkspaceData env oldRun] else [])
        @ (if \<not> samePath oldRun newRun then [removeContextRuntimeData env oldRun] else [])
        @ (if \<not> samePath oldRun newRun \<and> \<not> samePath newRun newData then [removeContextWorkspaceData env newRun] else [])
        @ (if \<not> samePath oldRun newRun then [removeContextRuntimeData env newRun] else []))) fs = (fs', Inr u)"
      using assms(1,2) unfolding resetContextStorageAfterRootChange_def Let_def by (simp only: if_True append_assoc simp_thms list.map append.simps)
  qed (auto simp: list_all_iff)
  have all: "list_all onlyRemoves (?ss rest)" using rest by simp
  show "map_of fs' (pathSegs newData @ contextWorkspaceDir # t) = None"
    by (rule onlyRemoves_gone [OF run _ all, of "removeContextWorkspaceData env newData"])
      (use workspaceData_gone [OF _ assms(3)] in auto)
  show "name \<in> {contextManifestFile, contextCleanFile} \<Longrightarrow> map_of fs' (pathSegs (pathJoin [metaDir, name])) = None"
    by (rule onlyRemoves_gone [OF run _ all, of "removeIfExists env (pathJoin [metaDir, name])"])
      (use removeIfExists_ok in auto)
qed

text \<open>What making the directories and saving the metadata can add.\<close>

lemma fsStep_ok: "fsStep f fs = (fs', Inr u) \<Longrightarrow> f fs = (fs', Inr ())"
  by (auto simp: fsStep_def split: prod.splits sum.splits)

lemma ensure_adds:
  assumes "runSteps [fsStep (mkdirAll env workspace), fsStep (mkdirAll env runtimeDir), saveContextMetadata env metaDir meta] fs = (fs', Inr u)"
    and "map_of fs q = None" "q \<noteq> pathSegs (pathJoin [metaDir, contextMetaFile])"
  shows "map_of fs' q = None \<or> map_of fs' q = Some DirNode \<and>
     list_ex (below q) [pathSegs workspace, pathSegs runtimeDir, pathSegs (pathDir (pathJoin [metaDir, contextMetaFile]))]"
proof -
  obtain fs1 u1 where 1: "fsStep (mkdirAll env workspace) fs = (fs1, Inr u1)"
    using assms(1) by (auto split: prod.splits sum.splits)
  obtain fs2 u2 where 2: "fsStep (mkdirAll env runtimeDir) fs1 = (fs2, Inr u2)"
    using assms(1) 1 by (auto split: prod.splits sum.splits)
  have 3: "fsStep (writeAtomic env (pathJoin [metaDir, contextMetaFile]) (CMeta meta)) fs2 = (fs', Inr u)"
    using assms(1) 1 2 by (auto simp: saveContextMetadata_def split: prod.splits sum.splits)
  show ?thesis
    using mkdirAll_get(1) [OF fsStep_ok [OF 1], of q] mkdirAll_get(1) [OF fsStep_ok [OF 2], of q]
      writeAtomic_get(1) [OF fsStep_ok [OF 3] assms(3)] assms(2) by auto
qed

text \<open>
  When a run moves a context to another data root, what the host remembers of the old workspace
  is gone with it: after the context is made the tracked manifest is empty, no cleaned marker
  stands, and the new workspace holds no file, whatever the two roots held before. So the diff
  of the next synchronisation sends every file. (The state directory and the new roots are not
  inside each other's contexts directories.)
\<close>

theorem root_change_starts_afresh:
  assumes "ensureContext env sd now id0 name rootHint storage fs = (fs', Inr h)"
    and "normalizeContextID id0 = Inr i"
    and "loadContextMetadata env (contextMetaDir sd i) fs = Inr meta"
    and "\<not> samePath (contextDataDir (contextDataRoot meta sd) i) (chDataDir h)"
    and "isAbs sd" "isAbs (rsDataRoot storage)" "isAbs (rsRuntimeRoot storage)"
    and "rootsApart sd (rsDataRoot storage)" "rootsApart sd (rsRuntimeRoot storage)"
  shows "loadTrackedManifest env sd i fs' = Inr [] \<and> \<not> workspaceWasCleaned env sd i fs'
    \<and> map_of fs' (pathSegs (chWorkspace h) @ q) \<noteq> Some (FileNode c)"
proof -
  have n: "normalSeg i" using assms(2) normalizeContextID_Inr by blast
  let ?m = "contextMetaDir sd i"
  let ?d = "contextDataDir (rsDataRoot storage) i"
  let ?r = "contextDataDir (rsRuntimeRoot storage) i"
  let ?w = "pathJoin [?d, contextWorkspaceDir]"
  let ?od = "contextDataDir (contextDataRoot meta sd) i"
  let ?or = "contextDataDir (contextRuntimeRoot meta sd) i"
  let ?meta = "placeRoots sd storage (hydrateContextMetadata meta i name rootHint now)"
  obtain fs1 where reset: "resetContextStorageAfterRootChange env ?m ?od ?d ?or ?r fs = (fs1, Inr ())"
    and rest: "runSteps [fsStep (mkdirAll env ?w), fsStep (mkdirAll env ?r), saveContextMetadata env ?m ?meta] fs1 = (fs', Inr ())"
    and h: "chDataDir h = ?d" "chWorkspace h = ?w"
    using assms(1-3) by (auto simp: ensureContext_def Let_def split: prod.splits sum.splits)
  have names: "normalSeg contextWorkspaceDir" "normalSeg contextMetaFile"
      "normalSeg contextManifestFile" "normalSeg contextCleanFile"
    by (simp_all add: contextWorkspaceDir_def contextMetaFile_def contextManifestFile_def contextCleanFile_def normalSeg_def)
  note ms = contextMetaDir_segs [OF assms(5) n] and ds = contextDataDir_segs [OF assms(6) n]
    and rs = contextDataDir_segs [OF assms(7) n]
  have fl: "pathSegs (pathJoin [?m, f]) = pathSegs sd @ [contextDirName, i, f]" if "normalSeg f" for f
    using that ms assms(5) by (simp add: pathSegs_join_names)
  have ws: "pathSegs ?w = pathSegs (rsDataRoot storage) @ [contextDirName, i, contextWorkspaceDir]"
    using ds names assms(6) by (simp add: pathSegs_join_names)
  have dir: "pathSegs (pathDir (pathJoin [?m, contextMetaFile])) = pathSegs sd @ [contextDirName, i]"
    using fl [OF names(2)] assms(5) by (intro pathSegs_pathDir [where x = contextMetaFile])
      (simp_all add: isAbs_pathJoin pathClean_pathJoin isAbs_nonempty)
  have apart: "\<not> below (pathSegs sd @ [contextDirName]) (pathSegs (rsDataRoot storage))"
      "\<not> below (pathSegs (rsDataRoot storage) @ [contextDirName]) (pathSegs sd)"
      "\<not> below (pathSegs sd @ [contextDirName]) (pathSegs (rsRuntimeRoot storage))"
      "\<not> below (pathSegs (rsRuntimeRoot storage) @ [contextDirName]) (pathSegs sd)"
    using assms(8,9) by (simp_all add: rootsApart_def)
  have notmeta: "map_of fs' (pathSegs sd @ [contextDirName, i, f]) = None"
    if f: "f \<in> {contextManifestFile, contextCleanFile}" for f
  proof -
    let ?q = "pathSegs sd @ [contextDirName, i, f]"
    have nf: "normalSeg f" using f names by auto
    have g: "map_of fs1 ?q = None"
      using reset_gone(2) [OF reset assms(4) [unfolded h] _ f] assms(6) fl [OF nf] by simp
    have neq: "f \<noteq> contextMetaFile" "f \<noteq> contextWorkspaceDir"
      using f by (auto simp: contextMetaFile_def contextManifestFile_def contextCleanFile_def contextWorkspaceDir_def)
    have "\<not> below ?q (pathSegs ?w)" using apart_tail [OF apart(1,2), of i "[f]" i "[contextWorkspaceDir]"] neq
      by (auto simp: ws below_def)
    moreover have "\<not> below ?q (pathSegs ?r)" using apart_tail [OF apart(3,4), of i "[f]" i "[]"]
      by (auto simp: rs below_def)
    moreover have "\<not> below ?q (pathSegs sd @ [contextDirName, i])" by (simp add: below_def)
    ultimately show ?thesis
      using ensure_adds [OF rest g] neq(1) fl [OF names(2)] dir by auto
  qed
  let ?q = "pathSegs (rsDataRoot storage) @ contextDirName # i # contextWorkspaceDir # q"
  have "map_of fs1 ?q = None" using reset_gone(1) [OF reset assms(4) [unfolded h], of q] assms(6) ds by simp
  moreover have "?q \<noteq> pathSegs (pathJoin [?m, contextMetaFile])"
  proof
    assume "?q = pathSegs (pathJoin [?m, contextMetaFile])"
    then have "?q = pathSegs sd @ contextDirName # i # [contextMetaFile]" using fl [OF names(2)] by simp
    then have "below (pathSegs sd @ contextDirName # i # [contextMetaFile]) ?q" by (metis below_refl)
    from apart_tail [OF apart(1,2) this] show False
      by (simp add: below_def contextMetaFile_def contextWorkspaceDir_def)
  qed
  ultimately have "map_of fs' ?q \<noteq> Some (FileNode c)" using ensure_adds [OF rest, of ?q] by auto
  moreover have "pathSegs (chWorkspace h) @ q = ?q" using h ws by simp
  moreover have "pathSegs (pathJoin [contextsRoot sd, i, f]) = pathSegs sd @ [contextDirName, i, f]" if "normalSeg f" for f
    using that n assms(5) by (simp add: pathSegs_join_names contextsRoot_segs normalSegs_def)
  ultimately show ?thesis using notmeta names
    by (simp add: loadTrackedManifest_def workspaceWasCleaned_def readFile_def statPath_def)
qed

theorem root_change_starts_afresh_witness:
  "let fs' = fst (ensureContext calmFs ''/s'' 5 ''a'' [] [] \<lparr>rsDataRoot = ''/d'', rsRuntimeRoot = ''/d''\<rparr> demoFs) in
   loadTrackedManifest calmFs ''/s'' ''a'' fs' = Inr []
   \<and> map_of fs' [''d'', ''contexts'', ''a'', ''workspace''] \<noteq> Some (FileNode CGarbage)"
proof -
  let ?st = "\<lparr>rsDataRoot = ''/d'', rsRuntimeRoot = ''/d''\<rparr>"
  let ?run = "ensureContext calmFs ''/s'' 5 ''a'' [] [] ?st demoFs"
  have l: "loadContextMetadata calmFs ''/s/contexts/a'' demoFs = Inr noMetadata"
    using demo_load by (simp only: demo_paths)
  have "case snd ?run of Inr h \<Rightarrow> chDataDir h = ''/d/contexts/a'' \<and> chWorkspace h = ''/d/contexts/a/workspace'' | Inl _ \<Rightarrow> False"
    unfolding ensureContext_def demo_paths sum.case Let_def l by code_simp
  then obtain h where h: "?run = (fst ?run, Inr h)" "chDataDir h = ''/d/contexts/a''" "chWorkspace h = ''/d/contexts/a/workspace''"
    by (cases ?run; cases "snd ?run") auto
  have p: "\<not> samePath (contextDataDir (contextDataRoot noMetadata ''/s'') ''a'') ''/d/contexts/a''"
      "isAbs (rsDataRoot ?st)" "isAbs (rsRuntimeRoot ?st)" "rootsApart ''/s'' (rsDataRoot ?st)" "rootsApart ''/s'' (rsRuntimeRoot ?st)"
      "pathSegs ''/d/contexts/a/workspace'' = [''d'', ''contexts'', ''a'', ''workspace'']"
    by code_simp+
  from root_change_starts_afresh [OF h(1) demo_paths(1) demo_load _ demo_paths(11) p(2,3,4,5), of "[]" CGarbage]
  show ?thesis using p(1,6) h(2,3) by (simp add: Let_def)
qed

lemma idByte_idRune: "idByte c \<Longrightarrow> idRune (byte c)"
  unfolding idByte_def idRune_def by (elim disjE) (blast, blast, simp)

lemma idByte_plain: "idByte c \<Longrightarrow> plainByte c"
  unfolding idByte_def plainByte_def by (elim disjE) (linarith, linarith, simp)

text \<open>
  The id a client computes for its project (whatever its configuration) is one the host
  accepts as it is, for any hash whose digests are lower-case hex: the two sides of the protocol
  agree on context ids, and no client-computed id escapes the contexts directory.
\<close>

theorem client_ids_accepted:
  assumes "\<forall>c \<in> set (sha (ContextIdentity l)). idByte c"
  shows "normalizeContextID (ContextID sha l) = Inr (ContextID sha l)"
proof -
  have b: "(\<forall>c \<in> set (ContextID sha l). idByte c) \<and> hd (ContextID sha l) \<noteq> CHR ''-''"
    by (rule ContextID_bytes) (rule assms)
  have dash: "ContextID sha l \<noteq> []" "ContextID sha l \<noteq> ''.''" "ContextID sha l \<noteq> ''..''"
  proof -
    have m: "CHR ''-'' \<in> set (ContextID sha l)" by (simp add: ContextID_def Let_def)
    show "ContextID sha l \<noteq> []" using m by (cases "ContextID sha l") simp_all
    have "CHR ''-'' \<notin> set ''.''" "CHR ''-'' \<notin> set ''..''" by simp_all
    with m show "ContextID sha l \<noteq> ''.''" "ContextID sha l \<noteq> ''..''" by (blast dest: arg_cong [where f = set])+
  qed
  have "\<forall>c \<in> set (ContextID sha l). idRune (byte c)"
    using b idByte_idRune by blast
  moreover have "trimSpace (ContextID sha l) = ContextID sha l"
    using b idByte_plain by (intro trimSpace_id trimmed_all_plain) blast
  ultimately show ?thesis using dash by (intro normalizeContextID_ascii)
qed

theorem client_ids_accepted_witness:
  "let l = \<lparr>ldPath = ''/a/rmtx.json'', ldRoot = ''/a'', ldConfig = DefaultConfig\<rparr>;
       i = ContextID (\<lambda>_. ''0badcafe0badcafe'') l in normalizeContextID i = Inr i"
  unfolding Let_def
  by (rule client_ids_accepted) (simp add: idByte_def)

end
