(* ===== verification/Reference.thy ===== *)
theory Reference
  imports GoRunes
begin

text \<open>
  OCI image references (internal/oci/reference.go): \<open>ParseReference\<close> with Docker's defaults,
  the registry host to contact and the normalised spelling under which images are cached.
  \<open>refReference\<close> is the field \<open>Reference\<close> of the struct of the same name.
\<close>

record reference =
  Registry :: string
  Repository :: string
  refReference :: string
  Digest :: string
  Tag :: string
  Original :: string

datatype refError = RefRequired | InvalidDigest string | InvalidRepository string

definition defaultRegistry :: string where "defaultRegistry = ''docker.io''"
definition dockerHubHost :: string where "dockerHubHost = ''registry-1.docker.io''"
definition defaultTag :: string where "defaultTag = ''latest''"

text \<open>The regular expression \<open>^[A-Za-z0-9_+.-]+:[0-9a-fA-F]+$\<close>.\<close>

definition algoByte :: "char \<Rightarrow> bool" where
  "algoByte c \<longleftrightarrow> (let b = byte c in
     (0x41 \<le> b \<and> b \<le> 0x5A) \<or> (0x61 \<le> b \<and> b \<le> 0x7A) \<or> (0x30 \<le> b \<and> b \<le> 0x39)
     \<or> c \<in> set ''_+.-'')"

definition hexByte :: "char \<Rightarrow> bool" where
  "hexByte c \<longleftrightarrow> (let b = byte c in
     (0x30 \<le> b \<and> b \<le> 0x39) \<or> (0x61 \<le> b \<and> b \<le> 0x66) \<or> (0x41 \<le> b \<and> b \<le> 0x46))"

definition digestPattern :: "string \<Rightarrow> bool" where
  "digestPattern d =
     (let (algo, hex, ok) = cut (CHR '':'') d in
      ok \<and> algo \<noteq> [] \<and> list_all algoByte algo \<and> hex \<noteq> [] \<and> list_all hexByte hex)"

text \<open>The split at the last colon behind the last slash, name first.\<close>

definition splitTag :: "string \<Rightarrow> string \<times> string" where
  "splitTag name =
     (let lastSlash = lastIndex (CHR ''/'') name; lastColon = lastIndex (CHR '':'') name in
      if lastSlash < lastColon
      then (take (nat lastColon) name, drop (nat lastColon + 1) name)
      else (name, []))"

definition registryLike :: "string \<Rightarrow> bool" where
  "registryLike p \<longleftrightarrow>
     containsSub p ''.'' \<or> containsSub p '':'' \<or> p = ''localhost''"

definition splitRegistry :: "string \<Rightarrow> string \<times> string" where
  "splitRegistry name =
     (let parts = splitOn (CHR ''/'') name in
      if length parts = 1 then (defaultRegistry, ''library/'' @ hd parts)
      else if registryLike (hd parts) then (hd parts, joinOn (CHR ''/'') (tl parts))
      else (defaultRegistry, joinOn (CHR ''/'') parts))"

definition ParseReference :: "string \<Rightarrow> refError + reference" where
  "ParseReference value0 =
     (let value = trimSpace value0 in
      if value = [] then Inl RefRequired
      else
        (let (name, digest, ok) = cut (CHR ''@'') value in
         if ok \<and> \<not> digestPattern digest then Inl (InvalidDigest digest)
         else
           (let (name', tag0) = splitTag name;
                tag = (if digest = [] \<and> tag0 = [] then defaultTag else tag0);
                (registry, repository) = splitRegistry name' in
            if repository = [] \<or> containsSub repository ''..''
            then Inl (InvalidRepository repository)
            else Inr \<lparr>Registry = registry, Repository = repository,
                      refReference = (if digest \<noteq> [] then digest else tag),
                      Digest = digest, Tag = tag, Original = value\<rparr>)))"

definition RegistryHost :: "reference \<Rightarrow> string" where
  "RegistryHost r = (if Registry r = defaultRegistry then dockerHubHost else Registry r)"

definition Normalized :: "reference \<Rightarrow> string" where
  "Normalized r =
     (let s = Registry r @ ''/'' @ Repository r in
      if Digest r \<noteq> [] then s @ ''@'' @ Digest r else s @ '':'' @ Tag r)"

section \<open>What parsing yields\<close>

lemma lastIndex_dropAfter:
  "0 \<le> lastIndex c s \<Longrightarrow>
   s = take (nat (lastIndex c s)) s @ c # drop (nat (lastIndex c s) + 1) s
   \<and> c \<notin> set (drop (nat (lastIndex c s) + 1) s)"
proof (induction s)
  case (Cons x s)
  show ?case
  proof (cases "0 \<le> lastIndex c s")
    case True
    with Cons show ?thesis by (simp add: nat_add_distrib)
  next
    case False
    then have "c \<notin> set s" using lastIndex_neg [of c s] by simp
    with Cons.prems False show ?thesis by (auto simp: Let_def split: if_splits)
  qed
qed simp

lemma splitTag_tagged:
  assumes "CHR '':'' \<notin> set t" and "CHR ''/'' \<notin> set t"
  shows "splitTag (n @ CHR '':'' # t) = (n, t)"
proof -
  have "lastIndex (CHR '':'') (n @ CHR '':'' # t) = int (length n)"
    using assms(1) lastIndex_neg [of "CHR '':''" t] by (simp add: lastIndex_append)
  moreover have "lastIndex (CHR ''/'') (n @ CHR '':'' # t) < int (length n)"
  proof -
    have "lastIndex (CHR ''/'') (n @ CHR '':'' # t) = lastIndex (CHR ''/'') n"
      using assms(2) by (simp add: lastIndex_append)
    then show ?thesis using lastIndex_less [of "CHR ''/''" n] by simp
  qed
  ultimately show ?thesis by (simp add: splitTag_def)
qed

text \<open>The tag of a parsed reference holds neither of the two separators.\<close>

lemma splitTag_free:
  assumes "splitTag name = (n, t)"
  shows "CHR '':'' \<notin> set t" and "CHR ''/'' \<notin> set t"
proof -
  let ?ls = "lastIndex (CHR ''/'') name" and ?lc = "lastIndex (CHR '':'') name"
  have "CHR '':'' \<notin> set t \<and> CHR ''/'' \<notin> set t"
  proof (cases "?ls < ?lc")
    case True
    with lastIndex_ge [of "CHR ''/''" name] have "0 \<le> ?lc" by linarith
    from lastIndex_dropAfter [OF this]
    have name: "name = take (nat ?lc) name @ CHR '':'' # drop (nat ?lc + 1) name"
      and free: "CHR '':'' \<notin> set (drop (nat ?lc + 1) name)" by blast+
    have t: "t = drop (nat ?lc + 1) name" and n: "n = take (nat ?lc) name"
      using assms True by (auto simp: splitTag_def Let_def)
    have "CHR ''/'' \<notin> set t"
    proof
      assume "CHR ''/'' \<in> set t"
      then have "?ls = int (length (n @ [CHR '':''])) + lastIndex (CHR ''/'') t"
        using name t n lastIndex_append [of "CHR ''/''" "n @ [CHR '':'']" t] by simp
      moreover have "0 \<le> lastIndex (CHR ''/'') t"
        using \<open>CHR ''/'' \<in> set t\<close> lastIndex_neg [of "CHR ''/''" t] by linarith
      moreover have "int (length n) = ?lc"
        using n \<open>0 \<le> ?lc\<close> lastIndex_less [of "CHR '':''" name] by simp
      ultimately show False using True by simp
    qed
    with free t show ?thesis by simp
  next
    case False
    with assms show ?thesis by (auto simp: splitTag_def Let_def)
  qed
  then show "CHR '':'' \<notin> set t" and "CHR ''/'' \<notin> set t" by auto
qed

text \<open>Every parsed registry is the default one or looks like a host.\<close>

lemma splitOn_hd_free: "c \<notin> set (hd (splitOn c s))"
  by (rule splitOn_parts_free [of _ c s]) simp

lemma splitRegistry_registry:
  assumes "splitRegistry name = (reg, repo)"
  shows "registryLike reg \<and> CHR ''/'' \<notin> set reg"
  using assms splitOn_hd_free [of "CHR ''/''" name]
  by (auto simp: splitRegistry_def Let_def defaultRegistry_def registryLike_def split: if_splits)

lemma splitRegistry_again:
  assumes "registryLike reg" and "CHR ''/'' \<notin> set reg"
  shows "splitRegistry (reg @ CHR ''/'' # repo) = (reg, repo)"
  using assms by (simp add: splitRegistry_def splitOn_append)

lemma joinOn_subset: "set (joinOn c xs) \<subseteq> insert c (\<Union> (set ` set xs))"
  by (induction c xs rule: joinOn.induct) auto

lemma splitRegistry_subset:
  assumes "splitRegistry name = (reg, repo)"
  shows "set reg \<subseteq> set name \<union> set defaultRegistry"
    and "set repo \<subseteq> set name \<union> set ''library/''"
proof -
  let ?parts = "splitOn (CHR ''/'') name"
  have hd: "set (hd ?parts) \<subseteq> set name"
    by (rule splitOn_subset [of _ "CHR ''/''" name]) simp
  have tl: "set (joinOn (CHR ''/'') (tl ?parts)) \<subseteq> set name \<union> {CHR ''/''}"
  proof -
    have "set x \<subseteq> set name" if "x \<in> set (tl ?parts)" for x
      using that by (intro splitOn_subset [of _ "CHR ''/''" name]) (auto dest: list.set_sel(2) [rotated])
    then show ?thesis using joinOn_subset [of "CHR ''/''" "tl ?parts"] by fast
  qed
  show "set reg \<subseteq> set name \<union> set defaultRegistry"
    using assms hd by (auto simp: splitRegistry_def Let_def split: if_splits)
  show "set repo \<subseteq> set name \<union> set ''library/''"
    using assms hd tl by (auto simp: splitRegistry_def Let_def split: if_splits)
qed

text \<open>A white space rune holds no ASCII separator, so text up to one stays trimmed.\<close>

lemma spaceRunes_plain_free: "w \<in> set spaceRunes \<Longrightarrow> plainByte c \<Longrightarrow> c \<notin> set w"
  by (auto simp: spaceRunes_def plainByte_def)

lemma stripOne_upto:
  assumes free: "\<And>w. w \<in> set ws \<Longrightarrow> c \<notin> set w"
    and none: "stripOne ws (u @ t) = None"
  shows "stripOne ws (u @ c # t') = None"
proof -
  have "\<not> hasPrefix (u @ c # t') w" if w: "w \<in> set ws" "w \<noteq> []" for w
  proof
    assume pre: "hasPrefix (u @ c # t') w"
    have "length w \<le> length u"
    proof (rule ccontr)
      assume "\<not> length w \<le> length u"
      then have "c \<in> set (take (length w) (u @ c # t'))"
        by (simp add: take_Cons' )
      with pre free [OF w(1)] show False by (simp add: hasPrefix_def)
    qed
    with pre have "hasPrefix (u @ t) w" by (simp add: hasPrefix_def)
    with none w show False by (auto simp: stripOne_None_iff)
  qed
  then show ?thesis by (auto simp: stripOne_None_iff)
qed

lemma trimmed_ends:
  assumes "stripOne spaceRunes (u @ t) = None" and "plainByte c"
    and "stripOne (map rev spaceRunes) (rev (t' @ v)) = None" and "plainByte d"
  shows "trimmed (u @ c # m @ d # v)"
proof -
  have "stripOne spaceRunes (u @ c # m @ d # v) = None"
    using assms(1,2) by (intro stripOne_upto) (auto dest: spaceRunes_plain_free)
  moreover have "stripOne (map rev spaceRunes) (rev v @ d # rev m @ c # rev u) = None"
    using assms(3,4) by (intro stripOne_upto [where t = "rev t'"]) (auto dest: spaceRunes_plain_free)
  ultimately show ?thesis by (simp add: trimmed_def)
qed

section \<open>Inversion of a successful parse\<close>

lemma ParseReference_Inr:
  assumes "ParseReference v = Inr r"
  obtains name ok name' tag0 where
    "cut (CHR ''@'') (trimSpace v) = (name, Digest r, ok)"
    "ok \<longrightarrow> digestPattern (Digest r)"
    "splitTag name = (name', tag0)"
    "splitRegistry name' = (Registry r, Repository r)"
    "Tag r = (if Digest r = [] \<and> tag0 = [] then defaultTag else tag0)"
    "refReference r = (if Digest r \<noteq> [] then Digest r else Tag r)"
    "Repository r \<noteq> []" "\<not> containsSub (Repository r) ''..''"
  using assms
  by (auto simp: ParseReference_def Let_def split: prod.splits if_splits)

lemma digestPattern_facts:
  "digestPattern d \<Longrightarrow> d \<noteq> [] \<and> CHR ''@'' \<notin> set d \<and> plainByte (last d)"
proof -
  assume "digestPattern d"
  then obtain algo hex where d: "d = algo @ CHR '':'' # hex" and
    a: "list_all algoByte algo" and h: "hex \<noteq> []" "list_all hexByte hex"
    by (auto simp: digestPattern_def split: prod.splits dest!: cut_found)
  have "CHR ''@'' \<notin> set algo" using a by (auto simp: list_all_iff algoByte_def)
  moreover have "CHR ''@'' \<notin> set hex" using h by (auto simp: list_all_iff hexByte_def)
  moreover have "hexByte (last hex)" using h by (auto simp: list_all_iff)
  then have "plainByte (last hex)" by (auto simp: hexByte_def plainByte_def Let_def)
  ultimately show ?thesis using d h by auto
qed

lemma take_to_slash: "\<exists>t. name = hd (splitOn c name) @ t"
proof -
  obtain x xs where "splitOn c name = x # xs" by (cases "splitOn c name") auto
  moreover have "name = joinOn c (splitOn c name)" by simp
  ultimately show ?thesis by (cases xs) (auto simp: joinOn_Cons)
qed

lemma splitTag_prefix: "splitTag name = (n, t) \<Longrightarrow> \<exists>u. name = n @ u"
  unfolding splitTag_def Let_def by (auto split: if_splits) (metis append_take_drop_id)

lemma splitTag_suffix:
  assumes "splitTag name = (n, t)" and "t \<noteq> []"
  shows "name = n @ CHR '':'' # t"
proof -
  from assms have "lastIndex (CHR ''/'') name < lastIndex (CHR '':'') name"
    by (auto simp: splitTag_def Let_def split: if_splits)
  with lastIndex_ge [of "CHR ''/''" name] have "0 \<le> lastIndex (CHR '':'') name" by linarith
  from lastIndex_dropAfter [OF this] assms show ?thesis
    by (auto simp: splitTag_def Let_def split: if_splits)
qed

text \<open>The registry of a parsed value starts as the value does, or is the default one.\<close>

lemma registry_start:
  assumes "splitTag name = (name', tag0)" and "splitRegistry name' = (reg, repo)"
    and "stripOne spaceRunes (name @ rest) = None"
  shows "\<exists>t. stripOne spaceRunes (reg @ t) = None"
proof (cases "reg = defaultRegistry")
  case True
  then show ?thesis
    using stripOne_plain [of "CHR ''d''" "tl defaultRegistry"]
    by (intro exI [of _ "[]"]) (simp add: defaultRegistry_def plainByte_def)
next
  case False
  with assms(2) have "reg = hd (splitOn (CHR ''/'') name')"
    by (auto simp: splitRegistry_def Let_def split: if_splits)
  moreover obtain u where "name = name' @ u" using splitTag_prefix [OF assms(1)] by blast
  ultimately show ?thesis
    using take_to_slash [of name' "CHR ''/''"] assms(3) by (metis append_assoc)
qed

lemma registry_not_empty: "registryLike reg \<Longrightarrow> reg \<noteq> []"
  by (auto simp: registryLike_def)

text \<open>What a successful parse keeps of the value: the facts both directions need.\<close>

lemma ParseReference_shape:
  assumes "ParseReference v = Inr r"
  shows "registryLike (Registry r)" and "CHR ''/'' \<notin> set (Registry r)"
    and "CHR ''@'' \<notin> set (Registry r) \<union> set (Repository r) \<union> set (Tag r)"
    and "\<exists>t. stripOne spaceRunes (Registry r @ t) = None"
    and "Digest r \<noteq> [] \<Longrightarrow> digestPattern (Digest r)"
    and "CHR '':'' \<notin> set (Tag r)" and "CHR ''/'' \<notin> set (Tag r)"
    and "Digest r = [] \<Longrightarrow> Tag r \<noteq> [] \<and>
           (\<exists>t. stripOne (map rev spaceRunes) (rev (t @ Tag r)) = None)"
proof -
  obtain name ok name' tag0 where
    c: "cut (CHR ''@'') (trimSpace v) = (name, Digest r, ok)" and
    p: "ok \<longrightarrow> digestPattern (Digest r)" and
    t: "splitTag name = (name', tag0)" and
    g: "splitRegistry name' = (Registry r, Repository r)" and
    tag: "Tag r = (if Digest r = [] \<and> tag0 = [] then defaultTag else tag0)"
    using assms by (rule ParseReference_Inr)
  have val: "\<exists>rest. trimSpace v = name @ rest" and at: "CHR ''@'' \<notin> set name"
    using c by (cases ok; force dest: cut_found cut_not_found)+
  have name': "set name' \<subseteq> set name" using splitTag_prefix [OF t] by auto
  have tag0: "set tag0 \<subseteq> set name"
    by (cases "tag0 = []") (use splitTag_suffix [OF t] in auto)
  show "registryLike (Registry r)" and "CHR ''/'' \<notin> set (Registry r)"
    using splitRegistry_registry [OF g] by auto
  show "CHR ''@'' \<notin> set (Registry r) \<union> set (Repository r) \<union> set (Tag r)"
    using at name' tag0 tag splitRegistry_subset [OF g]
    by (auto simp: defaultRegistry_def defaultTag_def subset_iff)
  show "\<exists>t. stripOne spaceRunes (Registry r @ t) = None"
    using val registry_start [OF t g] trimmed_trimSpace [of v]
    by (metis trimmed_def)
  show "digestPattern (Digest r)" if "Digest r \<noteq> []"
    using that c p cut_not_found [of "CHR ''@''" "trimSpace v"] by (cases ok) auto
  show "CHR '':'' \<notin> set (Tag r)" and "CHR ''/'' \<notin> set (Tag r)"
    using splitTag_free [OF t] tag by (auto simp: defaultTag_def)
  show "Tag r \<noteq> [] \<and> (\<exists>t. stripOne (map rev spaceRunes) (rev (t @ Tag r)) = None)"
    if d: "Digest r = []"
  proof (cases "tag0 = []")
    case True
    have "stripOne (map rev spaceRunes) (rev ([] @ defaultTag)) = None"
      using stripOne_rev_plain [of "CHR ''t''" "rev ''lates''"]
      by (simp add: defaultTag_def plainByte_def)
    with True d tag show ?thesis by (metis defaultTag_def list.distinct(1))
  next
    case False
    from d p have "\<not> ok" by (auto dest: digestPattern_facts)
    with c have "trimSpace v = name" using cut_not_found by fastforce
    then have "trimSpace v = (name' @ '':'') @ tag0"
      using splitTag_suffix [OF t False] by simp
    with trimmed_trimSpace [of v] have
      "stripOne (map rev spaceRunes) (rev ((name' @ '':'') @ tag0)) = None"
      by (metis trimmed_def)
    with False tag show ?thesis by (intro conjI exI [of _ "name' @ '':''"]) auto
  qed
qed

lemma ParseReference_of_parts:
  assumes "trimmed s" and "s \<noteq> []" and "cut (CHR ''@'') s = (n, d, ok)"
    and "ok \<longrightarrow> digestPattern d" and "splitTag n = (n', t)" and "d \<noteq> [] \<or> t \<noteq> []"
    and "splitRegistry n' = (reg, repo)" and "repo \<noteq> []" and "\<not> containsSub repo ''..''"
  shows "ParseReference s = Inr \<lparr>Registry = reg, Repository = repo,
    refReference = (if d \<noteq> [] then d else t), Digest = d, Tag = t, Original = s\<rparr>"
  using assms by (auto simp: ParseReference_def trimSpace_id Let_def)

lemma reparse_tagged:
  assumes "ParseReference v = Inr r" and d: "Digest r = []"
  shows "ParseReference (Normalized r) =
    Inr (r\<lparr>Original := Normalized r\<rparr>)"
proof -
  note sh = ParseReference_shape [OF assms(1)]
  obtain t where t: "stripOne spaceRunes (Registry r @ t) = None" using sh(4) by blast
  obtain t' where t': "stripOne (map rev spaceRunes) (rev (t' @ Tag r)) = None"
    using sh(8) d by blast
  have n: "Normalized r = (Registry r @ CHR ''/'' # Repository r) @ CHR '':'' # Tag r"
    using d by (simp add: Normalized_def)
  have "trimmed (Normalized r)"
    using trimmed_ends [OF t _ t', of "CHR ''/''" "CHR '':''" "Repository r"]
    by (simp add: n plainByte_def)
  moreover have "cut (CHR ''@'') (Normalized r) = (Normalized r, [], False)"
    using sh(3) by (intro cut_free) (auto simp: n)
  moreover have "splitTag (Normalized r) = (Registry r @ CHR ''/'' # Repository r, Tag r)"
    unfolding n by (rule splitTag_tagged) (use sh(6,7) in auto)
  moreover have "splitRegistry (Registry r @ CHR ''/'' # Repository r) = (Registry r, Repository r)"
    using sh(1,2) by (rule splitRegistry_again)
  moreover have "Repository r \<noteq> [] \<and> \<not> containsSub (Repository r) ''..'' \<and>
      refReference r = Tag r"
    by (rule ParseReference_Inr [OF assms(1)]) (use d in auto)
  ultimately have "ParseReference (Normalized r) = Inr \<lparr>Registry = Registry r,
      Repository = Repository r, refReference = Tag r, Digest = [], Tag = Tag r,
      Original = Normalized r\<rparr>"
    using sh(8) d ParseReference_of_parts [of "Normalized r"] by (auto simp: n)
  then show ?thesis
    using d \<open>_ \<and> _ \<and> refReference r = Tag r\<close> by simp
qed

lemma reparse_digest:
  assumes "ParseReference v = Inr r" and d: "Digest r \<noteq> []"
    and colon: "CHR '':'' \<notin> set (Repository r)"
  shows "ParseReference (Normalized r) =
    Inr (r\<lparr>Tag := [], Original := Normalized r\<rparr>)"
proof -
  note sh = ParseReference_shape [OF assms(1)]
  let ?n = "Registry r @ CHR ''/'' # Repository r"
  have n: "Normalized r = ?n @ CHR ''@'' # Digest r"
    using d by (simp add: Normalized_def)
  have dig: "Digest r \<noteq> []" "plainByte (last (Digest r))"
    using digestPattern_facts [OF sh(5) [OF d]] by auto
  obtain t where t: "stripOne spaceRunes (Registry r @ t) = None" using sh(4) by blast
  have "trimmed (Registry r @ CHR ''/'' # (Repository r @ CHR ''@'' # butlast (Digest r))
      @ last (Digest r) # [])"
    by (rule trimmed_ends [OF t, where t' = "[]"])
      (use dig in \<open>auto simp: plainByte_def stripOne_None_iff spaceRunes_def\<close>)
  then have "trimmed (Normalized r)" using dig by (simp add: n)
  moreover have "cut (CHR ''@'') (Normalized r) = (?n, Digest r, True)"
    unfolding n by (rule cut_append) (use sh(3) in auto)
  moreover have "splitTag ?n = (?n, [])"
  proof -
    have "lastIndex (CHR '':'') ?n < lastIndex (CHR ''/'') ?n"
      using colon lastIndex_less [of "CHR '':''" "Registry r"] lastIndex_ge [of "CHR ''/''" "Repository r"]
        lastIndex_append [of "CHR '':''" "Registry r" "CHR ''/'' # Repository r"]
        lastIndex_append [of "CHR ''/''" "Registry r" "CHR ''/'' # Repository r"]
      by (auto simp: Let_def)
    then show ?thesis by (simp add: splitTag_def)
  qed
  moreover have "splitRegistry ?n = (Registry r, Repository r)"
    using sh(1,2) by (rule splitRegistry_again)
  moreover have "Repository r \<noteq> [] \<and> \<not> containsSub (Repository r) ''..'' \<and>
      refReference r = Digest r"
    by (rule ParseReference_Inr [OF assms(1)]) (use d in auto)
  ultimately have "ParseReference (Normalized r) = Inr \<lparr>Registry = Registry r,
      Repository = Repository r, refReference = Digest r, Digest = Digest r, Tag = [],
      Original = Normalized r\<rparr>" and "refReference r = Digest r"
    using sh(5) d ParseReference_of_parts [of "Normalized r" ?n "Digest r" True ?n "[]"
        "Registry r" "Repository r"] n by simp_all
  then show ?thesis by simp
qed

lemma Normalized_update [simp]:
  "Normalized (r\<lparr>Original := s\<rparr>) = Normalized r"
  "Digest r \<noteq> [] \<Longrightarrow> Normalized (r\<lparr>Tag := t\<rparr>) = Normalized r"
  by (simp_all add: Normalized_def Let_def)

section \<open>Properties\<close>

text \<open>
  C27. The normalised name of an image, which keys the image store and is written to the
  rootfs metadata, parses back to the same registry, repository, tag or digest and is its
  own normal form. This holds for every reference with a tag, and for one with a digest whose
  repository has no colon; with a colon it fails (\<open>digest_with_colon_unstable\<close>).
\<close>

theorem image_reference_roundtrip:
  assumes "ParseReference v = Inr r" "Digest r \<noteq> [] \<longrightarrow> CHR '':'' \<notin> set (Repository r)"
  shows "\<exists>r'. ParseReference (Normalized r) = Inr r' \<and> Normalized r' = Normalized r
    \<and> Registry r' = Registry r \<and> Repository r' = Repository r
    \<and> refReference r' = refReference r \<and> Digest r' = Digest r"
proof (cases "Digest r = []")
  case True
  show ?thesis
    by (rule exI [of _ "r\<lparr>Original := Normalized r\<rparr>"])
      (simp add: reparse_tagged [OF assms(1) True])
next
  case False
  then show ?thesis
    using assms(2) by (intro exI [of _ "r\<lparr>Tag := [], Original := Normalized r\<rparr>"])
      (simp add: reparse_digest [OF assms(1) False])
qed

lemma image_reference_roundtrip_witness:
  "case ParseReference '' ghcr.io/a/b:1 '' of Inl e \<Rightarrow> False | Inr r \<Rightarrow>
     Normalized r = ''ghcr.io/a/b:1'' \<and>
     (\<exists>r'. ParseReference (Normalized r) = Inr r' \<and> Normalized r' = Normalized r)"
proof -
  have p: "ParseReference '' ghcr.io/a/b:1 '' = Inr \<lparr>Registry = ''ghcr.io'',
      Repository = ''a/b'', refReference = ''1'', Digest = [], Tag = ''1'',
      Original = ''ghcr.io/a/b:1''\<rparr>"
    by code_simp
  show ?thesis using image_reference_roundtrip [OF p] p by (auto simp: Normalized_def)
qed

text \<open>
  A digest reference whose name has two colons is accepted; its normal form parses to
  another repository.
\<close>

lemma digest_with_colon_unstable:
  "case ParseReference ''r:a:b@md5:00000000000000000000000000000000'' of
     Inl _ \<Rightarrow> False
   | Inr r \<Rightarrow> (case ParseReference (Normalized r) of
       Inl _ \<Rightarrow> False | Inr r' \<Rightarrow> Repository r' \<noteq> Repository r)"
  by code_simp

end
