(* ===== verification/OciStore.thy ===== *)
theory OciStore
  imports Reference HostFS
begin

text \<open>
  The image cache (oci/store.go): blobs and manifests under the paths of their digests, image
  references under the hash of their names. Files hold bytes; \<open>sha\<close> is the hexadecimal SHA-256,
  the encoding of images as JSON is a parameter.
\<close>

record ociDescriptor =
  odDigest :: string
  odSize :: int

record ociImage =
  oiReference :: string
  oiManifestDigest :: string
  oiConfigDigest :: string
  oiEnv :: "string list"
  oiLayers :: "ociDescriptor list"

datatype ociError =
    OciNegativeSize | OciInvalidDigest string | OciFS | OciNotExist | OciWriteBlob | OciSizeExceeded
  | OciFinishRead | OciDigestMismatch string string | OciMissingOrCorrupt string | OciParse

type_synonym ociFiles = "string hostfs"

section \<open>Digests and paths\<close>

definition digestShardLen :: nat where "digestShardLen = 2"

definition DigestBytes :: "(string \<Rightarrow> string) \<Rightarrow> string \<Rightarrow> string" where
  "DigestBytes sha raw = ''sha256:'' @ sha raw"

definition safeRefName :: "(string \<Rightarrow> string) \<Rightarrow> string \<Rightarrow> string" where
  "safeRefName sha ref = sha ref"

definition digestParts :: "(string \<Rightarrow> string) \<Rightarrow> string \<Rightarrow> string \<times> string" where
  "digestParts sha digest =
     (if \<not> digestPattern digest then (''invalid'', safeRefName sha digest)
      else let (algo, encoded, ok) = cut (CHR '':'') digest in
        if \<not> ok then (''unknown'', digest) else (algo, encoded))"

definition BlobsDir :: "string \<Rightarrow> string" where
  "BlobsDir root = pathJoin [root, ''blobs'']"

definition BlobPath :: "(string \<Rightarrow> string) \<Rightarrow> string \<Rightarrow> string \<Rightarrow> string" where
  "BlobPath sha root digest =
     (let (algo, encoded) = digestParts sha digest in
      if digestShardLen \<le> length encoded
      then pathJoin [BlobsDir root, algo, take digestShardLen encoded, encoded]
      else pathJoin [BlobsDir root, algo, encoded])"

definition ManifestPath :: "(string \<Rightarrow> string) \<Rightarrow> string \<Rightarrow> string \<Rightarrow> string" where
  "ManifestPath sha root digest =
     (let (algo, encoded) = digestParts sha digest in
      pathJoin [root, ''manifests'', algo, encoded @ ''.json''])"

definition validateDigest :: "string \<Rightarrow> ociError + unit" where
  "validateDigest digest = (if \<not> digestPattern digest then Inl (OciInvalidDigest digest) else Inr ())"

definition checkedBlobPath :: "(string \<Rightarrow> string) \<Rightarrow> string \<Rightarrow> string \<Rightarrow> ociError + string" where
  "checkedBlobPath sha root digest = andThen (validateDigest digest) (\<lambda>u. Inr (BlobPath sha root digest))"

definition checkedManifestPath :: "(string \<Rightarrow> string) \<Rightarrow> string \<Rightarrow> string \<Rightarrow> ociError + string" where
  "checkedManifestPath sha root digest = andThen (validateDigest digest) (\<lambda>u. Inr (ManifestPath sha root digest))"

section \<open>Blobs and manifests\<close>

fun ensureDirs :: "fsEnv \<Rightarrow> string list \<Rightarrow> ociFiles \<Rightarrow> ociFiles \<times> (ociError + unit)" where
  "ensureDirs env [] fs = (fs, Inr ())"
| "ensureDirs env (d # ds) fs =
     (case mkdirAll env d fs of (fs1, Inl e) \<Rightarrow> (fs1, Inl OciFS) | (fs1, Inr _) \<Rightarrow> ensureDirs env ds fs1)"

definition ensureStore :: "fsEnv \<Rightarrow> string \<Rightarrow> ociFiles \<Rightarrow> ociFiles \<times> (ociError + unit)" where
  "ensureStore env root =
     ensureDirs env [BlobsDir root, pathJoin [root, ''manifests''], pathJoin [root, ''refs'']]"

definition digestFile :: "(string \<Rightarrow> string) \<Rightarrow> fsEnv \<Rightarrow> string \<Rightarrow> ociFiles \<Rightarrow> (string \<times> int) option" where
  "digestFile sha env path fs =
     (case readFile env path fs of Inl e \<Rightarrow> None | Inr c \<Rightarrow> Some (DigestBytes sha c, int (length c)))"

definition HasBlob :: "(string \<Rightarrow> string) \<Rightarrow> fsEnv \<Rightarrow> string \<Rightarrow> string \<Rightarrow> int \<Rightarrow> ociFiles \<Rightarrow> bool" where
  "HasBlob sha env root digest sz fs =
     (case checkedBlobPath sha root digest of
        Inl e \<Rightarrow> False
      | Inr path \<Rightarrow>
          (case digestFile sha env path fs of
             None \<Rightarrow> False
           | Some (got, gotSize) \<Rightarrow> got = digest \<and> (sz < 0 \<or> gotSize = sz)))"

text \<open>The content stands for the open file.\<close>

definition ReadBlob :: "(string \<Rightarrow> string) \<Rightarrow> fsEnv \<Rightarrow> string \<Rightarrow> string \<Rightarrow> ociFiles \<Rightarrow> ociError + string" where
  "ReadBlob sha env root digest fs =
     andThen (checkedBlobPath sha root digest) (\<lambda>path.
       if \<not> HasBlob sha env root digest (-1) fs then Inl (OciMissingOrCorrupt digest)
       else (case readFile env path fs of Inl e \<Rightarrow> Inl OciFS | Inr c \<Rightarrow> Inr c))"

text \<open>
  What a reader delivers: bytes, then the end or an error. The temporary file, its permissions,
  its synchronisation and the final rename are one outcome of the environment on the path.
\<close>

record ociSource =
  srcBytes :: string
  srcFails :: bool

definition commitBlob :: "fsEnv \<Rightarrow> string \<Rightarrow> string \<Rightarrow> ociFiles \<Rightarrow> ociFiles \<times> (ociError + unit)" where
  "commitBlob env path content fs =
     (case writeAtomic env path content fs of (fs1, Inl e) \<Rightarrow> (fs1, Inl OciFS) | (fs1, Inr _) \<Rightarrow> (fs1, Inr ()))"

definition copyBlob :: "int \<Rightarrow> ociSource \<Rightarrow> ociError + string" where
  "copyBlob sz src =
     (if int (length (srcBytes src)) < sz then Inl OciWriteBlob
      else if sz < int (length (srcBytes src)) then Inl OciSizeExceeded
      else if srcFails src then Inl OciFinishRead
      else Inr (srcBytes src))"

definition StoreBlob ::
  "(string \<Rightarrow> string) \<Rightarrow> fsEnv \<Rightarrow> string \<Rightarrow> string \<Rightarrow> int \<Rightarrow> ociSource \<Rightarrow> ociFiles \<Rightarrow> ociFiles \<times> (ociError + unit)" where
  "StoreBlob sha env root digest sz src fs =
     (if sz < 0 then (fs, Inl OciNegativeSize)
      else case checkedBlobPath sha root digest of
        Inl e \<Rightarrow> (fs, Inl e)
      | Inr path \<Rightarrow>
          (case mkdirAll env (pathDir path) fs of
             (fs1, Inl e) \<Rightarrow> (fs1, Inl OciFS)
           | (fs1, Inr _) \<Rightarrow>
               (case copyBlob sz src of
                  Inl e \<Rightarrow> (fs1, Inl e)
                | Inr content \<Rightarrow>
                    if DigestBytes sha content \<noteq> digest
                    then (fs1, Inl (OciDigestMismatch (DigestBytes sha content) digest))
                    else commitBlob env path content fs1)))"

definition StoreManifest ::
  "(string \<Rightarrow> string) \<Rightarrow> fsEnv \<Rightarrow> string \<Rightarrow> string \<Rightarrow> string \<Rightarrow> ociFiles \<Rightarrow> ociFiles \<times> (ociError + unit)" where
  "StoreManifest sha env root digest raw fs =
     (case checkedManifestPath sha root digest of
        Inl e \<Rightarrow> (fs, Inl e)
      | Inr path \<Rightarrow>
          if DigestBytes sha raw \<noteq> digest then (fs, Inl (OciDigestMismatch (DigestBytes sha raw) digest))
          else commitBlob env path raw fs)"

section \<open>Image references\<close>

definition refPath :: "(string \<Rightarrow> string) \<Rightarrow> string \<Rightarrow> reference \<Rightarrow> string" where
  "refPath sha root ref = pathJoin [root, ''refs'', safeRefName sha (Normalized ref) @ ''.json'']"

text \<open>\<open>enc\<close> and \<open>dec\<close> are the JSON of an image, \<open>decEnv\<close> the environment of an image configuration.\<close>

definition StoreRef ::
  "(string \<Rightarrow> string) \<Rightarrow> (ociImage \<Rightarrow> string) \<Rightarrow> fsEnv \<Rightarrow> string \<Rightarrow> reference \<Rightarrow> ociImage \<Rightarrow> ociFiles \<Rightarrow>
   ociFiles \<times> (ociError + unit)" where
  "StoreRef sha enc env root ref img = commitBlob env (refPath sha root ref) (enc img @ [CHR 0x0A])"

definition ImageConfigEnv ::
  "(string \<Rightarrow> string) \<Rightarrow> (string \<Rightarrow> string list option) \<Rightarrow> fsEnv \<Rightarrow> string \<Rightarrow> string \<Rightarrow> ociFiles \<Rightarrow> ociError + string list" where
  "ImageConfigEnv sha decEnv env root digest fs =
     (if digest = [] then Inr []
      else andThen (ReadBlob sha env root digest fs) (\<lambda>c.
        (case decEnv c of None \<Rightarrow> Inl OciParse | Some vars \<Rightarrow> Inr vars)))"

definition LoadRef ::
  "(string \<Rightarrow> string) \<Rightarrow> (string \<Rightarrow> ociImage option) \<Rightarrow> (string \<Rightarrow> string list option) \<Rightarrow> fsEnv \<Rightarrow> string \<Rightarrow>
   reference \<Rightarrow> ociFiles \<Rightarrow> ociError + ociImage" where
  "LoadRef sha dec decEnv env root ref fs =
     (case readFile env (refPath sha root ref) fs of
        Inl FsNotExist \<Rightarrow> Inl OciNotExist
      | Inl FsError \<Rightarrow> Inl OciFS
      | Inr c \<Rightarrow>
          (case dec c of
             None \<Rightarrow> Inl OciParse
           | Some img \<Rightarrow>
               if oiEnv img = [] \<and> oiConfigDigest img \<noteq> []
               then andThen (ImageConfigEnv sha decEnv env root (oiConfigDigest img) fs)
                 (\<lambda>vars. Inr (img\<lparr>oiEnv := vars\<rparr>))
               else Inr img))"

definition ImageComplete :: "(string \<Rightarrow> string) \<Rightarrow> fsEnv \<Rightarrow> string \<Rightarrow> ociImage \<Rightarrow> ociFiles \<Rightarrow> bool" where
  "ImageComplete sha env root img fs =
     (case checkedManifestPath sha root (oiManifestDigest img) of
        Inl e \<Rightarrow> False
      | Inr path \<Rightarrow>
          (case readFile env path fs of
             Inl e \<Rightarrow> False
           | Inr c \<Rightarrow> DigestBytes sha c = oiManifestDigest img
               \<and> (oiConfigDigest img = [] \<or> HasBlob sha env root (oiConfigDigest img) (-1) fs)
               \<and> list_all (\<lambda>l. HasBlob sha env root (odDigest l) (odSize l) fs) (oiLayers img)))"


section \<open>Facts\<close>

text \<open>A digest whose algorithm is a proper path element: \<open>.\<close> and \<open>..\<close> match the pattern too.\<close>

definition properDigest :: "string \<Rightarrow> bool" where
  "properDigest d \<longleftrightarrow> digestPattern d \<and> fst (cut (CHR '':'') d) \<noteq> ''.'' \<and> fst (cut (CHR '':'') d) \<noteq> ''..''"

lemma algoByte_no: "algoByte c \<Longrightarrow> c \<noteq> slash \<and> c \<noteq> CHR '':''"
  by (auto simp: algoByte_def Let_def)

lemma hexByte_no: "hexByte c \<Longrightarrow> c \<noteq> slash \<and> c \<noteq> CHR ''.''"
  by (auto simp: hexByte_def Let_def)

lemma hex_normal:
  assumes "list_all hexByte h" "h \<noteq> []"
  shows "normalSeg h"
proof -
  have "slash \<notin> set h" "CHR ''.'' \<notin> set h" using assms(1) hexByte_no by (auto simp: list_all_iff)
  moreover from this(2) have "h \<noteq> ''.''" "h \<noteq> ''..''" by auto
  ultimately show ?thesis using assms(2) by (simp add: normalSeg_def)
qed

lemma properDigest_parts:
  assumes "properDigest d"
  obtains a h where "d = a @ CHR '':'' # h" "digestParts sha d = (a, h)" "normalSeg a" "normalSeg h"
    "list_all hexByte h" "h \<noteq> []" "CHR '':'' \<notin> set a"
proof -
  obtain a h ok where c: "cut (CHR '':'') d = (a, h, ok)" by (metis surj_pair)
  then have f: "ok" "a \<noteq> []" "list_all algoByte a" "h \<noteq> []" "list_all hexByte h" "a \<noteq> ''.''" "a \<noteq> ''..''"
    using assms by (auto simp: properDigest_def digestPattern_def)
  have d: "d = a @ CHR '':'' # h" "CHR '':'' \<notin> set a" using cut_found [of "CHR '':''" d a h] c f(1) by auto
  have "slash \<notin> set a" using f(3) algoByte_no by (auto simp: list_all_iff)
  then have "normalSeg a" using f by (simp add: normalSeg_def)
  moreover have "digestParts sha d = (a, h)"
    using assms c f(1) by (simp add: digestParts_def properDigest_def)
  ultimately show thesis using that d hex_normal [OF f(5,4)] f by blast
qed

lemma normalSeg_json: "normalSeg h \<Longrightarrow> normalSeg (h @ ''.json'')"
  by (auto simp: normalSeg_def)

lemma normalSeg_take: "list_all hexByte h \<Longrightarrow> h \<noteq> [] \<Longrightarrow> normalSeg (take digestShardLen h)"
  by (rule hex_normal) (auto simp: list_all_iff digestShardLen_def dest: in_set_takeD)

lemma isAbs_joined: "isAbs root \<Longrightarrow> isAbs (pathJoin (root # ps))"
proof -
  assume a: "isAbs root"
  then have ne: "root \<noteq> []" by (auto simp: isAbs_def)
  have "isAbs (joinOn slash (root # ps))"
    using a by (cases ps) (auto simp: isAbs_def hasPrefix_mono)
  then show ?thesis using ne by (simp add: pathJoin_def)
qed

lemma BlobsDir_segs: "isAbs root \<Longrightarrow> pathSegs (BlobsDir root) = pathSegs root @ [''blobs''] \<and> isAbs (BlobsDir root)"
  by (simp add: BlobsDir_def pathSegs_join_names isAbs_joined normalSeg_def)

lemma BlobPath_segs:
  assumes "isAbs root" "properDigest d" "digestParts sha d = (a, h)"
  shows "pathSegs (BlobPath sha root d) =
    pathSegs root @ ''blobs'' # a # (if digestShardLen \<le> length h then [take digestShardLen h, h] else [h])"
proof -
  obtain a' h' where p: "digestParts sha d = (a', h')" "normalSeg a'" "normalSeg h'" "list_all hexByte h'" "h' \<noteq> []"
    using properDigest_parts [OF assms(2), of sha] by metis
  then have "a' = a" "h' = h" using assms(3) by simp_all
  then show ?thesis
    using p BlobsDir_segs [OF assms(1)] normalSeg_take [OF p(4,5)]
    by (simp add: BlobPath_def pathSegs_join_names)
qed

lemma normalSeg_manifests: "normalSeg ''manifests''"
  by (simp add: normalSeg_def)

lemma ManifestPath_segs:
  assumes "isAbs root" "properDigest d" "digestParts sha d = (a, h)"
  shows "pathSegs (ManifestPath sha root d) = pathSegs root @ [''manifests'', a, h @ ''.json'']"
proof -
  obtain a' h' where p: "digestParts sha d = (a', h')" "normalSeg a'" "normalSeg h'"
    using properDigest_parts [OF assms(2), of sha] by metis
  then have "a' = a" "h' = h" using assms(3) by simp_all
  then show ?thesis
    using p assms(1) normalSeg_json [OF p(3)] normalSeg_manifests
    by (simp add: ManifestPath_def pathSegs_join_names)
qed

lemma BlobPath_inj:
  assumes "isAbs root" "properDigest d" "properDigest e" "pathSegs (BlobPath sha root d) = pathSegs (BlobPath sha root e)"
  shows "d = e"
proof -
  obtain a h where d: "d = a @ CHR '':'' # h" "digestParts sha d = (a, h)" by (rule properDigest_parts [OF assms(2), of sha])
  obtain b k where e: "e = b @ CHR '':'' # k" "digestParts sha e = (b, k)" by (rule properDigest_parts [OF assms(3), of sha])
  show ?thesis
    using assms(4) BlobPath_segs [OF assms(1,2) d(2)] BlobPath_segs [OF assms(1,3) e(2)] d(1) e(1)
    by (auto split: if_splits)
qed

text \<open>The digests SHA-256 gives are proper.\<close>

lemma sha_proper: "list_all hexByte (sha c) \<Longrightarrow> sha c \<noteq> [] \<Longrightarrow> properDigest (DigestBytes sha c)"
proof -
  assume h: "list_all hexByte (sha c)" "sha c \<noteq> []"
  have "cut (CHR '':'') (''sha256'' @ CHR '':'' # sha c) = (''sha256'', sha c, True)" by (rule cut_append) simp
  then have "cut (CHR '':'') (DigestBytes sha c) = (''sha256'', sha c, True)" by (simp add: DigestBytes_def)
  then show ?thesis using h by (simp add: properDigest_def digestPattern_def algoByte_def)
qed

section \<open>What the store holds\<close>

text \<open>
  Every file under the path of a proper digest has that digest. (Nothing is said of the paths
  of \<open>.:ab\<close> and \<open>..:ab\<close>, which the pattern admits and which lie elsewhere.)
\<close>

definition soundStore :: "(string \<Rightarrow> string) \<Rightarrow> string \<Rightarrow> ociFiles \<Rightarrow> bool" where
  "soundStore sha root fs \<longleftrightarrow> (\<forall>d c. properDigest d \<longrightarrow>
     (map_of fs (pathSegs (BlobPath sha root d)) = Some (FileNode c) \<or>
      map_of fs (pathSegs (ManifestPath sha root d)) = Some (FileNode c)) \<longrightarrow> DigestBytes sha c = d)"

text \<open>A write that may put a content under one path and otherwise adds directories only.\<close>

definition addsFile :: "string list \<Rightarrow> string \<Rightarrow> ociFiles \<Rightarrow> ociFiles \<Rightarrow> bool" where
  "addsFile p content fs fs' \<longleftrightarrow> (\<forall>q c. map_of fs' q = Some (FileNode c) \<longrightarrow>
     map_of fs q = Some (FileNode c) \<or> q = p \<and> c = content)"

definition noNewFile :: "ociFiles \<Rightarrow> ociFiles \<Rightarrow> bool" where
  "noNewFile fs fs' \<longleftrightarrow> (\<forall>q c. map_of fs' q = Some (FileNode c) \<longrightarrow> map_of fs q = Some (FileNode c))"

lemma noNewFile_adds: "noNewFile fs1 fs2 \<Longrightarrow> addsFile p c fs2 fs3 \<Longrightarrow> addsFile p c fs1 fs3"
  unfolding addsFile_def noNewFile_def by blast

lemma mkdirAll_noNew: "mkdirAll env path fs = (fs', r) \<Longrightarrow> noNewFile fs fs'"
proof -
  assume m: "mkdirAll env path fs = (fs', r)"
  show ?thesis unfolding noNewFile_def
  proof (intro allI impI)
    fix q d assume "map_of fs' q = Some (FileNode d)"
    then show "map_of fs q = Some (FileNode d)" using mkdirAll_get(1) [OF m, of q] by auto
  qed
qed

lemma commitBlob_adds: "commitBlob env path content fs = (fs', r) \<Longrightarrow> addsFile (pathSegs path) content fs fs'"
proof -
  assume r: "commitBlob env path content fs = (fs', r)"
  obtain r1 where w: "writeAtomic env path content fs = (fs', r1)"
    using r by (auto simp: commitBlob_def split: prod.splits sum.splits)
  show ?thesis unfolding addsFile_def
  proof (intro allI impI)
    fix q c assume "map_of fs' q = Some (FileNode c)"
    then show "map_of fs q = Some (FileNode c) \<or> q = pathSegs path \<and> c = content"
      using writeAtomic_get(1) [OF w, of q] writeAtomic_get(3) [OF w] by (cases "q = pathSegs path") auto
  qed
qed

lemma commitBlob_ok: "commitBlob env path content fs = (fs', Inr u) \<Longrightarrow> map_of fs' (pathSegs path) = Some (FileNode content)"
  by (auto simp: commitBlob_def split: prod.splits sum.splits dest!: writeAtomic_get(2) [OF _ refl])

lemma StoreBlob_adds:
  assumes "StoreBlob sha env root digest sz src fs = (fs', r)"
  shows "noNewFile fs fs' \<and> r \<noteq> Inr ()
    \<or> digestPattern digest \<and> DigestBytes sha (srcBytes src) = digest
      \<and> addsFile (pathSegs (BlobPath sha root digest)) (srcBytes src) fs fs'
      \<and> (r = Inr () \<longrightarrow> int (length (srcBytes src)) = sz
          \<and> map_of fs' (pathSegs (BlobPath sha root digest)) = Some (FileNode (srcBytes src)))"
proof (cases "sz < 0 \<or> \<not> digestPattern digest")
  case True
  then have "fs' = fs \<and> r \<noteq> Inr ()"
    using assms by (auto simp: StoreBlob_def checkedBlobPath_def validateDigest_def andThen_def split: if_splits)
  then show ?thesis by (simp add: noNewFile_def)
next
  case False
  then have path: "checkedBlobPath sha root digest = Inr (BlobPath sha root digest)"
    by (simp add: checkedBlobPath_def validateDigest_def andThen_def)
  obtain fs1 r1 where m: "mkdirAll env (pathDir (BlobPath sha root digest)) fs = (fs1, r1)" by fastforce
  note none = mkdirAll_noNew [OF m]
  show ?thesis
  proof (cases "isOk r1 \<and> copyBlob sz src = Inr (srcBytes src) \<and> DigestBytes sha (srcBytes src) = digest")
    case False
    then have "fs' = fs1 \<and> r \<noteq> Inr ()"
      using assms \<open>\<not> (sz < 0 \<or> \<not> digestPattern digest)\<close> path m
      by (cases r1) (auto simp: StoreBlob_def copyBlob_def split: if_splits)
    then show ?thesis using none by simp
  next
    case c: True
    then have commit: "commitBlob env (BlobPath sha root digest) (srcBytes src) fs1 = (fs', r)"
      using assms False path m by (cases r1) (auto simp: StoreBlob_def)
    have sz: "int (length (srcBytes src)) = sz" using c by (auto simp: copyBlob_def split: if_splits)
    show ?thesis using False c sz commitBlob_ok [of env _ _ fs1 fs'] commit noNewFile_adds [OF none commitBlob_adds [OF commit]] by auto
  qed
qed

lemma soundStore_adds:
  assumes "soundStore sha root fs" "addsFile p content fs fs'"
    and "\<And>d. properDigest d \<Longrightarrow> p = pathSegs (BlobPath sha root d) \<or> p = pathSegs (ManifestPath sha root d) \<Longrightarrow>
      DigestBytes sha content = d"
  shows "soundStore sha root fs'"
  using assms unfolding soundStore_def addsFile_def by metis

text \<open>Blobs and manifests lie apart.\<close>

lemma blob_not_manifest:
  "isAbs root \<Longrightarrow> properDigest d \<Longrightarrow> properDigest e \<Longrightarrow> pathSegs (BlobPath sha root d) \<noteq> pathSegs (ManifestPath sha root e)"
proof -
  assume a: "isAbs root" "properDigest d" "properDigest e"
  obtain a' h where d: "digestParts sha d = (a', h)" by fastforce
  obtain b k where e: "digestParts sha e = (b, k)" by fastforce
  show ?thesis using BlobPath_segs [OF a(1,2) d] ManifestPath_segs [OF a(1,3) e] by auto
qed

lemma ManifestPath_inj:
  assumes "isAbs root" "properDigest d" "properDigest e" "pathSegs (ManifestPath sha root d) = pathSegs (ManifestPath sha root e)"
  shows "d = e"
proof -
  obtain a h where d: "d = a @ CHR '':'' # h" "digestParts sha d = (a, h)" by (rule properDigest_parts [OF assms(2), of sha])
  obtain b k where e: "e = b @ CHR '':'' # k" "digestParts sha e = (b, k)" by (rule properDigest_parts [OF assms(3), of sha])
  show ?thesis
    using assms(4) ManifestPath_segs [OF assms(1,2) d(2)] ManifestPath_segs [OF assms(1,3) e(2)] d(1) e(1) by simp
qed

text \<open>
  C31. The image cache is content addressed: no call to store a blob or a manifest, whatever
  the digest, size, reader and file system errors, ever leaves bytes under the path of a proper
  digest that do not have that digest; and a blob stored without an error is found afterwards
  under its digest and size.
\<close>

theorem image_cache_is_content_addressed:
  assumes "soundStore sha root fs" "isAbs root" "\<forall>c. list_all hexByte (sha c) \<and> sha c \<noteq> []"
    and "StoreBlob sha env root digest sz src fs = (fs1, r1)"
    and "StoreManifest sha env root mdigest raw fs1 = (fs2, r2)"
  shows "soundStore sha root fs1 \<and> soundStore sha root fs2
    \<and> (isOk r1 \<and> \<not> noRead env (pathSegs (BlobPath sha root digest)) \<longrightarrow> HasBlob sha env root digest sz fs1)"
proof -
  have proper: "properDigest (DigestBytes sha c)" for c using sha_proper assms(3) by blast
  have s1: "soundStore sha root fs1"
  proof -
    from StoreBlob_adds [OF assms(4)] show ?thesis
    proof (elim disjE conjE)
      assume "noNewFile fs fs1"
      then show ?thesis using assms(1) unfolding soundStore_def noNewFile_def by blast
    next
      assume d: "DigestBytes sha (srcBytes src) = digest"
        and a: "addsFile (pathSegs (BlobPath sha root digest)) (srcBytes src) fs fs1"
      show ?thesis
      proof (rule soundStore_adds [OF assms(1) a])
        fix e assume e: "properDigest e"
          "pathSegs (BlobPath sha root digest) = pathSegs (BlobPath sha root e) \<or>
           pathSegs (BlobPath sha root digest) = pathSegs (ManifestPath sha root e)"
        have p: "properDigest digest" using proper d by metis
        then have "digest = e" using e BlobPath_inj [OF assms(2) p e(1)] blob_not_manifest [OF assms(2) p e(1)] by blast
        then show "DigestBytes sha (srcBytes src) = e" using d by simp
      qed
    qed
  qed
  have s2: "soundStore sha root fs2"
  proof (cases "fs2 = fs1")
    case False
    then have d: "DigestBytes sha raw = mdigest"
      and a: "addsFile (pathSegs (ManifestPath sha root mdigest)) raw fs1 fs2"
      using assms(5) commitBlob_adds [of env "ManifestPath sha root mdigest" raw fs1 fs2 r2]
      by (auto simp: StoreManifest_def checkedManifestPath_def validateDigest_def andThen_def split: if_splits)
    show ?thesis
    proof (rule soundStore_adds [OF s1 a])
      fix e assume e: "properDigest e"
        "pathSegs (ManifestPath sha root mdigest) = pathSegs (BlobPath sha root e) \<or>
         pathSegs (ManifestPath sha root mdigest) = pathSegs (ManifestPath sha root e)"
      have p: "properDigest mdigest" using proper d by metis
      then have "mdigest = e" using e ManifestPath_inj [OF assms(2) p e(1)] blob_not_manifest [OF assms(2) e(1) p] by metis
      then show "DigestBytes sha raw = e" using d by simp
    qed
  qed (use s1 in simp)
  have "HasBlob sha env root digest sz fs1" if "isOk r1" "\<not> noRead env (pathSegs (BlobPath sha root digest))"
    using StoreBlob_adds [OF assms(4)] that
    by (cases r1) (auto simp: HasBlob_def checkedBlobPath_def validateDigest_def andThen_def digestFile_def readFile_def)
  then show ?thesis using s1 s2 by simp
qed

theorem image_cache_is_content_addressed_witness:
  "let sha = (\<lambda>s. if s = ''hi'' then ''ab01'' else ''ff''); env = \<lparr>stuckNode = (\<lambda>_. False), noMkdir = (\<lambda>_. False),
         noRead = (\<lambda>_. False), noStat = (\<lambda>_. False), atomicWrite = (\<lambda>_. WriteOk)\<rparr>;
       (fs1, r1) = StoreBlob sha env ''/c'' ''sha256:ab01'' 2 \<lparr>srcBytes = ''hi'', srcFails = False\<rparr> [] in
   soundStore sha ''/c'' fs1 \<and> HasBlob sha env ''/c'' ''sha256:ab01'' 2 fs1"
proof -
  define sha :: "string \<Rightarrow> string" where "sha = (\<lambda>s. if s = ''hi'' then ''ab01'' else ''ff'')"
  define env where "env = \<lparr>stuckNode = (\<lambda>_. False), noMkdir = (\<lambda>_. False),
         noRead = (\<lambda>_. False), noStat = (\<lambda>_. False), atomicWrite = (\<lambda>_. WriteOk)\<rparr>"
  let ?run = "StoreBlob sha env ''/c'' ''sha256:ab01'' 2 \<lparr>srcBytes = ''hi'', srcFails = False\<rparr> []"
  let ?man = "StoreManifest sha env ''/c'' ''x'' [] (fst ?run)"
  have run: "?run = (fst ?run, snd ?run)" "?man = (fst ?man, snd ?man)" by simp_all
  have s: "soundStore sha ''/c'' []" by (simp add: soundStore_def)
  have a: "isAbs ''/c''" by (simp add: isAbs_def)
  have h: "\<forall>c. list_all hexByte (sha c) \<and> sha c \<noteq> []" by (simp add: sha_def hexByte_def)
  have ok: "isOk (snd ?run)" unfolding sha_def env_def by code_simp
  have "\<not> noRead env p" for p by (simp add: env_def)
  then show ?thesis
    using image_cache_is_content_addressed [OF s a h run(1) run(2)] ok
    unfolding sha_def [symmetric] env_def [symmetric] by (simp add: Let_def split_def)
qed
end
