(* ===== verification/Collect.thy ===== *)
theory Collect
  imports Contexts OciStore
begin

text \<open>
  What the host collects (host/artifacts.go, the roots in host/server.go, the deletion of
  contexts in host/context\_store.go): the data and runtime roots of all contexts, the blobs
  and image digests their manifests and artifact states refer to, and the removal of everything
  else from the blob stores, the image caches and the shared root file systems; the artifacts
  of one context, and the temporary files of a start.
\<close>

section \<open>Walking a directory\<close>

record contextArtifact =
  caKind :: string
  caName :: string
  caPath :: string
  caRef :: string
  caSize :: int
  caDetail :: string

definition noArtifact :: contextArtifact where
  "noArtifact = \<lparr>caKind = [], caName = [], caPath = [], caRef = [], caSize = 0, caDetail = []\<rparr>"

definition pathOf :: "string list \<Rightarrow> string" where
  "pathOf q = slash # joinOn slash q"

text \<open>
  \<open>filepath.WalkDir\<close> visits the nodes below a root in the lexical order of their elements, each
  directory before what is in it; a directory that cannot be read ends the walk with an error,
  a root that does not exist is an empty walk to every caller here.
\<close>

definition walkNodes :: "string \<Rightarrow> hostFiles \<Rightarrow> (string list \<times> hostContent fnode) list" where
  "walkNodes root fs = sort_key fst (filter (\<lambda>(q, n). below (pathSegs root) q) fs)"

type_synonym pruned = "contextArtifact list \<times> int"

text \<open>
  The walks that remove files: \<open>visit\<close> is the decision on a file (an error, to keep it, or the
  artifact to report and its sz). A file that is missing when it is removed ends the walk
  without an error.
\<close>

fun visitFiles ::
  "fsEnv \<Rightarrow> (string list \<Rightarrow> hostContent \<Rightarrow> contextError + pruned option) \<Rightarrow>
   (string list \<times> hostContent fnode) list \<Rightarrow> hostFiles \<Rightarrow> hostFiles \<times> (contextError + pruned)" where
  "visitFiles env visit [] fs = (fs, Inr ([], 0))"
| "visitFiles env visit ((q, DirNode) # ns) fs =
     (if noRead env q then (fs, Inl ContextFS) else visitFiles env visit ns fs)"
| "visitFiles env visit ((q, FileNode c) # ns) fs =
     (case visit q c of
        Inl e \<Rightarrow> (fs, Inl e)
      | Inr None \<Rightarrow> visitFiles env visit ns fs
      | Inr (Some (as, n)) \<Rightarrow>
          (case removeOne env (pathOf q) fs of
             (fs1, Inl FsError) \<Rightarrow> (fs1, Inl ContextFS)
           | (fs1, Inl FsNotExist) \<Rightarrow> (fs1, Inr (as, n))
           | (fs1, Inr _) \<Rightarrow>
               (case visitFiles env visit ns fs1 of
                  (fs2, r) \<Rightarrow> (fs2, andThen r (\<lambda>(bs, m). Inr (as @ bs, n + m))))))"

definition walkPrune ::
  "fsEnv \<Rightarrow> (string list \<Rightarrow> hostContent \<Rightarrow> contextError + pruned option) \<Rightarrow> string \<Rightarrow> hostFiles \<Rightarrow>
   hostFiles \<times> (contextError + pruned)" where
  "walkPrune env visit root fs =
     (if noStat env (pathSegs root) then (fs, Inl ContextFS)
      else visitFiles env visit (walkNodes root fs) fs)"

text \<open>\<open>dirSize\<close>; every caller that ignores its error uses what was added up before it.\<close>

fun sumSizes :: "fsEnv \<Rightarrow> (hostContent \<Rightarrow> int) \<Rightarrow> (string list \<times> hostContent fnode) list \<Rightarrow> int \<times> bool" where
  "sumSizes env sz [] = (0, True)"
| "sumSizes env sz ((q, DirNode) # ns) = (if noRead env q then (0, False) else sumSizes env sz ns)"
| "sumSizes env sz ((q, FileNode c) # ns) = (case sumSizes env sz ns of (t, ok) \<Rightarrow> (sz c + t, ok))"

definition dirSize :: "fsEnv \<Rightarrow> (hostContent \<Rightarrow> int) \<Rightarrow> string \<Rightarrow> hostFiles \<Rightarrow> int \<times> bool" where
  "dirSize env sz root fs =
     (if noStat env (pathSegs root) \<or> walkNodes root fs = [] then (0, False)
      else sumSizes env sz (walkNodes root fs))"

text \<open>Several removals in a row, up to the first error, which loses what they report.\<close>

fun pruneAll :: "(hostFiles \<Rightarrow> hostFiles \<times> (contextError + pruned)) list \<Rightarrow> hostFiles \<Rightarrow>
    hostFiles \<times> (contextError + pruned)" where
  "pruneAll [] fs = (fs, Inr ([], 0))"
| "pruneAll (s # ss) fs =
     (case s fs of
        (fs1, Inl e) \<Rightarrow> (fs1, Inl e)
      | (fs1, Inr (as, n)) \<Rightarrow>
          (case pruneAll ss fs1 of
             (fs2, r) \<Rightarrow> (fs2, andThen r (\<lambda>(bs, m). Inr (as @ bs, n + m)))))"

section \<open>The roots of all contexts\<close>

record contextStateRootLists =
  csrData :: "string list"
  csrRuntime :: "string list"

fun rootsLoop :: "fsEnv \<Rightarrow> string \<Rightarrow> hostFiles \<Rightarrow> contextSummary list \<Rightarrow> contextError + (string \<times> string) list" where
  "rootsLoop env sd fs [] = Inr []"
| "rootsLoop env sd fs (c # cs) =
     andThen (loadContextMetadata env (contextMetaDir sd (csID c)) fs) (\<lambda>meta.
       andThen (rootsLoop env sd fs cs) (\<lambda>rs.
         Inr ((pathClean (contextDataRoot meta sd), pathClean (contextRuntimeRoot meta sd)) # rs)))"

definition stateRootsForContexts ::
  "fsEnv \<Rightarrow> string \<Rightarrow> hostFiles \<Rightarrow> contextSummary list \<Rightarrow> contextError + contextStateRootLists" where
  "stateRootsForContexts env sd fs contexts =
     andThen (rootsLoop env sd fs contexts) (\<lambda>rs. Inr
       \<lparr>csrData = uniqueCleanPaths (pathClean sd # map fst rs),
        csrRuntime = uniqueCleanPaths (pathClean sd # map snd rs)\<rparr>)"

definition contextStateRoots :: "fsEnv \<Rightarrow> string \<Rightarrow> contextLocks \<Rightarrow> hostFiles \<Rightarrow> contextError + contextStateRootLists" where
  "contextStateRoots env sd L fs =
     andThen (listContexts env sd L fs) (stateRootsForContexts env sd fs)"

definition stateRootsOrDefault :: "fsEnv \<Rightarrow> string \<Rightarrow> contextLocks \<Rightarrow> hostFiles \<Rightarrow> string list" where
  "stateRootsOrDefault env sd L fs =
     (case contextStateRoots env sd L fs of
        Inl e \<Rightarrow> [sd]
      | Inr roots \<Rightarrow>
          (let all = uniqueCleanPaths (csrData roots @ csrRuntime roots) in if all = [] then [sd] else all))"

text \<open>A loop over the directories of the contexts with their metadata.\<close>

fun overContexts ::
  "fsEnv \<Rightarrow> string \<Rightarrow> hostFiles \<Rightarrow> (string \<Rightarrow> contextMetadata \<Rightarrow> 'r \<Rightarrow> contextError + 'r) \<Rightarrow>
   (string \<times> bool) list \<Rightarrow> 'r \<Rightarrow> contextError + 'r" where
  "overContexts env sd fs f [] r = Inr r"
| "overContexts env sd fs f ((name, isDir) # es) r =
     (if \<not> isDir then overContexts env sd fs f es r
      else andThen (loadContextMetadata env (pathJoin [contextsRoot sd, name]) fs) (\<lambda>meta.
        andThen (f name meta r) (overContexts env sd fs f es)))"

definition forContexts ::
  "fsEnv \<Rightarrow> string \<Rightarrow> hostFiles \<Rightarrow> (string \<Rightarrow> contextMetadata \<Rightarrow> 'r \<Rightarrow> contextError + 'r) \<Rightarrow> 'r \<Rightarrow>
   contextError + 'r" where
  "forContexts env sd fs f r =
     (case readDir env (contextsRoot sd) fs of
        Inl FsNotExist \<Rightarrow> Inr r
      | Inl FsError \<Rightarrow> Inl ContextFS
      | Inr es \<Rightarrow> overContexts env sd fs f es r)"

definition contextRuntimeDirs :: "fsEnv \<Rightarrow> string \<Rightarrow> hostFiles \<Rightarrow> contextError + string list" where
  "contextRuntimeDirs env sd fs =
     andThen (forContexts env sd fs
         (\<lambda>name meta rs. Inr (rs @ [contextDataDir (contextRuntimeRoot meta sd) name])) [])
       (\<lambda>rs. Inr (uniqueCleanPaths rs))"

section \<open>Blobs\<close>

type_synonym rootRefs = "string \<rightharpoonup> string set"

definition refsOf :: "rootRefs \<Rightarrow> string \<Rightarrow> string set" where
  "refsOf refs root = (case refs root of None \<Rightarrow> {} | Some s \<Rightarrow> s)"

definition addRefs :: "string \<Rightarrow> string list \<Rightarrow> rootRefs \<Rightarrow> rootRefs" where
  "addRefs root hs refs = refs(root \<mapsto> refsOf refs root \<union> set hs)"

definition manifestHashes :: "entry list \<Rightarrow> string list" where
  "manifestHashes es = map Hash (filter (\<lambda>e. Kind e = KindFile \<and> Hash e \<noteq> []) es)"

definition referencedBlobHashesByRoot :: "fsEnv \<Rightarrow> string \<Rightarrow> hostFiles \<Rightarrow> contextError + rootRefs" where
  "referencedBlobHashesByRoot env sd fs =
     forContexts env sd fs (\<lambda>name meta refs.
       andThen (loadTrackedManifest env sd name fs) (\<lambda>es.
         Inr (addRefs (pathClean (contextDataRoot meta sd)) (manifestHashes es) refs))) Map.empty"

text \<open>\<open>sort.Reverse(sort.StringSlice)\<close> over the paths: a directory after those inside it.\<close>

fun readableDirs :: "fsEnv \<Rightarrow> (string list \<times> hostContent fnode) list \<Rightarrow> contextError + string list list" where
  "readableDirs env [] = Inr []"
| "readableDirs env ((q, n) # ns) =
     (if \<not> isDirNode n then readableDirs env ns
      else if noRead env q then Inl ContextFS
      else andThen (readableDirs env ns) (\<lambda>qs. Inr (q # qs)))"

definition blobDirs :: "fsEnv \<Rightarrow> string \<Rightarrow> hostFiles \<Rightarrow> contextError + string list" where
  "blobDirs env root fs =
     (if noStat env (pathSegs root) then Inl ContextFS
      else andThen (readableDirs env (walkNodes root fs)) (\<lambda>qs.
        Inr (rev (sort (map pathOf (filter (\<lambda>q. q \<noteq> pathSegs root) qs))))))"

definition removeEmptyBlobDirs :: "fsEnv \<Rightarrow> string \<Rightarrow> fileStep" where
  "removeEmptyBlobDirs env root fs =
     (case blobDirs env root fs of
        Inl e \<Rightarrow> (fs, Inl e)
      | Inr dirs \<Rightarrow> runSteps (map (removeDirIfEmpty env) dirs) fs)"

definition pruneUnreferencedBlobsInRoot ::
  "fsEnv \<Rightarrow> (hostContent \<Rightarrow> int) \<Rightarrow> string \<Rightarrow> string set \<Rightarrow> hostFiles \<Rightarrow> hostFiles \<times> (contextError + pruned)" where
  "pruneUnreferencedBlobsInRoot env sz root refs fs =
     (case walkPrune env (\<lambda>q c. if last q \<in> refs then Inr None
          else Inr (Some ([noArtifact\<lparr>caKind := ''blob'', caPath := pathOf q, caRef := last q\<rparr>], sz c))) root fs of
        (fs1, Inl e) \<Rightarrow> (fs1, Inl e)
      | (fs1, Inr out) \<Rightarrow>
          (case removeEmptyBlobDirs env root fs1 of
             (fs2, Inl e) \<Rightarrow> (fs2, Inl e)
           | (fs2, Inr _) \<Rightarrow> (fs2, Inr out)))"

definition blobsDir :: "string \<Rightarrow> string" where
  "blobsDir root = pathJoin [root, ''blobs'']"

definition pruneUnreferencedBlobsInRoots ::
  "fsEnv \<Rightarrow> (hostContent \<Rightarrow> int) \<Rightarrow> string \<Rightarrow> string list \<Rightarrow> hostFiles \<Rightarrow> hostFiles \<times> (contextError + pruned)" where
  "pruneUnreferencedBlobsInRoots env sz sd roots fs =
     (case referencedBlobHashesByRoot env sd fs of
        Inl e \<Rightarrow> (fs, Inl e)
      | Inr refs \<Rightarrow>
          pruneAll (map (\<lambda>root. pruneUnreferencedBlobsInRoot env sz (blobsDir root) (refsOf refs root))
            (uniqueCleanPaths roots)) fs)"

definition pruneUnreferencedBlobs ::
  "fsEnv \<Rightarrow> (hostContent \<Rightarrow> int) \<Rightarrow> string \<Rightarrow> contextLocks \<Rightarrow> hostFiles \<Rightarrow> hostFiles \<times> (contextError + pruned)" where
  "pruneUnreferencedBlobs env sz sd L fs =
     (case contextStateRoots env sd L fs of
        Inl e \<Rightarrow> (fs, Inl e)
      | Inr roots \<Rightarrow> pruneUnreferencedBlobsInRoots env sz sd (csrData roots @ csrRuntime roots) fs)"

section \<open>Image caches\<close>

definition artifactStateFile :: string where "artifactStateFile = ''artifacts.json''"
definition runtimeRootFSDirName :: string where "runtimeRootFSDirName = ''rootfs''"
definition runtimeSpecDirName :: string where "runtimeSpecDirName = ''specs''"

text \<open>\<open>Inr None\<close>: the file does not exist (\<open>os.ErrNotExist\<close>, which every caller tells apart).\<close>

definition loadArtifactState :: "fsEnv \<Rightarrow> string \<Rightarrow> hostFiles \<Rightarrow> contextError + artifactState option" where
  "loadArtifactState env path fs =
     (case readFile env path fs of
        Inl FsNotExist \<Rightarrow> Inr None
      | Inl FsError \<Rightarrow> Inl ContextFS
      | Inr c \<Rightarrow> (case c of CArtifacts st \<Rightarrow> Inr (Some st) | _ \<Rightarrow> Inl ParseArtifacts))"

definition artifactStatePath :: "string \<Rightarrow> string" where
  "artifactStatePath runtimeDir = pathJoin [runtimeDir, runtimeDirName, artifactStateFile]"

definition stateRefs :: "artifactState \<Rightarrow> string list" where
  "stateRefs st = concat (map (\<lambda>i. aiDigest i # aiBlobs i) (asImages st))
     @ filter (\<lambda>k. k \<noteq> []) (map apKey (asPrepared st))"

definition referencedOCIDigestsByRoot :: "fsEnv \<Rightarrow> string \<Rightarrow> hostFiles \<Rightarrow> contextError + rootRefs" where
  "referencedOCIDigestsByRoot env sd fs =
     forContexts env sd fs (\<lambda>name meta refs.
       (let root = pathClean (contextRuntimeRoot meta sd) in
        andThen (loadArtifactState env (artifactStatePath (contextDataDir root name)) fs) (\<lambda>st.
          Inr (addRefs root (case st of None \<Rightarrow> [] | Some s \<Rightarrow> stateRefs s) refs)))) Map.empty"

definition ociStore :: "string \<Rightarrow> string" where
  "ociStore runtimeRoot = pathJoin [runtimeRoot, ''cache'', ''oci'']"

definition sharedRootFSRoot :: "string \<Rightarrow> string" where
  "sharedRootFSRoot runtimeRoot = pathJoin [runtimeRoot, ''cache'', runtimeRootFSDirName]"

text \<open>The elements of the path below the root, as \<open>filepath.Rel\<close> gives them.\<close>

definition digestFromCachePath :: "string list \<Rightarrow> string list \<Rightarrow> string" where
  "digestFromCachePath root path =
     (let rel = (if path = root then [''.''] else drop (length root) path) in
      hd rel @ CHR '':'' # trimSuffix (last rel) ''.json'')"

definition readOCIRefManifestDigest :: "hostContent \<Rightarrow> contextError + string" where
  "readOCIRefManifestDigest c = (case c of CImageRef d \<Rightarrow> Inr d | _ \<Rightarrow> Inl ParseImageRef)"

definition cachedArtifact :: "(hostContent \<Rightarrow> int) \<Rightarrow> string list \<Rightarrow> hostContent \<Rightarrow> string \<Rightarrow> pruned" where
  "cachedArtifact sz q c digest =
     ([noArtifact\<lparr>caKind := ''cache'', caPath := pathOf q, caRef := digest\<rparr>], sz c)"

definition pruneOCIDigests ::
  "fsEnv \<Rightarrow> (hostContent \<Rightarrow> int) \<Rightarrow> string set \<Rightarrow> string \<Rightarrow> hostFiles \<Rightarrow> hostFiles \<times> (contextError + pruned)" where
  "pruneOCIDigests env sz refs root =
     walkPrune env (\<lambda>q c.
       (let digest = digestFromCachePath (pathSegs root) q in
        Inr (if digest \<in> refs then None else Some (cachedArtifact sz q c digest)))) root"

definition pruneUnreferencedOCIRefs ::
  "fsEnv \<Rightarrow> (hostContent \<Rightarrow> int) \<Rightarrow> string \<Rightarrow> string set \<Rightarrow> hostFiles \<Rightarrow> hostFiles \<times> (contextError + pruned)" where
  "pruneUnreferencedOCIRefs env sz store refs =
     walkPrune env (\<lambda>q c.
       if noRead env q then Inl ContextFS
       else andThen (readOCIRefManifestDigest c) (\<lambda>digest.
         Inr (if digest \<in> refs then None else Some (cachedArtifact sz q c digest))))
       (pathJoin [store, ''refs''])"

definition pruneUnreferencedOCIStore ::
  "fsEnv \<Rightarrow> (hostContent \<Rightarrow> int) \<Rightarrow> string \<Rightarrow> string set \<Rightarrow> hostFiles \<Rightarrow> hostFiles \<times> (contextError + pruned)" where
  "pruneUnreferencedOCIStore env sz store refs =
     pruneAll [pruneOCIDigests env sz refs (pathJoin [store, ''blobs'']),
               pruneOCIDigests env sz refs (pathJoin [store, ''manifests'']),
               pruneUnreferencedOCIRefs env sz store refs]"

text \<open>
  Directories of a listing that are not live, removed one by one; \<open>what\<close> is the artifact to
  report.
\<close>

fun pruneDirs ::
  "fsEnv \<Rightarrow> (hostContent \<Rightarrow> int) \<Rightarrow> string \<Rightarrow> string \<Rightarrow> string set \<Rightarrow> (string \<times> bool) list \<Rightarrow> hostFiles \<Rightarrow>
   hostFiles \<times> (contextError + pruned)" where
  "pruneDirs env sz kind root live [] fs = (fs, Inr ([], 0))"
| "pruneDirs env sz kind root live ((name, isDir) # es) fs =
     (if \<not> isDir \<or> name \<in> live then pruneDirs env sz kind root live es fs
      else
        (let path = pathJoin [root, name]; n = fst (dirSize env sz path fs) in
         case removeAll env path fs of
           (fs1, Inl e) \<Rightarrow> (fs1, Inl ContextFS)
         | (fs1, Inr _) \<Rightarrow>
             (case pruneDirs env sz kind root live es fs1 of
                (fs2, r) \<Rightarrow> (fs2, andThen r (\<lambda>(as, m). Inr
                  (noArtifact\<lparr>caKind := kind, caName := name, caPath := path, caSize := n\<rparr> # as, n + m))))))"

definition pruneListed ::
  "fsEnv \<Rightarrow> (hostContent \<Rightarrow> int) \<Rightarrow> string \<Rightarrow> string \<Rightarrow> string set \<Rightarrow> hostFiles \<Rightarrow> hostFiles \<times> (contextError + pruned)" where
  "pruneListed env sz kind root live fs =
     (case readDir env root fs of
        Inl FsNotExist \<Rightarrow> (fs, Inr ([], 0))
      | Inl FsError \<Rightarrow> (fs, Inl ContextFS)
      | Inr es \<Rightarrow> pruneDirs env sz kind root live es fs)"

definition pruneUnreferencedSharedRootFS ::
  "fsEnv \<Rightarrow> (hostContent \<Rightarrow> int) \<Rightarrow> string \<Rightarrow> string set \<Rightarrow> hostFiles \<Rightarrow> hostFiles \<times> (contextError + pruned)" where
  "pruneUnreferencedSharedRootFS env sz root refs = pruneListed env sz ''cache-rootfs'' root refs"

definition pruneUnreferencedOCICacheInRoots ::
  "fsEnv \<Rightarrow> (hostContent \<Rightarrow> int) \<Rightarrow> string \<Rightarrow> string list \<Rightarrow> hostFiles \<Rightarrow> hostFiles \<times> (contextError + pruned)" where
  "pruneUnreferencedOCICacheInRoots env sz sd roots fs =
     (case referencedOCIDigestsByRoot env sd fs of
        Inl e \<Rightarrow> (fs, Inl e)
      | Inr refs \<Rightarrow>
          pruneAll (concat (map (\<lambda>root.
            [pruneUnreferencedOCIStore env sz (ociStore root) (refsOf refs root),
             pruneUnreferencedSharedRootFS env sz (sharedRootFSRoot root) (refsOf refs root)])
            (uniqueCleanPaths roots))) fs)"

definition pruneUnreferencedOCICache ::
  "fsEnv \<Rightarrow> (hostContent \<Rightarrow> int) \<Rightarrow> string \<Rightarrow> contextLocks \<Rightarrow> hostFiles \<Rightarrow> hostFiles \<times> (contextError + pruned)" where
  "pruneUnreferencedOCICache env sz sd L fs =
     (case contextStateRoots env sd L fs of
        Inl e \<Rightarrow> (fs, Inl e)
      | Inr roots \<Rightarrow> pruneUnreferencedOCICacheInRoots env sz sd (csrRuntime roots) fs)"


section \<open>The artifacts of a context\<close>

definition artifactImagesForDigest :: "artifactImage list \<Rightarrow> string \<Rightarrow> artifactImage list" where
  "artifactImagesForDigest images digest =
     (let out = filter (\<lambda>i. aiDigest i = digest) images in
      if length out > 1 then [last out] else out)"

definition writeArtifactState :: "fsEnv \<Rightarrow> string \<Rightarrow> artifactState \<Rightarrow> fileStep" where
  "writeArtifactState env path st = fsStep (writeAtomic env path (CArtifacts st))"

definition compactArtifactState :: "fsEnv \<Rightarrow> string \<Rightarrow> fileStep" where
  "compactArtifactState env runtimeDir fs =
     (let path = artifactStatePath runtimeDir in
      case loadArtifactState env path fs of
        Inl e \<Rightarrow> (fs, Inl e)
      | Inr None \<Rightarrow> (fs, Inr ())
      | Inr (Some st) \<Rightarrow>
          if length (asPrepared st) \<le> 1 \<and> length (asImages st) \<le> 1 then (fs, Inr ())
          else if asPrepared st = [] then writeArtifactState env path (st\<lparr>asImages := []\<rparr>) fs
          else
            (let current = last (asPrepared st);
                 kept = artifactImagesForDigest (asImages st) (apImageDigest current);
                 images = (if kept = [] \<and> apImageDigest current \<noteq> []
                   then [\<lparr>aiReference = apImageReference current, aiDigest = apImageDigest current, aiBlobs = []\<rparr>]
                   else kept) in
             writeArtifactState env path (st\<lparr>asPrepared := [current], asImages := images\<rparr>) fs))"

definition pruneRuntimeSpecs :: "fsEnv \<Rightarrow> string \<Rightarrow> hostFiles \<Rightarrow> hostFiles \<times> (contextError + pruned)" where
  "pruneRuntimeSpecs env runtimeDir =
     walkPrune env (\<lambda>q c. Inr (Some ([noArtifact\<lparr>caKind := ''spec'', caPath := pathOf q\<rparr>], 0)))
       (pathJoin [runtimeDir, runtimeDirName, runtimeSpecDirName])"

definition pruneStalePreparedRuntimes ::
  "fsEnv \<Rightarrow> (hostContent \<Rightarrow> int) \<Rightarrow> string \<Rightarrow> hostFiles \<Rightarrow> hostFiles \<times> (contextError + pruned)" where
  "pruneStalePreparedRuntimes env sz runtimeDir fs =
     (case loadArtifactState env (artifactStatePath runtimeDir) fs of
        Inl e \<Rightarrow> (fs, Inl e)
      | Inr None \<Rightarrow> (fs, Inr ([], 0))
      | Inr (Some st) \<Rightarrow>
          pruneListed env sz ''prepared-runtime'' (pathJoin [runtimeDir, runtimeDirName, runtimeRootFSDirName])
            (set (map apKey (asPrepared st))) fs)"

definition pruneContextArtifacts ::
  "fsEnv \<Rightarrow> (hostContent \<Rightarrow> int) \<Rightarrow> string \<Rightarrow> hostFiles \<Rightarrow> hostFiles \<times> (contextError + pruned)" where
  "pruneContextArtifacts env sz runtimeDir fs =
     (case compactArtifactState env runtimeDir fs of
        (fs1, Inl e) \<Rightarrow> (fs1, Inl e)
      | (fs1, Inr _) \<Rightarrow>
          pruneAll [pruneRuntimeSpecs env runtimeDir, pruneStalePreparedRuntimes env sz runtimeDir] fs1)"

definition deleteContextArtifact ::
  "fsEnv \<Rightarrow> string \<Rightarrow> string \<Rightarrow> hostFiles \<Rightarrow> hostFiles \<times> (contextError + contextArtifact list)" where
  "deleteContextArtifact env runtimeDir vol fs =
     (let v = trimSpace vol in
      if v = [] then (fs, Inl VolumeRequired)
      else if slash \<in> set v \<or> backslash \<in> set v \<or> v = ''.'' \<or> v = ''..'' then (fs, Inl (InvalidVolume v))
      else
        (let path = pathJoin [runtimeDir, ''volumes'', v] in
         case runSteps [fsStep (removeAll env path), removeContextSetupCache env runtimeDir] fs of
           (fs1, Inl e) \<Rightarrow> (fs1, Inl e)
         | (fs1, Inr _) \<Rightarrow> (fs1, Inr [noArtifact\<lparr>caKind := ''volume'', caName := v, caPath := path\<rparr>])))"

fun volumeArtifacts ::
  "fsEnv \<Rightarrow> (hostContent \<Rightarrow> int) \<Rightarrow> string \<Rightarrow> hostFiles \<Rightarrow> (string \<times> bool) list \<Rightarrow> contextArtifact list" where
  "volumeArtifacts env sz root fs [] = []"
| "volumeArtifacts env sz root fs ((name, isDir) # es) =
     (let path = pathJoin [root, name] in
      (if isDir then [noArtifact\<lparr>caKind := ''volume'', caName := name, caPath := path,
                        caSize := fst (dirSize env sz path fs)\<rparr>] else [])
      @ volumeArtifacts env sz root fs es)"

text \<open>The size of the cached blobs of an image: \<open>os.Stat\<close> of the blob, or else of the manifest.\<close>

definition statSize :: "fsEnv \<Rightarrow> (hostContent \<Rightarrow> int) \<Rightarrow> string \<Rightarrow> hostFiles \<Rightarrow> int option" where
  "statSize env sz path fs =
     (case statPath env path fs of Inl e \<Rightarrow> None | Inr (FileNode c) \<Rightarrow> Some (sz c) | Inr DirNode \<Rightarrow> Some 0)"

fun ociBlobSize ::
  "(string \<Rightarrow> string) \<Rightarrow> fsEnv \<Rightarrow> (hostContent \<Rightarrow> int) \<Rightarrow> string \<Rightarrow> string list \<Rightarrow> hostFiles \<Rightarrow> int" where
  "ociBlobSize sha env sz runtimeDir [] fs = 0"
| "ociBlobSize sha env sz runtimeDir (d # ds) fs =
     (let store = ociStore (runtimeRootForContextRuntimeDir runtimeDir) in
      (case statSize env sz (BlobPath sha store d) fs of
         Some n \<Rightarrow> n
       | None \<Rightarrow> (case statSize env sz (ManifestPath sha store d) fs of Some n \<Rightarrow> n | None \<Rightarrow> 0))
      + ociBlobSize sha env sz runtimeDir ds fs)"

definition preparedDetail :: "artifactPrepared \<Rightarrow> string" where
  "preparedDetail p =
     (if trimSpace (apBasePath p) \<noteq> [] then apImageReference p @ '' base='' @ apBasePath p else apImageReference p)"

definition listContextArtifacts ::
  "(string \<Rightarrow> string) \<Rightarrow> fsEnv \<Rightarrow> (hostContent \<Rightarrow> int) \<Rightarrow>
   string \<Rightarrow> string \<Rightarrow> string \<Rightarrow> hostFiles \<Rightarrow> contextError + contextArtifact list" where
  "listContextArtifacts sha env sz contextID dataDir runtimeDir fs =
     (let workspace = pathJoin [dataDir, contextWorkspaceDir];
          ws = (case dirSize env sz workspace fs of (n, ok) \<Rightarrow>
            if ok then [noArtifact\<lparr>caKind := ''workspace'', caName := contextID, caPath := workspace, caSize := n\<rparr>]
            else []);
          volumeRoot = pathJoin [runtimeDir, ''volumes''] in
      andThen (case readDir env volumeRoot fs of
                 Inl FsNotExist \<Rightarrow> Inr [] | Inl FsError \<Rightarrow> Inl ContextFS
               | Inr es \<Rightarrow> Inr (volumeArtifacts env sz volumeRoot fs es)) (\<lambda>vols.
      andThen (loadArtifactState env (artifactStatePath runtimeDir) fs) (\<lambda>st.
        (let images = (case st of None \<Rightarrow> [] | Some s \<Rightarrow> asImages s);
             prepared = (case st of None \<Rightarrow> [] | Some s \<Rightarrow> asPrepared s);
             out = ws @ vols
               @ map (\<lambda>i. \<lparr>caKind = ''image'', caName = aiReference i, caPath = [], caRef = aiDigest i,
                            caSize = ociBlobSize sha env sz runtimeDir (aiBlobs i) fs,
                            caDetail = showNat (length (aiBlobs i)) @ '' blobs''\<rparr>) images
               @ map (\<lambda>p. \<lparr>caKind = ''prepared-runtime'', caName = apKey p, caPath = apPath p,
                            caRef = apImageDigest p, caSize = fst (dirSize env sz (apPath p) fs),
                            caDetail = preparedDetail p\<rparr>) prepared in
         Inr (sort_key caKind (sort_key caName out))))))"

record contextArtifactsRequest =
  carContextID :: string
  carDelete :: bool
  carPrune :: bool
  carVolume :: string

text \<open>
  \<open>handleContextArtifacts\<close> with the lock of the context held for a change; the value is what is
  left and what was deleted, in the response.
\<close>

definition handleContextArtifacts ::
  "(string \<Rightarrow> string) \<Rightarrow> fsEnv \<Rightarrow> (hostContent \<Rightarrow> int) \<Rightarrow>
   string \<Rightarrow> contextLocks \<Rightarrow> contextArtifactsRequest \<Rightarrow> hostFiles \<Rightarrow>
   hostFiles \<times> (contextError + contextArtifact list \<times> contextArtifact list)" where
  "handleContextArtifacts sha env sz sd L req fs =
     (case normalizeContextID (carContextID req) of
        Inl e \<Rightarrow> (fs, Inl e)
      | Inr contextID \<Rightarrow>
      (case andThen (serverContextDataDir env sd contextID fs) (\<lambda>dataDir.
              andThen (serverContextRuntimeDir env sd contextID fs) (\<lambda>runtimeDir. Inr (dataDir, runtimeDir))) of
        Inl e \<Rightarrow> (fs, Inl e)
      | Inr (dataDir, runtimeDir) \<Rightarrow>
      (case (if carDelete req then deleteContextArtifact env runtimeDir (carVolume req) fs else (fs, Inr [])) of
        (fs1, Inl e) \<Rightarrow> (fs1, Inl e)
      | (fs1, Inr deleted) \<Rightarrow>
      (case (if carPrune req then pruneAll [pruneContextArtifacts env sz runtimeDir, pruneUnreferencedOCICache env sz sd L] fs1
             else (fs1, Inr ([], 0))) of
        (fs2, Inl e) \<Rightarrow> (fs2, Inl e)
      | (fs2, Inr (pruned, _)) \<Rightarrow>
          (fs2, andThen (listContextArtifacts sha env sz contextID dataDir runtimeDir fs2)
            (\<lambda>artifacts. Inr (artifacts, deleted @ pruned)))))))"

section \<open>Temporary files\<close>

definition isSyncBlobTempFile :: "string \<Rightarrow> bool" where
  "isSyncBlobTempFile name \<longleftrightarrow> hasSuffix name ''.tmp''"

definition isOCICacheTempFile :: "string \<Rightarrow> bool" where
  "isOCICacheTempFile name \<longleftrightarrow> containsSub name ''.tmp-''"

fun removeTemps :: "fsEnv \<Rightarrow> (string \<Rightarrow> bool) \<Rightarrow> (string list \<times> hostContent fnode) list \<Rightarrow> hostFiles \<Rightarrow>
    hostFiles \<times> (contextError + string list)" where
  "removeTemps env match [] fs = (fs, Inr [])"
| "removeTemps env match ((q, DirNode) # ns) fs =
     (if noRead env q then (fs, Inl ContextFS) else removeTemps env match ns fs)"
| "removeTemps env match ((q, FileNode c) # ns) fs =
     (if \<not> match (last q) then removeTemps env match ns fs
      else (case removeIfExists env (pathOf q) fs of
        (fs1, Inl e) \<Rightarrow> (fs1, Inl e)
      | (fs1, Inr _) \<Rightarrow>
          (case removeTemps env match ns fs1 of (fs2, r) \<Rightarrow> (fs2, andThen r (\<lambda>ps. Inr (pathOf q # ps))))))"

definition pruneTempFilesInRoot ::
  "fsEnv \<Rightarrow> string \<Rightarrow> (string \<Rightarrow> bool) \<Rightarrow> hostFiles \<Rightarrow> hostFiles \<times> (contextError + string list)" where
  "pruneTempFilesInRoot env root match fs =
     (if noStat env (pathSegs root) then (fs, Inl ContextFS)
      else removeTemps env match (walkNodes root fs) fs)"

definition pruneStartupTempFiles :: "fsEnv \<Rightarrow> string \<Rightarrow> hostFiles \<Rightarrow> hostFiles \<times> (contextError + string list)" where
  "pruneStartupTempFiles env sd fs =
     (case pruneTempFilesInRoot env (pathJoin [sd, ''blobs'']) isSyncBlobTempFile fs of
        (fs1, Inl e) \<Rightarrow> (fs1, Inl e)
      | (fs1, Inr removed) \<Rightarrow>
          (case pruneTempFilesInRoot env (pathJoin [sd, ''cache'', ''oci'']) isOCICacheTempFile fs1 of
             (fs2, r) \<Rightarrow> (fs2, andThen r (\<lambda>more. Inr (removed @ more)))))"

section \<open>Deleting contexts\<close>

text \<open>
  The caches are pruned only when a context was deleted, in the roots the contexts had before.
  The function that prunes root file systems staged in WSL does nothing on Unix, but its caller
  lists the runtime directories of the contexts first.
\<close>

definition pruneCachesAfterContextDelete ::
  "fsEnv \<Rightarrow> (hostContent \<Rightarrow> int) \<Rightarrow> string \<Rightarrow> contextStateRootLists \<Rightarrow> hostFiles \<Rightarrow> hostFiles \<times> (contextError + pruned)" where
  "pruneCachesAfterContextDelete env sz sd roots =
     pruneAll [pruneUnreferencedOCICacheInRoots env sz sd (csrRuntime roots),
               pruneUnreferencedBlobsInRoots env sz sd (csrData roots @ csrRuntime roots),
               \<lambda>fs. (fs, andThen (contextRuntimeDirs env sd fs) (\<lambda>dirs. Inr ([], 0)))]"

definition deleteContexts ::
  "fsEnv \<Rightarrow> (hostContent \<Rightarrow> int) \<Rightarrow> (string \<Rightarrow> duration option) \<Rightarrow> go_time \<Rightarrow> (deleteTargets \<Rightarrow> string list) \<Rightarrow>
   string \<Rightarrow> contextLocks \<Rightarrow> deleteRequest \<Rightarrow> hostFiles \<Rightarrow>
   hostFiles \<times> (contextError + contextSummary list \<times> string list)" where
  "deleteContexts env sz parseDuration now order sd L req fs =
     (case listContexts env sd L fs of
        Inl e \<Rightarrow> (fs, Inl e)
      | Inr contexts \<Rightarrow>
      (case selectDeleteTargets parseDuration now req contexts of
        Inl e \<Rightarrow> (fs, Inl e)
      | Inr (targets, notFound) \<Rightarrow>
      (case stateRootsForContexts env sd fs contexts of
        Inl e \<Rightarrow> (fs, Inl e)
      | Inr roots \<Rightarrow>
      (case removeContexts env sd targets (order targets) fs of
        (fs1, Inl e) \<Rightarrow> (fs1, Inl e)
      | (fs1, Inr deleted) \<Rightarrow>
          (let answer = (sort_key csID deleted, sort notFound) in
           if deleted = [] then (fs1, Inr answer)
           else (case pruneCachesAfterContextDelete env sz sd roots fs1 of
             (fs2, Inl e) \<Rightarrow> (fs2, Inl e)
           | (fs2, Inr _) \<Rightarrow> (fs2, Inr answer)))))))"

section \<open>Facts about walks\<close>

text \<open>Nodes under distinct, clean paths.\<close>

definition wfFs :: "hostFiles \<Rightarrow> bool" where
  "wfFs fs \<longleftrightarrow> distinct (map fst fs) \<and> (\<forall>q \<in> set (map fst fs). normalSegs q)"

lemma pathSegs_pathOf [simp]: "normalSegs q \<Longrightarrow> pathSegs (pathOf q) = q"
  by (simp add: pathOf_def pathSegs_slash_join)

lemma wfFs_filter: "wfFs fs \<Longrightarrow> wfFs (filter P fs)"
  unfolding wfFs_def by (auto intro: distinct_map_filter)

lemma wfFs_map_of: "wfFs fs \<Longrightarrow> map_of fs q = Some n \<Longrightarrow> normalSegs q \<and> (q, n) \<in> set fs"
  unfolding wfFs_def by (auto dest: map_of_SomeD)

lemma wfFs_member: "wfFs fs \<Longrightarrow> (q, n) \<in> set fs \<Longrightarrow> map_of fs q = Some n \<and> normalSegs q"
  unfolding wfFs_def by (metis fst_conv image_eqI list.set_map map_of_is_SomeI)

lemma removeOne_filter: "removeOne env path fs = (fs', r) \<Longrightarrow> fs' = fs \<or> fs' = filter (\<lambda>(q, n). q \<noteq> pathSegs path) fs"
  unfolding removeOne_def Let_def by (auto split: option.splits if_splits)

lemma removeOne_wf: "wfFs fs \<Longrightarrow> removeOne env path fs = (fs', r) \<Longrightarrow> wfFs fs'"
  using removeOne_filter [of env path fs fs' r] wfFs_filter by auto

lemma removeAll_wf: "wfFs fs \<Longrightarrow> removeAll env path fs = (fs', r) \<Longrightarrow> wfFs fs'"
  unfolding removeAll_def Let_def using wfFs_filter by auto

lemma removeIfExists_wf: "wfFs fs \<Longrightarrow> removeIfExists env path fs = (fs', r) \<Longrightarrow> wfFs fs'"
  unfolding removeIfExists_def
  by (cases "removeOne env path fs") (auto split: sum.splits fsError.splits dest: removeOne_wf)

lemma set_walkNodes: "set (walkNodes root fs) = {(q, n) \<in> set fs. below (pathSegs root) q}"
  by (auto simp: walkNodes_def)

lemma distinct_walkNodes: "wfFs fs \<Longrightarrow> distinct (map fst (walkNodes root fs))"
proof -
  assume "wfFs fs"
  then have "distinct (map fst (filter (\<lambda>(q, n). below (pathSegs root) q) fs))"
    unfolding wfFs_def by (auto intro: distinct_map_filter)
  then show ?thesis
    by (simp add: walkNodes_def distinct_map)
qed

text \<open>A walk keeps what its decision does not remove; the files it removes are gone when it ends well.\<close>

lemma visitFiles_inv:
  assumes "visitFiles env visit ns fs = (fs', r)" "P fs"
    and "\<And>q c x fs fs' r. (q, FileNode c) \<in> set ns \<Longrightarrow> visit q c = Inr (Some x) \<Longrightarrow> P fs \<Longrightarrow>
      removeOne env (pathOf q) fs = (fs', r) \<Longrightarrow> P fs'"
  shows "P fs'"
  using assms
proof (induction ns arbitrary: fs r)
  case (Cons node ns)
  obtain q n where node: "node = (q, n)" by fastforce
  have ih: "visitFiles env visit ns fs1 = (fs', r1) \<Longrightarrow> P fs1 \<Longrightarrow> P fs'" for fs1 r1
    using Cons.IH [of fs1 r1] Cons.prems(3) by (metis list.set_intros(2))
  show ?case
  proof (cases n)
    case DirNode
    then show ?thesis using Cons.prems(1,2) ih node by (auto split: if_splits)
  next
    case (FileNode c)
    consider (stop) e where "visit q c = Inl e" | (keep) "visit q c = Inr None"
      | (remove) as m where "visit q c = Inr (Some (as, m))"
      by (cases "visit q c") (auto simp: option.exhaust_sel, metis option.exhaust surj_pair)
    then show ?thesis
    proof cases
      case remove
      obtain fs1 r1 where rm: "removeOne env (pathOf q) fs = (fs1, r1)" by fastforce
      have p: "P fs1"
        using Cons.prems(3) [OF _ remove Cons.prems(2) rm] node FileNode by simp
      obtain fs2 r2 where rest: "visitFiles env visit ns fs1 = (fs2, r2)" by fastforce
      have "fs' = fs1 \<or> fs' = fs2"
        using Cons.prems(1) node FileNode remove rm rest by (auto split: sum.splits fsError.splits)
      then show ?thesis using p ih [of fs1] rest by auto
    qed (use Cons.prems(1,2) ih node FileNode in auto)
  qed
qed simp

lemma visitFiles_gone:
  assumes "visitFiles env visit ns fs = (fs', Inr out)" "(q, FileNode c) \<in> set ns" "visit q c = Inr (Some x)"
    and "distinct (map fst ns)" "\<forall>(q, n) \<in> set ns. map_of fs q \<noteq> None \<and> normalSegs q"
  shows "map_of fs' q = None"
  using assms
proof (induction ns arbitrary: fs out)
  case (Cons node ns)
  obtain p n where node: "node = (p, n)" by fastforce
  have q: "normalSegs q" using Cons.prems(2,5) by auto
  have p: "normalSegs p" "map_of fs p \<noteq> None" using Cons.prems(5) node by auto
  show ?case
  proof (cases "\<exists>d as m. n = FileNode d \<and> visit p d = Inr (Some (as, m))")
    case True
    then obtain d as m where d: "n = FileNode d" "visit p d = Inr (Some (as, m))" by blast
    obtain fs1 r1 where rm: "removeOne env (pathOf p) fs = (fs1, r1)" by fastforce
    note g = removeOne_get [OF rm, unfolded pathSegs_pathOf [OF p(1)]]
    have r1: "r1 = Inr ()"
    proof (cases r1)
      case (Inl e)
      then show ?thesis using Cons.prems(1) node d rm g [of p] p(2) by (cases e) auto
    qed simp
    obtain r2 where rest: "visitFiles env visit ns fs1 = (fs', Inr r2)"
      using Cons.prems(1) node d rm r1 by (auto simp: andThen_def split: prod.splits sum.splits)
    show ?thesis
    proof (cases "q = p")
      case True
      then have gone: "map_of fs1 q = None" using g [of q] r1 by simp
      show ?thesis
      proof (rule visitFiles_inv [OF rest, where P = "\<lambda>fs. map_of fs q = None", OF gone])
        show "map_of fsb q = None" if "map_of fsa q = None" "removeOne env (pathOf k) fsa = (fsb, rb)" for k fsa fsb rb
          using removeOne_get [OF that(2), of q] that(1) by simp
      qed
    next
      case False
      have "map_of fs1 k \<noteq> None \<and> normalSegs k" if k: "(k, l) \<in> set ns" for k l
      proof -
        have "k \<noteq> p" using k Cons.prems(4) node by force
        then have "map_of fs1 k = map_of fs k" using g [of k] by simp
        then show ?thesis using k Cons.prems(5) by auto
      qed
      then have "\<forall>(k, n) \<in> set ns. map_of fs1 k \<noteq> None \<and> normalSegs k" by blast
      then show ?thesis using Cons.IH [OF rest] Cons.prems(2-4) node False by auto
    qed
  next
    case False
    then have "visitFiles env visit ns fs = (fs', Inr out)"
      using Cons.prems(1) node
      by (cases n) (auto split: if_splits sum.splits option.splits)
    moreover have "(q, FileNode c) \<in> set ns" using Cons.prems(2,3) node False by (cases x) auto
    ultimately show ?thesis using Cons.IH [of fs out] Cons.prems(3-5) by auto
  qed
qed simp

lemma visitFiles_wf: "wfFs fs \<Longrightarrow> visitFiles env visit ns fs = (fs', r) \<Longrightarrow> wfFs fs'"
  by (erule visitFiles_inv [where P = wfFs]) (auto dest: removeOne_wf)

text \<open>A file of the walk that the decision keeps is kept, whatever becomes of the walk.\<close>

lemma walkPrune_keeps:
  assumes "walkPrune env visit root fs = (fs', r)" "wfFs fs" "map_of fs q = Some n"
    and "\<And>c x. n = FileNode c \<Longrightarrow> below (pathSegs root) q \<Longrightarrow> visit q c \<noteq> Inr (Some x)"
  shows "map_of fs' q = Some n"
proof (cases "noStat env (pathSegs root)")
  case False
  then have run: "visitFiles env visit (walkNodes root fs) fs = (fs', r)" using assms(1) by (simp add: walkPrune_def)
  show ?thesis
  proof (rule visitFiles_inv [OF run, where P = "\<lambda>fs. map_of fs q = Some n", OF assms(3)])
    fix p c x fsa fsb ra
    assume p: "(p, FileNode c) \<in> set (walkNodes root fs)" "visit p c = Inr (Some x)"
      and a: "map_of fsa q = Some n" and rm: "removeOne env (pathOf p) fsa = (fsb, ra)"
    have m: "map_of fs p = Some (FileNode c)" "normalSegs p" "below (pathSegs root) p"
      using p(1) wfFs_member [OF assms(2)] by (auto simp: set_walkNodes)
    have "p \<noteq> q"
    proof
      assume "p = q"
      then show False using m assms(3) assms(4) [of c x] p(2) by simp
    qed
    then show "map_of fsb q = Some n" using removeOne_get [OF rm, of q] m(2) a by simp
  qed
qed (use assms in \<open>simp add: walkPrune_def\<close>)

lemma walkPrune_wf: "walkPrune env visit root fs = (fs', r) \<Longrightarrow> wfFs fs \<Longrightarrow> wfFs fs'"
  by (auto simp: walkPrune_def split: if_splits dest: visitFiles_wf)

lemma walkPrune_gone:
  assumes "walkPrune env visit root fs = (fs', Inr out)" "wfFs fs" "map_of fs q = Some (FileNode c)"
    and "below (pathSegs root) q" "visit q c = Inr (Some x)"
  shows "map_of fs' q = None"
proof -
  have run: "visitFiles env visit (walkNodes root fs) fs = (fs', Inr out)"
    using assms(1) by (auto simp: walkPrune_def split: if_splits)
  have "(q, FileNode c) \<in> set (walkNodes root fs)"
    using assms(3,4) by (auto simp: set_walkNodes dest: map_of_SomeD)
  moreover have "\<forall>(q, n) \<in> set (walkNodes root fs). map_of fs q \<noteq> None \<and> normalSegs q"
    using wfFs_member [OF assms(2)] by (auto simp: set_walkNodes)
  ultimately show ?thesis
    using visitFiles_gone [OF run _ assms(5) distinct_walkNodes [OF assms(2)]] by blast
qed

text \<open>Removing the empty directories keeps every file.\<close>

lemma removeDirIfEmpty_other:
  "removeDirIfEmpty env dir fs = (fs', r) \<Longrightarrow> q \<noteq> pathSegs dir \<Longrightarrow> map_of fs' q = map_of fs q"
  unfolding removeDirIfEmpty_def removeIfExists_def
  by (cases "removeOne env dir fs")
    (auto split: sum.splits fsError.splits list.splits dest!: removeOne_get [of _ _ _ _ _ q])

lemma removeDirIfEmpty_wf: "removeDirIfEmpty env dir fs = (fs', r) \<Longrightarrow> wfFs fs \<Longrightarrow> wfFs fs'"
  unfolding removeDirIfEmpty_def by (auto split: sum.splits fsError.splits list.splits dest: removeIfExists_wf)

lemma runSteps_inv:
  assumes "runSteps ss fs = (fs', r)" "P fs"
    and "\<And>s fs fs' r. s \<in> set ss \<Longrightarrow> P fs \<Longrightarrow> s fs = (fs', r) \<Longrightarrow> P fs'"
  shows "P fs'"
  using assms
proof (induction ss arbitrary: fs)
  case (Cons s ss)
  obtain fs1 r1 where s: "s fs = (fs1, r1)" by fastforce
  have p: "P fs1" using Cons.prems(3) [of s fs fs1 r1] Cons.prems(2) s by simp
  show ?case
  proof (cases r1)
    case (Inr u)
    then show ?thesis using Cons.IH [of fs1] Cons.prems(1,3) s p by auto
  qed (use Cons.prems(1) s p in auto)
qed simp

lemma readableDirs_dirs: "readableDirs env ns = Inr qs \<Longrightarrow> q \<in> set qs \<Longrightarrow> (q, DirNode) \<in> set ns"
  by (induction ns arbitrary: qs) (auto simp: andThen_def isDirNode_def split: if_splits sum.splits fnode.splits)

lemma removeEmptyBlobDirs_keeps:
  assumes "removeEmptyBlobDirs env root fs = (fs', r)" "wfFs fs"
  shows "wfFs fs' \<and> (map_of fs q \<noteq> Some DirNode \<longrightarrow> map_of fs' q = map_of fs q)"
proof (cases "blobDirs env root fs")
  case (Inl e)
  then show ?thesis using assms by (auto simp: removeEmptyBlobDirs_def)
next
  case (Inr dirs)
  then have run: "runSteps (map (removeDirIfEmpty env) dirs) fs = (fs', r)"
    using assms(1) by (simp add: removeEmptyBlobDirs_def)
  have dir: "\<exists>p. d = pathOf p \<and> normalSegs p \<and> map_of fs p = Some DirNode" if d: "d \<in> set dirs" for d
  proof -
    obtain qs where qs: "readableDirs env (walkNodes root fs) = Inr qs" "set dirs \<subseteq> pathOf ` set qs"
      using Inr by (force simp: blobDirs_def andThen_def split: if_splits sum.splits)
    then obtain p where p: "p \<in> set qs" "d = pathOf p" using d by blast
    have "(p, DirNode) \<in> set (walkNodes root fs)" by (rule readableDirs_dirs [OF qs(1) p(1)])
    with p(2) show ?thesis using wfFs_member [OF assms(2)] by (auto simp: set_walkNodes)
  qed
  have "wfFs fs'"
    by (rule runSteps_inv [OF run, where P = wfFs, OF assms(2)]) (auto dest: removeDirIfEmpty_wf)
  moreover have "map_of fs' q = map_of fs q" if "map_of fs q \<noteq> Some DirNode"
  proof (rule runSteps_inv [OF run, where P = "\<lambda>fs'. map_of fs' q = map_of fs q", OF refl])
    fix s fsa fsb ra
    assume s: "s \<in> set (map (removeDirIfEmpty env) dirs)" "map_of fsa q = map_of fs q" "s fsa = (fsb, ra)"
    then obtain d where d: "d \<in> set dirs" "s = removeDirIfEmpty env d" by auto
    obtain p where p: "d = pathOf p" "normalSegs p" "map_of fs p = Some DirNode" using dir [OF d(1)] by blast
    have "q \<noteq> pathSegs d" using p that by auto
    then show "map_of fsb q = map_of fs q" using removeDirIfEmpty_other [of env d fsa fsb ra q] s d(2) by simp
  qed
  ultimately show ?thesis by blast
qed

text \<open>One blob directory: files outside it stay, files with a referenced name stay, the others go.\<close>

lemma pruneBlobs_root:
  assumes "pruneUnreferencedBlobsInRoot env sz root refs fs = (fs', r)" "wfFs fs" "map_of fs q = Some (FileNode c)"
  shows "wfFs fs' \<and> (\<not> below (pathSegs root) q \<or> last q \<in> refs \<longrightarrow> map_of fs' q = Some (FileNode c))
    \<and> (isOk r \<and> below (pathSegs root) q \<and> last q \<notin> refs \<longrightarrow> map_of fs' q = None)
    \<and> (map_of fs' q = Some (FileNode c) \<or> map_of fs' q = None)"
proof -
  let ?visit = "\<lambda>q c. if last q \<in> refs then Inr None
     else Inr (Some ([noArtifact\<lparr>caKind := ''blob'', caPath := pathOf q, caRef := last q\<rparr>], sz c))"
  obtain fs1 r1 where w: "walkPrune env ?visit root fs = (fs1, r1)" by fastforce
  have wf: "wfFs fs1" using walkPrune_wf [OF w assms(2)] .
  have keep: "map_of fs1 q = Some (FileNode c)" if "\<not> below (pathSegs root) q \<or> last q \<in> refs"
    by (rule walkPrune_keeps [OF w assms(2,3)]) (use that in auto)
  have gone: "map_of fs1 q = None" if ok: "isOk r1" and b: "below (pathSegs root) q" "last q \<notin> refs"
  proof (cases r1)
    case (Inr out)
    from walkPrune_gone [OF w [unfolded Inr] assms(2,3) b(1)] b(2) show ?thesis by simp
  qed (use ok in simp)
  have only: "map_of fs1 q = Some (FileNode c) \<or> map_of fs1 q = None"
  proof (cases "noStat env (pathSegs root)")
    case False
    then have run: "visitFiles env ?visit (walkNodes root fs) fs = (fs1, r1)" using w by (simp add: walkPrune_def)
    show ?thesis
      by (rule visitFiles_inv [OF run, where P = "\<lambda>fs. map_of fs q = Some (FileNode c) \<or> map_of fs q = None"])
        (use assms(3) in \<open>auto dest!: removeOne_get [of _ _ _ _ _ q] split: if_splits\<close>)
  qed (use w assms(3) in \<open>simp add: walkPrune_def\<close>)
  show ?thesis
  proof (cases r1)
    case (Inl e)
    then have "fs' = fs1" "\<not> isOk r" using assms(1) w by (auto simp: pruneUnreferencedBlobsInRoot_def)
    then show ?thesis using wf keep only by simp
  next
    case (Inr out)
    obtain fs2 r2 where e: "removeEmptyBlobDirs env root fs1 = (fs2, r2)" by fastforce
    have "fs' = fs2" using assms(1) w Inr e by (auto simp: pruneUnreferencedBlobsInRoot_def split: sum.splits)
    moreover have "map_of fs2 q = map_of fs1 q" "wfFs fs2"
      using removeEmptyBlobDirs_keeps [OF e wf, of q] only by auto
    ultimately show ?thesis using keep gone only Inr by auto
  qed
qed

lemma pruneBlobs_none:
  assumes "pruneUnreferencedBlobsInRoot env sz root refs fs = (fs', r)" "wfFs fs" "map_of fs q = None"
  shows "wfFs fs' \<and> map_of fs' q = None"
proof -
  let ?visit = "\<lambda>q c. if last q \<in> refs then Inr None
     else Inr (Some ([noArtifact\<lparr>caKind := ''blob'', caPath := pathOf q, caRef := last q\<rparr>], sz c))"
  obtain fs1 r1 where w: "walkPrune env ?visit root fs = (fs1, r1)" by fastforce
  have wf: "wfFs fs1" using walkPrune_wf [OF w assms(2)] .
  have n: "map_of fs1 q = None"
  proof (cases "noStat env (pathSegs root)")
    case False
    then have run: "visitFiles env ?visit (walkNodes root fs) fs = (fs1, r1)" using w by (simp add: walkPrune_def)
    show ?thesis
      by (rule visitFiles_inv [OF run, where P = "\<lambda>fs. map_of fs q = None", OF assms(3)])
        (auto dest!: removeOne_get [of _ _ _ _ _ q] split: if_splits)
  qed (use w assms(3) in \<open>simp add: walkPrune_def\<close>)
  obtain fs2 r2 where e: "removeEmptyBlobDirs env root fs1 = (fs2, r2)" by fastforce
  have "fs' = fs1 \<or> fs' = fs2"
    using assms(1) w e by (cases r1) (auto simp: pruneUnreferencedBlobsInRoot_def split: sum.splits)
  then show ?thesis using removeEmptyBlobDirs_keeps [OF e wf, of q] wf n by auto
qed

lemma pruneBlobs_any:
  assumes "pruneUnreferencedBlobsInRoot env sz root refs fs = (fs', r)"
    and "wfFs fs \<and> (map_of fs q = Some (FileNode c) \<or> map_of fs q = None)"
  shows "wfFs fs' \<and> (map_of fs' q = Some (FileNode c) \<or> map_of fs' q = None)"
proof (cases "map_of fs q = None")
  case True
  then show ?thesis using pruneBlobs_none [OF assms(1)] assms(2) by simp
next
  case False
  then have "map_of fs q = Some (FileNode c)" using assms(2) by metis
  from pruneBlobs_root [OF assms(1) _ this] assms(2) show ?thesis by simp
qed

lemma pruneBlobs_gone:
  assumes "pruneUnreferencedBlobsInRoot env sz root refs fs = (fs', r)" "isOk r"
    and "wfFs fs \<and> (map_of fs q = Some (FileNode c) \<or> map_of fs q = None)"
    and "below (pathSegs root) q" "last q \<notin> refs"
  shows "wfFs fs' \<and> map_of fs' q = None"
proof (cases "map_of fs q = None")
  case True
  then show ?thesis using pruneBlobs_none [OF assms(1)] assms(3) by simp
next
  case False
  then have "map_of fs q = Some (FileNode c)" using assms(3) by metis
  from pruneBlobs_root [OF assms(1) _ this] assms(2-5) show ?thesis by simp
qed

lemma pruneAll_inv:
  assumes "pruneAll ss fs = (fs', r)" "P fs"
    and "\<And>s fs fs' r. s \<in> set ss \<Longrightarrow> P fs \<Longrightarrow> s fs = (fs', r) \<Longrightarrow> P fs'"
  shows "P fs'"
  using assms
proof (induction ss arbitrary: fs r)
  case (Cons s ss)
  obtain fs1 r1 where s: "s fs = (fs1, r1)" by fastforce
  have p: "P fs1" using Cons.prems(3) [of s fs fs1 r1] Cons.prems(2) s by simp
  show ?case
  proof (cases r1)
    case (Inr u)
    obtain fs2 r2 where rest: "pruneAll ss fs1 = (fs2, r2)" by fastforce
    have "fs' = fs2" using Cons.prems(1) s Inr rest by (cases u) simp
    then show ?thesis using Cons.IH [of fs1 r2] rest Cons.prems(3) p by auto
  qed (use Cons.prems(1) s p in auto)
qed simp

lemma pruneAll_split:
  assumes "pruneAll (xs @ s # ys) fs = (fs', r)" "isOk r"
  obtains fs1 r1 fs2 r2 r3 where "pruneAll xs fs = (fs1, r1)" "s fs1 = (fs2, r2)" "isOk r2" "pruneAll ys fs2 = (fs', r3)"
  using assms
proof (induction xs arbitrary: fs r thesis)
  case Nil
  obtain fs1 r1 where "s fs = (fs1, r1)" by fastforce
  moreover obtain fs2 r2 where "pruneAll ys fs1 = (fs2, r2)" by fastforce
  ultimately show ?case using Nil by (auto simp: andThen_def split: sum.splits prod.splits)
next
  case (Cons x xs)
  obtain fs1 r1 where x: "x fs = (fs1, r1)" by fastforce
  obtain u where u: "r1 = Inr u" using Cons.prems(2,3) x by (cases r1) auto
  obtain fs2 r2 where rest: "pruneAll (xs @ s # ys) fs1 = (fs2, r2)" by fastforce
  have e: "fs' = fs2" "isOk r2" using Cons.prems(2,3) x u rest by (auto simp: andThen_def split: sum.splits prod.splits)
  show ?case
  proof (rule Cons.IH [OF _ rest [folded e(1)] e(2)])
    fix fsa ra fsb rb rc
    assume a: "pruneAll xs fs1 = (fsa, ra)" "s fsa = (fsb, rb)" "isOk rb" "pruneAll ys fsb = (fs', rc)"
    obtain rd where "pruneAll (x # xs) fs = (fsa, rd)" using x u a(1) by (cases u) auto
    then show thesis using Cons.prems(1) a by blast
  qed
qed

text \<open>
  The blob collector removes exactly what no context needs: a file of the blob store of a root
  stays when the references collected for that root hold its name, whatever the run returns, and
  is gone after a run without an error when they do not. (Files are under distinct clean paths,
  and the file is not also inside the blob directory of another root.)
\<close>

theorem blob_collection_exact:
  assumes "pruneUnreferencedBlobsInRoots env sz sd roots fs = (fs', r)"
    and "referencedBlobHashesByRoot env sd fs = Inr refs"
    and "wfFs fs" "map_of fs q = Some (FileNode c)"
    and "root \<in> set (uniqueCleanPaths roots)" "below (pathSegs (blobsDir root)) q"
    and "\<forall>r \<in> set (uniqueCleanPaths roots). r \<noteq> root \<longrightarrow> \<not> below (pathSegs (blobsDir r)) q"
  shows "(last q \<in> refsOf refs root \<longrightarrow> map_of fs' q = Some (FileNode c))
    \<and> (isOk r \<and> last q \<notin> refsOf refs root \<longrightarrow> map_of fs' q = None)"
proof -
  let ?s = "\<lambda>root. pruneUnreferencedBlobsInRoot env sz (blobsDir root) (refsOf refs root)"
  have run: "pruneAll (map ?s (uniqueCleanPaths roots)) fs = (fs', r)"
    using assms(1,2) by (simp add: pruneUnreferencedBlobsInRoots_def)
  have keep: "map_of fs' q = Some (FileNode c)" if "last q \<in> refsOf refs root"
  proof -
    have "wfFs fs' \<and> map_of fs' q = Some (FileNode c)"
    proof (rule pruneAll_inv [OF run, where P = "\<lambda>fs. wfFs fs \<and> map_of fs q = Some (FileNode c)"])
      fix s fsa fsb ra
      assume s: "s \<in> set (map ?s (uniqueCleanPaths roots))" "wfFs fsa \<and> map_of fsa q = Some (FileNode c)" "s fsa = (fsb, ra)"
      then obtain k where k: "k \<in> set (uniqueCleanPaths roots)" "s = ?s k" by auto
      show "wfFs fsb \<and> map_of fsb q = Some (FileNode c)"
        using pruneBlobs_root [of env sz "blobsDir k" "refsOf refs k" fsa fsb ra q c] s k assms(7) that by auto
    qed (use assms in simp)
    then show ?thesis by simp
  qed
  have gone: "map_of fs' q = None" if ok: "isOk r" and no: "last q \<notin> refsOf refs root"
  proof -
    obtain xs ys where split: "uniqueCleanPaths roots = xs @ root # ys" using assms(5) by (meson split_list)
    let ?P = "\<lambda>fs. wfFs fs \<and> (map_of fs q = Some (FileNode c) \<or> map_of fs q = None)"
    have run2: "pruneAll (map ?s xs @ ?s root # map ?s ys) fs = (fs', r)" using run by (simp add: split)
    obtain fs1 r1 fs2 r2 r3 where a: "pruneAll (map ?s xs) fs = (fs1, r1)" "?s root fs1 = (fs2, r2)" "isOk r2"
        "pruneAll (map ?s ys) fs2 = (fs', r3)"
      by (rule pruneAll_split [OF run2 ok])
    have p1: "?P fs1"
    proof (rule pruneAll_inv [OF a(1), where P = ?P])
      fix s fsa fsb ra
      assume "s \<in> set (map ?s xs)" and p: "?P fsa" and run: "s fsa = (fsb, ra)"
      then obtain k where "s = ?s k" by auto
      then show "?P fsb" using pruneBlobs_any [OF _ p] run by simp
    qed (use assms(3,4) in simp)
    have p2: "wfFs fs2 \<and> map_of fs2 q = None" by (rule pruneBlobs_gone [OF a(2,3) p1 assms(6) no])
    have "wfFs fs' \<and> map_of fs' q = None"
      by (rule pruneAll_inv [OF a(4), where P = "\<lambda>fs. wfFs fs \<and> map_of fs q = None", OF p2])
        (auto dest: pruneBlobs_none)
    then show ?thesis by simp
  qed
  show ?thesis using keep gone by blast
qed

section \<open>What the collectors know\<close>

lemma overContexts_inv:
  assumes "overContexts env sd fs f es r = Inr r'" "Q r"
    and "\<And>name meta r r'. Q r \<Longrightarrow> f name meta r = Inr r' \<Longrightarrow> Q r'"
  shows "Q r'"
  using assms
proof (induction es arbitrary: r)
  case (Cons x es)
  obtain name d where x: "x = (name, d)" by fastforce
  show ?case
  proof (cases d)
    case True
    then obtain meta r1 where "f name meta r = Inr r1" "overContexts env sd fs f es r1 = Inr r'"
      using Cons.prems(1) x by (auto simp: andThen_def split: sum.splits)
    then show ?thesis using Cons.IH [of r1] Cons.prems(2,3) by blast
  qed (use Cons x in auto)
qed simp

lemma overContexts_reaches:
  assumes "overContexts env sd fs f es r = Inr r'" "(name, True) \<in> set es"
    and "\<And>name meta r r'. Q r \<Longrightarrow> f name meta r = Inr r' \<Longrightarrow> Q r'"
    and "\<And>meta r r'. loadContextMetadata env (pathJoin [contextsRoot sd, name]) fs = Inr meta \<Longrightarrow>
      f name meta r = Inr r' \<Longrightarrow> Q r'"
  shows "Q r'"
  using assms(1,2)
proof (induction es arbitrary: r)
  case (Cons x es)
  obtain k d where x: "x = (k, d)" by fastforce
  show ?case
  proof (cases d)
    case True
    then obtain meta r1 where m: "loadContextMetadata env (pathJoin [contextsRoot sd, k]) fs = Inr meta"
        "f k meta r = Inr r1" "overContexts env sd fs f es r1 = Inr r'"
      using Cons.prems(1) x by (auto simp: andThen_def split: sum.splits)
    show ?thesis
    proof (cases "(name, True) \<in> set es")
      case True
      then show ?thesis using Cons.IH m(3) by blast
    next
      case False
      then have "k = name" using Cons.prems(2) x by auto
      then show ?thesis
        using overContexts_inv [OF m(3), of Q] assms(3) assms(4) [of meta r r1] m(1,2) by blast
    qed
  qed (use Cons x in auto)
qed simp

lemma overContexts_fails:
  assumes "(name, True) \<in> set es"
    and "\<And>meta r. loadContextMetadata env (pathJoin [contextsRoot sd, name]) fs = Inr meta \<Longrightarrow> \<not> isOk (f name meta r)"
  shows "\<not> isOk (overContexts env sd fs f es r)"
proof
  assume "isOk (overContexts env sd fs f es r)"
  then obtain r' where "overContexts env sd fs f es r = Inr r'" unfolding isOk_iff by blast
  then show False
  proof (rule overContexts_reaches [OF _ assms(1), where Q = "\<lambda>_. False"])
    fix meta r ra
    assume "loadContextMetadata env (pathJoin [contextsRoot sd, name]) fs = Inr meta" "f name meta r = Inr ra"
    then show False using assms(2) [of meta r] by simp
  qed
qed

lemma refsOf_addRefs: "refsOf (addRefs k hs refs) j = (if j = k then refsOf refs k \<union> set hs else refsOf refs j)"
  by (simp add: addRefs_def refsOf_def)

lemma referenced_manifest_hash:
  assumes "referencedBlobHashesByRoot env sd fs = Inr refs"
    and "readDir env (contextsRoot sd) fs = Inr names" "(name, True) \<in> set names"
    and "loadContextMetadata env (pathJoin [contextsRoot sd, name]) fs = Inr meta"
    and "loadTrackedManifest env sd name fs = Inr es" "h \<in> set (manifestHashes es)"
  shows "h \<in> refsOf refs (pathClean (contextDataRoot meta sd))"
proof -
  have "overContexts env sd fs (\<lambda>name meta refs. andThen (loadTrackedManifest env sd name fs) (\<lambda>es.
         Inr (addRefs (pathClean (contextDataRoot meta sd)) (manifestHashes es) refs))) names Map.empty = Inr refs"
    using assms(1,2) by (simp add: referencedBlobHashesByRoot_def forContexts_def)
  then show ?thesis
    by (rule overContexts_reaches [OF _ assms(3), where Q = "\<lambda>refs. h \<in> refsOf refs (pathClean (contextDataRoot meta sd))"])
      (use assms(4-6) in \<open>auto simp: andThen_def refsOf_addRefs split: sum.splits\<close>)
qed

lemma referenced_state_digest:
  assumes "referencedOCIDigestsByRoot env sd fs = Inr refs"
    and "readDir env (contextsRoot sd) fs = Inr names" "(name, True) \<in> set names"
    and "loadContextMetadata env (pathJoin [contextsRoot sd, name]) fs = Inr meta"
    and "loadArtifactState env (artifactStatePath (contextDataDir (pathClean (contextRuntimeRoot meta sd)) name)) fs = Inr (Some st)"
    and "d \<in> set (stateRefs st)"
  shows "d \<in> refsOf refs (pathClean (contextRuntimeRoot meta sd))"
proof -
  have "overContexts env sd fs (\<lambda>name meta refs. (let root = pathClean (contextRuntimeRoot meta sd) in
        andThen (loadArtifactState env (artifactStatePath (contextDataDir root name)) fs) (\<lambda>st.
          Inr (addRefs root (case st of None \<Rightarrow> [] | Some s \<Rightarrow> stateRefs s) refs)))) names Map.empty = Inr refs"
    using assms(1,2) by (simp add: referencedOCIDigestsByRoot_def forContexts_def)
  then show ?thesis
    by (rule overContexts_reaches [OF _ assms(3), where Q = "\<lambda>refs. d \<in> refsOf refs (pathClean (contextRuntimeRoot meta sd))"])
      (use assms(4-6) in \<open>auto simp: Let_def andThen_def refsOf_addRefs split: sum.splits\<close>)
qed

lemma manifest_blobs_kept:
  assumes "pruneUnreferencedBlobsInRoots env sz sd roots fs = (fs', r)"
    and "readDir env (contextsRoot sd) fs = Inr names" "(name, True) \<in> set names"
    and "loadContextMetadata env (pathJoin [contextsRoot sd, name]) fs = Inr meta"
    and "loadTrackedManifest env sd name fs = Inr es"
    and "e \<in> set es" "Kind e = KindFile" "Hash e \<noteq> []"
    and "wfFs fs" "map_of fs q = Some (FileNode c)" "last q = Hash e"
    and "\<forall>r \<in> set (uniqueCleanPaths roots). below (pathSegs (blobsDir r)) q \<longrightarrow> r = pathClean (contextDataRoot meta sd)"
  shows "map_of fs' q = Some (FileNode c)"
proof (cases "referencedBlobHashesByRoot env sd fs")
  case (Inl e)
  then show ?thesis using assms(1,10) by (simp add: pruneUnreferencedBlobsInRoots_def)
next
  case (Inr refs)
  have h: "last q \<in> refsOf refs (pathClean (contextDataRoot meta sd))"
    by (rule referenced_manifest_hash [OF Inr assms(2-5)]) (use assms(6-8,11) in \<open>auto simp: manifestHashes_def\<close>)
  let ?s = "\<lambda>root. pruneUnreferencedBlobsInRoot env sz (blobsDir root) (refsOf refs root)"
  have run: "pruneAll (map ?s (uniqueCleanPaths roots)) fs = (fs', r)"
    using assms(1) Inr by (simp add: pruneUnreferencedBlobsInRoots_def)
  have "wfFs fs' \<and> map_of fs' q = Some (FileNode c)"
  proof (rule pruneAll_inv [OF run, where P = "\<lambda>fs. wfFs fs \<and> map_of fs q = Some (FileNode c)"])
    fix s fsa fsb ra
    assume s: "s \<in> set (map ?s (uniqueCleanPaths roots))" "wfFs fsa \<and> map_of fsa q = Some (FileNode c)" "s fsa = (fsb, ra)"
    then obtain k where k: "k \<in> set (uniqueCleanPaths roots)" "s = ?s k" by auto
    show "wfFs fsb \<and> map_of fsb q = Some (FileNode c)"
      using pruneBlobs_root [of env sz "blobsDir k" "refsOf refs k" fsa fsb ra q c] s k assms(12) h by auto
  qed (use assms in simp)
  then show ?thesis by simp
qed

text \<open>
  C20. Collecting blobs never removes one a tracked manifest needs: when a context's manifest lists a
  file with a hash, the stored file of that name in the blob store of the context's data root is
  still there afterwards, unchanged, whatever roots are collected and whatever the run returns
  (it lies in the blob directory of no other root).
\<close>

theorem collection_keeps_manifest_blobs:
  assumes "pruneUnreferencedBlobsInRoots env sz sd roots fs = (fs', r)"
    and "readDir env (contextsRoot sd) fs = Inr names" "(name, True) \<in> set names"
    and "loadContextMetadata env (pathJoin [contextsRoot sd, name]) fs = Inr meta"
    and "loadTrackedManifest env sd name fs = Inr es"
    and "e \<in> set es" "Kind e = KindFile" "Hash e \<noteq> []"
    and "wfFs fs" "map_of fs q = Some (FileNode c)" "last q = Hash e"
    and "\<forall>r \<in> set (uniqueCleanPaths roots). below (pathSegs (blobsDir r)) q \<longrightarrow> r = pathClean (contextDataRoot meta sd)"
  shows "map_of fs' q = Some (FileNode c)"
  by (rule manifest_blobs_kept [OF assms])

text \<open>Whether what the collectors need of a context can be read.\<close>

definition manifestReadable :: "fsEnv \<Rightarrow> string \<Rightarrow> hostFiles \<Rightarrow> string \<Rightarrow> bool" where
  "manifestReadable env sd fs name \<longleftrightarrow>
     isOk (loadContextMetadata env (pathJoin [contextsRoot sd, name]) fs) \<and> isOk (loadTrackedManifest env sd name fs)"

definition stateReadable :: "fsEnv \<Rightarrow> string \<Rightarrow> hostFiles \<Rightarrow> string \<Rightarrow> bool" where
  "stateReadable env sd fs name \<longleftrightarrow>
     isOk (andThen (loadContextMetadata env (pathJoin [contextsRoot sd, name]) fs) (\<lambda>meta.
       loadArtifactState env (artifactStatePath (contextDataDir (pathClean (contextRuntimeRoot meta sd)) name)) fs))"

text \<open>
  Damaged state stops a collection before it removes anything: when the metadata of any context
  directory, or its tracked manifest, cannot be read or parsed, the blob collection fails and
  changes no file; damaged metadata or a damaged artifact state stops the image collection the
  same way.
\<close>

theorem damaged_state_stops_collection:
  assumes "readDir env (contextsRoot sd) fs = Inr names" "(name, True) \<in> set names"
  shows "(\<not> manifestReadable env sd fs name \<longrightarrow>
       fst (pruneUnreferencedBlobsInRoots env sz sd roots fs) = fs
       \<and> \<not> isOk (snd (pruneUnreferencedBlobsInRoots env sz sd roots fs)))
    \<and> (\<not> stateReadable env sd fs name \<longrightarrow>
       fst (pruneUnreferencedOCICacheInRoots env sz sd roots fs) = fs
       \<and> \<not> isOk (snd (pruneUnreferencedOCICacheInRoots env sz sd roots fs)))"
proof (intro conjI impI)
  assume bad: "\<not> manifestReadable env sd fs name"
  have "\<not> isOk (overContexts env sd fs (\<lambda>name meta refs. andThen (loadTrackedManifest env sd name fs) (\<lambda>es.
         Inr (addRefs (pathClean (contextDataRoot meta sd)) (manifestHashes es) refs))) names Map.empty)"
    by (rule overContexts_fails [OF assms(2)])
      (use bad in \<open>auto simp: manifestReadable_def andThen_def isOk_iff split: sum.splits\<close>)
  then have "\<not> isOk (referencedBlobHashesByRoot env sd fs)"
    using assms(1) by (simp add: referencedBlobHashesByRoot_def forContexts_def)
  then obtain e where "referencedBlobHashesByRoot env sd fs = Inl e" by (cases "referencedBlobHashesByRoot env sd fs") auto
  then show "fst (pruneUnreferencedBlobsInRoots env sz sd roots fs) = fs"
      "\<not> isOk (snd (pruneUnreferencedBlobsInRoots env sz sd roots fs))"
    by (simp_all add: pruneUnreferencedBlobsInRoots_def)
next
  assume bad: "\<not> stateReadable env sd fs name"
  have "\<not> isOk (overContexts env sd fs (\<lambda>name meta refs. (let root = pathClean (contextRuntimeRoot meta sd) in
        andThen (loadArtifactState env (artifactStatePath (contextDataDir root name)) fs) (\<lambda>st.
          Inr (addRefs root (case st of None \<Rightarrow> [] | Some s \<Rightarrow> stateRefs s) refs)))) names Map.empty)"
    by (rule overContexts_fails [OF assms(2)])
      (use bad in \<open>auto simp: stateReadable_def andThen_def Let_def isOk_iff split: sum.splits\<close>)
  then have "\<not> isOk (referencedOCIDigestsByRoot env sd fs)"
    using assms(1) by (simp add: referencedOCIDigestsByRoot_def forContexts_def)
  then obtain e where "referencedOCIDigestsByRoot env sd fs = Inl e" by (cases "referencedOCIDigestsByRoot env sd fs") auto
  then show "fst (pruneUnreferencedOCICacheInRoots env sz sd roots fs) = fs"
      "\<not> isOk (snd (pruneUnreferencedOCICacheInRoots env sz sd roots fs))"
    by (simp_all add: pruneUnreferencedOCICacheInRoots_def)
qed

section \<open>Image caches and root file systems\<close>

text \<open>
  The nodes a collection of the image cache of one root may remove, given the references: files
  of the blob and manifest directories whose digest is not referenced, image references to
  unreferenced manifests, and everything below a shared root file system whose key is not.
\<close>

definition ociDoomed :: "string \<Rightarrow> string set \<Rightarrow> string list \<Rightarrow> hostContent fnode \<Rightarrow> bool" where
  "ociDoomed root refs q n \<longleftrightarrow>
     (case n of DirNode \<Rightarrow> False
      | FileNode c \<Rightarrow>
          list_ex (\<lambda>d. below (pathSegs d) q \<and> digestFromCachePath (pathSegs d) q \<notin> refs)
            [pathJoin [ociStore root, ''blobs''], pathJoin [ociStore root, ''manifests'']]
          \<or> below (pathSegs (pathJoin [ociStore root, ''refs''])) q
            \<and> list_ex (\<lambda>d. d \<notin> refs) (case readOCIRefManifestDigest c of Inl e \<Rightarrow> [] | Inr d \<Rightarrow> [d]))
     \<or> (let s = pathSegs (sharedRootFSRoot root) in below s q \<and> q \<noteq> s \<and> q ! length s \<notin> refs)"

lemma ociDoomed_mono: "ociDoomed root refs q n \<Longrightarrow> small \<subseteq> refs \<Longrightarrow> ociDoomed root small q n"
  unfolding ociDoomed_def Let_def by (auto split: fnode.splits sum.splits)

text \<open>The nodes a listing-driven removal of directories touches.\<close>

lemma readDir_names: "readDir env root fs = Inr es \<Longrightarrow> wfFs fs \<Longrightarrow> (name, d) \<in> set es \<Longrightarrow> normalSeg name"
proof -
  assume r: "readDir env root fs = Inr es" "wfFs fs" "(name, d) \<in> set es"
  then obtain q n where q: "(q, n) \<in> set fs" "name = last q" "length q = Suc (length (pathSegs root))"
    by (auto simp: readDir_def Let_def children_def split: option.splits fnode.splits if_splits)
  then have "normalSegs q" using r(2) by (auto simp: wfFs_def)
  moreover have "q \<noteq> []" using q(3) by auto
  ultimately show ?thesis using q(2) by (simp add: normalSegs_def)
qed

lemma pruneDirs_keeps:
  assumes "pruneDirs env sz kind root live es fs = (fs', r)" "isAbs root" "\<And>name d. (name, d) \<in> set es \<Longrightarrow> normalSeg name"
    and "below (pathSegs root) q \<Longrightarrow> q \<noteq> pathSegs root \<Longrightarrow> q ! length (pathSegs root) \<in> live"
  shows "map_of fs' q = map_of fs q"
  using assms
proof (induction es arbitrary: fs r)
  case (Cons x es)
  obtain name d where x: "x = (name, d)" by fastforce
  have ih: "pruneDirs env sz kind root live es fs1 = (fs', r1) \<Longrightarrow> map_of fs' q = map_of fs1 q" for fs1 r1
    using Cons.IH [of fs1 r1] Cons.prems(2-4) by (meson list.set_intros(2))
  show ?case
  proof (cases "\<not> d \<or> name \<in> live")
    case False
    have "normalSeg name" using Cons.prems(3) x by auto
    then have p: "pathSegs (pathJoin [root, name]) = pathSegs root @ [name]"
      using Cons.prems(2) by (simp add: pathSegs_join_names)
    have out: "\<not> below (pathSegs (pathJoin [root, name])) q"
    proof
      assume "below (pathSegs (pathJoin [root, name])) q"
      then obtain t where "q = pathSegs root @ name # t" by (auto simp: p below_iff)
      then show False using Cons.prems(4) False by (auto simp: nth_append)
    qed
    obtain fs1 r1 where rm: "removeAll env (pathJoin [root, name]) fs = (fs1, r1)" by fastforce
    have same: "map_of fs1 q = map_of fs q" by (rule removeAll_other [OF rm out])
    obtain fs2 r2 where rest: "pruneDirs env sz kind root live es fs1 = (fs2, r2)" by fastforce
    have "fs' = fs1 \<or> fs' = fs2"
      using Cons.prems(1) x False rm rest by (cases r1) (auto simp: Let_def)
    then show ?thesis using same ih [of fs1 r2] rest by auto
  qed (use Cons.prems(1) x ih in auto)
qed simp

lemma pruneDirs_wf: "pruneDirs env sz kind root live es fs = (fs', r) \<Longrightarrow> wfFs fs \<Longrightarrow> wfFs fs'"
proof (induction es arbitrary: fs r)
  case (Cons x es)
  obtain name d where x: "x = (name, d)" by fastforce
  show ?case
  proof (cases "\<not> d \<or> name \<in> live")
    case False
    obtain fs1 r1 where rm: "removeAll env (pathJoin [root, name]) fs = (fs1, r1)" by fastforce
    obtain fs2 r2 where rest: "pruneDirs env sz kind root live es fs1 = (fs2, r2)" by fastforce
    have "fs' = fs1 \<or> fs' = fs2"
      using Cons.prems(1) x False rm rest by (cases r1) (auto simp: Let_def)
    then show ?thesis using removeAll_wf [OF Cons.prems(2) rm] Cons.IH [OF _ removeAll_wf [OF Cons.prems(2) rm]] rest by auto
  qed (use Cons x in auto)
qed simp

lemma pruneListed_keeps:
  assumes "pruneListed env sz kind root live fs = (fs', r)" "isAbs root" "wfFs fs"
    and "below (pathSegs root) q \<Longrightarrow> q \<noteq> pathSegs root \<Longrightarrow> q ! length (pathSegs root) \<in> live"
  shows "wfFs fs' \<and> map_of fs' q = map_of fs q"
proof (cases "readDir env root fs")
  case (Inl e)
  then show ?thesis using assms(1,3) by (cases e) (auto simp: pruneListed_def)
next
  case (Inr es)
  then have run: "pruneDirs env sz kind root live es fs = (fs', r)" using assms(1) by (simp add: pruneListed_def)
  show ?thesis
    using pruneDirs_keeps [OF run assms(2) readDir_names [OF Inr assms(3)] assms(4)] pruneDirs_wf [OF run assms(3)] by simp
qed

lemma pruneOCIStore_keeps:
  assumes "pruneUnreferencedOCIStore env sz (ociStore root) refs fs = (fs', r)" "wfFs fs \<and> map_of fs q = Some n"
    and "\<not> ociDoomed root refs q n"
  shows "wfFs fs' \<and> map_of fs' q = Some n"
proof (rule pruneAll_inv [OF assms(1) [unfolded pruneUnreferencedOCIStore_def], where P = "\<lambda>fs. wfFs fs \<and> map_of fs q = Some n"])
  fix s fsa fsb ra
  assume s: "s \<in> set [pruneOCIDigests env sz refs (pathJoin [ociStore root, ''blobs'']),
      pruneOCIDigests env sz refs (pathJoin [ociStore root, ''manifests'']),
      pruneUnreferencedOCIRefs env sz (ociStore root) refs]"
    and p: "wfFs fsa \<and> map_of fsa q = Some n" and run: "s fsa = (fsb, ra)"
  show "wfFs fsb \<and> map_of fsb q = Some n"
  proof (cases "s = pruneUnreferencedOCIRefs env sz (ociStore root) refs")
    case True
    note w = run [unfolded True pruneUnreferencedOCIRefs_def]
    have "map_of fsb q = Some n"
      by (rule walkPrune_keeps [OF w])
        (use p assms(3) in \<open>auto simp: ociDoomed_def andThen_def split: sum.splits if_splits\<close>)
    then show ?thesis using walkPrune_wf [OF w] p by simp
  next
    case False
    then obtain d where d: "s = pruneOCIDigests env sz refs d"
        "d \<in> set [pathJoin [ociStore root, ''blobs''], pathJoin [ociStore root, ''manifests'']]"
      using s by auto
    note w = run [unfolded d(1) pruneOCIDigests_def]
    have "map_of fsb q = Some n"
      by (rule walkPrune_keeps [OF w])
        (use p assms(3) d(2) in \<open>auto simp: ociDoomed_def Let_def split: if_splits\<close>)
    then show ?thesis using walkPrune_wf [OF w] p by simp
  qed
qed (rule assms(2))

lemma isAbs_sharedRootFS: "isAbs root \<Longrightarrow> isAbs (sharedRootFSRoot root)"
  by (simp add: sharedRootFSRoot_def isAbs_pathJoin)

lemma oci_step_keeps:
  assumes "s \<in> set (concat (map (\<lambda>root. [pruneUnreferencedOCIStore env sz (ociStore root) (refs root),
             pruneUnreferencedSharedRootFS env sz (sharedRootFSRoot root) (refs root)]) ks))"
    and "s fs = (fs', r)" "wfFs fs \<and> map_of fs q = Some n"
    and "\<forall>k \<in> set ks. isAbs k \<and> \<not> ociDoomed k (refs k) q n"
  shows "wfFs fs' \<and> map_of fs' q = Some n"
proof -
  from assms(1) obtain k where k: "k \<in> set ks"
    "s = pruneUnreferencedOCIStore env sz (ociStore k) (refs k)
     \<or> s = pruneUnreferencedSharedRootFS env sz (sharedRootFSRoot k) (refs k)" by auto
  have safe: "\<not> ociDoomed k (refs k) q n" "isAbs k" using assms(4) k(1) by auto
  from k(2) show ?thesis
  proof
    assume "s = pruneUnreferencedOCIStore env sz (ociStore k) (refs k)"
    then show ?thesis using pruneOCIStore_keeps [OF _ assms(3) safe(1)] assms(2) by simp
  next
    assume e: "s = pruneUnreferencedSharedRootFS env sz (sharedRootFSRoot k) (refs k)"
    have live: "below (pathSegs (sharedRootFSRoot k)) q \<Longrightarrow> q \<noteq> pathSegs (sharedRootFSRoot k) \<Longrightarrow>
        q ! length (pathSegs (sharedRootFSRoot k)) \<in> refs k"
      using safe(1) by (auto simp: ociDoomed_def Let_def)
    from pruneListed_keeps [OF assms(2) [unfolded e pruneUnreferencedSharedRootFS_def] isAbs_sharedRootFS [OF safe(2)] _ live] assms(3)
    show ?thesis by simp
  qed
qed

lemma oci_collection_keeps:
  assumes "pruneUnreferencedOCICacheInRoots env sz sd roots fs = (fs', r)"
    and "wfFs fs \<and> map_of fs q = Some n"
    and "\<And>refs k. referencedOCIDigestsByRoot env sd fs = Inr refs \<Longrightarrow> k \<in> set (uniqueCleanPaths roots) \<Longrightarrow>
      isAbs k \<and> \<not> ociDoomed k (refsOf refs k) q n"
  shows "wfFs fs' \<and> map_of fs' q = Some n"
proof (cases "referencedOCIDigestsByRoot env sd fs")
  case (Inl e)
  then show ?thesis using assms(1,2) by (simp add: pruneUnreferencedOCICacheInRoots_def)
next
  case (Inr refs)
  then have run: "pruneAll (concat (map (\<lambda>root. [pruneUnreferencedOCIStore env sz (ociStore root) (refsOf refs root),
             pruneUnreferencedSharedRootFS env sz (sharedRootFSRoot root) (refsOf refs root)]) (uniqueCleanPaths roots))) fs = (fs', r)"
    using assms(1) by (simp add: pruneUnreferencedOCICacheInRoots_def)
  have safe: "\<forall>k \<in> set (uniqueCleanPaths roots). isAbs k \<and> \<not> ociDoomed k (refsOf refs k) q n"
    using assms(3) [OF Inr] by blast
  show ?thesis
    by (rule pruneAll_inv [OF run, where P = "\<lambda>fs. wfFs fs \<and> map_of fs q = Some n", OF assms(2)])
      (rule oci_step_keeps [OF _ _ _ safe])
qed

text \<open>
  Collecting image caches removes nothing a context's artifact state refers to: a node is kept
  when the references of that one context already keep it in every collected root (its images'
  digests and blobs and its prepared root file systems count in its own runtime root, nothing in
  the others), whatever the other contexts refer to and whatever the run returns.
\<close>

theorem collection_keeps_image_files:
  assumes "pruneUnreferencedOCICacheInRoots env sz sd roots fs = (fs', r)"
    and "readDir env (contextsRoot sd) fs = Inr names" "(name, True) \<in> set names"
    and "loadContextMetadata env (pathJoin [contextsRoot sd, name]) fs = Inr meta"
    and "R = pathClean (contextRuntimeRoot meta sd)"
    and "loadArtifactState env (artifactStatePath (contextDataDir R name)) fs = Inr (Some st)"
    and "wfFs fs" "map_of fs q = Some n" "\<forall>k \<in> set (uniqueCleanPaths roots). isAbs k"
    and "\<forall>k \<in> set (uniqueCleanPaths roots). \<not> ociDoomed k (if k = R then set (stateRefs st) else {}) q n"
  shows "map_of fs' q = Some n"
proof -
  have "wfFs fs' \<and> map_of fs' q = Some n"
  proof (rule oci_collection_keeps [OF assms(1)])
    fix refs k
    assume r: "referencedOCIDigestsByRoot env sd fs = Inr refs" and k: "k \<in> set (uniqueCleanPaths roots)"
    have "set (stateRefs st) \<subseteq> refsOf refs R"
      using referenced_state_digest [OF r assms(2-4) assms(6) [unfolded assms(5)]] assms(5) by blast
    then show "isAbs k \<and> \<not> ociDoomed k (refsOf refs k) q n"
      using assms(9,10) k ociDoomed_mono [of k "refsOf refs k" q n] by (cases "k = R") auto
  qed (use assms(7,8) in simp)
  then show ?thesis by simp
qed

section \<open>Deleting contexts and collecting\<close>

text \<open>
  The nodes a removal of a context may touch, given the files: those under its metadata directory,
  and under the data and runtime directories its metadata name.
\<close>

definition contextArea :: "fsEnv \<Rightarrow> string \<Rightarrow> hostFiles \<Rightarrow> string \<Rightarrow> string list list" where
  "contextArea env sd fs i =
     (case loadContextMetadata env (contextMetaDir sd i) fs of
        Inl e \<Rightarrow> [] | Inr meta \<Rightarrow> contextDirs meta sd i)"

lemma removeContext_area:
  assumes "removeContext env sd i fs = (fs', r)"
  shows "wfFs fs \<Longrightarrow> wfFs fs'"
    and "map_of fs' q = map_of fs q \<or> map_of fs' q = None \<and> list_ex (\<lambda>p. below p q) (contextArea env sd fs i)"
proof -
  have "(wfFs fs \<longrightarrow> wfFs fs') \<and>
     (map_of fs' q = map_of fs q \<or> map_of fs' q = None \<and> list_ex (\<lambda>p. below p q) (contextArea env sd fs i))"
  proof (cases "loadContextMetadata env (contextMetaDir sd i) fs")
    case (Inl e)
    then show ?thesis using assms
      by (auto simp: removeContext_def serverContextDataDir_def contextDirFromMeta_def andThen_def
          split: sum.splits fsError.splits)
  next
    case (Inr meta)
    from removeContext_cases [OF assms Inr] show ?thesis
    proof (elim disjE exE conjE)
      fix ps
      assume run: "runSteps (map (\<lambda>p. fsStep (removeAll env p)) ps) fs = (fs', r)"
        and cl: "set (map pathClean ps) = set (map pathClean [contextDataDir (contextDataRoot meta sd) i,
              contextDataDir (contextRuntimeRoot meta sd) i, contextMetaDir sd i])"
      have "set (map pathSegs ps) = pathSegs ` set (map pathClean ps)"
        by (simp add: image_image pathSegs_pathClean)
      then have dirs: "set (map pathSegs ps) = set (contextDirs meta sd i)"
        unfolding cl by (simp add: contextDirs_def pathSegs_pathClean)
      have "removesBelow (contextDirs meta sd i) s" if "s \<in> set (map (\<lambda>p. fsStep (removeAll env p)) ps)" for s
        using that dirs by (auto intro!: removesBelow_step)
      from removesBelowD [OF removesBelow_runSteps [OF this] run, of q] have
        "map_of fs' q = map_of fs q \<or> map_of fs' q = None \<and> list_ex (\<lambda>p. below p q) (contextArea env sd fs i)"
        using Inr by (simp add: contextArea_def)
      moreover have "wfFs fs'" if "wfFs fs"
        by (rule runSteps_inv [OF run, where P = wfFs, OF that])
          (auto simp: fsStep_def split: sum.splits prod.splits dest: removeAll_wf)
      ultimately show ?thesis by blast
    qed simp
  qed
  then show "wfFs fs \<Longrightarrow> wfFs fs'"
    and "map_of fs' q = map_of fs q \<or> map_of fs' q = None \<and> list_ex (\<lambda>p. below p q) (contextArea env sd fs i)"
    by blast+
qed

definition contextAreas :: "fsEnv \<Rightarrow> string \<Rightarrow> hostFiles \<Rightarrow> string \<Rightarrow> string list list" where
  "contextAreas env sd fs i = contextArea env sd fs i @ contextDirs noMetadata sd i"

text \<open>Files that only lost nodes.\<close>

definition lessFiles :: "hostFiles \<Rightarrow> hostFiles \<Rightarrow> bool" where
  "lessFiles fs' fs \<longleftrightarrow> (\<forall>q. map_of fs' q = map_of fs q \<or> map_of fs' q = None)"

lemma lessFiles_refl: "lessFiles fs fs"
  by (simp add: lessFiles_def)

lemma lessFiles_trans: "lessFiles a b \<Longrightarrow> lessFiles b c \<Longrightarrow> lessFiles a c"
  unfolding lessFiles_def by metis

lemma contextArea_less:
  assumes "lessFiles fs' fs"
  shows "set (contextArea env sd fs' i) \<subseteq> set (contextAreas env sd fs i)"
proof -
  let ?p = "pathSegs (pathJoin [contextMetaDir sd i, contextMetaFile])"
  consider "map_of fs' ?p = map_of fs ?p" | "map_of fs' ?p = None"
    using assms unfolding lessFiles_def by metis
  then show ?thesis
  proof cases
    case 1
    then have "loadContextMetadata env (contextMetaDir sd i) fs' = loadContextMetadata env (contextMetaDir sd i) fs"
      by (simp add: loadContextMetadata_def readFile_def)
    then show ?thesis by (simp add: contextAreas_def contextArea_def)
  next
    case 2
    then have "loadContextMetadata env (contextMetaDir sd i) fs' = Inr noMetadata"
      by (simp add: loadContextMetadata_def readFile_def)
    then show ?thesis by (simp add: contextAreas_def contextArea_def)
  qed
qed

lemma removeContexts_area:
  assumes "removeContexts env sd targets is fs = (fs', r)" "lessFiles fs fs0" "wfFs fs"
    and "\<And>i. targets i \<noteq> None \<Longrightarrow> \<not> list_ex (\<lambda>p. below p q) (contextAreas env sd fs0 i)"
  shows "wfFs fs' \<and> map_of fs' q = map_of fs q"
  using assms
proof (induction "is" arbitrary: fs r)
  case (Cons i "is")
  show ?case
  proof (cases "targets i")
    case None
    then show ?thesis using Cons.IH [of fs r] Cons.prems by simp
  next
    case (Some c)
    obtain fs1 r1 where rm: "removeContext env sd i fs = (fs1, r1)" by fastforce
    note area = removeContext_area [OF rm]
    have "\<not> list_ex (\<lambda>p. below p q) (contextArea env sd fs i)"
      using contextArea_less [OF Cons.prems(2)] Cons.prems(4) [of i] Some by (auto simp: list_ex_iff subset_iff)
    then have same: "map_of fs1 q = map_of fs q" using area(2) [of q] by blast
    have "lessFiles fs1 fs" unfolding lessFiles_def
    proof
      show "map_of fs1 p = map_of fs p \<or> map_of fs1 p = None" for p using area(2) [of p] by metis
    qed
    then have less: "lessFiles fs1 fs0" using Cons.prems(2) by (rule lessFiles_trans)
    have wf: "wfFs fs1" using area(1) Cons.prems(3) .
    show ?thesis
    proof (cases r1)
      case (Inl e)
      then show ?thesis using Cons.prems(1) Some rm same wf by simp
    next
      case (Inr u)
      obtain fs2 r2 where rest: "removeContexts env sd targets is fs1 = (fs2, r2)" by fastforce
      have e: "fs' = fs2" using Cons.prems(1) Some rm Inr rest by simp
      have "wfFs fs' \<and> map_of fs' q = map_of fs1 q"
        by (rule Cons.IH [OF rest [folded e] less wf]) (rule Cons.prems(4))
      then show ?thesis using same by simp
    qed
  qed
qed simp

text \<open>What must be apart from a node for a deletion to leave it alone.\<close>

definition clearOfDeletion :: "fsEnv \<Rightarrow> string \<Rightarrow> hostFiles \<Rightarrow> deleteTargets \<Rightarrow> string list \<Rightarrow> string list \<Rightarrow> bool" where
  "clearOfDeletion env sd fs targets roots q \<longleftrightarrow>
     (\<forall>i. targets i \<noteq> None \<longrightarrow> \<not> list_ex (\<lambda>p. below p q) (contextAreas env sd fs i))
     \<and> list_all (\<lambda>r. isAbs r \<and> \<not> below (pathSegs r @ [''cache'']) q) (uniqueCleanPaths roots)"

lemma ociDoomed_outside:
  assumes "isAbs root" "\<not> below (pathSegs root @ [''cache'']) q"
  shows "\<not> ociDoomed root refs q n"
proof -
  have c: "normalSegs [''cache'', ''oci'']" "normalSegs [''cache'', runtimeRootFSDirName]"
      "normalSegs [''blobs'']" "normalSegs [''manifests'']" "normalSegs [''refs'']"
    by (simp_all add: normalSeg_def runtimeRootFSDirName_def)
  have o: "pathSegs (ociStore root) = pathSegs root @ [''cache'', ''oci'']" "isAbs (ociStore root)"
    using assms(1) c by (simp_all add: ociStore_def pathSegs_join_names isAbs_pathJoin)
  have s: "pathSegs (sharedRootFSRoot root) = pathSegs root @ [''cache'', runtimeRootFSDirName]"
    using assms(1) c by (simp add: sharedRootFSRoot_def pathSegs_join_names)
  have "\<not> below (pathSegs root @ ''cache'' # t) q" for t
    using assms(2) by (auto simp: below_iff)
  then show ?thesis
    using o s c by (auto simp: ociDoomed_def Let_def pathSegs_join_names split: fnode.splits)
qed

lemma set_uniqueLoop: "set (uniqueLoop seen vs) = pathClean ` set vs - seen"
  by (induction vs arbitrary: seen) auto

lemma set_uniqueCleanPaths: "set (uniqueCleanPaths vs) = pathClean ` set vs"
  by (simp add: uniqueCleanPaths_def set_uniqueLoop)

text \<open>
  Deleting contexts, with the collection that follows, loses nothing another context needs: the
  stored file for every hash in the tracked manifest of a context that is not deleted is there
  afterwards, unchanged, on every outcome of the deletion, errors included. (The file, and the
  state of that context, lie outside the directories of the deleted contexts and the caches of
  the collected roots, and the file is in the blob directory of its own data root only.)
\<close>

theorem deletion_keeps_other_blobs:
  assumes "deleteContexts env sz parseDuration now order sd L req fs = (fs', r)"
    and "listContexts env sd L fs = Inr contexts"
    and "selectDeleteTargets parseDuration now req contexts = Inr (targets, notFound)"
    and "stateRootsForContexts env sd fs contexts = Inr roots"
    and "wfFs fs" "isAbs sd" "normalSeg j"
    and "map_of fs (pathSegs (contextsRoot sd)) = Some DirNode" "map_of fs (pathSegs (contextMetaDir sd j)) = Some DirNode"
    and "map_of fs (pathSegs (pathJoin [contextMetaDir sd j, contextMetaFile])) = Some (FileNode (CMeta meta))"
    and "map_of fs (pathSegs (pathJoin [contextsRoot sd, j, contextManifestFile])) = Some (FileNode (CManifest es))"
    and "list_all (\<lambda>p. \<not> noRead env p \<and> clearOfDeletion env sd fs targets (csrData roots @ csrRuntime roots) p)
      [q, pathSegs (contextsRoot sd), pathSegs (contextMetaDir sd j), pathSegs (pathJoin [contextMetaDir sd j, contextMetaFile]),
       pathSegs (pathJoin [contextsRoot sd, j, contextManifestFile])]"
    and "e \<in> set es" "Kind e = KindFile" "Hash e \<noteq> []" "last q = Hash e" "map_of fs q = Some (FileNode c)"
    and "\<forall>k \<in> set (uniqueCleanPaths (csrData roots @ csrRuntime roots)).
       below (pathSegs (blobsDir k)) q \<longrightarrow> k = pathClean (contextDataRoot meta sd)"
  shows "map_of fs' q = Some (FileNode c)"
proof -
  let ?ps = "[q, pathSegs (contextsRoot sd), pathSegs (contextMetaDir sd j), pathSegs (pathJoin [contextMetaDir sd j, contextMetaFile]),
       pathSegs (pathJoin [contextsRoot sd, j, contextManifestFile])]"
  obtain fs1 r1 where rm: "removeContexts env sd targets (order targets) fs = (fs1, r1)" by fastforce
  have kept: "wfFs fs1 \<and> map_of fs1 p = map_of fs p" if "p \<in> set ?ps" for p
    by (rule removeContexts_area [OF rm lessFiles_refl assms(5)])
      (use assms(12) that in \<open>auto simp: clearOfDeletion_def\<close>)
  have kq: "map_of fs1 q = Some (FileNode c)" using kept [of q] assms(17) by simp
  note split = assms(1-4) rm
  show ?thesis
  proof (cases "\<exists>deleted. r1 = Inr deleted \<and> deleted \<noteq> []")
    case False
    then have "fs' = fs1" using split by (cases r1) (auto simp: deleteContexts_def)
    then show ?thesis using kq by simp
  next
    case True
    obtain fs2 r2 where oci: "pruneUnreferencedOCICacheInRoots env sz sd (csrRuntime roots) fs1 = (fs2, r2)" by fastforce
    have kept2: "wfFs fs2 \<and> map_of fs2 p = Some n" if p: "p \<in> set ?ps" "map_of fs p = Some n" for p n
    proof (rule oci_collection_keeps [OF oci])
      show "wfFs fs1 \<and> map_of fs1 p = Some n" using kept [OF p(1)] p(2) by simp
      fix refs k
      assume "k \<in> set (uniqueCleanPaths (csrRuntime roots))"
      then have "isAbs k \<and> \<not> below (pathSegs k @ [''cache'']) p"
        using assms(12) p(1) by (auto simp: clearOfDeletion_def set_uniqueCleanPaths list_all_iff)
      then show "isAbs k \<and> \<not> ociDoomed k (refsOf refs k) p n" using ociDoomed_outside by blast
    qed
    have kq2: "wfFs fs2" "map_of fs2 q = Some (FileNode c)" using kept2 [of q] assms(17) by auto
    obtain fs3 r3 where blobs: "pruneUnreferencedBlobsInRoots env sz sd (csrData roots @ csrRuntime roots) fs2 = (fs3, r3)" by fastforce
    have "fs' = fs2 \<or> fs' = fs3"
      using split True oci blobs
      by (cases r2; cases r3) (auto simp: deleteContexts_def pruneCachesAfterContextDelete_def Let_def split: sum.splits prod.splits)
    moreover have "map_of fs3 q = Some (FileNode c)"
    proof -
      have dir: "map_of fs2 (pathSegs (contextMetaDir sd j)) = Some DirNode" "map_of fs2 (pathSegs (contextsRoot sd)) = Some DirNode"
        using kept2 assms(8,9) by simp_all
      have child: "(pathSegs (contextMetaDir sd j), DirNode) \<in> set (children (pathSegs (contextsRoot sd)) fs2)"
        using map_of_SomeD [OF dir(1)] contextMetaDir_segs [OF assms(6,7)] contextsRoot_segs [OF assms(6)]
        by (simp add: children_def below_def)
      obtain names where names: "readDir env (contextsRoot sd) fs2 = Inr names"
        using dir(2) assms(12) by (auto simp: readDir_def)
      have "last (pathSegs (contextMetaDir sd j)) = j" using contextMetaDir_segs [OF assms(6,7)] by simp
      then have mem: "(j, True) \<in> set names"
        using names dir(2) assms(12) child
        by (force simp: readDir_def Let_def isDirNode_def image_iff split: if_splits)
      have meta: "loadContextMetadata env (pathJoin [contextsRoot sd, j]) fs2 = Inr meta"
        using kept2 assms(10,12) by (simp add: loadContextMetadata_def readFile_def contextMetaDir_def)
      have manifest: "loadTrackedManifest env sd j fs2 = Inr es"
        using kept2 assms(11,12) by (simp add: loadTrackedManifest_def readFile_def)
      show ?thesis
        by (rule manifest_blobs_kept [OF blobs names mem meta manifest assms(13-15) kq2 assms(16,18)])
    qed
    ultimately show ?thesis using kq2(2) by blast
  qed
qed

section \<open>The image cache and its collector agree\<close>

lemma trimSuffix_hex: "list_all hexByte h \<Longrightarrow> trimSuffix h ''.json'' = h"
proof -
  assume "list_all hexByte h"
  then have no: "CHR ''.'' \<notin> set h" using hexByte_no by (auto simp: list_all_iff)
  have "\<not> hasSuffix h ''.json''" using no by (auto simp: hasSuffix_iff)
  then show ?thesis by (simp add: trimSuffix_def)
qed

lemma trimSuffix_json: "trimSuffix (h @ ''.json'') ''.json'' = h"
  by (simp add: trimSuffix_def hasSuffix_iff)

text \<open>
  The collector reads digests off the paths of cached files exactly as the store lays them out:
  from the path of the blob and of the manifest of any proper digest it gets that digest back, so
  a digest in the references protects precisely the files the store keeps under it.
\<close>

theorem cached_digest_roundtrip:
  assumes "isAbs root" "properDigest d"
  shows "digestFromCachePath (pathSegs (BlobsDir root)) (pathSegs (BlobPath sha root d)) = d
    \<and> digestFromCachePath (pathSegs (pathJoin [root, ''manifests''])) (pathSegs (ManifestPath sha root d)) = d"
proof -
  obtain a h where p: "d = a @ CHR '':'' # h" "digestParts sha d = (a, h)" "list_all hexByte h"
    using properDigest_parts [OF assms(2), of sha] by metis
  have m: "pathSegs (pathJoin [root, ''manifests'']) = pathSegs root @ [''manifests'']"
    using assms(1) normalSeg_manifests by (simp add: pathSegs_join_names)
  show ?thesis
    using BlobPath_segs [OF assms p(2)] ManifestPath_segs [OF assms p(2)] BlobsDir_segs [OF assms(1)] m
      trimSuffix_hex [OF p(3)] trimSuffix_json p(1)
    by (simp add: digestFromCachePath_def Let_def)
qed

theorem cached_digest_roundtrip_witness:
  "digestFromCachePath (pathSegs (BlobsDir ''/c'')) (pathSegs (BlobPath (\<lambda>s. s) ''/c'' ''sha256:0badcafe'')) = ''sha256:0badcafe''"
proof -
  have "isAbs ''/c''" "properDigest ''sha256:0badcafe''" by code_simp+
  from cached_digest_roundtrip [OF this, of "\<lambda>s. s"] show ?thesis by simp
qed

section \<open>Witnesses\<close>

definition gcEntry :: entry where
  "gcEntry = \<lparr>Path = ''x'', Kind = KindFile, Hash = ''ab1'', Size = 3, Mode = 420, ModTime = 0, Linkname = []\<rparr>"

definition gcState :: artifactState where
  "gcState = \<lparr>asImages = [\<lparr>aiReference = ''alpine'', aiDigest = ''sha256:m'', aiBlobs = [''sha256:l'']\<rparr>],
     asPrepared = [], asUpdatedAt = 0\<rparr>"

definition gcFs :: hostFiles where
  "gcFs = [([''s'', ''contexts''], DirNode),
     ([''s'', ''contexts'', ''a''], DirNode),
     ([''s'', ''contexts'', ''a'', ''context.json''], FileNode (CMeta noMetadata)),
     ([''s'', ''contexts'', ''a'', ''tracked-manifest.json''], FileNode (CManifest [gcEntry])),
     ([''s'', ''contexts'', ''a'', ''runtime'', ''artifacts.json''], FileNode (CArtifacts gcState)),
     ([''s'', ''contexts'', ''b''], DirNode),
     ([''s'', ''contexts'', ''b'', ''context.json''], FileNode (CMeta noMetadata)),
     ([''s'', ''contexts'', ''b'', ''tracked-manifest.json''], FileNode CGarbage),
     ([''s'', ''blobs'', ''ab'', ''ab1''], FileNode (CData 3)),
     ([''s'', ''blobs'', ''cd'', ''cd2''], FileNode (CData 4)),
     ([''s'', ''cache'', ''oci'', ''blobs'', ''sha256'', ''l''], FileNode (CData 5))]"

text \<open>The same without the damaged context.\<close>

definition gcFsSound :: hostFiles where
  "gcFsSound = filter (\<lambda>(q, n). \<not> below [''s'', ''contexts'', ''b''] q) gcFs"

lemma gc_wf: "wfFs gcFs"
  unfolding wfFs_def normalSegs_def by code_simp

lemma gc_wf_sound: "wfFs gcFsSound"
  unfolding gcFsSound_def by (rule wfFs_filter [OF gc_wf])

lemma gc_readDir: "readDir calmFs (contextsRoot ''/s'') gcFsSound = Inr [(''a'', True)]"
  by code_simp

lemma gc_readDir2: "readDir calmFs (contextsRoot ''/s'') gcFs = Inr [(''a'', True), (''b'', True)]"
  by code_simp

lemma gc_meta: "loadContextMetadata calmFs (pathJoin [contextsRoot ''/s'', ''a'']) gcFsSound = Inr noMetadata"
  by code_simp

lemma gc_manifest: "loadTrackedManifest calmFs ''/s'' ''a'' gcFsSound = Inr [gcEntry]"
  by code_simp

lemma gc_refs: "referencedBlobHashesByRoot calmFs ''/s'' gcFsSound = Inr [''/s'' \<mapsto> {''ab1''}]"
proof -
  have r: "pathClean (contextDataRoot noMetadata ''/s'') = ''/s''" "manifestHashes [gcEntry] = [''ab1'']" by code_simp+
  show ?thesis
    by (simp add: referencedBlobHashesByRoot_def forContexts_def gc_readDir gc_meta gc_manifest andThen_def r
        addRefs_def refsOf_def)
qed

lemma gc_run: "isOk (snd (pruneUnreferencedBlobsInRoots calmFs (\<lambda>_. 1) ''/s'' [''/s''] gcFsSound))"
  by code_simp

lemma gc_paths: "pathSegs (blobsDir ''/s'') = [''s'', ''blobs'']" "uniqueCleanPaths [''/s''] = [''/s'']"
  by code_simp+

theorem blob_collection_exact_witness:
  "let fs' = fst (pruneUnreferencedBlobsInRoots calmFs (\<lambda>_. 1) ''/s'' [''/s''] gcFsSound) in
   map_of fs' [''s'', ''blobs'', ''ab'', ''ab1''] = Some (FileNode (CData 3))
   \<and> map_of fs' [''s'', ''blobs'', ''cd'', ''cd2''] = None"
proof -
  let ?run = "pruneUnreferencedBlobsInRoots calmFs (\<lambda>_. 1) ''/s'' [''/s''] gcFsSound"
  have run: "?run = (fst ?run, snd ?run)" by simp
  have b: "below (pathSegs (blobsDir ''/s'')) [''s'', ''blobs'', x, y]" for x y
    by (simp add: gc_paths below_def)
  have r: "''/s'' \<in> set (uniqueCleanPaths [''/s''])" "\<forall>k \<in> set (uniqueCleanPaths [''/s'']). k \<noteq> ''/s'' \<longrightarrow> \<not> below (pathSegs (blobsDir k)) q" for q
    by (simp_all add: gc_paths)
  have m: "map_of gcFsSound [''s'', ''blobs'', ''ab'', ''ab1''] = Some (FileNode (CData 3))"
      "map_of gcFsSound [''s'', ''blobs'', ''cd'', ''cd2''] = Some (FileNode (CData 4))" by code_simp+
  show ?thesis
    using blob_collection_exact [OF run gc_refs gc_wf_sound m(1) r(1) b r(2)]
      blob_collection_exact [OF run gc_refs gc_wf_sound m(2) r(1) b r(2)] gc_run
    by (simp add: refsOf_def Let_def)
qed

theorem collection_keeps_manifest_blobs_witness:
  "map_of (fst (pruneUnreferencedBlobsInRoots calmFs (\<lambda>_. 1) ''/s'' [''/s''] gcFsSound)) [''s'', ''blobs'', ''ab'', ''ab1'']
     = Some (FileNode (CData 3))"
proof -
  let ?run = "pruneUnreferencedBlobsInRoots calmFs (\<lambda>_. 1) ''/s'' [''/s''] gcFsSound"
  have run: "?run = (fst ?run, snd ?run)" by simp
  have m: "map_of gcFsSound [''s'', ''blobs'', ''ab'', ''ab1''] = Some (FileNode (CData 3))" by code_simp
  have r: "\<forall>k \<in> set (uniqueCleanPaths [''/s'']). below (pathSegs (blobsDir k)) [''s'', ''blobs'', ''ab'', ''ab1'']
      \<longrightarrow> k = pathClean (contextDataRoot noMetadata ''/s'')" by code_simp
  show ?thesis
    by (rule collection_keeps_manifest_blobs [OF run gc_readDir _ gc_meta gc_manifest _ _ _ gc_wf_sound m _ r, of gcEntry])
      (simp_all add: gcEntry_def)
qed

theorem damaged_state_stops_collection_witness:
  "fst (pruneUnreferencedBlobsInRoots calmFs (\<lambda>_. 1) ''/s'' [''/s''] gcFs) = gcFs
   \<and> \<not> isOk (snd (pruneUnreferencedBlobsInRoots calmFs (\<lambda>_. 1) ''/s'' [''/s''] gcFs))"
proof -
  have "\<not> manifestReadable calmFs ''/s'' gcFs ''b''" by code_simp
  then show ?thesis
    using damaged_state_stops_collection [OF gc_readDir2, of "''b''" "\<lambda>_. 1" "[''/s'']"] by simp
qed

theorem collection_keeps_image_files_witness:
  "map_of (fst (pruneUnreferencedOCICacheInRoots calmFs (\<lambda>_. 1) ''/s'' [''/s''] gcFsSound))
     [''s'', ''cache'', ''oci'', ''blobs'', ''sha256'', ''l''] = Some (FileNode (CData 5))"
proof -
  let ?run = "pruneUnreferencedOCICacheInRoots calmFs (\<lambda>_. 1) ''/s'' [''/s''] gcFsSound"
  have run: "?run = (fst ?run, snd ?run)" by simp
  have R: "''/s'' = pathClean (contextRuntimeRoot noMetadata ''/s'')" by code_simp
  have st: "loadArtifactState calmFs (artifactStatePath (contextDataDir ''/s'' ''a'')) gcFsSound = Inr (Some gcState)"
    by code_simp
  have m: "map_of gcFsSound [''s'', ''cache'', ''oci'', ''blobs'', ''sha256'', ''l''] = Some (FileNode (CData 5))" by code_simp
  have r: "\<forall>k \<in> set (uniqueCleanPaths [''/s'']). isAbs k" by code_simp
  have d: "\<forall>k \<in> set (uniqueCleanPaths [''/s'']). \<not> ociDoomed k (if k = ''/s'' then set (stateRefs gcState) else {})
      [''s'', ''cache'', ''oci'', ''blobs'', ''sha256'', ''l''] (FileNode (CData 5))" by code_simp
  show ?thesis
    by (rule collection_keeps_image_files [OF run gc_readDir _ gc_meta R st gc_wf_sound m r d]) simp
qed

definition gcFsTwo :: hostFiles where
  "gcFsTwo = filter (\<lambda>(q, n). n \<noteq> FileNode CGarbage) gcFs"

definition gcRequest :: deleteRequest where
  "gcRequest = \<lparr>drIDs = [''b''], drAll = False, drOlderThan = []\<rparr>"

definition gcSummary :: "string \<Rightarrow> contextSummary" where
  "gcSummary i = \<lparr>csID = i, csName = i, csPath = contextDataDir ''/s'' i, csWorkspace = pathJoin [contextDataDir ''/s'' i, ''workspace''],
     csCreatedAt = 0, csUpdatedAt = 0, csRootHint = [], csActive = False\<rparr>"

definition gcLocks :: contextLocks where
  "gcLocks = \<lparr>lockedContexts = {}, activeContexts = Map.empty\<rparr>"

theorem deletion_keeps_other_blobs_witness:
  "map_of (fst (deleteContexts calmFs (\<lambda>_. 1) (\<lambda>_. None) 9 (\<lambda>_. [''b'']) ''/s'' gcLocks gcRequest gcFsTwo))
     [''s'', ''blobs'', ''ab'', ''ab1''] = Some (FileNode (CData 3))"
proof -
  let ?run = "deleteContexts calmFs (\<lambda>_. 1) (\<lambda>_. None) 9 (\<lambda>_. [''b'']) ''/s'' gcLocks gcRequest gcFsTwo"
  let ?cs = "[gcSummary ''a'', gcSummary ''b'']"
  let ?t = "[''b'' \<mapsto> gcSummary ''b'']"
  have run: "?run = (fst ?run, snd ?run)" by simp
  have list: "listContexts calmFs ''/s'' gcLocks gcFsTwo = Inr ?cs" by code_simp
  have t: "trimSpace [] = []" by code_simp
  have sel: "selectDeleteTargets (\<lambda>_. None) 9 gcRequest ?cs = Inr (?t, [])"
    by (simp add: selectDeleteTargets_def addOlderThanTargets_def andThen_def mapContextsByID_def gcRequest_def gcSummary_def t)
  have roots: "stateRootsForContexts calmFs ''/s'' gcFsTwo ?cs = Inr \<lparr>csrData = [''/s''], csrRuntime = [''/s'']\<rparr>" by code_simp
  have wf: "wfFs gcFsTwo" unfolding gcFsTwo_def by (rule wfFs_filter [OF gc_wf])
  have nodes: "isAbs ''/s''" "normalSeg ''a''" "map_of gcFsTwo (pathSegs (contextsRoot ''/s'')) = Some DirNode"
      "map_of gcFsTwo (pathSegs (contextMetaDir ''/s'' ''a'')) = Some DirNode"
      "map_of gcFsTwo (pathSegs (pathJoin [contextMetaDir ''/s'' ''a'', contextMetaFile])) = Some (FileNode (CMeta noMetadata))"
      "map_of gcFsTwo (pathSegs (pathJoin [contextsRoot ''/s'', ''a'', contextManifestFile])) = Some (FileNode (CManifest [gcEntry]))"
      "map_of gcFsTwo [''s'', ''blobs'', ''ab'', ''ab1''] = Some (FileNode (CData 3))"
    by code_simp+
  have areas: "contextAreas calmFs ''/s'' gcFsTwo ''b'' = replicate 6 [''s'', ''contexts'', ''b'']" by code_simp
  have u: "uniqueCleanPaths [''/s'', ''/s''] = [''/s'']" "pathSegs ''/s'' = [''s'']" by code_simp+
  have segs: "pathSegs (contextsRoot ''/s'') = [''s'', ''contexts'']" "pathSegs (contextMetaDir ''/s'' ''a'') = [''s'', ''contexts'', ''a'']"
      "pathSegs (pathJoin [contextMetaDir ''/s'' ''a'', contextMetaFile]) = [''s'', ''contexts'', ''a'', ''context.json'']"
      "pathSegs (pathJoin [contextsRoot ''/s'', ''a'', contextManifestFile]) = [''s'', ''contexts'', ''a'', ''tracked-manifest.json'']"
    by code_simp+
  have readable: "\<not> noRead calmFs p" for p by (simp add: calmFs_def)
  have clear: "list_all (\<lambda>p. \<not> noRead calmFs p \<and> clearOfDeletion calmFs ''/s'' gcFsTwo ?t ([''/s''] @ [''/s'']) p)
      [[''s'', ''blobs'', ''ab'', ''ab1''], pathSegs (contextsRoot ''/s''), pathSegs (contextMetaDir ''/s'' ''a''),
       pathSegs (pathJoin [contextMetaDir ''/s'' ''a'', contextMetaFile]),
       pathSegs (pathJoin [contextsRoot ''/s'', ''a'', contextManifestFile])]"
    by (simp add: clearOfDeletion_def areas u segs nodes(1) readable below_def numeral_eq_Suc)
  have one: "\<forall>k \<in> set (uniqueCleanPaths ([''/s''] @ [''/s''])). below (pathSegs (blobsDir k)) [''s'', ''blobs'', ''ab'', ''ab1'']
      \<longrightarrow> k = pathClean (contextDataRoot noMetadata ''/s'')" by code_simp
  show ?thesis
    using deletion_keeps_other_blobs [OF run list sel roots wf nodes(1-6), of "[''s'', ''blobs'', ''ab'', ''ab1'']" gcEntry "CData 3"]
      clear one nodes(7) by (simp add: gcEntry_def)
qed
end
