(* ===== verification/WorkTree.thy ===== *)
theory WorkTree
  imports HostFS
begin

text \<open>
  The tree of a workspace: directories with their modes, files with mode, content and time,
  symbolic links, each under the elements of its path below the root of the workspace. The
  operations are those of package os on paths that do not lead through a symbolic link.
\<close>

datatype wsNode = WDir nat | WFile nat string int | WLink string

type_synonym wsPath = "string list"
type_synonym wsTree = "(wsPath \<times> wsNode) list"

definition newDirMode :: nat where "newDirMode = 493"

definition isWDir :: "wsNode \<Rightarrow> bool" where
  "isWDir n = (case n of WDir m \<Rightarrow> True | _ \<Rightarrow> False)"

text \<open>\<open>os.Lstat\<close>: a parent that is not a directory is an error of its own.\<close>

definition lstatPath :: "wsPath \<Rightarrow> wsTree \<Rightarrow> fsError + wsNode" where
  "lstatPath p t =
     (case map_of t p of
        Some n \<Rightarrow> Inr n
      | None \<Rightarrow>
          if list_ex (\<lambda>k. case map_of t (take k p) of Some n \<Rightarrow> \<not> isWDir n | None \<Rightarrow> False) [0..<length p]
          then Inl FsError else Inl FsNotExist)"

text \<open>\<open>os.RemoveAll\<close>, and the subtree a rename takes along and puts elsewhere.\<close>

definition cutTree :: "wsPath \<Rightarrow> wsTree \<Rightarrow> wsTree" where
  "cutTree p t = filter (\<lambda>(q, n). \<not> below p q) t"

definition subTree :: "wsPath \<Rightarrow> wsTree \<Rightarrow> wsTree" where
  "subTree p t = map (\<lambda>(q, n). (drop (length p) q, n)) (filter (\<lambda>(q, n). below p q) t)"

definition graftTree :: "wsPath \<Rightarrow> wsTree \<Rightarrow> wsTree \<Rightarrow> wsTree" where
  "graftTree p s t = cutTree p t @ map (\<lambda>(q, n). (p @ q, n)) s"

definition putNode :: "wsPath \<Rightarrow> wsNode \<Rightarrow> wsTree \<Rightarrow> wsTree" where
  "putNode p n t = AList.update p n t"

text \<open>\<open>os.MkdirAll\<close> and \<open>os.Chmod\<close>.\<close>

fun makeDirs :: "(wsPath \<Rightarrow> bool) \<Rightarrow> wsPath list \<Rightarrow> wsTree \<Rightarrow> wsTree \<times> (fsError + unit)" where
  "makeDirs bad [] t = (t, Inr ())"
| "makeDirs bad (p # ps) t =
     (case map_of t p of
        Some (WDir m) \<Rightarrow> makeDirs bad ps t
      | Some n \<Rightarrow> (t, Inl FsError)
      | None \<Rightarrow> if bad p then (t, Inl FsError) else makeDirs bad ps (t @ [(p, WDir newDirMode)]))"

definition prefixesOf :: "wsPath \<Rightarrow> wsPath list" where
  "prefixesOf p = map (\<lambda>k. take k p) [0..<Suc (length p)]"

definition makeDirAll :: "(wsPath \<Rightarrow> bool) \<Rightarrow> wsPath \<Rightarrow> wsTree \<Rightarrow> wsTree \<times> (fsError + unit)" where
  "makeDirAll bad p t = makeDirs bad (prefixesOf p) t"

definition chmodNode :: "nat \<Rightarrow> wsNode \<Rightarrow> wsNode" where
  "chmodNode m n = (case n of WDir _ \<Rightarrow> WDir m | WFile _ c mt \<Rightarrow> WFile m c mt | WLink l \<Rightarrow> WLink l)"

definition hasChildren :: "wsPath \<Rightarrow> wsTree \<Rightarrow> bool" where
  "hasChildren p t = list_ex (\<lambda>(q, n). below p q \<and> q \<noteq> p) t"

section \<open>Facts\<close>

definition treeOk :: "wsTree \<Rightarrow> bool" where
  "treeOk t \<longleftrightarrow> distinct (map fst t) \<and> (\<exists>m. map_of t [] = Some (WDir m)) \<and>
     (\<forall>q n. map_of t q = Some n \<longrightarrow> q \<noteq> [] \<longrightarrow> (\<exists>m. map_of t (butlast q) = Some (WDir m)))"

lemma below_antisym: "below p q \<Longrightarrow> below q p \<Longrightarrow> p = q"
  by (auto simp: below_iff)

lemma below_butlast: "below (butlast q) q"
  unfolding below_iff by (cases q rule: rev_cases) auto

lemma below_proper: "below p q \<Longrightarrow> p \<noteq> q \<Longrightarrow> below p (butlast q)"
  unfolding below_iff by (metis append_Nil2 butlast_append)

lemma map_of_cutTree: "map_of (cutTree p t) q = (if below p q then None else map_of t q)"
  unfolding cutTree_def using map_of_filter_fst [of "\<lambda>q. \<not> below p q" t q] by simp

lemma map_of_shift: "map_of (map (\<lambda>(q, n). (p @ q, n)) s) q = (if below p q then map_of s (drop (length p) q) else None)"
proof (induction s)
  case (Cons x s)
  obtain k n where x: "x = (k, n)" by fastforce
  show ?case
  proof (cases "below p q")
    case True
    then obtain r where "q = p @ r" by (auto simp: below_iff)
    then show ?thesis using Cons x by simp
  next
    case False
    then have "p @ k \<noteq> q" by auto
    then show ?thesis using Cons x False by simp
  qed
qed simp

lemma map_of_graftTree:
  "map_of (graftTree p s t) q = (if below p q then map_of s (drop (length p) q) else map_of t q)"
  unfolding graftTree_def
  by (simp add: map_add_def map_of_shift map_of_cutTree split: option.splits)

lemma map_of_subTree: "map_of (subTree p t) q = map_of t (p @ q)"
proof (induction t)
  case (Cons x t)
  obtain k n where x: "x = (k, n)" by fastforce
  show ?case
  proof (cases "below p k")
    case True
    then obtain r where "k = p @ r" by (auto simp: below_iff)
    then show ?thesis using Cons x by (simp add: subTree_def)
  next
    case False
    then have "k \<noteq> p @ q" by auto
    then show ?thesis using Cons x False by (simp add: subTree_def)
  qed
qed (simp add: subTree_def)

lemma map_of_putNode: "map_of (putNode p n t) q = (if q = p then Some n else map_of t q)"
  by (simp add: putNode_def update_conv')

lemma hasChildren_iff: "hasChildren p t \<longleftrightarrow> (\<exists>q n. map_of t q = Some n \<and> below p q \<and> q \<noteq> p)"
proof
  assume "hasChildren p t"
  then obtain q n where q: "(q, n) \<in> set t" "below p q" "q \<noteq> p" by (auto simp: hasChildren_def list_ex_iff)
  then show "\<exists>q n. map_of t q = Some n \<and> below p q \<and> q \<noteq> p" using weak_map_of_SomeI [OF q(1)] by blast
qed (auto simp: hasChildren_def list_ex_iff dest: map_of_SomeD)

lemma set_prefixesOf: "q \<in> set (prefixesOf p) \<longleftrightarrow> below q p"
proof
  assume "q \<in> set (prefixesOf p)"
  then obtain n where "q = take n p" unfolding prefixesOf_def set_map by blast
  then show "below q p" by (metis append_take_drop_id below_append)
next
  assume "below q p"
  then have "q = take (length q) p" "length q \<le> length p" by (auto simp: below_iff)
  then show "q \<in> set (prefixesOf p)"
    unfolding prefixesOf_def by (metis atLeastLessThan_iff image_eqI le_imp_less_Suc set_map set_upt zero_le)
qed

lemma makeDirs_get:
  assumes "makeDirs bad ps t = (t', r)"
  shows "(\<forall>q. map_of t' q = map_of t q \<or> map_of t q = None \<and> q \<in> set ps \<and> map_of t' q = Some (WDir newDirMode))
    \<and> (r = Inr () \<longrightarrow> (\<forall>q \<in> set ps. \<exists>m. map_of t' q = Some (WDir m)))"
  using assms
proof (induction ps arbitrary: t)
  case (Cons p ps)
  show ?case
  proof (cases "map_of t p")
    case None
    show ?thesis
    proof (cases "bad p")
      case True
      then show ?thesis using Cons.prems None by auto
    next
      case False
      then have m: "makeDirs bad ps (t @ [(p, WDir newDirMode)]) = (t', r)" using Cons.prems None by simp
      have up: "map_of (t @ [(p, WDir newDirMode)]) q = (if q = p then Some (WDir newDirMode) else map_of t q)" for q
        using None by (simp add: map_add_def split: option.splits)
      note ih = Cons.IH [OF m]
      have "map_of t' p = Some (WDir newDirMode)" using ih up [of p] by (metis option.distinct(1))
      then show ?thesis using ih up None by (metis list.set_intros set_ConsD)
    qed
  next
    case (Some n)
    then show ?thesis
    proof (cases n)
      case (WDir d)
      then have m: "makeDirs bad ps t = (t', r)" using Cons.prems Some by simp
      have "map_of t' p = Some (WDir d)"
        using Cons.IH [OF m] Some WDir by (metis option.distinct(1))
      then show ?thesis using Cons.IH [OF m] by auto
    qed (use Cons.prems Some in auto)
  qed
qed simp

lemma makeDirAll_get:
  assumes "makeDirAll bad p t = (t', r)"
  shows "map_of t' q = map_of t q \<or> map_of t q = None \<and> below q p \<and> map_of t' q = Some (WDir newDirMode)"
    and "r = Inr () \<Longrightarrow> below q p \<Longrightarrow> \<exists>m. map_of t' q = Some (WDir m)"
proof -
  note g = makeDirs_get [OF assms [unfolded makeDirAll_def]]
  show "map_of t' q = map_of t q \<or> map_of t q = None \<and> below q p \<and> map_of t' q = Some (WDir newDirMode)"
    using conjunct1 [OF g, THEN spec, of q] by (simp add: set_prefixesOf)
  show "r = Inr () \<Longrightarrow> below q p \<Longrightarrow> \<exists>m. map_of t' q = Some (WDir m)"
    using conjunct2 [OF g] by (simp add: set_prefixesOf)
qed

text \<open>What keeps a tree a tree.\<close>

lemma treeOk_parent: "treeOk t \<Longrightarrow> map_of t q = Some n \<Longrightarrow> q \<noteq> [] \<Longrightarrow> \<exists>m. map_of t (butlast q) = Some (WDir m)"
  unfolding treeOk_def by blast

lemma treeOk_ancestor:
  assumes "treeOk t" "map_of t q = Some n" "below p q" "p \<noteq> q"
  shows "\<exists>m. map_of t p = Some (WDir m)"
  using assms(2-4)
proof (induction q arbitrary: n rule: length_induct)
  case (1 q)
  then have "q \<noteq> []" by (auto simp: below_iff)
  then obtain m where m: "map_of t (butlast q) = Some (WDir m)" using treeOk_parent [OF assms(1) "1.prems"(1)] by blast
  show ?case
  proof (cases "p = butlast q")
    case False
    have "length (butlast q) < length q" using \<open>q \<noteq> []\<close> by simp
    then show ?thesis using "1.IH" m below_proper [OF "1.prems"(2,3)] False by blast
  qed (use m in simp)
qed

lemma treeOk_cut: "treeOk t \<Longrightarrow> p \<noteq> [] \<Longrightarrow> treeOk (cutTree p t)"
proof -
  assume t: "treeOk t" "p \<noteq> []"
  have "distinct (map fst (cutTree p t))" using t(1) by (auto simp: treeOk_def cutTree_def intro: distinct_map_filter)
  moreover have "\<exists>m. map_of (cutTree p t) [] = Some (WDir m)"
    using t by (cases p) (auto simp: treeOk_def map_of_cutTree below_def)
  moreover have "\<exists>m. map_of (cutTree p t) (butlast q) = Some (WDir m)"
    if q: "map_of (cutTree p t) q = Some n" "q \<noteq> []" for q n
  proof -
    have b: "\<not> below p q" "map_of t q = Some n" using q(1) by (auto simp: map_of_cutTree split: if_splits)
    then have "\<not> below p (butlast q)" using below_trans [OF _ below_butlast] by blast
    then show ?thesis using treeOk_parent [OF t(1) b(2) q(2)] by (simp add: map_of_cutTree)
  qed
  ultimately show ?thesis unfolding treeOk_def by blast
qed

lemma distinct_put: "distinct (map fst t) \<Longrightarrow> distinct (map fst (putNode p n t))"
  by (simp add: putNode_def distinct_update)

lemma treeOk_put_same:
  assumes "treeOk t" "map_of t p = Some k" "isWDir n = isWDir k"
  shows "treeOk (putNode p n t)"
proof -
  have dir: "(\<exists>m. map_of (putNode p n t) q = Some (WDir m)) \<longleftrightarrow> (\<exists>m. map_of t q = Some (WDir m))" for q
    using assms(2,3) by (auto simp: map_of_putNode isWDir_def split: wsNode.splits)
  have some: "map_of (putNode p n t) q = Some l \<Longrightarrow> \<exists>l'. map_of t q = Some l'" for q l
    using assms(2) by (auto simp: map_of_putNode split: if_splits)
  show ?thesis
    using assms(1) distinct_put some unfolding treeOk_def dir by metis
qed

lemma treeOk_put_leaf:
  assumes "treeOk t" "p \<noteq> []" "map_of t (butlast p) = Some (WDir m)" "\<not> (\<exists>k. map_of t p = Some (WDir k))"
  shows "treeOk (putNode p n t)"
proof -
  have keep: "map_of (putNode p n t) q = Some (WDir k)" if "map_of t q = Some (WDir k)" for q k
    using that assms(4) by (auto simp: map_of_putNode)
  have "distinct (map fst (putNode p n t))" using assms(1) distinct_put by (auto simp: treeOk_def)
  moreover have "\<exists>k. map_of (putNode p n t) [] = Some (WDir k)" using assms(1) keep unfolding treeOk_def by blast
  moreover have "\<exists>k. map_of (putNode p n t) (butlast q) = Some (WDir k)"
    if l: "map_of (putNode p n t) q = Some l" and q: "q \<noteq> []" for q l
  proof (cases "q = p")
    case True
    then show ?thesis using keep [OF assms(3)] by blast
  next
    case False
    then have "map_of t q = Some l" using l by (simp add: map_of_putNode)
    then obtain k where "map_of t (butlast q) = Some (WDir k)" using treeOk_parent [OF assms(1)] q by blast
    then show ?thesis using keep by blast
  qed
  ultimately show ?thesis unfolding treeOk_def by blast
qed

lemma distinct_makeDirs: "makeDirs bad ps t = (t', r) \<Longrightarrow> distinct (map fst t) \<Longrightarrow> distinct (map fst t')"
proof (induction ps arbitrary: t)
  case (Cons p ps)
  show ?case
  proof (cases "map_of t p")
    case None
    then have "p \<notin> fst ` set t" by (metis map_of_eq_None_iff)
    then show ?thesis using Cons None by (auto split: if_splits)
  next
    case (Some n)
    then show ?thesis using Cons by (cases n) auto
  qed
qed simp

lemma putNode_new: "map_of t p = None \<Longrightarrow> putNode p n t = t @ [(p, n)]"
  unfolding putNode_def by (induction t) (auto split: if_splits)

lemma treeOk_makeDirs:
  assumes "makeDirs bad (map (\<lambda>k. take k p) [i..<n]) t = (t', r)" "treeOk t" "n \<le> Suc (length p)"
    and "0 < i \<Longrightarrow> \<exists>m. map_of t (take (i - 1) p) = Some (WDir m)"
  shows "treeOk t'"
  using assms
proof (induction "n - i" arbitrary: i t)
  case (Suc d)
  then have u: "[i..<n] = i # [Suc i..<n]" "d = n - Suc i" by (simp_all add: upt_conv_Cons)
  let ?q = "take i p"
  let ?rest = "map (\<lambda>k. take k p) [Suc i..<n]"
  show ?case
  proof (cases "map_of t ?q")
    case None
    have i: "0 < i" using None Suc.prems(2) by (cases i) (auto simp: treeOk_def)
    have q: "?q \<noteq> []" "butlast ?q = take (i - 1) p"
      using i Suc.prems(3) Suc.hyps(2) by (auto simp: butlast_take)
    obtain m where m: "map_of t (butlast ?q) = Some (WDir m)" using Suc.prems(4) [OF i] q(2) by auto
    show ?thesis
    proof (cases "bad ?q")
      case True
      then show ?thesis using Suc.prems(1,2) u None by simp
    next
      case False
      let ?t = "putNode ?q (WDir newDirMode) t"
      have "makeDirs bad ?rest ?t = (t', r)"
        using Suc.prems(1) u None False by (simp add: putNode_new)
      moreover have "treeOk ?t" by (rule treeOk_put_leaf [OF Suc.prems(2) q(1) m]) (simp add: None)
      ultimately show ?thesis
        using Suc.hyps(1) [OF u(2)] Suc.prems(3) by (simp add: map_of_putNode)
    qed
  next
    case (Some k)
    then show ?thesis
    proof (cases k)
      case (WDir m)
      then have "makeDirs bad ?rest t = (t', r)" using Suc.prems(1) u Some by simp
      then show ?thesis using Suc.hyps(1) [OF u(2)] Suc.prems(2,3) Some WDir by simp
    qed (use Suc.prems(1,2) u Some in auto)
  qed
qed simp

lemma treeOk_makeDirAll: "makeDirAll bad p t = (t', r) \<Longrightarrow> treeOk t \<Longrightarrow> treeOk t'"
  unfolding makeDirAll_def prefixesOf_def using treeOk_makeDirs [of bad p 0 "Suc (length p)" t t' r] by simp

end
