(* ===== verification/BlobPlan.thy ===== *)
theory BlobPlan
  imports Prelude GoStrings
begin

text \<open>
  Chunked blob transfer (syncfs/chunked\_blob.go): sizes and counts of chunks, the plan for a
  list of blobs, the shape a chunk must have, and the writer that assembles a blob in a
  temporary file from chunks in any order. Sizes and offsets are the int64 values of the
  code; the limits on the chunk size and the number of chunks keep them far from overflow.
\<close>

definition DefaultBlobChunkSize :: int where "DefaultBlobChunkSize = 4 * 2 ^ 20"
definition MaxBlobChunkSize :: int where "MaxBlobChunkSize = 64 * 2 ^ 20"
definition MaxBlobChunks :: int where "MaxBlobChunks = 2 ^ 20"

record blobDescriptor =
  blobHash :: string
  blobSize :: int

record blobChunkInfo =
  chunkHash :: string
  chunkBlobSize :: int
  chunkOffset :: int

datatype blobError =
    ChunkSizeTooLarge int | InvalidBlobHash string | DuplicateDescriptor string
  | NegativeSize string | TooManyChunks | InvalidOffset int | UnalignedOffset int
  | ChunkHashMismatch | ChunkSizeMismatch | ChunkLengthMismatch int int | IndexOutOfRange int
  | NegativeLength | UnexpectedChunk string | ChunkRead | BlobWriteFailed | BlobSyncFailed
  | BlobCloseFailed | BlobDigestMismatch | BlobMoveFailed | BlobShortPayload | BlobTempFailed
  | TransferCancelled | ConnLost | SourceEOF | TransferOther string

section \<open>Hashes\<close>

definition lowerHex :: "char \<Rightarrow> bool" where
  "lowerHex c \<longleftrightarrow> (0x30 \<le> (of_char c :: nat) \<and> (of_char c :: nat) \<le> 0x39)
     \<or> (0x61 \<le> (of_char c :: nat) \<and> (of_char c :: nat) \<le> 0x66)"

text \<open>Decoding and encoding again gives the same text for lower-case hexadecimal only.\<close>

definition validateBlobHash :: "string \<Rightarrow> blobError + unit" where
  "validateBlobHash hash =
     (if length hash \<noteq> 64 then Inl (InvalidBlobHash hash)
      else if list_all lowerHex hash then Inr ()
      else Inl (InvalidBlobHash hash))"

section \<open>Chunk arithmetic\<close>

definition normalizeBlobChunkSize :: "int \<Rightarrow> blobError + int" where
  "normalizeBlobChunkSize chunkSize =
     (if chunkSize \<le> 0 then Inr DefaultBlobChunkSize
      else if MaxBlobChunkSize < chunkSize then Inl (ChunkSizeTooLarge chunkSize)
      else Inr chunkSize)"

definition BlobChunkCount :: "int \<Rightarrow> int \<Rightarrow> blobError + int" where
  "BlobChunkCount size0 chunkSize0 =
     (if size0 < 0 then Inl (NegativeSize [])
      else andThen (normalizeBlobChunkSize chunkSize0) (\<lambda>chunkSize.
        if size0 = 0 then Inr 1
        else
          (let n = 1 + (size0 - 1) div chunkSize in
           if MaxBlobChunks < n then Inl TooManyChunks else Inr n)))"

definition BlobChunkPayloadLen :: "blobChunkInfo \<Rightarrow> int \<Rightarrow> blobError + int" where
  "BlobChunkPayloadLen info chunkSize0 =
     andThen (normalizeBlobChunkSize chunkSize0) (\<lambda>chunkSize.
       if chunkBlobSize info < 0 then Inl (NegativeSize (chunkHash info))
       else if chunkOffset info < 0 \<or> chunkBlobSize info < chunkOffset info
         then Inl (InvalidOffset (chunkOffset info))
       else if chunkBlobSize info = 0 then
         (if chunkOffset info \<noteq> 0 then Inl (InvalidOffset (chunkOffset info)) else Inr 0)
       else if chunkOffset info mod chunkSize \<noteq> 0 then Inl (UnalignedOffset (chunkOffset info))
       else
         (let remaining = chunkBlobSize info - chunkOffset info in
          if remaining < chunkSize then Inr remaining else Inr chunkSize))"

text \<open>The first loop of \<open>PlanBlobChunks\<close>: each descriptor is checked, the counts add up.\<close>

fun planCheck :: "int \<Rightarrow> string set \<Rightarrow> int \<Rightarrow> blobDescriptor list \<Rightarrow> blobError + int" where
  "planCheck chunkSize seen planned [] = Inr planned"
| "planCheck chunkSize seen planned (b # bs) =
     andThen (validateBlobHash (blobHash b)) (\<lambda>_.
       if blobHash b \<in> seen then Inl (DuplicateDescriptor (blobHash b))
       else andThen (BlobChunkCount (blobSize b) chunkSize) (\<lambda>n.
         if MaxBlobChunks - planned < n then Inl TooManyChunks
         else planCheck chunkSize (insert (blobHash b) seen) (planned + n) bs))"

text \<open>\<open>for offset := 0; offset < size; offset += chunkSize\<close>, for a positive chunk size.\<close>

function chunkOffsets :: "int \<Rightarrow> int \<Rightarrow> int \<Rightarrow> int list" where
  "chunkOffsets chunkSize size0 offset =
     (if offset < size0 \<and> 0 < chunkSize then offset # chunkOffsets chunkSize size0 (offset + chunkSize)
      else [])"
  by pat_completeness auto
termination
  by (relation "measure (\<lambda>(chunkSize, size0, offset). nat (size0 - offset))") auto

declare chunkOffsets.simps [simp del]

definition blobChunks :: "int \<Rightarrow> blobDescriptor \<Rightarrow> blobChunkInfo list" where
  "blobChunks chunkSize b =
     (if blobSize b = 0 then [\<lparr>chunkHash = blobHash b, chunkBlobSize = 0, chunkOffset = 0\<rparr>]
      else map (\<lambda>o'. \<lparr>chunkHash = blobHash b, chunkBlobSize = blobSize b, chunkOffset = o'\<rparr>)
             (chunkOffsets chunkSize (blobSize b) 0))"

definition PlanBlobChunks :: "blobDescriptor list \<Rightarrow> int \<Rightarrow> blobError + blobChunkInfo list" where
  "PlanBlobChunks blobs chunkSize0 =
     andThen (normalizeBlobChunkSize chunkSize0) (\<lambda>chunkSize.
       andThen (planCheck chunkSize {} 0 blobs) (\<lambda>_.
         Inr (concat (map (blobChunks chunkSize) blobs))))"

definition validateBlobChunkShape ::
  "blobChunkInfo \<Rightarrow> string \<Rightarrow> int \<Rightarrow> int \<Rightarrow> int \<Rightarrow> blobError + unit" where
  "validateBlobChunkShape info hash size0 chunkSize payloadLen =
     (if chunkHash info \<noteq> hash then Inl ChunkHashMismatch
      else if chunkBlobSize info \<noteq> size0 then Inl ChunkSizeMismatch
      else andThen (BlobChunkPayloadLen info chunkSize) (\<lambda>wantLen.
        if payloadLen \<noteq> wantLen then Inl (ChunkLengthMismatch payloadLen wantLen)
        else
          (let index = (if 0 < size0 then chunkOffset info div chunkSize else 0) in
           andThen (BlobChunkCount size0 chunkSize) (\<lambda>n.
             if n \<le> index then Inl (IndexOutOfRange index) else Inr ()))))"

section \<open>The writer of a blob\<close>

record chunkWriter =
  wHash :: string
  wSize :: int
  wChunkSize :: int
  wData :: string
  completed :: "bool list"
  doneChunks :: int
  committed :: bool

text \<open>\<open>tempOk\<close>: the temporary file could be made and sized.\<close>

definition newChunkedBlobWriter :: "bool \<Rightarrow> blobDescriptor \<Rightarrow> int \<Rightarrow> blobError + chunkWriter" where
  "newChunkedBlobWriter tempOk b chunkSize =
     andThen (validateBlobHash (blobHash b)) (\<lambda>_.
       if \<not> tempOk then Inl BlobTempFailed
       else andThen (BlobChunkCount (blobSize b) chunkSize) (\<lambda>n.
         Inr \<lparr>wHash = blobHash b, wSize = blobSize b, wChunkSize = chunkSize,
              wData = replicate (nat (blobSize b)) (CHR 0x00),
              completed = replicate (nat n) False, doneChunks = 0, committed = False\<rparr>))"

text \<open>\<open>WriteAt\<close> inside the sized file.\<close>

definition writeAt :: "string \<Rightarrow> nat \<Rightarrow> string \<Rightarrow> string" where
  "writeAt file off payload = take off file @ payload @ drop (off + length payload) file"

definition writeChunk ::
  "bool \<Rightarrow> blobChunkInfo \<Rightarrow> string \<Rightarrow> chunkWriter \<Rightarrow> chunkWriter \<times> (blobError + bool)" where
  "writeChunk ioOk info payload w =
     (case validateBlobChunkShape info (wHash w) (wSize w) (wChunkSize w) (int (length payload)) of
        Inl e \<Rightarrow> (w, Inl e)
      | Inr _ \<Rightarrow>
          (let index = (if 0 < wSize w then nat (chunkOffset info div wChunkSize w) else 0) in
           if committed w \<or> completed w ! index then (w, Inr False)
           else if payload \<noteq> [] \<and> \<not> ioOk then (w, Inl BlobWriteFailed)
           else
             (let w' = w\<lparr>wData := (if payload = [] then wData w
                            else writeAt (wData w) (nat (chunkOffset info)) payload),
                         completed := (completed w)[index := True],
                         doneChunks := doneChunks w + 1\<rparr> in
              (w', Inr (doneChunks w' = int (length (completed w')))))))"

section \<open>Facts about the plan\<close>

definition slice :: "string \<Rightarrow> nat \<Rightarrow> nat \<Rightarrow> string" where
  "slice c off len = take len (drop off c)"

lemma normalizeBlobChunkSize_Inr:
  "normalizeBlobChunkSize c = Inr s \<Longrightarrow> 0 < s \<and> s \<le> MaxBlobChunkSize
    \<and> normalizeBlobChunkSize s = Inr s"
  by (auto simp: normalizeBlobChunkSize_def DefaultBlobChunkSize_def MaxBlobChunkSize_def
      split: if_splits)

lemma chunkOffsets_mem:
  assumes "0 < cs" "0 \<le> off" "off mod cs = 0"
  shows "x \<in> set (chunkOffsets cs sz off) \<longleftrightarrow> off \<le> x \<and> x < sz \<and> x mod cs = 0"
  using assms
proof (induction cs sz off rule: chunkOffsets.induct)
  case (1 cs sz off)
  show ?case
  proof (cases "off < sz")
    case False
    then show ?thesis by (auto simp: chunkOffsets.simps [of cs sz off])
  next
    case True
    have ih: "x \<in> set (chunkOffsets cs sz (off + cs)) \<longleftrightarrow> off + cs \<le> x \<and> x < sz \<and> x mod cs = 0"
      using 1 True by simp
    have gap: "x = off" if "off \<le> x" "x < off + cs" "x mod cs = 0"
    proof -
      from \<open>off mod cs = 0\<close> that(3) obtain j k where "off = cs * j" "x = cs * k"
        by (auto simp: mod_eq_0_iff_dvd elim!: dvdE)
      with that \<open>0 < cs\<close> have "j \<le> k" "k < j + 1"
        by (simp, metis distrib_left mult.right_neutral mult_less_cancel_left_pos)
      with \<open>off = _\<close> \<open>x = _\<close> show ?thesis by simp
    qed
    show ?thesis
      using True 1(2-4) ih gap by (auto simp: chunkOffsets.simps [of cs sz off])
  qed
qed

text \<open>The slices of a content at the planned offsets put together are the content.\<close>

lemma chunkOffsets_slices:
  assumes "0 < cs" "0 \<le> off" "int (length c) = sz"
  shows "concat (map (\<lambda>x. slice c (nat x) (nat (min cs (sz - x)))) (chunkOffsets cs sz off))
    = drop (nat off) c"
  using assms
proof (induction cs sz off rule: chunkOffsets.induct)
  case (1 cs sz off)
  show ?case
  proof (cases "off < sz")
    case False
    then show ?thesis using 1(4) by (simp add: chunkOffsets.simps [of cs sz off])
  next
    case True
    have "slice c (nat off) (nat (min cs (sz - off))) @ drop (nat (off + cs)) c = drop (nat off) c"
    proof (cases "cs \<le> sz - off")
      case True
      then show ?thesis using 1(2,3)
        by (simp add: slice_def nat_add_distrib add.commute flip: drop_drop)
    next
      case False
      then show ?thesis using 1(2-4) by (simp add: slice_def)
    qed
    then show ?thesis using 1 True by (simp add: chunkOffsets.simps [of cs sz off])
  qed
qed

section \<open>Facts about the writer\<close>

definition chunkIndex :: "chunkWriter \<Rightarrow> blobChunkInfo \<Rightarrow> nat" where
  "chunkIndex w info = (if 0 < wSize w then nat (chunkOffset info div wChunkSize w) else 0)"

definition writerInv :: "chunkWriter \<Rightarrow> bool" where
  "writerInv w \<longleftrightarrow> 0 \<le> wSize w \<and> normalizeBlobChunkSize (wChunkSize w) = Inr (wChunkSize w)
     \<and> BlobChunkCount (wSize w) (wChunkSize w) = Inr (int (length (completed w)))
     \<and> int (length (wData w)) = wSize w
     \<and> doneChunks w = int (length (filter id (completed w)))"

text \<open>Every completed chunk holds the bytes of the content.\<close>

definition agrees :: "string \<Rightarrow> chunkWriter \<Rightarrow> bool" where
  "agrees c w \<longleftrightarrow> (\<forall>x < length c. completed w ! (x div nat (wChunkSize w)) \<longrightarrow> wData w ! x = c ! x)"

lemma normalize_pos: "normalizeBlobChunkSize c = Inr c \<Longrightarrow> 0 < c"
  by (auto dest: normalizeBlobChunkSize_Inr)

lemma validShape:
  assumes "validateBlobChunkShape info h sz cs plen = Inr u" and "normalizeBlobChunkSize cs = Inr cs"
  shows "chunkHash info = h" "chunkBlobSize info = sz" "0 \<le> chunkOffset info" "0 \<le> sz"
    "plen = (if sz = 0 then 0 else min cs (sz - chunkOffset info))"
    "0 < sz \<Longrightarrow> chunkOffset info mod cs = 0 \<and> chunkOffset info < sz"
    "\<exists>n. BlobChunkCount sz cs = Inr n \<and> (if 0 < sz then chunkOffset info div cs else 0) < n"
proof -
  have cs: "0 < cs" using normalize_pos [OF assms(2)] .
  show "chunkHash info = h" "chunkBlobSize info = sz" "0 \<le> chunkOffset info" "0 \<le> sz"
    and len: "plen = (if sz = 0 then 0 else min cs (sz - chunkOffset info))"
    using assms by (auto simp: validateBlobChunkShape_def BlobChunkPayloadLen_def andThen_Inr_iff
        Let_def split: if_splits)
  show n: "\<exists>n. BlobChunkCount sz cs = Inr n \<and> (if 0 < sz then chunkOffset info div cs else 0) < n"
    using assms by (auto simp: validateBlobChunkShape_def andThen_Inr_iff Let_def split: if_splits)
  show "chunkOffset info mod cs = 0 \<and> chunkOffset info < sz" if "0 < sz"
  proof
    show m: "chunkOffset info mod cs = 0"
      using assms that by (auto simp: validateBlobChunkShape_def BlobChunkPayloadLen_def
          andThen_Inr_iff Let_def split: if_splits)
    have "chunkOffset info div cs \<le> (sz - 1) div cs"
      using n that assms(2) by (auto simp: BlobChunkCount_def andThen_Inr_iff Let_def split: if_splits)
    then have "cs * (chunkOffset info div cs) \<le> cs * ((sz - 1) div cs)"
      using cs by (intro mult_left_mono) auto
    also have "\<dots> \<le> sz - 1"
      using cs pos_mod_sign [OF cs, of "sz - 1"] mult_div_mod_eq [of cs "sz - 1"] by linarith
    finally show "chunkOffset info < sz"
      using m by (metis add.right_neutral mult_div_mod_eq zle_diff1_eq)
  qed
qed

lemma count_update_True:
  "i < length bs \<Longrightarrow> \<not> bs ! i \<Longrightarrow> length (filter id (bs[i := True])) = Suc (length (filter id bs))"
proof (induction bs arbitrary: i)
  case (Cons b bs)
  then show ?case by (cases i) auto
qed simp

lemma length_writeAt: "off + length payload \<le> length file \<Longrightarrow> length (writeAt file off payload) = length file"
  by (simp add: writeAt_def)

lemma nth_writeAt:
  assumes "off + length payload \<le> length file" and "x < length file"
  shows "writeAt file off payload ! x =
    (if off \<le> x \<and> x < off + length payload then payload ! (x - off) else file ! x)"
  using assms by (auto simp: writeAt_def nth_append)

text \<open>One chunk with any payload of the right length keeps the invariant.\<close>

lemma writeChunk_inv:
  assumes inv: "writerInv w" and wr: "writeChunk io info payload w = (w', r)"
  shows "writerInv w' \<and> wHash w' = wHash w \<and> wSize w' = wSize w \<and> wChunkSize w' = wChunkSize w
    \<and> committed w' = committed w \<and> length (completed w') = length (completed w)"
proof (cases "validateBlobChunkShape info (wHash w) (wSize w) (wChunkSize w) (int (length payload))")
  case (Inl e)
  then show ?thesis using inv wr by (auto simp: writeChunk_def)
next
  case (Inr u)
  have norm: "normalizeBlobChunkSize (wChunkSize w) = Inr (wChunkSize w)"
    using inv by (simp add: writerInv_def)
  note v = validShape [OF Inr norm]
  have "0 \<le> chunkOffset info div wChunkSize w"
    using v(3) normalize_pos [OF norm] by (simp add: pos_imp_zdiv_nonneg_iff)
  then have idx: "chunkIndex w info < length (completed w)"
    using v(7) inv by (auto simp: writerInv_def chunkIndex_def nat_less_iff split: if_splits)
  have fit: "payload \<noteq> [] \<Longrightarrow> nat (chunkOffset info) + length payload \<le> length (wData w)"
    using v(3,5,6) inv by (auto simp: writerInv_def split: if_splits)
  show ?thesis
    using wr Inr inv idx fit
    by (auto simp: writeChunk_def Let_def chunkIndex_def [symmetric] writerInv_def
        count_update_True length_writeAt split: if_splits)
qed

lemma writeChunk_step:
  assumes inv: "writerInv w" and nc: "\<not> committed w" and ag: "agrees c w"
    and c: "int (length c) = wSize w" and h: "wHash w = chunkHash info"
    and sz: "chunkBlobSize info = wSize w" and off: "0 \<le> chunkOffset info"
    and al: "0 < wSize w \<Longrightarrow> chunkOffset info mod wChunkSize w = 0 \<and> chunkOffset info < wSize w"
    and z: "wSize w = 0 \<Longrightarrow> chunkOffset info = 0"
    and pl: "payload = slice c (nat (chunkOffset info)) (nat (wChunkSize w))"
    and wr: "writeChunk True info payload w = (w', r)"
  shows "agrees c w' \<and> chunkIndex w info < length (completed w) \<and>
    completed w' = (completed w)[chunkIndex w info := True] \<and>
    r = Inr (\<not> completed w ! chunkIndex w info \<and> doneChunks w' = int (length (completed w')))
    \<and> doneChunks w' = doneChunks w + (if completed w ! chunkIndex w info then 0 else 1)"
proof -
  have norm: "normalizeBlobChunkSize (wChunkSize w) = Inr (wChunkSize w)"
    using inv by (simp add: writerInv_def)
  have cs: "0 < wChunkSize w" using normalize_pos [OF norm] .
  have plen: "int (length payload) =
      (if wSize w = 0 then 0 else min (wChunkSize w) (wSize w - chunkOffset info))"
    using c off al z cs by (auto simp: pl slice_def)
  have bound: "(if 0 < wSize w then chunkOffset info div wChunkSize w else 0) < int (length (completed w))"
    using inv al zdiv_mono1 [of "chunkOffset info" "wSize w - 1" "wChunkSize w"] cs
    by (auto simp: writerInv_def BlobChunkCount_def norm Let_def split: if_splits)
  have cnt: "BlobChunkCount (wSize w) (wChunkSize w) = Inr (int (length (completed w)))" "0 \<le> wSize w"
    using inv by (simp_all add: writerInv_def)
  have "BlobChunkPayloadLen info (wChunkSize w) = Inr (int (length payload))"
    using norm cnt(2) off al z sz plen by (auto simp: BlobChunkPayloadLen_def Let_def)
  then have v: "validateBlobChunkShape info (wHash w) (wSize w) (wChunkSize w) (int (length payload)) = Inr ()"
    using h sz bound cnt by (auto simp: validateBlobChunkShape_def Let_def)
  have idx: "chunkIndex w info < length (completed w)"
    using bound off cs by (auto simp: chunkIndex_def nat_less_iff pos_imp_zdiv_nonneg_iff split: if_splits)
  let ?i = "chunkIndex w info"
  show ?thesis
  proof (cases "completed w ! ?i")
    case True
    then have "(completed w)[?i := True] = completed w"
      using list_update_id [of "completed w" ?i] by simp
    with True show ?thesis
      using wr v nc ag idx by (auto simp: writeChunk_def Let_def chunkIndex_def [symmetric])
  next
    case False
    let ?o = "nat (chunkOffset info)"
    have w': "w' = w\<lparr>wData := (if payload = [] then wData w else writeAt (wData w) ?o payload),
        completed := (completed w)[?i := True], doneChunks := doneChunks w + 1\<rparr>"
      and r: "r = Inr (doneChunks w + 1 = int (length (completed w)))"
      using wr v nc False by (auto simp: writeChunk_def Let_def chunkIndex_def [symmetric])
    have len: "length (wData w) = length c" using inv c by (simp add: writerInv_def)
    have "agrees c w'"
      unfolding agrees_def
    proof (intro allI impI)
      fix x
      assume x: "x < length c" and comp: "completed w' ! (x div nat (wChunkSize w'))"
      have pos: "0 < wSize w" using x c by simp
      have o: "chunkOffset info = wChunkSize w * int ?i"
        using al [OF pos] pos off cs
        by (auto simp: chunkIndex_def pos_imp_zdiv_nonneg_iff mod_eq_0_iff_dvd)
      then have o': "?o = nat (wChunkSize w) * ?i" using cs by (simp add: nat_mult_distrib)
      have fit: "?o + length payload \<le> length (wData w)" "?o \<le> length c"
        using plen pos al [OF pos] off c len by auto
      have pay: "length payload = min (nat (wChunkSize w)) (length c - ?o)"
        by (simp add: pl slice_def)
      show "wData w' ! x = c ! x"
      proof (cases "?o \<le> x \<and> x < ?o + length payload")
        case True
        then have "wData w' ! x = payload ! (x - ?o)"
          using fit(1) x len by (auto simp: w' nth_writeAt)
        moreover have "x - ?o < nat (wChunkSize w)" using True pay by linarith
        then have "payload ! (x - ?o) = c ! x" using True fit(2) by (simp add: pl slice_def)
        ultimately show ?thesis by simp
      next
        case out: False
        have "x div nat (wChunkSize w) \<noteq> ?i"
        proof
          assume e: "x div nat (wChunkSize w) = ?i"
          have "nat (wChunkSize w) * (x div nat (wChunkSize w)) \<le> x"
            "x < nat (wChunkSize w) * (x div nat (wChunkSize w)) + nat (wChunkSize w)"
            using cs mod_less_divisor [of "nat (wChunkSize w)" x]
              mult_div_mod_eq [of "nat (wChunkSize w)" x] by linarith+
          then have "?o \<le> x" "x < ?o + nat (wChunkSize w)" using e o' by simp_all
          then show False using out pay x by auto
        qed
        moreover have "wData w' ! x = wData w ! x"
          using out fit(1) x len by (auto simp: w' nth_writeAt)
        ultimately show ?thesis using ag x comp by (auto simp: agrees_def w')
      qed
    qed
    then show ?thesis using False idx r by (simp add: w')
  qed
qed

text \<open>A sequence of chunks of one content, as connections hand them to the writer.\<close>

fun runChunks :: "string \<Rightarrow> blobChunkInfo list \<Rightarrow> chunkWriter \<Rightarrow> chunkWriter \<times> (blobError + bool) list" where
  "runChunks c [] w = (w, [])"
| "runChunks c (i # is) w =
     (let (w1, r) = writeChunk True i (slice c (nat (chunkOffset i)) (nat (wChunkSize w))) w;
          (w2, rs) = runChunks c is w1 in (w2, r # rs))"

definition chunkOf :: "chunkWriter \<Rightarrow> blobChunkInfo \<Rightarrow> bool" where
  "chunkOf w i \<longleftrightarrow> chunkHash i = wHash w \<and> chunkBlobSize i = wSize w \<and> 0 \<le> chunkOffset i
     \<and> (0 < wSize w \<longrightarrow> chunkOffset i mod wChunkSize w = 0 \<and> chunkOffset i < wSize w)
     \<and> (wSize w = 0 \<longrightarrow> chunkOffset i = 0)"

lemma filter_id_full: "length (filter id bs) = length bs \<Longrightarrow> i < length bs \<Longrightarrow> bs ! i"
  by (metis filter_True id_apply length_filter_less nat_less_le nth_mem)

lemma runChunks_facts:
  assumes "writerInv w" "\<not> committed w" "agrees c w" "int (length c) = wSize w"
    and "\<forall>i \<in> set is. chunkOf w i" and "runChunks c is w = (w', rs)"
  shows "writerInv w' \<and> \<not> committed w' \<and> agrees c w' \<and> wSize w' = wSize w \<and> wChunkSize w' = wChunkSize w
    \<and> length (completed w') = length (completed w)
    \<and> (\<forall>j < length (completed w). completed w' ! j \<longleftrightarrow>
         completed w ! j \<or> (\<exists>i \<in> set is. chunkIndex w i = j))
    \<and> (\<forall>r \<in> set rs. isOk r)
    \<and> length (filter (\<lambda>r. r = Inr True) rs) =
       (if doneChunks w < int (length (completed w)) \<and> doneChunks w' = int (length (completed w'))
        then 1 else 0)"
  using assms
proof (induction "is" arbitrary: w w' rs)
  case Nil
  then show ?case by simp
next
  case (Cons i "is")
  let ?p = "slice c (nat (chunkOffset i)) (nat (wChunkSize w))"
  obtain w1 r where wr: "writeChunk True i ?p w = (w1, r)" by fastforce
  obtain w2 rs2 where rest: "runChunks c is w1 = (w2, rs2)" by fastforce
  have out: "w' = w2" "rs = r # rs2" using Cons.prems(6) wr rest by simp_all
  note inv1 = writeChunk_inv [OF Cons.prems(1) wr]
  have co: "chunkOf w i" using Cons.prems(5) by simp
  note st = writeChunk_step [OF Cons.prems(1-4) _ _ _ _ _ refl wr]
  have s1: "agrees c w1" "chunkIndex w i < length (completed w)"
    "completed w1 = (completed w)[chunkIndex w i := True]"
    "r = Inr (\<not> completed w ! chunkIndex w i \<and> doneChunks w1 = int (length (completed w1)))"
    "doneChunks w1 = doneChunks w + (if completed w ! chunkIndex w i then 0 else 1)"
    using st co by (auto simp: chunkOf_def)
  have pre: "writerInv w1" "\<not> committed w1" "agrees c w1" "int (length c) = wSize w1"
    "\<forall>i \<in> set is. chunkOf w1 i"
    using inv1 Cons.prems s1(1) by (auto simp: chunkOf_def)
  have ix: "chunkIndex w1 x = chunkIndex w x" for x using inv1 by (simp add: chunkIndex_def)
  note ih = Cons.IH [OF pre rest]
  have full: "completed w ! j" if "doneChunks w = int (length (completed w))" "j < length (completed w)" for j
    using that Cons.prems(1) by (intro filter_id_full) (auto simp: writerInv_def)
  have le: "doneChunks w1 \<le> int (length (completed w1))"
    using inv1 length_filter_le [of id "completed w1"] by (simp add: writerInv_def)
  have stay: "doneChunks w2 = int (length (completed w2))" if "doneChunks w1 = int (length (completed w1))"
  proof -
    have "\<forall>j < length (completed w1). completed w1 ! j"
      using that inv1 by (auto intro: filter_id_full simp: writerInv_def)
    then have "\<forall>j < length (completed w2). completed w2 ! j" using ih by simp
    then have "filter id (completed w2) = completed w2"
      by (intro filter_True) (auto simp: in_set_conv_nth)
    then show ?thesis using ih by (simp add: writerInv_def)
  qed
  have "length (filter (\<lambda>r. r = Inr True) rs) =
       (if doneChunks w < int (length (completed w)) \<and> doneChunks w2 = int (length (completed w2))
        then 1 else 0)"
    using ih s1(4,5) le stay full [OF _ s1(2)] inv1 by (auto simp: out)
  moreover have "\<forall>j < length (completed w). completed w2 ! j \<longleftrightarrow>
         completed w ! j \<or> (\<exists>x \<in> set (i # is). chunkIndex w x = j)"
    using ih s1(2,3) inv1 ix by (auto simp: nth_list_update)
  ultimately show ?case using ih inv1 s1(4) out by auto
qed

text \<open>Chunk offsets are those multiples of the chunk size below the size.\<close>

lemma blobChunks_mem:
  assumes "normalizeBlobChunkSize cs = Inr cs" "0 \<le> blobSize b"
  shows "i \<in> set (blobChunks cs b) \<longleftrightarrow> chunkHash i = blobHash b \<and> chunkBlobSize i = blobSize b
    \<and> 0 \<le> chunkOffset i
    \<and> (if blobSize b = 0 then chunkOffset i = 0
       else chunkOffset i < blobSize b \<and> chunkOffset i mod cs = 0)"
proof -
  have m: "x \<in> set (chunkOffsets cs (blobSize b) 0) \<longleftrightarrow> 0 \<le> x \<and> x < blobSize b \<and> x mod cs = 0" for x
    using normalize_pos [OF assms(1)] by (intro chunkOffsets_mem) auto
  show ?thesis
    by (cases i) (auto simp: blobChunks_def m image_iff)
qed

lemma newWriter_facts:
  assumes "newChunkedBlobWriter t b cs = Inr w" "normalizeBlobChunkSize cs = Inr cs"
  shows "writerInv w \<and> \<not> committed w \<and> (int (length c) = blobSize b \<longrightarrow> agrees c w) \<and> wHash w = blobHash b \<and> wSize w = blobSize b
    \<and> wChunkSize w = cs \<and> doneChunks w = 0 \<and> 0 < length (completed w) \<and> 0 \<le> blobSize b
    \<and> validateBlobHash (blobHash b) = Inr ()"
proof -
  obtain n where n: "BlobChunkCount (blobSize b) cs = Inr n" "validateBlobHash (blobHash b) = Inr ()"
    and w: "w = \<lparr>wHash = blobHash b, wSize = blobSize b, wChunkSize = cs,
              wData = replicate (nat (blobSize b)) (CHR 0x00),
              completed = replicate (nat n) False, doneChunks = 0, committed = False\<rparr>"
    using assms(1) by (auto simp: newChunkedBlobWriter_def andThen_Inr_iff split: if_splits)
  have cs: "0 < cs" using normalize_pos [OF assms(2)] .
  have sz: "0 \<le> blobSize b" using n(1) by (auto simp: BlobChunkCount_def split: if_splits)
  have "1 \<le> n"
    using n(1) assms(2) sz cs
    by (auto simp: BlobChunkCount_def Let_def pos_imp_zdiv_nonneg_iff split: if_splits)
  moreover have "agrees c w" if c: "int (length c) = blobSize b"
    unfolding agrees_def
  proof (intro allI impI)
    fix x
    assume x: "x < length c" and comp: "completed w ! (x div nat (wChunkSize w))"
    have "int x div cs \<le> (blobSize b - 1) div cs" using x c cs by (intro zdiv_mono1) auto
    then have "int x div cs < n"
      using n(1) assms(2) x c by (auto simp: BlobChunkCount_def Let_def split: if_splits)
    then have "int (x div nat cs) < n" using cs by (simp add: zdiv_int)
    then have "x div nat cs < nat n" by simp
    then show "wData w ! x = c ! x" using comp by (simp add: w)
  qed
  ultimately show ?thesis using w n sz assms(2) by (simp add: writerInv_def)
qed

lemma length_chunkOffsets:
  assumes "0 < cs" "off \<le> sz"
  shows "int (length (chunkOffsets cs sz off)) = (if off < sz then 1 + (sz - off - 1) div cs else 0)"
  using assms
proof (induction cs sz off rule: chunkOffsets.induct)
  case (1 cs sz off)
  show ?case
  proof (cases "off < sz")
    case False
    then show ?thesis by (simp add: chunkOffsets.simps [of cs sz off])
  next
    case True
    show ?thesis
    proof (cases "off + cs < sz")
      case more: True
      have "(sz - off - 1) div cs = 1 + (sz - (off + cs) - 1) div cs"
        using div_add_self1 [of cs "sz - (off + cs) - 1"] 1(2) by (simp add: algebra_simps)
      then show ?thesis using 1 True more by (simp add: chunkOffsets.simps [of cs sz off])
    next
      case False
      then have "(sz - off - 1) div cs = 0" using True 1(2) by (intro div_pos_pos_trivial) auto
      moreover have "chunkOffsets cs sz (off + cs) = []"
        using False by (simp add: chunkOffsets.simps [of cs sz "off + cs"])
      ultimately show ?thesis using 1(2) True by (simp add: chunkOffsets.simps [of cs sz off])
    qed
  qed
qed

lemma length_blobChunks:
  assumes "normalizeBlobChunkSize cs = Inr cs" "BlobChunkCount (blobSize b) cs = Inr n"
  shows "int (length (blobChunks cs b)) = n"
  using assms normalize_pos [OF assms(1)] length_chunkOffsets [of cs 0 "blobSize b"]
  by (auto simp: BlobChunkCount_def blobChunks_def Let_def split: if_splits)

lemma planCheck_facts:
  assumes "normalizeBlobChunkSize cs = Inr cs" "planCheck cs seen t bs = Inr t'" "t \<le> MaxBlobChunks"
  shows "(\<forall>b \<in> set bs. 0 \<le> blobSize b \<and> validateBlobHash (blobHash b) = Inr () \<and> blobHash b \<notin> seen)
    \<and> distinct (map blobHash bs) \<and> t' = t + int (length (concat (map (blobChunks cs) bs)))
    \<and> t' \<le> MaxBlobChunks"
  using assms(2,3)
proof (induction bs arbitrary: seen t)
  case Nil
  then show ?case by simp
next
  case (Cons b bs)
  then obtain n where n: "BlobChunkCount (blobSize b) cs = Inr n" "n \<le> MaxBlobChunks - t"
    "blobHash b \<notin> seen" "validateBlobHash (blobHash b) = Inr ()"
    "planCheck cs (insert (blobHash b) seen) (t + n) bs = Inr t'"
    by (auto simp: andThen_Inr_iff split: if_splits)
  have "0 \<le> blobSize b" using n(1) by (auto simp: BlobChunkCount_def split: if_splits)
  with n Cons.IH [OF n(5)] length_blobChunks [OF assms(1) n(1)] show ?case by auto
qed

lemma blobChunks_hash: "i \<in> set (blobChunks cs b) \<Longrightarrow> chunkHash i = blobHash b"
  by (auto simp: blobChunks_def split: if_splits)

lemma plan_filter:
  "distinct (map blobHash bs) \<Longrightarrow> b \<in> set bs \<Longrightarrow>
   filter (\<lambda>i. chunkHash i = blobHash b) (concat (map (blobChunks cs) bs)) = blobChunks cs b"
proof (induction bs)
  case (Cons x bs)
  show ?case
  proof (cases "x = b")
    case True
    then have "\<forall>y \<in> set bs. blobHash y \<noteq> blobHash b"
      using Cons.prems(1) by (metis distinct.simps(2) image_eqI list.set_map list.simps(9))
    then have "filter (\<lambda>i. chunkHash i = blobHash b) (concat (map (blobChunks cs) bs)) = []"
      by (auto simp: filter_empty_conv dest: blobChunks_hash)
    moreover have "filter (\<lambda>i. chunkHash i = blobHash b) (blobChunks cs b) = blobChunks cs b"
      by (auto simp: filter_id_conv dest: blobChunks_hash)
    ultimately show ?thesis using True by simp
  next
    case False
    then have "b \<in> set bs" "blobHash x \<noteq> blobHash b" using Cons.prems by auto
    then have "filter (\<lambda>i. chunkHash i = blobHash b) (blobChunks cs x) = []"
      by (auto simp: filter_empty_conv dest: blobChunks_hash)
    then show ?thesis using Cons \<open>b \<in> set bs\<close> by simp
  qed
qed simp

definition chunkPayload :: "int \<Rightarrow> string \<Rightarrow> blobChunkInfo \<Rightarrow> string" where
  "chunkPayload chunkSize c i =
     (case BlobChunkPayloadLen i chunkSize of
        Inr n \<Rightarrow> slice c (nat (chunkOffset i)) (nat n) | Inl _ \<Rightarrow> [])"

lemma payloads_cover:
  assumes "normalizeBlobChunkSize cs = Inr cs" "int (length c) = blobSize b"
  shows "concat (map (chunkPayload cs c) (blobChunks cs b)) = c"
proof (cases "blobSize b = 0")
  case True
  then show ?thesis
    using assms by (simp add: blobChunks_def chunkPayload_def BlobChunkPayloadLen_def slice_def)
next
  case False
  have cs: "0 < cs" using normalize_pos [OF assms(1)] .
  have "chunkPayload cs c i = slice c (nat (chunkOffset i)) (nat (min cs (blobSize b - chunkOffset i)))"
    if "i \<in> set (blobChunks cs b)" for i
    using that False assms blobChunks_mem [OF assms(1), of b i]
    by (auto simp: chunkPayload_def BlobChunkPayloadLen_def Let_def min_def)
  then have "map (chunkPayload cs c) (blobChunks cs b) = map (\<lambda>i. slice c (nat (chunkOffset i))
      (nat (min cs (blobSize b - chunkOffset i)))) (blobChunks cs b)" by simp
  also have "\<dots> = map (\<lambda>x. slice c (nat x) (nat (min cs (blobSize b - x)))) (chunkOffsets cs (blobSize b) 0)"
    using False by (simp add: blobChunks_def)
  finally show ?thesis using chunkOffsets_slices [OF cs _ assms(2), of 0] by simp
qed

section \<open>Properties\<close>

text \<open>
  The plan of a transfer covers every blob exactly: for each planned blob the payloads
  of its chunks, in plan order, put together are its content, none missing, repeated or
  overlapping.
\<close>

theorem plan_covers_content:
  assumes "normalizeBlobChunkSize chunkSize = Inr cs" "PlanBlobChunks blobs chunkSize = Inr chunks"
    and "b \<in> set blobs" "int (length c) = blobSize b"
  shows "concat (map (chunkPayload cs c) (filter (\<lambda>i. chunkHash i = blobHash b) chunks)) = c"
proof -
  note cs = normalizeBlobChunkSize_Inr [OF assms(1)]
  obtain t where "planCheck cs {} 0 blobs = Inr t" and ch: "chunks = concat (map (blobChunks cs) blobs)"
    using assms(1,2) by (auto simp: PlanBlobChunks_def andThen_Inr_iff)
  then have "distinct (map blobHash blobs)"
    using planCheck_facts [of cs] cs by (simp add: MaxBlobChunks_def)
  from plan_filter [OF this assms(3)] show ?thesis
    using payloads_cover [OF _ assms(4)] cs by (simp add: ch)
qed

text \<open>
  A plan never exceeds the limit of 2^20 chunks, and every offset in it is a
  non-negative multiple of the chunk size below 2^46, so no offset arithmetic overflows.
\<close>

theorem plan_bounded:
  assumes "normalizeBlobChunkSize chunkSize = Inr cs" "PlanBlobChunks blobs chunkSize = Inr chunks"
  shows "length chunks \<le> 2 ^ 20 \<and>
    (\<forall>i \<in> set chunks. 0 \<le> chunkOffset i \<and> chunkOffset i mod cs = 0 \<and> chunkOffset i < 2 ^ 46)"
proof -
  note cs = normalizeBlobChunkSize_Inr [OF assms(1)]
  obtain t where pc: "planCheck cs {} 0 blobs = Inr t"
    and ch: "chunks = concat (map (blobChunks cs) blobs)"
    using assms by (auto simp: PlanBlobChunks_def andThen_Inr_iff)
  have "0 \<le> MaxBlobChunks" by (simp add: MaxBlobChunks_def)
  from planCheck_facts [OF _ pc this] cs
  have f: "\<forall>b \<in> set blobs. 0 \<le> blobSize b" "int (length chunks) \<le> MaxBlobChunks"
    by (auto simp: ch)
  have "0 \<le> chunkOffset i \<and> chunkOffset i mod cs = 0 \<and> chunkOffset i < 2 ^ 46"
    if i: "i \<in> set chunks" for i
  proof -
    from i obtain b where b: "b \<in> set blobs" "i \<in> set (blobChunks cs b)" by (auto simp: ch)
    have m: "0 \<le> chunkOffset i" "chunkOffset i mod cs = 0"
      "blobSize b \<noteq> 0 \<Longrightarrow> chunkOffset i < blobSize b" "blobSize b = 0 \<Longrightarrow> chunkOffset i = 0"
      using blobChunks_mem [of cs b i] cs f(1) b by (auto split: if_splits)
    have "length (blobChunks cs b) \<le> length chunks"
      using b(1) unfolding ch by (induction blobs) auto
    then have n: "int (length (blobChunks cs b)) \<le> 2 ^ 20" using f(2) by (simp add: MaxBlobChunks_def)
    show ?thesis
    proof (cases "blobSize b = 0")
      case True
      then show ?thesis using m by simp
    next
      case False
      then have sz: "0 < blobSize b" using f(1) b(1) by force
      then have "(blobSize b - 1) div cs \<le> 2 ^ 20 - 1"
        using n length_chunkOffsets [of cs 0 "blobSize b"] cs by (simp add: blobChunks_def)
      then have "chunkOffset i div cs \<le> 2 ^ 20 - 1"
        using zdiv_mono1 [of "chunkOffset i" "blobSize b - 1" cs] m(3) False cs by linarith
      then have "cs * (chunkOffset i div cs) \<le> 2 ^ 26 * (2 ^ 20 - 1)"
        using cs m(1) by (intro mult_mono) (auto simp: MaxBlobChunkSize_def pos_imp_zdiv_nonneg_iff)
      then show ?thesis using m mult_div_mod_eq [of cs "chunkOffset i"] by simp
    qed
  qed
  then show ?thesis using f(2) by (simp add: MaxBlobChunks_def)
qed

text \<open>
  C29. Whatever order the chunks of a blob arrive in, over however many connections, and
  however often chunks are sent again: once each has arrived the assembled file is the
  content, and exactly one write reports the blob complete, so it is committed once.
\<close>

theorem chunks_any_order:
  assumes "normalizeBlobChunkSize cs = Inr cs" "newChunkedBlobWriter True b cs = Inr w"
    and "int (length c) = blobSize b" "set arrivals = set (blobChunks cs b)"
    and "runChunks c arrivals w = (w', results)"
  shows "wData w' = c \<and> length (filter (\<lambda>r. r = Inr True) results) = 1 \<and> (\<forall>r \<in> set results. isOk r)"
proof -
  note nw = newWriter_facts [OF assms(2,1), of c]
  have cs: "0 < cs" using normalize_pos [OF assms(1)] .
  have mem: "\<And>i. i \<in> set arrivals \<longleftrightarrow> chunkHash i = blobHash b \<and> chunkBlobSize i = blobSize b
    \<and> 0 \<le> chunkOffset i
    \<and> (if blobSize b = 0 then chunkOffset i = 0
       else chunkOffset i < blobSize b \<and> chunkOffset i mod cs = 0)"
    using blobChunks_mem [OF assms(1)] nw assms(4) by simp
  have "\<forall>i \<in> set arrivals. chunkOf w i" using mem nw by (auto simp: chunkOf_def split: if_splits)
  then have run: "writerInv w' \<and> agrees c w' \<and> wSize w' = wSize w \<and> wChunkSize w' = wChunkSize w
    \<and> length (completed w') = length (completed w)
    \<and> (\<forall>j < length (completed w). completed w' ! j \<longleftrightarrow>
         completed w ! j \<or> (\<exists>i \<in> set arrivals. chunkIndex w i = j))
    \<and> (\<forall>r \<in> set results. isOk r)
    \<and> length (filter (\<lambda>r. r = Inr True) results) =
       (if doneChunks w < int (length (completed w)) \<and> doneChunks w' = int (length (completed w'))
        then 1 else 0)"
    using runChunks_facts [of w c arrivals w' results] nw assms(3,5) by auto
  have all: "completed w' ! j" if j: "j < length (completed w)" for j
  proof -
    define i where "i = \<lparr>chunkHash = blobHash b, chunkBlobSize = blobSize b,
      chunkOffset = cs * int j\<rparr>"
    have cnt: "BlobChunkCount (blobSize b) cs = Inr (int (length (completed w)))"
      using nw unfolding writerInv_def by metis
    have "if blobSize b = 0 then j = 0 else cs * int j < blobSize b"
    proof (cases "blobSize b = 0")
      case True
      then show ?thesis using cnt j assms(1) by (simp add: BlobChunkCount_def)
    next
      case False
      then have "int j \<le> (blobSize b - 1) div cs"
        using cnt j assms(1) by (auto simp: BlobChunkCount_def Let_def split: if_splits)
      then have "cs * int j \<le> cs * ((blobSize b - 1) div cs)" using cs by (intro mult_left_mono) auto
      then have "cs * int j < blobSize b"
        using cs pos_mod_sign [OF cs, of "blobSize b - 1"] mult_div_mod_eq [of cs "blobSize b - 1"]
        by linarith
      then show ?thesis using False by simp
    qed
    then have "i \<in> set arrivals" "chunkIndex w i = j"
      using mem [of i] cs nw by (auto simp: i_def chunkIndex_def split: if_splits)
    then show ?thesis using run j by blast
  qed
  then have "filter id (completed w') = completed w'"
    using run by (intro filter_True) (auto simp: in_set_conv_nth)
  then have full: "doneChunks w' = int (length (completed w'))" using run by (simp add: writerInv_def)
  have "wData w' = c"
  proof (rule nth_equalityI)
    show len: "length (wData w') = length c" using run nw assms(3) by (simp add: writerInv_def)
    fix x assume "x < length (wData w')"
    then have x: "x < length c" using len by simp
    have "x div nat cs < length (completed w)"
    proof -
      have "int x div cs \<le> (blobSize b - 1) div cs" using x assms(3) cs by (intro zdiv_mono1) auto
      moreover have "BlobChunkCount (blobSize b) cs = Inr (int (length (completed w)))"
        using nw unfolding writerInv_def by metis
      ultimately have "int x div cs < int (length (completed w))"
        using assms(1,3) x by (auto simp: BlobChunkCount_def Let_def split: if_splits)
      then have "int (x div nat cs) < int (length (completed w))" using cs by (simp add: zdiv_int)
      then show ?thesis by simp
    qed
    then show "wData w' ! x = c ! x" using run all nw x by (auto simp: agrees_def)
  qed
  then show ?thesis using run nw full by simp
qed

text \<open>A blob of five bytes in chunks of two.\<close>

definition demoHash :: string where
  "demoHash = replicate 64 CHR ''a''"

definition demoBlob :: blobDescriptor where
  "demoBlob = \<lparr>blobHash = demoHash, blobSize = 5\<rparr>"

definition demoChunk :: "int \<Rightarrow> blobChunkInfo" where
  "demoChunk off = \<lparr>chunkHash = demoHash, chunkBlobSize = 5, chunkOffset = off\<rparr>"

lemma demo_norm: "normalizeBlobChunkSize 2 = Inr 2"
  by (simp add: normalizeBlobChunkSize_def MaxBlobChunkSize_def)

lemma demo_chunks: "blobChunks 2 demoBlob = [demoChunk 0, demoChunk 2, demoChunk 4]"
  by (simp add: blobChunks_def demoBlob_def demoChunk_def chunkOffsets.simps)

lemma demo_hash: "validateBlobHash demoHash = Inr ()"
  unfolding demoHash_def
  by (simp add: validateBlobHash_def lowerHex_def list_all_iff)

lemma demo_plan: "PlanBlobChunks [demoBlob] 2 = Inr [demoChunk 0, demoChunk 2, demoChunk 4]"
  by (simp add: PlanBlobChunks_def demo_norm demo_chunks)
    (simp add: demoBlob_def demo_hash BlobChunkCount_def demo_norm MaxBlobChunks_def)

lemma plan_covers_content_witness:
  "concat (map (chunkPayload 2 ''hello'') [demoChunk 0, demoChunk 2, demoChunk 4]) = ''hello''"
proof -
  have "concat (map (chunkPayload 2 ''hello'') (filter (\<lambda>i. chunkHash i = blobHash demoBlob)
      [demoChunk 0, demoChunk 2, demoChunk 4])) = ''hello''"
    by (rule plan_covers_content [OF demo_norm demo_plan]) (simp_all add: demoBlob_def)
  then show ?thesis by (simp add: demoBlob_def demoChunk_def)
qed

lemma plan_bounded_witness:
  "length [demoChunk 0, demoChunk 2, demoChunk 4] \<le> 2 ^ 20 \<and> chunkOffset (demoChunk 4) mod 2 = 0
    \<and> chunkOffset (demoChunk 4) < 2 ^ 46"
  using plan_bounded [OF demo_norm demo_plan] by simp

lemma chunks_any_order_witness:
  "\<exists>w. newChunkedBlobWriter True demoBlob 2 = Inr w \<and>
     wData (fst (runChunks ''hello'' [demoChunk 4, demoChunk 0, demoChunk 4, demoChunk 2] w)) = ''hello''"
proof -
  obtain w where w: "newChunkedBlobWriter True demoBlob 2 = Inr w"
    by (simp add: newChunkedBlobWriter_def demoBlob_def demo_hash BlobChunkCount_def demo_norm
        MaxBlobChunks_def)
  obtain w' rs where r: "runChunks ''hello'' [demoChunk 4, demoChunk 0, demoChunk 4, demoChunk 2] w
      = (w', rs)" by fastforce
  have sz: "int (length ''hello'') = blobSize demoBlob" by (simp add: demoBlob_def)
  have ar: "set [demoChunk 4, demoChunk 0, demoChunk 4, demoChunk 2] = set (blobChunks 2 demoBlob)"
    by (auto simp: demo_chunks)
  from chunks_any_order [OF demo_norm w sz ar r] w r show ?thesis by simp
qed

end
