(* ===== verification/BlobReceive.thy ===== *)
theory BlobReceive
  imports BlobPlan Entries
begin

text \<open>
  The content-addressed blob store (syncfs/store.go), the receiver that fills it from the
  chunks of an upload (syncfs/chunked\_blob.go), and the host's transfer sessions
  (host/blob\_transfer.go). \<open>sha\<close>, the hexadecimal SHA-256 of a content, is a parameter.
  A file of the store is its bytes and modification time; the store remembers the size and
  time of files it has verified and hashes a file again only when they changed.
\<close>

section \<open>The store\<close>

record blobFile =
  fileBytes :: string
  fileTime :: int
  regular :: bool

record blobStore =
  blobFiles :: "string \<rightharpoonup> blobFile"
  seenStamps :: "string \<rightharpoonup> int \<times> int"

definition stampOf :: "blobFile \<Rightarrow> int \<times> int" where
  "stampOf f = (int (length (fileBytes f)), fileTime f)"

text \<open>
  No other process touches the file during the check, so the second \<open>Stat\<close> agrees with the
  first. The result is the bytes behind the path.
\<close>

definition verifiedPath ::
  "(string \<Rightarrow> string) \<Rightarrow> string \<Rightarrow> int \<Rightarrow> blobStore \<Rightarrow> blobStore \<times> string option" where
  "verifiedPath sha hash size0 st =
     (case validateBlobHash hash of
        Inl _ \<Rightarrow> (st, None)
      | Inr _ \<Rightarrow>
          (case blobFiles st hash of
             None \<Rightarrow> (st, None)
           | Some f \<Rightarrow>
               (if \<not> regular f \<or> 0 \<le> size0 \<and> int (length (fileBytes f)) \<noteq> size0 then (st, None)
                else if seenStamps st hash = Some (stampOf f) then (st, Some (fileBytes f))
                else if sha (fileBytes f) \<noteq> hash then (st, None)
                else (st\<lparr>seenStamps := (seenStamps st)(hash \<mapsto> stampOf f)\<rparr>, Some (fileBytes f)))))"

definition Has :: "(string \<Rightarrow> string) \<Rightarrow> string \<Rightarrow> int \<Rightarrow> blobStore \<Rightarrow> blobStore \<times> bool" where
  "Has sha hash size0 st = (case verifiedPath sha hash size0 st of (st', r) \<Rightarrow> (st', r \<noteq> None))"

fun missingLoop ::
  "(string \<Rightarrow> string) \<Rightarrow> string set \<Rightarrow> entry list \<Rightarrow> blobStore \<Rightarrow> blobStore \<times> string list" where
  "missingLoop sha seen [] st = (st, [])"
| "missingLoop sha seen (e # es) st =
     (if Kind e \<noteq> KindFile \<or> Hash e = [] \<or> Hash e \<in> seen then missingLoop sha seen es st
      else
        (let (st1, has) = Has sha (Hash e) (Size e) st;
             (st2, out) = missingLoop sha (insert (Hash e) seen) es st1 in
         (st2, if has then out else Hash e # out)))"

definition MissingHashes :: "(string \<Rightarrow> string) \<Rightarrow> entry list \<Rightarrow> blobStore \<Rightarrow> blobStore \<times> string list" where
  "MissingHashes sha entries st = missingLoop sha {} entries st"

text \<open>\<open>remember\<close> stats the file under its path.\<close>

definition remember :: "string \<Rightarrow> int \<Rightarrow> blobStore \<Rightarrow> blobStore" where
  "remember hash size0 st =
     (case blobFiles st hash of
        None \<Rightarrow> st
      | Some f \<Rightarrow> if int (length (fileBytes f)) \<noteq> size0 then st
                  else st\<lparr>seenStamps := (seenStamps st)(hash \<mapsto> stampOf f)\<rparr>)"

text \<open>The atomic move of a complete temporary file into place, at time \<open>now\<close>.\<close>

definition placeBlob :: "string \<Rightarrow> string \<Rightarrow> int \<Rightarrow> blobStore \<Rightarrow> blobStore" where
  "placeBlob hash bytes now st =
     st\<lparr>blobFiles := (blobFiles st)(hash \<mapsto> \<lparr>fileBytes = bytes, fileTime = now, regular = True\<rparr>)\<rparr>"

text \<open>\<open>io\<close>: the first step that fails, if any, with its error; \<open>src\<close> what the reader gives.\<close>

definition Store ::
  "(string \<Rightarrow> string) \<Rightarrow> blobError option \<Rightarrow> int \<Rightarrow> string \<Rightarrow> int \<Rightarrow> string \<Rightarrow> blobStore \<Rightarrow>
   blobStore \<times> (blobError + unit)" where
  "Store sha io now hash size0 src st =
     (if size0 < 0 then (st, Inl (NegativeSize hash))
      else case validateBlobHash hash of
        Inl e \<Rightarrow> (st, Inl e)
      | Inr _ \<Rightarrow>
          (let (st1, has) = Has sha hash size0 st in
           if has then
             (st1, if int (length src) < size0 then Inl BlobShortPayload else Inr ())
           else if int (length src) < size0 then (st1, Inl BlobShortPayload)
           else
             (let bytes = take (nat size0) src in
              if sha bytes \<noteq> hash then (st1, Inl BlobDigestMismatch)
              else (case io of
                 Some e \<Rightarrow> (st1, Inl e)
               | None \<Rightarrow> (remember hash size0 (placeBlob hash bytes now st1), Inr ())))))"

text \<open>
  \<open>StorePath\<close> copies the file \<open>src\<close>, as found by \<open>Stat\<close>; \<open>cloned\<close> are the bytes a clone of the
  file system gave, \<open>None\<close> where cloning is not available and \<open>Store\<close> copies instead.
\<close>

definition StorePath ::
  "(string \<Rightarrow> string) \<Rightarrow> blobError option \<Rightarrow> int \<Rightarrow> string option \<Rightarrow> string \<Rightarrow> int \<Rightarrow> string \<Rightarrow>
   blobStore \<Rightarrow> blobStore \<times> (blobError + unit)" where
  "StorePath sha io now cloned hash size0 src st =
     (if size0 < 0 then (st, Inl (NegativeSize hash))
      else if int (length src) \<noteq> size0 then (st, Inl (TransferOther ''source size''))
      else case validateBlobHash hash of
        Inl e \<Rightarrow> (st, Inl e)
      | Inr _ \<Rightarrow>
          (let (st1, has) = Has sha hash size0 st in
           if has then (st1, Inr ())
           else case cloned of
             None \<Rightarrow> Store sha io now hash size0 src st1
           | Some bytes \<Rightarrow>
               (if sha bytes \<noteq> hash \<or> int (length bytes) \<noteq> size0
                then (st1, Inl BlobDigestMismatch)
                else (case io of
                   Some e \<Rightarrow> (st1, Inl e)
                 | None \<Rightarrow> (remember hash size0 (placeBlob hash bytes now st1), Inr ())))))"

section \<open>The receiver\<close>

record blobReceiver =
  rChunkSize :: int
  rBlobs :: "string \<rightharpoonup> blobDescriptor"
  rWriters :: "string \<rightharpoonup> chunkWriter"
  rPending :: int
  rErr :: "blobError option"
  rDone :: bool

text \<open>The loop of \<open>NewChunkedBlobReceiver\<close>; \<open>tempOk\<close> says whose temporary file can be made.\<close>

fun receiverLoop ::
  "(string \<Rightarrow> string) \<Rightarrow> (string \<Rightarrow> bool) \<Rightarrow> blobDescriptor list \<Rightarrow> blobReceiver \<Rightarrow> blobStore \<Rightarrow>
   blobStore \<times> (blobError + blobReceiver)" where
  "receiverLoop sha tempOk [] r st = (st, Inr r)"
| "receiverLoop sha tempOk (b # bs) r st =
     (case validateBlobHash (blobHash b) of
        Inl e \<Rightarrow> (st, Inl e)
      | Inr _ \<Rightarrow>
          (if blobSize b < 0 then (st, Inl (NegativeSize (blobHash b)))
           else if rBlobs r (blobHash b) \<noteq> None then (st, Inl (DuplicateDescriptor (blobHash b)))
           else
             (let r1 = r\<lparr>rBlobs := (rBlobs r)(blobHash b \<mapsto> b)\<rparr>;
                  (st1, has) = Has sha (blobHash b) (blobSize b) st in
              if has then receiverLoop sha tempOk bs r1 st1
              else (case newChunkedBlobWriter (tempOk (blobHash b)) b (rChunkSize r) of
                 Inl e \<Rightarrow> (st1, Inl e)
               | Inr w \<Rightarrow>
                   receiverLoop sha tempOk bs
                     (r1\<lparr>rWriters := (rWriters r1)(blobHash b \<mapsto> w), rPending := rPending r1 + 1\<rparr>)
                     st1))))"

definition NewChunkedBlobReceiver ::
  "(string \<Rightarrow> string) \<Rightarrow> (string \<Rightarrow> bool) \<Rightarrow> blobDescriptor list \<Rightarrow> int \<Rightarrow> blobStore \<Rightarrow>
   blobStore \<times> (blobError + blobReceiver)" where
  "NewChunkedBlobReceiver sha tempOk blobs chunkSize0 st =
     (case normalizeBlobChunkSize chunkSize0 of
        Inl e \<Rightarrow> (st, Inl e)
      | Inr chunkSize \<Rightarrow>
          (case receiverLoop sha tempOk blobs
              \<lparr>rChunkSize = chunkSize, rBlobs = Map.empty, rWriters = Map.empty, rPending = 0,
               rErr = None, rDone = False\<rparr> st of
             (st', Inl e) \<Rightarrow> (st', Inl e)
           | (st', Inr r) \<Rightarrow> (st', Inr (if rPending r = 0 then r\<lparr>rDone := True\<rparr> else r))))"

definition closeDoneLocked :: "blobReceiver \<Rightarrow> blobReceiver" where
  "closeDoneLocked r =
     (if \<not> rDone r \<and> (rErr r \<noteq> None \<or> rPending r = 0) then r\<lparr>rDone := True\<rparr> else r)"

text \<open>\<open>fail\<close>: the first error stays and drops all writers; the value is the error kept.\<close>

definition failReceiver :: "blobError \<Rightarrow> blobReceiver \<Rightarrow> blobReceiver \<times> blobError" where
  "failReceiver e r =
     (case rErr r of
        Some e0 \<Rightarrow> (r, e0)
      | None \<Rightarrow> (closeDoneLocked (r\<lparr>rErr := Some e, rWriters := Map.empty\<rparr>), e))"

definition failWith :: "blobError \<Rightarrow> blobReceiver \<Rightarrow> blobReceiver \<times> (blobError + unit)" where
  "failWith e r = (case failReceiver e r of (r', e') \<Rightarrow> (r', Inl e'))"

text \<open>
  \<open>Wait\<close>: \<open>None\<close> while neither the receiver is done nor the context; when both are, the
  select may take either, and \<open>ctxDone\<close> says that it takes the context.
\<close>

definition waitReceiver :: "bool \<Rightarrow> blobReceiver \<Rightarrow> (blobReceiver \<times> (blobError + unit)) option" where
  "waitReceiver ctxDone r =
     (if ctxDone then Some (failWith TransferCancelled r)
      else if rDone r then Some (r, case rErr r of None \<Rightarrow> Inr () | Some e \<Rightarrow> Inl e)
      else None)"

text \<open>\<open>commit\<close>: sync, hash and move the temporary file; \<open>io\<close> is a failing step.\<close>

definition commitWriter ::
  "(string \<Rightarrow> string) \<Rightarrow> blobError option \<Rightarrow> int \<Rightarrow> chunkWriter \<Rightarrow> blobStore \<Rightarrow>
   chunkWriter \<times> blobStore \<times> (blobError + unit)" where
  "commitWriter sha io now w st =
     (if committed w then (w, st, Inr ())
      else
        (let w' = w\<lparr>committed := True\<rparr> in
         case io of
           Some e \<Rightarrow> (w', st, Inl e)
         | None \<Rightarrow>
             (if sha (wData w) \<noteq> wHash w then (w', st, Inl BlobDigestMismatch)
              else
                (let (st1, has) = Has sha (wHash w) (wSize w) st in
                 if has then (w', st1, Inr ())
                 else (w', remember (wHash w) (wSize w) (placeBlob (wHash w) (wData w) now st1),
                       Inr ())))))"

text \<open>
  \<open>ReceiveChunk\<close>: \<open>avail\<close> are the bytes the connection delivers before it ends; fewer than
  \<open>payloadLen\<close> is the read error that leaves the receiver as it is, for a retry.
\<close>

definition ReceiveChunk ::
  "(string \<Rightarrow> string) \<Rightarrow> bool \<Rightarrow> blobError option \<Rightarrow> int \<Rightarrow> blobChunkInfo \<Rightarrow> string \<Rightarrow> int \<Rightarrow>
   blobReceiver \<times> blobStore \<Rightarrow> (blobReceiver \<times> blobStore) \<times> (blobError + unit)" where
  "ReceiveChunk sha writeOk io now info avail payloadLen rs =
     (let (r, st) = rs;
          fail = (\<lambda>e r st. case failWith e r of (r', res) \<Rightarrow> ((r', st), res)) in
      if payloadLen < 0 then fail NegativeLength r st
      else case rErr r of
        Some e \<Rightarrow> ((r, st), Inl e)
      | None \<Rightarrow>
          (case rWriters r (chunkHash info) of
             None \<Rightarrow>
               (case rBlobs r (chunkHash info) of
                  None \<Rightarrow> fail (UnexpectedChunk (chunkHash info)) r st
                | Some blob \<Rightarrow>
                    (let (st1, has) = Has sha (chunkHash info) (blobSize blob) st in
                     if \<not> has then fail (UnexpectedChunk (chunkHash info)) r st1
                     else (case validateBlobChunkShape info (blobHash blob) (blobSize blob)
                             (rChunkSize r) payloadLen of
                        Inl e \<Rightarrow> fail e r st1
                      | Inr _ \<Rightarrow> ((r, st1),
                          if int (length avail) < payloadLen then Inl ChunkRead else Inr ()))))
           | Some w \<Rightarrow>
               (case validateBlobChunkShape info (wHash w) (wSize w) (wChunkSize w) payloadLen of
                  Inl e \<Rightarrow> fail e r st
                | Inr _ \<Rightarrow>
                    (if int (length avail) < payloadLen then ((r, st), Inl ChunkRead)
                     else
                       (let (w1, res) = writeChunk writeOk info (take (nat payloadLen) avail) w;
                            r1 = r\<lparr>rWriters := (rWriters r)(chunkHash info \<mapsto> w1)\<rparr> in
                        case res of
                          Inl e \<Rightarrow> fail e r1 st
                        | Inr complete \<Rightarrow>
                            (if \<not> complete then ((r1, st), Inr ())
                             else
                               (let (w2, st2, cres) = commitWriter sha io now w1 st in
                                case cres of
                                  Inl e \<Rightarrow> fail e (r1\<lparr>rWriters := (rWriters r1)(chunkHash info \<mapsto> w2)\<rparr>) st2
                                | Inr _ \<Rightarrow>
                                    ((closeDoneLocked (r1\<lparr>rWriters := (rWriters r1)(chunkHash info := None),
                                        rPending := rPending r1 - 1\<rparr>), st2), Inr ()))))))))"

section \<open>What the store guarantees\<close>

text \<open>A stamp the store trusts belongs to bytes with the right digest.\<close>

definition storeOk :: "(string \<Rightarrow> string) \<Rightarrow> blobStore \<Rightarrow> bool" where
  "storeOk sha st \<longleftrightarrow>
     (\<forall>h f. blobFiles st h = Some f \<longrightarrow> seenStamps st h = Some (stampOf f) \<longrightarrow> sha (fileBytes f) = h)"

definition holds :: "(string \<Rightarrow> string) \<Rightarrow> blobStore \<Rightarrow> string \<Rightarrow> int \<Rightarrow> bool" where
  "holds sha st h n \<longleftrightarrow> validateBlobHash h = Inr () \<and>
     (\<exists>f. blobFiles st h = Some f \<and> regular f \<and> sha (fileBytes f) = h \<and> int (length (fileBytes f)) = n)"

lemma verifiedPath_facts:
  assumes "storeOk sha st" and "verifiedPath sha h n st = (st', r)"
  shows "storeOk sha st' \<and> blobFiles st' = blobFiles st
    \<and> (\<forall>bytes. r = Some bytes \<longrightarrow> sha bytes = h \<and> (0 \<le> n \<longrightarrow> int (length bytes) = n)
         \<and> holds sha st h (int (length bytes)))
    \<and> (0 \<le> n \<longrightarrow> holds sha st h n \<longrightarrow> r \<noteq> None)"
proof (cases "validateBlobHash h")
  case (Inl e)
  then show ?thesis using assms by (auto simp: verifiedPath_def holds_def)
next
  case (Inr u)
  show ?thesis
  proof (cases "blobFiles st h")
    case None
    then show ?thesis using assms Inr by (auto simp: verifiedPath_def holds_def)
  next
    case (Some f)
    then show ?thesis
      using assms Inr by (auto simp: verifiedPath_def holds_def storeOk_def split: if_splits)
  qed
qed

lemma Has_facts:
  assumes "storeOk sha st" and "Has sha h n st = (st', b)"
  shows "storeOk sha st' \<and> blobFiles st' = blobFiles st \<and> (0 \<le> n \<longrightarrow> b = holds sha st h n)"
proof -
  obtain r where v: "verifiedPath sha h n st = (st', r)" "b = (r \<noteq> None)"
    using assms(2) by (auto simp: Has_def split: prod.splits)
  note f = verifiedPath_facts [OF assms(1) v(1)]
  then show ?thesis using v(2) by (cases r) auto
qed

lemma place_facts:
  assumes "storeOk sha st" "sha bytes = h" "int (length bytes) = n" "validateBlobHash h = Inr ()"
  shows "storeOk sha (remember h n (placeBlob h bytes now st))
    \<and> holds sha (remember h n (placeBlob h bytes now st)) h n
    \<and> (\<forall>j. j \<noteq> h \<longrightarrow> blobFiles (remember h n (placeBlob h bytes now st)) j = blobFiles st j)"
  using assms by (auto simp: storeOk_def holds_def remember_def placeBlob_def)

lemma holds_files: "blobFiles st' h = blobFiles st h \<Longrightarrow> holds sha st' h n = holds sha st h n"
  by (simp add: holds_def)

lemma Store_facts:
  assumes "storeOk sha st" and "Store sha io now h n src st = (st', r)"
  shows "storeOk sha st' \<and> (r = Inr () \<longrightarrow> holds sha st' h n)
    \<and> (r \<noteq> Inr () \<longrightarrow> blobFiles st' = blobFiles st)"
proof (cases "n < 0 \<or> \<not> isOk (validateBlobHash h)")
  case True
  then show ?thesis using assms by (auto simp: Store_def isOk_def split: sum.splits if_splits)
next
  case False
  then have v: "0 \<le> n" "validateBlobHash h = Inr ()" by (auto simp: isOk_iff)
  obtain st1 has where hs: "Has sha h n st = (st1, has)" by fastforce
  note hf = Has_facts [OF assms(1) hs]
  consider "has" | "\<not> has" "int (length src) < n" | "\<not> has" "n \<le> int (length src)" by linarith
  then show ?thesis
  proof cases
    case 1
    then show ?thesis
      using assms(2) hs hf v holds_files [of st1 h st] by (auto simp: Store_def split: if_splits)
  next
    case 2
    then show ?thesis using assms(2) hs hf v by (auto simp: Store_def)
  next
    case 3
    then show ?thesis
      using assms(2) hs hf v place_facts [of sha st1 "take (nat n) src" h n now]
      by (auto simp: Store_def Let_def split: if_splits option.splits)
  qed
qed

section \<open>What the receiver guarantees\<close>

definition recvInv :: "(string \<Rightarrow> string) \<Rightarrow> blobReceiver \<Rightarrow> blobStore \<Rightarrow> bool" where
  "recvInv sha r st \<longleftrightarrow>
     storeOk sha st \<and> finite (dom (rWriters r))
     \<and> (\<forall>h w. rWriters r h = Some w \<longrightarrow> (\<exists>b. rBlobs r h = Some b \<and> wHash w = h
          \<and> wSize w = blobSize b \<and> writerInv w \<and> \<not> committed w))
     \<and> (\<forall>h b. rBlobs r h = Some b \<longrightarrow> blobHash b = h \<and> 0 \<le> blobSize b \<and> validateBlobHash h = Inr ())
     \<and> (rErr r = None \<longrightarrow> rPending r = int (card (dom (rWriters r)))
          \<and> (\<forall>h b. rBlobs r h = Some b \<longrightarrow> rWriters r h = None \<longrightarrow> holds sha st h (blobSize b)))"

lemma recvInv_fail:
  assumes "failWith e r = (r', res)" "storeOk sha st"
    and "\<forall>h b. rBlobs r h = Some b \<longrightarrow> blobHash b = h \<and> 0 \<le> blobSize b \<and> validateBlobHash h = Inr ()"
    and "rErr r = None"
  shows "recvInv sha r' st \<and> rErr r' \<noteq> None \<and> rBlobs r' = rBlobs r"
  using assms
  by (auto simp: failWith_def failReceiver_def recvInv_def closeDoneLocked_def split: if_splits)

lemma recvInv_store:
  assumes "recvInv sha r st" "storeOk sha st'" "blobFiles st' = blobFiles st"
  shows "recvInv sha r st'"
  using assms holds_files [of st' _ st] unfolding recvInv_def by auto

lemma commit_facts:
  assumes "storeOk sha st" "writerInv w" "\<not> committed w" "validateBlobHash (wHash w) = Inr ()"
    and "commitWriter sha io now w st = (w', st', r)"
  shows "storeOk sha st' \<and> (\<forall>j. j \<noteq> wHash w \<longrightarrow> blobFiles st' j = blobFiles st j)
    \<and> (r = Inr () \<longrightarrow> holds sha st' (wHash w) (wSize w))"
proof -
  have sz: "int (length (wData w)) = wSize w" "0 \<le> wSize w" using assms(2) by (auto simp: writerInv_def)
  obtain st1 has where hs: "Has sha (wHash w) (wSize w) st = (st1, has)" by fastforce
  note hf = Has_facts [OF assms(1) hs]
  note pf = place_facts [of sha st1 "wData w" "wHash w" "wSize w" now]
  show ?thesis
    using assms sz hs hf pf holds_files [of st1 "wHash w" st]
    by (auto simp: commitWriter_def Let_def split: option.splits if_splits)
qed

lemma recvInv_ReceiveChunk:
  assumes inv: "recvInv sha r st"
    and rc: "ReceiveChunk sha writeOk io now info avail n (r, st) = ((r', st'), res)"
  shows "recvInv sha r' st' \<and> rBlobs r' = rBlobs r"
proof (cases "rErr r")
  case (Some e)
  then show ?thesis
    using inv rc by (auto simp: ReceiveChunk_def failWith_def failReceiver_def split: if_splits)
next
  case noerr: None
  have blobs: "\<forall>h b. rBlobs r h = Some b \<longrightarrow> blobHash b = h \<and> 0 \<le> blobSize b \<and> validateBlobHash h = Inr ()"
    and ok: "storeOk sha st" using inv by (simp_all add: recvInv_def)
  have fail: "recvInv sha r2 st2 \<and> rBlobs r2 = rBlobs r"
    if "failWith e rx = (r2, res2)" "storeOk sha st2" "rBlobs rx = rBlobs r" "rErr rx = None" for e rx r2 res2 st2
    using recvInv_fail [OF that(1,2)] blobs that(3,4) by auto
  show ?thesis
  proof (cases "n < 0")
    case True
    then show ?thesis using rc ok noerr fail by (auto simp: ReceiveChunk_def split: prod.splits)
  next
    case pos: False
    show ?thesis
    proof (cases "rWriters r (chunkHash info)")
      case nw: None
      show ?thesis
      proof (cases "rBlobs r (chunkHash info)")
        case None
        then show ?thesis
          using rc pos ok noerr nw fail by (auto simp: ReceiveChunk_def split: prod.splits)
      next
        case (Some b)
        obtain st1 has where hs: "Has sha (chunkHash info) (blobSize b) st = (st1, has)" by fastforce
        note hf = Has_facts [OF ok hs]
        have keep: "recvInv sha r st1" using recvInv_store [OF inv] hf by blast
        show ?thesis
          using rc pos noerr nw Some hs hf keep fail
          by (auto simp: ReceiveChunk_def Let_def split: if_splits prod.splits sum.splits)
      qed
    next
      case (Some w)
      obtain b where b: "rBlobs r (chunkHash info) = Some b" "wHash w = chunkHash info"
        "wSize w = blobSize b" "writerInv w" "\<not> committed w"
        using inv Some unfolding recvInv_def by blast
      obtain w1 wres where wr: "writeChunk writeOk info (take (nat n) avail) w = (w1, wres)" by fastforce
      note wi = writeChunk_inv [OF b(4) wr]
      let ?r1 = "r\<lparr>rWriters := (rWriters r)(chunkHash info \<mapsto> w1)\<rparr>"
      have dom1: "dom (rWriters ?r1) = dom (rWriters r)" using Some by auto
      have inv1: "recvInv sha ?r1 st"
        using inv b wi dom1 unfolding recvInv_def by (simp add: insert_absorb)
      obtain w2 st2 cres where cm: "commitWriter sha io now w1 st = (w2, st2, cres)"
        by (metis prod_cases3)
      have "validateBlobHash (wHash w1) = Inr ()" using blobs b wi by auto
      note cf = commit_facts [OF ok _ _ this cm]
      let ?r2 = "r\<lparr>rWriters := (rWriters r)(chunkHash info := None), rPending := rPending r - 1\<rparr>"
      have inv2: "recvInv sha (closeDoneLocked ?r2) st2" if "cres = Inr ()"
      proof -
        have c: "storeOk sha st2" "\<forall>j. j \<noteq> chunkHash info \<longrightarrow> blobFiles st2 j = blobFiles st j"
          "holds sha st2 (chunkHash info) (blobSize b)"
          using cf wi b that by auto
        have fin: "finite (dom (rWriters r))" "rPending r = int (card (dom (rWriters r)))"
          using inv noerr by (simp_all add: recvInv_def)
        have "chunkHash info \<in> dom (rWriters r)" using Some by blast
        then have card: "rPending r - 1 = int (card (dom (rWriters r) - {chunkHash info}))"
          using fin card_gt_0_iff [of "dom (rWriters r)"] by (auto simp: card_Diff_singleton of_nat_diff)
        have held: "holds sha st2 h (blobSize bb)"
          if "rBlobs r h = Some bb" "((rWriters r)(chunkHash info := None)) h = None" for h bb
        proof (cases "h = chunkHash info")
          case True
          then show ?thesis using that b(1) c(3) by simp
        next
          case False
          then have "holds sha st h (blobSize bb)"
            using that inv noerr unfolding recvInv_def by auto
          then show ?thesis using False c(2) holds_files [of st2 h st] by simp
        qed
        have "recvInv sha ?r2 st2"
          using inv c(1) card held fin noerr unfolding recvInv_def
          by (auto split: if_splits)
        then show ?thesis by (simp add: closeDoneLocked_def recvInv_def)
      qed
      show ?thesis
        using rc pos noerr Some wr cm inv inv1 inv2 cf wi b(5) ok fail
        by (auto simp: ReceiveChunk_def Let_def closeDoneLocked_def split: if_splits prod.splits sum.splits)
    qed
  qed
qed

lemma recvInv_rDone [simp]: "recvInv sha (r\<lparr>rDone := d\<rparr>) st = recvInv sha r st"
  unfolding recvInv_def by simp

lemma recvInvD:
  assumes "recvInv sha r st"
  shows "storeOk sha st" "finite (dom (rWriters r))"
    "rWriters r h = Some w \<Longrightarrow> \<exists>b. rBlobs r h = Some b \<and> wHash w = h \<and> wSize w = blobSize b
       \<and> writerInv w \<and> \<not> committed w"
    "rBlobs r h = Some b \<Longrightarrow> blobHash b = h \<and> 0 \<le> blobSize b \<and> validateBlobHash h = Inr ()"
    "rErr r = None \<Longrightarrow> rPending r = int (card (dom (rWriters r)))"
    "rErr r = None \<Longrightarrow> rBlobs r h = Some b \<Longrightarrow> rWriters r h = None \<Longrightarrow> holds sha st h (blobSize b)"
  using assms unfolding recvInv_def by blast+

lemma recvInvI:
  assumes "storeOk sha st" "finite (dom (rWriters r))"
    "\<And>h w. rWriters r h = Some w \<Longrightarrow> \<exists>b. rBlobs r h = Some b \<and> wHash w = h \<and> wSize w = blobSize b
       \<and> writerInv w \<and> \<not> committed w"
    "\<And>h b. rBlobs r h = Some b \<Longrightarrow> blobHash b = h \<and> 0 \<le> blobSize b \<and> validateBlobHash h = Inr ()"
    "rErr r = None \<Longrightarrow> rPending r = int (card (dom (rWriters r)))"
    "\<And>h b. rErr r = None \<Longrightarrow> rBlobs r h = Some b \<Longrightarrow> rWriters r h = None \<Longrightarrow> holds sha st h (blobSize b)"
  shows "recvInv sha r st"
  unfolding recvInv_def using assms by blast

lemma recvInv_addBlob:
  assumes inv: "recvInv sha r st" and b: "validateBlobHash (blobHash b) = Inr ()" "0 \<le> blobSize b"
    and nw: "rWriters r (blobHash b) = None" and held: "holds sha st (blobHash b) (blobSize b)"
  shows "recvInv sha (r\<lparr>rBlobs := (rBlobs r)(blobHash b \<mapsto> b)\<rparr>) st"
proof (rule recvInvI)
  fix h w
  assume w: "rWriters (r\<lparr>rBlobs := (rBlobs r)(blobHash b \<mapsto> b)\<rparr>) h = Some w"
  then have "h \<noteq> blobHash b" "rWriters r h = Some w" using nw by auto
  with recvInvD(3) [OF inv this(2)] show "\<exists>b'. rBlobs (r\<lparr>rBlobs := (rBlobs r)(blobHash b \<mapsto> b)\<rparr>) h = Some b'
      \<and> wHash w = h \<and> wSize w = blobSize b' \<and> writerInv w \<and> \<not> committed w" by simp
next
  fix h b'
  assume "rBlobs (r\<lparr>rBlobs := (rBlobs r)(blobHash b \<mapsto> b)\<rparr>) h = Some b'"
  then show "blobHash b' = h \<and> 0 \<le> blobSize b' \<and> validateBlobHash h = Inr ()"
    using recvInvD(4) [OF inv, of h b'] b by (cases "h = blobHash b") simp_all
next
  fix h b'
  assume "rErr (r\<lparr>rBlobs := (rBlobs r)(blobHash b \<mapsto> b)\<rparr>) = None"
    "rBlobs (r\<lparr>rBlobs := (rBlobs r)(blobHash b \<mapsto> b)\<rparr>) h = Some b'"
    "rWriters (r\<lparr>rBlobs := (rBlobs r)(blobHash b \<mapsto> b)\<rparr>) h = None"
  then show "holds sha st h (blobSize b')"
    using recvInvD(6) [OF inv, of h b'] held by (cases "h = blobHash b") simp_all
qed (use recvInvD(1,2,5) [OF inv] in simp_all)

lemma recvInv_addWriter:
  assumes inv: "recvInv sha r st" and b: "validateBlobHash (blobHash b) = Inr ()" "0 \<le> blobSize b"
    and nw: "rWriters r (blobHash b) = None"
    and w: "wHash w = blobHash b" "wSize w = blobSize b" "writerInv w" "\<not> committed w"
  shows "recvInv sha (r\<lparr>rBlobs := (rBlobs r)(blobHash b \<mapsto> b),
    rWriters := (rWriters r)(blobHash b \<mapsto> w), rPending := rPending r + 1\<rparr>) st" (is "recvInv sha ?r st")
proof (rule recvInvI)
  fix h v
  assume v: "rWriters ?r h = Some v"
  show "\<exists>b'. rBlobs ?r h = Some b' \<and> wHash v = h \<and> wSize v = blobSize b' \<and> writerInv v \<and> \<not> committed v"
    using v w recvInvD(3) [OF inv, of h v] by (cases "h = blobHash b") simp_all
next
  fix h b'
  assume "rBlobs ?r h = Some b'"
  then show "blobHash b' = h \<and> 0 \<le> blobSize b' \<and> validateBlobHash h = Inr ()"
    using recvInvD(4) [OF inv, of h b'] b by (cases "h = blobHash b") simp_all
next
  fix h b'
  assume "rErr ?r = None" "rBlobs ?r h = Some b'" "rWriters ?r h = None"
  then show "holds sha st h (blobSize b')"
    using recvInvD(6) [OF inv, of h b'] by (cases "h = blobHash b") simp_all
next
  assume "rErr ?r = None"
  moreover have "blobHash b \<notin> dom (rWriters r)" using nw by blast
  ultimately show "rPending ?r = int (card (dom (rWriters ?r)))"
    using recvInvD(2,5) [OF inv] by simp
qed (use recvInvD(1,2) [OF inv] in simp_all)

lemma receiverLoop_inv:
  "receiverLoop sha tempOk bs r st = (st', Inr r') \<Longrightarrow> recvInv sha r st \<Longrightarrow> rErr r = None \<Longrightarrow>
   normalizeBlobChunkSize (rChunkSize r) = Inr (rChunkSize r) \<Longrightarrow>
   recvInv sha r' st' \<and> rErr r' = None \<and> rDone r' = rDone r
   \<and> (\<forall>h. rBlobs r' h = (case rBlobs r h of Some b \<Rightarrow> Some b
        | None \<Rightarrow> map_of (map (\<lambda>b. (blobHash b, b)) bs) h))"
proof (induction bs arbitrary: r st)
  case Nil
  then show ?case by (auto split: option.splits)
next
  case (Cons b bs)
  let ?h = "blobHash b"
  have v: "validateBlobHash ?h = Inr ()" "0 \<le> blobSize b" "rBlobs r ?h = None"
    using Cons.prems(1) by (auto split: sum.splits if_splits)
  have nowriter: "rWriters r ?h = None"
    using Cons.prems(2) v(3) unfolding recvInv_def by (cases "rWriters r ?h") fastforce+
  obtain st1 has where hs: "Has sha ?h (blobSize b) st = (st1, has)" by fastforce
  have ok: "storeOk sha st" using Cons.prems(2) by (simp add: recvInv_def)
  note hf = Has_facts [OF ok hs]
  have keep: "recvInv sha r st1" using recvInv_store [OF Cons.prems(2)] hf by blast
  let ?r1 = "r\<lparr>rBlobs := (rBlobs r)(?h \<mapsto> b)\<rparr>"
  have tail: "\<forall>h. rBlobs r' h = (case rBlobs r h of Some b \<Rightarrow> Some b
        | None \<Rightarrow> map_of (map (\<lambda>b. (blobHash b, b)) (b # bs)) h)"
    if "\<forall>h. rBlobs r' h = (case rBlobs ?r1 h of Some b \<Rightarrow> Some b
        | None \<Rightarrow> map_of (map (\<lambda>b. (blobHash b, b)) bs) h)"
    using that v(3) by (auto split: option.splits)
  show ?case
  proof (cases has)
    case True
    have "holds sha st1 ?h (blobSize b)" using hf True v(2) holds_files [of st1 ?h st] by simp
    from recvInv_addBlob [OF keep v(1,2) nowriter this] have "recvInv sha ?r1 st1" .
    moreover have "receiverLoop sha tempOk bs ?r1 st1 = (st', Inr r')"
      using Cons.prems(1) v hs True by (simp add: Let_def)
    ultimately have ih: "recvInv sha r' st' \<and> rErr r' = None \<and> rDone r' = rDone ?r1"
      "\<forall>h. rBlobs r' h = (case rBlobs ?r1 h of Some b \<Rightarrow> Some b
        | None \<Rightarrow> map_of (map (\<lambda>b. (blobHash b, b)) bs) h)"
      using Cons.IH [of ?r1 st1] Cons.prems(3,4) by (simp_all only: simp_thms) simp_all
    have "rDone ?r1 = rDone r" by simp
    with ih(1) tail [OF ih(2)] show ?thesis by presburger
  next
    case False
    then obtain w where w: "newChunkedBlobWriter (tempOk ?h) b (rChunkSize r) = Inr w"
      using Cons.prems(1) v hs by (auto simp: Let_def split: sum.splits)
    note nw = newWriter_facts [OF w Cons.prems(4)]
    let ?r2 = "?r1\<lparr>rWriters := (rWriters ?r1)(?h \<mapsto> w), rPending := rPending ?r1 + 1\<rparr>"
    have "recvInv sha ?r2 st1"
      using recvInv_addWriter [OF keep v(1,2) nowriter, of w] nw by simp
    moreover have "receiverLoop sha tempOk bs ?r2 st1 = (st', Inr r')"
      using Cons.prems(1) v hs False w by (simp add: Let_def)
    moreover have r2: "rBlobs ?r2 = rBlobs ?r1" "rDone ?r2 = rDone r" by simp_all
    ultimately have ih: "recvInv sha r' st' \<and> rErr r' = None \<and> rDone r' = rDone r"
      "\<forall>h. rBlobs r' h = (case rBlobs ?r2 h of Some b \<Rightarrow> Some b
        | None \<Rightarrow> map_of (map (\<lambda>b. (blobHash b, b)) bs) h)"
      using Cons.IH [of ?r2 st1] Cons.prems(3,4) by (simp_all only: simp_thms) simp_all
    from ih(1) tail [OF ih(2) [unfolded r2(1)]] show ?thesis by presburger
  qed
qed

text \<open>One call of \<open>ReceiveChunk\<close> from some connection, and its environment.\<close>

record chunkEvent =
  evWriteOk :: bool
  evIO :: "blobError option"
  evNow :: int
  evInfo :: blobChunkInfo
  evAvail :: string
  evLen :: int

section \<open>Properties\<close>

text \<open>
  C11. The store never hands out bytes that do not have the digest they are filed under,
  whichever files it has seen before, and storing keeps it that way: a blob is stored only
  with the right digest and size.
\<close>

theorem store_is_content_addressed:
  assumes "storeOk sha st" "Store sha io now h n src st = (st1, r)"
    and "verifiedPath sha h' n' st1 = (st2, Some bytes)"
  shows "sha bytes = h' \<and> storeOk sha st2 \<and> (r = Inr () \<longrightarrow> holds sha st2 h n)"
proof -
  note s = Store_facts [OF assms(1,2)]
  then have "storeOk sha st1" by blast
  from verifiedPath_facts [OF this assms(3)] s show ?thesis
    using holds_files [of st2 h st1] by auto
qed

text \<open>A digest with one known content, and an empty store.\<close>

definition demoSha :: "string \<Rightarrow> string" where
  "demoSha s = (if s = ''hello'' then demoHash else replicate 64 CHR ''b'')"

definition emptyStore :: blobStore where
  "emptyStore = \<lparr>blobFiles = Map.empty, seenStamps = Map.empty\<rparr>"

lemma emptyStore_ok: "storeOk sha emptyStore"
  by (simp add: storeOk_def emptyStore_def)

lemma demoSha_hello: "demoSha ''hello'' = demoHash"
  by (simp add: demoSha_def)

lemma store_is_content_addressed_witness:
  "\<exists>st1 st2. Store demoSha None 7 demoHash 5 ''hello world'' emptyStore = (st1, Inr ())
     \<and> verifiedPath demoSha demoHash 5 st1 = (st2, Some ''hello'')
     \<and> holds demoSha st2 demoHash 5"
proof -
  let ?st = "\<lparr>blobFiles = [demoHash \<mapsto> \<lparr>fileBytes = ''hello'', fileTime = 7, regular = True\<rparr>],
     seenStamps = [demoHash \<mapsto> (5, 7)]\<rparr>"
  have s: "Store demoSha None 7 demoHash 5 ''hello world'' emptyStore = (?st, Inr ())"
    by (simp add: Store_def Has_def verifiedPath_def demo_hash emptyStore_def demoSha_hello
        remember_def placeBlob_def stampOf_def)
  have v: "verifiedPath demoSha demoHash 5 ?st = (?st, Some ''hello'')"
    by (simp add: verifiedPath_def demo_hash stampOf_def)
  from store_is_content_addressed [OF emptyStore_ok s v] s v show ?thesis by blast
qed

lemma demo_size: "normalizeBlobChunkSize 0 = Inr DefaultBlobChunkSize"
  "BlobChunkCount 5 DefaultBlobChunkSize = Inr 1"
  by (simp_all add: BlobChunkCount_def normalizeBlobChunkSize_def DefaultBlobChunkSize_def
      MaxBlobChunkSize_def MaxBlobChunks_def)

lemma demo_shape: "validateBlobChunkShape (demoChunk 0) demoHash 5 DefaultBlobChunkSize 5 = Inr ()"
  by (simp add: validateBlobChunkShape_def BlobChunkPayloadLen_def BlobChunkCount_def
      normalizeBlobChunkSize_def demoChunk_def DefaultBlobChunkSize_def MaxBlobChunkSize_def
      MaxBlobChunks_def)

definition demoWriter :: chunkWriter where
  "demoWriter = \<lparr>wHash = demoHash, wSize = 5, wChunkSize = DefaultBlobChunkSize,
     wData = replicate 5 (CHR 0x00), completed = [False], doneChunks = 0, committed = False\<rparr>"

definition demoReceiver :: blobReceiver where
  "demoReceiver = \<lparr>rChunkSize = DefaultBlobChunkSize, rBlobs = [demoHash \<mapsto> demoBlob],
     rWriters = [demoHash \<mapsto> demoWriter], rPending = 1, rErr = None, rDone = False\<rparr>"

lemma demo_writer: "newChunkedBlobWriter True demoBlob DefaultBlobChunkSize = Inr demoWriter"
  by (simp add: newChunkedBlobWriter_def demoBlob_def demo_hash demo_size demoWriter_def)

lemma demo_receiver:
  "NewChunkedBlobReceiver demoSha (\<lambda>_. True) [demoBlob] 0 emptyStore = (emptyStore, Inr demoReceiver)"
proof -
  have "Has demoSha demoHash 5 emptyStore = (emptyStore, False)"
    by (simp add: Has_def verifiedPath_def demo_hash emptyStore_def)
  moreover have "blobHash demoBlob = demoHash" "blobSize demoBlob = 5" by (simp_all add: demoBlob_def)
  ultimately show ?thesis
    by (simp add: NewChunkedBlobReceiver_def demo_size demo_hash demo_writer demoReceiver_def)
qed

definition demoEvent :: chunkEvent where
  "demoEvent = \<lparr>evWriteOk = True, evIO = None, evNow = 7, evInfo = demoChunk 0,
     evAvail = ''hello'', evLen = 5\<rparr>"

lemma demo_written:
  "writeChunk True (demoChunk 0) ''hello'' demoWriter =
     (demoWriter\<lparr>wData := ''hello'', completed := [True], doneChunks := 1\<rparr>, Inr True)"
  by (simp add: writeChunk_def writeAt_def demoWriter_def demo_shape)
    (simp add: demoChunk_def writeAt_def numeral_eq_Suc)

end
