(* ===== verification/Apply.thy ===== *)
theory Apply
  imports WorkTree BlobReceive
begin

text \<open>
  Applying a change set to a workspace (syncfs/apply.go): the changes are checked as a whole,
  staged in a temporary directory, committed in phases, and undone when a phase fails. The
  temporary directory is kept apart from the tree: \<open>stage\<close> are the staged files and links by
  their paths, and a backup holds the subtree that was moved away. The environment says which
  calls fail; a link is never followed, the code refuses paths through links first.
\<close>

datatype applyError =
    EscapesWorkspace string | ReplacesRoot string | DuplicateEntry string | UnsupportedKind string
  | NestedBelow string | StoreRequired | ApplyCancelled | MissingBlob string | ApplyFS | SymlinkParent
  | RollbackFailed applyError

text \<open>The steps of writing one file: making its directory, the temporary file, the clone (\<open>Inr False\<close>
  when the platform cannot), the copy, mode, rename and time.\<close>

record fileSteps =
  fsMkdir :: bool
  fsTemp :: bool
  fsClone :: "fsError + bool"
  fsCopy :: bool
  fsChmod :: bool
  fsRename :: bool
  fsTimes :: bool

record applyEnv =
  aeTemp :: bool
  aeFile :: "entry \<Rightarrow> fileSteps"
  aeCancelled :: "entry \<Rightarrow> bool"
  aeStage :: "entry \<Rightarrow> bool"
  aeBackup :: "wsPath \<Rightarrow> bool"
  aeMkdir :: "wsPath \<Rightarrow> bool"
  aeInstall :: "wsPath \<Rightarrow> bool"
  aeChmod :: "wsPath \<Rightarrow> bool"
  aeRemove :: "wsPath \<Rightarrow> bool"

section \<open>Checking the changes\<close>

definition localApplyPath :: "string \<Rightarrow> applyError + string" where
  "localApplyPath name =
     (let rel = pathClean (trimSpace name) in
      if \<not> isLocal rel then Inl (EscapesWorkspace name) else Inr rel)"

fun cleanEntriesLoop :: "(string \<rightharpoonup> entryKind) \<Rightarrow> entry list \<Rightarrow> applyError + entry list \<times> (string \<rightharpoonup> entryKind)" where
  "cleanEntriesLoop kinds [] = Inr ([], kinds)"
| "cleanEntriesLoop kinds (e # es) =
     (case localApplyPath (Path e) of
        Inl err \<Rightarrow> Inl err
      | Inr rel \<Rightarrow>
          if rel = ''.'' \<and> Kind e \<noteq> KindDir then Inl (ReplacesRoot (Path e))
          else if kinds rel \<noteq> None then Inl (DuplicateEntry (Path e))
          else if Kind e \<noteq> KindFile \<and> Kind e \<noteq> KindDir \<and> Kind e \<noteq> KindSymlink then Inl (UnsupportedKind (Path e))
          else (case cleanEntriesLoop (kinds(rel \<mapsto> Kind e)) es of
            Inl err \<Rightarrow> Inl err
          | Inr (out, kinds') \<Rightarrow> Inr (e\<lparr>Path := rel\<rparr> # out, kinds')))"

text \<open>The proper parents of a path, the deepest first, without the root.\<close>

definition properParents :: "wsPath \<Rightarrow> wsPath list" where
  "properParents p = map (\<lambda>k. take k p) (rev [1..<length p])"

definition nestedBelow :: "(string \<rightharpoonup> entryKind) \<Rightarrow> string \<Rightarrow> bool" where
  "nestedBelow kinds rel =
     list_ex (\<lambda>p. case kinds (joinOn slash p) of None \<Rightarrow> False | Some k \<Rightarrow> k \<noteq> KindDir) (properParents (pathSegs rel))"

fun cleanDeletedLoop :: "string set \<Rightarrow> string list \<Rightarrow> applyError + string list" where
  "cleanDeletedLoop seen [] = Inr []"
| "cleanDeletedLoop seen (name # ns) =
     (case localApplyPath name of
        Inl err \<Rightarrow> Inl err
      | Inr rel \<Rightarrow>
          if rel = ''.'' \<or> rel \<in> seen then cleanDeletedLoop seen ns
          else (case cleanDeletedLoop (insert rel seen) ns of Inl err \<Rightarrow> Inl err | Inr out \<Rightarrow> Inr (rel # out)))"

definition cleanApplyChanges :: "entry list \<Rightarrow> string list \<Rightarrow> applyError + entry list \<times> string list" where
  "cleanApplyChanges entries deleted =
     (case cleanEntriesLoop Map.empty entries of
        Inl err \<Rightarrow> Inl err
      | Inr (cleaned, kinds) \<Rightarrow>
          (case filter (nestedBelow kinds) (map Path cleaned) of
             rel # _ \<Rightarrow> Inl (NestedBelow rel)
           | [] \<Rightarrow>
               (case cleanDeletedLoop {} deleted of
                  Inl err \<Rightarrow> Inl err
                | Inr dels \<Rightarrow> Inr (cleaned, dels))))"

section \<open>Staging\<close>

definition fileMode :: "nat \<Rightarrow> nat \<Rightarrow> nat" where
  "fileMode raw fallback = (if raw = 0 then fallback else raw)"

text \<open>
  A verified blob becomes a file by a clone or a copy, written under a temporary name; \<open>now\<close> is
  its time when the entry has none.
\<close>

definition setFileModTime :: "fileSteps \<Rightarrow> int \<Rightarrow> int \<Rightarrow> applyError + int" where
  "setFileModTime s now modTime = (if modTime = 0 then Inr now else if fsTimes s then Inr modTime else Inl ApplyFS)"

definition replaceMaterializedFile :: "fileSteps \<Rightarrow> int \<Rightarrow> string \<Rightarrow> nat \<Rightarrow> int \<Rightarrow> applyError + wsNode" where
  "replaceMaterializedFile s now content mode modTime =
     (if \<not> fsChmod s \<or> \<not> fsRename s then Inl ApplyFS
      else case setFileModTime s now modTime of Inl err \<Rightarrow> Inl err | Inr mt \<Rightarrow> Inr (WFile mode content mt))"

definition cloneBlobToFile :: "fileSteps \<Rightarrow> int \<Rightarrow> string \<Rightarrow> nat \<Rightarrow> int \<Rightarrow> applyError + wsNode option" where
  "cloneBlobToFile s now content mode modTime =
     (if \<not> fsTemp s then Inl ApplyFS
      else case fsClone s of
        Inl _ \<Rightarrow> Inl ApplyFS
      | Inr False \<Rightarrow> Inr None
      | Inr True \<Rightarrow> (case replaceMaterializedFile s now content mode modTime of Inl err \<Rightarrow> Inl err | Inr n \<Rightarrow> Inr (Some n)))"

definition copyBlobToFile :: "fileSteps \<Rightarrow> int \<Rightarrow> string \<Rightarrow> nat \<Rightarrow> int \<Rightarrow> applyError + wsNode" where
  "copyBlobToFile s now content mode modTime =
     (if \<not> fsTemp s \<or> \<not> fsCopy s then Inl ApplyFS else replaceMaterializedFile s now content mode modTime)"

definition MaterializeWithProgress ::
  "(string \<Rightarrow> string) \<Rightarrow> int \<Rightarrow> fileSteps \<Rightarrow> string \<Rightarrow> nat \<Rightarrow> int \<Rightarrow> blobStore \<Rightarrow> blobStore \<times> (applyError + wsNode)" where
  "MaterializeWithProgress sha now s hash mode modTime st =
     (case verifiedPath sha hash (-1) st of
        (st', None) \<Rightarrow> (st', Inl (MissingBlob hash))
      | (st', Some content) \<Rightarrow>
          (st', if \<not> fsMkdir s then Inl ApplyFS
                else case cloneBlobToFile s now content mode modTime of
                  Inl err \<Rightarrow> Inl err
                | Inr (Some n) \<Rightarrow> Inr n
                | Inr None \<Rightarrow> copyBlobToFile s now content mode modTime))"

lemma MaterializeWithProgress_node:
  assumes "MaterializeWithProgress sha now s hash mode modTime st = (st', Inr n)"
  shows "\<exists>b mt. verifiedPath sha hash (-1) st = (st', Some b) \<and> n = WFile mode b mt"
  using assms
  by (auto simp: MaterializeWithProgress_def cloneBlobToFile_def copyBlobToFile_def replaceMaterializedFile_def
      split: prod.splits option.splits sum.splits if_splits bool.splits)

fun stageChanges ::
  "(string \<Rightarrow> string) \<Rightarrow> int \<Rightarrow> applyEnv \<Rightarrow> entry list \<Rightarrow> blobStore \<Rightarrow> blobStore \<times> (applyError + (wsPath \<times> wsNode) list)" where
  "stageChanges sha now env [] st = (st, Inr [])"
| "stageChanges sha now env (e # es) st =
     (if aeCancelled env e then (st, Inl ApplyCancelled)
      else case
        (if Kind e = KindFile then
           (case MaterializeWithProgress sha now (aeFile env e) (Hash e) (fileMode (Mode e) defaultFileMode) (ModTime e) st of
              (st', Inl err) \<Rightarrow> (st', Inl err)
            | (st', Inr n) \<Rightarrow> (st', Inr [(pathSegs (Path e), n)]))
         else if Kind e = KindSymlink then (st, Inr [(pathSegs (Path e), WLink (Linkname e))])
         else (st, Inr [])) of
        (st1, Inl err) \<Rightarrow> (st1, Inl err)
      | (st1, Inr staged) \<Rightarrow>
          if aeStage env e then (st1, Inl ApplyFS)
          else (case stageChanges sha now env es st1 of
            (st2, Inl err) \<Rightarrow> (st2, Inl err)
          | (st2, Inr rest) \<Rightarrow> (st2, Inr (staged @ rest))))"

section \<open>Committing\<close>

record applyTx =
  txWork :: wsTree
  txBackups :: "(wsPath \<times> wsTree) list"
  txCreated :: "wsPath list"
  txInstalled :: "wsPath list"
  txModes :: "(wsPath \<times> nat) list"

type_synonym 'e txResult = "applyTx \<times> ('e + unit)"

text \<open>Whether a path is deleted, and the kind of the entry there.\<close>

type_synonym applyTargets = "wsPath \<rightharpoonup> bool \<times> entryKind option"

definition commitTargets :: "entry list \<Rightarrow> string list \<Rightarrow> applyTargets" where
  "commitTargets entries deleted =
     (let t0 = fold (\<lambda>name t. t(pathSegs name \<mapsto> (True, None))) deleted Map.empty in
      fold (\<lambda>e t. t(pathSegs (Path e) \<mapsto>
        (case t (pathSegs (Path e)) of None \<Rightarrow> False | Some (d, k) \<Rightarrow> d, Some (Kind e)))) entries t0)"

fun rejectSymlinkParents :: "wsTree \<Rightarrow> wsPath list \<Rightarrow> applyError + unit" where
  "rejectSymlinkParents t [] = Inr ()"
| "rejectSymlinkParents t (p # ps) =
     (case lstatPath p t of
        Inl FsNotExist \<Rightarrow> rejectSymlinkParents t ps
      | Inl FsError \<Rightarrow> Inl ApplyFS
      | Inr (WLink l) \<Rightarrow> Inl SymlinkParent
      | Inr n \<Rightarrow> rejectSymlinkParents t ps)"

definition coveredByChangeBackup :: "wsPath \<Rightarrow> (wsPath \<times> wsTree) list \<Rightarrow> bool" where
  "coveredByChangeBackup p backups = list_ex (\<lambda>(b, s). below b p) backups"

text \<open>The node at a target has to make room unless it is a directory that stays one.\<close>

definition makesRoom :: "bool \<times> entryKind option \<Rightarrow> wsNode \<Rightarrow> bool" where
  "makesRoom item n = (case item of (d, k) \<Rightarrow> d \<or> k \<noteq> Some KindDir \<or> \<not> isWDir n)"

fun backupLoop :: "applyEnv \<Rightarrow> applyTargets \<Rightarrow> wsPath list \<Rightarrow> applyTx \<Rightarrow> applyError txResult" where
  "backupLoop env targets [] tx = (tx, Inr ())"
| "backupLoop env targets (p # ps) tx =
     (case rejectSymlinkParents (txWork tx) (properParents p) of
        Inl err \<Rightarrow> (tx, Inl err)
      | Inr _ \<Rightarrow>
          if coveredByChangeBackup p (txBackups tx) then backupLoop env targets ps tx
          else (case lstatPath p (txWork tx) of
            Inl FsNotExist \<Rightarrow> backupLoop env targets ps tx
          | Inl FsError \<Rightarrow> (tx, Inl ApplyFS)
          | Inr n \<Rightarrow>
              if \<not> makesRoom (case targets p of None \<Rightarrow> (False, None) | Some item \<Rightarrow> item) n then backupLoop env targets ps tx
              else if aeBackup env p then (tx, Inl ApplyFS)
              else backupLoop env targets ps
                (tx\<lparr>txWork := cutTree p (txWork tx), txBackups := txBackups tx @ [(p, subTree p (txWork tx))]\<rparr>)))"

fun dirLoop :: "applyEnv \<Rightarrow> entry list \<Rightarrow> applyTx \<Rightarrow> applyError txResult" where
  "dirLoop env [] tx = (tx, Inr ())"
| "dirLoop env (e # es) tx =
     (if Kind e \<noteq> KindDir \<or> pathSegs (Path e) = [] then dirLoop env es tx
      else
        (let p = pathSegs (Path e) in
         case (case lstatPath p (txWork tx) of
                 Inl FsNotExist \<Rightarrow> Inr (tx\<lparr>txCreated := txCreated tx @ [p]\<rparr>)
               | Inl FsError \<Rightarrow> Inl ApplyFS
               | Inr n \<Rightarrow> Inr (tx\<lparr>txModes := AList.update p (case n of WDir m \<Rightarrow> m | WFile m c mt \<Rightarrow> m | WLink l \<Rightarrow> 0) (txModes tx)\<rparr>)) of
           Inl err \<Rightarrow> (tx, Inl err)
         | Inr tx1 \<Rightarrow>
             (case makeDirAll (aeMkdir env) p (txWork tx1) of
                (t, Inl err) \<Rightarrow> (tx1\<lparr>txWork := t\<rparr>, Inl ApplyFS)
              | (t, Inr _) \<Rightarrow> dirLoop env es (tx1\<lparr>txWork := t\<rparr>))))"

text \<open>The missing parents of a file, from the deepest up to the first that exists.\<close>

fun missingParents :: "wsTree \<Rightarrow> wsPath list \<Rightarrow> wsPath list" where
  "missingParents t [] = []"
| "missingParents t (p # ps) =
     (case lstatPath p t of Inl FsNotExist \<Rightarrow> p # missingParents t ps | _ \<Rightarrow> [])"

text \<open>\<open>os.Rename\<close> of a staged file or link: a directory in its place is an error.\<close>

fun installLoop :: "applyEnv \<Rightarrow> (wsPath \<times> wsNode) list \<Rightarrow> entry list \<Rightarrow> applyTx \<Rightarrow> applyError txResult" where
  "installLoop env stage [] tx = (tx, Inr ())"
| "installLoop env stage (e # es) tx =
     (if Kind e = KindDir then installLoop env stage es tx
      else
        (let p = pathSegs (Path e);
             tx1 = tx\<lparr>txCreated := txCreated tx @ missingParents (txWork tx) (properParents p)\<rparr> in
         case makeDirAll (aeMkdir env) (butlast p) (txWork tx1) of
           (t, Inl err) \<Rightarrow> (tx1\<lparr>txWork := t\<rparr>, Inl ApplyFS)
         | (t, Inr _) \<Rightarrow>
             (let tx2 = tx1\<lparr>txWork := t\<rparr> in
              case map_of stage p of
                None \<Rightarrow> (tx2, Inl ApplyFS)
              | Some n \<Rightarrow>
                  if aeInstall env p \<or> (case map_of t p of Some (WDir m) \<Rightarrow> True | _ \<Rightarrow> False) then (tx2, Inl ApplyFS)
                  else installLoop env stage es
                    (tx2\<lparr>txWork := putNode p n t, txInstalled := txInstalled tx2 @ [p]\<rparr>))))"

fun modeLoop :: "applyEnv \<Rightarrow> entry list \<Rightarrow> applyTx \<Rightarrow> applyError txResult" where
  "modeLoop env [] tx = (tx, Inr ())"
| "modeLoop env (e # es) tx =
     (if Kind e \<noteq> KindDir \<or> pathSegs (Path e) = [] then modeLoop env es tx
      else
        (let p = pathSegs (Path e) in
         case map_of (txWork tx) p of
           None \<Rightarrow> (tx, Inl ApplyFS)
         | Some n \<Rightarrow>
             if aeChmod env p then (tx, Inl ApplyFS)
             else modeLoop env es
               (tx\<lparr>txWork := putNode p (chmodNode (fileMode (Mode e) defaultDirMode) n) (txWork tx)\<rparr>)))"

text \<open>\<open>order\<close>: the paths of the targets but the root, sorted by depth.\<close>

definition txSteps :: "(applyTx \<Rightarrow> applyError txResult) list \<Rightarrow> applyTx \<Rightarrow> applyError txResult" where
  "txSteps ss tx = foldl (\<lambda>(tx, r) s. case r of Inl e \<Rightarrow> (tx, Inl e) | Inr _ \<Rightarrow> s tx) (tx, Inr ()) ss"

definition commitTx ::
  "applyEnv \<Rightarrow> (applyTargets \<Rightarrow> wsPath list) \<Rightarrow> (wsPath \<times> wsNode) list \<Rightarrow> entry list \<Rightarrow> string list \<Rightarrow> applyTx \<Rightarrow>
   applyError txResult" where
  "commitTx env order stage entries deleted =
     (let targets = commitTargets entries deleted in
      txSteps [backupLoop env targets (order targets), dirLoop env entries, installLoop env stage entries,
               modeLoop env entries])"

section \<open>Rolling back\<close>

text \<open>Each step reports a failure and the next one runs nevertheless.\<close>

definition removeInstalled :: "applyEnv \<Rightarrow> wsPath \<Rightarrow> wsTree \<times> bool \<Rightarrow> wsTree \<times> bool" where
  "removeInstalled env p = (\<lambda>(t, ok). if aeRemove env p then (t, False) else (cutTree p t, ok))"

definition restoreBackup :: "applyEnv \<Rightarrow> wsPath \<times> wsTree \<Rightarrow> wsTree \<times> bool \<Rightarrow> wsTree \<times> bool" where
  "restoreBackup env b = (\<lambda>(t, ok). case b of (p, s) \<Rightarrow>
     (let (t1, ok1) = (if aeRemove env p then (t, False) else (cutTree p t, ok)) in
      case makeDirAll (aeMkdir env) (butlast p) t1 of
        (t2, Inl err) \<Rightarrow> (t2, False)
      | (t2, Inr _) \<Rightarrow>
          if aeInstall env p \<or> (case map_of t2 p of None \<Rightarrow> False | Some n \<Rightarrow> isWDir n \<or> (case map_of s [] of Some k \<Rightarrow> isWDir k | None \<Rightarrow> True))
          then (t2, False)
          else (graftTree p s t2, ok1)))"

definition restoreMode :: "applyEnv \<Rightarrow> wsPath \<times> nat \<Rightarrow> wsTree \<times> bool \<Rightarrow> wsTree \<times> bool" where
  "restoreMode env x = (\<lambda>(t, ok). case x of (p, m) \<Rightarrow>
     (case map_of t p of
        None \<Rightarrow> (t, False)
      | Some n \<Rightarrow> if aeChmod env p then (t, False) else (putNode p (chmodNode m n) t, ok)))"

text \<open>
  \<open>os.Remove\<close>: of a file, a link or an empty directory. A path that is missing is not an error,
  unless it lies below something that is not a directory. (Below a link the code would follow
  the link; the model reports an error.)
\<close>

definition removeCreated :: "applyEnv \<Rightarrow> wsPath \<Rightarrow> wsTree \<times> bool \<Rightarrow> wsTree \<times> bool" where
  "removeCreated env p = (\<lambda>(t, ok).
     (case map_of t p of
        None \<Rightarrow> (t, ok \<and> \<not> list_ex (\<lambda>a. case map_of t a of None \<Rightarrow> False | Some n \<Rightarrow> \<not> isWDir n) (properParents p))
      | Some n \<Rightarrow> if hasChildren p t \<or> aeRemove env p then (t, False) else (cutTree p t, ok)))"

definition rollbackTx :: "applyEnv \<Rightarrow> applyTx \<Rightarrow> wsTree \<times> bool" where
  "rollbackTx env tx =
     fold (removeCreated env) (sort_key (\<lambda>p. - int (length p)) (txCreated tx))
       (fold (restoreMode env) (txModes tx)
         (fold (restoreBackup env) (txBackups tx)
           (fold (removeInstalled env) (txInstalled tx) (txWork tx, True))))"

text \<open>\<open>env\<close> while the changes are applied, \<open>renv\<close> while they are undone.\<close>

definition ApplyChanges ::
  "(string \<Rightarrow> string) \<Rightarrow> int \<Rightarrow> applyEnv \<Rightarrow> applyEnv \<Rightarrow> (applyTargets \<Rightarrow> wsPath list) \<Rightarrow> entry list \<Rightarrow> string list \<Rightarrow>
   blobStore option \<Rightarrow> wsTree \<Rightarrow> wsTree \<times> blobStore option \<times> (applyError + unit)" where
  "ApplyChanges sha now env renv order entries0 deleted0 store t =
     (case cleanApplyChanges entries0 deleted0 of
        Inl err \<Rightarrow> (t, store, Inl err)
      | Inr (entries, deleted) \<Rightarrow>
          if entries = [] \<and> deleted = [] then (t, store, Inr ())
          else (case store of
            None \<Rightarrow> (t, None, Inl StoreRequired)
          | Some st \<Rightarrow>
              if aeTemp env then (t, Some st, Inl ApplyFS)
              else (case stageChanges sha now env entries st of
                (st1, Inl err) \<Rightarrow> (t, Some st1, Inl err)
              | (st1, Inr stage) \<Rightarrow>
                  (case commitTx env order stage entries deleted
                      \<lparr>txWork = t, txBackups = [], txCreated = [], txInstalled = [], txModes = []\<rparr> of
                    (tx, Inr _) \<Rightarrow> (txWork tx, Some st1, Inr ())
                  | (tx, Inl err) \<Rightarrow>
                      (case rollbackTx renv tx of
                        (t', ok) \<Rightarrow> (t', Some st1, Inl (if ok then err else RollbackFailed err)))))))"


section \<open>Facts about the checks\<close>

definition segs :: "entry \<Rightarrow> wsPath" where
  "segs e = pathSegs (Path e)"

definition entriesOk :: "entry list \<Rightarrow> bool" where
  "entriesOk es \<longleftrightarrow> distinct (map segs es)
     \<and> (\<forall>e \<in> set es. Kind e = KindFile \<or> Kind e = KindDir \<or> Kind e = KindSymlink)
     \<and> (\<forall>e \<in> set es. Kind e \<noteq> KindDir \<longrightarrow> segs e \<noteq> [])
     \<and> (\<forall>e \<in> set es. \<forall>f \<in> set es. below (segs f) (segs e) \<and> segs f \<noteq> segs e \<longrightarrow> Kind f = KindDir)"

text \<open>Clean relative paths are determined by their elements.\<close>

definition cleanLocal :: "string \<Rightarrow> bool" where
  "cleanLocal p \<longleftrightarrow> isLocal p \<and> pathClean p = p"

lemma cleanLocal_eq: "cleanLocal a \<Longrightarrow> cleanLocal b \<Longrightarrow> pathSegs a = pathSegs b \<longleftrightarrow> a = b"
  unfolding cleanLocal_def isLocal_def by (metis pathClean_def)

lemma localApplyPath_clean: "localApplyPath name = Inr rel \<Longrightarrow> cleanLocal rel"
  by (auto simp: localApplyPath_def Let_def cleanLocal_def split: if_splits)

lemma cleanLocal_dot: "cleanLocal p \<Longrightarrow> pathSegs p = [] \<longleftrightarrow> p = ''.''"
proof
  assume c: "cleanLocal p" and "pathSegs p = []"
  then have "pathClean p = ''.''" by (simp add: pathClean_def cleanLocal_def isLocal_def)
  then show "p = ''.''" using c by (simp add: cleanLocal_def)
qed (simp add: pathSegs_def isAbs_def)

lemma cleanEntriesLoop_facts:
  assumes "cleanEntriesLoop kinds es = Inr (out, kinds')"
  shows "(\<forall>e \<in> set out. cleanLocal (Path e) \<and> kinds (Path e) = None
      \<and> (Kind e = KindFile \<or> Kind e = KindDir \<or> Kind e = KindSymlink) \<and> (Kind e \<noteq> KindDir \<longrightarrow> Path e \<noteq> ''.''))
    \<and> distinct (map Path out)
    \<and> (\<forall>p. kinds' p = (case find (\<lambda>e. Path e = p) out of Some e \<Rightarrow> Some (Kind e) | None \<Rightarrow> kinds p))"
  using assms
proof (induction es arbitrary: kinds out)
  case (Cons e es)
  obtain rel where rel: "localApplyPath (Path e) = Inr rel" using Cons.prems by (auto split: sum.splits)
  have c: "\<not> (rel = ''.'' \<and> Kind e \<noteq> KindDir)" "kinds rel = None"
      "Kind e = KindFile \<or> Kind e = KindDir \<or> Kind e = KindSymlink"
    using Cons.prems rel by (auto split: if_splits)
  obtain out1 where out: "cleanEntriesLoop (kinds(rel \<mapsto> Kind e)) es = Inr (out1, kinds')" "out = e\<lparr>Path := rel\<rparr> # out1"
    using Cons.prems rel c by (auto split: sum.splits if_splits)
  note ih = Cons.IH [OF out(1)]
  have no: "\<forall>e \<in> set out1. Path e \<noteq> rel" using ih by auto
  have "find (\<lambda>e. Path e = rel) out1 = None" using no by (simp add: find_None_iff)
  then show ?case using ih out(2) localApplyPath_clean [OF rel] c no by (auto split: option.splits)
qed simp

lemma find_key: "distinct (map f xs) \<Longrightarrow> x \<in> set xs \<Longrightarrow> find (\<lambda>y. f y = f x) xs = Some x"
  by (induction xs) auto

lemma find_key_none: "p \<notin> f ` set xs \<Longrightarrow> find (\<lambda>y. f y = p) xs = None"
  by (induction xs) auto

lemma cleanApplyChanges_ok:
  assumes "cleanApplyChanges entries0 deleted0 = Inr (entries, deleted)"
  shows "entriesOk entries \<and> (\<forall>d \<in> set deleted. pathSegs d \<noteq> [])"
proof -
  obtain kinds where k: "cleanEntriesLoop Map.empty entries0 = Inr (entries, kinds)"
      and n: "filter (nestedBelow kinds) (map Path entries) = []"
      and d: "cleanDeletedLoop {} deleted0 = Inr deleted"
    using assms by (auto simp: cleanApplyChanges_def split: sum.splits list.splits)
  note f = cleanEntriesLoop_facts [OF k]
  have inj: "segs e = segs f \<longleftrightarrow> Path e = Path f" if "e \<in> set entries" "f \<in> set entries" for e f
    using f that cleanLocal_eq by (auto simp: segs_def)
  have "distinct (map segs entries)"
    using f inj by (auto simp: distinct_map inj_on_def)
  moreover have "Kind f = KindDir" if e: "e \<in> set entries" "f \<in> set entries" "below (segs f) (segs e)" "segs f \<noteq> segs e" for e f
  proof (rule ccontr)
    assume nd: "Kind f \<noteq> KindDir"
    have cl: "cleanLocal (Path e)" "cleanLocal (Path f)" using f e by auto
    have ne: "segs f \<noteq> []" using f e(2) nd cleanLocal_dot [OF cl(2)] by (auto simp: segs_def)
    have "segs f = take (length (segs f)) (segs e)" "length (segs f) < length (segs e)"
      using e(3,4) by (auto simp: below_iff)
    then have par: "segs f \<in> set (properParents (segs e))"
      unfolding properParents_def set_map
      by (intro image_eqI [where x = "length (segs f)"]) (use ne in \<open>simp_all add: Suc_leI\<close>)
    have "Path f = joinOn slash (segs f)"
      using cl(2) ne unfolding cleanLocal_def isLocal_def segs_def by (metis pathClean_def)
    moreover have "kinds (Path f) = Some (Kind f)"
    proof -
      have "distinct (map Path entries)" using f by blast
      then have "find (\<lambda>e. Path e = Path f) entries = Some f" by (rule find_key) (rule e(2))
      moreover have "kinds (Path f) = (case find (\<lambda>e. Path e = Path f) entries of Some e \<Rightarrow> Some (Kind e) | None \<Rightarrow> None)"
        using conjunct2 [OF conjunct2 [OF f]] by simp
      ultimately show ?thesis by simp
    qed
    ultimately have "nestedBelow kinds (Path e)"
      unfolding nestedBelow_def list_ex_iff using par nd by (intro bexI [where x = "segs f"]) (simp_all add: segs_def)
    then show False using n e(1) by (simp add: filter_empty_conv)
  qed
  moreover have "\<forall>e \<in> set entries. Kind e \<noteq> KindDir \<longrightarrow> segs e \<noteq> []"
    using f cleanLocal_dot by (auto simp: segs_def)
  moreover have "\<forall>d \<in> set deleted. pathSegs d \<noteq> []"
  proof -
    have "cleanDeletedLoop seen ns = Inr out \<Longrightarrow> \<forall>d \<in> set out. pathSegs d \<noteq> []" for seen ns out
      by (induction ns arbitrary: seen out)
        (auto split: sum.splits if_splits dest!: localApplyPath_clean simp: cleanLocal_dot)
    then show ?thesis using d by blast
  qed
  ultimately show ?thesis using f unfolding entriesOk_def by blast
qed

text \<open>The targets of a change set.\<close>

lemma fold_deleted:
  "fold (\<lambda>name t. t(pathSegs name \<mapsto> (True, None))) ds t0 p =
    (if p \<in> pathSegs ` set ds then Some (True, None) else t0 p)"
  by (induction ds arbitrary: t0) auto

lemma fold_entries:
  "distinct (map segs es) \<Longrightarrow>
   fold (\<lambda>e t. t(pathSegs (Path e) \<mapsto> (case t (pathSegs (Path e)) of None \<Rightarrow> False | Some (d, k) \<Rightarrow> d, Some (Kind e)))) es t0 p =
    (case find (\<lambda>e. segs e = p) es of
       Some e \<Rightarrow> Some (case t0 p of None \<Rightarrow> False | Some (d, k) \<Rightarrow> d, Some (Kind e))
     | None \<Rightarrow> t0 p)"
proof (induction es arbitrary: t0)
  case (Cons e es)
  have "segs e \<notin> segs ` set es" using Cons.prems by simp
  then have "find (\<lambda>f. segs f = segs e) es = None" by (rule find_key_none)
  then show ?case using Cons by (auto simp: segs_def split: option.splits)
qed simp

lemma commitTargets_get:
  assumes "distinct (map segs es)"
  shows "commitTargets es ds p =
    (case find (\<lambda>e. segs e = p) es of
       Some e \<Rightarrow> Some (p \<in> pathSegs ` set ds, Some (Kind e))
     | None \<Rightarrow> if p \<in> pathSegs ` set ds then Some (True, None) else None)"
  unfolding commitTargets_def Let_def fold_entries [OF assms] fold_deleted by (auto split: option.splits)

section \<open>Moving the old nodes away\<close>

text \<open>Whether a node is at a target and has to make room, and what goes with these nodes.\<close>

definition makesRoomAt :: "applyTargets \<Rightarrow> wsTree \<Rightarrow> wsPath \<Rightarrow> bool" where
  "makesRoomAt targets t p =
     (case map_of t p of
        None \<Rightarrow> False
      | Some n \<Rightarrow> makesRoom (case targets p of None \<Rightarrow> (False, None) | Some item \<Rightarrow> item) n)"

definition removedPath :: "applyTargets \<Rightarrow> wsPath list \<Rightarrow> wsTree \<Rightarrow> wsPath \<Rightarrow> bool" where
  "removedPath targets ps t q = list_ex (\<lambda>p. makesRoomAt targets t p \<and> below p q) ps"

lemma removedPath_iff: "removedPath targets ps t q \<longleftrightarrow> (\<exists>p \<in> set ps. makesRoomAt targets t p \<and> below p q)"
  by (simp add: removedPath_def list_ex_iff)

lemma removedPath_trans: "removedPath targets ps t p \<Longrightarrow> below p q \<Longrightarrow> removedPath targets ps t q"
  unfolding removedPath_iff using below_trans by blast

definition apart :: "wsPath \<times> wsTree \<Rightarrow> wsPath \<times> wsTree \<Rightarrow> bool" where
  "apart x y \<longleftrightarrow> \<not> below (fst x) (fst y) \<and> \<not> below (fst y) (fst x)"

definition backupInv :: "wsTree \<Rightarrow> applyTargets \<Rightarrow> wsPath list \<Rightarrow> applyTx \<Rightarrow> bool" where
  "backupInv t targets ps tx \<longleftrightarrow>
     (\<forall>q. coveredByChangeBackup q (txBackups tx) = removedPath targets ps t q)
     \<and> (\<forall>q. map_of (txWork tx) q = (if removedPath targets ps t q then None else map_of t q))
     \<and> (\<forall>(b, s) \<in> set (txBackups tx). b \<in> set ps \<and> b \<noteq> [] \<and> makesRoomAt targets t b \<and> (\<forall>q. map_of s q = map_of t (b @ q)))
     \<and> sorted_wrt apart (txBackups tx) \<and> treeOk (txWork tx)
     \<and> txCreated tx = [] \<and> txInstalled tx = [] \<and> txModes tx = []"

lemma backupInv_covered: "backupInv t targets ps tx \<Longrightarrow> coveredByChangeBackup q (txBackups tx) = removedPath targets ps t q"
  and backupInv_work: "backupInv t targets ps tx \<Longrightarrow> map_of (txWork tx) q = (if removedPath targets ps t q then None else map_of t q)"
  and backupInv_stored: "backupInv t targets ps tx \<Longrightarrow> (b, s) \<in> set (txBackups tx) \<Longrightarrow>
    b \<in> set ps \<and> b \<noteq> [] \<and> makesRoomAt targets t b \<and> (\<forall>q. map_of s q = map_of t (b @ q))"
  and backupInv_rest: "backupInv t targets ps tx \<Longrightarrow>
    sorted_wrt apart (txBackups tx) \<and> treeOk (txWork tx) \<and> txCreated tx = [] \<and> txInstalled tx = [] \<and> txModes tx = []"
  unfolding backupInv_def by blast+

lemma backupInv_skip:
  assumes inv: "backupInv t targets ds tx" and p: "removedPath targets ds t p \<or> \<not> makesRoomAt targets t p"
  shows "backupInv t targets (ds @ [p]) tx"
proof -
  have "removedPath targets (ds @ [p]) t q = removedPath targets ds t q" for q
    using p removedPath_trans [of targets ds t p q] by (auto simp: removedPath_def)
  then show ?thesis using inv unfolding backupInv_def by (auto split: prod.splits)
qed

lemma backupInv_move:
  assumes inv: "backupInv t targets ds tx" and t: "p \<noteq> []" "\<not> removedPath targets ds t p" "makesRoomAt targets t p"
    and len: "\<forall>d \<in> set ds. length d \<le> length p"
  shows "backupInv t targets (ds @ [p])
    (tx\<lparr>txWork := cutTree p (txWork tx), txBackups := txBackups tx @ [(p, subTree p (txWork tx))]\<rparr>)"
proof -
  have rm: "removedPath targets (ds @ [p]) t q \<longleftrightarrow> removedPath targets ds t q \<or> below p q" for q
    using t(3) by (auto simp: removedPath_def)
  have above: "\<not> below p d" if d: "d \<in> set ds" "makesRoomAt targets t d" for d
  proof
    assume "below p d"
    then have "length p \<le> length d" "p = take (length p) d" by (auto simp: below_iff)
    then have "p = d" using len d(1) by auto
    then show False using t(2) d by (auto simp: removedPath_iff)
  qed
  have under: "\<not> removedPath targets ds t q" if q: "below p q" for q
  proof
    assume "removedPath targets ds t q"
    then obtain d where d: "d \<in> set ds" "makesRoomAt targets t d" "below d q" by (auto simp: removedPath_iff)
    then have "below d p \<or> below p d" using q by (auto simp: below_iff) (metis append_eq_append_conv2)
    then show False using above [OF d(1,2)] t(2) d(1,2) by (auto simp: removedPath_iff)
  qed
  have sub: "map_of (subTree p (txWork tx)) q = map_of t (p @ q)" for q
    using under [of "p @ q"] by (simp add: map_of_subTree backupInv_work [OF inv] below_append)
  have far: "apart x (p, s)" if x: "x \<in> set (txBackups tx)" for x s
  proof -
    obtain b r where br: "x = (b, r)" by fastforce
    have b: "b \<in> set ds" "makesRoomAt targets t b" using backupInv_stored [OF inv x [unfolded br]] by auto
    then show ?thesis using above [OF b] t(2) br by (auto simp: apart_def removedPath_iff)
  qed
  show ?thesis
    using inv t sub far treeOk_cut [OF _ t(1)]
    unfolding backupInv_def
    by (auto simp: rm coveredByChangeBackup_def map_of_cutTree sorted_wrt_append)
qed

lemma backupLoop_inv:
  assumes "backupLoop env targets ps tx = (tx', r)" "backupInv t targets ds tx"
    and "sorted (map length (ds @ ps))" "[] \<notin> set ps"
  shows "\<exists>ds'. backupInv t targets ds' tx' \<and> set ds' \<subseteq> set (ds @ ps) \<and> (r = Inr () \<longrightarrow> ds' = ds @ ps)"
  using assms
proof (induction ps arbitrary: tx ds)
  case (Cons p ps)
  note inv = Cons.prems(2)
  have goon: ?case if b: "backupLoop env targets ps tx1 = (tx', r)" and i: "backupInv t targets (ds @ [p]) tx1" for tx1
    using Cons.IH [OF b i] Cons.prems(3,4) by simp
  have stop: ?case if "tx' = tx" "r \<noteq> Inr ()" using inv that by auto
  show ?case
  proof (cases "rejectSymlinkParents (txWork tx) (properParents p)")
    case (Inl err)
    then show ?thesis using Cons.prems(1) by (intro stop) auto
  next
    case (Inr u)
    show ?thesis
    proof (cases "removedPath targets ds t p")
      case True
      then have "backupLoop env targets ps tx = (tx', r)"
        using Cons.prems(1) Inr by (simp add: backupInv_covered [OF inv])
      then show ?thesis using goon backupInv_skip [OF inv] True by blast
    next
      case nr: False
      then have same: "map_of (txWork tx) p = map_of t p" by (simp add: backupInv_work [OF inv])
      show ?thesis
      proof (cases "map_of t p")
        case None
        show ?thesis
        proof (cases "lstatPath p (txWork tx) = Inl FsNotExist")
          case True
          then have "backupLoop env targets ps tx = (tx', r)"
            using Cons.prems(1) Inr nr by (simp add: backupInv_covered [OF inv])
          then show ?thesis using goon backupInv_skip [OF inv] None by (simp add: makesRoomAt_def)
        next
          case False
          then have "lstatPath p (txWork tx) = Inl FsError"
            using None same by (auto simp: lstatPath_def split: if_splits)
          then show ?thesis using Cons.prems(1) Inr nr by (intro stop) (auto simp: backupInv_covered [OF inv])
        qed
      next
        case (Some n)
        then have st: "lstatPath p (txWork tx) = Inr n" using same by (simp add: lstatPath_def)
        show ?thesis
        proof (cases "makesRoomAt targets t p")
          case False
          then have "backupLoop env targets ps tx = (tx', r)"
            using Cons.prems(1) Inr nr st Some by (simp add: backupInv_covered [OF inv] makesRoomAt_def)
          then show ?thesis using goon backupInv_skip [OF inv] False by blast
        next
          case mr: True
          show ?thesis
          proof (cases "aeBackup env p")
            case True
            then show ?thesis using Cons.prems(1) Inr nr st mr Some
              by (intro stop) (auto simp: backupInv_covered [OF inv] makesRoomAt_def)
          next
            case False
            have len: "\<forall>d \<in> set ds. length d \<le> length p" using Cons.prems(3) by (simp add: sorted_append)
            have ne: "p \<noteq> []" using Cons.prems(4) by auto
            show ?thesis
              using Cons.prems(1) Inr nr st mr Some False
              by (intro goon [OF _ backupInv_move [OF inv ne nr mr len]])
                (simp add: backupInv_covered [OF inv] makesRoomAt_def)
          qed
        qed
      qed
    qed
  qed
qed auto

section \<open>What a later rollback needs\<close>

definition implicitDir :: "entry list \<Rightarrow> wsPath \<Rightarrow> bool" where
  "implicitDir es q \<longleftrightarrow> list_ex (\<lambda>e. Kind e = KindDir \<and> below q (segs e) \<and> q \<noteq> segs e) es"

lemma implicitDir_iff: "implicitDir es q \<longleftrightarrow> (\<exists>e \<in> set es. Kind e = KindDir \<and> below q (segs e) \<and> q \<noteq> segs e)"
  by (simp add: implicitDir_def list_ex_iff)

definition oldKept :: "wsTree \<Rightarrow> (wsPath \<Rightarrow> bool) \<Rightarrow> applyTx \<Rightarrow> bool" where
  "oldKept t cov tx \<longleftrightarrow> (\<forall>q n0. \<not> cov q \<longrightarrow> map_of t q = Some n0 \<longrightarrow>
     (\<exists>n. map_of (txWork tx) q = Some n \<and> (n = n0 \<or> q \<in> fst ` set (txModes tx) \<and> (\<exists>m. n = chmodNode m n0))))"

definition newKnown :: "wsTree \<Rightarrow> entry list \<Rightarrow> (wsPath \<Rightarrow> bool) \<Rightarrow> applyTx \<Rightarrow> bool" where
  "newKnown t es cov tx \<longleftrightarrow> (\<forall>q n. \<not> cov q \<longrightarrow> map_of t q = None \<longrightarrow> map_of (txWork tx) q = Some n \<longrightarrow>
     q \<in> set (txInstalled tx) \<or> isWDir n \<and> (q \<in> set (txCreated tx) \<or> implicitDir es q))"

definition logsOk :: "wsTree \<Rightarrow> (wsPath \<Rightarrow> bool) \<Rightarrow> applyTx \<Rightarrow> bool" where
  "logsOk t cov tx \<longleftrightarrow>
     (\<forall>p \<in> set (txInstalled tx). p \<noteq> [] \<and> (cov p \<or> map_of t p = None))
     \<and> (\<forall>p \<in> set (txCreated tx). \<not> cov p \<and> map_of t p = None)
     \<and> (\<forall>(p, m) \<in> set (txModes tx). \<not> cov p \<and> (\<forall>n0. map_of t p = Some n0 \<longrightarrow> chmodNode m n0 = n0))"

definition undoInv :: "wsTree \<Rightarrow> entry list \<Rightarrow> (wsPath \<Rightarrow> bool) \<Rightarrow> applyTx \<Rightarrow> bool" where
  "undoInv t es cov tx \<longleftrightarrow> oldKept t cov tx \<and> newKnown t es cov tx \<and> logsOk t cov tx \<and> treeOk (txWork tx)"

definition unchanged :: "wsTree \<Rightarrow> (wsPath \<Rightarrow> bool) \<Rightarrow> applyTx \<Rightarrow> bool" where
  "unchanged t cov tx \<longleftrightarrow> (\<forall>q n0. \<not> cov q \<longrightarrow> map_of t q = Some n0 \<longrightarrow> map_of (txWork tx) q = Some n0)"

lemma undoInv_parts:
  "undoInv t es cov tx \<Longrightarrow> oldKept t cov tx" "undoInv t es cov tx \<Longrightarrow> newKnown t es cov tx"
  "undoInv t es cov tx \<Longrightarrow> logsOk t cov tx" "undoInv t es cov tx \<Longrightarrow> treeOk (txWork tx)"
  by (simp_all add: undoInv_def)

lemmas undoInv_tree = undoInv_parts(4)

lemma undoInv_old: "undoInv t es cov tx \<Longrightarrow> \<not> cov q \<Longrightarrow> map_of t q = Some n0 \<Longrightarrow>
    \<exists>n. map_of (txWork tx) q = Some n \<and> (n = n0 \<or> q \<in> fst ` set (txModes tx) \<and> (\<exists>m. n = chmodNode m n0))"
  by (drule undoInv_parts(1)) (unfold oldKept_def, elim allE impE, assumption+)

lemma undoInv_new: "undoInv t es cov tx \<Longrightarrow> \<not> cov q \<Longrightarrow> map_of t q = None \<Longrightarrow> map_of (txWork tx) q = Some n \<Longrightarrow>
    q \<in> set (txInstalled tx) \<or> isWDir n \<and> (q \<in> set (txCreated tx) \<or> implicitDir es q)"
  by (drule undoInv_parts(2)) (unfold newKnown_def, elim allE impE, assumption+)

lemma undoInv_installed: "undoInv t es cov tx \<Longrightarrow> p \<in> set (txInstalled tx) \<Longrightarrow> p \<noteq> [] \<and> (cov p \<or> map_of t p = None)"
  and undoInv_created: "undoInv t es cov tx \<Longrightarrow> p \<in> set (txCreated tx) \<Longrightarrow> \<not> cov p \<and> map_of t p = None"
  and undoInv_modes: "undoInv t es cov tx \<Longrightarrow> (p, m) \<in> set (txModes tx) \<Longrightarrow>
    \<not> cov p \<and> (\<forall>n0. map_of t p = Some n0 \<longrightarrow> chmodNode m n0 = n0)"
  by (drule undoInv_parts(3), fastforce simp: logsOk_def)+

lemma undoInv_missing: "undoInv t es cov tx \<Longrightarrow> \<not> cov q \<Longrightarrow> map_of (txWork tx) q = None \<Longrightarrow> map_of t q = None"
  by (cases "map_of t q") (auto dest: undoInv_old)

lemma backupInv_undo:
  assumes "backupInv t targets ps tx"
  shows "undoInv t es (removedPath targets ps t) tx \<and> unchanged t (removedPath targets ps t) tx"
  using backupInv_work [OF assms] backupInv_rest [OF assms] unfolding undoInv_def oldKept_def newKnown_def logsOk_def unchanged_def by simp

text \<open>Making directories.\<close>

lemma undoInv_mkdir:
  assumes inv: "undoInv t es cov tx" and mk: "makeDirAll bad p (txWork tx) = (w, r)"
    and new: "\<And>q. \<not> cov q \<Longrightarrow> map_of (txWork tx) q = None \<Longrightarrow> map_of w q \<noteq> None \<Longrightarrow> q \<in> set (txCreated tx) \<or> implicitDir es q"
  shows "undoInv t es cov (tx\<lparr>txWork := w\<rparr>)"
proof -
  note get = makeDirAll_get(1) [OF mk]
  have old: "map_of w q = Some n" if "map_of (txWork tx) q = Some n" for q n
    using get [of q] that by auto
  have fresh: "map_of (txWork tx) q = Some n \<or>
      isWDir n \<and> (q \<in> set (txCreated tx) \<or> implicitDir es q)" if q: "\<not> cov q" "map_of w q = Some n" for q n
  proof (cases "map_of (txWork tx) q")
    case None
    then have "n = WDir newDirMode" using get [of q] q(2) by simp
    then show ?thesis using new [OF q(1) None] q(2) by (simp add: isWDir_def)
  next
    case (Some k)
    then show ?thesis using old q(2) by simp
  qed
  have a: "\<exists>n. map_of w q = Some n \<and> (n = n0 \<or> q \<in> fst ` set (txModes tx) \<and> (\<exists>m. n = chmodNode m n0))"
    if "\<not> cov q" "map_of t q = Some n0" for q n0 using undoInv_old [OF inv that] old by blast
  have b: "q \<in> set (txInstalled tx) \<or> isWDir n \<and> (q \<in> set (txCreated tx) \<or> implicitDir es q)"
    if q: "\<not> cov q" "map_of t q = None" "map_of w q = Some n" for q n
    using fresh [OF q(1,3)] undoInv_new [OF inv q(1,2)] by blast
  have "oldKept t cov (tx\<lparr>txWork := w\<rparr>)" unfolding oldKept_def using a by simp
  moreover have "newKnown t es cov (tx\<lparr>txWork := w\<rparr>)" unfolding newKnown_def using b by simp
  moreover have "logsOk t cov (tx\<lparr>txWork := w\<rparr>)" using undoInv_parts(3) [OF inv] by (simp add: logsOk_def)
  ultimately show ?thesis using treeOk_makeDirAll [OF mk undoInv_tree [OF inv]] by (simp add: undoInv_def)
qed

lemma unchanged_mkdir: "unchanged t cov tx \<Longrightarrow> makeDirAll bad p (txWork tx) = (w, r) \<Longrightarrow> unchanged t cov (tx\<lparr>txWork := w\<rparr>)"
  unfolding unchanged_def by (metis applyTx.select_convs(1) applyTx.surjective applyTx.update_convs(1) makeDirAll_get(1) option.distinct(1))

lemma set_update_alist: "set (AList.update p m al) \<subseteq> insert (p, m) (set al)"
  by (induction al) auto

definition nodeMode :: "wsNode \<Rightarrow> nat" where
  "nodeMode n = (case n of WDir m \<Rightarrow> m | WFile m c mt \<Rightarrow> m | WLink l \<Rightarrow> 0)"

lemma chmodNode_mode: "chmodNode (nodeMode n) n = n"
  by (cases n) (simp_all add: chmodNode_def nodeMode_def)

lemma lstatPath_get: "lstatPath p t = Inr n \<Longrightarrow> map_of t p = Some n" "lstatPath p t = Inl e \<Longrightarrow> map_of t p = None"
  by (auto simp: lstatPath_def split: option.splits if_splits)

lemma dirLoop_undo:
  assumes "dirLoop env es tx = (tx', r)" "undoInv t all cov tx" "unchanged t cov tx"
    and "\<And>e. e \<in> set es \<Longrightarrow> Kind e = KindDir \<Longrightarrow> segs e \<noteq> [] \<Longrightarrow> \<not> cov (segs e)" "set es \<subseteq> set all"
  shows "undoInv t all cov tx' \<and> unchanged t cov tx' \<and> txBackups tx' = txBackups tx
    \<and> set (txCreated tx) \<subseteq> set (txCreated tx') \<and> fst ` set (txModes tx) \<subseteq> fst ` set (txModes tx')
    \<and> (r = Inr () \<longrightarrow> (\<forall>e \<in> set es. Kind e = KindDir \<and> segs e \<noteq> [] \<longrightarrow>
        segs e \<in> set (txCreated tx') \<or> segs e \<in> fst ` set (txModes tx')))"
  using assms
proof (induction es arbitrary: tx)
  case (Cons e es)
  let ?p = "segs e"
  note inv = Cons.prems(2) and un = Cons.prems(3)
  show ?case
  proof (cases "Kind e = KindDir \<and> ?p \<noteq> []")
    case False
    then show ?thesis using Cons.IH [OF _ inv un] Cons.prems(1,4,5) by (auto simp: segs_def)
  next
    case True
    then have d: "Kind e = KindDir" "?p \<noteq> []" "\<not> cov ?p" using Cons.prems(4) by auto
    define rec where "rec = (case lstatPath ?p (txWork tx) of
        Inl _ \<Rightarrow> tx\<lparr>txCreated := txCreated tx @ [?p]\<rparr>
      | Inr n \<Rightarrow> tx\<lparr>txModes := AList.update ?p (nodeMode n) (txModes tx)\<rparr>)"
    show ?thesis
    proof (cases "lstatPath ?p (txWork tx) = Inl FsError")
      case True
      then show ?thesis using Cons.prems(1) d inv un by (auto simp: segs_def Let_def)
    next
      case nf: False
      have rinv: "undoInv t all cov rec"
      proof (cases "lstatPath ?p (txWork tx)")
        case (Inl err)
        then have "map_of (txWork tx) ?p = None" by (rule lstatPath_get(2))
        then have "map_of t ?p = None" by (rule undoInv_missing [OF inv d(3)])
        then have "logsOk t cov rec" using undoInv_parts(3) [OF inv] d(3) by (auto simp: logsOk_def rec_def Inl)
        moreover have "newKnown t all cov rec"
          unfolding newKnown_def
        proof (intro allI impI)
          fix q n
          assume "\<not> cov q" "map_of t q = None" "map_of (txWork rec) q = Some n"
          then show "q \<in> set (txInstalled rec) \<or> isWDir n \<and> (q \<in> set (txCreated rec) \<or> implicitDir all q)"
            using undoInv_new [OF inv, of q n] by (auto simp: rec_def Inl)
        qed
        moreover have "oldKept t cov rec" using undoInv_parts(1) [OF inv] by (simp add: oldKept_def rec_def Inl)
        ultimately show ?thesis using undoInv_tree [OF inv] by (simp add: undoInv_def rec_def Inl)
      next
        case (Inr n)
        then have n: "map_of (txWork tx) ?p = Some n" by (rule lstatPath_get(1))
        have "chmodNode (nodeMode n) n0 = n0" if "map_of t ?p = Some n0" for n0
          using un d(3) that n unfolding unchanged_def by (auto simp: chmodNode_mode)
        then have modes: "\<not> cov p \<and> (\<forall>n0. map_of t p = Some n0 \<longrightarrow> chmodNode m n0 = n0)"
          if "(p, m) \<in> set (AList.update ?p (nodeMode n) (txModes tx))" for p m
          using undoInv_modes [OF inv, of p m] d(3) set_update_alist [of ?p "nodeMode n" "txModes tx"] that by auto
        have more: "q \<in> fst ` set (AList.update ?p (nodeMode n) (txModes tx))" if "q \<in> fst ` set (txModes tx)" for q
          using that by (auto simp: dom_update)
        have "oldKept t cov rec"
          unfolding oldKept_def
        proof (intro allI impI)
          fix q n0
          assume "\<not> cov q" "map_of t q = Some n0"
          from undoInv_old [OF inv this] more [of q]
          show "\<exists>n. map_of (txWork rec) q = Some n \<and> (n = n0 \<or> q \<in> fst ` set (txModes rec) \<and> (\<exists>m. n = chmodNode m n0))"
            unfolding rec_def Inr by (simp, blast)
        qed
        moreover have "newKnown t all cov rec"
          using undoInv_parts(2) [OF inv] by (simp add: newKnown_def rec_def Inr)
        moreover have "logsOk t cov rec"
          using undoInv_parts(3) [OF inv] modes by (auto simp: logsOk_def rec_def Inr)
        ultimately show ?thesis using undoInv_tree [OF inv] by (simp add: undoInv_def rec_def Inr)
      qed
      have run: "unchanged t cov rec" "txBackups rec = txBackups tx" "txWork rec = txWork tx"
          "set (txCreated tx) \<subseteq> set (txCreated rec)" "fst ` set (txModes tx) \<subseteq> fst ` set (txModes rec)"
          "?p \<in> set (txCreated rec) \<or> ?p \<in> fst ` set (txModes rec)"
          "lstatPath ?p (txWork tx) = Inl FsNotExist \<Longrightarrow> ?p \<in> set (txCreated rec)"
        using un unfolding rec_def by (auto simp: unchanged_def dom_update split: sum.splits)
      obtain w mr where mk: "makeDirAll (aeMkdir env) ?p (txWork rec) = (w, mr)" by fastforce
      have minv: "undoInv t all cov (rec\<lparr>txWork := w\<rparr>)"
      proof (rule undoInv_mkdir [OF rinv mk])
        fix q
        assume q: "\<not> cov q" "map_of (txWork rec) q = None" "map_of w q \<noteq> None"
        have b: "below q ?p" using makeDirAll_get(1) [OF mk, of q] q(2,3) by auto
        show "q \<in> set (txCreated rec) \<or> implicitDir all q"
        proof (cases "q = ?p")
          case True
          then have "lstatPath ?p (txWork tx) = Inl FsNotExist"
            using nf q(2) run(3) by (auto simp: lstatPath_def split: if_splits)
          then show ?thesis using run(7) True by simp
        next
          case False
          then show ?thesis using b d(1) Cons.prems(5) by (auto simp: implicitDir_iff)
        qed
      qed
      note mun = unchanged_mkdir [OF run(1) mk]
      have step: "dirLoop env (e # es) tx =
          (case mr of Inl err \<Rightarrow> (rec\<lparr>txWork := w\<rparr>, Inl ApplyFS) | Inr _ \<Rightarrow> dirLoop env es (rec\<lparr>txWork := w\<rparr>))"
        using d(1,2) nf mk unfolding rec_def
        by (auto simp: segs_def Let_def nodeMode_def split: sum.splits fsError.splits)
      show ?thesis
      proof (cases mr)
        case (Inl err)
        then have "tx' = rec\<lparr>txWork := w\<rparr>" "r = Inl ApplyFS" using step Cons.prems(1) by simp_all
        then show ?thesis using minv mun run by simp
      next
        case (Inr u)
        have ih: "dirLoop env es (rec\<lparr>txWork := w\<rparr>) = (tx', r)" using step Cons.prems(1) Inr by simp
        have res: "undoInv t all cov tx' \<and> unchanged t cov tx' \<and> txBackups tx' = txBackups (rec\<lparr>txWork := w\<rparr>)
          \<and> set (txCreated (rec\<lparr>txWork := w\<rparr>)) \<subseteq> set (txCreated tx')
          \<and> fst ` set (txModes (rec\<lparr>txWork := w\<rparr>)) \<subseteq> fst ` set (txModes tx')
          \<and> (r = Inr () \<longrightarrow> (\<forall>e \<in> set es. Kind e = KindDir \<and> segs e \<noteq> [] \<longrightarrow>
              segs e \<in> set (txCreated tx') \<or> segs e \<in> fst ` set (txModes tx')))"
          by (rule Cons.IH [OF ih minv mun]) (use Cons.prems(4,5) in simp_all)
        then have s: "set (txCreated rec) \<subseteq> set (txCreated tx')" "fst ` set (txModes rec) \<subseteq> fst ` set (txModes tx')"
          by simp_all
        have logged: "?p \<in> set (txCreated tx') \<or> ?p \<in> fst ` set (txModes tx')"
          by (rule disjE [OF run(6)]) (use s in \<open>simp_all add: subsetD\<close>)
        note sub = subset_trans [OF run(4) s(1)] subset_trans [OF run(5) s(2)] logged
        show ?thesis using res sub run(2) by simp
      qed
    qed
  qed
qed simp

text \<open>The parents that are missing when a file is installed.\<close>

lemma properParents_set: "q \<in> set (properParents p) \<longleftrightarrow> q \<noteq> [] \<and> q \<noteq> p \<and> below q p"
proof
  assume "q \<in> set (properParents p)"
  then obtain k where "q = take k p" "1 \<le> k" "k < length p" by (auto simp: properParents_def)
  then show "q \<noteq> [] \<and> q \<noteq> p \<and> below q p"
    by (cases p) (auto simp: below_iff intro!: exI [where x = "drop k p"] dest: arg_cong [where f = length])
next
  assume q: "q \<noteq> [] \<and> q \<noteq> p \<and> below q p"
  then obtain r where r: "p = q @ r" by (auto simp: below_iff)
  then have "length q < length p" "1 \<le> length q" using q by (auto simp: Suc_leI)
  then show "q \<in> set (properParents p)"
    unfolding properParents_def set_map using r by (intro image_eqI [where x = "length q"]) simp_all
qed

lemma missingParents_set: "q \<in> set (missingParents t ps) \<Longrightarrow> map_of t q = None \<and> q \<in> set ps"
  by (induction ps) (auto split: sum.splits fsError.splits dest: lstatPath_get(2) [OF sym])

lemma below_length: "below q p \<longleftrightarrow> length q \<le> length p \<and> q = take (length q) p"
  by (auto simp: below_iff) (metis append_take_drop_id)

lemma below_takes: "j \<le> k \<Longrightarrow> below (take j p) (take k p)"
  by (metis below_append le_add_diff_inverse take_add)

lemma missingParents_append:
  "(\<And>q. q \<in> set xs \<Longrightarrow> lstatPath q t = Inl FsNotExist) \<Longrightarrow> missingParents t (xs @ ys) = xs @ missingParents t ys"
  by (induction xs) auto

lemma missingParents_all:
  assumes tree: "treeOk t" and mk: "makeDirAll bad (butlast p) t = (w, r)"
    and q: "map_of t q = None" "map_of w q \<noteq> None"
  shows "q \<in> set (missingParents t (properParents p))"
proof -
  have tw: "treeOk w" by (rule treeOk_makeDirAll [OF mk tree])
  have b: "below q (butlast p)" using makeDirAll_get(1) [OF mk, of q] q by auto
  have ne: "q \<noteq> []" using q(1) tree by (auto simp: treeOk_def)
  obtain n where n: "map_of w q = Some n" using q(2) by auto
  have pn: "p \<noteq> []" using b ne by (auto simp: below_iff)
  have bl: "length q \<le> length p - 1" "q = take (length q) (butlast p)" using b by (simp_all add: below_length)
  have lq: "1 \<le> length q" "length q < length p" "q = take (length q) p"
  proof -
    show "1 \<le> length q" using ne by (simp add: Suc_leI)
    show "length q < length p" using bl(1) pn by (cases p) auto
    show "q = take (length q) p" using bl by (simp add: butlast_conv_take)
  qed
  have stat: "lstatPath (take k p) t = Inl FsNotExist" if k: "length q \<le> k" "k \<le> length p" for k
  proof -
    have bq: "below q (take k p)" using below_takes [OF k(1), of p] lq(3) by simp
    have none: "map_of t (take k p) = None"
    proof (rule ccontr)
      assume "map_of t (take k p) \<noteq> None"
      then obtain m where m: "map_of t (take k p) = Some m" by auto
      then have "q \<noteq> take k p" using q(1) by auto
      then show False using treeOk_ancestor [OF tree m bq] q(1) by simp
    qed
    have dirs: "isWDir m" if m: "map_of t (take j (take k p)) = Some m" "j < k" for j m
    proof -
      have tj: "take j (take k p) = take j p" using m(2) by (simp add: min_def)
      have "j < length q"
      proof (rule ccontr)
        assume "\<not> j < length q"
        then have bj: "below q (take j p)" using below_takes [of "length q" j p] lq(3) by simp
        have mj: "map_of t (take j p) = Some m" using m(1) tj by simp
        then have "q \<noteq> take j p" using q(1) by auto
        then show False using treeOk_ancestor [OF tree mj bj] q(1) by simp
      qed
      then have j: "below (take j p) q" "take j p \<noteq> q"
        using below_takes [of j "length q" p] lq by (auto dest: arg_cong [where f = length])
      then obtain d where "map_of w (take j p) = Some (WDir d)" using treeOk_ancestor [OF tw n j] by blast
      then show ?thesis using makeDirAll_get(1) [OF mk, of "take j p"] m(1) tj by (auto simp: isWDir_def)
    qed
    have "\<not> list_ex (\<lambda>j. case map_of t (take j (take k p)) of Some n \<Rightarrow> \<not> isWDir n | None \<Rightarrow> False) [0..<length (take k p)]"
      using dirs k unfolding list_ex_iff by (auto split: option.splits)
    then show ?thesis using none unfolding lstatPath_def by (simp del: take_take)
  qed
  have split: "rev [1..<length p] = rev [Suc (length q)..<length p] @ length q # rev [1..<length q]"
  proof -
    have "[1..<length p] = [1..<length q] @ [length q..<length p]"
      using upt_add_eq_append [of 1 "length q" "length p - length q"] lq by simp
    moreover have "[length q..<length p] = length q # [Suc (length q)..<length p]" using lq(2) by (rule upt_conv_Cons)
    ultimately show ?thesis by simp
  qed
  have "missingParents t (properParents p) =
      map (\<lambda>k. take k p) (rev [Suc (length q)..<length p]) @ missingParents t (take (length q) p # map (\<lambda>k. take k p) (rev [1..<length q]))"
    unfolding properParents_def split map_append list.map
    by (rule missingParents_append) (use stat in auto)
  then show ?thesis using stat [of "length q"] lq by simp
qed

text \<open>Installing the files and links.\<close>

definition canUndo :: "wsTree \<Rightarrow> (wsPath \<Rightarrow> bool) \<Rightarrow> entry list \<Rightarrow> bool" where
  "canUndo t cov es \<longleftrightarrow> (\<forall>e \<in> set es.
     (Kind e = KindDir \<longrightarrow> segs e \<noteq> [] \<longrightarrow> \<not> cov (segs e))
     \<and> (Kind e \<noteq> KindDir \<longrightarrow> segs e \<noteq> [] \<and> (cov (segs e) \<or> map_of t (segs e) = None))
     \<and> (\<forall>q \<in> set (properParents (segs e)). \<not> cov q))"

lemma canUndo_dir: "canUndo t cov es \<Longrightarrow> e \<in> set es \<Longrightarrow> Kind e = KindDir \<Longrightarrow> segs e \<noteq> [] \<Longrightarrow> \<not> cov (segs e)"
  and canUndo_file: "canUndo t cov es \<Longrightarrow> e \<in> set es \<Longrightarrow> Kind e \<noteq> KindDir \<Longrightarrow>
    segs e \<noteq> [] \<and> (cov (segs e) \<or> map_of t (segs e) = None)"
  and canUndo_parent: "canUndo t cov es \<Longrightarrow> e \<in> set es \<Longrightarrow> q \<in> set (properParents (segs e)) \<Longrightarrow> \<not> cov q"
  unfolding canUndo_def by simp_all

lemma canUndo_Cons: "canUndo t cov (e # es) \<Longrightarrow> canUndo t cov es"
  by (simp add: canUndo_def)

lemma undoInv_created_more:
  assumes "undoInv t all cov tx" "\<And>q. q \<in> set qs \<Longrightarrow> \<not> cov q \<and> map_of (txWork tx) q = None"
  shows "undoInv t all cov (tx\<lparr>txCreated := txCreated tx @ qs\<rparr>)"
proof -
  let ?tx = "tx\<lparr>txCreated := txCreated tx @ qs\<rparr>"
  have "\<not> cov q \<and> map_of t q = None" if "q \<in> set qs" for q
    using undoInv_missing [OF assms(1)] assms(2) [OF that] by blast
  then have "logsOk t cov ?tx" using undoInv_parts(3) [OF assms(1)] by (auto simp: logsOk_def)
  moreover have "newKnown t all cov ?tx"
    unfolding newKnown_def
  proof (intro allI impI)
    fix q n
    assume "\<not> cov q" "map_of t q = None" "map_of (txWork ?tx) q = Some n"
    then show "q \<in> set (txInstalled ?tx) \<or> isWDir n \<and> (q \<in> set (txCreated ?tx) \<or> implicitDir all q)"
      using undoInv_new [OF assms(1), of q n] by auto
  qed
  moreover have "oldKept t cov ?tx" using undoInv_parts(1) [OF assms(1)] by (simp add: oldKept_def)
  ultimately show ?thesis using undoInv_tree [OF assms(1)] by (simp add: undoInv_def)
qed

lemma undoInv_install:
  assumes inv: "undoInv t all cov tx" and p: "p \<noteq> []" "cov p \<or> map_of t p = None"
    and dir: "map_of (txWork tx) (butlast p) = Some (WDir d)" "\<not> (\<exists>m. map_of (txWork tx) p = Some (WDir m))"
  shows "undoInv t all cov (tx\<lparr>txWork := putNode p n (txWork tx), txInstalled := txInstalled tx @ [p]\<rparr>)"
proof -
  let ?tx = "tx\<lparr>txWork := putNode p n (txWork tx), txInstalled := txInstalled tx @ [p]\<rparr>"
  have "oldKept t cov ?tx"
    unfolding oldKept_def
  proof (intro allI impI)
    fix q n0
    assume q: "\<not> cov q" "map_of t q = Some n0"
    then have "q \<noteq> p" using p(2) by auto
    then show "\<exists>n. map_of (txWork ?tx) q = Some n \<and> (n = n0 \<or> q \<in> fst ` set (txModes ?tx) \<and> (\<exists>m. n = chmodNode m n0))"
      using undoInv_old [OF inv q] by (simp add: map_of_putNode)
  qed
  moreover have "newKnown t all cov ?tx"
    unfolding newKnown_def
  proof (intro allI impI)
    fix q k
    assume q: "\<not> cov q" "map_of t q = None" "map_of (txWork ?tx) q = Some k"
    then show "q \<in> set (txInstalled ?tx) \<or> isWDir k \<and> (q \<in> set (txCreated ?tx) \<or> implicitDir all q)"
      using undoInv_new [OF inv q(1,2), of k] by (cases "q = p") (simp_all add: map_of_putNode)
  qed
  moreover have "logsOk t cov ?tx" using undoInv_parts(3) [OF inv] p by (auto simp: logsOk_def)
  moreover have "treeOk (txWork ?tx)" using treeOk_put_leaf [OF undoInv_tree [OF inv] p(1) dir] by simp
  ultimately show ?thesis by (simp add: undoInv_def)
qed

lemma installLoop_undo:
  assumes "installLoop env stage es tx = (tx', r)" "undoInv t all cov tx" "canUndo t cov es"
  shows "undoInv t all cov tx' \<and> txBackups tx' = txBackups tx \<and> txModes tx' = txModes tx
    \<and> set (txCreated tx) \<subseteq> set (txCreated tx')"
  using assms
proof (induction es arbitrary: tx)
  case (Cons e es)
  let ?p = "segs e"
  note inv = Cons.prems(2)
  note rest = canUndo_Cons [OF Cons.prems(3)]
  show ?case
  proof (cases "Kind e = KindDir")
    case True
    then show ?thesis using Cons.IH [OF _ inv rest] Cons.prems(1) by simp
  next
    case nd: False
    have p: "?p \<noteq> []" "cov ?p \<or> map_of t ?p = None" using canUndo_file [OF Cons.prems(3)] nd by auto
    define new where "new = missingParents (txWork tx) (properParents ?p)"
    define tx1 where "tx1 = tx\<lparr>txCreated := txCreated tx @ new\<rparr>"
    have inv1: "undoInv t all cov tx1"
      unfolding tx1_def
      by (rule undoInv_created_more [OF inv])
        (use missingParents_set canUndo_parent [OF Cons.prems(3), of e] in \<open>auto simp: new_def\<close>)
    obtain w mr where mk: "makeDirAll (aeMkdir env) (butlast ?p) (txWork tx1) = (w, mr)" by fastforce
    have inv2: "undoInv t all cov (tx1\<lparr>txWork := w\<rparr>)"
    proof (rule undoInv_mkdir [OF inv1 mk])
      fix q
      assume q: "map_of (txWork tx1) q = None" "map_of w q \<noteq> None"
      show "q \<in> set (txCreated tx1) \<or> implicitDir all q"
        using missingParents_all [OF undoInv_tree [OF inv1] mk q] by (simp add: tx1_def new_def)
    qed
    have keeps: "txBackups tx1 = txBackups tx" "txModes tx1 = txModes tx" "set (txCreated tx) \<subseteq> set (txCreated tx1)"
      by (auto simp: tx1_def)
    let ?tx2 = "tx1\<lparr>txWork := w\<rparr>"
    let ?bad = "aeInstall env ?p \<or> (case map_of w ?p of Some (WDir m) \<Rightarrow> True | _ \<Rightarrow> False)"
    have step: "installLoop env stage (e # es) tx =
        (case mr of Inl err \<Rightarrow> (?tx2, Inl ApplyFS)
         | Inr _ \<Rightarrow> (case map_of stage ?p of
             None \<Rightarrow> (?tx2, Inl ApplyFS)
           | Some n \<Rightarrow> if ?bad then (?tx2, Inl ApplyFS)
               else installLoop env stage es (?tx2\<lparr>txWork := putNode ?p n w, txInstalled := txInstalled ?tx2 @ [?p]\<rparr>)))"
      using nd mk unfolding tx1_def new_def segs_def by (simp add: Let_def split: sum.splits)
    show ?thesis
    proof (cases "mr = Inr () \<and> (\<exists>n. map_of stage ?p = Some n) \<and> \<not> ?bad")
      case False
      then have "tx' = ?tx2" using step Cons.prems(1) by (auto split: sum.splits option.splits if_splits)
      then show ?thesis using inv2 keeps by simp
    next
      case True
      then obtain n where n: "mr = Inr ()" "map_of stage ?p = Some n" "\<not> ?bad" by blast
      define tx3 where "tx3 = ?tx2\<lparr>txWork := putNode ?p n w, txInstalled := txInstalled ?tx2 @ [?p]\<rparr>"
      have run: "installLoop env stage es tx3 = (tx', r)"
        using step Cons.prems(1) n by (simp add: tx3_def)
      obtain d where d: "map_of w (butlast ?p) = Some (WDir d)" using makeDirAll_get(2) [OF mk n(1) below_refl] by blast
      have "undoInv t all cov tx3"
        using undoInv_install [OF inv2 p, of d n] d n(3) by (simp add: tx3_def split: wsNode.splits option.splits)
      from Cons.IH [OF run this rest] have res: "undoInv t all cov tx' \<and> txBackups tx' = txBackups tx1
          \<and> txModes tx' = txModes tx1 \<and> set (txCreated tx1) \<subseteq> set (txCreated tx')" by (simp add: tx3_def)
      then have "set (txCreated tx1) \<subseteq> set (txCreated tx')" by blast
      then show ?thesis using res keeps(1,2) subset_trans [OF keeps(3)] by simp
    qed
  qed
qed simp

text \<open>Setting the modes.\<close>

lemma chmodNode_chmodNode [simp]: "chmodNode m (chmodNode k n) = chmodNode m n"
  by (cases n) (simp_all add: chmodNode_def)

lemma isWDir_chmodNode [simp]: "isWDir (chmodNode m n) = isWDir n"
  by (cases n) (simp_all add: chmodNode_def isWDir_def)

lemma undoInv_chmod:
  assumes inv: "undoInv t all cov tx" and p: "map_of (txWork tx) p = Some n" "map_of t p = None \<or> p \<in> fst ` set (txModes tx)"
  shows "undoInv t all cov (tx\<lparr>txWork := putNode p (chmodNode m n) (txWork tx)\<rparr>)"
proof -
  let ?tx = "tx\<lparr>txWork := putNode p (chmodNode m n) (txWork tx)\<rparr>"
  have "oldKept t cov ?tx"
    unfolding oldKept_def
  proof (intro allI impI)
    fix q n0
    assume q: "\<not> cov q" "map_of t q = Some n0"
    obtain k where k: "map_of (txWork tx) q = Some k" "k = n0 \<or> q \<in> fst ` set (txModes tx) \<and> (\<exists>m. k = chmodNode m n0)"
      using undoInv_old [OF inv q] by blast
    show "\<exists>n. map_of (txWork ?tx) q = Some n \<and> (n = n0 \<or> q \<in> fst ` set (txModes ?tx) \<and> (\<exists>m. n = chmodNode m n0))"
    proof (cases "q = p")
      case True
      then have "n = k" "p \<in> fst ` set (txModes tx)" using p k(1) q(2) by auto
      moreover have "\<exists>m'. chmodNode m k = chmodNode m' n0" using k(2) by auto
      ultimately show ?thesis using True by (simp add: map_of_putNode)
    qed (use k in \<open>simp add: map_of_putNode\<close>)
  qed
  moreover have "newKnown t all cov ?tx"
    unfolding newKnown_def
  proof (intro allI impI)
    fix q k
    assume q: "\<not> cov q" "map_of t q = None" "map_of (txWork ?tx) q = Some k"
    obtain k' where "map_of (txWork tx) q = Some k'" "isWDir k' = isWDir k"
      using q(3) p(1) by (auto simp: map_of_putNode split: if_splits)
    then show "q \<in> set (txInstalled ?tx) \<or> isWDir k \<and> (q \<in> set (txCreated ?tx) \<or> implicitDir all q)"
      using undoInv_new [OF inv q(1,2), of k'] by simp
  qed
  moreover have "logsOk t cov ?tx" using undoInv_parts(3) [OF inv] by (simp add: logsOk_def)
  moreover have "treeOk (txWork ?tx)" using treeOk_put_same [OF undoInv_tree [OF inv] p(1)] by simp
  ultimately show ?thesis by (simp add: undoInv_def)
qed

lemma modeLoop_undo:
  assumes "modeLoop env es tx = (tx', r)" "undoInv t all cov tx"
    and "\<And>e. e \<in> set es \<Longrightarrow> Kind e = KindDir \<Longrightarrow> segs e \<noteq> [] \<Longrightarrow>
      segs e \<in> set (txCreated tx) \<or> segs e \<in> fst ` set (txModes tx)"
  shows "undoInv t all cov tx' \<and> txBackups tx' = txBackups tx"
  using assms
proof (induction es arbitrary: tx)
  case (Cons e es)
  note inv = Cons.prems(2)
  show ?case
  proof (cases "Kind e = KindDir \<and> segs e \<noteq> []")
    case False
    then show ?thesis using Cons.IH [OF _ inv] Cons.prems(1,3) by (auto simp: segs_def)
  next
    case True
    then have logged: "map_of t (segs e) = None \<or> segs e \<in> fst ` set (txModes tx)"
      using Cons.prems(3) [of e] undoInv_created [OF inv, of "segs e"] by auto
    show ?thesis
    proof (cases "map_of (txWork tx) (segs e)")
      case None
      then show ?thesis using Cons.prems(1) True inv by (simp add: segs_def)
    next
      case (Some n)
      show ?thesis
      proof (cases "aeChmod env (segs e)")
        case True
        then show ?thesis using Cons.prems(1) \<open>Kind e = KindDir \<and> segs e \<noteq> []\<close> Some inv by (simp add: segs_def)
      next
        case False
        let ?tx = "tx\<lparr>txWork := putNode (segs e) (chmodNode (fileMode (Mode e) defaultDirMode) n) (txWork tx)\<rparr>"
        have "modeLoop env es ?tx = (tx', r)" using Cons.prems(1) True Some False by (simp add: segs_def)
        from Cons.IH [OF this undoInv_chmod [OF inv Some logged]] Cons.prems(3) show ?thesis by simp
      qed
    qed
  qed
qed simp

section \<open>What a rollback gives back\<close>

definition allSteps :: fileSteps where
  "allSteps = \<lparr>fsMkdir = True, fsTemp = True, fsClone = Inr False, fsCopy = True, fsChmod = True, fsRename = True, fsTimes = True\<rparr>"

definition noFaults :: applyEnv where
  "noFaults = \<lparr>aeTemp = False, aeFile = \<lambda>_. allSteps, aeCancelled = \<lambda>_. False, aeStage = \<lambda>_. False, aeBackup = \<lambda>_. False, aeMkdir = \<lambda>_. False,
     aeInstall = \<lambda>_. False, aeChmod = \<lambda>_. False, aeRemove = \<lambda>_. False\<rparr>"

lemma noFaults_simps [simp]:
  "aeTemp noFaults = False" "aeCancelled noFaults e = False" "aeStage noFaults e = False" "aeBackup noFaults p = False"
  "aeMkdir noFaults p = False" "aeInstall noFaults p = False" "aeChmod noFaults p = False" "aeRemove noFaults p = False"
  by (simp_all add: noFaults_def)

text \<open>The work tree during a rollback, outside and inside the parts that were moved away.\<close>

definition undone :: "wsTree \<Rightarrow> entry list \<Rightarrow> wsPath set \<Rightarrow> wsPath set \<Rightarrow> wsTree \<Rightarrow> wsPath \<Rightarrow> bool" where
  "undone t es modes created w q \<longleftrightarrow>
     (case map_of t q of
        Some n0 \<Rightarrow> (\<exists>n. map_of w q = Some n \<and> (n = n0 \<or> q \<in> modes \<and> (\<exists>m. n = chmodNode m n0)))
      | None \<Rightarrow> (case map_of w q of None \<Rightarrow> True | Some n \<Rightarrow> isWDir n \<and> (q \<in> created \<or> implicitDir es q)))"

lemma undone_old: "undone t es ms cs w q \<Longrightarrow> map_of t q = Some n0 \<Longrightarrow>
    \<exists>n. map_of w q = Some n \<and> (n = n0 \<or> q \<in> ms \<and> (\<exists>m. n = chmodNode m n0))"
  and undone_new: "undone t es ms cs w q \<Longrightarrow> map_of t q = None \<Longrightarrow> map_of w q = Some n \<Longrightarrow>
    isWDir n \<and> (q \<in> cs \<or> implicitDir es q)"
  by (simp_all add: undone_def)

lemma undone_same: "undone t es ms cs w q \<Longrightarrow> map_of w' q = map_of w q \<Longrightarrow> undone t es ms cs w' q"
  by (cases "map_of t q") (simp_all add: undone_def)

lemma not_below_butlast: "b \<noteq> [] \<Longrightarrow> \<not> below b (butlast b)"
  by (cases b rule: rev_cases) (auto simp: below_length)

lemma undoneI: "(\<And>n0. map_of t q = Some n0 \<Longrightarrow> \<exists>n. map_of w q = Some n \<and> (n = n0 \<or> q \<in> ms \<and> (\<exists>m. n = chmodNode m n0))) \<Longrightarrow>
    (\<And>n. map_of t q = None \<Longrightarrow> map_of w q = Some n \<Longrightarrow> isWDir n \<and> (q \<in> cs \<or> implicitDir es q)) \<Longrightarrow> undone t es ms cs w q"
  unfolding undone_def by (auto split: option.splits)

lemma fold_removeInstalled:
  "map_of (fst (fold (removeInstalled noFaults) ps (w, ok))) q = (if \<exists>p \<in> set ps. below p q then None else map_of w q)"
proof (induction ps arbitrary: w ok)
  case (Cons p ps)
  show ?case using Cons.IH [of "cutTree p w" ok] by (auto simp: removeInstalled_def map_of_cutTree)
qed simp

lemma removed_undone:
  assumes inv: "undoInv t es cov tx" and t: "treeOk t" and cov: "\<And>p q. cov p \<Longrightarrow> below p q \<Longrightarrow> cov q"
    and w: "w = fst (fold (removeInstalled noFaults) (txInstalled tx) (txWork tx, True))" and q: "\<not> cov q"
  shows "undone t es (fst ` set (txModes tx)) (set (txCreated tx)) w q"
proof -
  note get = fold_removeInstalled [of "txInstalled tx" "txWork tx" True, folded w]
  show ?thesis
  proof (rule undoneI)
    fix n0
    assume n0: "map_of t q = Some n0"
    have "\<not> below p q" if p: "p \<in> set (txInstalled tx)" for p
    proof
      assume b: "below p q"
      then have "map_of t p = None" using undoInv_installed [OF inv p] cov q by blast
      moreover from this have "p \<noteq> q" using n0 by auto
      ultimately show False using treeOk_ancestor [OF t n0 b] by simp
    qed
    then show "\<exists>n. map_of w q = Some n \<and> (n = n0 \<or> q \<in> fst ` set (txModes tx) \<and> (\<exists>m. n = chmodNode m n0))"
      using undoInv_old [OF inv q n0] get [of q] by simp
  next
    fix n
    assume "map_of t q = None" "map_of w q = Some n"
    then show "isWDir n \<and> (q \<in> set (txCreated tx) \<or> implicitDir es q)"
      using undoInv_new [OF inv q, of n] get [of q] by (auto split: if_splits)
  qed
qed

text \<open>Restoring a backup.\<close>

lemma makeDirs_noop: "(\<And>q. q \<in> set ps \<Longrightarrow> \<exists>m. map_of t q = Some (WDir m)) \<Longrightarrow> makeDirs bad ps t = (t, Inr ())"
  by (induction ps) fastforce+

lemma makeDirAll_noop: "(\<And>q. below q p \<Longrightarrow> \<exists>m. map_of t q = Some (WDir m)) \<Longrightarrow> makeDirAll bad p t = (t, Inr ())"
  unfolding makeDirAll_def by (rule makeDirs_noop) (simp add: set_prefixesOf)

lemma restoreBackup_get:
  assumes dirs: "\<And>q. below q (butlast b) \<Longrightarrow> \<exists>m. map_of w q = Some (WDir m)" and b: "b \<noteq> []"
  shows "fst (restoreBackup noFaults (b, s) (w, ok)) = graftTree b s (cutTree b w)"
proof -
  have nb: "\<not> below b q" if "below q (butlast b)" for q
  proof
    assume "below b q"
    then have "below b (butlast b)" using that below_trans by blast
    then show False using not_below_butlast [OF b] by simp
  qed
  have "makeDirAll (aeMkdir noFaults) (butlast b) (cutTree b w) = (cutTree b w, Inr ())"
    by (rule makeDirAll_noop) (use nb dirs in \<open>simp add: map_of_cutTree\<close>)
  then show ?thesis by (simp add: restoreBackup_def map_of_cutTree)
qed

lemma graft_cut: "map_of (graftTree b s (cutTree b w)) q = (if below b q then map_of s (drop (length b) q) else map_of w q)"
  by (simp add: map_of_graftTree map_of_cutTree)

definition restoredIn :: "wsTree \<Rightarrow> (wsPath \<times> wsTree) list \<Rightarrow> wsTree \<Rightarrow> bool" where
  "restoredIn t bs w \<longleftrightarrow> (\<forall>q. coveredByChangeBackup q bs \<longrightarrow> map_of w q = map_of t q)"

lemma covered_Cons: "coveredByChangeBackup q ((b, s) # bs) \<longleftrightarrow> below b q \<or> coveredByChangeBackup q bs"
  by (simp add: coveredByChangeBackup_def)

lemma covered_append: "coveredByChangeBackup q (as @ bs) \<longleftrightarrow> coveredByChangeBackup q as \<or> coveredByChangeBackup q bs"
  by (simp add: coveredByChangeBackup_def)

lemma covered_trans: "coveredByChangeBackup p bs \<Longrightarrow> below p q \<Longrightarrow> coveredByChangeBackup q bs"
  unfolding coveredByChangeBackup_def list_ex_iff using below_trans by fastforce

lemma restore_undone:
  assumes t: "treeOk t" and bs: "all = done1 @ bs" "sorted_wrt apart all"
    and st: "\<And>b s. (b, s) \<in> set all \<Longrightarrow> b \<noteq> [] \<and> (\<exists>n. map_of t b = Some n) \<and> (\<forall>q. map_of s q = map_of t (b @ q))"
    and un: "\<And>q. \<not> coveredByChangeBackup q all \<Longrightarrow> undone t es ms cs w q"
    and re: "restoredIn t done1 w"
  shows "(\<forall>q. \<not> coveredByChangeBackup q all \<longrightarrow> undone t es ms cs (fst (fold (restoreBackup noFaults) bs (w, ok))) q)
    \<and> restoredIn t all (fst (fold (restoreBackup noFaults) bs (w, ok)))"
  using bs(1) un re
proof (induction bs arbitrary: w done1 ok)
  case Nil
  then show ?case by simp
next
  case (Cons x bs)
  obtain b s where x: "x = (b, s)" by fastforce
  have xin: "(b, s) \<in> set all" using Cons.prems(1) x by simp
  obtain n where n: "map_of t b = Some n" using st [OF xin] by blast
  have bne: "b \<noteq> []" using st [OF xin] by blast
  have other: "\<not> below b c \<and> \<not> below c b" if c: "(c, r) \<in> set done1 \<union> set bs" for c r
    using bs(2) Cons.prems(1) c x unfolding apart_def by (fastforce simp: sorted_wrt_append)
  have dirs: "\<exists>m. map_of w q = Some (WDir m)" if q: "below q (butlast b)" for q
  proof -
    have qb: "below q b" using q below_butlast below_trans by blast
    have qnb: "q \<noteq> b" using q not_below_butlast [OF bne] by auto
    have nc: "\<not> coveredByChangeBackup q all"
    proof
      assume "coveredByChangeBackup q all"
      then obtain c r where c: "(c, r) \<in> set all" "below c q" by (auto simp: coveredByChangeBackup_def list_ex_iff)
      then have "below c b" using qb below_trans by blast
      moreover have "c \<noteq> b" using below_antisym c(2) qb qnb by blast
      ultimately show False using other [of c r] c(1) Cons.prems(1) x by auto
    qed
    obtain m where "map_of t q = Some (WDir m)" using treeOk_ancestor [OF t n qb qnb] by blast
    then obtain k where "map_of w q = Some k" "k = WDir m \<or> (\<exists>m'. k = chmodNode m' (WDir m))"
      using undone_old [OF Cons.prems(2) [OF nc]] by blast
    then show ?thesis by (auto simp: chmodNode_def)
  qed
  obtain ok' where f: "restoreBackup noFaults x (w, ok) = (graftTree b s (cutTree b w), ok')"
    using restoreBackup_get [OF dirs bne, of s ok] x by (metis prod.collapse)
  let ?w = "graftTree b s (cutTree b w)"
  have at_b: "map_of ?w q = map_of t q" if q: "below b q" for q
  proof -
    obtain r where "q = b @ r" using q by (auto simp: below_iff)
    then show ?thesis using st [OF xin] by (simp add: graft_cut)
  qed
  have off_b: "map_of ?w q = map_of w q" if "\<not> below b q" for q using that by (simp add: graft_cut)
  have un': "undone t es ms cs ?w q" if q: "\<not> coveredByChangeBackup q all" for q
  proof -
    have "\<not> below b q" using q xin by (auto simp: coveredByChangeBackup_def list_ex_iff)
    then show ?thesis using undone_same [OF Cons.prems(2) [OF q]] off_b by blast
  qed
  have re': "restoredIn t (done1 @ [x]) ?w"
    unfolding restoredIn_def
  proof (intro allI impI)
    fix q
    assume c: "coveredByChangeBackup q (done1 @ [x])"
    show "map_of ?w q = map_of t q"
    proof (cases "below b q")
      case False
      then have "coveredByChangeBackup q done1" using c x by (simp add: coveredByChangeBackup_def)
      then show ?thesis using Cons.prems(3) off_b [OF False] by (simp add: restoredIn_def)
    qed (rule at_b)
  qed
  have "all = (done1 @ [x]) @ bs" using Cons.prems(1) by simp
  from Cons.IH [OF this un' re', of ok'] show ?case by (simp add: f)
qed

text \<open>Restoring the modes.\<close>

lemma restoreModes_undone:
  assumes "\<And>p m n0. (p, m) \<in> set ms \<Longrightarrow> map_of t p = Some n0 \<Longrightarrow> chmodNode m n0 = n0"
    and "\<And>q. \<not> cov q \<Longrightarrow> undone t es (xs \<union> fst ` set ms) cs w q"
    and "xs = {}"
    and "\<And>p m. (p, m) \<in> set ms \<Longrightarrow> \<not> cov p"
    and "\<And>q. cov q \<Longrightarrow> map_of w q = map_of t q"
  shows "(\<forall>q. \<not> cov q \<longrightarrow> undone t es {} cs (fst (fold (restoreMode noFaults) ms (w, ok))) q)
    \<and> (\<forall>q. cov q \<longrightarrow> map_of (fst (fold (restoreMode noFaults) ms (w, ok))) q = map_of t q)"
  using assms
proof (induction ms arbitrary: w ok)
  case (Cons x ms)
  obtain p m where x: "x = (p, m)" by fastforce
  have pc: "\<not> cov p" using Cons.prems(4) [of p m] x by simp
  define w1 where "w1 = (case map_of w p of None \<Rightarrow> w | Some n \<Rightarrow> putNode p (chmodNode m n) w)"
  have get: "map_of w1 q = (if q = p then map_option (chmodNode m) (map_of w p) else map_of w q)" for q
    by (auto simp: w1_def map_of_putNode split: option.splits)
  obtain ok' where f: "restoreMode noFaults x (w, ok) = (w1, ok')"
    by (cases "map_of w p") (auto simp: x restoreMode_def w1_def)
  have un: "undone t es (xs \<union> fst ` set ms) cs w1 q" if q: "\<not> cov q" for q
  proof (cases "q = p")
    case True
    note u = Cons.prems(2) [OF pc]
    show ?thesis
      unfolding True
    proof (rule undoneI)
      fix n0
      assume n0: "map_of t p = Some n0"
      obtain n where n: "map_of w p = Some n" "n = n0 \<or> (\<exists>m. n = chmodNode m n0)" using undone_old [OF u n0] by blast
      then have "chmodNode m n = chmodNode m n0" by auto
      also have "\<dots> = n0" using Cons.prems(1) [OF _ n0] x by simp
      finally show "\<exists>n. map_of w1 p = Some n \<and> (n = n0 \<or> p \<in> xs \<union> fst ` set ms \<and> (\<exists>m. n = chmodNode m n0))"
        using n(1) by (simp add: get)
    next
      fix n
      assume "map_of t p = None" "map_of w1 p = Some n"
      moreover from this obtain k where "map_of w p = Some k" "n = chmodNode m k" by (auto simp: get)
      ultimately show "isWDir n \<and> (p \<in> cs \<or> implicitDir es p)" using undone_new [OF u] by simp
    qed
  next
    case False
    have "undone t es (xs \<union> fst ` set ms) cs w q"
      by (rule undoneI) (use undone_old [OF Cons.prems(2) [OF q]] undone_new [OF Cons.prems(2) [OF q]] False x in auto)
    then show ?thesis by (rule undone_same) (simp add: get False)
  qed
  have cv: "map_of w1 q = map_of t q" if q: "cov q" for q
  proof -
    have "q \<noteq> p" using q pc by auto
    then show ?thesis using Cons.prems(5) [OF q] by (simp add: get)
  qed
  have ih: "(\<forall>q. \<not> cov q \<longrightarrow> undone t es {} cs (fst (fold (restoreMode noFaults) ms (w1, ok'))) q)
    \<and> (\<forall>q. cov q \<longrightarrow> map_of (fst (fold (restoreMode noFaults) ms (w1, ok'))) q = map_of t q)"
    by (rule Cons.IH [OF Cons.prems(1) [OF list.set_intros(2)] un Cons.prems(3) Cons.prems(4) [OF list.set_intros(2)] cv])
  then show ?case by (simp add: f)
qed simp

text \<open>Removing the created directories, the deepest first.\<close>

lemma removeCreated_undone:
  assumes "sorted (map (\<lambda>p. - int (length p)) ps)" "treeOk t"
    and "\<And>p. p \<in> set ps \<Longrightarrow> \<not> cov p \<and> map_of t p = None"
    and "\<And>q. \<not> cov q \<Longrightarrow> undone t es {} (set ps) w q"
    and "\<And>q. cov q \<Longrightarrow> map_of w q = map_of t q"
  shows "\<forall>q. map_of (fst (fold (removeCreated noFaults) ps (w, ok))) q = map_of t q
    \<or> map_of t q = None \<and> implicitDir es q \<and> (\<exists>m. map_of (fst (fold (removeCreated noFaults) ps (w, ok))) q = Some (WDir m))"
  using assms
proof (induction ps arbitrary: w ok)
  case Nil
  have "map_of w q = map_of t q \<or> map_of t q = None \<and> implicitDir es q \<and> (\<exists>m. map_of w q = Some (WDir m))" for q
  proof (cases "cov q \<or> map_of w q = None \<or> map_of t q \<noteq> None")
    case True
    then show ?thesis
      using Nil.prems(5) [of q] undone_old [OF Nil.prems(4) [of q]] by (cases "map_of t q") auto
  next
    case False
    then obtain n where n: "map_of w q = Some n" "\<not> cov q" "map_of t q = None" by auto
    then show ?thesis using undone_new [OF Nil.prems(4) [OF n(2)] n(3,1)] by (cases n) (auto simp: isWDir_def)
  qed
  then show ?case by simp
next
  case (Cons p ps)
  have p: "\<not> cov p" "map_of t p = None" using Cons.prems(3) by auto
  have deep: "length q \<le> length p" if "q \<in> set ps" for q using Cons.prems(1) that by auto
  define w1 where "w1 = (if map_of w p = None \<or> hasChildren p w then w else cutTree p w)"
  obtain ok' where f: "removeCreated noFaults p (w, ok) = (w1, ok')"
    by (cases "map_of w p"; cases "hasChildren p w") (auto simp: removeCreated_def w1_def)
  have alone: "map_of w q = None" if h: "\<not> hasChildren p w" "below p q" "q \<noteq> p" for q
    using h by (cases "map_of w q") (auto simp: hasChildren_iff)
  have get: "map_of w1 q = (if q = p \<and> \<not> hasChildren p w then None else map_of w q)" for q
    using alone [of q] by (auto simp: w1_def map_of_cutTree)
  have un: "undone t es {} (set ps) w1 q" if q: "\<not> cov q" for q
  proof (rule undoneI)
    fix n0
    assume n0: "map_of t q = Some n0"
    then have "q \<noteq> p" using p(2) by auto
    then show "\<exists>n. map_of w1 q = Some n \<and> (n = n0 \<or> q \<in> {} \<and> (\<exists>m. n = chmodNode m n0))"
      using undone_old [OF Cons.prems(4) [OF q] n0] by (simp add: get)
  next
    fix n
    assume n: "map_of t q = None" "map_of w1 q = Some n"
    then have wq: "map_of w q = Some n" by (auto simp: get split: if_splits)
    have k: "isWDir n" "q = p \<or> q \<in> set ps \<or> implicitDir es q" using undone_new [OF Cons.prems(4) [OF q] n(1) wq] by auto
    have "implicitDir es p" if qp: "q = p"
    proof -
      have "hasChildren p w" using n(2) qp by (auto simp: get split: if_splits)
      then obtain c m where c: "map_of w c = Some m" "below p c" "c \<noteq> p" by (auto simp: hasChildren_iff)
      have tc: "map_of t c = None"
        using treeOk_ancestor [OF Cons.prems(2) _ c(2)] c(3) p(2) by (cases "map_of t c") auto
      have cc: "\<not> cov c" using Cons.prems(5) [of c] tc c(1) by auto
      have "length p < length c" using c(2,3) by (auto simp: below_length le_less)
      then have "c \<notin> set (p # ps)" using deep [of c] by auto
      then have "implicitDir es c" using undone_new [OF Cons.prems(4) [OF cc] tc c(1)] by auto
      then obtain e where "e \<in> set es" "Kind e = KindDir" "below c (segs e)" "c \<noteq> segs e" by (auto simp: implicitDir_iff)
      moreover from this have "below p (segs e)" using c(2) below_trans by blast
      moreover have "p \<noteq> segs e" using \<open>below c (segs e)\<close> c(2,3) below_antisym by auto
      ultimately show ?thesis by (auto simp: implicitDir_iff)
    qed
    then show "isWDir n \<and> (q \<in> set ps \<or> implicitDir es q)" using k by auto
  qed
  have cv: "map_of w1 q = map_of t q" if "cov q" for q
    using Cons.prems(5) [OF that] that p(1) by (auto simp: get)
  have "\<forall>q. map_of (fst (fold (removeCreated noFaults) ps (w1, ok'))) q = map_of t q
    \<or> map_of t q = None \<and> implicitDir es q \<and> (\<exists>m. map_of (fst (fold (removeCreated noFaults) ps (w1, ok'))) q = Some (WDir m))"
    by (rule Cons.IH [OF _ Cons.prems(2) _ un cv]) (use Cons.prems(1,3) in auto)
  then show ?case by (simp add: f)
qed

text \<open>A rollback of a commit that stopped anywhere.\<close>

lemma rollback_undone:
  assumes inv: "undoInv t es (\<lambda>q. coveredByChangeBackup q (txBackups tx)) tx" and t: "treeOk t"
    and apart: "sorted_wrt apart (txBackups tx)"
    and st: "\<And>b s. (b, s) \<in> set (txBackups tx) \<Longrightarrow>
      b \<noteq> [] \<and> (\<exists>n. map_of t b = Some n) \<and> (\<forall>q. map_of s q = map_of t (b @ q))"
  shows "map_of (fst (rollbackTx noFaults tx)) q = map_of t q
    \<or> map_of t q = None \<and> implicitDir es q \<and> (\<exists>m. map_of (fst (rollbackTx noFaults tx)) q = Some (WDir m))"
proof -
  let ?cov = "\<lambda>q. coveredByChangeBackup q (txBackups tx)"
  let ?ms = "fst ` set (txModes tx)" and ?cs = "set (txCreated tx)"
  obtain w1 ok1 where w1: "fold (removeInstalled noFaults) (txInstalled tx) (txWork tx, True) = (w1, ok1)" by fastforce
  have u1: "undone t es ?ms ?cs w1 q" if "\<not> ?cov q" for q
    by (rule removed_undone [OF inv t]) (use that w1 covered_trans in auto)
  obtain w2 ok2 where w2: "fold (restoreBackup noFaults) (txBackups tx) (w1, ok1) = (w2, ok2)" by fastforce
  have r0: "restoredIn t [] w1" by (simp add: restoredIn_def coveredByChangeBackup_def)
  note r2 = restore_undone [OF t _ apart st u1 r0, of "txBackups tx" ok1, unfolded w2 fst_conv, simplified]
  have u2: "undone t es ({} \<union> ?ms) ?cs w2 q" if "\<not> ?cov q" for q using r2 that by simp
  have c2: "map_of w2 q = map_of t q" if "?cov q" for q using r2 that by (simp add: restoredIn_def)
  obtain w3 ok3 where w3: "fold (restoreMode noFaults) (txModes tx) (w2, ok2) = (w3, ok3)" by fastforce
  have m3: "(\<forall>q. \<not> ?cov q \<longrightarrow> undone t es {} ?cs (fst (fold (restoreMode noFaults) (txModes tx) (w2, ok2))) q)
    \<and> (\<forall>q. ?cov q \<longrightarrow> map_of (fst (fold (restoreMode noFaults) (txModes tx) (w2, ok2))) q = map_of t q)"
    by (rule restoreModes_undone [where cov = ?cov and t = t, OF _ u2 refl _ c2]) (use undoInv_modes [OF inv] in auto)
  let ?ps = "sort_key (\<lambda>p. - int (length p)) (txCreated tx)"
  have "\<forall>q. map_of (fst (fold (removeCreated noFaults) ?ps (w3, ok3))) q = map_of t q
    \<or> map_of t q = None \<and> implicitDir es q \<and> (\<exists>m. map_of (fst (fold (removeCreated noFaults) ?ps (w3, ok3))) q = Some (WDir m))"
    by (rule removeCreated_undone [where cov = ?cov, OF _ t]) (use undoInv_created [OF inv] m3 w3 in auto)
  then show ?thesis by (simp add: rollbackTx_def w1 w2 w3)
qed

section \<open>What a successful commit makes of the tree\<close>

definition orNewDir :: "wsNode option \<Rightarrow> bool \<Rightarrow> wsNode option" where
  "orNewDir x c = (case x of Some n \<Rightarrow> Some n | None \<Rightarrow> if c then Some (WDir newDirMode) else None)"

lemma orNewDir_simps [simp]:
  "orNewDir (Some n) c = Some n" "orNewDir None True = Some (WDir newDirMode)" "orNewDir x False = x"
  by (auto simp: orNewDir_def split: option.splits)

lemma orNewDir_twice [simp]: "orNewDir (orNewDir x c) d = orNewDir x (c \<or> d)"
  by (auto simp: orNewDir_def split: option.splits)

definition dirAbove :: "entry list \<Rightarrow> wsPath \<Rightarrow> bool" where
  "dirAbove es q = list_ex (\<lambda>e. Kind e = KindDir \<and> segs e \<noteq> [] \<and> below q (segs e)) es"

definition fileAbove :: "entry list \<Rightarrow> wsPath \<Rightarrow> bool" where
  "fileAbove es q = list_ex (\<lambda>e. Kind e \<noteq> KindDir \<and> below q (segs e)) es"

definition fileAt :: "entry list \<Rightarrow> wsPath \<Rightarrow> bool" where
  "fileAt es q = list_ex (\<lambda>e. Kind e \<noteq> KindDir \<and> segs e = q) es"

definition dirAt :: "entry list \<Rightarrow> wsPath \<Rightarrow> bool" where
  "dirAt es q = list_ex (\<lambda>e. Kind e = KindDir \<and> segs e = q) es"

lemma above_simps [simp]:
  "\<not> dirAbove [] q" "\<not> fileAbove [] q" "\<not> fileAt [] q" "\<not> dirAt [] q"
  "dirAbove (e # es) q \<longleftrightarrow> (Kind e = KindDir \<and> segs e \<noteq> [] \<and> below q (segs e)) \<or> dirAbove es q"
  "fileAbove (e # es) q \<longleftrightarrow> (Kind e \<noteq> KindDir \<and> below q (segs e)) \<or> fileAbove es q"
  "fileAt (e # es) q \<longleftrightarrow> (Kind e \<noteq> KindDir \<and> segs e = q) \<or> fileAt es q"
  "dirAt (e # es) q \<longleftrightarrow> (Kind e = KindDir \<and> segs e = q) \<or> dirAt es q"
  by (simp_all add: dirAbove_def fileAbove_def fileAt_def dirAt_def)

lemma makeDirAll_orNewDir:
  assumes "makeDirAll bad p t = (w, Inr u)"
  shows "map_of w q = orNewDir (map_of t q) (below q p)"
  using makeDirAll_get [OF assms, of q] by (cases "map_of t q") (auto simp: orNewDir_def)

lemma dirLoop_step:
  assumes "dirLoop env (e # es) tx = (tx', Inr ())" "Kind e = KindDir" "segs e \<noteq> []"
  shows "\<exists>tx1 w. makeDirAll (aeMkdir env) (segs e) (txWork tx) = (w, Inr ()) \<and> txWork tx1 = w
    \<and> dirLoop env es tx1 = (tx', Inr ())"
proof -
  define rec where "rec = (case lstatPath (segs e) (txWork tx) of
      Inl _ \<Rightarrow> tx\<lparr>txCreated := txCreated tx @ [segs e]\<rparr>
    | Inr n \<Rightarrow> tx\<lparr>txModes := AList.update (segs e) (nodeMode n) (txModes tx)\<rparr>)"
  obtain w mr where mk: "makeDirAll (aeMkdir env) (segs e) (txWork tx) = (w, mr)" by fastforce
  have "mr = Inr () \<and> dirLoop env es (rec\<lparr>txWork := w\<rparr>) = (tx', Inr ())"
    using assms mk unfolding rec_def segs_def
    by (auto simp: Let_def nodeMode_def split: sum.splits fsError.splits)
  then show ?thesis using mk by (intro exI [of _ "rec\<lparr>txWork := w\<rparr>"] exI [of _ w]) simp
qed

lemma dirLoop_get:
  assumes "dirLoop env es tx = (tx', Inr ())"
  shows "map_of (txWork tx') q = orNewDir (map_of (txWork tx) q) (dirAbove es q)"
  using assms
proof (induction es arbitrary: tx)
  case (Cons e es)
  show ?case
  proof (cases "Kind e = KindDir \<and> segs e \<noteq> []")
    case False
    then show ?thesis using Cons.IH [of tx] Cons.prems by (auto simp: segs_def)
  next
    case True
    obtain tx1 w where run: "makeDirAll (aeMkdir env) (segs e) (txWork tx) = (w, Inr ())" "txWork tx1 = w"
        "dirLoop env es tx1 = (tx', Inr ())"
      using dirLoop_step [OF Cons.prems] True by blast
    show ?thesis using Cons.IH [OF run(3)] makeDirAll_orNewDir [OF run(1), of q] run(2) True by simp
  qed
qed simp

lemma dirLoop_dirs:
  assumes "dirLoop env es tx = (tx', Inr ())" "dirAbove es q"
  shows "\<exists>m. map_of (txWork tx') q = Some (WDir m)"
  using assms
proof (induction es arbitrary: tx)
  case (Cons e es)
  show ?case
  proof (cases "Kind e = KindDir \<and> segs e \<noteq> []")
    case False
    then show ?thesis using Cons.IH [of tx] Cons.prems by (auto simp: segs_def)
  next
    case True
    obtain tx1 w where run: "makeDirAll (aeMkdir env) (segs e) (txWork tx) = (w, Inr ())" "txWork tx1 = w"
        "dirLoop env es tx1 = (tx', Inr ())"
      using dirLoop_step [OF Cons.prems(1)] True by blast
    show ?thesis
    proof (cases "dirAbove es q")
      case False
      then have "below q (segs e)" using Cons.prems(2) by simp
      then obtain m where "map_of w q = Some (WDir m)" using makeDirAll_get(2) [OF run(1)] by auto
      then show ?thesis using dirLoop_get [OF run(3), of q] run(2) by simp
    qed (rule Cons.IH [OF run(3)])
  qed
qed simp

lemma entriesOk_Cons: "entriesOk (e # es) \<Longrightarrow> entriesOk es"
  by (simp add: entriesOk_def)

lemma entriesOk_leaf:
  assumes "entriesOk es" "e \<in> set es" "f \<in> set es" "Kind f \<noteq> KindDir" "below (segs f) (segs e)"
  shows "e = f"
proof -
  have "segs f = segs e" using assms unfolding entriesOk_def by blast
  moreover have "distinct (map segs es)" using assms(1) by (simp add: entriesOk_def)
  ultimately show ?thesis using assms(2,3) by (auto simp: distinct_map inj_on_def)
qed

lemma installLoop_step:
  assumes "installLoop env stage (e # es) tx = (tx', Inr ())" "Kind e \<noteq> KindDir"
  shows "\<exists>tx1 w n. makeDirAll (aeMkdir env) (butlast (segs e)) (txWork tx) = (w, Inr ())
    \<and> map_of stage (segs e) = Some n \<and> txWork tx1 = putNode (segs e) n w \<and> installLoop env stage es tx1 = (tx', Inr ())"
proof -
  obtain w mr where mk: "makeDirAll (aeMkdir env) (butlast (segs e)) (txWork tx) = (w, mr)" by fastforce
  define tx1 where "tx1 = tx\<lparr>txCreated := txCreated tx @ missingParents (txWork tx) (properParents (segs e)),
    txWork := putNode (segs e) (the (map_of stage (segs e))) w, txInstalled := txInstalled tx @ [segs e]\<rparr>"
  have "mr = Inr () \<and> map_of stage (segs e) = Some (the (map_of stage (segs e))) \<and> installLoop env stage es tx1 = (tx', Inr ())"
    using assms mk unfolding tx1_def segs_def
    by (auto simp: Let_def split: sum.splits option.splits if_splits)
  then show ?thesis using mk by (intro exI [of _ tx1] exI [of _ w] exI [of _ "the (map_of stage (segs e))"]) (simp add: tx1_def)
qed

lemma installLoop_get:
  assumes "installLoop env stage es tx = (tx', Inr ())" "entriesOk es"
  shows "(fileAt es q \<longrightarrow> map_of (txWork tx') q = map_of stage q)
    \<and> (\<not> fileAt es q \<longrightarrow> map_of (txWork tx') q = orNewDir (map_of (txWork tx) q) (fileAbove es q))"
  using assms
proof (induction es arbitrary: tx)
  case (Cons e es)
  note ok = entriesOk_Cons [OF Cons.prems(2)]
  show ?case
  proof (cases "Kind e = KindDir")
    case True
    then show ?thesis using Cons.IH [OF _ ok, of tx] Cons.prems(1) by simp
  next
    case False
    let ?p = "segs e"
    obtain tx1 w n where run: "makeDirAll (aeMkdir env) (butlast ?p) (txWork tx) = (w, Inr ())"
        "map_of stage ?p = Some n" "txWork tx1 = putNode ?p n w" "installLoop env stage es tx1 = (tx', Inr ())"
      using installLoop_step [OF Cons.prems(1) False] by blast
    note ih = Cons.IH [OF run(4) ok, unfolded run(3)]
    have new: "\<not> fileAt es ?p"
      using Cons.prems(2) by (auto simp: entriesOk_def fileAt_def list_ex_iff image_iff)
    show ?thesis
    proof (cases "q = ?p")
      case True
      then show ?thesis using ih new run(2) False by (simp add: map_of_putNode)
    next
      case qp: False
      have "below q (butlast ?p) \<longleftrightarrow> below q ?p"
        using below_proper [OF _ qp] below_trans [OF _ below_butlast] by blast
      then show ?thesis
        using ih makeDirAll_orNewDir [OF run(1), of q] qp False by (auto simp: map_of_putNode)
    qed
  qed
qed simp

lemma installLoop_staged:
  assumes "installLoop env stage es tx = (tx', Inr ())" "fileAt es q"
  shows "map_of stage q \<noteq> None"
  using assms
proof (induction es arbitrary: tx)
  case (Cons e es)
  show ?case
  proof (cases "Kind e = KindDir")
    case True
    then show ?thesis using Cons by simp
  next
    case False
    then show ?thesis using installLoop_step [OF Cons.prems(1) False] Cons.IH Cons.prems(2) by (cases "segs e = q") auto
  qed
qed simp

definition dirMode :: "entry list \<Rightarrow> wsPath \<Rightarrow> nat" where
  "dirMode es q = (case find (\<lambda>e. segs e = q) es of Some e \<Rightarrow> fileMode (Mode e) defaultDirMode | None \<Rightarrow> 0)"

lemma modeLoop_get:
  assumes "modeLoop env es tx = (tx', Inr ())" "distinct (map segs es)"
  shows "map_of (txWork tx') q =
    (if dirAt es q \<and> q \<noteq> [] then map_option (chmodNode (dirMode es q)) (map_of (txWork tx) q) else map_of (txWork tx) q)"
  using assms
proof (induction es arbitrary: tx)
  case (Cons e es)
  have d: "distinct (map segs es)" "segs e \<notin> segs ` set es" using Cons.prems(2) by auto
  have nd: "\<not> dirAt es (segs e)" using d(2) by (auto simp: dirAt_def list_ex_iff image_iff)
  show ?case
  proof (cases "Kind e = KindDir \<and> segs e \<noteq> []")
    case False
    have "dirMode (e # es) q = dirMode es q" if "dirAt es q" using nd that by (auto simp: dirMode_def)
    then show ?thesis using False Cons.IH [OF _ d(1), of tx] Cons.prems(1) by (auto simp: segs_def)
  next
    case True
    obtain n where n: "map_of (txWork tx) (segs e) = Some n"
        "modeLoop env es (tx\<lparr>txWork := putNode (segs e) (chmodNode (fileMode (Mode e) defaultDirMode) n) (txWork tx)\<rparr>) = (tx', Inr ())"
      using Cons.prems(1) True by (auto simp: segs_def Let_def split: option.splits if_splits)
    note ih = Cons.IH [OF n(2) d(1)]
    show ?thesis
    proof (cases "q = segs e")
      case q: True
      then show ?thesis using ih True n(1) nd by (simp add: map_of_putNode dirMode_def)
    next
      case False
      then have "dirMode (e # es) q = dirMode es q" by (auto simp: dirMode_def)
      then show ?thesis using ih False by (simp add: map_of_putNode)
    qed
  qed
qed simp

section \<open>Applying a change set\<close>

lemma txSteps_failed: "foldl (\<lambda>(tx, r) s. case r of Inl e \<Rightarrow> (tx, Inl e) | Inr _ \<Rightarrow> s tx) (tx, Inl e) ss = (tx, Inl e)"
  by (induction ss) auto

lemma txSteps_simps [simp]:
  "txSteps [] tx = (tx, Inr ())"
  "txSteps (s # ss) tx = (case s tx of (tx1, Inl e) \<Rightarrow> (tx1, Inl e) | (tx1, Inr _) \<Rightarrow> txSteps ss tx1)"
proof -
  show "txSteps (s # ss) tx = (case s tx of (tx1, Inl e) \<Rightarrow> (tx1, Inl e) | (tx1, Inr _) \<Rightarrow> txSteps ss tx1)"
    by (cases "s tx") (auto simp: txSteps_def txSteps_failed split: sum.splits)
qed (simp add: txSteps_def)

definition startTx :: "wsTree \<Rightarrow> applyTx" where
  "startTx t = \<lparr>txWork = t, txBackups = [], txCreated = [], txInstalled = [], txModes = []\<rparr>"

definition orderOk :: "(applyTargets \<Rightarrow> wsPath list) \<Rightarrow> entry list \<Rightarrow> string list \<Rightarrow> bool" where
  "orderOk order es ds \<longleftrightarrow>
     set (order (commitTargets es ds)) = (segs ` set es \<union> pathSegs ` set ds) - {[]}
     \<and> sorted (map length (order (commitTargets es ds)))"

definition removedBy :: "(applyTargets \<Rightarrow> wsPath list) \<Rightarrow> entry list \<Rightarrow> string list \<Rightarrow> wsTree \<Rightarrow> wsPath \<Rightarrow> bool" where
  "removedBy order es ds t q = removedPath (commitTargets es ds) (order (commitTargets es ds)) t q"

text \<open>
  The directory paths of a change set (its directories and every parent of an entry) stay
  clear of the nodes that are moved away.
\<close>

definition keepsDirs :: "(applyTargets \<Rightarrow> wsPath list) \<Rightarrow> entry list \<Rightarrow> string list \<Rightarrow> wsTree \<Rightarrow> bool" where
  "keepsDirs order es ds t =
     list_all (\<lambda>e. list_all (\<lambda>q. \<not> removedBy order es ds t q)
       ((if Kind e = KindDir \<and> segs e \<noteq> [] then [segs e] else []) @ properParents (segs e))) es"

lemma start_backupInv: "treeOk t \<Longrightarrow> backupInv t targets [] (startTx t)"
  by (simp add: backupInv_def startTx_def coveredByChangeBackup_def removedPath_def)

lemma commitTx_undo:
  assumes es: "entriesOk es" and ord: "orderOk order es ds" and t: "treeOk t" and keep: "keepsDirs order es ds t"
    and run: "commitTx env order stage es ds (startTx t) = (tx, r)"
  shows "undoInv t es (\<lambda>q. coveredByChangeBackup q (txBackups tx)) tx \<and> sorted_wrt apart (txBackups tx)
    \<and> (\<forall>(b, s) \<in> set (txBackups tx). b \<noteq> [] \<and> (\<exists>n. map_of t b = Some n) \<and> (\<forall>q. map_of s q = map_of t (b @ q)))"
proof -
  let ?T = "commitTargets es ds"
  obtain tx1 r1 where b: "backupLoop env ?T (order ?T) (startTx t) = (tx1, r1)" by fastforce
  have "[] \<notin> set (order ?T)" "sorted (map length ([] @ order ?T))" using ord by (auto simp: orderOk_def)
  from backupLoop_inv [OF b start_backupInv [OF t] this(2,1)] obtain ds1 where
    inv: "backupInv t ?T ds1 tx1" "set ds1 \<subseteq> set (order ?T)" "r1 = Inr () \<Longrightarrow> ds1 = order ?T" by auto
  let ?cov = "\<lambda>q. coveredByChangeBackup q (txBackups tx1)"
  have cov: "?cov = removedPath ?T ds1 t" using backupInv_covered [OF inv(1)] by auto
  have covq: "?cov q = removedPath ?T ds1 t q" for q by (rule backupInv_covered [OF inv(1)])
  have store: "\<forall>(b, s) \<in> set (txBackups tx1). b \<noteq> [] \<and> (\<exists>n. map_of t b = Some n) \<and> (\<forall>q. map_of s q = map_of t (b @ q))"
  proof (intro ballI, clarify)
    fix b s
    assume "(b, s) \<in> set (txBackups tx1)"
    from backupInv_stored [OF inv(1) this]
    show "b \<noteq> [] \<and> (\<exists>n. map_of t b = Some n) \<and> (\<forall>q. map_of s q = map_of t (b @ q))"
      by (cases "map_of t b") (simp_all add: makesRoomAt_def)
  qed
  have ap: "sorted_wrt apart (txBackups tx1)" using backupInv_rest [OF inv(1)] by simp
  have u1: "undoInv t es ?cov tx1 \<and> unchanged t ?cov tx1" unfolding cov by (rule backupInv_undo [OF inv(1)])
  have "undoInv t es ?cov tx \<and> txBackups tx = txBackups tx1"
  proof (cases r1)
    case (Inl err)
    then show ?thesis using run b u1 by (simp add: commitTx_def Let_def)
  next
    case (Inr u)
    then have all: "ds1 = order ?T" using inv(3) by simp
    have dirs: "\<not> ?cov q"
      if e: "e \<in> set es" "q \<in> set ((if Kind e = KindDir \<and> segs e \<noteq> [] then [segs e] else []) @ properParents (segs e))" for e q
    proof -
      have "list_all (\<lambda>q. \<not> removedBy order es ds t q)
          ((if Kind e = KindDir \<and> segs e \<noteq> [] then [segs e] else []) @ properParents (segs e))"
        using keep e(1) unfolding keepsDirs_def list_all_iff by blast
      then have "\<not> removedBy order es ds t q" using e(2) unfolding list_all_iff by blast
      then show ?thesis by (simp add: covq all removedBy_def)
    qed
    have can: "canUndo t ?cov es"
      unfolding canUndo_def
    proof (intro ballI conjI impI)
      fix e
      assume e: "e \<in> set es"
      show "\<not> ?cov (segs e)" if "Kind e = KindDir" "segs e \<noteq> []"
        using dirs [OF e, of "segs e"] that by simp
      show "\<not> ?cov q" if "q \<in> set (properParents (segs e))" for q
        using dirs [OF e, of q] that by simp
      assume k: "Kind e \<noteq> KindDir"
      show ne: "segs e \<noteq> []" using es e k by (simp add: entriesOk_def)
      have "?T (segs e) = Some (segs e \<in> pathSegs ` set ds, Some (Kind e))"
        using es e unfolding entriesOk_def by (subst commitTargets_get) (simp_all add: find_key)
      then have "makesRoomAt ?T t (segs e)" if "map_of t (segs e) = Some n" for n
        using that k by (simp add: makesRoomAt_def makesRoom_def)
      moreover have "segs e \<in> set (order ?T)" using ord e ne by (auto simp: orderOk_def)
      ultimately show "?cov (segs e) \<or> map_of t (segs e) = None"
        unfolding covq all removedPath_iff by (cases "map_of t (segs e)") auto
    qed
    obtain tx2 r2 where d: "dirLoop env es tx1 = (tx2, r2)" by fastforce
    note u2 = dirLoop_undo [OF d conjunct1 [OF u1] conjunct2 [OF u1] canUndo_dir [OF can] subset_refl]
    show ?thesis
    proof (cases r2)
      case Inl
      then show ?thesis using run b Inr d u2 by (simp add: commitTx_def Let_def)
    next
      case r2: (Inr u2')
      obtain tx3 r3 where i: "installLoop env stage es tx2 = (tx3, r3)" by fastforce
      note u3 = installLoop_undo [OF i conjunct1 [OF u2] can]
      show ?thesis
      proof (cases r3)
        case Inl
        then show ?thesis using run b Inr d r2 i u2 u3 by (simp add: commitTx_def Let_def)
      next
        case r3: (Inr u3')
        obtain tx4 r4 where m: "modeLoop env es tx3 = (tx4, r4)" by fastforce
        have logged: "segs e \<in> set (txCreated tx3) \<or> segs e \<in> fst ` set (txModes tx3)"
          if "e \<in> set es" "Kind e = KindDir" "segs e \<noteq> []" for e
        proof -
          have "segs e \<in> set (txCreated tx2) \<or> segs e \<in> fst ` set (txModes tx2)" using u2 r2 that by simp
          moreover have "set (txCreated tx2) \<subseteq> set (txCreated tx3)" "txModes tx3 = txModes tx2" using u3 by simp_all
          ultimately show ?thesis by auto
        qed
        note u4 = modeLoop_undo [OF m conjunct1 [OF u3] logged]
        have "tx = tx4" using run b Inr d r2 i r3 m by (cases r4) (simp_all add: commitTx_def Let_def)
        moreover have "txBackups tx4 = txBackups tx1"
        proof -
          have "txBackups tx4 = txBackups tx3" by (rule conjunct2 [OF u4])
          also have "\<dots> = txBackups tx2" by (rule conjunct1 [OF conjunct2 [OF u3]])
          also have "\<dots> = txBackups tx1" by (rule conjunct1 [OF conjunct2 [OF conjunct2 [OF u2]]])
          finally show ?thesis .
        qed
        moreover have "undoInv t es ?cov tx4" by (rule conjunct1 [OF u4])
        ultimately show ?thesis by metis
      qed
    qed
  qed
  then show ?thesis using store ap by simp
qed

lemma ApplyChanges_failed:
  assumes clean: "cleanApplyChanges es0 ds0 = Inr (es, ds)" and ord: "orderOk order es ds" and t: "treeOk t"
    and keep: "keepsDirs order es ds t"
    and run: "ApplyChanges sha now env noFaults order es0 ds0 store t = (t', store', Inl err)"
  shows "map_of t' q = map_of t q \<or> map_of t q = None \<and> implicitDir es q \<and> (\<exists>m. map_of t' q = Some (WDir m))"
proof (cases "t' = t")
  case False
  have ne: "\<not> (es = [] \<and> ds = [])" using run clean by (auto simp: ApplyChanges_def)
  then obtain st where st: "store = Some st" using run clean False by (cases store) (auto simp: ApplyChanges_def)
  have tmp: "\<not> aeTemp env" using run clean False st ne by (auto simp: ApplyChanges_def)
  obtain st1 sr where s: "stageChanges sha now env es st = (st1, sr)" by fastforce
  obtain stage where stage: "sr = Inr stage"
    using run clean False st ne tmp s by (cases sr) (auto simp: ApplyChanges_def)
  obtain tx r where c: "commitTx env order stage es ds (startTx t) = (tx, r)" by fastforce
  obtain t2 k where rb: "rollbackTx noFaults tx = (t2, k)" by fastforce
  have t': "t' = fst (rollbackTx noFaults tx)"
    using run clean st ne tmp s stage c [unfolded startTx_def] rb
    by (cases r) (simp_all add: ApplyChanges_def split: if_splits)
  have ok: "entriesOk es" using cleanApplyChanges_ok [OF clean] by simp
  note u = commitTx_undo [OF ok ord t keep c]
  have kept: "b \<noteq> [] \<and> (\<exists>n. map_of t b = Some n) \<and> (\<forall>q. map_of s q = map_of t (b @ q))"
    if "(b, s) \<in> set (txBackups tx)" for b s using conjunct2 [OF conjunct2 [OF u]] that by blast
  show ?thesis unfolding t' by (rule rollback_undone [OF conjunct1 [OF u] t conjunct1 [OF conjunct2 [OF u]] kept])
qed simp

text \<open>The staged nodes.\<close>

definition nodeFits :: "(string \<Rightarrow> string) \<Rightarrow> bool \<Rightarrow> entry \<Rightarrow> wsNode \<Rightarrow> bool" where
  "nodeFits sha ignoreMode e n =
     (case n of
        WFile m c mt \<Rightarrow> Kind e = KindFile \<and> sha c = Hash e \<and> (ignoreMode \<or> m = fileMode (Mode e) defaultFileMode)
      | WDir m \<Rightarrow> Kind e = KindDir \<and> (ignoreMode \<or> m = fileMode (Mode e) defaultDirMode)
      | WLink l \<Rightarrow> Kind e = KindSymlink \<and> l = Linkname e)"

lemma stageChanges_fits:
  assumes "stageChanges sha now env es st = (st', Inr stage)" "storeOk sha st"
    and "distinct (map segs es)" "\<forall>e \<in> set es. Kind e = KindFile \<or> Kind e = KindDir \<or> Kind e = KindSymlink"
  shows "fst ` set stage \<subseteq> segs ` set es
    \<and> (\<forall>e \<in> set es. Kind e \<noteq> KindDir \<longrightarrow> (\<exists>n. map_of stage (segs e) = Some n \<and> nodeFits sha False e n))"
  using assms
proof (induction es arbitrary: st stage)
  case (Cons e es)
  have d: "distinct (map segs es)" "segs e \<notin> segs ` set es" using Cons.prems(3) by auto
  obtain st1 own rest where run: "stageChanges sha now env es st1 = (st', Inr rest)" "stage = own @ rest" "storeOk sha st1"
      "own = [] \<and> Kind e = KindDir \<or> (\<exists>n. own = [(segs e, n)] \<and> nodeFits sha False e n)"
  proof (cases "Kind e = KindFile")
    case True
    obtain st1 mr where m: "MaterializeWithProgress sha now (aeFile env e) (Hash e) (fileMode (Mode e) defaultFileMode) (ModTime e) st = (st1, mr)"
      by fastforce
    obtain n where n: "mr = Inr n" using Cons.prems(1) True m by (cases mr) (auto split: if_splits)
    obtain b mt where v: "verifiedPath sha (Hash e) (-1) st = (st1, Some b)" "n = WFile (fileMode (Mode e) defaultFileMode) b mt"
      using MaterializeWithProgress_node m n by blast
    note f = verifiedPath_facts [OF Cons.prems(2) v(1)]
    obtain rest where r: "stageChanges sha now env es st1 = (st', Inr rest)" "stage = [(segs e, n)] @ rest"
      using Cons.prems(1) True m n by (auto simp: segs_def split: if_splits prod.splits sum.splits)
    show ?thesis by (rule that [OF r]) (use f True v(2) in \<open>auto simp: nodeFits_def\<close>)
  next
    case nf: False
    obtain rest where r: "stageChanges sha now env es st = (st', Inr rest)"
        "stage = (if Kind e = KindSymlink then [(segs e, WLink (Linkname e))] else []) @ rest"
      using Cons.prems(1) nf by (auto simp: segs_def split: if_splits prod.splits sum.splits)
    have "Kind e = KindDir \<or> Kind e = KindSymlink" using Cons.prems(4) nf by auto
    then show ?thesis by (intro that [OF r Cons.prems(2)]) (auto simp: nodeFits_def)
  qed
  have ih: "fst ` set rest \<subseteq> segs ` set es
    \<and> (\<forall>e \<in> set es. Kind e \<noteq> KindDir \<longrightarrow> (\<exists>n. map_of rest (segs e) = Some n \<and> nodeFits sha False e n))"
    by (rule Cons.IH [OF run(1,3) d(1)]) (use Cons.prems(4) in simp)
  have own: "k = segs e" if "k \<in> fst ` set own" for k using run(4) that by auto
  have other: "map_of stage (segs f) = map_of rest (segs f)" if "f \<in> set es" for f
  proof -
    have "segs f \<noteq> segs e" using d(2) that by (metis imageI)
    then have "segs f \<notin> fst ` set own" using own by blast
    then have "map_of own (segs f) = None" by (simp add: map_of_eq_None_iff)
    then show ?thesis by (simp add: run(2) map_add_def)
  qed
  have mine: "\<exists>n. map_of stage (segs e) = Some n \<and> nodeFits sha False e n" if "Kind e \<noteq> KindDir"
  proof -
    obtain n where n: "own = [(segs e, n)]" "nodeFits sha False e n" using run(4) \<open>Kind e \<noteq> KindDir\<close> by auto
    have "segs e \<notin> fst ` set rest" using ih d(2) by auto
    then have "map_of rest (segs e) = None" by (simp add: map_of_eq_None_iff)
    then show ?thesis using n run(2) by simp
  qed
  have "fst ` set stage \<subseteq> segs ` set (e # es)" using ih own run(2) by (simp add: image_Un) blast
  then show ?case using ih mine other by simp
qed simp

text \<open>The tree after a success.\<close>

definition parentAbove :: "entry list \<Rightarrow> wsPath \<Rightarrow> bool" where
  "parentAbove es q = list_ex (\<lambda>e. below q (segs e) \<and> q \<noteq> segs e) es"

lemma commitTx_done:
  assumes es: "entriesOk es" and ord: "orderOk order es ds" and t: "treeOk t"
    and run: "commitTx env order stage es ds (startTx t) = (tx, Inr ())"
  shows "map_of (txWork tx) q =
      (if fileAt es q then map_of stage q
       else let n = orNewDir (if removedBy order es ds t q then None else map_of t q) (dirAbove es q \<or> fileAbove es q) in
         if dirAt es q \<and> q \<noteq> [] then map_option (chmodNode (dirMode es q)) n else n)"
    and "dirAt es q \<Longrightarrow> q \<noteq> [] \<Longrightarrow> \<exists>m. map_of (txWork tx) q = Some (WDir m)"
proof -
  let ?T = "commitTargets es ds"
  obtain tx1 tx2 tx3 where b: "backupLoop env ?T (order ?T) (startTx t) = (tx1, Inr ())"
      and d: "dirLoop env es tx1 = (tx2, Inr ())" and i: "installLoop env stage es tx2 = (tx3, Inr ())"
      and m: "modeLoop env es tx3 = (tx, Inr ())"
    using run by (auto simp: commitTx_def Let_def split: prod.splits sum.splits)
  have "[] \<notin> set (order ?T)" "sorted (map length ([] @ order ?T))" using ord by (auto simp: orderOk_def)
  from backupLoop_inv [OF b start_backupInv [OF t] this(2,1)]
  have inv: "backupInv t ?T (order ?T) tx1" by auto
  have w1: "map_of (txWork tx1) q = (if removedBy order es ds t q then None else map_of t q)" for q
    using backupInv_work [OF inv] by (simp add: removedBy_def)
  have dist: "distinct (map segs es)" using es by (simp add: entriesOk_def)
  note w2 = dirLoop_get [OF d] and w3 = installLoop_get [OF i es] and w4 = modeLoop_get [OF m dist]
  have df: "\<not> (fileAt es q \<and> dirAt es q)" for q
    using dist by (auto simp: fileAt_def dirAt_def list_ex_iff distinct_map inj_on_def)
  show "map_of (txWork tx) q =
      (if fileAt es q then map_of stage q
       else let n = orNewDir (if removedBy order es ds t q then None else map_of t q) (dirAbove es q \<or> fileAbove es q) in
         if dirAt es q \<and> q \<noteq> [] then map_option (chmodNode (dirMode es q)) n else n)"
    using w3 [of q] df [of q] by (auto simp: w4 w2 w1 Let_def)
  show "\<exists>m. map_of (txWork tx) q = Some (WDir m)" if q: "dirAt es q" "q \<noteq> []"
  proof -
    have "dirAbove es q" using q by (auto simp: dirAbove_def dirAt_def list_ex_iff)
    then obtain k where "map_of (txWork tx2) q = Some (WDir k)" using dirLoop_dirs [OF d] by blast
    then have "map_of (txWork tx3) q = Some (WDir k)" using w3 [of q] df [of q] q by auto
    then show ?thesis using q by (simp add: w4 chmodNode_def)
  qed
qed

lemma ApplyChanges_done:
  assumes clean: "cleanApplyChanges es0 ds0 = Inr (es, ds)" and ord: "orderOk order es ds" and t: "treeOk t"
    and sto: "storeOk sha st"
    and run: "ApplyChanges sha now env renv order es0 ds0 (Some st) t = (t', store', Inr ())"
  shows "e \<in> set es \<Longrightarrow> segs e \<noteq> [] \<Longrightarrow> \<exists>n. map_of t' (segs e) = Some n \<and> nodeFits sha False e n"
    and "q \<notin> segs ` set es \<Longrightarrow>
      map_of t' q = orNewDir (if removedBy order es ds t q then None else map_of t q) (parentAbove es q)"
proof -
  have ok: "entriesOk es" using cleanApplyChanges_ok [OF clean] by simp
  have both: "(\<forall>e \<in> set es. segs e \<noteq> [] \<longrightarrow> (\<exists>n. map_of t' (segs e) = Some n \<and> nodeFits sha False e n))
    \<and> (\<forall>q. q \<notin> segs ` set es \<longrightarrow>
        map_of t' q = orNewDir (if removedBy order es ds t q then None else map_of t q) (parentAbove es q))"
  proof (cases "es = [] \<and> ds = []")
    case True
    then have "t' = t" using run clean by (simp add: ApplyChanges_def)
    moreover have "order (commitTargets es ds) = []" using ord True by (simp add: orderOk_def)
    ultimately show ?thesis using True by (simp add: parentAbove_def removedBy_def removedPath_def)
  next
    case ne: False
    have tmp: "\<not> aeTemp env" using run clean ne by (auto simp: ApplyChanges_def)
    obtain st1 sr where s0: "stageChanges sha now env es st = (st1, sr)" by fastforce
    obtain stage where s: "stageChanges sha now env es st = (st1, Inr stage)"
      using run clean ne tmp s0 by (cases sr) (auto simp: ApplyChanges_def)
    obtain tx r where c0: "commitTx env order stage es ds (startTx t) = (tx, r)" by fastforce
    obtain t2 k where rb: "rollbackTx renv tx = (t2, k)" by fastforce
    have c: "commitTx env order stage es ds (startTx t) = (tx, Inr ())" and t': "t' = txWork tx"
      using run clean ne tmp s c0 [unfolded startTx_def] rb c0
      by (cases r; simp add: ApplyChanges_def)+
    have dist: "distinct (map segs es)" "\<forall>e \<in> set es. Kind e = KindFile \<or> Kind e = KindDir \<or> Kind e = KindSymlink"
      using ok by (simp_all add: entriesOk_def)
    note fits = stageChanges_fits [OF s sto dist]
    note get = commitTx_done [OF ok ord t c]
    have fit: "\<exists>n. map_of t' (segs e) = Some n \<and> nodeFits sha False e n" if e: "e \<in> set es" "segs e \<noteq> []" for e
    proof (cases "Kind e = KindDir")
      case False
      then have "fileAt es (segs e)" using e(1) by (auto simp: fileAt_def list_ex_iff)
      then show ?thesis using get(1) [of "segs e"] fits e(1) False t' by simp
    next
      case True
      then have at: "dirAt es (segs e)" using e(1) by (auto simp: dirAt_def list_ex_iff)
      then obtain m where m: "map_of t' (segs e) = Some (WDir m)" using get(2) e(2) t' by blast
      have nf: "\<not> fileAt es (segs e)"
        using dist(1) e(1) True by (auto simp: fileAt_def list_ex_iff distinct_map inj_on_def)
      have "dirMode es (segs e) = fileMode (Mode e) defaultDirMode" using find_key [OF dist(1) e(1)] by (simp add: dirMode_def)
      moreover from m get(1) [of "segs e"] at nf e(2) t' obtain k where "chmodNode (dirMode es (segs e)) k = WDir m"
        by (auto simp: Let_def)
      ultimately have "m = fileMode (Mode e) defaultDirMode" by (cases k) (auto simp: chmodNode_def)
      then show ?thesis using m True by (simp add: nodeFits_def)
    qed
    have other: "map_of t' q = orNewDir (if removedBy order es ds t q then None else map_of t q) (parentAbove es q)"
      if q: "q \<notin> segs ` set es" for q
    proof -
      have "\<not> fileAt es q" "\<not> dirAt es q" using q by (auto simp: fileAt_def dirAt_def list_ex_iff)
      moreover have "dirAbove es q \<or> fileAbove es q \<longleftrightarrow> parentAbove es q"
      proof -
        have "below q (segs e) \<longrightarrow> segs e \<noteq> [] \<and> q \<noteq> segs e" if "e \<in> set es" for e
          using q imageI [OF that, of segs] by (auto simp: below_iff)
        then show ?thesis unfolding dirAbove_def fileAbove_def parentAbove_def list_ex_iff by blast
      qed
      ultimately show ?thesis using get(1) [of q] t' by simp
    qed
    show ?thesis using fit other by blast
  qed
  then show "e \<in> set es \<Longrightarrow> segs e \<noteq> [] \<Longrightarrow> \<exists>n. map_of t' (segs e) = Some n \<and> nodeFits sha False e n"
    and "q \<notin> segs ` set es \<Longrightarrow>
      map_of t' q = orNewDir (if removedBy order es ds t q then None else map_of t q) (parentAbove es q)"
    by blast+
qed

text \<open>The tree of a workspace stays a tree.\<close>

lemma backupLoop_tree:
  assumes "backupLoop env targets ps tx = (tx', r)" "treeOk (txWork tx)" "[] \<notin> set ps"
  shows "treeOk (txWork tx')"
  using assms
  by (induction ps arbitrary: tx)
    (auto simp: treeOk_cut split: sum.splits fsError.splits if_splits prod.splits)

lemma dirLoop_tree:
  assumes "dirLoop env es tx = (tx', r)" "treeOk (txWork tx)"
  shows "treeOk (txWork tx')"
  using assms
proof (induction es arbitrary: tx)
  case (Cons e es)
  then show ?case
    by (auto simp: Let_def split: sum.splits fsError.splits if_splits prod.splits dest: treeOk_makeDirAll) 
qed simp

lemma installLoop_tree:
  assumes "installLoop env stage es tx = (tx', r)" "treeOk (txWork tx)" "\<forall>e \<in> set es. Kind e \<noteq> KindDir \<longrightarrow> segs e \<noteq> []"
  shows "treeOk (txWork tx')"
  using assms
proof (induction es arbitrary: tx)
  case (Cons e es)
  show ?case
  proof (cases "Kind e = KindDir")
    case False
    obtain w mr where mk: "makeDirAll (aeMkdir env) (butlast (segs e)) (txWork tx) = (w, mr)" by fastforce
    have w: "treeOk w" by (rule treeOk_makeDirAll [OF mk Cons.prems(2)])
    have p: "segs e \<noteq> []" using Cons.prems(3) False by simp
    have put: "treeOk (putNode (segs e) n w)" if "mr = Inr ()" "\<not> (\<exists>m. map_of w (segs e) = Some (WDir m))" for n
      using makeDirAll_get(2) [OF mk that(1) below_refl] treeOk_put_leaf [OF w p _ that(2)] by blast
    show ?thesis
      using Cons.prems False mk w Cons.IH put
      by (fastforce simp: Let_def segs_def split: sum.splits if_splits option.splits wsNode.splits)
  qed (use Cons in simp)
qed simp

lemma modeLoop_tree:
  assumes "modeLoop env es tx = (tx', r)" "treeOk (txWork tx)"
  shows "treeOk (txWork tx')"
  using assms
proof (induction es arbitrary: tx)
  case (Cons e es)
  have "treeOk (putNode p (chmodNode m n) (txWork tx))" if "map_of (txWork tx) p = Some n" for p m n
    by (rule treeOk_put_same [OF Cons.prems(2) that]) simp
  then show ?case using Cons by (fastforce simp: Let_def split: if_splits option.splits)
qed simp

lemma ApplyChanges_tree:
  assumes clean: "cleanApplyChanges es0 ds0 = Inr (es, ds)" and ord: "orderOk order es ds" and t: "treeOk t"
    and run: "ApplyChanges sha now env renv order es0 ds0 store t = (t', store', Inr ())"
  shows "treeOk t'"
proof (cases "t' = t")
  case False
  have ok: "entriesOk es" using cleanApplyChanges_ok [OF clean] by simp
  let ?T = "commitTargets es ds" and ?s = "\<lparr>txWork = t, txBackups = [], txCreated = [], txInstalled = [], txModes = []\<rparr>"
  obtain stage tx where c: "commitTx env order stage es ds ?s = (tx, Inr ())" and t': "t' = txWork tx"
    using run clean False by (auto simp: ApplyChanges_def split: if_splits option.splits prod.splits sum.splits)
  obtain tx1 tx2 tx3 where s: "backupLoop env ?T (order ?T) ?s = (tx1, Inr ())" "dirLoop env es tx1 = (tx2, Inr ())"
      "installLoop env stage es tx2 = (tx3, Inr ())" "modeLoop env es tx3 = (tx, Inr ())"
    using c by (auto simp: commitTx_def Let_def split: prod.splits sum.splits)
  have "treeOk (txWork tx1)" by (rule backupLoop_tree [OF s(1)]) (use t ord in \<open>auto simp: orderOk_def\<close>)
  then have "treeOk (txWork tx3)"
    using installLoop_tree [OF s(3) dirLoop_tree [OF s(2)]] ok by (auto simp: entriesOk_def)
  then show ?thesis using modeLoop_tree [OF s(4)] t' by simp
qed (use t in simp)

section \<open>Properties\<close>

definition holdsEntry :: "(string \<Rightarrow> string) \<Rightarrow> bool \<Rightarrow> wsTree \<Rightarrow> entry \<Rightarrow> bool" where
  "holdsEntry sha ignoreMode t e = (case map_of t (segs e) of None \<Rightarrow> False | Some n \<Rightarrow> nodeFits sha ignoreMode e n)"


text \<open>
  C5. A change set that cannot be applied is undone: whatever step fails, once the rollback
  runs without faults every file, link and directory of the workspace is back with its
  content, target and mode, and nothing is left behind except the missing parents of a
  directory entry. This holds when no directory the change set needs (the path of a directory
  entry, or a parent of an entry) takes the place of something that is moved away
  (\<open>keepsDirs\<close>); a file replaced by a directory entry is lost (\<open>rollback_loses_replaced_file\<close>).
\<close>

theorem apply_failure_restores:
  assumes "cleanApplyChanges es0 ds0 = Inr (es, ds)" and "orderOk order es ds" and "treeOk t"
    and "keepsDirs order es ds t"
    and "ApplyChanges sha now env noFaults order es0 ds0 store t = (t', store', Inl err)"
  shows "map_of t' q = map_of t q \<or> map_of t q = None \<and> implicitDir es q \<and> (\<exists>m. map_of t' q = Some (WDir m))"
  by (rule ApplyChanges_failed [OF assms])

section \<open>Examples\<close>

definition plainEntry :: "string \<Rightarrow> entryKind \<Rightarrow> entry" where
  "plainEntry p k = \<lparr>Path = p, Kind = k, Hash = [], Size = 0, Mode = 0, ModTime = 0, Linkname = ''x''\<rparr>"

definition demoTree :: wsTree where
  "demoTree = [([], WDir 493), ([''a''], WFile 420 ''old'' 7)]"

definition demoOrder :: "applyTargets \<Rightarrow> wsPath list" where
  "demoOrder targets = filter (\<lambda>p. targets p \<noteq> None) [[''a''], [''a'', ''b'']]"

definition failAt :: "wsPath \<Rightarrow> applyEnv" where
  "failAt p = noFaults\<lparr>aeInstall := \<lambda>q. q = p\<rparr>"

lemma demoTree_ok: "treeOk demoTree"
  unfolding treeOk_def demoTree_def by (auto split: if_splits)


lemma apply_failure_restores_witness:
  "map_of (fst (ApplyChanges (\<lambda>x. x) 0 (failAt [''a'']) noFaults demoOrder [plainEntry ''a'' KindSymlink] [] (Some emptyStore) demoTree))
     [''a''] = Some (WFile 420 ''old'' 7)"
proof -
  let ?es = "[plainEntry ''a'' KindSymlink]"
  let ?r = "ApplyChanges (\<lambda>x. x) 0 (failAt [''a'']) noFaults demoOrder ?es [] (Some emptyStore) demoTree"
  have clean: "cleanApplyChanges ?es [] = Inr (?es, [])" by code_simp
  have ord: "orderOk demoOrder ?es []" by code_simp
  have keep: "keepsDirs demoOrder ?es [] demoTree" by code_simp
  have "snd (snd ?r) = Inl ApplyFS" by code_simp
  then obtain t' s where run: "?r = (t', s, Inl ApplyFS)" by (metis prod.collapse)
  have "map_of demoTree [''a''] = Some (WFile 420 ''old'' 7)" by code_simp
  then show ?thesis using apply_failure_restores [OF clean ord demoTree_ok keep run, of "[''a'']"] run by simp
qed

text \<open>
  Without the last hypothesis the rollback loses data: when a file is replaced by a directory,
  the directory counts as created, and after the file has been moved back \<open>os.Remove\<close> deletes it.
\<close>

lemma rollback_loses_replaced_file:
  "map_of demoTree [''a''] = Some (WFile 420 ''old'' 7)"
  "map_of (fst (ApplyChanges (\<lambda>x. x) 0 (failAt [''a'', ''b'']) noFaults demoOrder
     [plainEntry ''a'' KindDir, plainEntry ''a/b'' KindSymlink] [] (Some emptyStore) demoTree)) [''a''] = None"
  by code_simp+

text \<open>A directory entry below a missing parent leaves that parent behind.\<close>

lemma rollback_leaves_parent:
  "map_of (fst (ApplyChanges (\<lambda>x. x) 0 (failAt [''a'']) noFaults
     (\<lambda>_. [[''a''], [''p'', ''q'']]) [plainEntry ''p/q'' KindDir, plainEntry ''a'' KindSymlink] [] (Some emptyStore) demoTree)) [''p'']
   = Some (WDir newDirMode)"
  by code_simp
end
