(* ===== verification/SyncStep.thy ===== *)
theory SyncStep
  imports Apply
begin

text \<open>
  One step of synchronisation, whichever side sends: the sender compares the manifest the
  receiver is known to have with the manifest it should have (syncfs/manifest.go, Diff) and the
  receiver applies the difference to its tree (syncfs/apply.go).
\<close>

definition entryAt :: "entry list \<Rightarrow> wsPath \<Rightarrow> entry option" where
  "entryAt es q = find (\<lambda>e. segs e = q) es"

text \<open>A tree agrees with a manifest: the same paths, and at each what the entry says.\<close>

definition agrees :: "(string \<Rightarrow> string) \<Rightarrow> bool \<Rightarrow> wsTree \<Rightarrow> entry list \<Rightarrow> bool" where
  "agrees sha ignoreMode t es =
     list_all (\<lambda>q. q = [] \<or> (case entryAt es q of None \<Rightarrow> map_of t q = None | Some e \<Rightarrow> holdsEntry sha ignoreMode t e))
       (map segs es @ map fst t)"

text \<open>
  What the walk of a project gives: clean paths below the root without surrounding space, each
  once, files, directories and links, and with a path the directories it lies in.
\<close>

definition manifestOk :: "entry list \<Rightarrow> bool" where
  "manifestOk es \<longleftrightarrow>
     list_all (\<lambda>e. localApplyPath (Path e) = Inr (Path e) \<and> Path e \<noteq> ''.''
       \<and> list_all (\<lambda>q. case entryAt es q of None \<Rightarrow> False | Some f \<Rightarrow> Kind f = KindDir) (properParents (segs e))) es
     \<and> distinct (map Path es)"

section \<open>Facts\<close>

lemma entryAt_Some: "entryAt es q = Some e \<Longrightarrow> e \<in> set es \<and> segs e = q"
  by (auto simp: entryAt_def find_Some_iff)

lemma entryAt_None: "entryAt es q = None \<longleftrightarrow> q \<notin> segs ` set es"
  by (auto simp: entryAt_def find_None_iff)

lemma agrees_at:
  assumes "agrees sha im t es" "q \<noteq> []"
  shows "case entryAt es q of None \<Rightarrow> map_of t q = None | Some e \<Rightarrow> holdsEntry sha im t e"
proof (cases "entryAt es q = None \<and> map_of t q = None")
  case False
  then have "q \<in> set (map segs es @ map fst t)"
    using map_of_eq_None_iff [of t q] by (auto simp: entryAt_None)
  then show ?thesis using assms unfolding agrees_def list_all_iff by blast
qed simp

lemma agreesI:
  assumes "\<And>q. q \<noteq> [] \<Longrightarrow> case entryAt es q of None \<Rightarrow> map_of t q = None | Some e \<Rightarrow> holdsEntry sha im t e"
  shows "agrees sha im t es"
  unfolding agrees_def list_all_iff using assms by blast

lemma manifestOk_entry:
  assumes "manifestOk es" "e \<in> set es"
  shows "localApplyPath (Path e) = Inr (Path e)" "cleanLocal (Path e)" "segs e \<noteq> []"
proof -
  show l: "localApplyPath (Path e) = Inr (Path e)" using assms by (simp add: manifestOk_def list_all_iff)
  then show c: "cleanLocal (Path e)" by (rule localApplyPath_clean)
  have "Path e \<noteq> ''.''" using assms by (simp add: manifestOk_def list_all_iff)
  then show "segs e \<noteq> []" using cleanLocal_dot [OF c] by (simp add: segs_def)
qed

lemma manifestOk_parent:
  assumes "manifestOk es" "e \<in> set es" "q \<noteq> []" "q \<noteq> segs e" "below q (segs e)"
  shows "\<exists>f. entryAt es q = Some f \<and> Kind f = KindDir"
proof -
  have "q \<in> set (properParents (segs e))" using assms(3-5) by (simp add: properParents_set)
  then have "case entryAt es q of None \<Rightarrow> False | Some f \<Rightarrow> Kind f = KindDir"
    using assms(1,2) by (simp add: manifestOk_def list_all_iff)
  then show ?thesis by (simp split: option.splits)
qed

lemma manifestOk_path:
  assumes "manifestOk es" "e \<in> set es" "cleanLocal p" "pathSegs p = segs e"
  shows "p = Path e"
  using cleanLocal_eq [OF assms(3) manifestOk_entry(2) [OF assms(1,2)]] assms(4) by (simp add: segs_def)

lemma manifestOk_entryAt:
  assumes "manifestOk es" "e \<in> set es"
  shows "entryAt es (segs e) = Some e"
proof -
  have "inj_on segs (set es)"
  proof (rule inj_onI)
    fix a b
    assume ab: "a \<in> set es" "b \<in> set es" "segs a = segs b"
    have "Path a = Path b"
      using manifestOk_path [OF assms(1) ab(2) manifestOk_entry(2) [OF assms(1) ab(1)]] ab(3) by (simp add: segs_def)
    then show "a = b" using assms(1) ab(1,2) by (auto simp: manifestOk_def distinct_map inj_on_def)
  qed
  moreover have "distinct es" using assms(1) by (simp add: manifestOk_def distinct_map)
  ultimately have "distinct (map segs es)" by (simp add: distinct_map)
  then show ?thesis unfolding entryAt_def by (rule find_key) (rule assms(2))
qed

lemma cleanEntriesLoop_same:
  "cleanEntriesLoop kinds es = Inr (out, kinds') \<Longrightarrow> \<forall>e \<in> set es. localApplyPath (Path e) = Inr (Path e) \<Longrightarrow> out = es"
  by (induction es arbitrary: kinds out) (auto split: if_splits sum.splits)

lemma cleanDeletedLoop_same:
  "cleanDeletedLoop seen ns = Inr out \<Longrightarrow> \<forall>n \<in> set ns. localApplyPath n = Inr n \<and> n \<noteq> ''.'' \<Longrightarrow>
   set out = set ns - seen"
proof (induction ns arbitrary: seen out)
  case (Cons n ns)
  show ?case
  proof (cases "n \<in> seen")
    case True
    then show ?thesis using Cons.IH [of seen out] Cons.prems by auto
  next
    case False
    then obtain out1 where "cleanDeletedLoop (insert n seen) ns = Inr out1" "out = n # out1"
      using Cons.prems by (auto split: if_splits sum.splits)
    then show ?thesis using Cons.IH [of "insert n seen" out1] Cons.prems False by auto
  qed
qed simp

lemma nodeFits_same:
  assumes "nodeFits sha im prev n" "sameEntry prev e im"
  shows "nodeFits sha im e n"
  using assms unfolding nodeFits_def sameEntry_def sameEntryExceptMode_def by (auto split: wsNode.splits)

lemma nodeFits_mode: "nodeFits sha False e n \<Longrightarrow> nodeFits sha im e n"
  unfolding nodeFits_def by (auto split: wsNode.splits)

text \<open>The checks of a change set change nothing in the difference of two manifests.\<close>

lemma diff_entries:
  assumes "Diff ordA ordB before after im = (changed, deleted)" "visits ordA after" "visits ordB before" "manifestOk before"
  shows "set changed \<subseteq> set after" and "d \<in> set deleted \<Longrightarrow> localApplyPath d = Inr d \<and> d \<noteq> ''.'' \<and> cleanLocal d"
proof -
  show "set changed \<subseteq> set after" using Diff_changed(1) [OF assms(1,2)] byPath_Path by auto
  assume "d \<in> set deleted"
  then have "d \<in> Path ` set before" using Diff_deleted(1) [OF assms(1,3)] by simp
  then obtain e where e: "e \<in> set before" "d = Path e" by auto
  then show "localApplyPath d = Inr d \<and> d \<noteq> ''.'' \<and> cleanLocal d"
    using manifestOk_entry(1,2) [OF assms(4) e(1)] assms(4) by (simp add: manifestOk_def list_all_iff)
qed

lemma diff_clean:
  assumes diff: "Diff ordA ordB before after im = (changed, deleted)" "visits ordA after" "visits ordB before"
    and m: "manifestOk before" "manifestOk after" and ord: "orderOk order changed deleted"
    and run: "ApplyChanges sha now env renv order changed deleted store t = (t', st', Inr ())"
  obtains ds where "cleanApplyChanges changed deleted = Inr (changed, ds)" "set ds = set deleted" "orderOk order changed ds"
proof -
  note de = diff_entries [OF diff m(1)]
  obtain es ds where clean: "cleanApplyChanges changed deleted = Inr (es, ds)"
    using run by (cases "cleanApplyChanges changed deleted") (auto simp: ApplyChanges_def)
  then obtain kinds where loops: "cleanEntriesLoop Map.empty changed = Inr (es, kinds)" "cleanDeletedLoop {} deleted = Inr ds"
    by (auto simp: cleanApplyChanges_def split: sum.splits list.splits)
  have es: "es = changed" by (rule cleanEntriesLoop_same [OF loops(1)]) (use de(1) manifestOk_entry(1) [OF m(2)] in auto)
  have ds: "set ds = set deleted" using cleanDeletedLoop_same [OF loops(2)] de(2) by simp
  have "commitTargets changed ds = commitTargets changed deleted"
    unfolding commitTargets_def Let_def by (rule arg_cong [where f = "fold _ _"]) (rule ext, simp add: fold_deleted ds)
  then have "orderOk order changed ds" using ord ds by (simp add: orderOk_def)
  with that clean es ds show thesis by simp
qed

lemma sync_step_tree:
  assumes "Diff ordA ordB before after im = (changed, deleted)" "visits ordA after" "visits ordB before"
    and "manifestOk before" "manifestOk after" and "treeOk t" and "orderOk order changed deleted"
    and run: "ApplyChanges sha now env renv order changed deleted store t = (t', st', Inr ())"
  shows "treeOk t'"
proof -
  obtain ds where "cleanApplyChanges changed deleted = Inr (changed, ds)" "orderOk order changed ds"
    by (rule diff_clean [OF assms(1-5,7) run])
  then show ?thesis using ApplyChanges_tree assms(6) run by blast
qed

lemma sync_step:
  assumes diff: "Diff ordA ordB before after im = (changed, deleted)" "visits ordA after" "visits ordB before"
    and mb: "manifestOk before" and ma: "manifestOk after"
    and tree: "treeOk t" "agrees sha im t before" "storeOk sha st" and ord: "orderOk order changed deleted"
    and run: "ApplyChanges sha now env renv order changed deleted (Some st) t = (t', st', Inr ())"
  shows "agrees sha im t' after"
proof -
  note ch = Diff_changed [OF diff(1,2)] and del = Diff_deleted [OF diff(1,3)]
  note sub = diff_entries(1) [OF diff mb] and delok = diff_entries(2) [OF diff mb]
  obtain ds where clean0: "cleanApplyChanges changed deleted = Inr (changed, ds)" and ds: "set ds = set deleted"
      and ord': "orderOk order changed ds"
    by (rule diff_clean [OF diff mb ma ord run])
  note applied = ApplyChanges_done [OF clean0 ord' tree(1,3) run]
  have dist: "distinct (map segs changed)" using cleanApplyChanges_ok [OF clean0] by (simp add: entriesOk_def)
  note T = commitTargets_get [OF dist, of ds]
  have gone: "p \<notin> segs ` set after" if p: "p \<in> pathSegs ` set ds" for p
  proof
    assume "p \<in> segs ` set after"
    then obtain e d where e: "e \<in> set after" "p = segs e" "d \<in> set deleted" "p = pathSegs d" using p ds by auto
    have "d = Path e" using manifestOk_path [OF ma e(1)] delok [OF e(3)] e(2,4) by simp
    then show False using del(1) e(1,3) by auto
  qed
  show ?thesis
  proof (rule agreesI)
    fix q :: wsPath
    assume q: "q \<noteq> []"
    show "case entryAt after q of None \<Rightarrow> map_of t' q = None | Some e \<Rightarrow> holdsEntry sha im t' e"
    proof (cases "entryAt after q")
      case (Some e)
      note e = entryAt_Some [OF Some]
      have "holdsEntry sha im t' e"
      proof (cases "e \<in> set changed")
        case True
        then show ?thesis using applied(1) [of e] e q nodeFits_mode by (auto simp: holdsEntry_def)
      next
        case False
        have ap: "byPath after (Path e) = Some e"
          using byPath_distinct e ma by (auto simp: manifestOk_def)
        then have "\<not> entryChanged im (byPath before) e" using ch(1) False by auto
        then obtain prev where prev: "byPath before (Path e) = Some prev" "sameEntry prev e im"
          by (auto simp: entryChanged_def split: option.splits)
        then have pb: "prev \<in> set before" "segs prev = q" using byPath_Path [OF prev(1)] e by (auto simp: segs_def)
        have "holdsEntry sha im t prev" using agrees_at [OF tree(2) q] manifestOk_entryAt [OF mb pb(1)] pb(2) by simp
        then obtain n where n: "map_of t q = Some n" "nodeFits sha im prev n"
          using pb(2) by (auto simp: holdsEntry_def split: option.splits)
        have nch: "q \<notin> segs ` set changed"
        proof
          assume "q \<in> segs ` set changed"
          then obtain f where "f \<in> set changed" "segs f = q" by auto
          then have "entryAt after q = Some f" using manifestOk_entryAt [OF ma] sub by auto
          then show False using Some False \<open>f \<in> set changed\<close> by simp
        qed
        have "\<not> removedBy order changed ds t q"
        proof
          assume "removedBy order changed ds t q"
          then obtain p where p: "p \<in> set (order (commitTargets changed ds))" "makesRoomAt (commitTargets changed ds) t p" "below p q"
            by (auto simp: removedBy_def removedPath_iff)
          have pt: "p \<in> segs ` set changed \<union> pathSegs ` set ds" "p \<noteq> []" using p(1) ord' by (auto simp: orderOk_def)
          show False
          proof (cases "p = q")
            case True
            moreover have "q \<in> segs ` set after" using e by auto
            ultimately show False using pt(1) nch gone [of q] by auto
          next
            case pq: False
            obtain f where f: "entryAt after p = Some f" "Kind f = KindDir"
              using manifestOk_parent [OF ma conjunct1 [OF e] pt(2)] pq p(3) e by auto
            then have np: "p \<notin> pathSegs ` set ds" using gone [of p] entryAt_Some [OF f(1)] by auto
            then obtain g where g: "g \<in> set changed" "segs g = p" using pt(1) by auto
            then have "g = f" using manifestOk_entryAt [OF ma] sub f(1) by fastforce
            then have "commitTargets changed ds p = Some (False, Some KindDir)"
              using T [of p] find_key [OF dist g(1)] g(2) np f(2) by simp
            moreover obtain m where "map_of t p = Some (WDir m)" using treeOk_ancestor [OF tree(1) n(1) p(3) pq] by blast
            ultimately show False using p(2) by (simp add: makesRoomAt_def makesRoom_def isWDir_def)
          qed
        qed
        then have "map_of t' q = Some n" using applied(2) [OF nch] n(1) by simp
        then show ?thesis using nodeFits_same [OF n(2) prev(2)] e by (simp add: holdsEntry_def)
      qed
      then show ?thesis using Some by simp
    next
      case None
      then have na: "q \<notin> segs ` set after" by (simp add: entryAt_None)
      then have nch: "q \<notin> segs ` set changed" using sub by auto
      have "\<not> parentAbove changed q"
      proof
        assume "parentAbove changed q"
        then obtain f where "f \<in> set changed" "below q (segs f)" "q \<noteq> segs f" by (auto simp: parentAbove_def list_ex_iff)
        then show False using manifestOk_parent [OF ma _ q, of f] sub None by auto
      qed
      then have get: "map_of t' q = (if removedBy order changed ds t q then None else map_of t q)" using applied(2) [OF nch] by simp
      have "map_of t' q = None"
      proof (cases "map_of t q")
        case (Some n)
        obtain e where "entryAt before q = Some e"
          using agrees_at [OF tree(2) q] Some by (cases "entryAt before q") auto
        note e = entryAt_Some [OF this]
        have "Path e \<notin> Path ` set after"
        proof
          assume "Path e \<in> Path ` set after"
          then have "segs e \<in> segs ` set after" by (auto simp: segs_def)
          then show False using e na by simp
        qed
        then have "Path e \<in> set deleted" using del(1) e by auto
        then have qd: "q \<in> pathSegs ` set ds" using ds e by (auto simp: segs_def)
        have "find (\<lambda>f. segs f = q) changed = None" using nch by (rule find_key_none)
        then have "makesRoomAt (commitTargets changed ds) t q"
          using T [of q] qd Some by (simp add: makesRoomAt_def makesRoom_def)
        moreover have "q \<in> set (order (commitTargets changed ds))" using ord' qd q by (auto simp: orderOk_def)
        ultimately have "removedBy order changed ds t q" by (auto simp: removedBy_def removedPath_iff)
        then show ?thesis using get by simp
      qed (use get in simp)
      then show ?thesis using None by simp
    qed
  qed
qed

section \<open>Properties\<close>


end
