(* ===== verification/Patterns.thy ===== *)
theory Patterns
  imports Entries
begin

text \<open>
  The include and exclude patterns of a mount (syncfs/manifest.go): normalisation,
  matching segment by segment with \<open>**\<close> for any number of them, the sample path that stands
  for a pattern, the resolution of a mount below the root, and which sync-back patterns a
  set of mounts covers. \<open>path.Match\<close> of the standard library is written out first.
\<close>

section \<open>path.Match\<close>

text \<open>One escaped or plain rune of a class; \<open>None\<close> is \<open>ErrBadPattern\<close>.\<close>

definition getEsc :: "string \<Rightarrow> (nat \<times> string) option" where
  "getEsc chunk0 =
     (if chunk0 = [] \<or> hd chunk0 = CHR ''-'' \<or> hd chunk0 = CHR '']'' then None
      else
        (let chunk = (if hd chunk0 = CHR 0x5C then tl chunk0 else chunk0) in
         if chunk = [] then None
         else
           (let (r, n) = decodeRune chunk in
            if r = runeError \<and> n = 1 then None
            else if drop n chunk = [] then None
            else Some (r, drop n chunk))))"

text \<open>
  The ranges of a class up to its closing bracket: whether \<open>r\<close> lies in one, and the rest of
  the pattern. \<open>fuel\<close> bounds the ranges; each takes a byte of the pattern at least.
\<close>

fun classRanges :: "nat \<Rightarrow> nat \<Rightarrow> nat \<Rightarrow> bool \<Rightarrow> string \<Rightarrow> (bool \<times> string) option" where
  "classRanges 0 r nrange hit chunk = None"
| "classRanges (Suc fuel) r nrange hit chunk =
     (if chunk \<noteq> [] \<and> hd chunk = CHR '']'' \<and> 0 < nrange then Some (hit, tl chunk)
      else
        (case getEsc chunk of
           None \<Rightarrow> None
         | Some (lo, chunk1) \<Rightarrow>
             (if hd chunk1 = CHR ''-'' then
                (case getEsc (tl chunk1) of
                   None \<Rightarrow> None
                 | Some (hi, chunk2) \<Rightarrow>
                     classRanges fuel r (nrange + 1) (hit \<or> (lo \<le> r \<and> r \<le> hi)) chunk2)
              else classRanges fuel r (nrange + 1) (hit \<or> r = lo) chunk1)))"

definition classMatch :: "nat \<Rightarrow> string \<Rightarrow> (bool \<times> string) option" where
  "classMatch r chunk =
     (let negated = (chunk \<noteq> [] \<and> hd chunk = CHR ''^'');
          body = (if negated then tl chunk else chunk) in
      case classRanges (Suc (length body)) r 0 False body of
        None \<Rightarrow> None
      | Some (hit, rest) \<Rightarrow> Some (hit \<noteq> negated, rest))"

text \<open>
  \<open>matched \<and> err = nil\<close>. A star takes any bytes but a slash; the search of the standard
  library for the first place where the next chunk matches finds a match when there is one.
\<close>

lemma decodeRune_pos: "s \<noteq> [] \<Longrightarrow> 0 < snd (decodeRune s)"
  by (cases s) (auto simp: decodeRune.simps orBad_def split: option.splits)

lemma getEsc_shorter:
  assumes "getEsc chunk = Some (r, rest)"
  shows "length rest < length chunk"
proof -
  from assms obtain c where c: "c \<noteq> []" "length c \<le> length chunk"
    "rest = drop (snd (decodeRune c)) c"
    by (auto simp: getEsc_def Let_def split: if_splits prod.splits)
  then show ?thesis using decodeRune_pos [OF c(1)] by (cases c) auto
qed

lemma classRanges_shorter:
  "classRanges fuel r n hit chunk = Some (b, rest) \<Longrightarrow> length rest < length chunk"
proof (induction fuel r n hit chunk rule: classRanges.induct)
  case (2 fuel r n hit chunk)
  show ?case
  proof (cases "chunk \<noteq> [] \<and> hd chunk = CHR '']'' \<and> 0 < n")
    case True
    with "2.prems" show ?thesis by (cases chunk) auto
  next
    case False
    with "2.prems" obtain lo chunk1 where g: "getEsc chunk = Some (lo, chunk1)"
      by (auto split: option.splits)
    note s1 = getEsc_shorter [OF g]
    show ?thesis
    proof (cases "hd chunk1 = CHR ''-''")
      case True
      with "2.prems" False g obtain hi chunk2 where g2: "getEsc (tl chunk1) = Some (hi, chunk2)"
        by (auto split: option.splits if_splits)
      have "length chunk2 < length chunk" using s1 getEsc_shorter [OF g2] by simp
      moreover have "length rest < length chunk2"
        using "2.IH"(1) [OF False g refl True g2 refl] "2.prems" False g True g2
        by (auto split: if_splits)
      ultimately show ?thesis by simp
    next
      case nd: False
      have "length rest < length chunk1"
        using "2.IH"(2) [OF False g refl nd] "2.prems" False g nd by (auto split: if_splits)
      with s1 show ?thesis by simp
    qed
  qed
qed simp

lemma classMatch_shorter:
  "classMatch r chunk = Some (b, rest) \<Longrightarrow> length rest < Suc (length chunk)"
  unfolding classMatch_def Let_def
  by (auto simp del: classRanges.simps split: option.splits if_splits
      dest!: classRanges_shorter)

function pathMatch :: "string \<Rightarrow> string \<Rightarrow> bool" where
  "pathMatch [] name = (name = [])"
| "pathMatch (p # ps) name =
     (if p = CHR ''*'' then
        pathMatch ps name \<or>
        (case name of [] \<Rightarrow> False | c # cs \<Rightarrow> c \<noteq> slash \<and> pathMatch (p # ps) cs)
      else if name = [] then False
      else if p = CHR ''?'' then
        hd name \<noteq> slash \<and> pathMatch ps (drop (snd (decodeRune name)) name)
      else if p = CHR ''['' then
        (case classMatch (fst (decodeRune name)) ps of
           Some (True, ps') \<Rightarrow> pathMatch ps' (drop (snd (decodeRune name)) name)
         | _ \<Rightarrow> False)
      else if p = CHR 0x5C then
        (case ps of [] \<Rightarrow> False | q # qs \<Rightarrow> q = hd name \<and> pathMatch qs (tl name))
      else p = hd name \<and> pathMatch ps (tl name))"
  by pat_completeness auto
termination
  by (relation "measure (\<lambda>(p, n). length p + length n)") (auto dest: classMatch_shorter)

declare pathMatch.simps(2) [simp del]

section \<open>Patterns\<close>

definition splitPath :: "string \<Rightarrow> string list" where
  "splitPath v0 =
     (let v = trimRightByte slash (dropWhile (\<lambda>c. c = slash) v0) in
      if v = [] \<or> v = ''.'' then [] else splitOn slash v)"

definition normalizePattern :: "string \<Rightarrow> string" where
  "normalizePattern pattern0 =
     (let pattern = trimSpace pattern0 in
      if pattern = [] then []
      else pathClean (if hasSuffix pattern ''/'' then trimRightByte slash pattern @ ''/**''
                      else pattern))"

function matchSegments :: "string list \<Rightarrow> string list \<Rightarrow> bool" where
  "matchSegments [] candidate = (candidate = [])"
| "matchSegments (p # ps) candidate =
     (if p = ''**'' then
        ps = [] \<or> (\<exists>i \<in> set [0 ..< Suc (length candidate)]. matchSegments ps (drop i candidate))
      else
        (case candidate of
           [] \<Rightarrow> False
         | c # cs \<Rightarrow> pathMatch p c \<and> matchSegments ps cs))"
  by pat_completeness auto
termination
  by (relation "measure (\<lambda>(p, c). length p)") auto

declare matchSegments.simps(2) [simp del]

type_synonym excludeMatcher = "string list list"

definition newExcludeMatcher :: "string list \<Rightarrow> excludeMatcher" where
  "newExcludeMatcher patterns =
     map splitPath (filter (\<lambda>p. p \<noteq> []) (map normalizePattern patterns))"

definition excludeMatch :: "excludeMatcher \<Rightarrow> string \<Rightarrow> string \<Rightarrow> bool" where
  "excludeMatch m relRoot relMount \<longleftrightarrow>
     list_ex (\<lambda>pattern. relRoot \<noteq> ''.'' \<and> matchSegments pattern (splitPath relRoot)
        \<or> relMount \<noteq> ''.'' \<and> matchSegments pattern (splitPath relMount)) m"

definition hasGlob :: "string \<Rightarrow> bool" where "hasGlob pattern = containsAny pattern ''*?[''"

record includeMatcher =
  allPaths :: bool
  literals :: "string list"
  globs :: "string list list"

text \<open>The loop of \<open>newIncludeMatcher\<close> with the matcher built so far.\<close>

fun includeLoop :: "includeMatcher \<Rightarrow> string list \<Rightarrow> includeMatcher" where
  "includeLoop m [] = m"
| "includeLoop m (include # includes) =
     (let raw = trimSpace include in
      if raw = [] then includeLoop m includes
      else if raw = ''.'' \<or> raw = ''/'' then \<lparr>allPaths = True, literals = [], globs = []\<rparr>
      else
        (let normalized = normalizePattern raw in
         if normalized = [] \<or> normalized = ''.'' then \<lparr>allPaths = True, literals = [], globs = []\<rparr>
         else if hasGlob normalized then
           includeLoop (m\<lparr>globs := globs m @ [splitPath normalized]\<rparr>) includes
         else includeLoop (m\<lparr>literals := literals m @ [normalized]\<rparr>) includes))"

definition newIncludeMatcher :: "string list option \<Rightarrow> includeMatcher" where
  "newIncludeMatcher includes =
     (case includes of
        None \<Rightarrow> \<lparr>allPaths = True, literals = [], globs = []\<rparr>
      | Some is \<Rightarrow> includeLoop \<lparr>allPaths = False, literals = [], globs = []\<rparr> is)"

definition includeMatch :: "includeMatcher \<Rightarrow> string \<Rightarrow> bool" where
  "includeMatch m rel0 \<longleftrightarrow>
     allPaths m \<or>
     (let rel = normalizeRel rel0 in
      list_ex (\<lambda>literal. rel = literal \<or> hasPrefix rel (literal @ ''/'')) (literals m)
      \<or> list_ex (\<lambda>pattern. matchSegments pattern (splitPath rel)) (globs m))"

definition FilterEntriesByPath :: "entry list \<Rightarrow> string list option \<Rightarrow> entry list" where
  "FilterEntriesByPath entries includes =
     (let matcher = newIncludeMatcher includes in
      if allPaths matcher then entries else filter (\<lambda>e. includeMatch matcher (Path e)) entries)"

section \<open>Mounts\<close>

record mountSpec =
  mountPath :: string
  mountExclude :: "string list"

datatype mountError = RelFails | EscapesRoot | SyncBackUncovered string

definition resolveMount :: "string \<Rightarrow> string \<Rightarrow> mountError + string" where
  "resolveMount root mp0 =
     (let mp = (if trimSpace mp0 = [] then ''.'' else mp0) in
      if isAbs mp then
        (let clean = pathClean mp in
         case pathRel root clean of
           None \<Rightarrow> Inl RelFails
         | Some rel \<Rightarrow> if hasPrefix rel ''..'' then Inl EscapesRoot else Inr clean)
      else
        (let clean = pathClean mp in
         if \<not> isLocal clean then Inl EscapesRoot else Inr (pathJoin [root, clean])))"

definition joinRel :: "string \<Rightarrow> string \<Rightarrow> string" where
  "joinRel base rel = (if base = ''.'' then rel else if rel = ''.'' then base else pathJoin [base, rel])"

definition relativeUnder :: "string \<Rightarrow> string \<Rightarrow> string option" where
  "relativeUnder base0 abs0 =
     (let base = pathClean base0; abs' = pathClean abs0 in
      if abs' = base then Some ''.''
      else
        (let pre' = (if hasSuffix base ''/'' then base else base @ ''/'') in
         if hasPrefix abs' pre' then Some (normalizeRel (drop (length pre') abs'))
         else map_option normalizeRel (pathRel base abs')))"

definition pathUnderOrEqual :: "string \<Rightarrow> string \<Rightarrow> bool" where
  "pathUnderOrEqual rel0 base0 \<longleftrightarrow>
     (let rel = normalizeRel rel0; base = normalizeRel base0 in
      base = ''.'' \<or> rel = base \<or> hasPrefix rel (base @ ''/''))"

definition relFromMount :: "string \<Rightarrow> string \<Rightarrow> string" where
  "relFromMount mountRelRoot0 rel0 =
     (let rel = normalizeRel rel0; mountRelRoot = normalizeRel mountRelRoot0 in
      if mountRelRoot = ''.'' then rel
      else if rel = mountRelRoot then ''.''
      else if hasPrefix rel (mountRelRoot @ ''/'') then drop (length mountRelRoot + 1) rel
      else rel)"

section \<open>Sync-back patterns\<close>

definition literalPatternPrefix :: "string \<Rightarrow> string" where
  "literalPatternPrefix pattern =
     (case takeWhile (\<lambda>part. \<not> hasGlob part) (splitPath pattern) of
        [] \<Rightarrow> ''.'' | pre' \<Rightarrow> pathJoin pre')"

definition sampleCharClass :: "string \<Rightarrow> char" where
  "sampleCharClass cls0 =
     (let cls = trimPrefix (trimPrefix cls0 ''!'') ''^'' in
      if cls = [] then CHR ''x'' else hd cls)"

function sampleLoop :: "string \<Rightarrow> string" where
  "sampleLoop [] = []"
| "sampleLoop (c # cs) =
     (if c = CHR ''*'' \<or> c = CHR ''?'' then CHR ''x'' # sampleLoop cs
      else if c = CHR ''['' then
        (if CHR '']'' \<in> set cs then
           sampleCharClass (takeWhile (\<lambda>x. x \<noteq> CHR '']'') cs)
             # sampleLoop (tl (dropWhile (\<lambda>x. x \<noteq> CHR '']'') cs))
         else CHR ''x'' # sampleLoop cs)
      else c # sampleLoop cs)"
  by pat_completeness auto
termination
  by (relation "measure length")
    (auto simp: less_Suc_eq_le intro: le_trans [OF diff_le_self length_dropWhile_le])

definition samplePatternSegment :: "string \<Rightarrow> string" where
  "samplePatternSegment pattern =
     (let b = sampleLoop pattern in if b = [] then ''x'' else b)"

definition samplePatternPath :: "string \<Rightarrow> string" where
  "samplePatternPath pattern =
     (case map (\<lambda>part. if part = ''**'' then ''x''
                       else if hasGlob part then samplePatternSegment part else part)
             (splitPath pattern) of
        [] \<Rightarrow> ''.'' | parts \<Rightarrow> pathJoin parts)"

definition mountCovers :: "string \<Rightarrow> string \<Rightarrow> mountSpec \<Rightarrow> bool" where
  "mountCovers root pattern mount \<longleftrightarrow>
     (let base = literalPatternPrefix pattern; sample = samplePatternPath pattern in
      case resolveMount root (mountPath mount) of
        Inl _ \<Rightarrow> False
      | Inr mp \<Rightarrow>
          (case pathRel root mp of
             None \<Rightarrow> False
           | Some rel \<Rightarrow>
               (let mountRelRoot = normalizeRel rel;
                    matcher = newExcludeMatcher (mountExclude mount) in
                pathUnderOrEqual base mountRelRoot
                \<and> \<not> excludeMatch matcher base (relFromMount mountRelRoot base)
                \<and> \<not> excludeMatch matcher sample (relFromMount mountRelRoot sample))))"

definition syncBackPatternEligible :: "string \<Rightarrow> mountSpec list \<Rightarrow> string \<Rightarrow> bool" where
  "syncBackPatternEligible root mounts pattern = list_ex (mountCovers root pattern) mounts"

text \<open>\<open>root\<close> is the absolute root; \<open>filepath.Abs\<close> of the working directory is not modelled.\<close>

definition normalizeBuildInputs :: "string \<Rightarrow> mountSpec list \<Rightarrow> string \<times> mountSpec list" where
  "normalizeBuildInputs root mounts =
     (pathClean root, if mounts = [] then [\<lparr>mountPath = ''.'', mountExclude = []\<rparr>] else mounts)"

fun syncBackLoop :: "string \<Rightarrow> mountSpec list \<Rightarrow> string list \<Rightarrow> mountError + unit" where
  "syncBackLoop root mounts [] = Inr ()"
| "syncBackLoop root mounts (include # includes) =
     (let normalized = normalizePattern include in
      if normalized = [] then syncBackLoop root mounts includes
      else if \<not> syncBackPatternEligible root mounts normalized
        then Inl (SyncBackUncovered include)
      else syncBackLoop root mounts includes)"

definition ValidateSyncBack ::
  "string \<Rightarrow> mountSpec list \<Rightarrow> string list \<Rightarrow> mountError + unit" where
  "ValidateSyncBack root mounts syncBack =
     (if syncBack = [] then Inr ()
      else (case normalizeBuildInputs root mounts of
        (root', mounts') \<Rightarrow> syncBackLoop root' mounts' syncBack))"

section \<open>What the patterns mean\<close>

text \<open>
  A declarative reading of a pattern: a segment matches one segment, \<open>**\<close> any number of
  them.
\<close>

inductive globMatches :: "string list \<Rightarrow> string list \<Rightarrow> bool" where
  nil: "globMatches [] []"
| any: "globMatches ps cs \<Longrightarrow> globMatches (''**'' # ps) (skipped @ cs)"
| seg: "p \<noteq> ''**'' \<Longrightarrow> pathMatch p c \<Longrightarrow> globMatches ps cs \<Longrightarrow> globMatches (p # ps) (c # cs)"

inductive_simps globMatches_Nil: "globMatches [] cs"
inductive_simps globMatches_Cons: "globMatches (p # ps) cs"

lemma matchSegments_stars:
  "matchSegments (''**'' # ps) cs \<longleftrightarrow>
   ps = [] \<or> (\<exists>skipped rest. cs = skipped @ rest \<and> matchSegments ps rest)"
proof -
  have "(\<exists>i \<in> set [0 ..< Suc (length cs)]. matchSegments ps (drop i cs)) \<longleftrightarrow>
      (\<exists>skipped rest. cs = skipped @ rest \<and> matchSegments ps rest)"
  proof
    assume "\<exists>i \<in> set [0 ..< Suc (length cs)]. matchSegments ps (drop i cs)"
    then show "\<exists>skipped rest. cs = skipped @ rest \<and> matchSegments ps rest"
      by (metis append_take_drop_id)
  next
    assume "\<exists>skipped rest. cs = skipped @ rest \<and> matchSegments ps rest"
    then obtain skipped rest where "cs = skipped @ rest" "matchSegments ps rest" by blast
    then show "\<exists>i \<in> set [0 ..< Suc (length cs)]. matchSegments ps (drop i cs)"
      by (intro bexI [of _ "length skipped"]) auto
  qed
  then show ?thesis by (simp add: matchSegments.simps(2))
qed

lemma matchSegments_seg:
  "p \<noteq> ''**'' \<Longrightarrow> matchSegments (p # ps) cs \<longleftrightarrow>
   (\<exists>c cs'. cs = c # cs' \<and> pathMatch p c \<and> matchSegments ps cs')"
  by (auto simp: matchSegments.simps(2) split: list.splits)

lemma matchSegments_globMatches: "matchSegments ps cs \<longleftrightarrow> globMatches ps cs"
proof (induction ps arbitrary: cs)
  case Nil
  then show ?case by (simp add: globMatches_Nil)
next
  case (Cons p ps)
  show ?case
  proof (cases "p = ''**''")
    case True
    have "globMatches (''**'' # ps) cs \<longleftrightarrow> (\<exists>skipped rest. cs = skipped @ rest \<and> globMatches ps rest)"
      by (auto simp: globMatches_Cons)
    moreover have "ps = [] \<Longrightarrow> (\<exists>skipped rest. cs = skipped @ rest \<and> globMatches ps rest)"
      using globMatches.nil by auto
    ultimately show ?thesis using True Cons.IH by (auto simp: matchSegments_stars)
  next
    case False
    then show ?thesis by (auto simp: matchSegments_seg globMatches_Cons Cons.IH)
  qed
qed

definition literalSegment :: "string \<Rightarrow> bool" where
  "literalSegment p \<longleftrightarrow> set p \<inter> {CHR ''*'', CHR ''?'', CHR ''['', CHR 0x5C} = {}"

lemma pathMatch_literal: "literalSegment p \<Longrightarrow> pathMatch p name \<longleftrightarrow> p = name"
proof (induction p arbitrary: name)
  case Nil
  then show ?case by auto
next
  case (Cons c p)
  then show ?case
    by (cases name) (auto simp: literalSegment_def pathMatch.simps(2))
qed

lemma pathMatch_star:
  "pathMatch (CHR ''*'' # p) name \<longleftrightarrow> (\<exists>a b. name = a @ b \<and> slash \<notin> set a \<and> pathMatch p b)"
proof (induction name)
  case Nil
  then show ?case by (simp add: pathMatch.simps(2))
next
  case (Cons c cs)
  have "pathMatch (CHR ''*'' # p) (c # cs) \<longleftrightarrow>
      pathMatch p (c # cs) \<or> c \<noteq> slash \<and> pathMatch (CHR ''*'' # p) cs"
    by (simp add: pathMatch.simps(2))
  also have "\<dots> \<longleftrightarrow> (\<exists>a b. c # cs = a @ b \<and> slash \<notin> set a \<and> pathMatch p b)" (is "?l \<longleftrightarrow> ?r")
  proof
    assume ?l
    then consider "pathMatch p (c # cs)"
      | a b where "c \<noteq> slash" "cs = a @ b" "slash \<notin> set a" "pathMatch p b"
      unfolding Cons.IH by blast
    then show ?r
    proof cases
      case 1
      then show ?thesis by (intro exI [of _ "[]"] exI [of _ "c # cs"]) simp
    next
      case (2 a b)
      then show ?thesis by (intro exI [of _ "c # a"] exI [of _ b]) auto
    qed
  next
    assume ?r
    then obtain a b where "c # cs = a @ b" "slash \<notin> set a" "pathMatch p b" by blast
    then show ?l unfolding Cons.IH by (cases a) auto
  qed
  finally show ?case .
qed

lemma literal_not_stars: "literalSegment p \<Longrightarrow> p \<noteq> ''**''"
  by (auto simp: literalSegment_def)

lemma matchSegments_below:
  "\<forall>d \<in> set ds. literalSegment d \<Longrightarrow> matchSegments (ds @ [''**'']) (ds @ rest)"
proof (induction ds)
  case Nil
  then show ?case by (simp add: matchSegments.simps(2))
next
  case (Cons d ds)
  then show ?case
    by (auto simp: matchSegments_seg literal_not_stars pathMatch_literal)
qed

lemma last_joinOn:
  "xs \<noteq> [] \<Longrightarrow> \<forall>x \<in> set xs. x \<noteq> [] \<Longrightarrow> joinOn c xs \<noteq> [] \<and> last (joinOn c xs) = last (last xs)
     \<and> hd (joinOn c xs) = hd (hd xs)"
  by (induction c xs rule: joinOn.induct) auto

lemma trimRight_last: "s \<noteq> [] \<Longrightarrow> last s \<noteq> c \<Longrightarrow> trimRightByte c (s @ [c]) = s"
  by (cases s rule: rev_cases) (auto simp: trimRightByte_def)

lemma trimRight_id: "s = [] \<or> last s \<noteq> c \<Longrightarrow> trimRightByte c s = s"
  by (cases s rule: rev_cases) (auto simp: trimRightByte_def)

text \<open>A clean relative path splits into its elements, for \<open>Clean\<close> and for the matcher.\<close>

lemma splitPath_join:
  assumes "ss \<noteq> []" and "normalSegs ss"
  shows "splitPath (joinOn slash ss) = ss"
proof -
  have ne: "\<forall>s \<in> set ss. s \<noteq> []" and free: "\<forall>s \<in> set ss. slash \<notin> set s"
    using assms(2) by (auto simp: normalSegs_def normalSeg_def)
  note l = last_joinOn [OF assms(1) ne, of slash]
  have "last ss \<in> set ss" "hd ss \<in> set ss" using assms(1) by auto
  then have "last (last ss) \<noteq> slash" "hd (hd ss) \<noteq> slash"
    using ne free by (metis last_in_set, metis hd_in_set)
  then have "trimRightByte slash (dropWhile (\<lambda>c. c = slash) (joinOn slash ss)) = joinOn slash ss"
    using l by (cases "joinOn slash ss") (auto intro: trimRight_id)
  moreover have "joinOn slash ss \<noteq> ''.''"
  proof
    assume "joinOn slash ss = ''.''"
    then have "splitOn slash (joinOn slash ss) = [''.'']" by simp
    then show False using splitOn_joinOn [OF assms(1) free] assms(2) by (simp add: normalSeg_def)
  qed
  ultimately show ?thesis
    using l splitOn_joinOn [OF assms(1) free] by (simp add: splitPath_def Let_def)
qed

lemma normalizePattern_dir:
  assumes "ds \<noteq> []" "normalSegs ds" "trimmed (joinOn slash ds @ ''/'')"
  shows "normalizePattern (joinOn slash ds @ ''/'') = joinOn slash (ds @ [''**''])"
proof -
  have ne: "\<forall>s \<in> set ds. s \<noteq> []" and free: "\<forall>s \<in> set ds. slash \<notin> set s"
    using assms(2) by (auto simp: normalSegs_def normalSeg_def)
  note l = last_joinOn [OF assms(1) ne, of slash]
  have "last ds \<in> set ds" using assms(1) by simp
  then have "last (last ds) \<noteq> slash" using ne free by (metis last_in_set)
  then have t: "trimRightByte slash (joinOn slash ds @ ''/'') = joinOn slash ds"
    using l by (intro trimRight_last) auto
  have j: "joinOn slash ds @ ''/**'' = joinOn slash (ds @ [''**''])"
    using assms(1) by (simp add: joinOn_snoc)
  have n: "normalSegs (ds @ [''**''])" using assms(2) by (simp add: normalSeg_def)
  then have r: "relForm (ds @ [''**''])" unfolding relForm_def by (intro exI [of _ 0]) simp
  have "pathClean (joinOn slash (ds @ [''**''])) = joinOn slash (ds @ [''**''])"
    using pathSegs_join [OF r] joinOn_not_abs [OF r] by (simp add: pathClean_def)
  then show ?thesis
    using assms(3) t j by (simp add: normalizePattern_def Let_def trimSpace_id hasSuffix_iff)
qed

lemma excludeMatch_dir:
  assumes "ds \<noteq> []" "normalSegs ds" "\<forall>d \<in> set ds. literalSegment d"
    and "trimmed (joinOn slash ds @ ''/'')" "normalSegs rest"
  shows "excludeMatch (newExcludeMatcher [joinOn slash ds @ ''/'']) (joinOn slash (ds @ rest)) relMount"
proof -
  have n: "normalSegs (ds @ [''**''])" "normalSegs (ds @ rest)"
    using assms(2,5) by (simp_all add: normalSeg_def)
  have "newExcludeMatcher [joinOn slash ds @ ''/''] = [ds @ [''**'']]"
    using splitPath_join [OF _ n(1)] last_joinOn [of "ds @ [''**'']" slash] n(1)
    by (auto simp: newExcludeMatcher_def normalizePattern_dir [OF assms(1,2,4)]
        normalSegs_def normalSeg_def)
  moreover have "joinOn slash (ds @ rest) \<noteq> ''.''"
  proof
    assume "joinOn slash (ds @ rest) = ''.''"
    then have "splitPath (joinOn slash (ds @ rest)) = []"
      by (simp add: splitPath_def trimRightByte_def)
    then show False using splitPath_join [OF _ n(2)] assms(1) by simp
  qed
  ultimately show ?thesis
    using splitPath_join [OF _ n(2)] assms(1) matchSegments_below [OF assms(3)]
    by (simp add: excludeMatch_def)
qed

text \<open>Includes that name paths: the filter keeps what is at or below one of them.\<close>

definition plainInclude :: "string \<Rightarrow> bool" where
  "plainInclude i \<longleftrightarrow> trimSpace i = i \<and> normalizePattern i = i \<and> i \<notin> {[], ''.'', ''/''} \<and> \<not> hasGlob i"

lemma includeLoop_plain:
  "\<forall>i \<in> set is. plainInclude i \<Longrightarrow> includeLoop m is = m\<lparr>literals := literals m @ is\<rparr>"
  by (induction "is" arbitrary: m) (simp_all add: plainInclude_def Let_def)

lemma FilterEntries_plain:
  assumes "\<forall>i \<in> set is. plainInclude i"
  shows "FilterEntriesByPath es (Some is) = filter (\<lambda>e. \<exists>i \<in> set is.
    normalizeRel (Path e) = i \<or> hasPrefix (normalizeRel (Path e)) (i @ ''/'')) es"
  using includeLoop_plain [OF assms]
  by (simp add: FilterEntriesByPath_def newIncludeMatcher_def includeMatch_def Let_def list_ex_iff)

section \<open>Mounts stay below the root\<close>

lemma dropCommon_split: "dropCommon bs ts = (b, t) \<Longrightarrow> \<exists>c. bs = c @ b \<and> ts = c @ t"
proof (induction bs ts rule: dropCommon.induct)
  case (1 b' bs t' ts)
  then show ?case by (auto split: if_splits intro: exI [of _ "_ # _"])
qed auto

lemma relSegs_clean: "isAbs p \<Longrightarrow> relSegs (pathClean p) = pathSegs p"
proof -
  assume a: "isAbs p"
  note n = pathSegs_abs [OF a]
  have "isAbs (pathClean p)" using a by simp
  moreover have "pathSegs p \<noteq> [] \<Longrightarrow> joinOn slash (pathSegs p) \<noteq> []"
    using last_joinOn [of "pathSegs p" slash] n by (auto simp: normalSegs_def normalSeg_def)
  moreover have "pathSegs p \<noteq> [] \<Longrightarrow> splitOn slash (joinOn slash (pathSegs p)) = pathSegs p"
    using normalSegs_free [OF n] by (intro splitOn_joinOn) auto
  ultimately show ?thesis
    using a by (cases "pathSegs p = []") (simp_all add: relSegs_def pathClean_def)
qed

lemma joinOn_prefix: "hasPrefix (joinOn c (x # xs)) x"
  by (cases xs) (auto simp: hasPrefix_iff)

lemma pathRel_below:
  assumes "isAbs root" "isAbs p" "pathRel root p = Some rel" "\<not> hasPrefix rel ''..''"
  shows "\<exists>t. pathSegs p = pathSegs root @ t"
proof (cases "pathClean p = pathClean root")
  case True
  then show ?thesis by (metis append_Nil2 pathSegs_pathClean)
next
  case False
  have "pathClean root \<noteq> ''.''" using assms(1) isAbs_pathClean [of root] by (auto simp: isAbs_def)
  moreover obtain b t where d: "dropCommon (pathSegs root) (pathSegs p) = (b, t)" by fastforce
  ultimately have rel: "rel = joinOn slash (replicate (length b) ''..'' @ t)"
    using assms False by (auto simp: pathRel_def Let_def relSegs_clean split: if_splits)
  have "b = []"
  proof (rule ccontr)
    assume "b \<noteq> []"
    then have "rel = joinOn slash (''..'' # (replicate (length b - 1) ''..'' @ t))"
      using rel by (cases b) auto
    then show False using joinOn_prefix assms(4) by simp
  qed
  then show ?thesis using dropCommon_split [OF d] by auto
qed

lemma resolveMount_below:
  assumes "isAbs root" "resolveMount root mp = Inr p"
  shows "isAbs p \<and> (\<exists>t. pathSegs p = pathSegs root @ t)"
proof -
  define m where "m = (if trimSpace mp = [] then ''.'' else mp)"
  show ?thesis
  proof (cases "isAbs m")
    case True
    then obtain rel where r: "pathRel root (pathClean m) = Some rel" "\<not> hasPrefix rel ''..''"
      "p = pathClean m"
      using assms(2) by (auto simp: resolveMount_def Let_def m_def [symmetric]
          split: option.splits if_splits)
    then show ?thesis
      using pathRel_below [OF assms(1) _ r(1,2)] True by auto
  next
    case False
    then have l: "isLocal (pathClean m)" "p = pathJoin [root, pathClean m]"
      using assms(2) by (auto simp: resolveMount_def Let_def m_def [symmetric] split: if_splits)
    have "root \<noteq> []" "isAbs (root @ slash # pathClean m)"
      using assms(1) by (auto simp: isAbs_def hasPrefix_iff)
    then have "isAbs p" unfolding l(2) by (simp add: pathJoin_def)
    then show ?thesis using pathJoin_below [OF assms(1) l(1)] l(2) by auto
  qed
qed

section \<open>Properties\<close>

text \<open>
  C28. The recursive matcher decides the declarative reading of patterns: a pattern matches a
  path exactly when its segments match one to one, a \<open>**\<close> standing for any number of
  segments, none included.
\<close>

theorem pattern_semantics: "matchSegments ps cs \<longleftrightarrow> globMatches ps cs"
  by (rule matchSegments_globMatches)

text \<open>
  An exclude written as a directory \<open>dir/\<close> hides the directory and all that is below
  it, at any depth.
\<close>

theorem excluded_dir_hides_tree:
  assumes "ds \<noteq> []" "normalSegs ds" "\<forall>d \<in> set ds. literalSegment d"
    and "trimmed (joinOn slash ds @ ''/'')" "normalSegs rest"
  shows "excludeMatch (newExcludeMatcher [joinOn slash ds @ ''/'']) (joinOn slash (ds @ rest)) relMount"
  by (rule excludeMatch_dir [OF assms])

text \<open>
  Sync-back patterns without wildcards select exactly the entries at or below one of
  the named paths; \<open>a\<close> never selects \<open>ab\<close>.
\<close>

theorem includes_select_subtrees:
  assumes "\<forall>i \<in> set is. plainInclude i"
  shows "FilterEntriesByPath es (Some is) = filter (\<lambda>e. \<exists>i \<in> set is.
    normalizeRel (Path e) = i \<or> hasPrefix (normalizeRel (Path e)) (i @ ''/'')) es"
  by (rule FilterEntries_plain [OF assms])

text \<open>
  A mount that resolves lies at or below the sync root, whether it was given as a
  relative or an absolute path: no configured mount reads files outside the root.
\<close>

theorem mount_stays_below_root:
  assumes "isAbs root" "resolveMount root mp = Inr p"
  shows "isAbs p \<and> (\<exists>t. pathSegs p = pathSegs root @ t)"
  by (rule resolveMount_below [OF assms])

lemma excluded_dir_hides_tree_witness:
  "excludeMatch (newExcludeMatcher [''a/b/'']) ''a/b/c/d'' ''.''"
proof -
  have "normalSegs [''a'', ''b'']" "\<forall>d \<in> set [''a'', ''b'']. literalSegment d"
    "normalSegs [''c'', ''d'']"
    by (simp_all add: normalSeg_def literalSegment_def)
  moreover have "trimmed (joinOn slash [''a'', ''b''] @ ''/'')" by code_simp
  ultimately have "excludeMatch (newExcludeMatcher [joinOn slash [''a'', ''b''] @ ''/''])
      (joinOn slash ([''a'', ''b''] @ [''c'', ''d''])) ''.''"
    by (intro excluded_dir_hides_tree) simp_all
  then show ?thesis by simp
qed

lemma includes_select_subtrees_witness:
  "FilterEntriesByPath [fileEntry ''out/x'' ''0'' 1, fileEntry ''outer'' ''1'' 1] (Some [''out''])
   = [fileEntry ''out/x'' ''0'' 1]"
proof -
  have "plainInclude ''out''" "normalizeRel ''out/x'' = ''out/x''" "normalizeRel ''outer'' = ''outer''"
    by code_simp+
  with includes_select_subtrees [of "[''out'']"] show ?thesis
    by (simp add: fileEntry_def)
qed

lemma mount_stays_below_root_witness:
  "resolveMount ''/w'' ''src/../lib'' = Inr ''/w/lib'' \<and> (\<exists>t. pathSegs ''/w/lib'' = pathSegs ''/w'' @ t)"
proof -
  have r: "resolveMount ''/w'' ''src/../lib'' = Inr ''/w/lib''" by code_simp
  have "isAbs ''/w''" by (simp add: isAbs_def)
  from mount_stays_below_root [OF this r] r show ?thesis by blast
qed

text \<open>
  An absolute mount directory below the root whose name begins with two dots is refused:
  the check looks for the prefix \<open>..\<close>, not for the element.
\<close>

lemma dotted_mount_refused:
  "resolveMount ''/w'' ''/w/..cache'' = Inl EscapesRoot \<and> resolveMount ''/w'' ''..cache'' = Inr ''/w/..cache''"
  by code_simp

text \<open>The sample of a negated class is a character the class excludes.\<close>

lemma negated_class_sample:
  "samplePatternPath ''log[^a]'' = ''loga'' \<and> \<not> pathMatch ''log[^a]'' ''loga''"
proof
  show "samplePatternPath ''log[^a]'' = ''loga''" by code_simp
  show "\<not> pathMatch ''log[^a]'' ''loga''"
    by (simp add: pathMatch.simps(2) classMatch_def getEsc_def decodeRune_ascii runeError_def)
qed

end
