(* ===== verification/Manifest.thy ===== *)
theory Manifest
  imports Collect SyncStep Patterns
begin

text \<open>
  Building the manifest of a project (syncfs/manifest.go): each mount is walked from its root,
  what its patterns exclude is left out, directories, links and files become entries, and the
  files whose hash is not known from an earlier manifest are hashed. The disk is a finite list
  of nodes under the elements of their absolute paths; it does not change during the walk, and
  no mount lies behind a symbolic link. What fails is the environment's choice.
\<close>

text \<open>\<open>DOther\<close>: sockets, pipes, devices.\<close>

datatype diskNode = DDir nat int | DFile nat string int | DLink nat string int | DOther

type_synonym diskTree = "(string list \<times> diskNode) list"

datatype walkError =
    WalkMount mountError | WalkStat | WalkRel | WalkCancelled | WalkReadDir | WalkInfo | WalkReadlink | WalkHash

text \<open>
  By the elements of a path: whether the context is done when it is visited, and which
  directories, nodes, links and files cannot be read; the order in which the workers answer, and
  whether the context is done at the end.
\<close>

record walkEnv =
  weDone :: "string list \<Rightarrow> bool"
  weNoReadDir :: "string list \<Rightarrow> bool"
  weNoInfo :: "string list \<Rightarrow> bool"
  weNoReadlink :: "string list \<Rightarrow> bool"
  weNoHash :: "string list \<Rightarrow> bool"
  weOrder :: "(string \<times> entry) list \<Rightarrow> (string \<times> entry) list"
  weDoneAtEnd :: bool

record walkState =
  wkEntries :: "(string \<times> entry) list"
  wkSources :: "string \<rightharpoonup> string"
  wkJobs :: "(string \<times> entry) list"

record buildResult =
  bmEntries :: "entry list"
  bmSources :: "string \<rightharpoonup> string"

definition isDDir :: "diskNode \<Rightarrow> bool" where
  "isDDir n = (case n of DDir m t \<Rightarrow> True | _ \<Rightarrow> False)"

section \<open>Entries\<close>

definition pathWithinRoot :: "string \<Rightarrow> string \<Rightarrow> bool" where
  "pathWithinRoot root apath =
     (case pathRel (pathClean root) (pathClean apath) of
        None \<Rightarrow> False
      | Some rel \<Rightarrow> rel = ''.'' \<or> rel \<noteq> ''..'' \<and> \<not> hasPrefix rel ''../'')"

text \<open>\<open>target\<close> is what \<open>os.Readlink\<close> gives. A link out of the root has no portable target.\<close>

definition portableSymlinkTarget :: "string \<Rightarrow> string \<Rightarrow> string \<Rightarrow> walkError + string option" where
  "portableSymlinkTarget root apath target =
     (let linkDir = pathDir apath in
      if isAbs target then
        (let cleanTarget = pathClean target in
         if \<not> pathWithinRoot root cleanTarget then Inr None
         else (case pathRel linkDir cleanTarget of None \<Rightarrow> Inl WalkReadlink | Some rel \<Rightarrow> Inr (Some rel)))
      else
        (let resolved = pathClean (pathJoin [linkDir, target]) in
         if \<not> pathWithinRoot root resolved then Inr None else Inr (Some target)))"

text \<open>\<open>None\<close> is the entry without a kind.\<close>

definition buildEntry ::
  "walkEnv \<Rightarrow> string \<Rightarrow> string list \<Rightarrow> string \<Rightarrow> diskNode \<Rightarrow> walkError + entry option \<times> bool" where
  "buildEntry env root q relRoot n =
     (if weNoInfo env q then Inl WalkInfo
      else case n of
        DLink mode target t \<Rightarrow>
          if weNoReadlink env q then Inl WalkReadlink
          else (case portableSymlinkTarget root (pathOf q) target of
            Inl e \<Rightarrow> Inl e
          | Inr None \<Rightarrow> Inr (None, False)
          | Inr (Some linkname) \<Rightarrow>
              Inr (Some \<lparr>Path = relRoot, Kind = KindSymlink, Hash = [], Size = 0, Mode = mode, ModTime = t, Linkname = linkname\<rparr>, False))
      | DDir mode t \<Rightarrow>
          Inr (Some \<lparr>Path = relRoot, Kind = KindDir, Hash = [], Size = 0, Mode = mode, ModTime = t, Linkname = []\<rparr>, False)
      | DFile mode content t \<Rightarrow>
          Inr (Some \<lparr>Path = relRoot, Kind = KindFile, Hash = [], Size = int (length content), Mode = mode, ModTime = t, Linkname = []\<rparr>, True)
      | DOther \<Rightarrow> Inr (None, False))"

definition previousFileEntries :: "entry list \<Rightarrow> (string \<rightharpoonup> entry)" where
  "previousFileEntries es = byPath (filter (\<lambda>e. Kind e = KindFile \<and> Hash e \<noteq> []) es)"

definition reuseFileHash :: "entry option \<Rightarrow> entry \<Rightarrow> bool" where
  "reuseFileHash previous current =
     (case previous of
        None \<Rightarrow> False
      | Some p \<Rightarrow> Kind p = KindFile \<and> Hash p \<noteq> [] \<and> Size p = Size current \<and> Mode p = Mode current
          \<and> ModTime p \<noteq> 0 \<and> ModTime p = ModTime current)"

definition addSource :: "string \<Rightarrow> string \<Rightarrow> (string \<rightharpoonup> string) \<Rightarrow> (string \<rightharpoonup> string)" where
  "addSource h apath sources = (if sources h = None then sources(h \<mapsto> apath) else sources)"

definition putEntry :: "entry \<Rightarrow> (string \<times> entry) list \<Rightarrow> (string \<times> entry) list" where
  "putEntry e es = AList.update (Path e) e es"

definition reuseCachedFile :: "entry \<Rightarrow> string \<Rightarrow> (string \<rightharpoonup> entry) \<Rightarrow> walkState \<Rightarrow> walkState option" where
  "reuseCachedFile e apath previous st =
     (let prev = previous (Path e) in
      if \<not> reuseFileHash prev e then None
      else let e1 = e\<lparr>Hash := (case prev of None \<Rightarrow> [] | Some p \<Rightarrow> Hash p)\<rparr> in
        Some (st\<lparr>wkEntries := putEntry e1 (wkEntries st), wkSources := addSource (Hash e1) apath (wkSources st)\<rparr>))"

section \<open>The walk\<close>

text \<open>What is not excluded is recorded, unless its path has an entry already.\<close>

definition recordNode ::
  "walkEnv \<Rightarrow> string \<Rightarrow> (string \<rightharpoonup> entry) \<Rightarrow> string \<Rightarrow> string list \<times> diskNode \<Rightarrow> walkState \<Rightarrow> walkError + walkState" where
  "recordNode env root previous relRoot x st =
     (if relRoot = ''.'' then Inr st
      else if map_of (wkEntries st) relRoot \<noteq> None then Inr st
      else (case buildEntry env root (fst x) relRoot (snd x) of
        Inl e \<Rightarrow> Inl e
      | Inr (None, isFile) \<Rightarrow> Inr st
      | Inr (Some e, isFile) \<Rightarrow>
          if isFile then
            (case reuseCachedFile e (pathOf (fst x)) previous st of
               Some st' \<Rightarrow> Inr st'
             | None \<Rightarrow> Inr (st\<lparr>wkJobs := wkJobs st @ [(pathOf (fst x), e)]\<rparr>))
          else Inr (st\<lparr>wkEntries := putEntry e (wkEntries st)\<rparr>)))"

text \<open>The function the walk calls for each node: whether to skip the directory, and the new state.\<close>

definition visitNode ::
  "walkEnv \<Rightarrow> string \<Rightarrow> (string \<rightharpoonup> entry) \<Rightarrow> string \<Rightarrow> string \<Rightarrow> excludeMatcher \<Rightarrow> string list \<times> diskNode \<Rightarrow> walkState \<Rightarrow>
   walkError + bool \<times> walkState" where
  "visitNode env root previous mp mountRelRoot matcher x st =
     (if weDone env (fst x) then Inl WalkCancelled
      else (case relativeUnder mp (pathOf (fst x)) of
        None \<Rightarrow> Inl WalkRel
      | Some relMount \<Rightarrow>
          (let relRoot = joinRel mountRelRoot relMount in
           if excludeMatch matcher relRoot relMount then Inr (isDDir (snd x), st)
           else (case recordNode env root previous relRoot x st of Inl e \<Rightarrow> Inl e | Inr st' \<Rightarrow> Inr (False, st')))))"

text \<open>
  \<open>filepath.WalkDir\<close>: nodes in lexical order, a directory before what is in it; nothing below a
  skipped directory; a directory that cannot be read after its visit is reported to the
  function, which ends the walk.
\<close>

fun walkLoop ::
  "walkEnv \<Rightarrow> (string list \<times> diskNode \<Rightarrow> walkState \<Rightarrow> walkError + bool \<times> walkState) \<Rightarrow> string list option \<Rightarrow>
   diskTree \<Rightarrow> walkState \<Rightarrow> walkError + walkState" where
  "walkLoop env visit skip [] st = Inr st"
| "walkLoop env visit skip (x # xs) st =
     (if (case skip of None \<Rightarrow> False | Some p \<Rightarrow> below p (fst x)) then walkLoop env visit skip xs st
      else (case visit x st of
        Inl e \<Rightarrow> Inl e
      | Inr (skipDir, st') \<Rightarrow>
          if skipDir then walkLoop env visit (Some (fst x)) xs st'
          else if isDDir (snd x) \<and> weNoReadDir env (fst x) then Inl WalkReadDir
          else walkLoop env visit None xs st'))"

definition diskBelow :: "string \<Rightarrow> diskTree \<Rightarrow> diskTree" where
  "diskBelow mp dsk = sort_key fst (filter (\<lambda>x. below (pathSegs mp) (fst x)) dsk)"

definition resolveAndStatMount :: "string \<Rightarrow> string \<Rightarrow> diskTree \<Rightarrow> walkError + string" where
  "resolveAndStatMount root mpath dsk =
     (case resolveMount root mpath of
        Inl e \<Rightarrow> Inl (WalkMount e)
      | Inr resolved \<Rightarrow> if map_of dsk (pathSegs resolved) = None then Inl WalkStat else Inr resolved)"

definition walkMount ::
  "walkEnv \<Rightarrow> string \<Rightarrow> (string \<rightharpoonup> entry) \<Rightarrow> diskTree \<Rightarrow> mountSpec \<Rightarrow> walkState \<Rightarrow> walkError + walkState" where
  "walkMount env root previous dsk mount st =
     (case resolveAndStatMount root (mountPath mount) dsk of
        Inl e \<Rightarrow> Inl e
      | Inr mp \<Rightarrow>
          (case pathRel root mp of
             None \<Rightarrow> Inl WalkRel
           | Some rel \<Rightarrow>
               walkLoop env (visitNode env root previous mp (normalizeRel rel) (newExcludeMatcher (mountExclude mount)))
                 None (diskBelow mp dsk) st))"

fun enqueueMountJobs ::
  "walkEnv \<Rightarrow> string \<Rightarrow> (string \<rightharpoonup> entry) \<Rightarrow> diskTree \<Rightarrow> mountSpec list \<Rightarrow> walkState \<Rightarrow> walkError + walkState" where
  "enqueueMountJobs env root previous dsk [] st = Inr st"
| "enqueueMountJobs env root previous dsk (m # ms) st =
     (case walkMount env root previous dsk m st of
        Inl e \<Rightarrow> Inl e
      | Inr st' \<Rightarrow> enqueueMountJobs env root previous dsk ms st')"

section \<open>Hashing\<close>

definition HashFile :: "(string \<Rightarrow> string) \<Rightarrow> walkEnv \<Rightarrow> diskTree \<Rightarrow> string \<Rightarrow> walkError + string" where
  "HashFile sha env dsk apath =
     (if weNoHash env (pathSegs apath) then Inl WalkHash
      else (case map_of dsk (pathSegs apath) of Some (DFile m c t) \<Rightarrow> Inr (sha c) | _ \<Rightarrow> Inl WalkHash))"

text \<open>The answers of the workers, in the order they come; the first error ends the loop.\<close>

fun hashResults ::
  "(string \<Rightarrow> string) \<Rightarrow> walkEnv \<Rightarrow> diskTree \<Rightarrow> (string \<times> entry) list \<Rightarrow> walkState \<Rightarrow> walkError + walkState" where
  "hashResults sha env dsk [] st = Inr st"
| "hashResults sha env dsk ((apath, e) # js) st =
     (case HashFile sha env dsk apath of
        Inl err \<Rightarrow> Inl err
      | Inr h \<Rightarrow>
          hashResults sha env dsk js
            (st\<lparr>wkEntries := putEntry (e\<lparr>Hash := h\<rparr>) (wkEntries st), wkSources := addSource h apath (wkSources st)\<rparr>))"

definition hashManifestFiles ::
  "(string \<Rightarrow> string) \<Rightarrow> walkEnv \<Rightarrow> diskTree \<Rightarrow> walkState \<Rightarrow> walkError + walkState" where
  "hashManifestFiles sha env dsk st =
     (case hashResults sha env dsk (weOrder env (wkJobs st)) st of
        Inl e \<Rightarrow> Inl e
      | Inr st' \<Rightarrow> if weDoneAtEnd env then Inl WalkCancelled else Inr st')"

definition BuildManifest ::
  "(string \<Rightarrow> string) \<Rightarrow> walkEnv \<Rightarrow> string \<Rightarrow> mountSpec list \<Rightarrow> entry list \<Rightarrow> diskTree \<Rightarrow> walkError + buildResult" where
  "BuildManifest sha env root0 mounts0 previousEntries dsk =
     (case normalizeBuildInputs root0 mounts0 of
        (root, mounts) \<Rightarrow>
          (case enqueueMountJobs env root (previousFileEntries previousEntries) dsk mounts
              \<lparr>wkEntries = [], wkSources = Map.empty, wkJobs = []\<rparr> of
             Inl e \<Rightarrow> Inl e
           | Inr st \<Rightarrow>
               (case hashManifestFiles sha env dsk st of
                  Inl e \<Rightarrow> Inl e
                | Inr st' \<Rightarrow> Inr \<lparr>bmEntries = sort_key Path (map snd (wkEntries st')), bmSources = wkSources st'\<rparr>)))"

section \<open>Paths of the walk\<close>

definition relPath :: "string list \<Rightarrow> string" where
  "relPath q = (if q = [] then ''.'' else joinOn slash q)"

lemma normal_relForm: "normalSegs q \<Longrightarrow> relForm q"
  unfolding relForm_def by (metis append_Nil replicate_0)

lemma pathSegs_relPath: "normalSegs q \<Longrightarrow> pathSegs (relPath q) = q"
  by (simp add: relPath_def pathSegs_join normal_relForm) (simp add: pathSegs_def isAbs_def)

lemma relPath_rel: "normalSegs q \<Longrightarrow> \<not> isAbs (relPath q)"
  using joinOn_not_abs(1) [OF normal_relForm] by (auto simp: relPath_def isAbs_def)

lemma pathClean_relPath: "normalSegs q \<Longrightarrow> pathClean (relPath q) = relPath q"
  unfolding pathClean_def by (simp only: relPath_rel pathSegs_relPath if_False) (simp add: relPath_def)

lemma relPath_inj: "normalSegs p \<Longrightarrow> normalSegs q \<Longrightarrow> relPath p = relPath q \<longleftrightarrow> p = q"
  using pathSegs_relPath by metis

lemma relPath_dot: "normalSegs q \<Longrightarrow> relPath q = ''.'' \<longleftrightarrow> q = []"
  using relPath_inj [of q "[]"] by (simp add: relPath_def)

lemma relPath_nonempty: "normalSegs q \<Longrightarrow> relPath q \<noteq> []"
  using joinOn_not_abs(2) [OF normal_relForm] by (auto simp: relPath_def)

lemma normalizeRel_relPath: "normalSegs q \<Longrightarrow> normalizeRel (relPath q) = relPath q"
  by (simp add: normalizeRel_def relPath_nonempty pathClean_relPath)

lemma relPath_local: "normalSegs q \<Longrightarrow> isLocal (relPath q)"
proof -
  assume n: "normalSegs q"
  have "\<not> hasPrefix (relPath q) ''../'' \<and> relPath q \<noteq> ''..''"
  proof (cases q)
    case (Cons s ss)
    have s: "s \<noteq> ''..''" "slash \<notin> set s" using n Cons by (auto simp: normalSeg_def)
    have "hasPrefix (joinOn slash (s # ss)) ''../'' \<Longrightarrow> False"
    proof -
      assume h: "hasPrefix (joinOn slash (s # ss)) ''../''"
      obtain u where "joinOn slash (s # ss) = ''../'' @ u" using h hasPrefix_iff by blast
      moreover have "\<forall>x \<in> set q. slash \<notin> set x" using n normalSegs_free by blast
      ultimately have "splitOn slash (''../'' @ u) = s # ss"
        using Cons splitOn_joinOn [of "s # ss" slash] by simp
      then show False using s by (auto split: list.splits)
    qed
    moreover have "relPath q \<noteq> ''..''" using pathSegs_relPath [OF n] Cons s by (auto simp: pathSegs_def isAbs_def)
    ultimately show ?thesis using Cons by (auto simp: relPath_def)
  qed (simp add: relPath_def)
  then show ?thesis using n by (simp add: isLocal_def relPath_rel relPath_nonempty pathClean_relPath)
qed

lemma pathOf_abs: "isAbs (pathOf q)"
  by (simp add: pathOf_def isAbs_def)

lemma pathSegs_of: "normalSegs q \<Longrightarrow> pathSegs (pathOf q) = q"
  by (simp add: pathOf_def pathSegs_slash_join)

lemma pathClean_abs: "isAbs p \<Longrightarrow> pathClean p = pathOf (pathSegs p)"
  by (simp add: pathClean_def pathOf_def)

lemma joinOn_app: "a \<noteq> [] \<Longrightarrow> b \<noteq> [] \<Longrightarrow> joinOn c (a @ b) = joinOn c a @ c # joinOn c b"
proof (induction a)
  case (Cons x a)
  then show ?case by (cases "a = []") (simp_all add: joinOn_Cons)
qed simp

lemma pathRel_at:
  assumes "isAbs root" "isAbs p" "pathSegs p = pathSegs root @ t"
  shows "pathRel root p = Some (relPath t)"
proof -
  have c: "pathClean root = pathOf (pathSegs root)" "pathClean p = pathOf (pathSegs root @ t)"
    using assms by (simp_all add: pathClean_abs)
  have n: "normalSegs (pathSegs root @ t)" using pathSegs_abs [OF assms(2)] assms(3) by simp
  have eq: "pathOf (pathSegs root @ t) = pathOf (pathSegs root) \<longleftrightarrow> t = []"
    using pathSegs_of [OF n] pathSegs_of [of "pathSegs root"] n by (metis append_self_conv normalSegs_simps(3))
  have d: "dropCommon b (b @ t) = ([], t)" for b
  proof (induction b)
    case Nil
    then show ?case by (cases t) simp_all
  qed simp
  have ne: "pathOf (pathSegs root) \<noteq> ''.''" by (simp add: pathOf_def)
  show ?thesis
    using assms relSegs_clean [OF assms(1)] relSegs_clean [OF assms(2)] eq ne d
    by (simp add: pathRel_def c [symmetric] Let_def relPath_def)
qed

lemma relativeUnder_at:
  assumes "isAbs mp" "normalSegs (pathSegs mp @ r)"
  shows "relativeUnder mp (pathOf (pathSegs mp @ r)) = Some (relPath r)"
proof (cases "r = []")
  case True
  have "pathClean (pathOf (pathSegs mp)) = pathClean mp"
    using assms by (simp add: pathClean_abs pathOf_abs pathSegs_of)
  then show ?thesis using True by (simp add: relativeUnder_def relPath_def)
next
  case False
  let ?ms = "pathSegs mp"
  have c: "pathClean mp = pathOf ?ms" "pathClean (pathOf (?ms @ r)) = pathOf (?ms @ r)"
    using assms by (simp_all add: pathClean_abs pathOf_abs pathSegs_of)
  have ne: "pathOf (?ms @ r) \<noteq> pathOf ?ms"
    using False assms(2) pathSegs_of [of "?ms @ r"] pathSegs_of [of ?ms] by (metis append_self_conv normalSegs_simps(3))
  have r: "normalSegs r" "joinOn slash r = relPath r" using assms(2) False by (simp_all add: relPath_def)
  show ?thesis
  proof (cases "?ms = []")
    case True
    then show ?thesis
      using c ne r by (simp add: relativeUnder_def Let_def pathOf_def hasSuffix_iff normalizeRel_relPath)
  next
    case ms: False
    have m: "\<forall>x \<in> set ?ms. x \<noteq> [] \<and> slash \<notin> set x"
      using assms(2) unfolding normalSegs_simps(3) by (simp add: normalSegs_def normalSeg_def)
    then have "last ?ms \<noteq> []" "slash \<notin> set (last ?ms)" using ms by simp_all
    then have "last (joinOn slash ?ms) \<noteq> slash" "joinOn slash ?ms \<noteq> []"
      using last_joinOn [of ?ms slash] m ms last_in_set [of "last ?ms"] by metis+
    then have "\<not> hasSuffix (pathOf ?ms) ''/''"
      by (auto simp: pathOf_def hasSuffix_iff Cons_eq_append_conv)
    moreover have "pathOf (?ms @ r) = (pathOf ?ms @ ''/'') @ relPath r"
      using joinOn_app [OF ms False, of slash] r by (simp add: pathOf_def)
    moreover have "hasPrefix (pathOf ?ms @ slash # relPath r) (pathOf ?ms @ ''/'')"
      using hasPrefix_append [of "pathOf ?ms @ ''/''" "relPath r"] by simp
    ultimately show ?thesis using c ne r by (simp add: relativeUnder_def Let_def normalizeRel_relPath)
  qed
qed

lemma joinRel_at:
  assumes "normalSegs (t @ r)"
  shows "joinRel (relPath t) (relPath r) = relPath (t @ r)"
proof -
  have n: "normalSegs t" "normalSegs r" using assms by simp_all
  show ?thesis
  proof (cases "t = [] \<or> r = []")
    case True
    then show ?thesis using n relPath_dot [OF n(1)] by (auto simp: joinRel_def) (simp_all add: relPath_def)
  next
    case False
    then have "pathJoin [relPath t, relPath r] = pathClean (relPath (t @ r))"
      using relPath_nonempty [OF n(1)] by (simp add: pathJoin_def relPath_def joinOn_app)
    then show ?thesis using False n pathClean_relPath [OF assms] by (simp add: joinRel_def relPath_dot)
  qed
qed

section \<open>What the walk visits\<close>

lemma lex_between:
  fixes p :: "'a::linorder list"
  shows "below p r \<Longrightarrow> p \<le> q \<Longrightarrow> q \<le> r \<Longrightarrow> below p q"
proof (induction p arbitrary: q r)
  case (Cons x p)
  obtain r' where r: "r = x # r'" "below p r'" using Cons.prems(1) by (cases r) (auto simp: below_def)
  obtain y q' where q: "q = y # q'" using Cons.prems(2) by (cases q) auto
  have "x = y" "p \<le> q'" "q' \<le> r'" using Cons.prems(2,3) r q by auto
  then show ?case using Cons.IH [OF r(2)] q by (simp add: below_def)
qed (simp add: below_def)

lemma below_le:
  fixes p :: "'a::linorder list"
  shows "below p q \<Longrightarrow> p \<le> q"
  unfolding below_iff by (induction p arbitrary: q) auto

fun recordLoop :: "('x \<Rightarrow> 's \<Rightarrow> 'e + 's) \<Rightarrow> 'x list \<Rightarrow> 's \<Rightarrow> 'e + 's" where
  "recordLoop rec [] s = Inr s"
| "recordLoop rec (x # xs) s = (case rec x s of Inl e \<Rightarrow> Inl e | Inr s' \<Rightarrow> recordLoop rec xs s')"

lemma walkLoop_records:
  assumes "walkLoop env visit skip xs st = Inr st'"
    and "\<And>x s b s'. x \<in> set xs \<Longrightarrow> visit x s = Inr (b, s') \<Longrightarrow>
      (if E (fst x) then b = isDDir (snd x) \<and> s' = s else \<not> b \<and> rec x s = Inr s')"
    and "sorted (map fst (ps @ xs))" and "distinct (map fst (ps @ xs))"
    and "\<And>x y. x \<in> set (ps @ xs) \<Longrightarrow> y \<in> set (ps @ xs) \<Longrightarrow> below (fst x) (fst y) \<Longrightarrow> fst x \<noteq> fst y \<Longrightarrow> isDDir (snd x)"
    and "\<And>y. y \<in> set xs \<Longrightarrow> (\<exists>x \<in> set ps. E (fst x) \<and> below (fst x) (fst y)) \<longleftrightarrow> (\<exists>p. skip = Some p \<and> below p (fst y))"
  shows "recordLoop rec (filter (\<lambda>y. \<not> (\<exists>x \<in> set (ps @ xs). E (fst x) \<and> below (fst x) (fst y))) xs) st = Inr st'"
  using assms
proof (induction xs arbitrary: ps skip st)
  case (Cons x xs)
  note ps = Cons.prems(3,4)
  have move: "ps @ x # xs = (ps @ [x]) @ xs" by simp
  have fresh: "fst x \<notin> fst ` set xs" "fst x \<notin> fst ` set ps" using ps(2) by simp_all
  have later: "fst x < fst y" if "y \<in> set xs" for y
  proof -
    have "fst x \<le> fst y" using ps(1) that by (simp add: sorted_append)
    moreover have "fst x \<noteq> fst y" using fresh imageI [OF that, of fst] by metis
    ultimately show ?thesis by simp
  qed
  have sooner: "fst z < fst x" if "z \<in> set ps" for z
  proof -
    have "fst z \<le> fst x" using ps(1) that by (simp add: sorted_append)
    moreover have "fst z \<noteq> fst x" using fresh imageI [OF that, of fst] by metis
    ultimately show ?thesis by simp
  qed
  have ih: "recordLoop rec (filter (\<lambda>y. \<not> (\<exists>x' \<in> set (ps @ x # xs). E (fst x') \<and> below (fst x') (fst y))) xs) s = Inr st'"
    if "walkLoop env visit skip' xs s = Inr st'"
      "\<And>y. y \<in> set xs \<Longrightarrow> (\<exists>z \<in> set (ps @ [x]). E (fst z) \<and> below (fst z) (fst y)) \<longleftrightarrow> (\<exists>p. skip' = Some p \<and> below p (fst y))"
    for skip' s
    unfolding move
  proof (rule Cons.IH [OF that(1) _ _ _ _ that(2)])
    show "if E (fst x) then b = isDDir (snd x) \<and> s' = s else \<not> b \<and> rec x s = Inr s'"
      if "x \<in> set xs" "visit x s = Inr (b, s')" for x s b s'
      using Cons.prems(2) [OF _ that(2)] that(1) by simp
    show "sorted (map fst ((ps @ [x]) @ xs))" "distinct (map fst ((ps @ [x]) @ xs))" using ps by simp_all
    show "isDDir (snd x')" if "x' \<in> set ((ps @ [x]) @ xs)" "y \<in> set ((ps @ [x]) @ xs)" "below (fst x') (fst y)" "fst x' \<noteq> fst y" for x' y
      by (rule Cons.prems(5) [OF _ _ that(3,4)]) (use that(1,2) in simp_all)
  qed
  show ?case
  proof (cases "\<exists>p. skip = Some p \<and> below p (fst x)")
    case True
    then obtain p where p: "skip = Some p" "below p (fst x)" by blast
    then obtain z where z: "z \<in> set ps" "E (fst z)" "below (fst z) (fst x)" using Cons.prems(6) [of x] by auto
    have run: "walkLoop env visit skip xs st = Inr st'" using Cons.prems(1) p by simp
    have "recordLoop rec (filter (\<lambda>y. \<not> (\<exists>x' \<in> set (ps @ x # xs). E (fst x') \<and> below (fst x') (fst y))) xs) st = Inr st'"
    proof (rule ih [OF run])
      fix y assume y: "y \<in> set xs"
      show "(\<exists>z \<in> set (ps @ [x]). E (fst z) \<and> below (fst z) (fst y)) \<longleftrightarrow> (\<exists>p. skip = Some p \<and> below p (fst y))"
        using Cons.prems(6) [of y] y z below_trans [OF z(3)] by auto
    qed
    then show ?thesis using z by auto
  next
    case False
    then have clear: "\<not> (\<exists>z \<in> set ps. E (fst z) \<and> below (fst z) (fst x))" using Cons.prems(6) [of x] by auto
    obtain b s where v: "visit x st = Inr (b, s)"
      using Cons.prems(1) False by (cases "visit x st") (auto split: option.splits)
    note vx = Cons.prems(2) [OF _ v, simplified]
    have none: "z \<in> set ps \<Longrightarrow> E (fst z) \<Longrightarrow> y \<in> set xs \<Longrightarrow> \<not> below (fst z) (fst y)" for z y
      using clear lex_between [of "fst z" "fst y" "fst x"] later [of y] sooner [of z] by (meson less_imp_le)
    have run: "if b then walkLoop env visit (Some (fst x)) xs s = Inr st' else walkLoop env visit None xs s = Inr st'"
      using Cons.prems(1) False v by (auto split: option.splits if_splits)
    show ?thesis
    proof (cases "E (fst x)")
      case True
      have b: "b = isDDir (snd x)" "s = st" using vx True by auto
      have "recordLoop rec (filter (\<lambda>y. \<not> (\<exists>x' \<in> set (ps @ x # xs). E (fst x') \<and> below (fst x') (fst y))) xs) s = Inr st'"
      proof (cases b)
        case True
        show ?thesis by (rule ih [where skip' = "Some (fst x)"]) (use True run none \<open>E (fst x)\<close> in auto)
      next
        case nb: False
        have "\<not> below (fst x) (fst y)" if "y \<in> set xs" for y
          using Cons.prems(5) [of x y] that less_imp_neq [OF later [OF that]] b nb by auto
        then show ?thesis by (intro ih [where skip' = None]) (use nb run none in auto)
      qed
      then show ?thesis using True b by auto
    next
      case False
      have b: "\<not> b" "rec x st = Inr s" using vx False by auto
      have "recordLoop rec (filter (\<lambda>y. \<not> (\<exists>x' \<in> set (ps @ x # xs). E (fst x') \<and> below (fst x') (fst y))) xs) s = Inr st'"
        by (rule ih [where skip' = None]) (use b run none False in auto)
      moreover have "\<not> below (fst z) (fst x)" if "z \<in> set xs" for z
        using below_le [of "fst z" "fst x"] later [OF that] by (meson leD)
      then have "\<not> (\<exists>z \<in> set (ps @ x # xs). E (fst z) \<and> below (fst z) (fst x))"
        using clear False by auto
      ultimately show ?thesis using b by simp
    qed
  qed
qed simp

section \<open>What is recorded\<close>

definition relAt :: "string \<Rightarrow> string list \<Rightarrow> string" where
  "relAt root q = relPath (drop (length (pathSegs root)) q)"

text \<open>The entry of a node, with the hash of its content.\<close>

definition entryFor :: "(string \<Rightarrow> string) \<Rightarrow> string \<Rightarrow> string list \<Rightarrow> diskNode \<Rightarrow> entry option" where
  "entryFor sha root q n =
     (case n of
        DDir m t \<Rightarrow> Some \<lparr>Path = relAt root q, Kind = KindDir, Hash = [], Size = 0, Mode = m, ModTime = t, Linkname = []\<rparr>
      | DFile m c t \<Rightarrow>
          Some \<lparr>Path = relAt root q, Kind = KindFile, Hash = sha c, Size = int (length c), Mode = m, ModTime = t, Linkname = []\<rparr>
      | DLink m l t \<Rightarrow>
          (case portableSymlinkTarget root (pathOf q) l of
             Inr (Some linkname) \<Rightarrow>
               Some \<lparr>Path = relAt root q, Kind = KindSymlink, Hash = [], Size = 0, Mode = m, ModTime = t, Linkname = linkname\<rparr>
           | _ \<Rightarrow> None)
      | DOther \<Rightarrow> None)"

lemma entryFor_path: "entryFor sha root q n = Some e \<Longrightarrow> Path e = relAt root q"
  by (auto simp: entryFor_def split: diskNode.splits sum.splits option.splits)

text \<open>
  The earlier manifest is right about what has not changed: a file with the size, mode and time
  of its earlier entry has the content of that entry.
\<close>

definition previousTrue :: "(string \<Rightarrow> string) \<Rightarrow> string \<Rightarrow> (string \<rightharpoonup> entry) \<Rightarrow> diskTree \<Rightarrow> bool" where
  "previousTrue sha root previous dsk =
     list_all (\<lambda>(q, n). case n of
        DFile m c t \<Rightarrow> \<not> below (pathSegs root) q \<or>
          (case previous (relAt root q) of
             None \<Rightarrow> True
           | Some p \<Rightarrow> Size p = int (length c) \<and> Mode p = m \<and> ModTime p = t \<longrightarrow> Hash p = sha c)
      | _ \<Rightarrow> True) dsk"

definition diskOk :: "diskTree \<Rightarrow> bool" where
  "diskOk dsk \<longleftrightarrow>
     distinct (map fst dsk) \<and> (\<forall>x \<in> set dsk. normalSegs (fst x))
     \<and> (\<forall>x \<in> set dsk. \<forall>y \<in> set dsk. below (fst x) (fst y) \<and> fst x \<noteq> fst y \<longrightarrow> isDDir (snd x))
     \<and> (\<forall>x \<in> set dsk. fst x = [] \<or> butlast (fst x) \<in> fst ` set dsk)"

definition entriesSound :: "(string \<Rightarrow> string) \<Rightarrow> string \<Rightarrow> diskTree \<Rightarrow> string list set \<Rightarrow> walkState \<Rightarrow> bool" where
  "entriesSound sha root dsk S st \<longleftrightarrow>
     (\<forall>p e. map_of (wkEntries st) p = Some e \<longrightarrow>
        (\<exists>q n. q \<in> S \<and> q \<noteq> pathSegs root \<and> map_of dsk q = Some n \<and> p = relAt root q \<and> entryFor sha root q n = Some e))"

definition jobsSound :: "(string \<Rightarrow> string) \<Rightarrow> string \<Rightarrow> diskTree \<Rightarrow> string list set \<Rightarrow> (string \<times> entry) list \<Rightarrow> bool" where
  "jobsSound sha root dsk S js \<longleftrightarrow>
     (\<forall>j \<in> set js. \<exists>q m c t. q \<in> S \<and> q \<noteq> pathSegs root \<and> map_of dsk q = Some (DFile m c t) \<and> fst j = pathOf q
        \<and> entryFor sha root q (DFile m c t) = Some ((snd j)\<lparr>Hash := sha c\<rparr>))"

definition nothingMissed :: "(string \<Rightarrow> string) \<Rightarrow> string \<Rightarrow> diskTree \<Rightarrow> string list set \<Rightarrow> walkState \<Rightarrow> (string \<times> entry) list \<Rightarrow> bool" where
  "nothingMissed sha root dsk S st js \<longleftrightarrow>
     (\<forall>q n e. q \<in> S \<longrightarrow> q \<noteq> pathSegs root \<longrightarrow> map_of dsk q = Some n \<longrightarrow> entryFor sha root q n = Some e \<longrightarrow>
        map_of (wkEntries st) (relAt root q) = Some e \<or> (\<exists>j \<in> set js. Path (snd j) = relAt root q))"

definition sourcesSound :: "(string \<Rightarrow> string) \<Rightarrow> diskTree \<Rightarrow> walkState \<Rightarrow> bool" where
  "sourcesSound sha dsk st \<longleftrightarrow>
     (\<forall>h a. wkSources st h = Some a \<longrightarrow> (\<exists>q m c t. a = pathOf q \<and> map_of dsk q = Some (DFile m c t) \<and> h = sha c))
     \<and> (\<forall>p e. map_of (wkEntries st) p = Some e \<longrightarrow> Kind e = KindFile \<longrightarrow> wkSources st (Hash e) \<noteq> None)"

definition walkInv :: "(string \<Rightarrow> string) \<Rightarrow> string \<Rightarrow> diskTree \<Rightarrow> string list set \<Rightarrow> walkState \<Rightarrow> bool" where
  "walkInv sha root dsk S st \<longleftrightarrow>
     entriesSound sha root dsk S st \<and> jobsSound sha root dsk S (wkJobs st) \<and> nothingMissed sha root dsk S st (wkJobs st)
     \<and> sourcesSound sha dsk st \<and> distinct (map fst (wkEntries st))"

lemma jobsSound_insert:
  assumes "jobsSound sha root dsk S js"
  shows "jobsSound sha root dsk (insert q S) js"
  unfolding jobsSound_def
proof
  fix j assume "j \<in> set js"
  then obtain q' m c t where k: "q' \<in> S" "q' \<noteq> pathSegs root" "map_of dsk q' = Some (DFile m c t)" "fst j = pathOf q'"
      "entryFor sha root q' (DFile m c t) = Some ((snd j)\<lparr>Hash := sha c\<rparr>)"
    using assms unfolding jobsSound_def by meson
  show "\<exists>q' m c t. q' \<in> insert q S \<and> q' \<noteq> pathSegs root \<and> map_of dsk q' = Some (DFile m c t) \<and> fst j = pathOf q'
      \<and> entryFor sha root q' (DFile m c t) = Some ((snd j)\<lparr>Hash := sha c\<rparr>)"
    by (intro exI [of _ q'] exI [of _ m] exI [of _ c] exI [of _ t]) (use k in simp)
qed

lemma entriesSound_insert:
  assumes "entriesSound sha root dsk S st"
  shows "entriesSound sha root dsk (insert q S) st"
  using assms unfolding entriesSound_def by blast

lemma walkInv_mono:
  assumes "walkInv sha root dsk S st"
    and "\<And>n e. map_of dsk q = Some n \<Longrightarrow> q \<noteq> pathSegs root \<Longrightarrow> entryFor sha root q n = Some e \<Longrightarrow>
      map_of (wkEntries st) (relAt root q) = Some e \<or> (\<exists>j \<in> set (wkJobs st). Path (snd j) = relAt root q)"
  shows "walkInv sha root dsk (insert q S) st"
proof -
  have "entriesSound sha root dsk (insert q S) st" using assms(1) unfolding walkInv_def entriesSound_def by blast
  moreover have "jobsSound sha root dsk (insert q S) (wkJobs st)"
    using assms(1) unfolding walkInv_def by (blast intro: jobsSound_insert)
  moreover have "nothingMissed sha root dsk (insert q S) st (wkJobs st)"
    unfolding nothingMissed_def
  proof (intro allI impI)
    fix q' n' e assume a: "q' \<in> insert q S" "q' \<noteq> pathSegs root" "map_of dsk q' = Some n'" "entryFor sha root q' n' = Some e"
    show "map_of (wkEntries st) (relAt root q') = Some e \<or> (\<exists>j \<in> set (wkJobs st). Path (snd j) = relAt root q')"
    proof (cases "q' = q")
      case True
      then show ?thesis using assms(2) [of n' e] a by blast
    next
      case False
      then show ?thesis using assms(1) a unfolding walkInv_def nothingMissed_def by blast
    qed
  qed
  ultimately show ?thesis using assms(1) by (simp add: walkInv_def)
qed

lemma putEntry_map_of: "map_of (putEntry e es) p = (if p = Path e then Some e else map_of es p)"
  by (simp add: putEntry_def update_conv')

lemma putEntry_distinct: "distinct (map fst es) \<Longrightarrow> distinct (map fst (putEntry e es))"
  by (simp add: putEntry_def distinct_update)

lemma addSource_get: "addSource h a s h' = (if h' = h \<and> s h = None then Some a else s h')"
  by (simp add: addSource_def)

text \<open>An entry with the right hash joins the state.\<close>

lemma walkInv_put:
  assumes inv: "entriesSound sha root dsk S st" "jobsSound sha root dsk S js" "nothingMissed sha root dsk S st js'"
      "sourcesSound sha dsk st" "distinct (map fst (wkEntries st))"
    and q: "q \<noteq> pathSegs root" "map_of dsk q = Some n" "entryFor sha root q n = Some e"
    and S: "\<forall>q' \<in> insert q S. \<forall>n'. map_of dsk q' = Some n' \<longrightarrow> relAt root q' = relAt root q \<longrightarrow> q' = q"
    and js: "\<forall>j \<in> set js'. Path (snd j) \<noteq> Path e \<longrightarrow> j \<in> set js"
    and src: "if isDDir n \<or> Kind e = KindSymlink then st' = st\<lparr>wkEntries := putEntry e (wkEntries st)\<rparr>
      else st' = st\<lparr>wkEntries := putEntry e (wkEntries st), wkSources := addSource (Hash e) (pathOf q) (wkSources st)\<rparr>"
  shows "entriesSound sha root dsk (insert q S) st' \<and> jobsSound sha root dsk (insert q S) js
    \<and> nothingMissed sha root dsk (insert q S) st' js \<and> sourcesSound sha dsk st' \<and> distinct (map fst (wkEntries st'))"
proof -
  have p: "Path e = relAt root q" using q(3) by (rule entryFor_path)
  have es: "wkEntries st' = putEntry e (wkEntries st)" using src by (auto split: if_splits)
  have "entriesSound sha root dsk (insert q S) st'"
    unfolding entriesSound_def es putEntry_map_of
  proof (intro allI impI)
    fix p' e' assume a: "(if p' = Path e then Some e else map_of (wkEntries st) p') = Some e'"
    show "\<exists>q' n'. q' \<in> insert q S \<and> q' \<noteq> pathSegs root \<and> map_of dsk q' = Some n' \<and> p' = relAt root q' \<and> entryFor sha root q' n' = Some e'"
    proof (cases "p' = Path e")
      case True
      then show ?thesis using a p q by auto
    next
      case False
      then have "map_of (wkEntries st) p' = Some e'" using a by simp
      then obtain q1 n1 where k: "q1 \<in> S" "q1 \<noteq> pathSegs root" "map_of dsk q1 = Some n1" "p' = relAt root q1"
          "entryFor sha root q1 n1 = Some e'"
        using inv(1) unfolding entriesSound_def by meson
      show ?thesis by (intro exI [of _ q1] exI [of _ n1]) (use k in simp)
    qed
  qed
  moreover have "jobsSound sha root dsk (insert q S) js" using inv(2) by (rule jobsSound_insert)
  moreover have "nothingMissed sha root dsk (insert q S) st' js"
    unfolding nothingMissed_def es putEntry_map_of
  proof (intro allI impI)
    fix q' n' e' assume a: "q' \<in> insert q S" "q' \<noteq> pathSegs root" "map_of dsk q' = Some n'" "entryFor sha root q' n' = Some e'"
    show "(if relAt root q' = Path e then Some e else map_of (wkEntries st) (relAt root q')) = Some e'
      \<or> (\<exists>j \<in> set js. Path (snd j) = relAt root q')"
    proof (cases "q' = q")
      case True
      then show ?thesis using a q p by simp
    next
      case False
      then have k: "relAt root q' \<noteq> Path e" "q' \<in> S" using S a(1,3) p by auto
      have "map_of (wkEntries st) (relAt root q') = Some e' \<or> (\<exists>j \<in> set js'. Path (snd j) = relAt root q')"
        using inv(3) a(2-4) k(2) unfolding nothingMissed_def by blast
      then show ?thesis using js k(1) by auto
    qed
  qed
  moreover have "sourcesSound sha dsk st'"
  proof (cases "isDDir n \<or> Kind e = KindSymlink")
    case True
    then have s: "wkSources st' = wkSources st" using src by simp
    have "Kind e \<noteq> KindFile" using True q(3) by (auto simp: entryFor_def isDDir_def split: diskNode.splits)
    then show ?thesis using inv(4) unfolding sourcesSound_def s es putEntry_map_of by auto
  next
    case False
    then obtain m c t where n: "n = DFile m c t"
      using q(3) by (cases n) (auto simp: isDDir_def entryFor_def split: sum.splits option.splits)
    have h: "Hash e = sha c" using q(3) n by (auto simp: entryFor_def)
    have s: "wkSources st' = addSource (Hash e) (pathOf q) (wkSources st)" using False src by simp
    show ?thesis
      unfolding sourcesSound_def s es putEntry_map_of addSource_get
    proof (intro conjI allI impI)
      fix h' a assume a: "(if h' = Hash e \<and> wkSources st (Hash e) = None then Some (pathOf q) else wkSources st h') = Some a"
      show "\<exists>q m c t. a = pathOf q \<and> map_of dsk q = Some (DFile m c t) \<and> h' = sha c"
      proof (cases "h' = Hash e \<and> wkSources st (Hash e) = None")
        case True
        then show ?thesis using a h n q(2) by auto
      next
        case False
        then show ?thesis using a inv(4) unfolding sourcesSound_def by auto
      qed
    next
      fix p' e' assume "(if p' = Path e then Some e else map_of (wkEntries st) p') = Some e'" "Kind e' = KindFile"
      then show "(if Hash e' = Hash e \<and> wkSources st (Hash e) = None then Some (pathOf q) else wkSources st (Hash e')) \<noteq> None"
        using inv(4) unfolding sourcesSound_def by (auto split: if_splits)
    qed
  qed
  moreover have "distinct (map fst (wkEntries st'))" using inv(5) es putEntry_distinct by simp
  ultimately show ?thesis by blast
qed

lemma recordNode_inv:
  assumes run: "recordNode env root previous (relAt root (fst x)) x st = Inr st'"
    and inv: "walkInv sha root dsk S st" and x: "map_of dsk (fst x) = Some (snd x)" "below (pathSegs root) (fst x)"
    and ok: "diskOk dsk" and S: "\<forall>q \<in> S. below (pathSegs root) q"
    and prev: "previousTrue sha root previous dsk"
  shows "walkInv sha root dsk (insert (fst x) S) st'"
proof -
  obtain q n where xq: "x = (q, n)" by (cases x)
  have q: "map_of dsk q = Some n" "below (pathSegs root) q" using x xq by simp_all
  have norm: "normalSegs q'" if "map_of dsk q' = Some n'" for q' n'
    using ok map_of_SomeD [OF that] unfolding diskOk_def by force
  have inj: "q1 = q2" if a: "relAt root q1 = relAt root q2" "below (pathSegs root) q1" "below (pathSegs root) q2"
      "map_of dsk q1 = Some n1" "map_of dsk q2 = Some n2" for q1 q2 n1 n2
  proof -
    obtain r1 r2 where r: "q1 = pathSegs root @ r1" "q2 = pathSegs root @ r2" using a(2,3) by (auto simp: below_iff)
    have "r1 = r2" using a(1) r norm [OF a(4)] norm [OF a(5)] by (simp add: relAt_def relPath_inj)
    then show ?thesis using r by simp
  qed
  have dot: "relAt root q = ''.'' \<longleftrightarrow> q = pathSegs root"
  proof -
    obtain r where r: "q = pathSegs root @ r" using q(2) by (auto simp: below_iff)
    then show ?thesis using norm [OF q(1)] by (simp add: relAt_def relPath_dot)
  qed
  have S': "\<forall>q' \<in> insert q S. \<forall>n'. map_of dsk q' = Some n' \<longrightarrow> relAt root q' = relAt root q \<longrightarrow> q' = q"
    using inj [OF _ _ q(2) _ q(1)] S by blast
  note i = inv [unfolded walkInv_def]
  consider (root) "q = pathSegs root" "st' = st"
    | (known) e where "q \<noteq> pathSegs root" "map_of (wkEntries st) (relAt root q) = Some e" "st' = st"
    | (skip) "q \<noteq> pathSegs root" "entryFor sha root q n = None" "st' = st"
    | (plain) e where "q \<noteq> pathSegs root" "entryFor sha root q n = Some e" "isDDir n \<or> Kind e = KindSymlink"
        "st' = st\<lparr>wkEntries := putEntry e (wkEntries st)\<rparr>"
    | (reuse) m c t e where "q \<noteq> pathSegs root" "n = DFile m c t" "entryFor sha root q n = Some e"
        "st' = st\<lparr>wkEntries := putEntry e (wkEntries st), wkSources := addSource (Hash e) (pathOf q) (wkSources st)\<rparr>"
    | (job) m c t e where "q \<noteq> pathSegs root" "n = DFile m c t" "entryFor sha root q n = Some (e\<lparr>Hash := sha c\<rparr>)"
        "st' = st\<lparr>wkJobs := wkJobs st @ [(pathOf q, e)]\<rparr>"
  proof (cases "relAt root q = ''.''")
    case True
    then show thesis using root dot run xq by (simp add: recordNode_def)
  next
    case nr: False
    show thesis
    proof (cases "map_of (wkEntries st) (relAt root q)")
      case (Some e)
      then show thesis using known nr dot run xq by (simp add: recordNode_def)
    next
      case None
      have run': "(case buildEntry env root q (relAt root q) n of Inl e \<Rightarrow> Inl e | Inr (None, isFile) \<Rightarrow> Inr st
          | Inr (Some e, isFile) \<Rightarrow>
              if isFile then (case reuseCachedFile e (pathOf q) previous st of Some st' \<Rightarrow> Inr st'
                | None \<Rightarrow> Inr (st\<lparr>wkJobs := wkJobs st @ [(pathOf q, e)]\<rparr>))
              else Inr (st\<lparr>wkEntries := putEntry e (wkEntries st)\<rparr>)) = Inr st'"
        using run nr None unfolding recordNode_def xq fst_conv snd_conv by simp
      have info: "\<not> weNoInfo env q" using run' by (auto simp: buildEntry_def)
      show thesis
      proof (cases n)
        case (DDir m t)
        then show thesis using plain nr dot run' info by (simp add: buildEntry_def entryFor_def isDDir_def)
      next
        case (DLink m l t)
        then have link: "\<not> weNoReadlink env q" using run' info by (auto simp: buildEntry_def)
        show thesis
        proof (cases "portableSymlinkTarget root (pathOf q) l")
          case (Inr ln)
          then show thesis using plain skip nr dot run' info link DLink
            by (cases ln) (simp_all add: buildEntry_def entryFor_def)
        qed (use run' info link DLink in \<open>simp add: buildEntry_def\<close>)
      next
        case DOther
        then show thesis using skip nr dot run' info by (simp add: buildEntry_def entryFor_def)
      next
        case (DFile m c t)
        let ?e = "\<lparr>Path = relAt root q, Kind = KindFile, Hash = [], Size = int (length c), Mode = m, ModTime = t, Linkname = []\<rparr>"
        have r2: "(case reuseCachedFile ?e (pathOf q) previous st of Some st' \<Rightarrow> Inr st'
                | None \<Rightarrow> Inr (st\<lparr>wkJobs := wkJobs st @ [(pathOf q, ?e)]\<rparr>)) = (Inr st' :: walkError + walkState)"
          using run' info DFile by (simp add: buildEntry_def)
        show thesis
        proof (cases "reuseFileHash (previous (relAt root q)) ?e")
          case False
          then have "st' = st\<lparr>wkJobs := wkJobs st @ [(pathOf q, ?e)]\<rparr>" using r2 by (simp add: reuseCachedFile_def)
          then show thesis using job [of m c t ?e] nr dot DFile by (simp add: entryFor_def)
        next
          case True
          then obtain p where p: "previous (relAt root q) = Some p" "Size p = int (length c)" "Mode p = m" "ModTime p = t"
            by (auto simp: reuseFileHash_def split: option.splits)
          have "Hash p = sha c"
            using prev map_of_SomeD [OF q(1)] q(2) DFile p unfolding previousTrue_def list_all_iff by fastforce
          then have "st' = st\<lparr>wkEntries := putEntry (?e\<lparr>Hash := sha c\<rparr>) (wkEntries st),
              wkSources := addSource (sha c) (pathOf q) (wkSources st)\<rparr>"
            using r2 True p by (simp add: reuseCachedFile_def Let_def)
          then show thesis using reuse [of m c t "?e\<lparr>Hash := sha c\<rparr>"] nr dot DFile by (simp add: entryFor_def)
        qed
      qed
    qed
  qed
  then have "walkInv sha root dsk (insert q S) st'"
  proof cases
    case root
    then show ?thesis using walkInv_mono [OF inv, of q] by simp
  next
    case known
    obtain q' n' where k: "q' \<in> S" "map_of dsk q' = Some n'" "relAt root q = relAt root q'" "entryFor sha root q' n' = Some e"
      using i known(2) unfolding entriesSound_def by blast
    have "q' = q" using S' k(1,2) k(3) [symmetric] by simp
    then have en: "entryFor sha root q n = Some e" using k(2,4) q(1) by simp
    show ?thesis unfolding known(3)
    proof (rule walkInv_mono [OF inv])
      fix n1 e1 assume "map_of dsk q = Some n1" "entryFor sha root q n1 = Some e1"
      then have "e1 = e" using en q(1) by simp
      then show "map_of (wkEntries st) (relAt root q) = Some e1 \<or> (\<exists>j \<in> set (wkJobs st). Path (snd j) = relAt root q)"
        using known(2) by simp
    qed
  next
    case skip
    show ?thesis unfolding skip(3) by (rule walkInv_mono [OF inv]) (use skip(2) q(1) in simp)
  next
    case plain
    then show ?thesis using walkInv_put [of sha root dsk S st "wkJobs st" "wkJobs st" q n e st'] i plain q S' by (simp add: walkInv_def)
  next
    case reuse
    have k: "\<not> (isDDir n \<or> Kind e = KindSymlink)" using reuse by (auto simp: isDDir_def entryFor_def)
    then show ?thesis using walkInv_put [of sha root dsk S st "wkJobs st" "wkJobs st" q n e st'] i reuse(1,3,4) k q S' by (simp add: walkInv_def)
  next
    case job
    have pe: "Path e = relAt root q" using entryFor_path [OF job(3)] by simp
    have e': "wkEntries st' = wkEntries st" "wkSources st' = wkSources st" "wkJobs st' = wkJobs st @ [(pathOf q, e)]"
      using job(4) by simp_all
    have "entriesSound sha root dsk (insert q S) st'"
      using entriesSound_insert [OF conjunct1 [OF i]] unfolding entriesSound_def e' .
    moreover have "jobsSound sha root dsk (insert q S) (wkJobs st')"
    proof -
      have "jobsSound sha root dsk (insert q S) (wkJobs st)" using i by (blast intro: jobsSound_insert)
      moreover have "jobsSound sha root dsk (insert q S) [(pathOf q, e)]"
        unfolding jobsSound_def
      proof
        fix j assume "j \<in> set [(pathOf q, e)]"
        then have j: "j = (pathOf q, e)" by simp
        show "\<exists>q' m c t. q' \<in> insert q S \<and> q' \<noteq> pathSegs root \<and> map_of dsk q' = Some (DFile m c t) \<and> fst j = pathOf q'
            \<and> entryFor sha root q' (DFile m c t) = Some ((snd j)\<lparr>Hash := sha c\<rparr>)"
          by (intro exI [of _ q] exI [of _ m] exI [of _ c] exI [of _ t]) (use job(1-3) q(1) j in simp)
      qed
      ultimately show ?thesis unfolding jobsSound_def e' by (metis Un_iff set_append)
    qed
    moreover have "nothingMissed sha root dsk (insert q S) st' (wkJobs st')"
      unfolding nothingMissed_def e'
    proof (intro allI impI)
      fix q' n' f assume a: "q' \<in> insert q S" "q' \<noteq> pathSegs root" "map_of dsk q' = Some n'" "entryFor sha root q' n' = Some f"
      show "map_of (wkEntries st) (relAt root q') = Some f \<or> (\<exists>j \<in> set (wkJobs st @ [(pathOf q, e)]). Path (snd j) = relAt root q')"
      proof (cases "q' = q")
        case True
        then show ?thesis using pe by simp
      next
        case False
        then have "q' \<in> S" using a(1) by simp
        then have "map_of (wkEntries st) (relAt root q') = Some f \<or> (\<exists>j \<in> set (wkJobs st). Path (snd j) = relAt root q')"
          using i a(2-4) unfolding nothingMissed_def by blast
        then show ?thesis by auto
      qed
    qed
    moreover have "sourcesSound sha dsk st'" using i unfolding sourcesSound_def e' by blast
    ultimately show ?thesis using i by (simp add: walkInv_def e')
  qed
  then show ?thesis using xq by simp
qed

lemma recordLoop_inv:
  assumes "recordLoop (\<lambda>x. recordNode env root previous (relAt root (fst x)) x) xs st = Inr st'"
    and "walkInv sha root dsk S st" and "\<forall>x \<in> set xs. map_of dsk (fst x) = Some (snd x) \<and> below (pathSegs root) (fst x)"
    and "diskOk dsk" and "\<forall>q \<in> S. below (pathSegs root) q" and "previousTrue sha root previous dsk"
  shows "walkInv sha root dsk (fst ` set xs \<union> S) st'"
  using assms
proof (induction xs arbitrary: st S)
  case (Cons x xs)
  obtain st1 where r: "recordNode env root previous (relAt root (fst x)) x st = Inr st1"
      "recordLoop (\<lambda>x. recordNode env root previous (relAt root (fst x)) x) xs st1 = Inr st'"
    using Cons.prems(1) by (auto split: sum.splits)
  have "walkInv sha root dsk (insert (fst x) S) st1"
    by (rule recordNode_inv [OF r(1) Cons.prems(2) _ _ Cons.prems(4,5,6)]) (use Cons.prems(3) in simp_all)
  moreover have "\<forall>q \<in> insert (fst x) S. below (pathSegs root) q" using Cons.prems(3,5) by simp
  ultimately have "walkInv sha root dsk (fst ` set xs \<union> insert (fst x) S) st'"
    by (intro Cons.IH [OF r(2) _ _ Cons.prems(4) _ Cons.prems(6)]) (use Cons.prems(3) in simp_all)
  moreover have "fst ` set xs \<union> insert (fst x) S = fst ` set (x # xs) \<union> S" by auto
  ultimately show ?case by metis
qed simp

text \<open>
  A node is selected by a mount when it lies at or below the mount, and neither it nor a
  directory on the way to it is excluded.
\<close>

definition mountSelects :: "string \<Rightarrow> diskTree \<Rightarrow> mountSpec \<Rightarrow> string list \<Rightarrow> bool" where
  "mountSelects root dsk m q =
     (case resolveMount root (mountPath m) of
        Inl e \<Rightarrow> False
      | Inr mp \<Rightarrow> below (pathSegs mp) q \<and>
          list_all (\<lambda>x. \<not> (below (pathSegs mp) (fst x) \<and> below (fst x) q
            \<and> excludeMatch (newExcludeMatcher (mountExclude m)) (relAt root (fst x)) (relPath (drop (length (pathSegs mp)) (fst x))))) dsk)"

definition selectedNodes :: "string \<Rightarrow> diskTree \<Rightarrow> mountSpec list \<Rightarrow> string list set" where
  "selectedNodes root dsk ms = {q. q \<in> fst ` set dsk \<and> list_ex (\<lambda>m. mountSelects root dsk m q) ms}"

lemma walkMount_inv:
  assumes run: "walkMount env root previous dsk m st = Inr st'" and root: "isAbs root"
    and inv: "walkInv sha root dsk S st" and ok: "diskOk dsk" and S: "\<forall>q \<in> S. below (pathSegs root) q"
    and prev: "previousTrue sha root previous dsk"
  shows "walkInv sha root dsk (selectedNodes root dsk [m] \<union> S) st' \<and> (\<forall>q \<in> selectedNodes root dsk [m]. below (pathSegs root) q)"
proof -
  obtain mp where mp: "resolveMount root (mountPath m) = Inr mp"
    using run by (auto simp: walkMount_def resolveAndStatMount_def split: sum.splits if_splits)
  obtain t where t: "isAbs mp" "pathSegs mp = pathSegs root @ t" using resolveMount_below [OF root mp] by blast
  have tn: "normalSegs t" using pathSegs_abs [OF t(1)] t(2) by simp
  let ?matcher = "newExcludeMatcher (mountExclude m)" and ?xs = "diskBelow mp dsk" and ?ms = "pathSegs mp"
  let ?E = "\<lambda>q. excludeMatch ?matcher (relAt root q) (relPath (drop (length ?ms) q))"
  let ?rec = "\<lambda>x. recordNode env root previous (relAt root (fst x)) x"
  have walk: "walkLoop env (visitNode env root previous mp (relPath t) ?matcher) None ?xs st = Inr st'"
    using run mp pathRel_at [OF root t] normalizeRel_relPath [OF tn]
    by (auto simp: walkMount_def resolveAndStatMount_def split: if_splits)
  have xs: "set ?xs = {x \<in> set dsk. below ?ms (fst x)}" by (simp add: diskBelow_def)
  have dist: "distinct (map fst ?xs)"
  proof -
    have "distinct (map fst dsk)" using ok by (simp add: diskOk_def)
    then have "distinct (map fst (filter (\<lambda>x. below ?ms (fst x)) dsk))" by (rule distinct_map_filter)
    moreover have "mset (map fst ?xs) = mset (map fst (filter (\<lambda>x. below ?ms (fst x)) dsk))"
      unfolding diskBelow_def mset_map mset_sort ..
    ultimately show ?thesis by (metis mset_eq_imp_distinct_iff)
  qed
  have visit: "if ?E (fst x) then b = isDDir (snd x) \<and> s' = s else \<not> b \<and> ?rec x s = Inr s'"
    if a: "x \<in> set ?xs" "visitNode env root previous mp (relPath t) ?matcher x s = Inr (b, s')" for x s b s'
  proof -
    obtain r where r: "fst x = ?ms @ r" using a(1) xs by (auto simp: below_iff)
    have n: "normalSegs (?ms @ r)" using a(1) xs ok r unfolding diskOk_def by (metis (mono_tags, lifting) mem_Collect_eq)
    have u: "relativeUnder mp (pathOf (fst x)) = Some (relPath r)" using relativeUnder_at [OF t(1) n] r by simp
    have j: "joinRel (relPath t) (relPath r) = relAt root (fst x)"
      using joinRel_at [of t r] n r t(2) by (simp add: relAt_def)
    have d: "drop (length ?ms) (fst x) = r" using r by simp
    show ?thesis using a(2) u j d by (auto simp: visitNode_def Let_def split: if_splits sum.splits)
  qed
  have dirs: "isDDir (snd x)" if "x \<in> set ([] @ ?xs)" "y \<in> set ([] @ ?xs)" "below (fst x) (fst y)" "fst x \<noteq> fst y" for x y
    using ok that xs unfolding diskOk_def by fastforce
  have "recordLoop ?rec (filter (\<lambda>y. \<not> (\<exists>x \<in> set ([] @ ?xs). ?E (fst x) \<and> below (fst x) (fst y))) ?xs) st = Inr st'"
  proof (rule walkLoop_records [OF walk, where E = ?E])
    show "if ?E (fst x) then b = isDDir (snd x) \<and> s' = s else \<not> b \<and> ?rec x s = Inr s'"
      if "x \<in> set ?xs" "visitNode env root previous mp (relPath t) ?matcher x s = Inr (b, s')" for x s b s'
      by (rule visit [OF that])
    show "isDDir (snd x)" if "x \<in> set ([] @ ?xs)" "y \<in> set ([] @ ?xs)" "below (fst x) (fst y)" "fst x \<noteq> fst y" for x y
      by (rule dirs [OF that])
  qed (use dist in \<open>simp_all add: diskBelow_def\<close>)
  then have rec: "recordLoop ?rec (filter (\<lambda>y. \<not> (\<exists>x \<in> set ?xs. ?E (fst x) \<and> below (fst x) (fst y))) ?xs) st = Inr st'" by simp
  have sel: "fst ` set (filter (\<lambda>y. \<not> (\<exists>x \<in> set ?xs. ?E (fst x) \<and> below (fst x) (fst y))) ?xs) = selectedNodes root dsk [m]"
  proof -
    have one: "y \<in> set (filter (\<lambda>y. \<not> (\<exists>x \<in> set ?xs. ?E (fst x) \<and> below (fst x) (fst y))) ?xs)
        \<longleftrightarrow> y \<in> set dsk \<and> mountSelects root dsk m (fst y)" for y
      using xs mp by (auto simp: mountSelects_def list_all_iff)
    show ?thesis unfolding selectedNodes_def using one by (auto simp del: set_filter)
  qed
  have below: "\<forall>q \<in> selectedNodes root dsk [m]. below (pathSegs root) q"
    unfolding selectedNodes_def mountSelects_def using mp t(2) by (auto simp: below_iff)
  have nodes: "\<forall>x \<in> set (filter (\<lambda>y. \<not> (\<exists>x \<in> set ?xs. ?E (fst x) \<and> below (fst x) (fst y))) ?xs).
      map_of dsk (fst x) = Some (snd x) \<and> below (pathSegs root) (fst x)"
    using ok xs t(2) by (auto simp: diskOk_def below_iff)
  show ?thesis using recordLoop_inv [OF rec inv nodes ok S prev] below unfolding sel by blast
qed

lemma enqueue_inv:
  assumes "enqueueMountJobs env root previous dsk ms st = Inr st'" "isAbs root" "walkInv sha root dsk S st" "diskOk dsk"
    "\<forall>q \<in> S. below (pathSegs root) q" "previousTrue sha root previous dsk"
  shows "walkInv sha root dsk (selectedNodes root dsk ms \<union> S) st' \<and> (\<forall>q \<in> selectedNodes root dsk ms. below (pathSegs root) q)"
  using assms
proof (induction ms arbitrary: st S)
  case (Cons m ms)
  obtain st1 where w: "walkMount env root previous dsk m st = Inr st1"
      "enqueueMountJobs env root previous dsk ms st1 = Inr st'"
    using Cons.prems(1) by (auto split: sum.splits)
  have i: "walkInv sha root dsk (selectedNodes root dsk [m] \<union> S) st1" "\<forall>q \<in> selectedNodes root dsk [m]. below (pathSegs root) q"
    using walkMount_inv [OF w(1) Cons.prems(2-6)] by blast+
  then have b: "\<forall>q \<in> selectedNodes root dsk [m] \<union> S. below (pathSegs root) q" using Cons.prems(5) by blast
  have e: "selectedNodes root dsk (m # ms) = selectedNodes root dsk ms \<union> selectedNodes root dsk [m]"
    by (auto simp: selectedNodes_def)
  show ?case using Cons.IH [OF w(2) Cons.prems(2) i(1) Cons.prems(4) b Cons.prems(6)] i(2) unfolding e by (auto simp: Un_assoc)
qed (simp add: selectedNodes_def)

lemma hashResults_inv:
  assumes "hashResults sha env dsk js st = Inr st'" "diskOk dsk"
    and "entriesSound sha root dsk S st" "jobsSound sha root dsk S js" "nothingMissed sha root dsk S st js"
      "sourcesSound sha dsk st" "distinct (map fst (wkEntries st))"
    and "\<And>q1 q2 n1 n2. q1 \<in> S \<Longrightarrow> q2 \<in> S \<Longrightarrow> map_of dsk q1 = Some n1 \<Longrightarrow> map_of dsk q2 = Some n2 \<Longrightarrow>
      relAt root q1 = relAt root q2 \<Longrightarrow> q1 = q2"
  shows "entriesSound sha root dsk S st' \<and> nothingMissed sha root dsk S st' [] \<and> sourcesSound sha dsk st'
    \<and> distinct (map fst (wkEntries st'))"
  using assms
proof (induction js arbitrary: st)
  case (Cons j js)
  obtain a e where j: "j = (a, e)" by (cases j)
  have "j \<in> set (j # js)" by simp
  then obtain q m c t where q: "q \<in> S" "q \<noteq> pathSegs root" "map_of dsk q = Some (DFile m c t)" "fst j = pathOf q"
      "entryFor sha root q (DFile m c t) = Some ((snd j)\<lparr>Hash := sha c\<rparr>)"
    using Cons.prems(4) unfolding jobsSound_def by meson
  let ?e = "e\<lparr>Hash := sha c\<rparr>" and ?st = "st\<lparr>wkEntries := putEntry (e\<lparr>Hash := sha c\<rparr>) (wkEntries st),
      wkSources := addSource (sha c) a (wkSources st)\<rparr>"
  have norm: "normalSegs q" using Cons.prems(2) map_of_SomeD [OF q(3)] unfolding diskOk_def by force
  have run: "hashResults sha env dsk js ?st = Inr st'"
    using Cons.prems(1) j q(3,4) pathSegs_of [OF norm] by (auto simp: HashFile_def split: if_splits)
  have ins: "insert q S = S" using q(1) by blast
  have jr: "jobsSound sha root dsk S js" using Cons.prems(4) unfolding jobsSound_def by simp
  have uniq: "\<forall>q' \<in> insert q S. \<forall>n'. map_of dsk q' = Some n' \<longrightarrow> relAt root q' = relAt root q \<longrightarrow> q' = q"
    unfolding ins using Cons.prems(8) [OF _ q(1) _ q(3)] by blast
  have ef: "entryFor sha root q (DFile m c t) = Some ?e" using q(5) j by simp
  have k: "Kind ?e = KindFile"
  proof -
    have "Some ?e = Some \<lparr>Path = relAt root q, Kind = KindFile, Hash = sha c, Size = int (length c), Mode = m, ModTime = t, Linkname = []\<rparr>"
      using ef by (simp add: entryFor_def)
    then show ?thesis using arg_cong [of _ _ Kind] by (metis entry.select_convs(2) option.inject)
  qed
  have "entriesSound sha root dsk (insert q S) ?st \<and> jobsSound sha root dsk (insert q S) js
      \<and> nothingMissed sha root dsk (insert q S) ?st js \<and> sourcesSound sha dsk ?st \<and> distinct (map fst (wkEntries ?st))"
  proof (rule walkInv_put [OF Cons.prems(3) jr Cons.prems(5-7) q(2,3) ef uniq])
    show "\<forall>j' \<in> set (j # js). Path (snd j') \<noteq> Path ?e \<longrightarrow> j' \<in> set js" using j by simp
    show "if isDDir (DFile m c t) \<or> Kind ?e = KindSymlink then ?st = st\<lparr>wkEntries := putEntry ?e (wkEntries st)\<rparr>
        else ?st = st\<lparr>wkEntries := putEntry ?e (wkEntries st), wkSources := addSource (Hash ?e) (pathOf q) (wkSources st)\<rparr>"
      using k q(4) j by (simp add: isDDir_def)
  qed
  then show ?case using Cons.IH [OF run Cons.prems(2)] Cons.prems(8) unfolding ins by blast
qed simp

lemma build_facts:
  assumes run: "BuildManifest sha env root0 mounts0 prev dsk = Inr r" and root: "isAbs root0"
    and ok: "diskOk dsk" and prev: "previousTrue sha (pathClean root0) (previousFileEntries prev) dsk"
    and ord: "\<And>js. set (weOrder env js) = set js"
  shows "set (bmEntries r) = {e. \<exists>q n. q \<in> selectedNodes (pathClean root0) dsk (snd (normalizeBuildInputs root0 mounts0))
        \<and> q \<noteq> pathSegs root0 \<and> map_of dsk q = Some n \<and> entryFor sha (pathClean root0) q n = Some e}
    \<and> sorted (map Path (bmEntries r)) \<and> distinct (map Path (bmEntries r))
    \<and> (\<forall>h a. bmSources r h = Some a \<longrightarrow> (\<exists>q m c t. a = pathOf q \<and> map_of dsk q = Some (DFile m c t) \<and> h = sha c))
    \<and> (\<forall>e \<in> set (bmEntries r). Kind e = KindFile \<longrightarrow> bmSources r (Hash e) \<noteq> None)"
proof -
  let ?R = "pathClean root0"
  obtain ms where n: "normalizeBuildInputs root0 mounts0 = (?R, ms)" by (simp add: normalizeBuildInputs_def)
  let ?st0 = "\<lparr>wkEntries = [], wkSources = Map.empty, wkJobs = []\<rparr>"
  have R: "isAbs ?R" "pathSegs ?R = pathSegs root0" using root by simp_all
  obtain st where st: "enqueueMountJobs env ?R (previousFileEntries prev) dsk ms ?st0 = Inr st"
    using run n by (auto simp: BuildManifest_def split: sum.splits)
  obtain st' where st': "hashResults sha env dsk (weOrder env (wkJobs st)) st = Inr st'"
      "r = \<lparr>bmEntries = sort_key Path (map snd (wkEntries st')), bmSources = wkSources st'\<rparr>"
    using run n st by (auto simp: BuildManifest_def hashManifestFiles_def split: sum.splits if_splits)
  let ?S = "selectedNodes ?R dsk ms"
  have i0: "walkInv sha ?R dsk {} ?st0"
    by (simp add: walkInv_def entriesSound_def jobsSound_def nothingMissed_def sourcesSound_def)
  have i: "walkInv sha ?R dsk ?S st" "\<forall>q \<in> ?S. below (pathSegs root0) q"
    using enqueue_inv [OF st R(1) i0 ok _ prev] R(2) by simp_all
  have inj: "q1 = q2" if a: "q1 \<in> ?S" "q2 \<in> ?S" "map_of dsk q1 = Some n1" "map_of dsk q2 = Some n2" "relAt ?R q1 = relAt ?R q2"
    for q1 q2 n1 n2
  proof -
    have "below (pathSegs root0) q1" "below (pathSegs root0) q2" using i(2) a(1,2) by blast+
    then obtain r1 r2 where r: "q1 = pathSegs root0 @ r1" "q2 = pathSegs root0 @ r2" unfolding below_iff by blast
    have "normalSegs q1" "normalSegs q2" using ok map_of_SomeD [OF a(3)] map_of_SomeD [OF a(4)] unfolding diskOk_def by force+
    then have "r1 = r2" using a(5) r R(2) by (simp add: relAt_def relPath_inj)
    then show ?thesis using r by simp
  qed
  have js: "jobsSound sha ?R dsk ?S (weOrder env (wkJobs st))" "nothingMissed sha ?R dsk ?S st (weOrder env (wkJobs st))"
    using conjunct1 [OF conjunct2 [OF i(1) [unfolded walkInv_def]]] conjunct1 [OF conjunct2 [OF conjunct2 [OF i(1) [unfolded walkInv_def]]]]
    unfolding jobsSound_def nothingMissed_def ord .
  note w = i(1) [unfolded walkInv_def]
  have all: "entriesSound sha ?R dsk ?S st' \<and> nothingMissed sha ?R dsk ?S st' [] \<and> sourcesSound sha dsk st'
      \<and> distinct (map fst (wkEntries st'))"
    by (rule hashResults_inv [OF st'(1) ok conjunct1 [OF w] js]) (use w inj in \<open>blast+\<close>)
  have f: "entriesSound sha ?R dsk ?S st'" "nothingMissed sha ?R dsk ?S st' []" "sourcesSound sha dsk st'"
      "distinct (map fst (wkEntries st'))"
    using all by simp_all
  have keys: "\<forall>(p, e) \<in> set (wkEntries st'). Path e = p"
  proof (intro ballI, clarify)
    fix p e assume "(p, e) \<in> set (wkEntries st')"
    then have "map_of (wkEntries st') p = Some e" using f(4) by simp
    then obtain q n where "p = relAt ?R q" "entryFor sha ?R q n = Some e" using f(1) unfolding entriesSound_def by meson
    then show "Path e = p" using entryFor_path by metis
  qed
  then have paths: "map Path (map snd (wkEntries st')) = map fst (wkEntries st')" by (simp add: case_prod_beta)
  have set: "e \<in> set (bmEntries r) \<longleftrightarrow> map_of (wkEntries st') (Path e) = Some e" for e
  proof
    assume "e \<in> set (bmEntries r)"
    then obtain p where "(p, e) \<in> set (wkEntries st')" using st'(2) by auto
    then show "map_of (wkEntries st') (Path e) = Some e" using f(4) keys by auto
  next
    assume "map_of (wkEntries st') (Path e) = Some e"
    then show "e \<in> set (bmEntries r)" using st'(2) map_of_SomeD by (simp add: image_iff) force
  qed
  have "set (bmEntries r) = {e. \<exists>q n. q \<in> ?S \<and> q \<noteq> pathSegs root0 \<and> map_of dsk q = Some n \<and> entryFor sha ?R q n = Some e}"
  proof (intro equalityI subsetI CollectI)
    fix e assume "e \<in> set (bmEntries r)"
    then have "map_of (wkEntries st') (Path e) = Some e" using set by simp
    then show "\<exists>q n. q \<in> ?S \<and> q \<noteq> pathSegs root0 \<and> map_of dsk q = Some n \<and> entryFor sha ?R q n = Some e"
      using f(1) R(2) unfolding entriesSound_def by metis
  next
    fix e assume "e \<in> {e. \<exists>q n. q \<in> ?S \<and> q \<noteq> pathSegs root0 \<and> map_of dsk q = Some n \<and> entryFor sha ?R q n = Some e}"
    then obtain q n where q: "q \<in> ?S" "q \<noteq> pathSegs root0" "map_of dsk q = Some n" "entryFor sha ?R q n = Some e" by blast
    then have "map_of (wkEntries st') (relAt ?R q) = Some e" using f(2) R(2) unfolding nothingMissed_def by simp
    then show "e \<in> set (bmEntries r)" using set entryFor_path [OF q(4)] by simp
  qed
  moreover have "distinct (map Path (bmEntries r))"
  proof -
    have "mset (map Path (bmEntries r)) = mset (map Path (map snd (wkEntries st')))" unfolding st'(2) buildResult.select_convs mset_map mset_sort ..
    then show ?thesis using paths f(4) mset_eq_imp_distinct_iff by metis
  qed
  moreover have "sorted (map Path (bmEntries r))" using st'(2) by simp
  moreover have "\<forall>e \<in> set (bmEntries r). Kind e = KindFile \<longrightarrow> bmSources r (Hash e) \<noteq> None"
    using f(3) set st'(2) unfolding sourcesSound_def by auto
  ultimately show ?thesis using f(3) st'(2) n unfolding sourcesSound_def by simp
qed

section \<open>Links\<close>

lemma within_below:
  assumes "isAbs root" "isAbs p" "pathWithinRoot root p"
  shows "below (pathSegs root) (pathSegs p)"
proof -
  obtain rel where rel: "pathRel (pathClean root) (pathClean p) = Some rel" "rel = ''.'' \<or> rel \<noteq> ''..'' \<and> \<not> hasPrefix rel ''../''"
    using assms(3) by (auto simp: pathWithinRoot_def split: option.splits)
  show ?thesis
  proof (cases "pathClean p = pathClean root")
    case True
    then have "pathSegs p = pathSegs root" by (metis pathSegs_pathClean)
    then show ?thesis by simp
  next
    case False
    have "pathClean root \<noteq> ''.''" using assms(1) isAbs_pathClean [of root] by (auto simp: isAbs_def)
    moreover obtain b t where d: "dropCommon (pathSegs root) (pathSegs p) = (b, t)" by fastforce
    ultimately have r: "rel = joinOn slash (replicate (length b) ''..'' @ t)"
      using assms rel(1) False by (auto simp: pathRel_def Let_def relSegs_clean split: if_splits)
    have "b = []"
    proof (rule ccontr)
      assume "b \<noteq> []"
      then obtain rest where "rel = joinOn slash (''..'' # rest)" using r by (cases b) auto
      then have "rel = ''..'' \<or> hasPrefix rel ''../''"
        by (cases "rest = []") (simp_all add: joinOn_Cons)
      then show False using rel(2) by auto
    qed
    then show ?thesis using dropCommon_split [OF d] by auto
  qed
qed

lemma cleanSegs_up:
  "normalSegs b \<Longrightarrow> cleanSegs True (rev b @ acc) (replicate (length b) ''..'' @ t) = cleanSegs True acc t"
proof (induction b arbitrary: t rule: rev_induct)
  case (snoc x b)
  have x: "x \<noteq> ''..''" "normalSegs b" using snoc.prems by (auto simp: normalSeg_def)
  show ?case using snoc.IH [OF x(2)] x(1) by simp
qed simp

lemma join_rel:
  assumes "isAbs a" "isAbs b" "pathRel a b = Some rel"
  shows "pathSegs (pathJoin [a, rel]) = pathSegs b \<and> isAbs (pathJoin [a, rel])"
proof -
  have a: "a \<noteq> []" using assms(1) by (auto simp: isAbs_def)
  have abs: "isAbs (a @ slash # rel)" using assms(1) by (simp add: isAbs_def hasPrefix_mono)
  have "pathSegs (a @ slash # rel) = pathSegs b"
  proof (cases "pathClean b = pathClean a")
    case True
    then have r: "rel = ''.''" using assms(3) by (simp add: pathRel_def Let_def)
    have "pathSegs (a @ slash # rel) = cleanSegs True (rev (pathSegs a)) [''.'']"
      using assms(1) r pathSegs_joined [of a "''.''"] by (simp add: isAbs_def)
    then show ?thesis using True by (metis cleanSegs.simps rev_rev_ident pathSegs_pathClean)
  next
    case False
    have "pathClean a \<noteq> ''.''" using assms(1) isAbs_pathClean [of a] by (auto simp: isAbs_def)
    moreover obtain x t where d: "dropCommon (pathSegs a) (pathSegs b) = (x, t)" by fastforce
    ultimately have r: "rel = joinOn slash (replicate (length x) ''..'' @ t)"
      using assms False by (auto simp: pathRel_def Let_def relSegs_clean split: if_splits)
    obtain c where c: "pathSegs a = c @ x" "pathSegs b = c @ t" using dropCommon_split [OF d] by blast
    have nc: "normalSegs (c @ x)" "normalSegs (c @ t)" using pathSegs_abs assms(1,2) c by metis+
    have ne: "replicate (length x) ''..'' @ t \<noteq> []"
      using c False assms(1,2) by (auto simp: pathClean_def)
    have rf: "relForm (replicate (length x) ''..'' @ t)" using nc unfolding relForm_def by auto
    have "\<not> isAbs rel" using joinOn_not_abs(1) [OF rf ne] r by simp
    then have "pathSegs (a @ slash # rel) = cleanSegs True (rev (c @ x)) (splitOn slash rel)"
      using pathSegs_joined [OF assms(1)] c by simp
    moreover have "splitOn slash rel = replicate (length x) ''..'' @ t"
      unfolding r by (rule splitOn_joinOn [OF ne]) (use relForm_free [OF rf] in blast)
    ultimately show ?thesis using cleanSegs_up [of x "rev c" t] cleanSegs_normal [of t True "rev c"] nc c by simp
  qed
  then show ?thesis using a abs by (simp add: pathJoin_def)
qed

lemma portable_inside:
  assumes "isAbs root" "isAbs a" "portableSymlinkTarget root a target = Inr (Some l)"
  shows "below (pathSegs root) (pathSegs (pathJoin [pathDir a, l]))"
proof -
  have d: "isAbs (pathDir a)"
  proof -
    obtain u where a: "a = slash # u" using assms(2) by (auto simp: isAbs_def hasPrefix_iff)
    have "0 \<le> lastIndex slash a" unfolding a by (simp add: Let_def)
    then obtain k where "nat (lastIndex slash a + 1) = Suc k" by (metis Suc_nat_eq_nat_zadd1 add.commute)
    then show ?thesis by (simp add: pathDir_def) (simp add: a isAbs_def)
  qed
  show ?thesis
  proof (cases "isAbs target")
    case True
    then have t: "pathWithinRoot root (pathClean target)" "pathRel (pathDir a) (pathClean target) = Some l"
      using assms(3) by (auto simp: portableSymlinkTarget_def Let_def split: if_splits option.splits)
    have "isAbs (pathClean target)" using True by simp
    then show ?thesis using join_rel [OF d _ t(2)] within_below [OF assms(1) _ t(1)] by simp
  next
    case False
    then have t: "pathWithinRoot root (pathClean (pathJoin [pathDir a, l]))"
      using assms(3) by (auto simp: portableSymlinkTarget_def Let_def split: if_splits)
    have "isAbs (pathDir a @ slash # l)" "pathDir a \<noteq> []" using d by (auto simp: isAbs_def hasPrefix_mono)
    then have "isAbs (pathJoin [pathDir a, l])" by (simp add: pathJoin_def)
    then show ?thesis using within_below [OF assms(1) _ t] by simp
  qed
qed

section \<open>The project as a tree\<close>

definition workNode :: "diskNode \<Rightarrow> wsNode" where
  "workNode n = (case n of DDir m t \<Rightarrow> WDir m | DFile m c t \<Rightarrow> WFile m c t | DLink m l t \<Rightarrow> WLink l | DOther \<Rightarrow> WLink [])"

definition projectTree :: "string \<Rightarrow> diskTree \<Rightarrow> wsTree" where
  "projectTree root dsk =
     map (\<lambda>x. (drop (length (pathSegs root)) (fst x), workNode (snd x))) (filter (\<lambda>x. below (pathSegs root) (fst x)) dsk)"

text \<open>
  A project without special files, with modes, with portable relative links, and with paths that
  do not begin or end with white space.
\<close>

definition plainNode :: "string \<Rightarrow> string list \<Rightarrow> diskNode \<Rightarrow> bool" where
  "plainNode root q n \<longleftrightarrow>
     (q = pathSegs root \<or> localApplyPath (relAt root q) = Inr (relAt root q))
     \<and> (case n of
          DDir m t \<Rightarrow> m \<noteq> 0
        | DFile m c t \<Rightarrow> m \<noteq> 0
        | DLink m l t \<Rightarrow> portableSymlinkTarget root (pathOf q) l = Inr (Some l)
        | DOther \<Rightarrow> False)"

definition plainProject :: "string \<Rightarrow> diskTree \<Rightarrow> bool" where
  "plainProject root dsk \<longleftrightarrow> list_all (\<lambda>x. \<not> below (pathSegs root) (fst x) \<or> plainNode root (fst x) (snd x)) dsk"

lemma map_of_projectTree: "map_of (projectTree root dsk) q = map_option workNode (map_of dsk (pathSegs root @ q))"
proof (induction dsk)
  case (Cons x dsk)
  show ?case
  proof (cases "below (pathSegs root) (fst x)")
    case True
    then obtain r where "fst x = pathSegs root @ r" by (auto simp: below_iff)
    then show ?thesis using Cons by (cases x) (auto simp: projectTree_def)
  next
    case False
    then have "fst x \<noteq> pathSegs root @ q" by auto
    then show ?thesis using Cons False by (cases x) (simp add: projectTree_def)
  qed
qed (simp add: projectTree_def)

lemma disk_ancestors:
  assumes "diskOk dsk" "q \<in> fst ` set dsk" "below p q"
  shows "p \<in> fst ` set dsk"
  using assms(2,3)
proof (induction q rule: rev_induct)
  case Nil
  then show ?case by (simp add: below_def)
next
  case (snoc y q)
  show ?case
  proof (cases "p = q @ [y]")
    case False
    then have "below p q" using below_proper [OF snoc.prems(2)] by simp
    moreover have "q \<in> fst ` set dsk"
    proof -
      obtain x where "x \<in> set dsk" "fst x = q @ [y]" using snoc.prems(1) by auto
      then show ?thesis using assms(1) unfolding diskOk_def by (metis butlast_snoc snoc_eq_iff_butlast)
    qed
    ultimately show ?thesis using snoc.IH by blast
  qed (use snoc.prems in simp)
qed

lemma whole_project:
  assumes root: "isAbs root" and ok: "diskOk dsk"
  shows "selectedNodes (pathClean root) dsk (snd (normalizeBuildInputs root [])) = {q. q \<in> fst ` set dsk \<and> below (pathSegs root) q}"
proof -
  have dot: "trimSpace ''.'' \<noteq> []" "\<not> isAbs ''.''" "pathClean ''.'' = ''.''" "isLocal ''.''" "pathSegs ''.'' = []" by code_simp+
  have "resolveMount (pathClean root) ''.'' = Inr (pathJoin [pathClean root, ''.''])"
    using dot by (simp add: resolveMount_def Let_def)
  moreover have "pathSegs (pathJoin [pathClean root, ''.'']) = pathSegs root"
    using pathJoin_below [of "pathClean root" "''.''"] root dot by simp
  ultimately show ?thesis
    by (auto simp: selectedNodes_def normalizeBuildInputs_def mountSelects_def newExcludeMatcher_def excludeMatch_def list_all_iff)
qed

lemma entryAt_uniq:
  assumes "\<And>f. f \<in> set es \<Longrightarrow> segs f = q \<Longrightarrow> f = e" "e \<in> set es" "segs e = q"
  shows "entryAt es q = Some e"
proof (cases "entryAt es q")
  case None
  then show ?thesis using assms(2,3) entryAt_None by blast
next
  case (Some f)
  then show ?thesis using entryAt_Some [OF Some] assms(1) by simp
qed

lemma project_entries:
  assumes run: "BuildManifest sha env root [] prev dsk = Inr r" and root: "isAbs root"
    and ok: "diskOk dsk" and prev: "previousTrue sha (pathClean root) (previousFileEntries prev) dsk"
    and ord: "\<And>js. set (weOrder env js) = set js" and plain: "plainProject (pathClean root) dsk" and q: "q \<noteq> []"
  shows "case map_of dsk (pathSegs root @ q) of
      None \<Rightarrow> entryAt (bmEntries r) q = None
    | Some n \<Rightarrow> \<exists>e. entryFor sha (pathClean root) (pathSegs root @ q) n = Some e \<and> entryAt (bmEntries r) q = Some e"
proof -
  let ?R = "pathClean root" and ?rs = "pathSegs root" and ?es = "bmEntries r"
  have set: "set ?es = {e. \<exists>q n. q \<in> {q. q \<in> fst ` set dsk \<and> below ?rs q} \<and> q \<noteq> ?rs \<and> map_of dsk q = Some n \<and> entryFor sha ?R q n = Some e}"
    using build_facts [OF run root ok prev ord] unfolding whole_project [OF root ok] by (rule conjunct1)
  have sg: "segs e = q'" if "entryFor sha ?R (?rs @ q') n = Some e" "map_of dsk (?rs @ q') = Some n" for e q' n
  proof -
    have "normalSegs (?rs @ q')" using ok map_of_SomeD [OF that(2)] unfolding diskOk_def by force
    then show ?thesis using entryFor_path [OF that(1)] by (simp add: segs_def relAt_def pathSegs_relPath)
  qed
  have home: "\<exists>n. map_of dsk (?rs @ q) = Some n \<and> entryFor sha ?R (?rs @ q) n = Some f" if f: "f \<in> set ?es" "segs f = q" for f
  proof -
    obtain q1 n where k: "below ?rs q1" "map_of dsk q1 = Some n" "entryFor sha ?R q1 n = Some f" using f(1) set by blast
    then obtain r1 where r1: "q1 = ?rs @ r1" by (auto simp: below_iff)
    then have "r1 = q" using sg [of r1 n f] k f(2) by simp
    then show ?thesis using k r1 by blast
  qed
  show ?thesis
  proof (cases "map_of dsk (?rs @ q)")
    case None
    then have "\<not> (\<exists>f \<in> set ?es. segs f = q)" using home by fastforce
    then show ?thesis using None entryAt_None by force
  next
    case (Some n)
    have "plainNode ?R (?rs @ q) n" using plain map_of_SomeD [OF Some] unfolding plainProject_def list_all_iff by fastforce
    then obtain e where e: "entryFor sha ?R (?rs @ q) n = Some e"
      by (cases n) (auto simp: plainNode_def entryFor_def)
    have "?rs @ q \<in> fst ` set dsk" using map_of_SomeD [OF Some] by force
    then have "\<exists>q n. q \<in> {q. q \<in> fst ` set dsk \<and> below ?rs q} \<and> q \<noteq> ?rs \<and> map_of dsk q = Some n \<and> entryFor sha ?R q n = Some e"
      by (intro exI [of _ "?rs @ q"] exI [of _ n]) (use Some e q in simp)
    then have "e \<in> set ?es" unfolding set by (rule CollectI)
    moreover have "f = e" if "f \<in> set ?es" "segs f = q" for f using home [OF that] Some e by auto
    ultimately have "entryAt ?es q = Some e" using entryAt_uniq sg [OF e Some] by blast
    then show ?thesis using Some e by simp
  qed
qed

lemma project_agrees:
  assumes run: "BuildManifest sha env root [] prev dsk = Inr r" and root: "isAbs root"
    and ok: "diskOk dsk" and prev: "previousTrue sha (pathClean root) (previousFileEntries prev) dsk"
    and ord: "\<And>js. set (weOrder env js) = set js" and plain: "plainProject (pathClean root) dsk"
  shows "manifestOk (bmEntries r) \<and> agrees sha False (projectTree root dsk) (bmEntries r)"
proof
  let ?R = "pathClean root" and ?rs = "pathSegs root" and ?es = "bmEntries r"
  note at = project_entries [OF run root ok prev ord plain]
  show "agrees sha False (projectTree root dsk) ?es"
  proof (rule agreesI)
    fix q :: "string list" assume q: "q \<noteq> []"
    show "case entryAt ?es q of None \<Rightarrow> map_of (projectTree root dsk) q = None | Some e \<Rightarrow> holdsEntry sha False (projectTree root dsk) e"
    proof (cases "map_of dsk (?rs @ q)")
      case None
      then show ?thesis using at [OF q] by (simp add: map_of_projectTree)
    next
      case (Some n)
      then obtain e where e: "entryFor sha ?R (?rs @ q) n = Some e" "entryAt ?es q = Some e" using at [OF q] by auto
      have "plainNode ?R (?rs @ q) n" using plain map_of_SomeD [OF Some] unfolding plainProject_def list_all_iff by fastforce
      then have "nodeFits sha False e (workNode n)"
        using e(1) by (cases n) (auto simp: plainNode_def entryFor_def nodeFits_def workNode_def fileMode_def)
      then show ?thesis using e(2) entryAt_Some [OF e(2)] Some by (simp add: holdsEntry_def map_of_projectTree)
    qed
  qed
  have set: "set ?es = {e. \<exists>q n. q \<in> {q. q \<in> fst ` set dsk \<and> below ?rs q} \<and> q \<noteq> ?rs \<and> map_of dsk q = Some n \<and> entryFor sha ?R q n = Some e}"
    using build_facts [OF run root ok prev ord] unfolding whole_project [OF root ok] by (rule conjunct1)
  have dist: "distinct (map Path ?es)" using build_facts [OF run root ok prev ord] by blast
  have "localApplyPath (Path e) = Inr (Path e) \<and> Path e \<noteq> ''.''
      \<and> list_all (\<lambda>q. case entryAt ?es q of None \<Rightarrow> False | Some f \<Rightarrow> Kind f = KindDir) (properParents (segs e))"
    if e: "e \<in> set ?es" for e
  proof -
    obtain q0 n where k: "below ?rs q0" "q0 \<noteq> ?rs" "map_of dsk q0 = Some n" "entryFor sha ?R q0 n = Some e" using e set by blast
    then obtain q where q: "q0 = ?rs @ q" "q \<noteq> []" by (auto simp: below_iff)
    have norm: "normalSegs (?rs @ q)" using ok map_of_SomeD [OF k(3)] q unfolding diskOk_def by force
    have p: "Path e = relPath q" "segs e = q"
      using entryFor_path [OF k(4)] q norm by (simp_all add: relAt_def segs_def pathSegs_relPath)
    have "plainNode ?R (?rs @ q) n" using plain map_of_SomeD [OF k(3)] q k(1) unfolding plainProject_def list_all_iff by fastforce
    then have l: "localApplyPath (Path e) = Inr (Path e)" using q p by (simp add: plainNode_def relAt_def)
    have par: "case entryAt ?es p' of None \<Rightarrow> False | Some f \<Rightarrow> Kind f = KindDir" if p': "p' \<in> set (properParents (segs e))" for p'
    proof -
      have pp: "p' \<noteq> []" "p' \<noteq> q" "below p' q" using p' p by (simp_all add: properParents_set)
      have b: "below (?rs @ p') (?rs @ q)" using pp(3) by (auto simp: below_iff)
      have "?rs @ q \<in> fst ` set dsk" using map_of_SomeD [OF k(3)] q by force
      then have "?rs @ p' \<in> fst ` set dsk" using disk_ancestors [OF ok _ b] by simp
      then obtain n' where n': "(?rs @ p', n') \<in> set dsk" by auto
      have "isDDir n'"
        using ok n' map_of_SomeD [OF k(3)] q b pp(2) unfolding diskOk_def by (metis append_same_eq fst_conv same_append_eq snd_conv)
      then obtain m t where dir: "n' = DDir m t" by (auto simp: isDDir_def split: diskNode.splits)
      have "map_of dsk (?rs @ p') = Some n'" using ok n' by (simp add: diskOk_def)
      then show ?thesis using at [OF pp(1)] dir by (auto simp: entryFor_def)
    qed
    then show ?thesis using l p q norm by (simp add: list_all_iff relPath_dot)
  qed
  then show "manifestOk ?es" using dist by (simp add: manifestOk_def list_all_iff)
qed

section \<open>Properties\<close>

text \<open>
  C14. A manifest lists exactly what is selected: an entry for each node that some mount selects
  and that is a directory, a file or a portable link, with its size, mode and time, its target,
  and the hash of its content, each path once and in order; a hash taken over from an earlier
  manifest is the hash of the content, if that manifest was right about unchanged files.
\<close>

theorem manifest_lists_selection:
  assumes "BuildManifest sha env root mounts prev dsk = Inr r" and "isAbs root"
    and "diskOk dsk" and "previousTrue sha (pathClean root) (previousFileEntries prev) dsk"
    and "\<And>js. set (weOrder env js) = set js"
  shows "set (bmEntries r) = {e. \<exists>q n. q \<in> selectedNodes (pathClean root) dsk (snd (normalizeBuildInputs root mounts))
        \<and> q \<noteq> pathSegs root \<and> map_of dsk q = Some n \<and> entryFor sha (pathClean root) q n = Some e}
    \<and> sorted (map Path (bmEntries r)) \<and> distinct (map Path (bmEntries r))"
  using build_facts [OF assms] by simp

text \<open>
  Every hash of a manifest can be sent: the blob source of a file's hash is the path of a
  file with that content.
\<close>

theorem manifest_hashes_have_sources:
  assumes "BuildManifest sha env root mounts prev dsk = Inr r" and "isAbs root"
    and "diskOk dsk" and "previousTrue sha (pathClean root) (previousFileEntries prev) dsk"
    and "\<And>js. set (weOrder env js) = set js" and "e \<in> set (bmEntries r)" and "Kind e = KindFile"
  shows "\<exists>q m c t. bmSources r (Hash e) = Some (pathOf q) \<and> map_of dsk q = Some (DFile m c t) \<and> sha c = Hash e"
proof -
  note f = build_facts [OF assms(1-5)]
  obtain a where a: "bmSources r (Hash e) = Some a" using f assms(6,7) by blast
  have "\<forall>h a. bmSources r h = Some a \<longrightarrow> (\<exists>q m c t. a = pathOf q \<and> map_of dsk q = Some (DFile m c t) \<and> h = sha c)"
    using f by blast
  then show ?thesis using a by metis
qed

text \<open>
  C21. The links of a manifest stay inside the project: read from the directory of the link, the
  target is at or below the root, also when an absolute target was made relative.
\<close>

theorem manifest_links_stay_inside:
  assumes "isAbs root" and "portableSymlinkTarget root (pathOf q) target = Inr (Some linkname)"
  shows "below (pathSegs root) (pathSegs (pathJoin [pathDir (pathOf q), linkname]))"
  by (rule portable_inside [OF assms(1) pathOf_abs assms(2)])

section \<open>Examples\<close>

definition quietWalk :: walkEnv where
  "quietWalk = \<lparr>weDone = \<lambda>_. False, weNoReadDir = \<lambda>_. False, weNoInfo = \<lambda>_. False, weNoReadlink = \<lambda>_. False,
     weNoHash = \<lambda>_. False, weOrder = rev, weDoneAtEnd = False\<rparr>"

definition demoProject :: diskTree where
  "demoProject = [([], DDir 493 1), ([''p''], DDir 493 1), ([''p'', ''c''], DDir 493 2), ([''p'', ''c'', ''d''], DFile 420 ''y'' 3),
     ([''p'', ''a''], DFile 420 ''x'' 4), ([''p'', ''b''], DLink 511 ''/p/a'' 5), ([''p'', ''s''], DOther)]"

lemma demoProject_ok: "diskOk demoProject" "isAbs ''/p''" "set (weOrder quietWalk js) = set js"
proof -
  have n: "\<forall>x \<in> set demoProject. normalSegs (fst x)" by (simp add: demoProject_def normalSeg_def)
  have b: "\<forall>x \<in> set demoProject. \<forall>y \<in> set demoProject. below (fst x) (fst y) \<and> fst x \<noteq> fst y \<longrightarrow> isDDir (snd x)"
    by (simp add: demoProject_def below_def isDDir_def)
  show "diskOk demoProject" unfolding diskOk_def using n b by (simp add: demoProject_def)
qed (simp_all add: isAbs_def quietWalk_def)

lemma manifest_lists_selection_witness:
  "let ms = [\<lparr>mountPath = ''.'', mountExclude = [''c/'']\<rparr>]
   in case BuildManifest (\<lambda>c. ''h'' @ c) quietWalk ''/p'' ms [] demoProject of
        Inl e \<Rightarrow> False
      | Inr r \<Rightarrow> map Path (bmEntries r) = [''a'', ''b''] \<and> distinct (map Path (bmEntries r))"
proof -
  let ?ms = "[\<lparr>mountPath = ''.'', mountExclude = [''c/'']\<rparr>]"
  let ?b = "BuildManifest (\<lambda>c. ''h'' @ c) quietWalk ''/p'' ?ms [] demoProject"
  have "case ?b of Inl e \<Rightarrow> False | Inr r \<Rightarrow> map Path (bmEntries r) = [''a'', ''b'']" by code_simp
  then obtain r where r: "?b = Inr r" "map Path (bmEntries r) = [''a'', ''b'']" by (cases ?b) auto
  have p: "previousTrue (\<lambda>c. ''h'' @ c) (pathClean ''/p'') (previousFileEntries []) demoProject" by code_simp
  show ?thesis
    using manifest_lists_selection [OF r(1) demoProject_ok(2,1) p demoProject_ok(3)] r by simp
qed

lemma demo_built:
  "case BuildManifest (\<lambda>c. ''h'' @ c) quietWalk ''/p'' [] [] demoProject of
     Inl e \<Rightarrow> False | Inr r \<Rightarrow> bmEntries r ! 2 = \<lparr>Path = ''c'', Kind = KindDir, Hash = [], Size = 0, Mode = 493, ModTime = 2, Linkname = []\<rparr>
       \<and> bmEntries r ! 3 = \<lparr>Path = ''c/d'', Kind = KindFile, Hash = ''hy'', Size = 1, Mode = 420, ModTime = 3, Linkname = []\<rparr>
       \<and> length (bmEntries r) = 4"
  by code_simp

lemma manifest_hashes_have_sources_witness:
  "case BuildManifest (\<lambda>c. ''h'' @ c) quietWalk ''/p'' [] [] demoProject of
     Inl e \<Rightarrow> False | Inr r \<Rightarrow> bmSources r ''hy'' \<noteq> None"
proof -
  let ?b = "BuildManifest (\<lambda>c. ''h'' @ c) quietWalk ''/p'' [] [] demoProject"
  obtain r where r: "?b = Inr r" "length (bmEntries r) = 4"
      "bmEntries r ! 3 = \<lparr>Path = ''c/d'', Kind = KindFile, Hash = ''hy'', Size = 1, Mode = 420, ModTime = 3, Linkname = []\<rparr>"
    using demo_built by (cases ?b) auto
  have m: "bmEntries r ! 3 \<in> set (bmEntries r)" using r(2) by simp
  have p: "previousTrue (\<lambda>c. ''h'' @ c) (pathClean ''/p'') (previousFileEntries []) demoProject" by code_simp
  have k: "Kind (bmEntries r ! 3) = KindFile" "Hash (bmEntries r ! 3) = ''hy''" using r(3) by simp_all
  show ?thesis
    using manifest_hashes_have_sources [OF r(1) demoProject_ok(2,1) p demoProject_ok(3) m k(1)] k(2) r(1) by auto
qed

lemma manifest_links_stay_inside_witness:
  "portableSymlinkTarget ''/p'' ''/p/c/l'' ''/p/a/../b'' = Inr (Some ''../b'')
    \<and> below (pathSegs ''/p'') (pathSegs (pathJoin [pathDir (pathOf [''p'', ''c'', ''l'']), ''../b'']))"
proof -
  have p: "isAbs ''/p''" "portableSymlinkTarget ''/p'' (pathOf [''p'', ''c'', ''l'']) ''/p/a/../b'' = Inr (Some ''../b'')"
    and q: "pathOf [''p'', ''c'', ''l''] = ''/p/c/l''" by code_simp+
  show ?thesis using manifest_links_stay_inside [OF p] p(2) unfolding q by blast
qed

text \<open>A link out of the project is left out of the manifest, without an error.\<close>

lemma outside_link_left_out:
  "case BuildManifest (\<lambda>c. c) quietWalk ''/p'' [] [] [([], DDir 493 1), ([''p''], DDir 493 1), ([''p'', ''l''], DLink 511 ''../q'' 2)] of
     Inl e \<Rightarrow> False | Inr r \<Rightarrow> bmEntries r = []"
  by code_simp
end
