(* ===== verification/Version.thy ===== *)
theory Version
  imports GoRunes
begin

text \<open>
  Release versions (internal/version/semver.go): parsing \<open>vMAJOR.MINOR.PATCH[-pre][+build]\<close>
  and comparing two releases. The host's self-update compares the running release with the
  requested one, so the comparison has to be an order.
\<close>

record releaseVersion =
  major :: int
  minor :: int
  patch :: int
  pre :: "string list"

definition releaseCoreParts :: nat where "releaseCoreParts = 3"

definition parseDigits :: "string \<Rightarrow> int option" where
  "parseDigits value =
     (if value = [] then None
      else if \<not> list_all isDigit (runes value) then None
      else atoi value)"

definition parsePrereleaseNumber :: "string \<Rightarrow> int option" where
  "parsePrereleaseNumber value = parseDigits value"

definition parseNumericPart :: "string \<Rightarrow> int option" where
  "parseNumericPart value =
     (if 1 < length value \<and> hd value = CHR ''0'' then None else parseDigits value)"

definition validIdentRune :: "nat \<Rightarrow> bool" where
  "validIdentRune r \<longleftrightarrow>
     isDigit r \<or> (0x41 \<le> r \<and> r \<le> 0x5A) \<or> (0x61 \<le> r \<and> r \<le> 0x7A) \<or> r = 0x2D"

definition validDotIdentifiers :: "string \<Rightarrow> bool" where
  "validDotIdentifiers value \<longleftrightarrow>
     value \<noteq> [] \<and>
     list_all (\<lambda>part. part \<noteq> [] \<and> list_all validIdentRune (runes part))
       (splitOn (CHR ''.'') value)"

definition parseCore :: "string \<Rightarrow> (int \<times> int \<times> int) option" where
  "parseCore base =
     (let parts = splitOn (CHR ''.'') base in
      if length parts \<noteq> releaseCoreParts then None
      else (case parseNumericPart (parts ! 0) of
          None \<Rightarrow> None
        | Some ma \<Rightarrow> (case parseNumericPart (parts ! 1) of
            None \<Rightarrow> None
          | Some mi \<Rightarrow> (case parseNumericPart (parts ! 2) of
              None \<Rightarrow> None
            | Some pa \<Rightarrow> Some (ma, mi, pa)))))"

definition parseRelease :: "string \<Rightarrow> releaseVersion option" where
  "parseRelease v0 =
     (let v = trimSpace v0 in
      if \<not> hasPrefix v ''v'' then None
      else
        (let (core, metadata, hasBuild) = cut (CHR ''+'') (drop 1 v) in
         if core = [] then None
         else
           (let (base, prerel, hasPre) = cut (CHR ''-'') core in
            case parseCore base of
              None \<Rightarrow> None
            | Some (ma, mi, pa) \<Rightarrow>
                if hasPre \<and> \<not> validDotIdentifiers prerel then None
                else if hasBuild \<and> \<not> validDotIdentifiers metadata then None
                else Some \<lparr>major = ma, minor = mi, patch = pa,
                           pre = (if hasPre then splitOn (CHR ''.'') prerel else [])\<rparr>)))"

definition ValidRelease :: "string \<Rightarrow> bool" where
  "ValidRelease v \<longleftrightarrow> parseRelease v \<noteq> None"

text \<open>\<open>strings.Compare\<close>: bytewise lexicographic, -1, 0 or 1.\<close>

fun stringsCompare :: "string \<Rightarrow> string \<Rightarrow> int" where
  "stringsCompare [] [] = 0"
| "stringsCompare [] (y # ys) = -1"
| "stringsCompare (x # xs) [] = 1"
| "stringsCompare (x # xs) (y # ys) =
     (if byte x < byte y then -1 else if byte y < byte x then 1 else stringsCompare xs ys)"

definition compareInt :: "int \<Rightarrow> int \<Rightarrow> int" where
  "compareInt a b = (if a < b then -1 else if b < a then 1 else 0)"

definition comparePrereleaseIdentifier :: "string \<Rightarrow> string \<Rightarrow> int" where
  "comparePrereleaseIdentifier a b =
     (case (parsePrereleaseNumber a, parsePrereleaseNumber b) of
        (Some aNum, Some bNum) \<Rightarrow> compareInt aNum bNum
      | (Some _, None) \<Rightarrow> -1
      | (None, Some _) \<Rightarrow> 1
      | (None, None) \<Rightarrow> stringsCompare a b)"

text \<open>
  The loop over the common length, then the comparison of the lengths: a list that is a
  proper prefix is the smaller one.
\<close>

fun compareLists :: "('a \<Rightarrow> 'a \<Rightarrow> int) \<Rightarrow> 'a list \<Rightarrow> 'a list \<Rightarrow> int" where
  "compareLists cmp [] [] = 0"
| "compareLists cmp [] (y # ys) = -1"
| "compareLists cmp (x # xs) [] = 1"
| "compareLists cmp (x # xs) (y # ys) =
     (let c = cmp x y in if c \<noteq> 0 then c else compareLists cmp xs ys)"

definition comparePrerelease :: "string list \<Rightarrow> string list \<Rightarrow> int" where
  "comparePrerelease a b =
     (if a = [] \<and> b = [] then 0
      else if a = [] then 1
      else if b = [] then -1
      else compareLists comparePrereleaseIdentifier a b)"

definition compareParsed :: "releaseVersion \<Rightarrow> releaseVersion \<Rightarrow> int" where
  "compareParsed av bv =
     (if major av < major bv then -1 else if major bv < major av then 1
      else if minor av < minor bv then -1 else if minor bv < minor av then 1
      else if patch av < patch bv then -1 else if patch bv < patch av then 1
      else comparePrerelease (pre av) (pre bv))"

definition CompareRelease :: "string \<Rightarrow> string \<Rightarrow> int option" where
  "CompareRelease a b =
     (case parseRelease a of
        None \<Rightarrow> None
      | Some av \<Rightarrow>
          (case parseRelease b of
             None \<Rightarrow> None
           | Some bv \<Rightarrow> Some (compareParsed av bv)))"

section \<open>Three-way comparisons\<close>

text \<open>
  What a sorting or upgrading client needs of a comparison: it is antisymmetric in sign
  and transitive, so that it orders its arguments up to ties.
\<close>

locale three_way =
  fixes cmp :: "'a \<Rightarrow> 'a \<Rightarrow> int"
  assumes swap: "cmp b a = - cmp a b"
    and trans_le: "cmp a b \<le> 0 \<Longrightarrow> cmp b c \<le> 0 \<Longrightarrow> cmp a c \<le> 0"
begin

lemma refl: "cmp a a = 0"
  using swap [of a a] by simp

lemma total: "cmp a b \<le> 0 \<or> cmp b a \<le> 0"
  using swap [of a b] by linarith

lemma tie_left: "cmp a b = 0 \<Longrightarrow> cmp a c \<le> 0 \<longleftrightarrow> cmp b c \<le> 0"
  using trans_le [of a b c] trans_le [of b a c] swap [of a b] by auto

lemma tie_right: "cmp b c = 0 \<Longrightarrow> cmp a b \<le> 0 \<longleftrightarrow> cmp a c \<le> 0"
  using trans_le [of a b c] trans_le [of a c b] swap [of b c] by auto

lemma less_trans1: "cmp a b < 0 \<Longrightarrow> cmp b c \<le> 0 \<Longrightarrow> cmp a c < 0"
proof -
  assume ab: "cmp a b < 0" and bc: "cmp b c \<le> 0"
  have "\<not> cmp c a \<le> 0"
  proof
    assume "cmp c a \<le> 0"
    with bc have "cmp b a \<le> 0" by (rule trans_le)
    with ab swap [of a b] show False by linarith
  qed
  with swap [of c a] show ?thesis by linarith
qed

lemma less_trans2: "cmp a b \<le> 0 \<Longrightarrow> cmp b c < 0 \<Longrightarrow> cmp a c < 0"
proof -
  assume ab: "cmp a b \<le> 0" and bc: "cmp b c < 0"
  have "\<not> cmp c a \<le> 0"
  proof
    assume "cmp c a \<le> 0"
    from this ab have "cmp c b \<le> 0" by (rule trans_le)
    with bc swap [of b c] show False by linarith
  qed
  with swap [of c a] show ?thesis by linarith
qed

lemma less_trans3: "cmp a b < 0 \<Longrightarrow> cmp b c < 0 \<Longrightarrow> cmp a c < 0"
  by (rule less_trans1) auto

lemma tie_trans: "cmp a b = 0 \<Longrightarrow> cmp b c = 0 \<Longrightarrow> cmp a c = 0"
  using trans_le [of a b c] trans_le [of c b a] swap [of a b] swap [of b c] swap [of a c]
  by linarith

end

text \<open>Comparing lists element by element keeps the contract.\<close>

locale three_way_lists = three_way
begin

lemma lists_swap: "compareLists cmp ys xs = - compareLists cmp xs ys"
proof (induction xs ys rule: list_induct2')
  case (4 x xs y ys)
  then show ?case using swap [of x y] by (simp add: Let_def)
qed simp_all

lemma lists_trans:
  "compareLists cmp xs ys \<le> 0 \<Longrightarrow> compareLists cmp ys zs \<le> 0 \<Longrightarrow> compareLists cmp xs zs \<le> 0"
proof (induction xs arbitrary: ys zs)
  case Nil
  then show ?case by (cases zs) auto
next
  case (Cons x xs)
  from Cons.prems(1) obtain y ys' where ys: "ys = y # ys'" by (cases ys) auto
  with Cons.prems(2) obtain z zs' where zs: "zs = z # zs'" by (cases zs) auto
  from Cons.prems(1) ys have xy: "cmp x y < 0 \<or> cmp x y = 0 \<and> compareLists cmp xs ys' \<le> 0"
    by (auto simp: Let_def split: if_splits)
  from Cons.prems(2) ys zs have yz: "cmp y z < 0 \<or> cmp y z = 0 \<and> compareLists cmp ys' zs' \<le> 0"
    by (auto simp: Let_def split: if_splits)
  have "cmp x z < 0 \<or> cmp x z = 0 \<and> compareLists cmp xs zs' \<le> 0"
    using xy yz less_trans1 [of x y z] less_trans2 [of x y z] tie_trans [of x y z]
      Cons.IH [of ys' zs'] by auto
  with zs show ?case by (auto simp: Let_def)
qed

end

sublocale three_way_lists \<subseteq> lists: three_way "compareLists cmp"
  by unfold_locales (fact lists_swap, fact lists_trans)

section \<open>The comparisons of the source meet the contract\<close>

lemma stringsCompare_swap: "stringsCompare t s = - stringsCompare s t"
  by (induction s t rule: stringsCompare.induct) auto

lemma stringsCompare_trans:
  "stringsCompare s t \<le> 0 \<Longrightarrow> stringsCompare t u \<le> 0 \<Longrightarrow> stringsCompare s u \<le> 0"
proof (induction s arbitrary: t u)
  case Nil
  then show ?case by (cases u) auto
next
  case (Cons x s)
  from Cons.prems(1) obtain y t' where t: "t = y # t'" by (cases t) auto
  with Cons.prems(2) obtain z u' where u: "u = z # u'" by (cases u) auto
  from Cons.prems t u Cons.IH [of t' u'] show ?case
    by (auto split: if_splits)
qed

interpretation strCmp: three_way stringsCompare
  by unfold_locales (fact stringsCompare_swap, fact stringsCompare_trans)

interpretation identCmp: three_way_lists comparePrereleaseIdentifier
proof unfold_locales
  show "comparePrereleaseIdentifier b a = - comparePrereleaseIdentifier a b" for a b
    using strCmp.swap [of a b]
    by (auto simp: comparePrereleaseIdentifier_def compareInt_def split: option.splits)
next
  show "comparePrereleaseIdentifier a b \<le> 0 \<Longrightarrow> comparePrereleaseIdentifier b c \<le> 0 \<Longrightarrow>
      comparePrereleaseIdentifier a c \<le> 0" for a b c
    using strCmp.trans_le [of a b c]
    by (auto simp: comparePrereleaseIdentifier_def compareInt_def split: option.splits if_splits)
qed

interpretation preCmp: three_way comparePrerelease
proof unfold_locales
  show "comparePrerelease b a = - comparePrerelease a b" for a b
    using identCmp.lists.swap [of a b] by (auto simp: comparePrerelease_def)
next
  show "comparePrerelease a b \<le> 0 \<Longrightarrow> comparePrerelease b c \<le> 0 \<Longrightarrow> comparePrerelease a c \<le> 0"
    for a b c
    using identCmp.lists.trans_le [of a b c]
    by (auto simp: comparePrerelease_def split: if_splits)
qed

interpretation parsedCmp: three_way compareParsed
proof unfold_locales
  show "compareParsed b a = - compareParsed a b" for a b
    using preCmp.swap [of "pre a" "pre b"] by (auto simp: compareParsed_def)
next
  show "compareParsed a b \<le> 0 \<Longrightarrow> compareParsed b c \<le> 0 \<Longrightarrow> compareParsed a c \<le> 0" for a b c
    using preCmp.trans_le [of "pre a" "pre b" "pre c"]
    by (auto simp: compareParsed_def split: if_splits)
qed

lemma CompareRelease_Some:
  "CompareRelease a b = Some c \<longleftrightarrow>
   (\<exists>av bv. parseRelease a = Some av \<and> parseRelease b = Some bv \<and> c = compareParsed av bv)"
  by (auto simp: CompareRelease_def split: option.splits)

lemma parseRelease_fields:
  assumes "parseRelease v = Some r"
  shows "0 \<le> major r" "0 \<le> minor r" "0 \<le> patch r"
    "major r \<le> maxInt64" "minor r \<le> maxInt64" "patch r \<le> maxInt64"
  using assms
  by (auto simp: parseRelease_def parseCore_def parseNumericPart_def parseDigits_def Let_def
      dest: atoi_bounds split: if_splits option.splits prod.splits)

section \<open>Properties\<close>

text \<open>
  C26. Comparing two releases the other way round gives the opposite answer, and both
  directions fail on the same inputs, so client and host never each take the other for
  the newer one.
\<close>

theorem compare_release_antisym:
  "CompareRelease b a = map_option uminus (CompareRelease a b)"
proof (cases "parseRelease a = None \<or> parseRelease b = None")
  case True
  then show ?thesis by (auto simp: CompareRelease_def split: option.splits)
next
  case False
  then obtain ra rb where "parseRelease a = Some ra" "parseRelease b = Some rb" by auto
  then show ?thesis using parsedCmp.swap [of rb ra] by (simp add: CompareRelease_def)
qed

text \<open>
  The order of releases is transitive, through the cores, the prerelease identifiers
  and their lengths: sorting or picking the newest release is well defined.
\<close>

theorem compare_release_trans:
  assumes "CompareRelease a b = Some c" "CompareRelease b d = Some e" "c \<le> 0" "e \<le> 0"
  shows "\<exists>f. CompareRelease a d = Some f \<and> f \<le> 0"
proof -
  obtain ra rb rd where r: "parseRelease a = Some ra" "parseRelease b = Some rb"
    "parseRelease d = Some rd" "c = compareParsed ra rb" "e = compareParsed rb rd"
    using assms(1,2) unfolding CompareRelease_Some by force
  have "compareParsed ra rd \<le> 0"
    using parsedCmp.trans_le [of ra rb rd] assms(3,4) r by simp
  moreover have "CompareRelease a d = Some (compareParsed ra rd)"
    using r(1,3) by (simp add: CompareRelease_def)
  ultimately show ?thesis by simp
qed

lemma compare_release_trans_witness:
  "CompareRelease ''v1.2.3-rc.1'' ''v1.2.3-rc.2'' = Some (-1) \<and>
   CompareRelease ''v1.2.3-rc.2'' ''v1.2.3'' = Some (-1) \<and>
   (\<exists>f. CompareRelease ''v1.2.3-rc.1'' ''v1.2.3'' = Some f \<and> f \<le> 0)"
proof -
  have a: "CompareRelease ''v1.2.3-rc.1'' ''v1.2.3-rc.2'' = Some (-1)" by code_simp
  have b: "CompareRelease ''v1.2.3-rc.2'' ''v1.2.3'' = Some (-1)" by code_simp
  from compare_release_trans [OF a b] a b show ?thesis by simp
qed

text \<open>
  Numeric identifiers beyond an int64 do not parse as numbers and compare byte by byte, so
  a larger number can come first; semantic versioning orders them as numbers.
\<close>

lemma huge_not_number:
  "maxInt64 < int (digitsValue v) \<Longrightarrow> parsePrereleaseNumber v = None"
  by (simp add: parsePrereleaseNumber_def parseDigits_def atoi_def)

lemma huge_identifier_order:
  "comparePrereleaseIdentifier ''100000000000000000000'' ''99999999999999999999'' = -1"
proof -
  have "parsePrereleaseNumber ''100000000000000000000'' = None"
    "parsePrereleaseNumber ''99999999999999999999'' = None"
    by (rule huge_not_number, simp add: digitsValue_def maxInt64_def)+
  then show ?thesis by (simp add: comparePrereleaseIdentifier_def)
qed

end
