(* ===== verification/HostGate.thy ===== *)
theory HostGate
  imports Version GoPath
begin

text \<open>
  Runs and restarts exclude each other (host/server.go, host/update.go). A run counts as active
  from its request to its end; an update asks for a restart, which refuses new runs, waits for
  the active ones and then stops the listener. Other goroutines act between the polls of the
  wait: what they do is a list of operations per poll.
\<close>

record restartGate =
  restarting :: bool
  activeRuns :: int
  restartExecutable :: string
  restartVersion :: string
  restartInstallTarget :: string

datatype hostError =
    RestartPending | WaitCancelled | InvalidVersion string | InstallDirError | MkdirError | GoInstallFailed
  | ExecutableMissing | RestartInProgress | HostWriteFailed

record restartState =
  rsExecutable :: string
  rsVersion :: string
  rsInstallTarget :: string

section \<open>The gate\<close>

definition acquireRun :: "restartGate \<Rightarrow> restartGate \<times> (hostError + unit)" where
  "acquireRun g = (if restarting g then (g, Inl RestartPending) else (g\<lparr>activeRuns := activeRuns g + 1\<rparr>, Inr ()))"

definition releaseRun :: "restartGate \<Rightarrow> restartGate" where
  "releaseRun g = (if 0 < activeRuns g then g\<lparr>activeRuns := activeRuns g - 1\<rparr> else g)"

definition beginRestart :: "string \<Rightarrow> string \<Rightarrow> string \<Rightarrow> restartGate \<Rightarrow> restartGate \<times> bool" where
  "beginRestart executable targetVersion installTarget g =
     (if restarting g then (g, False)
      else (g\<lparr>restarting := True, restartExecutable := executable, restartVersion := targetVersion,
              restartInstallTarget := installTarget\<rparr>, True))"

definition cancelRestart :: "restartGate \<Rightarrow> restartGate" where
  "cancelRestart g = g\<lparr>restarting := False, restartExecutable := [], restartVersion := [], restartInstallTarget := []\<rparr>"

definition restartRequest :: "restartGate \<Rightarrow> restartState \<times> bool" where
  "restartRequest g =
     (\<lparr>rsExecutable = restartExecutable g, rsVersion = restartVersion g, rsInstallTarget = restartInstallTarget g\<rparr>, restarting g)"

definition restartWasRequested :: "restartGate \<Rightarrow> bool" where
  "restartWasRequested g = restarting g"

datatype gateOp = OpAcquire | OpRelease

fun gateStep :: "gateOp \<Rightarrow> restartGate \<Rightarrow> restartGate" where
  "gateStep OpAcquire g = fst (acquireRun g)"
| "gateStep OpRelease g = releaseRun g"

text \<open>
  A round: what the others did since the last poll, and whether the context is done at the
  select after it. \<open>None\<close>: still waiting after these rounds.
\<close>

fun waitForActiveRuns :: "(gateOp list \<times> bool) list \<Rightarrow> restartGate \<Rightarrow> restartGate \<times> (hostError + unit) option" where
  "waitForActiveRuns [] g = (g, None)"
| "waitForActiveRuns ((ops, cancelled) # rounds) g =
     (let g1 = fold gateStep ops g in
      if activeRuns g1 = 0 then (g1, Some (Inr ()))
      else if cancelled then (g1, Some (Inl WaitCancelled))
      else waitForActiveRuns rounds g1)"

section \<open>Connections\<close>

definition maxLiveConnections :: nat where "maxLiveConnections = 32"

text \<open>\<open>startConnection\<close> takes a place without blocking; the handler gives it back at its end.\<close>

definition startConnection :: "nat \<Rightarrow> nat \<times> bool" where
  "startConnection live = (if live < maxLiveConnections then (live + 1, True) else (live, False))"

section \<open>Updating the host\<close>

definition CommandPackage :: string where "CommandPackage = ''github.com/manuel-huez/rmtx/cmd/rmtx''"

definition updateInstallTarget :: "string \<Rightarrow> string" where
  "updateInstallTarget targetVersion = CommandPackage @ ''@'' @ targetVersion"

text \<open>\<open>filepath.Abs\<close> joins a relative path to the working directory, or fails.\<close>

definition updateInstallDir :: "string option \<Rightarrow> string \<Rightarrow> string \<Rightarrow> hostError + string" where
  "updateInstallDir cwd stateDir targetVersion =
     (let p = pathJoin [stateDir, ''updates'', targetVersion] in
      if isAbs p then Inr (pathClean p)
      else case cwd of None \<Rightarrow> Inl InstallDirError | Some d \<Rightarrow> Inr (pathJoin [d, p]))"

definition updateExecutablePath :: "string \<Rightarrow> string \<Rightarrow> string" where
  "updateExecutablePath suffix installDir = pathJoin [installDir, pathBase CommandPackage @ suffix]"

record updateResult =
  urInstallTarget :: string
  urExecutable :: string

record updateSteps =
  usMkdir :: bool
  usInstall :: bool
  usStat :: bool

definition defaultUpdateRunner :: "string \<Rightarrow> updateSteps \<Rightarrow> string \<Rightarrow> string \<Rightarrow> updateResult \<times> (hostError + unit)" where
  "defaultUpdateRunner suffix steps targetVersion installDir =
     (let result = \<lparr>urInstallTarget = updateInstallTarget targetVersion, urExecutable = updateExecutablePath suffix installDir\<rparr> in
      if \<not> usMkdir steps then (result, Inl MkdirError)
      else if \<not> usInstall steps then (result, Inl GoInstallFailed)
      else if \<not> usStat steps then (result, Inl ExecutableMissing)
      else (result, Inr ()))"

text \<open>\<open>environWith\<close>: one variable of the environment replaced, whatever the case of its name.\<close>

definition environWith :: "string list \<Rightarrow> string \<Rightarrow> string \<Rightarrow> string list" where
  "environWith env key val =
     filter (\<lambda>entry. case cut (CHR ''='') entry of (before, _, ok) \<Rightarrow> \<not> (ok \<and> equalFold before key)) env
       @ [key @ ''='' @ val]"

record hostUpdateResponse =
  hrUpdated :: bool
  hrRestarting :: bool
  hrVersion :: string
  hrInstallTarget :: string

record hostUpdateEnv =
  ueCurrent :: string
  ueCwd :: "string option"
  ueStateDir :: string
  ueRunner :: "string \<Rightarrow> string \<Rightarrow> updateResult \<times> (hostError + unit)"
  ueRounds :: "(gateOp list \<times> bool) list"
  ueWrite :: bool

text \<open>
  The result: the gate, whether the listener was closed, and the response or the error;
  \<open>None\<close> while the wait goes on.
\<close>

definition handleHostUpdateRequest ::
  "hostUpdateEnv \<Rightarrow> string \<Rightarrow> restartGate \<Rightarrow> restartGate \<times> bool \<times> (hostError + hostUpdateResponse) option" where
  "handleHostUpdateRequest env requested g =
     (let targetVersion = trimSpace requested;
          reply = (\<lambda>r. if ueWrite env then Inr r else Inl HostWriteFailed) in
      if \<not> ValidRelease targetVersion then (g, False, Some (Inl (InvalidVersion requested)))
      else if (case CompareRelease (ueCurrent env) targetVersion of None \<Rightarrow> False | Some c \<Rightarrow> 0 \<le> c) then
        (g, False, Some (reply \<lparr>hrUpdated = False, hrRestarting = False, hrVersion = ueCurrent env, hrInstallTarget = []\<rparr>))
      else if snd (restartRequest g) then
        (g, False, Some (reply \<lparr>hrUpdated = True, hrRestarting = True, hrVersion = rsVersion (fst (restartRequest g)),
           hrInstallTarget = rsInstallTarget (fst (restartRequest g))\<rparr>))
      else (case updateInstallDir (ueCwd env) (ueStateDir env) targetVersion of
        Inl e \<Rightarrow> (g, False, Some (Inl e))
      | Inr installDir \<Rightarrow>
          (case ueRunner env targetVersion installDir of
            (result, Inl e) \<Rightarrow> (g, False, Some (Inl e))
          | (result, Inr _) \<Rightarrow>
              (let target = (if trimSpace (urInstallTarget result) = [] then updateInstallTarget targetVersion
                             else urInstallTarget result) in
               if trimSpace (urExecutable result) = [] then (g, False, Some (Inl ExecutableMissing))
               else (case beginRestart (urExecutable result) targetVersion target g of
                 (g1, False) \<Rightarrow> (g1, False, Some (Inl RestartInProgress))
               | (g1, True) \<Rightarrow>
                   (case waitForActiveRuns (ueRounds env) g1 of
                     (g2, None) \<Rightarrow> (g2, False, None)
                   | (g2, Some (Inl e)) \<Rightarrow> (cancelRestart g2, False, Some (Inl e))
                   | (g2, Some (Inr _)) \<Rightarrow>
                       (case reply \<lparr>hrUpdated = True, hrRestarting = True, hrVersion = targetVersion, hrInstallTarget = target\<rparr> of
                         Inl e \<Rightarrow> (cancelRestart g2, False, Some (Inl e))
                       | Inr r \<Rightarrow> (g2, True, Some (Inr r)))))))))"

section \<open>Facts\<close>

lemma gateStep_keeps: "restarting (gateStep op g) = restarting g" "restartExecutable (gateStep op g) = restartExecutable g"
  "restartVersion (gateStep op g) = restartVersion g" "restartInstallTarget (gateStep op g) = restartInstallTarget g"
  by (cases op; simp add: acquireRun_def releaseRun_def)+

lemma fold_gateStep_keeps: "restarting (fold gateStep ops g) = restarting g"
  "restartExecutable (fold gateStep ops g) = restartExecutable g" "restartVersion (fold gateStep ops g) = restartVersion g"
  by (induction ops arbitrary: g) (simp_all add: gateStep_keeps)

lemma gateStep_nonneg: "0 \<le> activeRuns g \<Longrightarrow> 0 \<le> activeRuns (gateStep op g)"
  by (cases op) (simp_all add: acquireRun_def releaseRun_def)

text \<open>While a restart is wanted the count of runs only falls, by one for each run that ends.\<close>

lemma fold_gateStep_restarting:
  "restarting g \<Longrightarrow> 0 \<le> activeRuns g \<Longrightarrow>
   activeRuns (fold gateStep ops g) = max 0 (activeRuns g - int (length (filter (\<lambda>op. op = OpRelease) ops)))"
proof (induction ops arbitrary: g)
  case (Cons op ops)
  show ?case
  proof (cases op)
    case OpAcquire
    then show ?thesis using Cons by (simp add: acquireRun_def)
  next
    case OpRelease
    have r: "activeRuns (releaseRun g) = max 0 (activeRuns g - 1)" using Cons.prems by (simp add: releaseRun_def)
    have "restarting (releaseRun g)" using Cons.prems by (simp add: releaseRun_def)
    then have "activeRuns (fold gateStep ops (releaseRun g)) =
        max 0 (max 0 (activeRuns g - 1) - int (length (filter (\<lambda>op. op = OpRelease) ops)))"
      using Cons.IH [of "releaseRun g"] r by simp
    then show ?thesis using OpRelease by simp
  qed
qed simp

definition releases :: "(gateOp list \<times> bool) list \<Rightarrow> nat" where
  "releases rounds = length (filter (\<lambda>op. op = OpRelease) (concat (map fst rounds)))"

lemma waitForActiveRuns_ends:
  assumes "restarting g" "0 \<le> activeRuns g" "activeRuns g \<le> int (releases rounds)" "rounds \<noteq> []"
    and "\<forall>r \<in> set rounds. \<not> snd r"
  shows "\<exists>g'. waitForActiveRuns rounds g = (g', Some (Inr ())) \<and> restarting g' \<and> activeRuns g' = 0"
  using assms
proof (induction rounds arbitrary: g)
  case (Cons x rounds)
  obtain ops c where x: "x = (ops, c)" by fastforce
  let ?g = "fold gateStep ops g"
  let ?n = "int (length (filter (\<lambda>op. op = OpRelease) ops))"
  have a: "activeRuns ?g = max 0 (activeRuns g - ?n)" by (rule fold_gateStep_restarting [OF Cons.prems(1,2)])
  have r: "restarting ?g" using Cons.prems(1) by (simp add: fold_gateStep_keeps)
  show ?case
  proof (cases "activeRuns ?g = 0")
    case True
    then show ?thesis using x r by (simp add: Let_def)
  next
    case False
    have le: "activeRuns ?g \<le> int (releases rounds)" using a False Cons.prems(3) x by (simp add: releases_def)
    have "rounds \<noteq> []" using le False a by (auto simp: releases_def)
    then have "\<exists>g'. waitForActiveRuns rounds ?g = (g', Some (Inr ())) \<and> restarting g' \<and> activeRuns g' = 0"
      using Cons.IH [OF r _ le] a Cons.prems(5) by simp
    then show ?thesis using x False Cons.prems(5) by (simp add: Let_def)
  qed
qed simp

lemma waitForActiveRuns_keeps:
  "waitForActiveRuns rounds g = (g', res) \<Longrightarrow>
   restarting g' = restarting g \<and> restartExecutable g' = restartExecutable g \<and> restartVersion g' = restartVersion g
   \<and> (res = Some (Inr ()) \<longrightarrow> activeRuns g' = 0)"
proof (induction rounds arbitrary: g)
  case (Cons x rounds)
  obtain ops c where x: "x = (ops, c)" by fastforce
  then show ?case
    using Cons.IH [of "fold gateStep ops g"] Cons.prems
    by (auto simp: Let_def fold_gateStep_keeps split: if_splits)
qed simp

lemma comparable_releases: "ValidRelease a \<Longrightarrow> ValidRelease b \<Longrightarrow> \<exists>c. CompareRelease a b = Some c"
  by (auto simp: ValidRelease_def CompareRelease_def)

section \<open>Properties\<close>

text \<open>
  C32. The wait of a restart ends: once a restart is wanted no new run starts, so when as many
  runs end as were active, whatever else is asked for meanwhile, and the request is not
  cancelled, the wait returns with no run active and new runs still refused.
\<close>

theorem restart_wait_ends:
  assumes "restarting g" and "0 \<le> activeRuns g" and "activeRuns g \<le> int (releases rounds)" and "rounds \<noteq> []"
    and "list_all (\<lambda>r. \<not> snd r) rounds"
  shows "snd (waitForActiveRuns rounds g) = Some (Inr ()) \<and> activeRuns (fst (waitForActiveRuns rounds g)) = 0
    \<and> acquireRun (fst (waitForActiveRuns rounds g)) = (fst (waitForActiveRuns rounds g), Inl RestartPending)"
  using waitForActiveRuns_ends [OF assms(1-4)] assms(5) by (auto simp: list_all_iff acquireRun_def)

text \<open>
  C22. The listener is closed for a restart only towards a valid release whose executable is
  known, with no run active and new runs refused; when the running version is itself a release,
  the new one is newer, and a build that is none, such as \<open>dev\<close>, has no order and takes any
  valid release. In every other answer the gate wants no restart that it did not want before.
\<close>

theorem host_restarts_only_when_idle:
  assumes "handleHostUpdateRequest env requested g = (g', closed, Some r)"
  shows "if closed then \<not> restarting g \<and> restarting g' \<and> activeRuns g' = 0 \<and> restartVersion g' = trimSpace requested
      \<and> trimSpace (restartExecutable g') \<noteq> [] \<and> ValidRelease (trimSpace requested)
      \<and> (ValidRelease (ueCurrent env) \<longrightarrow> (\<exists>c. CompareRelease (ueCurrent env) (trimSpace requested) = Some c \<and> c < 0))
    else restarting g' = restarting g"
proof -
  let ?v = "trimSpace requested"
  show ?thesis
  proof (cases "\<not> ValidRelease ?v \<or> (case CompareRelease (ueCurrent env) ?v of None \<Rightarrow> False | Some c \<Rightarrow> 0 \<le> c) \<or> restarting g")
    case True
    then have "\<not> closed \<and> g' = g" using assms
      by (auto simp: handleHostUpdateRequest_def Let_def restartRequest_def split: if_splits)
    then show ?thesis by simp
  next
    case False
    then have ok: "ValidRelease ?v" "\<not> (case CompareRelease (ueCurrent env) ?v of None \<Rightarrow> False | Some c \<Rightarrow> 0 \<le> c)" "\<not> restarting g"
      by auto
    show ?thesis
    proof (cases "updateInstallDir (ueCwd env) (ueStateDir env) ?v")
      case (Inl e)
      then show ?thesis using assms ok by (auto simp: handleHostUpdateRequest_def Let_def restartRequest_def)
    next
      case (Inr dir)
      obtain res rr where run: "ueRunner env ?v dir = (res, rr)" by fastforce
      show ?thesis
      proof (cases "rr = Inr () \<and> trimSpace (urExecutable res) \<noteq> []")
        case False
        then show ?thesis using assms ok Inr run
          by (cases rr) (auto simp: handleHostUpdateRequest_def Let_def restartRequest_def)
      next
        case good: True
        define target where "target = (if trimSpace (urInstallTarget res) = [] then updateInstallTarget ?v else urInstallTarget res)"
        define g1 where "g1 = g\<lparr>restarting := True, restartExecutable := urExecutable res, restartVersion := ?v,
              restartInstallTarget := target\<rparr>"
        have b: "beginRestart (urExecutable res) ?v target g = (g1, True)" using ok(3) by (simp add: beginRestart_def g1_def)
        obtain g2 w where wait: "waitForActiveRuns (ueRounds env) g1 = (g2, w)" by fastforce
        note k = waitForActiveRuns_keeps [OF wait]
        have "handleHostUpdateRequest env requested g =
          (case (g2, w) of
             (g2, None) \<Rightarrow> (g2, False, None)
           | (g2, Some (Inl e)) \<Rightarrow> (cancelRestart g2, False, Some (Inl e))
           | (g2, Some (Inr _)) \<Rightarrow>
               (case (if ueWrite env then Inr \<lparr>hrUpdated = True, hrRestarting = True, hrVersion = ?v, hrInstallTarget = target\<rparr>
                      else Inl HostWriteFailed) of
                 Inl e \<Rightarrow> (cancelRestart g2, False, Some (Inl e))
               | Inr r \<Rightarrow> (g2, True, Some (Inr r))))"
          unfolding handleHostUpdateRequest_def using ok Inr run good b [unfolded target_def] wait
          by (cases "trimSpace (urInstallTarget res) = []"; cases w)
            (auto simp: Let_def restartRequest_def target_def split: sum.splits)
        then have "closed \<and> g' = g2 \<and> w = Some (Inr ()) \<or> \<not> closed \<and> g' = cancelRestart g2"
          using assms by (auto split: option.splits sum.splits if_splits)
        then show ?thesis
          using k good ok comparable_releases [of "ueCurrent env" ?v]
          by (auto simp: g1_def cancelRestart_def split: option.splits)
      qed
    qed
  qed
qed

section \<open>Examples\<close>

definition demoGate :: restartGate where
  "demoGate = \<lparr>restarting = False, activeRuns = 2, restartExecutable = [], restartVersion = [], restartInstallTarget = []\<rparr>"

definition demoUpdateEnv :: hostUpdateEnv where
  "demoUpdateEnv = \<lparr>ueCurrent = ''v1.0.0'', ueCwd = None, ueStateDir = ''/s'',
     ueRunner = defaultUpdateRunner [] \<lparr>usMkdir = True, usInstall = True, usStat = True\<rparr>,
     ueRounds = [([OpRelease, OpAcquire], False), ([OpRelease], False)], ueWrite = True\<rparr>"

lemma restart_wait_ends_witness:
  "snd (waitForActiveRuns [([OpRelease, OpAcquire], False), ([OpRelease], False)] (demoGate\<lparr>restarting := True\<rparr>)) = Some (Inr ())"
proof -
  have "restarting (demoGate\<lparr>restarting := True\<rparr>)" "0 \<le> activeRuns (demoGate\<lparr>restarting := True\<rparr>)"
    "activeRuns (demoGate\<lparr>restarting := True\<rparr>) \<le> int (releases [([OpRelease, OpAcquire], False), ([OpRelease], False)])"
    by (simp_all add: demoGate_def releases_def)
  from restart_wait_ends [OF this] show ?thesis by simp
qed

lemma host_restarts_only_when_idle_witness:
  "snd (handleHostUpdateRequest demoUpdateEnv ''v1.2.0'' demoGate) = (True, Some (Inr \<lparr>hrUpdated = True, hrRestarting = True,
     hrVersion = ''v1.2.0'', hrInstallTarget = ''github.com/manuel-huez/rmtx/cmd/rmtx@v1.2.0''\<rparr>))
   \<and> restarting (fst (handleHostUpdateRequest demoUpdateEnv ''v1.2.0'' demoGate))"
proof -
  have r: "snd (handleHostUpdateRequest demoUpdateEnv ''v1.2.0'' demoGate) = (True, Some (Inr \<lparr>hrUpdated = True, hrRestarting = True,
     hrVersion = ''v1.2.0'', hrInstallTarget = ''github.com/manuel-huez/rmtx/cmd/rmtx@v1.2.0''\<rparr>))"
    by code_simp
  then obtain g' where g: "handleHostUpdateRequest demoUpdateEnv ''v1.2.0'' demoGate = (g', True, Some (Inr \<lparr>hrUpdated = True,
     hrRestarting = True, hrVersion = ''v1.2.0'', hrInstallTarget = ''github.com/manuel-huez/rmtx/cmd/rmtx@v1.2.0''\<rparr>))"
    by (metis prod.collapse)
  show ?thesis using host_restarts_only_when_idle [OF g] r g by simp
qed
end
