(* ===== verification/Pairing.thy ===== *)
theory Pairing
  imports GoRunes "HOL-Library.AList"
begin

text \<open>
  Pairing a client with a host: the store of one-time codes (host/pairing\_store.go), the
  rate limit of pairing requests (host/pair\_limit.go), the store of trusted client
  certificates (host/trust\_store.go) and the two request handlers that compose them
  (host/server.go). Each store is one JSON file; the clock, the random code and the outcome
  of a write are arguments. Operations run one at a time, under the mutexes and the lock
  file of the source.
\<close>

section \<open>One-time codes\<close>

record pairCodeRecord =
  Code :: string
  ExpiresAt :: go_time
  Used :: bool

type_synonym pairCodeStore = "pairCodeRecord list"

datatype pairError =
  StoreError ioError | LockError | RandError
| PairCodeUsed | PairCodeExpired | PairCodeInvalid
| RateLimited | CSRRequired | SignError | HostPKIError

definition defaultPairCodeTTL :: duration where "defaultPairCodeTTL = 5 * minute"
definition pairCodeLockStaleAfter :: duration where "pairCodeLockStaleAfter = 30 * second"
definition pairCodeSpace :: nat where "pairCodeSpace = 1000000"
definition maxActivePairCodes :: nat where "maxActivePairCodes = 32"

text \<open>
  The loop of \<open>acquirePairCodeStoreLock\<close>, over what each round finds: the exclusive create
  succeeds or fails, the lock file is gone again, cannot be inspected, or has some age; and
  whether the deadline has passed. \<open>None\<close>: still waiting after these rounds.
\<close>

datatype lockRound =
  LockCreated | CreateFails | LockVanished | StatFails | LockHeld duration bool

fun acquirePairCodeStoreLock :: "lockRound list \<Rightarrow> (pairError + unit) option" where
  "acquirePairCodeStoreLock [] = None"
| "acquirePairCodeStoreLock (LockCreated # rs) = Some (Inr ())"
| "acquirePairCodeStoreLock (CreateFails # rs) = Some (Inl LockError)"
| "acquirePairCodeStoreLock (LockVanished # rs) = acquirePairCodeStoreLock rs"
| "acquirePairCodeStoreLock (StatFails # rs) = Some (Inl LockError)"
| "acquirePairCodeStoreLock (LockHeld age late # rs) =
     (if pairCodeLockStaleAfter < age then acquirePairCodeStoreLock rs
      else if late then Some (Inl LockError)
      else acquirePairCodeStoreLock rs)"

definition loadPairCodeStore :: "pairCodeStore jsonFile \<Rightarrow> pairError + pairCodeStore" where
  "loadPairCodeStore f = (case readJSON [] f of Inl e \<Rightarrow> Inl (StoreError e) | Inr s \<Rightarrow> Inr s)"

definition savePairCodeStore ::
  "writeOutcome \<Rightarrow> pairCodeStore \<Rightarrow> pairCodeStore jsonFile \<Rightarrow>
   pairCodeStore jsonFile \<times> (pairError + unit)" where
  "savePairCodeStore w s f =
     (let (f', r) = writeJSONAtomically w s f in
      (f', case r of Inl e \<Rightarrow> Inl (StoreError e) | Inr u \<Rightarrow> Inr u))"

text \<open>\<open>fmt.Sprintf("%06d", n)\<close> for a number below a million.\<close>

definition sixDigits :: "nat \<Rightarrow> string" where
  "sixDigits n = map (\<lambda>k. ''0123456789'' ! (n div 10 ^ k mod 10)) [5, 4, 3, 2, 1, 0]"

definition randomPairCode :: "nat option \<Rightarrow> pairError + string" where
  "randomPairCode draw =
     (case draw of None \<Rightarrow> Inl RandError | Some n \<Rightarrow> Inr (sixDigits (n mod pairCodeSpace)))"

definition livePairCode :: "go_time \<Rightarrow> pairCodeRecord \<Rightarrow> bool" where
  "livePairCode now c \<longleftrightarrow> \<not> (Used c \<or> \<not> now < ExpiresAt c)"

definition keptPairCodes :: "go_time \<Rightarrow> pairCodeStore \<Rightarrow> pairCodeStore" where
  "keptPairCodes now store =
     (let filtered = filter (livePairCode now) store in
      if maxActivePairCodes \<le> length filtered
      then drop (length filtered - (maxActivePairCodes - 1)) filtered
      else filtered)"

text \<open>\<open>lock\<close> is what taking the lock file gave; the lock is released on every return.\<close>

definition CreatePairCode ::
  "pairError + unit \<Rightarrow> go_time \<Rightarrow> duration \<Rightarrow> nat option \<Rightarrow> writeOutcome \<Rightarrow>
   pairCodeStore jsonFile \<Rightarrow> pairCodeStore jsonFile \<times> (pairError + pairCodeRecord)" where
  "CreatePairCode lock now ttl0 draw w f =
     (case lock of
        Inl e \<Rightarrow> (f, Inl e)
      | Inr _ \<Rightarrow>
          (let ttl = (if ttl0 \<le> 0 then defaultPairCodeTTL else ttl0) in
           case loadPairCodeStore f of
             Inl e \<Rightarrow> (f, Inl e)
           | Inr store \<Rightarrow>
               (case randomPairCode draw of
                  Inl e \<Rightarrow> (f, Inl e)
                | Inr code \<Rightarrow>
                    (let rec = \<lparr>Code = code, ExpiresAt = now + ttl, Used = False\<rparr>;
                         (f', r) = savePairCodeStore w (keptPairCodes now store @ [rec]) f in
                     (f', case r of Inl e \<Rightarrow> Inl e | Inr _ \<Rightarrow> Inr rec)))))"

text \<open>The loop of \<open>validPairCodeIndex\<close> stops at the first record of that code.\<close>

fun findPairCode :: "go_time \<Rightarrow> string \<Rightarrow> nat \<Rightarrow> pairCodeStore \<Rightarrow> pairError + nat" where
  "findPairCode now code i [] = Inl PairCodeInvalid"
| "findPairCode now code i (c # cs) =
     (if Code c \<noteq> code then findPairCode now code (Suc i) cs
      else if Used c then Inl PairCodeUsed
      else if \<not> now < ExpiresAt c then Inl PairCodeExpired
      else Inr i)"

definition validPairCodeIndex :: "pairCodeStore \<Rightarrow> string \<Rightarrow> go_time \<Rightarrow> pairError + nat" where
  "validPairCodeIndex store code now = findPairCode now (trimSpace code) 0 store"

definition ConsumePairCode ::
  "pairError + unit \<Rightarrow> go_time \<Rightarrow> string \<Rightarrow> writeOutcome \<Rightarrow> pairCodeStore jsonFile \<Rightarrow>
   pairCodeStore jsonFile \<times> (pairError + unit)" where
  "ConsumePairCode lock now code w f =
     (case lock of
        Inl e \<Rightarrow> (f, Inl e)
      | Inr _ \<Rightarrow>
          (case loadPairCodeStore f of
             Inl e \<Rightarrow> (f, Inl e)
           | Inr store \<Rightarrow>
               (case validPairCodeIndex store code now of
                  Inl e \<Rightarrow> (f, Inl e)
                | Inr index \<Rightarrow>
                    savePairCodeStore w (store[index := (store ! index)\<lparr>Used := True\<rparr>]) f)))"

interpretation pairFile: json_store loadPairCodeStore savePairCodeStore
  by unfold_locales
    (auto simp: loadPairCodeStore_def savePairCodeStore_def writeJSONAtomically_def
      split: writeOutcome.splits sum.splits)

section \<open>Rate limit\<close>

record pairLimitWindow =
  started :: go_time
  count :: nat

type_synonym pairLimits = "(string \<times> pairLimitWindow) list"

definition pairLimitWindowDuration :: duration where "pairLimitWindowDuration = minute"
definition maxPairCodeRequests :: nat where "maxPairCodeRequests = 10"
definition maxPairAttempts :: nat where "maxPairAttempts = 10"
definition maxPairLimitWindows :: nat where "maxPairLimitWindows = 1024"

definition expiredWindow :: "go_time \<Rightarrow> pairLimitWindow \<Rightarrow> bool" where
  "expiredWindow now w \<longleftrightarrow> pairLimitWindowDuration \<le> timeSub now (started w)"

text \<open>\<open>net.SplitHostPort\<close>, the host only; \<open>None\<close> is its error.\<close>

definition splitHost :: "string \<Rightarrow> string option" where
  "splitHost hp =
     (let i = lastIndex (CHR '':'') hp in
      if i < 0 then None
      else if hasPrefix hp ''[''  then
        (let (host, after, ok) = cut (CHR '']'') (drop 1 hp) in
         if \<not> ok \<or> int (length host) + 2 \<noteq> i \<or> CHR ''['' \<in> set host \<union> set after
            \<or> CHR '']'' \<in> set after then None
         else Some host)
      else (let host = take (nat i) hp in
         if CHR '':'' \<in> set host \<or> CHR ''['' \<in> set hp \<or> CHR '']'' \<in> set hp then None
         else Some host))"

definition pairLimitKey :: "string \<Rightarrow> string \<Rightarrow> string" where
  "pairLimitKey kind remote =
     kind @ CHR 0x00 # (case splitHost remote of Some host \<Rightarrow> host | None \<Rightarrow> remote)"

definition allowKey ::
  "go_time \<Rightarrow> string \<Rightarrow> nat \<Rightarrow> pairLimits \<Rightarrow> pairLimits \<times> bool" where
  "allowKey now key limit limits0 =
     (let limits = filter (\<lambda>(k, w). \<not> expiredWindow now w) limits0;
          old = map_of limits key in
      if old = None \<and> maxPairLimitWindows \<le> length limits then (limits, False)
      else
        (let window0 = (case old of Some w \<Rightarrow> w | None \<Rightarrow> \<lparr>started = 0, count = 0\<rparr>);
             window = (if started window0 = 0 \<or> expiredWindow now window0
                       then \<lparr>started = now, count = 0\<rparr> else window0) in
         if limit \<le> count window then (limits, False)
         else (AList.update key (window\<lparr>count := count window + 1\<rparr>) limits, True)))"

text \<open>A connection without a remote address is not limited.\<close>

definition allowPairRequest ::
  "go_time \<Rightarrow> string option \<Rightarrow> string \<Rightarrow> nat \<Rightarrow> pairLimits \<Rightarrow> pairLimits \<times> bool" where
  "allowPairRequest now remote kind limit limits =
     (case remote of
        None \<Rightarrow> (limits, True)
      | Some r \<Rightarrow> allowKey now (pairLimitKey kind r) limit limits)"

section \<open>Trusted clients\<close>

record trustedClient =
  Fingerprint :: string
  Label :: string

type_synonym trustStore = "trustedClient list"

definition loadTrustStore :: "trustStore jsonFile \<Rightarrow> pairError + trustStore" where
  "loadTrustStore f = (case readJSON [] f of Inl e \<Rightarrow> Inl (StoreError e) | Inr s \<Rightarrow> Inr s)"

definition saveTrustStore ::
  "writeOutcome \<Rightarrow> trustStore \<Rightarrow> trustStore jsonFile \<Rightarrow>
   trustStore jsonFile \<times> (pairError + unit)" where
  "saveTrustStore w s f =
     (let (f', r) = writeJSONAtomically w s f in
      (f', case r of Inl e \<Rightarrow> Inl (StoreError e) | Inr u \<Rightarrow> Inr u))"

definition trustClient ::
  "string \<Rightarrow> string \<Rightarrow> string \<Rightarrow> writeOutcome \<Rightarrow> trustStore jsonFile \<Rightarrow>
   trustStore jsonFile \<times> (pairError + unit)" where
  "trustClient fingerprint0 previous0 label0 w f =
     (case loadTrustStore f of
        Inl e \<Rightarrow> (f, Inl e)
      | Inr store \<Rightarrow>
          (let fingerprint = trimSpace fingerprint0; previous = trimSpace previous0;
               filtered = filter (\<lambda>c. Fingerprint c \<notin> {[], fingerprint, previous}) store in
           saveTrustStore w
             (filtered @ [\<lparr>Fingerprint = fingerprint, Label = trimSpace label0\<rparr>]) f))"

definition clientTrusted :: "string \<Rightarrow> trustStore jsonFile \<Rightarrow> pairError + bool" where
  "clientTrusted fingerprint f =
     (case loadTrustStore f of
        Inl e \<Rightarrow> Inl e
      | Inr store \<Rightarrow> Inr (list_ex (\<lambda>c. Fingerprint c = fingerprint) store))"

interpretation trustFile: json_store loadTrustStore saveTrustStore
  by unfold_locales
    (auto simp: loadTrustStore_def saveTrustStore_def writeJSONAtomically_def
      split: writeOutcome.splits sum.splits)

section \<open>The pairing requests\<close>

record pairState =
  pairLimitsOf :: pairLimits
  pairCodes :: "pairCodeStore jsonFile"
  trusted :: "trustStore jsonFile"

record pairRequest =
  reqCode :: string
  reqLabel :: string
  reqPrevious :: string
  reqCSR :: string

text \<open>
  \<open>sign\<close> is \<open>security.SignClientCSR\<close> with the host's CA: the certificate and its
  fingerprint, or \<open>None\<close> for a bad request. The last write to the client is not part of
  the state.
\<close>

definition handlePairRequest ::
  "(string \<Rightarrow> string \<Rightarrow> (string \<times> string) option) \<Rightarrow> pairError + unit \<Rightarrow> go_time \<Rightarrow>
   string option \<Rightarrow> writeOutcome \<Rightarrow> writeOutcome \<Rightarrow> pairRequest \<Rightarrow> pairState \<Rightarrow>
   pairState \<times> (pairError + (string \<times> string))" where
  "handlePairRequest sign lock now remote w1 w2 req s0 =
     (let (limits, ok) = allowPairRequest now remote ''pair'' maxPairAttempts (pairLimitsOf s0);
          s1 = s0\<lparr>pairLimitsOf := limits\<rparr> in
      if \<not> ok then (s1, Inl RateLimited)
      else if trimSpace (reqCSR req) = [] then (s1, Inl CSRRequired)
      else
        (case sign (reqCSR req) (reqLabel req) of
           None \<Rightarrow> (s1, Inl SignError)
         | Some (cert, fingerprint) \<Rightarrow>
             (let (codes, r1) = ConsumePairCode lock now (reqCode req) w1 (pairCodes s1);
                  s2 = s1\<lparr>pairCodes := codes\<rparr> in
              case r1 of
                Inl e \<Rightarrow> (s2, Inl e)
              | Inr _ \<Rightarrow>
                  (let (tr, r2) = trustClient fingerprint (reqPrevious req) (reqLabel req) w2
                         (trusted s2);
                       s3 = s2\<lparr>trusted := tr\<rparr> in
                   case r2 of
                     Inl e \<Rightarrow> (s3, Inl e)
                   | Inr _ \<Rightarrow> (s3, Inr (cert, fingerprint))))))"

text \<open>
  \<open>handlePairCodeRequest\<close>: the code itself goes to the host's log only; the client gets
  the expiry. \<open>pki\<close> tells whether \<open>createPairCodeInfo\<close> could load the host's certificates.
\<close>

definition handlePairCodeRequest ::
  "bool \<Rightarrow> pairError + unit \<Rightarrow> go_time \<Rightarrow> string option \<Rightarrow> nat option \<Rightarrow> writeOutcome \<Rightarrow>
   pairState \<Rightarrow> pairState \<times> (pairError + go_time)" where
  "handlePairCodeRequest pki lock now remote draw w s0 =
     (let (limits, ok) = allowPairRequest now remote ''code'' maxPairCodeRequests
            (pairLimitsOf s0);
          s1 = s0\<lparr>pairLimitsOf := limits\<rparr> in
      if \<not> ok then (s1, Inl RateLimited)
      else if \<not> pki then (s1, Inl HostPKIError)
      else
        (let (codes, r) = CreatePairCode lock now 0 draw w (pairCodes s1) in
         (s1\<lparr>pairCodes := codes\<rparr>,
          case r of Inl e \<Rightarrow> Inl e | Inr rec \<Rightarrow> Inr (ExpiresAt rec))))"

section \<open>Facts about the code store\<close>

lemma loadPairCodeStore_Stored [simp]: "loadPairCodeStore (Stored s) = Inr s"
  by (simp add: loadPairCodeStore_def)

lemma savePairCodeStore_ok: "savePairCodeStore w s f = (f', Inr u) \<Longrightarrow> f' = Stored s"
  by (cases w) (auto simp: savePairCodeStore_def writeJSONAtomically_def)

lemma savePairCodeStore_cases: "savePairCodeStore w s f = (f', r) \<Longrightarrow> f' = f \<or> f' = Stored s"
  by (cases w) (auto simp: savePairCodeStore_def writeJSONAtomically_def)

lemma findPairCode_Inr:
  "findPairCode now code i store = Inr j \<Longrightarrow>
   i \<le> j \<and> j - i < length store \<and> Code (store ! (j - i)) = code
   \<and> livePairCode now (store ! (j - i)) \<and> (\<forall>k < j - i. Code (store ! k) \<noteq> code)"
proof (induction now code i store rule: findPairCode.induct)
  case (2 now code i c cs)
  show ?case
  proof (cases "Code c = code")
    case True
    with "2.prems" show ?thesis by (auto simp: livePairCode_def split: if_splits)
  next
    case False
    with 2 have IH: "Suc i \<le> j \<and> j - Suc i < length cs \<and> Code (cs ! (j - Suc i)) = code
        \<and> livePairCode now (cs ! (j - Suc i)) \<and> (\<forall>k < j - Suc i. Code (cs ! k) \<noteq> code)" by simp
    then have "j - i = Suc (j - Suc i)" by arith
    with IH False show ?thesis by (auto simp: nth_Cons split: nat.splits)
  qed
qed simp

text \<open>The first record of a code decides: \<open>spent\<close> says it is used up.\<close>

fun spent :: "string \<Rightarrow> pairCodeStore \<Rightarrow> bool" where
  "spent code [] = False"
| "spent code (c # cs) = (if Code c = code then Used c else spent code cs)"

lemma findPairCode_spent: "spent code store \<Longrightarrow> findPairCode now code i store = Inl PairCodeUsed"
  by (induction store arbitrary: i) (auto split: if_splits)

lemma spent_after_use:
  "findPairCode now code i store = Inr j \<Longrightarrow>
   spent code (store[j - i := (store ! (j - i))\<lparr>Used := True\<rparr>])"
proof (induction now code i store rule: findPairCode.induct)
  case (2 now code i c cs)
  show ?case
  proof (cases "Code c = code")
    case True
    with "2.prems" show ?thesis by (auto split: if_splits)
  next
    case False
    with 2 findPairCode_Inr [of now code "Suc i" cs j]
    have "spent code (cs[j - Suc i := (cs ! (j - Suc i))\<lparr>Used := True\<rparr>])" and "j - i = Suc (j - Suc i)"
      by auto
    with False show ?thesis by simp
  qed
qed simp

lemma spent_use_other: "spent code store \<Longrightarrow> spent code (store[k := (store ! k)\<lparr>Used := True\<rparr>])"
  by (induction store arbitrary: k) (auto split: nat.splits if_splits)

lemma ConsumePairCode_spent:
  "loadPairCodeStore f = Inr store \<Longrightarrow> spent (trimSpace code) store \<Longrightarrow>
   ConsumePairCode (Inr u) now code w f = (f, Inl PairCodeUsed)"
  by (simp add: ConsumePairCode_def validPairCodeIndex_def findPairCode_spent)

lemma ConsumePairCode_keeps_spent:
  assumes "loadPairCodeStore f = Inr store" and "spent code store"
    and "ConsumePairCode lock now other w f = (f', r)"
  shows "\<exists>store'. loadPairCodeStore f' = Inr store' \<and> spent code store'"
  using assms
  by (auto simp: ConsumePairCode_def split: sum.splits dest!: savePairCodeStore_cases
      intro: spent_use_other)

lemma ConsumePairCode_ok:
  assumes "ConsumePairCode lock now code w f = (f', Inr u)"
  obtains store index where
    "loadPairCodeStore f = Inr store" "index < length store"
    "Code (store ! index) = trimSpace code" "livePairCode now (store ! index)"
    "f' = Stored (store[index := (store ! index)\<lparr>Used := True\<rparr>])"
    "spent (trimSpace code) (store[index := (store ! index)\<lparr>Used := True\<rparr>])"
proof -
  from assms obtain store index where load: "loadPairCodeStore f = Inr store" and
    find: "findPairCode now (trimSpace code) 0 store = Inr index" and
    f': "f' = Stored (store[index := (store ! index)\<lparr>Used := True\<rparr>])"
    by (auto simp: ConsumePairCode_def validPairCodeIndex_def split: sum.splits
        dest!: savePairCodeStore_ok)
  from findPairCode_Inr [OF find] spent_after_use [OF find] show thesis
    by (intro that [OF load _ _ _ f']) auto
qed

text \<open>Any further attempts, by anyone, at any later moments.\<close>

fun consumeAll ::
  "(go_time \<times> string \<times> writeOutcome) list \<Rightarrow> pairCodeStore jsonFile \<Rightarrow> pairCodeStore jsonFile"
where
  "consumeAll [] f = f"
| "consumeAll ((now, code, w) # xs) f = consumeAll xs (fst (ConsumePairCode (Inr ()) now code w f))"

lemma consumeAll_keeps_spent:
  "loadPairCodeStore f = Inr store \<Longrightarrow> spent code store \<Longrightarrow>
   \<exists>store'. loadPairCodeStore (consumeAll xs f) = Inr store' \<and> spent code store'"
proof (induction xs arbitrary: f store)
  case (Cons x xs)
  obtain now other w where x: "x = (now, other, w)" by (cases x)
  obtain f' r where c: "ConsumePairCode (Inr ()) now other w f = (f', r)" by fastforce
  from ConsumePairCode_keeps_spent [OF Cons.prems c] Cons.IH x c show ?case by auto
qed simp

lemma keptPairCodes_length: "length (keptPairCodes now store) < maxActivePairCodes"
  by (auto simp: keptPairCodes_def Let_def maxActivePairCodes_def)

lemma keptPairCodes_live: "c \<in> set (keptPairCodes now store) \<Longrightarrow> c \<in> set store \<and> livePairCode now c"
  by (auto simp: keptPairCodes_def Let_def split: if_splits dest: in_set_dropD)

lemma CreatePairCode_ok:
  assumes "CreatePairCode lock now ttl draw w f = (f', Inr rec)"
  obtains store where "loadPairCodeStore f = Inr store"
    "f' = Stored (keptPairCodes now store @ [rec])" "\<not> Used rec" "now < ExpiresAt rec"
  using assms
  by (auto simp: CreatePairCode_def Let_def defaultPairCodeTTL_def minute_def second_def
      split: sum.splits prod.splits if_splits dest!: savePairCodeStore_ok)

lemma findPairCode_last:
  "\<forall>c \<in> set cs. Code c \<noteq> Code rec \<Longrightarrow>
   findPairCode now (Code rec) i (cs @ [rec]) =
     (if Used rec then Inl PairCodeUsed
      else if \<not> now < ExpiresAt rec then Inl PairCodeExpired else Inr (i + length cs))"
  by (induction cs arbitrary: i) auto

lemma trimSpace_sixDigits: "trimSpace (sixDigits n) = sixDigits n"
proof (rule trimSpace_id, rule trimmed_all_plain)
  have "''0123456789'' ! (k mod 10) \<in> set ''0123456789''" for k :: nat
    by (rule nth_mem) simp
  then have "set (sixDigits n) \<subseteq> set ''0123456789''"
    unfolding sixDigits_def by auto
  then show "\<forall>c \<in> set (sixDigits n). plainByte c"
    by (auto simp: plainByte_def)
qed

section \<open>Facts about the rate limit\<close>

fun acceptedFor :: "nat \<Rightarrow> string \<Rightarrow> (go_time \<times> string) list \<Rightarrow> pairLimits \<Rightarrow> nat" where
  "acceptedFor limit key [] m = 0"
| "acceptedFor limit key ((now, k) # xs) m =
     (let (m', ok) = allowKey now k limit m in
      (if ok \<and> k = key then 1 else 0) + acceptedFor limit key xs m')"

definition potential :: "nat \<Rightarrow> string \<Rightarrow> go_time \<Rightarrow> pairLimits \<Rightarrow> nat" where
  "potential limit key t m =
     (case map_of m key of
        None \<Rightarrow> limit
      | Some w \<Rightarrow> if t \<le> started w then limit - count w else (limit - count w) + limit)"

lemma expiredWindow_iff: "expiredWindow now w \<longleftrightarrow> minute \<le> now - started w"
  using timeSub_ge_iff [of minute now "started w"]
  by (simp add: expiredWindow_def pairLimitWindowDuration_def minute_def second_def maxInt64_def)

lemma map_of_live:
  "distinct (map fst m) \<Longrightarrow> map_of (filter (\<lambda>(k, w). P w) m) key =
     (case map_of m key of None \<Rightarrow> None | Some w \<Rightarrow> if P w then Some w else None)"
  by (induction m) (auto split: option.splits dest: map_of_SomeD intro: rev_image_eqI)

lemma distinct_live: "distinct (map fst m) \<Longrightarrow> distinct (map fst (filter P m))"
  by (induction m) auto

lemma allowKey_distinct:
  "distinct (map fst m) \<Longrightarrow> allowKey now k limit m = (m', ok) \<Longrightarrow> distinct (map fst m')"
  by (auto simp: allowKey_def Let_def distinct_live intro: distinct_update split: if_splits)

lemma allowKey_other:
  assumes "distinct (map fst m)" and "allowKey now k limit m = (m', ok)" and "k \<noteq> key"
  shows "map_of m' key = map_of (filter (\<lambda>(k, w). \<not> expiredWindow now w) m) key"
  using assms by (auto simp: allowKey_def Let_def update_conv' split: if_splits)

lemma allowKey_same:
  assumes d: "distinct (map fst m)" and a: "allowKey now key limit m = (m', ok)"
    and t: "t \<le> now" "now < t + minute" "0 < t"
  shows "(if ok then 1 else 0) + potential limit key t m' \<le> potential limit key t m"
proof -
  let ?live = "filter (\<lambda>(k, w). \<not> expiredWindow now w) m"
  show ?thesis
  proof (cases "map_of ?live key")
    case None
    with map_of_live [OF d, of "\<lambda>w. \<not> expiredWindow now w" key] t
    have pot: "limit \<le> potential limit key t m"
      by (auto simp: potential_def expiredWindow_iff split: option.splits if_splits)
    from None a t show ?thesis
      using pot
      by (auto simp: allowKey_def Let_def potential_def update_conv' split: if_splits)
  next
    case (Some w)
    with map_of_live [OF d, of "\<lambda>w. \<not> expiredWindow now w" key]
    have w: "map_of m key = Some w" "\<not> expiredWindow now w"
      by (auto split: option.splits if_splits)
    from Some a t w show ?thesis
      by (auto simp: allowKey_def Let_def potential_def update_conv' split: if_splits)
  qed
qed

lemma allowKey_potential:
  assumes d: "distinct (map fst m)" and a: "allowKey now k limit m = (m', ok)"
    and t: "t \<le> now" "now < t + minute" "0 < t"
  shows "(if ok \<and> k = key then 1 else 0) + potential limit key t m' \<le> potential limit key t m"
proof (cases "k = key")
  case True
  with allowKey_same [OF d _ t] a show ?thesis by simp
next
  case False
  with allowKey_other [OF d a] map_of_live [OF d, of "\<lambda>w. \<not> expiredWindow now w" key] t
  show ?thesis by (auto simp: potential_def expiredWindow_iff split: option.splits)
qed

lemma acceptedFor_potential:
  "distinct (map fst m) \<Longrightarrow> \<forall>(now, k) \<in> set xs. t \<le> now \<and> now < t + minute \<Longrightarrow> 0 < t \<Longrightarrow>
   acceptedFor limit key xs m \<le> potential limit key t m"
proof (induction xs arbitrary: m)
  case (Cons x xs)
  obtain now k where x: "x = (now, k)" by (cases x)
  obtain m' ok where a: "allowKey now k limit m = (m', ok)" by fastforce
  have "acceptedFor limit key xs m' \<le> potential limit key t m'"
    using Cons allowKey_distinct [OF Cons.prems(1) a] by auto
  with allowKey_potential [OF Cons.prems(1) a, of t key] Cons.prems x a show ?case by auto
qed simp

lemma potential_le: "potential limit key t m \<le> 2 * limit"
  by (auto simp: potential_def split: option.splits)

lemma length_AList_update:
  "length (AList.update k v m) = (if map_of m k = None then Suc (length m) else length m)"
  by (induction m) auto

lemma allowKey_bound:
  "allowKey now k limit m = (m', ok) \<Longrightarrow> length m \<le> maxPairLimitWindows \<Longrightarrow>
   length m' \<le> maxPairLimitWindows"
proof -
  assume a: "allowKey now k limit m = (m', ok)" and m: "length m \<le> maxPairLimitWindows"
  have "length (filter P m) \<le> maxPairLimitWindows" for P
    using m length_filter_le [of P m] by linarith
  with a show ?thesis
    by (auto simp: allowKey_def Let_def length_AList_update not_le Suc_le_eq
        split: if_splits intro: le_antisym)
qed

section \<open>Facts about trust\<close>

lemma trustClient_ok:
  "trustClient fp previous label w f = (f', Inr u) \<Longrightarrow>
   \<exists>clients. f' = Stored clients \<and> trimSpace fp \<in> Fingerprint ` set clients"
  by (auto simp: trustClient_def Let_def saveTrustStore_def writeJSONAtomically_def split: sum.splits writeOutcome.splits)

section \<open>Properties\<close>

text \<open>
  A pairing code works once: after a request consumed it, every later attempt with the
  same code, at any time and after any other attempts on the store, is refused as used.
\<close>

theorem pair_code_single_use:
  assumes "ConsumePairCode lock now code w f = (f', Inr u)"
    and "trimSpace code' = trimSpace code"
  shows "ConsumePairCode (Inr u') now' code' w' (consumeAll xs f') =
    (consumeAll xs f', Inl PairCodeUsed)"
proof -
  from assms(1) obtain store' where "loadPairCodeStore f' = Inr store'"
    and "spent (trimSpace code) store'"
    by (rule ConsumePairCode_ok) auto
  then obtain store'' where "loadPairCodeStore (consumeAll xs f') = Inr store''"
    and "spent (trimSpace code) store''"
    using consumeAll_keeps_spent by blast
  with assms(2) show ?thesis by (simp add: ConsumePairCode_spent)
qed

lemma pair_code_single_use_witness:
  "ConsumePairCode (Inr ()) 3 ''000042'' WriteOk
     (consumeAll [(2, ''000001'', WriteOk)] (Stored [\<lparr>Code = ''000042'', ExpiresAt = 9, Used = True\<rparr>]))
   = (consumeAll [(2, ''000001'', WriteOk)] (Stored [\<lparr>Code = ''000042'', ExpiresAt = 9, Used = True\<rparr>]),
      Inl PairCodeUsed)"
proof (rule pair_code_single_use)
  show "ConsumePairCode (Inr ()) 1 '' 000042'' WriteOk
      (Stored [\<lparr>Code = ''000042'', ExpiresAt = 9, Used = False\<rparr>]) =
    (Stored [\<lparr>Code = ''000042'', ExpiresAt = 9, Used = True\<rparr>], Inr ())"
    by code_simp
  show "trimSpace ''000042'' = trimSpace '' 000042''" by code_simp
qed

text \<open>
  A code just created is accepted until it expires and refused from then on, unless an
  unexpired earlier record happens to hold the same digits.
\<close>

theorem created_code_accepted:
  assumes "CreatePairCode lock now ttl draw w f = (f', Inr rec)"
    and "loadPairCodeStore f = Inr store"
    and "\<forall>c \<in> set store. livePairCode now c \<longrightarrow> Code c \<noteq> Code rec"
  shows "snd (ConsumePairCode (Inr ()) now' (Code rec) WriteOk f') =
    (if now' < ExpiresAt rec then Inr () else Inl PairCodeExpired)"
proof -
  from assms(1) obtain st where st: "loadPairCodeStore f = Inr st"
    and f': "f' = Stored (keptPairCodes now st @ [rec])" and u: "\<not> Used rec"
    by (rule CreatePairCode_ok)
  from st assms(2,3) have "\<forall>c \<in> set (keptPairCodes now st). Code c \<noteq> Code rec"
    using keptPairCodes_live by fastforce
  moreover have "trimSpace (Code rec) = Code rec"
    using assms(1) by (auto simp: CreatePairCode_def Let_def randomPairCode_def
        trimSpace_sixDigits split: sum.splits prod.splits option.splits)
  ultimately show ?thesis
    by (simp add: f' u ConsumePairCode_def validPairCodeIndex_def findPairCode_last
        savePairCodeStore_def writeJSONAtomically_def)
qed

lemma created_code_accepted_witness:
  "snd (ConsumePairCode (Inr ()) 8 ''000042'' WriteOk
     (Stored [\<lparr>Code = ''000042'', ExpiresAt = 15, Used = False\<rparr>])) = Inr ()"
proof -
  have c: "CreatePairCode (Inr ()) 5 10 (Some 42) WriteOk
      (Stored [\<lparr>Code = ''000042'', ExpiresAt = 4, Used = False\<rparr>]) =
    (Stored [\<lparr>Code = ''000042'', ExpiresAt = 15, Used = False\<rparr>],
     Inr \<lparr>Code = ''000042'', ExpiresAt = 15, Used = False\<rparr>)"
    by (simp add: CreatePairCode_def randomPairCode_def sixDigits_def pairCodeSpace_def
        savePairCodeStore_def writeJSONAtomically_def keptPairCodes_def livePairCode_def
        maxActivePairCodes_def Let_def)
  show ?thesis
    using created_code_accepted [OF c, of "[\<lparr>Code = ''000042'', ExpiresAt = 4, Used = False\<rparr>]" 8]
    by (simp add: livePairCode_def)
qed

text \<open>
  Creating a code leaves at most 32 records, all of them live and only the last one new,
  so used and expired codes do not pile up.
\<close>

theorem created_store_bounded:
  assumes "CreatePairCode lock now ttl draw w f = (f', Inr rec)"
  shows "\<exists>store old. loadPairCodeStore f = Inr old \<and> loadPairCodeStore f' = Inr (store @ [rec])
    \<and> length (store @ [rec]) \<le> maxActivePairCodes
    \<and> (\<forall>c \<in> set (store @ [rec]). livePairCode now c) \<and> set store \<subseteq> set old"
proof -
  from assms obtain old where "loadPairCodeStore f = Inr old"
    "f' = Stored (keptPairCodes now old @ [rec])" "\<not> Used rec" "now < ExpiresAt rec"
    by (rule CreatePairCode_ok)
  then show ?thesis
    using keptPairCodes_length [of now old]
    by (auto simp: Suc_le_eq livePairCode_def dest: keptPairCodes_live)
qed

lemma created_store_bounded_witness:
  "\<exists>store old. loadPairCodeStore Missing = Inr old
    \<and> loadPairCodeStore (Stored [\<lparr>Code = ''000007'', ExpiresAt = 15, Used = False\<rparr>])
      = Inr (store @ [\<lparr>Code = ''000007'', ExpiresAt = 15, Used = False\<rparr>])
    \<and> length (store @ [\<lparr>Code = ''000007'', ExpiresAt = 15, Used = False\<rparr>]) \<le> maxActivePairCodes
    \<and> (\<forall>c \<in> set (store @ [\<lparr>Code = ''000007'', ExpiresAt = 15, Used = False\<rparr>]). livePairCode 5 c)
    \<and> set store \<subseteq> set old"
proof (rule created_store_bounded)
  show "CreatePairCode (Inr ()) 5 10 (Some 7) WriteOk Missing =
    (Stored [\<lparr>Code = ''000007'', ExpiresAt = 15, Used = False\<rparr>],
     Inr \<lparr>Code = ''000007'', ExpiresAt = 15, Used = False\<rparr>)"
    by (simp add: CreatePairCode_def randomPairCode_def sixDigits_def pairCodeSpace_def
        savePairCodeStore_def writeJSONAtomically_def keptPairCodes_def livePairCode_def
        maxActivePairCodes_def Let_def loadPairCodeStore_def readJSON_def)
qed



text \<open>Two windows in one minute: ten requests at the end of one, ten at the start of the next.\<close>

lemma two_windows_in_a_minute:
  "acceptedFor 2 ''a'' [(1 + 59 * second, ''a''), (1 + minute, ''a''), (2 + minute, ''a'')] [(''a'', \<lparr>started = 1, count = 1\<rparr>)] = 3"
  by code_simp

text \<open>
  C13. A pair request that succeeds, and any that changes the file of trusted clients, has spent a
  one-time code: the store held an unused, unexpired record of the code of the request, and now
  holds that record as used and all others as they were. The certificate of a success is the one
  signed for the request, and its fingerprint is that of a client the file then trusts.
\<close>

theorem pairing_spends_a_code:
  assumes "handlePairRequest sign lock now remote w1 w2 req s = (s', r)"
    and "isOk r \<or> trusted s' \<noteq> trusted s"
  shows "(\<exists>store i. loadPairCodeStore (pairCodes s) = Inr store \<and> i < length store
      \<and> Code (store ! i) = trimSpace (reqCode req) \<and> livePairCode now (store ! i)
      \<and> pairCodes s' = Stored (store[i := (store ! i)\<lparr>Used := True\<rparr>]))
    \<and> (case r of
         Inl e \<Rightarrow> True
       | Inr (cert, fp) \<Rightarrow> sign (reqCSR req) (reqLabel req) = Some (cert, fp)
           \<and> (\<exists>clients. trusted s' = Stored clients \<and> trimSpace fp \<in> Fingerprint ` set clients))"
proof -
  obtain u where c: "ConsumePairCode lock now (reqCode req) w1 (pairCodes s) = (pairCodes s', Inr u)"
    using assms by (auto simp: handlePairRequest_def Let_def split: prod.splits if_splits option.splits sum.splits)
  have "case r of
         Inl e \<Rightarrow> True
       | Inr (cert, fp) \<Rightarrow> sign (reqCSR req) (reqLabel req) = Some (cert, fp)
           \<and> (\<exists>v. trustClient fp (reqPrevious req) (reqLabel req) w2 (trusted s) = (trusted s', Inr v))"
    using assms by (auto simp: handlePairRequest_def Let_def split: prod.splits if_splits option.splits sum.splits)
  then show ?thesis using ConsumePairCode_ok [OF c]
    by (auto split: sum.splits dest!: trustClient_ok) (blast+)
qed

lemma pairing_spends_a_code_witness:
  "\<exists>clients. Stored [\<lparr>Fingerprint = ''fp'', Label = ''me''\<rparr>] = Stored clients \<and> trimSpace ''fp'' \<in> Fingerprint ` set clients"
proof -
  let ?s = "\<lparr>pairLimitsOf = [], pairCodes = Stored [\<lparr>Code = ''000042'', ExpiresAt = 9, Used = False\<rparr>],
    trusted = Missing\<rparr>"
  let ?s' = "\<lparr>pairLimitsOf = [], pairCodes = Stored [\<lparr>Code = ''000042'', ExpiresAt = 9, Used = True\<rparr>],
    trusted = Stored [\<lparr>Fingerprint = ''fp'', Label = ''me''\<rparr>]\<rparr>"
  have "handlePairRequest (\<lambda>_ _. Some (''cert'', ''fp'')) (Inr ()) 5 None WriteOk WriteOk
      \<lparr>reqCode = ''000042'', reqLabel = ''me'', reqPrevious = [], reqCSR = ''csr''\<rparr> ?s =
    (?s', Inr (''cert'', ''fp''))"
    by code_simp
  from pairing_spends_a_code [OF this] show ?thesis by simp
qed

text \<open>
  A successful pairing trusts the new certificate, drops the previous one the client
  named, and leaves every other client's trust as it was.
\<close>

theorem pairing_rotates_trust:
  assumes "handlePairRequest sign lock now remote w1 w2 req s = (s', Inr (cert, fp))"
  shows "clientTrusted (trimSpace fp) (trusted s') = Inr True
    \<and> (trimSpace (reqPrevious req) \<noteq> trimSpace fp \<longrightarrow>
      clientTrusted (trimSpace (reqPrevious req)) (trusted s') = Inr False)
    \<and> (other \<notin> {[], trimSpace fp, trimSpace (reqPrevious req)} \<longrightarrow>
      clientTrusted other (trusted s') = clientTrusted other (trusted s))"
proof -
  from assms obtain u where
    "trustClient fp (reqPrevious req) (reqLabel req) w2 (trusted s) = (trusted s', Inr u)"
    by (auto simp: handlePairRequest_def Let_def split: prod.splits if_splits option.splits sum.splits)
  then obtain store where load: "loadTrustStore (trusted s) = Inr store" and
    t: "trusted s' = Stored (filter (\<lambda>c. Fingerprint c \<notin> {[], trimSpace fp,
      trimSpace (reqPrevious req)}) store @
      [\<lparr>Fingerprint = trimSpace fp, Label = trimSpace (reqLabel req)\<rparr>])"
    by (auto simp: trustClient_def Let_def saveTrustStore_def writeJSONAtomically_def
        split: sum.splits writeOutcome.splits)
  from load show ?thesis
    by (auto simp: t clientTrusted_def loadTrustStore_def list_ex_iff)
qed

lemma pairing_rotates_trust_witness:
  "clientTrusted ''fp'' (Stored [\<lparr>Fingerprint = ''x'', Label = []\<rparr>, \<lparr>Fingerprint = ''fp'', Label = ''me''\<rparr>])
     = Inr True
   \<and> clientTrusted ''old'' (Stored [\<lparr>Fingerprint = ''x'', Label = []\<rparr>, \<lparr>Fingerprint = ''fp'', Label = ''me''\<rparr>])
     = Inr False"
proof -
  let ?s = "\<lparr>pairLimitsOf = [], pairCodes = Stored [\<lparr>Code = ''000042'', ExpiresAt = 9, Used = False\<rparr>],
    trusted = Stored [\<lparr>Fingerprint = ''x'', Label = []\<rparr>, \<lparr>Fingerprint = ''old'', Label = []\<rparr>]\<rparr>"
  let ?s' = "\<lparr>pairLimitsOf = [], pairCodes = Stored [\<lparr>Code = ''000042'', ExpiresAt = 9, Used = True\<rparr>],
    trusted = Stored [\<lparr>Fingerprint = ''x'', Label = []\<rparr>, \<lparr>Fingerprint = ''fp'', Label = ''me''\<rparr>]\<rparr>"
  let ?req = "\<lparr>reqCode = ''000042'', reqLabel = ''me'', reqPrevious = ''old'', reqCSR = ''csr''\<rparr>"
  have h: "handlePairRequest (\<lambda>_ _. Some (''cert'', ''fp'')) (Inr ()) 5 None WriteOk WriteOk
      ?req ?s = (?s', Inr (''cert'', ''fp''))"
    by code_simp
  have "trimSpace ''fp'' = ''fp''" and "trimSpace ''old'' = ''old''" by code_simp+
  then show ?thesis using pairing_rotates_trust [OF h] by simp
qed

end
