(* ===== verification/Lease.thy ===== *)
theory Lease
  imports RefCount Entries
begin

text \<open>
  Workspace leases (host/workspace\_lease.go and the locks of host/context\_store.go): a kept
  workspace of a context with its metadata and manifest on disk, counted while a run uses
  it and marked while it is being deleted. The disk of one context is a map from lease ids
  to their directories; outcomes of the file system are arguments.
\<close>

section \<open>Lease ids\<close>

datatype leaseError =
    LeaseIDRequired | InvalidLeaseID string | LeaseBeingDeleted | LeaseActive | LeaseNotFound
  | LeaseFile ioError | LeaseIsDirty | LeaseExpired | WorkspaceMissing | RemoveFailed
  | KeepUnparsable | KeepNotPositive | MkdirFailed | NonceFailed | AllocateFailed

text \<open>\<open>unicode.IsLetter\<close>; \<open>wide\<close> is its table beyond ASCII.\<close>

definition isLetter :: "(nat \<Rightarrow> bool) \<Rightarrow> nat \<Rightarrow> bool" where
  "isLetter wide r \<longleftrightarrow>
     (if r < 0x80 then 0x41 \<le> r \<and> r \<le> 0x5A \<or> 0x61 \<le> r \<and> r \<le> 0x7A else wide r)"

definition leaseIDRune :: "(nat \<Rightarrow> bool) \<Rightarrow> nat \<Rightarrow> bool" where
  "leaseIDRune wide r \<longleftrightarrow> isLetter wide r \<or> isDigit r \<or> r = 0x5F \<or> r = 0x2D"

definition normalizeWorkspaceLeaseID :: "(nat \<Rightarrow> bool) \<Rightarrow> string \<Rightarrow> leaseError + string" where
  "normalizeWorkspaceLeaseID wide id0 =
     (let id' = trimSpace id0 in
      if id' = [] then Inl LeaseIDRequired
      else if id' = ''.'' \<or> id' = ''..'' \<or> 80 < length id' then Inl (InvalidLeaseID id')
      else if list_all (leaseIDRune wide) (runes id') then Inr id'
      else Inl (InvalidLeaseID id'))"

definition workspaceLeaseDir :: "string \<Rightarrow> string \<Rightarrow> string" where
  "workspaceLeaseDir contextDir id' = pathJoin [contextDir, ''workspaces'', id']"

definition workspaceLeaseWorkspacePath :: "string \<Rightarrow> string \<Rightarrow> string" where
  "workspaceLeaseWorkspacePath contextDir id' = pathJoin [workspaceLeaseDir contextDir id', ''workspace'']"

section \<open>Locks\<close>

record leaseLocks =
  activeLeases :: counters
  deletingLeases :: "string set"

definition workspaceLeaseActiveKey :: "string \<Rightarrow> string \<Rightarrow> string" where
  "workspaceLeaseActiveKey contextID leaseID = contextID @ CHR 0x00 # leaseID"

definition workspaceLeaseIsActive :: "string \<Rightarrow> string \<Rightarrow> leaseLocks \<Rightarrow> bool" where
  "workspaceLeaseIsActive contextID leaseID L \<longleftrightarrow>
     0 < counter (activeLeases L) (workspaceLeaseActiveKey contextID leaseID)"

text \<open>The value is the key to give back, \<open>None\<close> for the empty release of a blank id.\<close>

definition acquireWorkspaceLease ::
  "string \<Rightarrow> string \<Rightarrow> leaseLocks \<Rightarrow> leaseLocks \<times> (leaseError + string option)" where
  "acquireWorkspaceLease contextID leaseID L =
     (if trimSpace leaseID = [] then (L, Inr None)
      else
        (let key = workspaceLeaseActiveKey contextID leaseID in
         if key \<in> deletingLeases L then (L, Inl LeaseBeingDeleted)
         else (L\<lparr>activeLeases := incCounter key (activeLeases L)\<rparr>, Inr (Some key))))"

definition releaseLease :: "string option \<Rightarrow> leaseLocks \<Rightarrow> leaseLocks" where
  "releaseLease held L =
     (case held of None \<Rightarrow> L | Some key \<Rightarrow> L\<lparr>activeLeases := decCounter key (activeLeases L)\<rparr>)"

definition beginWorkspaceLeaseDelete ::
  "string \<Rightarrow> string \<Rightarrow> leaseLocks \<Rightarrow> leaseLocks \<times> (leaseError + string)" where
  "beginWorkspaceLeaseDelete contextID leaseID L =
     (let key = workspaceLeaseActiveKey contextID leaseID in
      if 0 < counter (activeLeases L) key then (L, Inl LeaseActive)
      else if key \<in> deletingLeases L then (L, Inl LeaseBeingDeleted)
      else (L\<lparr>deletingLeases := insert key (deletingLeases L)\<rparr>, Inr key))"

definition releaseDelete :: "string \<Rightarrow> leaseLocks \<Rightarrow> leaseLocks" where
  "releaseDelete key L = L\<lparr>deletingLeases := deletingLeases L - {key}\<rparr>"

section \<open>Leases on disk\<close>

record leaseMetadata =
  LeaseID :: string
  LeaseContextID :: string
  LeaseCreatedAt :: go_time
  LeaseUpdatedAt :: go_time
  LeaseExpiresAt :: go_time
  Dirty :: bool
  LastSession :: string

record leaseState = leaseMetadata +
  WorkspaceManifest :: "entry list"

record leaseDir =
  metaFile :: "leaseMetadata jsonFile"
  manifestFile :: "entry list jsonFile"
  hasWorkspace :: bool

type_synonym leaseDisk = "string \<rightharpoonup> leaseDir"

definition leaseDirOf :: "leaseDisk \<Rightarrow> string \<Rightarrow> leaseDir" where
  "leaseDirOf disk id' =
     (case disk id' of Some d \<Rightarrow> d
      | None \<Rightarrow> \<lparr>metaFile = Missing, manifestFile = Missing, hasWorkspace = False\<rparr>)"

definition leaseMeta :: "leaseState \<Rightarrow> leaseMetadata" where
  "leaseMeta s = leaseMetadata.truncate s"

definition loadWorkspaceLeaseMetadata ::
  "(nat \<Rightarrow> bool) \<Rightarrow> string \<Rightarrow> leaseDisk \<Rightarrow> leaseError + leaseState" where
  "loadWorkspaceLeaseMetadata wide rawID disk =
     andThen (normalizeWorkspaceLeaseID wide rawID) (\<lambda>id'.
       (case metaFile (leaseDirOf disk id') of
          Missing \<Rightarrow> Inl LeaseNotFound
        | Unreadable \<Rightarrow> Inl (LeaseFile ReadError)
        | Corrupt \<Rightarrow> Inl (LeaseFile ParseError)
        | Stored meta \<Rightarrow>
            Inr (leaseMetadata.extend (if LeaseID meta = [] then meta\<lparr>LeaseID := id'\<rparr> else meta)
                   (leaseState.fields []))))"

definition loadWorkspaceLease ::
  "(nat \<Rightarrow> bool) \<Rightarrow> string \<Rightarrow> leaseDisk \<Rightarrow> leaseError + leaseState" where
  "loadWorkspaceLease wide rawID disk =
     andThen (loadWorkspaceLeaseMetadata wide rawID disk) (\<lambda>state.
       (case readJSON [] (manifestFile (leaseDirOf disk (LeaseID state))) of
          Inl e \<Rightarrow> Inl (LeaseFile e)
        | Inr entries \<Rightarrow> Inr (state\<lparr>WorkspaceManifest := entries\<rparr>)))"

text \<open>\<open>w1\<close>, \<open>w2\<close>: the outcomes of the two file replacements.\<close>

definition saveWorkspaceLease ::
  "(nat \<Rightarrow> bool) \<Rightarrow> writeOutcome \<Rightarrow> writeOutcome \<Rightarrow> leaseState \<Rightarrow> leaseDisk \<Rightarrow>
   leaseDisk \<times> (leaseError + unit)" where
  "saveWorkspaceLease wide w1 w2 state disk =
     (case normalizeWorkspaceLeaseID wide (LeaseID state) of
        Inl e \<Rightarrow> (disk, Inl e)
      | Inr _ \<Rightarrow>
          (let d0 = leaseDirOf disk (LeaseID state);
               (f1, r1) = writeJSONAtomically w1 (leaseMeta state) (metaFile d0);
               d1 = d0\<lparr>metaFile := f1\<rparr> in
           case r1 of
             Inl e \<Rightarrow> (disk(LeaseID state \<mapsto> d1), Inl (LeaseFile e))
           | Inr _ \<Rightarrow>
               (let (f2, r2) = writeJSONAtomically w2 (WorkspaceManifest state) (manifestFile d1) in
                (disk(LeaseID state \<mapsto> d1\<lparr>manifestFile := f2\<rparr>),
                 case r2 of Inl e \<Rightarrow> Inl (LeaseFile e) | Inr _ \<Rightarrow> Inr ()))))"

text \<open>\<open>remains\<close>: what a failing \<open>RemoveAll\<close> leaves of the directory; \<open>None\<close> when it succeeds.\<close>

definition removeWorkspaceLease ::
  "(nat \<Rightarrow> bool) \<Rightarrow> leaseDir option \<Rightarrow> string \<Rightarrow> leaseDisk \<Rightarrow> leaseDisk \<times> (leaseError + unit)" where
  "removeWorkspaceLease wide remains rawID disk =
     (case normalizeWorkspaceLeaseID wide rawID of
        Inl e \<Rightarrow> (disk, Inl e)
      | Inr id' \<Rightarrow> (disk(id' := remains),
          if remains = None then Inr () else Inl RemoveFailed))"

section \<open>Preparing a lease for a run\<close>

record leaseWorld =
  locks :: leaseLocks
  disk :: leaseDisk

record preparedLease =
  leaseOf :: leaseState
  reused :: bool
  leaseKey :: "string option"

record leaseOutcomes =
  metaWrite :: writeOutcome
  manifestWrite :: writeOutcome
  removal :: "leaseDir option"
  mkdirOk :: bool
  nonces :: "string option list"

definition parseWorkspaceKeepDuration ::
  "(string \<Rightarrow> duration option) \<Rightarrow> string \<Rightarrow> leaseError + duration" where
  "parseWorkspaceKeepDuration parseDuration value0 =
     (let v = trimSpace value0 in
      if v = [] then Inr 0
      else (case parseDuration v of
              None \<Rightarrow> Inl KeepUnparsable
            | Some ttl \<Rightarrow> if ttl \<le> 0 then Inl KeepNotPositive else Inr ttl))"

text \<open>\<open>time.After\<close> of an expiry that is set.\<close>

definition leaseExpired :: "go_time \<Rightarrow> leaseState \<Rightarrow> bool" where
  "leaseExpired now s \<longleftrightarrow> LeaseExpiresAt s \<noteq> 0 \<and> \<not> now < LeaseExpiresAt s"

text \<open>The part of \<open>prepareReusedWorkspaceLease\<close> after the lease was taken with key \<open>held\<close>.\<close>

definition reuseTaken ::
  "(nat \<Rightarrow> bool) \<Rightarrow> leaseOutcomes \<Rightarrow> string \<Rightarrow> duration \<Rightarrow> string \<Rightarrow> go_time \<Rightarrow>
   string option \<Rightarrow> leaseDisk \<Rightarrow> leaseDisk \<times> (leaseError + preparedLease)" where
  "reuseTaken wide io session keep id' now held dsk =
     (case loadWorkspaceLease wide id' dsk of
        Inl e \<Rightarrow> (dsk, Inl e)
      | Inr state \<Rightarrow>
          if Dirty state then (dsk, Inl LeaseIsDirty)
          else if leaseExpired now state then
            (fst (removeWorkspaceLease wide (removal io) id' dsk), Inl LeaseExpired)
          else if \<not> hasWorkspace (leaseDirOf dsk id') then
            (fst (saveWorkspaceLease wide (metaWrite io) (manifestWrite io)
                (state\<lparr>Dirty := True, LeaseUpdatedAt := now\<rparr>) dsk), Inl WorkspaceMissing)
          else
            (let state1 = (if 0 < keep then state\<lparr>LeaseExpiresAt := now + keep\<rparr> else state);
                 state2 = state1\<lparr>LeaseUpdatedAt := now, LastSession := session, Dirty := True\<rparr>;
                 (dsk', r) = saveWorkspaceLease wide (metaWrite io) (manifestWrite io) state2 dsk in
             (dsk', case r of Inl e \<Rightarrow> Inl e
                | Inr _ \<Rightarrow> Inr \<lparr>leaseOf = state2, reused = True, leaseKey = held\<rparr>)))"

text \<open>An error gives the lease back; a prepared lease keeps it until the run ends.\<close>

definition giveBackOnError ::
  "string option \<Rightarrow> leaseLocks \<Rightarrow> leaseDisk \<times> (leaseError + 'a) \<Rightarrow> leaseWorld \<times> (leaseError + 'a)" where
  "giveBackOnError held L dr =
     (case dr of
        (dsk, Inl e) \<Rightarrow> (\<lparr>locks = releaseLease held L, disk = dsk\<rparr>, Inl e)
      | (dsk, Inr p) \<Rightarrow> (\<lparr>locks = L, disk = dsk\<rparr>, Inr p))"

definition prepareReusedWorkspaceLease ::
  "(nat \<Rightarrow> bool) \<Rightarrow> leaseOutcomes \<Rightarrow> string \<Rightarrow> string \<Rightarrow> duration \<Rightarrow> string \<Rightarrow> go_time \<Rightarrow>
   leaseWorld \<Rightarrow> leaseWorld \<times> (leaseError + preparedLease)" where
  "prepareReusedWorkspaceLease wide io contextID session keep reuseID now w =
     (case normalizeWorkspaceLeaseID wide reuseID of
        Inl e \<Rightarrow> (w, Inl e)
      | Inr id' \<Rightarrow>
          (case acquireWorkspaceLease contextID id' (locks w) of
             (L, Inl e) \<Rightarrow> (w\<lparr>locks := L\<rparr>, Inl e)
           | (L, Inr held) \<Rightarrow>
               giveBackOnError held L (reuseTaken wide io session keep id' now held (disk w))))"

fun newWorkspaceLeaseID :: "string option list \<Rightarrow> nat \<Rightarrow> leaseDisk \<Rightarrow> leaseError + string" where
  "newWorkspaceLeaseID draws 0 dsk = Inl AllocateFailed"
| "newWorkspaceLeaseID [] (Suc n) dsk = Inl NonceFailed"
| "newWorkspaceLeaseID (None # draws) (Suc n) dsk = Inl NonceFailed"
| "newWorkspaceLeaseID (Some nonce # draws) (Suc n) dsk =
     (let id' = ''ws_'' @ take 16 nonce in
      if dsk id' = None then Inr id' else newWorkspaceLeaseID draws n dsk)"

definition createTaken ::
  "(nat \<Rightarrow> bool) \<Rightarrow> leaseOutcomes \<Rightarrow> string \<Rightarrow> string \<Rightarrow> duration \<Rightarrow> string \<Rightarrow> go_time \<Rightarrow>
   string option \<Rightarrow> leaseDisk \<Rightarrow> leaseDisk \<times> (leaseError + preparedLease)" where
  "createTaken wide io contextID session keep id' now held dsk =
     (let state = \<lparr>LeaseID = id', LeaseContextID = contextID, LeaseCreatedAt = now,
            LeaseUpdatedAt = now, LeaseExpiresAt = now + keep, Dirty = True, LastSession = session,
            WorkspaceManifest = []\<rparr> in
      case saveWorkspaceLease wide (metaWrite io) (manifestWrite io) state dsk of
        (dsk1, Inl e) \<Rightarrow> (dsk1, Inl e)
      | (dsk1, Inr _) \<Rightarrow>
          (if mkdirOk io then
             (dsk1(id' \<mapsto> (leaseDirOf dsk1 id')\<lparr>hasWorkspace := True\<rparr>),
              Inr \<lparr>leaseOf = state, reused = False, leaseKey = held\<rparr>)
           else (fst (removeWorkspaceLease wide (removal io) id' dsk1), Inl MkdirFailed)))"

text \<open>
  Pruning visits the lease directories in the order \<open>ids\<close>; \<open>remains\<close> gives the outcome of
  each removal. The first error ends it. The result lists the directories removed.
\<close>

definition pruneDecision ::
  "(nat \<Rightarrow> bool) \<Rightarrow> go_time \<Rightarrow> leaseWorld \<Rightarrow> string \<Rightarrow> leaseError + string option" where
  "pruneDecision wide now w id' =
     (if \<not> isOk (normalizeWorkspaceLeaseID wide id') then Inr None
      else
        (case loadWorkspaceLeaseMetadata wide id' (disk w) of
           Inl e \<Rightarrow> (if e = LeaseNotFound then Inr (Some id') else Inl e)
         | Inr state \<Rightarrow>
             (if \<not> leaseExpired now state then Inr None
              else if workspaceLeaseIsActive (LeaseContextID state) (LeaseID state) (locks w)
                then Inr None
              else Inr (Some (LeaseID state)))))"

fun pruneExpired ::
  "(nat \<Rightarrow> bool) \<Rightarrow> (string \<Rightarrow> leaseDir option) \<Rightarrow> go_time \<Rightarrow> string list \<Rightarrow> leaseWorld \<Rightarrow>
   leaseDisk \<times> string list \<times> (leaseError + unit)" where
  "pruneExpired wide remains now [] w = (disk w, [], Inr ())"
| "pruneExpired wide remains now (id' # ids) w =
     (case pruneDecision wide now w id' of
        Inl e \<Rightarrow> (disk w, [], Inl e)
      | Inr None \<Rightarrow> pruneExpired wide remains now ids w
      | Inr (Some target) \<Rightarrow>
          (case removeWorkspaceLease wide (remains target) target (disk w) of
             (dsk, Inl e) \<Rightarrow> (dsk, [], Inl e)
           | (dsk, Inr _) \<Rightarrow>
               (case pruneExpired wide remains now ids (w\<lparr>disk := dsk\<rparr>) of
                  (dsk', removed, r) \<Rightarrow> (dsk', target # removed, r))))"

definition prepareNewWorkspaceLease ::
  "(nat \<Rightarrow> bool) \<Rightarrow> leaseOutcomes \<Rightarrow> (string \<Rightarrow> leaseDir option) \<Rightarrow> string list \<Rightarrow> string \<Rightarrow>
   string \<Rightarrow> duration \<Rightarrow> go_time \<Rightarrow> leaseWorld \<Rightarrow> leaseWorld \<times> (leaseError + preparedLease)" where
  "prepareNewWorkspaceLease wide io remains ids contextID session keep now w =
     (case pruneExpired wide remains now ids w of
        (dsk, _, Inl e) \<Rightarrow> (w\<lparr>disk := dsk\<rparr>, Inl e)
      | (dsk, _, Inr _) \<Rightarrow>
          (case newWorkspaceLeaseID (nonces io) 16 dsk of
             Inl e \<Rightarrow> (w\<lparr>disk := dsk\<rparr>, Inl e)
           | Inr id' \<Rightarrow>
               (case acquireWorkspaceLease contextID id' (locks w) of
                  (L, Inl e) \<Rightarrow> (\<lparr>locks = L, disk = dsk\<rparr>, Inl e)
                | (L, Inr held) \<Rightarrow>
                    giveBackOnError held L
                      (createTaken wide io contextID session keep id' now held dsk))))"

text \<open>
  \<open>prepareRunWorkspace\<close>: no lease without a keep duration or a lease to reuse.
\<close>

definition prepareRunWorkspace ::
  "(nat \<Rightarrow> bool) \<Rightarrow> (string \<Rightarrow> duration option) \<Rightarrow> leaseOutcomes \<Rightarrow>
   (string \<Rightarrow> leaseDir option) \<Rightarrow> string list \<Rightarrow> string \<Rightarrow> string \<Rightarrow> string \<Rightarrow> string \<Rightarrow> go_time \<Rightarrow>
   leaseWorld \<Rightarrow> leaseWorld \<times> (leaseError + preparedLease option)" where
  "prepareRunWorkspace wide parseDuration io remains ids contextID session keepText reuse now w =
     (case parseWorkspaceKeepDuration parseDuration keepText of
        Inl e \<Rightarrow> (w, Inl e)
      | Inr keep \<Rightarrow>
          (let reuseID = trimSpace reuse in
           if keep \<le> 0 \<and> reuseID = [] then (w, Inr None)
           else
             (let (w', r) = (if reuseID \<noteq> []
                  then prepareReusedWorkspaceLease wide io contextID session keep reuseID now w
                  else prepareNewWorkspaceLease wide io remains ids contextID session keep now w) in
              (w', case r of Inl e \<Rightarrow> Inl e | Inr p \<Rightarrow> Inr (Some p)))))"

section \<open>The end of a run\<close>

definition finalizeWorkspaceLease ::
  "(nat \<Rightarrow> bool) \<Rightarrow> leaseOutcomes \<Rightarrow> go_time \<Rightarrow> duration \<Rightarrow> string \<Rightarrow> entry list \<Rightarrow> leaseState \<Rightarrow>
   leaseDisk \<Rightarrow> leaseDisk \<times> leaseState \<times> (leaseError + unit)" where
  "finalizeWorkspaceLease wide io now keep session workspaceManifest state0 dsk =
     (let state1 = state0\<lparr>LeaseUpdatedAt := now\<rparr>;
          state2 = (if 0 < keep then state1\<lparr>LeaseExpiresAt := now + keep\<rparr> else state1);
          state3 = state2\<lparr>Dirty := False, LastSession := session,
                          WorkspaceManifest := workspaceManifest\<rparr>;
          (dsk', r) = saveWorkspaceLease wide (metaWrite io) (manifestWrite io) state3 dsk in
      (dsk', state3, r))"

definition markWorkspaceLeaseDirty ::
  "(nat \<Rightarrow> bool) \<Rightarrow> leaseOutcomes \<Rightarrow> go_time \<Rightarrow> leaseState \<Rightarrow> leaseDisk \<Rightarrow> leaseDisk" where
  "markWorkspaceLeaseDirty wide io now state dsk =
     fst (saveWorkspaceLease wide (metaWrite io) (manifestWrite io)
       (state\<lparr>Dirty := True, LeaseUpdatedAt := now\<rparr>) dsk)"

section \<open>Deleting leases\<close>

text \<open>
  The result lists the deleted leases and the ids not found, before sorting. A lease that is
  found is removed under its mark; for an id without metadata the mark is given back before
  what is left of the directory is removed. The steps of several requests and runs interleave
  in \<open>leaseStep\<close> below.
\<close>

fun deleteWorkspaceLeases ::
  "(nat \<Rightarrow> bool) \<Rightarrow> (string \<Rightarrow> leaseDir option) \<Rightarrow> string \<Rightarrow> string list \<Rightarrow> leaseWorld \<Rightarrow>
   leaseWorld \<times> (leaseError + leaseState list \<times> string list)" where
  "deleteWorkspaceLeases wide remains contextID [] w = (w, Inr ([], []))"
| "deleteWorkspaceLeases wide remains contextID (rawID # ids) w =
     (case normalizeWorkspaceLeaseID wide rawID of
        Inl e \<Rightarrow> (w, Inl e)
      | Inr id' \<Rightarrow>
          (case beginWorkspaceLeaseDelete contextID id' (locks w) of
             (L, Inl e) \<Rightarrow> (w\<lparr>locks := L\<rparr>, Inl e)
           | (L, Inr key) \<Rightarrow>
               (let L' = releaseDelete key L in
                case loadWorkspaceLeaseMetadata wide id' (disk w) of
                  Inl e \<Rightarrow>
                    (if e = LeaseNotFound then
                       (let w1 = \<lparr>locks = L',
                              disk = fst (removeWorkspaceLease wide (remains id') id' (disk w))\<rparr> in
                        case deleteWorkspaceLeases wide remains contextID ids w1 of
                          (w2, Inl e) \<Rightarrow> (w2, Inl e)
                        | (w2, Inr (deleted, notFound)) \<Rightarrow> (w2, Inr (deleted, id' # notFound)))
                     else (w\<lparr>locks := L'\<rparr>, Inl e))
                | Inr state \<Rightarrow>
                    (case removeWorkspaceLease wide (remains id') id' (disk w) of
                       (dsk, Inl e) \<Rightarrow> (\<lparr>locks = L', disk = dsk\<rparr>, Inl e)
                     | (dsk, Inr _) \<Rightarrow>
                         (case deleteWorkspaceLeases wide remains contextID ids
                                 \<lparr>locks = L', disk = dsk\<rparr> of
                            (w2, Inl e) \<Rightarrow> (w2, Inl e)
                          | (w2, Inr (deleted, notFound)) \<Rightarrow>
                              (w2, Inr (state # deleted, notFound)))))))"

section \<open>Facts about the locks\<close>

lemma releaseLease_locks [simp]:
  "deletingLeases (releaseLease held L) = deletingLeases L"
  "activeLeases (releaseLease held L) =
     (case held of None \<Rightarrow> activeLeases L | Some k \<Rightarrow> decCounter k (activeLeases L))"
  by (auto simp: releaseLease_def split: option.splits)

lemma acquireWorkspaceLease_locks:
  "acquireWorkspaceLease c i L = (L', r) \<Longrightarrow> deletingLeases L' = deletingLeases L \<and>
   (case r of
      Inl e \<Rightarrow> L' = L
    | Inr None \<Rightarrow> L' = L
    | Inr (Some k) \<Rightarrow> k = workspaceLeaseActiveKey c i \<and> k \<notin> deletingLeases L
        \<and> activeLeases L' = incCounter k (activeLeases L))"
  by (auto simp: acquireWorkspaceLease_def Let_def split: if_splits)

lemma counter_inc [simp]:
  "counter (incCounter k m) j = (if j = k then counter m k + 1 else counter m j)"
  by (simp add: incCounter_def)

lemma counter_dec:
  "tidy m \<Longrightarrow> 0 < counter m k \<Longrightarrow>
   counter (decCounter k m) j = (if j = k then counter m k - 1 else counter m j)"
  by (auto simp: decCounter_def)

lemma counter_inc_dec: "tidy m \<Longrightarrow> counter (decCounter k (incCounter k m)) j = counter m j"
  using tidy_counter [of m k] by (simp add: decCounter_def)

section \<open>Runs and deletions, interleaved\<close>

text \<open>
  The steps of runs and delete requests of one context id, each as far as its locks and one
  access to the disk: a run takes a lease, writes its directory while it holds it and gives it
  back; a deletion sets the mark, removes the directory while it is set and clears it. A deletion
  that finds no metadata clears the mark first (\<open>lsGone\<close>) and removes the rest afterwards.
  Between the steps of one the others go on.
\<close>

datatype leaseActor = ByRun string | ByDelete string

record leaseSystem =
  lsLocks :: leaseLocks
  lsDisk :: leaseDisk
  lsHeld :: "string multiset"
  lsDeleting :: "string set"
  lsGone :: "string multiset"

inductive leaseStep :: "(nat \<Rightarrow> bool) \<Rightarrow> string \<Rightarrow> leaseActor \<Rightarrow> leaseSystem \<Rightarrow> leaseSystem \<Rightarrow> bool"
  for wide :: "nat \<Rightarrow> bool" and c :: string where
  run_begin: "normalizeWorkspaceLeaseID wide raw = Inr i \<Longrightarrow>
    acquireWorkspaceLease c i (lsLocks s) = (L, Inr held) \<Longrightarrow>
    leaseStep wide c (ByRun i) s (s\<lparr>lsLocks := L, lsHeld := add_mset i (lsHeld s)\<rparr>)"
| run_writes: "i \<in># lsHeld s \<Longrightarrow> leaseStep wide c (ByRun i) s (s\<lparr>lsDisk := (lsDisk s)(i := d)\<rparr>)"
| run_end: "i \<in># lsHeld s \<Longrightarrow>
    leaseStep wide c (ByRun i) s
      (s\<lparr>lsLocks := releaseLease (Some (workspaceLeaseActiveKey c i)) (lsLocks s), lsHeld := lsHeld s - {#i#}\<rparr>)"
| delete_begin: "normalizeWorkspaceLeaseID wide raw = Inr i \<Longrightarrow>
    beginWorkspaceLeaseDelete c i (lsLocks s) = (L, Inr k) \<Longrightarrow>
    leaseStep wide c (ByDelete i) s (s\<lparr>lsLocks := L, lsDeleting := insert i (lsDeleting s)\<rparr>)"
| delete_removes: "i \<in> lsDeleting s \<Longrightarrow> removeWorkspaceLease wide remains i (lsDisk s) = (dsk, r) \<Longrightarrow>
    leaseStep wide c (ByDelete i) s (s\<lparr>lsDisk := dsk\<rparr>)"
| delete_end: "i \<in> lsDeleting s \<Longrightarrow>
    leaseStep wide c (ByDelete i) s
      (s\<lparr>lsLocks := releaseDelete (workspaceLeaseActiveKey c i) (lsLocks s), lsDeleting := lsDeleting s - {i}\<rparr>)"
| delete_gone: "i \<in> lsDeleting s \<Longrightarrow> loadWorkspaceLeaseMetadata wide i (lsDisk s) = Inl LeaseNotFound \<Longrightarrow>
    leaseStep wide c (ByDelete i) s
      (s\<lparr>lsLocks := releaseDelete (workspaceLeaseActiveKey c i) (lsLocks s), lsDeleting := lsDeleting s - {i},
         lsGone := add_mset i (lsGone s)\<rparr>)"
| gone_removes: "i \<in># lsGone s \<Longrightarrow> removeWorkspaceLease wide remains i (lsDisk s) = (dsk, r) \<Longrightarrow>
    leaseStep wide c (ByDelete i) s (s\<lparr>lsDisk := dsk, lsGone := lsGone s - {#i#}\<rparr>)"

inductive_cases delete_stepE: "leaseStep wide c (ByDelete i) s s'"

inductive leaseReachable :: "(nat \<Rightarrow> bool) \<Rightarrow> string \<Rightarrow> leaseSystem \<Rightarrow> bool"
  for wide :: "nat \<Rightarrow> bool" and c :: string where
  init: "leaseReachable wide c \<lparr>lsLocks = \<lparr>activeLeases = Map.empty, deletingLeases = {}\<rparr>, lsDisk = dsk,
    lsHeld = {#}, lsDeleting = {}, lsGone = {#}\<rparr>"
| step: "leaseReachable wide c s \<Longrightarrow> leaseStep wide c a s s' \<Longrightarrow> leaseReachable wide c s'"

lemma lease_key_inject: "workspaceLeaseActiveKey c i = workspaceLeaseActiveKey c j \<longleftrightarrow> i = j"
  by (simp add: workspaceLeaseActiveKey_def)

lemma normalizeWorkspaceLeaseID_idem:
  "normalizeWorkspaceLeaseID wide raw = Inr i \<Longrightarrow> normalizeWorkspaceLeaseID wide i = Inr i"
  by (auto simp: normalizeWorkspaceLeaseID_def Let_def split: if_splits)

definition useInv :: "(nat \<Rightarrow> bool) \<Rightarrow> string \<Rightarrow> leaseSystem \<Rightarrow> bool" where
  "useInv wide c s \<longleftrightarrow> tidy (activeLeases (lsLocks s))
     \<and> (\<forall>i. counter (activeLeases (lsLocks s)) (workspaceLeaseActiveKey c i) = int (count (lsHeld s) i))
     \<and> deletingLeases (lsLocks s) = workspaceLeaseActiveKey c ` lsDeleting s
     \<and> (\<forall>i \<in> lsDeleting s. i \<notin># lsHeld s)
     \<and> (\<forall>i \<in> lsDeleting s \<union> set_mset (lsGone s). normalizeWorkspaceLeaseID wide i = Inr i)"

lemma key_image_diff:
  "workspaceLeaseActiveKey c ` A - {workspaceLeaseActiveKey c i} = workspaceLeaseActiveKey c ` (A - {i})"
  by (auto simp: lease_key_inject)

lemma key_image_mem: "workspaceLeaseActiveKey c i \<in> workspaceLeaseActiveKey c ` A \<longleftrightarrow> i \<in> A"
  by (auto simp: lease_key_inject)

lemma useInv_step:
  assumes "leaseStep wide c a s s'" and "useInv wide c s"
  shows "useInv wide c s'"
  using assms
proof (induction rule: leaseStep.induct)
  case (run_begin raw i s L held)
  have "trimSpace i \<noteq> []" using run_begin(1) by (auto simp: normalizeWorkspaceLeaseID_def Let_def split: if_splits)
  then have "held = Some (workspaceLeaseActiveKey c i)" using run_begin(2)
    by (auto simp: acquireWorkspaceLease_def Let_def split: if_splits)
  then show ?case
    using acquireWorkspaceLease_locks [OF run_begin(2)] run_begin(3)
    by (auto simp: useInv_def tidy_steps key_image_mem lease_key_inject)
next
  case (run_end i s)
  let ?k = "workspaceLeaseActiveKey c i"
  have t: "tidy (activeLeases (lsLocks s))" and n: "0 < counter (activeLeases (lsLocks s)) ?k"
    and e: "\<forall>j. counter (activeLeases (lsLocks s)) (workspaceLeaseActiveKey c j) = int (count (lsHeld s) j)"
    using run_end by (auto simp: useInv_def)
  have "counter (decCounter ?k (activeLeases (lsLocks s))) (workspaceLeaseActiveKey c j) = int (count (lsHeld s - {#i#}) j)" for j
    using counter_dec [OF t n, of "workspaceLeaseActiveKey c j"] e n by (simp add: of_nat_diff lease_key_inject)
  then show ?case using run_end t by (auto simp: useInv_def tidy_steps dest: in_diffD)
next
  case (delete_begin raw i s L k)
  then show ?case using normalizeWorkspaceLeaseID_idem [OF delete_begin(1)]
    by (auto simp: useInv_def beginWorkspaceLeaseDelete_def Let_def not_in_iff split: if_splits)
qed (auto simp: useInv_def releaseDelete_def key_image_diff dest: in_diffD)

lemma useInv_reachable: "leaseReachable wide c s \<Longrightarrow> useInv wide c s"
proof (induction rule: leaseReachable.induct)
  case init
  then show ?case by (simp add: useInv_def tidy_steps)
next
  case (step s a s')
  then show ?case by (blast intro: useInv_step)
qed

text \<open>What a deletion does to the disk it does to a directory it has marked, or has found empty.\<close>

lemma delete_step_disk:
  assumes "leaseStep wide c (ByDelete j) s s'" and "useInv wide c s" and "i \<notin> lsDeleting s" and "i \<notin># lsGone s"
  shows "lsDisk s' i = lsDisk s i"
proof -
  have n: "normalizeWorkspaceLeaseID wide j = Inr j" if "j \<in> lsDeleting s \<or> j \<in># lsGone s"
    using assms(2) that by (auto simp: useInv_def)
  show ?thesis using assms(1,3,4) n by (auto elim!: delete_stepE simp: removeWorkspaceLease_def)
qed

section \<open>Facts about the disk\<close>

text \<open>The metadata of a directory names that directory, or nothing.\<close>

definition leaseDiskInv :: "leaseDisk \<Rightarrow> bool" where
  "leaseDiskInv dsk \<longleftrightarrow>
     (\<forall>i d m. dsk i = Some d \<longrightarrow> metaFile d = Stored m \<longrightarrow> LeaseID m = i \<or> LeaseID m = [])"

lemma normalizeWorkspaceLeaseID_nonempty:
  "normalizeWorkspaceLeaseID wide raw = Inr i \<Longrightarrow> i \<noteq> [] \<and> trimSpace i \<noteq> []"
  by (auto simp: normalizeWorkspaceLeaseID_def Let_def split: if_splits)

lemma leaseDirOf_meta: "metaFile (leaseDirOf dsk i) = Stored m \<Longrightarrow> \<exists>d. dsk i = Some d \<and> metaFile d = Stored m"
  by (auto simp: leaseDirOf_def split: option.splits)

lemma loadMetadata_id:
  assumes "leaseDiskInv dsk" and "loadWorkspaceLeaseMetadata wide raw dsk = Inr st"
  shows "normalizeWorkspaceLeaseID wide raw = Inr (LeaseID st)"
proof -
  obtain i where i: "normalizeWorkspaceLeaseID wide raw = Inr i"
    using assms(2) unfolding loadWorkspaceLeaseMetadata_def andThen_Inr_iff by blast
  then obtain m where m: "metaFile (leaseDirOf dsk i) = Stored m"
    and st: "LeaseID st = (if LeaseID m = [] then i else LeaseID m)"
    using assms(2) unfolding loadWorkspaceLeaseMetadata_def
    by (cases "metaFile (leaseDirOf dsk i)") (auto simp: leaseMetadata.defs)
  have "LeaseID m = i \<or> LeaseID m = []"
    using leaseDirOf_meta [OF m] assms(1) unfolding leaseDiskInv_def by blast
  then show ?thesis using i st by auto
qed

lemma loadLease_id:
  assumes "leaseDiskInv dsk" and "loadWorkspaceLease wide raw dsk = Inr st"
  shows "normalizeWorkspaceLeaseID wide raw = Inr (LeaseID st)"
proof -
  obtain st0 where l: "loadWorkspaceLeaseMetadata wide raw dsk = Inr st0"
    using assms(2) unfolding loadWorkspaceLease_def andThen_Inr_iff by blast
  moreover from this have "LeaseID st = LeaseID st0"
    using assms(2) unfolding loadWorkspaceLease_def by (auto split: sum.splits)
  ultimately show ?thesis using loadMetadata_id [OF assms(1)] by simp
qed

lemma save_disk:
  assumes "saveWorkspaceLease wide w1 w2 st dsk = (dsk', r)"
  shows "\<forall>i. i \<noteq> LeaseID st \<longrightarrow> dsk' i = dsk i"
    and "r = Inr () \<Longrightarrow> dsk' (LeaseID st) = Some ((leaseDirOf dsk (LeaseID st))
      \<lparr>metaFile := Stored (leaseMeta st), manifestFile := Stored (WorkspaceManifest st)\<rparr>)"
    and "leaseDiskInv dsk \<Longrightarrow> leaseDiskInv dsk'"
proof -
  show "\<forall>i. i \<noteq> LeaseID st \<longrightarrow> dsk' i = dsk i"
    using assms by (auto simp: saveWorkspaceLease_def Let_def split: sum.splits prod.splits)
  show "r = Inr () \<Longrightarrow> dsk' (LeaseID st) = Some ((leaseDirOf dsk (LeaseID st))
      \<lparr>metaFile := Stored (leaseMeta st), manifestFile := Stored (WorkspaceManifest st)\<rparr>)"
    using assms by (auto simp: saveWorkspaceLease_def Let_def split: sum.splits prod.splits
        dest!: writeJSON_ok)
  have lm: "LeaseID (leaseMeta st) = LeaseID st"
    by (simp add: leaseMeta_def leaseMetadata.defs)
  show "leaseDiskInv dsk'" if inv: "leaseDiskInv dsk"
    unfolding leaseDiskInv_def
  proof (intro allI impI)
    fix i d m
    assume d: "dsk' i = Some d" "metaFile d = Stored m"
    show "LeaseID m = i \<or> LeaseID m = []"
    proof (cases "i = LeaseID st \<and> m = leaseMeta st")
      case False
      then have "metaFile (leaseDirOf dsk i) = Stored m"
        using assms d
        by (auto simp: saveWorkspaceLease_def Let_def leaseDirOf_def split: sum.splits prod.splits
            option.splits if_splits dest!: writeJSON_old_or_new)
      from leaseDirOf_meta [OF this] inv show ?thesis unfolding leaseDiskInv_def by blast
    qed (simp add: lm)
  qed
qed

lemma load_saved:
  assumes "saveWorkspaceLease wide w1 w2 st dsk = (dsk', Inr ())"
    and "normalizeWorkspaceLeaseID wide (LeaseID st) = Inr (LeaseID st)"
  shows "loadWorkspaceLease wide (LeaseID st) dsk' = Inr st"
proof -
  note d = save_disk(2) [OF assms(1) refl]
  have "LeaseID (leaseMeta st) \<noteq> []"
    using normalizeWorkspaceLeaseID_nonempty [OF assms(2)]
    by (simp add: leaseMeta_def leaseMetadata.defs)
  moreover have "(leaseMetadata.extend (leaseMeta st) (leaseState.fields []))
      \<lparr>WorkspaceManifest := WorkspaceManifest st\<rparr> = st"
    by (cases st) (simp add: leaseMeta_def leaseMetadata.defs leaseState.defs)
  moreover have "LeaseID (leaseMetadata.extend (leaseMeta st) (leaseState.fields [])) = LeaseID st"
    by (simp add: leaseMeta_def leaseMetadata.defs)
  ultimately show ?thesis
    using d assms(2) by (simp add: loadWorkspaceLease_def loadWorkspaceLeaseMetadata_def leaseDirOf_def)
qed

lemma reuseTaken_Inr:
  assumes inv: "leaseDiskInv dsk" and i: "normalizeWorkspaceLeaseID wide i = Inr i"
    and r: "reuseTaken wide io session keep i now held dsk = (dsk', Inr p)"
  shows "\<exists>st. loadWorkspaceLease wide i dsk = Inr st \<and> \<not> Dirty st \<and> \<not> leaseExpired now st
    \<and> hasWorkspace (leaseDirOf dsk i) \<and> WorkspaceManifest (leaseOf p) = WorkspaceManifest st
    \<and> loadWorkspaceLease wide i dsk' = Inr (leaseOf p) \<and> Dirty (leaseOf p)
    \<and> leaseKey p = held \<and> reused p \<and> leaseDiskInv dsk'"
proof (cases "loadWorkspaceLease wide i dsk")
  case (Inl e)
  then show ?thesis using r by (simp add: reuseTaken_def)
next
  case (Inr st)
  have "LeaseID st = i" using loadLease_id [OF inv Inr] i by simp
  define st2 where "st2 = (if 0 < keep then st\<lparr>LeaseExpiresAt := now + keep\<rparr> else st)
    \<lparr>LeaseUpdatedAt := now, LastSession := session, Dirty := True\<rparr>"
  have id2: "LeaseID st2 = i" "WorkspaceManifest st2 = WorkspaceManifest st" "Dirty st2"
    using \<open>LeaseID st = i\<close> by (simp_all add: st2_def)
  have ok: "\<not> Dirty st" "\<not> leaseExpired now st" "hasWorkspace (leaseDirOf dsk i)"
    using r Inr by (auto simp: reuseTaken_def split: if_splits)
  obtain dsk2 r2 where s: "saveWorkspaceLease wide (metaWrite io) (manifestWrite io) st2 dsk = (dsk2, r2)"
    by fastforce
  have "dsk' = dsk2 \<and> r2 = Inr () \<and> p = \<lparr>leaseOf = st2, reused = True, leaseKey = held\<rparr>"
    using r Inr ok s by (auto simp: reuseTaken_def Let_def st2_def [symmetric] split: sum.splits)
  then show ?thesis
    using Inr ok id2 load_saved [of wide _ _ st2 dsk dsk2] s i save_disk(3) [OF s inv] by auto
qed

lemma createTaken_Inr:
  assumes r: "createTaken wide io contextID session keep i now held dsk = (dsk', Inr p)"
  shows "leaseKey p = held \<and> Dirty (leaseOf p) \<and> LeaseID (leaseOf p) = i"
  using r by (auto simp: createTaken_def Let_def split: sum.splits prod.splits if_splits)

text \<open>The counts after preparing a lease: one more use of its key, and only on success.\<close>

definition countsTo :: "leaseLocks \<Rightarrow> leaseLocks \<Rightarrow> string option \<Rightarrow> bool" where
  "countsTo L L' held \<longleftrightarrow> deletingLeases L' = deletingLeases L
     \<and> (\<forall>k. counter (activeLeases L') k =
          counter (activeLeases L) k + (if held = Some k then 1 else 0))"

lemma countsTo_refl [simp]: "countsTo L L None"
  by (simp add: countsTo_def)

lemma giveBack_counts:
  assumes "acquireWorkspaceLease c i L = (L', Inr held)" and "tidy (activeLeases L)"
    and "giveBackOnError held L' (dsk, r) = (w', r')"
    and "\<And>p. r = Inr p \<Longrightarrow> leaseKey p = held"
  shows "countsTo L (locks w') (case r' of Inl _ \<Rightarrow> None | Inr p \<Rightarrow> leaseKey p)
    \<and> (\<forall>e. r' = Inl e \<longleftrightarrow> r = Inl e) \<and> (\<forall>p. r' = Inr p \<longleftrightarrow> r = Inr p) \<and> disk w' = dsk"
proof -
  note a = acquireWorkspaceLease_locks [OF assms(1)]
  show ?thesis
    using a assms(2-4) by (cases r; cases held)
      (auto simp: giveBackOnError_def countsTo_def counter_inc_dec)
qed

lemma prepareReused_counts:
  assumes "prepareReusedWorkspaceLease wide io c session keep raw now w = (w', r)"
    and "tidy (activeLeases (locks w))"
  shows "countsTo (locks w) (locks w') (case r of Inl _ \<Rightarrow> None | Inr p \<Rightarrow> leaseKey p)"
proof (cases "normalizeWorkspaceLeaseID wide raw")
  case (Inl e)
  then show ?thesis using assms by (auto simp: prepareReusedWorkspaceLease_def)
next
  case (Inr i)
  obtain L ra where a: "acquireWorkspaceLease c i (locks w) = (L, ra)" by fastforce
  show ?thesis
  proof (cases ra)
    case (Inl e)
    then show ?thesis
      using assms \<open>normalizeWorkspaceLeaseID wide raw = Inr i\<close> a acquireWorkspaceLease_locks [OF a]
      by (auto simp: prepareReusedWorkspaceLease_def)
  next
    case (Inr held)
    obtain dsk rr where t: "reuseTaken wide io session keep i now held (disk w) = (dsk, rr)"
      by fastforce
    have "leaseKey p = held" if "rr = Inr p" for p
      using t that
      by (auto simp: reuseTaken_def Let_def split: sum.splits prod.splits if_splits)
    moreover have "giveBackOnError held L (dsk, rr) = (w', r)"
      using assms(1) \<open>normalizeWorkspaceLeaseID wide raw = Inr i\<close> a Inr t
      by (simp add: prepareReusedWorkspaceLease_def)
    ultimately show ?thesis
      using giveBack_counts [OF a [unfolded Inr] assms(2)] by blast
  qed
qed

lemma prepareNew_counts:
  assumes "prepareNewWorkspaceLease wide io remains ids c session keep now w = (w', r)"
    and "tidy (activeLeases (locks w))"
  shows "countsTo (locks w) (locks w') (case r of Inl _ \<Rightarrow> None | Inr p \<Rightarrow> leaseKey p)"
proof -
  obtain dsk0 rem rp where p: "pruneExpired wide remains now ids w = (dsk0, rem, rp)"
    by (metis prod_cases3)
  show ?thesis
  proof (cases "isOk rp \<and> isOk (newWorkspaceLeaseID (nonces io) 16 dsk0)")
    case False
    then show ?thesis
      using assms(1) p by (auto simp: prepareNewWorkspaceLease_def isOk_def split: sum.splits)
  next
    case True
    then obtain i where i: "newWorkspaceLeaseID (nonces io) 16 dsk0 = Inr i" "rp = Inr ()"
      by (auto simp: isOk_iff)
    obtain L ra where a: "acquireWorkspaceLease c i (locks w) = (L, ra)" by fastforce
    show ?thesis
    proof (cases ra)
      case (Inl e)
      then show ?thesis
        using assms p i a acquireWorkspaceLease_locks [OF a]
        by (auto simp: prepareNewWorkspaceLease_def)
    next
      case (Inr held)
      obtain dsk rr where t: "createTaken wide io c session keep i now held dsk0 = (dsk, rr)"
        by fastforce
      have "leaseKey p = held" if "rr = Inr p" for p
        using createTaken_Inr t that by blast
      moreover have "giveBackOnError held L (dsk, rr) = (w', r)"
        using assms(1) p i a Inr t by (simp add: prepareNewWorkspaceLease_def)
      ultimately show ?thesis
        using giveBack_counts [OF a [unfolded Inr] assms(2)] by blast
    qed
  qed
qed

text \<open>A stored lease that pruning must leave alone at a time: not expired, or in use.\<close>

definition leaseProtected :: "go_time \<Rightarrow> leaseLocks \<Rightarrow> leaseDisk \<Rightarrow> string \<Rightarrow> bool" where
  "leaseProtected now L dsk i \<longleftrightarrow>
     (\<exists>d m. dsk i = Some d \<and> metaFile d = Stored m
        \<and> (LeaseExpiresAt m = 0 \<or> now < LeaseExpiresAt m
           \<or> workspaceLeaseIsActive (LeaseContextID m) i L))"

lemma pruneDecision_protected:
  assumes inv: "leaseDiskInv (disk w)" and dec: "pruneDecision wide now w i = Inr (Some target)"
    and t: "normalizeWorkspaceLeaseID wide target = Inr j"
  shows "\<not> leaseProtected now (locks w) (disk w) j"
proof -
  consider (gone) "loadWorkspaceLeaseMetadata wide i (disk w) = Inl LeaseNotFound" "target = i"
    | (old) st where "loadWorkspaceLeaseMetadata wide i (disk w) = Inr st" "target = LeaseID st"
      "leaseExpired now st" "\<not> workspaceLeaseIsActive (LeaseContextID st) (LeaseID st) (locks w)"
    using dec by (auto simp: pruneDecision_def split: if_splits sum.splits)
  then show ?thesis
  proof cases
    case old
    have i: "normalizeWorkspaceLeaseID wide i = Inr target"
      using loadMetadata_id [OF inv old(1)] old(2) by simp
    then have "j = target" using normalizeWorkspaceLeaseID_idem [OF i] t by simp
    moreover obtain m where m: "metaFile (leaseDirOf (disk w) target) = Stored m"
      "LeaseExpiresAt st = LeaseExpiresAt m" "LeaseContextID st = LeaseContextID m"
      using old(1) i by (cases "metaFile (leaseDirOf (disk w) target)")
        (auto simp: loadWorkspaceLeaseMetadata_def leaseMetadata.defs)
    moreover obtain d where "disk w target = Some d" "metaFile d = Stored m"
      using leaseDirOf_meta [OF m(1)] by blast
    ultimately show ?thesis
      using old by (auto simp: leaseProtected_def leaseExpired_def)
  next
    case gone
    then have "metaFile (leaseDirOf (disk w) j) = Missing"
      using t by (auto simp: loadWorkspaceLeaseMetadata_def split: jsonFile.splits)
    then show ?thesis by (auto simp: leaseProtected_def leaseDirOf_def split: option.splits)
  qed
qed

lemma removeLease_disk:
  "removeWorkspaceLease wide remains raw dsk = (dsk', r) \<Longrightarrow>
   (case normalizeWorkspaceLeaseID wide raw of Inl e \<Rightarrow> dsk' = dsk | Inr i \<Rightarrow> dsk' = dsk(i := remains))
   \<and> (r = Inr () \<longrightarrow> remains = None)"
  by (auto simp: removeWorkspaceLease_def split: sum.splits if_splits)

lemma leaseDiskInv_remove: "leaseDiskInv dsk \<Longrightarrow> leaseDiskInv (dsk(i := None))"
  by (auto simp: leaseDiskInv_def)

lemma pruneExpired_protected:
  "leaseDiskInv (disk w) \<Longrightarrow> leaseProtected now (locks w) (disk w) i \<Longrightarrow>
   pruneExpired wide remains now ids w = (dsk, removed, r) \<Longrightarrow> dsk i = disk w i"
proof (induction ids arbitrary: w dsk removed r)
  case Nil
  then show ?case by simp
next
  case (Cons x ids)
  show ?case
  proof (cases "pruneDecision wide now w x")
    case (Inl e)
    then show ?thesis using Cons.prems by simp
  next
    case dec: (Inr target)
    show ?thesis
    proof (cases target)
      case None
      then show ?thesis using Cons dec by simp
    next
      case (Some t)
      obtain dsk1 r1 where rm: "removeWorkspaceLease wide (remains t) t (disk w) = (dsk1, r1)"
        by fastforce
      note f = removeLease_disk [OF rm]
      have same: "dsk1 i = disk w i"
        using f pruneDecision_protected [OF Cons.prems(1) dec [unfolded Some]] Cons.prems(2)
        by (auto split: sum.splits)
      show ?thesis
      proof (cases r1)
        case (Inl e)
        then show ?thesis using Cons.prems(3) dec Some rm same by simp
      next
        case (Inr u)
        let ?w1 = "w\<lparr>disk := dsk1\<rparr>"
        have "leaseDiskInv (disk ?w1)"
          using f Inr Cons.prems(1) by (auto intro: leaseDiskInv_remove split: sum.splits)
        moreover have "leaseProtected now (locks ?w1) (disk ?w1) i"
          using Cons.prems(2) same by (simp add: leaseProtected_def)
        moreover obtain rem' r' where "pruneExpired wide remains now ids ?w1 = (dsk, rem', r')"
          using Cons.prems(3) dec Some rm Inr by (auto split: prod.splits)
        ultimately show ?thesis using Cons.IH [of ?w1] same by auto
      qed
    qed
  qed
qed

section \<open>Properties\<close>

text \<open>
  C19. However runs and delete requests that name a context by the same id interleave, step by
  step: the counter of every lease is the number of runs that hold it, a lease that is held is
  not marked as being deleted and one that is marked cannot be taken, and no step of any
  deletion changes the directory of a held lease, unless that deletion found no metadata under
  the id and gave its mark back (\<open>lsGone\<close>) before the lease of that id came into being. The
  pruning of expired leases sets no mark and is not among the steps; neither are requests that
  name the context with spaces around its id, which count under another key.
\<close>

theorem lease_use_excludes_delete:
  assumes "leaseReachable wide c s"
  shows "counter (activeLeases (lsLocks s)) (workspaceLeaseActiveKey c i) = int (count (lsHeld s) i)
    \<and> (i \<in># lsHeld s \<longrightarrow> workspaceLeaseActiveKey c i \<notin> deletingLeases (lsLocks s)
        \<and> (\<forall>j s'. i \<notin># lsGone s \<and> leaseStep wide c (ByDelete j) s s' \<longrightarrow> lsDisk s' i = lsDisk s i))
    \<and> (i \<in> lsDeleting s \<longrightarrow> acquireWorkspaceLease c i (lsLocks s) = (lsLocks s, Inl LeaseBeingDeleted))"
proof -
  have inv: "useInv wide c s" by (rule useInv_reachable [OF assms])
  have "i \<in># lsHeld s \<Longrightarrow> i \<notin> lsDeleting s" using inv by (auto simp: useInv_def)
  moreover have "i \<in> lsDeleting s \<Longrightarrow> trimSpace i \<noteq> []"
    using inv by (auto simp: useInv_def normalizeWorkspaceLeaseID_def Let_def split: if_splits)
  ultimately show ?thesis using inv delete_step_disk [of wide c _ s _ i]
    by (auto simp: useInv_def key_image_mem acquireWorkspaceLease_def Let_def)
qed

text \<open>
  Preparing the workspace of a run counts exactly one use of the lease it returns;
  on every error, whichever step failed, and when no lease is asked for, the counts and the
  deletion marks are as before.
\<close>

theorem lease_prepare_counts:
  assumes "prepareRunWorkspace wide parseDuration io remains ids c session keepText reuse now w = (w', r)"
    and "tidy (activeLeases (locks w))"
  shows "countsTo (locks w) (locks w')
    (case r of Inr (Some p) \<Rightarrow> leaseKey p | _ \<Rightarrow> None)"
proof (cases "parseWorkspaceKeepDuration parseDuration keepText")
  case (Inl e)
  then show ?thesis using assms(1) by (auto simp: prepareRunWorkspace_def)
next
  case (Inr keep)
  consider "keep \<le> 0 \<and> trimSpace reuse = []" | "trimSpace reuse \<noteq> []"
    | "0 < keep" "trimSpace reuse = []" by linarith
  then show ?thesis
  proof cases
    case 1
    then show ?thesis using assms(1) Inr by (auto simp: prepareRunWorkspace_def)
  next
    case 2
    then obtain r0 where "prepareReusedWorkspaceLease wide io c session keep (trimSpace reuse) now w = (w', r0)"
      "r = (case r0 of Inl e \<Rightarrow> Inl e | Inr p \<Rightarrow> Inr (Some p))"
      using assms(1) Inr by (auto simp: prepareRunWorkspace_def split: prod.splits)
    with prepareReused_counts [OF this(1) assms(2)] show ?thesis by (cases r0) auto
  next
    case 3
    then obtain r0 where "prepareNewWorkspaceLease wide io remains ids c session keep now w = (w', r0)"
      "r = (case r0 of Inl e \<Rightarrow> Inl e | Inr p \<Rightarrow> Inr (Some p))"
      using assms(1) Inr by (auto simp: prepareRunWorkspace_def split: prod.splits)
    with prepareNew_counts [OF this(1) assms(2)] show ?thesis by (cases r0) auto
  qed
qed

text \<open>
  Reusing a lease succeeds only for one that is clean, unexpired and has its workspace;
  the run starts from the manifest stored with it, and from then on the lease on disk is
  dirty, so that no later run can reuse it until this one finished, also after a crash.
\<close>

theorem lease_reuse_marks_dirty:
  assumes "leaseDiskInv (disk w)"
    and "prepareReusedWorkspaceLease wide io c session keep raw now w = (w', Inr p)"
  shows "\<exists>i st. normalizeWorkspaceLeaseID wide raw = Inr i \<and> loadWorkspaceLease wide i (disk w) = Inr st
    \<and> \<not> Dirty st \<and> \<not> leaseExpired now st \<and> hasWorkspace (leaseDirOf (disk w) i)
    \<and> WorkspaceManifest (leaseOf p) = WorkspaceManifest st
    \<and> (\<forall>L io2 c2 session2 keep2 now2.
         \<not> isOk (snd (prepareReusedWorkspaceLease wide io2 c2 session2 keep2 raw now2
           \<lparr>locks = L, disk = disk w'\<rparr>)))"
proof -
  obtain i where i: "normalizeWorkspaceLeaseID wide raw = Inr i"
    using assms(2) by (auto simp: prepareReusedWorkspaceLease_def split: sum.splits)
  obtain L ra where a: "acquireWorkspaceLease c i (locks w) = (L, ra)" by fastforce
  then obtain held where "ra = Inr held"
    using assms(2) i by (cases ra) (auto simp: prepareReusedWorkspaceLease_def)
  then have "giveBackOnError held L (reuseTaken wide io session keep i now held (disk w)) = (w', Inr p)"
    using assms(2) i a by (simp add: prepareReusedWorkspaceLease_def)
  then have "reuseTaken wide io session keep i now held (disk w) = (disk w', Inr p)"
    by (auto simp: giveBackOnError_def split: prod.splits sum.splits)
  from reuseTaken_Inr [OF assms(1) normalizeWorkspaceLeaseID_idem [OF i] this]
  obtain st where st: "loadWorkspaceLease wide i (disk w) = Inr st" "\<not> Dirty st"
    "\<not> leaseExpired now st" "hasWorkspace (leaseDirOf (disk w) i)"
    "WorkspaceManifest (leaseOf p) = WorkspaceManifest st"
    "loadWorkspaceLease wide i (disk w') = Inr (leaseOf p)" "Dirty (leaseOf p)" by blast
  have "\<not> isOk (snd (prepareReusedWorkspaceLease wide io2 c2 session2 keep2 raw now2
           \<lparr>locks = L2, disk = disk w'\<rparr>))" for L2 io2 c2 session2 keep2 now2
    using i st(6,7)
    by (auto simp: prepareReusedWorkspaceLease_def reuseTaken_def giveBackOnError_def
        split: prod.splits sum.splits)
  with i st show ?thesis by blast
qed

text \<open>
  Pruning never removes the directory of a lease that is not expired or that a run
  uses, also when it stops at an error.
\<close>

theorem lease_prune_safe:
  assumes "leaseDiskInv (disk w)" "leaseProtected now (locks w) (disk w) i"
    and "pruneExpired wide remains now ids w = (dsk, removed, r)"
  shows "dsk i = disk w i"
  by (rule pruneExpired_protected [OF assms])

text \<open>
  What the end of a run saves is what the next run that reuses the lease starts from:
  a clean lease with the manifest scanned after the command.
\<close>

theorem lease_finalize_roundtrip:
  assumes "finalizeWorkspaceLease wide io now keep session m st dsk = (dsk', st', Inr ())"
    and "normalizeWorkspaceLeaseID wide (LeaseID st) = Inr (LeaseID st)"
  shows "loadWorkspaceLease wide (LeaseID st) dsk' = Inr st' \<and> \<not> Dirty st'
    \<and> WorkspaceManifest st' = m \<and> (0 < keep \<longrightarrow> LeaseExpiresAt st' = now + keep)"
proof -
  have s: "saveWorkspaceLease wide (metaWrite io) (manifestWrite io) st' dsk = (dsk', Inr ())"
    and f: "LeaseID st' = LeaseID st" "\<not> Dirty st'" "WorkspaceManifest st' = m"
      "0 < keep \<longrightarrow> LeaseExpiresAt st' = now + keep"
    using assms(1) by (auto simp: finalizeWorkspaceLease_def Let_def split: prod.splits)
  show ?thesis using load_saved [OF s] assms(2) f by simp
qed

text \<open>A clean lease of context \<open>c\<close> that expires at time 100.\<close>

definition demoLeaseMeta :: leaseMetadata where
  "demoLeaseMeta = \<lparr>LeaseID = ''ws_1'', LeaseContextID = ''c'', LeaseCreatedAt = 1,
     LeaseUpdatedAt = 1, LeaseExpiresAt = 100, Dirty = False, LastSession = ''s''\<rparr>"

definition demoLeaseDisk :: leaseDisk where
  "demoLeaseDisk = [''ws_1'' \<mapsto> \<lparr>metaFile = Stored demoLeaseMeta, manifestFile = Stored [],
     hasWorkspace = True\<rparr>]"

definition noLocks :: leaseLocks where
  "noLocks = \<lparr>activeLeases = Map.empty, deletingLeases = {}\<rparr>"

definition demoWorld :: leaseWorld where
  "demoWorld = \<lparr>locks = noLocks, disk = demoLeaseDisk\<rparr>"

definition goodIO :: leaseOutcomes where
  "goodIO = \<lparr>metaWrite = WriteOk, manifestWrite = WriteOk, removal = None, mkdirOk = True,
     nonces = []\<rparr>"

lemma demo_id: "normalizeWorkspaceLeaseID wide ''ws_1'' = Inr ''ws_1''"
proof -
  have t: "trimSpace ''ws_1'' = ''ws_1''" by code_simp
  show ?thesis
    by (simp add: normalizeWorkspaceLeaseID_def Let_def t decodeRune_ascii leaseIDRune_def
        isLetter_def isDigit_def)
qed

lemma demo_acquire: "acquireWorkspaceLease ''c'' ''ws_1'' noLocks =
  (noLocks\<lparr>activeLeases := [workspaceLeaseActiveKey ''c'' ''ws_1'' \<mapsto> 1]\<rparr>,
   Inr (Some (workspaceLeaseActiveKey ''c'' ''ws_1'')))"
proof -
  have t: "trimSpace ''ws_1'' \<noteq> []" by code_simp
  then show ?thesis by (simp add: acquireWorkspaceLease_def Let_def noLocks_def incCounter_def)
qed

lemma demo_inv: "leaseDiskInv demoLeaseDisk"
  by (simp add: leaseDiskInv_def demoLeaseDisk_def demoLeaseMeta_def)

lemma demo_reuse: "\<exists>w' p. prepareReusedWorkspaceLease wide goodIO ''c'' ''s2'' 50 ''ws_1'' 10 demoWorld
    = (w', Inr p)"
  by (simp add: prepareReusedWorkspaceLease_def demo_id demoWorld_def demo_acquire reuseTaken_def
      loadWorkspaceLease_def loadWorkspaceLeaseMetadata_def leaseDirOf_def demoLeaseDisk_def
      demoLeaseMeta_def leaseMetadata.defs leaseState.defs leaseExpired_def saveWorkspaceLease_def
      writeJSONAtomically_def goodIO_def giveBackOnError_def readJSON_def Let_def)

lemma lease_use_excludes_delete_witness:
  "\<exists>s. leaseReachable (\<lambda>_. False) ''c'' s \<and> ''ws_1'' \<in># lsHeld s
     \<and> (\<forall>j s'. leaseStep (\<lambda>_. False) ''c'' (ByDelete j) s s' \<longrightarrow> lsDisk s' ''ws_1'' = demoLeaseDisk ''ws_1'')"
proof -
  let ?s = "\<lparr>lsLocks = noLocks\<lparr>activeLeases := [workspaceLeaseActiveKey ''c'' ''ws_1'' \<mapsto> 1]\<rparr>, lsDisk = demoLeaseDisk,
    lsHeld = {#''ws_1''#}, lsDeleting = {}, lsGone = {#}\<rparr>"
  have init: "leaseReachable (\<lambda>_. False) ''c'' \<lparr>lsLocks = noLocks, lsDisk = demoLeaseDisk,
      lsHeld = {#}, lsDeleting = {}, lsGone = {#}\<rparr>"
    unfolding noLocks_def by (rule leaseReachable.init)
  have "leaseStep (\<lambda>_. False) ''c'' (ByRun ''ws_1'') \<lparr>lsLocks = noLocks, lsDisk = demoLeaseDisk,
      lsHeld = {#}, lsDeleting = {}, lsGone = {#}\<rparr> ?s"
    using leaseStep.run_begin [OF demo_id, where s = "\<lparr>lsLocks = noLocks, lsDisk = demoLeaseDisk,
      lsHeld = {#}, lsDeleting = {}, lsGone = {#}\<rparr>", simplified, OF demo_acquire] by simp
  from leaseReachable.step [OF init this] have r: "leaseReachable (\<lambda>_. False) ''c'' ?s" .
  have "\<forall>j s'. leaseStep (\<lambda>_. False) ''c'' (ByDelete j) ?s s' \<longrightarrow> lsDisk s' ''ws_1'' = lsDisk ?s ''ws_1''"
    using lease_use_excludes_delete [OF r, of "''ws_1''"] by simp
  then show ?thesis using r by (intro exI [of _ ?s]) simp
qed

text \<open>
  The exception is real: a deletion that found nothing clears its mark, a run then makes a lease
  of that id, and the late removal takes the directory of the running command.
\<close>

lemma late_removal_hits_new_lease:
  assumes "i \<in># lsHeld s" "i \<in># lsGone s" "normalizeWorkspaceLeaseID wide i = Inr i"
  shows "\<exists>s'. leaseStep wide c (ByDelete i) s s' \<and> lsDisk s' i = None \<and> i \<in># lsHeld s'"
proof -
  have "removeWorkspaceLease wide None i (lsDisk s) = ((lsDisk s)(i := None), Inr ())"
    using assms(3) by (simp add: removeWorkspaceLease_def)
  from leaseStep.gone_removes [OF assms(2) this, of c] show ?thesis using assms(1) by fastforce
qed

lemma lease_prepare_counts_witness:
  "\<exists>w' :: leaseWorld. countsTo noLocks (locks w') (Some (workspaceLeaseActiveKey ''c'' ''ws_1''))"
proof -
  obtain w' p where r: "prepareReusedWorkspaceLease (\<lambda>_. False) goodIO ''c'' ''s2'' 0 ''ws_1'' 10
      demoWorld = (w', Inr p)" and k: "leaseKey p = Some (workspaceLeaseActiveKey ''c'' ''ws_1'')"
    by (simp add: prepareReusedWorkspaceLease_def demo_id demoWorld_def demo_acquire reuseTaken_def
      loadWorkspaceLease_def loadWorkspaceLeaseMetadata_def leaseDirOf_def demoLeaseDisk_def
      demoLeaseMeta_def leaseMetadata.defs leaseState.defs leaseExpired_def saveWorkspaceLease_def
      writeJSONAtomically_def goodIO_def giveBackOnError_def readJSON_def Let_def)
  have t: "trimSpace ''ws_1'' = ''ws_1''" by code_simp
  have "prepareRunWorkspace (\<lambda>_. False) (\<lambda>_. None) goodIO (\<lambda>_. None) [] ''c'' ''s2'' [] ''ws_1'' 10
      demoWorld = (w', Inr (Some p))"
    by (simp add: prepareRunWorkspace_def parseWorkspaceKeepDuration_def t r)
  from lease_prepare_counts [OF this] k show ?thesis
    by (auto simp: demoWorld_def noLocks_def tidy_steps)
qed

lemma lease_reuse_marks_dirty_witness:
  "\<exists>w' p. prepareReusedWorkspaceLease (\<lambda>_. False) goodIO ''c'' ''s2'' 50 ''ws_1'' 10 demoWorld
      = (w', Inr p) \<and>
    \<not> isOk (snd (prepareReusedWorkspaceLease (\<lambda>_. False) goodIO ''c'' ''s3'' 50 ''ws_1'' 11
        \<lparr>locks = noLocks, disk = disk w'\<rparr>))"
proof -
  obtain w' p where r: "prepareReusedWorkspaceLease (\<lambda>_. False) goodIO ''c'' ''s2'' 50 ''ws_1'' 10
      demoWorld = (w', Inr p)" using demo_reuse by blast
  have "leaseDiskInv (disk demoWorld)" using demo_inv by (simp add: demoWorld_def)
  from lease_reuse_marks_dirty [OF this r] r show ?thesis by blast
qed

lemma lease_prune_safe_witness:
  "fst (pruneExpired (\<lambda>_. False) (\<lambda>_. None) 99 [''ws_1''] demoWorld) ''ws_1'' = demoLeaseDisk ''ws_1''"
proof -
  obtain dsk removed r where p: "pruneExpired (\<lambda>_. False) (\<lambda>_. None) 99 [''ws_1''] demoWorld
      = (dsk, removed, r)" by (metis prod_cases3)
  have "leaseDiskInv (disk demoWorld)" "leaseProtected 99 (locks demoWorld) (disk demoWorld) ''ws_1''"
    using demo_inv by (simp_all add: demoWorld_def leaseProtected_def demoLeaseDisk_def
        demoLeaseMeta_def)
  from lease_prune_safe [OF this p] p show ?thesis by (simp add: demoWorld_def)
qed

lemma lease_finalize_roundtrip_witness:
  "\<exists>dsk' st'. finalizeWorkspaceLease (\<lambda>_. False) goodIO 20 50 ''s'' [fileEntry ''a'' ''0'' 1]
      (leaseMetadata.extend demoLeaseMeta (leaseState.fields [])) demoLeaseDisk = (dsk', st', Inr ())
    \<and> loadWorkspaceLease (\<lambda>_. False) ''ws_1'' dsk' = Inr st' \<and> LeaseExpiresAt st' = 70"
proof -
  let ?st = "leaseMetadata.extend demoLeaseMeta (leaseState.fields [])"
  have i: "LeaseID ?st = ''ws_1''" by (simp add: demoLeaseMeta_def leaseMetadata.defs)
  obtain dsk' st' where f: "finalizeWorkspaceLease (\<lambda>_. False) goodIO 20 50 ''s''
      [fileEntry ''a'' ''0'' 1] ?st demoLeaseDisk = (dsk', st', Inr ())"
    by (simp add: finalizeWorkspaceLease_def saveWorkspaceLease_def demo_id i goodIO_def
        writeJSONAtomically_def Let_def demoLeaseMeta_def leaseMetadata.defs)
  from lease_finalize_roundtrip [OF f] demo_id i f show ?thesis by auto
qed

text \<open>
  The lock of a run is keyed by the context id as the client sent it, a deletion by the
  trimmed one: with surrounding space in the request the deletion of a lease in use begins.
\<close>

lemma padded_context_unprotected:
  "case acquireWorkspaceLease '' c'' ''ws_1'' noLocks of (L, _) \<Rightarrow>
     isOk (snd (beginWorkspaceLeaseDelete ''c'' ''ws_1'' L))"
proof -
  have t: "trimSpace ''ws_1'' \<noteq> []" by code_simp
  then show ?thesis
    by (simp add: acquireWorkspaceLease_def Let_def noLocks_def beginWorkspaceLeaseDelete_def
        workspaceLeaseActiveKey_def incCounter_def counter_def)
qed

end
