(* ===== verification/HostSession.thy ===== *)
theory HostSession
  imports HostGate Pairing Lease Config
begin

text \<open>
  What a connection may ask for (host/server.go): requests one after the other, each by its
  type, all but the two of pairing only from a client whose certificate is trusted; the checks
  of a run request; the frames a run waits for; the environment and exit code of its command.
\<close>

record reqFrame =
  rfType :: string
  rfDecodes :: bool
  rfDiscards :: bool

datatype sessionError =
    ReadFailed bool | DecodeError | DiscardError | NotTLS | CertificateRequired | TrustError pairError
  | NotTrusted | UnexpectedRequest string | HandlerFailed string bool | WriteFailed

text \<open>\<open>protocol.IsDisconnectError\<close>, as far as the errors say.\<close>

definition disconnects :: "sessionError \<Rightarrow> bool" where
  "disconnects e = (case e of ReadFailed d \<Rightarrow> d | HandlerFailed m d \<Rightarrow> d | _ \<Rightarrow> False)"

section \<open>Who asks\<close>

record peer =
  isTLS :: bool
  certificates :: "string list"

definition requireTrustedClient :: "peer \<Rightarrow> trustStore jsonFile \<Rightarrow> sessionError + string" where
  "requireTrustedClient p store =
     (if \<not> isTLS p then Inl NotTLS
      else case certificates p of
        [] \<Rightarrow> Inl CertificateRequired
      | fingerprint # _ \<Rightarrow>
          (case clientTrusted fingerprint store of
             Inl e \<Rightarrow> Inl (TrustError e)
           | Inr ok \<Rightarrow> if ok then Inr fingerprint else Inl NotTrusted))"

section \<open>Dispatch\<close>

datatype requestKind =
    PairCodeReq | PairReq | RunReq | BlobTransferReq | PingReq | HostStatsReq | HostUpdateReq | ListContextsReq
  | WorkspaceLeasesReq | DeleteContextsReq | ContextArtifactsReq | CachePruneReq

type_synonym 's handler = "requestKind \<Rightarrow> 's \<Rightarrow> 's \<times> (sessionError + unit)"

text \<open>A request with data is decoded from its header, one without has its payload discarded.\<close>

definition decodeAndHandle :: "'s handler \<Rightarrow> requestKind \<Rightarrow> reqFrame \<Rightarrow> 's \<Rightarrow> 's \<times> (sessionError + unit)" where
  "decodeAndHandle handler k f s = (if rfDecodes f then handler k s else (s, Inl DecodeError))"

definition discardAndHandle :: "'s handler \<Rightarrow> requestKind \<Rightarrow> reqFrame \<Rightarrow> 's \<Rightarrow> 's \<times> (sessionError + unit)" where
  "discardAndHandle handler k f s = (if rfDiscards f then handler k s else (s, Inl DiscardError))"

definition dispatchSessionRequest ::
  "peer \<Rightarrow> ('s \<Rightarrow> trustStore jsonFile) \<Rightarrow> 's handler \<Rightarrow> reqFrame \<Rightarrow> 's \<Rightarrow> 's \<times> (sessionError + unit)" where
  "dispatchSessionRequest p trust handler f s =
     (if rfType f = ''pair_code_request'' then decodeAndHandle handler PairCodeReq f s
      else if rfType f = ''pair_request'' then decodeAndHandle handler PairReq f s
      else case requireTrustedClient p (trust s) of
        Inl e \<Rightarrow> (s, Inl e)
      | Inr _ \<Rightarrow>
          if rfType f = ''run_request'' then decodeAndHandle handler RunReq f s
          else if rfType f = ''blob_transfer_request'' then decodeAndHandle handler BlobTransferReq f s
          else if rfType f = ''ping_request'' then discardAndHandle handler PingReq f s
          else if rfType f = ''host_stats_request'' then discardAndHandle handler HostStatsReq f s
          else if rfType f = ''host_update_request'' then decodeAndHandle handler HostUpdateReq f s
          else if rfType f = ''list_contexts_request'' then discardAndHandle handler ListContextsReq f s
          else if rfType f = ''workspace_leases_request'' then decodeAndHandle handler WorkspaceLeasesReq f s
          else if rfType f = ''delete_contexts_request'' then decodeAndHandle handler DeleteContextsReq f s
          else if rfType f = ''context_artifacts_request'' then decodeAndHandle handler ContextArtifactsReq f s
          else if rfType f = ''cache_prune_request'' then discardAndHandle handler CachePruneReq f s
          else if \<not> rfDiscards f then (s, Inl DiscardError)
          else (s, Inl (UnexpectedRequest (rfType f))))"

definition streamsHostLogs :: "string \<Rightarrow> bool" where
  "streamsHostLogs messageType \<longleftrightarrow> messageType = ''run_request'' \<or> messageType = ''host_update_request''"

definition requestUsesSessionLiveness :: "string \<Rightarrow> bool" where
  "requestUsesSessionLiveness messageType \<longleftrightarrow>
     messageType \<in> set [''run_request'', ''blob_transfer_request'', ''host_update_request'', ''delete_contexts_request'',
       ''context_artifacts_request'', ''cache_prune_request'']"

definition requestUsesOutboundHeartbeat :: "string \<Rightarrow> bool" where
  "requestUsesOutboundHeartbeat messageType \<longleftrightarrow> messageType \<noteq> ''blob_transfer_request''"

text \<open>
  The value: whether the connection stays open. An error is reported to the client, and the
  connection closed; \<open>write\<close> says whether that message can be written.
\<close>

definition handleConnRequest ::
  "bool \<Rightarrow> peer \<Rightarrow> ('s \<Rightarrow> trustStore jsonFile) \<Rightarrow> 's handler \<Rightarrow> reqFrame \<Rightarrow> 's \<Rightarrow> 's \<times> (sessionError + bool)" where
  "handleConnRequest write p trust handler f s =
     (if rfType f = ''heartbeat'' then (s, if rfDiscards f then Inr True else Inl DiscardError)
      else case dispatchSessionRequest p trust handler f s of
        (s', Inr _) \<Rightarrow> (s', Inr True)
      | (s', Inl e) \<Rightarrow> (s', if disconnects e then Inr False else if write then Inr False else Inl WriteFailed))"

text \<open>\<open>eof\<close>: whether the error at the end of the headers is a disconnection.\<close>

fun handleConnSession ::
  "bool \<Rightarrow> bool \<Rightarrow> peer \<Rightarrow> ('s \<Rightarrow> trustStore jsonFile) \<Rightarrow> 's handler \<Rightarrow> reqFrame list \<Rightarrow> 's \<Rightarrow> 's \<times> (sessionError + unit)" where
  "handleConnSession eof write p trust handler [] s = (s, if eof then Inr () else Inl (ReadFailed False))"
| "handleConnSession eof write p trust handler (f # fs) s =
     (case handleConnRequest write p trust handler f s of
        (s', Inl e) \<Rightarrow> (s', Inl e)
      | (s', Inr False) \<Rightarrow> (s', Inr ())
      | (s', Inr True) \<Rightarrow> handleConnSession eof write p trust handler fs s')"

section \<open>Run requests\<close>

record runRequest =
  rqCommand :: "string list"
  rqContextID :: string
  rqSession :: string
  rqRuntime :: runtimeConfig
  rqKeep :: string
  rqReuse :: string
  rqManifest :: "entry list"
  rqSyncBack :: "string list option"

datatype requestError = MissingCommand | MissingContextID | BadRuntime configError | BadLease leaseError

definition validateRunRequest ::
  "(nat \<Rightarrow> bool) \<Rightarrow> (string \<Rightarrow> duration option) \<Rightarrow> runRequest \<Rightarrow> requestError + unit" where
  "validateRunRequest wide parseDuration rq =
     (if rqCommand rq = [] then Inl MissingCommand
      else if trimSpace (rqContextID rq) = [] then Inl MissingContextID
      else case ValidateRuntime (rqRuntime rq) of
        Inl e \<Rightarrow> Inl (BadRuntime e)
      | Inr _ \<Rightarrow>
          (case parseWorkspaceKeepDuration parseDuration (rqKeep rq) of
             Inl e \<Rightarrow> Inl (BadLease e)
           | Inr _ \<Rightarrow>
               if trimSpace (rqReuse rq) \<noteq> [] then
                 (case normalizeWorkspaceLeaseID wide (rqReuse rq) of Inl e \<Rightarrow> Inl (BadLease e) | Inr _ \<Rightarrow> Inr ())
               else Inr ()))"

section \<open>Frames a run waits for\<close>

datatype waitError = WaitRead | WaitDiscard | WaitDecode | WaitCancel | WaitUnexpected string | WaitTransfer

record waitFrame =
  wfType :: string
  wfDiscards :: bool
  wfNeed :: "string list option"

text \<open>The frames left over are the ones not read.\<close>

fun readClientNeedBlobs :: "waitFrame list \<Rightarrow> waitFrame list \<times> (waitError + string list)" where
  "readClientNeedBlobs [] = ([], Inl WaitRead)"
| "readClientNeedBlobs (f # fs) =
     (if wfType f = ''heartbeat'' \<or> wfType f = ''stdin_data'' \<or> wfType f = ''stdin_close'' then
        (if wfDiscards f then readClientNeedBlobs fs else (fs, Inl WaitDiscard))
      else if wfType f = ''run_cancel'' then (fs, Inl (if wfDiscards f then WaitCancel else WaitDiscard))
      else if wfType f = ''need_blobs'' then (fs, case wfNeed f of None \<Rightarrow> Inl WaitDecode | Some hs \<Rightarrow> Inr hs)
      else (fs, Inl (if wfDiscards f then WaitUnexpected (wfType f) else WaitDiscard)))"

fun readClientSyncComplete :: "waitFrame list \<Rightarrow> waitFrame list \<times> (waitError + unit)" where
  "readClientSyncComplete [] = ([], Inl WaitRead)"
| "readClientSyncComplete (f # fs) =
     (if wfType f = ''heartbeat'' \<or> wfType f = ''stdin_data'' \<or> wfType f = ''stdin_close'' then
        (if wfDiscards f then readClientSyncComplete fs else (fs, Inl WaitDiscard))
      else if wfType f = ''run_cancel'' then (fs, Inl (if wfDiscards f then WaitCancel else WaitDiscard))
      else if wfType f = ''sync_complete'' then (fs, Inr ())
      else (fs, Inl (if wfDiscards f then WaitUnexpected (wfType f) else WaitDiscard)))"

text \<open>
  Reading goes on beside the transfer (\<open>transfer\<close>: its end, when there is one); \<open>syncFirst\<close> says
  which of the two ends first. A failed transfer ends the read as well.
\<close>

definition waitForClientSyncCompleteAndBlobTransfer ::
  "bool \<Rightarrow> (waitError + unit) option \<Rightarrow> waitFrame list \<Rightarrow> waitFrame list \<times> (waitError + unit)" where
  "waitForClientSyncCompleteAndBlobTransfer syncFirst transfer fs =
     (case transfer of
        None \<Rightarrow> readClientSyncComplete fs
      | Some tr \<Rightarrow>
          (case readClientSyncComplete fs of
             (fs', sr) \<Rightarrow>
               (fs', if syncFirst then (case sr of Inl e \<Rightarrow> Inl e | Inr _ \<Rightarrow> tr)
                     else (case tr of Inl e \<Rightarrow> Inl e | Inr _ \<Rightarrow> sr))))"

text \<open>While the client uploads: heartbeats, then the frame that says it is done.\<close>

fun waitForClientBlobTransfer :: "(waitError + unit) option \<Rightarrow> waitFrame list \<Rightarrow> waitFrame list \<times> (waitError + unit)" where
  "waitForClientBlobTransfer transfer [] = ([], Inl WaitRead)"
| "waitForClientBlobTransfer transfer (f # fs) =
     (if wfType f = ''heartbeat'' then
        (if wfDiscards f then waitForClientBlobTransfer transfer fs else (fs, Inl WaitDiscard))
      else if wfType f = ''sync_complete'' then (fs, case transfer of None \<Rightarrow> Inr () | Some tr \<Rightarrow> tr)
      else (fs, Inl (if wfDiscards f then WaitUnexpected (wfType f) else WaitDiscard)))"

section \<open>Environment and exit code of a command\<close>

definition splitEnv :: "string \<Rightarrow> string \<times> string" where
  "splitEnv entry = (case cut (CHR ''='') entry of (k, v, _) \<Rightarrow> (k, v))"

definition putEnv :: "string \<times> string \<Rightarrow> (string \<rightharpoonup> string) \<times> string list \<Rightarrow> (string \<rightharpoonup> string) \<times> string list" where
  "putEnv kv = (\<lambda>(merged, order). case kv of (k, v) \<Rightarrow> (merged(k \<mapsto> v), if merged k = None then order @ [k] else order))"

text \<open>\<open>overrides\<close> in the order the map is visited.\<close>

definition mergeEnv :: "string list \<Rightarrow> (string \<times> string) list \<Rightarrow> string list" where
  "mergeEnv base overrides =
     (if overrides = [] then base
      else case fold putEnv overrides (fold putEnv (map splitEnv base) (Map.empty, [])) of
        (merged, order) \<Rightarrow> map (\<lambda>k. k @ ''='' @ (case merged k of None \<Rightarrow> [] | Some v \<Rightarrow> v)) order)"

datatype runError = ExitStatus int | RunFailed string

definition userVisibleRunError :: "runError option \<Rightarrow> string" where
  "userVisibleRunError e = (case e of Some (RunFailed m) \<Rightarrow> m | _ \<Rightarrow> [])"

definition writeUserVisibleRunError :: "runError option \<Rightarrow> string" where
  "writeUserVisibleRunError e =
     (let m = userVisibleRunError e in if m = [] then [] else if hasSuffix m [CHR 0x0A] then m else m @ [CHR 0x0A])"

definition exitCodeNotFound :: int where "exitCodeNotFound = 127"

definition exitCode :: "runError option \<Rightarrow> int" where
  "exitCode e = (case e of None \<Rightarrow> 0 | Some (ExitStatus n) \<Rightarrow> n | Some (RunFailed m) \<Rightarrow> exitCodeNotFound)"

definition syncFileTotals :: "entry list \<Rightarrow> int \<times> int" where
  "syncFileTotals entries =
     (let files = filter (\<lambda>e. Kind e = KindFile) entries in (int (length files), sum_list (map Size files)))"

section \<open>Facts about requests\<close>

text \<open>
  A paired client, read off the data and not off the check: the connection is encrypted and the
  first certificate it presents has the fingerprint of a record in the host's trust file.
\<close>

definition pairedClient :: "peer \<Rightarrow> trustStore jsonFile \<Rightarrow> bool" where
  "pairedClient p file \<longleftrightarrow> isTLS p
     \<and> (case (certificates p, file) of
          (fingerprint # _, Stored store) \<Rightarrow> fingerprint \<in> Fingerprint ` set store
        | _ \<Rightarrow> False)"

lemma required_trust: "isOk (requireTrustedClient p file) \<longleftrightarrow> pairedClient p file"
  by (cases "certificates p"; cases "file")
    (auto simp: requireTrustedClient_def pairedClient_def clientTrusted_def loadTrustStore_def readJSON_def list_ex_iff)

definition pairingRequest :: "requestKind \<Rightarrow> bool" where
  "pairingRequest k \<longleftrightarrow> k = PairCodeReq \<or> k = PairReq"

text \<open>The handlers of a host with all but those of pairing replaced wherever the client is not paired.\<close>

definition onlyForPaired ::
  "peer \<Rightarrow> ('s \<Rightarrow> trustStore jsonFile) \<Rightarrow> 's handler \<Rightarrow> 's handler \<Rightarrow> 's handler" where
  "onlyForPaired p trust other handler k s =
     (if pairingRequest k \<or> pairedClient p (trust s) then handler k s else other k s)"

lemma dispatch_guarded:
  "dispatchSessionRequest p trust (onlyForPaired p trust other handler) f s =
   dispatchSessionRequest p trust handler f s"
  using required_trust [of p "trust s"]
  unfolding dispatchSessionRequest_def decodeAndHandle_def discardAndHandle_def onlyForPaired_def pairingRequest_def
  by (cases "requireTrustedClient p (trust s)") simp_all

section \<open>Facts about environments\<close>

lemma putEnv_fold:
  assumes "fold putEnv kvs (m, ord) = (m', ord')" "distinct ord" "set ord = dom m"
  shows "distinct ord' \<and> set ord' = dom m' \<and> m' = m ++ map_of (rev kvs)"
  using assms
proof (induction kvs arbitrary: m ord)
  case (Cons kv kvs)
  obtain k v where kv: "kv = (k, v)" by fastforce
  let ?ord = "if m k = None then ord @ [k] else ord"
  have step: "putEnv (k, v) (m, ord) = (m(k \<mapsto> v), ?ord)" by (simp add: putEnv_def)
  have run: "fold putEnv kvs (m(k \<mapsto> v), ?ord) = (m', ord')" using Cons.prems(1) by (simp add: kv step)
  have ord: "distinct ?ord" "set ?ord = dom (m(k \<mapsto> v))" using Cons.prems(2,3) by auto
  have e: "m ++ map_of (rev (kv # kvs)) = m(k \<mapsto> v) ++ map_of (rev kvs)" by (simp add: kv)
  show ?case unfolding e by (rule Cons.IH [OF run ord])
qed simp

lemma splitEnv_join: "CHR ''='' \<notin> set k \<Longrightarrow> splitEnv (k @ ''='' @ v) = (k, v)"
  by (simp add: splitEnv_def cut_append)

section \<open>Properties\<close>

text \<open>
  C12. What the host does for a client that is not paired, over a whole session: nothing but
  pairing. Replacing every other handler by any other behaviour, at every moment the client is
  not on an encrypted connection with a certificate whose fingerprint the trust file then holds,
  changes nothing: neither what the session does to the host nor how it ends.
\<close>

theorem untrusted_requests_only_pair:
  "handleConnSession eof write p trust (onlyForPaired p trust other handler) fs s =
   handleConnSession eof write p trust handler fs s"
proof (induction fs arbitrary: s)
  case (Cons f fs)
  have "handleConnRequest write p trust (onlyForPaired p trust other handler) f s =
      handleConnRequest write p trust handler f s"
    unfolding handleConnRequest_def by (simp add: dispatch_guarded)
  then show ?case using Cons.IH by (auto split: prod.splits sum.splits bool.splits)
qed simp

text \<open>
  The merged environment of a command names every variable once, in the order of first
  mention; an override wins, otherwise the last value in the base counts.
\<close>

theorem merged_env_overrides:
  assumes "overrides \<noteq> []" and "list_all (\<lambda>(k, v). CHR ''='' \<notin> set k) overrides"
  shows "map_of (map splitEnv (mergeEnv base overrides)) = map_of (rev (map splitEnv base)) ++ map_of (rev overrides)
    \<and> distinct (map fst (map splitEnv (mergeEnv base overrides)))"
proof -
  obtain m1 o1 where one: "fold putEnv (map splitEnv base) (Map.empty, []) = (m1, o1)" by fastforce
  obtain m o2 where two: "fold putEnv overrides (m1, o1) = (m, o2)" by fastforce
  have f1: "distinct o1 \<and> set o1 = dom m1 \<and> m1 = map_of (rev (map splitEnv base))"
    using putEnv_fold [OF one] by simp
  have f2: "distinct o2 \<and> set o2 = dom m \<and> m = m1 ++ map_of (rev overrides)"
    using putEnv_fold [OF two] f1 by simp
  have clean: "CHR ''='' \<notin> set k" if "k \<in> set o2" for k
  proof -
    have "k \<in> fst ` set overrides \<or> k \<in> fst ` set (map splitEnv base)"
      using f1 f2 that by (auto simp: dom_map_of_conv_image_fst)
    then show ?thesis
    proof
      assume "k \<in> fst ` set overrides"
      then show ?thesis using assms(2) by (auto simp: list_all_iff)
    next
      assume "k \<in> fst ` set (map splitEnv base)"
      then obtain e where "k = fst (splitEnv e)" by auto
      then show ?thesis
        by (cases "cut (CHR ''='') e"; cases "snd (snd (cut (CHR ''='') e))")
          (auto simp: splitEnv_def dest: cut_found cut_not_found)
    qed
  qed
  have res: "mergeEnv base overrides = map (\<lambda>k. k @ ''='' @ (case m k of None \<Rightarrow> [] | Some v \<Rightarrow> v)) o2"
    using assms(1) one two by (simp add: mergeEnv_def)
  have split: "map splitEnv (mergeEnv base overrides) = map (\<lambda>k. (k, case m k of None \<Rightarrow> [] | Some v \<Rightarrow> v)) o2"
    unfolding res map_map using clean splitEnv_join by (auto simp: o_def)
  have look: "map_of (map (\<lambda>k. (k, case m k of None \<Rightarrow> [] | Some v \<Rightarrow> v)) o2) k = m k" for k
  proof (cases "m k")
    case None
    then have "k \<notin> set o2" using f2 by auto
    then show ?thesis using None by (simp add: map_of_map_restrict restrict_map_def)
  next
    case (Some v)
    then have "k \<in> set o2" using f2 by auto
    then show ?thesis using Some by (simp add: map_of_map_restrict restrict_map_def)
  qed
  show ?thesis unfolding split using look f1 f2 by (auto simp: o_def)
qed

lemma merged_env_overrides_witness:
  "map_of (map splitEnv (mergeEnv [''A=1'', ''B=2'', ''A=3''] [(''B'', ''x=y'')])) ''B'' = Some ''x=y''"
proof -
  have "[(''B'', ''x=y'')] \<noteq> []" "list_all (\<lambda>(k, v). CHR ''='' \<notin> set k) [(''B'', ''x=y'')]" by simp_all
  from merged_env_overrides [OF this, of "[''A=1'', ''B=2'', ''A=3'']"] show ?thesis by simp
qed
end
