(* ===== verification/BlobTransfer.thy ===== *)
theory BlobTransfer
  imports BlobReceive GoPath
begin

text \<open>
  Transfer sessions of the host (host/blob\_transfer.go, the preparation in host/server.go
  and host/context\_store.go) and the client's retry loop (client/blob\_transfer.go). A
  session is looked up by its token from any number of connections; its methods run under
  its mutex, so one connection's step is one step of the session. The frames a connection
  delivers are a list; a list that ends is a connection that closes.
\<close>

section \<open>Sessions\<close>

record downloadBlobItem =
  itemHash :: string
  itemPath :: string
  itemSize :: int

record blobTransferSession =
  tContext :: string
  tSession :: string
  tToken :: string
  tDirection :: string
  tChunkSize :: int
  tParallel :: int
  tReceiver :: "blobReceiver option"
  tItems :: "string \<rightharpoonup> downloadBlobItem"
  tTotal :: int
  tSent :: "(string \<times> int) set"
  tErr :: "blobError option"
  tDone :: bool

record blobTransferRequest =
  brContext :: string
  brSession :: string
  brToken :: string
  brDirection :: string
  brChunk :: "blobChunkInfo option"

definition BlobTransferUpload :: string where "BlobTransferUpload = ''upload''"
definition BlobTransferDownload :: string where "BlobTransferDownload = ''download''"

definition isDisconnectError :: "blobError \<Rightarrow> bool" where
  "isDisconnectError e \<longleftrightarrow> e = ConnLost \<or> e = SourceEOF \<or> e = TransferCancelled"

definition newBlobReceiveSession ::
  "(string \<Rightarrow> string) \<Rightarrow> (string \<Rightarrow> bool) \<Rightarrow> string \<Rightarrow> string \<Rightarrow> string \<Rightarrow> blobDescriptor list \<Rightarrow>
   int \<Rightarrow> int \<Rightarrow> blobStore \<Rightarrow> blobStore \<times> (blobError + blobTransferSession)" where
  "newBlobReceiveSession sha tempOk contextID session token blobs chunkSize parallel st =
     (case NewChunkedBlobReceiver sha tempOk blobs chunkSize st of
        (st', Inl e) \<Rightarrow> (st', Inl e)
      | (st', Inr r) \<Rightarrow> (st', Inr
          \<lparr>tContext = contextID, tSession = session, tToken = token,
           tDirection = BlobTransferUpload, tChunkSize = chunkSize, tParallel = parallel,
           tReceiver = Some r, tItems = Map.empty, tTotal = 0, tSent = {}, tErr = None,
           tDone = False\<rparr>))"

definition newBlobSendSession ::
  "string \<Rightarrow> string \<Rightarrow> string \<Rightarrow> (string \<rightharpoonup> downloadBlobItem) \<Rightarrow> int \<Rightarrow> int \<Rightarrow> int \<Rightarrow>
   blobTransferSession" where
  "newBlobSendSession contextID session token items n chunkSize parallel =
     \<lparr>tContext = contextID, tSession = session, tToken = token,
      tDirection = BlobTransferDownload, tChunkSize = chunkSize, tParallel = parallel,
      tReceiver = None, tItems = items, tTotal = n, tSent = {}, tErr = None, tDone = (n = 0)\<rparr>"

text \<open>The session is a pointer: \<open>None\<close> where the map of the server has none.\<close>

definition validateTransfer ::
  "blobTransferRequest \<Rightarrow> blobTransferSession option \<Rightarrow> blobError + blobTransferSession" where
  "validateTransfer req s =
     (case s of
        None \<Rightarrow> Inl (TransferOther ''blob transfer session not found'')
      | Some t \<Rightarrow>
          (if tContext t \<noteq> brContext req \<or> tSession t \<noteq> brSession req \<or> tToken t \<noteq> brToken req
           then Inl (TransferOther ''blob transfer session mismatch'')
           else if tDirection t \<noteq> brDirection req
           then Inl (TransferOther ''blob transfer direction mismatch'')
           else Inr t))"

definition completeTransfer :: "blobTransferSession \<Rightarrow> blobTransferSession" where
  "completeTransfer t = (if tDone t then t else t\<lparr>tDone := True\<rparr>)"

definition completeChunk :: "blobChunkInfo \<Rightarrow> blobTransferSession \<Rightarrow> blobTransferSession" where
  "completeChunk info t =
     (let t' = t\<lparr>tSent := insert (chunkHash info, chunkOffset info) (tSent t)\<rparr> in
      if tTotal t' \<le> int (card (tSent t')) \<and> \<not> tDone t' then t'\<lparr>tDone := True\<rparr> else t')"

definition failTransfer :: "blobError \<Rightarrow> blobTransferSession \<Rightarrow> blobTransferSession \<times> blobError" where
  "failTransfer e t =
     (let t1 = (if tErr t = None
                then t\<lparr>tErr := Some e, tReceiver := map_option (\<lambda>r. fst (failReceiver e r)) (tReceiver t)\<rparr>
                else t);
          t2 = (if tDone t1 then t1 else t1\<lparr>tDone := True\<rparr>) in
      (t2, case tErr t2 of Some e' \<Rightarrow> e' | None \<Rightarrow> e))"

text \<open>The goroutine of an upload, waiting for its receiver.\<close>

definition watchReceiver :: "bool \<Rightarrow> blobTransferSession \<Rightarrow> blobTransferSession" where
  "watchReceiver ctxDone t =
     (case tReceiver t of
        None \<Rightarrow> t
      | Some r \<Rightarrow>
          (case waitReceiver ctxDone r of
             None \<Rightarrow> t
           | Some (r', Inl e) \<Rightarrow> fst (failTransfer e (t\<lparr>tReceiver := Some r'\<rparr>))
           | Some (r', Inr _) \<Rightarrow> completeTransfer (t\<lparr>tReceiver := Some r'\<rparr>)))"

definition waitTransfer :: "bool \<Rightarrow> blobTransferSession \<Rightarrow>
    (blobTransferSession \<times> (blobError + unit)) option" where
  "waitTransfer ctxDone t =
     (if ctxDone then Some (case failTransfer TransferCancelled t of (t', e) \<Rightarrow> (t', Inl e))
      else if tDone t then Some (t, case tErr t of None \<Rightarrow> Inr () | Some e \<Rightarrow> Inl e)
      else None)"

type_synonym transferTable = "string \<rightharpoonup> blobTransferSession"

definition registerBlobTransferSession :: "blobTransferSession \<Rightarrow> transferTable \<Rightarrow> transferTable" where
  "registerBlobTransferSession t tab = tab(tToken t \<mapsto> t)"

definition unregisterBlobTransferSession :: "string \<Rightarrow> transferTable \<Rightarrow> transferTable" where
  "unregisterBlobTransferSession token tab = tab(token := None)"

definition lookupBlobTransferSession ::
  "blobTransferRequest \<Rightarrow> transferTable \<Rightarrow> blobError + blobTransferSession" where
  "lookupBlobTransferSession req tab = validateTransfer req (tab (brToken req))"

section \<open>Receiving an upload\<close>

text \<open>
  What \<open>ReadHeader\<close> gives and how the rest of the frame reads: \<open>UChunk None\<close> has metadata
  that does not decode, the optional errors are those of \<open>DiscardPayload\<close>.
\<close>

datatype uploadFrame =
    UHeaderError blobError
  | UHeartbeat "blobError option"
  | UChunk "chunkEvent option"
  | USyncComplete
  | UOther string "blobError option"

type_synonym uploadState = "blobTransferSession \<times> blobStore"

definition failUpload :: "blobError \<Rightarrow> uploadState \<Rightarrow> uploadState \<times> (blobError + bool)" where
  "failUpload e ts = (case failTransfer e (fst ts) of (t', e') \<Rightarrow> ((t', snd ts), Inl e'))"

text \<open>
  Only upload sessions are looked up for an upload, and they have a receiver; without one the
  code dereferences nil.
\<close>

definition receiveBlobTransferChunk ::
  "(string \<Rightarrow> string) \<Rightarrow> chunkEvent option \<Rightarrow> uploadState \<Rightarrow> uploadState \<times> (blobError + bool)" where
  "receiveBlobTransferChunk sha ce ts =
     (case ce of
        None \<Rightarrow> failUpload (TransferOther ''decode frame data'') ts
      | Some e \<Rightarrow>
          (case tReceiver (fst ts) of
             None \<Rightarrow> (ts, Inl (TransferOther ''nil receiver''))
           | Some r \<Rightarrow>
               (case ReceiveChunk sha (evWriteOk e) (evIO e) (evNow e) (evInfo e) (evAvail e)
                   (evLen e) (r, snd ts) of
                  ((r', st'), res) \<Rightarrow>
                    (let ts' = ((fst ts)\<lparr>tReceiver := Some r'\<rparr>, st') in
                     case res of
                       Inr _ \<Rightarrow> (ts', Inr False)
                     | Inl err \<Rightarrow>
                         if err = ChunkRead \<or> isDisconnectError err then (ts', Inr True)
                         else failUpload err ts'))))"

definition handleReceiveBlobTransferFrame ::
  "(string \<Rightarrow> string) \<Rightarrow> uploadFrame \<Rightarrow> uploadState \<Rightarrow> uploadState \<times> (blobError + bool)" where
  "handleReceiveBlobTransferFrame sha f ts =
     (case f of
        UHeaderError e \<Rightarrow> (if isDisconnectError e then (ts, Inr True) else failUpload e ts)
      | UHeartbeat d \<Rightarrow>
          (case d of
             None \<Rightarrow> (ts, Inr False)
           | Some e \<Rightarrow> if isDisconnectError e then (ts, Inr True) else failUpload e ts)
      | UChunk ce \<Rightarrow> receiveBlobTransferChunk sha ce ts
      | USyncComplete \<Rightarrow> (ts, Inr True)
      | UOther ty d \<Rightarrow>
          (case d of
             Some e \<Rightarrow> if isDisconnectError e then (ts, Inr True) else failUpload e ts
           | None \<Rightarrow> failUpload (TransferOther (''unexpected blob transfer frame: '' @ ty)) ts))"

fun receiveBlobTransfer ::
  "(string \<Rightarrow> string) \<Rightarrow> uploadFrame list \<Rightarrow> uploadState \<Rightarrow> uploadState \<times> (blobError + unit)" where
  "receiveBlobTransfer sha [] ts = (ts, Inr ())"
| "receiveBlobTransfer sha (f # fs) ts =
     (case handleReceiveBlobTransferFrame sha f ts of
        (ts', Inl e) \<Rightarrow> (ts', Inl e)
      | (ts', Inr stop) \<Rightarrow> if stop then (ts', Inr ()) else receiveBlobTransfer sha fs ts')"

section \<open>Serving a download\<close>

text \<open>The run's context, the files of the host and the connection as one request finds them.\<close>

record sendEnv =
  seCtx :: "blobError option"
  seFiles :: "string \<rightharpoonup> string"
  seWrite :: "blobError option"

type_synonym sentFrame = "blobChunkInfo \<times> string"

definition validateSendBlobChunk ::
  "blobChunkInfo \<Rightarrow> downloadBlobItem \<Rightarrow> int \<Rightarrow> blobError + unit" where
  "validateSendBlobChunk info item chunkSize =
     (if chunkBlobSize info \<noteq> itemSize item then Inl ChunkSizeMismatch
      else if chunkOffset info < 0 \<or> itemSize item < chunkOffset info
        then Inl (InvalidOffset (chunkOffset info))
      else if 0 < itemSize item \<and> chunkOffset info mod chunkSize \<noteq> 0
        then Inl (UnalignedOffset (chunkOffset info))
      else
        (let index = (if 0 < itemSize item then chunkOffset info div chunkSize else 0) in
         andThen (BlobChunkCount (itemSize item) chunkSize) (\<lambda>n.
           if n \<le> index then Inl (IndexOutOfRange index) else Inr ())))"

text \<open>A source shorter than the chunk ends the copy with \<open>io.EOF\<close>.\<close>

definition sendBlobChunk ::
  "sendEnv \<Rightarrow> blobChunkInfo \<Rightarrow> string \<Rightarrow> int \<Rightarrow> blobError + sentFrame" where
  "sendBlobChunk env info path chunkSize =
     andThen (BlobChunkPayloadLen info chunkSize) (\<lambda>n.
       case seFiles env path of
         None \<Rightarrow> Inl (TransferOther ''open blob source'')
       | Some c \<Rightarrow>
           (let payload = slice c (nat (chunkOffset info)) (nat n) in
            case seWrite env of
              Some e \<Rightarrow> Inl e
            | None \<Rightarrow> if int (length payload) < n then Inl SourceEOF else Inr (info, payload)))"

definition sendRequestedBlobChunk ::
  "sendEnv \<Rightarrow> blobTransferRequest \<Rightarrow> blobTransferSession \<Rightarrow>
   blobTransferSession \<times> (blobError + sentFrame)" where
  "sendRequestedBlobChunk env req t =
     (case seCtx env of
        Some e \<Rightarrow> (t, Inl e)
      | None \<Rightarrow>
          (case validateTransfer req (Some t) of
             Inl e \<Rightarrow> (t, Inl e)
           | Inr _ \<Rightarrow>
               (case brChunk req of
                  None \<Rightarrow> (t, Inl (TransferOther ''blob download chunk is required''))
                | Some info \<Rightarrow>
                    (case tItems t (chunkHash info) of
                       None \<Rightarrow> (t, Inl (UnexpectedChunk (chunkHash info)))
                     | Some item \<Rightarrow>
                         (if itemHash item = [] then (t, Inl (UnexpectedChunk (chunkHash info)))
                          else case validateSendBlobChunk info item (tChunkSize t) of
                            Inl e \<Rightarrow> (t, Inl e)
                          | Inr _ \<Rightarrow>
                              (case sendBlobChunk env info (itemPath item) (tChunkSize t) of
                                 Inl e \<Rightarrow> (t, Inl e)
                               | Inr f \<Rightarrow> (completeChunk info t, Inr f)))))))"

datatype requestRead =
    RHeaderError blobError
  | RHeartbeat "blobError option"
  | RRequest "(blobTransferRequest \<times> sendEnv) option"
  | RSyncComplete "blobError option"
  | ROther string "blobError option"

text \<open>The rest of the reads and the next request, \<open>None\<close> after the client is done.\<close>

fun readNextBlobTransferRequest ::
  "requestRead list \<Rightarrow> requestRead list \<times> (blobError + (blobTransferRequest \<times> sendEnv) option)" where
  "readNextBlobTransferRequest [] = ([], Inl ConnLost)"
| "readNextBlobTransferRequest (RHeaderError e # rs) = (rs, Inl e)"
| "readNextBlobTransferRequest (RHeartbeat d # rs) =
     (case d of Some e \<Rightarrow> (rs, Inl e) | None \<Rightarrow> readNextBlobTransferRequest rs)"
| "readNextBlobTransferRequest (RRequest q # rs) =
     (case q of None \<Rightarrow> (rs, Inl (TransferOther ''decode frame data'')) | Some x \<Rightarrow> (rs, Inr (Some x)))"
| "readNextBlobTransferRequest (RSyncComplete d # rs) =
     (case d of Some e \<Rightarrow> (rs, Inl e) | None \<Rightarrow> (rs, Inr None))"
| "readNextBlobTransferRequest (ROther ty d # rs) =
     (case d of
        Some e \<Rightarrow> (rs, Inl e)
      | None \<Rightarrow> (rs, Inl (TransferOther (''unexpected blob transfer frame: '' @ ty))))"

lemma readNext_shorter:
  "readNextBlobTransferRequest rs = (rs', Inr (Some x)) \<Longrightarrow> length rs' < length rs"
  by (induction rs rule: readNextBlobTransferRequest.induct) (auto split: option.splits)

text \<open>A disconnect leaves the session for another connection, any other error fails it.\<close>

definition stopSend ::
  "blobError \<Rightarrow> blobTransferSession \<Rightarrow> blobTransferSession \<times> (blobError + unit)" where
  "stopSend e t =
     (if isDisconnectError e then (t, Inr ())
      else case failTransfer e t of (t', e') \<Rightarrow> (t', Inl e'))"

function sendBlobTransfer ::
  "sendEnv \<Rightarrow> blobTransferRequest \<Rightarrow> requestRead list \<Rightarrow> blobTransferSession \<Rightarrow>
   blobTransferSession \<times> sentFrame list \<times> (blobError + unit)" where
  "sendBlobTransfer env req rs t =
     (case sendRequestedBlobChunk env req t of
        (t1, Inl e) \<Rightarrow> (case stopSend e t1 of (t2, r) \<Rightarrow> (t2, [], r))
      | (t1, Inr f) \<Rightarrow>
          (case readNextBlobTransferRequest rs of
             (rs', Inl e) \<Rightarrow> (case stopSend e t1 of (t2, r) \<Rightarrow> (t2, [f], r))
           | (rs', Inr None) \<Rightarrow> (t1, [f], Inr ())
           | (rs', Inr (Some (req', env'))) \<Rightarrow>
               (case sendBlobTransfer env' req' rs' t1 of (t2, fs, r) \<Rightarrow> (t2, f # fs, r))))"
  by pat_completeness auto
termination
  by (relation "measure (\<lambda>(env, req, rs, t). length rs)")
    (auto dest!: sym [of _ "readNextBlobTransferRequest _"] readNext_shorter)

declare sendBlobTransfer.simps [simp del]

definition handleBlobTransferRequest ::
  "(string \<Rightarrow> string) \<Rightarrow> sendEnv \<Rightarrow> blobTransferRequest \<Rightarrow> uploadFrame list \<Rightarrow> requestRead list \<Rightarrow>
   transferTable \<times> blobStore \<Rightarrow> (transferTable \<times> blobStore) \<times> sentFrame list \<times> (blobError + unit)" where
  "handleBlobTransferRequest sha env req ups downs s =
     (case s of (tab, st) \<Rightarrow>
        (case lookupBlobTransferSession req tab of
           Inl e \<Rightarrow> (s, [], Inl e)
         | Inr t \<Rightarrow>
             (if brDirection req = BlobTransferUpload then
                (case receiveBlobTransfer sha ups (t, st) of ((t', st'), r) \<Rightarrow>
                   ((tab(brToken req \<mapsto> t'), st'), [], r))
              else if brDirection req = BlobTransferDownload then
                (case sendBlobTransfer env req downs t of (t', fs, r) \<Rightarrow>
                   ((tab(brToken req \<mapsto> t'), st), fs, r))
              else (s, [], Inl (TransferOther (''unsupported blob transfer direction: '' @ brDirection req))))))"

section \<open>Preparing a transfer\<close>

definition transferParallelism :: "int \<Rightarrow> int \<Rightarrow> int" where
  "transferParallelism numCPU totalChunks =
     (if totalChunks \<le> 1 then 1 else min numCPU (min 8 (min 16 totalChunks)))"

text \<open>The first file entry with each hash; both preparations build this map.\<close>

fun entriesByHash :: "entry list \<Rightarrow> string \<rightharpoonup> entry" where
  "entriesByHash [] = Map.empty"
| "entriesByHash (e # es) =
     (if Kind e \<noteq> KindFile \<or> Hash e = [] then entriesByHash es
      else (entriesByHash es)(Hash e \<mapsto> e))"

fun downloadItems ::
  "string \<Rightarrow> (string \<Rightarrow> string) \<Rightarrow> (string \<rightharpoonup> entry) \<Rightarrow> string list \<Rightarrow> (string \<rightharpoonup> downloadBlobItem) \<Rightarrow>
   blobDescriptor list \<Rightarrow> blobError + (string \<rightharpoonup> downloadBlobItem) \<times> blobDescriptor list" where
  "downloadItems workspace blobSources byHash [] items ds = Inr (items, ds)"
| "downloadItems workspace blobSources byHash (h # hs) items ds =
     (case byHash h of
        None \<Rightarrow> Inl (TransferOther (''client requested unknown changed blob '' @ h))
      | Some e \<Rightarrow>
          (let source = (if blobSources h = [] then pathJoin [workspace, Path e] else blobSources h) in
           downloadItems workspace blobSources byHash hs
             (items(h \<mapsto> \<lparr>itemHash = h, itemPath = source, itemSize = Size e\<rparr>))
             (ds @ [\<lparr>blobHash = h, blobSize = Size e\<rparr>])))"

definition prepareDownloadBlobItems ::
  "string \<Rightarrow> (string \<Rightarrow> string) \<Rightarrow> entry list \<Rightarrow> string list \<Rightarrow>
   blobError + (string \<rightharpoonup> downloadBlobItem) \<times> blobDescriptor list" where
  "prepareDownloadBlobItems workspace blobSources changed hashes =
     downloadItems workspace blobSources (entriesByHash changed) hashes Map.empty []"

fun descriptorLoop :: "(string \<rightharpoonup> entry) \<Rightarrow> string list \<Rightarrow> blobError + blobDescriptor list" where
  "descriptorLoop byHash [] = Inr []"
| "descriptorLoop byHash (h # hs) =
     (case byHash h of
        None \<Rightarrow> Inl (TransferOther (''unknown blob hash '' @ h))
      | Some e \<Rightarrow> andThen (descriptorLoop byHash hs) (\<lambda>ds. Inr (\<lparr>blobHash = h, blobSize = Size e\<rparr> # ds)))"

definition blobDescriptorsForHashes :: "entry list \<Rightarrow> string list \<Rightarrow> blobError + blobDescriptor list" where
  "blobDescriptorsForHashes entries hashes = descriptorLoop (entriesByHash entries) hashes"

record needBlobs =
  needHashes :: "string list"
  needToken :: string
  needParallel :: int
  needChunkSize :: int

definition needBlobsMessage :: "string list \<Rightarrow> blobTransferSession option \<Rightarrow> needBlobs" where
  "needBlobsMessage missing t =
     (case t of
        None \<Rightarrow> \<lparr>needHashes = missing, needToken = [], needParallel = 0, needChunkSize = 0\<rparr>
      | Some t \<Rightarrow> \<lparr>needHashes = missing, needToken = tToken t, needParallel = tParallel t,
          needChunkSize = tChunkSize t\<rparr>)"

text \<open>\<open>nonce\<close>: the random token, or the error of the random source.\<close>

definition prepareBlobReceiveSession ::
  "(string \<Rightarrow> string) \<Rightarrow> (string \<Rightarrow> bool) \<Rightarrow> int \<Rightarrow> blobError + string \<Rightarrow> string \<Rightarrow> string \<Rightarrow>
   entry list \<Rightarrow> string list \<Rightarrow> transferTable \<times> blobStore \<Rightarrow>
   (transferTable \<times> blobStore) \<times> (blobError + blobTransferSession)" where
  "prepareBlobReceiveSession sha tempOk numCPU nonce contextID session changed missing s =
     (case andThen nonce (\<lambda>token. andThen (blobDescriptorsForHashes changed missing) (\<lambda>ds.
             andThen (PlanBlobChunks ds DefaultBlobChunkSize) (\<lambda>chunks. Inr (token, ds, chunks)))) of
        Inl e \<Rightarrow> (s, Inl e)
      | Inr (token, ds, chunks) \<Rightarrow>
          (case newBlobReceiveSession sha tempOk contextID session token ds DefaultBlobChunkSize
              (transferParallelism numCPU (int (length chunks))) (snd s) of
             (st', Inl e) \<Rightarrow> ((fst s, st'), Inl e)
           | (st', Inr t) \<Rightarrow> ((registerBlobTransferSession t (fst s), st'), Inr t)))"

text \<open>
  \<open>writeErr\<close>: the error of writing the message. The values: the session, if one was made,
  and the message as written.
\<close>

definition sendChangedFileBlobs ::
  "int \<Rightarrow> blobError + string \<Rightarrow> blobError option \<Rightarrow> string \<Rightarrow> string \<Rightarrow> string \<Rightarrow> (string \<Rightarrow> string) \<Rightarrow>
   entry list \<Rightarrow> string list \<Rightarrow> transferTable \<Rightarrow>
   transferTable \<times> blobTransferSession option \<times> (blobError + needBlobs)" where
  "sendChangedFileBlobs numCPU nonce writeErr contextID session workspace blobSources changed need tab =
     (case andThen (prepareDownloadBlobItems workspace blobSources changed need) (\<lambda>(items, ds).
             andThen (PlanBlobChunks ds DefaultBlobChunkSize) (\<lambda>chunks. Inr (items, chunks))) of
        Inl e \<Rightarrow> (tab, None, Inl e)
      | Inr (items, chunks) \<Rightarrow>
          (if dom items = {} then
             (tab, None, case writeErr of Some e \<Rightarrow> Inl e | None \<Rightarrow> Inr (needBlobsMessage [] None))
           else case nonce of
             Inl e \<Rightarrow> (tab, None, Inl e)
           | Inr token \<Rightarrow>
               (let t = newBlobSendSession contextID session token items (int (length chunks))
                      DefaultBlobChunkSize (transferParallelism numCPU (int (length chunks))) in
                (registerBlobTransferSession t tab, Some t,
                 case writeErr of Some e \<Rightarrow> Inl e | None \<Rightarrow> Inr (needBlobsMessage need (Some t))))))"

text \<open>The blobs of a change set copied into the store, once per hash.\<close>

fun storeChangedFileBlobs ::
  "(string \<Rightarrow> string) \<Rightarrow> (string \<Rightarrow> blobError option) \<Rightarrow> int \<Rightarrow> (string \<Rightarrow> string option) \<Rightarrow>
   (string \<Rightarrow> blobError + string) \<Rightarrow> string \<Rightarrow> (string \<Rightarrow> string) \<Rightarrow> string set \<Rightarrow> entry list \<Rightarrow>
   blobStore \<Rightarrow> blobStore \<times> (blobError + unit)" where
  "storeChangedFileBlobs sha io now clone readFile workspace blobSources stored [] st = (st, Inr ())"
| "storeChangedFileBlobs sha io now clone readFile workspace blobSources stored (e # es) st =
     (if Kind e \<noteq> KindFile \<or> Hash e = [] \<or> Hash e \<in> stored
      then storeChangedFileBlobs sha io now clone readFile workspace blobSources stored es st
      else
        (let source = (if blobSources (Hash e) = [] then pathJoin [workspace, Path e]
                       else blobSources (Hash e)) in
         case readFile source of
           Inl err \<Rightarrow> (st, Inl err)
         | Inr src \<Rightarrow>
             (case StorePath sha (io source) now (clone source) (Hash e) (Size e) src st of
                (st1, Inl err) \<Rightarrow> (st1, Inl err)
              | (st1, Inr _) \<Rightarrow>
                  storeChangedFileBlobs sha io now clone readFile workspace blobSources
                    (insert (Hash e) stored) es st1)))"

section \<open>The client's retries\<close>

definition blobTransferMaxAttempts :: nat where "blobTransferMaxAttempts = 5"
definition blobTransferRetryBase :: duration where "blobTransferRetryBase = 200 * 1000000"
definition blobTransferRetryMax :: duration where "blobTransferRetryMax = 2 * second"

definition isRetryableBlobTransferError :: "bool \<Rightarrow> blobError \<Rightarrow> bool" where
  "isRetryableBlobTransferError ctxDone e \<longleftrightarrow> \<not> ctxDone \<and> (e = ChunkRead \<or> isDisconnectError e)"

definition retryDelay :: "nat \<Rightarrow> duration" where
  "retryDelay attempt = min (push_bit (attempt - 1) blobTransferRetryBase) blobTransferRetryMax"

text \<open>
  What happens to one attempt: the context before it, the transfer (the connection it leaves
  and its error), the context after it, and whether the wait was cancelled.
\<close>

record 'c attemptEnv =
  aeCtx :: "blobError option"
  aeTransfer :: "'c option \<Rightarrow> 'c option \<times> (blobError + unit)"
  aeCtxDone :: bool
  aeWait :: "blobError option"

text \<open>What the loop did: connections handed to attempts, connections closed, delays.\<close>

record 'c retryTrace =
  rtCalls :: "'c option list"
  rtClosed :: "'c option list"
  rtDelays :: "duration list"

definition noTrace :: "'c retryTrace" where
  "noTrace = \<lparr>rtCalls = [], rtClosed = [], rtDelays = []\<rparr>"

text \<open>\<open>left\<close>: the attempts not yet made; the last error is that of the latest attempt.\<close>

fun retryLoop ::
  "nat \<Rightarrow> (nat \<Rightarrow> 'c attemptEnv) \<Rightarrow> 'c option \<Rightarrow> blobError \<Rightarrow> 'c retryTrace \<Rightarrow>
   'c retryTrace \<times> 'c option \<times> (blobError + unit)" where
  "retryLoop 0 env conn lastErr tr = (tr, None, Inl lastErr)"
| "retryLoop (Suc left) env conn lastErr tr =
     (let attempt = blobTransferMaxAttempts - left; e = env attempt in
      case aeCtx e of
        Some err \<Rightarrow> (tr, conn, Inl err)
      | None \<Rightarrow>
          (case aeTransfer e conn of (next, res) \<Rightarrow>
             (let tr1 = tr\<lparr>rtCalls := rtCalls tr @ [conn]\<rparr> in
              case res of
                Inr _ \<Rightarrow> (tr1, next, Inr ())
              | Inl err \<Rightarrow>
                  (let tr2 = tr1\<lparr>rtClosed := rtClosed tr1 @ [next]\<rparr> in
                   if \<not> isRetryableBlobTransferError (aeCtxDone e) err \<or> attempt = blobTransferMaxAttempts
                   then (tr2, None, Inl err)
                   else
                     (let tr3 = tr2\<lparr>rtDelays := rtDelays tr2 @ [retryDelay attempt]\<rparr> in
                      case aeWait e of
                        Some werr \<Rightarrow> (tr3, None, Inl werr)
                      | None \<Rightarrow> retryLoop left env None err tr3)))))"

definition retryBlobTransferChunk ::
  "(nat \<Rightarrow> 'c attemptEnv) \<Rightarrow> 'c option \<Rightarrow> 'c retryTrace \<times> 'c option \<times> (blobError + unit)" where
  "retryBlobTransferChunk env conn = retryLoop blobTransferMaxAttempts env conn ConnLost noTrace"

section \<open>Facts about downloads\<close>

text \<open>
  The session as all connections see it: a connection serves a request, or something fails
  the session. \<open>out\<close> are the chunk frames written, over all connections.
\<close>

datatype downloadEvent = DServe sendEnv blobTransferRequest | DFail blobError

fun downloadStep :: "downloadEvent \<Rightarrow> blobTransferSession \<times> sentFrame list \<Rightarrow>
    blobTransferSession \<times> sentFrame list" where
  "downloadStep (DServe env req) (t, out) =
     (case sendRequestedBlobChunk env req t of
        (t1, Inl e) \<Rightarrow> (fst (stopSend e t1), out)
      | (t1, Inr f) \<Rightarrow> (t1, out @ [f]))"
| "downloadStep (DFail e) (t, out) = (fst (failTransfer e t), out)"

text \<open>One connection's loop is a sequence of such steps.\<close>

lemma downloadStep_out: "fold downloadStep evs (t, out @ fs) =
  (case fold downloadStep evs (t, fs) of (t', fs') \<Rightarrow> (t', out @ fs'))"
proof (induction evs arbitrary: t fs)
  case (Cons ev evs)
  obtain t1 f1 where s: "downloadStep ev (t, fs) = (t1, fs @ f1)"
  proof (cases ev)
    case (DServe env req)
    then show ?thesis
      using that by (cases "sendRequestedBlobChunk env req t"; cases "snd (sendRequestedBlobChunk env req t)") auto
  next
    case (DFail e)
    then show ?thesis using that [of "fst (failTransfer e t)" "[]"] by simp
  qed
  then have "downloadStep ev (t, out @ fs) = (t1, out @ fs @ f1)"
    by (cases ev) (auto split: prod.splits sum.splits)
  then show ?case using Cons [of t1 "fs @ f1"] s by simp
qed simp

lemma sendBlobTransfer_steps:
  "sendBlobTransfer env req rs t = (t', fs, r) \<Longrightarrow> \<exists>evs. fold downloadStep evs (t, []) = (t', fs)"
proof (induction env req rs t arbitrary: t' fs r rule: sendBlobTransfer.induct)
  case (1 env req rs t)
  obtain t1 sr where s: "sendRequestedBlobChunk env req t = (t1, sr)" by fastforce
  show ?case
  proof (cases sr)
    case (Inl e)
    then have "fold downloadStep [DServe env req] (t, []) = (t', fs)"
      using 1(2) s by (auto simp: sendBlobTransfer.simps [of env req rs t] split: prod.splits)
    then show ?thesis by blast
  next
    case (Inr f)
    have one: "fold downloadStep [DServe env req] (t, []) = (t1, [f])" using s Inr by simp
    obtain rs' nx where n: "readNextBlobTransferRequest rs = (rs', nx)" by fastforce
    consider e where "nx = Inl e" | "nx = Inr None"
      | req' env' where "nx = Inr (Some (req', env'))" by (cases nx) (auto, metis option.exhaust surj_pair)
    then show ?thesis
    proof cases
      case e: 1
      have "fold downloadStep ([DServe env req] @ (if isDisconnectError e then [] else [DFail e])) (t, [])
          = (t', fs)"
        using 1(2) s Inr n e
        by (auto simp: sendBlobTransfer.simps [of env req rs t] stopSend_def split: prod.splits if_splits)
      then show ?thesis by blast
    next
      case 2
      then show ?thesis
        using 1(2) s Inr n one by (auto simp: sendBlobTransfer.simps [of env req rs t] intro!: exI [of _ "[DServe env req]"])
    next
      case 3
      then obtain t2 fs2 r2 where rec: "sendBlobTransfer env' req' rs' t1 = (t2, fs2, r2)"
        "t' = t2" "fs = f # fs2"
        using 1(2) s Inr n by (auto simp: sendBlobTransfer.simps [of env req rs t] split: prod.splits)
      from 1(1) [OF s [symmetric] Inr n [symmetric] 3 refl refl rec(1)]
      obtain evs where "fold downloadStep evs (t1, []) = (t2, fs2)" by blast
      then have "fold downloadStep ([DServe env req] @ evs) (t, []) = (t', fs)"
        using one downloadStep_out [of evs t1 "[f]" "[]"] rec by simp
      then show ?thesis by blast
    qed
  qed
qed

lemma downloadItems_facts:
  assumes "downloadItems ws srcs byHash hs items ds = Inr (items', ds')"
    and "\<forall>h item. items h = Some item \<longrightarrow> itemHash item = h \<and> \<lparr>blobHash = h, blobSize = itemSize item\<rparr> \<in> set ds"
  shows "\<forall>h item. items' h = Some item \<longrightarrow> itemHash item = h \<and> \<lparr>blobHash = h, blobSize = itemSize item\<rparr> \<in> set ds'"
  using assms
proof (induction hs arbitrary: items ds)
  case (Cons h hs)
  obtain e where e: "byHash h = Some e"
    using Cons.prems(1) by (cases "byHash h") simp_all
  let ?item = "\<lparr>itemHash = h, itemPath = (if srcs h = [] then pathJoin [ws, Path e] else srcs h), itemSize = Size e\<rparr>"
  let ?ds = "ds @ [\<lparr>blobHash = h, blobSize = Size e\<rparr>]"
  have "downloadItems ws srcs byHash hs (items(h \<mapsto> ?item)) ?ds = Inr (items', ds')"
    using Cons.prems(1) e by (simp add: Let_def split: if_splits)
  moreover have "itemHash item = h' \<and> \<lparr>blobHash = h', blobSize = itemSize item\<rparr> \<in> set ?ds"
    if "(items(h \<mapsto> ?item)) h' = Some item" for h' item
  proof (cases "h' = h")
    case True
    then have "item = ?item" using that by simp
    then show ?thesis using True by simp
  next
    case False
    then show ?thesis using that Cons.prems(2) by simp
  qed
  ultimately show ?case using Cons.IH by blast
qed simp

lemma sendable_planned:
  assumes "normalizeBlobChunkSize cs = Inr cs" "0 \<le> itemSize item"
    and "validateSendBlobChunk i item cs = Inr ()"
  shows "i \<in> set (blobChunks cs \<lparr>blobHash = chunkHash i, blobSize = itemSize item\<rparr>)"
proof -
  have cs: "0 < cs" using normalize_pos [OF assms(1)] .
  have v: "chunkBlobSize i = itemSize item" "0 \<le> chunkOffset i" "chunkOffset i \<le> itemSize item"
    "0 < itemSize item \<Longrightarrow> chunkOffset i mod cs = 0"
    "0 < itemSize item \<Longrightarrow> chunkOffset i div cs < 1 + (itemSize item - 1) div cs"
    using assms by (auto simp: validateSendBlobChunk_def BlobChunkCount_def Let_def split: if_splits)
  have "chunkOffset i < itemSize item" if "0 < itemSize item"
  proof -
    have "chunkOffset i = cs * (chunkOffset i div cs)"
      using v(4) [OF that] mult_div_mod_eq [of cs "chunkOffset i"] by simp
    also have "\<dots> \<le> cs * ((itemSize item - 1) div cs)" using v(5) [OF that] cs by (intro mult_left_mono) auto
    also have "\<dots> \<le> itemSize item - 1"
      using mult_div_mod_eq [of cs "itemSize item - 1"] pos_mod_sign [OF cs, of "itemSize item - 1"] by linarith
    finally show ?thesis by simp
  qed
  then show ?thesis using assms(1,2) v by (auto simp: blobChunks_mem)
qed

text \<open>The invariant of a download session.\<close>

definition downInv ::
  "int \<Rightarrow> (string \<rightharpoonup> downloadBlobItem) \<Rightarrow> blobChunkInfo list \<Rightarrow> (string \<Rightarrow> string) \<Rightarrow>
   blobTransferSession \<times> sentFrame list \<Rightarrow> bool" where
  "downInv cs items chunks content s \<longleftrightarrow> (case s of (t, out) \<Rightarrow>
     tItems t = items \<and> tChunkSize t = cs \<and> tTotal t = int (length chunks) \<and> finite (tSent t)
     \<and> (\<forall>k \<in> tSent t. \<exists>i \<in> set chunks. k = (chunkHash i, chunkOffset i)
          \<and> (i, chunkPayload cs (content (chunkHash i)) i) \<in> set out)
     \<and> (tDone t \<longrightarrow> tErr t = None \<longrightarrow> tTotal t \<le> int (card (tSent t))))"

lemma downInv_fail: "downInv cs items chunks content (t, out) \<Longrightarrow>
  downInv cs items chunks content (fst (failTransfer e t), out)"
  by (auto simp: downInv_def failTransfer_def Let_def)

lemma downInv_step:
  assumes inv: "downInv cs items chunks content (t, out)" and cs: "normalizeBlobChunkSize cs = Inr cs"
    and items: "\<forall>h item. items h = Some item \<longrightarrow> 0 \<le> itemSize item
      \<and> set (blobChunks cs \<lparr>blobHash = h, blobSize = itemSize item\<rparr>) \<subseteq> set chunks"
    and files: "\<forall>env req. ev = DServe env req \<longrightarrow>
      (\<forall>h item. items h = Some item \<longrightarrow> seFiles env (itemPath item) = Some (content h))"
  shows "downInv cs items chunks content (downloadStep ev (t, out))"
proof (cases ev)
  case (DFail e)
  then show ?thesis using downInv_fail [OF inv] by simp
next
  case (DServe env req)
  obtain t1 r where s: "sendRequestedBlobChunk env req t = (t1, r)" by fastforce
  show ?thesis
  proof (cases r)
    case (Inl e)
    then have "t1 = t" using s by (auto simp: sendRequestedBlobChunk_def split: option.splits sum.splits if_splits)
    then show ?thesis
      using s Inl DServe inv downInv_fail [OF inv, of e] by (auto simp: stopSend_def split: prod.splits)
  next
    case (Inr f)
    then obtain i item where i: "items (chunkHash i) = Some item"
      "validateSendBlobChunk i item cs = Inr ()" "sendBlobChunk env i (itemPath item) cs = Inr f"
      "t1 = completeChunk i t"
      using s inv by (auto simp: downInv_def sendRequestedBlobChunk_def split: option.splits sum.splits if_splits)
    have mem: "i \<in> set chunks" using sendable_planned [OF cs _ i(2)] items i(1) by blast
    have "seFiles env (itemPath item) = Some (content (chunkHash i))" using files DServe i(1) by blast
    then have f: "f = (i, chunkPayload cs (content (chunkHash i)) i)"
      using i(3) by (auto simp: sendBlobChunk_def chunkPayload_def andThen_Inr_iff Let_def
          split: option.splits if_splits)
    have "downInv cs items chunks content (completeChunk i t, out @ [f])"
    proof -
      let ?k = "(chunkHash i, chunkOffset i)"
      have fin: "finite (tSent t)" using inv by (simp add: downInv_def)
      have more: "card (tSent t) \<le> card (insert ?k (tSent t))" by (rule card_insert_le)
      have sent: "\<forall>k \<in> insert ?k (tSent t). \<exists>j \<in> set chunks. k = (chunkHash j, chunkOffset j)
          \<and> (j, chunkPayload cs (content (chunkHash j)) j) \<in> set (out @ [f])"
        using inv mem unfolding downInv_def f by auto
      have "tDone (completeChunk i t) \<longrightarrow> tErr (completeChunk i t) = None \<longrightarrow>
          tTotal t \<le> int (card (insert ?k (tSent t)))"
        using inv more by (auto simp: downInv_def completeChunk_def Let_def split: if_splits)
      moreover have "tSent (completeChunk i t) = insert ?k (tSent t)"
        "tItems (completeChunk i t) = tItems t" "tChunkSize (completeChunk i t) = tChunkSize t"
        "tTotal (completeChunk i t) = tTotal t"
        by (simp_all add: completeChunk_def Let_def)
      ultimately show ?thesis using inv fin sent by (simp add: downInv_def)
    qed
    then show ?thesis using s Inr DServe i(4) by simp
  qed
qed

lemma downInv_run:
  assumes "normalizeBlobChunkSize cs = Inr cs" "downInv cs items chunks content (t, out)"
    and "\<forall>h item. items h = Some item \<longrightarrow> 0 \<le> itemSize item
      \<and> set (blobChunks cs \<lparr>blobHash = h, blobSize = itemSize item\<rparr>) \<subseteq> set chunks"
    and "\<forall>env req h item. DServe env req \<in> set evs \<longrightarrow> items h = Some item \<longrightarrow>
      seFiles env (itemPath item) = Some (content h)"
  shows "downInv cs items chunks content (fold downloadStep evs (t, out))"
  using assms(2,4)
proof (induction evs arbitrary: t out)
  case (Cons ev evs)
  obtain t1 out1 where s: "downloadStep ev (t, out) = (t1, out1)" by fastforce
  have "downInv cs items chunks content (downloadStep ev (t, out))"
    using Cons.prems(2) by (intro downInv_step [OF Cons.prems(1) assms(1,3)]) simp
  then have "downInv cs items chunks content (t1, out1)" using s by simp
  moreover have "\<forall>env req h item. DServe env req \<in> set evs \<longrightarrow> items h = Some item \<longrightarrow>
      seFiles env (itemPath item) = Some (content h)"
    using Cons.prems(2) by (meson list.set_intros(2))
  ultimately have "downInv cs items chunks content (fold downloadStep evs (t1, out1))"
    by (rule Cons.IH)
  then show ?case using s by simp
qed simp

section \<open>Facts about uploads\<close>

text \<open>An upload session as its connections, its watching goroutine and its run see it.\<close>

datatype uploadEvent = UFrame uploadFrame | UWatch bool | UCancel

definition uploadStep :: "(string \<Rightarrow> string) \<Rightarrow> uploadEvent \<Rightarrow> uploadState \<Rightarrow> uploadState" where
  "uploadStep sha ev ts =
     (case ev of
        UFrame f \<Rightarrow> fst (handleReceiveBlobTransferFrame sha f ts)
      | UWatch ctxDone \<Rightarrow> (watchReceiver ctxDone (fst ts), snd ts)
      | UCancel \<Rightarrow> (fst (failTransfer TransferCancelled (fst ts)), snd ts))"

lemma receiveBlobTransfer_steps:
  "\<exists>evs. fst (receiveBlobTransfer sha fs ts) = fold (uploadStep sha) evs ts"
proof (induction fs arbitrary: ts)
  case Nil
  show ?case by (rule exI [of _ "[]"]) simp
next
  case (Cons f fs)
  obtain ts' r where h: "handleReceiveBlobTransferFrame sha f ts = (ts', r)" by fastforce
  then have one: "uploadStep sha (UFrame f) ts = ts'" by (simp add: uploadStep_def)
  show ?case
  proof (cases "r = Inr False")
    case True
    obtain evs where "fst (receiveBlobTransfer sha fs ts') = fold (uploadStep sha) evs ts'"
      using Cons by blast
    then show ?thesis using h True one by (intro exI [of _ "UFrame f # evs"]) simp
  next
    case False
    then have "fst (receiveBlobTransfer sha (f # fs) ts) = ts'" using h by (cases r) auto
    then show ?thesis using one by (intro exI [of _ "[UFrame f]"]) simp
  qed
qed

lemma shape_error: "validateBlobChunkShape info h n cs len = Inl e \<Longrightarrow> \<not> isDisconnectError e \<and> e \<noteq> ChunkRead"
  by (auto simp: validateBlobChunkShape_def BlobChunkPayloadLen_def BlobChunkCount_def
      normalizeBlobChunkSize_def isDisconnectError_def Let_def andThen_def split: if_splits sum.splits)

lemma failWith_None: "rErr r = None \<Longrightarrow> failWith e r = (r', res) \<Longrightarrow> res = Inl e \<and> rErr r' \<noteq> None"
  by (auto simp: failWith_def failReceiver_def closeDoneLocked_def split: if_splits)

text \<open>With no writer left a chunk changes nothing, or fails with an error that is not a disconnect.\<close>

lemma ReceiveChunk_idle:
  assumes "rErr r = None" "rWriters r (chunkHash info) = None"
    and "ReceiveChunk sha writeOk io now info avail n (r, st) = ((r', st'), res)"
  shows "r' = r \<and> (res = Inr () \<or> res = Inl ChunkRead)
    \<or> (\<exists>e. res = Inl e \<and> \<not> isDisconnectError e \<and> e \<noteq> ChunkRead) \<and> rErr r' \<noteq> None"
  using assms(3) unfolding ReceiveChunk_def
  by (auto simp: assms(1,2) Let_def isDisconnectError_def split: if_splits option.splits prod.splits sum.splits
      dest!: shape_error failWith_None [OF assms(1)])

definition receiverDone :: "blobReceiver \<Rightarrow> bool" where
  "receiverDone r \<longleftrightarrow> rErr r \<noteq> None \<or> rPending r = 0"

definition noWriters :: "blobReceiver \<Rightarrow> bool" where
  "noWriters r \<longleftrightarrow> rWriters r = Map.empty"

lemma recvInv_noWriters: "recvInv sha r st \<Longrightarrow> rErr r = None \<Longrightarrow> rPending r = 0 \<longleftrightarrow> noWriters r"
  using recvInvD(2) [of sha r st] recvInvD(5) [of sha r st] by (auto simp: noWriters_def)

text \<open>What a chunk leaves of the receiver.\<close>

lemma ReceiveChunk_shape:
  assumes "ReceiveChunk sha writeOk io now info avail n (r, st) = ((r', st'), res)"
    and "rErr r = None" "\<not> rDone r" "rDone r'"
  shows "rErr r' \<noteq> None \<or> rPending r' = 0"
proof (rule ccontr)
  assume no: "\<not> (rErr r' \<noteq> None \<or> rPending r' = 0)"
  have nf: "\<not> (failWith e rx = (r', res'))" if "rErr rx = None" for e rx res'
    using failWith_None [of rx e r' res'] that no by blast
  have nf': "fst (failWith e rx) \<noteq> r'" if "rErr rx = None" for e rx
    using nf [OF that] by (metis prod.collapse)
  show False
    using assms no nf nf' unfolding ReceiveChunk_def
    by (auto simp: Let_def closeDoneLocked_def split: if_splits option.splits prod.splits sum.splits)
qed

lemma ReceiveChunk_done:
  assumes "recvInv sha r st" "rDone r \<longrightarrow> receiverDone r"
    and "ReceiveChunk sha writeOk io now info avail n (r, st) = ((r', st'), res)"
  shows "rDone r' \<longrightarrow> receiverDone r'"
proof (cases "rErr r")
  case (Some e)
  then have "rErr r' \<noteq> None"
    using assms(3) by (auto simp: ReceiveChunk_def failWith_def failReceiver_def split: if_splits)
  then show ?thesis by (simp add: receiverDone_def)
next
  case None
  show ?thesis
  proof (cases "rDone r")
    case True
    then have nw: "rWriters r (chunkHash info) = None"
      using assms(2) recvInv_noWriters [OF assms(1) None] None by (simp add: receiverDone_def noWriters_def)
    show ?thesis
      using ReceiveChunk_idle [OF None nw assms(3)] assms(2) by (auto simp: receiverDone_def)
  next
    case False
    then show ?thesis
      using assms(3) None by (auto simp: receiverDone_def dest!: ReceiveChunk_shape)
  qed
qed

definition upInv ::
  "(string \<Rightarrow> string) \<Rightarrow> (string \<rightharpoonup> blobDescriptor) \<Rightarrow> uploadState \<Rightarrow> bool" where
  "upInv sha blobs ts \<longleftrightarrow> (\<exists>r. tReceiver (fst ts) = Some r \<and> recvInv sha r (snd ts)
     \<and> rBlobs r = blobs \<and> (rDone r \<longrightarrow> receiverDone r)
     \<and> (tDone (fst ts) \<longrightarrow> tErr (fst ts) = None \<longrightarrow> rErr r = None \<and> rPending r = 0))"

lemma failReceiver_inv:
  assumes "recvInv sha r st" "rDone r \<longrightarrow> receiverDone r"
  shows "recvInv sha (fst (failReceiver e r)) st \<and> rBlobs (fst (failReceiver e r)) = rBlobs r
    \<and> rErr (fst (failReceiver e r)) \<noteq> None"
proof (cases "rErr r")
  case None
  obtain r' res where f: "failWith e r = (r', res)" by fastforce
  then have "r' = fst (failReceiver e r)" by (auto simp: failWith_def split: prod.splits)
  then show ?thesis using recvInv_fail [OF f] recvInvD(1,4) [OF assms(1)] None by blast
next
  case (Some x)
  then show ?thesis using assms(1) by (simp add: failReceiver_def)
qed

lemma upInv_fail:
  assumes "upInv sha blobs (t, st)"
  shows "upInv sha blobs (fst (failTransfer e t), st) \<and> tErr (fst (failTransfer e t)) \<noteq> None"
proof -
  obtain r where r: "tReceiver t = Some r" "recvInv sha r st" "rBlobs r = blobs"
    "rDone r \<longrightarrow> receiverDone r" using assms by (auto simp: upInv_def)
  note f = failReceiver_inv [OF r(2,4), of e]
  show ?thesis
  proof (cases "tErr t")
    case None
    then show ?thesis using r f by (auto simp: upInv_def failTransfer_def receiverDone_def Let_def)
  next
    case (Some x)
    then show ?thesis using r by (auto simp: upInv_def failTransfer_def Let_def)
  qed
qed

lemma failUpload_inv:
  "upInv sha blobs ts \<Longrightarrow> failUpload e ts = (ts', res) \<Longrightarrow> upInv sha blobs ts'"
  using upInv_fail [of sha blobs "fst ts" "snd ts" e] by (auto simp: failUpload_def split: prod.splits)

lemma upInv_chunk:
  assumes inv: "upInv sha blobs (t, st)"
    and c: "receiveBlobTransferChunk sha ce (t, st) = (ts', res)"
  shows "upInv sha blobs ts'"
proof (cases ce)
  case None
  then show ?thesis using c failUpload_inv [OF inv] by (simp add: receiveBlobTransferChunk_def)
next
  case (Some e)
  obtain r where r: "tReceiver t = Some r" "recvInv sha r st" "rBlobs r = blobs"
    "rDone r \<longrightarrow> receiverDone r" "tDone t \<Longrightarrow> tErr t = None \<Longrightarrow> rErr r = None \<and> rPending r = 0"
    using inv by (auto simp: upInv_def)
  obtain r' st' rr where rc: "ReceiveChunk sha (evWriteOk e) (evIO e) (evNow e) (evInfo e) (evAvail e)
      (evLen e) (r, st) = ((r', st'), rr)" by (metis surj_pair)
  note k = recvInv_ReceiveChunk [OF r(2) rc] ReceiveChunk_done [OF r(2,4) rc]
  define t1 where "t1 = t\<lparr>tReceiver := Some r'\<rparr>"
  have t1: "tReceiver t1 = Some r'" "tDone t1 = tDone t" "tErr t1 = tErr t" by (simp_all add: t1_def)
  have idle: "r' = r \<or> (\<exists>x. rr = Inl x \<and> \<not> isDisconnectError x \<and> x \<noteq> ChunkRead)"
    if d: "tDone t" "tErr t = None"
  proof -
    have "rWriters r (chunkHash (evInfo e)) = None"
      using r(5) [OF d] recvInv_noWriters [OF r(2)] by (simp add: noWriters_def)
    then show ?thesis using ReceiveChunk_idle [OF conjunct1 [OF r(5) [OF d]] _ rc] by auto
  qed
  have step: "receiveBlobTransferChunk sha ce (t, st) = (case rr of Inr _ \<Rightarrow> ((t1, st'), Inr False)
      | Inl x \<Rightarrow> if x = ChunkRead \<or> isDisconnectError x then ((t1, st'), Inr True) else failUpload x (t1, st'))"
    using Some r(1) rc unfolding t1_def by (simp add: receiveBlobTransferChunk_def Let_def)
  have weak: "upInv sha blobs (t1, st')" if "tDone t \<Longrightarrow> tErr t = None \<Longrightarrow> r' = r"
    using that k r t1 by (auto simp: upInv_def)
  consider u where "rr = Inr u" | x where "rr = Inl x" "x = ChunkRead \<or> isDisconnectError x"
    | x where "rr = Inl x" "\<not> (x = ChunkRead \<or> isDisconnectError x)" by (cases rr) auto
  then show ?thesis
  proof cases
    case 1
    then have "r' = r" if "tDone t" "tErr t = None" using idle [OF that] by auto
    then show ?thesis using weak c step 1 by auto
  next
    case 2
    then have "r' = r" if "tDone t" "tErr t = None" using idle [OF that] by auto
    then show ?thesis using weak c step 2 by auto
  next
    case 3
    then have f: "failUpload x (t1, st') = (ts', res)" using c step by auto
    have "upInv sha blobs (t1\<lparr>tDone := False\<rparr>, st')" using k r t1 by (auto simp: upInv_def)
    from upInv_fail [OF this, of x]
    have "upInv sha blobs (fst (failTransfer x (t1\<lparr>tDone := False\<rparr>)), st')"
      "tErr (fst (failTransfer x (t1\<lparr>tDone := False\<rparr>))) \<noteq> None" by auto
    moreover have "tReceiver (fst (failTransfer x (t1\<lparr>tDone := False\<rparr>))) = tReceiver (fst (failTransfer x t1))"
      "tErr (fst (failTransfer x (t1\<lparr>tDone := False\<rparr>))) = tErr (fst (failTransfer x t1))"
      by (simp_all add: failTransfer_def Let_def)
    ultimately have "upInv sha blobs (fst (failTransfer x t1), st')" by (auto simp: upInv_def)
    then show ?thesis using f by (auto simp: failUpload_def split: prod.splits)
  qed
qed

lemma upInv_watch:
  assumes "upInv sha blobs (t, st)"
  shows "upInv sha blobs (watchReceiver ctxDone t, st)"
proof -
  obtain r where r: "tReceiver t = Some r" "recvInv sha r st" "rBlobs r = blobs"
    "rDone r \<longrightarrow> receiverDone r" "tDone t \<longrightarrow> tErr t = None \<longrightarrow> rErr r = None \<and> rPending r = 0"
    using assms by (auto simp: upInv_def)
  note f = failReceiver_inv [OF r(2,4), of TransferCancelled]
  show ?thesis
  proof (cases ctxDone)
    case True
    obtain r' e where fr: "failReceiver TransferCancelled r = (r', e)" by fastforce
    define t1 where "t1 = t\<lparr>tReceiver := Some r'\<rparr>"
    have w: "watchReceiver ctxDone t = fst (failTransfer e t1)"
      using r(1) fr True by (simp add: watchReceiver_def waitReceiver_def failWith_def t1_def)
    have "upInv sha blobs (t1\<lparr>tDone := False\<rparr>, st)"
      using f fr r by (auto simp: upInv_def t1_def receiverDone_def)
    from upInv_fail [OF this, of e]
    have "upInv sha blobs (fst (failTransfer e (t1\<lparr>tDone := False\<rparr>)), st)"
      "tErr (fst (failTransfer e (t1\<lparr>tDone := False\<rparr>))) \<noteq> None" by auto
    moreover have "tReceiver (fst (failTransfer e (t1\<lparr>tDone := False\<rparr>))) = tReceiver (fst (failTransfer e t1))"
      "tErr (fst (failTransfer e (t1\<lparr>tDone := False\<rparr>))) = tErr (fst (failTransfer e t1))"
      by (simp_all add: failTransfer_def Let_def)
    ultimately show ?thesis using w by (auto simp: upInv_def)
  next
    case False
    have same: "t\<lparr>tReceiver := Some r\<rparr> = t" using r(1) by simp
    show ?thesis
    proof (cases "rDone r")
      case nd: False
      then show ?thesis using False assms r(1) by (simp add: watchReceiver_def waitReceiver_def)
    next
      case d: True
      show ?thesis
      proof (cases "rErr r")
        case None
        then have "watchReceiver ctxDone t = completeTransfer (t\<lparr>tReceiver := Some r\<rparr>)"
          using False d r(1) by (simp add: watchReceiver_def waitReceiver_def)
        then have "watchReceiver ctxDone t = completeTransfer t" unfolding same .
        then show ?thesis
          using r None d by (auto simp: upInv_def completeTransfer_def receiverDone_def)
      next
        case (Some e)
        then have "watchReceiver ctxDone t = fst (failTransfer e (t\<lparr>tReceiver := Some r\<rparr>))"
          using False d r(1) by (simp add: watchReceiver_def waitReceiver_def)
        then show ?thesis using upInv_fail [OF assms] unfolding same by simp
      qed
    qed
  qed
qed

lemma upInv_step: "upInv sha blobs ts \<Longrightarrow> upInv sha blobs (uploadStep sha ev ts)"
proof (cases ev)
  case (UFrame f)
  assume inv: "upInv sha blobs ts"
  obtain ts' res where h: "handleReceiveBlobTransferFrame sha f ts = (ts', res)" by fastforce
  have fi: "\<And>e. failUpload e ts = (ts', res) \<Longrightarrow> upInv sha blobs ts'" using failUpload_inv [OF inv] by blast
  have ci: "\<And>ce. receiveBlobTransferChunk sha ce ts = (ts', res) \<Longrightarrow> upInv sha blobs ts'"
    using upInv_chunk [of sha blobs "fst ts" "snd ts"] inv by simp
  have "upInv sha blobs ts'"
    using h inv fi ci by (cases f)
      (auto simp: handleReceiveBlobTransferFrame_def split: option.splits if_splits)
  then show ?thesis using h UFrame by (simp add: uploadStep_def)
next
  case (UWatch d)
  assume "upInv sha blobs ts"
  then show ?thesis using upInv_watch [of sha blobs "fst ts" "snd ts" d] UWatch by (simp add: uploadStep_def)
next
  case UCancel
  assume "upInv sha blobs ts"
  then show ?thesis using upInv_fail [of sha blobs "fst ts" "snd ts"] UCancel by (simp add: uploadStep_def)
qed

lemma upInv_run: "upInv sha blobs ts \<Longrightarrow> upInv sha blobs (fold (uploadStep sha) evs ts)"
proof (induction evs arbitrary: ts)
  case (Cons ev evs)
  from Cons.IH [OF upInv_step [OF Cons.prems]] show ?case by simp
qed simp

lemma newReceive_inv:
  assumes "storeOk sha st0" "distinct (map blobHash blobs)"
    and "newBlobReceiveSession sha tempOk ctx sess token blobs cs par st0 = (st1, Inr t)"
  shows "\<exists>m. upInv sha m (t, st1) \<and> (\<forall>b \<in> set blobs. m (blobHash b) = Some b)"
proof -
  obtain r1 where n: "NewChunkedBlobReceiver sha tempOk blobs cs st0 = (st1, Inr r1)"
    and t: "tReceiver t = Some r1" "tErr t = None" "tDone t = False"
    using assms(3) by (auto simp: newBlobReceiveSession_def split: prod.splits sum.splits)
  obtain c r0 where c: "normalizeBlobChunkSize cs = Inr c"
    and lp: "receiverLoop sha tempOk blobs \<lparr>rChunkSize = c, rBlobs = Map.empty,
      rWriters = Map.empty, rPending = 0, rErr = None, rDone = False\<rparr> st0 = (st1, Inr r0)"
    and r1: "r1 = (if rPending r0 = 0 then r0\<lparr>rDone := True\<rparr> else r0)"
    using n by (auto simp: NewChunkedBlobReceiver_def split: sum.splits prod.splits)
  have "recvInv sha \<lparr>rChunkSize = c, rBlobs = Map.empty, rWriters = Map.empty, rPending = 0,
      rErr = None, rDone = False\<rparr> st0"
    using assms(1) by (simp add: recvInv_def)
  from receiverLoop_inv [OF lp this] normalizeBlobChunkSize_Inr [OF c]
  have r0: "recvInv sha r0 st1" "rDone r0 = False"
    "\<forall>h. rBlobs r0 h = map_of (map (\<lambda>b. (blobHash b, b)) blobs) h" by simp_all
  have "rDone r1 \<longrightarrow> receiverDone r1" "recvInv sha r1 st1" "rBlobs r1 = rBlobs r0"
    using r0 by (auto simp: r1 receiverDone_def)
  then have "upInv sha (rBlobs r0) (t, st1)" using t by (auto simp: upInv_def)
  moreover have "rBlobs r0 (blobHash b) = Some b" if "b \<in> set blobs" for b
  proof -
    have "map_of (map (\<lambda>b. (blobHash b, b)) blobs) (blobHash b) = Some b"
    proof (rule map_of_is_SomeI)
      show "distinct (map fst (map (\<lambda>b. (blobHash b, b)) blobs))" using assms(2) by (simp add: comp_def)
      show "(blobHash b, b) \<in> set (map (\<lambda>b. (blobHash b, b)) blobs)"
        unfolding set_map by (rule image_eqI [OF refl that])
    qed
    then show ?thesis using r0(3) by simp
  qed
  ultimately show ?thesis by blast
qed

section \<open>Facts about the retries\<close>

lemma retryLoop_facts:
  assumes "retryLoop left env conn e0 tr = (tr', c, res)"
  shows "\<exists>calls closed delays. rtCalls tr' = rtCalls tr @ calls \<and> rtClosed tr' = rtClosed tr @ closed
      \<and> rtDelays tr' = rtDelays tr @ delays
      \<and> length calls \<le> left \<and> (calls \<noteq> [] \<longrightarrow> hd calls = conn \<and> (\<forall>x \<in> set (tl calls). x = None))
      \<and> (isOk res \<longrightarrow> length calls = length closed + 1) \<and> (\<not> isOk res \<longrightarrow> length calls = length closed)
      \<and> (\<forall>d \<in> set delays. d \<le> blobTransferRetryMax)
      \<and> (\<not> isOk res \<longrightarrow> c = None \<or> c = conn \<and> calls = [])"
  using assms
proof (induction left arbitrary: conn e0 tr)
  case 0
  then show ?case by auto
next
  case (Suc n)
  define e where "e = env (blobTransferMaxAttempts - n)"
  obtain nxt res1 where t: "aeTransfer e conn = (nxt, res1)" by fastforce
  have d: "retryDelay a \<le> blobTransferRetryMax" for a by (simp add: retryDelay_def)
  consider x where "aeCtx e = Some x" | u where "aeCtx e = None" "res1 = Inr u"
    | x where "aeCtx e = None" "res1 = Inl x"
      "\<not> isRetryableBlobTransferError (aeCtxDone e) x \<or> blobTransferMaxAttempts - n = blobTransferMaxAttempts"
    | x w where "aeCtx e = None" "res1 = Inl x" "aeWait e = Some w"
      "\<not> (\<not> isRetryableBlobTransferError (aeCtxDone e) x \<or> blobTransferMaxAttempts - n = blobTransferMaxAttempts)"
    | x where "aeCtx e = None" "res1 = Inl x" "aeWait e = None"
      "\<not> (\<not> isRetryableBlobTransferError (aeCtxDone e) x \<or> blobTransferMaxAttempts - n = blobTransferMaxAttempts)"
    by (cases "aeCtx e"; cases res1; cases "aeWait e") auto
  then show ?case
  proof cases
    case 1
    then have "tr' = tr" "c = conn" "res = Inl x" using Suc.prems by (simp_all add: e_def)
    then show ?thesis by (intro exI [of _ "[]"]) simp
  next
    case 2
    then have "tr' = tr\<lparr>rtCalls := rtCalls tr @ [conn]\<rparr>" "res = Inr ()"
      using Suc.prems t by (simp_all add: e_def)
    then show ?thesis
      by - (rule exI [of _ "[conn]"], rule exI [of _ "[]"], rule exI [of _ "[]"], simp)
  next
    case 3
    then have "tr' = tr\<lparr>rtCalls := rtCalls tr @ [conn], rtClosed := rtClosed tr @ [nxt]\<rparr>"
      "c = None" "res = Inl x"
      using Suc.prems t by (simp_all add: e_def)
    then show ?thesis
      by - (rule exI [of _ "[conn]"], rule exI [of _ "[nxt]"], rule exI [of _ "[]"], simp)
  next
    case 4
    then have "tr' = tr\<lparr>rtCalls := rtCalls tr @ [conn], rtClosed := rtClosed tr @ [nxt],
        rtDelays := rtDelays tr @ [retryDelay (blobTransferMaxAttempts - n)]\<rparr>" "c = None" "res = Inl w"
      using Suc.prems t by (simp_all add: e_def)
    then show ?thesis using d
      by - (rule exI [of _ "[conn]"], rule exI [of _ "[nxt]"],
          rule exI [of _ "[retryDelay (blobTransferMaxAttempts - n)]"], simp)
  next
    case 5
    let ?tr = "tr\<lparr>rtCalls := rtCalls tr @ [conn], rtClosed := rtClosed tr @ [nxt],
      rtDelays := rtDelays tr @ [retryDelay (blobTransferMaxAttempts - n)]\<rparr>"
    have "retryLoop n env None x ?tr = (tr', c, res)" using Suc.prems t 5 by (simp add: e_def)
    from Suc.IH [OF this] obtain calls closed delays where
      ih: "rtCalls tr' = rtCalls ?tr @ calls" "rtClosed tr' = rtClosed ?tr @ closed"
      "rtDelays tr' = rtDelays ?tr @ delays" "length calls \<le> n"
      "calls \<noteq> [] \<longrightarrow> hd calls = None \<and> (\<forall>x \<in> set (tl calls). x = None)"
      "isOk res \<longrightarrow> length calls = length closed + 1" "\<not> isOk res \<longrightarrow> length calls = length closed"
      "\<forall>d \<in> set delays. d \<le> blobTransferRetryMax" "\<not> isOk res \<longrightarrow> c = None \<or> c = None \<and> calls = []"
      by blast
    have "\<forall>x \<in> set calls. x = None" using ih(5) by (cases calls) auto
    then show ?thesis using ih d
      by - (rule exI [of _ "conn # calls"], rule exI [of _ "nxt # closed"],
          rule exI [of _ "retryDelay (blobTransferMaxAttempts - n) # delays"], auto)
  qed
qed

section \<open>Properties\<close>

text \<open>
  C9. An upload session that is done without an error is complete: whatever frames, good or
  bad, its connections delivered in whatever order, however often the watching goroutine
  looked and whether or not the run was cancelled, the store then holds every announced
  blob with its digest and size.
\<close>

theorem upload_session_complete:
  assumes "storeOk sha st0" "distinct (map blobHash blobs)"
    and "newBlobReceiveSession sha tempOk ctx sess token blobs chunkSize par st0 = (st1, Inr t1)"
    and "fold (uploadStep sha) evs (t1, st1) = (t, st)" "tDone t" "tErr t = None" "b \<in> set blobs"
  shows "holds sha st (blobHash b) (blobSize b)"
proof -
  obtain m where m: "upInv sha m (t1, st1)" "m (blobHash b) = Some b"
    using newReceive_inv [OF assms(1,2,3)] assms(7) by blast
  from upInv_run [OF m(1), of evs] assms(4) have "upInv sha m (t, st)" by simp
  then obtain r where r: "recvInv sha r st" "rBlobs r = m" "rErr r = None" "rPending r = 0"
    using assms(5,6) by (auto simp: upInv_def)
  then have "rWriters r (blobHash b) = None"
    using recvInv_noWriters [OF r(1,3)] by (simp add: noWriters_def)
  then show ?thesis using recvInvD(6) [OF r(1,3)] r(2) m(2) by blast
qed

text \<open>
  C10. A download session that is done without an error has sent everything: whichever
  requests its connections made, repeated, interleaved, cut off or failed, every planned
  chunk of every requested blob was written in full with the content of its source.
\<close>

theorem download_session_complete:
  assumes "prepareDownloadBlobItems workspace srcs changed need = Inr (items, ds)"
    and "PlanBlobChunks ds DefaultBlobChunkSize = Inr chunks"
    and "fold downloadStep evs (newBlobSendSession ctx sess token items (int (length chunks))
           DefaultBlobChunkSize par, []) = (t, out)"
    and "\<forall>env req h item. DServe env req \<in> set evs \<longrightarrow> items h = Some item \<longrightarrow>
           seFiles env (itemPath item) = Some (content h)"
    and "tDone t" "tErr t = None"
  shows "\<forall>i \<in> set chunks. (i, chunkPayload DefaultBlobChunkSize (content (chunkHash i)) i) \<in> set out"
proof
  fix i assume i: "i \<in> set chunks"
  let ?cs = DefaultBlobChunkSize
  have cs: "normalizeBlobChunkSize ?cs = Inr ?cs"
    by (simp add: normalizeBlobChunkSize_def DefaultBlobChunkSize_def MaxBlobChunkSize_def)
  obtain n where n: "planCheck ?cs {} 0 ds = Inr n" and ch: "chunks = concat (map (blobChunks ?cs) ds)"
    using assms(2) cs by (auto simp: PlanBlobChunks_def andThen_Inr_iff)
  have nn: "\<forall>b \<in> set ds. 0 \<le> blobSize b"
    using planCheck_facts [OF cs n] by (simp add: MaxBlobChunks_def)
  have its: "\<forall>h item. items h = Some item \<longrightarrow> 0 \<le> itemSize item
      \<and> set (blobChunks ?cs \<lparr>blobHash = h, blobSize = itemSize item\<rparr>) \<subseteq> set chunks"
    using downloadItems_facts [OF assms(1) [unfolded prepareDownloadBlobItems_def]] nn
    by (fastforce simp: ch)
  have "downInv ?cs items chunks content
      (newBlobSendSession ctx sess token items (int (length chunks)) ?cs par, [])"
    by (simp add: downInv_def newBlobSendSession_def)
  from downInv_run [OF cs this its assms(4)] have inv: "downInv ?cs items chunks content (t, out)"
    using assms(3) by simp
  let ?key = "\<lambda>i. (chunkHash i, chunkOffset i)"
  have sub: "tSent t \<subseteq> ?key ` set chunks" using inv by (auto simp: downInv_def)
  have "card (?key ` set chunks) \<le> card (tSent t)"
    using inv assms(5,6) card_image_le [of "set chunks" ?key] card_length [of chunks]
    by (simp add: downInv_def)
  then have "tSent t = ?key ` set chunks" by (intro card_seteq) (use sub in simp_all)
  then have "?key i \<in> tSent t" using i by blast
  then obtain j where j: "j \<in> set chunks" "?key j = ?key i"
    "(j, chunkPayload ?cs (content (chunkHash j)) j) \<in> set out"
    using inv unfolding downInv_def by fastforce
  have "j = i"
  proof -
    obtain b b' where b: "b \<in> set ds" "i \<in> set (blobChunks ?cs b)" "b' \<in> set ds" "j \<in> set (blobChunks ?cs b')"
      using i j(1) by (auto simp: ch)
    then have "blobHash b = blobHash b'" using blobChunks_hash j(2) by fastforce
    then have "b = b'"
      using planCheck_facts [OF cs n] b(1,3) by (simp add: MaxBlobChunks_def inj_on_def distinct_map)
    then show ?thesis
      using b j(2) nn blobChunks_mem [OF cs, of b] by (cases i; cases j) auto
  qed
  then show "(i, chunkPayload ?cs (content (chunkHash i)) i) \<in> set out" using j(3) by simp
qed

text \<open>
  A chunk is tried at most five times; only the first try uses the caller's connection,
  every later one starts without a connection and dials anew; the connection of every try
  that failed is closed, and only of those; and no pause is longer than two seconds.
\<close>

theorem retry_bounded:
  "retryBlobTransferChunk env conn = (tr, c, res) \<Longrightarrow>
   length (rtCalls tr) \<le> 5 \<and> (\<forall>x \<in> set (tl (rtCalls tr)). x = None)
   \<and> length (rtClosed tr) = length (rtCalls tr) - (if isOk res then 1 else 0)
   \<and> (\<forall>d \<in> set (rtDelays tr). d \<le> 2 * second)
   \<and> (\<not> isOk res \<longrightarrow> c = None \<or> c = conn \<and> rtCalls tr = [])"
  using retryLoop_facts [of blobTransferMaxAttempts env conn ConnLost noTrace tr c res]
  by (auto simp: retryBlobTransferChunk_def noTrace_def blobTransferMaxAttempts_def blobTransferRetryMax_def)

text \<open>The blob of five bytes uploaded in one chunk, and downloaded again.\<close>

lemma demo_received:
  "\<exists>r st. ReceiveChunk demoSha True None 7 (demoChunk 0) ''hello'' 5 (demoReceiver, emptyStore)
       = ((r, st), Inr ()) \<and> rErr r = None \<and> rPending r = 0 \<and> rDone r"
proof -
  have w: "rWriters demoReceiver (chunkHash (demoChunk 0)) = Some demoWriter"
    "rErr demoReceiver = None" "rPending demoReceiver = 1" "\<not> rDone demoReceiver"
    by (simp_all add: demoReceiver_def demoChunk_def)
  have s: "validateBlobChunkShape (demoChunk 0) (wHash demoWriter) (wSize demoWriter)
      (wChunkSize demoWriter) 5 = Inr ()"
    using demo_shape by (simp add: demoWriter_def)
  let ?w = "demoWriter\<lparr>wData := ''hello'', completed := [True], doneChunks := 1\<rparr>"
  have w1: "\<not> committed ?w" "wData ?w = ''hello''" "wHash ?w = demoHash" "wSize ?w = 5"
    by (simp_all add: demoWriter_def)
  have h: "Has demoSha demoHash 5 emptyStore = (emptyStore, False)"
    by (simp add: Has_def verifiedPath_def demo_hash emptyStore_def)
  have "\<exists>w2 st2. commitWriter demoSha None 7 ?w emptyStore = (w2, st2, Inr ())"
    unfolding commitWriter_def w1 h Let_def by (simp add: w1 demoSha_hello h)
  then obtain w2 st2 where c: "commitWriter demoSha None 7 ?w emptyStore = (w2, st2, Inr ())" by blast
  show ?thesis
    by (simp add: ReceiveChunk_def w s demo_written c closeDoneLocked_def Let_def)
qed

definition demoUpload :: blobTransferSession where
  "demoUpload = \<lparr>tContext = ''ctx'', tSession = ''s1'', tToken = ''tok'',
     tDirection = BlobTransferUpload, tChunkSize = 0, tParallel = 1, tReceiver = Some demoReceiver,
     tItems = Map.empty, tTotal = 0, tSent = {}, tErr = None, tDone = False\<rparr>"

lemma upload_session_complete_witness:
  "\<exists>t st. fold (uploadStep demoSha) [UFrame (UChunk (Some \<lparr>evWriteOk = True, evIO = None, evNow = 7,
       evInfo = demoChunk 0, evAvail = ''hello'', evLen = 5\<rparr>)), UWatch False] (demoUpload, emptyStore)
     = (t, st) \<and> tDone t \<and> tErr t = None \<and> holds demoSha st demoHash 5"
proof -
  let ?ev = "[UFrame (UChunk (Some \<lparr>evWriteOk = True, evIO = None, evNow = 7,
       evInfo = demoChunk 0, evAvail = ''hello'', evLen = 5\<rparr>)), UWatch False]"
  have n: "newBlobReceiveSession demoSha (\<lambda>_. True) ''ctx'' ''s1'' ''tok'' [demoBlob] 0 1 emptyStore
      = (emptyStore, Inr demoUpload)"
    by (simp add: newBlobReceiveSession_def demo_receiver demoUpload_def)
  obtain r st where r: "ReceiveChunk demoSha True None 7 (demoChunk 0) ''hello'' 5
      (demoReceiver, emptyStore) = ((r, st), Inr ())" "rErr r = None" "rPending r = 0" "rDone r"
    using demo_received by blast
  have u: "tReceiver demoUpload = Some demoReceiver" "tErr demoUpload = None" "\<not> tDone demoUpload"
    by (simp_all add: demoUpload_def)
  define t where "t = demoUpload\<lparr>tReceiver := Some r, tDone := True\<rparr>"
  have run: "fold (uploadStep demoSha) ?ev (demoUpload, emptyStore) = (t, st)"
    using r u by (simp add: uploadStep_def handleReceiveBlobTransferFrame_def
        receiveBlobTransferChunk_def watchReceiver_def waitReceiver_def completeTransfer_def Let_def t_def)
  have d: "tDone t" "tErr t = None" using u by (simp_all add: t_def)
  from upload_session_complete [OF emptyStore_ok _ n run d, of demoBlob] run d show ?thesis
    by (simp add: demoBlob_def)
qed

definition demoEntry :: entry where
  "demoEntry = \<lparr>Path = ''f'', Kind = KindFile, Hash = demoHash, Size = 5, Mode = 420,
     ModTime = 0, Linkname = []\<rparr>"

definition demoItem :: downloadBlobItem where
  "demoItem = \<lparr>itemHash = demoHash, itemPath = ''/ws/f'', itemSize = 5\<rparr>"

definition demoRequest :: blobTransferRequest where
  "demoRequest = \<lparr>brContext = ''ctx'', brSession = ''s1'', brToken = ''tok'',
     brDirection = BlobTransferDownload, brChunk = Some (demoChunk 0)\<rparr>"

definition demoSendEnv :: sendEnv where
  "demoSendEnv = \<lparr>seCtx = None, seFiles = [''/ws/f'' \<mapsto> ''hello''], seWrite = None\<rparr>"

lemma demo_hash_not_empty: "demoHash \<noteq> []"
  by (simp add: demoHash_def)

lemma download_session_complete_witness:
  "(demoChunk 0, ''hello'') \<in> set (snd (fold downloadStep [DServe demoSendEnv demoRequest]
     (newBlobSendSession ''ctx'' ''s1'' ''tok'' [demoHash \<mapsto> demoItem] 1 DefaultBlobChunkSize 1, [])))"
proof -
  let ?t0 = "newBlobSendSession ''ctx'' ''s1'' ''tok'' [demoHash \<mapsto> demoItem] 1 DefaultBlobChunkSize 1"
  have src: "pathJoin [''/ws'', ''f''] = ''/ws/f''" by code_simp
  have p: "prepareDownloadBlobItems ''/ws'' (\<lambda>_. []) [demoEntry] [demoHash]
      = Inr ([demoHash \<mapsto> demoItem], [demoBlob])"
    by (simp add: prepareDownloadBlobItems_def demoEntry_def demo_hash_not_empty demoItem_def src demoBlob_def)
  have cs: "normalizeBlobChunkSize DefaultBlobChunkSize = Inr DefaultBlobChunkSize"
    by (simp add: normalizeBlobChunkSize_def DefaultBlobChunkSize_def MaxBlobChunkSize_def)
  have off: "chunkOffsets DefaultBlobChunkSize 5 0 = [0]"
    by (simp add: chunkOffsets.simps DefaultBlobChunkSize_def)
  have pl: "PlanBlobChunks [demoBlob] DefaultBlobChunkSize = Inr [demoChunk 0]"
    by (simp add: PlanBlobChunks_def cs demoBlob_def demo_hash demo_size MaxBlobChunks_def blobChunks_def
        off demoChunk_def)
  have c0: "chunkHash (demoChunk 0) = demoHash" "chunkBlobSize (demoChunk 0) = 5"
    "chunkOffset (demoChunk 0) = 0" by (simp_all add: demoChunk_def)
  have len: "BlobChunkPayloadLen (demoChunk 0) DefaultBlobChunkSize = Inr 5"
    by (simp add: BlobChunkPayloadLen_def cs c0 DefaultBlobChunkSize_def [unfolded DefaultBlobChunkSize_def])
      (simp add: DefaultBlobChunkSize_def)
  have sl: "slice ''hello'' 0 5 = ''hello''" by (simp add: slice_def)
  have v: "validateSendBlobChunk (demoChunk 0) demoItem DefaultBlobChunkSize = Inr ()"
    by (simp add: validateSendBlobChunk_def c0 demoItem_def demo_size)
  have se: "sendBlobChunk demoSendEnv (demoChunk 0) ''/ws/f'' DefaultBlobChunkSize = Inr (demoChunk 0, ''hello'')"
    by (simp add: sendBlobChunk_def len demoSendEnv_def c0 sl)
  have step: "sendRequestedBlobChunk demoSendEnv demoRequest ?t0
      = (completeChunk (demoChunk 0) ?t0, Inr (demoChunk 0, ''hello''))"
    using se v by (simp add: sendRequestedBlobChunk_def newBlobSendSession_def validateTransfer_def
        demoRequest_def demoSendEnv_def c0 demoItem_def demo_hash_not_empty)
  have run: "fold downloadStep [DServe demoSendEnv demoRequest]
      (newBlobSendSession ''ctx'' ''s1'' ''tok'' [demoHash \<mapsto> demoItem] (int (length [demoChunk 0]))
        DefaultBlobChunkSize 1, []) = (completeChunk (demoChunk 0) ?t0, [(demoChunk 0, ''hello'')])"
    by (simp add: step)
  have d: "tDone (completeChunk (demoChunk 0) ?t0)" "tErr (completeChunk (demoChunk 0) ?t0) = None"
    by (simp_all add: completeChunk_def newBlobSendSession_def)
  have files: "\<forall>env req h item. DServe env req \<in> set [DServe demoSendEnv demoRequest] \<longrightarrow>
      [demoHash \<mapsto> demoItem] h = Some item \<longrightarrow> seFiles env (itemPath item) = Some ''hello''"
    by (auto simp: demoSendEnv_def demoItem_def split: if_splits)
  from download_session_complete [OF p pl run files d]
  have "(demoChunk 0, chunkPayload DefaultBlobChunkSize ''hello'' (demoChunk 0)) \<in> set [(demoChunk 0, ''hello'')]"
    by simp
  moreover have "chunkPayload DefaultBlobChunkSize ''hello'' (demoChunk 0) = ''hello''"
    by (simp add: chunkPayload_def len c0 sl)
  ultimately show ?thesis using run by simp
qed

lemma retry_bounded_witness:
  "length (rtCalls (fst (retryBlobTransferChunk
     (\<lambda>n. \<lparr>aeCtx = None, aeTransfer = (\<lambda>c. (c, Inl ConnLost)), aeCtxDone = False, aeWait = None\<rparr>)
     (Some True)))) = 5"
proof -
  let ?env = "\<lambda>n :: nat. \<lparr>aeCtx = None, aeTransfer = (\<lambda>c :: bool option. (c, Inl ConnLost)),
      aeCtxDone = False, aeWait = None\<rparr>"
  obtain tr c res where r: "retryBlobTransferChunk ?env (Some True) = (tr, c, res)" by (metis prod_cases3)
  have "5 \<le> length (rtCalls tr)"
    using r by (auto simp: retryBlobTransferChunk_def blobTransferMaxAttempts_def numeral_eq_Suc noTrace_def
        isRetryableBlobTransferError_def isDisconnectError_def Let_def)
  with retry_bounded [OF r] r show ?thesis by simp
qed

end
