(* ===== verification/RunCycle.thy ===== *)
theory RunCycle
  imports SyncStep HostSession Patterns BlobTransfer
begin

text \<open>
  The life of a workspace over runs (host/server.go, host/context\_store.go): a run brings the
  workspace from the manifest the host remembers to the manifest of the request, executes the
  command, sends what changed back to the client, and either cleans the workspace under a
  marker or keeps it as a lease with the manifest scanned after the command. What the command
  does to the tree, what the scan finds and which steps fail is the environment's choice.
\<close>

datatype cycleError =
    CyManifest ioError | CySetup | CyClean | CyPrepare blobError | CyWrite | CyWait waitError | CyApply applyError
  | CySave ioError | CyMarker | CyScan | CyBlob blobError | CyLease leaseError | CyMeta | CyRequest requestError
  | CyGate hostError | CyStorage

record runDisk =
  rdTree :: wsTree
  rdTracked :: "entry list jsonFile"
  rdMarker :: bool
  rdStore :: blobStore
  rdLeases :: leaseDisk

text \<open>
  What the environment decides before the command runs: the orders maps are visited in, the
  paths that cannot be removed and whether the workspace can be made again, the removal of the
  setup cache, the preparation of the upload, its course and end, the steps of applying, and
  the writes of the tracked manifest and of the marker.
\<close>

record syncEnv =
  syVisit :: "entry list \<Rightarrow> string list"
  syStuck :: "wsPath list"
  syRecreate :: bool
  sySetup :: bool
  syTempOk :: "string \<Rightarrow> bool"
  syCPU :: int
  syNonce :: "blobError + string"
  syTable :: transferTable
  syWriteNeed :: bool
  syUpload :: "blobTransferSession \<Rightarrow> blobStore \<Rightarrow> blobStore \<times> (waitError + unit)"
  syNow :: int
  syApply :: applyEnv
  syUndo :: applyEnv
  syOrder :: "applyTargets \<Rightarrow> wsPath list"
  sySave :: writeOutcome
  syMarker :: bool

section \<open>Cleaning and remembering\<close>

definition cleanTree :: "syncEnv \<Rightarrow> wsTree \<Rightarrow> wsTree \<times> (cycleError + unit)" where
  "cleanTree env t =
     (if syStuck env \<noteq> [] then (filter (\<lambda>(q, n). list_ex (below q) (syStuck env)) t, Inl CyClean)
      else if \<not> syRecreate env then ([], Inl CyClean)
      else ([([], WDir newDirMode)], Inr ()))"

text \<open>The marker first: an interrupted cleaning is finished by the next run.\<close>

definition cleanRunWorkspace :: "syncEnv \<Rightarrow> runDisk \<Rightarrow> runDisk \<times> (cycleError + unit)" where
  "cleanRunWorkspace env d =
     (if \<not> syMarker env then (d, Inl CyMarker)
      else let d1 = d\<lparr>rdMarker := True\<rparr> in
        if \<not> sySetup env then (d1, Inl CySetup)
        else (case cleanTree env (rdTree d1) of (t, r) \<Rightarrow> (d1\<lparr>rdTree := t\<rparr>, r)))"

definition currentManifestForRun :: "syncEnv \<Rightarrow> leaseState option \<Rightarrow> runDisk \<Rightarrow> runDisk \<times> (cycleError + entry list)" where
  "currentManifestForRun env lease d =
     (case lease of
        Some state \<Rightarrow> (d, Inr (WorkspaceManifest state))
      | None \<Rightarrow>
          (case readJSON [] (rdTracked d) of
             Inl e \<Rightarrow> (d, Inl (CyManifest e))
           | Inr current \<Rightarrow>
               if \<not> rdMarker d then (d, Inr current)
               else if \<not> sySetup env then (d, Inl CySetup)
               else (case cleanTree env (rdTree d) of
                 (t, Inl e) \<Rightarrow> (d\<lparr>rdTree := t\<rparr>, Inl e)
               | (t, Inr _) \<Rightarrow> (d\<lparr>rdTree := t\<rparr>, Inr []))))"

section \<open>From the client to the workspace\<close>

text \<open>The receiving session is registered while the client uploads and removed at the end.\<close>

definition startUpload ::
  "(string \<Rightarrow> string) \<Rightarrow> syncEnv \<Rightarrow> string \<Rightarrow> string \<Rightarrow> entry list \<Rightarrow> string list \<Rightarrow> blobStore \<Rightarrow>
   blobStore \<times> (blobError + blobTransferSession option)" where
  "startUpload sha env contextID session changed missing st =
     (if missing = [] then (st, Inr None)
      else case prepareBlobReceiveSession sha (syTempOk env) (syCPU env) (syNonce env) contextID session changed missing
          (syTable env, st) of
        ((tab, st'), Inl e) \<Rightarrow> (st', Inl e)
      | ((tab, st'), Inr t) \<Rightarrow> (st', Inr (Some t)))"

definition syncContextFromClient ::
  "(string \<Rightarrow> string) \<Rightarrow> syncEnv \<Rightarrow> string \<Rightarrow> string \<Rightarrow> entry list \<Rightarrow> entry list \<Rightarrow> waitFrame list \<Rightarrow> runDisk \<Rightarrow>
   runDisk \<times> waitFrame list \<times> (cycleError + unit)" where
  "syncContextFromClient sha env contextID session current target fs d =
     (case Diff (syVisit env target) (syVisit env current) current target False of
        (changed, deleted) \<Rightarrow>
          (case MissingHashes sha changed (rdStore d) of
             (st1, missing) \<Rightarrow>
               (case startUpload sha env contextID session changed missing st1 of
                  (st2, Inl e) \<Rightarrow> (d\<lparr>rdStore := st2\<rparr>, fs, Inl (CyPrepare e))
                | (st2, Inr transfer) \<Rightarrow>
                    if \<not> syWriteNeed env then (d\<lparr>rdStore := st2\<rparr>, fs, Inl CyWrite)
                    else (case (case transfer of
                        None \<Rightarrow> (st2, None)
                      | Some t \<Rightarrow> (case syUpload env t st2 of (st3, r) \<Rightarrow> (st3, Some r))) of
                      (st3, ended) \<Rightarrow>
                        (case waitForClientBlobTransfer ended fs of
                           (fs', Inl e) \<Rightarrow> (d\<lparr>rdStore := st3\<rparr>, fs', Inl (CyWait e))
                         | (fs', Inr _) \<Rightarrow>
                             (case ApplyChanges sha (syNow env) (syApply env) (syUndo env) (syOrder env) changed deleted
                                 (Some st3) (rdTree d) of
                                (t', store', r) \<Rightarrow>
                                  (d\<lparr>rdTree := t', rdStore := (case store' of None \<Rightarrow> st3 | Some st4 \<Rightarrow> st4)\<rparr>, fs',
                                   case r of Inl e \<Rightarrow> Inl (CyApply e) | Inr _ \<Rightarrow> Inr ())))))))"

definition syncClientManifestAndSave ::
  "(string \<Rightarrow> string) \<Rightarrow> syncEnv \<Rightarrow> runRequest \<Rightarrow> leaseState option \<Rightarrow> waitFrame list \<Rightarrow> runDisk \<Rightarrow>
   runDisk \<times> waitFrame list \<times> (cycleError + unit)" where
  "syncClientManifestAndSave sha env rq lease fs d =
     (case currentManifestForRun env lease d of
        (d1, Inl e) \<Rightarrow> (d1, fs, Inl e)
      | (d1, Inr current) \<Rightarrow>
          (case syncContextFromClient sha env (rqContextID rq) (rqSession rq) current (rqManifest rq) fs d1 of
             (d2, fs', Inl e) \<Rightarrow> (d2, fs', Inl e)
           | (d2, fs', Inr _) \<Rightarrow>
               if lease \<noteq> None then (d2, fs', Inr ())
               else (case writeJSONAtomically (sySave env) (rqManifest rq) (rdTracked d2) of
                 (f, Inl e) \<Rightarrow> (d2\<lparr>rdTracked := f\<rparr>, fs', Inl (CySave e))
               | (f, Inr _) \<Rightarrow>
                   if syMarker env then (d2\<lparr>rdTracked := f, rdMarker := False\<rparr>, fs', Inr ())
                   else (d2\<lparr>rdTracked := f\<rparr>, fs', Inl CyMarker))))"

section \<open>From the workspace to the client\<close>

record finishEnv =
  fyRun :: "wsTree \<Rightarrow> wsTree \<times> int \<times> runError option"
  fyWriteError :: bool
  fyWriteExit :: bool
  fyScan :: "wsTree \<Rightarrow> (entry list \<times> (string \<Rightarrow> string)) option"
  fyWindows :: bool
  fyWriteChanges :: bool
  fyWriteTransfer :: "blobError option"
  fyNonce :: "blobError + string"
  fyStoreIO :: "string \<Rightarrow> blobError option"
  fyClone :: "string \<Rightarrow> string option"
  fyRead :: "string \<Rightarrow> blobError + string"
  fySyncFirst :: bool
  fyTransferEnd :: "waitError + unit"
  fySave :: writeOutcome
  fyWide :: "nat \<Rightarrow> bool"
  fyLeaseIO :: leaseOutcomes
  fyGoNow :: go_time
  fyMeta :: bool
  fyWriteDone :: bool

definition diffWorkspaceChanges ::
  "(entry list \<Rightarrow> string list) \<Rightarrow> entry list \<Rightarrow> entry list \<Rightarrow> string list option \<Rightarrow> bool \<Rightarrow> entry list \<times> string list" where
  "diffWorkspaceChanges visit before after syncBack ignoreMode =
     (let a = FilterEntriesByPath after syncBack; b = FilterEntriesByPath before syncBack in
      Diff (visit a) (visit b) b a ignoreMode)"

definition sendWorkspaceChanges ::
  "(string \<Rightarrow> string) \<Rightarrow> syncEnv \<Rightarrow> finishEnv \<Rightarrow> string \<Rightarrow> string \<Rightarrow> string \<Rightarrow> (string \<Rightarrow> string) \<Rightarrow> entry list \<Rightarrow>
   entry list \<Rightarrow> string list option \<Rightarrow> bool \<Rightarrow> waitFrame list \<Rightarrow> runDisk \<Rightarrow>
   runDisk \<times> waitFrame list \<times> (cycleError + entry list \<times> string list)" where
  "sendWorkspaceChanges sha env fenv contextID session workspace sources before after syncBack ignoreMode fs d =
     (case diffWorkspaceChanges (syVisit env) before after syncBack ignoreMode of
        (changed, deleted) \<Rightarrow>
          if \<not> fyWriteChanges fenv then (d, fs, Inl CyWrite)
          else (case readClientNeedBlobs fs of
            (fs1, Inl e) \<Rightarrow> (d, fs1, Inl (CyWait e))
          | (fs1, Inr need) \<Rightarrow>
              (case sendChangedFileBlobs (syCPU env) (fyNonce fenv) (fyWriteTransfer fenv) contextID session workspace
                  sources changed need (syTable env) of
                 (tab, transfer, Inl e) \<Rightarrow> (d, fs1, Inl (CyBlob e))
               | (tab, transfer, Inr _) \<Rightarrow>
                   (case storeChangedFileBlobs sha (fyStoreIO fenv) (syNow env) (fyClone fenv) (fyRead fenv) workspace
                       sources {} changed (rdStore d) of
                      (st, Inl e) \<Rightarrow> (d\<lparr>rdStore := st\<rparr>, fs1, Inl (CyBlob e))
                    | (st, Inr _) \<Rightarrow>
                        (case waitForClientSyncCompleteAndBlobTransfer (fySyncFirst fenv)
                            (case transfer of None \<Rightarrow> None | Some t \<Rightarrow> Some (fyTransferEnd fenv)) fs1 of
                           (fs2, Inl e) \<Rightarrow> (d\<lparr>rdStore := st\<rparr>, fs2, Inl (CyWait e))
                         | (fs2, Inr _) \<Rightarrow> (d\<lparr>rdStore := st\<rparr>, fs2, Inr (changed, deleted)))))))"

text \<open>On Windows modes mean nothing and links may be missing from the scan.\<close>

definition postRunEntries :: "bool \<Rightarrow> entry list \<Rightarrow> entry list \<Rightarrow> entry list" where
  "postRunEntries windows manifest scanned =
     (if windows then PreserveMissingEntries (NormalizeModes scanned manifest) manifest KindSymlink else scanned)"

definition savePostRunWorkspaceState ::
  "finishEnv \<Rightarrow> duration \<Rightarrow> string \<Rightarrow> leaseState option \<Rightarrow> entry list \<Rightarrow> runDisk \<Rightarrow> runDisk \<times> (cycleError + unit)" where
  "savePostRunWorkspaceState fenv keep session lease post d =
     (case lease of
        Some state \<Rightarrow>
          (case finalizeWorkspaceLease (fyWide fenv) (fyLeaseIO fenv) (fyGoNow fenv) keep session post state (rdLeases d) of
             (dsk, _, r) \<Rightarrow> (d\<lparr>rdLeases := dsk\<rparr>, case r of Inl e \<Rightarrow> Inl (CyLease e) | Inr _ \<Rightarrow> Inr ()))
      | None \<Rightarrow>
          (case writeJSONAtomically (fySave fenv) post (rdTracked d) of
             (f, r) \<Rightarrow> (d\<lparr>rdTracked := f\<rparr>, case r of Inl e \<Rightarrow> Inl (CySave e) | Inr _ \<Rightarrow> Inr ())))"

definition finishRunWorkspace :: "syncEnv \<Rightarrow> leaseState option \<Rightarrow> runDisk \<Rightarrow> runDisk \<times> (cycleError + unit)" where
  "finishRunWorkspace env lease d = (if lease = None then cleanRunWorkspace env d else (d, Inr ()))"

definition executeAndSyncRun ::
  "(string \<Rightarrow> string) \<Rightarrow> syncEnv \<Rightarrow> finishEnv \<Rightarrow> string \<Rightarrow> duration \<Rightarrow> runRequest \<Rightarrow> leaseState option \<Rightarrow> waitFrame list \<Rightarrow>
   runDisk \<Rightarrow> runDisk \<times> waitFrame list \<times> (cycleError + int \<times> entry list \<times> string list)" where
  "executeAndSyncRun sha env fenv workspace keep rq lease fs d =
     (case fyRun fenv (rdTree d) of
        (t, code, runErr) \<Rightarrow>
          let d1 = d\<lparr>rdTree := t\<rparr> in
          if writeUserVisibleRunError runErr \<noteq> [] \<and> \<not> fyWriteError fenv then (d1, fs, Inl CyWrite)
          else if \<not> fyWriteExit fenv then (d1, fs, Inl CyWrite)
          else (case fyScan fenv t of
            None \<Rightarrow> (d1, fs, Inl CyScan)
          | Some (scanned, sources) \<Rightarrow>
              (let post = postRunEntries (fyWindows fenv) (rqManifest rq) scanned in
               case sendWorkspaceChanges sha env fenv (rqContextID rq) (rqSession rq) workspace sources (rqManifest rq) post
                   (rqSyncBack rq) (fyWindows fenv) fs d1 of
                 (d2, fs2, Inl e) \<Rightarrow> (d2, fs2, Inl e)
               | (d2, fs2, Inr sent) \<Rightarrow>
                   (case savePostRunWorkspaceState fenv keep (rqSession rq) lease post d2 of
                      (d3, Inl e) \<Rightarrow> (d3, fs2, Inl e)
                    | (d3, Inr _) \<Rightarrow>
                        if \<not> fyMeta fenv then (d3, fs2, Inl CyMeta)
                        else (case finishRunWorkspace env lease d3 of
                          (d4, Inl e) \<Rightarrow> (d4, fs2, Inl e)
                        | (d4, Inr _) \<Rightarrow>
                            if fyWriteDone fenv then (d4, fs2, Inr (code, sent)) else (d4, fs2, Inl CyWrite))))))"

section \<open>Facts\<close>

text \<open>
  What the host remembers fits the workspace, or a marker says that nothing is to be kept of it.
\<close>

definition cycleInv :: "(string \<Rightarrow> string) \<Rightarrow> runDisk \<Rightarrow> bool" where
  "cycleInv sha d \<longleftrightarrow>
     rdMarker d \<or> treeOk (rdTree d) \<and>
       (case readJSON [] (rdTracked d) of Inl e \<Rightarrow> True | Inr m \<Rightarrow> manifestOk m \<and> agrees sha False (rdTree d) m)"

text \<open>The environment as a sync needs it: map orders, the depth order, an upload that keeps the store sound.\<close>

definition syncEnvOk :: "(string \<Rightarrow> string) \<Rightarrow> syncEnv \<Rightarrow> entry list \<Rightarrow> entry list \<Rightarrow> bool" where
  "syncEnvOk sha env current target \<longleftrightarrow>
     visits (syVisit env target) target \<and> visits (syVisit env current) current
     \<and> (case Diff (syVisit env target) (syVisit env current) current target False of (c, d) \<Rightarrow> orderOk (syOrder env) c d)
     \<and> (\<forall>t st. storeOk sha st \<longrightarrow> storeOk sha (fst (syUpload env t st)))"

definition rememberedManifest :: "leaseState option \<Rightarrow> runDisk \<Rightarrow> entry list" where
  "rememberedManifest lease d =
     (case lease of
        Some state \<Rightarrow> WorkspaceManifest state
      | None \<Rightarrow> if rdMarker d then [] else (case readJSON [] (rdTracked d) of Inl e \<Rightarrow> [] | Inr m \<Rightarrow> m))"

lemma missingLoop_ok: "storeOk sha st \<Longrightarrow> storeOk sha (fst (missingLoop sha seen es st))"
proof (induction es arbitrary: seen st)
  case (Cons e es)
  show ?case
  proof (cases "Kind e \<noteq> KindFile \<or> Hash e = [] \<or> Hash e \<in> seen")
    case False
    obtain st1 b where h: "Has sha (Hash e) (Size e) st = (st1, b)" by fastforce
    have "storeOk sha st1" using Has_facts [OF Cons.prems h] by simp
    then have "storeOk sha (fst (missingLoop sha (insert (Hash e) seen) es st1))" by (rule Cons.IH)
    then show ?thesis using False h by (cases "missingLoop sha (insert (Hash e) seen) es st1") (simp add: Let_def)
  qed (use Cons in auto)
qed simp

lemma receiverLoop_ok: "storeOk sha st \<Longrightarrow> storeOk sha (fst (receiverLoop sha tempOk bs r st))"
proof (induction bs arbitrary: r st)
  case (Cons b bs)
  obtain st1 has where h: "Has sha (blobHash b) (blobSize b) st = (st1, has)" by fastforce
  have "storeOk sha st1" using Has_facts [OF Cons.prems h] by simp
  then show ?case using Cons.IH Cons.prems h by (auto simp: Let_def split: sum.splits)
qed simp

lemma startUpload_ok:
  assumes "storeOk sha st" "startUpload sha env contextID session changed missing st = (st', r)"
  shows "storeOk sha st'"
proof -
  have new: "storeOk sha (fst (NewChunkedBlobReceiver sha tempOk blobs cs st))" for tempOk blobs cs
    using receiverLoop_ok [OF assms(1)] assms(1)
    by (auto simp: NewChunkedBlobReceiver_def split: sum.splits prod.splits) (metis fst_conv)+
  have ses: "storeOk sha (fst (newBlobReceiveSession sha tempOk c s tok blobs cs par st))" for tempOk c s tok blobs cs par
    using new [of tempOk blobs cs] by (auto simp: newBlobReceiveSession_def split: sum.splits prod.splits)
  have "storeOk sha (snd (fst (prepareBlobReceiveSession sha tempOk cpu nonce c s changed missing (tab, st))))"
    for tempOk cpu nonce c s tab
  proof (cases "andThen nonce (\<lambda>token. andThen (blobDescriptorsForHashes changed missing) (\<lambda>ds.
             andThen (PlanBlobChunks ds DefaultBlobChunkSize) (\<lambda>chunks. Inr (token, ds, chunks))))")
    case (Inl e)
    then show ?thesis using assms(1) by (simp add: prepareBlobReceiveSession_def)
  next
    case (Inr x)
    obtain token ds chunks where x: "x = (token, ds, chunks)" by (cases x) auto
    show ?thesis
      using ses [of tempOk c s token ds DefaultBlobChunkSize "transferParallelism cpu (int (length chunks))"] Inr x
      by (auto simp: prepareBlobReceiveSession_def split: sum.splits prod.splits)
  qed
  then show ?thesis using assms by (auto simp: startUpload_def split: if_splits prod.splits sum.splits) (metis fst_conv snd_conv)+
qed

lemma cleanTree_ok: "cleanTree env t = (t', Inr u) \<Longrightarrow> t' = [([], WDir newDirMode)]"
  by (auto simp: cleanTree_def split: if_splits)

lemma empty_tree: "treeOk [([], WDir m)]" "agrees sha im [([], WDir m)] []"
  by (auto simp: treeOk_def agrees_def split: if_splits)

lemma current_facts:
  assumes "currentManifestForRun env lease d = (d1, Inr current)"
    and "case lease of None \<Rightarrow> cycleInv sha d
      | Some state \<Rightarrow> treeOk (rdTree d) \<and> manifestOk (WorkspaceManifest state) \<and> agrees sha False (rdTree d) (WorkspaceManifest state)"
  shows "current = rememberedManifest lease d \<and> rdStore d1 = rdStore d \<and> rdTracked d1 = rdTracked d
    \<and> treeOk (rdTree d1) \<and> manifestOk current \<and> agrees sha False (rdTree d1) current"
proof (cases lease)
  case (Some state)
  then show ?thesis using assms by (simp add: currentManifestForRun_def rememberedManifest_def)
next
  case None
  obtain m where m: "readJSON [] (rdTracked d) = Inr m"
    using assms(1) None by (auto simp: currentManifestForRun_def split: sum.splits)
  show ?thesis
  proof (cases "rdMarker d")
    case False
    then show ?thesis using assms None m by (simp add: currentManifestForRun_def rememberedManifest_def cycleInv_def)
  next
    case True
    obtain t r where c: "cleanTree env (rdTree d) = (t, r)" by fastforce
    then obtain u where "r = Inr u" "sySetup env"
      using assms(1) None m True by (cases r) (auto simp: currentManifestForRun_def split: if_splits)
    then have "t = [([], WDir newDirMode)]" using cleanTree_ok c by simp
    then show ?thesis
      using assms(1) None m True c \<open>r = Inr u\<close> \<open>sySetup env\<close> empty_tree
      by (auto simp: currentManifestForRun_def rememberedManifest_def manifestOk_def)
  qed
qed

lemma syncContext_facts:
  assumes run: "syncContextFromClient sha env contextID session current target fs d = (d', fs', Inr u)"
    and env: "syncEnvOk sha env current target" and m: "manifestOk current" "manifestOk target"
    and d: "treeOk (rdTree d)" "agrees sha False (rdTree d) current" "storeOk sha (rdStore d)"
  shows "agrees sha False (rdTree d') target \<and> treeOk (rdTree d') \<and> rdTracked d' = rdTracked d \<and> rdMarker d' = rdMarker d"
proof -
  obtain changed deleted where diff: "Diff (syVisit env target) (syVisit env current) current target False = (changed, deleted)"
    by fastforce
  obtain st1 missing where miss: "MissingHashes sha changed (rdStore d) = (st1, missing)" by fastforce
  have s1: "storeOk sha st1" using missingLoop_ok [OF d(3)] miss by (metis MissingHashes_def fst_conv)
  obtain st2 tr where up: "startUpload sha env contextID session changed missing st1 = (st2, tr)" by fastforce
  have s2: "storeOk sha st2" by (rule startUpload_ok [OF s1 up])
  obtain transfer where tr: "tr = Inr transfer"
    using run diff miss up by (cases tr) (auto simp: syncContextFromClient_def)
  obtain st3 ended where e: "(case transfer of None \<Rightarrow> (st2, None) | Some t \<Rightarrow> (case syUpload env t st2 of (st3, r) \<Rightarrow> (st3, Some r))) = (st3, ended)"
    by fastforce
  have s3: "storeOk sha st3"
  proof (cases transfer)
    case (Some t)
    have "storeOk sha (fst (syUpload env t st2))" using env s2 unfolding syncEnvOk_def by blast
    then show ?thesis using e Some by (cases "syUpload env t st2") simp
  qed (use e s2 in simp)
  have w: "syWriteNeed env" using run diff miss up tr by (auto simp: syncContextFromClient_def split: if_splits)
  obtain fr wr where wait: "waitForClientBlobTransfer ended fs = (fr, wr)" by fastforce
  obtain v where wr: "wr = Inr v"
    using run diff miss up tr e w wait by (cases wr) (auto simp: syncContextFromClient_def)
  obtain t' store' ar where ap: "ApplyChanges sha (syNow env) (syApply env) (syUndo env) (syOrder env) changed deleted
      (Some st3) (rdTree d) = (t', store', ar)" by (metis prod_cases3)
  have res: "ar = Inr () \<and> rdTree d' = t' \<and> rdTracked d' = rdTracked d \<and> rdMarker d' = rdMarker d"
    using run diff miss up tr e w wait wr ap by (cases ar) (auto simp: syncContextFromClient_def)
  have env': "visits (syVisit env target) target" "visits (syVisit env current) current" "orderOk (syOrder env) changed deleted"
    using env diff by (auto simp: syncEnvOk_def)
  have "agrees sha False t' target"
    by (rule sync_step [OF diff env'(1,2) m d(1,2) s3 env'(3)]) (use ap res in simp)
  moreover have "treeOk t'" by (rule sync_step_tree [OF diff env'(1,2) m d(1) env'(3)]) (use ap res in simp)
  ultimately show ?thesis using res by simp
qed

lemma syncManifest_facts:
  assumes run: "syncClientManifestAndSave sha env rq lease fs d = (d', fs', Inr ())"
    and env: "syncEnvOk sha env (rememberedManifest lease d) (rqManifest rq)" and m: "manifestOk (rqManifest rq)"
    and st: "storeOk sha (rdStore d)"
    and inv: "case lease of None \<Rightarrow> cycleInv sha d
      | Some state \<Rightarrow> treeOk (rdTree d) \<and> manifestOk (WorkspaceManifest state) \<and> agrees sha False (rdTree d) (WorkspaceManifest state)"
  shows "agrees sha False (rdTree d') (rqManifest rq) \<and> treeOk (rdTree d')
    \<and> (lease = None \<longrightarrow> rdTracked d' = Stored (rqManifest rq) \<and> \<not> rdMarker d')"
proof -
  obtain d1 cr where c: "currentManifestForRun env lease d = (d1, cr)" by fastforce
  obtain current where cr: "cr = Inr current"
    using run c by (cases cr) (auto simp: syncClientManifestAndSave_def)
  note cf = current_facts [OF c [unfolded cr] inv]
  obtain d2 fs2 sr where s: "syncContextFromClient sha env (rqContextID rq) (rqSession rq) current (rqManifest rq) fs d1 = (d2, fs2, sr)"
    by (metis prod_cases3)
  obtain u where sr: "sr = Inr u" using run c cr s by (cases sr) (auto simp: syncClientManifestAndSave_def)
  have sf: "agrees sha False (rdTree d2) (rqManifest rq) \<and> treeOk (rdTree d2)"
  proof -
    have a: "syncEnvOk sha env current (rqManifest rq)" "manifestOk current" "treeOk (rdTree d1)"
        "agrees sha False (rdTree d1) current" "storeOk sha (rdStore d1)"
      using cf env st by auto
    show ?thesis using syncContext_facts [OF s [unfolded sr] a(1,2) m a(3-5)] by simp
  qed
  obtain f wr where w: "writeJSONAtomically (sySave env) (rqManifest rq) (rdTracked d2) = (f, wr)" by fastforce
  show ?thesis
  proof (cases "lease = None")
    case False
    then show ?thesis using run c cr s sr sf by (auto simp: syncClientManifestAndSave_def)
  next
    case True
    then obtain v where wr: "wr = Inr v" "syMarker env"
      using run c cr s sr w by (cases wr) (auto simp: syncClientManifestAndSave_def split: if_splits)
    then have "d' = d2\<lparr>rdTracked := f, rdMarker := False\<rparr>"
      using run c cr s sr w True by (simp add: syncClientManifestAndSave_def)
    then show ?thesis using sf writeJSON_ok [OF w [unfolded wr(1)]] by simp
  qed
qed

lemma sendWorkspaceChanges_tree:
  "sendWorkspaceChanges sha env fenv contextID session workspace sources before after syncBack im fs d = (d', fs', r) \<Longrightarrow>
   rdTree d' = rdTree d \<and> rdTracked d' = rdTracked d \<and> rdMarker d' = rdMarker d \<and> rdLeases d' = rdLeases d"
  by (auto simp: sendWorkspaceChanges_def split: prod.splits sum.splits if_splits)

lemma saveLease_done:
  assumes "saveWorkspaceLease wide w1 w2 state dsk = (dsk', Inr u)"
  shows "metaFile (leaseDirOf dsk' (LeaseID state)) = Stored (leaseMeta state)
    \<and> manifestFile (leaseDirOf dsk' (LeaseID state)) = Stored (WorkspaceManifest state)"
  using assms
  by (auto simp: saveWorkspaceLease_def Let_def leaseDirOf_def split: sum.splits prod.splits dest!: writeJSON_ok)

lemma finalize_done:
  assumes "finalizeWorkspaceLease wide io now keep session post state dsk = (dsk', state', Inr u)"
  shows "\<exists>meta. metaFile (leaseDirOf dsk' (LeaseID state)) = Stored meta \<and> \<not> Dirty meta
    \<and> manifestFile (leaseDirOf dsk' (LeaseID state)) = Stored post"
proof -
  obtain dsk1 r where s: "saveWorkspaceLease wide (metaWrite io) (manifestWrite io) state' dsk = (dsk1, r)" by fastforce
  have st: "LeaseID state' = LeaseID state" "\<not> Dirty state'" "WorkspaceManifest state' = post"
    using assms by (auto simp: finalizeWorkspaceLease_def Let_def split: prod.splits if_splits)
  have "dsk1 = dsk' \<and> r = Inr u" using assms s by (auto simp: finalizeWorkspaceLease_def Let_def split: prod.splits)
  then show ?thesis using saveLease_done [of wide _ _ state' dsk dsk' u] s st
    by (auto simp: leaseMeta_def leaseMetadata.truncate_def)
qed

lemma executeAndSync_done:
  assumes run: "executeAndSyncRun sha env fenv workspace keep rq lease fs d = (d', fs', Inr res)"
  shows "case lease of
      None \<Rightarrow> rdMarker d' \<and> rdTree d' = [([], WDir newDirMode)]
    | Some state \<Rightarrow> rdTree d' = fst (fyRun fenv (rdTree d))
        \<and> (\<exists>scanned sources meta. fyScan fenv (rdTree d') = Some (scanned, sources)
          \<and> metaFile (leaseDirOf (rdLeases d') (LeaseID state)) = Stored meta \<and> \<not> Dirty meta
          \<and> manifestFile (leaseDirOf (rdLeases d') (LeaseID state)) =
              Stored (postRunEntries (fyWindows fenv) (rqManifest rq) scanned))"
proof -
  obtain t code e where f: "fyRun fenv (rdTree d) = (t, code, e)" by (metis prod_cases3)
  let ?d1 = "d\<lparr>rdTree := t\<rparr>"
  have w: "\<not> (writeUserVisibleRunError e \<noteq> [] \<and> \<not> fyWriteError fenv)" "fyWriteExit fenv"
    using run f by (auto simp: executeAndSyncRun_def Let_def split: if_splits)
  obtain scanned sources where sc: "fyScan fenv t = Some (scanned, sources)"
    using run f w by (cases "fyScan fenv t") (auto simp: executeAndSyncRun_def Let_def)
  let ?post = "postRunEntries (fyWindows fenv) (rqManifest rq) scanned"
  obtain d2 fs2 sr where s: "sendWorkspaceChanges sha env fenv (rqContextID rq) (rqSession rq) workspace sources (rqManifest rq) ?post
      (rqSyncBack rq) (fyWindows fenv) fs ?d1 = (d2, fs2, sr)" by (metis prod_cases3)
  obtain sent where sr: "sr = Inr sent" using run f w sc s by (cases sr) (auto simp: executeAndSyncRun_def Let_def)
  obtain d3 pr where p: "savePostRunWorkspaceState fenv keep (rqSession rq) lease ?post d2 = (d3, pr)" by fastforce
  obtain u where pr: "pr = Inr u" using run f w sc s sr p by (cases pr) (auto simp: executeAndSyncRun_def Let_def)
  have m: "fyMeta fenv" using run f w sc s sr p pr by (auto simp: executeAndSyncRun_def Let_def split: if_splits)
  obtain d4 qr where q: "finishRunWorkspace env lease d3 = (d4, qr)" by fastforce
  have d4: "d' = d4" "qr = Inr ()"
    using run f w sc s sr p pr m q by (cases qr; auto simp: executeAndSyncRun_def Let_def split: if_splits)+
  show ?thesis
  proof (cases lease)
    case None
    then show ?thesis
      using q d4 by (auto simp: finishRunWorkspace_def cleanRunWorkspace_def Let_def split: if_splits prod.splits dest: cleanTree_ok)
  next
    case (Some state)
    obtain dsk st' r where fin: "finalizeWorkspaceLease (fyWide fenv) (fyLeaseIO fenv) (fyGoNow fenv) keep (rqSession rq) ?post
        state (rdLeases d2) = (dsk, st', r)" by (metis prod_cases3)
    have r: "r = Inr ()" "d3 = d2\<lparr>rdLeases := dsk\<rparr>"
      using p pr Some fin by (cases r; auto simp: savePostRunWorkspaceState_def)+
    have "d' = d3" using q d4 Some by (simp add: finishRunWorkspace_def)
    then show ?thesis
      using Some finalize_done [OF fin [unfolded r(1)]] r(2) sendWorkspaceChanges_tree [OF s] sc f by auto
  qed
qed

section \<open>A run request\<close>

record hostRuns =
  hsGate :: restartGate
  hsLocks :: leaseLocks
  hsDisk :: runDisk
  hsTrees :: "string \<rightharpoonup> wsTree"

text \<open>Storage, context and runtime as the steps they are here: possible or not.\<close>

record requestEnv =
  qyParse :: "string \<Rightarrow> duration option"
  qyStorage :: bool
  qyRuntime :: bool
  qyReady :: bool
  qyLeaseIO :: leaseOutcomes
  qyRemains :: "string \<Rightarrow> leaseDir option"
  qyIDs :: "string list"
  qyNow :: go_time
  qyWorkspace :: string

definition keepDuration :: "requestEnv \<Rightarrow> runRequest \<Rightarrow> duration" where
  "keepDuration qenv rq = (case parseWorkspaceKeepDuration (qyParse qenv) (rqKeep rq) of Inl e \<Rightarrow> 0 | Inr d \<Rightarrow> d)"

text \<open>The part of a run with its workspace: the sync, the command, and what an error leaves of a lease.\<close>

definition runInWorkspace ::
  "(string \<Rightarrow> string) \<Rightarrow> syncEnv \<Rightarrow> finishEnv \<Rightarrow> requestEnv \<Rightarrow> runRequest \<Rightarrow> leaseState option \<Rightarrow> waitFrame list \<Rightarrow>
   runDisk \<Rightarrow> runDisk \<times> waitFrame list \<times> (cycleError + int \<times> entry list \<times> string list)" where
  "runInWorkspace sha env fenv qenv rq lease fs d =
     (if \<not> qyRuntime qenv then (d, fs, Inl CyStorage)
      else case syncClientManifestAndSave sha env rq lease fs d of
        (d1, fs1, Inl e) \<Rightarrow> (d1, fs1, Inl e)
      | (d1, fs1, Inr _) \<Rightarrow>
          if \<not> qyReady qenv then (d1, fs1, Inl CyWrite)
          else (case executeAndSyncRun sha env fenv (qyWorkspace qenv) (keepDuration qenv rq) rq lease fs1 d1 of
            (d2, fs2, Inl e) \<Rightarrow>
              (case lease of
                 None \<Rightarrow> d2
               | Some state \<Rightarrow> d2\<lparr>rdLeases := markWorkspaceLeaseDirty (fyWide fenv) (fyLeaseIO fenv) (fyGoNow fenv) state (rdLeases d2)\<rparr>,
               fs2, Inl e)
          | (d2, fs2, Inr r) \<Rightarrow> (d2, fs2, Inr r)))"

text \<open>A leased workspace is a tree of its own; the lease is given back at the end of the run.\<close>

definition runPrepared ::
  "(string \<Rightarrow> string) \<Rightarrow> syncEnv \<Rightarrow> finishEnv \<Rightarrow> requestEnv \<Rightarrow> runRequest \<Rightarrow> preparedLease option \<Rightarrow> waitFrame list \<Rightarrow>
   hostRuns \<Rightarrow> hostRuns \<times> waitFrame list \<times> (cycleError + int \<times> entry list \<times> string list)" where
  "runPrepared sha env fenv qenv rq prepared fs h =
     (case prepared of
        None \<Rightarrow>
          (case runInWorkspace sha env fenv qenv rq None fs (hsDisk h) of (d, fs', r) \<Rightarrow> (h\<lparr>hsDisk := d\<rparr>, fs', r))
      | Some p \<Rightarrow>
          (let id' = LeaseID (leaseOf p);
               tree = (if reused p then (case hsTrees h id' of None \<Rightarrow> [] | Some t \<Rightarrow> t) else [([], WDir newDirMode)]) in
           case runInWorkspace sha env fenv qenv rq (Some (leaseOf p)) fs ((hsDisk h)\<lparr>rdTree := tree\<rparr>) of
             (d, fs', r) \<Rightarrow>
               (h\<lparr>hsDisk := d\<lparr>rdTree := rdTree (hsDisk h)\<rparr>, hsTrees := (hsTrees h)(id' \<mapsto> rdTree d),
                  hsLocks := releaseLease (leaseKey p) (hsLocks h)\<rparr>, fs', r)))"

definition handleRunRequest ::
  "(string \<Rightarrow> string) \<Rightarrow> syncEnv \<Rightarrow> finishEnv \<Rightarrow> requestEnv \<Rightarrow> runRequest \<Rightarrow> waitFrame list \<Rightarrow>
   hostRuns \<Rightarrow> hostRuns \<times> waitFrame list \<times> (cycleError + int \<times> entry list \<times> string list)" where
  "handleRunRequest sha env fenv qenv rq fs h =
     (case validateRunRequest (fyWide fenv) (qyParse qenv) rq of
        Inl e \<Rightarrow> (h, fs, Inl (CyRequest e))
      | Inr _ \<Rightarrow>
          (case acquireRun (hsGate h) of
             (g, Inl e) \<Rightarrow> (h\<lparr>hsGate := g\<rparr>, fs, Inl (CyGate e))
           | (g, Inr _) \<Rightarrow>
               let h1 = h\<lparr>hsGate := g\<rparr> in
               (case (if \<not> qyStorage qenv then (h1, fs, Inl CyStorage)
                      else case prepareRunWorkspace (fyWide fenv) (qyParse qenv) (qyLeaseIO qenv) (qyRemains qenv) (qyIDs qenv)
                          (rqContextID rq) (rqSession rq) (rqKeep rq) (rqReuse rq) (qyNow qenv)
                          \<lparr>locks = hsLocks h1, disk = rdLeases (hsDisk h1)\<rparr> of
                        (w, Inl e) \<Rightarrow> (h1\<lparr>hsLocks := locks w, hsDisk := (hsDisk h1)\<lparr>rdLeases := disk w\<rparr>\<rparr>, fs, Inl (CyLease e))
                      | (w, Inr prepared) \<Rightarrow>
                          runPrepared sha env fenv qenv rq prepared fs
                            (h1\<lparr>hsLocks := locks w, hsDisk := (hsDisk h1)\<lparr>rdLeases := disk w\<rparr>\<rparr>)) of
                 (h2, fs2, r) \<Rightarrow> (h2\<lparr>hsGate := releaseRun (hsGate h2)\<rparr>, fs2, r))))"

lemma runPrepared_gate: "runPrepared sha env fenv qenv rq prepared fs h = (h', fs', r) \<Longrightarrow> hsGate h' = hsGate h"
  by (auto simp: runPrepared_def Let_def split: option.splits prod.splits)

section \<open>What runs leave behind\<close>

text \<open>
  The histories of a workspace in which every run ended orderly. The workspace of a context is
  made empty. A run in it either completed, or was stopped after its sync and before its command,
  or failed and left the marker or changed neither the tree nor what is remembered of it. In
  between, other contexts and leases use the store. What is not such a history is a run that is
  cut off while its changes are applied or after its command has started, before the marker is
  written: such a run leaves a tree nobody knows (\<open>aborted_run_leaves_stale_workspace\<close>).
\<close>

inductive contextHistory :: "(string \<Rightarrow> string) \<Rightarrow> runDisk \<Rightarrow> bool" for sha where
  newContext: "rdTree d = [([], WDir m)] \<Longrightarrow> rdTracked d = Missing \<Longrightarrow> \<not> rdMarker d \<Longrightarrow> contextHistory sha d"
| completedRun: "contextHistory sha d \<Longrightarrow>
    runInWorkspace sha env fenv qenv rq None fs d = (d', fs', Inr res) \<Longrightarrow> contextHistory sha d'"
| stoppedRun: "contextHistory sha d \<Longrightarrow> syncEnvOk sha env (rememberedManifest None d) (rqManifest rq) \<Longrightarrow>
    manifestOk (rqManifest rq) \<Longrightarrow> storeOk sha (rdStore d) \<Longrightarrow>
    syncClientManifestAndSave sha env rq None fs d = (d', fs', Inr ()) \<Longrightarrow> contextHistory sha d'"
| failedRun: "contextHistory sha d \<Longrightarrow> runInWorkspace sha env fenv qenv rq None fs d = (d', fs', Inl e) \<Longrightarrow>
    rdMarker d' \<or> rdTree d' = rdTree d \<and> rdTracked d' = rdTracked d \<and> rdMarker d' = rdMarker d \<Longrightarrow> contextHistory sha d'"
| otherWork: "contextHistory sha d \<Longrightarrow> contextHistory sha (d\<lparr>rdStore := st, rdLeases := dsk\<rparr>)"

text \<open>
  A lease starts with no entries and an empty directory of its own. Its manifest is the one of
  its last completed run (a failed run leaves the lease dirty, and it is not used again); the
  scan after the command has told the truth about the tree: plain files, directories and links
  at clean paths, each with the mode, digest or target it has.
\<close>

definition truthfulScan :: "(string \<Rightarrow> string) \<Rightarrow> finishEnv \<Rightarrow> wsTree \<Rightarrow> bool" where
  "truthfulScan sha fenv t =
     (\<not> fyWindows fenv \<and> (case fyScan fenv t of None \<Rightarrow> True | Some (es, _) \<Rightarrow> treeOk t \<and> manifestOk es \<and> agrees sha False t es))"

inductive leaseHistory :: "(string \<Rightarrow> string) \<Rightarrow> entry list \<Rightarrow> wsTree \<Rightarrow> bool" for sha where
  newLease: "leaseHistory sha [] [([], WDir newDirMode)]"
| leasedRun: "leaseHistory sha (WorkspaceManifest state) (rdTree d) \<Longrightarrow>
    runInWorkspace sha env fenv qenv rq (Some state) fs d = (d', fs', Inr res) \<Longrightarrow> truthfulScan sha fenv (rdTree d') \<Longrightarrow>
    manifestFile (leaseDirOf (rdLeases d') (LeaseID state)) = Stored es \<Longrightarrow> leaseHistory sha es (rdTree d')"

definition orderlyHistory :: "(string \<Rightarrow> string) \<Rightarrow> leaseState option \<Rightarrow> runDisk \<Rightarrow> bool" where
  "orderlyHistory sha lease d =
     (case lease of None \<Rightarrow> contextHistory sha d | Some state \<Rightarrow> leaseHistory sha (WorkspaceManifest state) (rdTree d))"

lemma runInWorkspace_done:
  assumes "runInWorkspace sha env fenv qenv rq lease fs d = (d', fs', Inr res)"
  obtains d1 fs1 where "executeAndSyncRun sha env fenv (qyWorkspace qenv) (keepDuration qenv rq) rq lease fs1 d1 = (d', fs', Inr res)"
  using assms by (auto simp: runInWorkspace_def split: if_splits prod.splits sum.splits)

lemma contextHistory_inv: "contextHistory sha d \<Longrightarrow> cycleInv sha d"
proof (induction rule: contextHistory.induct)
  case (newContext d m)
  then show ?case by (simp add: cycleInv_def readJSON_def empty_tree manifestOk_def)
next
  case (completedRun d env fenv qenv rq fs d' fs' res)
  from runInWorkspace_done [OF completedRun.hyps(2)] show ?case
    by (metis (no_types, lifting) cycleInv_def executeAndSync_done option.case(1))
next
  case (stoppedRun d env rq fs d' fs')
  have "agrees sha False (rdTree d') (rqManifest rq) \<and> treeOk (rdTree d')
    \<and> rdTracked d' = Stored (rqManifest rq)"
    using syncManifest_facts [OF stoppedRun.hyps(5,2-4)] stoppedRun.IH by simp
  then show ?case using stoppedRun.hyps(3) by (simp add: cycleInv_def readJSON_def)
qed (auto simp: cycleInv_def split: sum.splits)

lemma leaseHistory_inv: "leaseHistory sha es t \<Longrightarrow> treeOk t \<and> manifestOk es \<and> agrees sha False t es"
proof (induction rule: leaseHistory.induct)
  case newLease
  then show ?case by (simp add: empty_tree manifestOk_def)
next
  case (leasedRun state d env fenv qenv rq fs d' fs' res es)
  obtain d1 fs1 where "executeAndSyncRun sha env fenv (qyWorkspace qenv) (keepDuration qenv rq) rq (Some state) fs1 d1 = (d', fs', Inr res)"
    by (rule runInWorkspace_done [OF leasedRun.hyps(2)])
  from executeAndSync_done [OF this] leasedRun.hyps(3,4) show ?case
    by (auto simp: truthfulScan_def postRunEntries_def)
qed

lemma orderlyHistory_inv:
  assumes "orderlyHistory sha lease d"
  shows "case lease of None \<Rightarrow> cycleInv sha d
    | Some state \<Rightarrow> treeOk (rdTree d) \<and> manifestOk (WorkspaceManifest state) \<and> agrees sha False (rdTree d) (WorkspaceManifest state)"
  using assms contextHistory_inv leaseHistory_inv by (auto simp: orderlyHistory_def split: option.splits)

section \<open>Properties\<close>

text \<open>
  C2. When the sync before a command succeeds and the earlier runs in the workspace ended orderly
  (\<open>orderlyHistory\<close>: each completed, or stopped before its command, or left the marker), the
  workspace agrees with the manifest of the request: the same paths, and at each the kind, mode,
  content digest or target the manifest says. This holds for the workspace of the context
  (remembered by the tracked manifest, or cleaned under the marker) and for a lease with its own
  manifest, provided the blob store is sound, the manifest is the clean list of a plain project
  (\<open>manifestOk\<close>; mounts are not part of it) and the scans of a lease's earlier runs told the truth.
  Without a lease what the host remembers of the context is then that manifest.
\<close>

theorem run_starts_from_client_manifest:
  assumes "syncClientManifestAndSave sha env rq lease fs d = (d', fs', Inr ())"
    and "syncEnvOk sha env (rememberedManifest lease d) (rqManifest rq)" and "manifestOk (rqManifest rq)"
    and "storeOk sha (rdStore d)" and "orderlyHistory sha lease d"
  shows "agrees sha False (rdTree d') (rqManifest rq)
    \<and> (lease \<noteq> None \<or> rdTracked d' = Stored (rqManifest rq) \<and> \<not> rdMarker d')"
  using syncManifest_facts [OF assms(1-4) orderlyHistory_inv [OF assms(5)]] by blast

text \<open>
  C15. A completed run leaves the host with what it knows: without a lease the workspace is empty
  and marked as cleaned, so the next run starts from nothing; with one, the lease is clean and
  its manifest is what was scanned of the very tree the command left.
\<close>

theorem completed_run_is_remembered:
  assumes "executeAndSyncRun sha env fenv workspace keep rq lease fs d = (d', fs', Inr res)"
  shows "case lease of
      None \<Rightarrow> rdMarker d' \<and> rdTree d' = [([], WDir newDirMode)] \<and> cycleInv sha d'
    | Some state \<Rightarrow> rdTree d' = fst (fyRun fenv (rdTree d))
        \<and> (\<exists>scanned sources meta. fyScan fenv (rdTree d') = Some (scanned, sources)
          \<and> metaFile (leaseDirOf (rdLeases d') (LeaseID state)) = Stored meta \<and> \<not> Dirty meta
          \<and> manifestFile (leaseDirOf (rdLeases d') (LeaseID state)) =
              Stored (postRunEntries (fyWindows fenv) (rqManifest rq) scanned))"
  using executeAndSync_done [OF assms] by (auto simp: cycleInv_def split: option.splits)

text \<open>
  A run request gives back what it counts: on every path, errors included, the number of
  active runs and the wish for a restart are afterwards what they were before.
\<close>

theorem run_request_gives_back:
  assumes "handleRunRequest sha env fenv qenv rq fs h = (h', fs', r)" and "0 \<le> activeRuns (hsGate h)"
  shows "hsGate h' = hsGate h"
proof -
  have given: "releaseRun (g\<lparr>activeRuns := activeRuns g + 1\<rparr>) = g" if "0 \<le> activeRuns g" for g :: restartGate
    using that by (simp add: releaseRun_def)
  show ?thesis
    using assms given [OF assms(2)]
    by (auto simp: handleRunRequest_def acquireRun_def Let_def dest!: runPrepared_gate
        split: sum.splits prod.splits if_splits)
qed

section \<open>Examples\<close>

definition demoSync :: "wsPath list \<Rightarrow> syncEnv" where
  "demoSync ps = \<lparr>syVisit = \<lambda>es. remdups (map Path es), syStuck = [], syRecreate = True, sySetup = True, syTempOk = \<lambda>_. True,
     syCPU = 1, syNonce = Inr ''t'', syTable = Map.empty, syWriteNeed = True, syUpload = \<lambda>t st. (st, Inr ()), syNow = 0,
     syApply = noFaults, syUndo = noFaults, syOrder = \<lambda>_. ps, sySave = WriteOk, syMarker = True\<rparr>"

definition demoFinish :: "wsTree \<Rightarrow> bool \<Rightarrow> finishEnv" where
  "demoFinish t connected = \<lparr>fyRun = \<lambda>_. (t, 0, None), fyWriteError = True, fyWriteExit = connected, fyScan = \<lambda>_. Some ([], \<lambda>_. []),
     fyWindows = False, fyWriteChanges = True, fyWriteTransfer = None, fyNonce = Inr ''n'', fyStoreIO = \<lambda>_. None,
     fyClone = \<lambda>_. None, fyRead = \<lambda>_. Inr [], fySyncFirst = True, fyTransferEnd = Inr (), fySave = WriteOk,
     fyWide = \<lambda>_. False, fyLeaseIO = goodIO, fyGoNow = 0, fyMeta = True, fyWriteDone = True\<rparr>"

definition demoRun :: "entry list \<Rightarrow> runRequest" where
  "demoRun es = \<lparr>rqCommand = [''make''], rqContextID = ''c'', rqSession = ''s'', rqRuntime = noRuntime, rqKeep = [],
     rqReuse = [], rqManifest = es, rqSyncBack = None\<rparr>"

definition demoDisk :: runDisk where
  "demoDisk = \<lparr>rdTree = [([], WDir 493)], rdTracked = Missing, rdMarker = False, rdStore = emptyStore, rdLeases = Map.empty\<rparr>"

definition demoDone :: waitFrame where
  "demoDone = \<lparr>wfType = ''sync_complete'', wfDiscards = True, wfNeed = None\<rparr>"

lemma demoDisk_ok: "treeOk (rdTree demoDisk)" "storeOk sha (rdStore demoDisk)" "cycleInv sha demoDisk"
  by (simp_all add: demoDisk_def cycleInv_def readJSON_def treeOk_def emptyStore_ok agrees_def manifestOk_def)

lemma demoDisk_history: "contextHistory sha demoDisk"
  by (rule contextHistory.newContext) (simp_all add: demoDisk_def)

lemma demoSync_ok:
  assumes "case Diff (remdups (map Path b)) (remdups (map Path a)) a b False of (c, d) \<Rightarrow> orderOk (\<lambda>_. ps) c d"
  shows "syncEnvOk sha (demoSync ps) a b"
  using assms by (simp add: syncEnvOk_def demoSync_def visits_def)

lemma run_starts_from_client_manifest_witness:
  "let es = [plainEntry ''a'' KindSymlink];
       r = syncClientManifestAndSave (\<lambda>x. x) (demoSync [[''a'']]) (demoRun es) None [demoDone] demoDisk
   in snd (snd r) = Inr () \<and> agrees (\<lambda>x. x) False (rdTree (fst r)) es \<and> rdTracked (fst r) = Stored es"
proof -
  let ?es = "[plainEntry ''a'' KindSymlink]"
  let ?r = "syncClientManifestAndSave (\<lambda>x. x) (demoSync [[''a'']]) (demoRun ?es) None [demoDone] demoDisk"
  have "snd (snd ?r) = Inr ()" by code_simp
  then obtain d' fs' where run: "?r = (d', fs', Inr ())" by (metis prod.collapse)
  have "case Diff (remdups (map Path ?es)) (remdups (map Path [])) [] ?es False of (c, d) \<Rightarrow> orderOk (\<lambda>_. [[''a'']]) c d"
    by code_simp
  then have env: "syncEnvOk (\<lambda>x. x) (demoSync [[''a'']]) (rememberedManifest None demoDisk) (rqManifest (demoRun ?es))"
    by (simp add: demoRun_def rememberedManifest_def demoDisk_def readJSON_def demoSync_ok)
  have m: "manifestOk (rqManifest (demoRun ?es))" by code_simp
  show ?thesis
    using run_starts_from_client_manifest [OF run env m demoDisk_ok(2)] demoDisk_history run
    by (simp add: demoRun_def orderlyHistory_def)
qed

definition demoNeed :: waitFrame where
  "demoNeed = \<lparr>wfType = ''need_blobs'', wfDiscards = True, wfNeed = Some []\<rparr>"

lemma send_nothing:
  "sendChangedFileBlobs cpu n None c s w src [] [] tab = (tab, None, Inr (needBlobsMessage [] None))"
proof -
  have "PlanBlobChunks [] DefaultBlobChunkSize = Inr []" by code_simp
  then show ?thesis by (simp add: sendChangedFileBlobs_def prepareDownloadBlobItems_def andThen_def)
qed

lemma demo_diff: "diffWorkspaceChanges (\<lambda>es. remdups (map Path es)) [] [] None False = ([], [])"
  by code_simp

lemma demo_exec:
  "executeAndSyncRun sha (demoSync []) (demoFinish t True) w keep (demoRun []) None [demoNeed, demoDone] demoDisk
   = (demoDisk\<lparr>rdTree := [([], WDir newDirMode)], rdTracked := Stored [], rdMarker := True\<rparr>, [], Inr (0, [], []))"
proof -
  have f: "readClientNeedBlobs [demoNeed, demoDone] = ([demoDone], Inr [])"
      "waitForClientSyncCompleteAndBlobTransfer True None [demoDone] = ([], Inr ())" by code_simp+
  have p: "postRunEntries False x y = y" for x y by (simp add: postRunEntries_def)
  have p': "writeUserVisibleRunError None = []" "exitCode None = 0" by code_simp+
  show ?thesis
    by (simp add: executeAndSyncRun_def demoFinish_def demoRun_def sendWorkspaceChanges_def demoSync_def demo_diff f p p'
        send_nothing savePostRunWorkspaceState_def finishRunWorkspace_def cleanRunWorkspace_def cleanTree_def demoDisk_def
        writeJSONAtomically_def Let_def del: readClientNeedBlobs.simps)
qed

lemma completed_run_is_remembered_witness:
  "let r = executeAndSyncRun (\<lambda>x. x) (demoSync []) (demoFinish [([], WDir 493), ([''b''], WDir 493)] True) ''/w'' 0 (demoRun [])
         None [demoNeed, demoDone] demoDisk
   in snd (snd r) = Inr (0, [], []) \<and> rdMarker (fst r) \<and> rdTree (fst r) = [([], WDir newDirMode)]"
proof -
  let ?r = "executeAndSyncRun (\<lambda>x. x) (demoSync []) (demoFinish [([], WDir 493), ([''b''], WDir 493)] True) ''/w'' 0 (demoRun [])
      None [demoNeed, demoDone] demoDisk"
  have "snd (snd ?r) = Inr (0, [], [])" by (simp add: demo_exec)
  then obtain d' fs' where run: "?r = (d', fs', Inr (0, [], []))" by (metis prod.collapse)
  show ?thesis using completed_run_is_remembered [OF run] run by simp
qed

definition demoQuery :: requestEnv where
  "demoQuery = \<lparr>qyParse = \<lambda>_. None, qyStorage = True, qyRuntime = True, qyReady = True, qyLeaseIO = goodIO,
     qyRemains = \<lambda>_. None, qyIDs = [], qyNow = 0, qyWorkspace = ''/w''\<rparr>"

definition demoRuns :: hostRuns where
  "demoRuns = \<lparr>hsGate = demoGate, hsLocks = noLocks, hsDisk = demoDisk, hsTrees = Map.empty\<rparr>"

lemma run_request_gives_back_witness:
  "activeRuns (hsGate (fst (handleRunRequest (\<lambda>x. x) (demoSync []) (demoFinish [] False) demoQuery (demoRun []) [demoDone] demoRuns))) = 2"
proof -
  let ?r = "handleRunRequest (\<lambda>x. x) (demoSync []) (demoFinish [] False) demoQuery (demoRun []) [demoDone] demoRuns"
  obtain h fs r where run: "?r = (h, fs, r)" by (metis prod_cases3)
  show ?thesis using run_request_gives_back [OF run] run by (simp add: demoRuns_def demoGate_def)
qed

text \<open>
  Why the marker matters: a run without a lease that ends with an error after its command, say
  because the client is gone when the exit code is written, is not cleaned up. The tracked
  manifest is still the one of the request and no marker is set, so the next run believes the
  tree is that manifest: here the file the command left is not removed by the next sync, which
  succeeds.
\<close>

lemma aborted_run_leaves_stale_workspace:
  "let d1 = demoDisk\<lparr>rdTracked := Stored []\<rparr>;
       r1 = executeAndSyncRun (\<lambda>x. x) (demoSync []) (demoFinish [([], WDir 493), ([''b''], WLink ''y'')] False) ''/w'' 0 (demoRun [])
         None [demoDone] d1;
       r2 = syncClientManifestAndSave (\<lambda>x. x) (demoSync []) (demoRun []) None [demoDone] (fst r1)
   in cycleInv (\<lambda>x. x) d1 \<and> snd (snd r1) = Inl CyWrite \<and> \<not> rdMarker (fst r1)
     \<and> snd (snd r2) = Inr () \<and> \<not> agrees (\<lambda>x. x) False (rdTree (fst r2)) []"
proof -
  let ?d1 = "demoDisk\<lparr>rdTracked := Stored []\<rparr>"
  let ?r1 = "executeAndSyncRun (\<lambda>x. x) (demoSync []) (demoFinish [([], WDir 493), ([''b''], WLink ''y'')] False) ''/w'' 0 (demoRun [])
      None [demoDone] ?d1"
  let ?r2 = "syncClientManifestAndSave (\<lambda>x. x) (demoSync []) (demoRun []) None [demoDone] (fst ?r1)"
  let ?d2 = "?d1\<lparr>rdTree := [([], WDir 493), ([''b''], WLink ''y'')]\<rparr>"
  have e: "?r1 = (?d2, [demoDone], Inl CyWrite)"
    by (simp add: executeAndSyncRun_def demoFinish_def demoRun_def writeUserVisibleRunError_def userVisibleRunError_def Let_def)
  have c: "cycleInv (\<lambda>x. x) ?d1" by (simp add: demoDisk_def cycleInv_def treeOk_def agrees_def manifestOk_def)
  have m: "\<not> rdMarker ?d2" by code_simp
  let ?r = "syncClientManifestAndSave (\<lambda>x. x) (demoSync []) (demoRun []) None [demoDone] ?d2"
  have "snd (snd ?r) = Inr ()" "\<not> agrees (\<lambda>x. x) False (rdTree (fst ?r)) []" by code_simp+
  then show ?thesis using c m by (simp add: Let_def e)
qed
end
