(* ===== verification/ClientCache.thy ===== *)
theory ClientCache
  imports Manifest RunCycle
begin

text \<open>
  What a client keeps between runs (client/manifest\_cache.go, client/cache\_prune.go, parts of
  client/client.go): the manifest of the last scan of each project, from which unchanged files
  take their hashes, and the blobs it has received. Pruning removes the blobs no manifest refers
  to. The tree is what lies below the client's directory, by the elements of its path; a
  link or special file comes with what \<open>os.ReadFile\<close> of its path gives, if anything.
\<close>

datatype cacheContent = CacheManifest "entry list" | CacheBytes string

datatype cacheNode = CacheDir | CacheFile cacheContent int | CacheOther int "cacheContent option"

type_synonym cacheTree = "(string list \<times> cacheNode) list"

datatype cacheError =
    CacheReadDir | CacheInfo | CacheRead | CacheParse | CacheHash | CacheRemove | CacheWalk | CacheLock

record cacheEnv =
  ceNoReadDir :: "string list \<Rightarrow> bool"
  ceNoInfo :: "string list \<Rightarrow> bool"
  ceNoRead :: "string list \<Rightarrow> bool"
  ceNoRemove :: "string list \<Rightarrow> bool"
  ceSize :: "string list \<Rightarrow> int"

record prunedFile =
  pfKind :: string
  pfName :: string
  pfPath :: "string list"
  pfSize :: int

definition staleManifestAge :: int where "staleManifestAge = 3600 * 1000000000"

definition validBlobHash :: "string \<Rightarrow> bool" where
  "validBlobHash h \<longleftrightarrow> length h = 64 \<and> list_all lowerHex h"

section \<open>What the manifests refer to\<close>

fun addManifestHashes :: "entry list \<Rightarrow> string set \<Rightarrow> string set \<times> (cacheError + unit)" where
  "addManifestHashes [] refs = (refs, Inr ())"
| "addManifestHashes (e # es) refs =
     (if Kind e \<noteq> KindFile \<or> Hash e = [] then addManifestHashes es refs
      else if \<not> validBlobHash (Hash e) then (refs, Inl CacheHash)
      else addManifestHashes es (insert (Hash e) refs))"

definition readNode :: "cacheNode \<Rightarrow> cacheContent option" where
  "readNode n = (case n of CacheDir \<Rightarrow> None | CacheFile c t \<Rightarrow> Some c | CacheOther t c \<Rightarrow> c)"

definition readCachedManifest :: "cacheEnv \<Rightarrow> string list \<Rightarrow> cacheNode \<Rightarrow> cacheError + entry list" where
  "readCachedManifest env q n =
     (if ceNoRead env q then Inl CacheRead
      else (case readNode n of
        Some (CacheManifest m) \<Rightarrow> Inr m
      | Some (CacheBytes b) \<Rightarrow> Inl CacheParse
      | None \<Rightarrow> Inl CacheRead))"

definition nodeTime :: "cacheNode \<Rightarrow> int" where
  "nodeTime n = (case n of CacheDir \<Rightarrow> 0 | CacheFile c t \<Rightarrow> t | CacheOther t c \<Rightarrow> t)"

text \<open>The value: the path when the file is stale.\<close>

definition collectCachedManifestHashes ::
  "cacheEnv \<Rightarrow> int \<Rightarrow> string list \<times> cacheNode \<Rightarrow> string set \<Rightarrow> string set \<times> (cacheError + string list option)" where
  "collectCachedManifestHashes env scanStarted x refs =
     (let (q, n) = x; staleBefore = scanStarted - staleManifestAge in
      if n = CacheDir then (refs, Inr None)
      else if ceNoInfo env q then (refs, Inl CacheInfo)
      else if hasSuffix (last q) ''.tmp'' \<and> nodeTime n < staleBefore then (refs, Inr (Some q))
      else if \<not> hasSuffix (last q) ''.json'' then (refs, Inr None)
      else (case readCachedManifest env q n of
        Inl e \<Rightarrow> (refs, if nodeTime n < staleBefore then Inr (Some q) else Inl e)
      | Inr manifest \<Rightarrow>
          (case addManifestHashes manifest refs of
             (refs', Inl e) \<Rightarrow> (refs', if nodeTime n < staleBefore then Inr (Some q) else Inl e)
           | (refs', Inr _) \<Rightarrow> (refs', Inr None))))"

fun collectLoop ::
  "cacheEnv \<Rightarrow> int \<Rightarrow> cacheTree \<Rightarrow> string set \<Rightarrow> string list list \<Rightarrow> cacheError + string set \<times> string list list" where
  "collectLoop env scanStarted [] refs stale = Inr (refs, stale)"
| "collectLoop env scanStarted (x # xs) refs stale =
     (case collectCachedManifestHashes env scanStarted x refs of
        (refs', Inl e) \<Rightarrow> Inl e
      | (refs', Inr s) \<Rightarrow> collectLoop env scanStarted xs refs' (case s of None \<Rightarrow> stale | Some q \<Rightarrow> stale @ [q]))"

text \<open>\<open>os.ReadDir\<close>: the children of a directory by name.\<close>

definition dirEntries :: "string list \<Rightarrow> cacheTree \<Rightarrow> cacheTree" where
  "dirEntries dir t = sort_key fst (filter (\<lambda>x. below dir (fst x) \<and> length (fst x) = length dir + 1) t)"

definition cachedManifestHashes :: "cacheEnv \<Rightarrow> string list \<Rightarrow> int \<Rightarrow> cacheTree \<Rightarrow> cacheError + string set \<times> string list list" where
  "cachedManifestHashes env dir scanStarted t =
     (case map_of t dir of
        None \<Rightarrow> Inr ({}, [])
      | Some n \<Rightarrow>
          if n \<noteq> CacheDir \<or> ceNoReadDir env dir then Inl CacheReadDir
          else (case collectLoop env scanStarted (dirEntries dir t) {} [] of
            Inl e \<Rightarrow> Inl e
          | Inr (refs, stale) \<Rightarrow> Inr (refs, sort stale)))"

section \<open>Pruning\<close>

fun candidateLoop :: "cacheEnv \<Rightarrow> string set \<Rightarrow> int \<Rightarrow> cacheTree \<Rightarrow> cacheError + string list list" where
  "candidateLoop env refs scanStarted [] = Inr []"
| "candidateLoop env refs scanStarted ((q, n) # xs) =
     (case n of
        CacheDir \<Rightarrow> if ceNoReadDir env q then Inl CacheWalk else candidateLoop env refs scanStarted xs
      | CacheOther t c \<Rightarrow> if ceNoInfo env q then Inl CacheWalk else candidateLoop env refs scanStarted xs
      | CacheFile c t \<Rightarrow>
          if ceNoInfo env q then Inl CacheWalk
          else andThen (candidateLoop env refs scanStarted xs)
            (\<lambda>qs. Inr (if t < scanStarted \<and> last q \<notin> refs then q # qs else qs)))"

definition unreferencedClientBlobs ::
  "cacheEnv \<Rightarrow> string list \<Rightarrow> string set \<Rightarrow> int \<Rightarrow> cacheTree \<Rightarrow> cacheError + string list list" where
  "unreferencedClientBlobs env dir refs scanStarted t =
     andThen (candidateLoop env refs scanStarted (sort_key fst (filter (\<lambda>x. below dir (fst x)) t))) (\<lambda>qs. Inr (sort qs))"

text \<open>The value says whether the file was removed.\<close>

definition removeClientCacheFile ::
  "cacheEnv \<Rightarrow> string \<Rightarrow> int \<Rightarrow> string list \<Rightarrow> cacheTree \<Rightarrow> cacheTree \<times> (cacheError + prunedFile option)" where
  "removeClientCacheFile env kind scanStarted q t =
     (case map_of t q of
        None \<Rightarrow> (t, Inr None)
      | Some n \<Rightarrow>
          if ceNoInfo env q then (t, Inl CacheInfo)
          else (case n of
            CacheFile c \<tau> \<Rightarrow>
              if \<not> \<tau> < scanStarted then (t, Inr None)
              else if ceNoRemove env q then (t, Inl CacheRemove)
              else (filter (\<lambda>x. fst x \<noteq> q) t, Inr (Some \<lparr>pfKind = kind, pfName = last q, pfPath = q, pfSize = ceSize env q\<rparr>))
          | _ \<Rightarrow> (t, Inr None)))"

fun removeLoop ::
  "cacheEnv \<Rightarrow> string \<Rightarrow> int \<Rightarrow> string list list \<Rightarrow> cacheTree \<Rightarrow> cacheTree \<times> prunedFile list \<times> cacheError option" where
  "removeLoop env kind scanStarted [] t = (t, [], None)"
| "removeLoop env kind scanStarted (q # qs) t =
     (case removeClientCacheFile env kind scanStarted q t of
        (t1, Inl e) \<Rightarrow> (t1, [], Some e)
      | (t1, Inr removed) \<Rightarrow>
          (case removeLoop env kind scanStarted qs t1 of
             (t2, ps, e) \<Rightarrow> (t2, (case removed of None \<Rightarrow> ps | Some p \<Rightarrow> p # ps), e)))"

text \<open>\<open>os.Remove\<close> takes a directory away only when it is empty.\<close>

definition removeEmptyClientDirs :: "cacheEnv \<Rightarrow> string list \<Rightarrow> cacheTree \<Rightarrow> cacheTree" where
  "removeEmptyClientDirs env root t =
     (if ceNoReadDir env root \<or> map_of t root \<noteq> Some CacheDir then t
      else filter (\<lambda>(q, n). \<not> (n = CacheDir \<and> below root q \<and> length q = length root + 1 \<and> \<not> ceNoRemove env q
        \<and> \<not> list_ex (\<lambda>y. below q (fst y) \<and> fst y \<noteq> q) t)) t)"

definition pruneClientBlobCacheInDir ::
  "cacheEnv \<Rightarrow> int \<Rightarrow> cacheTree \<Rightarrow> cacheTree \<times> prunedFile list \<times> cacheError option" where
  "pruneClientBlobCacheInDir env scanStarted t =
     (case cachedManifestHashes env [''manifests''] scanStarted t of
        Inl e \<Rightarrow> (t, [], Some e)
      | Inr (refs, stale) \<Rightarrow>
          (case unreferencedClientBlobs env [''blobs''] refs scanStarted t of
             Inl e \<Rightarrow> (t, [], Some e)
           | Inr unused \<Rightarrow>
               (case removeLoop env ''client_manifest'' scanStarted stale t of
                  (t1, ps, Some e) \<Rightarrow> (t1, ps, Some e)
                | (t1, ps, None) \<Rightarrow>
                    (case removeLoop env ''client_blob'' scanStarted unused t1 of
                       (t2, bs, Some e) \<Rightarrow> (t2, ps @ bs, Some e)
                     | (t2, bs, None) \<Rightarrow>
                         (removeEmptyClientDirs env [''blobs''] t2, sort_key pfPath (ps @ bs), None)))))"

text \<open>Under the lock of the cache; \<open>unlock\<close> is the error of giving it back. The number is the bytes freed.\<close>

definition PruneLocalCache ::
  "bool \<Rightarrow> cacheError option \<Rightarrow> cacheEnv \<Rightarrow> int \<Rightarrow> cacheTree \<Rightarrow> cacheTree \<times> prunedFile list \<times> int \<times> cacheError option" where
  "PruneLocalCache locked unlock env scanStarted t =
     (if \<not> locked then (t, [], 0, Some CacheLock)
      else (case pruneClientBlobCacheInDir env scanStarted t of
        (t', ps, e) \<Rightarrow> (t', ps, sum_list (map pfSize ps), case e of None \<Rightarrow> unlock | Some x \<Rightarrow> Some x)))"

section \<open>The cached manifest\<close>

text \<open>\<open>sha\<close> is the hexadecimal digest; the context and the project name the file.\<close>

definition manifestCachePath :: "(string \<Rightarrow> string) \<Rightarrow> string \<Rightarrow> string \<Rightarrow> string list" where
  "manifestCachePath sha root contextID = [''manifests'', sha (contextID @ CHR 0x00 # pathClean root) @ ''.json'']"

definition loadCachedManifest :: "entry list jsonFile \<Rightarrow> ioError + entry list" where
  "loadCachedManifest f = readJSON [] f"

definition saveCachedManifest :: "bool \<Rightarrow> writeOutcome \<Rightarrow> entry list \<Rightarrow> entry list jsonFile \<Rightarrow> entry list jsonFile \<times> bool" where
  "saveCachedManifest made w es f =
     (if \<not> made then (f, False) else (case writeJSONAtomically w es f of (f', r) \<Rightarrow> (f', r = Inr ())))"

text \<open>A cache that cannot be read or written is no error of the run.\<close>

definition loadManifestCache :: "entry list jsonFile \<Rightarrow> entry list" where
  "loadManifestCache f = (case loadCachedManifest f of Inl e \<Rightarrow> [] | Inr es \<Rightarrow> es)"

definition saveManifestCache :: "bool \<Rightarrow> bool \<Rightarrow> writeOutcome \<Rightarrow> entry list \<Rightarrow> entry list jsonFile \<Rightarrow> entry list jsonFile" where
  "saveManifestCache locked made w es f = (if \<not> locked then f else fst (saveCachedManifest made w es f))"

text \<open>The list is sorted by path; a map has each path once.\<close>

definition applyManifestChanges :: "entry list \<Rightarrow> entry list \<Rightarrow> string list \<Rightarrow> entry list" where
  "applyManifestChanges previous changed deleted =
     (let byPath1 = fold (\<lambda>e. AList.update (Path e) e) previous [];
          byPath2 = fold AList.delete deleted byPath1;
          byPath3 = fold (\<lambda>e. AList.update (Path e) e) changed byPath2 in
      sort_key Path (map snd byPath3))"

definition updateManifestCacheAfterSync ::
  "bool \<Rightarrow> writeOutcome \<Rightarrow> entry list \<Rightarrow> string list \<Rightarrow> entry list jsonFile \<Rightarrow> entry list jsonFile" where
  "updateManifestCacheAfterSync made w changed deleted f =
     (case loadCachedManifest f of
        Inl e \<Rightarrow> f
      | Inr previous \<Rightarrow> fst (saveCachedManifest made w (applyManifestChanges previous changed deleted) f))"

section \<open>Facts about pruning\<close>

definition cachedHashes :: "entry list \<Rightarrow> string set" where
  "cachedHashes m = Hash ` set (filter (\<lambda>e. Kind e = KindFile \<and> Hash e \<noteq> []) m)"

text \<open>A manifest file that pruning can read and that refers to sound hashes only.\<close>

definition soundManifest :: "cacheEnv \<Rightarrow> string list \<Rightarrow> cacheNode \<Rightarrow> bool" where
  "soundManifest env q n \<longleftrightarrow>
     hasSuffix (last q) ''.json'' \<and> \<not> ceNoRead env q
     \<and> (case readNode n of
          Some (CacheManifest m) \<Rightarrow> list_all (\<lambda>e. Kind e \<noteq> KindFile \<or> Hash e = [] \<or> validBlobHash (Hash e)) m
        | _ \<Rightarrow> False)"

definition nodeRefs :: "cacheNode \<Rightarrow> string set" where
  "nodeRefs n = (case readNode n of Some (CacheManifest m) \<Rightarrow> cachedHashes m | _ \<Rightarrow> {})"

lemma addManifestHashes_facts:
  assumes "addManifestHashes m refs = (refs', r)"
  shows "refs \<subseteq> refs' \<and> (list_all (\<lambda>e. Kind e \<noteq> KindFile \<or> Hash e = [] \<or> validBlobHash (Hash e)) m \<longrightarrow>
    r = Inr () \<and> cachedHashes m \<subseteq> refs')"
  using assms
proof (induction m refs rule: addManifestHashes.induct)
  case (2 e es refs)
  show ?case
  proof (cases "Kind e \<noteq> KindFile \<or> Hash e = []")
    case True
    then show ?thesis using 2 by (auto simp: cachedHashes_def)
  next
    case kind: False
    show ?thesis
    proof (cases "validBlobHash (Hash e)")
      case True
      have ih: "insert (Hash e) refs \<subseteq> refs' \<and> (list_all (\<lambda>e. Kind e \<noteq> KindFile \<or> Hash e = [] \<or> validBlobHash (Hash e)) es \<longrightarrow>
          r = Inr () \<and> cachedHashes es \<subseteq> refs')"
        by (rule "2.IH"(2)) (use "2.prems" kind True in auto)
      have h: "cachedHashes (e # es) = insert (Hash e) (cachedHashes es)" using kind by (simp add: cachedHashes_def)
      show ?thesis using ih kind True unfolding h by auto
    qed (use "2.prems" kind in auto)
  qed
qed (simp add: cachedHashes_def)

lemma collect_grows:
  assumes "collectCachedManifestHashes env now x refs = (refs', r)"
  shows "refs \<subseteq> refs'"
  using assms by (auto simp: collectCachedManifestHashes_def Let_def split: if_splits sum.splits prod.splits
      dest!: addManifestHashes_facts)

lemma collect_sound:
  assumes "collectCachedManifestHashes env now (q, n) refs = (refs', Inr s)" "soundManifest env q n"
  shows "nodeRefs n \<subseteq> refs' \<and> s = None"
proof -
  obtain m where n: "readNode n = Some (CacheManifest m)" "hasSuffix (last q) ''.json''" "\<not> ceNoRead env q"
      "list_all (\<lambda>e. Kind e \<noteq> KindFile \<or> Hash e = [] \<or> validBlobHash (Hash e)) m"
    using assms(2) by (auto simp: soundManifest_def split: option.splits cacheContent.splits)
  have "n \<noteq> CacheDir" using n(1) by (auto simp: readNode_def)
  moreover have nt: "\<not> hasSuffix (last q) ''.tmp''" using n(2) by (auto simp: hasSuffix_iff)
  obtain refs1 r where am: "addManifestHashes m refs = (refs1, r)" by fastforce
  moreover have "r = Inr ()" "cachedHashes m \<subseteq> refs1" using addManifestHashes_facts [OF am] n(4) by simp_all
  ultimately show ?thesis
    using assms(1) n nt am
    by (auto simp: collectCachedManifestHashes_def readCachedManifest_def nodeRefs_def Let_def split: if_splits)
qed

lemma collect_stale:
  assumes "collectCachedManifestHashes env now (q, n) refs = (refs', Inr (Some p))"
  shows "p = q \<and> nodeTime n < now - staleManifestAge \<and> \<not> soundManifest env q n"
proof -
  have "p = q \<and> nodeTime n < now - staleManifestAge"
    using assms by (auto simp: collectCachedManifestHashes_def Let_def split: if_splits sum.splits prod.splits)
  then show ?thesis using collect_sound [OF assms] by auto
qed

lemma collectLoop_facts:
  assumes "collectLoop env now xs refs stale = Inr (refs', stale')"
  shows "refs \<subseteq> refs' \<and> (\<forall>x \<in> set xs. soundManifest env (fst x) (snd x) \<longrightarrow> nodeRefs (snd x) \<subseteq> refs')
    \<and> (\<forall>p \<in> set stale'. p \<in> set stale \<or> (\<exists>n. (p, n) \<in> set xs \<and> nodeTime n < now - staleManifestAge \<and> \<not> soundManifest env p n))"
  using assms
proof (induction xs arbitrary: refs stale)
  case (Cons x xs)
  obtain q n where x: "x = (q, n)" by (cases x)
  obtain refs1 s where c: "collectCachedManifestHashes env now (q, n) refs = (refs1, Inr s)"
    using Cons.prems x by (cases "collectCachedManifestHashes env now (q, n) refs") (auto split: sum.splits)
  let ?stale1 = "case s of None \<Rightarrow> stale | Some q \<Rightarrow> stale @ [q]"
  have run: "collectLoop env now xs refs1 ?stale1 = Inr (refs', stale')" using Cons.prems x c by simp
  note ih = Cons.IH [OF run]
  have sub: "refs \<subseteq> refs1" "refs1 \<subseteq> refs'" using ih collect_grows [OF c] by blast+
  have new: "p \<in> set stale \<or> (p = q \<and> nodeTime n < now - staleManifestAge \<and> \<not> soundManifest env q n)" if "p \<in> set ?stale1" for p
    using that collect_stale [of env now q n refs refs1] c by (cases s) auto
  show ?case
  proof (intro conjI ballI impI)
    show "refs \<subseteq> refs'" using sub by blast
  next
    fix y assume y: "y \<in> set (x # xs)" "soundManifest env (fst y) (snd y)"
    show "nodeRefs (snd y) \<subseteq> refs'"
    proof (cases "y \<in> set xs")
      case True
      then show ?thesis using ih y(2) by blast
    next
      case False
      then have "y = (q, n)" using y(1) x by simp
      then show ?thesis using collect_sound [OF c] y(2) sub by auto
    qed
  next
    fix p assume "p \<in> set stale'"
    then have "p \<in> set ?stale1 \<or> (\<exists>n. (p, n) \<in> set xs \<and> nodeTime n < now - staleManifestAge \<and> \<not> soundManifest env p n)"
      using ih by blast
    then show "p \<in> set stale \<or> (\<exists>n. (p, n) \<in> set (x # xs) \<and> nodeTime n < now - staleManifestAge \<and> \<not> soundManifest env p n)"
      using new x by auto
  qed
qed simp

lemma candidateLoop_facts:
  "candidateLoop env refs now xs = Inr qs \<Longrightarrow>
   q \<in> set qs \<Longrightarrow> \<exists>c \<tau>. (q, CacheFile c \<tau>) \<in> set xs \<and> \<tau> < now \<and> last q \<notin> refs"
proof (induction xs arbitrary: qs)
  case (Cons x xs)
  obtain k n where x: "x = (k, n)" by (cases x)
  show ?case
  proof (cases n)
    case (CacheFile c \<tau>)
    then obtain rs where r: "candidateLoop env refs now xs = Inr rs" "qs = (if \<tau> < now \<and> last k \<notin> refs then k # rs else rs)"
      using Cons.prems(1) x by (auto simp: andThen_def split: if_splits sum.splits)
    then show ?thesis using Cons.IH [OF r(1)] Cons.prems(2) x CacheFile by (auto split: if_splits)
  qed (use Cons x in \<open>auto split: if_splits\<close>)
qed simp

text \<open>Removing takes away only what it is given, and of that only files older than the scan.\<close>

lemma removeLoop_facts:
  assumes "removeLoop env kind now qs t = (t', ps, e)"
  shows "map_of t' q = map_of t q \<or> q \<in> set qs \<and> map_of t' q = None \<and> (\<exists>c \<tau>. map_of t q = Some (CacheFile c \<tau>) \<and> \<tau> < now)"
  using assms
proof (induction qs arbitrary: t ps e t')
  case (Cons p qs)
  obtain t1 r where rm: "removeClientCacheFile env kind now p t = (t1, r)" by fastforce
  have one: "map_of t1 q = map_of t q \<or> q = p \<and> map_of t1 q = None \<and> (\<exists>c \<tau>. map_of t q = Some (CacheFile c \<tau>) \<and> \<tau> < now)"
  proof (cases "t1 = t")
    case False
    then obtain c \<tau> where k: "map_of t p = Some (CacheFile c \<tau>)" "\<tau> < now" "t1 = filter (\<lambda>x. fst x \<noteq> p) t"
      using rm by (auto simp: removeClientCacheFile_def split: option.splits if_splits cacheNode.splits)
    have "map_of (filter (\<lambda>x. fst x \<noteq> p) t) q = (if q = p then None else map_of t q)" by (induction t) auto
    then show ?thesis using k by simp
  qed simp
  show ?case
  proof (cases r)
    case (Inl err)
    then show ?thesis using one Cons.prems rm by auto
  next
    case (Inr o')
    obtain t2 ps2 e2 where l: "removeLoop env kind now qs t1 = (t2, ps2, e2)" by (metis prod_cases3)
    have "t' = t2" using Cons.prems rm Inr l by auto
    then show ?thesis using Cons.IH [OF l] one by auto
  qed
qed simp

lemma removeEmptyClientDirs_facts:
  assumes "distinct (map fst t)"
  shows "map_of (removeEmptyClientDirs env root t) q = map_of t q \<or> map_of t q = Some CacheDir"
proof -
  have f: "map_of (filter (\<lambda>(q, n). P q n) t) q = map_of t q \<or> (\<exists>n. map_of t q = Some n \<and> \<not> P q n)" for P
    using assms by (induction t) (auto simp: image_iff map_of_eq_None_iff split: if_splits)
  let ?P = "\<lambda>q n. \<not> (n = CacheDir \<and> below root q \<and> length q = length root + 1 \<and> \<not> ceNoRemove env q
      \<and> \<not> list_ex (\<lambda>y. below q (fst y) \<and> fst y \<noteq> q) t)"
  show ?thesis
  proof (cases "ceNoReadDir env root \<or> map_of t root \<noteq> Some CacheDir")
    case False
    then have "removeEmptyClientDirs env root t = filter (\<lambda>(q, n). ?P q n) t" by (simp add: removeEmptyClientDirs_def)
    then show ?thesis using f [of ?P] by auto
  qed (simp add: removeEmptyClientDirs_def)
qed

lemma removeLoop_distinct:
  assumes "removeLoop env kind now qs t = (t', ps, e)" "distinct (map fst t)"
  shows "distinct (map fst t')"
  using assms
proof (induction qs arbitrary: t ps e t')
  case (Cons p qs)
  obtain t1 r where rm: "removeClientCacheFile env kind now p t = (t1, r)" by fastforce
  have d: "distinct (map fst t1)"
    using rm Cons.prems(2) by (auto simp: removeClientCacheFile_def distinct_map_filter split: option.splits if_splits cacheNode.splits)
  show ?case
  proof (cases r)
    case (Inl err)
    then show ?thesis using Cons.prems rm d by auto
  next
    case (Inr o')
    obtain t2 ps2 e2 where l: "removeLoop env kind now qs t1 = (t2, ps2, e2)" by (metis prod_cases3)
    have "t' = t2" using Cons.prems rm Inr l by auto
    then show ?thesis using Cons.IH [OF l d] by simp
  qed
qed simp

text \<open>What is below the directory of the manifests lies in a directory.\<close>

definition cacheOk :: "cacheTree \<Rightarrow> bool" where
  "cacheOk t \<longleftrightarrow> distinct (map fst t)
     \<and> list_all (\<lambda>x. \<not> below [''manifests''] (fst x) \<or> map_of t [''manifests''] = Some CacheDir) t"

lemma prune_facts:
  assumes run: "pruneClientBlobCacheInDir env now t = (t', ps, e)" and ok: "cacheOk t"
    and q: "map_of t q = Some (CacheFile c \<tau>)"
  shows "map_of t' q = map_of t q \<or> map_of t' q = None \<and> \<tau> < now
    \<and> (below [''manifests''] q \<and> \<tau> < now - staleManifestAge \<and> \<not> soundManifest env q (CacheFile c \<tau>)
      \<or> below [''blobs''] q \<and> (\<forall>p n. map_of t p = Some n \<longrightarrow> below [''manifests''] p \<longrightarrow> length p = 2 \<longrightarrow> soundManifest env p n
          \<longrightarrow> last q \<notin> nodeRefs n))"
proof (cases "map_of t' q = map_of t q")
  case changed: False
  have t: "distinct (map fst t)" using ok by (simp add: cacheOk_def)
  have uniq: "map_of t p = Some n" if "(p, n) \<in> set t" for p n using t that by simp
  obtain cr where h: "cachedManifestHashes env [''manifests''] now t = cr" by simp
  have nl: "\<exists>x. cr = Inr x" using run h changed by (cases cr) (auto simp: pruneClientBlobCacheInDir_def)
  then obtain refs stale where cr: "cr = Inr (refs, stale)" by (metis prod.collapse)
  have stale: "p \<in> set stale \<Longrightarrow> \<exists>n. (p, n) \<in> set t \<and> below [''manifests''] p \<and> nodeTime n < now - staleManifestAge \<and> \<not> soundManifest env p n"
    and refs: "(p, n) \<in> set t \<Longrightarrow> below [''manifests''] p \<Longrightarrow> length p = 2 \<Longrightarrow> soundManifest env p n \<Longrightarrow> map_of t [''manifests''] \<noteq> None \<Longrightarrow> nodeRefs n \<subseteq> refs"
    for p n
  proof -
    have "(p \<in> set stale \<longrightarrow> (\<exists>n. (p, n) \<in> set t \<and> below [''manifests''] p \<and> nodeTime n < now - staleManifestAge \<and> \<not> soundManifest env p n))
      \<and> ((p, n) \<in> set t \<longrightarrow> below [''manifests''] p \<longrightarrow> length p = 2 \<longrightarrow> soundManifest env p n \<longrightarrow> map_of t [''manifests''] \<noteq> None \<longrightarrow> nodeRefs n \<subseteq> refs)"
    proof (cases "map_of t [''manifests'']")
      case None
      then show ?thesis using h cr by (simp add: cachedManifestHashes_def)
    next
      case (Some d)
      then obtain stale0 where l: "collectLoop env now (dirEntries [''manifests''] t) {} [] = Inr (refs, stale0)" "stale = sort stale0"
        using h cr by (auto simp: cachedManifestHashes_def split: if_splits sum.splits)
      have d: "set (dirEntries [''manifests''] t) = {x \<in> set t. below [''manifests''] (fst x) \<and> length (fst x) = 2}"
        by (auto simp: dirEntries_def)
      note cf = collectLoop_facts [OF l(1)]
      show ?thesis
      proof (intro conjI impI)
        assume "p \<in> set stale"
        then have "p \<in> set stale0" using l(2) by simp
        then obtain n where "(p, n) \<in> set (dirEntries [''manifests''] t)" "nodeTime n < now - staleManifestAge" "\<not> soundManifest env p n"
          using cf by auto
        then show "\<exists>n. (p, n) \<in> set t \<and> below [''manifests''] p \<and> nodeTime n < now - staleManifestAge \<and> \<not> soundManifest env p n"
          unfolding d by auto
      next
        assume a: "(p, n) \<in> set t" "below [''manifests''] p" "length p = 2" "soundManifest env p n"
        then have "(p, n) \<in> set (dirEntries [''manifests''] t)" unfolding d by simp
        then show "nodeRefs n \<subseteq> refs" using cf a(4) by fastforce
      qed
    qed
    then show "p \<in> set stale \<Longrightarrow> \<exists>n. (p, n) \<in> set t \<and> below [''manifests''] p \<and> nodeTime n < now - staleManifestAge \<and> \<not> soundManifest env p n"
      "(p, n) \<in> set t \<Longrightarrow> below [''manifests''] p \<Longrightarrow> length p = 2 \<Longrightarrow> soundManifest env p n \<Longrightarrow> map_of t [''manifests''] \<noteq> None \<Longrightarrow> nodeRefs n \<subseteq> refs"
      by blast+
  qed
  obtain un where u: "unreferencedClientBlobs env [''blobs''] refs now t = Inr un"
    using run h cr changed by (cases "unreferencedClientBlobs env [''blobs''] refs now t") (auto simp: pruneClientBlobCacheInDir_def)
  obtain un0 where u0: "candidateLoop env refs now (sort_key fst (filter (\<lambda>x. below [''blobs''] (fst x)) t)) = Inr un0" "un = sort un0"
    using u by (auto simp: unreferencedClientBlobs_def andThen_def split: sum.splits)
  have un: "below [''blobs''] q \<and> last q \<notin> refs" if "q \<in> set un"
    using candidateLoop_facts [OF u0(1)] that u0(2) by auto
  obtain t1 ps1 e1 where r1: "removeLoop env ''client_manifest'' now stale t = (t1, ps1, e1)" by (metis prod_cases3)
  note f1 = removeLoop_facts [OF r1, of q]
  have st: "below [''manifests''] q \<and> \<tau> < now - staleManifestAge \<and> \<not> soundManifest env q (CacheFile c \<tau>)" if "q \<in> set stale"
    using stale [OF that] uniq q by (auto simp: nodeTime_def)
  show ?thesis
  proof (cases "map_of t1 q = map_of t q")
    case False
    then have k: "q \<in> set stale" "map_of t1 q = None" "\<tau> < now" using f1 q by auto
    have "map_of t' q = None"
    proof (cases e1)
      case (Some x)
      then show ?thesis using run h cr u r1 k(2) by (simp add: pruneClientBlobCacheInDir_def)
    next
      case None
      obtain t2 ps2 e2 where r2: "removeLoop env ''client_blob'' now un t1 = (t2, ps2, e2)" by (metis prod_cases3)
      have "map_of t2 q = None" using removeLoop_facts [OF r2, of q] k(2) by auto
      then show ?thesis
        using run h cr u r1 r2 None removeEmptyClientDirs_facts [OF removeLoop_distinct [OF r2 removeLoop_distinct [OF r1 t]], of env "[''blobs'']" q]
        by (cases e2) (auto simp: pruneClientBlobCacheInDir_def)
    qed
    then show ?thesis using k st by blast
  next
    case same: True
    have "e1 = None" using run h cr u r1 same changed by (cases e1) (auto simp: pruneClientBlobCacheInDir_def)
    obtain t2 ps2 e2 where r2: "removeLoop env ''client_blob'' now un t1 = (t2, ps2, e2)" by (metis prod_cases3)
    note f2 = removeLoop_facts [OF r2, of q]
    have e: "map_of t' q = map_of t2 q \<or> map_of t2 q = Some CacheDir"
      using run h cr u r1 r2 \<open>e1 = None\<close> removeEmptyClientDirs_facts [OF removeLoop_distinct [OF r2 removeLoop_distinct [OF r1 t]], of env "[''blobs'']" q]
      by (cases e2) (auto simp: pruneClientBlobCacheInDir_def)
    have k: "q \<in> set un" "map_of t2 q = None" "\<tau> < now" using f2 e same q changed by auto
    then have t'q: "map_of t' q = None" using e by simp
    have "last q \<notin> nodeRefs n" if p: "map_of t p = Some n" "below [''manifests''] p" "length p = 2" "soundManifest env p n" for p n
    proof (cases "map_of t [''manifests'']")
      case (Some d)
      then show ?thesis using refs [OF map_of_SomeD [OF p(1)] p(2-4)] un [OF k(1)] by auto
    next
      case None
      have "(p, n) \<in> set t" using p(1) by (rule map_of_SomeD)
      then show ?thesis using ok p(2) None unfolding cacheOk_def list_all_iff by fastforce
    qed
    then show ?thesis using k t'q un by blast
  qed
qed simp

section \<open>Facts about the cached manifest\<close>

lemma fold_update_get: "map_of (fold (\<lambda>e. AList.update (Path e) e) es al) p =
  (case byPath es p of Some e \<Rightarrow> Some e | None \<Rightarrow> map_of al p)"
proof (induction es arbitrary: al)
  case (Cons e es)
  have b: "byPath (e # es) p = (case byPath es p of Some f \<Rightarrow> Some f | None \<Rightarrow> if p = Path e then Some e else None)"
    by (simp add: byPath_def map_add_def split: option.splits)
  show ?case using Cons by (simp add: b update_conv' split: option.splits)
qed (simp add: byPath_def)

lemma fold_delete_get: "map_of (fold AList.delete ds al) p = (if p \<in> set ds then None else map_of al p)"
  by (induction ds arbitrary: al) (auto simp: delete_conv')

definition keysOk :: "(string \<times> entry) list \<Rightarrow> bool" where
  "keysOk al \<longleftrightarrow> distinct (map fst al) \<and> (\<forall>x \<in> set al. Path (snd x) = fst x)"

lemma keysOk_update: "keysOk al \<Longrightarrow> keysOk (AList.update (Path e) e al)"
proof -
  assume k: "keysOk al"
  have "\<forall>x \<in> set al. Path (snd x) = fst x" using k by (simp add: keysOk_def)
  then have "\<forall>x \<in> set (AList.update (Path e) e al). Path (snd x) = fst x" by (induction al) auto
  moreover have "distinct (map fst (AList.update (Path e) e al))" by (rule distinct_update) (use k in \<open>simp add: keysOk_def\<close>)
  ultimately show ?thesis by (simp add: keysOk_def)
qed

lemma keysOk_delete: "keysOk al \<Longrightarrow> keysOk (AList.delete d al)"
  unfolding keysOk_def using distinct_delete by (auto simp: AList.delete_eq)

lemma fold_update_keys: "keysOk al \<Longrightarrow> keysOk (fold (\<lambda>e. AList.update (Path e) e) es al)"
  by (induction es arbitrary: al) (simp_all add: keysOk_update)

lemma fold_delete_keys: "keysOk al \<Longrightarrow> keysOk (fold AList.delete ds al)"
  by (induction ds arbitrary: al) (simp_all add: keysOk_delete)

lemma byPath_keys:
  assumes k: "keysOk al" and m: "mset es = mset (map snd al)"
  shows "byPath es p = map_of al p"
proof -
  have kd: "distinct (map fst al)" "\<forall>x \<in> set al. Path (snd x) = fst x" using k by (simp_all add: keysOk_def)
  then have "map Path (map snd al) = map fst al" by simp
  then have d: "distinct (map Path es)" using kd(1) m by (metis mset_eq_imp_distinct_iff mset_map)
  have s: "set es = snd ` set al" using m by (metis set_map set_mset_mset)
  show ?thesis
  proof (cases "map_of al p")
    case None
    then have "p \<notin> Path ` set es" using kd(2) s by (force simp: map_of_eq_None_iff)
    then have "byPath es p = None" by (auto simp: byPath_def map_of_eq_None_iff)
    then show ?thesis using None by simp
  next
    case (Some e)
    then have "(p, e) \<in> set al" by (rule map_of_SomeD)
    then have "e \<in> set es" "Path e = p" using s kd(2) by force+
    moreover have "distinct (map fst (rev (map (\<lambda>e. (Path e, e)) es)))" using d by (simp add: rev_map [symmetric] comp_def)
    ultimately show ?thesis using Some by (force simp: byPath_def)
  qed
qed

lemma applyManifestChanges_get:
  "byPath (applyManifestChanges prev changed deleted) p =
   (case byPath changed p of Some e \<Rightarrow> Some e | None \<Rightarrow> if p \<in> set deleted then None else byPath prev p)"
proof -
  let ?a = "fold (\<lambda>e. AList.update (Path e) e) prev []"
  let ?al = "fold (\<lambda>e. AList.update (Path e) e) changed (fold AList.delete deleted ?a)"
  have k: "keysOk ?al" by (intro fold_update_keys fold_delete_keys) (simp add: keysOk_def)
  have "mset (applyManifestChanges prev changed deleted) = mset (map snd ?al)"
    unfolding applyManifestChanges_def Let_def mset_sort ..
  then have "byPath (applyManifestChanges prev changed deleted) p = map_of ?al p" using byPath_keys k by blast
  then show ?thesis by (simp add: fold_update_get fold_delete_get split: option.splits)
qed

lemma byPath_filter_some: "byPath es k = Some e \<Longrightarrow> P e \<Longrightarrow> byPath (filter P es) k = Some e"
proof (induction es rule: rev_induct)
  case (snoc x es)
  show ?case
  proof (cases "Path x = k")
    case True
    then have "x = e" using snoc.prems(1) by simp
    then show ?thesis using True snoc.prems(2) by simp
  next
    case False
    then have "byPath (filter P es) k = Some e" using snoc by simp
    then show ?thesis using False by (cases "P x") simp_all
  qed
qed simp

lemma byPath_filtered:
  assumes "distinct (map Path es)" "byPath (filter P es) k = Some e"
  shows "byPath es k = Some e \<and> P e"
proof -
  have e: "e \<in> set es" "P e" "Path e = k" using byPath_Path [OF assms(2)] by simp_all
  show ?thesis using byPath_distinct [OF assms(1) e(1)] e by simp
qed

lemma applyManifestChanges_distinct: "distinct (map Path (applyManifestChanges prev changed deleted))"
proof -
  define al where "al = fold (\<lambda>e. AList.update (Path e) e) changed (fold AList.delete deleted (fold (\<lambda>e. AList.update (Path e) e) prev []))"
  have k: "keysOk al" unfolding al_def by (intro fold_update_keys fold_delete_keys) (simp add: keysOk_def)
  then have m: "map Path (map snd al) = map fst al" by (simp add: keysOk_def)
  have d: "distinct (map Path (map snd al))" unfolding m using k by (simp add: keysOk_def)
  have "mset (map Path (applyManifestChanges prev changed deleted)) = mset (map Path (map snd al))"
    unfolding applyManifestChanges_def Let_def al_def mset_map mset_sort ..
  then show ?thesis using d mset_eq_imp_distinct_iff by blast
qed

lemma localApplyPath_rel:
  assumes "localApplyPath p = Inr p"
  shows "relPath (pathSegs p) = p"
proof -
  have "pathClean p = p" "isLocal p" using localApplyPath_clean [OF assms] by (simp_all add: cleanLocal_def)
  then show ?thesis unfolding relPath_def by (metis isLocal_def pathClean_def)
qed

lemma cache_truth:
  assumes clean: "cleanApplyChanges changed deleted = Inr (changed, ds)" and ord: "orderOk order changed ds"
    and t: "treeOk t" and st: "storeOk sha st"
    and paths: "list_all (\<lambda>e. localApplyPath (Path e) = Inr (Path e) \<and> Path e \<noteq> ''.'') changed"
    and run: "ApplyChanges sha now env renv order changed deleted (Some st) t = (t', st', Inr ())"
    and before: "previousTrue sha root (previousFileEntries prev) dsk" "map_of (projectTree root dsk) = map_of t"
    and after: "diskOk dsk'" "map_of (projectTree root dsk') = map_of t'"
  shows "previousTrue sha root (previousFileEntries (applyManifestChanges prev changed deleted)) dsk'"
proof -
  let ?new = "applyManifestChanges prev changed deleted" and ?rs = "pathSegs root"
  have one: "case n of
        DFile m c \<tau> \<Rightarrow> \<not> below ?rs q \<or>
          (case previousFileEntries ?new (relAt root q) of
             None \<Rightarrow> True
           | Some p \<Rightarrow> Size p = int (length c) \<and> Mode p = m \<and> ModTime p = \<tau> \<longrightarrow> Hash p = sha c)
      | _ \<Rightarrow> True" if x: "(q, n) \<in> set dsk'" for q n
  proof (cases "\<exists>m c \<tau>. n = DFile m c \<tau> \<and> below ?rs q")
    case True
    then obtain m c \<tau> r where n: "n = DFile m c \<tau>" "q = ?rs @ r" by (auto simp: below_iff)
    have norm: "normalSegs (?rs @ r)" using after(1) x n(2) unfolding diskOk_def by force
    have at: "map_of dsk' (?rs @ r) = Some (DFile m c \<tau>)" using after(1) x n by (simp add: diskOk_def)
    then have t'r: "map_of t' r = Some (WFile m c \<tau>)"
      using after(2) map_of_projectTree [of root dsk' r] by (simp add: workNode_def)
    have rel: "relAt root q = relPath r" using n(2) by (simp add: relAt_def)
    have goal: "Size p = int (length c) \<and> Mode p = m \<and> ModTime p = \<tau> \<longrightarrow> Hash p = sha c"
      if p: "previousFileEntries ?new (relPath r) = Some p" for p
    proof
      assume same: "Size p = int (length c) \<and> Mode p = m \<and> ModTime p = \<tau>"
      have pn: "byPath ?new (relPath r) = Some p"
        using byPath_filtered [OF applyManifestChanges_distinct] p unfolding previousFileEntries_def by blast
      have pk: "Kind p = KindFile \<and> Hash p \<noteq> []"
        using byPath_filtered [OF applyManifestChanges_distinct] p unfolding previousFileEntries_def by blast
      show "Hash p = sha c"
      proof (cases "byPath changed (relPath r)")
        case (Some e)
        then have pe: "p = e" using pn by (simp add: applyManifestChanges_get)
        have e: "e \<in> set changed" "Path e = relPath r"
          using byPath_Path [OF Some] by simp_all
        have s: "segs e = r" using e(2) norm by (simp add: segs_def pathSegs_relPath)
        have "Path e \<noteq> ''.''" using paths e(1) by (simp add: list_all_iff)
        then have "r \<noteq> []" using e(2) by (auto simp: relPath_def)
        then obtain n' where "map_of t' r = Some n'" "nodeFits sha False e n'"
          using ApplyChanges_done(1) [OF clean ord t st run e(1)] s by auto
        then have "nodeFits sha False e (WFile m c \<tau>)" using t'r by simp
        then show ?thesis using pe pk by (auto simp: nodeFits_def)
      next
        case None
        have old: "byPath prev (relPath r) = Some p"
          using pn None by (simp add: applyManifestChanges_get split: if_splits)
        have "r \<notin> segs ` set changed"
        proof
          assume "r \<in> segs ` set changed"
          then obtain e where e: "e \<in> set changed" "segs e = r" by auto
          then have "Path e = relPath r" using paths localApplyPath_rel by (fastforce simp: list_all_iff segs_def)
          then show False using None e(1) unfolding byPath_None by force
        qed
        then have "map_of t' r = orNewDir (if removedBy order changed ds t r then None else map_of t r) (parentAbove changed r)"
          by (rule ApplyChanges_done(2) [OF clean ord t st run])
        then have "map_of t r = Some (WFile m c \<tau>)" using t'r by (auto simp: orNewDir_def split: if_splits option.splits)
        then have "map_option workNode (map_of dsk (?rs @ r)) = Some (WFile m c \<tau>)"
          using before(2) map_of_projectTree [of root dsk r] by simp
        then have d: "map_of dsk (?rs @ r) = Some (DFile m c \<tau>)"
          unfolding workNode_def by (cases "map_of dsk (?rs @ r)") (auto split: diskNode.splits)
        have "previousFileEntries prev (relAt root (?rs @ r)) = Some p"
          using byPath_filter_some [where P = "\<lambda>e. Kind e = KindFile \<and> Hash e \<noteq> []", OF old pk]
          by (simp add: previousFileEntries_def relAt_def)
        then show ?thesis
          using before(1) map_of_SomeD [OF d] same unfolding previousTrue_def list_all_iff by fastforce
      qed
    qed
    show ?thesis using goal n rel by (auto split: option.splits)
  qed (auto split: diskNode.splits)
  then show ?thesis unfolding previousTrue_def list_all_iff by blast
qed

section \<open>Properties\<close>

text \<open>
  C35. Pruning the cache of a client is safe: a file that goes was there before the scan began and
  is either a manifest that is old and cannot be used, or a blob that no usable manifest refers
  to. Everything else keeps its content, whatever step fails.
\<close>

theorem client_prune_keeps:
  assumes run: "PruneLocalCache locked unlock env now t = (t', ps, n, e)" and ok: "cacheOk t"
    and q: "map_of t q = Some (CacheFile c \<tau>)"
  shows "map_of t' q = map_of t q \<or> locked \<and> map_of t' q = None \<and> \<tau> < now
    \<and> (below [''manifests''] q \<and> \<tau> < now - staleManifestAge \<and> \<not> soundManifest env q (CacheFile c \<tau>)
      \<or> below [''blobs''] q \<and> (\<forall>p n. map_of t p = Some n \<longrightarrow> below [''manifests''] p \<longrightarrow> length p = 2 \<longrightarrow> soundManifest env p n
          \<longrightarrow> last q \<notin> nodeRefs n))"
proof (cases locked)
  case True
  obtain t1 ps1 e1 where r: "pruneClientBlobCacheInDir env now t = (t1, ps1, e1)" by (metis prod_cases3)
  then have "t' = t1" using run True by (simp add: PruneLocalCache_def)
  then show ?thesis using prune_facts [OF r ok q] True by simp
qed (use run in \<open>simp add: PruneLocalCache_def\<close>)

text \<open>
  C36. The cached manifest stays true: after changes of a run have been applied to the project and
  the cache has been brought up to date with them, a file of the project with the size, mode and
  time of its cached entry has the content that entry says. So the next scan may take the hash
  from the cache.
\<close>

theorem cached_manifest_stays_true:
  assumes clean: "cleanApplyChanges changed deleted = Inr (changed, ds)" and ord: "orderOk order changed ds"
    and t: "treeOk t" and st: "storeOk sha st"
    and paths: "list_all (\<lambda>e. localApplyPath (Path e) = Inr (Path e) \<and> Path e \<noteq> ''.'') changed"
    and run: "ApplyChanges sha now env renv order changed deleted (Some st) t = (t', st', Inr ())"
    and before: "previousTrue sha root (previousFileEntries (loadManifestCache f)) dsk" "map_of (projectTree root dsk) = map_of t"
    and after: "diskOk dsk'" "map_of (projectTree root dsk') = map_of t'"
  shows "previousTrue sha root (previousFileEntries (loadManifestCache (updateManifestCacheAfterSync True WriteOk changed deleted f))) dsk'"
proof (cases "loadCachedManifest f")
  case (Inl x)
  then have "previousFileEntries (loadManifestCache (updateManifestCacheAfterSync True WriteOk changed deleted f)) = Map.empty"
    by (simp add: updateManifestCacheAfterSync_def loadManifestCache_def previousFileEntries_def)
  then show ?thesis by (auto simp: previousTrue_def list_all_iff split: diskNode.splits)
next
  case (Inr prev)
  then have "loadManifestCache f = prev"
    "loadManifestCache (updateManifestCacheAfterSync True WriteOk changed deleted f) = applyManifestChanges prev changed deleted"
    by (simp_all add: updateManifestCacheAfterSync_def loadManifestCache_def saveCachedManifest_def writeJSONAtomically_def
        loadCachedManifest_def readJSON_def)
  then show ?thesis using cache_truth [OF clean ord t st paths run _ before(2) after] before(1) by simp
qed

section \<open>Examples\<close>

definition quietCache :: cacheEnv where
  "quietCache = \<lparr>ceNoReadDir = \<lambda>_. False, ceNoInfo = \<lambda>_. False, ceNoRead = \<lambda>_. False, ceNoRemove = \<lambda>_. False, ceSize = \<lambda>_. 5\<rparr>"

definition cachedEntry :: "string \<Rightarrow> string \<Rightarrow> int \<Rightarrow> entry" where
  "cachedEntry p c \<tau> = \<lparr>Path = p, Kind = KindFile, Hash = c, Size = int (length c), Mode = 420, ModTime = \<tau>, Linkname = []\<rparr>"

definition demoCache :: cacheTree where
  "demoCache =
     [([''manifests''], CacheDir), ([''manifests'', ''k.json''], CacheFile (CacheManifest [cachedEntry ''f'' (replicate 64 CHR ''a'') 1]) 7),
      ([''blobs''], CacheDir), ([''blobs'', ''x''], CacheDir),
      ([''blobs'', ''x'', replicate 64 CHR ''a''], CacheFile (CacheBytes ''kept'') 2),
      ([''blobs'', ''x'', replicate 64 CHR ''b''], CacheFile (CacheBytes ''gone'') 2)]"

lemma client_prune_keeps_witness:
  "let r = PruneLocalCache True None quietCache 9 demoCache; b = replicate 64 CHR ''b''
   in map_of (fst r) [''blobs'', ''x'', b] = None \<and> fst (snd (snd r)) = 5 \<and> snd (snd (snd r)) = None
     \<and> b \<notin> nodeRefs (CacheFile (CacheManifest [cachedEntry ''f'' (replicate 64 CHR ''a'') 1]) 7)"
proof -
  let ?r = "PruneLocalCache True None quietCache 9 demoCache"
  have v: "map_of (fst ?r) [''blobs'', ''x'', replicate 64 CHR ''b''] = None" "fst (snd (snd ?r)) = 5" "snd (snd (snd ?r)) = None"
    by code_simp+
  obtain t' ps n e where r: "?r = (t', ps, n, e)" by (metis prod_cases4)
  have ok: "cacheOk demoCache" by code_simp
  have q: "map_of demoCache [''blobs'', ''x'', replicate 64 CHR ''b''] = Some (CacheFile (CacheBytes ''gone'') 2)" by code_simp
  have p: "map_of demoCache [''manifests'', ''k.json''] = Some (CacheFile (CacheManifest [cachedEntry ''f'' (replicate 64 CHR ''a'') 1]) 7)"
    "below [''manifests''] [''manifests'', ''k.json'']" "\<not> below [''manifests''] [''blobs'', ''x'', replicate 64 CHR ''b'']"
    "soundManifest quietCache [''manifests'', ''k.json''] (CacheFile (CacheManifest [cachedEntry ''f'' (replicate 64 CHR ''a'') 1]) 7)"
    by code_simp+
  have "last [''blobs'', ''x'', replicate 64 CHR ''b''] \<notin> nodeRefs (CacheFile (CacheManifest [cachedEntry ''f'' (replicate 64 CHR ''a'') 1]) 7)"
    using client_prune_keeps [OF r ok q] v(1) q p r by auto
  then show ?thesis using v by simp
qed

definition cachedProject :: diskTree where
  "cachedProject = [([], DDir 493 1), ([''p''], DDir 493 1), ([''p'', ''a''], DFile 420 ''old'' 7), ([''p'', ''c''], DFile 420 ''same'' 8)]"

definition syncedProject :: diskTree where
  "syncedProject = [([], DDir 493 1), ([''p''], DDir 493 1), ([''p'', ''b''], DLink 511 ''x'' 9), ([''p'', ''c''], DFile 420 ''same'' 8)]"

lemma cached_manifest_stays_true_witness:
  "let f = Stored [cachedEntry ''a'' ''old'' 7, cachedEntry ''c'' ''same'' 8]
   in loadManifestCache (updateManifestCacheAfterSync True WriteOk [plainEntry ''b'' KindSymlink] [''a''] f)
        = [plainEntry ''b'' KindSymlink, cachedEntry ''c'' ''same'' 8]
     \<and> previousTrue (\<lambda>x. x) ''/p'' (previousFileEntries [plainEntry ''b'' KindSymlink, cachedEntry ''c'' ''same'' 8]) syncedProject"
proof -
  let ?f = "Stored [cachedEntry ''a'' ''old'' 7, cachedEntry ''c'' ''same'' 8]" and ?c = "[plainEntry ''b'' KindSymlink]"
    and ?o = "\<lambda>_. [[''a''], [''b'']]" and ?t = "projectTree ''/p'' cachedProject"
  let ?r = "ApplyChanges (\<lambda>x. x) 0 noFaults noFaults ?o ?c [''a''] (Some emptyStore) ?t"
  have u: "loadManifestCache (updateManifestCacheAfterSync True WriteOk ?c [''a''] ?f) = [plainEntry ''b'' KindSymlink, cachedEntry ''c'' ''same'' 8]"
    by code_simp
  have c: "cleanApplyChanges ?c [''a''] = Inr (?c, [''a''])" "orderOk ?o ?c [''a'']"
    "list_all (\<lambda>e. localApplyPath (Path e) = Inr (Path e) \<and> Path e \<noteq> ''.'') ?c"
    "previousTrue (\<lambda>x. x) ''/p'' (previousFileEntries (loadManifestCache ?f)) cachedProject"
    by code_simp+
  have tt: "?t = [([], WDir 493), ([''a''], WFile 420 ''old'' 7), ([''c''], WFile 420 ''same'' 8)]" by code_simp
  have t: "treeOk ?t" unfolding tt treeOk_def by auto
  have st: "storeOk (\<lambda>x. x) emptyStore" by (rule emptyStore_ok)
  have "snd (snd ?r) = Inr ()" by code_simp
  then obtain t' s where run: "?r = (t', s, Inr ())" by (metis prod.collapse)
  have "fst ?r = [([], WDir 493), ([''c''], WFile 420 ''same'' 8), ([''b''], WLink ''x'')]" by code_simp
  then have t': "t' = [([], WDir 493), ([''c''], WFile 420 ''same'' 8), ([''b''], WLink ''x'')]" using run by simp
  have "projectTree ''/p'' syncedProject = [([], WDir 493), ([''b''], WLink ''x''), ([''c''], WFile 420 ''same'' 8)]" by code_simp
  then have m: "map_of (projectTree ''/p'' syncedProject) = map_of t'" using t' by auto
  have n: "\<forall>x \<in> set syncedProject. normalSegs (fst x)" by (simp add: syncedProject_def normalSeg_def)
  have b: "\<forall>x \<in> set syncedProject. \<forall>y \<in> set syncedProject. below (fst x) (fst y) \<and> fst x \<noteq> fst y \<longrightarrow> isDDir (snd x)"
    by (simp add: syncedProject_def below_def isDDir_def)
  have d: "diskOk syncedProject" unfolding diskOk_def using n b by (simp add: syncedProject_def)
  show ?thesis
    using cached_manifest_stays_true [OF c(1,2) t st c(3) run c(4) refl d m] u by simp
qed

end
