(* ===== verification/ClientDownload.thy ===== *)
theory ClientDownload
  imports BlobTransfer "HOL-Library.AList"
begin

text \<open>
  The download of missing blobs by a client (client/client.go, client/blob\_transfer.go): the
  chunks are dealt out to workers, each keeps a window of requests in flight over a connection
  of its own and asks again over a new one when it is lost; all workers feed one receiver. What
  the other workers do between two rounds of a worker is a list of chunks they receive.
\<close>

definition downloadPipelineWindow :: nat where "downloadPipelineWindow = 8"

type_synonym blobChunkKey = "string \<times> int"

definition keyBlobChunk :: "blobChunkInfo \<Rightarrow> blobChunkKey" where
  "keyBlobChunk c = (chunkHash c, chunkOffset c)"

text \<open>\<open>pReported\<close>: the chunks reported to the progress as complete.\<close>

record pipeState =
  pPending :: "blobChunkInfo list"
  pFlight :: "(blobChunkKey \<times> blobChunkInfo) list"
  pOrder :: "blobChunkInfo list"
  pAttempts :: "blobChunkKey \<Rightarrow> nat"
  pConn :: bool
  pReported :: "blobChunkInfo list"

text \<open>The next frame: an error of the connection, or its type with what reading it gives.\<close>

datatype downFrame =
    DownLost blobError | DownHeartbeat | DownError blobError | DownChunk "chunkEvent option" | DownComplete | DownOther string

record pipeEnv =
  peOthers :: "chunkEvent list"
  peDial :: "blobError option"
  peWrite :: "nat \<Rightarrow> blobError option"
  peFrame :: downFrame
  peDiscard :: "blobError option"
  peCancelled :: bool
  peWait :: "blobError option"

type_synonym receiverState = "blobReceiver \<times> blobStore"

section \<open>A round of a worker\<close>

fun fillLoop :: "(nat \<Rightarrow> blobError option) \<Rightarrow> nat \<Rightarrow> blobChunkInfo list \<Rightarrow> pipeState \<Rightarrow> pipeState \<times> (blobError + unit)" where
  "fillLoop wr i [] s = (s, Inr ())"
| "fillLoop wr i (c # cs) s =
     (if downloadPipelineWindow \<le> length (pFlight s) then (s, Inr ())
      else
        (let s1 = s\<lparr>pPending := cs, pFlight := AList.update (keyBlobChunk c) c (pFlight s), pOrder := pOrder s @ [c]\<rparr> in
         case wr i of Some e \<Rightarrow> (s1, Inl e) | None \<Rightarrow> fillLoop wr (i + 1) cs s1))"

definition fillDownloadPipeline :: "pipeEnv \<Rightarrow> pipeState \<Rightarrow> pipeState \<times> (blobError + unit)" where
  "fillDownloadPipeline env s =
     (if \<not> pConn s \<and> peDial env \<noteq> None then (s, Inl (the (peDial env)))
      else fillLoop (peWrite env) 0 (pPending s) (s\<lparr>pConn := True\<rparr>))"

definition downloadInflight :: "pipeState \<Rightarrow> blobChunkInfo list" where
  "downloadInflight s = filter (\<lambda>c. map_of (pFlight s) (keyBlobChunk c) \<noteq> None) (pOrder s)"

definition bumpAttempt :: "blobChunkInfo \<Rightarrow> (blobChunkKey \<Rightarrow> nat) \<times> nat \<Rightarrow> (blobChunkKey \<Rightarrow> nat) \<times> nat" where
  "bumpAttempt c = (\<lambda>(attempts, maxAttempt).
     let k = keyBlobChunk c; n = attempts k + 1 in (attempts(k := n), if maxAttempt < n then n else maxAttempt))"

definition retryDownloadPipeline ::
  "pipeEnv \<Rightarrow> (blobChunkKey \<Rightarrow> nat) \<Rightarrow> blobChunkInfo list \<Rightarrow> blobError \<Rightarrow> (blobChunkKey \<Rightarrow> nat) \<times> (blobError + unit)" where
  "retryDownloadPipeline env attempts failed err =
     (if \<not> isRetryableBlobTransferError (peCancelled env) err then (attempts, Inl err)
      else if failed = [] then (attempts, Inl err)
      else (case fold bumpAttempt failed (attempts, 0) of
        (attempts', maxAttempt) \<Rightarrow>
          (attempts',
           if blobTransferMaxAttempts \<le> maxAttempt then Inl err
           else (case peWait env of Some e \<Rightarrow> Inl e | None \<Rightarrow> Inr ()))))"

text \<open>What is in flight goes back to the front of the queue, and the connection is given up.\<close>

definition failRound :: "pipeEnv \<Rightarrow> pipeState \<Rightarrow> blobError \<Rightarrow> pipeState \<times> (blobError + unit) option" where
  "failRound env s err =
     (let failed = downloadInflight s in
      case retryDownloadPipeline env (pAttempts s) failed err of
        (attempts, r) \<Rightarrow>
          (s\<lparr>pPending := failed @ pPending s, pFlight := [], pOrder := [], pAttempts := attempts, pConn := False\<rparr>,
           case r of Inl e \<Rightarrow> Some (Inl e) | Inr _ \<Rightarrow> None))"

definition discardAnd :: "pipeEnv \<Rightarrow> blobError \<Rightarrow> blobError + bool" where
  "discardAnd env e = (case peDiscard env of Some d \<Rightarrow> Inl d | None \<Rightarrow> Inl e)"

definition receiveEvent :: "(string \<Rightarrow> string) \<Rightarrow> chunkEvent \<Rightarrow> receiverState \<Rightarrow> receiverState \<times> (blobError + unit)" where
  "receiveEvent sha ev rs = ReceiveChunk sha (evWriteOk ev) (evIO ev) (evNow ev) (evInfo ev) (evAvail ev) (evLen ev) rs"

definition receiveDownloadBlobChunk ::
  "(string \<Rightarrow> string) \<Rightarrow> pipeEnv \<Rightarrow> chunkEvent option \<Rightarrow> pipeState \<times> receiverState \<Rightarrow>
   (pipeState \<times> receiverState) \<times> (blobError + bool)" where
  "receiveDownloadBlobChunk sha env frame x =
     (case frame of
        None \<Rightarrow> (x, Inl (TransferOther ''decode''))
      | Some ev \<Rightarrow>
          (let (s, rs) = x; key = keyBlobChunk (evInfo ev) in
           if map_of (pFlight s) key = None then (x, discardAnd env (UnexpectedChunk (chunkHash (evInfo ev))))
           else (case receiveEvent sha ev rs of
             (rs', Inl e) \<Rightarrow> ((s, rs'), Inl e)
           | (rs', Inr _) \<Rightarrow>
               ((s\<lparr>pFlight := AList.delete key (pFlight s), pReported := pReported s @ [evInfo ev]\<rparr>, rs'), Inr False))))"

text \<open>The value says whether the host is done.\<close>

definition handleDownloadBlobTransferFrame ::
  "(string \<Rightarrow> string) \<Rightarrow> pipeEnv \<Rightarrow> pipeState \<times> receiverState \<Rightarrow> (pipeState \<times> receiverState) \<times> (blobError + bool)" where
  "handleDownloadBlobTransferFrame sha env x =
     (case peFrame env of
        DownLost e \<Rightarrow> (x, Inl e)
      | DownHeartbeat \<Rightarrow> (x, case peDiscard env of Some e \<Rightarrow> Inl e | None \<Rightarrow> Inr False)
      | DownError e \<Rightarrow> (x, Inl e)
      | DownChunk frame \<Rightarrow> receiveDownloadBlobChunk sha env frame x
      | DownComplete \<Rightarrow> (x, Inr True)
      | DownOther t \<Rightarrow> (x, discardAnd env (TransferOther t)))"

text \<open>One round of the loop; \<open>None\<close>: it goes on.\<close>

definition pipeRound ::
  "(string \<Rightarrow> string) \<Rightarrow> pipeEnv \<Rightarrow> pipeState \<times> receiverState \<Rightarrow> (pipeState \<times> receiverState) \<times> (blobError + unit) option" where
  "pipeRound sha env x =
     (let (s, rs) = x in
      if pPending s = [] \<and> pFlight s = [] then (x, Some (Inr ()))
      else (case fillDownloadPipeline env s of
        (s1, Inl err) \<Rightarrow> (case failRound env s1 err of (s2, r) \<Rightarrow> ((s2, rs), r))
      | (s1, Inr _) \<Rightarrow>
          if pFlight s1 = [] then ((s1, rs), None)
          else (case handleDownloadBlobTransferFrame sha env (s1, fold (\<lambda>ev rs. fst (receiveEvent sha ev rs)) (peOthers env) rs) of
            ((s2, rs2), Inl err) \<Rightarrow> (case failRound env s2 err of (s3, r) \<Rightarrow> ((s3, rs2), r))
          | ((s2, rs2), Inr complete) \<Rightarrow> ((if complete then s2\<lparr>pFlight := [], pOrder := []\<rparr> else s2, rs2), None))))"

fun pipeRounds ::
  "(string \<Rightarrow> string) \<Rightarrow> pipeEnv list \<Rightarrow> pipeState \<times> receiverState \<Rightarrow> (pipeState \<times> receiverState) \<times> (blobError + unit) option" where
  "pipeRounds sha [] x = (x, None)"
| "pipeRounds sha (env # envs) x =
     (case pipeRound sha env x of (x', None) \<Rightarrow> pipeRounds sha envs x' | (x', Some r) \<Rightarrow> (x', Some r))"

definition startPipe :: "blobChunkInfo list \<Rightarrow> pipeState" where
  "startPipe chunks =
     \<lparr>pPending = chunks, pFlight = [], pOrder = [], pAttempts = (\<lambda>_. 0), pConn = False, pReported = []\<rparr>"

definition downloadBlobChunksPipelined ::
  "(string \<Rightarrow> string) \<Rightarrow> pipeEnv list \<Rightarrow> blobChunkInfo list \<Rightarrow> receiverState \<Rightarrow>
   (pipeState \<times> receiverState) \<times> (blobError + unit) option" where
  "downloadBlobChunksPipelined sha envs chunks rs = pipeRounds sha envs (startPipe chunks, rs)"

section \<open>The workers and the wait for them\<close>

definition downloadChunkGroups :: "blobChunkInfo list \<Rightarrow> int \<Rightarrow> blobChunkInfo list list" where
  "downloadChunkGroups chunks parallel =
     (let p = nat (min (max 1 parallel) (int (length chunks))) in
      map (\<lambda>j. map (\<lambda>i. chunks ! i) (filter (\<lambda>i. i mod p = j) [0..<length chunks])) [0..<p])"

definition maxBlobTransferParallel :: int where "maxBlobTransferParallel = 16"

definition downloadParallelism :: "int \<Rightarrow> int \<Rightarrow> int \<Rightarrow> int" where
  "downloadParallelism numCPU wanted totalChunks =
     (let p0 = (if wanted \<le> 0 then transferParallelism numCPU totalChunks else wanted);
          p1 = (if maxBlobTransferParallel < p0 then maxBlobTransferParallel else p0);
          p2 = (if totalChunks < p1 then totalChunks else p1) in
      if p2 < 1 then 1 else p2)"

text \<open>What the select of the wait takes: an error of a worker, the end of the receiver, the end of the workers, the context.\<close>

datatype waitPick = PickError blobError | PickReceiver "blobError + unit" | PickWorkers | PickContext

text \<open>
  \<open>seen\<close>: the receiver has ended. The end of the workers is taken again and again until then.
  The value of an error is also what fails the receiver.
\<close>

fun waitForBlobDownload :: "bool \<Rightarrow> waitPick list \<Rightarrow> (blobError + unit) option" where
  "waitForBlobDownload seen [] = None"
| "waitForBlobDownload seen (PickError e # ps) = Some (Inl e)"
| "waitForBlobDownload seen (PickReceiver r # ps) =
     (if seen then waitForBlobDownload seen ps
      else (case r of Inl e \<Rightarrow> Some (Inl e) | Inr _ \<Rightarrow> waitForBlobDownload True ps))"
| "waitForBlobDownload seen (PickWorkers # ps) = (if seen then Some (Inr ()) else waitForBlobDownload seen ps)"
| "waitForBlobDownload seen (PickContext # ps) = Some (Inl TransferCancelled)"

section \<open>Facts\<close>

definition pipeOk :: "blobChunkKey set \<Rightarrow> pipeState \<Rightarrow> bool" where
  "pipeOk K s \<longleftrightarrow>
     distinct (map keyBlobChunk (pOrder s @ pPending s)) \<and> distinct (map fst (pFlight s))
     \<and> fst ` set (pFlight s) \<subseteq> keyBlobChunk ` set (pOrder s) \<and> keyBlobChunk ` set (pOrder s @ pPending s) \<subseteq> K"

definition pipeCovers :: "blobChunkKey set \<Rightarrow> pipeState \<Rightarrow> bool" where
  "pipeCovers K s \<longleftrightarrow>
     K \<subseteq> keyBlobChunk ` set (pPending s) \<union> fst ` set (pFlight s) \<union> keyBlobChunk ` set (pReported s)"

definition openChunks :: "pipeState \<Rightarrow> nat" where
  "openChunks s = length (pPending s) + length (pFlight s)"

lemma update_new: "k \<notin> fst ` set al \<Longrightarrow> AList.update k v al = al @ [(k, v)]"
  by (induction al) auto

lemma fillLoop_facts:
  assumes "fillLoop wr i cs s = (s', r)" "pPending s = cs" "pipeOk K s"
  shows "pipeOk K s' \<and> (pipeCovers K s \<longrightarrow> pipeCovers K s') \<and> openChunks s' = openChunks s \<and> pAttempts s' = pAttempts s
    \<and> pReported s' = pReported s \<and> (r = Inr () \<longrightarrow> openChunks s \<noteq> 0 \<longrightarrow> pFlight s' \<noteq> [])"
  using assms
proof (induction wr i cs s rule: fillLoop.induct)
  case (1 wr i s)
  then show ?case by (auto simp: openChunks_def)
next
  case (2 wr i c cs s)
  show ?case
  proof (cases "downloadPipelineWindow \<le> length (pFlight s)")
    case True
    then show ?thesis using 2 by (auto simp: downloadPipelineWindow_def)
  next
    case False
    let ?s1 = "s\<lparr>pPending := cs, pFlight := AList.update (keyBlobChunk c) c (pFlight s), pOrder := pOrder s @ [c]\<rparr>"
    have new: "keyBlobChunk c \<notin> fst ` set (pFlight s)"
      using "2.prems"(2,3) by (auto simp: pipeOk_def)
    have len: "length (AList.update (keyBlobChunk c) c (pFlight s)) = length (pFlight s) + 1"
      using new by (simp add: update_new)
    have inv: "pipeOk K ?s1"
      using "2.prems"(2,3) new by (auto simp: pipeOk_def distinct_update dom_update)
    have cov: "pipeCovers K s \<longrightarrow> pipeCovers K ?s1"
      using "2.prems"(2) by (auto simp: pipeCovers_def dom_update)
    have op: "openChunks ?s1 = openChunks s" using "2.prems"(2) len by (simp add: openChunks_def)
    show ?thesis
    proof (cases "wr i")
      case None
      then have run: "fillLoop wr (i + 1) cs ?s1 = (s', r)" using "2.prems"(1) False by simp
      show ?thesis using "2.IH" [OF False refl None run] inv cov op by simp
    next
      case (Some e)
      then show ?thesis using "2.prems"(1) False inv cov op by auto
    qed
  qed
qed

lemma fill_facts:
  assumes "fillDownloadPipeline env s = (s', r)" "pipeOk K s"
  shows "pipeOk K s' \<and> (pipeCovers K s \<longrightarrow> pipeCovers K s') \<and> openChunks s' = openChunks s \<and> pAttempts s' = pAttempts s
    \<and> pReported s' = pReported s \<and> (r = Inr () \<longrightarrow> openChunks s \<noteq> 0 \<longrightarrow> pFlight s' \<noteq> [])"
proof (cases "\<not> pConn s \<and> peDial env \<noteq> None")
  case True
  then show ?thesis using assms by (auto simp: fillDownloadPipeline_def)
next
  case False
  have "pipeOk K (s\<lparr>pConn := True\<rparr>)" using assms(2) by (simp add: pipeOk_def)
  then have "pipeOk K s' \<and> (pipeCovers K (s\<lparr>pConn := True\<rparr>) \<longrightarrow> pipeCovers K s') \<and> openChunks s' = openChunks (s\<lparr>pConn := True\<rparr>)
      \<and> pAttempts s' = pAttempts (s\<lparr>pConn := True\<rparr>) \<and> pReported s' = pReported (s\<lparr>pConn := True\<rparr>)
      \<and> (r = Inr () \<longrightarrow> openChunks (s\<lparr>pConn := True\<rparr>) \<noteq> 0 \<longrightarrow> pFlight s' \<noteq> [])"
    by (intro fillLoop_facts [where wr = "peWrite env" and i = 0 and cs = "pPending s"])
      (use assms(1) False in \<open>auto simp: fillDownloadPipeline_def\<close>)
  then show ?thesis by (auto simp: pipeCovers_def openChunks_def)
qed

lemma inflight_facts:
  assumes "pipeOk K s"
  shows "distinct (map keyBlobChunk (downloadInflight s))" "keyBlobChunk ` set (downloadInflight s) = fst ` set (pFlight s)"
    "length (downloadInflight s) = length (pFlight s)"
proof -
  have d: "distinct (map keyBlobChunk (pOrder s))" "distinct (map fst (pFlight s))"
      "fst ` set (pFlight s) \<subseteq> keyBlobChunk ` set (pOrder s)"
    using assms by (simp_all add: pipeOk_def)
  show dist: "distinct (map keyBlobChunk (downloadInflight s))"
    unfolding downloadInflight_def by (rule distinct_map_filter [OF d(1)])
  show keys: "keyBlobChunk ` set (downloadInflight s) = fst ` set (pFlight s)"
    using d(3) by (force simp: downloadInflight_def map_of_eq_None_iff)
  have "length (downloadInflight s) = card (keyBlobChunk ` set (downloadInflight s))"
    using distinct_card [OF dist] by simp
  also have "\<dots> = length (pFlight s)" using distinct_card [OF d(2)] keys by simp
  finally show "length (downloadInflight s) = length (pFlight s)" .
qed

lemma bump_facts:
  assumes "fold bumpAttempt cs (att, m) = (att', m')" "distinct (map keyBlobChunk cs)"
  shows "att' = (\<lambda>k. if k \<in> keyBlobChunk ` set cs then att k + 1 else att k) \<and> m \<le> m'
    \<and> (\<forall>c \<in> set cs. att' (keyBlobChunk c) \<le> m')"
  using assms
proof (induction cs arbitrary: att m)
  case (Cons c cs)
  let ?k = "keyBlobChunk c" and ?n = "att (keyBlobChunk c) + 1"
  have b: "bumpAttempt c (att, m) = (att(?k := ?n), max m ?n)"
    by (simp add: bumpAttempt_def Let_def max_def)
  have ih: "att' = (\<lambda>k. if k \<in> keyBlobChunk ` set cs then (att(?k := ?n)) k + 1 else (att(?k := ?n)) k) \<and> max m ?n \<le> m'
      \<and> (\<forall>c \<in> set cs. att' (keyBlobChunk c) \<le> m')"
  proof (rule Cons.IH)
    show "fold bumpAttempt cs (att(?k := ?n), max m ?n) = (att', m')"
      using Cons.prems(1) unfolding list.set fold_Cons o_apply b .
  qed (use Cons.prems(2) in simp)
  have fresh: "?k \<notin> keyBlobChunk ` set cs" using Cons.prems(2) by simp
  then have e: "att' = (\<lambda>k. if k \<in> keyBlobChunk ` set (c # cs) then att k + 1 else att k)" using ih by (auto simp: fun_eq_iff)
  have "\<forall>x \<in> set (c # cs). att' (keyBlobChunk x) \<le> m'"
  proof
    fix x assume x: "x \<in> set (c # cs)"
    show "att' (keyBlobChunk x) \<le> m'"
    proof (cases "x = c")
      case True
      have "att' ?k = ?n" by (simp add: e)
      then show ?thesis using conjunct1 [OF conjunct2 [OF ih]] True by simp
    next
      case False
      then have "x \<in> set cs" using x by simp
      then show ?thesis by (rule bspec [OF conjunct2 [OF conjunct2 [OF ih]]])
    qed
  qed
  moreover have "m \<le> m'" using ih by simp
  ultimately show ?case using e by blast
qed simp

text \<open>What is left to do: open chunks, and the retries their keys still have.\<close>

definition pipeLeft :: "blobChunkKey set \<Rightarrow> pipeState \<Rightarrow> nat" where
  "pipeLeft K s = openChunks s + (\<Sum>k \<in> K. blobTransferMaxAttempts - 1 - pAttempts s k)"

lemma failRound_error: "failRound env s err = (s', Some x) \<Longrightarrow> \<exists>e. x = Inl e"
  by (auto simp: failRound_def Let_def split: prod.splits sum.splits)

lemma delete_dom: "fst ` set (AList.delete k al) = fst ` set al - {k}"
proof -
  have "fst ` set (AList.delete k al) = set (map fst (AList.delete k al))" by simp
  also have "\<dots> = fst ` set al - {k}" by (simp add: delete_keys)
  finally show ?thesis .
qed

lemma failRound_goes_on:
  assumes run: "failRound env s err = (s', None)" and inv: "pipeOk K s" and fin: "finite K"
  shows "pipeOk K s' \<and> (pipeCovers K s \<longrightarrow> pipeCovers K s') \<and> pReported s' = pReported s \<and> pipeLeft K s' < pipeLeft K s"
proof -
  let ?f = "downloadInflight s" and ?att = "pAttempts s"
  note inf = inflight_facts [OF inv]
  obtain att m where b: "fold bumpAttempt ?f (?att, 0) = (att, m)" by fastforce
  have r: "?f \<noteq> []" "m < blobTransferMaxAttempts"
      "s' = s\<lparr>pPending := ?f @ pPending s, pFlight := [], pOrder := [], pAttempts := att, pConn := False\<rparr>"
    using run b by (auto simp: failRound_def retryDownloadPipeline_def Let_def split: if_splits option.splits)
  note bf = bump_facts [OF b inf(1)]
  have sub: "set ?f \<subseteq> set (pOrder s)" by (auto simp: downloadInflight_def)
  have d: "distinct (map keyBlobChunk (pOrder s @ pPending s))" "keyBlobChunk ` set (pOrder s @ pPending s) \<subseteq> K"
    using inv by (simp_all add: pipeOk_def)
  have "pipeOk K s'"
    using d inf(1) sub r(3) by (auto simp: pipeOk_def)
  moreover have "pipeCovers K s \<longrightarrow> pipeCovers K s'"
    unfolding pipeCovers_def r(3) by (simp add: image_Un inf(2)) blast
  moreover have "pipeLeft K s' < pipeLeft K s"
  proof -
    have op: "openChunks s' = openChunks s" using inf(3) r(3) by (simp add: openChunks_def)
    obtain c where c: "c \<in> set ?f" using r(1) by (cases ?f) auto
    have k: "keyBlobChunk c \<in> K" using c sub d(2) by auto
    have "att (keyBlobChunk c) = ?att (keyBlobChunk c) + 1" using bf c by simp
    moreover have "att (keyBlobChunk c) \<le> m" using bf c by blast
    ultimately have lt: "blobTransferMaxAttempts - 1 - att (keyBlobChunk c) < blobTransferMaxAttempts - 1 - ?att (keyBlobChunk c)"
      using r(2) by simp
    have le: "blobTransferMaxAttempts - 1 - att k \<le> blobTransferMaxAttempts - 1 - ?att k" for k
    proof -
      have "?att k \<le> att k" using bf by simp
      then show ?thesis by (rule diff_le_mono2)
    qed
    have "(\<Sum>k \<in> K. blobTransferMaxAttempts - 1 - att k) < (\<Sum>k \<in> K. blobTransferMaxAttempts - 1 - ?att k)"
      by (rule sum_strict_mono_ex1 [OF fin]) (use le lt k in blast)+
    then show ?thesis using op r(3) by (simp add: pipeLeft_def)
  qed
  ultimately show ?thesis using r(3) by simp
qed

definition isHeartbeat :: "pipeEnv \<Rightarrow> bool" where
  "isHeartbeat env = (peFrame env = DownHeartbeat)"

lemma frame_facts:
  assumes run: "handleDownloadBlobTransferFrame sha env (s, rs) = ((s', rs'), r)" and inv: "pipeOk K s" and fl: "pFlight s \<noteq> []"
  shows "pipeOk K s' \<and> (pipeCovers K s \<longrightarrow> pipeCovers K s')
    \<and> (case r of
        Inl e \<Rightarrow> s' = s
      | Inr True \<Rightarrow> s' = s \<and> peFrame env = DownComplete
      | Inr False \<Rightarrow> pipeLeft K s' \<le> pipeLeft K s \<and> (\<not> isHeartbeat env \<longrightarrow> pipeLeft K s' < pipeLeft K s))"
proof (cases "\<exists>ev. peFrame env = DownChunk (Some ev) \<and> map_of (pFlight s) (keyBlobChunk (evInfo ev)) \<noteq> None
    \<and> snd (receiveEvent sha ev rs) = Inr ()")
  case True
  then obtain ev c rs1 where ev: "peFrame env = DownChunk (Some ev)" "map_of (pFlight s) (keyBlobChunk (evInfo ev)) = Some c"
      "receiveEvent sha ev rs = (rs1, Inr ())" by (metis not_Some_eq prod.collapse)
  let ?k = "keyBlobChunk (evInfo ev)"
  have s': "s' = s\<lparr>pFlight := AList.delete ?k (pFlight s), pReported := pReported s @ [evInfo ev]\<rparr>" "r = Inr False"
    using run ev by (auto simp: handleDownloadBlobTransferFrame_def receiveDownloadBlobChunk_def Let_def)
  have d: "distinct (map fst (pFlight s))" using inv by (simp add: pipeOk_def)
  have k: "?k \<in> fst ` set (pFlight s)" using ev(2) map_of_SomeD by force
  have shorter: "length (AList.delete ?k (pFlight s)) < length (pFlight s)"
    using k by (auto simp: AList.delete_eq intro!: length_filter_less)
  have "pipeOk K s'"
    using inv distinct_delete [OF d] s'(1) by (auto simp: pipeOk_def AList.delete_eq)
  moreover have "pipeCovers K s \<longrightarrow> pipeCovers K s'" using s'(1) by (auto simp: pipeCovers_def delete_dom)
  moreover have "pipeLeft K s' < pipeLeft K s" using s'(1) shorter by (simp add: pipeLeft_def openChunks_def)
  ultimately show ?thesis using s'(2) by simp
next
  case False
  have "s' = s \<and> (\<forall>b. r = Inr b \<longrightarrow> b \<and> peFrame env = DownComplete \<or> \<not> b \<and> isHeartbeat env)"
  proof (cases "peFrame env")
    case (DownChunk f)
    show ?thesis
    proof (cases f)
      case (Some ev)
      obtain rs1 u where e: "receiveEvent sha ev rs = (rs1, u)" by fastforce
      show ?thesis
        using run DownChunk Some False e
        by (cases u; cases "map_of (pFlight s) (keyBlobChunk (evInfo ev))"; cases "peDiscard env")
          (auto simp: handleDownloadBlobTransferFrame_def receiveDownloadBlobChunk_def discardAnd_def Let_def)
    qed (use run DownChunk in \<open>auto simp: handleDownloadBlobTransferFrame_def receiveDownloadBlobChunk_def\<close>)
  qed (use run in \<open>auto simp: handleDownloadBlobTransferFrame_def isHeartbeat_def discardAnd_def split: option.splits\<close>)
  then show ?thesis using inv by (auto split: sum.splits bool.splits)
qed

lemma pipeRound_facts:
  assumes run: "pipeRound sha env (s, rs) = ((s', rs'), r)" and inv: "pipeOk K s" and fin: "finite K"
  shows "case r of
      Some (Inr u) \<Rightarrow> s' = s \<and> openChunks s = 0
    | Some (Inl e) \<Rightarrow> True
    | None \<Rightarrow> pipeOk K s' \<and> (peFrame env \<noteq> DownComplete \<longrightarrow> pipeCovers K s \<longrightarrow> pipeCovers K s')
        \<and> pipeLeft K s' \<le> pipeLeft K s \<and> (\<not> isHeartbeat env \<longrightarrow> pipeLeft K s' < pipeLeft K s)"
proof (cases "openChunks s = 0")
  case True
  then show ?thesis using run by (auto simp: pipeRound_def openChunks_def)
next
  case False
  obtain s1 fr where f: "fillDownloadPipeline env s = (s1, fr)" by fastforce
  note ff = fill_facts [OF f inv]
  have left1: "pipeLeft K s1 = pipeLeft K s" using ff by (simp add: pipeLeft_def)
  have ne: "\<not> (pPending s = [] \<and> pFlight s = [])" using False by (auto simp: openChunks_def)
  show ?thesis
  proof (cases fr)
    case (Inl err)
    then have run': "failRound env s1 err = (s', r)" using run ne f by (auto simp: pipeRound_def split: prod.splits)
    show ?thesis
    proof (cases r)
      case None
      then show ?thesis using failRound_goes_on [of env s1 err s' K] run' ff fin left1 by auto
    next
      case (Some x)
      have "\<exists>e. x = Inl e" using run' unfolding Some by (rule failRound_error)
      then show ?thesis using Some by auto
    qed
  next
    case (Inr u)
    then have fl: "pFlight s1 \<noteq> []" using ff False by simp
    let ?rs = "fold (\<lambda>ev rs. fst (receiveEvent sha ev rs)) (peOthers env) rs"
    obtain s2 rs2 hr where h: "handleDownloadBlobTransferFrame sha env (s1, ?rs) = ((s2, rs2), hr)" by (metis prod.collapse)
    have i1: "pipeOk K s1" using ff by simp
    note hf = frame_facts [OF h i1 fl]
    show ?thesis
    proof (cases hr)
      case (Inl err)
      then have run': "failRound env s2 err = (s', r)" using run ne f Inr fl h by (auto simp: pipeRound_def split: prod.splits)
      have s2: "s2 = s1" using hf Inl by simp
      show ?thesis
      proof (cases r)
        case None
        then show ?thesis using failRound_goes_on [of env s1 err s' K] run' s2 ff fin left1 by auto
      next
        case (Some x)
        have "\<exists>e. x = Inl e" using run' unfolding Some by (rule failRound_error)
        then show ?thesis using Some by auto
      qed
    next
      case hr: (Inr b)
      have r: "r = None" "s' = (if b then s2\<lparr>pFlight := [], pOrder := []\<rparr> else s2)"
        using run ne f Inr fl h hr by (auto simp: pipeRound_def split: if_splits)
      show ?thesis
      proof (cases b)
        case True
        have k: "s2 = s1" "peFrame env = DownComplete" using hf hr True by simp_all
        have "pipeOk K s'" using i1 r(2) True k(1) by (auto simp: pipeOk_def)
        moreover have "pipeLeft K s' < pipeLeft K s"
        proof -
          have "0 < length (pFlight s1)" using fl by simp
          then have "pipeLeft K s' < pipeLeft K s1" using r(2) True k(1) by (simp add: pipeLeft_def openChunks_def)
          then show ?thesis using left1 by simp
        qed
        ultimately show ?thesis using r(1) k(2) by simp
      next
        case False
        then show ?thesis using hf hr r ff left1 by simp
      qed
    qed
  qed
qed

lemma pipeRounds_facts:
  assumes "pipeRounds sha envs (s, rs) = ((s', rs'), r)" "pipeOk K s" "finite K"
  shows "(r = Some (Inr ()) \<longrightarrow> (\<forall>env \<in> set envs. peFrame env \<noteq> DownComplete) \<longrightarrow> pipeCovers K s \<longrightarrow> K \<subseteq> keyBlobChunk ` set (pReported s'))
    \<and> (r = None \<longrightarrow> length (filter (\<lambda>env. \<not> isHeartbeat env) envs) + pipeLeft K s' \<le> pipeLeft K s)"
  using assms
proof (induction envs arbitrary: s rs)
  case (Cons env envs)
  obtain s1 rs1 r1 where p: "pipeRound sha env (s, rs) = ((s1, rs1), r1)" by (metis prod.collapse)
  note f = pipeRound_facts [OF p Cons.prems(2,3)]
  show ?case
  proof (cases r1)
    case None
    then have run: "pipeRounds sha envs (s1, rs1) = ((s', rs'), r)" using Cons.prems(1) p by simp
    have inv: "pipeOk K s1" using f None by simp
    have ih: "(r = Some (Inr ()) \<longrightarrow> (\<forall>env \<in> set envs. peFrame env \<noteq> DownComplete) \<longrightarrow> pipeCovers K s1 \<longrightarrow> K \<subseteq> keyBlobChunk ` set (pReported s'))
        \<and> (r = None \<longrightarrow> length (filter (\<lambda>env. \<not> isHeartbeat env) envs) + pipeLeft K s' \<le> pipeLeft K s1)"
      by (rule Cons.IH [OF run inv Cons.prems(3)])
    show ?thesis
    proof (intro conjI impI)
      assume "r = Some (Inr ())" "\<forall>env \<in> set (env # envs). peFrame env \<noteq> DownComplete" "pipeCovers K s"
      then show "K \<subseteq> keyBlobChunk ` set (pReported s')" using ih f None by simp
    next
      assume "r = None"
      then have "length (filter (\<lambda>env. \<not> isHeartbeat env) envs) + pipeLeft K s' \<le> pipeLeft K s1" using ih by blast
      then show "length (filter (\<lambda>env. \<not> isHeartbeat env) (env # envs)) + pipeLeft K s' \<le> pipeLeft K s" using f None by auto
    qed
  next
    case (Some x)
    then have e: "s' = s1" "r = Some x" using Cons.prems(1) p by auto
    show ?thesis
    proof (intro conjI impI)
      assume "r = Some (Inr ())" "pipeCovers K s"
      then have "s1 = s" "openChunks s = 0" using f Some e by auto
      then show "K \<subseteq> keyBlobChunk ` set (pReported s')" using \<open>pipeCovers K s\<close> e by (auto simp: pipeCovers_def openChunks_def)
    qed (use e in simp)
  qed
qed simp

section \<open>Properties\<close>

lemma startPipe_facts:
  assumes "distinct (map keyBlobChunk chunks)"
  shows "pipeOk (keyBlobChunk ` set chunks) (startPipe chunks)" "pipeCovers (keyBlobChunk ` set chunks) (startPipe chunks)"
    "pipeLeft (keyBlobChunk ` set chunks) (startPipe chunks) = blobTransferMaxAttempts * length chunks"
proof -
  have c: "card (keyBlobChunk ` set chunks) = length chunks" using distinct_card [OF assms] by simp
  show "pipeOk (keyBlobChunk ` set chunks) (startPipe chunks)" "pipeCovers (keyBlobChunk ` set chunks) (startPipe chunks)"
    using assms by (simp_all add: pipeOk_def pipeCovers_def startPipe_def)
  show "pipeLeft (keyBlobChunk ` set chunks) (startPipe chunks) = blobTransferMaxAttempts * length chunks"
    using c by (simp add: pipeLeft_def startPipe_def openChunks_def blobTransferMaxAttempts_def)
qed

text \<open>
  C33. A download worker delivers its whole group: when it ends without an error and the host did
  not cut the transfer short, the receiver has taken every chunk of the group, whatever
  connections were lost on the way and in whatever order the chunks came.
\<close>

theorem download_worker_delivers:
  assumes "downloadBlobChunksPipelined sha envs chunks rs = ((s', rs'), Some (Inr ()))"
    and "distinct (map keyBlobChunk chunks)" and "list_all (\<lambda>env. peFrame env \<noteq> DownComplete) envs"
  shows "keyBlobChunk ` set chunks \<subseteq> keyBlobChunk ` set (pReported s')"
  using pipeRounds_facts [OF assms(1) [unfolded downloadBlobChunksPipelined_def] startPipe_facts(1) [OF assms(2)]]
    startPipe_facts(2) [OF assms(2)] assms(3) by (simp add: list_all_iff)

text \<open>
  C34. A download worker ends: after at most five rounds for each chunk of its group, those that
  only read a heartbeat not counted, it has finished or failed; retries cannot go on for ever.
\<close>

theorem download_worker_ends:
  assumes "distinct (map keyBlobChunk chunks)"
    and "blobTransferMaxAttempts * length chunks < length (filter (\<lambda>env. \<not> isHeartbeat env) envs)"
  shows "snd (downloadBlobChunksPipelined sha envs chunks rs) \<noteq> None"
proof
  assume n: "snd (downloadBlobChunksPipelined sha envs chunks rs) = None"
  obtain s' rs' where r: "pipeRounds sha envs (startPipe chunks, rs) = ((s', rs'), None)"
    using n by (metis downloadBlobChunksPipelined_def prod.collapse)
  show False using pipeRounds_facts [OF r startPipe_facts(1) [OF assms(1)]] startPipe_facts(3) [OF assms(1)] assms(2) by simp
qed

text \<open>The wait returns without an error only after both the workers and the receiver are through.\<close>

lemma waitForBlobDownload_done:
  "waitForBlobDownload seen ps = Some (Inr ()) \<Longrightarrow> (seen \<or> PickReceiver (Inr ()) \<in> set ps) \<and> PickWorkers \<in> set ps"
  by (induction seen ps rule: waitForBlobDownload.induct) (auto split: if_splits sum.splits)

text \<open>Every chunk is in exactly one group.\<close>

lemma downloadChunkGroups_all: "set (concat (downloadChunkGroups chunks parallel)) = set chunks"
proof -
  let ?p = "nat (min (max 1 parallel) (int (length chunks)))"
  show ?thesis
  proof (cases "chunks = []")
    case True
    then show ?thesis by (simp add: downloadChunkGroups_def)
  next
    case False
    then have p: "0 < ?p" by (cases chunks) auto
    show ?thesis
    proof (intro equalityI subsetI)
      fix x assume "x \<in> set chunks"
      then obtain i where i: "i < length chunks" "x = chunks ! i" by (auto simp: in_set_conv_nth)
      let ?g = "map (\<lambda>i. chunks ! i) (filter (\<lambda>k. k mod ?p = i mod ?p) [0..<length chunks])"
      have "x \<in> set ?g" using i by simp
      moreover have "?g \<in> set (downloadChunkGroups chunks parallel)"
        unfolding downloadChunkGroups_def Let_def set_map using p by (intro image_eqI [of _ _ "i mod ?p"]) simp_all
      ultimately show "x \<in> set (concat (downloadChunkGroups chunks parallel))" unfolding set_concat by (rule UN_I [rotated])
    qed (auto simp: downloadChunkGroups_def Let_def)
  qed
qed

section \<open>Examples\<close>

definition calmPipe :: "downFrame \<Rightarrow> pipeEnv" where
  "calmPipe f = \<lparr>peOthers = [], peDial = None, peWrite = (\<lambda>_. None), peFrame = f, peDiscard = None, peCancelled = False, peWait = None\<rparr>"

lemma download_worker_delivers_witness:
  "case downloadBlobChunksPipelined demoSha [calmPipe (DownLost ConnLost), calmPipe (DownChunk (Some demoEvent)), calmPipe DownHeartbeat]
      [demoChunk 0] (demoReceiver, emptyStore) of
     (x, r) \<Rightarrow> r = Some (Inr ()) \<and> keyBlobChunk (demoChunk 0) \<in> keyBlobChunk ` set (pReported (fst x))"
proof -
  let ?envs = "[calmPipe (DownLost ConnLost), calmPipe (DownChunk (Some demoEvent)), calmPipe DownHeartbeat]"
  obtain r st where r: "ReceiveChunk demoSha True None 7 (demoChunk 0) ''hello'' 5 (demoReceiver, emptyStore) = ((r, st), Inr ())"
    using demo_received by blast
  have "snd (downloadBlobChunksPipelined demoSha ?envs [demoChunk 0] (demoReceiver, emptyStore)) = Some (Inr ())"
    using r by (simp add: downloadBlobChunksPipelined_def pipeRound_def startPipe_def calmPipe_def fillDownloadPipeline_def
        downloadPipelineWindow_def handleDownloadBlobTransferFrame_def keyBlobChunk_def failRound_def retryDownloadPipeline_def
        downloadInflight_def bumpAttempt_def isRetryableBlobTransferError_def isDisconnectError_def blobTransferMaxAttempts_def
        receiveDownloadBlobChunk_def receiveEvent_def demoEvent_def Let_def)
  then obtain s rs where run: "downloadBlobChunksPipelined demoSha ?envs [demoChunk 0] (demoReceiver, emptyStore) = ((s, rs), Some (Inr ()))"
    by (metis prod.collapse)
  show ?thesis using download_worker_delivers [OF run] run by (simp add: calmPipe_def)
qed

lemma download_worker_ends_witness:
  "snd (downloadBlobChunksPipelined (\<lambda>x. x) (replicate 6 (calmPipe (DownLost ConnLost))) [demoChunk 0] (demoReceiver, emptyStore)) \<noteq> None"
  by (rule download_worker_ends) (simp_all add: blobTransferMaxAttempts_def isHeartbeat_def calmPipe_def numeral_eq_Suc)

text \<open>
  A \<open>sync_complete\<close> frame ends the worker without an error even when chunks are outstanding;
  they are then neither received nor asked for again.
\<close>

lemma early_complete_loses_chunks:
  "case downloadBlobChunksPipelined (\<lambda>x. x) [calmPipe DownComplete, calmPipe DownComplete] [demoChunk 0] (demoReceiver, emptyStore) of
     ((s, rs), r) \<Rightarrow> r = Some (Inr ()) \<and> pReported s = []"
  by (simp add: downloadBlobChunksPipelined_def pipeRound_def startPipe_def calmPipe_def fillDownloadPipeline_def
      downloadPipelineWindow_def handleDownloadBlobTransferFrame_def keyBlobChunk_def demoChunk_def)

text \<open>
  When a connection cannot be made again at once, nothing is in flight, and the worker gives up
  without using the attempts that are left, although the error is one to retry.
\<close>

lemma failed_redial_gives_up:
  "case downloadBlobChunksPipelined (\<lambda>x. x) [calmPipe (DownLost ConnLost), (calmPipe DownHeartbeat)\<lparr>peDial := Some ConnLost\<rparr>]
      [demoChunk 0] (demoReceiver, emptyStore) of
     (x, r) \<Rightarrow> r = Some (Inl ConnLost) \<and> isRetryableBlobTransferError False ConnLost"
  by (simp add: downloadBlobChunksPipelined_def pipeRound_def startPipe_def calmPipe_def fillDownloadPipeline_def
      downloadPipelineWindow_def handleDownloadBlobTransferFrame_def keyBlobChunk_def demoChunk_def failRound_def retryDownloadPipeline_def
      downloadInflight_def bumpAttempt_def isRetryableBlobTransferError_def isDisconnectError_def blobTransferMaxAttempts_def Let_def)
end
