(* ===== verification/ClientRun.thy ===== *)
theory ClientRun
  imports RunCycle ClientCache ClientDownload
begin

text \<open>
  The client's side of a run (client/client.go): the paths and the request, the upload of the
  blobs the host asks for over a pool of workers, the frames it reads while the command runs, and
  the changes of the workspace it applies to the project. The frames a connection delivers are a
  list that ends with the connection.
\<close>

section \<open>Commands and paths\<close>

definition quoteChars :: string where
  "quoteChars = [CHR 0x27, CHR 0x22, CHR 0x5C] @ ''$&;()<>|*?[]{}!#~''"

text \<open>A white space rune somewhere, or one of the characters the shell reads.\<close>

fun spaceSomewhere :: "string \<Rightarrow> bool" where
  "spaceSomewhere [] = False"
| "spaceSomewhere (c # s) = (stripOne spaceRunes (c # s) \<noteq> None \<or> spaceSomewhere s)"

definition commandArgNeedsQuote :: "string \<Rightarrow> bool" where
  "commandArgNeedsQuote arg = (containsAny arg quoteChars \<or> spaceSomewhere arg)"

definition quoteCommandArg :: "string \<Rightarrow> string" where
  "quoteCommandArg arg =
     (if arg = [] then [CHR 0x27, CHR 0x27]
      else if \<not> commandArgNeedsQuote arg then arg
      else CHR 0x27 # concat (map (\<lambda>c. if c = CHR 0x27 then [CHR 0x27, CHR 0x5C, CHR 0x27, CHR 0x27] else [c]) arg) @ [CHR 0x27])"

definition formatCommand :: "string list \<Rightarrow> string" where
  "formatCommand args = (if args = [] then ''(none)'' else joinOn CHR '' '' (map quoteCommandArg args))"

definition formatMounts :: "mountSpec list \<Rightarrow> string" where
  "formatMounts mounts =
     (if mounts = [] then ''.''
      else joinOn CHR '','' (map (\<lambda>m.
        let p = trimSpace (mountPath m); p' = (if p = [] then ''.'' else p) in
        if mountExclude m \<noteq> [] then p' @ ''(ignore='' @ showNat (length (mountExclude m)) @ '')'' else p') mounts))"

datatype clientError =
    NoAddress | NoFingerprint | NoCommand | NoContextID | BadKeep | NoWorkingDir | BadWorkdir | OutsideRoot
  | ClientSyncBack mountError | ClientScan walkError | ClientNonce
  | FrameRead | FrameDiscard | FrameDecode | ServerSaid string | OutputFailed | FrameExpected string | FrameUnexpected
  | UnknownBlob string | StatFailed string | NoToken | ClientBlob blobError | ClientWrite | ClientApply applyError
  | CacheBusy | StoreFailed | StdinFailed | TTYFailed

record execOptions =
  exAddress :: string
  exFingerprint :: string
  exCommand :: "string list"
  exContextID :: string
  exKeep :: int
  exRoot :: string
  exCWD :: string
  exTTY :: bool

definition validateExecOptions :: "execOptions \<Rightarrow> clientError + unit" where
  "validateExecOptions opts =
     (if trimSpace (exAddress opts) = [] then Inl NoAddress
      else if trimSpace (exFingerprint opts) = [] then Inl NoFingerprint
      else if exCommand opts = [] then Inl NoCommand
      else if trimSpace (exContextID opts) = [] then Inl NoContextID
      else if exKeep opts < 0 then Inl BadKeep
      else Inr ())"

text \<open>\<open>wd\<close> is what \<open>os.Getwd\<close> gives.\<close>

definition resolveRoot :: "string option \<Rightarrow> string \<Rightarrow> clientError + string" where
  "resolveRoot wd root =
     (case (if trimSpace root = [] then wd else Some root) of
        None \<Rightarrow> Inl NoWorkingDir
      | Some r \<Rightarrow>
          if isAbs r then Inr (pathClean r)
          else (case wd of None \<Rightarrow> Inl NoWorkingDir | Some d \<Rightarrow> Inr (pathJoin [d, r])))"

definition resolveCWD :: "string option \<Rightarrow> string \<Rightarrow> clientError + string" where
  "resolveCWD wd cwd = (if trimSpace cwd \<noteq> [] then Inr cwd else (case wd of None \<Rightarrow> Inl NoWorkingDir | Some d \<Rightarrow> Inr d))"

definition computeWorkdir :: "string \<Rightarrow> string \<Rightarrow> clientError + string" where
  "computeWorkdir root cwd =
     (case pathRel root cwd of
        None \<Rightarrow> Inl BadWorkdir
      | Some r \<Rightarrow>
          (let workdir = pathClean r in
           if hasPrefix workdir ''../'' \<or> workdir = ''..'' then Inl OutsideRoot else Inr workdir))"

definition resolvePaths :: "string option \<Rightarrow> execOptions \<Rightarrow> clientError + string \<times> string" where
  "resolvePaths wd opts =
     andThen (validateExecOptions opts) (\<lambda>_.
     andThen (resolveRoot wd (exRoot opts)) (\<lambda>root.
     andThen (resolveCWD wd (exCWD opts)) (\<lambda>cwd.
     andThen (computeWorkdir root cwd) (\<lambda>workdir. Inr (root, workdir)))))"

text \<open>A map from names to values; what is given on the command line wins.\<close>

definition collectEnv :: "(string \<rightharpoonup> string) \<Rightarrow> string list \<Rightarrow> (string \<rightharpoonup> string) \<Rightarrow> (string \<rightharpoonup> string)" where
  "collectEnv osEnv names extra =
     fold (\<lambda>n out. case osEnv n of None \<Rightarrow> out | Some v \<Rightarrow> out(n \<mapsto> v)) names Map.empty ++ extra"

definition addTerm :: "(string \<rightharpoonup> string) \<Rightarrow> bool \<Rightarrow> (string \<rightharpoonup> string) \<Rightarrow> (string \<rightharpoonup> string)" where
  "addTerm osEnv tty env =
     (if tty \<and> env ''TERM'' = None then
        (case osEnv ''TERM'' of
           None \<Rightarrow> env
         | Some v \<Rightarrow> if trimSpace v = [] then env else env(''TERM'' \<mapsto> trimSpace v))
      else env)"

section \<open>Totals and descriptors\<close>

definition changeSetFileTotals :: "entry list \<Rightarrow> int \<times> int" where
  "changeSetFileTotals es = fold (\<lambda>e (files, bytes). if Kind e \<noteq> KindFile then (files, bytes) else (files + 1, bytes + Size e)) es (0, 0)"

definition selectedFileTotals :: "entry list \<Rightarrow> string list \<Rightarrow> int \<times> int" where
  "selectedFileTotals es hashes =
     (case fold (\<lambda>e (seen, bytes).
         if Kind e \<noteq> KindFile \<or> Hash e \<notin> set hashes \<or> Hash e \<in> seen then (seen, bytes) else (insert (Hash e) seen, bytes + Size e)) es ({}, 0) of
        (seen, bytes) \<Rightarrow> (int (card seen), bytes))"

fun clientDescriptors :: "(string \<rightharpoonup> entry) \<Rightarrow> string list \<Rightarrow> clientError + blobDescriptor list" where
  "clientDescriptors byHash [] = Inr []"
| "clientDescriptors byHash (h # hs) =
     (case byHash h of
        None \<Rightarrow> Inl (UnknownBlob h)
      | Some e \<Rightarrow> andThen (clientDescriptors byHash hs) (\<lambda>ds. Inr (\<lparr>blobHash = h, blobSize = Size e\<rparr> # ds)))"

definition descriptorsForHashes :: "entry list \<Rightarrow> string list \<Rightarrow> clientError + blobDescriptor list" where
  "descriptorsForHashes entries hashes = clientDescriptors (entriesByHash entries) hashes"

section \<open>The upload\<close>

record blobUploadItem =
  uiHash :: string
  uiPath :: string
  uiDisplay :: string
  uiSize :: int

definition uploadDisplayPath :: "string \<Rightarrow> string \<Rightarrow> string" where
  "uploadDisplayPath root srcPath =
     (if trimSpace root \<noteq> [] then
        (case pathRel root srcPath of
           Some rel \<Rightarrow> if rel \<noteq> ''..'' \<and> \<not> hasPrefix rel ''../'' then pathClean rel else srcPath
         | None \<Rightarrow> srcPath)
      else srcPath)"

text \<open>\<open>stat\<close>: the size of a file.\<close>

fun uploadItems ::
  "(string \<Rightarrow> int option) \<Rightarrow> (string \<rightharpoonup> string) \<Rightarrow> string \<Rightarrow> string list \<Rightarrow> clientError + blobUploadItem list \<times> int" where
  "uploadItems stat sources root [] = Inr ([], 0)"
| "uploadItems stat sources root (h # hs) =
     (case sources h of
        None \<Rightarrow> Inl (UnknownBlob h)
      | Some p \<Rightarrow>
          (case stat p of
             None \<Rightarrow> Inl (StatFailed p)
           | Some n \<Rightarrow>
               andThen (uploadItems stat sources root hs) (\<lambda>(items, bytes).
                 Inr (\<lparr>uiHash = h, uiPath = p, uiDisplay = uploadDisplayPath root p, uiSize = n\<rparr> # items, bytes + n))))"

definition prepareUploadItems ::
  "(string \<Rightarrow> int option) \<Rightarrow> string list \<Rightarrow> (string \<rightharpoonup> string) \<Rightarrow> string \<Rightarrow> clientError + blobUploadItem list \<times> int" where
  "prepareUploadItems stat hashes sources root = uploadItems stat sources root (sort hashes)"

definition uploadBlobDescriptors :: "blobUploadItem list \<Rightarrow> blobDescriptor list" where
  "uploadBlobDescriptors items = map (\<lambda>i. \<lparr>blobHash = uiHash i, blobSize = uiSize i\<rparr>) items"

definition uploadItemsByHash :: "blobUploadItem list \<Rightarrow> (string \<rightharpoonup> blobUploadItem)" where
  "uploadItemsByHash items = map_of (rev (map (\<lambda>i. (uiHash i, i)) items))"

definition uploadParallelism :: "int \<Rightarrow> int \<Rightarrow> int \<Rightarrow> int" where
  "uploadParallelism numCPU wanted totalChunks =
     (let p0 = (if wanted \<le> 0 then transferParallelism numCPU totalChunks else wanted);
          p1 = (if maxBlobTransferParallel < p0 then maxBlobTransferParallel else p0);
          p2 = (if totalChunks < p1 then totalChunks else p1) in
      if p2 < 1 then 1 else p2)"

text \<open>
  A chunk on the wire: its bytes are those of the source file at its offset, \<open>None\<close> when the
  file cannot be opened or is shorter. \<open>wr\<close> is the error of the write.
\<close>

definition sendUploadChunk ::
  "(string \<Rightarrow> string option) \<Rightarrow> blobError option \<Rightarrow> blobUploadItem \<Rightarrow> blobChunkInfo \<Rightarrow> int \<Rightarrow> blobError + sentFrame" where
  "sendUploadChunk files wr item info chunkSize =
     (case BlobChunkPayloadLen info chunkSize of
        Inl e \<Rightarrow> Inl e
      | Inr n \<Rightarrow>
          (case files (uiPath item) of
             None \<Rightarrow> Inl (TransferOther ''open blob source'')
           | Some content \<Rightarrow>
               (case wr of
                  Some e \<Rightarrow> Inl e
                | None \<Rightarrow>
                    if int (length content) < chunkOffset info + n then Inl SourceEOF
                    else Inr (info, slice content (nat (chunkOffset info)) (nat n)))))"

text \<open>An attempt: a connection is dialled and announced first where there is none.\<close>

definition uploadBlobChunk ::
  "(blobError + 'c) \<Rightarrow> (blobTransferRequest \<Rightarrow> blobError option) \<Rightarrow> (blobError + sentFrame) \<Rightarrow> string \<Rightarrow> string \<Rightarrow> string \<Rightarrow>
   'c option \<Rightarrow> 'c option \<times> (blobError + unit)" where
  "uploadBlobChunk dial wrReq chunk contextID session token conn =
     (case conn of
        None \<Rightarrow>
          (case dial of
             Inl e \<Rightarrow> (None, Inl e)
           | Inr c \<Rightarrow>
               (case wrReq \<lparr>brContext = contextID, brSession = session, brToken = token, brDirection = BlobTransferUpload, brChunk = None\<rparr> of
                  Some e \<Rightarrow> (Some c, Inl e)
                | None \<Rightarrow> (Some c, andThen chunk (\<lambda>_. Inr ()))))
      | Some c \<Rightarrow> (Some c, andThen chunk (\<lambda>_. Inr ())))"

text \<open>
  One worker over the jobs it receives: the attempts of each job, and the error of the context
  when it is received. The connection to close at the end is the one at the time of the
  \<open>defer\<close>, before there is any. The value: the connection left, those closed, the result.
\<close>

fun uploadJobs ::
  "((nat \<Rightarrow> 'c attemptEnv) \<times> blobError option) list \<Rightarrow> 'c option \<Rightarrow> 'c option list \<Rightarrow> 'c option \<times> 'c option list \<times> (blobError + unit)" where
  "uploadJobs [] conn closed = (conn, closed, Inr ())"
| "uploadJobs ((env, ctx) # js) conn closed =
     (case ctx of
        Some e \<Rightarrow> (conn, closed, Inl e)
      | None \<Rightarrow>
          (case retryBlobTransferChunk env conn of
             (tr, conn', Inl e) \<Rightarrow> (conn', closed @ rtClosed tr, Inl e)
           | (tr, conn', Inr _) \<Rightarrow> uploadJobs js conn' (closed @ rtClosed tr)))"

definition uploadBlobWorker ::
  "((nat \<Rightarrow> 'c attemptEnv) \<times> blobError option) list \<Rightarrow> 'c option \<times> 'c option list \<times> (blobError + unit)" where
  "uploadBlobWorker js =
     (let deferred = None in
      case uploadJobs js None [] of (conn, closed, r) \<Rightarrow> (conn, closed @ [deferred], r))"

text \<open>The pool: the sender of the jobs, the workers, the first error and the contexts.\<close>

datatype poolWorker = PoolIdle | PoolBusy blobChunkInfo | PoolEnded

record uploadPool =
  upJobs :: "blobChunkInfo list"
  upSending :: bool
  upWorkers :: "nat \<Rightarrow> poolWorker"
  upSent :: "blobChunkInfo list"
  upErr :: "blobError option"
  upCancelled :: bool
  upParent :: "blobError option"

definition poolFail :: "nat \<Rightarrow> blobError \<Rightarrow> uploadPool \<Rightarrow> uploadPool" where
  "poolFail i e s =
     (let s1 = s\<lparr>upWorkers := (upWorkers s)(i := PoolEnded)\<rparr> in
      case upErr s of None \<Rightarrow> s1\<lparr>upErr := Some e, upCancelled := True\<rparr> | Some _ \<Rightarrow> s1)"

inductive poolStep :: "nat \<Rightarrow> uploadPool \<Rightarrow> uploadPool \<Rightarrow> bool" for n where
  hand: "upSending s \<Longrightarrow> upJobs s = c # cs \<Longrightarrow> i < n \<Longrightarrow> upWorkers s i = PoolIdle \<Longrightarrow>
    poolStep n s (s\<lparr>upJobs := cs, upWorkers := (upWorkers s)(i := PoolBusy c)\<rparr>)"
| giveUp: "upSending s \<Longrightarrow> upCancelled s \<Longrightarrow> poolStep n s (s\<lparr>upSending := False\<rparr>)"
| closeJobs: "upSending s \<Longrightarrow> upJobs s = [] \<Longrightarrow> poolStep n s (s\<lparr>upSending := False\<rparr>)"
| jobCancelled: "i < n \<Longrightarrow> upWorkers s i = PoolBusy c \<Longrightarrow> upCancelled s \<Longrightarrow> poolStep n s (poolFail i TransferCancelled s)"
| jobFailed: "i < n \<Longrightarrow> upWorkers s i = PoolBusy c \<Longrightarrow> poolStep n s (poolFail i e s)"
| jobSent: "i < n \<Longrightarrow> upWorkers s i = PoolBusy c \<Longrightarrow>
    poolStep n s (s\<lparr>upWorkers := (upWorkers s)(i := PoolIdle), upSent := upSent s @ [c]\<rparr>)"
| workerEnds: "i < n \<Longrightarrow> upWorkers s i = PoolIdle \<Longrightarrow> \<not> upSending s \<Longrightarrow>
    poolStep n s (s\<lparr>upWorkers := (upWorkers s)(i := PoolEnded)\<rparr>)"
| parentDone: "upParent s = None \<Longrightarrow> poolStep n s (s\<lparr>upParent := Some e, upCancelled := True\<rparr>)"

definition startPool :: "blobChunkInfo list \<Rightarrow> uploadPool" where
  "startPool chunks =
     \<lparr>upJobs = chunks, upSending = True, upWorkers = (\<lambda>_. PoolIdle), upSent = [], upErr = None, upCancelled = False, upParent = None\<rparr>"

definition poolOver :: "nat \<Rightarrow> uploadPool \<Rightarrow> bool" where
  "poolOver n s \<longleftrightarrow> (\<forall>i < n. upWorkers s i = PoolEnded)"

text \<open>What \<open>sendMissingBlobsParallel\<close> returns when all workers have ended.\<close>

definition poolResult :: "uploadPool \<Rightarrow> blobError + unit" where
  "poolResult s = (case upErr s of Some e \<Rightarrow> Inl e | None \<Rightarrow> (case upParent s of Some e \<Rightarrow> Inl e | None \<Rightarrow> Inr ()))"

text \<open>\<open>pool\<close>: the run of the pool for the chunks and the number of workers.\<close>

definition sendMissingBlobs ::
  "(string \<Rightarrow> int option) \<Rightarrow> int \<Rightarrow> (nat \<Rightarrow> blobChunkInfo list \<Rightarrow> uploadPool) \<Rightarrow> needBlobs \<Rightarrow> (string \<rightharpoonup> string) \<Rightarrow> string \<Rightarrow>
   clientError + blobChunkInfo list" where
  "sendMissingBlobs stat numCPU pool need sources root =
     (case prepareUploadItems stat (needHashes need) sources root of
        Inl e \<Rightarrow> Inl e
      | Inr (items, bytes) \<Rightarrow>
          if items = [] then Inr []
          else if needToken need = [] then Inl NoToken
          else
            (let chunkSize = (if needChunkSize need \<le> 0 then DefaultBlobChunkSize else needChunkSize need) in
             case PlanBlobChunks (uploadBlobDescriptors items) chunkSize of
               Inl e \<Rightarrow> Inl (ClientBlob e)
             | Inr chunks \<Rightarrow>
                 (let s = pool (nat (uploadParallelism numCPU (needParallel need) (int (length chunks)))) chunks in
                  case poolResult s of Inl e \<Rightarrow> Inl (ClientBlob e) | Inr _ \<Rightarrow> Inr (upSent s))))"

section \<open>The request\<close>

record clientRunRequest = runRequest +
  crContextName :: string
  crWorkDir :: string
  crEnv :: "string \<rightharpoonup> string"
  crMounts :: "mountSpec list"
  crProject :: string
  crRootHint :: string
  crTTY :: bool
  crSize :: "int \<times> int"

record buildEnv =
  beWalk :: walkEnv
  beOS :: "string \<rightharpoonup> string"
  beNonce :: "string option"
  beTTYSize :: "(int \<times> int) option"
  beDuration :: "int \<Rightarrow> string"
  beLocked :: bool
  beMade :: bool
  beSave :: writeOutcome

record buildOptions =
  boMounts :: "mountSpec list"
  boSyncBack :: "string list option"
  boRuntime :: runtimeConfig
  boForwardEnv :: "string list"
  boExtraEnv :: "string \<rightharpoonup> string"
  boSession :: string
  boProject :: string
  boContextName :: string
  boReuse :: string

text \<open>The cached manifest of the project is read before the scan and replaced after it.\<close>

definition buildRunRequest ::
  "(string \<Rightarrow> string) \<Rightarrow> buildEnv \<Rightarrow> string \<Rightarrow> string \<Rightarrow> execOptions \<Rightarrow> buildOptions \<Rightarrow> diskTree \<Rightarrow> entry list jsonFile \<Rightarrow>
   entry list jsonFile \<times> (clientError + buildResult \<times> clientRunRequest)" where
  "buildRunRequest sha env root workdir opts b dsk cache =
     (case ValidateSyncBack root (boMounts b) (case boSyncBack b of None \<Rightarrow> [] | Some ps \<Rightarrow> ps) of
        Inl e \<Rightarrow> (cache, Inl (ClientSyncBack e))
      | Inr _ \<Rightarrow>
          (case BuildManifest sha (beWalk env) root (boMounts b) (loadManifestCache cache) dsk of
             Inl e \<Rightarrow> (cache, Inl (ClientScan e))
           | Inr manifest \<Rightarrow>
               (let cache' = saveManifestCache (beLocked env) (beMade env) (beSave env) (bmEntries manifest) cache in
                case (if boSession b = [] then beNonce env else Some (boSession b)) of
                  None \<Rightarrow> (cache', Inl ClientNonce)
                | Some session \<Rightarrow>
                    (cache', Inr (manifest,
                       \<lparr>rqCommand = exCommand opts, rqContextID = exContextID opts, rqSession = session, rqRuntime = boRuntime b,
                        rqKeep = (if 0 < exKeep opts then beDuration env (exKeep opts) else []), rqReuse = trimSpace (boReuse b),
                        rqManifest = bmEntries manifest, rqSyncBack = boSyncBack b,
                        crContextName = boContextName b, crWorkDir = workdir,
                        crEnv = addTerm (beOS env) (exTTY opts) (collectEnv (beOS env) (boForwardEnv b) (boExtraEnv b)),
                        crMounts = boMounts b, crProject = boProject b, crRootHint = pathBase root, crTTY = exTTY opts,
                        crSize = (if exTTY opts then (case beTTYSize env of None \<Rightarrow> (0, 0) | Some x \<Rightarrow> x) else (0, 0))\<rparr>)))))"

section \<open>Frames from the host\<close>

record workspaceReady =
  wrContextID :: string
  wrLeaseID :: string

text \<open>
  What the client does with a change set depends on its surroundings: the lock and the store of
  its cache, the writes, the download, and the application to the project.
\<close>

record homeEnv =
  heLock :: bool
  heStore :: bool
  heNeedWrite :: bool
  heTempOk :: "string \<Rightarrow> bool"
  heEvents :: "chunkEvent list"
  hePicks :: "waitPick list"
  heNow :: int
  heApply :: applyEnv
  heRollback :: applyEnv
  heOrder :: "applyTargets \<Rightarrow> wsPath list"
  heMade :: bool
  heSave :: writeOutcome
  heDoneWrite :: bool

text \<open>
  A frame with what decoding and reading it gives: \<open>None\<close> where the data cannot be decoded; the
  stream and the bytes of output, with whether all could be copied; whether the payload of a
  frame could be discarded.
\<close>

datatype hostFrame =
    FrHeartbeat bool | FrError "string option" | FrOutput "string option" string bool | FrExit "int option" bool
  | FrChangeSet "(entry list \<times> string list) option" homeEnv bool | FrChangesDone bool
  | FrNeedBlobs "needBlobs option" bool | FrReady "workspaceReady option" bool | FrOther string bool

record clientState =
  csTree :: wsTree
  csStore :: blobStore
  csCache :: "entry list jsonFile"
  csOut :: string
  csErr :: string
  csWrites :: nat

definition frameDiscards :: "hostFrame \<Rightarrow> bool" where
  "frameDiscards f =
     (case f of FrHeartbeat d \<Rightarrow> d | FrError m \<Rightarrow> True | FrOutput s p ok \<Rightarrow> ok | FrExit c d \<Rightarrow> d | FrChangeSet c e d \<Rightarrow> d
      | FrChangesDone d \<Rightarrow> d | FrNeedBlobs n d \<Rightarrow> d | FrReady r d \<Rightarrow> d | FrOther t d \<Rightarrow> d)"

text \<open>What could not be copied is still written as far as it came.\<close>

definition copyExecOutputTo :: "string option \<Rightarrow> string \<Rightarrow> bool \<Rightarrow> clientState \<Rightarrow> clientState \<times> (clientError + unit)" where
  "copyExecOutputTo stream payload ok s =
     (case stream of
        None \<Rightarrow> (s, Inl FrameDecode)
      | Some st \<Rightarrow>
          (if st = ''stdout'' then s else s\<lparr>csErr := csErr s @ payload\<rparr>, if ok then Inr () else Inl OutputFailed))"

definition copyExecOutput :: "string option \<Rightarrow> string \<Rightarrow> bool \<Rightarrow> clientState \<Rightarrow> clientState \<times> (clientError + unit)" where
  "copyExecOutput stream payload ok s =
     (case stream of
        None \<Rightarrow> (s, Inl FrameDecode)
      | Some st \<Rightarrow>
          (if st = ''stderr'' then s\<lparr>csErr := csErr s @ payload\<rparr> else s\<lparr>csOut := csOut s @ payload\<rparr>,
           if ok then Inr () else Inl OutputFailed))"

definition serverError :: "string option \<Rightarrow> clientError" where
  "serverError m = (case m of None \<Rightarrow> FrameDecode | Some t \<Rightarrow> ServerSaid t)"

text \<open>
  Waiting for a frame of one type: \<open>pick\<close> recognises it and gives its decoded data. The frames
  left over are the ones not read.
\<close>

fun expectDataFrame ::
  "string \<Rightarrow> (hostFrame \<Rightarrow> 'a option option) \<Rightarrow> hostFrame list \<Rightarrow> clientState \<Rightarrow> clientState \<times> hostFrame list \<times> (clientError + 'a)" where
  "expectDataFrame wanted pick [] s = (s, [], Inl FrameRead)"
| "expectDataFrame wanted pick (f # fs) s =
     (case f of
        FrHeartbeat d \<Rightarrow> if d then expectDataFrame wanted pick fs s else (s, fs, Inl FrameDiscard)
      | FrError m \<Rightarrow> (s, fs, Inl (serverError m))
      | FrOutput st p ok \<Rightarrow>
          (case copyExecOutputTo st p ok s of
             (s', Inl e) \<Rightarrow> (s', fs, Inl e)
           | (s', Inr _) \<Rightarrow> expectDataFrame wanted pick fs s')
      | _ \<Rightarrow>
          (case pick f of
             Some (Some x) \<Rightarrow> (s, fs, Inr x)
           | Some None \<Rightarrow> (s, fs, Inl FrameDecode)
           | None \<Rightarrow> (s, fs, Inl (if frameDiscards f then FrameExpected wanted else FrameDiscard))))"

definition pickNeedBlobs :: "hostFrame \<Rightarrow> needBlobs option option" where
  "pickNeedBlobs f = (case f of FrNeedBlobs n d \<Rightarrow> Some n | _ \<Rightarrow> None)"

definition pickReady :: "hostFrame \<Rightarrow> workspaceReady option option" where
  "pickReady f = (case f of FrReady r d \<Rightarrow> Some r | _ \<Rightarrow> None)"

section \<open>Changes of the workspace come home\<close>

text \<open>
  The workers' receiver: all chunks any of them receives, in the order of the receiver's lock.
\<close>

definition receiveMissingBlobsFromHost ::
  "(string \<Rightarrow> string) \<Rightarrow> homeEnv \<Rightarrow> needBlobs \<Rightarrow> entry list \<Rightarrow> blobStore \<Rightarrow> blobStore \<times> (clientError + unit) option" where
  "receiveMissingBlobsFromHost sha env need entries st =
     (if needHashes need = [] then (st, Some (Inr ()))
      else if needToken need = [] then (st, Some (Inl NoToken))
      else
        (let chunkSize = (if needChunkSize need \<le> 0 then DefaultBlobChunkSize else needChunkSize need) in
         case descriptorsForHashes entries (needHashes need) of
           Inl e \<Rightarrow> (st, Some (Inl e))
         | Inr descriptors \<Rightarrow>
             (case NewChunkedBlobReceiver sha (heTempOk env) descriptors chunkSize st of
                (st1, Inl e) \<Rightarrow> (st1, Some (Inl (ClientBlob e)))
              | (st1, Inr receiver) \<Rightarrow>
                  (case PlanBlobChunks descriptors chunkSize of
                     Inl e \<Rightarrow> (st1, Some (Inl (ClientBlob e)))
                   | Inr chunks \<Rightarrow>
                       (case fold (\<lambda>ev rs. fst (receiveEvent sha ev rs)) (heEvents env) (receiver, st1) of
                          (receiver', st2) \<Rightarrow>
                            (st2, map_option (\<lambda>r. case r of Inl e \<Rightarrow> Inl (ClientBlob e) | Inr _ \<Rightarrow> Inr ())
                               (waitForBlobDownload False (hePicks env))))))))"

text \<open>\<open>None\<close>: the wait for the download does not return with what it is given.\<close>

definition syncWorkspaceChangesFromHost ::
  "(string \<Rightarrow> string) \<Rightarrow> homeEnv \<Rightarrow> (entry list \<times> string list) option \<Rightarrow> hostFrame list \<Rightarrow> clientState \<Rightarrow>
   clientState \<times> hostFrame list \<times> (clientError + unit) option" where
  "syncWorkspaceChangesFromHost sha env changes fs s =
     (case changes of
        None \<Rightarrow> (s, fs, Some (Inl FrameDecode))
      | Some (entries, deleted) \<Rightarrow>
          if \<not> heLock env then (s, fs, Some (Inl CacheBusy))
          else if \<not> heStore env then (s, fs, Some (Inl StoreFailed))
          else (case MissingHashes sha entries (csStore s) of
            (st1, missing) \<Rightarrow>
              let s1 = s\<lparr>csStore := st1\<rparr> in
              if \<not> heNeedWrite env then (s1, fs, Some (Inl ClientWrite))
              else (case expectDataFrame ''need_blobs'' pickNeedBlobs fs (s1\<lparr>csWrites := csWrites s1 + 1\<rparr>) of
                (s2, fs2, Inl e) \<Rightarrow> (s2, fs2, Some (Inl e))
              | (s2, fs2, Inr need) \<Rightarrow>
                  (case receiveMissingBlobsFromHost sha env need entries (csStore s2) of
                     (st3, None) \<Rightarrow> (s2\<lparr>csStore := st3\<rparr>, fs2, None)
                   | (st3, Some (Inl e)) \<Rightarrow> (s2\<lparr>csStore := st3\<rparr>, fs2, Some (Inl e))
                   | (st3, Some (Inr _)) \<Rightarrow>
                       (case ApplyChanges sha (heNow env) (heApply env) (heRollback env) (heOrder env) entries deleted (Some st3) (csTree s2) of
                          (t', st', Inl e) \<Rightarrow> (s2\<lparr>csTree := t', csStore := (case st' of Some x \<Rightarrow> x | None \<Rightarrow> st3)\<rparr>, fs2, Some (Inl (ClientApply e)))
                        | (t', st', Inr _) \<Rightarrow>
                            (s2\<lparr>csTree := t', csStore := (case st' of Some x \<Rightarrow> x | None \<Rightarrow> st3),
                                csCache := updateManifestCacheAfterSync (heMade env) (heSave env) entries deleted (csCache s2),
                                csWrites := csWrites s2 + 1\<rparr>, fs2,
                             Some (if heDoneWrite env then Inr () else Inl ClientWrite)))))))"

section \<open>The frames of the command\<close>

text \<open>The value says whether the host is done, with the exit code so far.\<close>

definition handleExecFrame ::
  "(string \<Rightarrow> string) \<Rightarrow> hostFrame \<Rightarrow> hostFrame list \<Rightarrow> int \<Rightarrow> clientState \<Rightarrow>
   clientState \<times> hostFrame list \<times> (bool \<times> int \<times> clientError option) option" where
  "handleExecFrame sha f fs code s =
     (case f of
        FrHeartbeat d \<Rightarrow> (s, fs, Some (False, code, if d then None else Some FrameDiscard))
      | FrError m \<Rightarrow> (s, fs, Some (False, code, Some (serverError m)))
      | FrOutput st p ok \<Rightarrow>
          (case copyExecOutput st p ok s of (s', r) \<Rightarrow> (s', fs, Some (False, code, case r of Inl e \<Rightarrow> Some e | Inr _ \<Rightarrow> None)))
      | FrExit (Some c) d \<Rightarrow> (s, fs, Some (False, c, None))
      | FrExit None d \<Rightarrow> (s, fs, Some (False, 0, Some FrameDecode))
      | FrChangeSet changes env d \<Rightarrow>
          (case syncWorkspaceChangesFromHost sha env changes fs s of
             (s', fs', None) \<Rightarrow> (s', fs', None)
           | (s', fs', Some r) \<Rightarrow> (s', fs', Some (False, code, case r of Inl e \<Rightarrow> Some e | Inr _ \<Rightarrow> None)))
      | FrChangesDone d \<Rightarrow> (s, fs, Some (True, code, None))
      | _ \<Rightarrow> (s, fs, Some (False, code, Some (if frameDiscards f then FrameUnexpected else FrameDiscard))))"

text \<open>
  What the select after the last frame takes: the end of the forwarding of stdin, or the context;
  \<open>None\<close> while there is neither. The error of a forwarding that a cancel has ended is dropped.
\<close>

datatype stdinPick = StdinEnded "clientError option" bool | StdinContext

definition waitForStdinForwarding :: "stdinPick option \<Rightarrow> clientError option option" where
  "waitForStdinForwarding p =
     (case p of
        None \<Rightarrow> None
      | Some (StdinEnded e cancelled) \<Rightarrow> Some (if cancelled then None else e)
      | Some StdinContext \<Rightarrow> Some None)"

lemma expectDataFrame_shorter: "expectDataFrame w pick fs s = (s', fs', r) \<Longrightarrow> length fs' \<le> length fs"
proof (induction w pick fs s rule: expectDataFrame.induct)
  case (2 w pick f fs s)
  then show ?case
    by (cases f) (auto split: if_splits option.splits prod.splits sum.splits simp: le_SucI)
qed simp

lemma syncWorkspace_shorter: "syncWorkspaceChangesFromHost sha env c fs s = (s', fs', r) \<Longrightarrow> length fs' \<le> length fs"
  by (auto simp: syncWorkspaceChangesFromHost_def Let_def split: option.splits if_splits prod.splits sum.splits dest!: expectDataFrame_shorter)

lemma handleExecFrame_shorter: "handleExecFrame sha f fs code s = (s', fs', r) \<Longrightarrow> length fs' \<le> length fs"
  by (cases f) (auto simp: handleExecFrame_def split: option.splits prod.splits sum.splits dest!: syncWorkspace_shorter)

text \<open>\<open>stop\<close>: what the wait for stdin, or the check of the terminal's input, gives at the end.\<close>

function execFrames ::
  "(string \<Rightarrow> string) \<Rightarrow> clientError option option \<Rightarrow> hostFrame list \<Rightarrow> int \<Rightarrow> clientState \<Rightarrow> clientState \<times> (int \<times> clientError option) option" where
  "execFrames sha stop [] code s = (s, Some (code, Some FrameRead))"
| "execFrames sha stop (f # fs) code s =
     (case handleExecFrame sha f fs code s of
        (s', fs', None) \<Rightarrow> (s', None)
      | (s', fs', Some (finished, code', Some e)) \<Rightarrow> (s', Some (code', Some e))
      | (s', fs', Some (finished, code', None)) \<Rightarrow>
          if finished then (s', map_option (\<lambda>e. (code', e)) stop) else execFrames sha stop fs' code' s')"
  by pat_completeness auto
termination
  by (relation "measure (\<lambda>(sha, stop, fs, code, s). length fs)") (auto dest!: handleExecFrame_shorter [OF sym] simp: le_imp_less_Suc)

text \<open>The input of a terminal is looked at, not waited for; its end is no error.\<close>

definition consumeTTYInputErr :: "clientError option option \<Rightarrow> clientError option" where
  "consumeTTYInputErr pending = (case pending of Some (Some e) \<Rightarrow> Some e | _ \<Rightarrow> None)"

definition processTTYExecFrames ::
  "(string \<Rightarrow> string) \<Rightarrow> clientError option \<Rightarrow> clientError option option \<Rightarrow> hostFrame list \<Rightarrow> clientState \<Rightarrow>
   clientState \<times> (int \<times> clientError option) option" where
  "processTTYExecFrames sha start pending fs s =
     (case start of Some e \<Rightarrow> (s, Some (1, Some e)) | None \<Rightarrow> execFrames sha (Some (consumeTTYInputErr pending)) fs 0 s)"

definition processExecFrames ::
  "(string \<Rightarrow> string) \<Rightarrow> stdinPick option \<Rightarrow> hostFrame list \<Rightarrow> clientState \<Rightarrow> clientState \<times> (int \<times> clientError option) option" where
  "processExecFrames sha pick fs s = execFrames sha (waitForStdinForwarding pick) fs 0 s"

section \<open>Stdin\<close>

text \<open>What a read of the source gives: bytes, then nothing more or an error.\<close>

datatype stdinEnd = StdinMore | StdinEOF | StdinError

fun sendStdinLoop :: "(nat \<Rightarrow> bool) \<Rightarrow> nat \<Rightarrow> (string \<times> stdinEnd) list \<Rightarrow> string list \<Rightarrow> string list \<times> bool \<times> (clientError + unit) option" where
  "sendStdinLoop wr i [] sent = (sent, False, None)"
| "sendStdinLoop wr i ((bs, en) # rs) sent =
     (let sent' = (if bs \<noteq> [] \<and> wr i then sent @ [bs] else sent) in
      if bs \<noteq> [] \<and> \<not> wr i then (sent, False, Some (Inl ClientWrite))
      else (case en of
        StdinMore \<Rightarrow> sendStdinLoop wr (i + 1) rs sent'
      | StdinEOF \<Rightarrow> if wr (i + 1) then (sent', True, Some (Inr ())) else (sent', False, Some (Inl ClientWrite))
      | StdinError \<Rightarrow> (sent', False, Some (Inl StdinFailed))))"

text \<open>The payloads sent, whether the close frame was, and the result; \<open>None\<close> while it reads.\<close>

definition sendStdin :: "(nat \<Rightarrow> bool) \<Rightarrow> (string \<times> stdinEnd) list option \<Rightarrow> bool \<Rightarrow> string list \<times> bool \<times> (clientError + unit) option" where
  "sendStdin wr src enabled =
     (case (if enabled then src else None) of
        None \<Rightarrow> if wr 0 then ([], True, Some (Inr ())) else ([], False, Some (Inl ClientWrite))
      | Some rs \<Rightarrow> sendStdinLoop wr 0 rs [])"

section \<open>The handshake\<close>

text \<open>\<open>upload\<close>: the upload of what the host needs; \<open>wr\<close>: whether the end of the sync could be written.\<close>

definition finishRunHandshake ::
  "(needBlobs \<Rightarrow> clientError + blobChunkInfo list) \<Rightarrow> bool \<Rightarrow> hostFrame list \<Rightarrow> clientState \<Rightarrow>
   clientState \<times> hostFrame list \<times> (clientError + blobChunkInfo list \<times> workspaceReady)" where
  "finishRunHandshake upload wr fs s =
     (case expectDataFrame ''need_blobs'' pickNeedBlobs fs s of
        (s1, fs1, Inl e) \<Rightarrow> (s1, fs1, Inl e)
      | (s1, fs1, Inr need) \<Rightarrow>
          (case upload need of
             Inl e \<Rightarrow> (s1, fs1, Inl e)
           | Inr sent \<Rightarrow>
               if \<not> wr then (s1, fs1, Inl ClientWrite)
               else (case expectDataFrame ''workspace_ready'' pickReady fs1 (s1\<lparr>csWrites := csWrites s1 + 1\<rparr>) of
                 (s2, fs2, Inl e) \<Rightarrow> (s2, fs2, Inl e)
               | (s2, fs2, Inr ready) \<Rightarrow> (s2, fs2, Inr (sent, ready)))))"

section \<open>Facts about the pool\<close>

definition poolBusy :: "poolWorker \<Rightarrow> blobChunkInfo multiset" where
  "poolBusy w = (case w of PoolBusy c \<Rightarrow> {#c#} | _ \<Rightarrow> {#})"

definition poolInv :: "nat \<Rightarrow> blobChunkInfo list \<Rightarrow> uploadPool \<Rightarrow> bool" where
  "poolInv n chunks s \<longleftrightarrow>
     (upCancelled s \<longrightarrow> upErr s \<noteq> None \<or> upParent s \<noteq> None)
     \<and> (upErr s = None \<longrightarrow> mset chunks = mset (upJobs s) + (\<Sum>i<n. poolBusy (upWorkers s i)) + mset (upSent s))
     \<and> (\<not> upSending s \<longrightarrow> upJobs s = [] \<or> upCancelled s)
     \<and> (\<forall>i<n. upWorkers s i = PoolEnded \<longrightarrow> \<not> upSending s \<or> upErr s \<noteq> None)"

lemma sum_upd:
  fixes f :: "'b \<Rightarrow> 'a :: comm_monoid_add"
  assumes "i < (n :: nat)"
  shows "(\<Sum>j<n. f ((w(i := x)) j)) + f (w i) = (\<Sum>j<n. f (w j)) + f x"
proof -
  have s: "(\<Sum>j<n. g j) = g i + (\<Sum>j \<in> {..<n} - {i}. g j)" for g :: "nat \<Rightarrow> 'a"
    by (rule sum.remove) (use assms in auto)
  have "(\<Sum>j \<in> {..<n} - {i}. f ((w(i := x)) j)) = (\<Sum>j \<in> {..<n} - {i}. f (w j))" by (rule sum.cong) auto
  then show ?thesis unfolding s [of "\<lambda>j. f ((w(i := x)) j)"] s [of "\<lambda>j. f (w j)"] by (simp add: ac_simps)
qed

lemma busy_upd: "i < (n :: nat) \<Longrightarrow> (\<Sum>j<n. poolBusy ((w(i := x)) j)) + poolBusy (w i) = (\<Sum>j<n. poolBusy (w j)) + poolBusy x"
  by (rule sum_upd [where f = poolBusy])

lemma poolInv_fail: "poolInv n chunks s \<Longrightarrow> poolInv n chunks (poolFail i e s)"
  unfolding poolInv_def poolFail_def by (auto simp: Let_def split: option.splits)

lemma poolInv_step:
  assumes "poolStep n s s'" "poolInv n chunks s"
  shows "poolInv n chunks s'"
  using assms
proof (induction rule: poolStep.induct)
  case (hand s c cs i)
  have "(\<Sum>j<n. poolBusy (((upWorkers s)(i := PoolBusy c)) j)) = (\<Sum>j<n. poolBusy (upWorkers s j)) + {#c#}"
    using busy_upd [OF hand(3), of "upWorkers s" "PoolBusy c"] hand(4) by (simp add: poolBusy_def)
  then show ?case using hand unfolding poolInv_def by auto
next
  case (jobSent i s c)
  have "(\<Sum>j<n. poolBusy (((upWorkers s)(i := PoolIdle)) j)) + {#c#} = (\<Sum>j<n. poolBusy (upWorkers s j))"
    using busy_upd [OF jobSent(1), of "upWorkers s" PoolIdle] jobSent(2) by (simp add: poolBusy_def)
  then have "mset (upJobs s) + (\<Sum>i<n. poolBusy (upWorkers s i)) + mset (upSent s)
      = mset (upJobs s) + (\<Sum>j<n. poolBusy (((upWorkers s)(i := PoolIdle)) j)) + mset (upSent s @ [c])"
    by (simp add: union_ac flip: \<open>_ = (\<Sum>j<n. poolBusy (upWorkers s j))\<close>)
  then show ?case using jobSent unfolding poolInv_def by auto
next
  case (workerEnds i s)
  have "(\<Sum>j<n. poolBusy (((upWorkers s)(i := PoolEnded)) j)) = (\<Sum>j<n. poolBusy (upWorkers s j))"
    using busy_upd [OF workerEnds(1), of "upWorkers s" PoolEnded] workerEnds(2) by (simp add: poolBusy_def)
  then show ?case using workerEnds unfolding poolInv_def by auto
qed (auto simp: poolInv_fail, auto simp: poolInv_def)

lemma poolInv_start: "poolInv n chunks (startPool chunks)"
  by (simp add: poolInv_def startPool_def poolBusy_def)

lemma poolInv_reachable: "(poolStep n)\<^sup>*\<^sup>* (startPool chunks) s \<Longrightarrow> poolInv n chunks s"
  by (induction rule: rtranclp_induct) (auto simp: poolInv_start poolInv_step)

definition poolWeight :: "poolWorker \<Rightarrow> nat" where
  "poolWeight w = (case w of PoolIdle \<Rightarrow> 1 | PoolBusy c \<Rightarrow> 2 | PoolEnded \<Rightarrow> 0)"

definition poolMeasure :: "nat \<Rightarrow> uploadPool \<Rightarrow> nat" where
  "poolMeasure n s = 2 * length (upJobs s) + (if upSending s then 1 else 0) + (\<Sum>i<n. poolWeight (upWorkers s i))
     + (if upParent s = None then 1 else 0)"

lemma weight_upd: "i < (n :: nat) \<Longrightarrow> (\<Sum>j<n. poolWeight ((w(i := x)) j)) + poolWeight (w i) = (\<Sum>j<n. poolWeight (w j)) + poolWeight x"
  by (rule sum_upd [where f = poolWeight])

lemma poolMeasure_fail: "i < n \<Longrightarrow> upWorkers s i = PoolBusy c \<Longrightarrow> poolMeasure n (poolFail i e s) < poolMeasure n s"
  using weight_upd [of i n "upWorkers s" PoolEnded]
  by (auto simp: poolMeasure_def poolFail_def Let_def poolWeight_def split: option.splits)

lemma poolMeasure_step: "poolStep n s s' \<Longrightarrow> poolMeasure n s' < poolMeasure n s"
proof (induction rule: poolStep.induct)
  case (hand s c cs i)
  then show ?case using weight_upd [OF hand(3), of "upWorkers s" "PoolBusy c"] by (simp add: poolMeasure_def poolWeight_def)
next
  case (jobSent i s c)
  then show ?case using weight_upd [OF jobSent(1), of "upWorkers s" PoolIdle] by (simp add: poolMeasure_def poolWeight_def)
next
  case (workerEnds i s)
  then show ?case using weight_upd [OF workerEnds(1), of "upWorkers s" PoolEnded] by (simp add: poolMeasure_def poolWeight_def)
qed (auto simp: poolMeasure_fail, auto simp: poolMeasure_def)

lemma poolMeasure_run: "(poolStep n ^^ k) a s \<Longrightarrow> poolMeasure n s + k \<le> poolMeasure n a"
proof (induction k arbitrary: s)
  case (Suc k)
  then obtain b where b: "(poolStep n ^^ k) a b" "poolStep n b s" by auto
  then show ?case using Suc.IH [OF b(1)] poolMeasure_step [OF b(2)] by linarith
qed simp

lemma pool_moves:
  assumes "i < n" "upWorkers s i \<noteq> PoolEnded"
  shows "\<exists>s'. poolStep n s s'"
proof (cases "upWorkers s i")
  case PoolIdle
  show ?thesis
  proof (cases "upSending s")
    case sending: True
    show ?thesis
    proof (cases "upJobs s")
      case Nil
      then show ?thesis using poolStep.closeJobs [OF sending] by blast
    next
      case (Cons c cs)
      then show ?thesis using poolStep.hand [OF sending _ assms(1) PoolIdle] by blast
    qed
  next
    case False
    then show ?thesis using poolStep.workerEnds [OF assms(1) PoolIdle] by blast
  qed
next
  case (PoolBusy c)
  then show ?thesis using assms(1) poolStep.jobSent by blast
qed (use assms in simp)

section \<open>Facts about the frames\<close>

definition isChangeSet :: "hostFrame \<Rightarrow> bool" where
  "isChangeSet f = (case f of FrChangeSet c e d \<Rightarrow> True | _ \<Rightarrow> False)"

lemma expectDataFrame_keeps:
  "expectDataFrame w pick fs s = (s', fs', r) \<Longrightarrow>
     csTree s' = csTree s \<and> csStore s' = csStore s \<and> csCache s' = csCache s \<and> csOut s' = csOut s \<and> (\<exists>us. fs = us @ fs')"
proof (induction w pick fs s arbitrary: s' fs' r rule: expectDataFrame.induct)
  case (2 w pick f fs s)
  have more: "\<exists>us. fs = us @ fs' \<Longrightarrow> \<exists>us. f # fs = us @ fs'" by (metis append_Cons)
  show ?case
  proof (cases f)
    case (FrHeartbeat d)
    show ?thesis
    proof (cases d)
      case True
      then have "expectDataFrame w pick fs s = (s', fs', r)" using "2.prems" FrHeartbeat by simp
      then show ?thesis using "2.IH"(1) [OF FrHeartbeat True] more FrHeartbeat by simp
    next
      case False
      then show ?thesis using "2.prems" FrHeartbeat by auto
    qed
  next
    case (FrOutput st p ok)
    obtain s1 r1 where c: "copyExecOutputTo st p ok s = (s1, r1)" by fastforce
    then have k: "csTree s1 = csTree s \<and> csStore s1 = csStore s \<and> csCache s1 = csCache s \<and> csOut s1 = csOut s"
      by (auto simp: copyExecOutputTo_def split: option.splits if_splits)
    show ?thesis
    proof (cases r1)
      case (Inl e)
      then show ?thesis using "2.prems" FrOutput c k by (auto intro: exI [of _ "[f]"])
    next
      case (Inr u)
      then have "expectDataFrame w pick fs s1 = (s', fs', r)" using "2.prems" FrOutput c by simp
      then show ?thesis using "2.IH"(2) [OF FrOutput c [symmetric] Inr] k more FrOutput by auto
    qed
  qed (use "2.prems" in \<open>auto split: option.splits if_splits intro: exI [of _ "[f]"]\<close>)
qed auto

lemma receiveMissing_ok:
  assumes "storeOk sha st" "receiveMissingBlobsFromHost sha env need entries st = (st', r)"
  shows "storeOk sha st'"
proof (cases "needHashes need = [] \<or> needToken need = [] \<or> (\<exists>e. descriptorsForHashes entries (needHashes need) = Inl e)")
  case True
  then show ?thesis using assms by (auto simp: receiveMissingBlobsFromHost_def Let_def split: if_splits)
next
  case False
  let ?cs = "if needChunkSize need \<le> 0 then DefaultBlobChunkSize else needChunkSize need"
  obtain ds where ds: "descriptorsForHashes entries (needHashes need) = Inr ds" using False by (metis sum.exhaust)
  obtain st1 r1 where n: "NewChunkedBlobReceiver sha (heTempOk env) ds ?cs st = (st1, r1)" by fastforce
  have s1: "storeOk sha st1"
  proof (cases "normalizeBlobChunkSize ?cs")
    case (Inl e)
    then show ?thesis using n assms(1) by (simp add: NewChunkedBlobReceiver_def)
  next
    case (Inr c)
    let ?r0 = "\<lparr>rChunkSize = c, rBlobs = Map.empty, rWriters = Map.empty, rPending = 0, rErr = None, rDone = False\<rparr>"
    have "storeOk sha (fst (receiverLoop sha (heTempOk env) ds ?r0 st))" by (rule receiverLoop_ok [OF assms(1)])
    moreover have "st1 = fst (receiverLoop sha (heTempOk env) ds ?r0 st)"
      using n Inr by (auto simp: NewChunkedBlobReceiver_def split: prod.splits sum.splits)
    ultimately show ?thesis by simp
  qed
  show ?thesis
  proof (cases r1)
    case (Inl e)
    then show ?thesis using assms(2) False ds n s1 by (simp add: receiveMissingBlobsFromHost_def Let_def)
  next
    case (Inr receiver)
    have inv: "recvInv sha receiver st1"
    proof -
      obtain c where c: "normalizeBlobChunkSize ?cs = Inr c" using n Inr by (cases "normalizeBlobChunkSize ?cs") (auto simp: NewChunkedBlobReceiver_def)
      let ?r0 = "\<lparr>rChunkSize = c, rBlobs = Map.empty, rWriters = Map.empty, rPending = 0, rErr = None, rDone = False\<rparr>"
      obtain r0 where lp: "receiverLoop sha (heTempOk env) ds ?r0 st = (st1, Inr r0)" and r0: "receiver = (if rPending r0 = 0 then r0\<lparr>rDone := True\<rparr> else r0)"
        using n Inr c by (auto simp: NewChunkedBlobReceiver_def split: prod.splits sum.splits)
      have i0: "recvInv sha ?r0 st" using assms(1) by (simp add: recvInv_def)
      have "recvInv sha r0 st1"
        using receiverLoop_inv [OF lp i0] normalizeBlobChunkSize_Inr [OF c] by simp
      then show ?thesis unfolding r0 by simp
    qed
    show ?thesis
    proof (cases "PlanBlobChunks ds ?cs")
      case (Inl e)
      then show ?thesis using assms(2) False ds n s1 Inr by (simp add: receiveMissingBlobsFromHost_def Let_def)
    next
      case plan: (Inr chunks)
      have f: "recvInv sha a b \<Longrightarrow> storeOk sha (snd (fold (\<lambda>ev rs. fst (receiveEvent sha ev rs)) evs (a, b)))" for evs a b
      proof (induction evs arbitrary: a b)
        case Nil
        then show ?case using recvInvD(1) by fastforce
      next
        case (Cons ev evs)
        obtain a1 b1 x where e: "receiveEvent sha ev (a, b) = ((a1, b1), x)" by (metis prod.collapse)
        have "recvInv sha a1 b1" using recvInv_ReceiveChunk [OF Cons.prems e [unfolded receiveEvent_def]] by blast
        then show ?case using Cons.IH e by simp
      qed
      have "st' = snd (fold (\<lambda>ev rs. fst (receiveEvent sha ev rs)) (heEvents env) (receiver, st1))"
        using assms(2) False ds n Inr plan by (auto simp: receiveMissingBlobsFromHost_def Let_def split: prod.splits)
      then show ?thesis using f [OF inv] by simp
    qed
  qed
qed

lemma quietSync_store:
  assumes "storeOk sha (csStore s)" "syncWorkspaceChangesFromHost sha env (Some (entries, deleted)) fs s = (s', fs', Some (Inr ()))"
  shows "\<exists>st st'. storeOk sha st \<and> (\<exists>us. fs = us @ fs')
    \<and> ApplyChanges sha (heNow env) (heApply env) (heRollback env) (heOrder env) entries deleted (Some st) (csTree s) = (csTree s', st', Inr ())"
proof -
  obtain st1 missing where miss: "MissingHashes sha entries (csStore s) = (st1, missing)" by fastforce
  have s1: "storeOk sha st1" using missingLoop_ok [OF assms(1)] miss by (metis MissingHashes_def fst_conv)
  let ?s1 = "s\<lparr>csStore := st1, csWrites := csWrites s + 1\<rparr>"
  obtain s2 fs2 r2 where ex: "expectDataFrame ''need_blobs'' pickNeedBlobs fs ?s1 = (s2, fs2, r2)" by (metis prod.collapse)
  note keeps = expectDataFrame_keeps [OF ex]
  obtain need where need: "r2 = Inr need" using assms(2) miss ex
    by (cases r2) (auto simp: syncWorkspaceChangesFromHost_def Let_def split: if_splits)
  obtain st3 r3 where rc: "receiveMissingBlobsFromHost sha env need entries (csStore s2) = (st3, r3)" by fastforce
  have s3: "storeOk sha st3" using receiveMissing_ok [OF _ rc] keeps s1 by simp
  have r3: "r3 = Some (Inr ())" using assms(2) miss ex need rc
    by (cases r3) (auto simp: syncWorkspaceChangesFromHost_def Let_def split: if_splits sum.splits)
  obtain t' st' r4 where ap: "ApplyChanges sha (heNow env) (heApply env) (heRollback env) (heOrder env) entries deleted (Some st3) (csTree s2) = (t', st', r4)"
    by (metis prod.collapse)
  have "r4 = Inr () \<and> fs' = fs2 \<and> csTree s' = t'" using assms(2) miss ex need rc r3 ap
    by (cases r4) (auto simp: syncWorkspaceChangesFromHost_def Let_def split: if_splits)
  then show ?thesis using s3 ap keeps by auto
qed

text \<open>What a frame of the command adds to the output, and the exit code after it.\<close>

definition frameStdout :: "hostFrame \<Rightarrow> string" where
  "frameStdout f = (case f of FrOutput (Some st) p ok \<Rightarrow> if st = ''stderr'' then [] else p | _ \<Rightarrow> [])"

definition frameStderr :: "hostFrame \<Rightarrow> string" where
  "frameStderr f = (case f of FrOutput (Some st) p ok \<Rightarrow> if st = ''stderr'' then p else [] | _ \<Rightarrow> [])"

definition exitAfter :: "hostFrame \<Rightarrow> int \<Rightarrow> int" where
  "exitAfter f code = (case f of FrExit (Some c) d \<Rightarrow> c | _ \<Rightarrow> code)"

definition isChangesDone :: "hostFrame \<Rightarrow> bool" where
  "isChangesDone f = (case f of FrChangesDone d \<Rightarrow> True | _ \<Rightarrow> False)"

lemma handle_plain:
  assumes "handleExecFrame sha f fs code s = (s', fs', Some (fin, code', None))" "\<not> isChangeSet f"
  shows "csTree s' = csTree s \<and> csStore s' = csStore s \<and> fs' = fs \<and> code' = exitAfter f code \<and> fin = isChangesDone f
    \<and> csOut s' = csOut s @ frameStdout f \<and> csErr s' = csErr s @ frameStderr f"
  using assms by (cases f)
    (auto simp: handleExecFrame_def isChangeSet_def exitAfter_def isChangesDone_def frameStdout_def frameStderr_def copyExecOutput_def
       split: option.splits if_splits prod.splits sum.splits)

text \<open>The frames before the change set.\<close>

lemma execFrames_before:
  "execFrames sha stop (os @ rest) code s = (s', Some (c, None)) \<Longrightarrow> \<forall>f \<in> set os. \<not> isChangeSet f \<and> \<not> isChangesDone f \<Longrightarrow>
   \<exists>s1. execFrames sha stop rest (fold exitAfter os code) s1 = (s', Some (c, None)) \<and> csTree s1 = csTree s \<and> csStore s1 = csStore s
     \<and> csOut s1 = csOut s @ concat (map frameStdout os) \<and> csErr s1 = csErr s @ concat (map frameStderr os)"
proof (induction os arbitrary: code s)
  case (Cons f os)
  obtain s1 fs1 r1 where h: "handleExecFrame sha f (os @ rest) code s = (s1, fs1, r1)" by (metis prod.collapse)
  obtain fin code' where r1: "r1 = Some (fin, code', None)"
    using Cons.prems(1) h by (auto split: option.splits)
  note p = handle_plain [OF h [unfolded r1]]
  then have "execFrames sha stop (os @ rest) (exitAfter f code) s1 = (s', Some (c, None))"
    using Cons.prems h r1 by (auto split: if_splits)
  from Cons.IH [OF this] Cons.prems(2) p show ?case by auto
qed auto

text \<open>After it, the tree is no longer touched.\<close>

lemma execFrames_after:
  "execFrames sha stop fs code s = (s', Some (c, None)) \<Longrightarrow> \<forall>f \<in> set fs. \<not> isChangeSet f \<Longrightarrow> csTree s' = csTree s"
proof (induction sha stop fs code s rule: execFrames.induct)
  case (2 sha stop f fs code s)
  obtain s1 fs1 r1 where h: "handleExecFrame sha f fs code s = (s1, fs1, r1)" by (metis prod.collapse)
  obtain fin code' where r1: "r1 = Some (fin, code', None)" using "2.prems"(1) h by (auto split: option.splits)
  note p = handle_plain [OF h [unfolded r1]]
  show ?case
  proof (cases fin)
    case True
    then show ?thesis using "2.prems" h r1 p by auto
  next
    case False
    then have "execFrames sha stop fs1 code' s1 = (s', Some (c, None))" using "2.prems"(1) h r1 by simp
    then show ?thesis using "2.IH" [OF h [symmetric] refl r1 refl refl refl False] "2.prems"(2) p by auto
  qed
qed simp

lemma execFrames_change:
  assumes "execFrames sha stop (FrChangeSet c env d # rest) code s = (s', Some (x, None))"
  shows "\<exists>s1 fs1. syncWorkspaceChangesFromHost sha env c rest s = (s1, fs1, Some (Inr ())) \<and> execFrames sha stop fs1 code s1 = (s', Some (x, None))"
proof -
  obtain s1 fs1 r1 where sy: "syncWorkspaceChangesFromHost sha env c rest s = (s1, fs1, r1)" by (metis prod.collapse)
  then show ?thesis using assms by (auto simp: handleExecFrame_def split: option.splits sum.splits)
qed

text \<open>Frames that neither write output nor end the command.\<close>

definition quietFrame :: "hostFrame \<Rightarrow> bool" where
  "quietFrame f = (case f of FrOutput st p ok \<Rightarrow> False | FrExit c d \<Rightarrow> False | FrChangeSet c e d \<Rightarrow> False | _ \<Rightarrow> True)"

lemma quietFrame_out: "quietFrame f \<Longrightarrow> frameStdout f = [] \<and> frameStderr f = [] \<and> exitAfter f c = c \<and> \<not> isChangeSet f"
  by (cases f) (auto simp: quietFrame_def frameStdout_def frameStderr_def exitAfter_def isChangeSet_def)

lemma expectDataFrame_quiet:
  "expectDataFrame w pick fs s = (s', fs', r) \<Longrightarrow> \<forall>f \<in> set fs. quietFrame f \<Longrightarrow> s' = s"
proof (induction w pick fs s rule: expectDataFrame.induct)
  case (2 w pick f fs s)
  then show ?case by (cases f) (auto simp: quietFrame_def split: option.splits if_splits)
qed simp

lemma syncWorkspace_out:
  assumes "syncWorkspaceChangesFromHost sha env c fs s = (s', fs', r)" "\<forall>f \<in> set fs. quietFrame f"
  shows "csOut s' = csOut s \<and> csErr s' = csErr s"
proof (cases c)
  case (Some p)
  obtain entries deleted where p: "p = (entries, deleted)" by fastforce
  obtain st1 missing where miss: "MissingHashes sha entries (csStore s) = (st1, missing)" by fastforce
  let ?s1 = "s\<lparr>csStore := st1, csWrites := csWrites s + 1\<rparr>"
  obtain s2 fs2 r2 where ex: "expectDataFrame ''need_blobs'' pickNeedBlobs fs ?s1 = (s2, fs2, r2)" by (metis prod.collapse)
  have "s2 = ?s1" by (rule expectDataFrame_quiet [OF ex assms(2)])
  then show ?thesis using assms(1) Some p miss ex
    by (auto simp: syncWorkspaceChangesFromHost_def Let_def split: if_splits sum.splits prod.splits option.splits)
qed (use assms(1) in \<open>simp add: syncWorkspaceChangesFromHost_def\<close>)

lemma execFrames_quiet:
  "execFrames sha stop fs code s = (s', Some (c, None)) \<Longrightarrow> \<forall>f \<in> set fs. quietFrame f \<Longrightarrow>
   csOut s' = csOut s \<and> csErr s' = csErr s \<and> c = code"
proof (induction sha stop fs code s rule: execFrames.induct)
  case (2 sha stop f fs code s)
  obtain s1 fs1 r1 where h: "handleExecFrame sha f fs code s = (s1, fs1, r1)" by (metis prod.collapse)
  obtain fin code' where r1: "r1 = Some (fin, code', None)" using "2.prems"(1) h by (auto split: option.splits)
  have q: "quietFrame f" using "2.prems"(2) by simp
  note p = handle_plain [OF h [unfolded r1]]
  show ?case
  proof (cases fin)
    case True
    then show ?thesis using "2.prems" h r1 p quietFrame_out [OF q] by auto
  next
    case False
    then have "execFrames sha stop fs1 code' s1 = (s', Some (c, None))" using "2.prems"(1) h r1 by simp
    then show ?thesis using "2.IH" [OF h [symmetric] refl r1 refl refl refl False] "2.prems"(2) p quietFrame_out [OF q] by auto
  qed
qed simp

lemma syncWorkspace_suffix: "syncWorkspaceChangesFromHost sha env c fs s = (s', fs', r) \<Longrightarrow> \<exists>us. fs = us @ fs'"
  by (auto simp: syncWorkspaceChangesFromHost_def Let_def split: option.splits if_splits prod.splits sum.splits
      dest!: expectDataFrame_keeps)

section \<open>Properties\<close>

lemma uploadParallelism_positive: "1 \<le> uploadParallelism cpu wanted chunks"
  by (simp add: uploadParallelism_def Let_def)

text \<open>
  C16. An upload that succeeds has sent every planned chunk exactly once, however its workers
  were scheduled.
\<close>

theorem upload_pool_sends_all:
  assumes "n = nat (uploadParallelism cpu wanted (int (length chunks)))" and "(poolStep n)\<^sup>*\<^sup>* (startPool chunks) s"
    and "poolOver n s" and "poolResult s = Inr ()"
  shows "mset (upSent s) = mset chunks"
proof -
  have n: "0 < n" using uploadParallelism_positive [of cpu wanted "int (length chunks)"] assms(1) by linarith
  have inv: "poolInv n chunks s" by (rule poolInv_reachable [OF assms(2)])
  have e: "upErr s = None" "upParent s = None" using assms(4) by (auto simp: poolResult_def split: option.splits)
  have "\<not> upSending s" using inv n assms(3) e by (auto simp: poolInv_def poolOver_def)
  then have j: "upJobs s = []" using inv e by (auto simp: poolInv_def)
  have "(\<Sum>i<n. poolBusy (upWorkers s i)) = {#}" using assms(3) by (simp add: poolOver_def poolBusy_def)
  then show ?thesis using inv e(1) j by (simp add: poolInv_def)
qed

text \<open>C37. The workers of an upload come to an end: no run is longer than this, and as long as one works there is a step.\<close>

theorem upload_pool_ends:
  assumes "(poolStep n ^^ k) (startPool chunks) s"
  shows "k \<le> 2 * length chunks + n + 2 \<and> (\<not> poolOver n s \<longrightarrow> (\<exists>s'. poolStep n s s'))"
proof -
  have "poolMeasure n (startPool chunks) = 2 * length chunks + n + 2"
    by (simp add: poolMeasure_def startPool_def poolWeight_def)
  then have "k \<le> 2 * length chunks + n + 2" using poolMeasure_run [OF assms] by simp
  then show ?thesis using pool_moves by (auto simp: poolOver_def)
qed

text \<open>
  C6. Without sync-back patterns, and when the project agreed with the manifest the host compares with
  (it has no ignored files), a run that the client ends without an error leaves the project as the
  host found its workspace after the command.
\<close>

theorem run_changes_reach_project:
  assumes "diffWorkspaceChanges visit before after None im = (changed, deleted)"
    and "visits (visit after) after" and "visits (visit before) before" and "manifestOk before" and "manifestOk after"
    and "treeOk (csTree s)" and "SyncStep.agrees sha im (csTree s) before" and "storeOk sha (csStore s)"
    and "orderOk (heOrder env) changed deleted"
    and "\<forall>f \<in> set os. \<not> isChangeSet f \<and> \<not> isChangesDone f" and "\<forall>f \<in> set rest. \<not> isChangeSet f"
    and "processExecFrames sha pick (os @ FrChangeSet (Some (changed, deleted)) env d # rest) s = (s', Some (code, None))"
  shows "SyncStep.agrees sha im (csTree s') after"
proof -
  let ?stop = "waitForStdinForwarding pick"
  have diff: "Diff (visit after) (visit before) before after im = (changed, deleted)"
    using assms(1) by (simp add: diffWorkspaceChanges_def FilterEntriesByPath_def newIncludeMatcher_def Let_def)
  obtain s1 where s1: "execFrames sha ?stop (FrChangeSet (Some (changed, deleted)) env d # rest) (fold exitAfter os 0) s1 = (s', Some (code, None))"
      "csTree s1 = csTree s" "csStore s1 = csStore s"
    using execFrames_before [OF assms(12) [unfolded processExecFrames_def] assms(10)] by blast
  obtain s2 fs2 where s2: "syncWorkspaceChangesFromHost sha env (Some (changed, deleted)) rest s1 = (s2, fs2, Some (Inr ()))"
      "execFrames sha ?stop fs2 (fold exitAfter os 0) s2 = (s', Some (code, None))"
    using execFrames_change [OF s1(1)] by blast
  have ok: "storeOk sha (csStore s1)" using assms(8) s1(3) by simp
  obtain st st' us where ap: "storeOk sha st" "rest = us @ fs2"
      "ApplyChanges sha (heNow env) (heApply env) (heRollback env) (heOrder env) changed deleted (Some st) (csTree s1) = (csTree s2, st', Inr ())"
    using quietSync_store [OF ok s2(1)] by blast
  have "SyncStep.agrees sha im (csTree s2) after"
    using sync_step [OF diff assms(2-6) assms(7) ap(1) assms(9)] ap(3) s1(2) by simp
  then show ?thesis using execFrames_after [OF s2(2)] assms(11) ap(2) by simp
qed

text \<open>
  What the command writes comes out in the order it was sent, and the client returns the exit code the
  host sent last.
\<close>

theorem run_output_in_order:
  assumes "processExecFrames sha pick (os @ FrChangeSet changes env d # rest) s = (s', Some (code, None))"
    and "\<forall>f \<in> set os. \<not> isChangeSet f \<and> \<not> isChangesDone f" and "\<forall>f \<in> set rest. quietFrame f"
  shows "csOut s' = csOut s @ concat (map frameStdout os) \<and> csErr s' = csErr s @ concat (map frameStderr os)
    \<and> code = fold exitAfter os 0"
proof -
  let ?stop = "waitForStdinForwarding pick"
  obtain s1 where s1: "execFrames sha ?stop (FrChangeSet changes env d # rest) (fold exitAfter os 0) s1 = (s', Some (code, None))"
      "csOut s1 = csOut s @ concat (map frameStdout os)" "csErr s1 = csErr s @ concat (map frameStderr os)"
    using execFrames_before [OF assms(1) [unfolded processExecFrames_def] assms(2)] by blast
  obtain s2 fs2 where s2: "syncWorkspaceChangesFromHost sha env changes rest s1 = (s2, fs2, Some (Inr ()))"
      "execFrames sha ?stop fs2 (fold exitAfter os 0) s2 = (s', Some (code, None))"
    using execFrames_change [OF s1(1)] by blast
  have sub: "\<forall>f \<in> set fs2. quietFrame f" using syncWorkspace_suffix [OF s2(1)] assms(3) by auto
  show ?thesis
    using execFrames_quiet [OF s2(2) sub] syncWorkspace_out [OF s2(1) assms(3)] s1(2,3) by simp_all
qed

section \<open>Witnesses\<close>

definition sendOne :: "blobChunkInfo \<Rightarrow> uploadPool" where
  "sendOne c = (startPool [c])\<lparr>upJobs := [], upSending := False, upWorkers := (\<lambda>_. PoolIdle)(0 := PoolEnded), upSent := [c]\<rparr>"

lemma sendOne_run: "(poolStep (nat 1) ^^ 4) (startPool [c]) (sendOne c)"
proof -
  let ?a = "(startPool [c])\<lparr>upJobs := [], upWorkers := (\<lambda>_. PoolIdle)(0 := PoolBusy c)\<rparr>"
  let ?b = "(startPool [c])\<lparr>upJobs := [], upSent := [c]\<rparr>"
  have 1: "poolStep 1 (startPool [c]) ?a" using poolStep.hand [of "startPool [c]" c "[]" 0 1] by (simp add: startPool_def)
  have "?a\<lparr>upWorkers := (upWorkers ?a)(0 := PoolIdle), upSent := upSent ?a @ [c]\<rparr> = ?b" by (simp add: startPool_def fun_upd_idem)
  then have 2: "poolStep 1 ?a ?b" using poolStep.jobSent [of 0 1 ?a c] by simp
  have 3: "poolStep 1 ?b (?b\<lparr>upSending := False\<rparr>)" using poolStep.closeJobs [of ?b 1] by (simp add: startPool_def)
  have 4: "poolStep 1 (?b\<lparr>upSending := False\<rparr>) (sendOne c)"
    using poolStep.workerEnds [of 0 1 "?b\<lparr>upSending := False\<rparr>"] by (simp add: startPool_def sendOne_def)
  have "(poolStep 1 ^^ 4) (startPool [c]) (sendOne c)" using 1 2 3 4 by (auto simp: numeral_eq_Suc)
  then show ?thesis by simp
qed

lemma upload_pool_sends_all_witness:
  "poolOver 1 (sendOne (demoChunk 0)) \<and> mset (upSent (sendOne (demoChunk 0))) = {#demoChunk 0#}"
proof -
  have n: "nat 1 = nat (uploadParallelism 4 0 (int (length [demoChunk 0])))" by code_simp
  have r: "(poolStep (nat 1))\<^sup>*\<^sup>* (startPool [demoChunk 0]) (sendOne (demoChunk 0))" by (rule relpowp_imp_rtranclp [OF sendOne_run])
  have e: "poolOver (nat 1) (sendOne (demoChunk 0))" "poolResult (sendOne (demoChunk 0)) = Inr ()"
    by (simp_all add: poolOver_def poolResult_def sendOne_def startPool_def)
  show ?thesis using upload_pool_sends_all [OF n r e] e(1) by simp
qed

lemma upload_pool_ends_witness: "(4 :: nat) \<le> 2 * length [demoChunk 0] + 1 + 2"
  using upload_pool_ends [OF sendOne_run [of "demoChunk 0"]] by simp

definition demoHome :: homeEnv where
  "demoHome = \<lparr>heLock = True, heStore = True, heNeedWrite = True, heTempOk = \<lambda>_. True, heEvents = [], hePicks = [], heNow = 0,
     heApply = noFaults, heRollback = noFaults, heOrder = \<lambda>_. [[''a''], [''b'']], heMade = True, heSave = WriteOk, heDoneWrite = True\<rparr>"

definition demoClient :: clientState where
  "demoClient = \<lparr>csTree = demoTree, csStore = emptyStore, csCache = Missing, csOut = [], csErr = [], csWrites = 0\<rparr>"

definition demoBefore :: "hostFrame list" where
  "demoBefore = [FrOutput (Some ''stdout'') ''ab'' True, FrHeartbeat True, FrOutput (Some ''stderr'') ''e'' True,
     FrOutput (Some ''stdout'') ''c'' True, FrExit (Some 3) True]"

definition demoRest :: "hostFrame list" where
  "demoRest = [FrHeartbeat True, FrNeedBlobs (Some \<lparr>needHashes = [], needToken = [], needParallel = 0, needChunkSize = 0\<rparr>) True,
     FrChangesDone True]"

definition demoFrames :: "hostFrame list" where
  "demoFrames = demoBefore @ FrChangeSet (Some ([plainEntry ''b'' KindSymlink], [''a''])) demoHome True # demoRest"

lemma demoClient_run:
  obtains s' where "processExecFrames (\<lambda>_. []) (Some (StdinEnded None False)) demoFrames demoClient = (s', Some (3, None))"
proof -
  have "snd (processExecFrames (\<lambda>_. []) (Some (StdinEnded None False)) demoFrames demoClient) = Some (3, None)" by code_simp
  then show ?thesis using that by (metis prod.collapse)
qed

lemma demoFrames_ok:
  "\<forall>f \<in> set demoBefore. \<not> isChangeSet f \<and> \<not> isChangesDone f" "\<forall>f \<in> set demoRest. \<not> isChangeSet f" "\<forall>f \<in> set demoRest. quietFrame f"
  by (simp_all add: demoBefore_def demoRest_def isChangeSet_def isChangesDone_def quietFrame_def)

lemma run_changes_reach_project_witness:
  "SyncStep.agrees (\<lambda>_. []) False
     (csTree (fst (processExecFrames (\<lambda>_. []) (Some (StdinEnded None False)) demoFrames demoClient))) [plainEntry ''b'' KindSymlink]"
proof -
  let ?b = "[plainEntry ''a'' KindFile]" and ?a = "[plainEntry ''b'' KindSymlink]" and ?v = "map Path"
  have d: "diffWorkspaceChanges ?v ?b ?a None False = (?a, [''a''])" by code_simp
  have v: "visits (?v ?a) ?a" "visits (?v ?b) ?b" "manifestOk ?b" "manifestOk ?a" by code_simp+
  have t: "treeOk (csTree demoClient)" "storeOk (\<lambda>_. []) (csStore demoClient)"
    using demoTree_ok emptyStore_ok by (simp_all add: demoClient_def)
  have ag: "SyncStep.agrees (\<lambda>_. []) False (csTree demoClient) ?b" by code_simp
  have o: "orderOk (heOrder demoHome) ?a [''a'']" by code_simp
  obtain s' where run: "processExecFrames (\<lambda>_. []) (Some (StdinEnded None False)) demoFrames demoClient = (s', Some (3, None))"
    by (rule demoClient_run)
  show ?thesis
    using run_changes_reach_project [OF d v t(1) ag t(2) o demoFrames_ok(1,2) run [unfolded demoFrames_def]] run by simp
qed

lemma run_output_in_order_witness:
  "csOut (fst (processExecFrames (\<lambda>_. []) (Some (StdinEnded None False)) demoFrames demoClient)) = ''abc''"
proof -
  obtain s' where run: "processExecFrames (\<lambda>_. []) (Some (StdinEnded None False)) demoFrames demoClient = (s', Some (3, None))"
    by (rule demoClient_run)
  then have "csOut s' = csOut demoClient @ concat (map frameStdout demoBefore)"
    using run_output_in_order [OF run [unfolded demoFrames_def] demoFrames_ok(1,3)] by simp
  then show ?thesis using run by (simp add: demoClient_def demoBefore_def frameStdout_def)
qed

text \<open>
  The wait for stdin after the last frame: a run whose stdin stays open, a pipe nobody closes, does
  not return although the host has finished.
\<close>

lemma run_waits_for_stdin: "snd (processExecFrames sha None [FrExit (Some c) True, FrChangesDone True] s) = None"
  by (simp add: processExecFrames_def handleExecFrame_def waitForStdinForwarding_def)

text \<open>
  The connection of an upload worker stays open: what the deferred close is given is the variable
  before the first dial.
\<close>

lemma worker_connection_left_open:
  assumes "aeCtx (env 1) = None" "aeTransfer (env 1) None = (Some c, Inr ())"
  shows "uploadBlobWorker [(env, None)] = (Some c, [None], Inr ())"
proof -
  have "retryBlobTransferChunk env None = (noTrace\<lparr>rtCalls := [None]\<rparr>, Some c, Inr ())"
    unfolding retryBlobTransferChunk_def using assms by (simp add: noTrace_def Let_def blobTransferMaxAttempts_def numeral_eq_Suc)
  then show ?thesis by (simp add: uploadBlobWorker_def noTrace_def)
qed

text \<open>A back-quote is not among the characters a logged command is quoted for.\<close>

lemma backquote_not_quoted: "quoteCommandArg [CHR 0x60] = [CHR 0x60]"
  by code_simp
end
