(* ===== verification/ClientState.thy ===== *)
theory ClientState
  imports Prelude GoPath
begin

text \<open>
  What a client remembers between its commands (clientstate/state.go): its label, its own
  credentials and the hosts it knows, in one JSON file. A pointer to a record is the record, or
  \<open>None\<close>, as long as the array it points into stays; what is behind it after records were
  removed in place is in \<open>hostArray\<close>. Methods of a nil state are not modelled.
\<close>

record hostRecord =
  hrAddress :: string
  hrName :: string
  hrOS :: string
  hrFingerprint :: string
  hrPaired :: bool
  hrLastPairedCert :: string
  hrCertPEM :: string
  hrKeyPEM :: string

record clientMemory =
  clLabel :: string
  clCertPEM :: string
  clKeyPEM :: string
  clHosts :: "hostRecord list"

definition emptyMemory :: clientMemory where
  "emptyMemory = \<lparr>clLabel = [], clCertPEM = [], clKeyPEM = [], clHosts = []\<rparr>"

text \<open>\<open>home\<close>: what \<open>os.UserHomeDir\<close> gives; \<open>current\<close>: the home of the current user.\<close>

definition DefaultDir :: "string option \<Rightarrow> string option \<Rightarrow> string option" where
  "DefaultDir home current =
     (let first = (case home of None \<Rightarrow> [] | Some h \<Rightarrow> if trimSpace h = [] then [] else h) in
      if first \<noteq> [] then Some (pathJoin [first, ''.rmtx''])
      else (case current of
        None \<Rightarrow> None
      | Some c \<Rightarrow> if trimSpace c = [] then None else Some (pathJoin [c, ''.rmtx''])))"

definition LoadState :: "bool \<Rightarrow> clientMemory jsonFile \<Rightarrow> ioError + clientMemory" where
  "LoadState made f = (if \<not> made then Inl WriteError else readJSON emptyMemory f)"

definition SaveState :: "bool \<Rightarrow> writeOutcome \<Rightarrow> clientMemory \<Rightarrow> clientMemory jsonFile \<Rightarrow> clientMemory jsonFile \<times> (ioError + unit)" where
  "SaveState made wo s f = (if \<not> made then (f, Inl WriteError) else writeJSONAtomically wo s f)"

definition FindHostByAddress :: "string \<Rightarrow> clientMemory \<Rightarrow> hostRecord option" where
  "FindHostByAddress address s = find (\<lambda>h. hrAddress h = trimSpace address) (clHosts s)"

definition FindHostByFingerprint :: "string \<Rightarrow> clientMemory \<Rightarrow> hostRecord option" where
  "FindHostByFingerprint fingerprint s =
     (if trimSpace fingerprint = [] then None else find (\<lambda>h. hrFingerprint h = trimSpace fingerprint) (clHosts s))"

text \<open>The first element with a property is replaced; \<open>None\<close> when there is none.\<close>

fun replaceFirst :: "('a \<Rightarrow> bool) \<Rightarrow> 'a \<Rightarrow> 'a list \<Rightarrow> 'a list option" where
  "replaceFirst P y [] = None"
| "replaceFirst P y (x # xs) = (if P x then Some (y # xs) else map_option ((#) x) (replaceFirst P y xs))"

definition UpsertHost :: "hostRecord \<Rightarrow> clientMemory \<Rightarrow> clientMemory" where
  "UpsertHost r s =
     (let r = r\<lparr>hrAddress := trimSpace (hrAddress r), hrFingerprint := trimSpace (hrFingerprint r)\<rparr>;
          byFingerprint = (if hrFingerprint r \<noteq> [] then replaceFirst (\<lambda>h. hrFingerprint h = hrFingerprint r) r (clHosts s) else None) in
      case byFingerprint of
        Some hs \<Rightarrow> s\<lparr>clHosts := hs\<rparr>
      | None \<Rightarrow>
          (case replaceFirst (\<lambda>h. hrAddress h = hrAddress r \<and> (trimSpace (hrFingerprint h) = [] \<or> hrFingerprint r = [])) r (clHosts s) of
             Some hs \<Rightarrow> s\<lparr>clHosts := hs\<rparr>
           | None \<Rightarrow> s\<lparr>clHosts := clHosts s @ [r]\<rparr>))"

fun hostIndexByFingerprint :: "string \<Rightarrow> hostRecord list \<Rightarrow> nat option" where
  "hostIndexByFingerprint fp [] = None"
| "hostIndexByFingerprint fp (h # hs) = (if hrFingerprint h = fp then Some 0 else map_option Suc (hostIndexByFingerprint fp hs))"

text \<open>
  \<open>pre\<close>: the records the loop has passed, so that its index is their number; \<open>rest\<close>: the slots of
  the array behind the end of the slice. \<open>append(hosts[:i], hosts[i+1:]...)\<close> moves the records
  after the removed one down and leaves the last slot as it was.
\<close>

fun aliasLoop ::
  "nat \<Rightarrow> string \<Rightarrow> hostRecord list \<Rightarrow> hostRecord list \<Rightarrow> hostRecord list \<Rightarrow> hostRecord list \<times> hostRecord list \<times> nat \<times> bool" where
  "aliasLoop index address rest pre [] = (pre, rest, index, True)"
| "aliasLoop index address rest pre (h # hs) =
     (if length pre = index \<or> hrAddress h \<noteq> address then aliasLoop index address rest (pre @ [h]) hs
      else if trimSpace (hrFingerprint h) \<noteq> [] then (pre @ h # hs, rest, index, False)
      else aliasLoop (if length pre < index then index - 1 else index) address (last (h # hs) # rest) pre hs)"

definition removeUnpairedAddressAliases :: "nat \<Rightarrow> string \<Rightarrow> clientMemory \<Rightarrow> clientMemory \<times> nat \<times> bool" where
  "removeUnpairedAddressAliases index address s =
     (case aliasLoop index address [] [] (clHosts s) of (hs, rest, index', ok) \<Rightarrow> (s\<lparr>clHosts := hs\<rparr>, index', ok))"

text \<open>The array behind the slice of hosts after that: a pointer into it sees the record now in its slot.\<close>

definition hostArray :: "nat \<Rightarrow> string \<Rightarrow> clientMemory \<Rightarrow> hostRecord list" where
  "hostArray index address s = (case aliasLoop index address [] [] (clHosts s) of (hs, rest, index', ok) \<Rightarrow> hs @ rest)"

definition UpdateHostAddress :: "string \<Rightarrow> string \<Rightarrow> clientMemory \<Rightarrow> clientMemory \<times> bool" where
  "UpdateHostAddress fingerprint address s =
     (let fp = trimSpace fingerprint; addr = trimSpace address in
      if fp = [] \<or> addr = [] then (s, False)
      else (case hostIndexByFingerprint fp (clHosts s) of
        None \<Rightarrow> (s, False)
      | Some index \<Rightarrow>
          if hrAddress (clHosts s ! index) = addr then (s, False)
          else (case removeUnpairedAddressAliases index addr s of
            (s', index', False) \<Rightarrow> (s', False)
          | (s', index', True) \<Rightarrow> (s'\<lparr>clHosts := (clHosts s')[index' := (clHosts s' ! index')\<lparr>hrAddress := addr\<rparr>]\<rparr>, True))))"

definition recordCredentials :: "hostRecord \<Rightarrow> (string \<times> string) option" where
  "recordCredentials r = (if trimSpace (hrCertPEM r) = [] \<or> trimSpace (hrKeyPEM r) = [] then None else Some (hrCertPEM r, hrKeyPEM r))"

definition defaultCredentials :: "clientMemory \<Rightarrow> string \<times> string" where
  "defaultCredentials s = (if trimSpace (clCertPEM s) \<noteq> [] \<and> trimSpace (clKeyPEM s) \<noteq> [] then (clCertPEM s, clKeyPEM s) else ([], []))"

definition HostCredentials :: "string \<Rightarrow> string \<Rightarrow> clientMemory \<Rightarrow> string \<times> string" where
  "HostCredentials address fingerprint s =
     (case FindHostByFingerprint fingerprint s of
        Some r \<Rightarrow> (case recordCredentials r of Some c \<Rightarrow> c | None \<Rightarrow> defaultCredentials s)
      | None \<Rightarrow>
          (case FindHostByAddress address s of
             Some r \<Rightarrow> (case recordCredentials r of Some c \<Rightarrow> c | None \<Rightarrow> defaultCredentials s)
           | None \<Rightarrow> defaultCredentials s))"

definition DefaultClientLabel :: "string option \<Rightarrow> string" where
  "DefaultClientLabel hostname = (case hostname of Some h \<Rightarrow> if trimSpace h \<noteq> [] then h else ''rmtx-client'' | None \<Rightarrow> ''rmtx-client'')"

section \<open>Facts\<close>

definition hostPrints :: "hostRecord list \<Rightarrow> string list" where
  "hostPrints hs = filter (\<lambda>f. trimSpace f \<noteq> []) (map hrFingerprint hs)"

text \<open>No two hosts have the same fingerprint.\<close>

definition hostsOk :: "clientMemory \<Rightarrow> bool" where
  "hostsOk s \<longleftrightarrow> distinct (hostPrints (clHosts s))"

lemma replaceFirst_None: "replaceFirst P y xs = None \<longleftrightarrow> (\<forall>x \<in> set xs. \<not> P x)"
  by (induction xs) auto

lemma replaceFirst_Some: "replaceFirst P y xs = Some ys \<Longrightarrow> \<exists>as x bs. xs = as @ x # bs \<and> P x \<and> (\<forall>a \<in> set as. \<not> P a) \<and> ys = as @ y # bs"
proof (induction xs arbitrary: ys)
  case (Cons x xs)
  show ?case
  proof (cases "P x")
    case True
    then show ?thesis using Cons.prems by (intro exI [of _ "[]"]) auto
  next
    case False
    then obtain zs where z: "replaceFirst P y xs = Some zs" "ys = x # zs" using Cons.prems by auto
    then obtain as a bs where "xs = as @ a # bs \<and> P a \<and> (\<forall>a \<in> set as. \<not> P a) \<and> zs = as @ y # bs" using Cons.IH by blast
    then show ?thesis using False z(2) by (intro exI [of _ "x # as"]) auto
  qed
qed simp

lemma find_app: "find P (as @ bs) = (case find P as of Some x \<Rightarrow> Some x | None \<Rightarrow> find P bs)"
  by (induction as) auto

lemma find_none: "\<forall>x \<in> set xs. \<not> P x \<Longrightarrow> find P xs = None"
  by (simp add: find_None_iff)

text \<open>The stages of an insertion.\<close>

lemma UpsertHost_cases:
  fixes r :: hostRecord and s :: clientMemory
  assumes "r' = r\<lparr>hrAddress := trimSpace (hrAddress r), hrFingerprint := trimSpace (hrFingerprint r)\<rparr>"
  obtains as x bs where "clHosts s = as @ x # bs" "clHosts (UpsertHost r s) = as @ r' # bs"
      "hrFingerprint r' \<noteq> []" "hrFingerprint x = hrFingerprint r'" "\<forall>a \<in> set as. hrFingerprint a \<noteq> hrFingerprint r'"
    | as x bs where "clHosts s = as @ x # bs" "clHosts (UpsertHost r s) = as @ r' # bs" "hrAddress x = hrAddress r'"
      "trimSpace (hrFingerprint x) = [] \<or> hrFingerprint r' = []"
      "hrFingerprint r' \<noteq> [] \<longrightarrow> (\<forall>a \<in> set (clHosts s). hrFingerprint a \<noteq> hrFingerprint r')"
    | "clHosts (UpsertHost r s) = clHosts s @ [r']" "hrFingerprint r' \<noteq> [] \<longrightarrow> (\<forall>a \<in> set (clHosts s). hrFingerprint a \<noteq> hrFingerprint r')"
proof -
  let ?P = "\<lambda>h. hrFingerprint h = hrFingerprint r'"
  let ?Q = "\<lambda>h. hrAddress h = hrAddress r' \<and> (trimSpace (hrFingerprint h) = [] \<or> hrFingerprint r' = [])"
  have u: "UpsertHost r s = (case if hrFingerprint r' \<noteq> [] then replaceFirst ?P r' (clHosts s) else None of
        Some hs \<Rightarrow> s\<lparr>clHosts := hs\<rparr>
      | None \<Rightarrow> (case replaceFirst ?Q r' (clHosts s) of Some hs \<Rightarrow> s\<lparr>clHosts := hs\<rparr> | None \<Rightarrow> s\<lparr>clHosts := clHosts s @ [r']\<rparr>))"
    unfolding UpsertHost_def Let_def assms by simp
  show ?thesis
  proof (cases "if hrFingerprint r' \<noteq> [] then replaceFirst ?P r' (clHosts s) else None")
    case (Some hs)
    then have fp: "hrFingerprint r' \<noteq> []" "replaceFirst ?P r' (clHosts s) = Some hs" by (auto split: if_splits)
    obtain as x bs where "clHosts s = as @ x # bs \<and> ?P x \<and> (\<forall>a \<in> set as. \<not> ?P a) \<and> hs = as @ r' # bs"
      using replaceFirst_Some [OF fp(2)] by blast
    then show ?thesis using that(1) [of as x bs] fp(1) u Some by simp
  next
    case None
    then have np: "hrFingerprint r' \<noteq> [] \<longrightarrow> (\<forall>a \<in> set (clHosts s). \<not> ?P a)" by (simp add: replaceFirst_None split: if_splits)
    show ?thesis
    proof (cases "replaceFirst ?Q r' (clHosts s)")
      case (Some hs)
      then obtain as x bs where "clHosts s = as @ x # bs \<and> ?Q x \<and> (\<forall>a \<in> set as. \<not> ?Q a) \<and> hs = as @ r' # bs"
        using replaceFirst_Some by fastforce
      then show ?thesis using that(2) [of as x bs] np u None Some by simp
    next
      case n: None
      then show ?thesis using that(3) np u None by simp
    qed
  qed
qed

text \<open>Records with a fingerprint are all a lookup by fingerprint can see.\<close>

definition known :: "hostRecord \<Rightarrow> bool" where
  "known h \<longleftrightarrow> trimSpace (hrFingerprint h) \<noteq> []"

lemma find_known: "trimSpace g = g \<Longrightarrow> g \<noteq> [] \<Longrightarrow> find (\<lambda>h. hrFingerprint h = g) (filter known hs) = find (\<lambda>h. hrFingerprint h = g) hs"
  by (induction hs) (auto simp: known_def)

lemma FindHostByFingerprint_known:
  "filter known (clHosts s) = filter known (clHosts s') \<Longrightarrow> FindHostByFingerprint g s = FindHostByFingerprint g s'"
  using find_known [of "trimSpace g" "clHosts s"] find_known [of "trimSpace g" "clHosts s'"] by (simp add: FindHostByFingerprint_def)

lemma hostPrints_known: "hostPrints hs = map hrFingerprint (filter known hs)"
  by (induction hs) (simp_all add: hostPrints_def known_def)

lemma hostPrints_append [simp]: "hostPrints (as @ bs) = hostPrints as @ hostPrints bs"
  by (simp add: hostPrints_def)

lemma hostPrints_Cons: "hostPrints (h # hs) = (if known h then hrFingerprint h # hostPrints hs else hostPrints hs)"
  by (simp add: hostPrints_def known_def)

lemma set_hostPrints: "set (hostPrints hs) = hrFingerprint ` {h \<in> set hs. known h}"
  by (auto simp: hostPrints_known)

text \<open>With distinct fingerprints the first match is the only one.\<close>

lemma find_distinct:
  "distinct (hostPrints (as @ h # bs)) \<Longrightarrow> known h \<Longrightarrow> find (\<lambda>x. hrFingerprint x = hrFingerprint h) (as @ h # bs) = Some h"
proof (induction as)
  case (Cons a as)
  have "hrFingerprint a \<noteq> hrFingerprint h" using Cons.prems by (auto simp: hostPrints_Cons known_def split: if_splits)
  then show ?case using Cons by (simp add: hostPrints_Cons split: if_splits)
qed simp

lemma replaced_prints:
  assumes d: "distinct (hostPrints (as @ x # bs))" and r: "known r"
    and x: "hrFingerprint x = hrFingerprint r \<or> \<not> known x \<and> (\<forall>a \<in> set (as @ bs). hrFingerprint a \<noteq> hrFingerprint r)"
  shows "distinct (hostPrints (as @ r # bs))"
proof -
  have "hrFingerprint r \<notin> set (hostPrints as) \<union> set (hostPrints bs)"
  proof
    assume "hrFingerprint r \<in> set (hostPrints as) \<union> set (hostPrints bs)"
    then obtain a where a: "a \<in> set (as @ bs)" "hrFingerprint a = hrFingerprint r" unfolding set_hostPrints by fastforce
    then have e: "hrFingerprint x = hrFingerprint r" using x by blast
    then have "known x" using r by (simp add: known_def)
    then show False using d e \<open>hrFingerprint r \<in> _\<close> by (auto simp: hostPrints_Cons)
  qed
  then show ?thesis using d r by (auto simp: hostPrints_Cons split: if_splits)
qed

lemma find_replaced: "hrFingerprint x \<noteq> g \<Longrightarrow> hrFingerprint r \<noteq> g \<Longrightarrow>
  find (\<lambda>h. hrFingerprint h = g) (as @ r # bs) = find (\<lambda>h. hrFingerprint h = g) (as @ x # bs)"
  by (simp add: find_app split: option.split)

text \<open>The record of a host after it was saved.\<close>

lemma paired_host_saved:
  assumes "hostsOk s" and "trimSpace (hrFingerprint r) \<noteq> []"
  shows "hostsOk (UpsertHost r s)
    \<and> FindHostByFingerprint (hrFingerprint r) (UpsertHost r s)
        = Some (r\<lparr>hrAddress := trimSpace (hrAddress r), hrFingerprint := trimSpace (hrFingerprint r)\<rparr>)
    \<and> (\<forall>g. trimSpace g \<noteq> trimSpace (hrFingerprint r) \<longrightarrow> FindHostByFingerprint g (UpsertHost r s) = FindHostByFingerprint g s)
    \<and> (\<forall>c address. recordCredentials r = Some c \<longrightarrow> HostCredentials address (hrFingerprint r) (UpsertHost r s) = c)"
proof -
  define r' where "r' = r\<lparr>hrAddress := trimSpace (hrAddress r), hrFingerprint := trimSpace (hrFingerprint r)\<rparr>"
  have fp: "hrFingerprint r' = trimSpace (hrFingerprint r)" "known r'" "hrFingerprint r' \<noteq> []" using assms(2) by (simp_all add: r'_def known_def)
  have blank: "\<not> known x \<Longrightarrow> hrFingerprint x \<noteq> trimSpace g \<or> trimSpace g = []" for x g by (auto simp: known_def)
  have all: "hostsOk (UpsertHost r s) \<and> find (\<lambda>h. hrFingerprint h = hrFingerprint r') (clHosts (UpsertHost r s)) = Some r'
      \<and> (\<forall>g. trimSpace g \<noteq> [] \<longrightarrow> trimSpace g \<noteq> hrFingerprint r' \<longrightarrow>
          find (\<lambda>h. hrFingerprint h = trimSpace g) (clHosts (UpsertHost r s)) = find (\<lambda>h. hrFingerprint h = trimSpace g) (clHosts s))"
  proof (rule UpsertHost_cases [OF r'_def, of s])
    fix as x bs
    assume a: "clHosts s = as @ x # bs" "clHosts (UpsertHost r s) = as @ r' # bs"
      "hrFingerprint r' \<noteq> []" "hrFingerprint x = hrFingerprint r'" "\<forall>a \<in> set as. hrFingerprint a \<noteq> hrFingerprint r'"
    have d: "distinct (hostPrints (as @ r' # bs))"
      using replaced_prints [OF _ fp(2), of as x bs] assms(1) a(1,4) by (simp add: hostsOk_def)
    then show ?thesis using a find_distinct [OF d fp(2)] find_replaced [of x _ r' as bs] by (simp add: hostsOk_def)
  next
    fix as x bs
    assume a: "clHosts s = as @ x # bs" "clHosts (UpsertHost r s) = as @ r' # bs" "hrAddress x = hrAddress r'"
      "trimSpace (hrFingerprint x) = [] \<or> hrFingerprint r' = []"
      "hrFingerprint r' \<noteq> [] \<longrightarrow> (\<forall>a \<in> set (clHosts s). hrFingerprint a \<noteq> hrFingerprint r')"
    have nx: "\<not> known x" using a(4) fp(3) by (simp add: known_def)
    have d: "distinct (hostPrints (as @ r' # bs))"
      using replaced_prints [OF _ fp(2), of as x bs] assms(1) a(1,5) nx fp(3) by (simp add: hostsOk_def)
    have "find (\<lambda>h. hrFingerprint h = trimSpace g) (as @ r' # bs) = find (\<lambda>h. hrFingerprint h = trimSpace g) (as @ x # bs)"
      if "trimSpace g \<noteq> []" "trimSpace g \<noteq> hrFingerprint r'" for g
      by (rule find_replaced) (use blank [OF nx, of g] that in auto)
    then show ?thesis using a(1,2) find_distinct [OF d fp(2)] d by (simp add: hostsOk_def)
  next
    assume a: "clHosts (UpsertHost r s) = clHosts s @ [r']" "hrFingerprint r' \<noteq> [] \<longrightarrow> (\<forall>a \<in> set (clHosts s). hrFingerprint a \<noteq> hrFingerprint r')"
    then have "distinct (hostPrints (clHosts s @ [r']))"
      using assms(1) fp by (auto simp: hostsOk_def hostPrints_Cons set_hostPrints) (simp add: hostPrints_def)
    then show ?thesis using a find_distinct [of "clHosts s" r' "[]"] fp(2) by (auto simp: hostsOk_def find_app split: option.splits)
  qed
  have f: "FindHostByFingerprint (hrFingerprint r) (UpsertHost r s) = Some r'"
    using all fp assms(2) by (simp add: FindHostByFingerprint_def)
  moreover have "\<forall>g. trimSpace g \<noteq> trimSpace (hrFingerprint r) \<longrightarrow> FindHostByFingerprint g (UpsertHost r s) = FindHostByFingerprint g s"
    using all fp(1) by (simp add: FindHostByFingerprint_def)
  moreover have "recordCredentials r' = recordCredentials r" by (simp add: recordCredentials_def r'_def)
  ultimately show ?thesis using all by (simp add: HostCredentials_def r'_def)
qed

text \<open>What the removal of aliases keeps.\<close>

lemma aliasLoop_keeps:
  "aliasLoop index address rest pre hs = (hs', rest', index', ok) \<Longrightarrow> index < length (pre @ hs) \<Longrightarrow>
   \<forall>j < length pre. j \<noteq> index \<longrightarrow> hrAddress (pre ! j) \<noteq> address \<Longrightarrow>
   index' < length hs' \<and> hs' ! index' = (pre @ hs) ! index \<and> filter known hs' = filter known (pre @ hs)
   \<and> (ok \<longrightarrow> (\<forall>j < length hs'. j \<noteq> index' \<longrightarrow> hrAddress (hs' ! j) \<noteq> address))"
proof (induction index address rest pre hs arbitrary: hs' rest' index' ok rule: aliasLoop.induct)
  case (2 index address rest pre h hs)
  show ?case
  proof (cases "length pre = index \<or> hrAddress h \<noteq> address")
    case True
    then have run: "aliasLoop index address rest (pre @ [h]) hs = (hs', rest', index', ok)" using "2.prems"(1) by simp
    have "\<forall>j < length (pre @ [h]). j \<noteq> index \<longrightarrow> hrAddress ((pre @ [h]) ! j) \<noteq> address"
      using "2.prems"(3) True by (auto simp: nth_append less_Suc_eq)
    then show ?thesis using "2.IH"(1) [OF True run] "2.prems"(2) by simp
  next
    case False
    show ?thesis
    proof (cases "trimSpace (hrFingerprint h) \<noteq> []")
      case True
      then show ?thesis using "2.prems" False by auto
    next
      case blank: False
      let ?i = "if length pre < index then index - 1 else index"
      have run: "aliasLoop ?i address (last (h # hs) # rest) pre hs = (hs', rest', index', ok)" using "2.prems"(1) False blank by simp
      have i: "?i < length (pre @ hs)" "(pre @ hs) ! ?i = (pre @ h # hs) ! index"
        using "2.prems"(2) False by (auto simp: nth_append nth_Cons' Suc_diff_Suc)
      have p: "\<forall>j < length pre. j \<noteq> ?i \<longrightarrow> hrAddress (pre ! j) \<noteq> address" using "2.prems"(3) False by auto
      have k: "\<not> known h" using blank by (simp add: known_def)
      show ?thesis using "2.IH"(2) [OF False blank run i(1) p] i(2) k by simp
    qed
  qed
qed auto

text \<open>The slots of the array hold records that were there before.\<close>

lemma aliasLoop_members:
  "aliasLoop index address rest pre hs = (hs', rest', index', ok) \<Longrightarrow>
   set hs' \<union> set rest' \<subseteq> set rest \<union> set pre \<union> set hs \<and> length hs' + length rest' = length rest + length pre + length hs"
proof (induction index address rest pre hs arbitrary: hs' rest' index' ok rule: aliasLoop.induct)
  case (2 index address rest pre h hs)
  show ?case
  proof (cases "length pre = index \<or> hrAddress h \<noteq> address")
    case True
    then have run: "aliasLoop index address rest (pre @ [h]) hs = (hs', rest', index', ok)" using "2.prems" by simp
    from "2.IH"(1) [OF True this] show ?thesis by auto
  next
    case False
    show ?thesis
    proof (cases "trimSpace (hrFingerprint h) \<noteq> []")
      case True
      then show ?thesis using "2.prems" False by auto
    next
      case blank: False
      let ?i = "if length pre < index then index - 1 else index"
      have run: "aliasLoop ?i address (last (h # hs) # rest) pre hs = (hs', rest', index', ok)" using "2.prems" False blank by simp
      have l: "last (h # hs) \<in> set (h # hs)" by (rule last_in_set) simp
      have "set (last (h # hs) # rest) \<union> set pre \<union> set hs \<subseteq> set rest \<union> set pre \<union> set (h # hs)" using l by auto
      then show ?thesis using "2.IH"(2) [OF False blank run] by auto
    qed
  qed
qed auto

text \<open>A refused update without aliases to drop leaves the array as it is.\<close>

lemma aliasLoop_untouched:
  "\<forall>h \<in> set hs. hrAddress h = address \<longrightarrow> known h \<Longrightarrow> aliasLoop index address rest pre hs = (hs', rest', index', ok) \<Longrightarrow>
   hs' = pre @ hs \<and> rest' = rest"
  by (induction index address rest pre hs arbitrary: hs' rest' index' ok rule: aliasLoop.induct)
    (auto simp: known_def split: if_splits)

lemma aliasLoop_accepts:
  "\<forall>j < length hs. length pre + j \<noteq> index \<longrightarrow> hrAddress (hs ! j) = address \<longrightarrow> \<not> known (hs ! j) \<Longrightarrow>
   aliasLoop index address rest pre hs = (hs', rest', index', ok) \<Longrightarrow> ok"
proof (induction index address rest pre hs arbitrary: hs' rest' index' ok rule: aliasLoop.induct)
  case (2 index address rest pre h hs)
  have later: "\<not> known (hs ! j)" if "j < length hs" "length pre + Suc j \<noteq> index" "hrAddress (hs ! j) = address" for j
    using "2.prems"(1) that by (auto dest: spec [of _ "Suc j"])
  show ?case
  proof (cases "length pre = index \<or> hrAddress h \<noteq> address")
    case True
    have "aliasLoop index address rest (pre @ [h]) hs = (hs', rest', index', ok)" using "2.prems"(2) True by simp
    from "2.IH"(1) [OF True _ this] later show ?thesis by simp
  next
    case False
    then have blank: "\<not> trimSpace (hrFingerprint h) \<noteq> []" using "2.prems"(1) by (auto simp: known_def dest: spec [of _ 0])
    let ?i = "if length pre < index then index - 1 else index"
    have "aliasLoop ?i address (last (h # hs) # rest) pre hs = (hs', rest', index', ok)" using "2.prems"(2) False blank by simp
    moreover have "\<forall>j < length hs. length pre + j \<noteq> ?i \<longrightarrow> hrAddress (hs ! j) = address \<longrightarrow> \<not> known (hs ! j)"
      using later False by auto
    ultimately show ?thesis using "2.IH"(2) [OF False blank] by blast
  qed
qed auto

lemma index_nth: "hostIndexByFingerprint fp hs = Some i \<Longrightarrow> i < length hs \<and> find (\<lambda>h. hrFingerprint h = fp) hs = Some (hs ! i)"
  by (induction hs arbitrary: i) (auto split: if_splits)

lemma find_update:
  assumes "distinct (hostPrints hs)" "i < length hs" "known (hs ! i)" "hrFingerprint x = hrFingerprint (hs ! i)"
  shows "distinct (hostPrints (hs[i := x])) \<and> find (\<lambda>h. hrFingerprint h = hrFingerprint x) (hs[i := x]) = Some x
    \<and> (\<forall>g. g \<noteq> hrFingerprint x \<longrightarrow> find (\<lambda>h. hrFingerprint h = g) (hs[i := x]) = find (\<lambda>h. hrFingerprint h = g) hs)"
proof -
  have s: "hs = take i hs @ hs ! i # drop (Suc i) hs" "hs[i := x] = take i hs @ x # drop (Suc i) hs"
    using assms(2) by (simp_all add: id_take_nth_drop upd_conv_take_nth_drop)
  have kx: "known x" using assms(3,4) by (simp add: known_def)
  have d: "distinct (hostPrints (take i hs @ x # drop (Suc i) hs))"
    by (rule replaced_prints [of _ "hs ! i"]) (use assms s(1) kx in auto)
  then show ?thesis using find_distinct [OF d kx] find_replaced [of "hs ! i" _ x "take i hs" "drop (Suc i) hs"] s assms(4) by metis
qed

lemma host_moves:
  assumes "UpdateHostAddress fingerprint address s = (s', moved)" and "hostsOk s"
  shows "hostsOk s' \<and> (\<forall>g. trimSpace g \<noteq> trimSpace fingerprint \<or> \<not> moved \<longrightarrow> FindHostByFingerprint g s' = FindHostByFingerprint g s)
    \<and> (moved \<longrightarrow> (\<exists>r. FindHostByFingerprint fingerprint s = Some r
         \<and> FindHostByFingerprint fingerprint s' = Some (r\<lparr>hrAddress := trimSpace address\<rparr>)
         \<and> FindHostByAddress address s' = Some (r\<lparr>hrAddress := trimSpace address\<rparr>)))"
proof -
  let ?fp = "trimSpace fingerprint" and ?ad = "trimSpace address"
  show ?thesis
  proof (cases "?fp = [] \<or> ?ad = [] \<or> hostIndexByFingerprint ?fp (clHosts s) = None
      \<or> hrAddress (clHosts s ! the (hostIndexByFingerprint ?fp (clHosts s))) = ?ad")
    case True
    then have "s' = s" "\<not> moved" using assms(1) by (auto simp: UpdateHostAddress_def Let_def split: option.splits if_splits)
    then show ?thesis using assms(2) by simp
  next
    case False
    then obtain i where i: "hostIndexByFingerprint ?fp (clHosts s) = Some i" "hrAddress (clHosts s ! i) \<noteq> ?ad" and ne: "?fp \<noteq> []" "?ad \<noteq> []" by auto
    obtain hs rest i' ok where al: "aliasLoop i ?ad [] [] (clHosts s) = (hs, rest, i', ok)" by (metis prod.collapse)
    note at = index_nth [OF i(1)]
    have k: "i' < length hs" "hs ! i' = clHosts s ! i" "filter known hs = filter known (clHosts s)"
        "ok \<longrightarrow> (\<forall>j < length hs. j \<noteq> i' \<longrightarrow> hrAddress (hs ! j) \<noteq> ?ad)"
      using aliasLoop_keeps [OF al] at by simp_all
    have d: "distinct (hostPrints hs)" using assms(2) k(3) by (simp add: hostsOk_def hostPrints_known)
    have same: "FindHostByFingerprint g (s\<lparr>clHosts := hs\<rparr>) = FindHostByFingerprint g s" for g
      by (rule FindHostByFingerprint_known) (simp add: k(3))
    have hf: "hrFingerprint (clHosts s ! i) = ?fp" using at by (auto simp: find_Some_iff)
    show ?thesis
    proof (cases ok)
      case False
      then have "s' = s\<lparr>clHosts := hs\<rparr>" "\<not> moved"
        using assms(1) i ne al by (simp_all add: UpdateHostAddress_def removeUnpairedAddressAliases_def Let_def)
      then show ?thesis using d same by (simp add: hostsOk_def)
    next
      case True
      let ?x = "(clHosts s ! i)\<lparr>hrAddress := ?ad\<rparr>"
      have s': "s' = s\<lparr>clHosts := hs[i' := ?x]\<rparr>" "moved"
        using assms(1) i ne al True k(2) by (simp_all add: UpdateHostAddress_def removeUnpairedAddressAliases_def Let_def)
      have kn: "known (hs ! i')" using k(2) hf ne by (simp add: known_def)
      note u = find_update [OF d k(1) kn, of ?x, unfolded k(2), simplified]
      have adr: "find (\<lambda>h. hrAddress h = ?ad) (hs[i' := ?x]) = Some ?x"
        unfolding find_Some_iff using k(1,4) True by (intro exI [of _ i']) auto
      have "FindHostByFingerprint fingerprint s = Some (clHosts s ! i)" using at ne by (simp add: FindHostByFingerprint_def)
      moreover have "FindHostByFingerprint fingerprint s' = Some ?x" using u s' hf ne by (simp add: FindHostByFingerprint_def)
      moreover have "FindHostByAddress address s' = Some ?x" using adr s' by (simp add: FindHostByAddress_def)
      moreover have "FindHostByFingerprint g s' = FindHostByFingerprint g s" if "trimSpace g \<noteq> ?fp" for g
        using u s' hf that same [of g] by (simp add: FindHostByFingerprint_def split: if_splits)
      ultimately show ?thesis using u s' by (auto simp: hostsOk_def)
    qed
  qed
qed

section \<open>Properties\<close>

text \<open>
  A host that is remembered is found by its fingerprint with the record given, other hosts are found as
  before, no two hosts have the same fingerprint, and the host is spoken to with its own credentials.
\<close>

theorem paired_host_remembered:
  assumes "hostsOk s" and "trimSpace (hrFingerprint r) \<noteq> []"
  shows "hostsOk (UpsertHost r s)
    \<and> FindHostByFingerprint (hrFingerprint r) (UpsertHost r s)
        = Some (r\<lparr>hrAddress := trimSpace (hrAddress r), hrFingerprint := trimSpace (hrFingerprint r)\<rparr>)
    \<and> (\<forall>g. trimSpace g \<noteq> trimSpace (hrFingerprint r) \<longrightarrow> FindHostByFingerprint g (UpsertHost r s) = FindHostByFingerprint g s)
    \<and> (\<forall>c address. recordCredentials r = Some c \<longrightarrow> HostCredentials address (hrFingerprint r) (UpsertHost r s) = c)"
  by (rule paired_host_saved [OF assms])

text \<open>
  When a known host turns up at another address, its record moves there and is the one found at
  that address; whatever happens, every other host is found by its fingerprint as before.
\<close>

theorem host_address_moves:
  assumes "UpdateHostAddress fingerprint address s = (s', moved)" and "hostsOk s"
  shows "hostsOk s' \<and> (\<forall>g. trimSpace g \<noteq> trimSpace fingerprint \<or> \<not> moved \<longrightarrow> FindHostByFingerprint g s' = FindHostByFingerprint g s)
    \<and> (moved \<longrightarrow> (\<exists>r. FindHostByFingerprint fingerprint s = Some r
         \<and> FindHostByFingerprint fingerprint s' = Some (r\<lparr>hrAddress := trimSpace address\<rparr>)
         \<and> FindHostByAddress address s' = Some (r\<lparr>hrAddress := trimSpace address\<rparr>)))"
  by (rule host_moves [OF assms])

section \<open>Witnesses\<close>

definition hostAt :: "string \<Rightarrow> string \<Rightarrow> hostRecord" where
  "hostAt address fp = \<lparr>hrAddress = address, hrName = ''h'', hrOS = ''linux'', hrFingerprint = fp, hrPaired = True, hrLastPairedCert = [],
     hrCertPEM = ''cert'' @ fp, hrKeyPEM = ''key'' @ fp\<rparr>"

definition twoHosts :: clientMemory where
  "twoHosts = emptyMemory\<lparr>clHosts := [hostAt ''a:1'' ''f1'', hostAt ''b:1'' [], hostAt ''c:1'' ''f3'']\<rparr>"

lemma twoHosts_ok: "hostsOk twoHosts"
  by code_simp

lemma paired_host_remembered_witness: "HostCredentials ''x'' ''f2'' (UpsertHost (hostAt ''b:1'' ''f2'') twoHosts) = (''certf2'', ''keyf2'')"
proof -
  have n: "trimSpace (hrFingerprint (hostAt ''b:1'' ''f2'')) \<noteq> []" by code_simp
  have c: "recordCredentials (hostAt ''b:1'' ''f2'') = Some (''certf2'', ''keyf2'')" "hrFingerprint (hostAt ''b:1'' ''f2'') = ''f2''" by code_simp+
  show ?thesis using paired_host_remembered [OF twoHosts_ok n] c by simp
qed

lemma host_address_moves_witness:
  "map_option hrFingerprint (FindHostByAddress ''b:1'' (fst (UpdateHostAddress ''f3'' ''b:1'' twoHosts))) = Some ''f3''"
proof -
  have "snd (UpdateHostAddress ''f3'' ''b:1'' twoHosts)" by code_simp
  then obtain s' where u: "UpdateHostAddress ''f3'' ''b:1'' twoHosts = (s', True)" by (metis prod.collapse eq_True)
  have f: "map_option hrFingerprint (FindHostByFingerprint ''f3'' twoHosts) = Some ''f3''" by code_simp
  show ?thesis using host_address_moves [OF u twoHosts_ok] f u by auto
qed

text \<open>
  An update that is refused may still have dropped a record: the alias without a fingerprint goes
  before the paired host at the same address is seen.
\<close>

lemma refused_update_drops_alias:
  "let s = emptyMemory\<lparr>clHosts := [hostAt ''n'' ''f1'', hostAt ''a'' [], hostAt ''a'' ''f2'']\<rparr>
   in UpdateHostAddress ''f1'' ''a'' s = (s\<lparr>clHosts := [hostAt ''n'' ''f1'', hostAt ''a'' ''f2'']\<rparr>, False)"
  by code_simp
end
