(* ===== verification/Discovery.thy ===== *)
theory Discovery
  imports Prelude GoRunes "HOL-Library.Char_ord" "HOL-Library.List_Lexorder" "HOL-Library.Word" "HOL-Library.AList" "HOL-Library.Multiset"
begin

text \<open>
  Finding hosts on the local network (discovery/discovery.go): the packets a host answers, the
  dial-back it does for clients it cannot be reached by, and what a client makes of the responses.
  A datagram is what unmarshalling it gives, with the address of its sender.
\<close>

definition DefaultDiscoveryPort :: int where "DefaultDiscoveryPort = 33222"
definition reverseRequestDedupe :: duration where "reverseRequestDedupe = second"
definition reverseRequestAttempts :: nat where "reverseRequestAttempts = 3"
definition maxReverseConnections :: nat where "maxReverseConnections = 8"
definition maxReverseRequestKeys :: nat where "maxReverseRequestKeys = 1024"

record hostFound =
  hfInstance :: string
  hfOS :: string
  hfAddress :: string
  hfService :: string
  hfPort :: int
  hfFingerprint :: string
  hfPairing :: bool

record discoveryPacket =
  dpType :: string
  dpService :: string
  dpName :: string
  dpOS :: string
  dpPort :: int
  dpCallback :: int
  dpRequestID :: string
  dpFingerprint :: string
  dpPairing :: bool

definition noPacket :: discoveryPacket where
  "noPacket = \<lparr>dpType = [], dpService = [], dpName = [], dpOS = [], dpPort = 0, dpCallback = 0, dpRequestID = [], dpFingerprint = [],
     dpPairing = False\<rparr>"

record advertiseOptions =
  adOS :: string
  adFingerprint :: string
  adPairing :: bool
  adReverse :: bool

section \<open>Addresses\<close>

definition showInt :: "int \<Rightarrow> string" where
  "showInt n = (if n < 0 then CHR ''-'' # showNat (nat (- n)) else showNat (nat n))"

definition JoinHostPort :: "string \<Rightarrow> string \<Rightarrow> string" where
  "JoinHostPort host port =
     (if CHR '':'' \<in> set host then CHR ''['' # host @ CHR '']'' # CHR '':'' # port else host @ CHR '':'' # port)"

definition SplitHostPort :: "string \<Rightarrow> (string \<times> string) option" where
  "SplitHostPort s =
     (let i = lastIndex CHR '':'' s in
      if i < 0 then None
      else if hd s = CHR ''['' then
        (case cut CHR '']'' s of (before, after, found) \<Rightarrow>
           if \<not> found \<or> int (length before) + 1 \<noteq> i then None
           else if CHR ''['' \<in> set (tl s) \<or> CHR '']'' \<in> set after then None
           else Some (tl before, drop (nat i + 1) s))
      else
        (let host = take (nat i) s in
         if CHR '':'' \<in> set host \<or> CHR ''['' \<in> set s \<or> CHR '']'' \<in> set s then None
         else Some (host, drop (nat i + 1) s)))"

text \<open>The code looks for an IPv6 address in between, but joins in the same way.\<close>

definition NormalizeAddress :: "string \<Rightarrow> int \<Rightarrow> string" where
  "NormalizeAddress hostport defaultPort =
     (if hostport = [] then []
      else if SplitHostPort hostport \<noteq> None then hostport
      else JoinHostPort hostport (showInt defaultPort))"

unbundle bit_operations_syntax

text \<open>The broadcast address of a network: \<open>None\<close> without an IPv4 address and mask.\<close>

definition broadcastAddr :: "8 word list \<Rightarrow> 8 word list \<Rightarrow> 8 word list option" where
  "broadcastAddr ip netmask =
     (if length ip \<noteq> 4 \<or> length netmask \<noteq> 4 then None else Some (map2 (\<lambda>a m. a OR NOT m) ip netmask))"

section \<open>The host\<close>

definition responsePacket :: "string \<Rightarrow> string \<Rightarrow> int \<Rightarrow> advertiseOptions \<Rightarrow> discoveryPacket" where
  "responsePacket service name port opts =
     noPacket\<lparr>dpType := ''response'', dpService := service, dpName := name, dpOS := adOS opts, dpPort := port,
       dpFingerprint := adFingerprint opts, dpPairing := adPairing opts\<rparr>"

text \<open>The requests of the last second, and the dial-backs under way.\<close>

record responder =
  rsRequests :: "(string \<times> go_time) list"
  rsBusy :: nat

definition newResponder :: responder where "newResponder = \<lparr>rsRequests = [], rsBusy = 0\<rparr>"

definition joinReverseRequestKey :: "string list \<Rightarrow> string" where
  "joinReverseRequestKey parts = joinOn CHR 0x00 parts"

definition reverseRequestKey :: "discoveryPacket \<Rightarrow> string" where
  "reverseRequestKey pkt =
     (if trimSpace (dpRequestID pkt) \<noteq> []
      then joinReverseRequestKey [trimSpace (dpFingerprint pkt), ''id'', trimSpace (dpRequestID pkt)] else [])"

definition claimReverseRequest :: "go_time \<Rightarrow> discoveryPacket \<Rightarrow> responder \<Rightarrow> responder \<times> bool" where
  "claimReverseRequest now pkt s =
     (let key = reverseRequestKey pkt in
      if key = [] then (s, False)
      else let s1 = s\<lparr>rsRequests := filter (\<lambda>(k, t). \<not> reverseRequestDedupe < timeSub now t) (rsRequests s)\<rparr> in
        if (case map_of (rsRequests s1) key of Some t \<Rightarrow> timeSub now t \<le> reverseRequestDedupe | None \<Rightarrow> False) then (s1, False)
        else if maxReverseRequestKeys \<le> length (rsRequests s1) then (s1, False)
        else (s1\<lparr>rsRequests := AList.update key now (rsRequests s1)\<rparr>, True))"

text \<open>\<open>ip\<close>: the sender's address, if it is known. The value: the address dialled back, if any.\<close>

definition handleReverseConnect ::
  "go_time \<Rightarrow> discoveryPacket \<Rightarrow> string option \<Rightarrow> advertiseOptions \<Rightarrow> responder \<Rightarrow> responder \<times> string option" where
  "handleReverseConnect now pkt ip opts s =
     (if \<not> adReverse opts \<or> dpCallback pkt = 0 then (s, None)
      else if trimSpace (dpFingerprint pkt) \<noteq> [] \<and> trimSpace (dpFingerprint pkt) \<noteq> trimSpace (adFingerprint opts) then (s, None)
      else (case ip of
        None \<Rightarrow> (s, None)
      | Some host \<Rightarrow>
          (case claimReverseRequest now pkt s of
             (s1, False) \<Rightarrow> (s1, None)
           | (s1, True) \<Rightarrow>
               if rsBusy s1 < maxReverseConnections
               then (s1\<lparr>rsBusy := rsBusy s1 + 1\<rparr>, Some (JoinHostPort host (showInt (dpCallback pkt)))) else (s1, None))))"

datatype serveAction = Ignored | DialBack string | Answer discoveryPacket

definition serveDatagram ::
  "string \<Rightarrow> string \<Rightarrow> int \<Rightarrow> advertiseOptions \<Rightarrow> go_time \<Rightarrow> discoveryPacket option \<Rightarrow> string option \<Rightarrow> responder \<Rightarrow> responder \<times> serveAction" where
  "serveDatagram service name port opts now datagram ip s =
     (case datagram of
        None \<Rightarrow> (s, Ignored)
      | Some pkt \<Rightarrow>
          if dpService pkt \<noteq> service then (s, Ignored)
          else if dpType pkt = ''reverse_connect'' then
            (case handleReverseConnect now pkt ip opts s of
               (s', None) \<Rightarrow> (s', Ignored) | (s', Some a) \<Rightarrow> (s', DialBack a))
          else if dpType pkt \<noteq> ''query'' then (s, Ignored)
          else (s, Answer (responsePacket service name port opts)))"

text \<open>A step of the responder: a datagram, or the end of a dial-back.\<close>

datatype responderEvent = Datagram go_time "discoveryPacket option" "string option" | DialEnds

definition responderStep ::
  "string \<Rightarrow> string \<Rightarrow> int \<Rightarrow> advertiseOptions \<Rightarrow> responderEvent \<Rightarrow> responder \<Rightarrow> responder \<times> serveAction" where
  "responderStep service name port opts ev s =
     (case ev of
        Datagram now d ip \<Rightarrow> serveDatagram service name port opts now d ip s
      | DialEnds \<Rightarrow> (s\<lparr>rsBusy := rsBusy s - 1\<rparr>, Ignored))"

section \<open>The client\<close>

text \<open>Results are kept by address; a later response replaces an earlier one.\<close>

definition recordResponse :: "string \<Rightarrow> discoveryPacket option \<Rightarrow> string \<Rightarrow> (string \<times> hostFound) list \<Rightarrow> (string \<times> hostFound) list" where
  "recordResponse service datagram ip results =
     (case datagram of
        None \<Rightarrow> results
      | Some pkt \<Rightarrow>
          if dpType pkt \<noteq> ''response'' \<or> dpService pkt \<noteq> service \<or> dpPort pkt = 0 then results
          else let address = JoinHostPort ip (showInt (dpPort pkt)) in
            AList.update address
              \<lparr>hfInstance = dpName pkt, hfOS = dpOS pkt, hfAddress = address, hfService = dpService pkt, hfPort = dpPort pkt,
               hfFingerprint = dpFingerprint pkt, hfPairing = dpPairing pkt\<rparr> results)"

datatype discoveryError = ListenFailed | ReadFailed | DiscoveryCancelled | NoHostDiscovered | SeveralHosts "string list"

text \<open>What the socket gives: a datagram, the end of the time, or an error with the state of the context.\<close>

datatype discoveryRead = Received "discoveryPacket option" string | TimedOut | ReadError bool | DeadlineFailed

definition handleReadError :: "discoveryRead \<Rightarrow> discoveryError option option" where
  "handleReadError r =
     (case r of TimedOut \<Rightarrow> Some None | ReadError cancelled \<Rightarrow> Some (Some (if cancelled then DiscoveryCancelled else ReadFailed)) | _ \<Rightarrow> None)"

fun collectResponses :: "string \<Rightarrow> discoveryRead list \<Rightarrow> (string \<times> hostFound) list \<Rightarrow> (discoveryError + (string \<times> hostFound) list) option" where
  "collectResponses service [] results = None"
| "collectResponses service (r # rs) results =
     (case r of
        Received d ip \<Rightarrow> collectResponses service rs (recordResponse service d ip results)
      | DeadlineFailed \<Rightarrow> Some (Inl ReadFailed)
      | _ \<Rightarrow> (case handleReadError r of
            Some None \<Rightarrow> Some (Inr results) | Some (Some e) \<Rightarrow> Some (Inl e) | None \<Rightarrow> Some (Inr results)))"

definition orderedResults :: "(string \<times> hostFound) list \<Rightarrow> hostFound list" where
  "orderedResults results = sort_key hfAddress (map snd results)"

definition selectSingleResult :: "(string \<times> hostFound) list \<Rightarrow> discoveryError + hostFound" where
  "selectSingleResult results =
     (let ordered = orderedResults results in
      if 1 < length ordered then Inl (SeveralHosts (map hfAddress ordered)) else Inr (hd ordered))"

definition discoverResults :: "string \<Rightarrow> bool \<Rightarrow> discoveryRead list \<Rightarrow> (discoveryError + (string \<times> hostFound) list) option" where
  "discoverResults service listened rs = (if \<not> listened then Some (Inl ListenFailed) else collectResponses service rs [])"

definition DiscoverOne :: "string \<Rightarrow> bool \<Rightarrow> discoveryRead list \<Rightarrow> (discoveryError + hostFound) option" where
  "DiscoverOne service listened rs =
     map_option (\<lambda>r. andThen r (\<lambda>results. if results = [] then Inl NoHostDiscovered else selectSingleResult results))
       (discoverResults service listened rs)"

definition DiscoverAll :: "string \<Rightarrow> bool \<Rightarrow> discoveryRead list \<Rightarrow> (discoveryError + hostFound list) option" where
  "DiscoverAll service listened rs = map_option (\<lambda>r. andThen r (\<lambda>results. Inr (orderedResults results))) (discoverResults service listened rs)"

section \<open>Facts\<close>

lemma showNat_digits: "set (showNat n) \<subseteq> set ''0123456789''"
proof (induction n rule: showNat.induct)
  case (1 n)
  have d: "''0123456789'' ! k \<in> set ''0123456789''" if "k < 10" for k
    using nth_mem [of k "''0123456789''"] that by simp
  show ?case
  proof (cases "n < 10")
    case True
    then show ?thesis using d by (subst showNat.simps) simp
  next
    case False
    then show ?thesis using 1 d [of "n mod 10"] by (subst showNat.simps) (simp del: showNat.simps)
  qed
qed

lemma showInt_plain: "CHR '':'' \<notin> set (showInt n) \<and> CHR ''['' \<notin> set (showInt n) \<and> CHR '']'' \<notin> set (showInt n)"
  using showNat_digits [of "nat (- n)"] showNat_digits [of "nat n"] by (auto simp: showInt_def simp del: showNat.simps)

lemma lastIndex_colon: "CHR '':'' \<notin> set p \<Longrightarrow> lastIndex CHR '':'' (h @ CHR '':'' # p) = int (length h)"
  using lastIndex_append [of "CHR '':''" h "CHR '':'' # p"] lastIndex_neg [of "CHR '':''" p] by (simp add: Let_def)

text \<open>An address that is joined splits into what it was joined from.\<close>

lemma split_join:
  assumes "CHR ''['' \<notin> set h" "CHR '']'' \<notin> set h" "CHR '':'' \<notin> set p" "CHR ''['' \<notin> set p" "CHR '']'' \<notin> set p"
  shows "SplitHostPort (JoinHostPort h p) = Some (h, p)"
proof (cases "CHR '':'' \<in> set h")
  case True
  have "lastIndex CHR '':'' (CHR ''['' # h @ CHR '']'' # CHR '':'' # p) = int (length (CHR ''['' # h @ [CHR '']'']))"
    using lastIndex_colon [OF assms(3), of "CHR ''['' # h @ [CHR '']'']"] by simp
  moreover have "cut CHR '']'' (CHR ''['' # h @ CHR '']'' # CHR '':'' # p) = (CHR ''['' # h, CHR '':'' # p, True)"
    using cut_append [of "CHR '']''" "CHR ''['' # h" "CHR '':'' # p"] assms(2) by simp
  ultimately show ?thesis using True assms by (simp add: SplitHostPort_def JoinHostPort_def nat_add_distrib)
next
  case False
  have "h = [] \<or> hd (h @ CHR '':'' # p) \<noteq> CHR ''[''" using assms(1) by (cases h) auto
  then show ?thesis using False assms lastIndex_colon [OF assms(3), of h]
    by (auto simp: SplitHostPort_def JoinHostPort_def nat_add_distrib)
qed

lemma normalized_has_port:
  assumes "CHR ''['' \<notin> set a" "CHR '']'' \<notin> set a" "a \<noteq> []"
  shows "SplitHostPort (NormalizeAddress a port) \<noteq> None"
  using split_join [OF assms(1,2)] showInt_plain [of port] assms(3) by (auto simp: NormalizeAddress_def)

text \<open>The requests a responder has accepted, with their keys and times.\<close>

lemma timeSub_mono: "a \<le> b \<Longrightarrow> timeSub a t \<le> timeSub b t"
  by (auto simp: timeSub_def)

definition responderOk :: "responder \<Rightarrow> bool" where
  "responderOk s \<longleftrightarrow> distinct (map fst (rsRequests s)) \<and> length (rsRequests s) \<le> maxReverseRequestKeys \<and> rsBusy s \<le> maxReverseConnections"

lemma map_of_filter_distinct:
  "distinct (map fst xs) \<Longrightarrow> map_of (filter (\<lambda>(k, v). P v) xs) k = (case map_of xs k of Some v \<Rightarrow> if P v then Some v else None | None \<Rightarrow> None)"
proof (induction xs)
  case (Cons x xs)
  obtain a b where x: "x = (a, b)" by fastforce
  have "k = a \<Longrightarrow> map_of xs k = None" using Cons.prems by (simp add: x map_of_eq_None_iff)
  then show ?case using Cons by (auto simp: x split: option.splits)
qed simp

lemma claim_facts:
  assumes "claimReverseRequest now pkt s = (s', ok)" "responderOk s"
  shows "responderOk s' \<and> rsBusy s' = rsBusy s
    \<and> (ok \<longrightarrow> map_of (rsRequests s') (reverseRequestKey pkt) = Some now
        \<and> (\<forall>t. map_of (rsRequests s) (reverseRequestKey pkt) = Some t \<longrightarrow> reverseRequestDedupe < timeSub now t))
    \<and> (\<forall>k t. map_of (rsRequests s) k = Some t \<longrightarrow> (ok \<longrightarrow> k \<noteq> reverseRequestKey pkt) \<longrightarrow>
         map_of (rsRequests s') k = Some t \<or> reverseRequestDedupe < timeSub now t)"
proof -
  let ?key = "reverseRequestKey pkt"
  let ?live = "filter (\<lambda>(k, t). \<not> reverseRequestDedupe < timeSub now t) (rsRequests s)"
  have d: "distinct (map fst (rsRequests s))" "length (rsRequests s) \<le> maxReverseRequestKeys" using assms(2) by (simp_all add: responderOk_def)
  have live: "map_of ?live k = (case map_of (rsRequests s) k of Some t \<Rightarrow> if \<not> reverseRequestDedupe < timeSub now t then Some t else None | None \<Rightarrow> None)" for k
    by (rule map_of_filter_distinct [OF d(1)])
  have dl: "distinct (map fst ?live)" using d(1) by (simp add: distinct_map_filter)
  have ll: "length ?live \<le> maxReverseRequestKeys" using d(2) length_filter_le le_trans by blast
  show ?thesis
  proof (cases "?key = []")
    case True
    then show ?thesis using assms by (simp add: claimReverseRequest_def)
  next
    case key: False
    show ?thesis
    proof (cases "map_of ?live ?key")
      case (Some t)
      then have "timeSub now t \<le> reverseRequestDedupe" using live [of ?key] by (auto split: option.splits if_splits)
      then have "s' = s\<lparr>rsRequests := ?live\<rparr>" "\<not> ok" using assms(1) key Some by (simp_all add: claimReverseRequest_def Let_def)
      then show ?thesis using assms(2) dl ll live by (auto simp: responderOk_def)
    next
      case None
      show ?thesis
      proof (cases "maxReverseRequestKeys \<le> length ?live")
        case True
        then have "s' = s\<lparr>rsRequests := ?live\<rparr>" "\<not> ok" using assms(1) key None by (simp_all add: claimReverseRequest_def Let_def)
        then show ?thesis using assms(2) dl ll live by (auto simp: responderOk_def)
      next
        case False
        then have s': "s' = s\<lparr>rsRequests := AList.update ?key now ?live\<rparr>" "ok" using assms(1) key None by (simp_all add: claimReverseRequest_def Let_def)
        have nk: "?key \<notin> fst ` set ?live" using None map_of_eq_None_iff [of ?live ?key] by blast
        have "length (AList.update ?key now ?live) = Suc (length ?live)"
        proof -
          have "?key \<notin> fst ` set xs \<Longrightarrow> length (AList.update ?key now xs) = Suc (length xs)" for xs :: "(string \<times> go_time) list"
            by (induction xs) auto
          then show ?thesis using nk .
        qed
        moreover have "distinct (map fst (AList.update ?key now ?live))" by (rule distinct_update [OF dl])
        moreover have "map_of (AList.update ?key now ?live) = (map_of ?live)(?key \<mapsto> now)" by (rule update_conv')
        moreover have "\<forall>t. map_of (rsRequests s) ?key = Some t \<longrightarrow> reverseRequestDedupe < timeSub now t"
          using None live [of ?key] by (auto split: if_splits)
        ultimately show ?thesis using assms(2) s' False live by (auto simp: responderOk_def)
      qed
    qed
  qed
qed

definition eventTimes :: "responderEvent list \<Rightarrow> go_time list" where
  "eventTimes evs = concat (map (\<lambda>e. case e of Datagram t d ip \<Rightarrow> [t] | DialEnds \<Rightarrow> []) evs)"

lemma responderStep_facts:
  assumes "responderStep service name port opts ev s = (s', act)" "responderOk s"
  shows "responderOk s'
    \<and> (\<forall>a. act = DialBack a \<longrightarrow> (\<exists>now pkt ip. ev = Datagram now (Some pkt) (Some ip) \<and> map_of (rsRequests s') (reverseRequestKey pkt) = Some now
        \<and> (\<forall>t. map_of (rsRequests s) (reverseRequestKey pkt) = Some t \<longrightarrow> reverseRequestDedupe < timeSub now t)))
    \<and> (\<forall>k t. map_of (rsRequests s) k = Some t \<longrightarrow>
         map_of (rsRequests s') k = Some t \<or> (\<exists>now d ip. ev = Datagram now d ip \<and> reverseRequestDedupe < timeSub now t))"
proof (cases "\<exists>now pkt ip. ev = Datagram now (Some pkt) (Some ip) \<and> dpService pkt = service \<and> dpType pkt = ''reverse_connect''
    \<and> adReverse opts \<and> dpCallback pkt \<noteq> 0 \<and> \<not> (trimSpace (dpFingerprint pkt) \<noteq> [] \<and> trimSpace (dpFingerprint pkt) \<noteq> trimSpace (adFingerprint opts))")
  case False
  then have "rsRequests s' = rsRequests s \<and> rsBusy s' \<le> rsBusy s \<and> (\<forall>a. act \<noteq> DialBack a)" using assms(1)
    by (auto simp: responderStep_def serveDatagram_def handleReverseConnect_def
        split: responderEvent.splits option.splits if_splits prod.splits bool.splits)
  then show ?thesis using assms(2) by (auto simp: responderOk_def)
next
  case True
  then obtain now pkt ip where ev: "ev = Datagram now (Some pkt) (Some ip)" "dpService pkt = service" "dpType pkt = ''reverse_connect''"
    "adReverse opts" "dpCallback pkt \<noteq> 0" "\<not> (trimSpace (dpFingerprint pkt) \<noteq> [] \<and> trimSpace (dpFingerprint pkt) \<noteq> trimSpace (adFingerprint opts))" by blast
  obtain s1 ok where c: "claimReverseRequest now pkt s = (s1, ok)" by fastforce
  note k = claim_facts [OF c assms(2)]
  have h: "handleReverseConnect now pkt (Some ip) opts s = (if \<not> ok then (s1, None) else if rsBusy s1 < maxReverseConnections
      then (s1\<lparr>rsBusy := rsBusy s1 + 1\<rparr>, Some (JoinHostPort ip (showInt (dpCallback pkt)))) else (s1, None))"
    using ev(4-6) c by (cases ok) (auto simp: handleReverseConnect_def)
  have r: "rsRequests s' = rsRequests s1 \<and> responderOk s' \<and> (\<forall>a. act = DialBack a \<longrightarrow> ok)"
    using assms(1) ev(1-3) h k by (auto simp: responderStep_def serveDatagram_def responderOk_def split: if_splits)
  show ?thesis
  proof (intro conjI allI impI)
    show "responderOk s'" using r by simp
  next
    fix a assume "act = DialBack a"
    then show "\<exists>now pkt ip. ev = Datagram now (Some pkt) (Some ip) \<and> map_of (rsRequests s') (reverseRequestKey pkt) = Some now
        \<and> (\<forall>t. map_of (rsRequests s) (reverseRequestKey pkt) = Some t \<longrightarrow> reverseRequestDedupe < timeSub now t)"
      using r k ev(1) by auto
  next
    fix q t assume q: "map_of (rsRequests s) q = Some t"
    show "map_of (rsRequests s') q = Some t \<or> (\<exists>now d ip. ev = Datagram now d ip \<and> reverseRequestDedupe < timeSub now t)"
    proof (cases "ok \<and> q = reverseRequestKey pkt")
      case True
      then show ?thesis using k q ev(1) by auto
    next
      case False
      then show ?thesis using k q r ev(1) by auto
    qed
  qed
qed

fun serveAll ::
  "string \<Rightarrow> string \<Rightarrow> int \<Rightarrow> advertiseOptions \<Rightarrow> responderEvent list \<Rightarrow> responder \<Rightarrow> responder \<times> serveAction list" where
  "serveAll service name port opts [] s = (s, [])"
| "serveAll service name port opts (ev # evs) s =
     (case responderStep service name port opts ev s of
        (s1, act) \<Rightarrow> (case serveAll service name port opts evs s1 of (s2, acts) \<Rightarrow> (s2, act # acts)))"

lemma serveAll_ok: "serveAll service name port opts evs s = (s', acts) \<Longrightarrow> responderOk s \<Longrightarrow> responderOk s'"
proof (induction evs arbitrary: s s' acts)
  case (Cons ev evs)
  obtain s1 act where 1: "responderStep service name port opts ev s = (s1, act)" by fastforce
  obtain s2 acts' where 2: "serveAll service name port opts evs s1 = (s2, acts')" by fastforce
  have "responderOk s1" using responderStep_facts [OF 1 Cons.prems(2)] by blast
  then show ?case using Cons.IH [OF 2] Cons.prems(1) 1 2 by simp
qed simp

lemma serveAll_later:
  "serveAll service name port opts evs s = (s', acts) \<Longrightarrow> responderOk s \<Longrightarrow> sorted (eventTimes evs) \<Longrightarrow>
   map_of (rsRequests s) k = Some t0 \<or> (\<forall>t \<in> set (eventTimes evs). reverseRequestDedupe < timeSub t t0) \<Longrightarrow>
   j < length evs \<Longrightarrow> acts ! j = DialBack b \<Longrightarrow> evs ! j = Datagram t (Some pkt) ip \<Longrightarrow> reverseRequestKey pkt = k \<Longrightarrow>
   reverseRequestDedupe < timeSub t t0"
proof (induction evs arbitrary: s s' acts j)
  case (Cons ev evs)
  obtain s1 act where 1: "responderStep service name port opts ev s = (s1, act)" by fastforce
  obtain s2 acts' where 2: "serveAll service name port opts evs s1 = (s2, acts')" by fastforce
  have acts: "acts = act # acts'" using Cons.prems(1) 1 2 by simp
  note f = responderStep_facts [OF 1 Cons.prems(2)]
  show ?case
  proof (cases j)
    case 0
    then have ev: "ev = Datagram t (Some pkt) ip" "act = DialBack b" using Cons.prems(6,7) acts by simp_all
    then have "t \<in> set (eventTimes (ev # evs))" by (simp add: eventTimes_def)
    then show ?thesis using f ev Cons.prems(4,8) by auto
  next
    case (Suc i)
    have sorted: "sorted (eventTimes evs)" using Cons.prems(3) by (simp add: eventTimes_def sorted_append)
    have "map_of (rsRequests s1) k = Some t0 \<or> (\<forall>t \<in> set (eventTimes evs). reverseRequestDedupe < timeSub t t0)"
    proof (cases "map_of (rsRequests s) k = Some t0")
      case True
      then have "map_of (rsRequests s1) k = Some t0 \<or> (\<exists>now d ip. ev = Datagram now d ip \<and> reverseRequestDedupe < timeSub now t0)" using f by blast
      then show ?thesis
      proof
        assume "\<exists>now d ip. ev = Datagram now d ip \<and> reverseRequestDedupe < timeSub now t0"
        then obtain now d ip where e: "ev = Datagram now d ip" "reverseRequestDedupe < timeSub now t0" by blast
        have "now \<le> t" if "t \<in> set (eventTimes evs)" for t using Cons.prems(3) that e(1) unfolding eventTimes_def by (auto simp: sorted_append)
        then show ?thesis using e(2) timeSub_mono less_le_trans by blast
      qed simp
    next
      case False
      then show ?thesis using Cons.prems(4) by (auto simp: eventTimes_def)
    qed
    then show ?thesis using Cons.IH [OF 2 _ sorted, of i] f Cons.prems(5-8) Suc acts by simp
  qed
qed simp

lemma serveAll_apart:
  assumes "serveAll service name port opts evs s = (s', acts)" and "responderOk s" and "sorted (eventTimes evs)"
    and "i < j" and "j < length evs" and "evs ! i = Datagram t1 (Some p1) ip1" and "evs ! j = Datagram t2 (Some p2) ip2"
    and "acts ! i = DialBack a" and "acts ! j = DialBack b" and "reverseRequestKey p1 = reverseRequestKey p2"
  shows "reverseRequestDedupe < timeSub t2 t1"
  using assms
proof (induction evs arbitrary: s s' acts i j)
  case (Cons ev evs)
  obtain s1 act where 1: "responderStep service name port opts ev s = (s1, act)" by fastforce
  obtain s2 acts' where 2: "serveAll service name port opts evs s1 = (s2, acts')" by fastforce
  have acts: "acts = act # acts'" using Cons.prems(1) 1 2 by simp
  note f = responderStep_facts [OF 1 Cons.prems(2)]
  have sorted: "sorted (eventTimes evs)" using Cons.prems(3) by (simp add: eventTimes_def sorted_append)
  obtain k where j: "j = Suc k" using Cons.prems(4) by (cases j) auto
  show ?case
  proof (cases i)
    case 0
    then have e: "act = DialBack a" "ev = Datagram t1 (Some p1) ip1" using Cons.prems(6,8) acts by simp_all
    then have "\<exists>now pkt ip. ev = Datagram now (Some pkt) (Some ip) \<and> map_of (rsRequests s1) (reverseRequestKey pkt) = Some now" using f by blast
    then have "map_of (rsRequests s1) (reverseRequestKey p1) = Some t1" using e(2) by simp
    note at = serveAll_later [OF 2 conjunct1 [OF f] sorted disjI1 [OF this], where pkt = p2 and j = k and t = t2 and b = b and ip = ip2]
    have "k < length evs" "acts' ! k = DialBack b" "evs ! k = Datagram t2 (Some p2) ip2" using Cons.prems(5,7,9) j acts by simp_all
    from at [OF this Cons.prems(10) [symmetric]] show ?thesis .
  next
    case (Suc m)
    have m: "m < k" "k < length evs" "evs ! m = Datagram t1 (Some p1) ip1" "evs ! k = Datagram t2 (Some p2) ip2"
        "acts' ! m = DialBack a" "acts' ! k = DialBack b"
      using Cons.prems(4-9) j Suc acts by simp_all
    have "responderOk s1" using f by blast
    from Cons.IH [OF 2 this sorted m Cons.prems(10)] show ?thesis .
  qed
qed simp

text \<open>The dial-backs under way after these events: those started and not ended.\<close>

definition isDialBack :: "serveAction \<Rightarrow> bool" where
  "isDialBack act = (case act of DialBack a \<Rightarrow> True | _ \<Rightarrow> False)"

definition dialsUnderWay :: "responderEvent list \<Rightarrow> serveAction list \<Rightarrow> int" where
  "dialsUnderWay evs acts = int (length (filter isDialBack acts)) - int (length (filter (\<lambda>e. e = DialEnds) evs))"

lemma responderStep_busy:
  assumes "responderStep service name port opts ev s = (s', act)"
  shows "int (rsBusy s) + dialsUnderWay [ev] [act] \<le> int (rsBusy s')"
proof -
  have c: "rsBusy s1 = rsBusy s" if "claimReverseRequest now pkt s = (s1, ok)" for now pkt s1 ok
    using that by (auto simp: claimReverseRequest_def Let_def split: if_splits)
  show ?thesis using assms
    by (auto simp: responderStep_def serveDatagram_def handleReverseConnect_def dialsUnderWay_def isDialBack_def
        dest!: c split: responderEvent.splits option.splits if_splits prod.splits bool.splits)
qed

lemma dialsUnderWay_Cons: "dialsUnderWay (ev # evs) (act # acts) = dialsUnderWay [ev] [act] + dialsUnderWay evs acts"
  by (simp add: dialsUnderWay_def)

lemma serveAll_busy:
  "serveAll service name port opts evs s = (s', acts) \<Longrightarrow> int (rsBusy s) + dialsUnderWay evs acts \<le> int (rsBusy s')"
proof (induction evs arbitrary: s s' acts)
  case (Cons ev evs)
  obtain s1 act where 1: "responderStep service name port opts ev s = (s1, act)" by fastforce
  obtain s2 acts' where 2: "serveAll service name port opts evs s1 = (s2, acts')" by fastforce
  have r: "acts = act # acts'" "s' = s2" using Cons.prems 1 2 by simp_all
  show ?case using responderStep_busy [OF 1] Cons.IH [OF 2] dialsUnderWay_Cons [of ev evs act acts'] unfolding r by linarith
qed (simp add: dialsUnderWay_def)

lemma newResponder_ok: "responderOk newResponder"
  by (simp add: responderOk_def newResponder_def)

section \<open>Properties\<close>

text \<open>
  C38. However many requests to dial back reach a host, the same or different ones, and whenever its
  dial-backs end: at no moment are more than eight under way, it remembers at most 1024 requests,
  and two answers to the same request are more than a second apart when time does not run back.
\<close>

theorem reverse_requests_deduped:
  assumes "serveAll service name port opts evs newResponder = (s', acts)"
  shows "dialsUnderWay evs acts \<le> int maxReverseConnections \<and> length (rsRequests s') \<le> maxReverseRequestKeys
    \<and> (\<forall>i j a b t1 t2 p1 p2 ip1 ip2. sorted (eventTimes evs) \<and> i < j \<and> j < length evs
         \<and> evs ! i = Datagram t1 (Some p1) ip1 \<and> acts ! i = DialBack a
         \<and> evs ! j = Datagram t2 (Some p2) ip2 \<and> acts ! j = DialBack b
         \<and> reverseRequestKey p1 = reverseRequestKey p2 \<longrightarrow> reverseRequestDedupe < timeSub t2 t1)"
proof -
  have "responderOk s'" by (rule serveAll_ok [OF assms newResponder_ok])
  moreover have "dialsUnderWay evs acts \<le> int (rsBusy s')"
    using serveAll_busy [OF assms] by (simp add: newResponder_def)
  ultimately show ?thesis using serveAll_apart [OF assms newResponder_ok] by (auto simp: responderOk_def)
qed

text \<open>Where the results come from.\<close>

definition cameFrom :: "string \<Rightarrow> discoveryRead list \<Rightarrow> hostFound \<Rightarrow> bool" where
  "cameFrom service rs h \<longleftrightarrow> (\<exists>pkt ip. Received (Some pkt) ip \<in> set rs \<and> dpType pkt = ''response'' \<and> dpService pkt = service \<and> dpPort pkt \<noteq> 0
     \<and> hfAddress h = JoinHostPort ip (showInt (dpPort pkt)) \<and> hfFingerprint h = dpFingerprint pkt \<and> hfPairing h = dpPairing pkt)"

definition resultsOk :: "string \<Rightarrow> discoveryRead list \<Rightarrow> (string \<times> hostFound) list \<Rightarrow> bool" where
  "resultsOk service rs results \<longleftrightarrow> distinct (map fst results) \<and> (\<forall>(a, h) \<in> set results. a = hfAddress h \<and> cameFrom service rs h)"

lemma record_ok:
  assumes "resultsOk service rs results" "Received d ip \<in> set rs"
  shows "resultsOk service rs (recordResponse service d ip results)"
proof -
  have up: "set (AList.update k v xs) \<subseteq> insert (k, v) (set xs)" for k :: string and v :: hostFound and xs by (induction xs) auto
  show ?thesis
  proof (cases "\<exists>pkt. d = Some pkt \<and> dpType pkt = ''response'' \<and> dpService pkt = service \<and> dpPort pkt \<noteq> 0")
    case True
    then obtain pkt where p: "d = Some pkt" "dpType pkt = ''response''" "dpService pkt = service" "dpPort pkt \<noteq> 0" by blast
    let ?a = "JoinHostPort ip (showInt (dpPort pkt))"
    let ?h = "\<lparr>hfInstance = dpName pkt, hfOS = dpOS pkt, hfAddress = ?a, hfService = dpService pkt, hfPort = dpPort pkt,
       hfFingerprint = dpFingerprint pkt, hfPairing = dpPairing pkt\<rparr>"
    have r: "recordResponse service d ip results = AList.update ?a ?h results" using p by (simp add: recordResponse_def Let_def)
    have "cameFrom service rs ?h" unfolding cameFrom_def using p assms(2) by (intro exI [of _ pkt] exI [of _ ip]) simp
    then show ?thesis using assms(1) up [of ?a ?h results] unfolding r resultsOk_def by (auto simp: distinct_update)
  next
    case False
    then have "recordResponse service d ip results = results" by (auto simp: recordResponse_def split: option.splits)
    then show ?thesis using assms(1) by simp
  qed
qed

lemma collect_ok:
  "collectResponses service qs results = Some (Inr out) \<Longrightarrow> set qs \<subseteq> set rs \<Longrightarrow> resultsOk service rs results \<Longrightarrow> resultsOk service rs out"
  by (induction qs arbitrary: results) (auto simp: handleReadError_def record_ok split: discoveryRead.splits)

text \<open>
  What a client discovers are hosts of its service that have answered, each address once and
  in order, with the fingerprint the answer gave.
\<close>

theorem discovered_hosts_answered:
  assumes "DiscoverAll service listened rs = Some (Inr hs)"
  shows "sorted (map hfAddress hs) \<and> distinct (map hfAddress hs) \<and> (\<forall>h \<in> set hs. cameFrom service rs h)"
proof -
  obtain out where out: "collectResponses service rs [] = Some (Inr out)" "hs = orderedResults out"
    using assms by (auto simp: DiscoverAll_def discoverResults_def andThen_Inr_iff split: if_splits)
  have ok: "resultsOk service rs out" using collect_ok [OF out(1), of rs] by (simp add: resultsOk_def)
  have "map hfAddress (map snd out) = map fst out" using ok by (auto simp: resultsOk_def)
  then have "distinct (map hfAddress (map snd out))" using ok by (simp only: resultsOk_def)
  moreover have "mset (map hfAddress hs) = mset (map hfAddress (map snd out))" unfolding out(2) orderedResults_def by (simp add: multiset.map_comp)
  ultimately have "distinct (map hfAddress hs)" by (metis mset_eq_imp_distinct_iff)
  moreover have "\<forall>h \<in> set hs. cameFrom service rs h" using ok unfolding out(2) orderedResults_def resultsOk_def by auto
  ultimately show ?thesis unfolding out(2) orderedResults_def by simp
qed

section \<open>Witnesses\<close>

definition dialPacket :: discoveryPacket where
  "dialPacket = noPacket\<lparr>dpType := ''reverse_connect'', dpService := ''rmtx'', dpCallback := 7, dpRequestID := ''r1''\<rparr>"

definition demoAdvertise :: advertiseOptions where
  "demoAdvertise = \<lparr>adOS = ''linux'', adFingerprint = ''f'', adPairing = True, adReverse = True\<rparr>"

lemma reverse_requests_deduped_witness:
  "reverseRequestDedupe < timeSub (second * 3) 0"
proof -
  let ?evs = "[Datagram 0 (Some dialPacket) (Some ''1.2''), Datagram second (Some dialPacket) (Some ''1.2''),
     Datagram (second * 3) (Some dialPacket) (Some ''1.2'')]"
  have "snd (serveAll ''rmtx'' ''h'' 1 demoAdvertise ?evs newResponder) = [DialBack ''1.2:7'', Ignored, DialBack ''1.2:7'']" by code_simp
  then obtain s' where r: "serveAll ''rmtx'' ''h'' 1 demoAdvertise ?evs newResponder = (s', [DialBack ''1.2:7'', Ignored, DialBack ''1.2:7''])"
    by (metis prod.collapse)
  have "sorted (eventTimes ?evs)" by code_simp
  then show ?thesis
    using reverse_requests_deduped [OF r, THEN conjunct2, THEN conjunct2, rule_format,
        of 0 2 0 dialPacket "Some ''1.2''" "''1.2:7''" "second * 3" dialPacket "Some ''1.2''" "''1.2:7''"] by simp
qed

lemma discovered_hosts_answered_witness:
  "case DiscoverAll ''rmtx'' True [Received (Some (responsePacket ''rmtx'' ''b'' 2 demoAdvertise)) ''9'',
      Received (Some dialPacket) ''8'', Received (Some (responsePacket ''rmtx'' ''a'' 1 demoAdvertise)) ''1'', TimedOut] of
     Some (Inr hs) \<Rightarrow> map hfAddress hs = [''1:1'', ''9:2''] \<and> sorted (map hfAddress hs) | _ \<Rightarrow> False"
proof -
  let ?rs = "[Received (Some (responsePacket ''rmtx'' ''b'' 2 demoAdvertise)) ''9'',
      Received (Some dialPacket) ''8'', Received (Some (responsePacket ''rmtx'' ''a'' 1 demoAdvertise)) ''1'', TimedOut]"
  have "(case DiscoverAll ''rmtx'' True ?rs of Some (Inr hs) \<Rightarrow> map hfAddress hs = [''1:1'', ''9:2''] | _ \<Rightarrow> False)" by code_simp
  then obtain hs where h: "DiscoverAll ''rmtx'' True ?rs = Some (Inr hs)" "map hfAddress hs = [''1:1'', ''9:2'']"
    by (auto split: option.splits sum.splits)
  show ?thesis using discovered_hosts_answered [OF h(1)] h by simp
qed
end
