(* ===== verification/HostChoice.thy ===== *)
theory HostChoice
  imports ClientRun ClientState Discovery Config
begin

text \<open>
  The commands of a client up to the connection (app/app.go): which host is meant, whether it is
  paired and with which credentials it is spoken to, what is mounted and ignored, and pairing.
  Discovery, keys and the requests of pairing are arguments; stdin is the text it can still give.
\<close>

datatype appError =
    AppConfig configError | AppState ioError | AppDiscovery discoveryError | NoHostConfigured | NoMatchingHost string | AmbiguousHost "string list"
  | NotPaired | NoIdentity | PinMismatch string string | NotATerminal | GitignoreRead | NoPairableHost | NoAddressMatch string
  | SelectionRange int | SelectionInvalid | PinRequired | InputFailed | CodeRequired | PairingCancelled | KeyFailed
  | PairRefused | ConfigExists string | ConfigStat | NoConfigPath | InitWrite | CurrentAndContext

definition DefaultPort :: int where "DefaultPort = 33221"
definition manualHostInstance :: string where "manualHostInstance = ''manual-host''"

text \<open>\<open>aeOne\<close>, \<open>aeAll\<close>: discovery by service and time; \<open>aeHostVar\<close>: the variable RMTX\_HOST.\<close>

record appEnv =
  apConfig :: configEnv
  apHostVar :: string
  apOne :: "string \<Rightarrow> duration \<Rightarrow> discoveryError + hostFound"
  apAll :: "string \<Rightarrow> duration \<Rightarrow> discoveryError + hostFound list"
  apMade :: bool
  apSave :: writeOutcome
  apSha :: "string \<Rightarrow> string"

record resolvedRemoteHost =
  rhAddress :: string
  rhService :: string
  rhFingerprint :: string

section \<open>Which host\<close>

definition selectDiscoveredHost :: "hostFound list \<Rightarrow> string \<Rightarrow> string \<Rightarrow> appError + hostFound" where
  "selectDiscoveredHost results pinned preferred =
     (let filtered = (if pinned \<noteq> [] then filter (\<lambda>r. trimSpace (hfFingerprint r) = pinned) results else results) in
      if pinned \<noteq> [] \<and> filtered = [] then Inl (NoMatchingHost pinned)
      else (case (if trimSpace preferred \<noteq> [] then find (\<lambda>r. trimSpace (hfAddress r) = trimSpace preferred) filtered else None) of
        Some r \<Rightarrow> Inr r
      | None \<Rightarrow> if 1 < length filtered then Inl (AmbiguousHost (map hfAddress filtered)) else Inr (hd filtered)))"

definition preferredAddressForFingerprint :: "ioError + clientMemory \<Rightarrow> string \<Rightarrow> appError + string" where
  "preferredAddressForFingerprint state fingerprint =
     (case state of
        Inl e \<Rightarrow> Inl (AppState e)
      | Inr s \<Rightarrow> Inr (case FindHostByFingerprint fingerprint s of None \<Rightarrow> [] | Some r \<Rightarrow> trimSpace (hrAddress r)))"

definition discoverPinnedRemoteHost ::
  "appEnv \<Rightarrow> ioError + clientMemory \<Rightarrow> config \<Rightarrow> duration \<Rightarrow> string \<Rightarrow> appError + resolvedRemoteHost" where
  "discoverPinnedRemoteHost env state cfg timeout pinned =
     (case apAll env (dcService (cfgDiscovery cfg)) timeout of
        Inl e \<Rightarrow> Inl (AppDiscovery e)
      | Inr results \<Rightarrow>
          if results = [] then Inl (AppDiscovery NoHostDiscovered)
          else
            andThen (preferredAddressForFingerprint state pinned) (\<lambda>preferred.
            andThen (selectDiscoveredHost results pinned preferred) (\<lambda>r.
              Inr \<lparr>rhAddress = hfAddress r, rhService = dcService (cfgDiscovery cfg), rhFingerprint = trimSpace (hfFingerprint r)\<rparr>)))"

definition resolveRemoteHost ::
  "appEnv \<Rightarrow> ioError + clientMemory \<Rightarrow> config \<Rightarrow> string \<Rightarrow> duration \<Rightarrow> appError + resolvedRemoteHost" where
  "resolveRemoteHost env state cfg override timeout =
     (let pinned = trimSpace (cfgHostFingerprint cfg);
          at = (\<lambda>a. Inr \<lparr>rhAddress = NormalizeAddress a DefaultPort, rhService = dcService (cfgDiscovery cfg), rhFingerprint = pinned\<rparr>) in
      if trimSpace override \<noteq> [] then at (trimSpace override)
      else if trimSpace (apHostVar env) \<noteq> [] then at (trimSpace (apHostVar env))
      else if trimSpace (cfgHost cfg) \<noteq> [] then at (trimSpace (cfgHost cfg))
      else if \<not> DiscoveryEnabled cfg then Inl NoHostConfigured
      else
        (let d = (if timeout \<le> 0 then DiscoveryTimeout (ceParseDuration (apConfig env)) cfg else timeout) in
         if pinned \<noteq> [] then discoverPinnedRemoteHost env state cfg d pinned
         else (case apOne env (dcService (cfgDiscovery cfg)) d of
           Inl e \<Rightarrow> Inl (AppDiscovery e)
         | Inr r \<Rightarrow> Inr \<lparr>rhAddress = hfAddress r, rhService = dcService (cfgDiscovery cfg), rhFingerprint = trimSpace (hfFingerprint r)\<rparr>)))"

text \<open>
  The state file may be written: a known host is found at a new address. When the update is refused
  the pointer found before is used, and it points to what is in its slot of the array by then.
\<close>

definition recordBehind :: "hostRecord \<Rightarrow> string \<Rightarrow> string \<Rightarrow> clientMemory \<Rightarrow> hostRecord" where
  "recordBehind r fingerprint address s =
     (case hostIndexByFingerprint (trimSpace fingerprint) (clHosts s) of
        None \<Rightarrow> r
      | Some i \<Rightarrow> if hrAddress (clHosts s ! i) = address then clHosts s ! i else hostArray i address s ! i)"

definition resolveClientHost ::
  "appEnv \<Rightarrow> string \<Rightarrow> string \<Rightarrow> clientMemory jsonFile \<Rightarrow> clientMemory jsonFile \<times> (appError + clientMemory \<times> hostRecord option)" where
  "resolveClientHost env address fingerprint f =
     (case LoadState (apMade env) f of
        Inl e \<Rightarrow> (f, Inl (AppState e))
      | Inr s \<Rightarrow>
          (case FindHostByFingerprint fingerprint s of
             Some r \<Rightarrow>
               if trimSpace address = [] then (f, Inr (s, Some r))
               else (case UpdateHostAddress fingerprint (trimSpace address) s of
                 (s', False) \<Rightarrow> (f, Inr (s', Some (recordBehind r fingerprint (trimSpace address) s)))
               | (s', True) \<Rightarrow>
                   (case SaveState (apMade env) (apSave env) s' f of
                      (f', Inl e) \<Rightarrow> (f', Inl (AppState e))
                    | (f', Inr _) \<Rightarrow> (f', Inr (s', FindHostByFingerprint fingerprint s'))))
           | None \<Rightarrow> (f, Inr (s, FindHostByAddress address s))))"

text \<open>The checks every command makes before it connects.\<close>

definition pairedHost :: "config \<Rightarrow> string \<Rightarrow> clientMemory \<times> hostRecord option \<Rightarrow> appError + hostRecord \<times> string \<times> string" where
  "pairedHost cfg address found =
     (case found of
        (s, None) \<Rightarrow> Inl NotPaired
      | (s, Some r) \<Rightarrow>
          if \<not> hrPaired r then Inl NotPaired
          else (case HostCredentials address (hrFingerprint r) s of (cert, key) \<Rightarrow>
            if trimSpace cert = [] \<or> trimSpace key = [] then Inl NoIdentity
            else
              (let pinned = trimSpace (cfgHostFingerprint cfg) in
               if pinned \<noteq> [] \<and> pinned \<noteq> hrFingerprint r then Inl (PinMismatch pinned (hrFingerprint r)) else Inr (r, cert, key))))"

text \<open>The part that \<open>RunExec\<close> and \<open>resolveRemoteTarget\<close> share.\<close>

definition chooseHost ::
  "appEnv \<Rightarrow> config \<Rightarrow> string \<Rightarrow> duration \<Rightarrow> clientMemory jsonFile \<Rightarrow>
   clientMemory jsonFile \<times> (appError + resolvedRemoteHost \<times> hostRecord \<times> string \<times> string)" where
  "chooseHost env cfg override timeout f =
     (case resolveRemoteHost env (LoadState (apMade env) f) cfg override timeout of
        Inl e \<Rightarrow> (f, Inl e)
      | Inr target \<Rightarrow>
          (case resolveClientHost env (rhAddress target) (rhFingerprint target) f of
             (f', Inl e) \<Rightarrow> (f', Inl e)
           | (f', Inr found) \<Rightarrow> (f', andThen (pairedHost cfg (rhAddress target) found) (\<lambda>(r, cert, key). Inr (target, r, cert, key)))))"

section \<open>What is mounted\<close>

definition gitignoreLineToExclude :: "string \<Rightarrow> string option" where
  "gitignoreLineToExclude line0 =
     (let line1 = trimSpace line0;
          escaped = hasPrefix line1 [CHR 0x5C, CHR ''#''] \<or> hasPrefix line1 [CHR 0x5C, CHR ''!''];
          line2 = trimPrefix (if escaped then tl line1 else line1) ''/'';
          line3 = trimRightByte slash line2 in
      if line1 = [] then None
      else if \<not> escaped \<and> (hasPrefix line1 ''#'' \<or> hasPrefix line1 ''!'') then None
      else if line2 = [] \<or> line3 = [] then None
      else
        (let pattern = (if hasSuffix line2 ''/'' then line3 @ ''/**'' else line3) in
         Some (if slash \<in> set line3 then pattern else ''**/'' @ pattern)))"

definition loadGitignorePatterns :: "string jsonFile \<Rightarrow> appError + string list" where
  "loadGitignorePatterns content =
     (case content of
        Missing \<Rightarrow> Inr []
      | Stored text \<Rightarrow> Inr (List.map_filter gitignoreLineToExclude (splitOn CHR 0x0A text))
      | _ \<Rightarrow> Inl GitignoreRead)"

definition buildMountSpecs :: "string jsonFile \<Rightarrow> config \<Rightarrow> appError + mountSpec list" where
  "buildMountSpecs gitignore cfg =
     andThen (if cfgIgnoreGitignore cfg then loadGitignorePatterns gitignore else Inr []) (\<lambda>patterns.
       Inr (map (\<lambda>m. \<lparr>mountPath = cmPath m, mountExclude = (cfgIgnore cfg @ patterns) @ cmExclude m\<rparr>) (cfgMounts cfg)))"

section \<open>Running a command\<close>

datatype ttyMode = TTYAuto | TTYForce | TTYDisable

text \<open>A file given to the command: absent, or with what asking for its kind gives.\<close>

datatype stdFile = NoFile | FileUnknown | CharDevice bool | PlainFile

definition isTerminal :: "stdFile \<Rightarrow> bool" where
  "isTerminal f = (case f of CharDevice t \<Rightarrow> t | _ \<Rightarrow> False)"

definition ShouldForwardStdin :: "stdFile \<Rightarrow> bool" where
  "ShouldForwardStdin f = (case f of PlainFile \<Rightarrow> True | _ \<Rightarrow> False)"

definition ShouldUseTTY :: "stdFile \<Rightarrow> stdFile \<Rightarrow> bool" where
  "ShouldUseTTY stdin stdout = (isTerminal stdin \<and> isTerminal stdout)"

definition resolveTTY :: "ttyMode \<Rightarrow> stdFile \<Rightarrow> stdFile \<Rightarrow> appError + bool" where
  "resolveTTY mode stdin stdout =
     (case mode of
        TTYDisable \<Rightarrow> Inr False
      | TTYForce \<Rightarrow> if \<not> ShouldUseTTY stdin stdout then Inl NotATerminal else Inr True
      | TTYAuto \<Rightarrow> Inr (ShouldUseTTY stdin stdout))"

record execParams =
  xpOverride :: string
  xpConfigPath :: string
  xpTimeout :: duration
  xpCommand :: "string list"
  xpForward :: bool
  xpStdin :: stdFile
  xpStdout :: stdFile
  xpTTY :: ttyMode
  xpKeep :: duration
  xpReuse :: string

record execPlan =
  epTarget :: resolvedRemoteHost
  epHost :: hostRecord
  epCert :: string
  epKey :: string
  epForward :: bool
  epOptions :: execOptions
  epBuild :: buildOptions

text \<open>What \<open>RunExec\<close> gives to \<open>client.Run\<close>. \<open>gitignore\<close>: the file at the root of the project.\<close>

definition RunExec ::
  "appEnv \<Rightarrow> (string \<Rightarrow> string jsonFile) \<Rightarrow> string \<Rightarrow> execParams \<Rightarrow> clientMemory jsonFile \<Rightarrow> clientMemory jsonFile \<times> (appError + execPlan)" where
  "RunExec env gitignore cwd p f =
     (case ResolveRequired (apConfig env) cwd (xpConfigPath p) of
        Inl e \<Rightarrow> (f, Inl (AppConfig e))
      | Inr l \<Rightarrow>
          (let cfg = WithDefaults (ldConfig l) in
           case chooseHost env cfg (xpOverride p) (xpTimeout p) f of
             (f', Inl e) \<Rightarrow> (f', Inl e)
           | (f', Inr (target, r, cert, key)) \<Rightarrow>
               (f', andThen (resolveTTY (xpTTY p) (xpStdin p) (xpStdout p)) (\<lambda>tty.
                    andThen (buildMountSpecs (gitignore (ldRoot l)) cfg) (\<lambda>mounts.
                      Inr \<lparr>epTarget = target, epHost = r, epCert = cert, epKey = key,
                           epForward = (xpForward p \<or> tty \<or> ShouldForwardStdin (xpStdin p)),
                           epOptions = \<lparr>exAddress = rhAddress target, exFingerprint = hrFingerprint r, exCommand = xpCommand p,
                             exContextID = ContextID (apSha env) l, exKeep = xpKeep p, exRoot = ldRoot l, exCWD = cwd, exTTY = tty\<rparr>,
                           epBuild = \<lparr>boMounts = mounts, boSyncBack = cfgSyncBack cfg, boRuntime = cfgRuntime cfg,
                             boForwardEnv = cfgEnvForward cfg, boExtraEnv = Map.empty, boSession = [], boProject = pathBase (ldRoot l),
                             boContextName = ContextName l, boReuse = xpReuse p\<rparr>\<rparr>)))))"

text \<open>The other commands: the configuration is optional.\<close>

definition optionalConfig :: "appEnv \<Rightarrow> string \<Rightarrow> string \<Rightarrow> appError + loaded option" where
  "optionalConfig env cwd configPath =
     (case loadExplicitOrSearch (apConfig env) cwd configPath of
        Inr l \<Rightarrow> Inr (Some l)
      | Inl e \<Rightarrow> if trimSpace configPath = [] \<and> e = ConfigNotFound then Inr None else Inl (AppConfig e))"

definition resolveRemoteTarget ::
  "appEnv \<Rightarrow> string \<Rightarrow> string \<Rightarrow> string \<Rightarrow> duration \<Rightarrow> clientMemory jsonFile \<Rightarrow>
   clientMemory jsonFile \<times> (appError + (resolvedRemoteHost \<times> hostRecord \<times> string \<times> string) \<times> loaded option)" where
  "resolveRemoteTarget env cwd configPath override timeout f =
     (case optionalConfig env cwd configPath of
        Inl e \<Rightarrow> (f, Inl e)
      | Inr l \<Rightarrow>
          (let cfg = WithDefaults (case l of Some x \<Rightarrow> ldConfig x | None \<Rightarrow> DefaultConfig) in
           case chooseHost env cfg override timeout f of
             (f', Inl e) \<Rightarrow> (f', Inl e)
           | (f', Inr t) \<Rightarrow> (f', Inr (t, l))))"

definition resolveContextScopedRemote ::
  "appEnv \<Rightarrow> string \<Rightarrow> string \<Rightarrow> string \<Rightarrow> duration \<Rightarrow> string \<Rightarrow> bool \<Rightarrow> clientMemory jsonFile \<Rightarrow>
   clientMemory jsonFile \<times> (appError + (resolvedRemoteHost \<times> hostRecord \<times> string \<times> string) \<times> string)" where
  "resolveContextScopedRemote env cwd configPath override timeout contextID current f =
     (case resolveRemoteTarget env cwd configPath override timeout f of
        (f', Inl e) \<Rightarrow> (f', Inl e)
      | (f', Inr (t, l)) \<Rightarrow>
          (f',
           if current \<and> trimSpace contextID \<noteq> [] then Inl CurrentAndContext
           else if current \<or> trimSpace contextID = [] then
             (case (case l of Some x \<Rightarrow> Inr x | None \<Rightarrow> ResolveRequired (apConfig env) cwd configPath) of
                Inl e \<Rightarrow> Inl (AppConfig e)
              | Inr x \<Rightarrow> Inr (t, ContextID (apSha env) x))
           else Inr (t, trimSpace contextID)))"

section \<open>Pairing\<close>

text \<open>Stdin: the text it can still give, and whether it then fails rather than ends.\<close>

type_synonym pairInput = "string \<times> bool"

definition readPairLine :: "pairInput \<Rightarrow> pairInput \<times> (appError + string)" where
  "readPairLine input =
     (case input of (text, fails) \<Rightarrow>
        (case cut CHR 0x0A text of
           (line, rest, True) \<Rightarrow> ((rest, fails), Inr (trimSpace line))
         | (line, rest, False) \<Rightarrow> (([], fails), if fails then Inl InputFailed else Inr (trimSpace line))))"

record pairParams =
  ppOverride :: string
  ppFingerprint :: string
  ppConfigPath :: string
  ppTimeout :: duration
  ppCode :: string
  ppLabel :: string
  ppSelection :: int

text \<open>
  The other side of pairing: \<open>peCode\<close>, the request for a code, \<open>pePair\<close>, the pairing by address,
  fingerprint, code, label, previous certificate and CSR, giving the certificate and its
  fingerprint; \<open>peNewKey\<close>, \<open>peCSR\<close>, the key and CSR of a label.
\<close>

record pairEnv = appEnv +
  peHostname :: "string option"
  peCode :: "hostRecord \<Rightarrow> string \<Rightarrow> bool"
  pePair :: "hostRecord \<Rightarrow> string \<Rightarrow> string \<Rightarrow> string \<Rightarrow> string \<Rightarrow> (string \<times> string) option"
  peNewKey :: "string \<Rightarrow> (string \<times> string) option"
  peCSR :: "string \<Rightarrow> string \<Rightarrow> string option"
  pePrint :: "string \<Rightarrow> string option"
  peScan :: "string \<Rightarrow> int option"

definition existingPairRecord :: "clientMemory \<Rightarrow> hostFound \<Rightarrow> hostRecord option" where
  "existingPairRecord s r =
     (case FindHostByFingerprint (hfFingerprint r) s of Some x \<Rightarrow> Some x | None \<Rightarrow> FindHostByAddress (hfAddress r) s)"

definition pairClientKey :: "clientMemory \<Rightarrow> hostFound \<Rightarrow> hostRecord option \<Rightarrow> string" where
  "pairClientKey s r existing =
     (case existing of
        Some x \<Rightarrow> if trimSpace (hrKeyPEM x) \<noteq> [] then hrKeyPEM x else snd (HostCredentials (hfAddress r) (hfFingerprint r) s)
      | None \<Rightarrow> snd (HostCredentials (hfAddress r) (hfFingerprint r) s))"

definition previousPairFingerprint :: "(string \<Rightarrow> string option) \<Rightarrow> hostRecord option \<Rightarrow> string" where
  "previousPairFingerprint fingerprintPEM existing =
     (case existing of
        None \<Rightarrow> []
      | Some x \<Rightarrow>
          if trimSpace (hrLastPairedCert x) \<noteq> [] \<or> trimSpace (hrCertPEM x) = [] then trimSpace (hrLastPairedCert x)
          else (case fingerprintPEM (hrCertPEM x) of None \<Rightarrow> [] | Some p \<Rightarrow> p))"

text \<open>The CSR and the key.\<close>

definition ensurePairCSR :: "'a pairEnv_scheme \<Rightarrow> string \<Rightarrow> string \<Rightarrow> appError + string \<times> string" where
  "ensurePairCSR env key label =
     (if key = [] then (case peNewKey env label of None \<Rightarrow> Inl KeyFailed | Some (k, csr) \<Rightarrow> Inr (csr, k))
      else (case peCSR env key label of None \<Rightarrow> Inl KeyFailed | Some csr \<Rightarrow> Inr (csr, key)))"

definition pairRemoteHost :: "hostFound \<Rightarrow> hostRecord" where
  "pairRemoteHost r =
     \<lparr>hrAddress = hfAddress r, hrName = hfInstance r, hrOS = hfOS r, hrFingerprint = hfFingerprint r, hrPaired = False,
      hrLastPairedCert = [], hrCertPEM = [], hrKeyPEM = []\<rparr>"

definition pairedHostRecord :: "hostFound \<Rightarrow> string \<times> string \<Rightarrow> string \<Rightarrow> hostRecord" where
  "pairedHostRecord r resp key =
     \<lparr>hrAddress = hfAddress r, hrName = hfInstance r, hrOS = hfOS r, hrFingerprint = hfFingerprint r, hrPaired = True,
      hrLastPairedCert = snd resp, hrCertPEM = fst resp, hrKeyPEM = key\<rparr>"

definition promptForPairCode :: "pairInput \<Rightarrow> pairInput \<times> (appError + string)" where
  "promptForPairCode input =
     (case readPairLine input of
        (i, Inl e) \<Rightarrow> (i, Inl e)
      | (i, Inr code) \<Rightarrow> (i, if code = [] then Inl CodeRequired else Inr code))"

definition resolvePairCode ::
  "'a pairEnv_scheme \<Rightarrow> pairParams \<Rightarrow> hostFound \<Rightarrow> string \<Rightarrow> pairInput \<Rightarrow> pairInput \<times> (appError + string)" where
  "resolvePairCode env p r label input =
     (if trimSpace (ppCode p) \<noteq> [] then (input, Inr (trimSpace (ppCode p)))
      else if \<not> peCode env (pairRemoteHost r) label then (input, Inl PairRefused)
      else promptForPairCode input)"

definition completePair ::
  "'a pairEnv_scheme \<Rightarrow> hostFound \<Rightarrow> pairParams \<Rightarrow> pairInput \<Rightarrow> clientMemory jsonFile \<Rightarrow>
   clientMemory jsonFile \<times> (appError + hostRecord)" where
  "completePair env r p input f =
     (case LoadState (apMade env) f of
        Inl e \<Rightarrow> (f, Inl (AppState e))
      | Inr s0 \<Rightarrow>
          (let s = (if trimSpace (clLabel s0) = [] then s0\<lparr>clLabel := DefaultClientLabel (peHostname env)\<rparr> else s0);
               label = (if trimSpace (ppLabel p) = [] then clLabel s else trimSpace (ppLabel p));
               existing = existingPairRecord s r in
           case ensurePairCSR env (pairClientKey s r existing) label of
             Inl e \<Rightarrow> (f, Inl e)
           | Inr (csr, key) \<Rightarrow>
               (case snd (resolvePairCode env p r label input) of
                  Inl e \<Rightarrow> (f, Inl e)
                | Inr code \<Rightarrow>
                    (case pePair env (pairRemoteHost r) code label (previousPairFingerprint (pePrint env) existing) csr of
                       None \<Rightarrow> (f, Inl PairRefused)
                     | Some resp \<Rightarrow>
                         (let record = pairedHostRecord r resp key in
                          case SaveState (apMade env) (apSave env) (UpsertHost record (s\<lparr>clLabel := label\<rparr>)) f of
                            (f', Inl e) \<Rightarrow> (f', Inl (AppState e))
                          | (f', Inr _) \<Rightarrow> (f', Inr record))))))"

definition loadPairConfig :: "appEnv \<Rightarrow> string \<Rightarrow> string \<Rightarrow> appError + config" where
  "loadPairConfig env cwd configPath =
     andThen (optionalConfig env cwd configPath) (\<lambda>l. Inr (WithDefaults (case l of Some x \<Rightarrow> ldConfig x | None \<Rightarrow> DefaultConfig)))"

definition manualHost :: "string \<Rightarrow> config \<Rightarrow> string \<Rightarrow> string \<Rightarrow> hostFound" where
  "manualHost address cfg name fingerprint =
     \<lparr>hfInstance = name, hfOS = [], hfAddress = NormalizeAddress address DefaultPort, hfService = dcService (cfgDiscovery cfg),
      hfPort = 0, hfFingerprint = fingerprint, hfPairing = True\<rparr>"

definition filterPairableResults :: "hostFound list \<Rightarrow> hostFound list" where
  "filterPairableResults results = filter hfPairing results"

text \<open>\<open>peScan\<close>: \<open>Sscanf\<close> of a number.\<close>

definition promptForPairSelection :: "'a pairEnv_scheme \<Rightarrow> pairInput \<Rightarrow> pairInput \<times> (appError + int)" where
  "promptForPairSelection env input =
     (case readPairLine input of
        (i, Inl e) \<Rightarrow> (i, Inl e)
      | (i, Inr line) \<Rightarrow> (i, case peScan env line of None \<Rightarrow> Inl SelectionInvalid | Some n \<Rightarrow> Inr n))"

definition chooseResult ::
  "'a pairEnv_scheme \<Rightarrow> pairParams \<Rightarrow> hostFound list \<Rightarrow> pairInput \<Rightarrow> pairInput \<times> (appError + hostFound)" where
  "chooseResult env p results input =
     (if length results = 1 then (input, Inr (hd results))
      else (case (if ppSelection p \<le> 0 then promptForPairSelection env input else (input, Inr (ppSelection p))) of
        (i, Inl e) \<Rightarrow> (i, Inl e)
      | (i, Inr index) \<Rightarrow>
          (i, if index < 1 \<or> int (length results) < index then Inl (SelectionRange index) else Inr (results ! nat (index - 1)))))"

definition resolveInitTarget ::
  "'a pairEnv_scheme \<Rightarrow> config \<Rightarrow> pairParams \<Rightarrow> pairInput \<Rightarrow> pairInput \<times> (appError + hostFound)" where
  "resolveInitTarget env cfg p input =
     (let override = trimSpace (ppOverride p); fingerprint = trimSpace (ppFingerprint p) in
      if override \<noteq> [] \<and> fingerprint \<noteq> [] then (input, Inr (manualHost override cfg manualHostInstance fingerprint))
      else (case apAll env (dcService (cfgDiscovery cfg))
              (if ppTimeout p \<le> 0 then DiscoveryTimeout (ceParseDuration (apConfig env)) cfg else ppTimeout p) of
        Inl e \<Rightarrow> (input, Inl (AppDiscovery e))
      | Inr all \<Rightarrow>
          (let results = filterPairableResults all; address = NormalizeAddress override DefaultPort;
               here = (if override \<noteq> [] then filter (\<lambda>r. trimSpace (hfAddress r) = address) results else results) in
           if results = [] then (input, Inl NoPairableHost)
           else if here = [] then (input, Inl (NoAddressMatch address))
           else chooseResult env p here input)))"

definition resolvePairTarget ::
  "'a pairEnv_scheme \<Rightarrow> config \<Rightarrow> pairParams \<Rightarrow> pairInput \<Rightarrow> pairInput \<times> (appError + hostFound)" where
  "resolvePairTarget env cfg p input =
     (let fingerprint = (if trimSpace (ppFingerprint p) = [] then trimSpace (cfgHostFingerprint cfg) else trimSpace (ppFingerprint p)) in
      if fingerprint = [] then (input, Inl PinRequired)
      else if trimSpace (ppOverride p) \<noteq> [] then (input, Inr (manualHost (trimSpace (ppOverride p)) cfg manualHostInstance fingerprint))
      else if trimSpace (cfgHost cfg) \<noteq> [] then (input, Inr (manualHost (trimSpace (cfgHost cfg)) cfg ''configured-host'' fingerprint))
      else (case apAll env (dcService (cfgDiscovery cfg))
              (if ppTimeout p \<le> 0 then DiscoveryTimeout (ceParseDuration (apConfig env)) cfg else ppTimeout p) of
        Inl e \<Rightarrow> (input, Inl (AppDiscovery e))
      | Inr results \<Rightarrow>
          (let filtered = filter (\<lambda>r. trimSpace (hfFingerprint r) = fingerprint) results in
           if results = [] then (input, Inl (AppDiscovery NoHostDiscovered))
           else if filtered = [] then (input, Inl (NoMatchingHost fingerprint))
           else chooseResult env p filtered input)))"

definition RunPair ::
  "pairEnv \<Rightarrow> string \<Rightarrow> pairParams \<Rightarrow> pairInput \<Rightarrow> clientMemory jsonFile \<Rightarrow> clientMemory jsonFile \<times> (appError + hostRecord)" where
  "RunPair env cwd p input f =
     (case loadPairConfig (appEnv.truncate env) cwd (ppConfigPath p) of
        Inl e \<Rightarrow> (f, Inl e)
      | Inr cfg \<Rightarrow>
          (case resolvePairTarget env cfg p input of
             (i, Inl e) \<Rightarrow> (f, Inl e)
           | (i, Inr r) \<Rightarrow> completePair env r p i f))"

text \<open>Only A to Z become ASCII letters of the two answers.\<close>

definition lowerByte :: "char \<Rightarrow> char" where
  "lowerByte c = (if CHR ''A'' \<le> c \<and> c \<le> CHR ''Z'' then char_of (of_char c + (32 :: nat)) else c)"

definition emptyOr :: "string \<Rightarrow> string \<Rightarrow> string" where
  "emptyOr v fallback = (if trimSpace v \<noteq> [] then trimSpace v else fallback)"

text \<open>The rest of the input, what the user is shown, and the answer.\<close>

definition promptForTrust :: "hostFound \<Rightarrow> pairInput \<Rightarrow> pairInput \<times> string \<times> (appError + unit)" where
  "promptForTrust r input =
     (let shown = ''Trust host '' @ emptyOr (hfInstance r) ''rmtx-host'' @ '' '' @ hfAddress r @ '' '' @ hfFingerprint r @ ''? [y/N]: '' in
      case readPairLine input of
        (i, Inl e) \<Rightarrow> (i, shown, Inl e)
      | (i, Inr line) \<Rightarrow> (i, shown, if map lowerByte (trimSpace line) \<in> {''y'', ''yes''} then Inr () else Inl PairingCancelled))"

definition resolveInitConfigPath :: "appEnv \<Rightarrow> string \<Rightarrow> string \<Rightarrow> appError + string" where
  "resolveInitConfigPath env cwd explicit =
     (if trimSpace explicit \<noteq> [] then
        (let path = absPath (ceCwd (apConfig env)) explicit in
         case ceStat (apConfig env) path of
           StatOk \<Rightarrow> Inl (ConfigExists path) | StatError \<Rightarrow> Inl ConfigStat | StatNotExist \<Rightarrow> Inr path)
      else (case Search (apConfig env) cwd of
        Inr l \<Rightarrow> Inl (ConfigExists (ldPath l))
      | Inl e \<Rightarrow> if e = ConfigNotFound then Inr (pathJoin [absPath (ceCwd (apConfig env)) cwd, ''.rmtx.json'']) else Inl (AppConfig e)))"

definition initConfig :: "string \<Rightarrow> string \<Rightarrow> string \<Rightarrow> config" where
  "initConfig root fingerprint address =
     DefaultConfig\<lparr>cfgHost := trimSpace address,
       cfgContextName := ContextName \<lparr>ldPath = [], ldRoot = root, ldConfig = DefaultConfig\<lparr>cfgContextName := []\<rparr>\<rparr>,
       cfgHostFingerprint := trimSpace fingerprint, cfgMounts := [\<lparr>cmPath = ''.'', cmExclude = []\<rparr>],
       cfgIgnore := [''.git/**'', ''node_modules/**''], cfgIgnoreGitignore := True\<rparr>"

text \<open>The file at the path: what \<open>Load\<close> reads back from the JSON.\<close>

definition writeInitConfig ::
  "appEnv \<Rightarrow> writeOutcome \<Rightarrow> string \<Rightarrow> string \<Rightarrow> string \<Rightarrow> string \<Rightarrow> config jsonFile \<Rightarrow> config jsonFile \<times> (appError + unit)" where
  "writeInitConfig env wo path cwd fingerprint address f =
     (if trimSpace path = [] then (f, Inl NoConfigPath)
      else (case writeJSONAtomically wo (initConfig (absPath (ceCwd (apConfig env)) cwd) fingerprint address) f of
        (f', Inl e) \<Rightarrow> (f', Inl InitWrite)
      | (f', Inr _) \<Rightarrow> (f', Inr ())))"

text \<open>The files, what was shown to the user for trust if it came to that, and the result.\<close>

definition RunInit ::
  "pairEnv \<Rightarrow> writeOutcome \<Rightarrow> string \<Rightarrow> pairParams \<Rightarrow> pairInput \<Rightarrow> clientMemory jsonFile \<times> config jsonFile \<Rightarrow>
   (clientMemory jsonFile \<times> config jsonFile) \<times> string option \<times> (appError + string \<times> hostRecord)" where
  "RunInit env wo cwd p input files =
     (case files of (f, cf) \<Rightarrow>
        (case resolveInitConfigPath (appEnv.truncate env) cwd (ppConfigPath p) of
           Inl e \<Rightarrow> (files, None, Inl e)
         | Inr path \<Rightarrow>
             (case resolveInitTarget env (WithDefaults DefaultConfig) p input of
                (i, Inl e) \<Rightarrow> (files, None, Inl e)
              | (i, Inr r) \<Rightarrow>
                  (case promptForTrust r i of
                     (i2, shown, Inl e) \<Rightarrow> (files, Some shown, Inl e)
                   | (i2, shown, Inr _) \<Rightarrow>
                       (case completePair env r p i2 f of
                          (f', Inl e) \<Rightarrow> ((f', cf), Some shown, Inl e)
                        | (f', Inr record) \<Rightarrow>
                            (case writeInitConfig (appEnv.truncate env) wo path cwd (hfFingerprint r)
                                    (if trimSpace (ppOverride p) \<noteq> [] then hfAddress r else []) cf of
                               (cf', Inl e) \<Rightarrow> ((f', cf'), Some shown, Inl e)
                             | (cf', Inr _) \<Rightarrow> ((f', cf'), Some shown, Inr (path, record))))))))"

section \<open>Facts\<close>

text \<open>A record keeps all but its address.\<close>

definition sameHost :: "hostRecord \<Rightarrow> hostRecord \<Rightarrow> bool" where
  "sameHost a b \<longleftrightarrow> b = a\<lparr>hrAddress := hrAddress b\<rparr>"

lemma UpdateHostAddress_members:
  assumes "UpdateHostAddress fingerprint address s = (s', moved)" "h \<in> set (clHosts s')"
  shows "\<exists>a \<in> set (clHosts s). sameHost a h"
proof -
  have self: "sameHost h h" by (simp add: sameHost_def)
  show ?thesis
  proof (cases "s' = s")
    case True
    then show ?thesis using assms(2) self by blast
  next
    case False
    then obtain i hs rest i' ok where al: "aliasLoop i (trimSpace address) [] [] (clHosts s) = (hs, rest, i', ok)"
        and s': "clHosts s' = hs \<or> i < length (clHosts s) \<and> clHosts s' = hs[i' := (hs ! i')\<lparr>hrAddress := trimSpace address\<rparr>]"
      using assms(1) index_nth
      by (auto simp: UpdateHostAddress_def removeUnpairedAddressAliases_def Let_def split: if_splits option.splits prod.splits bool.splits)
    have sub: "set hs \<subseteq> set (clHosts s)" using aliasLoop_members [OF al] by auto
    show ?thesis
    proof (cases "h \<in> set hs")
      case True
      then show ?thesis using sub self by blast
    next
      case False
      then have h: "i < length (clHosts s)" "h = (hs ! i')\<lparr>hrAddress := trimSpace address\<rparr>" "clHosts s' = hs[i' := h]"
        using s' assms(2) set_update_subset_insert [of hs i' "(hs ! i')\<lparr>hrAddress := trimSpace address\<rparr>"] by auto
      have "i' < length hs" using aliasLoop_keeps [OF al] h(1) by simp
      then have "hs ! i' \<in> set (clHosts s)" using sub by auto
      then show ?thesis using h(2) by (intro bexI [of _ "hs ! i'"]) (simp_all add: sameHost_def)
    qed
  qed
qed

lemma found_member: "FindHostByFingerprint fp s = Some r \<Longrightarrow> r \<in> set (clHosts s) \<and> hrFingerprint r = trimSpace fp \<and> trimSpace fp \<noteq> []"
  by (auto simp: FindHostByFingerprint_def find_Some_iff split: if_splits)

lemma found_address_member: "FindHostByAddress a s = Some r \<Longrightarrow> r \<in> set (clHosts s)"
  by (auto simp: FindHostByAddress_def find_Some_iff)

lemma recordBehind_member:
  assumes "FindHostByFingerprint fp s = Some r"
  shows "recordBehind r fp address s \<in> set (clHosts s)"
proof (cases "hostIndexByFingerprint (trimSpace fp) (clHosts s)")
  case None
  then show ?thesis using found_member [OF assms] by (simp add: recordBehind_def)
next
  case (Some i)
  obtain hs rest i' ok where al: "aliasLoop i address [] [] (clHosts s) = (hs, rest, i', ok)" by (metis prod.collapse)
  have i: "i < length (clHosts s)" using index_nth [OF Some] by simp
  note m = aliasLoop_members [OF al]
  have "i < length (hs @ rest)" using i m by simp
  then have "(hs @ rest) ! i \<in> set (hs @ rest)" by (rule nth_mem)
  moreover have "set (hs @ rest) \<subseteq> set (clHosts s)" using m by auto
  ultimately have "hostArray i address s ! i \<in> set (clHosts s)" by (auto simp: hostArray_def al)
  then show ?thesis using Some i by (simp add: recordBehind_def)
qed

text \<open>
  An address under which there are not both a record without a fingerprint and another host with
  one: only then a refused update has removed records before it was refused.
\<close>

definition clearAddress :: "string \<Rightarrow> string \<Rightarrow> clientMemory \<Rightarrow> bool" where
  "clearAddress fp address s \<longleftrightarrow>
     list_all (\<lambda>h. hrAddress h = address \<longrightarrow> known h) (clHosts s)
     \<or> list_all (\<lambda>h. hrAddress h = address \<and> known h \<longrightarrow> hrFingerprint h = fp) (clHosts s)"

lemma hostsOk_nth:
  assumes "hostsOk s" "j < length (clHosts s)" "i < length (clHosts s)" "known (clHosts s ! j)"
    "hrFingerprint (clHosts s ! j) = hrFingerprint (clHosts s ! i)"
  shows "i = j"
proof -
  have k: "known (clHosts s ! i)" using assms(4,5) by (simp add: known_def)
  have one: "find (\<lambda>x. hrFingerprint x = hrFingerprint (clHosts s ! n)) (take n (clHosts s)) = None"
    if "n < length (clHosts s)" "known (clHosts s ! n)" for n
  proof -
    have "clHosts s = take n (clHosts s) @ clHosts s ! n # drop (Suc n) (clHosts s)" using that(1) by (simp add: id_take_nth_drop)
    then have "distinct (hostPrints (take n (clHosts s) @ clHosts s ! n # drop (Suc n) (clHosts s)))" using assms(1) by (simp add: hostsOk_def)
    then have "hrFingerprint (clHosts s ! n) \<notin> set (hostPrints (take n (clHosts s)))" using that(2) by (auto simp: hostPrints_Cons)
    then show ?thesis using that(2) by (auto simp: find_None_iff set_hostPrints known_def image_iff)
  qed
  have "\<not> m < n" if "m < length (clHosts s)" "n < length (clHosts s)" "known (clHosts s ! n)"
      "hrFingerprint (clHosts s ! m) = hrFingerprint (clHosts s ! n)" for m n
  proof
    assume "m < n"
    then have "clHosts s ! m \<in> set (take n (clHosts s))" using that(2) by (auto simp: in_set_conv_nth intro!: exI [of _ m])
    then show False using one [OF that(2,3)] that(4) by (auto simp: find_None_iff)
  qed
  then show ?thesis using assms(2-5) k by (metis linorder_neqE_nat)
qed

lemma recordBehind_same:
  assumes f: "FindHostByFingerprint fp s = Some r" and ok: "hostsOk s" and c: "clearAddress (trimSpace fp) address s"
    and u: "UpdateHostAddress fp address s = (s', False)" and a: "trimSpace address = address" "address \<noteq> []"
  shows "recordBehind r fp address s = r"
proof (cases "hostIndexByFingerprint (trimSpace fp) (clHosts s)")
  case None
  then show ?thesis by (simp add: recordBehind_def)
next
  case (Some i)
  note at = index_nth [OF Some]
  have r: "r = clHosts s ! i" using f at by (simp add: FindHostByFingerprint_def split: if_splits)
  have fp: "hrFingerprint r = trimSpace fp" "trimSpace fp \<noteq> []" using found_member [OF f] by simp_all
  show ?thesis
  proof (cases "hrAddress (clHosts s ! i) = address")
    case True
    then show ?thesis using Some r by (simp add: recordBehind_def)
  next
    case False
    obtain hs rest i' moved where al: "aliasLoop i address [] [] (clHosts s) = (hs, rest, i', moved)" by (metis prod.collapse)
    have refused: "\<not> moved"
      using u Some al fp(2) a False by (auto simp: UpdateHostAddress_def removeUnpairedAddressAliases_def Let_def)
    have "list_all (\<lambda>h. hrAddress h = address \<longrightarrow> known h) (clHosts s)"
    proof (rule ccontr)
      assume "\<not> list_all (\<lambda>h. hrAddress h = address \<longrightarrow> known h) (clHosts s)"
      then have p: "\<forall>h \<in> set (clHosts s). hrAddress h = address \<and> known h \<longrightarrow> hrFingerprint h = trimSpace fp"
        using c by (auto simp: clearAddress_def list_all_iff)
      have "\<not> known (clHosts s ! j)" if j: "j < length (clHosts s)" "j \<noteq> i" "hrAddress (clHosts s ! j) = address" for j
      proof
        assume "known (clHosts s ! j)"
        then have "hrFingerprint (clHosts s ! j) = hrFingerprint (clHosts s ! i)" using p j fp r nth_mem by metis
        then show False using hostsOk_nth [OF ok j(1), of i] at j(2) \<open>known (clHosts s ! j)\<close> by simp
      qed
      then have moved using aliasLoop_accepts [OF _ al] by simp
      then show False using refused by simp
    qed
    then have "hs @ rest = clHosts s" using aliasLoop_untouched [OF _ al] by (simp add: list_all_iff)
    then show ?thesis using Some False r by (simp add: recordBehind_def hostArray_def al)
  qed
qed

lemma resolveClientHost_member:
  assumes "resolveClientHost env address fingerprint f = (f', Inr (s', Some r))"
  shows "\<exists>s. LoadState (apMade env) f = Inr s \<and> (\<exists>a \<in> set (clHosts s). sameHost a r)"
proof -
  obtain s where s: "LoadState (apMade env) f = Inr s" using assms by (auto simp: resolveClientHost_def split: sum.splits)
  have self: "sameHost r r" by (simp add: sameHost_def)
  show ?thesis
  proof (cases "FindHostByFingerprint fingerprint s")
    case None
    then have "FindHostByAddress address s = Some r" using assms s by (auto simp: resolveClientHost_def)
    then show ?thesis using found_address_member self s by blast
  next
    case (Some r0)
    show ?thesis
    proof (cases "trimSpace address = []")
      case True
      then show ?thesis using assms s Some found_member [OF Some] self by (auto simp: resolveClientHost_def)
    next
      case False
      obtain s1 moved where u: "UpdateHostAddress fingerprint (trimSpace address) s = (s1, moved)" by fastforce
      show ?thesis
      proof (cases moved)
        case True
        then have "FindHostByFingerprint fingerprint s1 = Some r"
          using assms s Some \<open>trimSpace address \<noteq> []\<close> u by (auto simp: resolveClientHost_def split: prod.splits sum.splits)
        then have "r \<in> set (clHosts s1)" using found_member by blast
        then show ?thesis using UpdateHostAddress_members [OF u] s by blast
      next
        case False
        then have "r = recordBehind r0 fingerprint (trimSpace address) s"
          using assms s Some \<open>trimSpace address \<noteq> []\<close> u by (simp add: resolveClientHost_def)
        then show ?thesis using recordBehind_member [OF Some] self s by blast
      qed
    qed
  qed
qed

lemma chooseHost_facts:
  assumes "chooseHost env cfg override timeout f = (f', Inr (target, r, cert, key))"
  shows "hrPaired r \<and> trimSpace cert \<noteq> [] \<and> trimSpace key \<noteq> []
    \<and> (trimSpace (cfgHostFingerprint cfg) \<noteq> [] \<longrightarrow> hrFingerprint r = trimSpace (cfgHostFingerprint cfg))
    \<and> (\<exists>s. LoadState (apMade env) f = Inr s \<and> (\<exists>a \<in> set (clHosts s). sameHost a r))"
proof -
  obtain f1 found where rc: "resolveClientHost env (rhAddress target) (rhFingerprint target) f = (f1, Inr found)"
      and ph: "pairedHost cfg (rhAddress target) found = Inr (r, cert, key)"
    using assms by (auto simp: chooseHost_def andThen_Inr_iff split: sum.splits prod.splits)
  obtain s' where found: "found = (s', Some r)" and k: "hrPaired r" "trimSpace cert \<noteq> []" "trimSpace key \<noteq> []"
      "trimSpace (cfgHostFingerprint cfg) \<noteq> [] \<longrightarrow> hrFingerprint r = trimSpace (cfgHostFingerprint cfg)"
    using ph by (auto simp: pairedHost_def Let_def split: prod.splits option.splits if_splits)
  show ?thesis using k resolveClientHost_member [OF rc [unfolded found]] by simp
qed

section \<open>Properties\<close>

text \<open>
  C8. A command runs only on a host that the client has paired: its record is one of the stored
  ones, up to its address, marked as paired, and it is the host the project pins if it pins one;
  the connection is made with credentials that are not empty and checked against the fingerprint
  of that record.
\<close>

theorem exec_only_on_paired_host:
  assumes "RunExec env gitignore cwd p f = (f', Inr plan)"
  shows "\<exists>l s a. ResolveRequired (apConfig env) cwd (xpConfigPath p) = Inr l \<and> LoadState (apMade env) f = Inr s
    \<and> a \<in> set (clHosts s) \<and> hrPaired a \<and> epHost plan = a\<lparr>hrAddress := hrAddress (epHost plan)\<rparr>
    \<and> exFingerprint (epOptions plan) = hrFingerprint a
    \<and> trimSpace (epCert plan) \<noteq> [] \<and> trimSpace (epKey plan) \<noteq> []
    \<and> (trimSpace (cfgHostFingerprint (ldConfig l)) \<noteq> [] \<longrightarrow> hrFingerprint a = trimSpace (cfgHostFingerprint (ldConfig l)))"
proof -
  obtain l where l: "ResolveRequired (apConfig env) cwd (xpConfigPath p) = Inr l" using assms by (auto simp: RunExec_def split: sum.splits)
  let ?cfg = "WithDefaults (ldConfig l)"
  obtain f1 target r cert key where ch: "chooseHost env ?cfg (xpOverride p) (xpTimeout p) f = (f1, Inr (target, r, cert, key))"
      and plan: "epHost plan = r" "epCert plan = cert" "epKey plan = key" "exFingerprint (epOptions plan) = hrFingerprint r"
    using assms l by (auto simp: RunExec_def Let_def andThen_Inr_iff split: sum.splits prod.splits)
  have pin: "cfgHostFingerprint ?cfg = cfgHostFingerprint (ldConfig l)" by (simp add: WithDefaults_def normalizeConfig_def)
  note k = chooseHost_facts [OF ch]
  then obtain s a where s: "LoadState (apMade env) f = Inr s" "a \<in> set (clHosts s)" "sameHost a r" by blast
  have "hrPaired a = hrPaired r \<and> hrFingerprint a = hrFingerprint r" using s(3) by (metis sameHost_def hostRecord.select_convs(4,5) hostRecord.surjective hostRecord.update_convs(1))
  then show ?thesis using k s l plan pin unfolding sameHost_def by (intro exI [of _ l] exI [of _ s] exI [of _ a]) simp
qed

lemma saved: "SaveState made wo s f = (f', Inr u) \<Longrightarrow> made \<and> f' = Stored s"
  by (auto simp: SaveState_def split: if_splits dest: writeJSON_ok)

text \<open>What pairing stores, also when only the end of the write fails, and what it returns.\<close>

definition pairingStores :: "'a pairEnv_scheme \<Rightarrow> hostFound \<Rightarrow> clientMemory jsonFile \<Rightarrow> clientMemory jsonFile \<Rightarrow> hostRecord \<Rightarrow> bool" where
  "pairingStores env r f f' record \<longleftrightarrow>
     (\<exists>s0 s resp key code label previous csr. LoadState (apMade env) f = Inr s0 \<and> clHosts s = clHosts s0
        \<and> pePair env (pairRemoteHost r) code label previous csr = Some resp
        \<and> record = pairedHostRecord r resp key \<and> f' = Stored (UpsertHost record s))"

lemma completePair_state:
  assumes "completePair env r p input f = (f', res)"
  shows "(f' = f \<or> (\<exists>record. pairingStores env r f f' record)) \<and> (\<forall>record. res = Inr record \<longrightarrow> pairingStores env r f f' record)"
proof (cases "LoadState (apMade env) f")
  case (Inl e)
  then show ?thesis using assms by (auto simp: completePair_def)
next
  case s0: (Inr s0)
  define s where "s = (if trimSpace (clLabel s0) = [] then s0\<lparr>clLabel := DefaultClientLabel (peHostname env)\<rparr> else s0)"
  define label where "label = (if trimSpace (ppLabel p) = [] then clLabel s else trimSpace (ppLabel p))"
  have h: "clHosts (s\<lparr>clLabel := label\<rparr>) = clHosts s0" by (simp add: s_def)
  note un = completePair_def Let_def s_def [symmetric] label_def [symmetric]
  show ?thesis
  proof (cases "\<exists>csr key code resp. ensurePairCSR env (pairClientKey s r (existingPairRecord s r)) label = Inr (csr, key)
      \<and> snd (resolvePairCode env p r label input) = Inr code
      \<and> pePair env (pairRemoteHost r) code label (previousPairFingerprint (pePrint env) (existingPairRecord s r)) csr = Some resp")
    case False
    then have "f' = f \<and> (\<forall>record. res \<noteq> Inr record)" using assms s0 by (auto simp: un split: sum.splits option.splits)
    then show ?thesis by simp
  next
    case True
    then obtain csr key code resp where k: "ensurePairCSR env (pairClientKey s r (existingPairRecord s r)) label = Inr (csr, key)"
      "snd (resolvePairCode env p r label input) = Inr code"
      "pePair env (pairRemoteHost r) code label (previousPairFingerprint (pePrint env) (existingPairRecord s r)) csr = Some resp" by blast
    let ?rec = "pairedHostRecord r resp key"
    obtain f1 w where sv: "SaveState (apMade env) (apSave env) (UpsertHost ?rec (s\<lparr>clLabel := label\<rparr>)) f = (f1, w)" by fastforce
    have st: "pairingStores env r f (Stored (UpsertHost ?rec (s\<lparr>clLabel := label\<rparr>))) ?rec"
      unfolding pairingStores_def using s0 h k(3) by blast
    have res: "f' = f1 \<and> (\<forall>record. res = Inr record \<longrightarrow> record = ?rec \<and> w = Inr ())"
      using assms s0 k sv by (cases w) (auto simp: un)
    have "f1 = f \<or> f1 = Stored (UpsertHost ?rec (s\<lparr>clLabel := label\<rparr>))"
      using sv by (auto simp: SaveState_def split: if_splits dest: writeJSON_old_or_new)
    then show ?thesis using st res saved sv by blast
  qed
qed

lemma completePair_facts:
  assumes "completePair env r p input f = (f', Inr record)"
  shows "\<exists>s0 s resp key. LoadState (apMade env) f = Inr s0 \<and> clHosts s = clHosts s0 \<and> record = pairedHostRecord r resp key
    \<and> f' = Stored (UpsertHost record s)"
proof -
  have "pairingStores env r f f' record" using completePair_state [OF assms] by blast
  then show ?thesis unfolding pairingStores_def by blast
qed

lemma chooseResult_member: "chooseResult env p results input = (i, Inr r) \<Longrightarrow> results \<noteq> [] \<Longrightarrow> r \<in> set results"
  by (auto simp: chooseResult_def split: if_splits prod.splits sum.splits)

lemma pairTarget_print:
  assumes "resolvePairTarget env cfg p input = (i, Inr r)"
  shows "trimSpace (hfFingerprint r) = (if trimSpace (ppFingerprint p) = [] then trimSpace (cfgHostFingerprint cfg) else trimSpace (ppFingerprint p))
    \<and> trimSpace (hfFingerprint r) \<noteq> []"
proof -
  let ?fp = "if trimSpace (ppFingerprint p) = [] then trimSpace (cfgHostFingerprint cfg) else trimSpace (ppFingerprint p)"
  have ne: "?fp \<noteq> []" using assms by (auto simp: resolvePairTarget_def)
  have tr: "trimSpace ?fp = ?fp" by simp
  show ?thesis
  proof (cases "trimSpace (ppOverride p) \<noteq> [] \<or> trimSpace (cfgHost cfg) \<noteq> []")
    case True
    then have "hfFingerprint r = ?fp" using assms ne by (auto simp: resolvePairTarget_def Let_def manualHost_def split: if_splits)
    then show ?thesis using ne tr by simp
  next
    case False
    then obtain results where m: "chooseResult env p (filter (\<lambda>r. trimSpace (hfFingerprint r) = ?fp) results) input = (i, Inr r)"
        "filter (\<lambda>r. trimSpace (hfFingerprint r) = ?fp) results \<noteq> []"
      using assms ne by (auto simp: resolvePairTarget_def Let_def split: sum.splits if_splits)
    from chooseResult_member [OF this] show ?thesis using ne by simp
  qed
qed


text \<open>The stages of \<open>rmtx init\<close>: it ends before the user has agreed, or goes on with the host shown.\<close>

lemma RunInit_stages:
  assumes run: "RunInit env wo cwd p input (f, cf) = ((f', cf'), shown, r)"
  obtains "f' = f \<and> cf' = cf \<and> \<not> isOk r"
    | path i t i2 q where "resolveInitConfigPath (appEnv.truncate env) cwd (ppConfigPath p) = Inr path"
      "resolveInitTarget env (WithDefaults DefaultConfig) p input = (i, Inr t)" "promptForTrust t i = (i2, q, Inr ())"
proof (cases "resolveInitConfigPath (appEnv.truncate env) cwd (ppConfigPath p)")
  case (Inl e)
  then show ?thesis using run by (intro that(1)) (auto simp: RunInit_def)
next
  case path: (Inr path)
  obtain i tr where tr: "resolveInitTarget env (WithDefaults DefaultConfig) p input = (i, tr)" by fastforce
  show ?thesis
  proof (cases tr)
    case (Inl e)
    then show ?thesis using run path tr by (intro that(1)) (auto simp: RunInit_def)
  next
    case (Inr t)
    obtain i2 q a where q: "promptForTrust t i = (i2, q, a)" by (metis prod_cases3)
    show ?thesis
    proof (cases a)
      case (Inl e)
      then show ?thesis using run path tr Inr q by (intro that(1)) (auto simp: RunInit_def)
    next
      case ok: (Inr u)
      then show ?thesis using that(2) path tr Inr q by simp
    qed
  qed
qed

text \<open>
  C40. \<open>rmtx init\<close> changes nothing, or the user was shown the address and fingerprint of a host and
  answered yes: then all that changes in the client's state is the record of a pairing with that
  very host, and all the new configuration can pin is its fingerprint. When the command succeeds
  it has paired with that host and pinned it, and the host is found by its fingerprint.
\<close>

theorem init_pins_trusted_host:
  assumes "RunInit env wo cwd p input (f, cf) = ((f', cf'), shown, r)" and "\<forall>s. LoadState (apMade env) f = Inr s \<longrightarrow> hostsOk s"
  shows "f' = f \<and> cf' = cf \<and> \<not> isOk r
    \<or> (\<exists>i t rest line name. resolveInitTarget env (WithDefaults DefaultConfig) p input = (i, Inr t)
        \<and> shown = Some (''Trust host '' @ name @ '' '' @ hfAddress t @ '' '' @ hfFingerprint t @ ''? [y/N]: '')
        \<and> readPairLine i = (rest, Inr line) \<and> map lowerByte (trimSpace line) \<in> {''y'', ''yes''}
        \<and> (f' = f \<or> (\<exists>record. pairingStores env t f f' record))
        \<and> (cf' = cf \<or> (\<exists>c. cf' = Stored c \<and> cfgHostFingerprint c = trimSpace (hfFingerprint t)))
        \<and> (case r of
             Inl e \<Rightarrow> True
           | Inr (path, record) \<Rightarrow> hrAddress record = hfAddress t \<and> hrFingerprint record = hfFingerprint t
               \<and> pairingStores env t f f' record
               \<and> (\<exists>c. cf' = Stored c \<and> cfgHostFingerprint c = trimSpace (hfFingerprint t))
               \<and> (trimSpace (hfFingerprint t) \<noteq> [] \<longrightarrow>
                   (\<exists>s x. f' = Stored s \<and> FindHostByFingerprint (hfFingerprint t) s = Some x \<and> hrPaired x))))"
proof (rule RunInit_stages [OF assms(1)])
  assume "f' = f \<and> cf' = cf \<and> \<not> isOk r"
  then show ?thesis by (rule disjI1)
next
  fix path i t i2 q
  assume t: "resolveInitConfigPath (appEnv.truncate env) cwd (ppConfigPath p) = Inr path"
      "resolveInitTarget env (WithDefaults DefaultConfig) p input = (i, Inr t)" "promptForTrust t i = (i2, q, Inr ())"
  obtain f1 cr where c: "completePair env t p i2 f = (f1, cr)" by fastforce
  obtain cf1 wr where w: "writeInitConfig (appEnv.truncate env) wo path cwd (hfFingerprint t)
      (if trimSpace (ppOverride p) \<noteq> [] then hfAddress t else []) cf = (cf1, wr)" by fastforce
  have run: "shown = Some q" "f' = f1" "cf' = cf \<or> cf' = cf1"
      "\<forall>pr. r = Inr pr \<longrightarrow> cr = Inr (snd pr) \<and> cf' = cf1 \<and> wr = Inr ()"
    using assms(1) t c w by (auto simp: RunInit_def split: sum.splits)
  note st = completePair_state [OF c]
  have pin: "cf1 = cf \<or> (\<exists>d. cf1 = Stored d \<and> cfgHostFingerprint d = trimSpace (hfFingerprint t))"
      "wr = Inr () \<Longrightarrow> \<exists>d. cf1 = Stored d \<and> cfgHostFingerprint d = trimSpace (hfFingerprint t)"
    using w by (auto simp: writeInitConfig_def initConfig_def split: if_splits prod.splits sum.splits dest: writeJSON_old_or_new writeJSON_ok)
  obtain rest line where line: "readPairLine i = (rest, Inr line)" "map lowerByte (trimSpace line) \<in> {''y'', ''yes''}"
      "q = ''Trust host '' @ emptyOr (hfInstance t) ''rmtx-host'' @ '' '' @ hfAddress t @ '' '' @ hfFingerprint t @ ''? [y/N]: ''"
    using t(3) by (auto simp: promptForTrust_def Let_def split: prod.splits sum.splits if_splits)
  have good: "hrAddress rec = hfAddress t \<and> hrFingerprint rec = hfFingerprint t
       \<and> (trimSpace (hfFingerprint t) \<noteq> [] \<longrightarrow> (\<exists>s x. f1 = Stored s \<and> FindHostByFingerprint (hfFingerprint t) s = Some x \<and> hrPaired x))"
    if stores: "pairingStores env t f f1 rec" for rec
  proof -
    obtain s0 s resp key where k: "LoadState (apMade env) f = Inr s0" "clHosts s = clHosts s0" "rec = pairedHostRecord t resp key"
        "f1 = Stored (UpsertHost rec s)" using stores unfolding pairingStores_def by blast
    have fp: "hrAddress rec = hfAddress t" "hrFingerprint rec = hfFingerprint t" "hrPaired rec"
      by (simp_all add: k(3) pairedHostRecord_def)
    have "hostsOk s" using assms(2) k(1,2) by (simp add: hostsOk_def)
    then show ?thesis using paired_host_saved [of s rec] k(4) fp by auto
  qed
  have end_: "case r of Inl e \<Rightarrow> True | Inr (path, record) \<Rightarrow> hrAddress record = hfAddress t \<and> hrFingerprint record = hfFingerprint t
         \<and> pairingStores env t f f' record \<and> (\<exists>c. cf' = Stored c \<and> cfgHostFingerprint c = trimSpace (hfFingerprint t))
         \<and> (trimSpace (hfFingerprint t) \<noteq> [] \<longrightarrow>
             (\<exists>s x. f' = Stored s \<and> FindHostByFingerprint (hfFingerprint t) s = Some x \<and> hrPaired x))"
  proof (cases r)
    case (Inr pr)
    then have "cr = Inr (snd pr)" "cf' = cf1" "wr = Inr ()" using run(4) by auto
    moreover have stored: "pairingStores env t f f1 (snd pr)" using st \<open>cr = Inr (snd pr)\<close> by blast
    ultimately show ?thesis using Inr run(2) pin(2) good [OF stored] by (auto split: prod.splits)
  qed simp
  have config: "cf' = cf \<or> (\<exists>c. cf' = Stored c \<and> cfgHostFingerprint c = trimSpace (hfFingerprint t))" using run(3) pin(1) by blast
  have state: "f' = f \<or> (\<exists>record. pairingStores env t f f' record)" using st run(2) by simp
  have question: "shown = Some (''Trust host '' @ emptyOr (hfInstance t) ''rmtx-host'' @ '' '' @ hfAddress t @ '' '' @ hfFingerprint t @ ''? [y/N]: '')"
    using run(1) line(3) by (simp only:)
  show ?thesis
    by (rule disjI2, rule exI [of _ i], rule exI [of _ t], rule exI [of _ rest], rule exI [of _ line],
        rule exI [of _ "emptyOr (hfInstance t) ''rmtx-host''"])
      (intro conjI; fact t(2) question line(1) line(2) state config end_)
qed

section \<open>Witnesses\<close>

definition homeConfig :: configEnv where
  "homeConfig = \<lparr>ceParseDuration = (\<lambda>s. Some 750000000), ceCwd = ''/p'',
     ceRead = (\<lambda>p. if p = ''/p/.rmtx.json'' then Stored (DefaultConfig\<lparr>cfgHost := ''h:1'', cfgHostFingerprint := ''f1''\<rparr>) else Missing),
     ceStat = (\<lambda>p. if p = ''/p/.rmtx.json'' then StatOk else StatNotExist)\<rparr>"

definition homeApp :: appEnv where
  "homeApp = \<lparr>apConfig = homeConfig, apHostVar = [], apOne = \<lambda>s d. Inl NoHostDiscovered, apAll = \<lambda>s d. Inr [], apMade = True,
     apSave = WriteOk, apSha = \<lambda>x. ''0123456789ab''\<rparr>"

definition homeExec :: execParams where
  "homeExec = \<lparr>xpOverride = [], xpConfigPath = ''/p/.rmtx.json'', xpTimeout = 0, xpCommand = [''make''], xpForward = False, xpStdin = CharDevice True,
     xpStdout = PlainFile, xpTTY = TTYAuto, xpKeep = 0, xpReuse = []\<rparr>"

lemma homeConfig_loads: "\<exists>l. loadIn homeConfig ''/p/.rmtx.json'' = Inr l \<and> cfgHost (ldConfig l) = ''h:1'' \<and> cfgHostFingerprint (ldConfig l) = ''f1''
    \<and> \<not> cfgIgnoreGitignore (ldConfig l)"
proof -
  have p: "absPath ''/p'' ''/p/.rmtx.json'' = ''/p/.rmtx.json''" by code_simp
  have t: "trimSpace ''750ms'' \<noteq> []" "trimSpace DefaultService \<noteq> []" by code_simp+
  have v: "ValidateRuntime (normalizeRuntime noRuntime) = Inr ()" by code_simp
  show ?thesis using v by (simp add: loadIn_def Load_def homeConfig_def p normalizeConfig_def DefaultConfig_def orDefault_def t Let_def)
qed

lemma homeHost_found: "case resolveClientHost homeApp ''h:1'' ''f1'' (Stored twoHosts) of
    (f, Inr (s, Some r)) \<Rightarrow> hrPaired r \<and> hrFingerprint r = ''f1'' \<and> HostCredentials ''h:1'' ''f1'' s = (''certf1'', ''keyf1'') | _ \<Rightarrow> False"
  by code_simp

lemma homeExec_ok: "\<exists>f' plan. RunExec homeApp (\<lambda>_. Missing) ''/p'' homeExec (Stored twoHosts) = (f', Inr plan)"
proof -
  obtain l where l: "loadIn homeConfig ''/p/.rmtx.json'' = Inr l" "cfgHost (ldConfig l) = ''h:1''" "cfgHostFingerprint (ldConfig l) = ''f1''"
      "\<not> cfgIgnoreGitignore (ldConfig l)"
    using homeConfig_loads by blast
  have t: "trimSpace ''/p/.rmtx.json'' \<noteq> []" "trimSpace ''f1'' = ''f1''" "trimSpace ''h:1'' = ''h:1''" "trimSpace ''certf1'' \<noteq> []"
      "trimSpace ''keyf1'' \<noteq> []" "NormalizeAddress ''h:1'' DefaultPort = ''h:1''" "trimSpace [] = []" by code_simp+
  have res: "ResolveRequired (apConfig homeApp) ''/p'' (xpConfigPath homeExec) = Inr l"
    using l(1) t(1) by (simp add: ResolveRequired_def loadExplicitOrSearch_def homeApp_def homeExec_def)
  let ?cfg = "WithDefaults (ldConfig l)"
  have c: "cfgHost ?cfg = ''h:1''" "cfgHostFingerprint ?cfg = ''f1''" "\<not> cfgIgnoreGitignore ?cfg"
    using l by (simp_all add: WithDefaults_def normalizeConfig_def)
  have target: "resolveRemoteHost homeApp s ?cfg [] 0 = Inr \<lparr>rhAddress = ''h:1'', rhService = dcService (cfgDiscovery ?cfg), rhFingerprint = ''f1''\<rparr>" for s
    using c t by (simp add: resolveRemoteHost_def homeApp_def Let_def)
  obtain f x where q: "resolveClientHost homeApp ''h:1'' ''f1'' (Stored twoHosts) = (f, x)" by fastforce
  obtain s y where x: "x = Inr (s, y)" using homeHost_found q by (cases x) auto
  obtain r where y: "y = Some r" using homeHost_found q x by (cases y) auto
  have r: "resolveClientHost homeApp ''h:1'' ''f1'' (Stored twoHosts) = (f, Inr (s, Some r))" "hrPaired r" "hrFingerprint r = ''f1''"
      "HostCredentials ''h:1'' ''f1'' s = (''certf1'', ''keyf1'')"
    using homeHost_found q x y by simp_all
  have "chooseHost homeApp ?cfg [] 0 (Stored twoHosts) = (f, Inr (\<lparr>rhAddress = ''h:1'', rhService = dcService (cfgDiscovery ?cfg), rhFingerprint = ''f1''\<rparr>,
      r, ''certf1'', ''keyf1''))"
    using target r c t by (simp add: chooseHost_def pairedHost_def Let_def)
  then show ?thesis using res c by (simp add: RunExec_def Let_def homeExec_def resolveTTY_def buildMountSpecs_def)
qed

lemma exec_only_on_paired_host_witness:
  "\<exists>plan. snd (RunExec homeApp (\<lambda>_. Missing) ''/p'' homeExec (Stored twoHosts)) = Inr plan \<and> trimSpace (epCert plan) \<noteq> []
     \<and> exFingerprint (epOptions plan) = hrFingerprint (epHost plan)"
proof -
  obtain f' plan where r: "RunExec homeApp (\<lambda>_. Missing) ''/p'' homeExec (Stored twoHosts) = (f', Inr plan)" using homeExec_ok by blast
  obtain a where a: "epHost plan = a\<lparr>hrAddress := hrAddress (epHost plan)\<rparr>" "trimSpace (epCert plan) \<noteq> []"
      "exFingerprint (epOptions plan) = hrFingerprint a"
    using exec_only_on_paired_host [OF r] by blast
  have "hrFingerprint (epHost plan) = hrFingerprint a" by (subst a(1)) simp
  then show ?thesis using r a(2,3) by simp
qed

definition homePair :: pairEnv where
  "homePair = appEnv.extend homeApp \<lparr>peHostname = Some ''me'', peCode = \<lambda>h l. True,
     pePair = \<lambda>h code l p csr. if code = ''123'' then Some (''cert'', ''cf'') else None, peNewKey = \<lambda>l. Some (''key'', ''csr''),
     peCSR = \<lambda>k l. Some ''csr'', pePrint = \<lambda>c. None, peScan = \<lambda>l. None\<rparr>"

definition pairHere :: pairParams where
  "pairHere = \<lparr>ppOverride = ''h:1'', ppFingerprint = ''f1'', ppConfigPath = [], ppTimeout = 0, ppCode = [], ppLabel = [], ppSelection = 0\<rparr>"

lemma homePair_ok: "case RunPair homePair ''/q'' pairHere (''123'' @ [CHR 0x0A], False) Missing of
    (f', Inr hr) \<Rightarrow> hrCertPEM hr = ''cert'' \<and> hrKeyPEM hr = ''key'' \<and> hrFingerprint hr = ''f1'' | _ \<Rightarrow> False"
  by code_simp


definition initHere :: pairParams where
  "initHere = pairHere\<lparr>ppConfigPath := ''/q/rmtx.json'', ppCode := ''123''\<rparr>"

lemma init_pins_trusted_host_witness:
  "case RunInit homePair WriteOk ''/q'' initHere (''Yes'' @ [CHR 0x0A], False) (Missing, Missing) of
     ((f', Stored c), shown, Inr x) \<Rightarrow> cfgHostFingerprint c = ''f1'' \<and> hrAddress (snd x) = ''h:1'' | _ \<Rightarrow> False"
proof -
  let ?r = "RunInit homePair WriteOk ''/q'' initHere (''Yes'' @ [CHR 0x0A], False) (Missing, Missing)"
  have "case ?r of ((f', cf'), shown, Inr (path, hr)) \<Rightarrow> shown = Some ''Trust host manual-host h:1 f1? [y/N]: '' | _ \<Rightarrow> False" by code_simp
  then obtain f' cf' path hr where r: "?r = ((f', cf'), Some ''Trust host manual-host h:1 f1? [y/N]: '', Inr (path, hr))"
    by (auto split: prod.splits sum.splits)
  have ok: "\<forall>s. LoadState (apMade homePair) Missing = Inr s \<longrightarrow> hostsOk s"
    by (simp add: LoadState_def readJSON_def emptyMemory_def hostsOk_def hostPrints_def)
  have "case resolveInitTarget homePair (WithDefaults DefaultConfig) initHere (''Yes'' @ [CHR 0x0A], False) of
      (i, Inr t) \<Rightarrow> trimSpace (hfFingerprint t) = ''f1'' \<and> hfAddress t = ''h:1'' | _ \<Rightarrow> False" by code_simp
  then show ?thesis using init_pins_trusted_host [OF r ok] r by (auto split: prod.splits)
qed

text \<open>
  The refused update of \<open>ClientState\<close> seen from a command: the project pins the first host, which
  is paired and found, but the record without a fingerprint that stood before it is removed, so
  that the pointer is to the next host by then, and the command ends with a mismatch.
\<close>

lemma refused_update_hides_host:
  "snd (chooseHost homeApp (DefaultConfig\<lparr>cfgHostFingerprint := ''f1''\<rparr>) ''a:1'' 0
     (Stored (emptyMemory\<lparr>clHosts := [hostAt ''a:1'' [], hostAt ''n:1'' ''f1'', hostAt ''a:1'' ''f2'']\<rparr>)))
   = Inl (PinMismatch ''f1'' ''f2'')"
  by code_simp

text \<open>An anchored name of a .gitignore, for the root of the project only, is excluded everywhere.\<close>

lemma anchored_ignore_spreads: "gitignoreLineToExclude ''/build'' = Some ''**/build''"
  by code_simp
end
