(* ===== verification/Frames.thy ===== *)
theory Frames
  imports Prelude "HOL-Library.Word" "HOL-Library.Sublist"
begin

text \<open>
  The frames of a connection (protocol/frame.go): the length of a JSON header in four bytes, the
  header, and a payload. \<open>encoding/json\<close> is a pair of arguments. A writer is what the connection
  took and what the buffer still holds; when the buffer passes bytes on, and whether the
  connection then breaks, is the environment's choice. A reader is the bytes that will still come.
\<close>

definition MaxFrameHeaderSize :: int where "MaxFrameHeaderSize = 8 * 2 ^ 20"
definition MaxFramePayloadSize :: int where "MaxFramePayloadSize = 64 * 2 ^ 20"

record frameHeader =
  hdType :: string
  hdPayloadLen :: int
  hdData :: string

datatype frameError =
    FmNoType | FmPayloadLen int | FmMarshal | FmHeaderLen int | FmWrite | FmLenMismatch int int | FmUnsupported | FmSourceEOF
  | FmEOF | FmUnexpectedEOF | FmDecode

text \<open>The bytes of a big-endian word.\<close>

definition putUint32 :: "32 word \<Rightarrow> string" where
  "putUint32 w = map (\<lambda>i. char_of (unat (drop_bit i w) mod 256)) [24, 16, 8, 0]"

definition getUint32 :: "string \<Rightarrow> 32 word" where
  "getUint32 s = foldl (\<lambda>w c. push_bit 8 w + of_nat (of_char c)) 0 s"

section \<open>Writing\<close>

record frameWriter =
  fwWire :: string
  fwHeld :: string
  fwBroken :: bool

definition newWriter :: frameWriter where
  "newWriter = \<lparr>fwWire = [], fwHeld = [], fwBroken = False\<rparr>"

text \<open>How many bytes are passed on, and whether the connection breaks after them.\<close>

type_synonym passOn = "nat \<times> bool"

definition bufWrite :: "passOn \<Rightarrow> string \<Rightarrow> frameWriter \<Rightarrow> frameWriter \<times> (frameError + unit)" where
  "bufWrite env p w =
     (if fwBroken w then (w, Inl FmWrite)
      else let all = fwHeld w @ p; k = fst env in
        (w\<lparr>fwWire := fwWire w @ take k all, fwHeld := drop k all, fwBroken := snd env\<rparr>, if snd env then Inl FmWrite else Inr ()))"

definition bufFlush :: "passOn \<Rightarrow> frameWriter \<Rightarrow> frameWriter \<times> (frameError + unit)" where
  "bufFlush env w =
     (if fwBroken w then (w, Inl FmWrite)
      else if fwHeld w = [] then (w, Inr ())
      else if snd env then (w\<lparr>fwWire := fwWire w @ take (fst env) (fwHeld w), fwHeld := drop (fst env) (fwHeld w), fwBroken := True\<rparr>, Inl FmWrite)
      else (w\<lparr>fwWire := fwWire w @ fwHeld w, fwHeld := []\<rparr>, Inr ()))"

text \<open>A reader is the bytes it can give.\<close>

datatype payloadSource = NoPayload | PayloadBytes string | PayloadReader string

definition writePayload :: "passOn \<Rightarrow> payloadSource \<Rightarrow> int \<Rightarrow> frameWriter \<Rightarrow> frameWriter \<times> (frameError + unit)" where
  "writePayload env src n w =
     (case src of
        PayloadBytes v \<Rightarrow> if int (length v) \<noteq> n then (w, Inl (FmLenMismatch (int (length v)) n)) else bufWrite env v w
      | PayloadReader v \<Rightarrow>
          (case bufWrite env (take (nat n) v) w of
             (w', Inl e) \<Rightarrow> (w', Inl e)
           | (w', Inr _) \<Rightarrow> (w', if int (length v) < n then Inl FmSourceEOF else Inr ()))
      | NoPayload \<Rightarrow> (w, Inl FmUnsupported))"

record frameEnv =
  feSize :: passOn
  feHeader :: passOn
  fePayload :: passOn
  feFlush :: passOn

text \<open>
  \<open>payload\<close>: nothing, or what marshalling the data gives. \<open>enc\<close> marshals a header.
\<close>

definition writeLocked ::
  "(frameHeader \<Rightarrow> string option) \<Rightarrow> frameEnv \<Rightarrow> string \<Rightarrow> string option option \<Rightarrow> payloadSource \<Rightarrow> int \<Rightarrow> frameWriter \<Rightarrow>
   frameWriter \<times> (frameError + unit)" where
  "writeLocked enc env msgType payload src n w =
     (if msgType = [] then (w, Inl FmNoType)
      else if n < 0 \<or> MaxFramePayloadSize < n then (w, Inl (FmPayloadLen n))
      else (case (case payload of None \<Rightarrow> Some [] | Some m \<Rightarrow> m) of
        None \<Rightarrow> (w, Inl FmMarshal)
      | Some raw \<Rightarrow>
          (case enc \<lparr>hdType = msgType, hdPayloadLen = n, hdData = raw\<rparr> of
             None \<Rightarrow> (w, Inl FmMarshal)
           | Some encoded \<Rightarrow>
               if encoded = [] \<or> MaxFrameHeaderSize < int (length encoded) then (w, Inl (FmHeaderLen (int (length encoded))))
               else (case bufWrite (feSize env) (putUint32 (of_nat (length encoded))) w of
                 (w1, Inl e) \<Rightarrow> (w1, Inl e)
               | (w1, Inr _) \<Rightarrow>
                   (case bufWrite (feHeader env) encoded w1 of
                      (w2, Inl e) \<Rightarrow> (w2, Inl e)
                    | (w2, Inr _) \<Rightarrow>
                        (case (if 0 < n then writePayload (fePayload env) src n w2 else (w2, Inr ())) of
                           (w3, Inl e) \<Rightarrow> (w3, Inl e)
                         | (w3, Inr _) \<Rightarrow> bufFlush (feFlush env) w3))))))"

definition WriteJSON ::
  "(frameHeader \<Rightarrow> string option) \<Rightarrow> frameEnv \<Rightarrow> string \<Rightarrow> string option option \<Rightarrow> frameWriter \<Rightarrow> frameWriter \<times> (frameError + unit)" where
  "WriteJSON enc env msgType payload = writeLocked enc env msgType payload NoPayload 0"

definition WriteBytes ::
  "(frameHeader \<Rightarrow> string option) \<Rightarrow> frameEnv \<Rightarrow> string \<Rightarrow> string option option \<Rightarrow> string \<Rightarrow> frameWriter \<Rightarrow>
   frameWriter \<times> (frameError + unit)" where
  "WriteBytes enc env msgType payload bs = writeLocked enc env msgType payload (PayloadBytes bs) (int (length bs))"

definition WriteFrom ::
  "(frameHeader \<Rightarrow> string option) \<Rightarrow> frameEnv \<Rightarrow> string \<Rightarrow> string option option \<Rightarrow> string \<Rightarrow> int \<Rightarrow> frameWriter \<Rightarrow>
   frameWriter \<times> (frameError + unit)" where
  "WriteFrom enc env msgType payload src n = writeLocked enc env msgType payload (PayloadReader src) n"

section \<open>Reading\<close>

definition ReadHeader :: "(string \<Rightarrow> frameHeader option) \<Rightarrow> string \<Rightarrow> string \<times> (frameError + frameHeader)" where
  "ReadHeader dec s =
     (if s = [] then ([], Inl FmEOF)
      else if length s < 4 then ([], Inl FmUnexpectedEOF)
      else let size = getUint32 (take 4 s); s1 = drop 4 s; n = unat size in
        if size = 0 \<or> MaxFrameHeaderSize < int n then (s1, Inl (FmHeaderLen (int n)))
        else if s1 = [] then ([], Inl FmEOF)
        else if length s1 < n then ([], Inl FmUnexpectedEOF)
        else (case dec (take n s1) of
          None \<Rightarrow> (drop n s1, Inl FmDecode)
        | Some h \<Rightarrow>
            (drop n s1,
             if hdPayloadLen h < 0 \<or> MaxFramePayloadSize < hdPayloadLen h then Inl (FmPayloadLen (hdPayloadLen h))
             else if hdType h = [] then Inl FmNoType
             else Inr h)))"

text \<open>What the reader of the payload gives, and what is left after all of it.\<close>

definition PayloadReaderOf :: "frameHeader \<Rightarrow> string \<Rightarrow> string \<times> string" where
  "PayloadReaderOf h s = (take (nat (hdPayloadLen h)) s, drop (nat (hdPayloadLen h)) s)"

definition skipPayload :: "frameHeader \<Rightarrow> string \<Rightarrow> string \<times> (frameError + unit)" where
  "skipPayload h s =
     (if hdPayloadLen h = 0 then (s, Inr ())
      else (drop (nat (hdPayloadLen h)) s, if int (length s) < hdPayloadLen h then Inl FmEOF else Inr ()))"

definition DecodeData :: "(string \<Rightarrow> 'a option) \<Rightarrow> 'a \<Rightarrow> frameHeader \<Rightarrow> frameError + 'a" where
  "DecodeData unmarshal zero h =
     (if hdData h = [] then Inr zero else (case unmarshal (hdData h) of None \<Rightarrow> Inl FmDecode | Some x \<Rightarrow> Inr x))"

text \<open>A frame with all of its payload, and all frames up to the first error.\<close>

definition readFrame :: "(string \<Rightarrow> frameHeader option) \<Rightarrow> string \<Rightarrow> string \<times> (frameError + frameHeader \<times> string)" where
  "readFrame dec s =
     (case ReadHeader dec s of
        (s1, Inl e) \<Rightarrow> (s1, Inl e)
      | (s1, Inr h) \<Rightarrow>
          (case skipPayload h s1 of
             (s2, Inl e) \<Rightarrow> (s2, Inl e)
           | (s2, Inr _) \<Rightarrow> (s2, Inr (h, fst (PayloadReaderOf h s1)))))"

lemma ReadHeader_shorter: "ReadHeader dec s = (s1, Inr h) \<Longrightarrow> length s1 < length s"
  by (auto simp: ReadHeader_def Let_def split: if_splits option.splits)

lemma readFrame_shorter: "readFrame dec s = (s1, Inr f) \<Longrightarrow> length s1 < length s"
  using ReadHeader_shorter by (fastforce simp: readFrame_def skipPayload_def split: prod.splits sum.splits if_splits)

function readFrames :: "(string \<Rightarrow> frameHeader option) \<Rightarrow> string \<Rightarrow> (frameHeader \<times> string) list \<times> frameError" where
  "readFrames dec s =
     (case readFrame dec s of
        (s1, Inl e) \<Rightarrow> ([], e)
      | (s1, Inr f) \<Rightarrow> (case readFrames dec s1 of (fs, e) \<Rightarrow> (f # fs, e)))"
  by pat_completeness auto
termination
  by (relation "measure (\<lambda>(dec, s). length s)") (auto dest!: readFrame_shorter [OF sym])

declare readFrames.simps [simp del]

section \<open>Facts about one frame\<close>

lemma char_of_mod [simp]: "(of_char (char_of (n mod 256 :: nat) :: char) :: nat) = n mod 256"
  by simp

lemma digits256: fixes n :: nat shows "((n div 2 ^ 24 * 256 + n div 2 ^ 16 mod 256) * 256 + n div 2 ^ 8 mod 256) * 256 + n mod 256 = n"
proof -
  have s: "m div 256 * 256 + m mod 256 = m" for m :: nat by simp
  have d: "n div 2 ^ 16 = n div 2 ^ 8 div 256" "n div 2 ^ 24 = n div 2 ^ 16 div 256" by (simp_all flip: div_mult2_eq)
  have 1: "n div 2 ^ 24 * 256 + n div 2 ^ 16 mod 256 = n div 2 ^ 16" unfolding d(2) by (rule s)
  have 2: "n div 2 ^ 16 * 256 + n div 2 ^ 8 mod 256 = n div 2 ^ 8" unfolding d(1) by (rule s)
  have 3: "n div 2 ^ 8 * 256 + n mod 256 = n" using s [of n] by simp
  show ?thesis unfolding 1 2 3 ..
qed

lemma getUint32_nat: "getUint32 s = of_nat (foldl (\<lambda>a c. a * 256 + of_char c) 0 s)"
proof -
  have "foldl (\<lambda>w c. push_bit 8 w + of_nat (of_char c)) (of_nat a :: 32 word) s = of_nat (foldl (\<lambda>a c. a * 256 + of_char c) a s)" for a
  proof (induction s arbitrary: a)
    case (Cons c s)
    have "push_bit 8 (of_nat a :: 32 word) + of_nat (of_char c) = of_nat (a * 256 + of_char c)" by (simp add: push_bit_eq_mult)
    then show ?case using Cons by (simp del: of_nat_add of_nat_mult)
  qed simp
  from this [of 0] show ?thesis by (simp add: getUint32_def)
qed

lemma putUint32_nat: "putUint32 w = map (\<lambda>k. char_of (unat w div 2 ^ k mod 256)) [24, 16, 8, 0]"
  by (simp add: putUint32_def unat_drop_bit_eq drop_bit_eq_div [where 'a = nat])

lemma getUint32_put: "getUint32 (putUint32 w) = w"
proof -
  have "unat w < 2 ^ 32" using unsigned_less [of w] by simp
  then have "unat w div 2 ^ 24 mod 256 = unat w div 2 ^ 24" by simp
  with digits256 [of "unat w"] have "foldl (\<lambda>a c. a * 256 + of_char c) 0 (putUint32 w) = unat w"
    by (simp add: putUint32_nat)
  then show ?thesis by (simp add: getUint32_nat)
qed

lemma length_putUint32 [simp]: "length (putUint32 w) = 4"
  by (simp add: putUint32_def)

text \<open>The bytes of a frame on the wire.\<close>

definition frameBytes :: "string \<Rightarrow> string \<Rightarrow> string" where
  "frameBytes encoded payload = putUint32 (of_nat (length encoded)) @ encoded @ payload"

definition headerFits :: "string \<Rightarrow> bool" where
  "headerFits encoded \<longleftrightarrow> encoded \<noteq> [] \<and> int (length encoded) \<le> MaxFrameHeaderSize"

definition headerSound :: "frameHeader \<Rightarrow> bool" where
  "headerSound h \<longleftrightarrow> 0 \<le> hdPayloadLen h \<and> hdPayloadLen h \<le> MaxFramePayloadSize \<and> hdType h \<noteq> []"

lemma size_back: "headerFits encoded \<Longrightarrow> unat (of_nat (length encoded) :: 32 word) = length encoded"
  by (simp add: headerFits_def MaxFrameHeaderSize_def unat_of_nat take_bit_nat_eq_self)

lemma size_nonzero:
  assumes "headerFits encoded"
  shows "(of_nat (length encoded) :: 32 word) \<noteq> 0"
proof
  assume "(of_nat (length encoded) :: 32 word) = 0"
  then have "unat (of_nat (length encoded) :: 32 word) = 0" by simp
  then show False using size_back [OF assms] assms by (simp add: headerFits_def)
qed

lemma readFrame_frame:
  assumes "headerFits encoded" "dec encoded = Some h" "headerSound h" "int (length payload) = hdPayloadLen h"
  shows "readFrame dec (frameBytes encoded payload @ rest) = (rest, Inr (h, payload))"
proof -
  have n: "unat (getUint32 (putUint32 (of_nat (length encoded)))) = length encoded" "getUint32 (putUint32 (of_nat (length encoded))) \<noteq> 0"
    using size_back [OF assms(1)] size_nonzero [OF assms(1)] by (simp_all add: getUint32_put)
  have l: "length (putUint32 (of_nat (length encoded))) = 4" by simp
  obtain a as where a: "putUint32 (of_nat (length encoded)) = a # as" using l by (cases "putUint32 (of_nat (length encoded))") auto
  have h: "ReadHeader dec (frameBytes encoded payload @ rest) = (payload @ rest, Inr h)"
    using assms n l a unfolding ReadHeader_def frameBytes_def headerFits_def headerSound_def Let_def
    by (simp add: l [symmetric, unfolded a] del: length_putUint32)
  have "length payload = nat (hdPayloadLen h)" using assms(4) by linarith
  then show ?thesis using h assms(4) by (auto simp: readFrame_def skipPayload_def PayloadReaderOf_def)
qed

text \<open>A frame that is cut off is not read, and the reader knows it by the end.\<close>

lemma readFrame_cut:
  assumes "headerFits encoded" "dec encoded = Some h" "headerSound h" "int (length payload) = hdPayloadLen h"
    and k: "k < length (frameBytes encoded payload)"
  shows "\<exists>s1 e. readFrame dec (take k (frameBytes encoded payload)) = (s1, Inl e) \<and> e \<in> {FmEOF, FmUnexpectedEOF}"
proof -
  let ?l = "putUint32 (of_nat (length encoded)) :: string"
  have n: "unat (getUint32 ?l) = length encoded" "getUint32 ?l \<noteq> 0"
    using size_back [OF assms(1)] size_nonzero [OF assms(1)] by (simp_all add: getUint32_put)
  have l: "length ?l = 4" by simp
  show ?thesis
  proof (cases "k < 4 + length encoded")
    case True
    then have c: "take k (frameBytes encoded payload) = take k ?l @ take (k - 4) encoded" by (simp add: frameBytes_def)
    show ?thesis
    proof (cases "k < 4")
      case True
      then show ?thesis unfolding c by (simp add: readFrame_def ReadHeader_def Let_def)
    next
      case False
      then have t: "take k ?l = ?l" by simp
      obtain a as where a: "?l = a # as" using l by (cases ?l) auto
      have "ReadHeader dec (?l @ take (k - 4) encoded) = ([], Inl (if k = 4 then FmEOF else FmUnexpectedEOF))"
        using True False assms(1) n l a unfolding ReadHeader_def Let_def headerFits_def
        by (auto simp: l [symmetric, unfolded a] simp del: length_putUint32)
      then show ?thesis unfolding c t by (simp add: readFrame_def)
    qed
  next
    case False
    define m where "m = k - 4 - length encoded"
    have m: "m < length payload" using False k by (simp add: m_def frameBytes_def)
    have c: "take k (frameBytes encoded payload) = frameBytes encoded (take m payload)"
      using False by (simp add: frameBytes_def m_def)
    obtain a as where a: "?l = a # as" using l by (cases ?l) auto
    have h: "ReadHeader dec (frameBytes encoded (take m payload)) = (take m payload, Inr h)"
      using assms(1-3) n l a unfolding ReadHeader_def frameBytes_def headerFits_def headerSound_def Let_def
      by (simp add: l [symmetric, unfolded a] del: length_putUint32)
    show ?thesis using h m assms(4) unfolding c by (simp add: readFrame_def skipPayload_def)
  qed
qed

section \<open>Facts about the writer\<close>

lemma bufWrite_ok:
  "bufWrite env p w = (w', Inr u) \<Longrightarrow> fwWire w' @ fwHeld w' = fwWire w @ fwHeld w @ p \<and> \<not> fwBroken w'"
  by (cases "fwBroken w"; cases "snd env") (auto simp: bufWrite_def Let_def simp del: take_append drop_append)

lemma bufFlush_ok:
  "bufFlush env w = (w', Inr u) \<Longrightarrow> fwWire w' = fwWire w @ fwHeld w \<and> fwHeld w' = []  \<and> \<not> fwBroken w'"
  by (auto simp: bufFlush_def split: if_splits)

definition sourceBytes :: "payloadSource \<Rightarrow> int \<Rightarrow> string" where
  "sourceBytes src n = (if n \<le> 0 then [] else case src of NoPayload \<Rightarrow> [] | PayloadBytes v \<Rightarrow> v | PayloadReader v \<Rightarrow> take (nat n) v)"

lemma writePayload_ok:
  "writePayload env src n w = (w', Inr u) \<Longrightarrow> 0 < n \<Longrightarrow>
   fwWire w' @ fwHeld w' = fwWire w @ fwHeld w @ sourceBytes src n \<and> \<not> fwBroken w' \<and> int (length (sourceBytes src n)) = n"
  by (auto simp: writePayload_def sourceBytes_def split: payloadSource.splits if_splits prod.splits sum.splits dest!: bufWrite_ok)

text \<open>A frame that is written without an error is on the wire, whole.\<close>

lemma writeLocked_ok:
  assumes "writeLocked enc env msgType payload src n w = (w', Inr u)" "fwHeld w = []"
  shows "\<exists>raw encoded. (case payload of None \<Rightarrow> Some [] | Some m \<Rightarrow> m) = Some raw \<and> enc \<lparr>hdType = msgType, hdPayloadLen = n, hdData = raw\<rparr> = Some encoded
    \<and> headerFits encoded \<and> headerSound \<lparr>hdType = msgType, hdPayloadLen = n, hdData = raw\<rparr>
    \<and> int (length (sourceBytes src n)) = n \<and> fwWire w' = fwWire w @ frameBytes encoded (sourceBytes src n) \<and> fwHeld w' = []"
proof -
  obtain raw where raw: "(case payload of None \<Rightarrow> Some [] | Some m \<Rightarrow> m) = Some raw" and g: "msgType \<noteq> []" "\<not> (n < 0 \<or> MaxFramePayloadSize < n)"
    using assms(1) by (auto simp: writeLocked_def split: if_splits option.splits)
  obtain encoded where encd: "enc \<lparr>hdType = msgType, hdPayloadLen = n, hdData = raw\<rparr> = Some encoded"
      and fit: "\<not> (encoded = [] \<or> MaxFrameHeaderSize < int (length encoded))"
    using assms(1) raw g by (auto simp: writeLocked_def split: if_splits option.splits)
  obtain w1 r1 where b1: "bufWrite (feSize env) (putUint32 (of_nat (length encoded))) w = (w1, r1)" by fastforce
  obtain u1 where r1: "r1 = Inr u1" using assms(1) raw g encd fit b1 by (cases r1) (auto simp: writeLocked_def)
  obtain w2 r2 where b2: "bufWrite (feHeader env) encoded w1 = (w2, r2)" by fastforce
  obtain u2 where r2: "r2 = Inr u2" using assms(1) raw g encd fit b1 r1 b2 by (cases r2) (auto simp: writeLocked_def)
  obtain w3 r3 where b3: "(if 0 < n then writePayload (fePayload env) src n w2 else (w2, Inr ())) = (w3, r3)" by fastforce
  obtain u3 where r3: "r3 = Inr u3" using assms(1) raw g encd fit b1 r1 b2 r2 b3 by (cases r3) (auto simp: writeLocked_def)
  have b4: "bufFlush (feFlush env) w3 = (w', Inr u)"
    using assms(1) raw g encd fit b1 r1 b2 r2 b3 r3 by (simp add: writeLocked_def)
  have p: "fwWire w3 @ fwHeld w3 = fwWire w2 @ fwHeld w2 @ sourceBytes src n \<and> int (length (sourceBytes src n)) = n"
    using writePayload_ok [of "fePayload env" src n w2 w3 u3] b3 r3 g(2) by (auto simp: sourceBytes_def split: if_splits)
  have "fwWire w' = fwWire w @ frameBytes encoded (sourceBytes src n)"
    using bufFlush_ok [OF b4] p bufWrite_ok [OF b2 [unfolded r2]] bufWrite_ok [OF b1 [unfolded r1]] assms(2)
    by (metis append.assoc append_Nil frameBytes_def)
  then show ?thesis using raw encd fit g p bufFlush_ok [OF b4] by (auto simp: headerFits_def headerSound_def)
qed

section \<open>Properties\<close>

text \<open>What is written: the message, its payload as bytes, the source and the length.\<close>

record frameWrite =
  wrEnv :: frameEnv
  wrType :: string
  wrPayload :: "string option option"
  wrSource :: payloadSource
  wrLen :: int

definition writeOne :: "(frameHeader \<Rightarrow> string option) \<Rightarrow> frameWrite \<Rightarrow> frameWriter \<Rightarrow> frameWriter \<times> (frameError + unit)" where
  "writeOne enc f w = writeLocked enc (wrEnv f) (wrType f) (wrPayload f) (wrSource f) (wrLen f) w"

fun writeFrames :: "(frameHeader \<Rightarrow> string option) \<Rightarrow> frameWrite list \<Rightarrow> frameWriter \<Rightarrow> frameWriter \<times> (frameError + unit)" where
  "writeFrames enc [] w = (w, Inr ())"
| "writeFrames enc (f # fs) w = (case writeOne enc f w of (w', Inl e) \<Rightarrow> (w', Inl e) | (w', Inr _) \<Rightarrow> writeFrames enc fs w')"

text \<open>The frame as a reader should find it.\<close>

definition frameMeant :: "frameWrite \<Rightarrow> frameHeader \<times> string" where
  "frameMeant f = (\<lparr>hdType = wrType f, hdPayloadLen = wrLen f, hdData = (case wrPayload f of Some (Some raw) \<Rightarrow> raw | _ \<Rightarrow> [])\<rparr>,
     sourceBytes (wrSource f) (wrLen f))"

definition encodes :: "(string \<Rightarrow> frameHeader option) \<Rightarrow> string \<Rightarrow> frameHeader \<times> string \<Rightarrow> bool" where
  "encodes dec encoded f \<longleftrightarrow> headerFits encoded \<and> dec encoded = Some (fst f) \<and> headerSound (fst f) \<and> int (length (snd f)) = hdPayloadLen (fst f)"

lemma writeFrames_ok:
  assumes law: "\<And>h s. enc h = Some s \<Longrightarrow> dec s = Some h"
  shows "writeFrames enc fs w = (w', Inr u) \<Longrightarrow> fwHeld w = [] \<Longrightarrow>
    \<exists>es. list_all2 (encodes dec) es (map frameMeant fs) \<and> fwHeld w' = []
      \<and> fwWire w' = fwWire w @ concat (map2 (\<lambda>e f. frameBytes e (snd f)) es (map frameMeant fs))"
proof (induction fs arbitrary: w)
  case (Cons f fs)
  obtain w1 r1 where 1: "writeOne enc f w = (w1, r1)" by fastforce
  obtain u1 where r1: "r1 = Inr u1" using Cons.prems(1) 1 by (cases r1) auto
  obtain raw e where k: "(case wrPayload f of None \<Rightarrow> Some [] | Some m \<Rightarrow> m) = Some raw"
      "enc \<lparr>hdType = wrType f, hdPayloadLen = wrLen f, hdData = raw\<rparr> = Some e" "headerFits e"
      "headerSound \<lparr>hdType = wrType f, hdPayloadLen = wrLen f, hdData = raw\<rparr>"
      "int (length (sourceBytes (wrSource f) (wrLen f))) = wrLen f"
      "fwWire w1 = fwWire w @ frameBytes e (sourceBytes (wrSource f) (wrLen f))" "fwHeld w1 = []"
    using writeLocked_ok [OF 1 [unfolded writeOne_def r1] Cons.prems(2)] by blast
  have m: "frameMeant f = (\<lparr>hdType = wrType f, hdPayloadLen = wrLen f, hdData = raw\<rparr>, sourceBytes (wrSource f) (wrLen f))"
    using k(1) by (auto simp: frameMeant_def split: option.splits)
  have e: "encodes dec e (frameMeant f)" using law [OF k(2)] k(3-5) by (simp add: encodes_def m)
  have "writeFrames enc fs w1 = (w', Inr u)" using Cons.prems(1) 1 r1 by simp
  then obtain es where es: "list_all2 (encodes dec) es (map frameMeant fs)" "fwHeld w' = []"
      "fwWire w' = fwWire w1 @ concat (map2 (\<lambda>e f. frameBytes e (snd f)) es (map frameMeant fs))"
    using Cons.IH k(7) by blast
  have "list_all2 (encodes dec) (e # es) (map frameMeant (f # fs)) \<and> fwHeld w' = []
      \<and> fwWire w' = fwWire w @ concat (map2 (\<lambda>e f. frameBytes e (snd f)) (e # es) (map frameMeant (f # fs)))"
    using e es k(6) m by simp
  then show ?case by blast
qed (auto intro: exI [of _ "[]"])

text \<open>A stream of frames that is cut anywhere.\<close>

lemma readFrames_cut:
  "list_all2 (encodes dec) es ms \<Longrightarrow>
   \<exists>j e. readFrames dec (take k (concat (map2 (\<lambda>e f. frameBytes e (snd f)) es ms))) = (take j ms, e) \<and> e \<in> {FmEOF, FmUnexpectedEOF}
     \<and> (length (concat (map2 (\<lambda>e f. frameBytes e (snd f)) es ms)) \<le> k \<longrightarrow> take j ms = ms)"
proof (induction es ms arbitrary: k rule: list_all2_induct)
  case Nil
  have "readFrames dec [] = ([], FmEOF)" by (subst readFrames.simps) (simp add: readFrame_def ReadHeader_def)
  then show ?case by auto
next
  case (Cons e es m ms)
  obtain h p where m: "m = (h, p)" by fastforce
  have c: "headerFits e" "dec e = Some h" "headerSound h" "int (length p) = hdPayloadLen h" using Cons.hyps(1) by (simp_all add: encodes_def m)
  let ?b = "frameBytes e p" and ?r = "concat (map2 (\<lambda>e f. frameBytes e (snd f)) es ms)"
  show ?case
  proof (cases "k < length ?b")
    case True
    then obtain s1 x where x: "readFrame dec (take k ?b) = (s1, Inl x)" "x \<in> {FmEOF, FmUnexpectedEOF}" using readFrame_cut [where dec = dec and encoded = e and payload = p and h = h, OF c True] by blast
    have "readFrames dec (take k (concat (map2 (\<lambda>e f. frameBytes e (snd f)) (e # es) (m # ms)))) = (take 0 (m # ms), x)"
      using True x(1) by (subst readFrames.simps) (simp add: m)
    moreover have "\<not> length (concat (map2 (\<lambda>e f. frameBytes e (snd f)) (e # es) (m # ms))) \<le> k" using True by (simp add: m)
    ultimately show ?thesis using x(2) by blast
  next
    case False
    obtain j x where j: "readFrames dec (take (k - length ?b) ?r) = (take j ms, x)" "x \<in> {FmEOF, FmUnexpectedEOF}"
        "length ?r \<le> k - length ?b \<longrightarrow> take j ms = ms"
      using Cons.IH by blast
    have "take k (concat (map2 (\<lambda>e f. frameBytes e (snd f)) (e # es) (m # ms))) = ?b @ take (k - length ?b) ?r" using False by (simp add: m)
    then have "readFrames dec (take k (concat (map2 (\<lambda>e f. frameBytes e (snd f)) (e # es) (m # ms)))) = (take (Suc j) (m # ms), x)"
      using readFrame_frame [where dec = dec and encoded = e and payload = p and h = h and rest = "take (k - length ?b) ?r", OF c] j(1) by (subst readFrames.simps) (simp add: m)
    moreover have "length (concat (map2 (\<lambda>e f. frameBytes e (snd f)) (e # es) (m # ms))) \<le> k \<longrightarrow> take (Suc j) (m # ms) = m # ms"
      using j(3) by (simp add: m)
    ultimately show ?thesis using j(2) by blast
  qed
qed

text \<open>
  C18. Frames that are written without an error arrive as they were meant, in order, and a connection
  that is cut anywhere delivers a first part of them: a frame that is cut off is never taken for a
  whole one, and the reader is told that the stream has ended.
\<close>

theorem frames_arrive_in_order:
  assumes "\<And>h s. enc h = Some s \<Longrightarrow> dec s = Some h" and "writeFrames enc fs newWriter = (w, Inr ())"
  shows "fst (readFrames dec (fwWire w)) = map frameMeant fs
    \<and> (\<forall>k. \<exists>j. fst (readFrames dec (take k (fwWire w))) = take j (map frameMeant fs)
           \<and> snd (readFrames dec (take k (fwWire w))) \<in> {FmEOF, FmUnexpectedEOF})"
proof -
  obtain es where es: "list_all2 (encodes dec) es (map frameMeant fs)"
      "fwWire w = concat (map2 (\<lambda>e f. frameBytes e (snd f)) es (map frameMeant fs))"
    using writeFrames_ok [where dec = dec, OF assms(1) assms(2)] by (auto simp: newWriter_def)
  have "\<exists>j e. readFrames dec (take k (fwWire w)) = (take j (map frameMeant fs), e) \<and> e \<in> {FmEOF, FmUnexpectedEOF}
     \<and> (length (fwWire w) \<le> k \<longrightarrow> take j (map frameMeant fs) = map frameMeant fs)" for k
    using readFrames_cut [OF es(1)] unfolding es(2) .
  note cut = this
  have "fst (readFrames dec (fwWire w)) = map frameMeant fs" using cut [of "length (fwWire w)"] by auto
  moreover have "\<forall>k. \<exists>j. fst (readFrames dec (take k (fwWire w))) = take j (map frameMeant fs)
           \<and> snd (readFrames dec (take k (fwWire w))) \<in> {FmEOF, FmUnexpectedEOF}"
    using cut by (metis fst_conv snd_conv)
  ultimately show ?thesis ..
qed

text \<open>A codec for the examples: heartbeats, and chunks with four bytes of payload, as the code marshals them.\<close>

definition beatHeader :: frameHeader where "beatHeader = \<lparr>hdType = ''heartbeat'', hdPayloadLen = 0, hdData = []\<rparr>"
definition chunkHeader :: frameHeader where "chunkHeader = \<lparr>hdType = ''blob_chunk'', hdPayloadLen = 4, hdData = []\<rparr>"

definition beatText :: string where "beatText = ''{\"type\":\"heartbeat\"}''"
definition chunkText :: string where "chunkText = ''{\"type\":\"blob_chunk\",\"payload_len\":4}''"

definition demoEnc :: "frameHeader \<Rightarrow> string option" where
  "demoEnc h = (if h = beatHeader then Some beatText else if h = chunkHeader then Some chunkText else None)"

definition demoDec :: "string \<Rightarrow> frameHeader option" where
  "demoDec s = (if s = beatText then Some beatHeader else if s = chunkText then Some chunkHeader else None)"

definition calmWire :: frameEnv where
  "calmWire = \<lparr>feSize = (0, False), feHeader = (3, False), fePayload = (1, False), feFlush = (0, False)\<rparr>"

definition demoWrites :: "frameWrite list" where
  "demoWrites = [\<lparr>wrEnv = calmWire, wrType = ''heartbeat'', wrPayload = None, wrSource = NoPayload, wrLen = 0\<rparr>,
     \<lparr>wrEnv = calmWire, wrType = ''blob_chunk'', wrPayload = None, wrSource = PayloadReader ''abcdef'', wrLen = 4\<rparr>]"

lemma demoCodec: "demoEnc h = Some s \<Longrightarrow> demoDec s = Some h"
  by (auto simp: demoEnc_def demoDec_def beatText_def chunkText_def split: if_splits)

lemmas wire_simps = writeOne_def writeLocked_def newWriter_def bufWrite_def bufFlush_def writePayload_def
  MaxFramePayloadSize_def MaxFrameHeaderSize_def

lemma demoWrites_ok: "snd (writeFrames demoEnc demoWrites newWriter) = Inr ()"
  by (simp add: demoWrites_def wire_simps calmWire_def demoEnc_def beatHeader_def chunkHeader_def beatText_def chunkText_def)

lemma frames_arrive_in_order_witness:
  "fst (readFrames demoDec (fwWire (fst (writeFrames demoEnc demoWrites newWriter)))) = [(beatHeader, []), (chunkHeader, ''abcd'')]"
proof -
  obtain w where w: "writeFrames demoEnc demoWrites newWriter = (w, Inr ())" using demoWrites_ok by (metis prod.collapse)
  have "map frameMeant demoWrites = [(beatHeader, []), (chunkHeader, ''abcd'')]"
    by (simp add: demoWrites_def frameMeant_def beatHeader_def chunkHeader_def sourceBytes_def)
  then show ?thesis using frames_arrive_in_order [where dec = demoDec, OF demoCodec w] w by (metis fst_conv)
qed

text \<open>
  A reader that gives less than was announced leaves half a frame in the buffer, and the
  connection is not marked broken: what is written next, here a heartbeat, comes out as the rest of
  the payload.
\<close>

lemma half_frame_stays:
  "let (w, r) = WriteFrom demoEnc calmWire ''blob_chunk'' None ''ab'' 4 newWriter; (w', r') = WriteJSON demoEnc calmWire ''heartbeat'' None w
   in r = Inl FmSourceEOF \<and> r' = Inr () \<and> (\<exists>rest. readFrame demoDec (fwWire w') = (rest, Inr (chunkHeader, ''ab'' @ [CHR 0x00, CHR 0x00])))"
proof -
  let ?w = "fst (WriteFrom demoEnc calmWire ''blob_chunk'' None ''ab'' 4 newWriter)" and ?rest = "CHR 0x00 # CHR 0x14 # beatText"
  let ?w' = "fst (WriteJSON demoEnc calmWire ''heartbeat'' None ?w)"
  have c: "headerFits chunkText" "demoDec chunkText = Some chunkHeader" "headerSound chunkHeader"
      "int (length (''ab'' @ [CHR 0x00, CHR 0x00])) = hdPayloadLen chunkHeader"
    by (simp_all add: headerFits_def chunkText_def beatText_def MaxFrameHeaderSize_def MaxFramePayloadSize_def demoDec_def headerSound_def chunkHeader_def)
  have "snd (WriteFrom demoEnc calmWire ''blob_chunk'' None ''ab'' 4 newWriter) = Inl FmSourceEOF"
      "snd (WriteJSON demoEnc calmWire ''heartbeat'' None ?w) = Inr ()"
      "fwWire ?w' = frameBytes chunkText (''ab'' @ [CHR 0x00, CHR 0x00]) @ ?rest"
    by (simp_all add: WriteFrom_def WriteJSON_def wire_simps calmWire_def demoEnc_def beatHeader_def chunkHeader_def beatText_def
        chunkText_def frameBytes_def putUint32_nat char_of_def bit_0)
  then show ?thesis using readFrame_frame [where dec = demoDec and rest = ?rest, OF c]
    by (simp add: case_prod_beta Let_def)
qed
end
