(* ===== verification/LinkFS.thy ===== *)
theory LinkFS
  imports HostFS
begin

text \<open>
  A file system with symbolic and hard links: nodes under the elements of their absolute paths,
  files as inodes that several names may share. Every operation resolves the links above its
  path as Linux does, and some also a link at the path itself. What fails is the environment's
  choice.
\<close>

datatype linkNode = LkDir nat | LkFile nat | LkLink string

record inode =
  inMode :: nat
  inContent :: string
  inTime :: int

record linkFS =
  lkNodes :: "(string list \<times> linkNode) list"
  lkInodes :: "nat \<Rightarrow> inode"
  lkNext :: nat

datatype linkError = LkNotExist | LkNotDir | LkLoop | LkExist | LkIsDir | LkFault

text \<open>\<open>lkFails\<close>: the operations by name; \<open>lkStuck\<close>: nodes that cannot be removed.\<close>

record linkEnv =
  lkFails :: "string \<Rightarrow> string list \<Rightarrow> bool"
  lkStuck :: "string list \<Rightarrow> bool"
  lkUmask :: "nat \<Rightarrow> nat"

definition nodeOf :: "linkFS \<Rightarrow> string list \<Rightarrow> linkNode option" where
  "nodeOf fs q = (if q = [] then Some (LkDir 493) else map_of (lkNodes fs) q)"

definition putLink :: "string list \<Rightarrow> linkNode \<Rightarrow> linkFS \<Rightarrow> linkFS" where
  "putLink q n fs = fs\<lparr>lkNodes := AList.update q n (lkNodes fs)\<rparr>"

definition maxLinks :: nat where "maxLinks = 40"

fun walkPath ::
  "(string list \<Rightarrow> linkNode option) \<Rightarrow> nat \<Rightarrow> bool \<Rightarrow> string list \<Rightarrow> string list \<Rightarrow> linkError + string list" where
  "walkPath N k follow cur [] = Inr cur"
| "walkPath N k follow cur (c # cs) =
     (if c = [] \<or> c = ''.'' then walkPath N k follow cur cs
      else if c = ''..'' then walkPath N k follow (butlast cur) cs
      else (case N (cur @ [c]) of
        None \<Rightarrow> if cs = [] then Inr (cur @ [c]) else Inl LkNotExist
      | Some (LkDir m) \<Rightarrow> walkPath N k follow (cur @ [c]) cs
      | Some (LkFile i) \<Rightarrow> if cs = [] then Inr (cur @ [c]) else Inl LkNotDir
      | Some (LkLink t) \<Rightarrow>
          if cs = [] \<and> \<not> follow then Inr (cur @ [c])
          else (case k of
            0 \<Rightarrow> Inl LkLoop
          | Suc k' \<Rightarrow> walkPath N k' follow (if isAbs t then [] else cur) (splitOn slash t @ cs))))"

abbreviation (input) lookupAt :: "bool \<Rightarrow> string list \<Rightarrow> linkFS \<Rightarrow> linkError + string list" where
  "lookupAt follow p fs \<equiv> walkPath (nodeOf fs) maxLinks follow [] p"

section \<open>Operations of os\<close>

definition statAt :: "bool \<Rightarrow> linkEnv \<Rightarrow> string list \<Rightarrow> linkFS \<Rightarrow> linkError + linkNode" where
  "statAt follow env p fs =
     (if lkFails env ''stat'' p then Inl LkFault
      else andThen (lookupAt follow p fs) (\<lambda>q. case nodeOf fs q of None \<Rightarrow> Inl LkNotExist | Some n \<Rightarrow> Inr n))"

definition lkLstat :: "linkEnv \<Rightarrow> string list \<Rightarrow> linkFS \<Rightarrow> linkError + linkNode" where
  "lkLstat = statAt False"

definition lkStat :: "linkEnv \<Rightarrow> string list \<Rightarrow> linkFS \<Rightarrow> linkError + linkNode" where
  "lkStat = statAt True"

definition lkMkdir :: "linkEnv \<Rightarrow> nat \<Rightarrow> string list \<Rightarrow> linkFS \<Rightarrow> linkFS \<times> (linkError + unit)" where
  "lkMkdir env mode p fs =
     (if lkFails env ''mkdir'' p then (fs, Inl LkFault)
      else (case lookupAt False p fs of
        Inl e \<Rightarrow> (fs, Inl e)
      | Inr q \<Rightarrow> if nodeOf fs q \<noteq> None then (fs, Inl LkExist) else (putLink q (LkDir (lkUmask env mode)) fs, Inr ())))"

text \<open>\<open>os.MkdirAll\<close>, on the elements of the path from the last to the first.\<close>

fun mkdirAllRev :: "linkEnv \<Rightarrow> nat \<Rightarrow> string list \<Rightarrow> linkFS \<Rightarrow> linkFS \<times> (linkError + unit)" where
  "mkdirAllRev env mode [] fs = (fs, Inr ())"
| "mkdirAllRev env mode (c # rs) fs =
     (case lkStat env (rev (c # rs)) fs of
        Inr (LkDir m) \<Rightarrow> (fs, Inr ())
      | Inr n \<Rightarrow> (fs, Inl LkNotDir)
      | Inl _ \<Rightarrow>
          (case mkdirAllRev env mode rs fs of
             (fs1, Inl e) \<Rightarrow> (fs1, Inl e)
           | (fs1, Inr _) \<Rightarrow>
               (case lkMkdir env mode (rev (c # rs)) fs1 of
                  (fs2, Inr _) \<Rightarrow> (fs2, Inr ())
                | (fs2, Inl e) \<Rightarrow>
                    (case lkLstat env (rev (c # rs)) fs2 of
                       Inr (LkDir m) \<Rightarrow> (fs2, Inr ())
                     | _ \<Rightarrow> (fs2, Inl e)))))"

definition lkMkdirAll :: "linkEnv \<Rightarrow> nat \<Rightarrow> string list \<Rightarrow> linkFS \<Rightarrow> linkFS \<times> (linkError + unit)" where
  "lkMkdirAll env mode p fs = mkdirAllRev env mode (rev p) fs"

definition stuckLinks :: "linkEnv \<Rightarrow> string list \<Rightarrow> linkFS \<Rightarrow> string list list" where
  "stuckLinks env p fs = filter (\<lambda>q. below p q \<and> lkStuck env q) (map fst (lkNodes fs))"

definition lkRemoveAll :: "linkEnv \<Rightarrow> string list \<Rightarrow> linkFS \<Rightarrow> linkFS \<times> (linkError + unit)" where
  "lkRemoveAll env p fs =
     (case lookupAt False p fs of
        Inl e \<Rightarrow> (fs, if e = LkNotExist then Inr () else Inl e)
      | Inr q \<Rightarrow>
          (let stuck = stuckLinks env q fs in
           (fs\<lparr>lkNodes := filter (\<lambda>(x, n). \<not> below q x \<or> list_ex (below x) stuck) (lkNodes fs)\<rparr>,
            if stuck = [] then Inr () else Inl LkFault)))"

text \<open>
  \<open>os.OpenFile\<close> with create and truncate, and writing: \<open>data\<close> is what is written, which may
  end with an error.
\<close>

definition lkWrite ::
  "linkEnv \<Rightarrow> nat \<Rightarrow> string \<times> linkError option \<Rightarrow> string list \<Rightarrow> linkFS \<Rightarrow> linkFS \<times> (linkError + unit)" where
  "lkWrite env mode data p fs =
     (if lkFails env ''open'' p then (fs, Inl LkFault)
      else (case lookupAt True p fs of
        Inl e \<Rightarrow> (fs, Inl e)
      | Inr q \<Rightarrow>
          (let r = (case snd data of Some e \<Rightarrow> Inl e | None \<Rightarrow> Inr ()) in
           case nodeOf fs q of
             Some (LkFile i) \<Rightarrow> (fs\<lparr>lkInodes := (lkInodes fs)(i := (lkInodes fs i)\<lparr>inContent := fst data\<rparr>)\<rparr>, r)
           | None \<Rightarrow>
               ((putLink q (LkFile (lkNext fs)) fs)
                  \<lparr>lkInodes := (lkInodes fs)(lkNext fs := \<lparr>inMode = lkUmask env mode, inContent = fst data, inTime = 0\<rparr>),
                   lkNext := lkNext fs + 1\<rparr>, r)
           | _ \<Rightarrow> (fs, Inl LkIsDir))))"

text \<open>\<open>os.Chmod\<close> and \<open>os.Chtimes\<close> follow links; the times of directories are not kept.\<close>

definition lkAttr ::
  "string \<Rightarrow> (inode \<Rightarrow> inode) \<Rightarrow> (nat \<Rightarrow> nat) \<Rightarrow> linkEnv \<Rightarrow> string list \<Rightarrow> linkFS \<Rightarrow> linkFS \<times> (linkError + unit)" where
  "lkAttr opn f g env p fs =
     (if lkFails env opn p then (fs, Inl LkFault)
      else (case lookupAt True p fs of
        Inl e \<Rightarrow> (fs, Inl e)
      | Inr q \<Rightarrow>
          (case nodeOf fs q of
             Some (LkFile i) \<Rightarrow> (fs\<lparr>lkInodes := (lkInodes fs)(i := f (lkInodes fs i))\<rparr>, Inr ())
           | Some (LkDir m) \<Rightarrow> (if q = [] then fs else putLink q (LkDir (g m)) fs, Inr ())
           | _ \<Rightarrow> (fs, Inl LkNotExist))))"

definition lkChmod :: "linkEnv \<Rightarrow> nat \<Rightarrow> string list \<Rightarrow> linkFS \<Rightarrow> linkFS \<times> (linkError + unit)" where
  "lkChmod env mode = lkAttr ''chmod'' (\<lambda>i. i\<lparr>inMode := mode\<rparr>) (\<lambda>_. mode) env"

definition lkChtimes :: "linkEnv \<Rightarrow> int \<Rightarrow> string list \<Rightarrow> linkFS \<Rightarrow> linkFS \<times> (linkError + unit)" where
  "lkChtimes env t = lkAttr ''chtimes'' (\<lambda>i. i\<lparr>inTime := t\<rparr>) (\<lambda>m. m) env"

definition lkSymlink :: "linkEnv \<Rightarrow> string \<Rightarrow> string list \<Rightarrow> linkFS \<Rightarrow> linkFS \<times> (linkError + unit)" where
  "lkSymlink env t p fs =
     (if lkFails env ''symlink'' p then (fs, Inl LkFault)
      else (case lookupAt False p fs of
        Inl e \<Rightarrow> (fs, Inl e)
      | Inr q \<Rightarrow> if nodeOf fs q \<noteq> None then (fs, Inl LkExist) else (putLink q (LkLink t) fs, Inr ())))"

text \<open>\<open>os.Link\<close>: a second name of the file, or of the link itself.\<close>

definition lkLink :: "linkEnv \<Rightarrow> string list \<Rightarrow> string list \<Rightarrow> linkFS \<Rightarrow> linkFS \<times> (linkError + unit)" where
  "lkLink env old p fs =
     (if lkFails env ''link'' p then (fs, Inl LkFault)
      else (case (lookupAt False old fs, lookupAt False p fs) of
        (Inl e, _) \<Rightarrow> (fs, Inl e)
      | (Inr q0, Inl e) \<Rightarrow> (fs, Inl e)
      | (Inr q0, Inr q) \<Rightarrow>
          (case nodeOf fs q0 of
             None \<Rightarrow> (fs, Inl LkNotExist)
           | Some (LkDir m) \<Rightarrow> (fs, Inl LkIsDir)
           | Some n \<Rightarrow> if nodeOf fs q \<noteq> None then (fs, Inl LkExist) else (putLink q n fs, Inr ()))))"

definition linkChildren :: "string list \<Rightarrow> linkFS \<Rightarrow> string list" where
  "linkChildren p fs = sort (map (\<lambda>x. last (fst x)) (filter (\<lambda>(q, n). below p q \<and> length q = length p + 1) (lkNodes fs)))"

definition lkReadDir :: "linkEnv \<Rightarrow> string list \<Rightarrow> linkFS \<Rightarrow> linkError + string list" where
  "lkReadDir env p fs =
     (if lkFails env ''readdir'' p then Inl LkFault
      else andThen (lookupAt True p fs) (\<lambda>q. case nodeOf fs q of
        None \<Rightarrow> Inl LkNotExist | Some (LkDir m) \<Rightarrow> Inr (linkChildren q fs) | Some n \<Rightarrow> Inl LkNotDir))"

text \<open>\<open>os.Rename\<close>: never onto a directory, and a directory onto nothing else that is there.\<close>

definition lkRename :: "linkEnv \<Rightarrow> string list \<Rightarrow> string list \<Rightarrow> linkFS \<Rightarrow> linkFS \<times> (linkError + unit)" where
  "lkRename env p p' fs =
     (if lkFails env ''rename'' p' then (fs, Inl LkFault)
      else (case (lookupAt False p fs, lookupAt False p' fs) of
        (Inl e, _) \<Rightarrow> (fs, Inl e)
      | (Inr a, Inl e) \<Rightarrow> (fs, Inl e)
      | (Inr a, Inr b) \<Rightarrow>
          if nodeOf fs a = None then (fs, Inl LkNotExist)
          else if (case nodeOf fs b of Some (LkDir m) \<Rightarrow> True | _ \<Rightarrow> False) \<or> below a b \<or> below b a then (fs, Inl LkExist)
          else if nodeOf fs b \<noteq> None \<and> (case nodeOf fs a of Some (LkDir m) \<Rightarrow> True | _ \<Rightarrow> False) then (fs, Inl LkNotDir)
          else (fs\<lparr>lkNodes := map (\<lambda>(x, n). (if below a x then b @ drop (length a) x else x, n))
                  (filter (\<lambda>(x, n). \<not> below b x) (lkNodes fs))\<rparr>, Inr ())))"

section \<open>Paths without links above them\<close>

definition plainAbove :: "(string list \<Rightarrow> linkNode option) \<Rightarrow> string list \<Rightarrow> bool" where
  "plainAbove N p \<longleftrightarrow> (\<forall>r. below r p \<longrightarrow> r \<noteq> p \<longrightarrow> (\<forall>t. N r \<noteq> Some (LkLink t)))"

definition notLink :: "(string list \<Rightarrow> linkNode option) \<Rightarrow> string list \<Rightarrow> bool" where
  "notLink N p \<longleftrightarrow> (\<forall>t. N p \<noteq> Some (LkLink t))"

lemma walk_plain:
  assumes "walkPath N k follow cur cs = res" "normalSegs cs" "plainAbove N (cur @ cs)"
    and "follow \<Longrightarrow> cs \<noteq> [] \<Longrightarrow> notLink N (cur @ cs)"
  shows "(\<forall>q. res = Inr q \<longrightarrow> q = cur @ cs \<and> (\<forall>p s. cs = p @ s \<longrightarrow> p \<noteq> [] \<longrightarrow> s \<noteq> [] \<longrightarrow> (\<exists>m. N (cur @ p) = Some (LkDir m))))
    \<and> (res = Inl LkNotExist \<longrightarrow> (\<exists>p s. cs = p @ s \<and> p \<noteq> [] \<and> s \<noteq> [] \<and> N (cur @ p) = None)) \<and> res \<noteq> Inl LkLoop"
  using assms
proof (induction cs arbitrary: cur res)
  case (Cons c cs)
  have c: "c \<noteq> []" "c \<noteq> ''.''" "c \<noteq> ''..''" "normalSegs cs" using Cons.prems(2) by (auto simp: normalSeg_def)
  have pl: "plainAbove N ((cur @ [c]) @ cs)" using Cons.prems(3) by simp
  have deeper: ?case if d: "N (cur @ [c]) = Some (LkDir m)" for m
  proof -
    have run: "walkPath N k follow (cur @ [c]) cs = res" using Cons.prems(1) c d by simp
    have nl: "follow \<Longrightarrow> cs \<noteq> [] \<Longrightarrow> notLink N ((cur @ [c]) @ cs)" using Cons.prems(4) by simp
    have ih: "(\<forall>q. res = Inr q \<longrightarrow> q = (cur @ [c]) @ cs \<and> (\<forall>p s. cs = p @ s \<longrightarrow> p \<noteq> [] \<longrightarrow> s \<noteq> [] \<longrightarrow> (\<exists>m. N ((cur @ [c]) @ p) = Some (LkDir m))))
      \<and> (res = Inl LkNotExist \<longrightarrow> (\<exists>p s. cs = p @ s \<and> p \<noteq> [] \<and> s \<noteq> [] \<and> N ((cur @ [c]) @ p) = None)) \<and> res \<noteq> Inl LkLoop"
      by (rule Cons.IH [OF run c(4) pl]) (rule nl)
    note ih1 = conjunct1 [OF ih] and ih2 = conjunct1 [OF conjunct2 [OF ih]] and ih3 = conjunct2 [OF conjunct2 [OF ih]]
    have a: "\<exists>m. N (cur @ p) = Some (LkDir m)" if q: "res = Inr q" and p: "c # cs = p @ s" "p \<noteq> []" "s \<noteq> []" for q p s
    proof -
      obtain p' where p': "p = c # p'" "cs = p' @ s" using p by (cases p) auto
      show ?thesis
      proof (cases "p' = []")
        case False
        then have "\<exists>m. N ((cur @ [c]) @ p') = Some (LkDir m)" using ih1 q p'(2) p(3) by blast
        then show ?thesis using p'(1) by simp
      qed (use d p' in simp)
    qed
    have b: "\<exists>p s. c # cs = p @ s \<and> p \<noteq> [] \<and> s \<noteq> [] \<and> N (cur @ p) = None" if e: "res = Inl LkNotExist"
    proof -
      obtain p s where "cs = p @ s" "p \<noteq> []" "s \<noteq> []" "N ((cur @ [c]) @ p) = None" using mp [OF ih2 e] by (elim exE conjE)
      then have "c # cs = (c # p) @ s \<and> c # p \<noteq> [] \<and> s \<noteq> [] \<and> N (cur @ (c # p)) = None" by simp
      then show ?thesis by blast
    qed
    have q: "q = cur @ c # cs" if "res = Inr q" for q using ih1 that by simp
    have l: "res \<noteq> Inl LkLoop" by (rule ih3)
    show ?thesis using a b q l by blast
  qed
  show ?case
  proof (cases "N (cur @ [c])")
    case None
    show ?thesis
    proof (cases "cs = []")
      case True
      then have "res = Inr (cur @ [c])" using Cons.prems(1) None c by simp
      then show ?thesis using True by (auto simp: Cons_eq_append_conv)
    next
      case False
      then have "res = Inl LkNotExist" using Cons.prems(1) None c by simp
      moreover have "c # cs = [c] @ cs" by simp
      ultimately show ?thesis using False None by blast
    qed
  next
    case (Some n)
    show ?thesis
    proof (cases n)
      case (LkFile i)
      then show ?thesis using Cons.prems(1) Some c by (cases "cs = []") (auto simp: Cons_eq_append_conv)
    next
      case (LkLink t)
      have "cs = []"
      proof (rule ccontr)
        assume "cs \<noteq> []"
        then have "below (cur @ [c]) (cur @ c # cs)" "cur @ [c] \<noteq> cur @ c # cs" by (auto simp: below_iff)
        then show False using Cons.prems(3) Some LkLink unfolding plainAbove_def by blast
      qed
      moreover have "\<not> follow" using Cons.prems(4) Some LkLink \<open>cs = []\<close> by (auto simp: notLink_def)
      ultimately have "res = Inr (cur @ [c])" using Cons.prems(1) Some LkLink c by simp
      then show ?thesis using \<open>cs = []\<close> by (auto simp: Cons_eq_append_conv)
    qed (use deeper Some in blast)
  qed
qed auto

lemma lookup_ok:
  assumes "lookupAt follow p fs = Inr q" "normalSegs p" "plainAbove (nodeOf fs) p" "follow \<Longrightarrow> notLink (nodeOf fs) p"
  shows "q = p \<and> (\<exists>m. nodeOf fs (butlast p) = Some (LkDir m))"
proof -
  have w: "q = [] @ p" "\<forall>r s. p = r @ s \<longrightarrow> r \<noteq> [] \<longrightarrow> s \<noteq> [] \<longrightarrow> (\<exists>m. nodeOf fs ([] @ r) = Some (LkDir m))"
    using walk_plain [OF assms(1,2)] assms(3,4) by auto
  have "\<exists>m. nodeOf fs (butlast p) = Some (LkDir m)"
  proof (cases p rule: rev_cases)
    case (snoc r x)
    then show ?thesis using w(2) by (cases "r = []") (auto simp: nodeOf_def)
  qed (simp add: nodeOf_def)
  then show ?thesis using w(1) by simp
qed

lemma lookup_missing:
  assumes "lookupAt follow p fs = Inl LkNotExist" "normalSegs p" "plainAbove (nodeOf fs) p" "follow \<Longrightarrow> notLink (nodeOf fs) p"
  shows "\<exists>r. below r p \<and> r \<noteq> p \<and> r \<noteq> [] \<and> nodeOf fs r = None"
proof -
  obtain r s where "p = r @ s" "r \<noteq> []" "s \<noteq> []" "nodeOf fs ([] @ r) = None"
    using walk_plain [OF assms(1,2)] assms(3,4) by auto
  then have "below r p \<and> r \<noteq> p \<and> r \<noteq> [] \<and> nodeOf fs r = None" by simp
  then show ?thesis by blast
qed

section \<open>Confinement\<close>

text \<open>
  \<open>fs\<close> differs from \<open>base\<close> only at and below \<open>R\<close>: other nodes and the files that were there are
  the same, files below \<open>R\<close> are new, and \<open>R\<close> holds a tree whose root is no link.
\<close>

definition confined :: "string list \<Rightarrow> linkFS \<Rightarrow> linkFS \<Rightarrow> bool" where
  "confined R base fs \<longleftrightarrow>
     (\<forall>q. \<not> below R q \<longrightarrow> nodeOf fs q = nodeOf base q)
     \<and> (\<forall>i < lkNext base. lkInodes fs i = lkInodes base i) \<and> lkNext base \<le> lkNext fs
     \<and> (\<forall>q i. below R q \<longrightarrow> nodeOf fs q = Some (LkFile i) \<longrightarrow> lkNext base \<le> i \<and> i < lkNext fs)
     \<and> (\<forall>q n. below R q \<longrightarrow> q \<noteq> R \<longrightarrow> nodeOf fs q = Some n \<longrightarrow> (\<exists>m. nodeOf fs (butlast q) = Some (LkDir m)))
     \<and> (\<forall>q n. below R q \<longrightarrow> nodeOf fs q = Some n \<longrightarrow> normalSegs q)
     \<and> notLink (nodeOf fs) R"

definition dirsAbove :: "string list \<Rightarrow> linkFS \<Rightarrow> bool" where
  "dirsAbove R base \<longleftrightarrow> R \<noteq> [] \<and> normalSegs R \<and> (\<forall>r. below r R \<longrightarrow> r \<noteq> R \<longrightarrow> (\<exists>m. nodeOf base r = Some (LkDir m)))"

definition sameLinks :: "linkFS \<Rightarrow> linkFS \<Rightarrow> bool" where
  "sameLinks fs fs' \<longleftrightarrow> (\<forall>q t. nodeOf fs' q = Some (LkLink t) \<longrightarrow> nodeOf fs q = Some (LkLink t))"

lemma sameLinks_refl [simp]: "sameLinks fs fs"
  by (simp add: sameLinks_def)

lemma sameLinks_trans: "sameLinks a b \<Longrightarrow> sameLinks b c \<Longrightarrow> sameLinks a c"
  unfolding sameLinks_def by blast

lemma sameLinks_plain: "sameLinks a b \<Longrightarrow> plainAbove (nodeOf a) p \<Longrightarrow> plainAbove (nodeOf b) p"
  unfolding sameLinks_def plainAbove_def by blast

lemma sameLinks_notLink: "sameLinks a b \<Longrightarrow> notLink (nodeOf a) p \<Longrightarrow> notLink (nodeOf b) p"
  unfolding sameLinks_def notLink_def by blast

lemma above_dir:
  assumes "confined R base fs" "dirsAbove R base" "below r R" "r \<noteq> R"
  shows "\<exists>m. nodeOf fs r = Some (LkDir m)"
proof -
  have "\<not> below R r" using assms(3,4) by (auto simp: below_iff)
  then show ?thesis using assms unfolding confined_def dirsAbove_def by metis
qed

lemma parent_below: "below R q \<Longrightarrow> q \<noteq> R \<Longrightarrow> below R (butlast q)"
  unfolding below_iff using butlast_append by (metis append.right_neutral)

lemma below_butlast_self: "below (butlast q) q"
  unfolding below_iff by (cases q rule: rev_cases) auto

lemma confined_closed:
  assumes "confined R base fs" "below R r" "below r q" "nodeOf fs r = None"
  shows "nodeOf fs q = None"
proof (rule ccontr)
  assume n: "nodeOf fs q \<noteq> None"
  obtain s where q: "q = r @ s" using assms(3) by (auto simp: below_iff)
  have "nodeOf fs (r @ s) \<noteq> None \<longrightarrow> nodeOf fs r \<noteq> None"
  proof (induction s rule: rev_induct)
    case (snoc x s)
    show ?case
    proof
      assume "nodeOf fs (r @ s @ [x]) \<noteq> None"
      then obtain n where n: "nodeOf fs (r @ s @ [x]) = Some n" by blast
      have "below R (r @ s @ [x])" using assms(2) by (auto simp: below_iff)
      moreover have "r @ s @ [x] \<noteq> R" using assms(2) by (auto simp: below_iff)
      ultimately have "\<exists>m. nodeOf fs (butlast (r @ s @ [x])) = Some (LkDir m)"
        using assms(1) n unfolding confined_def by blast
      moreover have "butlast (r @ s @ [x]) = r @ s" by (simp add: butlast_append)
      ultimately show "nodeOf fs r \<noteq> None" using snoc.IH by (auto simp del: append_assoc)
    qed
  qed simp
  then show False using n q assms(4) by simp
qed

lemma lookup_none:
  assumes c: "confined R base fs" "dirsAbove R base" and p: "below R p" "normalSegs p" "plainAbove (nodeOf fs) p"
    and l: "lookupAt follow p fs = Inl LkNotExist" "follow \<Longrightarrow> notLink (nodeOf fs) p"
  shows "nodeOf fs p = None"
proof -
  obtain r where r: "below r p" "r \<noteq> p" "nodeOf fs r = None" using lookup_missing [OF l(1) p(2,3) l(2)] by blast
  have "below R r"
  proof (rule ccontr)
    assume "\<not> below R r"
    then have "below r R" "r \<noteq> R" using below_two [OF r(1) p(1)] by auto
    then show False using above_dir [OF c] r(3) by force
  qed
  then show ?thesis using confined_closed [OF c(1) _ r(1) r(3)] by simp
qed

lemma node_put: "p \<noteq> [] \<Longrightarrow> nodeOf (putLink p n fs) q = (if q = p then Some n else nodeOf fs q)"
  by (simp add: nodeOf_def putLink_def update_conv')

lemma put_fields [simp]: "lkInodes (putLink p n fs) = lkInodes fs" "lkNext (putLink p n fs) = lkNext fs"
  by (simp_all add: putLink_def)

lemma confined_put:
  assumes c: "confined R base fs" "dirsAbove R base" and p: "below R p" "normalSegs p" "nodeOf fs p = None"
    and par: "\<exists>m. nodeOf fs (butlast p) = Some (LkDir m)" and n: "\<And>i. n = LkFile i \<Longrightarrow> lkNext base \<le> i \<and> i < lkNext fs"
    and root: "\<And>t. n = LkLink t \<Longrightarrow> p \<noteq> R"
  shows "confined R base (putLink p n fs)"
proof -
  have R: "R \<noteq> []" using c(2) by (simp add: dirsAbove_def)
  then have pne: "p \<noteq> []" using p(1) by (auto simp: below_iff)
  note get = node_put [OF pne, of n fs]
  have kid: "\<exists>m. nodeOf (putLink p n fs) (butlast q) = Some (LkDir m)"
    if q: "below R q" "q \<noteq> R" "nodeOf (putLink p n fs) q = Some k" for q k
  proof (cases "q = p")
    case True
    have "butlast p \<noteq> p" using pne by (metis append_butlast_last_id not_Cons_self self_append_conv)
    then show ?thesis using par True get by simp
  next
    case False
    then have old: "\<exists>m. nodeOf fs (butlast q) = Some (LkDir m)" using c(1) q get unfolding confined_def by (metis (no_types, lifting))
    then have "butlast q \<noteq> p" using p(3) by auto
    then show ?thesis using old get by simp
  qed
  have "\<forall>q. \<not> below R q \<longrightarrow> nodeOf (putLink p n fs) q = nodeOf base q"
    using c(1) p(1) get unfolding confined_def by metis
  moreover have "\<forall>q i. below R q \<longrightarrow> nodeOf (putLink p n fs) q = Some (LkFile i) \<longrightarrow> lkNext base \<le> i \<and> i < lkNext fs"
    using c(1) n get unfolding confined_def by (metis option.inject)
  moreover have "\<forall>q k. below R q \<longrightarrow> nodeOf (putLink p n fs) q = Some k \<longrightarrow> normalSegs q"
    using c(1) p(2) get unfolding confined_def by (metis (no_types, lifting))
  moreover have "notLink (nodeOf (putLink p n fs)) R"
    using c(1) root get unfolding confined_def notLink_def by (metis option.inject)
  moreover have "(\<forall>i < lkNext base. lkInodes fs i = lkInodes base i) \<and> lkNext base \<le> lkNext fs"
    using c(1) unfolding confined_def by blast
  ultimately show ?thesis using kid unfolding confined_def by auto
qed

definition sameLinksBut :: "string list \<Rightarrow> linkFS \<Rightarrow> linkFS \<Rightarrow> bool" where
  "sameLinksBut p fs fs' \<longleftrightarrow> (\<forall>q t. nodeOf fs' q = Some (LkLink t) \<longrightarrow> q = p \<or> nodeOf fs q = Some (LkLink t))"

lemma sameLinks_But: "sameLinks a b \<Longrightarrow> sameLinksBut p a b"
  unfolding sameLinks_def sameLinksBut_def by blast

lemma sameLinksBut_trans: "sameLinks a b \<Longrightarrow> sameLinksBut p b c \<Longrightarrow> sameLinksBut p a c"
  unfolding sameLinks_def sameLinksBut_def by blast

lemma nodeOf_inodes [simp]: "nodeOf (fs\<lparr>lkInodes := f, lkNext := n\<rparr>) q = nodeOf fs q" "nodeOf (fs\<lparr>lkInodes := f\<rparr>) q = nodeOf fs q"
  by (simp_all add: nodeOf_def)

lemma confined_inodes:
  assumes "confined R base fs" "\<forall>i < lkNext base. f i = lkInodes fs i" "lkNext fs \<le> n"
  shows "confined R base (fs\<lparr>lkInodes := f, lkNext := n\<rparr>)" "confined R base (fs\<lparr>lkInodes := f\<rparr>)"
proof -
  have e: "nodeOf (fs\<lparr>lkInodes := f, lkNext := n\<rparr>) = nodeOf fs" "nodeOf (fs\<lparr>lkInodes := f\<rparr>) = nodeOf fs" by auto
  have b: "\<forall>i < lkNext base. f i = lkInodes base i" "lkNext base \<le> n" "lkNext base \<le> lkNext fs"
    using assms unfolding confined_def by auto
  show "confined R base (fs\<lparr>lkInodes := f, lkNext := n\<rparr>)"
    using assms(1,3) b(1,2) unfolding confined_def e by (auto intro: less_le_trans)
  show "confined R base (fs\<lparr>lkInodes := f\<rparr>)"
    using assms(1) b(1,3) unfolding confined_def e by simp
qed

lemma put_file: "(putLink p n fs)\<lparr>lkInodes := f, lkNext := k\<rparr> = putLink p n (fs\<lparr>lkInodes := f, lkNext := k\<rparr>)"
  by (simp add: putLink_def)

lemma confined_remove:
  assumes c: "confined R base fs" "dirsAbove R base" and p: "below R p" "normalSegs p" "plainAbove (nodeOf fs) p"
    and run: "lkRemoveAll env p fs = (fs', r)"
  shows "confined R base fs' \<and> sameLinks fs fs' \<and> (r = Inr () \<longrightarrow> nodeOf fs' p = None)"
proof -
  have pne: "p \<noteq> []" using p(1) c(2) by (auto simp: below_iff dirsAbove_def)
  show ?thesis
  proof (cases "lookupAt False p fs")
    case (Inl e)
    then have f: "fs' = fs" "r = Inr () \<Longrightarrow> e = LkNotExist" using run by (auto simp: lkRemoveAll_def split: if_splits)
    show ?thesis using f(2) lookup_none [OF c p, of False] Inl c by (auto simp: f(1))
  next
    case (Inr q)
    then have q: "q = p" using lookup_ok [OF Inr p(2,3)] by simp
    define keep where "keep x \<longleftrightarrow> \<not> below p x \<or> list_ex (below x) (stuckLinks env p fs)" for x
    have f: "fs' = fs\<lparr>lkNodes := filter (\<lambda>(x, n). keep x) (lkNodes fs)\<rparr>"
      "r = Inr () \<Longrightarrow> stuckLinks env p fs = []"
      using run Inr q by (auto simp: lkRemoveAll_def Let_def keep_def split: if_splits)
    have get: "nodeOf fs' x = (if x = [] \<or> keep x then nodeOf fs x else None)" for x
      unfolding f(1) nodeOf_def by (simp add: map_of_filter_fst)
    have up: "keep (butlast x)" if k: "keep x" "x \<noteq> []" for x
    proof (cases "below p x")
      case True
      then obtain y where "y \<in> set (stuckLinks env p fs)" "below x y" using k(1) by (auto simp: keep_def list_ex_iff)
      then show ?thesis using below_trans [OF below_butlast_self] by (auto simp: keep_def list_ex_iff)
    next
      case False
      then have "\<not> below p (butlast x)" using below_trans [OF _ below_butlast_self] by blast
      then show ?thesis by (simp add: keep_def)
    qed
    have kid: "\<exists>m. nodeOf fs' (butlast x) = Some (LkDir m)" if x: "below R x" "x \<noteq> R" "nodeOf fs' x = Some n" for x n
    proof -
      have xne: "x \<noteq> []" using x(1) c(2) by (auto simp: below_iff dirsAbove_def)
      then have "keep x" "nodeOf fs x = Some n" using x(3) get by (auto split: if_splits)
      then have "\<exists>m. nodeOf fs (butlast x) = Some (LkDir m)" using c(1) x(1,2) unfolding confined_def by blast
      then show ?thesis using get up [OF \<open>keep x\<close> xne] by simp
    qed
    have out: "nodeOf fs' x = nodeOf base x" if x: "\<not> below R x" for x
    proof -
      have "\<not> below p x" using x p(1) by (auto dest: below_trans)
      then have "nodeOf fs' x = nodeOf fs x" using get by (simp add: keep_def)
      also have "\<dots> = nodeOf base x" using c(1) x unfolding confined_def by blast
      finally show ?thesis .
    qed
    have less: "nodeOf fs' x = Some n \<Longrightarrow> nodeOf fs x = Some n" for x n using get by (auto split: if_splits)
    have ino: "lkInodes fs' = lkInodes fs" "lkNext fs' = lkNext fs" by (simp_all add: f(1))
    have "confined R base fs'"
      unfolding confined_def ino
    proof (intro conjI)
      show "\<forall>q. \<not> below R q \<longrightarrow> nodeOf fs' q = nodeOf base q" using out by blast
      show "\<forall>q n. below R q \<longrightarrow> q \<noteq> R \<longrightarrow> nodeOf fs' q = Some n \<longrightarrow> (\<exists>m. nodeOf fs' (butlast q) = Some (LkDir m))"
        using kid by blast
      show "notLink (nodeOf fs') R" using c(1) less unfolding confined_def notLink_def by blast
    qed (use c(1) less in \<open>unfold confined_def, blast+\<close>)
    moreover have "sameLinks fs fs'" using less by (simp add: sameLinks_def)
    moreover have "r = Inr () \<longrightarrow> nodeOf fs' p = None" using f(2) get pne by (auto simp: keep_def)
    ultimately show ?thesis by blast
  qed
qed

lemma sameLinks_put: "p \<noteq> [] \<Longrightarrow> (\<And>t. n \<noteq> LkLink t) \<Longrightarrow> sameLinks fs (putLink p n fs)"
  by (auto simp: sameLinks_def node_put split: if_splits)

lemma sameLinksBut_put: "p \<noteq> [] \<Longrightarrow> sameLinksBut p fs (putLink p n fs)"
  by (auto simp: sameLinksBut_def node_put split: if_splits)

lemma confined_mkdir:
  assumes c: "confined R base fs" "dirsAbove R base" and p: "below R p \<or> below p R" "normalSegs p" "plainAbove (nodeOf fs) p"
    and run: "lkMkdir env mode p fs = (fs', r)"
  shows "confined R base fs' \<and> sameLinks fs fs' \<and> (r = Inr () \<longrightarrow> (\<exists>m. nodeOf fs' p = Some (LkDir m)))"
proof (cases "\<exists>q. \<not> lkFails env ''mkdir'' p \<and> lookupAt False p fs = Inr q \<and> nodeOf fs q = None")
  case True
  then have q: "lookupAt False p fs = Inr p" "nodeOf fs p = None" "\<not> lkFails env ''mkdir'' p" using lookup_ok [OF _ p(2,3)] by auto
  have pne: "p \<noteq> []" using q(2) by (auto simp: nodeOf_def)
  have b: "below R p" using p(1) above_dir [OF c, of p] q(2) by (cases "p = R") auto
  have par: "\<exists>m. nodeOf fs (butlast p) = Some (LkDir m)" using lookup_ok [OF q(1) p(2,3)] by simp
  have f: "fs' = putLink p (LkDir (lkUmask env mode)) fs" "r = Inr ()" using run q by (simp_all add: lkMkdir_def)
  show ?thesis
    unfolding f using confined_put [OF c b p(2) q(2) par] sameLinks_put [OF pne] node_put [OF pne] by auto
next
  case False
  then have "fs' = fs" "r \<noteq> Inr ()" using run by (auto simp: lkMkdir_def split: if_splits sum.splits)
  then show ?thesis using c by simp
qed

lemma statAt_ok:
  assumes "statAt follow env p fs = Inr n" "normalSegs p" "plainAbove (nodeOf fs) p" "follow \<Longrightarrow> notLink (nodeOf fs) p"
  shows "nodeOf fs p = Some n"
  using assms lookup_ok [where p = p and fs = fs and follow = follow] by (auto simp: statAt_def andThen_def split: if_splits sum.splits option.splits)

lemma plainAbove_butlast: "plainAbove N (p @ [x]) \<Longrightarrow> plainAbove N p \<and> notLink N p"
  unfolding plainAbove_def notLink_def below_iff by auto

lemma plainAbove_snoc: "plainAbove N p \<Longrightarrow> notLink N p \<Longrightarrow> plainAbove N (p @ [x])"
proof -
  assume a: "plainAbove N p" "notLink N p"
  have "below r p" if r: "below r (p @ [x])" "r \<noteq> p @ [x]" for r
  proof -
    obtain s where s: "p @ [x] = r @ s" using r(1) by (auto simp: below_iff)
    then have "s \<noteq> []" using r(2) by auto
    then have "p = r @ butlast s" using s by (metis butlast_append butlast_snoc)
    then show ?thesis by (auto simp: below_iff)
  qed
  then show ?thesis using a unfolding plainAbove_def notLink_def by blast
qed

lemma mkdirAllRev_confined:
  assumes "confined R base fs" "dirsAbove R base" and "below R (rev rs) \<or> below (rev rs) R" "normalSegs (rev rs)"
    and "plainAbove (nodeOf fs) (rev rs)" "notLink (nodeOf fs) (rev rs)" and "mkdirAllRev env mode rs fs = (fs', r)"
  shows "confined R base fs' \<and> sameLinks fs fs' \<and> (r = Inr () \<longrightarrow> (\<exists>m. nodeOf fs' (rev rs) = Some (LkDir m)))"
  using assms
proof (induction rs arbitrary: fs' r)
  case (Cons c rs)
  let ?p = "rev (c # rs)"
  have par: "plainAbove (nodeOf fs) (rev rs)" "notLink (nodeOf fs) (rev rs)"
    using plainAbove_butlast [of "nodeOf fs" "rev rs" c] Cons.prems(5) by simp_all
  have cmp: "below R (rev rs) \<or> below (rev rs) R" using Cons.prems(3) by (auto simp: below_iff append_eq_append_conv2 append_eq_Cons_conv)
  have n: "normalSegs (rev rs)" using Cons.prems(4) by simp
  show ?case
  proof (cases "lkStat env ?p fs")
    case (Inr k)
    then have "nodeOf fs ?p = Some k" using statAt_ok [OF _ Cons.prems(4,5)] Cons.prems(6) by (simp add: lkStat_def)
    then show ?thesis using Cons.prems(1,7) Inr by (cases k) auto
  next
    case (Inl e)
    obtain fs1 r1 where m: "mkdirAllRev env mode rs fs = (fs1, r1)" by fastforce
    note i = Cons.IH [OF Cons.prems(1,2) cmp n par m]
    show ?thesis
    proof (cases r1)
      case (Inl e1)
      then show ?thesis using Cons.prems(7) m i \<open>lkStat env ?p fs = Inl e\<close> by auto
    next
      case (Inr u)
      obtain fs2 r2 where m2: "lkMkdir env mode ?p fs1 = (fs2, r2)" by fastforce
      have pl: "plainAbove (nodeOf fs1) ?p" using sameLinks_plain i Cons.prems(5) by blast
      note k = confined_mkdir [OF conjunct1 [OF i] Cons.prems(2,3,4) pl m2]
      have sl: "sameLinks fs fs2" using k i sameLinks_trans by blast
      show ?thesis
      proof (cases r2)
        case r2: (Inr u2)
        then have "fs' = fs2" "r = Inr ()" using Cons.prems(7) m m2 \<open>lkStat env ?p fs = Inl e\<close> Inr by simp_all
        then show ?thesis using k sl r2 by simp
      next
        case r2: (Inl e2)
        have f: "fs' = fs2" using Cons.prems(7) m m2 \<open>lkStat env ?p fs = Inl e\<close> Inr r2 by (auto split: sum.splits linkNode.splits)
        have d: "\<exists>m. nodeOf fs2 ?p = Some (LkDir m)" if r: "r = Inr ()"
        proof -
          obtain m' where "lkLstat env ?p fs2 = Inr (LkDir m')"
            using r Cons.prems(7) m m2 \<open>lkStat env ?p fs = Inl e\<close> Inr r2 by (auto split: sum.splits linkNode.splits)
          then show ?thesis using statAt_ok [OF _ Cons.prems(4), of False env fs2] sameLinks_plain [OF sl Cons.prems(5)] by (auto simp: lkLstat_def)
        qed
        show ?thesis using f k sl d by simp
      qed
    qed
  qed
qed (auto simp: nodeOf_def)

lemma confined_mkdirAll:
  assumes "confined R base fs" "dirsAbove R base" "below R p" "normalSegs p" "plainAbove (nodeOf fs) p" "notLink (nodeOf fs) p"
    and "lkMkdirAll env mode p fs = (fs', r)"
  shows "confined R base fs' \<and> sameLinks fs fs' \<and> (r = Inr () \<longrightarrow> (\<exists>m. nodeOf fs' p = Some (LkDir m)))"
  using mkdirAllRev_confined [of R base fs "rev p"] assms by (simp add: lkMkdirAll_def)

lemma confined_write:
  assumes c: "confined R base fs" "dirsAbove R base" and p: "below R p" "normalSegs p" "plainAbove (nodeOf fs) p" "notLink (nodeOf fs) p"
    and run: "lkWrite env mode data p fs = (fs', r)"
  shows "confined R base fs' \<and> sameLinks fs fs' \<and> (r = Inr () \<longrightarrow> (\<exists>i. nodeOf fs' p = Some (LkFile i)))"
proof (cases "lkFails env ''open'' p \<or> (\<nexists>q. lookupAt True p fs = Inr q)")
  case True
  then have "fs' = fs" "r \<noteq> Inr ()" using run by (auto simp: lkWrite_def split: if_splits sum.splits)
  then show ?thesis using c by simp
next
  case False
  then have l: "lookupAt True p fs = Inr p" "\<not> lkFails env ''open'' p" using lookup_ok [OF _ p(2,3)] p(4) by auto
  have pne: "p \<noteq> []" using p(1) c(2) by (auto simp: below_iff dirsAbove_def)
  have par: "\<exists>m. nodeOf fs (butlast p) = Some (LkDir m)" using lookup_ok [OF l(1) p(2,3)] p(4) by simp
  have nx: "lkNext base \<le> lkNext fs" using c(1) unfolding confined_def by blast
  show ?thesis
  proof (cases "nodeOf fs p")
    case None
    let ?ino = "(lkInodes fs)(lkNext fs := \<lparr>inMode = lkUmask env mode, inContent = fst data, inTime = 0\<rparr>)"
    let ?f0 = "fs\<lparr>lkInodes := ?ino, lkNext := lkNext fs + 1\<rparr>"
    have f: "fs' = putLink p (LkFile (lkNext fs)) ?f0"
      using run l None by (auto simp: lkWrite_def put_file)
    have b: "confined R base ?f0" by (rule confined_inodes [OF c(1)]) (use nx in auto)
    have "confined R base fs'" unfolding f by (rule confined_put [OF b c(2) p(1,2)]) (use None par nx in auto)
    moreover have "sameLinks fs fs'" unfolding f using sameLinks_put [OF pne, of "LkFile (lkNext fs)" ?f0] by (simp add: sameLinks_def)
    ultimately show ?thesis unfolding f by (simp add: node_put [OF pne])
  next
    case (Some n)
    show ?thesis
    proof (cases n)
      case (LkFile i)
      let ?ino = "(lkInodes fs)(i := (lkInodes fs i)\<lparr>inContent := fst data\<rparr>)"
      have i: "lkNext base \<le> i" using c(1) p(1) Some LkFile unfolding confined_def by blast
      have f: "fs' = fs\<lparr>lkInodes := ?ino\<rparr>" using run l Some LkFile by (auto simp: lkWrite_def)
      have "confined R base fs'" unfolding f by (rule confined_inodes(2) [OF c(1)]) (use i in auto)
      then show ?thesis using Some LkFile unfolding f by (simp add: sameLinks_def)
    next
      case (LkDir m)
      then have "fs' = fs" "r \<noteq> Inr ()" using run l Some by (auto simp: lkWrite_def)
      then show ?thesis using c by simp
    qed (use p(4) Some in \<open>auto simp: notLink_def\<close>)
  qed
qed

lemma confined_attr:
  assumes c: "confined R base fs" "dirsAbove R base" and p: "below R p" "normalSegs p" "plainAbove (nodeOf fs) p"
    and reg: "nodeOf fs p = Some (LkFile i)" and run: "lkAttr opn f g env p fs = (fs', r)"
  shows "confined R base fs' \<and> (\<forall>q. nodeOf fs' q = nodeOf fs q)"
proof (cases "lkFails env opn p \<or> (\<nexists>q. lookupAt True p fs = Inr q)")
  case True
  then have "fs' = fs" using run by (auto simp: lkAttr_def split: if_splits sum.splits)
  then show ?thesis using c by simp
next
  case False
  have nl: "notLink (nodeOf fs) p" using reg by (simp add: notLink_def)
  then have l: "lookupAt True p fs = Inr p" "\<not> lkFails env opn p" using lookup_ok [OF _ p(2,3)] False by auto
  let ?ino = "(lkInodes fs)(i := f (lkInodes fs i))"
  have i: "lkNext base \<le> i" using c(1) p(1) reg unfolding confined_def by blast
  have f: "fs' = fs\<lparr>lkInodes := ?ino\<rparr>" using run l reg by (auto simp: lkAttr_def)
  have "confined R base fs'" unfolding f by (rule confined_inodes(2) [OF c(1)]) (use i in auto)
  then show ?thesis unfolding f by simp
qed

lemma confined_symlink:
  assumes c: "confined R base fs" "dirsAbove R base" and p: "below R p" "p \<noteq> R" "normalSegs p" "plainAbove (nodeOf fs) p"
    and run: "lkSymlink env t p fs = (fs', r)"
  shows "confined R base fs' \<and> sameLinksBut p fs fs'"
proof (cases "lookupAt False p fs = Inr p \<and> nodeOf fs p = None \<and> \<not> lkFails env ''symlink'' p")
  case True
  have pne: "p \<noteq> []" using p(1) c(2) by (auto simp: below_iff dirsAbove_def)
  have f: "fs' = putLink p (LkLink t) fs" using run True by (simp add: lkSymlink_def)
  have par: "\<exists>m. nodeOf fs (butlast p) = Some (LkDir m)" using lookup_ok [where follow = False and p = p and fs = fs and q = p] p(3,4) True by simp
  show ?thesis unfolding f by (intro conjI confined_put [OF c p(1,3) _ par] sameLinksBut_put [OF pne]) (use True p(2) in auto)
next
  case False
  have k: "q = p" if "lookupAt False p fs = Inr q" for q using lookup_ok [OF that p(3,4)] by simp
  have "fs' = fs"
  proof (cases "lookupAt False p fs")
    case (Inr q)
    then show ?thesis using run False k [OF Inr] by (auto simp: lkSymlink_def split: if_splits)
  qed (use run in \<open>auto simp: lkSymlink_def split: if_splits\<close>)
  then show ?thesis using c by (simp add: sameLinks_But)
qed

lemma confined_link:
  assumes c: "confined R base fs" "dirsAbove R base" and p: "below R p" "p \<noteq> R" "normalSegs p" "plainAbove (nodeOf fs) p"
    and old: "below R old" "normalSegs old" "plainAbove (nodeOf fs) old" and run: "lkLink env old p fs = (fs', r)"
  shows "confined R base fs' \<and> sameLinksBut p fs fs'"
proof (cases "lookupAt False p fs = Inr p \<and> nodeOf fs p = None \<and> lookupAt False old fs = Inr old
    \<and> (\<exists>n. nodeOf fs old = Some n \<and> (\<forall>m. n \<noteq> LkDir m)) \<and> \<not> lkFails env ''link'' p")
  case True
  then obtain n where n: "nodeOf fs old = Some n" "\<And>m. n \<noteq> LkDir m" by blast
  have pne: "p \<noteq> []" using p(1) c(2) by (auto simp: below_iff dirsAbove_def)
  have f: "fs' = putLink p n fs" using run True n by (cases n) (auto simp: lkLink_def)
  have par: "\<exists>m. nodeOf fs (butlast p) = Some (LkDir m)" using lookup_ok [where follow = False and p = p and fs = fs and q = p] p(3,4) True by simp
  have i: "lkNext base \<le> i \<and> i < lkNext fs" if "n = LkFile i" for i using c(1) old(1) n(1) that unfolding confined_def by blast
  show ?thesis unfolding f using confined_put [OF c p(1,3) _ par i] True p(2) sameLinksBut_put [OF pne] by simp
next
  case False
  have "fs' = fs"
  proof (cases "lookupAt False old fs")
    case (Inr q0)
    then have q0: "q0 = old" using lookup_ok [OF Inr old(2,3)] by simp
    show ?thesis
    proof (cases "lookupAt False p fs")
      case (Inr q)
      then have "q = p" using lookup_ok [OF Inr p(3,4)] by simp
      then show ?thesis using run False Inr q0 \<open>lookupAt False old fs = Inr q0\<close>
        by (cases "nodeOf fs old") (auto simp: lkLink_def split: if_splits linkNode.splits)
    qed (use run Inr in \<open>auto simp: lkLink_def split: if_splits\<close>)
  qed (use run in \<open>auto simp: lkLink_def split: if_splits sum.splits\<close>)
  then show ?thesis using c by (simp add: sameLinks_But)
qed

lemma linkChildren_normal:
  assumes "confined R base fs" "below R p" "x \<in> set (linkChildren p fs)"
  shows "normalSeg x"
proof -
  obtain q n where q: "(q, n) \<in> set (lkNodes fs)" "below p q" "length q = length p + 1" "x = last q"
    using assms(3) by (auto simp: linkChildren_def)
  then have ne: "q \<noteq> []" by auto
  have "q \<in> fst ` set (lkNodes fs)" using q(1) by force
  then have "map_of (lkNodes fs) q \<noteq> None" unfolding map_of_eq_None_iff by blast
  then obtain k where "nodeOf fs q = Some k" using ne by (auto simp: nodeOf_def)
  moreover have "below R q" using below_trans [OF assms(2) q(2)] .
  moreover have "\<forall>q n. below R q \<longrightarrow> nodeOf fs q = Some n \<longrightarrow> normalSegs q" using assms(1) unfolding confined_def by blast
  ultimately have "normalSegs q" by blast
  then show ?thesis using q(4) ne by (auto simp: normalSegs_def)
qed

lemma readDir_normal:
  assumes "confined R base fs" "below R p" "normalSegs p" "plainAbove (nodeOf fs) p" "notLink (nodeOf fs) p"
    and "lkReadDir env p fs = Inr names"
  shows "\<forall>x \<in> set names. normalSeg x"
proof -
  have "names = linkChildren p fs" using assms(6) lookup_ok [OF _ assms(3,4)] assms(5)
    by (auto simp: lkReadDir_def andThen_def split: if_splits sum.splits option.splits linkNode.splits)
  then show ?thesis using linkChildren_normal [OF assms(1,2)] by blast
qed

end
