(* ===== verification/Unpack.thy ===== *)
theory Unpack
  imports LinkFS OciStore
begin

text \<open>
  Unpacking the layers of an image into a root file system (oci/unpack.go), on Unix. A layer is
  what the reader of its archive delivers: entries, then the end or an error, a cancelled context
  being one. The bytes of the archive itself are not modelled, nor what only reports progress but
  its counters.
\<close>

section \<open>Paths\<close>

datatype unpackError = UnsafePath string | EscapesRootfs string | LinkInParent string | UnsafeLink string
  | LayerRead | UnpackFS linkError

definition rootfsMarker :: string where "rootfsMarker = ''.rmtx-rootfs-ready''"
definition defaultRootDirMode :: nat where "defaultRootDirMode = 493"
definition unpackDirMode :: nat where "unpackDirMode = 493"
definition unpackFileMode :: nat where "unpackFileMode = 420"

definition cleanTarName :: "string \<Rightarrow> unpackError + string" where
  "cleanTarName name =
     (if CHR 0x00 \<in> set name \<or> isAbs name then Inl (UnsafePath name)
      else let clean = pathClean (trimPrefix name ''./'') in
        if clean = ''.'' then Inr []
        else if ''..'' \<in> set (splitOn slash clean) then Inl (UnsafePath name)
        else Inr clean)"

definition secureLayerPath :: "string \<Rightarrow> string \<Rightarrow> unpackError + string" where
  "secureLayerPath root name =
     (if isAbs name \<or> CHR 0x00 \<in> set name then Inl (UnsafePath name)
      else let clean = pathClean name in
        if clean = ''.'' \<or> hasPrefix clean ''../'' \<or> clean = ''..'' then Inl (UnsafePath name)
        else let target = pathJoin [root, clean] in
          case pathRel root target of
            None \<Rightarrow> Inl (UnsafePath name)
          | Some rel \<Rightarrow> if rel = ''..'' \<or> hasPrefix rel ''../'' then Inl (EscapesRootfs name) else Inr target)"

fun noLinkLoop :: "linkEnv \<Rightarrow> linkFS \<Rightarrow> string \<Rightarrow> string list \<Rightarrow> unpackError + unit" where
  "noLinkLoop env fs current [] = Inr ()"
| "noLinkLoop env fs current (part # parts) =
     (if part = [] \<or> part = ''.'' then noLinkLoop env fs current parts
      else let current' = pathJoin [current, part] in
        case lkLstat env (pathSegs current') fs of
          Inl LkNotExist \<Rightarrow> Inr ()
        | Inl e \<Rightarrow> Inl (UnpackFS e)
        | Inr (LkLink t) \<Rightarrow> Inl (LinkInParent part)
        | Inr n \<Rightarrow> noLinkLoop env fs current' parts)"

definition ensureNoSymlinkParent :: "linkEnv \<Rightarrow> linkFS \<Rightarrow> string \<Rightarrow> string \<Rightarrow> unpackError + unit" where
  "ensureNoSymlinkParent env fs root name = noLinkLoop env fs root (splitOn slash (pathDir name))"

definition validateSymlinkTarget :: "string \<Rightarrow> string \<Rightarrow> string \<Rightarrow> unpackError + unit" where
  "validateSymlinkTarget root name linkname =
     (if CHR 0x00 \<in> set linkname then Inl (UnsafeLink linkname)
      else andThen (if pathDir name = ''.'' then Inr root else secureLayerPath root (pathDir name)) (\<lambda>parent.
        let target =
          (if isAbs linkname then pathJoin [root, trimPrefix (pathClean linkname) ''/'']
           else pathClean (pathJoin [parent, linkname])) in
        case pathRel root target of
          None \<Rightarrow> Inl (UnsafeLink linkname)
        | Some rel \<Rightarrow> if rel = ''..'' \<or> hasPrefix rel ''../'' then Inl (UnsafeLink linkname) else Inr ()))"

definition unpackFileModeOr :: "nat \<Rightarrow> nat \<Rightarrow> nat" where
  "unpackFileModeOr mode fallback = (if mode = 0 then fallback else mode mod 512)"

section \<open>The entries of a layer\<close>

datatype tarKind = TarDir | TarReg | TarSymlink | TarLink | TarOther

text \<open>\<open>thMode\<close> is the mode with its type bits; \<open>thBody\<close> what copying the content delivers.\<close>

record tarHeader =
  thName :: string
  thKind :: tarKind
  thLinkname :: string
  thMode :: nat
  thModTime :: int
  thBody :: "string \<times> linkError option"

type_synonym unpackStep = "linkFS \<Rightarrow> linkFS \<times> (unpackError + unit)"

definition linkStep :: "(linkFS \<Rightarrow> linkFS \<times> (linkError + unit)) \<Rightarrow> unpackStep" where
  "linkStep f fs = (case f fs of (fs', Inl e) \<Rightarrow> (fs', Inl (UnpackFS e)) | (fs', Inr _) \<Rightarrow> (fs', Inr ()))"

definition thenStep :: "unpackStep \<Rightarrow> unpackStep \<Rightarrow> unpackStep" where
  "thenStep f g fs = (case f fs of (fs', Inl e) \<Rightarrow> (fs', Inl e) | (fs', Inr _) \<Rightarrow> g fs')"

fun removeEach :: "linkEnv \<Rightarrow> string \<Rightarrow> string list \<Rightarrow> unpackStep" where
  "removeEach env target [] fs = (fs, Inr ())"
| "removeEach env target (n # ns) fs =
     thenStep (linkStep (lkRemoveAll env (pathSegs (pathJoin [target, n])))) (removeEach env target ns) fs"

definition applyWhiteout :: "linkEnv \<Rightarrow> string \<Rightarrow> string \<Rightarrow> string \<Rightarrow> unpackStep" where
  "applyWhiteout env root dir base fs =
     (if base = ''.wh..wh..opq'' then
        (case secureLayerPath root dir of
           Inl e \<Rightarrow> (fs, Inl e)
         | Inr target \<Rightarrow>
             (case lkReadDir env (pathSegs target) fs of
                Inl e \<Rightarrow> if e = LkNotExist then (fs, Inr ()) else (fs, Inl (UnpackFS e))
              | Inr names \<Rightarrow> removeEach env target names fs))
      else
        (case secureLayerPath root (pathJoin [dir, trimPrefix base ''.wh.'']) of
           Inl e \<Rightarrow> (fs, Inl e)
         | Inr target \<Rightarrow> linkStep (lkRemoveAll env (pathSegs target)) fs))"

definition applyTarEntry :: "linkEnv \<Rightarrow> string \<Rightarrow> tarHeader \<Rightarrow> unpackStep" where
  "applyTarEntry env root hdr fs =
     (case cleanTarName (thName hdr) of
        Inl e \<Rightarrow> (fs, Inl e)
      | Inr name \<Rightarrow>
          if name = [] \<or> name = ''.'' then (fs, Inr ())
          else (case ensureNoSymlinkParent env fs root name of
            Inl e \<Rightarrow> (fs, Inl e)
          | Inr _ \<Rightarrow>
              if hasPrefix (pathBase name) ''.wh.'' then applyWhiteout env root (pathDir name) (pathBase name) fs
              else (case secureLayerPath root name of
                Inl e \<Rightarrow> (fs, Inl e)
              | Inr target \<Rightarrow>
                  let t = pathSegs target; parents = linkStep (lkMkdirAll env unpackDirMode (pathSegs (pathDir target)));
                      clear = linkStep (lkRemoveAll env t) in
                  (case thKind hdr of
                     TarDir \<Rightarrow>
                       thenStep (\<lambda>fs. case lkLstat env t fs of
                           Inr (LkDir m) \<Rightarrow> (fs, Inr ())
                         | Inr n \<Rightarrow> clear fs
                         | Inl e \<Rightarrow> if e = LkNotExist then (fs, Inr ()) else (fs, Inl (UnpackFS e)))
                         (linkStep (lkMkdirAll env (unpackFileModeOr (thMode hdr) defaultRootDirMode) t)) fs
                   | TarReg \<Rightarrow>
                       (let mode = unpackFileModeOr (thMode hdr) unpackFileMode in
                        thenStep parents (thenStep clear (thenStep (linkStep (lkWrite env mode (thBody hdr) t))
                          (thenStep (linkStep (lkChmod env mode t)) (linkStep (lkChtimes env (thModTime hdr) t))))) fs)
                   | TarSymlink \<Rightarrow>
                       (case validateSymlinkTarget root name (thLinkname hdr) of
                          Inl e \<Rightarrow> (fs, Inl e)
                        | Inr _ \<Rightarrow> thenStep parents (thenStep clear (linkStep (lkSymlink env (thLinkname hdr) t))) fs)
                   | TarLink \<Rightarrow>
                       (case ensureNoSymlinkParent env fs root (thLinkname hdr) of
                          Inl e \<Rightarrow> (fs, Inl e)
                        | Inr _ \<Rightarrow>
                            (case secureLayerPath root (thLinkname hdr) of
                               Inl e \<Rightarrow> (fs, Inl e)
                             | Inr linkTarget \<Rightarrow>
                                 thenStep parents (thenStep clear (linkStep (lkLink env (pathSegs linkTarget) t))) fs))
                   | TarOther \<Rightarrow> (fs, Inr ())))))"

section \<open>Layers and images\<close>

datatype tarEvent = TarEntry tarHeader | TarFails

text \<open>The file system after each entry may have other faults: the environment of each entry.\<close>

fun unpackLayer :: "string \<Rightarrow> (linkEnv \<times> tarEvent) list \<Rightarrow> unpackStep" where
  "unpackLayer root [] fs = (fs, Inr ())"
| "unpackLayer root ((env, TarFails) # evs) fs = (fs, Inl LayerRead)"
| "unpackLayer root ((env, TarEntry hdr) # evs) fs = thenStep (applyTarEntry env root hdr) (unpackLayer root evs) fs"

text \<open>A layer whose blob cannot be read has no archive.\<close>

fun unpackLayers :: "string \<Rightarrow> (linkEnv \<times> tarEvent) list option list \<Rightarrow> unpackStep" where
  "unpackLayers root [] fs = (fs, Inr ())"
| "unpackLayers root (None # ls) fs = (fs, Inl LayerRead)"
| "unpackLayers root (Some evs # ls) fs = thenStep (unpackLayer root evs) (unpackLayers root ls) fs"

definition UnpackImage ::
  "linkEnv \<Rightarrow> string \<Rightarrow> string \<Rightarrow> (linkEnv \<times> tarEvent) list option list \<Rightarrow> unpackStep" where
  "UnpackImage env target manifestDigest layers fs =
     (if isOk (lkStat env (pathSegs (pathJoin [target, rootfsMarker])) fs) then (fs, Inr ())
      else
        (let tmp = target @ ''.tmp''; drop = (\<lambda>(fs, e). (fst (lkRemoveAll env (pathSegs tmp) fs), Inl e));
             fs1 = fst (lkRemoveAll env (pathSegs tmp) fs) in
         case lkMkdirAll env unpackDirMode (pathSegs tmp) fs1 of
           (fs2, Inl e) \<Rightarrow> (fs2, Inl (UnpackFS e))
         | (fs2, Inr _) \<Rightarrow>
             (case unpackLayers tmp layers fs2 of
                (fs3, Inl e) \<Rightarrow> drop (fs3, e)
              | (fs3, Inr _) \<Rightarrow>
                  (case lkWrite env unpackFileMode (manifestDigest @ [CHR 0x0A], None)
                          (pathSegs (pathJoin [tmp, rootfsMarker])) fs3 of
                     (fs4, Inl e) \<Rightarrow> drop (fs4, UnpackFS e)
                   | (fs4, Inr _) \<Rightarrow>
                       (let fs5 = fst (lkRemoveAll env (pathSegs target) fs4) in
                        case lkRename env (pathSegs tmp) (pathSegs target) fs5 of
                          (fs6, Inl e) \<Rightarrow> drop (fs6, UnpackFS e)
                        | (fs6, Inr _) \<Rightarrow> (fs6, Inr ()))))))"

section \<open>Progress\<close>

definition unpackProgressMinBytes :: int where "unpackProgressMinBytes = 64 * 2 ^ 20"
definition unpackProgressMinEntries :: int where "unpackProgressMinEntries = 512"
definition unpackProgressMinInterval :: int where "unpackProgressMinInterval = 5 * 1000000000"

datatype progressEvent = LayerStart | LayerProgress | LayerDone

record unpackProgress =
  upLayerIndex :: nat
  upLayerCount :: nat
  upDigest :: string
  upLayerBytes :: int
  upTotalBytes :: int
  upLayerDone :: int
  upTotalDone :: int
  upEntries :: int

text \<open>\<open>rpSent\<close>: what the receiver of the progress was told, the latest first.\<close>

record progressReporter =
  rpWanted :: bool
  rpState :: unpackProgress
  rpLast :: unpackProgress
  rpLastAt :: int
  rpSent :: "(progressEvent \<times> unpackProgress) list"

definition unpackLayerTotalBytes :: "int list \<Rightarrow> int" where
  "unpackLayerTotalBytes sizes = fold (\<lambda>n total. if 0 < n then total + n else total) sizes 0"

definition layerProgressBytes :: "int \<Rightarrow> int \<Rightarrow> int" where
  "layerProgressBytes expected actual = (if 0 < expected then expected else actual)"

definition newUnpackProgressReporter :: "bool \<Rightarrow> nat \<Rightarrow> nat \<Rightarrow> string \<Rightarrow> int \<Rightarrow> int \<Rightarrow> int \<Rightarrow> progressReporter" where
  "newUnpackProgressReporter wanted i n digest layerBytes doneBefore totalBytes =
     \<lparr>rpWanted = wanted,
      rpState = \<lparr>upLayerIndex = i, upLayerCount = n, upDigest = digest, upLayerBytes = layerBytes, upTotalBytes = totalBytes,
        upLayerDone = 0, upTotalDone = doneBefore, upEntries = 0\<rparr>,
      rpLast = \<lparr>upLayerIndex = 0, upLayerCount = 0, upDigest = [], upLayerBytes = 0, upTotalBytes = 0,
        upLayerDone = 0, upTotalDone = 0, upEntries = 0\<rparr>,
      rpLastAt = 0, rpSent = []\<rparr>"

definition reportProgress :: "progressEvent \<Rightarrow> bool \<Rightarrow> int \<Rightarrow> progressReporter \<Rightarrow> progressReporter" where
  "reportProgress ev force now r =
     (if \<not> rpWanted r then r
      else if \<not> force \<and> upLayerDone (rpState r) - upLayerDone (rpLast r) < unpackProgressMinBytes
         \<and> upEntries (rpState r) - upEntries (rpLast r) < unpackProgressMinEntries
         \<and> timeSub now (rpLastAt r) < unpackProgressMinInterval then r
      else r\<lparr>rpSent := (ev, rpState r) # rpSent r, rpLast := rpState r, rpLastAt := now\<rparr>)"

definition resetBytes :: "progressReporter \<Rightarrow> progressReporter" where
  "resetBytes r =
     (let s = rpState r; s' = s\<lparr>upTotalDone := upTotalDone s - upLayerDone s, upLayerDone := 0\<rparr> in
      r\<lparr>rpState := s', rpLast := (rpLast r)\<lparr>upLayerDone := 0, upTotalDone := upTotalDone s'\<rparr>\<rparr>)"

definition addBytes :: "int \<Rightarrow> int \<Rightarrow> progressReporter \<Rightarrow> progressReporter" where
  "addBytes now n r =
     reportProgress LayerProgress False now
       (r\<lparr>rpState := (rpState r)\<lparr>upLayerDone := upLayerDone (rpState r) + n, upTotalDone := upTotalDone (rpState r) + n\<rparr>\<rparr>)"

definition addEntry :: "int \<Rightarrow> progressReporter \<Rightarrow> progressReporter" where
  "addEntry now r = reportProgress LayerProgress False now (r\<lparr>rpState := (rpState r)\<lparr>upEntries := upEntries (rpState r) + 1\<rparr>\<rparr>)"

datatype progressCall = CallStart int | CallBytes int int | CallEntry int | CallReset | CallDone int

definition progressStep :: "progressCall \<Rightarrow> progressReporter \<Rightarrow> progressReporter" where
  "progressStep c r =
     (case c of
        CallStart now \<Rightarrow> reportProgress LayerStart True now r
      | CallBytes now n \<Rightarrow> addBytes now n r
      | CallEntry now \<Rightarrow> addEntry now r
      | CallReset \<Rightarrow> resetBytes r
      | CallDone now \<Rightarrow> reportProgress LayerDone True now r)"

lemma progress_totals:
  "let r0 = newUnpackProgressReporter w i n d lb before tb; r = fold progressStep cs r0
   in upTotalDone (rpState r) = before + upLayerDone (rpState r) \<and> list_all (\<lambda>x. upTotalDone (snd x) = before + upLayerDone (snd x)) (rpSent r)"
proof -
  define ok where "ok r \<longleftrightarrow> upTotalDone (rpState r) = before + upLayerDone (rpState r)
    \<and> list_all (\<lambda>x. upTotalDone (snd x) = before + upLayerDone (snd x)) (rpSent r)" for r :: progressReporter
  have "ok r \<Longrightarrow> ok (progressStep c r)" for c r
    by (cases c) (simp_all add: ok_def progressStep_def reportProgress_def addBytes_def addEntry_def resetBytes_def Let_def)
  then have "ok r \<Longrightarrow> ok (fold progressStep cs r)" for r by (induction cs arbitrary: r) simp_all
  moreover have "ok (newUnpackProgressReporter w i n d lb before tb)" by (simp add: ok_def newUnpackProgressReporter_def)
  ultimately show ?thesis by (simp add: ok_def Let_def)
qed

section \<open>Facts about the paths\<close>

lemma joinOn_rel_not_abs: "\<not> isAbs n \<Longrightarrow> \<not> isAbs (take k n)"
  by (cases n; cases k) (auto simp: isAbs_def)

lemma butlast_cleanSegs_one: "normalSegs (cleanSegs False acc [b]) \<Longrightarrow> slash \<notin> set b \<Longrightarrow> relForm (rev acc) \<Longrightarrow>
    normalSegs (rev acc) \<and> below (butlast (cleanSegs False acc [b])) (rev acc)"
proof -
  assume n: "normalSegs (cleanSegs False acc [b])" and b: "slash \<notin> set b" and rf: "relForm (rev acc)"
  show ?thesis
  proof (cases "b = [] \<or> b = ''.''")
    case True
    then have e: "cleanSegs False acc [b] = rev acc" by auto
    then show ?thesis using n below_butlast_self [of "rev acc"] by (simp only: e)
  next
    case False
    show ?thesis
    proof (cases "b = ''..''")
      case True
      show ?thesis
      proof (cases acc)
        case (Cons a as)
        have "a \<noteq> ''..''" using n True Cons by (auto simp: normalSeg_def)
        then have e: "cleanSegs False acc [b] = rev as" using True Cons by simp
        have "a = ''..'' \<or> normalSeg a" using relForm_member [OF rf, of a] Cons by simp
        then have "normalSegs (rev acc)" using n e \<open>a \<noteq> ''..''\<close> Cons by simp
        moreover have "below (butlast (rev as)) (rev acc)" using below_butlast_self [of "rev as"] below_append [of "rev as" "[a]"] below_trans Cons by force
        ultimately show ?thesis using e by simp
      qed (use n True in \<open>simp add: normalSeg_def\<close>)
    next
      case nd: False
      then show ?thesis using n False by simp
    qed
  qed
qed

lemma pathDir_covers:
  assumes "isLocal n"
  shows "normalSegs (pathSegs (pathDir n)) \<and> below (butlast (pathSegs n)) (pathSegs (pathDir n)) \<and> \<not> isAbs (pathDir n)"
proof -
  have rel: "\<not> isAbs n" using assms by (simp add: isLocal_def)
  have norm: "normalSegs (pathSegs n)" by (rule pathSegs_local [OF assms])
  have dir: "\<not> isAbs (pathDir n)" unfolding pathDir_def isAbs_pathClean using joinOn_rel_not_abs [OF rel] .
  show ?thesis
  proof (cases "slash \<in> set n")
    case False
    then have li: "lastIndex slash n = -1" by simp
    have t: "take (nat (lastIndex slash n + 1)) n = []" unfolding li by simp
    have d: "pathDir n = ''.''" by (simp only: pathDir_def t) (simp add: pathClean_def pathSegs_def isAbs_def)
    have "pathSegs n = cleanSegs False [] [n]" using False rel by (simp add: pathSegs_def splitOn_free)
    then have "below (butlast (pathSegs n)) []" using butlast_cleanSegs_one [of "[]" n] norm False relForm_dots [of 0] by simp
    moreover have "pathSegs ''.'' = []" by (simp add: pathSegs_def isAbs_def)
    ultimately show ?thesis using d dir by simp
  next
    case True
    obtain u b where n: "n = u @ slash # b" "slash \<notin> set b" using split_list_last [OF True] by blast
    have "lastIndex slash n = int (length u)"
      unfolding n(1) lastIndex_append using n(2) lastIndex_neg [of slash b] by (simp add: Let_def)
    moreover have "nat (int (length u) + 1) = Suc (length u)" by simp
    ultimately have t: "pathDir n = pathClean (u @ [slash])" unfolding pathDir_def using n(1) by simp
    have relu: "\<not> isAbs (u @ [slash])" using rel joinOn_rel_not_abs [OF rel, of "length u + 1"] n(1) by simp
    let ?acc = "rev (cleanSegs False [] (splitOn slash u))"
    have d: "pathSegs (pathDir n) = rev ?acc"
      unfolding t pathSegs_pathClean unfolding pathSegs_def using relu splitOn_app_slash [of slash u "[]"] by (simp add: cleanSegs_append)
    have s: "pathSegs n = cleanSegs False ?acc [b]"
      unfolding pathSegs_def using rel n splitOn_app_slash [of slash u b] by (simp add: splitOn_free cleanSegs_append)
    have "relForm (rev ?acc)" using pathSegs_rel [of "pathDir n"] dir d by simp
    then show ?thesis using butlast_cleanSegs_one [of ?acc b] norm n(2) s d dir by simp
  qed
qed

lemma splitOn_clean_rel:
  assumes "\<not> isAbs d" "d = pathClean x"
  shows "filter (\<lambda>p. p \<noteq> [] \<and> p \<noteq> ''.'') (splitOn slash d) = pathSegs d"
proof -
  have rx: "\<not> isAbs x" using assms by simp
  show ?thesis
  proof (cases "pathSegs x = []")
    case True
    then have "d = ''.''" using assms(2) rx by (simp add: pathClean_def)
    then show ?thesis by (simp add: pathSegs_def isAbs_def)
  next
    case False
    have rf: "relForm (pathSegs x)" by (rule pathSegs_rel [OF rx])
    have "d = joinOn slash (pathSegs x)" using assms(2) rx False by (simp add: pathClean_def)
    then have s: "splitOn slash d = pathSegs x" using splitOn_joinOn [OF False] relForm_free [OF rf] by simp
    have "filter (\<lambda>p. p \<noteq> [] \<and> p \<noteq> ''.'') (pathSegs x) = pathSegs x"
      using relForm_member [OF rf] by (intro filter_True) (auto simp: normalSeg_def)
    then show ?thesis using s assms(2) by simp
  qed
qed

lemma secureLayerPath_facts:
  assumes "secureLayerPath root name = Inr target" "isAbs root"
  shows "isLocal name \<and> pathSegs name \<noteq> [] \<and> normalSegs (pathSegs name) \<and> pathSegs target = pathSegs root @ pathSegs name
    \<and> isAbs target \<and> pathClean target = target"
proof -
  have a: "\<not> isAbs name" "pathClean name \<noteq> ''.''" "\<not> hasPrefix (pathClean name) ''../''" "pathClean name \<noteq> ''..''"
    and t: "target = pathJoin [root, pathClean name]"
    using assms(1) by (auto simp: secureLayerPath_def Let_def split: if_splits option.splits)
  have "name \<noteq> []" using a(2) by (auto simp: pathClean_def pathSegs_def isAbs_def)
  then have l: "isLocal name" using a by (simp add: isLocal_def)
  have "pathSegs name \<noteq> []" using a(1,2) by (auto simp: pathClean_def)
  moreover have "pathSegs target = pathSegs root @ pathSegs name"
    unfolding t using pathJoin_below [OF assms(2) isLocal_pathClean [OF l]] by simp
  moreover have "isAbs target" unfolding t by (rule isAbs_joined [OF assms(2)])
  moreover have "pathClean target = target" unfolding t using assms(2) by (intro pathClean_pathJoin) (auto simp: isAbs_def)
  ultimately show ?thesis using l pathSegs_local [OF l] by blast
qed

lemma cleanTarName_clean: "cleanTarName name = Inr n \<Longrightarrow> n = [] \<or> (\<exists>x. n = pathClean x)"
  by (auto simp: cleanTarName_def Let_def split: if_splits)

lemma pathDir_target:
  assumes "isAbs t" "pathClean t = t" "pathSegs t \<noteq> []"
  shows "pathSegs (pathDir t) = butlast (pathSegs t)"
  using pathSegs_pathDir [OF assms(1,2), of "butlast (pathSegs t)" "last (pathSegs t)"] assms(3) by simp

section \<open>Facts about the steps\<close>

lemma thenStep_cases:
  assumes "thenStep f g fs = (fs', r)"
  shows "(\<exists>e. f fs = (fs', Inl e) \<and> r = Inl e) \<or> (\<exists>fs1. f fs = (fs1, Inr ()) \<and> g fs1 = (fs', r))"
  using assms by (auto simp: thenStep_def split: prod.splits sum.splits)

lemma linkStep_cases:
  assumes "linkStep f fs = (fs', r)"
  shows "\<exists>r0. f fs = (fs', r0) \<and> (r = Inr () \<longrightarrow> r0 = Inr ())"
  using assms by (auto simp: linkStep_def split: prod.splits sum.splits)

lemma noLinkLoop_plain:
  assumes "confined R base fs" "dirsAbove R base" "isAbs cur" "below R (pathSegs cur)"
    and "plainAbove (nodeOf fs) (pathSegs cur)" "notLink (nodeOf fs) (pathSegs cur)"
    and "noLinkLoop env fs cur parts = Inr ()" "normalSegs (filter (\<lambda>p. p \<noteq> [] \<and> p \<noteq> ''.'') parts)"
  shows "plainAbove (nodeOf fs) (pathSegs cur @ filter (\<lambda>p. p \<noteq> [] \<and> p \<noteq> ''.'') parts)
    \<and> notLink (nodeOf fs) (pathSegs cur @ filter (\<lambda>p. p \<noteq> [] \<and> p \<noteq> ''.'') parts)"
  using assms
proof (induction parts arbitrary: cur)
  case (Cons part parts)
  show ?case
  proof (cases "part = [] \<or> part = ''.''")
    case True
    then have "noLinkLoop env fs cur parts = Inr ()" using Cons.prems(7) by auto
    then show ?thesis using Cons True by auto
  next
    case False
    let ?c = "pathJoin [cur, part]"
    have np: "normalSeg part" using Cons.prems(8) False by simp
    have s: "pathSegs ?c = pathSegs cur @ [part]" using pathSegs_join_names [OF Cons.prems(3), of "[part]"] np by simp
    have ns: "normalSegs (pathSegs ?c)" using pathSegs_abs [OF isAbs_joined [OF Cons.prems(3)]] .
    have pl: "plainAbove (nodeOf fs) (pathSegs ?c)" unfolding s by (rule plainAbove_snoc [OF Cons.prems(5,6)])
    have bl: "below R (pathSegs ?c)" unfolding s using Cons.prems(4) by (auto simp: below_iff)
    show ?thesis
    proof (cases "lkLstat env (pathSegs ?c) fs")
      case (Inr n)
      then have nl: "notLink (nodeOf fs) (pathSegs ?c)"
        using Cons.prems(7) False statAt_ok [OF _ ns pl, of False env n] by (cases n) (auto simp: lkLstat_def notLink_def)
      have run: "noLinkLoop env fs ?c parts = Inr ()" using Cons.prems(7) False Inr by (cases n) auto
      have nn: "normalSegs (filter (\<lambda>p. p \<noteq> [] \<and> p \<noteq> ''.'') parts)" using Cons.prems(8) by (auto split: if_splits)
      show ?thesis using Cons.IH [OF Cons.prems(1,2) isAbs_joined [OF Cons.prems(3)] bl pl nl run nn] s False by simp
    next
      case (Inl e)
      then have e: "lkLstat env (pathSegs ?c) fs = Inl LkNotExist" using Cons.prems(7) False by (cases e) auto
      have none: "nodeOf fs (pathSegs ?c) = None"
        using e lookup_none [OF Cons.prems(1,2) bl ns pl, of False]
          lookup_ok [where follow = False and p = "pathSegs ?c" and fs = fs, OF _ ns pl]
        by (auto simp: lkLstat_def statAt_def andThen_def split: if_splits sum.splits option.splits)
      have "\<forall>t. nodeOf fs r \<noteq> Some (LkLink t)" if r: "below r (pathSegs ?c @ xs)" for r xs
      proof (cases "below (pathSegs ?c) r")
        case True
        then show ?thesis using confined_closed [OF Cons.prems(1) bl True none] by simp
      next
        case False
        then have "below r (pathSegs ?c)" "r \<noteq> pathSegs ?c" using below_two [OF r below_append] by auto
        then show ?thesis using pl unfolding plainAbove_def by blast
      qed
      then have "plainAbove (nodeOf fs) (pathSegs ?c @ xs)" "notLink (nodeOf fs) (pathSegs ?c @ xs)" for xs
        unfolding plainAbove_def notLink_def by (blast, metis below_append append_Nil2)
      then show ?thesis using s False by simp
    qed
  qed
qed simp

lemma ensureNoSymlinkParent_plain:
  assumes "confined R base fs" "dirsAbove R base" "isAbs root" "R = pathSegs root"
    and "ensureNoSymlinkParent env fs root name = Inr ()" "isLocal name"
  shows "plainAbove (nodeOf fs) (R @ pathSegs name) \<and> plainAbove (nodeOf fs) (R @ pathSegs (pathDir name))
    \<and> notLink (nodeOf fs) (R @ pathSegs (pathDir name))"
proof -
  note d = pathDir_covers [OF assms(6)]
  have "pathDir name = pathClean (take (nat (lastIndex slash name + 1)) name)" by (simp add: pathDir_def)
  note f = splitOn_clean_rel [OF conjunct2 [OF conjunct2 [OF d]] this]
  have R: "plainAbove (nodeOf fs) R" using above_dir [OF assms(1,2)] unfolding plainAbove_def by fastforce
  have R': "notLink (nodeOf fs) R" using assms(1) unfolding confined_def by blast
  have k: "plainAbove (nodeOf fs) (R @ pathSegs (pathDir name)) \<and> notLink (nodeOf fs) (R @ pathSegs (pathDir name))"
    using noLinkLoop_plain [OF assms(1,2,3), of env "splitOn slash (pathDir name)"] R R' assms(4,5) d f
    by (simp add: ensureNoSymlinkParent_def)
  have "below r (R @ pathSegs (pathDir name))" if r: "below r (R @ pathSegs name)" "r \<noteq> R @ pathSegs name" for r
  proof -
    have "below r (butlast (R @ pathSegs name))"
    proof -
      obtain s where s: "R @ pathSegs name = r @ s" using r(1) by (auto simp: below_iff)
      then have "s \<noteq> []" using r(2) by auto
      then show ?thesis unfolding s by (simp add: butlast_append)
    qed
    moreover have "below (butlast (R @ pathSegs name)) (R @ pathSegs (pathDir name))"
    proof (cases "pathSegs name = []")
      case True
      then show ?thesis using below_trans [OF below_butlast_self below_append, of R] by simp
    next
      case False
      then show ?thesis using d by (auto simp: butlast_append below_iff)
    qed
    ultimately show ?thesis by (rule below_trans)
  qed
  then show ?thesis using k unfolding plainAbove_def notLink_def by metis
qed

text \<open>What a step at the path \<open>p\<close> keeps, and what it needs.\<close>

definition stepInv :: "string list \<Rightarrow> linkFS \<Rightarrow> linkFS \<Rightarrow> linkFS \<Rightarrow> bool" where
  "stepInv R base fs fs' \<longleftrightarrow> confined R base fs' \<and> sameLinks fs fs'"

lemma removeEach_inv:
  assumes "confined R base fs" "dirsAbove R base" "isAbs t" "below R (pathSegs t)"
    and "plainAbove (nodeOf fs) (pathSegs t)" "notLink (nodeOf fs) (pathSegs t)"
    and "removeEach env t ns fs = (fs', r)" "\<forall>n \<in> set ns. normalSeg n"
  shows "stepInv R base fs fs'"
  using assms
proof (induction ns arbitrary: fs)
  case (Cons n ns)
  let ?p = "pathSegs (pathJoin [t, n])"
  have s: "?p = pathSegs t @ [n]" using pathSegs_join_names [OF Cons.prems(3), of "[n]"] Cons.prems(8) by simp
  have ns: "normalSegs ?p" using pathSegs_abs [OF isAbs_joined [OF Cons.prems(3)]] .
  have pl: "plainAbove (nodeOf fs) ?p" unfolding s by (rule plainAbove_snoc [OF Cons.prems(5,6)])
  have bl: "below R ?p" unfolding s using Cons.prems(4) by (auto simp: below_iff)
  obtain fs1 r1 where f: "lkRemoveAll env ?p fs = (fs1, r1)" by fastforce
  note k = confined_remove [OF Cons.prems(1,2) bl ns pl f]
  show ?case
  proof (cases r1)
    case (Inl e)
    then have "fs' = fs1" using Cons.prems(7) f by (simp add: thenStep_def linkStep_def)
    then show ?thesis using k by (simp add: stepInv_def)
  next
    case (Inr u)
    then have run: "removeEach env t ns fs1 = (fs', r)" using Cons.prems(7) f by (simp add: thenStep_def linkStep_def)
    have "stepInv R base fs1 fs'"
      by (rule Cons.IH [OF _ Cons.prems(2,3,4) _ _ run])
        (use k Cons.prems(5,6,8) sameLinks_plain sameLinks_notLink in auto)
    then show ?thesis using k sameLinks_trans by (auto simp: stepInv_def)
  qed
qed (simp add: stepInv_def)

lemma applyWhiteout_inv:
  assumes c: "confined R base fs" "dirsAbove R base" "isAbs root" "R = pathSegs root"
    and l: "ensureNoSymlinkParent env fs root name = Inr ()" "name = pathClean x" "isAbs name \<or> isLocal name"
    and run: "applyWhiteout env root (pathDir name) base0 fs = (fs', r)" and seg: "slash \<notin> set base0"
  shows "stepInv R base fs fs'"
proof (cases "isAbs name")
  case True
  have "isAbs (pathDir name)" unfolding pathDir_def isAbs_pathClean
  proof -
    have "slash \<in> set name" using True by (cases name) (auto simp: isAbs_def)
    then have "0 \<le> lastIndex slash name" using lastIndex_neg [of slash name] by linarith
    then have k: "nat (lastIndex slash name + 1) = Suc (nat (lastIndex slash name))" by simp
    obtain w where "name = slash # w" using True by (cases name) (auto simp: isAbs_def)
    then have "isAbs (take (Suc m) name)" for m by (simp add: isAbs_def)
    then show "isAbs (take (nat (lastIndex slash name + 1)) name)" unfolding k .
  qed
  then have "fs' = fs"
    using run isAbs_joined [of "pathDir name"] by (auto simp: applyWhiteout_def secureLayerPath_def split: if_splits)
  then show ?thesis using c by (simp add: stepInv_def)
next
  case False
  then have loc: "isLocal name" using l(3) by simp
  note e = ensureNoSymlinkParent_plain [OF c(1-4) l(1) loc]
  let ?d = "pathDir name"
  show ?thesis
  proof (cases "base0 = ''.wh..wh..opq''")
    case True
    show ?thesis
    proof (cases "secureLayerPath root ?d")
      case (Inl u)
      then show ?thesis using run True c by (simp add: applyWhiteout_def stepInv_def)
    next
      case (Inr t)
      note s = secureLayerPath_facts [OF Inr c(3)]
      have bl: "below R (pathSegs t)" using s c(4) by (auto simp: below_iff)
      have ns: "normalSegs (pathSegs t)" using pathSegs_abs s by blast
      have pl: "plainAbove (nodeOf fs) (pathSegs t)" "notLink (nodeOf fs) (pathSegs t)" using e s c(4) by simp_all
      show ?thesis
      proof (cases "lkReadDir env (pathSegs t) fs")
        case (Inl u)
        then have "fs' = fs" using run True Inr by (auto simp: applyWhiteout_def split: if_splits)
        then show ?thesis using c by (simp add: stepInv_def)
      next
        case names: (Inr names)
        have "removeEach env t names fs = (fs', r)" using run True Inr names by (simp add: applyWhiteout_def)
        moreover have "\<forall>n \<in> set names. normalSeg n" by (rule readDir_normal [OF c(1) bl ns pl names])
        ultimately show ?thesis using removeEach_inv [OF c(1,2) _ bl pl] s by blast
      qed
    qed
  next
    case False
    let ?del = "pathJoin [?d, trimPrefix base0 ''.wh.'']"
    show ?thesis
    proof (cases "secureLayerPath root ?del")
      case (Inl u)
      then show ?thesis using run False c by (simp add: applyWhiteout_def stepInv_def)
    next
      case (Inr t)
      note s = secureLayerPath_facts [OF Inr c(3)]
      have bl: "below R (pathSegs t)" using s c(4) by (auto simp: below_iff)
      have ns: "normalSegs (pathSegs t)" using pathSegs_abs s by blast
      have dc: "normalSegs (pathSegs ?d)" "\<not> isAbs ?d" "?d \<noteq> []" using pathDir_covers [OF loc] by (auto simp: pathDir_def)
      have fr: "slash \<notin> set (trimPrefix base0 ''.wh.'')" using seg by (auto simp: trimPrefix_def dest: in_set_dropD)
      have "below (butlast (pathSegs ?del)) (pathSegs ?d)"
      proof -
        let ?b = "trimPrefix base0 ''.wh.''"
        have "pathSegs ?del = pathSegs (?d @ slash # ?b)" using dc(3) by (simp add: pathJoin_def)
        also have "\<dots> = cleanSegs False [] (splitOn slash ?d @ [?b])"
        proof -
          have "\<not> isAbs (?d @ slash # ?b)" using dc(2,3) by (cases ?d) (simp_all add: isAbs_def)
          moreover have "splitOn slash (?d @ slash # ?b) = splitOn slash ?d @ [?b]" unfolding splitOn_app_slash using fr by (simp add: splitOn_free)
          ultimately show ?thesis by (simp add: pathSegs_def)
        qed
        also have "\<dots> = cleanSegs False (rev (pathSegs ?d)) [?b]" using dc(2) by (simp add: cleanSegs_append pathSegs_def)
        finally have e: "pathSegs ?del = cleanSegs False (rev (pathSegs ?d)) [?b]" .
        have "normalSegs (pathSegs ?del)" using s by simp
        then show ?thesis using butlast_cleanSegs_one [of "rev (pathSegs ?d)" ?b] fr pathSegs_rel [OF dc(2)] e by simp
      qed
      then have "below (butlast (pathSegs t)) (R @ pathSegs ?d)"
        using s c(4) by (auto simp: butlast_append below_iff)
      then have pl: "plainAbove (nodeOf fs) (pathSegs t)"
      proof -
        assume b: "below (butlast (pathSegs t)) (R @ pathSegs ?d)"
        have "below r (R @ pathSegs ?d)" if r: "below r (pathSegs t)" "r \<noteq> pathSegs t" for r
        proof -
          obtain w where w: "pathSegs t = r @ w" using r(1) by (auto simp: below_iff)
          then have "w \<noteq> []" using r(2) by auto
          then have "below r (butlast (pathSegs t))" unfolding w by (simp add: butlast_append)
          then show ?thesis using b by (rule below_trans)
        qed
        then show ?thesis using e unfolding plainAbove_def notLink_def by metis
      qed
      obtain fs1 r1 where f: "lkRemoveAll env (pathSegs t) fs = (fs1, r1)" by fastforce
      have "fs' = fs1" using run False Inr f by (cases r1) (auto simp: applyWhiteout_def linkStep_def)
      then show ?thesis using confined_remove [OF c(1,2) bl ns pl f] by (simp add: stepInv_def)
    qed
  qed
qed

definition newLinkAt :: "string list \<Rightarrow> tarHeader \<Rightarrow> string list \<Rightarrow> bool" where
  "newLinkAt R hdr p \<longleftrightarrow> (thKind hdr = TarSymlink \<or> thKind hdr = TarLink) \<and> (\<exists>n. cleanTarName (thName hdr) = Inr n \<and> isLocal n \<and> p = R @ pathSegs n)"

lemma clear_inv:
  assumes c: "confined R base fs" "dirsAbove R base" and p: "below R p" "p \<noteq> R" "normalSegs p"
    and pl: "plainAbove (nodeOf fs) p" and d: "pathSegs dir = butlast p" "p \<noteq> []"
    and run: "thenStep (linkStep (lkMkdirAll env m (pathSegs dir))) (thenStep (linkStep (lkRemoveAll env p)) g) fs = (fs', r)"
    and g: "\<And>fs2. stepInv R base fs fs2 \<Longrightarrow> nodeOf fs2 p = None \<Longrightarrow> g fs2 = (fs', r) \<Longrightarrow> Q fs'"
    and stop: "stepInv R base fs fs' \<Longrightarrow> Q fs'"
  shows "Q fs'"
proof -
  have pb: "p = butlast p @ [last p]" using d(2) by simp
  have bp: "below R (butlast p)" using parent_below [OF p(1,2)] .
  have nb: "normalSegs (butlast p)" using p(3) pb by (metis normalSegs_simps(3))
  have plb: "plainAbove (nodeOf fs) (butlast p)" "notLink (nodeOf fs) (butlast p)" using plainAbove_butlast [of "nodeOf fs" "butlast p" "last p"] pl pb by simp_all
  obtain fs1 r1 where m: "lkMkdirAll env m (butlast p) fs = (fs1, r1)" by fastforce
  note k1 = confined_mkdirAll [OF c bp nb plb m]
  have pl1: "plainAbove (nodeOf fs1) p" using k1 pl sameLinks_plain by blast
  show ?thesis
  proof (cases r1)
    case (Inl e)
    then have "fs' = fs1" using run m d(1) by (simp add: thenStep_def linkStep_def)
    then show ?thesis using stop k1 by (simp add: stepInv_def)
  next
    case (Inr u)
    obtain fs2 r2 where m2: "lkRemoveAll env p fs1 = (fs2, r2)" by fastforce
    note k2 = confined_remove [OF conjunct1 [OF k1] c(2) p(1,3) pl1 m2]
    have si: "stepInv R base fs fs2" using k1 k2 sameLinks_trans by (auto simp: stepInv_def)
    show ?thesis
    proof (cases r2)
      case (Inl e)
      then have "fs' = fs2" using run m m2 d(1) Inr by (simp add: thenStep_def linkStep_def)
      then show ?thesis using stop si by simp
    next
      case i2: (Inr u2)
      have "g fs2 = (fs', r)" using run m m2 d(1) Inr i2 by (simp add: thenStep_def linkStep_def)
      then show ?thesis using g [OF si] k2 i2 by simp
    qed
  qed
qed

lemma regular_inv:
  assumes c: "confined R base fs" "dirsAbove R base" and p: "below R p" "normalSegs p"
    and pl: "plainAbove (nodeOf fs) p" and none: "nodeOf fs p = None"
    and run: "thenStep (linkStep (lkWrite env m body p)) (thenStep (linkStep (lkChmod env m' p)) (linkStep (lkChtimes env t p))) fs = (fs', r)"
  shows "stepInv R base fs fs'"
proof -
  have nl: "notLink (nodeOf fs) p" using none by (simp add: notLink_def)
  obtain fs1 r1 where w: "lkWrite env m body p fs = (fs1, r1)" by fastforce
  note k1 = confined_write [OF c p pl nl w]
  show ?thesis
  proof (cases r1)
    case (Inl e)
    then have "fs' = fs1" using run w by (simp add: thenStep_def linkStep_def)
    then show ?thesis using k1 by (simp add: stepInv_def)
  next
    case (Inr u)
    then obtain i where i: "nodeOf fs1 p = Some (LkFile i)" using k1 by auto
    have pl1: "plainAbove (nodeOf fs1) p" using k1 pl sameLinks_plain by blast
    obtain fs2 r2 where c2: "lkChmod env m' p fs1 = (fs2, r2)" by fastforce
    note k2 = confined_attr [OF conjunct1 [OF k1] c(2) p pl1 i c2 [unfolded lkChmod_def]]
    have e2: "nodeOf fs2 = nodeOf fs1" using k2 by auto
    show ?thesis
    proof (cases r2)
      case (Inl e)
      then have "fs' = fs2" using run w Inr c2 by (simp add: thenStep_def linkStep_def)
      then show ?thesis using k1 k2 by (simp add: stepInv_def sameLinks_def)
    next
      case i2: (Inr u2)
      obtain fs3 r3 where c3: "lkChtimes env t p fs2 = (fs3, r3)" by fastforce
      have "plainAbove (nodeOf fs2) p" "nodeOf fs2 p = Some (LkFile i)" using pl1 i e2 by simp_all
      note k3 = confined_attr [OF conjunct1 [OF k2] c(2) p this c3 [unfolded lkChtimes_def]]
      have "fs' = fs3" using run w Inr c2 i2 c3 by (cases r3) (auto simp: thenStep_def linkStep_def)
      then show ?thesis using k1 k3 e2 by (simp add: stepInv_def sameLinks_def)
    qed
  qed
qed

lemma applyTarEntry_inv:
  assumes c: "confined R base fs" "dirsAbove R base" "isAbs root" "R = pathSegs root"
    and run: "applyTarEntry env root hdr fs = (fs', r)"
  shows "confined R base fs' \<and> (sameLinks fs fs' \<or> (\<exists>p. newLinkAt R hdr p \<and> sameLinksBut p fs fs'))"
proof -
  have stop: "confined R base fs' \<and> (sameLinks fs fs' \<or> (\<exists>p. newLinkAt R hdr p \<and> sameLinksBut p fs fs'))"
    if "stepInv R base fs fs'" using that by (simp add: stepInv_def)
  have same: "stepInv R base fs fs" using c by (simp add: stepInv_def)
  show ?thesis
  proof (cases "\<exists>name. cleanTarName (thName hdr) = Inr name \<and> name \<noteq> [] \<and> name \<noteq> ''.'' \<and> ensureNoSymlinkParent env fs root name = Inr ()")
    case False
    then have "fs' = fs" using run by (auto simp: applyTarEntry_def split: sum.splits if_splits)
    then show ?thesis using stop same by simp
  next
    case True
    then obtain name where n: "cleanTarName (thName hdr) = Inr name" "name \<noteq> []" "name \<noteq> ''.''" "ensureNoSymlinkParent env fs root name = Inr ()"
      by blast
    obtain x where x: "name = pathClean x" using cleanTarName_clean [OF n(1)] n(2) by blast
    have al: "isAbs name \<or> isLocal name"
    proof -
      have "''..'' \<notin> set (splitOn slash name)" using n(1,2) by (auto simp: cleanTarName_def Let_def split: if_splits)
      then have "name \<noteq> ''..''" "\<not> hasPrefix name ''../''"
        by (auto simp: hasPrefix_iff splitOn_append [of slash "''..''"])
      then show ?thesis using n(2) x by (auto simp: isLocal_def)
    qed
    show ?thesis
    proof (cases "hasPrefix (pathBase name) ''.wh.''")
      case True
      have seg: "slash \<notin> set (pathBase name)"
      proof
        assume s: "slash \<in> set (pathBase name)"
        define q where "q = trimRightByte slash name"
        show False
        proof (cases "q = []")
          case True
          then have "pathBase name = ''/''" using n(2) by (simp add: pathBase_def q_def)
          then show False using \<open>hasPrefix (pathBase name) ''.wh.''\<close> by simp
        next
          case False
          then have b: "pathBase name = drop (nat (lastIndex slash q + 1)) q" using n(2) by (simp add: pathBase_def q_def Let_def)
          show False
          proof (cases "slash \<in> set q")
            case True
            obtain u v where q: "q = u @ slash # v" "slash \<notin> set v" using split_list_last [OF True] by blast
            have "lastIndex slash q = int (length u)"
              unfolding q(1) lastIndex_append using q(2) lastIndex_neg [of slash v] by (simp add: Let_def)
            moreover have "nat (int (length u) + 1) = Suc (length u)" by simp
            ultimately have "pathBase name = v" unfolding b using q(1) by simp
            then show False using s q(2) by simp
          next
            case False
            then show False using s unfolding b by (blast dest: in_set_dropD)
          qed
        qed
      qed
      have "applyWhiteout env root (pathDir name) (pathBase name) fs = (fs', r)" using run n True by (simp add: applyTarEntry_def)
      then show ?thesis using applyWhiteout_inv [OF c n(4) x al _ seg] stop by blast
    next
      case wh: False
      show ?thesis
      proof (cases "secureLayerPath root name")
        case (Inl e)
        then have "fs' = fs" using run n wh by (simp add: applyTarEntry_def)
        then show ?thesis using stop same by simp
      next
        case (Inr t)
        note s = secureLayerPath_facts [OF Inr c(3)]
        let ?p = "pathSegs t"
        have loc: "isLocal name" and ne: "pathSegs name \<noteq> []" and tp: "?p = R @ pathSegs name" "isAbs t" "pathClean t = t" using s c(4) by simp_all
        have bl: "below R ?p" "?p \<noteq> R" "?p \<noteq> []" using tp ne by auto
        have ns: "normalSegs ?p" using pathSegs_abs [OF tp(2)] .
        have pl: "plainAbove (nodeOf fs) ?p" using ensureNoSymlinkParent_plain [OF c n(4) loc] tp by simp
        have dt: "pathSegs (pathDir t) = butlast ?p" by (rule pathDir_target [OF tp(2,3) bl(3)])
        let ?parents = "linkStep (lkMkdirAll env unpackDirMode (pathSegs (pathDir t)))" and ?clear = "linkStep (lkRemoveAll env ?p)"
        show ?thesis
        proof (cases "thKind hdr")
          case TarReg
          let ?m = "unpackFileModeOr (thMode hdr) unpackFileMode"
          have "thenStep ?parents (thenStep ?clear (thenStep (linkStep (lkWrite env ?m (thBody hdr) ?p))
              (thenStep (linkStep (lkChmod env ?m ?p)) (linkStep (lkChtimes env (thModTime hdr) ?p))))) fs = (fs', r)"
            using run n wh Inr TarReg by (simp add: applyTarEntry_def Let_def)
          then have "stepInv R base fs fs'"
          proof (rule clear_inv [OF c(1,2) bl(1,2) ns pl dt bl(3)])
            fix fs2 assume a: "stepInv R base fs fs2" "nodeOf fs2 ?p = None"
              "thenStep (linkStep (lkWrite env ?m (thBody hdr) ?p))
                (thenStep (linkStep (lkChmod env ?m ?p)) (linkStep (lkChtimes env (thModTime hdr) ?p))) fs2 = (fs', r)"
            have "plainAbove (nodeOf fs2) ?p" using a(1) pl sameLinks_plain unfolding stepInv_def by blast
            then have "stepInv R base fs2 fs'" using regular_inv [OF _ c(2) bl(1) ns _ a(2,3)] a(1) unfolding stepInv_def by blast
            then show "stepInv R base fs fs'" using a(1) sameLinks_trans unfolding stepInv_def by blast
          qed
          then show ?thesis by (rule stop)
        next
          case TarDir
          let ?look = "\<lambda>fs. case lkLstat env ?p fs of Inr (LkDir m) \<Rightarrow> (fs, Inr ()) | Inr n \<Rightarrow> ?clear fs
            | Inl e \<Rightarrow> if e = LkNotExist then (fs, Inr ()) else (fs, Inl (UnpackFS e))"
          have go: "thenStep ?look (linkStep (lkMkdirAll env (unpackFileModeOr (thMode hdr) defaultRootDirMode) ?p)) fs = (fs', r)"
            using run n wh Inr TarDir by (simp add: applyTarEntry_def Let_def)
          obtain fs1 r1 where f1: "?look fs = (fs1, r1)" by fastforce
          have i1: "stepInv R base fs fs1 \<and> (r1 = Inr () \<longrightarrow> notLink (nodeOf fs1) ?p)"
          proof (cases "lkLstat env ?p fs")
            case (Inl e)
            then have r: "fs1 = fs" "r1 = Inr () \<Longrightarrow> e = LkNotExist" using f1 by (auto split: if_splits)
            have "notLink (nodeOf fs) ?p" if "e = LkNotExist"
              using Inl that lookup_none [OF c(1,2) bl(1) ns pl, of False] lookup_ok [where follow = False and p = "?p" and fs = fs, OF _ ns pl]
              by (auto simp: lkLstat_def statAt_def andThen_def notLink_def split: if_splits sum.splits option.splits)
            then show ?thesis using r same by blast
          next
            case (Inr k)
            have at: "nodeOf fs ?p = Some k" using statAt_ok [OF _ ns pl, of False env k] Inr by (simp add: lkLstat_def)
            show ?thesis
            proof (cases "\<exists>m. k = LkDir m")
              case True
              then show ?thesis using f1 Inr at same by (auto simp: notLink_def)
            next
              case False
              then have f: "linkStep (lkRemoveAll env ?p) fs = (fs1, r1)" using f1 Inr by (cases k) auto
              obtain r0 where r0: "lkRemoveAll env ?p fs = (fs1, r0)" "r1 = Inr () \<longrightarrow> r0 = Inr ()" using linkStep_cases [OF f] by blast
              show ?thesis using confined_remove [OF c(1,2) bl(1) ns pl r0(1)] r0(2) by (auto simp: stepInv_def notLink_def)
            qed
          qed
          show ?thesis
          proof (cases r1)
            case (Inl e)
            then have "fs' = fs1" using go f1 by (simp add: thenStep_def)
            then show ?thesis using stop i1 by simp
          next
            case (Inr u)
            then have g: "linkStep (lkMkdirAll env (unpackFileModeOr (thMode hdr) defaultRootDirMode) ?p) fs1 = (fs', r)" using go f1 by (simp add: thenStep_def)
            obtain r0 where r0: "lkMkdirAll env (unpackFileModeOr (thMode hdr) defaultRootDirMode) ?p fs1 = (fs', r0)" using linkStep_cases [OF g] by blast
            have "plainAbove (nodeOf fs1) ?p" using i1 pl sameLinks_plain unfolding stepInv_def by blast
            then have "stepInv R base fs1 fs'" using confined_mkdirAll [OF _ c(2) bl(1) ns _ _ r0] i1 Inr unfolding stepInv_def by auto
            then show ?thesis using stop i1 sameLinks_trans unfolding stepInv_def by blast
          qed
        next
          case TarSymlink
          show ?thesis
          proof (cases "validateSymlinkTarget root name (thLinkname hdr)")
            case (Inl e)
            then have "fs' = fs" using run n wh Inr TarSymlink \<open>secureLayerPath root name = Inr t\<close> by (simp add: applyTarEntry_def Let_def)
            then show ?thesis using stop same by simp
          next
            case v: (Inr u)
            have "thenStep ?parents (thenStep ?clear (linkStep (lkSymlink env (thLinkname hdr) ?p))) fs = (fs', r)"
              using run n wh Inr TarSymlink v by (simp add: applyTarEntry_def Let_def)
            then show ?thesis
            proof (rule clear_inv [OF c(1,2) bl(1,2) ns pl dt bl(3)])
              fix fs2 assume a: "stepInv R base fs fs2" "nodeOf fs2 ?p = None" "linkStep (lkSymlink env (thLinkname hdr) ?p) fs2 = (fs', r)"
              have pl2: "plainAbove (nodeOf fs2) ?p" using a(1) pl sameLinks_plain unfolding stepInv_def by blast
              obtain r0 where r0: "lkSymlink env (thLinkname hdr) ?p fs2 = (fs', r0)" using linkStep_cases [OF a(3)] by blast
              have "confined R base fs' \<and> sameLinksBut ?p fs fs'"
                using confined_symlink [OF _ c(2) bl(1,2) ns pl2 r0] a(1) sameLinksBut_trans unfolding stepInv_def by blast
              moreover have "newLinkAt R hdr ?p" using TarSymlink n(1) loc tp(1) by (auto simp: newLinkAt_def)
              ultimately show "confined R base fs' \<and> (sameLinks fs fs' \<or> (\<exists>p. newLinkAt R hdr p \<and> sameLinksBut p fs fs'))" by blast
            qed (rule stop)
          qed
        next
          case TarLink
          show ?thesis
          proof (cases "\<exists>l. ensureNoSymlinkParent env fs root (thLinkname hdr) = Inr () \<and> secureLayerPath root (thLinkname hdr) = Inr l")
            case False
            then have "fs' = fs" using run n wh Inr TarLink by (auto simp: applyTarEntry_def Let_def split: sum.splits)
            then show ?thesis using stop same by simp
          next
            case True
            then obtain l where l: "ensureNoSymlinkParent env fs root (thLinkname hdr) = Inr ()" "secureLayerPath root (thLinkname hdr) = Inr l" by blast
            note sl = secureLayerPath_facts [OF l(2) c(3)]
            have pll: "plainAbove (nodeOf fs) (pathSegs l)" using ensureNoSymlinkParent_plain [OF c l(1)] sl c(4) by simp
            have "normalSegs (pathSegs l)" by (rule pathSegs_abs) (use sl in simp)
            then have bll: "below R (pathSegs l)" "normalSegs (pathSegs l)" using sl c(4) by simp_all
            have "thenStep ?parents (thenStep ?clear (linkStep (lkLink env (pathSegs l) ?p))) fs = (fs', r)"
              using run n wh Inr TarLink l by (simp add: applyTarEntry_def Let_def)
            then show ?thesis
            proof (rule clear_inv [OF c(1,2) bl(1,2) ns pl dt bl(3)])
              fix fs2 assume a: "stepInv R base fs fs2" "nodeOf fs2 ?p = None" "linkStep (lkLink env (pathSegs l) ?p) fs2 = (fs', r)"
              have pl2: "plainAbove (nodeOf fs2) ?p" "plainAbove (nodeOf fs2) (pathSegs l)"
                using a(1) pl pll sameLinks_plain unfolding stepInv_def by blast+
              obtain r0 where r0: "lkLink env (pathSegs l) ?p fs2 = (fs', r0)" using linkStep_cases [OF a(3)] by blast
              have "confined R base fs' \<and> sameLinksBut ?p fs fs'"
                using confined_link [OF _ c(2) bl(1,2) ns pl2(1) bll pl2(2) r0] a(1) sameLinksBut_trans unfolding stepInv_def by blast
              moreover have "newLinkAt R hdr ?p" using TarLink n(1) loc tp(1) by (auto simp: newLinkAt_def)
              ultimately show "confined R base fs' \<and> (sameLinks fs fs' \<or> (\<exists>p. newLinkAt R hdr p \<and> sameLinksBut p fs fs'))" by blast
            qed (rule stop)
          qed
        next
          case TarOther
          then have "fs' = fs" using run n wh Inr by (simp add: applyTarEntry_def Let_def)
          then show ?thesis using stop same by simp
        qed
      qed
    qed
  qed
qed

section \<open>Layers and images stay inside\<close>

definition marksLink :: "linkEnv \<times> tarEvent \<Rightarrow> bool" where
  "marksLink x = (case snd x of
     TarEntry hdr \<Rightarrow> (thKind hdr = TarSymlink \<or> thKind hdr = TarLink) \<and> cleanTarName (thName hdr) = Inr rootfsMarker
   | TarFails \<Rightarrow> False)"

text \<open>No layer has a link at the name of the marker.\<close>

definition noMarkerLinks :: "(linkEnv \<times> tarEvent) list option list \<Rightarrow> bool" where
  "noMarkerLinks layers = list_all (\<lambda>l. case l of None \<Rightarrow> True | Some evs \<Rightarrow> list_all (\<lambda>x. \<not> marksLink x) evs) layers"

definition layerInv :: "string list \<Rightarrow> linkFS \<Rightarrow> linkFS \<Rightarrow> bool" where
  "layerInv R base fs \<longleftrightarrow> confined R base fs \<and> notLink (nodeOf fs) (R @ [rootfsMarker])"

lemma marker_name:
  assumes "cleanTarName x = Inr n" "isLocal n" "pathSegs n = [rootfsMarker]"
  shows "n = rootfsMarker"
proof -
  have "\<not> isAbs n" "n \<noteq> []" using assms(2) by (simp_all add: isLocal_def)
  then obtain y where "n = pathClean y" using cleanTarName_clean [OF assms(1)] by blast
  then have "n = pathClean n" by simp
  then show ?thesis using assms(3) \<open>\<not> isAbs n\<close> by (simp add: pathClean_def)
qed

lemma unpackLayer_inv:
  assumes "layerInv R base fs" "dirsAbove R base" "isAbs root" "R = pathSegs root"
    and "list_all (\<lambda>x. \<not> marksLink x) evs" "unpackLayer root evs fs = (fs', r)"
  shows "layerInv R base fs'"
  using assms
proof (induction root evs fs rule: unpackLayer.induct)
  case (3 root env hdr evs fs)
  obtain fs1 r1 where e: "applyTarEntry env root hdr fs = (fs1, r1)" by fastforce
  have c: "confined R base fs" using "3.prems"(1) by (simp add: layerInv_def)
  note k = applyTarEntry_inv [OF c "3.prems"(2,3,4) e]
  have m: "notLink (nodeOf fs1) (R @ [rootfsMarker])"
  proof (cases "sameLinks fs fs1")
    case True
    then show ?thesis using "3.prems"(1) sameLinks_notLink unfolding layerInv_def by blast
  next
    case False
    then obtain p where p: "newLinkAt R hdr p" "sameLinksBut p fs fs1" using k by blast
    have "p \<noteq> R @ [rootfsMarker]"
    proof
      assume "p = R @ [rootfsMarker]"
      then obtain n where "thKind hdr = TarSymlink \<or> thKind hdr = TarLink" "cleanTarName (thName hdr) = Inr n" "isLocal n" "pathSegs n = [rootfsMarker]"
        using p(1) by (auto simp: newLinkAt_def)
      then show False using "3.prems"(5) marker_name by (auto simp: marksLink_def)
    qed
    then show ?thesis using p(2) "3.prems"(1) unfolding layerInv_def notLink_def sameLinksBut_def by blast
  qed
  have i1: "layerInv R base fs1" using k m by (simp add: layerInv_def)
  show ?case
  proof (cases r1)
    case (Inl x)
    then have "fs' = fs1" using "3.prems"(6) e by (simp add: thenStep_def)
    then show ?thesis using i1 by simp
  next
    case (Inr u)
    then have run: "unpackLayer root evs fs1 = (fs', r)" using "3.prems"(6) e by (simp add: thenStep_def)
    show ?thesis by (rule "3.IH" [OF i1 "3.prems"(2,3,4) _ run]) (use "3.prems"(5) in simp)
  qed
qed auto

lemma unpackLayers_inv:
  assumes "layerInv R base fs" "dirsAbove R base" "isAbs root" "R = pathSegs root"
    and "noMarkerLinks ls" "unpackLayers root ls fs = (fs', r)"
  shows "layerInv R base fs'"
  using assms
proof (induction root ls fs rule: unpackLayers.induct)
  case (3 root evs ls fs)
  obtain fs1 r1 where e: "unpackLayer root evs fs = (fs1, r1)" by fastforce
  have i1: "layerInv R base fs1"
    by (rule unpackLayer_inv [OF "3.prems"(1-4) _ e]) (use "3.prems"(5) in \<open>simp add: noMarkerLinks_def\<close>)
  show ?case
  proof (cases r1)
    case (Inl x)
    then have "fs' = fs1" using "3.prems"(6) e by (simp add: thenStep_def)
    then show ?thesis using i1 by simp
  next
    case (Inr u)
    then have run: "unpackLayers root ls fs1 = (fs', r)" using "3.prems"(6) e by (simp add: thenStep_def)
    show ?thesis by (rule "3.IH" [OF i1 "3.prems"(2,3,4) _ run]) (use "3.prems"(5) in \<open>simp add: noMarkerLinks_def\<close>)
  qed
qed auto

lemma dirs_plain: "dirsAbove R base \<Longrightarrow> plainAbove (nodeOf base) R"
  unfolding dirsAbove_def plainAbove_def by fastforce

lemma remove_node:
  assumes "dirsAbove p fs" "lkRemoveAll env p fs = (fs', r)"
  shows "(\<forall>q. nodeOf fs' q = nodeOf fs q \<or> below p q \<and> nodeOf fs' q = None) \<and> lkInodes fs' = lkInodes fs \<and> lkNext fs' = lkNext fs
    \<and> ((\<forall>q. below p q \<longrightarrow> \<not> lkStuck env q) \<longrightarrow> (\<forall>q. below p q \<longrightarrow> nodeOf fs' q = None))"
proof -
  have d: "p \<noteq> []" "normalSegs p" "plainAbove (nodeOf fs) p" using assms(1) dirs_plain by (auto simp: dirsAbove_def)
  have "lookupAt False p fs = Inr p"
  proof (cases "lookupAt False p fs")
    case (Inr q)
    then show ?thesis using lookup_ok [OF Inr d(2,3)] by simp
  next
    case (Inl e)
    have "\<exists>s. walkPath (nodeOf fs) k False cur cs = Inr s" if "\<And>u v. cs = u @ v \<Longrightarrow> v \<noteq> [] \<Longrightarrow> u \<noteq> [] \<Longrightarrow> \<exists>m. nodeOf fs (cur @ u) = Some (LkDir m)" "normalSegs cs"
      for cs cur k
      using that
    proof (induction cs arbitrary: cur)
      case (Cons c cs)
      have c: "c \<noteq> []" "c \<noteq> ''.''" "c \<noteq> ''..''" using Cons.prems(2) by (auto simp: normalSeg_def)
      show ?case
      proof (cases "cs = []")
        case True
        then show ?thesis using c by (cases "nodeOf fs (cur @ [c])") (auto split: linkNode.splits)
      next
        case False
        obtain m where m: "nodeOf fs (cur @ [c]) = Some (LkDir m)" using Cons.prems(1) [of "[c]" cs] False by auto
        have "\<exists>m. nodeOf fs ((cur @ [c]) @ u) = Some (LkDir m)" if "cs = u @ v" "v \<noteq> []" "u \<noteq> []" for u v
          using Cons.prems(1) [of "c # u" v] that by simp
        then show ?thesis using Cons.IH [of "cur @ [c]"] Cons.prems(2) c m by simp
      qed
    qed simp
    moreover have "\<exists>m. nodeOf fs ([] @ u) = Some (LkDir m)" if "p = u @ v" "v \<noteq> []" "u \<noteq> []" for u v
      using assms(1) that unfolding dirsAbove_def below_iff by auto
    ultimately show ?thesis using Inl d(2) by (metis Inl_Inr_False)
  qed
  then have f: "fs' = fs\<lparr>lkNodes := filter (\<lambda>(x, n). \<not> below p x \<or> list_ex (below x) (stuckLinks env p fs)) (lkNodes fs)\<rparr>"
    using assms(2) by (auto simp: lkRemoveAll_def Let_def)
  have get: "nodeOf fs' x = (if x = [] \<or> \<not> below p x \<or> list_ex (below x) (stuckLinks env p fs) then nodeOf fs x else None)" for x
    unfolding f nodeOf_def by (simp add: map_of_filter_fst)
  have "stuckLinks env p fs = []" if "\<forall>q. below p q \<longrightarrow> \<not> lkStuck env q" using that by (auto simp: stuckLinks_def filter_empty_conv)
  moreover have "lkInodes fs' = lkInodes fs" "lkNext fs' = lkNext fs" by (simp_all add: f)
  ultimately show ?thesis using get d(1) by (auto simp: below_iff)
qed

lemma below_Nil_right: "below p [] \<longleftrightarrow> p = []"
  by (auto simp: below_def)

lemma below_snoc: "below r (xs @ [x]) \<longleftrightarrow> r = xs @ [x] \<or> below r xs"
proof
  assume "below r (xs @ [x])"
  then obtain s where s: "xs @ [x] = r @ s" by (auto simp: below_iff)
  show "r = xs @ [x] \<or> below r xs"
  proof (cases s rule: rev_cases)
    case (snoc t y)
    then have "xs = r @ t" using s by simp
    then show ?thesis by simp
  qed (use s in simp)
qed (auto simp: below_iff)

lemma map_of_move:
  assumes "\<not> below a b" "\<not> below b a"
  shows "map_of (map (\<lambda>(x, n). (if below a x then b @ drop (length a) x else x, n)) (filter (\<lambda>(x, n). \<not> below b x) l)) y =
    (if below b y then map_of l (a @ drop (length b) y) else if below a y then None else map_of l y)"
proof (induction l)
  case (Cons z l)
  obtain x n where z: "z = (x, n)" by fastforce
  have b: "below a x \<Longrightarrow> \<not> below b x" using assms below_two by blast
  consider (drop) "below b x" | (move) u where "x = a @ u" | (stay) "\<not> below b x" "\<not> below a x" by (auto simp: below_iff)
  then show ?case
  proof cases
    case drop
    then have "y = x \<Longrightarrow> below b y" "\<not> below a x" using b by auto
    moreover have "a @ drop (length b) y \<noteq> x" using \<open>\<not> below a x\<close> by (auto simp: below_iff)
    ultimately show ?thesis using Cons.IH drop by (auto simp: z)
  next
    case move
    have k: "\<not> below b (a @ u)" using b move by simp
    have "(y = b @ u) \<longleftrightarrow> below b y \<and> a @ drop (length b) y = a @ u" by (auto simp: below_iff)
    then show ?thesis using Cons.IH k move by (auto simp: z)
  next
    case stay
    have "below b y \<Longrightarrow> y \<noteq> x" "below b y \<Longrightarrow> a @ drop (length b) y \<noteq> x" "below a y \<Longrightarrow> y \<noteq> x" using stay by (auto simp: below_iff)
    then show ?thesis using Cons.IH stay by (auto simp: z)
  qed
qed simp

lemma rename_node:
  assumes "dirsAbove a fs" "dirsAbove b fs" "\<not> below a b" "\<not> below b a" "lkRename env a b fs = (fs', r)"
  shows "lkInodes fs' = lkInodes fs \<and> lkNext fs' = lkNext fs \<and> (r \<noteq> Inr () \<longrightarrow> fs' = fs)
    \<and> (r = Inr () \<longrightarrow> (\<forall>y. nodeOf fs' y = (if below b y then nodeOf fs (a @ drop (length b) y) else if below a y then None else nodeOf fs y)))"
proof -
  have a: "a \<noteq> []" "b \<noteq> []" and n: "normalSegs a" "normalSegs b" using assms(1,2) by (simp_all add: dirsAbove_def)
  have l: "q = a" if "lookupAt False a fs = Inr q" for q using lookup_ok [OF that n(1) dirs_plain [OF assms(1)]] by simp
  have l': "q = b" if "lookupAt False b fs = Inr q" for q using lookup_ok [OF that n(2) dirs_plain [OF assms(2)]] by simp
  show ?thesis
  proof (cases "r = Inr ()")
    case True
    then have f: "fs' = fs\<lparr>lkNodes := map (\<lambda>(x, n). (if below a x then b @ drop (length a) x else x, n)) (filter (\<lambda>(x, n). \<not> below b x) (lkNodes fs))\<rparr>"
      using assms(5) l l' by (auto simp: lkRename_def split: if_splits sum.splits)
    have "nodeOf fs' y = (if below b y then nodeOf fs (a @ drop (length b) y) else if below a y then None else nodeOf fs y)" for y
    proof (cases "y = []")
      case True
      then show ?thesis using a below_Nil_right [of a] below_Nil_right [of b] by (simp add: nodeOf_def)
    next
      case False
      have "map_of (lkNodes fs') y = (if below b y then map_of (lkNodes fs) (a @ drop (length b) y) else if below a y then None else map_of (lkNodes fs) y)"
        unfolding f by (simp add: map_of_move [OF assms(3,4)])
      then show ?thesis using a False by (simp add: nodeOf_def)
    qed
    then show ?thesis using True f by simp
  next
    case False
    then have "fs' = fs" using assms(5) by (auto simp: lkRename_def split: if_splits sum.splits)
    then show ?thesis using False by simp
  qed
qed

lemma write_node:
  assumes "dirsAbove p fs" "notLink (nodeOf fs) p" "lkWrite env m (c, None) p fs = (fs', Inr ())"
  shows "(\<exists>i. nodeOf fs' p = Some (LkFile i) \<and> inContent (lkInodes fs' i) = c
      \<and> (nodeOf fs p = Some (LkFile i) \<or> i = lkNext fs) \<and> (\<forall>j. j \<noteq> i \<longrightarrow> lkInodes fs' j = lkInodes fs j))
    \<and> (\<forall>q. q \<noteq> p \<longrightarrow> nodeOf fs' q = nodeOf fs q)"
proof -
  have d: "p \<noteq> []" "normalSegs p" "plainAbove (nodeOf fs) p" using assms(1) dirs_plain by (auto simp: dirsAbove_def)
  obtain q where q: "lookupAt True p fs = Inr q" "\<not> lkFails env ''open'' p" using assms(3) by (auto simp: lkWrite_def split: if_splits sum.splits)
  then have l: "lookupAt True p fs = Inr p" using lookup_ok [OF q(1) d(2,3)] assms(2) by simp
  show ?thesis
  proof (cases "nodeOf fs p")
    case None
    then have f: "fs' = putLink p (LkFile (lkNext fs)) (fs\<lparr>lkInodes := (lkInodes fs)(lkNext fs := \<lparr>inMode = lkUmask env m, inContent = c, inTime = 0\<rparr>),
        lkNext := lkNext fs + 1\<rparr>)" using assms(3) q(2) l by (auto simp: lkWrite_def put_file)
    show ?thesis unfolding f by (simp add: node_put [OF d(1)])
  next
    case (Some n)
    then show ?thesis using assms(2,3) q(2) l by (cases n) (auto simp: lkWrite_def notLink_def)
  qed
qed

lemma tmp_path:
  assumes "isAbs t" "pathClean t = t" "pathSegs t = xs @ [x]"
  shows "pathSegs (t @ ''.tmp'') = xs @ [x @ ''.tmp'']"
proof -
  have n: "normalSegs (xs @ [x])" using pathSegs_abs [OF assms(1)] assms(3) by simp
  have "normalSeg (x @ ''.tmp'')" using n by (cases x) (auto simp: normalSeg_def)
  then have n': "normalSegs (xs @ [x @ ''.tmp''])" using n by simp
  have "t = slash # joinOn slash (xs @ [x])" using assms by (metis pathClean_def)
  then have "t @ ''.tmp'' = slash # joinOn slash (xs @ [x @ ''.tmp''])" by (cases "xs = []") (simp_all add: joinOn_snoc)
  then show ?thesis using pathSegs_slash_join [OF n'] by simp
qed

text \<open>The new directory that the layers are unpacked into.\<close>

definition freshTarget :: "linkEnv \<Rightarrow> string \<Rightarrow> linkFS \<Rightarrow> linkFS" where
  "freshTarget env tmp fs = fst (lkMkdirAll env unpackDirMode (pathSegs tmp) (fst (lkRemoveAll env (pathSegs tmp) fs)))"

text \<open>
  The tree at \<open>p\<close> is the one at \<open>p'\<close> but for the entry \<open>x\<close>: the same nodes, with the targets of
  links and the modes of directories, and the same mode, content and time in each file that is not
  a hard link to what \<open>p'\<close> has at \<open>x\<close>.
\<close>

definition sameTreeBut :: "string \<Rightarrow> linkFS \<Rightarrow> string list \<Rightarrow> linkFS \<Rightarrow> string list \<Rightarrow> bool" where
  "sameTreeBut x fs p fs' p' \<longleftrightarrow>
     (\<forall>s. s \<noteq> [x] \<longrightarrow> nodeOf fs (p @ s) = nodeOf fs' (p' @ s)
       \<and> (\<forall>j. nodeOf fs' (p' @ s) = Some (LkFile j) \<longrightarrow> nodeOf fs' (p' @ [x]) \<noteq> Some (LkFile j) \<longrightarrow> lkInodes fs j = lkInodes fs' j))"

text \<open>One walk through the code for both properties: the stages of an unpacking.\<close>

lemma UnpackImage_stages:
  assumes run: "UnpackImage env target dig layers fs = (fs', r)" and abs: "isAbs target" "pathClean target = target"
    and dirs: "dirsAbove (pathSegs target) fs" and free: "\<And>q. below (pathSegs (target @ ''.tmp'')) q \<Longrightarrow> \<not> lkStuck env q"
    and marks: "noMarkerLinks layers"
  shows "(\<forall>q. \<not> below (pathSegs (target @ ''.tmp'')) q \<longrightarrow> \<not> below (pathSegs target) q \<longrightarrow> nodeOf fs' q = nodeOf fs q)
    \<and> (\<forall>i < lkNext fs. lkInodes fs' i = lkInodes fs i)
    \<and> (\<forall>e. r = Inl e \<longrightarrow> (\<forall>q. below (pathSegs target) q \<longrightarrow> nodeOf fs' q = nodeOf fs q \<or> nodeOf fs' q = None))
    \<and> (r = Inr () \<longrightarrow> fs' = fs \<and> isOk (lkStat env (pathSegs (pathJoin [target, rootfsMarker])) fs)
        \<or> (\<exists>fs3 i. unpackLayers (target @ ''.tmp'') layers (freshTarget env (target @ ''.tmp'') fs) = (fs3, Inr ())
           \<and> nodeOf fs' (pathSegs target @ [rootfsMarker]) = Some (LkFile i) \<and> inContent (lkInodes fs' i) = dig @ [CHR 0x0A]
           \<and> sameTreeBut rootfsMarker fs' (pathSegs target) fs3 (pathSegs (target @ ''.tmp''))))"
    (is "?out \<and> ?ino \<and> ?err \<and> ?ok")
proof (cases "isOk (lkStat env (pathSegs (pathJoin [target, rootfsMarker])) fs)")
  case True
  then show ?thesis using run by (simp add: UnpackImage_def)
next
  case False
  let ?tmp = "target @ ''.tmp''"
  define Q T where "Q = pathSegs target" and "T = pathSegs ?tmp"
  have Qne: "Q \<noteq> []" using dirs by (simp add: dirsAbove_def Q_def)
  then obtain xs x where Q: "Q = xs @ [x]" by (metis append_butlast_last_id)
  have T: "T = xs @ [x @ ''.tmp'']" unfolding T_def by (rule tmp_path [OF abs]) (use Q Q_def in simp)
  have inc: "\<not> below Q T" "\<not> below T Q" by (simp_all add: Q T below_def)
  have tabs: "isAbs ?tmp" using abs(1) by (simp add: isAbs_def hasPrefix_mono)
  have nT: "normalSegs T" unfolding T_def by (rule pathSegs_abs [OF tabs])
  have up: "below r T \<Longrightarrow> r \<noteq> T \<Longrightarrow> below r Q \<and> r \<noteq> Q" "below r Q \<Longrightarrow> r \<noteq> Q \<Longrightarrow> below r T \<and> r \<noteq> T" for r
    unfolding Q T below_snoc by (auto simp: below_iff)
  have dT: "dirsAbove T fs" using dirs up(1) nT unfolding dirsAbove_def Q_def [symmetric] by (simp add: T)
  obtain fs1 r1 where f1: "lkRemoveAll env T fs = (fs1, r1)" by fastforce
  note k1 = remove_node [OF dT f1]
  have gone: "nodeOf fs1 q = None" if "below T q" for q using k1 free that unfolding T_def by blast
  have same1: "nodeOf fs1 q = nodeOf fs q" if "\<not> below T q" for q using k1 that by blast
  have nb: "below r T \<Longrightarrow> r \<noteq> T \<Longrightarrow> \<not> below T r" for r by (auto simp: below_iff)
  have d1: "dirsAbove T fs1" using dT same1 nb unfolding dirsAbove_def by metis
  have c1: "confined T fs1 fs1" unfolding confined_def notLink_def using gone by auto
  obtain fs2 r2 where f2: "lkMkdirAll env unpackDirMode T fs1 = (fs2, r2)" by fastforce
  have k2: "confined T fs1 fs2 \<and> sameLinks fs1 fs2 \<and> (r2 = Inr () \<longrightarrow> (\<exists>m. nodeOf fs2 T = Some (LkDir m)))"
    by (rule confined_mkdirAll [OF c1 d1 below_refl nT dirs_plain [OF d1] _ f2]) (simp add: notLink_def gone)
  have mk: "pathSegs (pathJoin [?tmp, rootfsMarker]) = T @ [rootfsMarker]"
    unfolding T_def by (rule pathSegs_join_names [OF tabs, of "[rootfsMarker]"]) (simp add: rootfsMarker_def normalSeg_def)
  have nm: "normalSegs (T @ [rootfsMarker])" using nT by (simp add: rootfsMarker_def normalSeg_def)
  have li2: "layerInv T fs1 fs2"
    using k2 sameLinks_notLink [of fs1 fs2 "T @ [rootfsMarker]"] gone [of "T @ [rootfsMarker]"] by (simp add: layerInv_def notLink_def)
  have stay: "(\<forall>q. \<not> below T q \<longrightarrow> nodeOf f q = nodeOf fs q) \<and> (\<forall>i < lkNext fs. lkInodes f i = lkInodes fs i)" if "confined T fs1 f" for f
    using that same1 k1 unfolding confined_def by metis
  have dropped: "confined T fs1 (fst (lkRemoveAll env T f))" if c: "confined T fs1 f" for f
  proof -
    have "plainAbove (nodeOf f) T" using above_dir [OF c d1] unfolding plainAbove_def by fastforce
    then show ?thesis using confined_remove [OF c d1 below_refl nT, of env] by (metis prod.collapse)
  qed
  have early: ?thesis if "confined T fs1 fs'" "\<exists>e. r = Inl e"
  proof -
    have "\<not> below T q" if "below Q q" for q using inc below_two [OF that] by blast
    then show ?thesis using stay [OF that(1)] that(2) unfolding Q_def [symmetric] T_def [symmetric] by auto
  qed
  show ?thesis
  proof (cases r2)
    case (Inl e)
    then have "fs' = fs2" "r = Inl (UnpackFS e)" using run False f1 f2 by (simp_all add: UnpackImage_def Let_def T_def [symmetric])
    then show ?thesis using early k2 by simp
  next
    case r2: (Inr u2)
    obtain fs3 r3 where f3: "unpackLayers ?tmp layers fs2 = (fs3, r3)" by fastforce
    have li3: "layerInv T fs1 fs3" by (rule unpackLayers_inv [OF li2 d1 tabs T_def marks f3])
    have c3: "confined T fs1 fs3" using li3 by (simp add: layerInv_def)
    show ?thesis
    proof (cases r3)
      case (Inl e)
      then have "fs' = fst (lkRemoveAll env T fs3)" "r = Inl e" using run False f1 f2 r2 f3 by (simp_all add: UnpackImage_def Let_def T_def [symmetric])
      then show ?thesis using early dropped [OF c3] by simp
    next
      case r3: (Inr u3)
      obtain fs4 r4 where f4: "lkWrite env unpackFileMode (dig @ [CHR 0x0A], None) (T @ [rootfsMarker]) fs3 = (fs4, r4)" by fastforce
      have T3: "plainAbove (nodeOf fs3) T" using above_dir [OF c3 d1] unfolding plainAbove_def by fastforce
      have nlT: "notLink (nodeOf fs3) T" using c3 unfolding confined_def by blast
      have pl3: "plainAbove (nodeOf fs3) (T @ [rootfsMarker])" by (rule plainAbove_snoc [OF T3 nlT])
      have nl3: "notLink (nodeOf fs3) (T @ [rootfsMarker])" using li3 by (simp add: layerInv_def)
      note k4 = confined_write [OF c3 d1 below_append nm pl3 nl3 f4]
      show ?thesis
      proof (cases r4)
        case (Inl e)
        then have "fs' = fst (lkRemoveAll env T fs4)" "r = Inl (UnpackFS e)"
          using run False f1 f2 r2 f3 r3 f4 mk by (simp_all add: UnpackImage_def Let_def T_def [symmetric])
        then show ?thesis using early dropped k4 by simp
      next
        case r4: (Inr u4)
        have c4: "confined T fs1 fs4" using k4 by blast
        note s4 = stay [OF c4]
        have d4: "dirsAbove Q fs4"
          using dirs s4 up(2) nb unfolding dirsAbove_def Q_def [symmetric] by metis
        obtain fs5 r5 where f5: "lkRemoveAll env Q fs4 = (fs5, r5)" by fastforce
        note k5 = remove_node [OF d4 f5]
        have out5: "nodeOf fs5 q = nodeOf fs4 q" if "\<not> below Q q" for q using k5 that by blast
        have QT: "below Q r \<Longrightarrow> \<not> below r T" "below T r \<Longrightarrow> \<not> below r Q" "below T r \<Longrightarrow> \<not> below Q r" for r
          using inc below_trans below_two by blast+
        have d5: "dirsAbove T fs5" "dirsAbove Q fs5"
        proof -
          have "\<exists>m. nodeOf fs5 r = Some (LkDir m)" if "below r T" "r \<noteq> T" for r
          proof -
            have "\<not> below Q r" using QT that(1) by blast
            then have "nodeOf fs5 r = nodeOf fs r" using out5 s4 nb that by simp
            then show ?thesis using dT that unfolding dirsAbove_def by metis
          qed
          then show "dirsAbove T fs5" "dirsAbove Q fs5" using dT d4 up(2) unfolding dirsAbove_def by blast+
        qed
        obtain fs6 r6 where f6: "lkRename env T Q fs5 = (fs6, r6)" by fastforce
        note k6 = rename_node [OF d5 inc(2,1) f6]
        have q5: "nodeOf fs5 q = nodeOf fs q \<or> nodeOf fs5 q = None" if "below Q q" for q
        proof -
          have "\<not> below T q" using QT(3) that by blast
          then have "nodeOf fs4 q = nodeOf fs q" using s4 by blast
          then show ?thesis using k5 by metis
        qed
        have i5: "\<forall>i < lkNext fs. lkInodes fs5 i = lkInodes fs i" using s4 k5 by simp
        have o5: "nodeOf fs5 q = nodeOf fs q" if "\<not> below T q" "\<not> below Q q" for q using out5 s4 that by simp
        show ?thesis
        proof (cases r6)
          case (Inl e)
          obtain fs7 r7 where f7: "lkRemoveAll env T fs5 = (fs7, r7)" by fastforce
          have "fs6 = fs5" using k6 Inl by blast
          then have fin: "fs' = fs7" "r = Inl (UnpackFS e)"
            using run False f1 f2 r2 f3 r3 f4 r4 f5 f6 Inl f7 mk by (simp_all add: UnpackImage_def Let_def T_def [symmetric] Q_def [symmetric])
          note k7 = remove_node [OF d5(1) f7]
          have "nodeOf fs7 q = nodeOf fs5 q" if "\<not> below T q" for q using k7 that by blast
          moreover have "\<not> below T q" if "below Q q" for q using QT(3) that by blast
          ultimately show ?thesis using fin o5 q5 i5 k7 unfolding Q_def [symmetric] T_def [symmetric] by simp
        next
          case (Inr u6)
          have fin: "fs' = fs6" "r = Inr ()"
            using run False f1 f2 r2 f3 r3 f4 r4 f5 f6 Inr mk by (simp_all add: UnpackImage_def Let_def T_def [symmetric] Q_def [symmetric])
          have get: "nodeOf fs6 y = (if below Q y then nodeOf fs5 (T @ drop (length Q) y) else if below T y then None else nodeOf fs5 y)" for y
            using k6 Inr by simp
          have T5: "nodeOf fs5 (T @ s) = nodeOf fs4 (T @ s)" for s using out5 QT(3) by simp
          have m3: "dirsAbove (T @ [rootfsMarker]) fs3"
          proof -
            have "\<exists>m. nodeOf fs3 (butlast (T @ [rootfsMarker])) = Some (LkDir m)"
            proof -
              obtain q where "lookupAt True (T @ [rootfsMarker]) fs3 = Inr q"
                using f4 r4 by (auto simp: lkWrite_def split: if_splits sum.splits)
              then show ?thesis using lookup_ok [OF _ nm pl3 nl3] by blast
            qed
            moreover have "\<exists>m. nodeOf fs3 r = Some (LkDir m)" if "below r T" "r \<noteq> T" for r using above_dir [OF c3 d1 that] .
            moreover have "below r (T @ [rootfsMarker]) \<Longrightarrow> r \<noteq> T @ [rootfsMarker] \<Longrightarrow> below r T" for r
              unfolding below_iff by (metis append_butlast_last_id append_self_conv butlast_append butlast_snoc)
            ultimately show ?thesis using nm unfolding dirsAbove_def by (metis butlast_snoc snoc_eq_iff_butlast)
          qed
          note w = write_node [OF m3 nl3 f4 [unfolded r4 unit_eq [of u4]]]
          obtain i where i: "nodeOf fs4 (T @ [rootfsMarker]) = Some (LkFile i)" "inContent (lkInodes fs4 i) = dig @ [CHR 0x0A]"
              "nodeOf fs3 (T @ [rootfsMarker]) = Some (LkFile i) \<or> i = lkNext fs3" "\<forall>j. j \<noteq> i \<longrightarrow> lkInodes fs4 j = lkInodes fs3 j"
            using w by blast
          have other: "lkInodes fs6 j = lkInodes fs3 j"
            if "nodeOf fs3 (T @ s) = Some (LkFile j)" "nodeOf fs3 (T @ [rootfsMarker]) \<noteq> Some (LkFile j)" for s j
          proof -
            have "j < lkNext fs3" using c3 that(1) below_append unfolding confined_def by blast
            then have "j \<noteq> i" using i(3) that(2) by auto
            then show ?thesis using i(4) k5 k6 by simp
          qed
          have "nodeOf fs6 (Q @ [rootfsMarker]) = Some (LkFile i)" using get [of "Q @ [rootfsMarker]"] T5 i(1) by simp
          moreover have "inContent (lkInodes fs6 i) = dig @ [CHR 0x0A]" using i(2) k5 k6 by simp
          moreover have "nodeOf fs6 (Q @ s) = nodeOf fs3 (T @ s)" if "s \<noteq> [rootfsMarker]" for s using get [of "Q @ s"] T5 w that by simp
          then have "sameTreeBut rootfsMarker fs6 Q fs3 T" using other unfolding sameTreeBut_def by blast
          moreover have fresh: "freshTarget env ?tmp fs = fs2" using f1 f2 by (simp add: freshTarget_def T_def [symmetric])
          ultimately have ok: "\<exists>fs3 i. unpackLayers ?tmp layers (freshTarget env ?tmp fs) = (fs3, Inr ())
             \<and> nodeOf fs6 (Q @ [rootfsMarker]) = Some (LkFile i) \<and> inContent (lkInodes fs6 i) = dig @ [CHR 0x0A]
             \<and> sameTreeBut rootfsMarker fs6 Q fs3 T"
            using f3 [unfolded r3 unit_eq [of u3]] fresh by auto
          have "nodeOf fs6 q = nodeOf fs q" if "\<not> below T q" "\<not> below Q q" for q using get o5 that by simp
          then show ?thesis using ok fin i5 k6 unfolding Q_def [symmetric] T_def [symmetric] by simp
        qed
      qed
    qed
  qed
qed

section \<open>Properties\<close>

text \<open>
  C7. Unpacking an image stays inside its directories: whatever the layers hold, with links,
  absolute names, dots and whiteouts, and whatever fails, no node and no file outside the target
  and its temporary directory changes, although every operation follows the links it meets. The
  one condition on the layers is that none has a link at the name of the marker.
\<close>

theorem unpack_stays_inside:
  assumes "UnpackImage env target dig layers fs = (fs', r)" and "isAbs target" and "pathClean target = target"
    and "dirsAbove (pathSegs target) fs" and "\<And>q. below (pathSegs (target @ ''.tmp'')) q \<Longrightarrow> \<not> lkStuck env q"
    and "noMarkerLinks layers"
  shows "(\<forall>q. \<not> below (pathSegs (target @ ''.tmp'')) q \<longrightarrow> \<not> below (pathSegs target) q \<longrightarrow> nodeOf fs' q = nodeOf fs q)
    \<and> (\<forall>i < lkNext fs. lkInodes fs' i = lkInodes fs i)"
  using UnpackImage_stages [OF assms] by blast

text \<open>
  C17. A root file system that becomes ready is complete: when unpacking succeeds and the target was
  not ready before, every entry of every layer has been applied in order to a new directory, the
  target is that tree (the same directories, links and files, with modes, targets, contents and
  times), and its marker holds the digest of the manifest. The one thing that differs from the
  layers is the marker itself, and with it a file that a layer made a hard link of a file of the
  marker's name: both have the digest as content. When unpacking fails, each node of what the target
  held is unchanged or gone. As for C7, no layer may have a link at the name of the marker, and the
  leftovers of an earlier try can be removed.
\<close>

theorem ready_rootfs_is_complete:
  assumes "UnpackImage env target dig layers fs = (fs', r)" and "isAbs target" and "pathClean target = target"
    and "dirsAbove (pathSegs target) fs" and "\<And>q. below (pathSegs (target @ ''.tmp'')) q \<Longrightarrow> \<not> lkStuck env q"
    and "noMarkerLinks layers" and "\<not> isOk (lkStat env (pathSegs (pathJoin [target, rootfsMarker])) fs)"
  shows "case r of
      Inl e \<Rightarrow> \<forall>q. below (pathSegs target) q \<longrightarrow> nodeOf fs' q = nodeOf fs q \<or> nodeOf fs' q = None
    | Inr _ \<Rightarrow> \<exists>fs3 i. unpackLayers (target @ ''.tmp'') layers (freshTarget env (target @ ''.tmp'') fs) = (fs3, Inr ())
        \<and> nodeOf fs' (pathSegs target @ [rootfsMarker]) = Some (LkFile i) \<and> inContent (lkInodes fs' i) = dig @ [CHR 0x0A]
        \<and> sameTreeBut rootfsMarker fs' (pathSegs target) fs3 (pathSegs (target @ ''.tmp''))"
  using UnpackImage_stages [OF assms(1-6)] assms(7) by (cases r) auto

section \<open>Examples\<close>

lemma dirsAbove_code [code]:
  "dirsAbove R base \<longleftrightarrow> R \<noteq> [] \<and> list_all normalSeg R
     \<and> list_all (\<lambda>n. case nodeOf base (take n R) of Some (LkDir m) \<Rightarrow> True | _ \<Rightarrow> False) [0..<length R]"
proof -
  have "(\<exists>m. nodeOf base (take n R) = Some (LkDir m)) \<longleftrightarrow> (case nodeOf base (take n R) of Some (LkDir m) \<Rightarrow> True | _ \<Rightarrow> False)" for n
    by (auto split: option.splits linkNode.splits)
  moreover have "(\<forall>r. below r R \<longrightarrow> r \<noteq> R \<longrightarrow> P r) \<longleftrightarrow> (\<forall>n < length R. P (take n R))" for P
  proof
    assume a: "\<forall>n < length R. P (take n R)"
    show "\<forall>r. below r R \<longrightarrow> r \<noteq> R \<longrightarrow> P r"
    proof (intro allI impI)
      fix r assume "below r R" "r \<noteq> R"
      then obtain s where "R = r @ s" "s \<noteq> []" by (auto simp: below_iff)
      then show "P r" using a [rule_format, of "length r"] by simp
    qed
  next
    assume a: "\<forall>r. below r R \<longrightarrow> r \<noteq> R \<longrightarrow> P r"
    show "\<forall>n < length R. P (take n R)"
    proof (intro allI impI)
      fix n assume n: "n < length R"
      have "below (take n R) R" by (metis append_take_drop_id below_append)
      moreover have "take n R \<noteq> R" using n by (metis leD length_take min.cobounded2 order.refl min_def)
      ultimately show "P (take n R)" using a by blast
    qed
  qed
  ultimately show ?thesis unfolding dirsAbove_def normalSegs_def list_all_iff by (simp add: atLeast0LessThan Ball_def)
qed

definition calmLinks :: linkEnv where
  "calmLinks = \<lparr>lkFails = \<lambda>_ _. False, lkStuck = \<lambda>_. False, lkUmask = \<lambda>m. m\<rparr>"

definition demoLinks :: linkFS where
  "demoLinks =
     \<lparr>lkNodes = [([''r''], LkDir 493), ([''etc''], LkDir 493), ([''etc'', ''x''], LkFile 0)],
      lkInodes = (\<lambda>_. \<lparr>inMode = 420, inContent = ''secret'', inTime = 1\<rparr>), lkNext = 1\<rparr>"

definition tarOf :: "string \<Rightarrow> tarKind \<Rightarrow> string \<Rightarrow> linkEnv \<times> tarEvent" where
  "tarOf p k l = (calmLinks, TarEntry \<lparr>thName = p, thKind = k, thLinkname = l, thMode = 493, thModTime = 3, thBody = (''data'', None)\<rparr>)"

definition demoLayers :: "(linkEnv \<times> tarEvent) list option list" where
  "demoLayers =
     [Some [tarOf ''a/'' TarDir [], tarOf ''a/f'' TarReg [], tarOf ''l'' TarSymlink ''/etc'', tarOf ''g'' TarLink ''a/f''],
      Some [tarOf ''a/.wh.f'' TarReg []]]"

lemma demo_unpacked:
  "let u = UnpackImage calmLinks ''/r/i'' ''sha256:1'' demoLayers demoLinks
   in snd u = Inr () \<and> map_of (lkNodes (fst u)) [''r'', ''i'', ''g''] = Some (LkFile 1)
     \<and> map_of (lkNodes (fst u)) [''r'', ''i'', ''a'', ''f''] = None \<and> map_of (lkNodes (fst u)) [''r'', ''i'', ''l''] = Some (LkLink ''/etc'')"
  by code_simp

lemma demoTarget_paths: "isAbs ''/r/i''" "pathClean ''/r/i'' = ''/r/i''" "dirsAbove (pathSegs ''/r/i'') demoLinks" "noMarkerLinks demoLayers"
  by code_simp+

lemma unpack_stays_inside_witness:
  "let u = UnpackImage calmLinks ''/r/i'' ''sha256:1'' demoLayers demoLinks
   in snd u = Inr () \<and> nodeOf (fst u) [''etc'', ''x''] = Some (LkFile 0) \<and> inContent (lkInodes (fst u) 0) = ''secret''"
proof -
  obtain f r where u: "UnpackImage calmLinks ''/r/i'' ''sha256:1'' demoLayers demoLinks = (f, r)" by fastforce
  have p: "pathSegs (''/r/i'' @ ''.tmp'') = [''r'', ''i.tmp'']" "pathSegs ''/r/i'' = [''r'', ''i'']" by code_simp+
  have k: "(\<forall>q. \<not> below (pathSegs (''/r/i'' @ ''.tmp'')) q \<longrightarrow> \<not> below (pathSegs ''/r/i'') q \<longrightarrow> nodeOf f q = nodeOf demoLinks q)
    \<and> (\<forall>i < lkNext demoLinks. lkInodes f i = lkInodes demoLinks i)"
    by (rule unpack_stays_inside [OF u demoTarget_paths(1,2,3) _ demoTarget_paths(4)]) (simp add: calmLinks_def)
  have "nodeOf f [''etc'', ''x''] = nodeOf demoLinks [''etc'', ''x'']" using k unfolding p by (simp add: below_def)
  moreover have "lkInodes f 0 = lkInodes demoLinks 0" using k by (simp add: demoLinks_def)
  moreover have "r = Inr ()" using demo_unpacked u by simp
  ultimately show ?thesis using u by (simp add: demoLinks_def nodeOf_def)
qed

lemma ready_rootfs_is_complete_witness:
  "let u = UnpackImage calmLinks ''/r/i'' ''sha256:1'' demoLayers demoLinks
   in snd u = Inr () \<and> (\<exists>i. nodeOf (fst u) [''r'', ''i'', rootfsMarker] = Some (LkFile i) \<and> inContent (lkInodes (fst u) i) = ''sha256:1'' @ [CHR 0x0A])"
proof -
  obtain f r where u: "UnpackImage calmLinks ''/r/i'' ''sha256:1'' demoLayers demoLinks = (f, r)" by fastforce
  have p: "pathSegs ''/r/i'' = [''r'', ''i'']" by code_simp
  have n: "\<not> isOk (lkStat calmLinks (pathSegs (pathJoin [''/r/i'', rootfsMarker])) demoLinks)" by code_simp
  have r: "r = Inr ()" using demo_unpacked u by simp
  have "\<exists>i. nodeOf f (pathSegs ''/r/i'' @ [rootfsMarker]) = Some (LkFile i) \<and> inContent (lkInodes f i) = ''sha256:1'' @ [CHR 0x0A]"
    using ready_rootfs_is_complete [OF u demoTarget_paths(1,2,3) _ demoTarget_paths(4) n] r by (auto simp: calmLinks_def)
  then show ?thesis using u r p by simp
qed

text \<open>
  Why the condition on the marker: a layer with a symbolic link of that name to an absolute path
  makes the host write the marker through it. The target of the link is checked as if it were
  below the root file system, but outside a container it is a path of the host: here \<open>/etc/x\<close>
  loses its content, and the unpacking succeeds.
\<close>

lemma marker_link_escapes:
  "let u = UnpackImage calmLinks ''/r/i'' ''sha256:1'' [Some [tarOf rootfsMarker TarSymlink ''/etc/x'']] demoLinks
   in snd u = Inr () \<and> inContent (lkInodes (fst u) 0) = ''sha256:1'' @ [CHR 0x0A]"
  by code_simp

text \<open>An opaque whiteout at the top of a layer is refused, and with it the image.\<close>

lemma opaque_root_refused:
  "snd (UnpackImage calmLinks ''/r/i'' ''sha256:1'' [Some [tarOf ''.wh..wh..opq'' TarReg []]] demoLinks) = Inl (UnsafePath ''.'')"
  by code_simp

end
