(* ===== verification/ByteQueue.thy ===== *)
theory ByteQueue
  imports GoStrings
begin

text \<open>
  The interface between a queue of bytes and whoever drains or fills it. A source hands out
  a prefix of what it holds; a pipe also takes bytes at the end. The lemmas say what a
  whole run of such calls moves; the two queues of the host interpret the locales.
\<close>

locale byte_source =
  fixes invar :: "'s \<Rightarrow> bool"
    and content :: "'s \<Rightarrow> string"
    and take_out :: "'n \<Rightarrow> 's \<Rightarrow> 's \<times> string"
  assumes take_out: "invar s \<Longrightarrow> take_out n s = (s', out) \<Longrightarrow>
      invar s' \<and> content s = out @ content s'"
begin

fun drain :: "'n list \<Rightarrow> 's \<Rightarrow> 's \<times> string" where
  "drain [] s = (s, [])"
| "drain (n # ns) s =
     (let (s1, out) = take_out n s; (s2, outs) = drain ns s1 in (s2, out @ outs))"

lemma drain_prefix:
  "invar s \<Longrightarrow> drain ns s = (s', outs) \<Longrightarrow> invar s' \<and> content s = outs @ content s'"
proof (induction ns arbitrary: s s' outs)
  case Nil
  then show ?case by simp
next
  case (Cons n ns)
  obtain s1 out where t: "take_out n s = (s1, out)" by fastforce
  obtain s2 outs' where d: "drain ns s1 = (s2, outs')" by fastforce
  from take_out [OF Cons.prems(1) t] Cons.IH [OF _ d] Cons.prems(2) t d show ?case
    by auto
qed

end

datatype 'n queueOp = TakeOut 'n | PutIn string

locale byte_pipe = byte_source invar content take_out
  for invar :: "'s \<Rightarrow> bool"
    and content :: "'s \<Rightarrow> string"
    and take_out :: "'n \<Rightarrow> 's \<Rightarrow> 's \<times> string" +
  fixes put_in :: "string \<Rightarrow> 's \<Rightarrow> 's option"
  assumes put_in: "invar s \<Longrightarrow> put_in p s = Some s' \<Longrightarrow> invar s' \<and> content s' = content s @ p"
begin

text \<open>A run of calls: the bytes taken in and given out, calls that do not go through left out.\<close>

fun runOps :: "'n queueOp list \<Rightarrow> 's \<Rightarrow> 's \<times> string \<times> string" where
  "runOps [] s = (s, [], [])"
| "runOps (TakeOut n # ops) s =
     (let (s1, out) = take_out n s; (s2, ins, outs) = runOps ops s1 in (s2, ins, out @ outs))"
| "runOps (PutIn p # ops) s =
     (case put_in p s of
        None \<Rightarrow> runOps ops s
      | Some s1 \<Rightarrow> (let (s2, ins, outs) = runOps ops s1 in (s2, p @ ins, outs)))"

lemma runOps_conserves:
  "invar s \<Longrightarrow> runOps ops s = (s', ins, outs) \<Longrightarrow>
   invar s' \<and> content s @ ins = outs @ content s'"
proof (induction ops s arbitrary: s' ins outs rule: runOps.induct)
  case (1 s)
  then show ?case by simp
next
  case (2 n ops s)
  obtain s1 out where t: "take_out n s = (s1, out)" by fastforce
  obtain s2 ins' outs' where r: "runOps ops s1 = (s2, ins', outs')"
    by (cases "runOps ops s1")
  from take_out [OF "2.prems"(1) t] "2.IH" [OF t [symmetric] refl _ r] "2.prems"(2) t r
  show ?case by auto
next
  case (3 p ops s)
  show ?case
  proof (cases "put_in p s")
    case None
    with 3 show ?thesis by simp
  next
    case (Some s1)
    obtain s2 ins' outs' where r: "runOps ops s1 = (s2, ins', outs')"
      by (cases "runOps ops s1")
    from put_in [OF "3.prems"(1) Some] "3.IH"(2) [OF Some _ r] "3.prems"(2) Some r
    show ?thesis by auto
  qed
qed

end

end
