(* ===== verification/LogStream.thy ===== *)
theory LogStream
  imports ByteQueue "HOL-Library.Sublist"
begin

text \<open>
  The log stream a client subscribes to (host/log\_stream.go): a queue bounded in bytes and
  in items that drops its oldest entries for a slow client and says so with a marker. The
  methods are steps under the subscription's mutex; \<open>next\<close> waits while there is nothing to
  send. The queue is an array with the index of its first liveItems entry, as in the source.
\<close>

definition maxQueuedLogBytes :: int where "maxQueuedLogBytes = 2 ^ 20"
definition maxQueuedLogItems :: int where "maxQueuedLogItems = 1024"

definition droppedLogMarker :: string where
  "droppedLogMarker = ''rmtx: slow client; older streamed logs dropped'' @ [CHR 0x0A]"

record logSub =
  queue :: "string list"
  head :: nat
  queuedBytes :: int
  dropped :: bool
  writing :: bool
  closed :: bool
  failed :: bool
  subStarted :: go_time
  lastSection :: go_time

definition newHostLogSubscription :: "go_time \<Rightarrow> logSub" where
  "newHostLogSubscription now = \<lparr>queue = [], head = 0, queuedBytes = 0, dropped = False,
     writing = False, closed = False, failed = False, subStarted = now, lastSection = now\<rparr>"

definition blen :: "string \<Rightarrow> int" where "blen s = int (length s)"

definition itemCount :: "logSub \<Rightarrow> int" where
  "itemCount s = int (length (queue s)) - int (head s)"

definition liveItems :: "logSub \<Rightarrow> string list" where "liveItems s = drop (head s) (queue s)"

text \<open>
  One round of the dropping loops of \<open>Enqueue\<close>: the oldest entry goes. \<open>mark\<close> is the
  assignment \<open>s.dropped = true\<close>, which only the first loop makes.
\<close>

definition dropOldest :: "bool \<Rightarrow> logSub \<Rightarrow> logSub" where
  "dropOldest mark s =
     s\<lparr>queuedBytes := queuedBytes s - blen (queue s ! head s),
       queue := (queue s)[head s := []],
       head := head s + 1,
       dropped := mark \<or> dropped s\<rparr>"

function dropWhileOver :: "bool \<Rightarrow> int \<Rightarrow> int \<Rightarrow> logSub \<Rightarrow> logSub" where
  "dropWhileOver mark need maxItems s =
     (if (maxQueuedLogBytes < queuedBytes s + need \<or> maxItems \<le> itemCount s)
         \<and> head s < length (queue s)
      then dropWhileOver mark need maxItems (dropOldest mark s) else s)"
  by pat_completeness auto
termination
  by (relation "measure (\<lambda>(mark, need, maxItems, s). length (queue s) - head s)")
    (auto simp: dropOldest_def)

declare dropWhileOver.simps [simp del]

definition limitTail :: "int \<Rightarrow> string \<Rightarrow> string" where
  "limitTail limit buf = (if limit < blen buf then takeLast (nat limit) buf else buf)"

definition appendItem :: "string \<Rightarrow> logSub \<Rightarrow> logSub" where
  "appendItem p s = s\<lparr>queue := queue s @ [p], queuedBytes := queuedBytes s + blen p\<rparr>"

definition announceDrop :: "string \<Rightarrow> logSub \<Rightarrow> logSub \<times> string" where
  "announceDrop buf0 s =
     (if dropped s then
        (let buf = limitTail (maxQueuedLogBytes - blen droppedLogMarker) buf0;
             s1 = dropWhileOver False (blen droppedLogMarker + blen buf) (maxQueuedLogItems - 1) s in
         ((appendItem droppedLogMarker s1)\<lparr>dropped := False\<rparr>, buf))
      else (s, buf0))"

definition compactQueue :: "logSub \<Rightarrow> logSub" where
  "compactQueue s = (if 0 < head s \<and> length (queue s) \<le> head s * 2
                then s\<lparr>queue := drop (head s) (queue s), head := 0\<rparr> else s)"

definition Enqueue :: "string \<Rightarrow> logSub \<Rightarrow> logSub" where
  "Enqueue p s =
     (if p = [] \<or> closed s then s
      else
        (let buf0 = limitTail maxQueuedLogBytes p;
             s1 = dropWhileOver True (blen buf0) maxQueuedLogItems s;
             (s2, buf) = announceDrop buf0 s1 in
         appendItem buf (compactQueue s2)))"

datatype nextResult = Wait | Stop | Item string

definition nextItem :: "logSub \<Rightarrow> logSub \<times> nextResult" where
  "nextItem s =
     (if head s = length (queue s) then (s, if closed s then Stop else Wait)
      else
        (let item = queue s ! head s;
             s1 = s\<lparr>queue := (queue s)[head s := []], head := head s + 1,
                    queuedBytes := queuedBytes s - blen item\<rparr>;
             s2 = (if head s1 = length (queue s1) then s1\<lparr>queue := [], head := 0\<rparr> else s1) in
         (s2\<lparr>writing := True\<rparr>, Item item)))"

text \<open>The end of one round of \<open>run\<close>, after the write of the item to the client.\<close>

definition afterWrite :: "bool \<Rightarrow> logSub \<Rightarrow> logSub" where
  "afterWrite err s =
     (let s1 = s\<lparr>writing := False\<rparr> in
      if err then s1\<lparr>failed := True, closed := True, queue := [], head := 0, queuedBytes := 0\<rparr>
      else s1)"

definition CloseLog :: "logSub \<Rightarrow> logSub" where "CloseLog s = s\<lparr>closed := True\<rparr>"

text \<open>\<open>Flush\<close> returns in a state where this fails.\<close>

definition flushWaits :: "logSub \<Rightarrow> bool" where
  "flushWaits s \<longleftrightarrow> \<not> failed s \<and> \<not> closed s \<and> (head s < length (queue s) \<or> writing s)"

text \<open>\<open>markRunLogSection\<close>: time since the last section and since the start.\<close>

definition markRunLogSection :: "go_time \<Rightarrow> logSub \<Rightarrow> logSub \<times> duration \<times> duration" where
  "markRunLogSection now s =
     (let s1 = (if subStarted s = 0 then s\<lparr>subStarted := now, lastSection := now\<rparr> else s) in
      (s1\<lparr>lastSection := now\<rparr>, timeSub now (lastSection s1), timeSub now (subStarted s1)))"

section \<open>Invariant\<close>

definition bytesOf :: "string list \<Rightarrow> int" where "bytesOf xs = sum_list (map blen xs)"

definition logInv :: "logSub \<Rightarrow> bool" where
  "logInv s \<longleftrightarrow>
     head s \<le> length (queue s) \<and> queuedBytes s = bytesOf (liveItems s)
     \<and> queuedBytes s \<le> maxQueuedLogBytes \<and> itemCount s \<le> maxQueuedLogItems
     \<and> \<not> dropped s"

text \<open>What holds between the statements of \<open>Enqueue\<close>: all but the bounds.\<close>

definition logShape :: "logSub \<Rightarrow> bool" where
  "logShape s \<longleftrightarrow> head s \<le> length (queue s) \<and> queuedBytes s = bytesOf (liveItems s)"

lemma bytesOf_simps [simp]:
  "bytesOf [] = 0"
  "bytesOf (x # xs) = blen x + bytesOf xs"
  "bytesOf (xs @ ys) = bytesOf xs + bytesOf ys"
  by (simp_all add: bytesOf_def)

lemma blen_nonneg [simp]: "0 \<le> blen s" by (simp add: blen_def)

lemma bytesOf_nonneg [simp]: "0 \<le> bytesOf xs"
  by (induction xs) auto

lemma itemCount_live: "logShape s \<Longrightarrow> itemCount s = int (length (liveItems s))"
  by (auto simp: logShape_def itemCount_def liveItems_def)

lemma live_Cons: "head s < length (queue s) \<Longrightarrow>
  liveItems s = (queue s ! head s) # drop (Suc (head s)) (queue s)"
  by (simp add: liveItems_def Cons_nth_drop_Suc)

lemma dropOldest_facts:
  assumes "head s < length (queue s)" and "logShape s"
  shows "logShape (dropOldest mark s)" and "liveItems (dropOldest mark s) = tl (liveItems s)"
proof -
  have "liveItems (dropOldest mark s) = drop (Suc (head s)) (queue s)"
    by (simp add: liveItems_def dropOldest_def)
  then show l: "liveItems (dropOldest mark s) = tl (liveItems s)"
    using live_Cons [OF assms(1)] by simp
  show "logShape (dropOldest mark s)"
    using assms l live_Cons [OF assms(1)] by (auto simp: logShape_def dropOldest_def)
qed

text \<open>
  What the loop leaves: some suffix of the live entries, the bounds met unless nothing is
  left, and, when entries went, an overfull queue before.
\<close>

lemma dropWhileOver_facts:
  assumes "logShape s"
  shows "logShape (dropWhileOver mark need maxItems s)
    \<and> (\<exists>k. liveItems (dropWhileOver mark need maxItems s) = drop k (liveItems s)
         \<and> (k = 0 \<longrightarrow> dropWhileOver mark need maxItems s = s)
         \<and> (0 < k \<longrightarrow> mark \<longrightarrow> dropped (dropWhileOver mark need maxItems s)))
    \<and> (mark \<or> dropped (dropWhileOver mark need maxItems s) = dropped s)
    \<and> closed (dropWhileOver mark need maxItems s) = closed s
    \<and> (liveItems (dropWhileOver mark need maxItems s) = []
       \<or> queuedBytes (dropWhileOver mark need maxItems s) + need \<le> maxQueuedLogBytes
         \<and> itemCount (dropWhileOver mark need maxItems s) < maxItems)"
  using assms
proof (induction mark need maxItems s rule: dropWhileOver.induct)
  case (1 mark need maxItems s)
  let ?go = "(maxQueuedLogBytes < queuedBytes s + need \<or> maxItems \<le> itemCount s)
         \<and> head s < length (queue s)"
  show ?case
  proof (cases ?go)
    case False
    then show ?thesis
      using "1.prems" by (auto simp: dropWhileOver.simps [of mark need maxItems s] logShape_def
          liveItems_def intro!: exI [of _ 0])
  next
    case True
    note facts = dropOldest_facts [OF conjunct2 [OF True] "1.prems", of mark]
    have step: "dropWhileOver mark need maxItems s
      = dropWhileOver mark need maxItems (dropOldest mark s)"
      using True by (simp add: dropWhileOver.simps [of mark need maxItems s])
    let ?r = "dropWhileOver mark need maxItems (dropOldest mark s)"
    note ih = "1.IH" [OF True facts(1)]
    from ih obtain k where
      k: "liveItems ?r = drop k (tl (liveItems s))" "k = 0 \<longrightarrow> ?r = dropOldest mark s"
        "0 < k \<longrightarrow> mark \<longrightarrow> dropped ?r"
      using facts(2) by auto
    have "mark \<longrightarrow> dropped ?r"
      using k(2,3) by (cases k) (auto simp: dropOldest_def)
    with k(1) have ex: "\<exists>k'. liveItems ?r = drop k' (liveItems s) \<and> (k' = 0 \<longrightarrow> ?r = s)
         \<and> (0 < k' \<longrightarrow> mark \<longrightarrow> dropped ?r)"
      by (intro exI [of _ "Suc k"]) (simp add: drop_Suc)
    have kept: "dropped (dropOldest mark s) = (mark \<or> dropped s)"
      "closed (dropOldest mark s) = closed s"
      by (simp_all add: dropOldest_def)
    show ?thesis
      unfolding step using ih ex kept by blast
  qed
qed

lemma blen_limitTail [simp]: "0 \<le> limit \<Longrightarrow> blen (limitTail limit buf) = min limit (blen buf)"
  by (simp add: limitTail_def blen_def)

lemma suffix_limitTail: "suffix (limitTail limit buf) buf"
  using takeLast_suffix [of buf] by (auto simp: limitTail_def suffix_def)

lemma limitTail_same: "blen buf \<le> limit \<Longrightarrow> limitTail limit buf = buf"
  by (simp add: limitTail_def)

lemma logShape_append:
  "logShape s \<Longrightarrow> logShape (appendItem p s) \<and> liveItems (appendItem p s) = liveItems s @ [p]"
  by (auto simp: logShape_def liveItems_def appendItem_def)

lemma logShape_compact: "logShape s \<Longrightarrow> logShape (compactQueue s) \<and> liveItems (compactQueue s) = liveItems s
    \<and> dropped (compactQueue s) = dropped s \<and> closed (compactQueue s) = closed s"
  by (auto simp: logShape_def liveItems_def compactQueue_def)

lemma marker_room: "0 < blen droppedLogMarker \<and> blen droppedLogMarker < maxQueuedLogBytes"
  by (simp add: droppedLogMarker_def blen_def maxQueuedLogBytes_def)

text \<open>The room a payload needs: the queue takes it without dropping.\<close>

definition payloadFits :: "string \<Rightarrow> logSub \<Rightarrow> bool" where
  "payloadFits p s \<longleftrightarrow> blen (limitTail maxQueuedLogBytes p) + queuedBytes s \<le> maxQueuedLogBytes
     \<and> itemCount s < maxQueuedLogItems"

lemma logInv_shape: "logInv s \<Longrightarrow> logShape s" by (simp add: logInv_def logShape_def)

lemma Enqueue_fits:
  assumes "logInv s" "p \<noteq> []" "\<not> closed s" "payloadFits p s"
  shows "Enqueue p s = appendItem (limitTail maxQueuedLogBytes p) (compactQueue s)"
proof -
  have "dropWhileOver True (blen (limitTail maxQueuedLogBytes p)) maxQueuedLogItems s = s"
    using assms(4) unfolding payloadFits_def
    by (simp add: dropWhileOver.simps [of _ _ _ s])
  with assms show ?thesis
    by (simp add: Enqueue_def announceDrop_def logInv_def)
qed

text \<open>
  With no room: a non-empty prefix of the live entries goes, the marker stands for it, and
  the tail of the payload follows.
\<close>

lemma Enqueue_drops:
  assumes "logInv s" "p \<noteq> []" "\<not> closed s" "\<not> payloadFits p s"
  shows "\<exists>k. liveItems (Enqueue p s) = drop k (liveItems s) @
           [droppedLogMarker, limitTail (maxQueuedLogBytes - blen droppedLogMarker) p]
         \<and> 0 < k \<and> logShape (Enqueue p s) \<and> \<not> dropped (Enqueue p s)
         \<and> closed (Enqueue p s) = closed s
         \<and> queuedBytes (Enqueue p s) \<le> maxQueuedLogBytes
         \<and> itemCount (Enqueue p s) \<le> maxQueuedLogItems"
proof -
  define buf0 where "buf0 = limitTail maxQueuedLogBytes p"
  define s1 where "s1 = dropWhileOver True (blen buf0) maxQueuedLogItems s"
  define buf where "buf = limitTail (maxQueuedLogBytes - blen droppedLogMarker) buf0"
  define s2 where "s2 = dropWhileOver False (blen droppedLogMarker + blen buf)
    (maxQueuedLogItems - 1) s1"
  note sh = logInv_shape [OF assms(1)]
  note f1 = dropWhileOver_facts [OF sh, of True "blen buf0" maxQueuedLogItems, folded s1_def]
  have sh1: "logShape s1" using f1 by blast
  note f2 = dropWhileOver_facts [OF sh1, of False "blen droppedLogMarker + blen buf"
      "maxQueuedLogItems - 1", folded s2_def]
  obtain k1 where k1: "liveItems s1 = drop k1 (liveItems s)" "k1 = 0 \<longrightarrow> s1 = s" "0 < k1 \<longrightarrow> dropped s1"
    using f1 by blast
  obtain k2 where k2: "liveItems s2 = drop k2 (liveItems s1)" using f2 by blast
  have "liveItems s \<noteq> []"
  proof
    assume "liveItems s = []"
    with assms(1) have "queuedBytes s = 0" "itemCount s = 0"
      by (auto simp: logInv_def itemCount_live [OF sh])
    with assms(4) show False
      by (simp add: payloadFits_def maxQueuedLogItems_def maxQueuedLogBytes_def)
  qed
  then have "k1 \<noteq> 0"
    using f1 k1(2) assms(4) by (auto simp: payloadFits_def buf0_def)
  then have d1: "dropped s1" and pos: "0 < k1 + k2" using k1(3) by auto
  define s3 where "s3 = (appendItem droppedLogMarker s2)\<lparr>dropped := False\<rparr>"
  have sh3: "logShape s3" and l3: "liveItems s3 = liveItems s2 @ [droppedLogMarker]"
    using logShape_append [of s2 droppedLogMarker] f2
    by (auto simp: s3_def logShape_def liveItems_def)
  have d3: "\<not> dropped s3" "closed s3 = closed s"
    using f1 f2 by (auto simp: s3_def appendItem_def)
  note c3 = logShape_compact [OF sh3]
  have E: "Enqueue p s = appendItem buf (compactQueue s3)"
    using assms d1 unfolding Enqueue_def announceDrop_def
    by (simp add: Let_def buf0_def [symmetric] s1_def [symmetric] buf_def [symmetric]
        s2_def [symmetric] s3_def)
  have shE: "logShape (Enqueue p s)"
    and lE: "liveItems (Enqueue p s) = liveItems s2 @ [droppedLogMarker, buf]"
    using logShape_append [of "compactQueue s3" buf] c3 l3 E by auto
  have dE: "\<not> dropped (Enqueue p s)" "closed (Enqueue p s) = closed s"
    using c3 d3 E by (auto simp: appendItem_def)
  have buf_p: "buf = limitTail (maxQueuedLogBytes - blen droppedLogMarker) p"
    using marker_room by (auto simp: buf_def buf0_def limitTail_def blen_def takeLast_def)
  have bb: "blen droppedLogMarker + blen buf \<le> maxQueuedLogBytes"
    using marker_room by (simp add: buf_def)
  have sh2: "logShape s2" using f2 by blast
  have q2: "queuedBytes s2 = bytesOf (liveItems s2)" and i2: "itemCount s2 = int (length (liveItems s2))"
    using sh2 itemCount_live [OF sh2] by (auto simp: logShape_def)
  have qE: "queuedBytes (Enqueue p s) \<le> maxQueuedLogBytes"
    using shE lE f2 bb q2 by (auto simp: logShape_def)
  have iE: "itemCount (Enqueue p s) \<le> maxQueuedLogItems"
    using itemCount_live [OF shE] lE f2 i2 by (auto simp: maxQueuedLogItems_def)
  show ?thesis
    using lE k1(1) k2 pos shE dE qE iE buf_p
    by (intro exI [of _ "k1 + k2"]) (simp add: add.commute)
qed

lemma Enqueue_ignored: "p = [] \<or> closed s \<Longrightarrow> Enqueue p s = s"
  by (auto simp: Enqueue_def)

lemma live_Enqueue_fits:
  assumes "logInv s" "p \<noteq> []" "\<not> closed s" "payloadFits p s"
  shows "liveItems (Enqueue p s) = liveItems s @ [limitTail maxQueuedLogBytes p]"
  using logShape_compact [OF logInv_shape [OF assms(1)]]
    logShape_append [of "compactQueue s"] Enqueue_fits [OF assms] by auto

lemma logInv_Enqueue [inv_intros]: "logInv s \<Longrightarrow> logInv (Enqueue p s)"
proof -
  assume inv: "logInv s"
  consider "p = [] \<or> closed s" | "p \<noteq> []" "\<not> closed s" "payloadFits p s"
    | "p \<noteq> []" "\<not> closed s" "\<not> payloadFits p s" by blast
  then show "logInv (Enqueue p s)"
  proof cases
    case 1
    then show ?thesis using inv by (simp add: Enqueue_ignored)
  next
    case 2
    note sh = logInv_shape [OF inv]
    note c = logShape_compact [OF sh]
    have shE: "logShape (Enqueue p s)"
      using c logShape_append [of "compactQueue s"] Enqueue_fits [OF inv 2] by auto
    have "\<not> dropped (Enqueue p s)"
      using c Enqueue_fits [OF inv 2] inv by (simp add: appendItem_def logInv_def)
    with shE show ?thesis
      using live_Enqueue_fits [OF inv 2] itemCount_live [OF shE] itemCount_live [OF sh] 2(3) inv
      by (auto simp: logInv_def logShape_def payloadFits_def)
  next
    case 3
    then show ?thesis
      using Enqueue_drops [OF inv 3] by (auto simp: logInv_def logShape_def)
  qed
qed

lemma nextItem_facts:
  assumes "logInv s" and "nextItem s = (s', r)"
  shows "logInv s' \<and> closed s' = closed s \<and>
    (case r of Item x \<Rightarrow> liveItems s = x # liveItems s' | _ \<Rightarrow> s' = s \<and> liveItems s = [])"
proof (cases "head s = length (queue s)")
  case True
  then show ?thesis using assms by (auto simp: nextItem_def liveItems_def)
next
  case False
  then have h: "head s < length (queue s)" using assms(1) by (simp add: logInv_def)
  note c = live_Cons [OF h]
  have r: "r = Item (queue s ! head s)" and l: "liveItems s' = drop (Suc (head s)) (queue s)"
    and d: "dropped s' = dropped s" "closed s' = closed s"
    using assms(2) False by (auto simp: nextItem_def Let_def liveItems_def split: if_splits)
  have hd: "head s' \<le> length (queue s')"
    and q: "queuedBytes s' = queuedBytes s - blen (queue s ! head s)"
    using assms(2) False h by (auto simp: nextItem_def Let_def split: if_splits)
  have sh: "logShape s'" using hd q l c assms(1) by (auto simp: logShape_def logInv_def)
  have "itemCount s' = itemCount s - 1"
    using itemCount_live [OF sh] itemCount_live [OF logInv_shape [OF assms(1)]] l c by simp
  moreover have "queuedBytes s' \<le> maxQueuedLogBytes"
    using q assms(1) blen_nonneg [of "queue s ! head s"] by (simp add: logInv_def del: blen_nonneg)
  ultimately show ?thesis
    using assms(1) sh d l c r unfolding logInv_def logShape_def by auto
qed

lemma logInv_nextItem [inv_intros]: "logInv s \<Longrightarrow> logInv (fst (nextItem s))"
  using nextItem_facts [of s] by (cases "nextItem s") auto

lemma logInv_written [inv_intros]: "logInv s \<Longrightarrow> logInv (afterWrite err s)"
  by (cases err) (auto simp: afterWrite_def Let_def logInv_def liveItems_def itemCount_def
      maxQueuedLogBytes_def maxQueuedLogItems_def)

lemma logInv_CloseLog [inv_intros]: "logInv s \<Longrightarrow> logInv (CloseLog s)"
  by (simp add: CloseLog_def logInv_def liveItems_def itemCount_def)

lemma live_CloseLog [simp]: "liveItems (CloseLog s) = liveItems s"
  by (simp add: CloseLog_def liveItems_def)

lemma logInv_new [inv_intros]: "logInv (newHostLogSubscription now)"
  by (simp add: newHostLogSubscription_def logInv_def liveItems_def itemCount_def
      maxQueuedLogBytes_def maxQueuedLogItems_def)

section \<open>Runs of a subscription\<close>

text \<open>
  The steps of the producers and of the goroutine \<open>run\<close>, each atomic under the mutex. The
  lists record what producers enqueued and what \<open>run\<close> wrote to the client.
\<close>

type_synonym logRun = "logSub \<times> string list \<times> string list"

inductive logStep :: "logRun \<Rightarrow> logRun \<Rightarrow> bool" where
  enqueue: "logStep (s, enq, sent) (Enqueue p s, enq @ [p], sent)"
| run_next: "\<not> writing s \<Longrightarrow> nextItem s = (s', Item x) \<Longrightarrow>
    logStep (s, enq, sent) (s', enq, sent @ [x])"
| run_written: "writing s \<Longrightarrow> logStep (s, enq, sent) (afterWrite err s, enq, sent)"
| close: "logStep (s, enq, sent) (CloseLog s, enq, sent)"

inductive logReachable :: "go_time \<Rightarrow> logRun \<Rightarrow> bool" for now where
  init: "logReachable now (newHostLogSubscription now, [], [])"
| step: "logReachable now r \<Longrightarrow> logStep r r' \<Longrightarrow> logReachable now r'"

inductive_simps logStep_simps: "logStep (s, enq, sent) (s', enq', sent')"

abbreviation payloads :: "string list \<Rightarrow> string list" where
  "payloads \<equiv> filter (\<lambda>x. x \<noteq> droppedLogMarker)"

text \<open>
  Everything the client got and still gets, markers aside, is what producers enqueued, each
  entry at most once, in their order, and at worst cut at the front.
\<close>

definition faithful :: "logRun \<Rightarrow> bool" where
  "faithful r = (case r of (s, enq, sent) \<Rightarrow> list_emb suffix (payloads (sent @ liveItems s)) enq)"

lemma emb_subseq:
  assumes "subseq xs' xs" and "list_emb suffix xs ys"
  shows "list_emb suffix xs' ys"
proof -
  have "list_emb suffix xs' xs" using assms(1) by (rule list_emb_mono [rule_format, rotated]) auto
  show ?thesis
    by (rule list_emb_trans [OF _ \<open>list_emb suffix xs' xs\<close> assms(2)])
      (rule suffix_order.trans)
qed

lemma subseq_filter_append: "subseq as bs \<Longrightarrow> subseq (filter P (xs @ as)) (filter P (xs @ bs))"
  by (intro subseq_filter list_emb_append_mono) auto

lemma faithful_sub:
  "faithful (s, enq, sent) \<Longrightarrow> subseq (sent' @ liveItems s') (sent @ liveItems s) \<Longrightarrow> faithful (s', enq, sent')"
  unfolding faithful_def by (auto intro: emb_subseq dest: subseq_filter simp del: filter_append)

lemma payloads_marker [simp]: "payloads [droppedLogMarker, x] = payloads [x]"
  by simp

lemma emb_snoc:
  assumes "list_emb suffix xs ys" and "suffix t p"
  shows "list_emb suffix (xs @ payloads [t]) (ys @ [p])"
  by (rule list_emb_append_mono [OF assms(1)]) (auto simp: assms(2))

lemma faithful_Enqueue:
  assumes inv: "logInv s" and f: "faithful (s, enq, sent)"
  shows "faithful (Enqueue p s, enq @ [p], sent)"
proof -
  consider "p = [] \<or> closed s" | "p \<noteq> []" "\<not> closed s" "payloadFits p s"
    | "p \<noteq> []" "\<not> closed s" "\<not> payloadFits p s" by blast
  then show ?thesis
  proof cases
    case 1
    then have "faithful (Enqueue p s, enq, sent)" using f by (simp add: Enqueue_ignored)
    then show ?thesis unfolding faithful_def by (auto intro: list_emb_append2)
  next
    case 2
    then show ?thesis
      using emb_snoc [OF _ suffix_limitTail, of "payloads (sent @ liveItems s)" enq] f
      by (simp add: faithful_def live_Enqueue_fits [OF inv 2])
  next
    case 3
    then obtain k t where l: "liveItems (Enqueue p s) = drop k (liveItems s) @ [droppedLogMarker, t]"
      and t: "suffix t p"
      using Enqueue_drops [OF inv 3] suffix_limitTail by meson
    have "subseq (drop k (liveItems s)) (liveItems s)"
      by (rule suffix_imp_subseq) (rule suffix_drop)
    then have "list_emb suffix (payloads (sent @ drop k (liveItems s))) enq"
      using emb_subseq [OF subseq_filter_append] f by (simp add: faithful_def del: filter_append)
    from emb_snoc [OF this t] show ?thesis
      by (simp add: faithful_def l)
  qed
qed

lemma logStep_invariant:
  assumes "logStep (s, enq, sent) (s', enq', sent')" "logInv s" "faithful (s, enq, sent)"
  shows "logInv s' \<and> faithful (s', enq', sent')"
  using assms(1)
proof (cases rule: logStep.cases)
  case (enqueue p)
  then show ?thesis using assms(2,3) by (simp add: logInv_Enqueue faithful_Enqueue)
next
  case (run_next x)
  then show ?thesis
    using nextItem_facts [OF assms(2), of s' "Item x"] assms(3) by (auto simp: faithful_def)
next
  case (run_written err)
  then have "subseq (sent @ liveItems s') (sent @ liveItems s)"
    by (cases err) (auto simp: afterWrite_def Let_def liveItems_def intro: subseq_append_le_same_iff)
  then show ?thesis
    using run_written assms(2,3) by (auto intro: faithful_sub logInv_written)
next
  case close
  then show ?thesis
    using assms(2,3) logInv_CloseLog [of s] by (simp add: faithful_def)
qed

lemma logReachable_invariant: "logReachable now (s, enq, sent) \<Longrightarrow> logInv s \<and> faithful (s, enq, sent)"
proof (induction "(s, enq, sent)" arbitrary: s enq sent rule: logReachable.induct)
  case init
  then show ?case
    by (simp add: logInv_new) (simp add: faithful_def newHostLogSubscription_def liveItems_def)
next
  case (step r)
  then show ?case
    by (cases r) (auto dest: logStep_invariant)
qed

text \<open>The queue as a source of bytes for the client.\<close>

definition takeLog :: "unit \<Rightarrow> logSub \<Rightarrow> logSub \<times> string" where
  "takeLog u s = (case nextItem s of (s', Item x) \<Rightarrow> (s', x) | (s', _) \<Rightarrow> (s', []))"

interpretation logSource: byte_source logInv "\<lambda>s. concat (liveItems s)" takeLog
proof
  fix s s' n out
  assume inv: "logInv s" and t: "takeLog n s = (s', out)"
  obtain s1 r where n: "nextItem s = (s1, r)" by fastforce
  then show "logInv s' \<and> concat (liveItems s) = out @ concat (liveItems s')"
    using nextItem_facts [OF inv n] t by (cases r) (auto simp: takeLog_def)
qed

section \<open>Properties\<close>

text \<open>
  However producers, the writing goroutine and closing interleave, the queue of a log
  subscription never holds more than 1 MiB or 1024 entries, so a slow client cannot grow
  the host's memory.
\<close>

theorem log_memory_bounded:
  assumes "logReachable now (s, enq, sent)"
  shows "bytesOf (liveItems s) \<le> 2 ^ 20 \<and> length (liveItems s) \<le> 1024 \<and> queuedBytes s = bytesOf (liveItems s)"
proof -
  have inv: "logInv s" using logReachable_invariant [OF assms] by blast
  then show ?thesis
    using itemCount_live [OF logInv_shape [OF inv]]
    by (auto simp: logInv_def maxQueuedLogBytes_def maxQueuedLogItems_def)
qed

text \<open>
  C24. What the client receives and is still to receive is, drop markers aside, what was
  enqueued, in that order, no entry twice or invented, an entry at worst cut at its front.
\<close>

theorem log_stream_faithful:
  assumes "logReachable now (s, enq, sent)"
  shows "list_emb suffix (payloads (sent @ liveItems s)) enq"
  using logReachable_invariant [OF assms] by (simp add: faithful_def)

text \<open>
  A payload that fits keeps the queue and is appended; one that does not makes some of the
  oldest entries go, and the marker stands in their place, before the end of the payload:
  no loss is silent.
\<close>

theorem log_drop_announced:
  assumes "logInv s" "p \<noteq> []" "\<not> closed s"
  shows "if payloadFits p s then liveItems (Enqueue p s) = liveItems s @ [limitTail maxQueuedLogBytes p]
    else \<exists>k>0. liveItems (Enqueue p s) = drop k (liveItems s) @
           [droppedLogMarker, limitTail (maxQueuedLogBytes - blen droppedLogMarker) p]"
  using live_Enqueue_fits [OF assms] Enqueue_drops [OF assms] by auto

text \<open>A reachable run with a payload enqueued, sent, and another one waiting.\<close>

definition demoLog :: logRun where
  "demoLog = (Enqueue ''b'' (afterWrite False (fst (nextItem
     (Enqueue ''a'' (newHostLogSubscription 5))))), [''a'', ''b''], [''a''])"

lemma demoLog_state:
  "demoLog = (\<lparr>queue = [''b''], head = 0, queuedBytes = 1, dropped = False, writing = False,
     closed = False, failed = False, subStarted = 5, lastSection = 5\<rparr>, [''a'', ''b''], [''a''])"
  by (simp add: demoLog_def Enqueue_def newHostLogSubscription_def dropWhileOver.simps nextItem_def
      afterWrite_def appendItem_def compactQueue_def announceDrop_def limitTail_def Let_def blen_def itemCount_def
      maxQueuedLogBytes_def maxQueuedLogItems_def)

lemma demoLog_reachable: "logReachable 5 demoLog"
proof -
  let ?s0 = "newHostLogSubscription 5"
  let ?s1 = "Enqueue ''a'' ?s0"
  have n: "nextItem ?s1 = (fst (nextItem ?s1), Item ''a'')" "\<not> writing ?s1"
    "writing (fst (nextItem ?s1))"
    by (simp_all add: Enqueue_def newHostLogSubscription_def dropWhileOver.simps nextItem_def
      appendItem_def compactQueue_def announceDrop_def limitTail_def Let_def blen_def itemCount_def
      maxQueuedLogBytes_def maxQueuedLogItems_def)
  have "logReachable 5 (?s1, [] @ [''a''], [])"
    by (rule logReachable.step [OF logReachable.init]) (rule logStep.enqueue)
  then have "logReachable 5 (fst (nextItem ?s1), [] @ [''a''], [] @ [''a''])"
    by (rule logReachable.step) (rule logStep.run_next [OF n(2,1)])
  then have "logReachable 5 (afterWrite False (fst (nextItem ?s1)), [] @ [''a''], [] @ [''a''])"
    by (rule logReachable.step) (rule logStep.run_written [OF n(3)])
  from logReachable.step [OF this logStep.enqueue [of _ _ _ "''b''"]] show ?thesis
    by (simp add: demoLog_def)
qed

lemma log_memory_bounded_witness: "case demoLog of (s, enq, sent) \<Rightarrow>
    liveItems s = [''b''] \<and> bytesOf (liveItems s) \<le> 2 ^ 20"
  using log_memory_bounded [OF demoLog_reachable [unfolded demoLog_state]]
  by (simp add: demoLog_state liveItems_def)

lemma log_stream_faithful_witness: "case demoLog of (s, enq, sent) \<Rightarrow>
    sent @ liveItems s = [''a'', ''b''] \<and> list_emb suffix (payloads (sent @ liveItems s)) enq"
  using log_stream_faithful [OF demoLog_reachable [unfolded demoLog_state]]
  by (simp add: demoLog_state liveItems_def droppedLogMarker_def)

text \<open>A queue of a single entry of the largest size: nothing fits, the entry is dropped.\<close>

definition fullLog :: logSub where
  "fullLog = (newHostLogSubscription 5)\<lparr>queue := [replicate (2 ^ 20) CHR ''x''],
     queuedBytes := 2 ^ 20\<rparr>"

lemma log_drop_announced_witness:
  "\<exists>k>0. liveItems (Enqueue ''a'' fullLog) = drop k (liveItems fullLog) @
     [droppedLogMarker, limitTail (maxQueuedLogBytes - blen droppedLogMarker) ''a'']"
proof -
  have inv: "logInv fullLog"
    by (simp add: fullLog_def logInv_def newHostLogSubscription_def liveItems_def itemCount_def
        blen_def maxQueuedLogBytes_def maxQueuedLogItems_def)
  have "\<not> closed fullLog" "\<not> payloadFits ''a'' fullLog"
    by (simp_all add: fullLog_def newHostLogSubscription_def payloadFits_def blen_def limitTail_def
        maxQueuedLogBytes_def)
  with log_drop_announced [OF inv, of "''a''"] show ?thesis by simp
qed

end
