(* ===== verification/RunInput.thy ===== *)
theory RunInput
  imports ByteQueue Prelude "HOL-Library.Sublist"
begin

text \<open>
  The input of a running command (host/run\_input.go, run\_tty\_supported.go): the bounded
  queue between the connection and the command's stdin, the queue of a TTY that is not
  attached yet, and the loops that feed both from the frames of the connection. The methods
  run under the queue's mutex; a call that waits for the condition variable gives
  \<open>Blocked\<close> and leaves the queue as it is.
\<close>

datatype 'a outcome = Blocked | Done 'a

datatype inputError =
    ErrClosedPipe | QueueExceeds | WriterFailed | ResizeFailed | DecodeFailed
  | CopyFailed | DiscardFailed | ReadHeaderFailed | UnexpectedFrame string string | StillWaiting

text \<open>\<open>StillWaiting\<close> is no error of the code: a write that has not found room yet.\<close>

section \<open>The pipe\<close>

definition maxQueuedPipeInputBytes :: int where "maxQueuedPipeInputBytes = 2 ^ 20"

record pipeInput =
  pqueue :: "string list"
  phead :: nat
  pqueuedBytes :: int
  pclosed :: bool
  pstopped :: bool

definition newPipeInput :: pipeInput where
  "newPipeInput = \<lparr>pqueue = [], phead = 0, pqueuedBytes = 0, pclosed = False, pstopped = False\<rparr>"

definition pipeWrite :: "string \<Rightarrow> pipeInput \<Rightarrow> pipeInput \<times> (inputError + nat) outcome" where
  "pipeWrite p i =
     (if p = [] then (i, Done (Inr 0))
      else if \<not> pclosed i \<and> \<not> pstopped i
              \<and> maxQueuedPipeInputBytes < pqueuedBytes i + int (length p) then (i, Blocked)
      else if pclosed i \<or> pstopped i then (i, Done (Inl ErrClosedPipe))
      else (i\<lparr>pqueue := pqueue i @ [p], pqueuedBytes := pqueuedBytes i + int (length p)\<rparr>,
            Done (Inr (length p))))"

text \<open>\<open>Read\<close> into a buffer of \<open>n\<close> bytes; \<open>None\<close> is \<open>io.EOF\<close>.\<close>

definition pipeRead :: "nat \<Rightarrow> pipeInput \<Rightarrow> pipeInput \<times> string option outcome" where
  "pipeRead n i =
     (if n = 0 then (i, Done (Some []))
      else if phead i = length (pqueue i) \<and> \<not> pclosed i \<and> \<not> pstopped i then (i, Blocked)
      else if phead i = length (pqueue i) then (i, Done None)
      else
        (let cur = pqueue i ! phead i; out = take n cur in
         if length out = length cur then
           (let i1 = i\<lparr>pqueuedBytes := pqueuedBytes i - int (length cur),
                       pqueue := (pqueue i)[phead i := []], phead := phead i + 1\<rparr> in
            (if phead i1 = length (pqueue i1) then i1\<lparr>pqueue := [], phead := 0\<rparr> else i1,
             Done (Some out)))
         else
           (i\<lparr>pqueue := (pqueue i)[phead i := drop (length out) cur],
              pqueuedBytes := pqueuedBytes i - int (length out)\<rparr>,
            Done (Some out))))"

definition pipeClose :: "pipeInput \<Rightarrow> pipeInput" where
  "pipeClose i = i\<lparr>pclosed := True\<rparr>"

text \<open>\<open>Stop\<close> acts once (\<open>sync.Once\<close>); a second call finds \<open>stopped\<close> set.\<close>

definition pipeStop :: "pipeInput \<Rightarrow> pipeInput" where
  "pipeStop i = (if pstopped i then i
     else i\<lparr>pstopped := True, pqueue := [], phead := 0, pqueuedBytes := 0\<rparr>)"

definition pipeContent :: "pipeInput \<Rightarrow> string" where
  "pipeContent i = concat (drop (phead i) (pqueue i))"

definition pipeInv :: "pipeInput \<Rightarrow> bool" where
  "pipeInv i \<longleftrightarrow> phead i \<le> length (pqueue i)
     \<and> pqueuedBytes i = int (length (pipeContent i))
     \<and> pqueuedBytes i \<le> maxQueuedPipeInputBytes"

lemma pipeInv_new [inv_intros]: "pipeInv newPipeInput"
  by (simp add: pipeInv_def newPipeInput_def pipeContent_def maxQueuedPipeInputBytes_def)

lemma pipeWrite_facts:
  assumes "pipeInv i" and "pipeWrite p i = (i', r)"
  shows "pipeInv i' \<and> (case r of
      Done (Inr n) \<Rightarrow> n = length p \<and> pipeContent i' = pipeContent i @ p
    | _ \<Rightarrow> i' = i)"
  using assms unfolding pipeWrite_def
  by (auto simp: pipeInv_def pipeContent_def split: if_splits)

lemma pipe_current: "phead i < length (pqueue i) \<Longrightarrow>
  pipeContent i = pqueue i ! phead i @ concat (drop (Suc (phead i)) (pqueue i))"
  by (simp add: pipeContent_def Cons_nth_drop_Suc [symmetric])

lemma pipeRead_facts:
  assumes inv: "pipeInv i" and r: "pipeRead n i = (i', r)"
  shows "pipeInv i' \<and> (case r of
      Done (Some out) \<Rightarrow> length out \<le> n \<and> pipeContent i = out @ pipeContent i'
    | Done None \<Rightarrow> i' = i \<and> pipeContent i = [] \<and> (pclosed i \<or> pstopped i)
    | Blocked \<Rightarrow> i' = i \<and> pipeContent i = [] \<and> \<not> pclosed i \<and> \<not> pstopped i)"
proof -
  consider "n = 0" | "n \<noteq> 0" "phead i = length (pqueue i)"
    | "n \<noteq> 0" "phead i < length (pqueue i)"
    using inv unfolding pipeInv_def le_less by blast
  then show ?thesis
  proof cases
    case 1
    then show ?thesis using inv r by (auto simp: pipeRead_def)
  next
    case 2
    then show ?thesis using inv r by (auto simp: pipeRead_def pipeContent_def split: if_splits)
  next
    case 3
    let ?cur = "pqueue i ! phead i"
    note c = pipe_current [OF 3(2)]
    have r_eq: "r = Done (Some (take n ?cur))"
      using r 3 by (auto simp: pipeRead_def Let_def split: if_splits)
    have cont: "pipeContent i' = drop n ?cur @ concat (drop (Suc (phead i)) (pqueue i))"
      using r 3 by (auto simp: pipeRead_def Let_def pipeContent_def
          Cons_nth_drop_Suc [symmetric] split: if_splits)
    have "phead i' \<le> length (pqueue i')"
      using r 3 by (auto simp: pipeRead_def Let_def split: if_splits)
    moreover have "pqueuedBytes i' = pqueuedBytes i - int (length (take n ?cur))"
      using r 3 by (auto simp: pipeRead_def Let_def split: if_splits)
    moreover have "pipeContent i = take n ?cur @ pipeContent i'" using c cont by simp
    moreover from this have "length (pipeContent i)
        = length (take n ?cur) + length (pipeContent i')"
      by (metis length_append)
    ultimately show ?thesis using inv r_eq unfolding pipeInv_def by simp
  qed
qed

lemma pipeInv_pipeClose [inv_intros]: "pipeInv i \<Longrightarrow> pipeInv (pipeClose i)"
  by (simp add: pipeInv_def pipeClose_def pipeContent_def)

lemma pipeInv_pipeStop [inv_intros]: "pipeInv i \<Longrightarrow> pipeInv (pipeStop i)"
  by (auto simp: pipeInv_def pipeStop_def pipeContent_def maxQueuedPipeInputBytes_def)

text \<open>The pipe as the interface of a byte queue.\<close>

definition takePipe :: "nat \<Rightarrow> pipeInput \<Rightarrow> pipeInput \<times> string" where
  "takePipe n i = (case pipeRead n i of (i', Done (Some out)) \<Rightarrow> (i', out) | (i', _) \<Rightarrow> (i', []))"

definition putPipe :: "string \<Rightarrow> pipeInput \<Rightarrow> pipeInput option" where
  "putPipe p i = (case pipeWrite p i of (i', Done (Inr _)) \<Rightarrow> Some i' | _ \<Rightarrow> None)"

interpretation pipeQueue: byte_pipe pipeInv pipeContent takePipe putPipe
proof
  fix s s' :: pipeInput and n out
  assume inv: "pipeInv s" and t: "takePipe n s = (s', out)"
  obtain s1 r where n: "pipeRead n s = (s1, r)" by fastforce
  from pipeRead_facts [OF inv n] t n show "pipeInv s' \<and> pipeContent s = out @ pipeContent s'"
    by (auto simp: takePipe_def split: outcome.splits option.splits)
next
  fix s s' :: pipeInput and p
  assume inv: "pipeInv s" and t: "putPipe p s = Some s'"
  obtain s1 r where n: "pipeWrite p s = (s1, r)" by fastforce
  from pipeWrite_facts [OF inv n] t n show "pipeInv s' \<and> pipeContent s' = pipeContent s @ p"
    by (auto simp: putPipe_def split: outcome.splits sum.splits)
qed

section \<open>The queue of a TTY\<close>

text \<open>
  Before the PTY exists the bytes are queued and the last size is kept; \<open>Attach\<close> hands both
  to it. What reaches the PTY is recorded as events; \<open>okWrite\<close> and \<open>okResize\<close> say which calls
  on it succeed.
\<close>

datatype ttyEvent = TtyBytes string | TtySize int int

record ttyInput =
  twriter :: "ttyEvent list option"
  tqueue :: "string list"
  tqueued :: int
  tresize :: "(int \<times> int) option"
  tstopped :: bool

definition newTtyInput :: ttyInput where
  "newTtyInput = \<lparr>twriter = None, tqueue = [], tqueued = 0, tresize = None, tstopped = False\<rparr>"

fun attachWrites :: "(string \<Rightarrow> bool) \<Rightarrow> string list \<Rightarrow> ttyEvent list \<Rightarrow> ttyEvent list \<times> bool" where
  "attachWrites okWrite [] out = (out, True)"
| "attachWrites okWrite (d # ds) out =
     (if okWrite d then attachWrites okWrite ds (out @ [TtyBytes d]) else (out, False))"

definition ttyAttach ::
  "(string \<Rightarrow> bool) \<Rightarrow> (int \<Rightarrow> int \<Rightarrow> bool) \<Rightarrow> ttyEvent list \<Rightarrow> ttyInput \<Rightarrow> ttyInput \<times> (inputError + unit)" where
  "ttyAttach okWrite okResize pty i =
     (case attachWrites okWrite (tqueue i) pty of
        (out, False) \<Rightarrow> (i\<lparr>twriter := Some out\<rparr>, Inl WriterFailed)
      | (out, True) \<Rightarrow>
          (let i1 = i\<lparr>twriter := Some out, tqueue := [], tqueued := 0\<rparr> in
           case tresize i of
             None \<Rightarrow> (i1, Inr ())
           | Some (rows, cols) \<Rightarrow>
               (if okResize rows cols
                then (i1\<lparr>twriter := Some (out @ [TtySize rows cols]), tresize := None\<rparr>, Inr ())
                else (i1, Inl ResizeFailed))))"

definition ttyWrite :: "(string \<Rightarrow> bool) \<Rightarrow> string \<Rightarrow> ttyInput \<Rightarrow> ttyInput \<times> (inputError + nat)" where
  "ttyWrite okWrite p i =
     (if p = [] then (i, Inr 0)
      else case twriter i of
        None \<Rightarrow>
          (if maxQueuedPipeInputBytes < tqueued i + int (length p) then (i, Inl QueueExceeds)
           else (i\<lparr>tqueue := tqueue i @ [p], tqueued := tqueued i + int (length p)\<rparr>, Inr (length p)))
      | Some out \<Rightarrow>
          (if okWrite p then (i\<lparr>twriter := Some (out @ [TtyBytes p])\<rparr>, Inr (length p))
           else (i, Inl WriterFailed)))"

definition ttyResize :: "(int \<Rightarrow> int \<Rightarrow> bool) \<Rightarrow> int \<Rightarrow> int \<Rightarrow> ttyInput \<Rightarrow> ttyInput \<times> (inputError + unit)" where
  "ttyResize okResize rows cols i =
     (case twriter i of
        None \<Rightarrow> (i\<lparr>tresize := Some (rows, cols)\<rparr>, Inr ())
      | Some out \<Rightarrow>
          (if okResize rows cols then (i\<lparr>twriter := Some (out @ [TtySize rows cols])\<rparr>, Inr ())
           else (i, Inl ResizeFailed)))"

definition ttyStop :: "ttyInput \<Rightarrow> ttyInput" where "ttyStop i = i\<lparr>tstopped := True\<rparr>"

text \<open>The bytes a TTY input has passed on, then those it holds.\<close>

fun eventBytes :: "ttyEvent \<Rightarrow> string" where
  "eventBytes (TtyBytes d) = d"
| "eventBytes (TtySize _ _) = []"

definition ttyBytes :: "ttyInput \<Rightarrow> string" where
  "ttyBytes i = (case twriter i of None \<Rightarrow> concat (tqueue i)
     | Some out \<Rightarrow> concat (map eventBytes out))"

lemma attachWrites_all:
  "attachWrites okWrite ds out = (out', True) \<Longrightarrow> out' = out @ map TtyBytes ds"
  by (induction okWrite ds out rule: attachWrites.induct) (auto split: if_splits)

lemma concat_eventBytes [simp]: "concat (map (eventBytes \<circ> TtyBytes) ds) = concat ds"
  by (simp add: comp_def)

lemma ttyWrite_bytes:
  "ttyWrite okWrite p i = (i', Inr n) \<Longrightarrow> ttyBytes i' = ttyBytes i @ p \<and> n = length p"
  by (auto simp: ttyWrite_def ttyBytes_def split: if_splits option.splits)

lemma ttyAttach_bytes:
  "twriter i = None \<Longrightarrow> ttyAttach okWrite okResize [] i = (i', Inr u) \<Longrightarrow>
   ttyBytes i' = ttyBytes i \<and> tqueue i' = [] \<and> tresize i' = None
   \<and> twriter i' = Some (map TtyBytes (tqueue i) @
       (case tresize i of None \<Rightarrow> [] | Some (r, c) \<Rightarrow> [TtySize r c]))"
  by (auto simp: ttyAttach_def ttyBytes_def Let_def dest!: attachWrites_all
      split: prod.splits bool.splits option.splits if_splits)

section \<open>The frames of the connection\<close>

text \<open>
  What one successful \<open>ReadHeader\<close> brings: the type, the decoded size of a resize, and how
  the payload reads: its chunks, whether copying it ends in an error, whether discarding it
  fails. The end of the list is the read error the loop returns.
\<close>

record inFrame =
  frameType :: string
  resizeData :: "(int \<times> int) option"
  chunks :: "string list"
  copyErr :: bool
  discardErr :: bool

text \<open>
  The writer the frames are for, as the methods the code calls on it; \<open>wIdle\<close> is what others do
  to it while the loop waits for the next header.
\<close>

record 'w inputWriter =
  wIdle :: "'w \<Rightarrow> 'w"
  wWrite :: "string \<Rightarrow> 'w \<Rightarrow> 'w \<times> (inputError + nat)"
  wResize :: "int \<Rightarrow> int \<Rightarrow> 'w \<Rightarrow> 'w \<times> (inputError + unit)"
  wStopped :: "'w \<Rightarrow> bool"
  wClose :: "'w \<Rightarrow> 'w"

text \<open>The state of a loop: the writer, and how often \<open>cancelRun\<close> was called.\<close>

record 'w inputLoop =
  sink :: 'w
  cancels :: nat

definition callCancel :: "bool \<Rightarrow> 'w inputLoop \<Rightarrow> 'w inputLoop" where
  "callCancel hasCancel st = (if hasCancel then st\<lparr>cancels := cancels st + 1\<rparr> else st)"

definition DiscardPayload :: "inFrame \<Rightarrow> inputError + unit" where
  "DiscardPayload f = (if discardErr f then Inl DiscardFailed else Inr ())"

fun ioCopy :: "'w inputWriter \<Rightarrow> string list \<Rightarrow> bool \<Rightarrow> 'w \<Rightarrow> 'w \<times> (inputError + unit)" where
  "ioCopy ops [] err w = (w, if err then Inl CopyFailed else Inr ())"
| "ioCopy ops (c # cs) err w =
     (if c = [] then ioCopy ops cs err w
      else case wWrite ops c w of
        (w1, Inl e) \<Rightarrow> (w1, Inl e)
      | (w1, Inr n) \<Rightarrow> ioCopy ops cs err w1)"

definition handleTTYResize :: "'w inputWriter \<Rightarrow> inFrame \<Rightarrow> 'w \<Rightarrow> 'w \<times> (inputError + unit)" where
  "handleTTYResize ops f w =
     (case resizeData f of None \<Rightarrow> (w, Inl DecodeFailed) | Some (rows, cols) \<Rightarrow> wResize ops rows cols w)"

definition handleInputFrame ::
  "'w inputWriter \<Rightarrow> bool \<Rightarrow> bool \<Rightarrow> inFrame \<Rightarrow> 'w inputLoop \<Rightarrow> 'w inputLoop \<times> (inputError + bool)" where
  "handleInputFrame ops allowResize hasCancel f st =
     (let unexpected = (\<lambda>phase. case DiscardPayload f of
            Inl e \<Rightarrow> (st, Inl e)
          | Inr _ \<Rightarrow> (st, Inl (UnexpectedFrame phase (frameType f)))) in
      if frameType f = ''heartbeat'' then (st, andThen (DiscardPayload f) (\<lambda>_. Inr False))
      else if frameType f = ''stdin_data'' then
        (case ioCopy ops (chunks f) (copyErr f) (sink st) of
           (w, r) \<Rightarrow> (st\<lparr>sink := w\<rparr>, andThen r (\<lambda>_. Inr False)))
      else if frameType f = ''stdin_close'' then (st, Inr True)
      else if frameType f = ''run_cancel'' then
        (case DiscardPayload f of
           Inl e \<Rightarrow> (st, Inl e)
         | Inr _ \<Rightarrow> (callCancel hasCancel st, Inr True))
      else if frameType f = ''resize_tty'' then
        (if \<not> allowResize then unexpected ''stdin''
         else case handleTTYResize ops f (sink st) of
           (w, r) \<Rightarrow> (st\<lparr>sink := w\<rparr>, andThen r (\<lambda>_. Inr False)))
      else unexpected (if allowResize then ''TTY'' else ''stdin''))"

text \<open>
  The two loops share their shape: \<open>consumeTTYInput\<close> allows resizes and does not close its
  writer, \<open>consumePipeInput\<close> closes it after the close or cancel frame.
\<close>

fun consumeInput ::
  "'w inputWriter \<Rightarrow> bool \<Rightarrow> bool \<Rightarrow> bool \<Rightarrow> inFrame list \<Rightarrow> 'w inputLoop \<Rightarrow> 'w inputLoop \<times> (inputError + unit)" where
  "consumeInput ops tty hasCancel inputClosed [] st =
     (if wStopped ops (sink st) then (st, Inr ())
      else (st\<lparr>sink := wIdle ops (sink st)\<rparr>, Inl ReadHeaderFailed))"
| "consumeInput ops tty hasCancel inputClosed (f # fs) st0 =
     (if wStopped ops (sink st0) then (st0, Inr ())
      else let st = st0\<lparr>sink := wIdle ops (sink st0)\<rparr> in
      if inputClosed then
        (let st1 = (if frameType f = ''run_cancel'' then callCancel hasCancel st else st) in
         case DiscardPayload f of
           Inl e \<Rightarrow> (st1, Inl e)
         | Inr _ \<Rightarrow> consumeInput ops tty hasCancel True fs st1)
      else
        (case handleInputFrame ops tty hasCancel f st of
           (st1, Inl e) \<Rightarrow> (st1, Inl e)
         | (st1, Inr done_) \<Rightarrow>
             (if done_
              then consumeInput ops tty hasCancel True fs
                     (if tty then st1 else st1\<lparr>sink := wClose ops (sink st1)\<rparr>)
              else consumeInput ops tty hasCancel False fs st1)))"

definition consumePipeInput where
  "consumePipeInput ops hasCancel fs st = consumeInput ops False hasCancel False fs st"

definition consumeTTYInput where
  "consumeTTYInput ops hasCancel fs st = consumeInput ops True hasCancel False fs st"

section \<open>The pipe as the writer of the loop\<close>

text \<open>
  The command reads from the pipe and may end, which stops it, while the loop waits for frames
  or for room: \<open>spPlan\<close> is what it does, one batch before each write, while a write waits and
  while a header is read; \<open>spTaken\<close> is what it has read so far.
\<close>

datatype commandAct = CommandReads nat | CommandEnds

record stdinPipe =
  spPipe :: pipeInput
  spTaken :: string
  spPlan :: "commandAct list list"

fun commandStep :: "commandAct \<Rightarrow> pipeInput \<times> string \<Rightarrow> pipeInput \<times> string" where
  "commandStep (CommandReads n) (i, out) =
     (case pipeRead n i of (i', Done (Some d)) \<Rightarrow> (i', out @ d) | (i', _) \<Rightarrow> (i', out))"
| "commandStep CommandEnds (i, out) = (pipeStop i, out)"

definition commandActs :: "stdinPipe \<Rightarrow> stdinPipe" where
  "commandActs sp =
     (case spPlan sp of
        [] \<Rightarrow> sp
      | acts # plan \<Rightarrow>
          (case fold commandStep acts (spPipe sp, spTaken sp) of
             (i, out) \<Rightarrow> \<lparr>spPipe = i, spTaken = out, spPlan = plan\<rparr>))"

text \<open>The wait of \<open>Write\<close> for room: it is woken after each batch.\<close>

function awaitWrite :: "string \<Rightarrow> stdinPipe \<Rightarrow> stdinPipe \<times> (inputError + nat)" where
  "awaitWrite c sp =
     (case pipeWrite c (spPipe sp) of
        (i, Done r) \<Rightarrow> (sp\<lparr>spPipe := i\<rparr>, r)
      | (i, Blocked) \<Rightarrow> if spPlan sp = [] then (sp, Inl StillWaiting) else awaitWrite c (commandActs sp))"
  by pat_completeness auto
termination
  by (relation "measure (\<lambda>(c, sp). length (spPlan sp))") (auto simp: commandActs_def split: list.splits prod.splits)

declare awaitWrite.simps [simp del]

definition stdinOps :: "stdinPipe inputWriter" where
  "stdinOps = \<lparr>wIdle = commandActs, wWrite = (\<lambda>c sp. awaitWrite c (commandActs sp)),
     wResize = (\<lambda>_ _ sp. (sp, Inl ResizeFailed)), wStopped = (\<lambda>sp. pstopped (spPipe sp)),
     wClose = (\<lambda>sp. sp\<lparr>spPipe := pipeClose (spPipe sp)\<rparr>)\<rparr>"

definition newStdin :: "commandAct list list \<Rightarrow> stdinPipe inputLoop" where
  "newStdin plan = \<lparr>sink = \<lparr>spPipe = newPipeInput, spTaken = [], spPlan = plan\<rparr>, cancels = 0\<rparr>"

text \<open>
  The goroutine of \<open>startPipeInputForwarding\<close>: when the loop ends the pipe is closed, and an
  error while the command still runs cancels the run.
\<close>

definition startPipeInputForwarding ::
  "bool \<Rightarrow> inFrame list \<Rightarrow> commandAct list list \<Rightarrow> stdinPipe inputLoop \<times> (inputError + unit)" where
  "startPipeInputForwarding hasCancel fs plan =
     (case consumePipeInput stdinOps hasCancel fs (newStdin plan) of
        (st, r) \<Rightarrow>
          if r = Inl StillWaiting then (st, r)
          else let st1 = st\<lparr>sink := wClose stdinOps (sink st)\<rparr> in
            (if \<not> isOk r \<and> \<not> wStopped stdinOps (sink st1) then callCancel hasCancel st1 else st1, r))"

section \<open>What the loop delivers\<close>

definition endsInput :: "inFrame \<Rightarrow> bool" where
  "endsInput f \<longleftrightarrow> frameType f = ''stdin_close'' \<or> frameType f = ''run_cancel''"

text \<open>The bytes the client sends before the frame that ends the input.\<close>

definition inputData :: "inFrame list \<Rightarrow> string" where
  "inputData fs = concat (concat (map chunks (filter (\<lambda>f. frameType f = ''stdin_data'')
     (takeWhile (\<lambda>f. \<not> endsInput f) fs))))"

definition cancelCount :: "bool \<Rightarrow> inFrame list \<Rightarrow> nat" where
  "cancelCount hasCancel fs =
     (if hasCancel then length (filter (\<lambda>f. frameType f = ''run_cancel'') fs) else 0)"

text \<open>
  What the pipe has accepted: the command has read a first part of it; the queue holds the rest,
  unless the pipe was stopped, which drops what is queued.
\<close>

definition account :: "string \<Rightarrow> pipeInput \<Rightarrow> string \<Rightarrow> bool" where
  "account w i taken \<longleftrightarrow> pipeInv i
     \<and> (if pstopped i then pipeContent i = [] \<and> prefix taken w else w = taken @ pipeContent i)"

definition accepted :: "string \<Rightarrow> stdinPipe \<Rightarrow> bool" where
  "accepted w sp \<longleftrightarrow> account w (spPipe sp) (spTaken sp)"

text \<open>A chunk that does not fit into the queue of 1 MiB.\<close>

definition noRoom :: "string \<Rightarrow> stdinPipe \<Rightarrow> bool" where
  "noRoom c sp \<longleftrightarrow> 2 ^ 20 < length (pipeContent (spPipe sp)) + length c \<and> \<not> pstopped (spPipe sp)"

lemma pipeRead_flags: "pipeRead n i = (i', r) \<Longrightarrow> pclosed i' = pclosed i \<and> pstopped i' = pstopped i"
  by (auto simp: pipeRead_def Let_def split: if_splits)

lemma pipeWrite_flags: "pipeWrite c i = (i', r) \<Longrightarrow> pclosed i' = pclosed i \<and> pstopped i' = pstopped i"
  by (auto simp: pipeWrite_def split: if_splits)

text \<open>What the command does keeps the account of the bytes.\<close>

lemma commandStep_account:
  assumes "account w i out" and "commandStep act (i, out) = (i', out')"
  shows "account w i' out' \<and> pclosed i' = pclosed i \<and> (pstopped i \<longrightarrow> pstopped i')"
proof (cases act)
  case (CommandReads n)
  obtain j r where r: "pipeRead n i = (j, r)" by fastforce
  have inv: "pipeInv i" using assms(1) by (simp add: account_def)
  note facts = pipeRead_facts [OF inv r] pipeRead_flags [OF r]
  show ?thesis
  proof (cases "\<exists>d. r = Done (Some d)")
    case True
    then show ?thesis using assms CommandReads r facts by (auto simp: account_def split: if_splits)
  next
    case False
    then have "j = i" "i' = j \<and> out' = out" using assms(2) CommandReads r facts(1)
      by (auto split: outcome.splits option.splits)
    then show ?thesis using assms(1) by simp
  qed
next
  case CommandEnds
  show ?thesis using assms CommandEnds pipeInv_pipeStop [of i]
    by (auto simp: account_def pipeStop_def pipeContent_def split: if_splits)
qed

lemma commandSteps_account:
  "account w i out \<Longrightarrow> fold commandStep acts (i, out) = (i', out') \<Longrightarrow>
   account w i' out' \<and> pclosed i' = pclosed i \<and> (pstopped i \<longrightarrow> pstopped i')"
proof (induction acts arbitrary: i out)
  case (Cons act acts)
  obtain j o1 where s: "commandStep act (i, out) = (j, o1)" by fastforce
  have "account w j o1 \<and> pclosed j = pclosed i \<and> (pstopped i \<longrightarrow> pstopped j)"
    by (rule commandStep_account [OF Cons.prems(1) s])
  then show ?case using Cons.IH [of j o1] Cons.prems(2) s by simp
qed simp

lemma commandActs_accepted:
  assumes "accepted w sp"
  shows "accepted w (commandActs sp) \<and> pclosed (spPipe (commandActs sp)) = pclosed (spPipe sp)
    \<and> (pstopped (spPipe sp) \<longrightarrow> pstopped (spPipe (commandActs sp)))"
proof (cases "spPlan sp")
  case Nil
  then show ?thesis using assms by (simp add: commandActs_def)
next
  case (Cons acts plan)
  obtain i out where f: "fold commandStep acts (spPipe sp, spTaken sp) = (i, out)" by fastforce
  from commandSteps_account [OF assms [unfolded accepted_def] f] show ?thesis
    using Cons f by (simp add: commandActs_def accepted_def)
qed

lemma awaitWrite_accepted:
  assumes "accepted w sp" and "c \<noteq> []" and "awaitWrite c sp = (sp', r)"
  shows "pclosed (spPipe sp') = pclosed (spPipe sp)
    \<and> (case r of Inr n \<Rightarrow> accepted (w @ c) sp'
       | Inl e \<Rightarrow> accepted w sp' \<and> (e = StillWaiting \<and> noRoom c sp' \<or> e = ErrClosedPipe))"
  using assms
proof (induction c sp rule: awaitWrite.induct)
  case (1 c sp)
  obtain i ans where p: "pipeWrite c (spPipe sp) = (i, ans)" by fastforce
  have inv: "pipeInv (spPipe sp)" using "1.prems"(1) by (simp add: accepted_def account_def)
  note facts = pipeWrite_facts [OF inv p] pipeWrite_flags [OF p]
  show ?case
  proof (cases ans)
    case (Done res)
    then have "(sp', r) = (sp\<lparr>spPipe := i\<rparr>, res)" using "1.prems"(3) p by (subst (asm) awaitWrite.simps) simp
    moreover have "pstopped (spPipe sp) \<Longrightarrow> isOk res \<Longrightarrow> False" "\<not> isOk res \<Longrightarrow> res = Inl ErrClosedPipe"
      using p Done "1.prems"(2) by (auto simp: pipeWrite_def split: if_splits)
    ultimately show ?thesis using "1.prems"(1) facts Done by (cases res) (auto simp: accepted_def account_def split: if_splits)
  next
    case Blocked
    then have i: "i = spPipe sp" using facts(1) by simp
    have full: "noRoom c sp"
      using p Blocked inv by (auto simp: pipeWrite_def noRoom_def pipeInv_def maxQueuedPipeInputBytes_def split: if_splits)
    show ?thesis
    proof (cases "spPlan sp = []")
      case True
      then have "(sp', r) = (sp, Inl StillWaiting)" using "1.prems"(3) p Blocked by (subst (asm) awaitWrite.simps) simp
      then show ?thesis using "1.prems"(1) full by simp
    next
      case False
      note acts = commandActs_accepted [OF "1.prems"(1)]
      have run: "awaitWrite c (commandActs sp) = (sp', r)"
        using "1.prems"(3) p Blocked False by (subst (asm) awaitWrite.simps) simp
      have "accepted w (commandActs sp)" using acts by simp
      from "1.IH" [OF p [symmetric] Blocked False this "1.prems"(2) run] show ?thesis using acts by simp
    qed
  qed
qed

lemma writeStdin_accepted:
  assumes "accepted w sp" and "c \<noteq> []" and "wWrite stdinOps c sp = (sp', r)"
  shows "pclosed (spPipe sp') = pclosed (spPipe sp)
    \<and> (case r of Inr n \<Rightarrow> accepted (w @ c) sp'
       | Inl e \<Rightarrow> accepted w sp' \<and> (e = StillWaiting \<and> noRoom c sp' \<or> e = ErrClosedPipe))"
proof -
  have run: "awaitWrite c (commandActs sp) = (sp', r)" using assms(3) by (simp add: stdinOps_def)
  have a: "accepted w (commandActs sp)" "pclosed (spPipe (commandActs sp)) = pclosed (spPipe sp)"
    using commandActs_accepted [OF assms(1)] by auto
  from awaitWrite_accepted [OF a(1) assms(2) run] a(2) show ?thesis by simp
qed

text \<open>How far a write or the loop came: \<open>more\<close> was accepted and \<open>rest\<close> is what was not.\<close>

definition delivers :: "string \<Rightarrow> string \<Rightarrow> stdinPipe \<Rightarrow> inputError + 'b \<Rightarrow> string \<Rightarrow> bool" where
  "delivers w stream sp r rest \<longleftrightarrow>
     (\<exists>more. stream = more @ rest \<and> accepted (w @ more) sp
       \<and> (r = Inl StillWaiting \<longrightarrow> (\<exists>c. prefix c rest \<and> noRoom c sp)))"

lemma ioCopy_delivers:
  "accepted w sp \<Longrightarrow> ioCopy stdinOps cs err sp = (sp', r) \<Longrightarrow>
   \<exists>rest. delivers w (concat cs) sp' r rest \<and> pclosed (spPipe sp') = pclosed (spPipe sp)
     \<and> (isOk r \<longrightarrow> rest = [] \<and> \<not> err) \<and> r \<noteq> Inl ReadHeaderFailed"
proof (induction cs arbitrary: w sp)
  case Nil
  then show ?case by (auto simp: delivers_def split: if_splits)
next
  case (Cons c cs)
  show ?case
  proof (cases "c = []")
    case True
    then show ?thesis using Cons by simp
  next
    case False
    obtain sp1 r1 where w: "wWrite stdinOps c sp = (sp1, r1)" by fastforce
    note one = writeStdin_accepted [OF Cons.prems(1) False w]
    show ?thesis
    proof (cases r1)
      case (Inl e)
      then have run: "sp' = sp1 \<and> r = Inl e" using Cons.prems(2) False w by simp
      have "delivers w (concat (c # cs)) sp1 r (c @ concat cs)"
        using one Inl run unfolding delivers_def by (auto intro!: exI [of _ "[]"] exI [of _ c])
      then show ?thesis using run one Inl by (auto intro!: exI [of _ "c @ concat cs"])
    next
      case (Inr n)
      then have "ioCopy stdinOps cs err sp1 = (sp', r)" using Cons.prems(2) False w by simp
      from Cons.IH [OF _ this, of "w @ c"] one Inr obtain rest where
        "delivers (w @ c) (concat cs) sp' r rest" "pclosed (spPipe sp') = pclosed (spPipe sp)"
        "isOk r \<longrightarrow> rest = [] \<and> \<not> err" "r \<noteq> Inl ReadHeaderFailed" by auto
      then show ?thesis by (intro exI [of _ rest]) (auto simp: delivers_def)
    qed
  qed
qed

lemma stdinOps_simps [simp]:
  "wIdle stdinOps = commandActs" "wStopped stdinOps sp = pstopped (spPipe sp)"
  "wClose stdinOps sp = sp\<lparr>spPipe := pipeClose (spPipe sp)\<rparr>"
  by (simp_all add: stdinOps_def)

lemma accepted_close: "accepted w sp \<Longrightarrow> accepted w (sp\<lparr>spPipe := pipeClose (spPipe sp)\<rparr>)"
  using pipeInv_pipeClose [of "spPipe sp"]
  by (auto simp: accepted_def account_def pipeClose_def pipeContent_def split: if_splits)

lemma consumeInput_closed:
  "accepted w (sink st) \<Longrightarrow> consumeInput stdinOps tty hasCancel True fs st = (st', r) \<Longrightarrow>
   accepted w (sink st') \<and> pclosed (spPipe (sink st')) = pclosed (spPipe (sink st)) \<and> r \<noteq> Inl StillWaiting
   \<and> (r = Inl ReadHeaderFailed \<longrightarrow> cancels st' = cancels st + cancelCount hasCancel fs)
   \<and> (isOk r \<longrightarrow> pstopped (spPipe (sink st')))"
proof (induction fs arbitrary: st)
  case Nil
  then show ?case using commandActs_accepted [of w "sink st"] by (auto simp: cancelCount_def split: if_splits)
next
  case (Cons f fs)
  show ?case
  proof (cases "pstopped (spPipe (sink st)) \<or> discardErr f")
    case True
    then show ?thesis using Cons.prems commandActs_accepted [OF Cons.prems(1)]
      by (auto simp: DiscardPayload_def callCancel_def Let_def split: if_splits)
  next
    case False
    define st1 where "st1 = (if frameType f = ''run_cancel'' then callCancel hasCancel (st\<lparr>sink := commandActs (sink st)\<rparr>)
      else st\<lparr>sink := commandActs (sink st)\<rparr>)"
    have run: "consumeInput stdinOps tty hasCancel True fs st1 = (st', r)"
      using Cons.prems(2) False by (simp add: DiscardPayload_def st1_def Let_def split: if_splits)
    have s: "sink st1 = commandActs (sink st)" by (simp add: st1_def callCancel_def)
    have k: "cancels st1 = cancels st + (if hasCancel \<and> frameType f = ''run_cancel'' then 1 else 0)"
      by (simp add: st1_def callCancel_def)
    have "accepted w (sink st1)" using commandActs_accepted [OF Cons.prems(1)] s by simp
    from Cons.IH [OF this run] show ?thesis using commandActs_accepted [OF Cons.prems(1)] s k
      by (auto simp: cancelCount_def)
  qed
qed

lemma delivers_nothing: "accepted w sp \<Longrightarrow> r \<noteq> Inl StillWaiting \<Longrightarrow> delivers w stream sp r stream"
  by (simp add: delivers_def)

lemma delivers_then:
  "delivers (w @ a) stream sp r rest \<Longrightarrow> delivers w (a @ stream) sp r rest"
  by (auto simp: delivers_def)

lemma delivers_stop: "delivers w a sp r rest \<Longrightarrow> delivers w (a @ b) sp r (rest @ b)"
  by (auto simp: delivers_def) (metis append_assoc prefix_append prefix_prefix)

lemma consumeInput_open:
  "accepted w (sink st) \<Longrightarrow> \<not> pclosed (spPipe (sink st)) \<Longrightarrow>
   consumeInput stdinOps False hasCancel False fs st = (st', r) \<Longrightarrow>
   \<exists>rest. delivers w (inputData fs) (sink st') r rest
     \<and> (r = Inl ReadHeaderFailed \<longrightarrow> rest = [] \<and> (pclosed (spPipe (sink st')) \<longleftrightarrow> list_ex endsInput fs)
         \<and> cancels st' = cancels st + cancelCount hasCancel fs)
     \<and> (isOk r \<longrightarrow> pstopped (spPipe (sink st')))"
proof (induction fs arbitrary: w st)
  case Nil
  then show ?case using commandActs_accepted [OF Nil.prems(1)]
    by (auto simp: cancelCount_def inputData_def delivers_def split: if_splits)
next
  case (Cons f fs)
  let ?sp = "commandActs (sink st)"
  note acts = commandActs_accepted [OF Cons.prems(1)]
  have open_: "accepted w ?sp" "\<not> pclosed (spPipe ?sp)" using acts Cons.prems(2) by auto
  show ?case
  proof (cases "pstopped (spPipe (sink st))")
    case True
    then show ?thesis using Cons.prems by (auto intro!: exI [of _ "inputData (f # fs)"] delivers_nothing)
  next
    case run: False
    obtain st1 h where h: "handleInputFrame stdinOps False hasCancel f (st\<lparr>sink := ?sp\<rparr>) = (st1, h)" by fastforce
    have step: "consumeInput stdinOps False hasCancel False (f # fs) st =
        (case h of Inl e \<Rightarrow> (st1, Inl e)
         | Inr d \<Rightarrow> if d then consumeInput stdinOps False hasCancel True fs (st1\<lparr>sink := wClose stdinOps (sink st1)\<rparr>)
                   else consumeInput stdinOps False hasCancel False fs st1)"
      using run h by (simp add: Let_def split: sum.splits)
    consider (data) "frameType f = ''stdin_data''" | (ends) "endsInput f" "h = Inr True"
      | (beat) "frameType f = ''heartbeat''" "h = Inr False"
      | (bad) e where "frameType f \<noteq> ''stdin_data''" "h = Inl e" "st1 = st\<lparr>sink := ?sp\<rparr>" "e \<noteq> StillWaiting" "e \<noteq> ReadHeaderFailed"
      using h by (auto simp: handleInputFrame_def DiscardPayload_def endsInput_def Let_def andThen_def split: if_splits)
    then show ?thesis
    proof cases
      case data
      obtain sp2 r2 where c: "ioCopy stdinOps (chunks f) (copyErr f) ?sp = (sp2, r2)" by fastforce
      from ioCopy_delivers [OF open_(1) c] obtain rest2 where d2:
        "delivers w (concat (chunks f)) sp2 r2 rest2" "pclosed (spPipe sp2) = pclosed (spPipe ?sp)"
        "isOk r2 \<longrightarrow> rest2 = []" "r2 \<noteq> Inl ReadHeaderFailed" by blast
      have st1: "st1 = st\<lparr>sink := sp2\<rparr>" "h = andThen r2 (\<lambda>_. Inr False)"
        using h c data by (auto simp: handleInputFrame_def Let_def)
      have split: "inputData (f # fs) = concat (chunks f) @ inputData fs"
        using data by (simp add: inputData_def endsInput_def)
      show ?thesis
      proof (cases r2)
        case (Inl e)
        then have res: "st' = st1 \<and> r = Inl e" using Cons.prems(3) step st1 by simp
        have "delivers w (concat (chunks f)) sp2 r rest2" using d2(1) Inl res by (auto simp: delivers_def)
        then show ?thesis unfolding split using res st1 Inl d2(4) by (auto intro!: exI [of _ "rest2 @ inputData fs"] delivers_stop)
      next
        case (Inr u)
        then have acc: "accepted (w @ concat (chunks f)) (sink st1)" using d2(1,3) st1 by (auto simp: delivers_def)
        have run1: "consumeInput stdinOps False hasCancel False fs st1 = (st', r)"
          using Cons.prems(3) step st1 Inr by simp
        have "\<not> pclosed (spPipe (sink st1))" using st1 d2(2) open_(2) by simp
        from Cons.IH [OF acc this run1] show ?thesis unfolding split using data st1
          by (auto simp: endsInput_def cancelCount_def intro: delivers_then)
      qed
    next
      case ends
      have none: "inputData (f # fs) = []" using ends by (simp add: inputData_def)
      have st1: "sink st1 = ?sp" "cancels st1 = cancels st + (if hasCancel \<and> frameType f = ''run_cancel'' then 1 else 0)"
        using h ends by (auto simp: handleInputFrame_def DiscardPayload_def endsInput_def Let_def callCancel_def split: if_splits)
      let ?st2 = "st1\<lparr>sink := ?sp\<lparr>spPipe := pipeClose (spPipe ?sp)\<rparr>\<rparr>"
      have run2: "consumeInput stdinOps False hasCancel True fs ?st2 = (st', r)"
        using Cons.prems(3) step ends st1(1) by simp
      have "accepted w (sink ?st2)" using accepted_close [OF open_(1)] by simp
      from consumeInput_closed [OF this run2] show ?thesis unfolding none using ends st1(2)
        by (auto simp: cancelCount_def pipeClose_def intro!: exI [of _ "[]"] delivers_nothing)
    next
      case beat
      have st1: "st1 = st\<lparr>sink := ?sp\<rparr>" using h beat by (auto simp: handleInputFrame_def)
      have same: "inputData (f # fs) = inputData fs" "endsInput f = False" using beat by (simp_all add: inputData_def endsInput_def)
      have run1: "consumeInput stdinOps False hasCancel False fs st1 = (st', r)" using Cons.prems(3) step beat by simp
      have "accepted w (sink st1)" "\<not> pclosed (spPipe (sink st1))" using open_ st1 by simp_all
      from Cons.IH [OF this run1] show ?thesis using same st1 beat by (auto simp: cancelCount_def)
    next
      case bad
      then have res: "st' = st\<lparr>sink := ?sp\<rparr>" "r = Inl e" using Cons.prems(3) step by simp_all
      have "delivers w (inputData (f # fs)) ?sp r (inputData (f # fs))" using open_(1) res(2) bad(4) by (auto intro: delivers_nothing)
      then show ?thesis using res bad(4,5) by auto
    qed
  qed
qed

section \<open>Properties\<close>

text \<open>
  For every sequence of reads and writes on the pipe to a command, the bytes read and
  the bytes still queued are the bytes whose write went through, in order, and the queue
  never exceeds 1 MiB.
\<close>

theorem pipe_conserves:
  assumes "pipeQueue.runOps ops newPipeInput = (i, ins, outs)"
  shows "ins = outs @ pipeContent i \<and> length (pipeContent i) \<le> 2 ^ 20"
  using pipeQueue.runOps_conserves [OF pipeInv_new assms]
  by (auto simp: pipeInv_def newPipeInput_def pipeContent_def maxQueuedPipeInputBytes_def)

text \<open>
  C25. Between the connection of a piped run and its command, whatever the command reads and
  whenever it ends: the loop hands the pipe a first part of the data the client sends before the
  frame that closes or cancels the input, the command reads a first part of that, and the rest is
  queued in order in at most 1 MiB unless the command has ended. When the connection ends every
  byte is handed over, stdin is closed exactly if that frame came, and \<open>cancelRun\<close> was called
  once for every cancel frame, also for those after the close. The loop waits with a chunk only
  while it does not fit, and returns without an error only when the command has ended.
\<close>

theorem pipe_input_delivered:
  assumes "consumePipeInput stdinOps hasCancel fs (newStdin plan) = (st, r)"
  shows "\<exists>handed rest. inputData fs = handed @ rest \<and> prefix (spTaken (sink st)) handed
    \<and> (\<not> pstopped (spPipe (sink st)) \<longrightarrow> handed = spTaken (sink st) @ pipeContent (spPipe (sink st)))
    \<and> length (pipeContent (spPipe (sink st))) \<le> 2 ^ 20
    \<and> (case r of
         Inr _ \<Rightarrow> pstopped (spPipe (sink st))
       | Inl e \<Rightarrow> (e = ReadHeaderFailed \<longrightarrow> rest = [] \<and> (pclosed (spPipe (sink st)) \<longleftrightarrow> list_ex endsInput fs)
             \<and> cancels st = cancelCount hasCancel fs)
           \<and> (e = StillWaiting \<longrightarrow> (\<exists>c. prefix c rest \<and> noRoom c (sink st))))"
proof -
  have start: "accepted [] (sink (newStdin plan))" "\<not> pclosed (spPipe (sink (newStdin plan)))" "cancels (newStdin plan) = 0"
    by (simp_all add: newStdin_def accepted_def account_def pipeInv_new) (simp_all add: newPipeInput_def pipeContent_def)
  from consumeInput_open [OF start(1,2) assms [unfolded consumePipeInput_def]] obtain rest where d:
    "delivers [] (inputData fs) (sink st) r rest"
    "r = Inl ReadHeaderFailed \<longrightarrow> rest = [] \<and> (pclosed (spPipe (sink st)) \<longleftrightarrow> list_ex endsInput fs)
       \<and> cancels st = cancelCount hasCancel fs"
    "isOk r \<longrightarrow> pstopped (spPipe (sink st))" using start(3) by auto
  then obtain handed where h: "inputData fs = handed @ rest" "accepted handed (sink st)"
    "r = Inl StillWaiting \<longrightarrow> (\<exists>c. prefix c rest \<and> noRoom c (sink st))" by (auto simp: delivers_def)
  show ?thesis using h d(2,3)
    by (intro exI [of _ handed] exI [of _ rest])
      (auto simp: accepted_def account_def pipeInv_def maxQueuedPipeInputBytes_def split: sum.splits if_splits)
qed

text \<open>
  When the loop of the goroutine ends the command sees the end of its input, and a connection
  that fails while the command still runs cancels the run.
\<close>

theorem input_end_is_seen:
  assumes "startPipeInputForwarding hasCancel fs plan = (st, r)" and "r \<noteq> Inl StillWaiting"
  shows "pclosed (spPipe (sink st)) \<and> (\<not> isOk r \<and> hasCancel \<and> \<not> pstopped (spPipe (sink st)) \<longrightarrow> 0 < cancels st)"
  using assms by (auto simp: startPipeInputForwarding_def callCancel_def pipeClose_def Let_def split: prod.splits if_splits)

text \<open>
  Bytes and the last size sent before the PTY exists reach it when it is attached: the
  bytes first and in order, then the size, and the queue is empty.
\<close>

theorem tty_attach_hands_over:
  assumes "twriter i = None" "ttyAttach okWrite okResize [] i = (i', Inr u)"
  shows "ttyBytes i' = ttyBytes i \<and> tqueue i' = [] \<and> tresize i' = None
    \<and> twriter i' = Some (map TtyBytes (tqueue i) @
        (case tresize i of None \<Rightarrow> [] | Some (r, c) \<Rightarrow> [TtySize r c]))"
  using ttyAttach_bytes [OF assms] .

lemma pipe_conserves_witness:
  "case pipeQueue.runOps [PutIn ''abc'', TakeOut 2, PutIn ''d'', TakeOut 5, TakeOut 5] newPipeInput
   of (i, ins, outs) \<Rightarrow> ins = ''abcd'' \<and> ins = outs @ pipeContent i"
proof -
  obtain i ins outs where r: "pipeQueue.runOps
      [PutIn ''abc'', TakeOut 2, PutIn ''d'', TakeOut 5, TakeOut 5] newPipeInput = (i, ins, outs)"
    by (metis prod_cases3)
  moreover have "ins = ''abcd''"
    using r by (simp add: pipeQueue.runOps.simps takePipe_def putPipe_def pipeRead_def
        pipeWrite_def newPipeInput_def maxQueuedPipeInputBytes_def Let_def)
  ultimately show ?thesis using pipe_conserves [OF r] by simp
qed

definition plainFrame :: "string \<Rightarrow> string list \<Rightarrow> inFrame" where
  "plainFrame t cs = \<lparr>frameType = t, resizeData = None, chunks = cs, copyErr = False,
     discardErr = False\<rparr>"

definition demoFrames :: "inFrame list" where
  "demoFrames = [plainFrame ''stdin_data'' [''ab'', ''c''], plainFrame ''heartbeat'' [],
     plainFrame ''stdin_close'' [], plainFrame ''stdin_data'' [''x''], plainFrame ''run_cancel'' []]"

definition demoInput :: "stdinPipe inputLoop" where
  "demoInput = fst (consumePipeInput stdinOps True demoFrames (newStdin [[], [CommandReads 1], [CommandReads 5]]))"

lemma demoInput_run:
  "consumePipeInput stdinOps True demoFrames (newStdin [[], [CommandReads 1], [CommandReads 5]])
   = (demoInput, Inl ReadHeaderFailed)"
  "spTaken (sink demoInput) = ''ab''" "inputData demoFrames = ''abc''"
  by (simp_all add: demoInput_def demoFrames_def plainFrame_def newStdin_def consumePipeInput_def stdinOps_def
      commandActs_def handleInputFrame_def awaitWrite.simps pipeWrite_def pipeRead_def newPipeInput_def
      maxQueuedPipeInputBytes_def DiscardPayload_def pipeClose_def callCancel_def inputData_def endsInput_def Let_def)

lemma pipe_input_delivered_witness:
  "pipeContent (spPipe (sink demoInput)) = ''c'' \<and> pclosed (spPipe (sink demoInput)) \<and> cancels demoInput = 1"
proof -
  have e: "list_ex endsInput demoFrames" "cancelCount True demoFrames = 1" by code_simp+
  have s: "\<not> pstopped (spPipe (sink demoInput))" by code_simp
  from pipe_input_delivered [OF demoInput_run(1)] show ?thesis using demoInput_run(2,3) e s by auto
qed

lemma input_end_is_seen_witness:
  "pclosed (spPipe (sink (fst (startPipeInputForwarding True [] [])))) \<and>
   0 < cancels (fst (startPipeInputForwarding True [] []))"
proof -
  let ?r = "startPipeInputForwarding True [] []"
  have s: "snd ?r = Inl ReadHeaderFailed \<and> \<not> pstopped (spPipe (sink (fst ?r)))" by code_simp
  then have run: "startPipeInputForwarding True [] [] = (fst ?r, Inl ReadHeaderFailed)" by (metis prod.collapse)
  from input_end_is_seen [OF run] s show ?thesis by simp
qed

text \<open>A full queue makes the loop wait: the command has not read, and the second chunk has no room.\<close>

lemma full_queue_waits:
  assumes "length c = 2 ^ 20" "d \<noteq> []"
  shows "snd (consumePipeInput stdinOps True [plainFrame ''stdin_data'' [c, d]] (newStdin [])) = Inl StillWaiting"
proof -
  have "c \<noteq> []" using assms(1) by auto
  then show ?thesis using assms
    by (simp add: plainFrame_def newStdin_def consumePipeInput_def stdinOps_def commandActs_def handleInputFrame_def
        awaitWrite.simps pipeWrite_def newPipeInput_def maxQueuedPipeInputBytes_def andThen_def Let_def)
qed

lemma tty_attach_hands_over_witness:
  "case ttyAttach (\<lambda>_. True) (\<lambda>_ _. True) []
     (newTtyInput\<lparr>tqueue := [''ls''], tqueued := 2, tresize := Some (24, 80)\<rparr>) of
     (i', r) \<Rightarrow> twriter i' = Some [TtyBytes ''ls'', TtySize 24 80]"
proof -
  let ?i = "newTtyInput\<lparr>tqueue := [''ls''], tqueued := 2, tresize := Some (24, 80)\<rparr>"
  obtain i' u where r: "ttyAttach (\<lambda>_. True) (\<lambda>_ _. True) [] ?i = (i', Inr u)"
    by (simp add: ttyAttach_def newTtyInput_def Let_def)
  have "twriter ?i = None" by (simp add: newTtyInput_def)
  from tty_attach_hands_over [OF this r] r show ?thesis by (simp add: newTtyInput_def)
qed

end
