(* ===== verification/Spec2Isabelle.thy ===== *)
theory Spec2Isabelle
  imports Manifest HostChoice Frames Unpack Version Reference Pairing LogStream RunInput Patterns Lease BlobTransfer
begin

text \<open>
  rmtx runs the commands of a project on a paired remote host. The client walks the project
  into a manifest, the host keeps a copy of the files in a context, the two exchange the
  differences as content-addressed blobs, the host runs the command in a workspace of the
  context and sends its output and the changed files back. This development models the
  parts of the Go program that decide what happens: data and operations are translated one
  by one, what the operating system, the network, the clock and the random source do is an
  argument of the definitions.

  \<^bold>\<open>Theories and sources\<close> (paths below src/internal).

  \<^item> Prelude: results and errors, files replaced atomically (host/json\_store.go,
    pathutil/atomic.go), the contract of a stored value as the locale \<open>json_store\<close>.
  \<^item> GoStrings, GoRunes, GoPath: the functions of Go's strings, utf8 and path packages the
    code calls, on byte strings.
  \<^item> Version (version/semver.go): parsing and comparing releases. The order is
    antisymmetric and transitive.
  \<^item> Reference (oci/reference.go): image references; the normal form parses back.
  \<^item> Pairing (host/pairing\_store.go, pair\_limit.go, trust\_store.go, the pairing handlers of
    server.go): pairing codes in a locked JSON file, rate limits per remote host, trusted
    certificates. A code pairs at most once, only while live, within the limits.
  \<^item> ByteQueue: the locales \<open>byte_source\<close> and \<open>byte_pipe\<close>, the laws of a queue of bytes
    between a producer and a consumer; interpreted in LogStream and RunInput.
  \<^item> LogStream (host/log\_stream.go): the queue between a run and a log subscriber, its writer
    goroutine as a step relation. Memory is bounded, output is an ordered selection of what
    was enqueued, drops are announced.
  \<^item> RunInput (host/run\_input.go, run\_tty\_supported.go): piped and TTY input, the frame loops, and
    the forwarding to a command that reads when it likes and ends when it likes (a plan of its
    acts for each wait of the pipe). Bytes are conserved in order, stdin is closed, cancels are heard.
  \<^item> Entries and Patterns (syncfs/manifest.go): entries, diffs, modes; exclude and include
    patterns, mounts, sync-back rules. A diff patches, patterns mean what their declarative
    reading says, mounts stay below the root.
  \<^item> Manifest (syncfs/manifest.go): building the manifest of a project by walking its mounts.
    It lists exactly what is selected, its links stay inside, its hashes have sources. The root
    theory composes it with RunCycle: a run's workspace mirrors the project.
  \<^item> RefCount: the locale \<open>ref_count\<close> of counters with exclusive sections; interpreted for
    the host's lease counters in Lease.
  \<^item> Lease (host/workspace\_lease.go, workspace\_lease\_control.go, context\_store.go): leased
    workspaces: ids, locks, metadata, preparing, finishing, pruning, deleting. Use excludes
    deletion in every interleaving of the steps of runs and delete requests, with what they do to
    the directories of leases, reuse needs a clean lease, errors give uses back.
  \<^item> BlobPlan and BlobReceive (syncfs/chunked\_blob.go, store.go): chunk plans, the writer of
    a blob, the content-addressed store, the receiver of an upload. Chunks assemble the
    content in any order, the store holds only bytes with the digest they are filed under.
  \<^item> BlobTransfer (host/blob\_transfer.go, client/blob\_transfer.go, parts of server.go and
    context\_store.go): transfer sessions served over many connections, and the client's
    retries. A session done without an error has transferred everything.
  \<^item> Config (config/config.go): where the project configuration is found, its defaults and
    checks, the identity of a project. A loaded configuration is well formed.
  \<^item> HostFS: directories and files of the host with Go's operations on them. Contexts
    (host/context\_store.go, the roots of server.go): storage, listing and deletion of contexts.
    Deleting a context leaves the others, a change of roots starts afresh.
  \<^item> OciStore (oci/store.go): the image cache, content-addressed. Collect (host/artifacts.go):
    which blobs, image files and root file systems are collected, and the artifacts of a
    context. What a manifest or an artifact state refers to is kept, damaged state stops the
    collection, the rest is removed.
  \<^item> WorkTree and Apply (syncfs/apply.go): the tree of a workspace, the staging, commit and
    rollback of a change set. Success reaches exactly the requested nodes, failure leaves the
    tree as it was up to the cases the theorem names. SyncStep: differences and their
    application composed, a step reaches the manifest it aims for.
  \<^item> HostGate (host/server.go, update.go): runs and restarts exclude each other, updates.
    HostSession (host/server.go): requests of a connection, trust, checks of a run request. What a
    host does for a client it does not trust does not depend on any handler but those of pairing.
  \<^item> RunCycle (host/server.go, context\_store.go): a run request from the sync to the clean-up.
    The histories of a workspace whose runs ended orderly (\<open>contextHistory\<close>, \<open>leaseHistory\<close>): after
    them a command starts from the client's files, and the host remembers what it left.
  \<^item> ClientDownload (client/client.go, client/blob\_transfer.go): the pipeline of a download
    worker and the wait for the workers. A worker that ends without an error has received its
    chunks, and every worker ends. ClientCache (client/cache\_prune.go, manifest\_cache.go): the
    pruning of the blobs a client keeps, and the manifest of a project kept between runs, which
    stays true when changes come back from a run.
  \<^item> ClientRun (client/client.go): the client's side of a run: the request, the upload over a
    pool of workers as a step relation, the frames of the command. The pool ends and sends every
    chunk once, a run that ends well leaves the project as the host found the workspace.
  \<^item> Frames (protocol/frame.go): frames over a buffered connection that may break. They arrive as
    they were meant, in order, and a cut connection never delivers half a frame.
  \<^item> ClientState (clientstate/state.go): the hosts a client knows and its credentials. Discovery
    (discovery/discovery.go): the responder of a host, its dial-backs, and the results of a
    client. HostChoice (app/app.go): which host a command runs on, what is mounted, pairing. A
    command runs only on a paired host, the one the project pins, and pairing is all it needs. The
    array of hosts is modelled with the slots an in-place removal leaves (\<open>hostArray\<close>), because a record
    is a pointer into it.
  \<^item> LinkFS and Unpack (oci/unpack.go): a file system with symbolic and hard links, and the
    unpacking of image layers into it. Nothing outside the target changes, and a root file system
    that becomes ready is the tree of all its layers, but for the marker.

  \<^bold>\<open>Conventions.\<close> A Go string is a list of bytes. A result \<open>(value, error)\<close> is a sum with
  the error on the left; errors keep the cases the callers distinguish. Times and durations
  are integers of nanoseconds. A method that holds its mutex throughout is one step, and
  concurrency is the order of such steps, an arbitrary list or a step relation. Maps whose
  iteration order matters take the order as an argument. Integers of the code that are
  sizes, counts and offsets are mathematical integers: the bounds that keep them inside
  int64 are proved where they are not evident (\<open>plan_bounded\<close>). Loops are structural
  recursion or have a termination proof; none needs fuel, except that the five tries of
  \<open>retryLoop\<close> count down from the constant of the code. Where a connection delivers frames,
  the frames are a list and its end is the end of the connection.

  \<^bold>\<open>Not modelled\<close>: the OCI runtime, processes, terminals, certificates, HTTP, the sockets of
  discovery, and everything that only calls the operating system or a library; the command line
  and the texts of messages and logs. Symbolic links inside the directories of the host (HostFS) and
  above the paths of a workspace (WorkTree) are left out (LinkFS has them), as are the special cases of Windows
  except where a definition names them.
\<close>

section \<open>From the project to the workspace\<close>

text \<open>Nodes that a command cannot tell apart but by their times; files by the hash of their content.\<close>

definition sameNode :: "(string \<Rightarrow> string) \<Rightarrow> wsNode \<Rightarrow> wsNode \<Rightarrow> bool" where
  "sameNode sha a b =
     (case a of
        WDir m \<Rightarrow> b = WDir m
      | WFile m c t \<Rightarrow> (case b of WFile m' c' t' \<Rightarrow> m' = m \<and> sha c' = sha c | _ \<Rightarrow> False)
      | WLink l \<Rightarrow> b = WLink l)"

lemma fits_same: "nodeFits sha False e a \<Longrightarrow> nodeFits sha False e b \<Longrightarrow> sameNode sha a b"
  by (cases a; cases b) (simp_all add: nodeFits_def sameNode_def)


definition linkProject :: diskTree where
  "linkProject = [([], DDir 493 1), ([''p''], DDir 493 1), ([''p'', ''a''], DLink 511 ''x'' 2)]"

definition linkEntry :: entry where
  "linkEntry = \<lparr>Path = ''a'', Kind = KindSymlink, Hash = [], Size = 0, Mode = 511, ModTime = 2, Linkname = ''x''\<rparr>"


end
